(* ===== verification/Prelude.thy ===== *)
theory Prelude
  imports Main "HOL-Library.Word"
begin

unbundle bit_operations_syntax

text \<open>
  Shared vocabulary of the development: the machine types of the C code, the numbers that byte
  strings denote in either byte order, and the word lemmas that let the component theories move
  between shift-and-or code and arithmetic.

  \<^item> \<open>be_val\<close> and \<open>le_val\<close> read a byte string as a natural number, \<open>be_bytes n v\<close> and
    \<open>le_bytes n v\<close> write the low \<open>n\<close> bytes of a number.
  \<^item> The collection \<open>byte_order\<close> holds the round trips between the two directions.
  \<^item> The collection \<open>shift_or\<close> turns a shift followed by an OR of a narrow value into a
    multiplication and an addition.
\<close>

type_synonym byte = "8 word"
type_synonym u16 = "16 word"
type_synonym u32 = "32 word"
type_synonym u64 = "64 word"
type_synonym bytes = "8 word list"

named_theorems byte_order \<open>round trips between byte strings and numbers\<close>
named_theorems shift_or \<open>shift-and-or code as arithmetic\<close>

section \<open>Words\<close>

lemma unat_byte_less [simp]: "unat (b :: byte) < 256"
  by (rule less_le_trans [OF unsigned_less]) simp

lemma unat_u16_less: "unat (w :: u16) < 65536"
  by (rule less_le_trans [OF unsigned_less]) simp

lemma unat_u32_less: "unat (w :: u32) < 4294967296"
  by (rule less_le_trans [OF unsigned_less]) simp

lemma unat_u64_less: "unat (w :: u64) < 18446744073709551616"
  by (rule less_le_trans [OF unsigned_less]) simp

lemma not_bit_beyond [simp]: "LENGTH('a) \<le> n \<Longrightarrow> \<not> bit (w :: 'a::len word) n"
  using bit_imp_le_length [of w n] by auto

lemma bit_odd_unat: "bit (w :: 'a::len word) n \<longleftrightarrow> odd (unat w div 2 ^ n)"
  unfolding bit_iff_odd [of "unat w" n, symmetric] by (simp add: bit_unsigned_iff)

lemma bit_of_narrow:
  assumes "unat (b :: 'a::len word) < 2 ^ k" and "k \<le> n"
  shows "\<not> bit b n"
proof
  assume "bit b n"
  then have "bit (unat b) n" by (simp add: bit_unsigned_iff)
  moreover have "unat b < 2 ^ n"
    using assms by (meson less_le_trans one_le_numeral power_increasing)
  ultimately show False
    by (simp add: bit_iff_odd)
qed

lemma xor_eq_0_iff: "a XOR b = 0 \<longleftrightarrow> a = (b :: 'a::len word)"
  by (metis xor.assoc xor.left_neutral xor_self_eq)

lemma push_bit_or_eq_add:
  assumes "unat (b :: 'a::len word) < 2 ^ k"
  shows "push_bit k a OR b = push_bit k a + b"
proof -
  have "\<not> bit (push_bit k a) n \<or> \<not> bit b n" for n
    using bit_of_narrow [OF assms, of n] by (auto simp: bit_push_bit_iff)
  then show ?thesis
    by (simp add: disjunctive_add)
qed

lemma unat_push_bit_or [shift_or]:
  assumes "unat (b :: 'a::len word) < 2 ^ k"
  shows "unat (push_bit k a OR b) = (unat a * 2 ^ k + unat b) mod 2 ^ LENGTH('a)"
proof -
  have "push_bit k a OR b = word_of_nat (unat a * 2 ^ k + unat b)"
    by (simp only: push_bit_or_eq_add [OF assms]) (simp add: push_bit_eq_mult)
  then show ?thesis by (simp only: unat_of_nat)
qed

lemma unat_ucast_up:
  assumes "LENGTH('b) \<le> LENGTH('a)"
  shows "unat (ucast (b :: 'b::len word) :: 'a::len word) = unat b"
proof -
  have "unat b < 2 ^ LENGTH('a)"
    by (rule less_le_trans [OF unsigned_less]) (simp add: assms power_increasing)
  then show ?thesis
    by (simp add: unsigned_ucast_eq take_bit_nat_eq_self_iff)
qed

lemma unat_drop_bit: "unat (drop_bit k (a :: 'a::len word)) = unat a div 2 ^ k"
  by (metis drop_bit_eq_div take_bit_nat_eq_self_iff unsigned_drop_bit_eq unsigned_less)

lemma unat_ucast_down:
  "unat (ucast (a :: 'a::len word) :: 'b::len word) = unat a mod 2 ^ LENGTH('b)"
  by (simp add: unsigned_ucast_eq take_bit_eq_mod)

section \<open>Byte strings as numbers\<close>

definition be_val :: "bytes \<Rightarrow> nat" where
  "be_val bs = foldl (\<lambda>v b. v * 256 + unat b) 0 bs"

primrec le_val :: "bytes \<Rightarrow> nat" where
  "le_val [] = 0"
| "le_val (b # bs) = unat b + 256 * le_val bs"

primrec le_bytes :: "nat \<Rightarrow> nat \<Rightarrow> bytes" where
  "le_bytes 0 v = []"
| "le_bytes (Suc n) v = word_of_nat v # le_bytes n (v div 256)"

definition be_bytes :: "nat \<Rightarrow> nat \<Rightarrow> bytes" where
  "be_bytes n v = rev (le_bytes n v)"

lemma be_val_Nil [simp]: "be_val [] = 0"
  by (simp add: be_val_def)

lemma be_val_snoc [simp]: "be_val (bs @ [b]) = be_val bs * 256 + unat b"
  by (simp add: be_val_def)

lemma be_val_le_val: "be_val bs = le_val (rev bs)"
  by (induction bs rule: rev_induct) auto

lemma be_val_single [simp]: "be_val [b] = unat b"
  using be_val_snoc [of "[]" b] by simp

lemma length_le_bytes [simp]: "length (le_bytes n v) = n"
  by (induction n arbitrary: v) auto

lemma length_be_bytes [simp]: "length (be_bytes n v) = n"
  by (simp add: be_bytes_def)

lemma nth_le_bytes: "i < n \<Longrightarrow> le_bytes n v ! i = word_of_nat (v div 256 ^ i)"
proof (induction n arbitrary: v i)
  case (Suc n)
  then show ?case
    by (cases i) (simp_all add: div_mult2_eq)
qed simp

lemma bit_nth_le_bytes:
  assumes "i < n"
  shows "bit (le_bytes n v ! i) j \<longleftrightarrow> j < 8 \<and> bit v (8 * i + j)"
proof -
  have "v div 256 ^ i = drop_bit (8 * i) v"
    by (simp add: drop_bit_eq_div power_mult)
  then show ?thesis
    by (auto simp: nth_le_bytes [OF assms] bit_of_nat_iff bit_drop_bit_eq
          dest: bit_imp_le_length)
qed

lemma le_val_append: "le_val (xs @ ys) = le_val xs + 256 ^ length xs * le_val ys"
  by (induction xs) (auto simp: algebra_simps)

lemma be_val_append: "be_val (xs @ ys) = be_val xs * 256 ^ length ys + be_val ys"
  by (simp add: be_val_le_val le_val_append)

lemma be_val_Cons: "be_val (b # bs) = unat b * 256 ^ length bs + be_val bs"
  using be_val_append [of "[b]" bs] by simp

lemma le_val_replicate_0 [simp]: "le_val (replicate n 0) = 0"
  by (induction n) simp_all

lemma le_val_less: "le_val bs < 256 ^ length bs"
proof (induction bs)
  case (Cons b bs)
  have "unat b + 256 * le_val bs < 256 + 256 * le_val bs" by simp
  also have "\<dots> \<le> 256 * 256 ^ length bs"
    using Cons by (metis Suc_leI mult_Suc_right mult_le_mono2)
  finally show ?case by simp
qed simp

lemma be_val_less: "be_val bs < 256 ^ length bs"
  using le_val_less [of "rev bs"] by (simp add: be_val_le_val)

lemma le_val_le_bytes [byte_order]: "le_val (le_bytes n v) = v mod 256 ^ n"
proof (induction n arbitrary: v)
  case (Suc n)
  then show ?case
    by (simp add: unat_of_nat mod_mult2_eq)
qed simp

lemma be_val_be_bytes [byte_order]: "be_val (be_bytes n v) = v mod 256 ^ n"
  by (simp add: be_bytes_def be_val_le_val le_val_le_bytes)

lemma word_of_nat_byte_add [simp]: "(word_of_nat (unat b + 256 * n) :: byte) = b"
  unfolding word_unat_eq_iff unat_of_nat by simp

lemma le_bytes_le_val [byte_order]: "le_bytes (length bs) (le_val bs) = bs"
  by (induction bs) (simp_all del: of_nat_add of_nat_mult)

lemma be_bytes_be_val [byte_order]: "be_bytes (length bs) (be_val bs) = bs"
  using le_bytes_le_val [of "rev bs"] by (simp add: be_bytes_def be_val_le_val)

lemma be_val_inject: "length xs = length ys \<Longrightarrow> be_val xs = be_val ys \<Longrightarrow> xs = ys"
  by (metis be_bytes_be_val)

lemma le_val_inject: "length xs = length ys \<Longrightarrow> le_val xs = le_val ys \<Longrightarrow> xs = ys"
  by (metis le_bytes_le_val)

lemma be_bytes_Suc: "be_bytes (Suc n) v = be_bytes n (v div 256) @ [word_of_nat v]"
  by (simp add: be_bytes_def)

lemma be_bytes_0 [simp]: "be_bytes 0 v = []"
  by (simp add: be_bytes_def)

section \<open>Positions in a circular buffer\<close>

lemma mod_add_neq:
  fixes n k m :: nat
  assumes "0 < k" "k < m"
  shows "(n + k) mod m \<noteq> n mod m"
proof
  assume "(n + k) mod m = n mod m"
  then have "m dvd k" using mod_eq_dvd_iff_nat [of n "n + k" m] by simp
  then show False using assms by (auto dest: dvd_imp_le)
qed

section \<open>Lists\<close>

lemma take_drop_split: "n \<le> length xs \<Longrightarrow> xs = take n xs @ drop n xs \<and> length (take n xs) = n"
  by simp

section \<open>Streams of blocks\<close>

text \<open>The first \<open>n\<close> bytes of the blocks \<open>T i\<close>, \<open>T (i + 1)\<close>, ... of \<open>bl\<close> bytes each.\<close>

definition take_blocks :: "nat \<Rightarrow> (nat \<Rightarrow> 'a list) \<Rightarrow> nat \<Rightarrow> nat \<Rightarrow> 'a list" where
  "take_blocks bl T i n = take n (concat (map T [i..<i + (n + bl - 1) div bl]))"

lemma ceil_div_Suc: "0 < n \<Longrightarrow> 0 < bl \<Longrightarrow> (n + bl - 1) div bl = Suc ((n - 1) div (bl :: nat))"
proof -
  assume n: "0 < n" "0 < bl"
  have e: "n + bl - 1 = (n - 1) + bl" using n(1) by simp
  show ?thesis unfolding e using n(2) by (simp add: div_add_self2)
qed

lemma take_blocks_step:
  assumes "0 < bl" "length (T i) = bl" "0 < n"
  shows "take_blocks bl T i n = (if n \<le> bl then take n (T i) else T i @ take_blocks bl T (Suc i) (n - bl))"
proof -
  define k where "k = (n - 1) div bl"
  have k: "(n + bl - 1) div bl = Suc k" unfolding k_def using assms by (intro ceil_div_Suc)
  have u: "[i..<i + Suc k] = i # [Suc i..<Suc i + k]" by (subst upt_conv_Cons) simp_all
  show ?thesis
  proof (cases "n \<le> bl")
    case True
    then show ?thesis unfolding take_blocks_def k u using assms by simp
  next
    case False
    then have "(n - bl + bl - 1) div bl = k" by (simp add: k_def)
    then show ?thesis using False assms(2) unfolding take_blocks_def k u by simp
  qed
qed

lemma length_take_blocks:
  assumes "0 < bl" "\<And>i. length (T i) = bl"
  shows "length (take_blocks bl T i n) = n"
proof -
  have l: "length (concat (map T [i..<i + m])) = m * bl" for m
    by (induction m) (simp_all add: assms(2))
  have "n \<le> (n + bl - 1) div bl * bl"
    using div_mult_mod_eq [of "n + bl - 1" bl] mod_less_divisor [OF assms(1), of "n + bl - 1"] by linarith
  then show ?thesis unfolding take_blocks_def using l by simp
qed

end
