(* ===== verification/Internal.thy ===== *)
theory Internal
  imports Prelude
begin

text \<open>
  The inline helpers of \<open>crypto/internal.h\<close>: byte swaps, unaligned loads and stores in both byte
  orders, rotations, and the constant-time comparison and selection primitives. \<open>crypto_word_t\<close> is
  \<open>uint64_t\<close> (the 64-bit build); the host is little-endian, as \<open>CRYPTO_load_u32_le\<close> assumes.
  The value barriers are the identity, as in the source. The lemmas give each mask function its
  arithmetic meaning, each load its value, and each rotation its inverse.
\<close>

type_synonym crypto_word = "64 word"

section \<open>Byte swaps, loads and stores\<close>

definition CRYPTO_bswap2 :: "u16 \<Rightarrow> u16" where
  "CRYPTO_bswap2 x = (drop_bit 8 x OR push_bit 8 x)"

definition CRYPTO_bswap4 :: "u32 \<Rightarrow> u32" where
  "CRYPTO_bswap4 x =
     (let y = drop_bit 16 x OR push_bit 16 x
      in drop_bit 8 (y AND 0xff00ff00) OR push_bit 8 (y AND 0x00ff00ff))"

definition CRYPTO_bswap8 :: "u64 \<Rightarrow> u64" where
  "CRYPTO_bswap8 x =
     (ucast (CRYPTO_bswap4 (ucast (drop_bit 32 x))) OR
      push_bit 32 (ucast (CRYPTO_bswap4 (ucast x))))"

definition CRYPTO_load_u32_le :: "bytes \<Rightarrow> u32" where
  "CRYPTO_load_u32_le bs = word_of_nat (le_val (take 4 bs))"

definition CRYPTO_store_u32_le :: "u32 \<Rightarrow> bytes" where
  "CRYPTO_store_u32_le v = le_bytes 4 (unat v)"

definition CRYPTO_load_u32_be :: "bytes \<Rightarrow> u32" where
  "CRYPTO_load_u32_be bs = CRYPTO_bswap4 (CRYPTO_load_u32_le bs)"

definition CRYPTO_store_u32_be :: "u32 \<Rightarrow> bytes" where
  "CRYPTO_store_u32_be v = CRYPTO_store_u32_le (CRYPTO_bswap4 v)"

definition CRYPTO_load_u64_le :: "bytes \<Rightarrow> u64" where
  "CRYPTO_load_u64_le bs = word_of_nat (le_val (take 8 bs))"

definition CRYPTO_store_u64_le :: "u64 \<Rightarrow> bytes" where
  "CRYPTO_store_u64_le v = le_bytes 8 (unat v)"

definition CRYPTO_load_u64_be :: "bytes \<Rightarrow> u64" where
  "CRYPTO_load_u64_be bs = CRYPTO_bswap8 (CRYPTO_load_u64_le bs)"

definition CRYPTO_store_u64_be :: "u64 \<Rightarrow> bytes" where
  "CRYPTO_store_u64_be v = CRYPTO_store_u64_le (CRYPTO_bswap8 v)"

lemma length_store_u32 [simp]:
  "length (CRYPTO_store_u32_le v) = 4" "length (CRYPTO_store_u32_be v) = 4"
  by (simp_all add: CRYPTO_store_u32_le_def CRYPTO_store_u32_be_def)

lemma length_store_u64 [simp]:
  "length (CRYPTO_store_u64_le v) = 8" "length (CRYPTO_store_u64_be v) = 8"
  by (simp_all add: CRYPTO_store_u64_le_def CRYPTO_store_u64_be_def)

lemma load_store_u32_le [byte_order]:
  "CRYPTO_load_u32_le (CRYPTO_store_u32_le v @ rest) = v"
  by (simp add: CRYPTO_load_u32_le_def CRYPTO_store_u32_le_def le_val_le_bytes
        unat_of_nat word_unat_eq_iff unat_u32_less)

lemma load_store_u64_le [byte_order]:
  "CRYPTO_load_u64_le (CRYPTO_store_u64_le v @ rest) = v"
  by (simp add: CRYPTO_load_u64_le_def CRYPTO_store_u64_le_def le_val_le_bytes
        unat_of_nat word_unat_eq_iff unat_u64_less)

lemma load_u32_le_local: "4 * i + 4 \<le> length x \<Longrightarrow>
    CRYPTO_load_u32_le (drop (4 * i) (x @ y)) = CRYPTO_load_u32_le (drop (4 * i) x)"
  by (simp add: CRYPTO_load_u32_le_def)

lemma load_u32_be_local: "4 * i + 4 \<le> length x \<Longrightarrow>
    CRYPTO_load_u32_be (drop (4 * i) (x @ y)) = CRYPTO_load_u32_be (drop (4 * i) x)"
  by (simp add: CRYPTO_load_u32_be_def load_u32_le_local del: drop_append)

lemma load_u64_be_local: "8 * i + 8 \<le> length x \<Longrightarrow>
    CRYPTO_load_u64_be (drop (8 * i) (x @ y)) = CRYPTO_load_u64_be (drop (8 * i) x)"
  by (simp add: CRYPTO_load_u64_be_def CRYPTO_load_u64_le_def)

lemma bit_bswap2: "n < 16 \<Longrightarrow> bit (CRYPTO_bswap2 x) n = bit x (8 * (1 - n div 8) + n mod 8)"
proof -
  assume n: "n < 16"
  then have "n div 8 = 0 \<and> n mod 8 = n \<or> 8 \<le> n \<and> n div 8 = 1 \<and> n mod 8 = n - 8"
    by (cases "n < 8") (auto simp: le_div_geq le_mod_geq)
  then show ?thesis
    using n by (auto simp: CRYPTO_bswap2_def bit_or_iff bit_drop_bit_eq bit_push_bit_iff)
qed

lemma bit_bswap4: "n < 32 \<Longrightarrow> bit (CRYPTO_bswap4 x) n = bit x (8 * (3 - n div 8) + n mod 8)"
proof -
  assume "n < 32"
  then have "n \<in> {0..<32}" by simp
  then show ?thesis
    unfolding CRYPTO_bswap4_def Let_def
    by (simp add: atLeastLessThan_nat_numeral del: One_nat_def)
       (elim disjE; simp add: bit_or_iff bit_and_iff bit_drop_bit_eq bit_push_bit_iff;
         simp add: numeral_2_eq_2)
qed

lemma bit_bswap8: "n < 64 \<Longrightarrow> bit (CRYPTO_bswap8 x) n = bit x (8 * (7 - n div 8) + n mod 8)"
proof -
  assume "n < 64"
  then have "n \<in> {0..<64}" by simp
  then show ?thesis
    unfolding CRYPTO_bswap8_def
    by (simp add: atLeastLessThan_nat_numeral bit_or_iff bit_push_bit_iff bit_ucast_iff)
       (elim disjE; simp add: bit_bswap4 bit_ucast_iff bit_drop_bit_eq)
qed

lemma nth_rev_swap:
  assumes "length xs = n" "length ys = n"
    and "\<And>i j. i < n \<Longrightarrow> j < 8 \<Longrightarrow> bit (xs ! i) j = bit (ys ! (n - Suc i)) j"
  shows "(xs :: bytes) = rev ys"
  using assms
  by (intro nth_equalityI) (auto simp: rev_nth intro!: bit_word_eqI)

lemma store_u32_be_eq: "CRYPTO_store_u32_be v = be_bytes 4 (unat v)"
  unfolding CRYPTO_store_u32_be_def CRYPTO_store_u32_le_def be_bytes_def
  by (rule nth_rev_swap [where n = 4])
     (auto simp: bit_nth_le_bytes bit_unsigned_iff bit_bswap4 algebra_simps)

lemma store_u64_be_eq: "CRYPTO_store_u64_be v = be_bytes 8 (unat v)"
  unfolding CRYPTO_store_u64_be_def CRYPTO_store_u64_le_def be_bytes_def
  by (rule nth_rev_swap [where n = 8])
     (auto simp: bit_nth_le_bytes bit_unsigned_iff bit_bswap8 algebra_simps)

lemma bswap2_involution [simp]: "CRYPTO_bswap2 (CRYPTO_bswap2 x) = x"
proof (rule bit_word_eqI)
  fix n assume "n < LENGTH(16)"
  then have "n < 16" by simp
  moreover from this have "n div 8 = 0 \<and> n mod 8 = n \<or> 8 \<le> n \<and> n div 8 = 1 \<and> n mod 8 = n - 8"
    by (cases "n < 8") (auto simp: le_div_geq le_mod_geq)
  ultimately show "bit (CRYPTO_bswap2 (CRYPTO_bswap2 x)) n = bit x n"
    by (auto simp: bit_bswap2)
qed

section \<open>Rotations\<close>

definition CRYPTO_rotl_u32 :: "u32 \<Rightarrow> nat \<Rightarrow> u32" where
  "CRYPTO_rotl_u32 value shift = (push_bit shift value OR drop_bit (nat (- int shift mod 32)) value)"

definition CRYPTO_rotr_u32 :: "u32 \<Rightarrow> nat \<Rightarrow> u32" where
  "CRYPTO_rotr_u32 value shift = (drop_bit shift value OR push_bit (nat (- int shift mod 32)) value)"

definition CRYPTO_rotl_u64 :: "u64 \<Rightarrow> nat \<Rightarrow> u64" where
  "CRYPTO_rotl_u64 value shift = (push_bit shift value OR drop_bit (nat (- int shift mod 64)) value)"

definition CRYPTO_rotr_u64 :: "u64 \<Rightarrow> nat \<Rightarrow> u64" where
  "CRYPTO_rotr_u64 value shift = (drop_bit shift value OR push_bit (nat (- int shift mod 64)) value)"

lemma neg_mod_shift: "0 < s \<Longrightarrow> s < m \<Longrightarrow> nat (- int s mod int m) = m - s"
  by (simp add: zmod_zminus1_eq_if nat_diff_distrib)

lemma rotr_rotl_u32:
  assumes "0 < s" "s < 32"
  shows "CRYPTO_rotr_u32 (CRYPTO_rotl_u32 x s) s = x"
proof -
  have "nat (- int s mod 32) = 32 - s"
    using neg_mod_shift [OF assms] by simp
  then show ?thesis
    unfolding CRYPTO_rotr_u32_def CRYPTO_rotl_u32_def
    using assms
    by (intro bit_word_eqI, rename_tac n, case_tac "n + s < 32")
       (auto simp: bit_or_iff bit_drop_bit_eq bit_push_bit_iff add.commute)
qed

section \<open>Constant-time primitives\<close>

definition constant_time_msb_w :: "crypto_word \<Rightarrow> crypto_word" where
  "constant_time_msb_w a = 0 - drop_bit 63 a"

definition constant_time_lt_w :: "crypto_word \<Rightarrow> crypto_word \<Rightarrow> crypto_word" where
  "constant_time_lt_w a b = constant_time_msb_w (a XOR ((a XOR b) OR ((a - b) XOR a)))"

definition constant_time_lt_8 :: "crypto_word \<Rightarrow> crypto_word \<Rightarrow> byte" where
  "constant_time_lt_8 a b = ucast (constant_time_lt_w a b)"

definition constant_time_ge_w :: "crypto_word \<Rightarrow> crypto_word \<Rightarrow> crypto_word" where
  "constant_time_ge_w a b = NOT (constant_time_lt_w a b)"

definition constant_time_ge_8 :: "crypto_word \<Rightarrow> crypto_word \<Rightarrow> byte" where
  "constant_time_ge_8 a b = ucast (constant_time_ge_w a b)"

definition constant_time_is_zero_w :: "crypto_word \<Rightarrow> crypto_word" where
  "constant_time_is_zero_w a = constant_time_msb_w (NOT a AND (a - 1))"

definition constant_time_is_zero_8 :: "crypto_word \<Rightarrow> byte" where
  "constant_time_is_zero_8 a = ucast (constant_time_is_zero_w a)"

definition constant_time_eq_w :: "crypto_word \<Rightarrow> crypto_word \<Rightarrow> crypto_word" where
  "constant_time_eq_w a b = constant_time_is_zero_w (a XOR b)"

definition constant_time_eq_8 :: "crypto_word \<Rightarrow> crypto_word \<Rightarrow> byte" where
  "constant_time_eq_8 a b = ucast (constant_time_eq_w a b)"

definition constant_time_eq_int :: "int \<Rightarrow> int \<Rightarrow> crypto_word" where
  "constant_time_eq_int a b = constant_time_eq_w (word_of_int a) (word_of_int b)"

definition constant_time_eq_int_8 :: "int \<Rightarrow> int \<Rightarrow> byte" where
  "constant_time_eq_int_8 a b = constant_time_eq_8 (word_of_int a) (word_of_int b)"

definition constant_time_select_w :: "crypto_word \<Rightarrow> crypto_word \<Rightarrow> crypto_word \<Rightarrow> crypto_word" where
  "constant_time_select_w msk a b = ((msk AND a) OR (NOT msk AND b))"

definition constant_time_select_8 :: "byte \<Rightarrow> byte \<Rightarrow> byte \<Rightarrow> byte" where
  "constant_time_select_8 msk a b = ucast (constant_time_select_w (ucast msk) (ucast a) (ucast b))"

lemma bit_63_iff: "bit (a :: crypto_word) 63 \<longleftrightarrow> 2 ^ 63 \<le> unat a"
proof -
  have "bit a 63 \<longleftrightarrow> odd (unat a div 2 ^ 63)"
    unfolding bit_iff_odd [of "unat a" 63, symmetric] by (simp add: bit_unsigned_iff)
  moreover have "unat a div 2 ^ 63 < 2"
    by (rule less_mult_imp_div_less, rule less_le_trans [OF unat_u64_less]) simp
  moreover have "unat a div 2 ^ 63 = 0 \<longleftrightarrow> unat a < 2 ^ 63"
    by (simp add: div_eq_0_iff)
  ultimately show ?thesis
    by (metis One_nat_def dvd_0_right less_2_cases linorder_not_le odd_one)
qed

lemma msb_w_eq: "constant_time_msb_w a = (if bit a 63 then - 1 else 0)"
proof -
  have "drop_bit 63 a = of_bool (bit a 63)"
    by (rule bit_word_eqI, rename_tac n, case_tac n)
       (auto simp: bit_drop_bit_eq bit_of_bool_iff)
  then show ?thesis by (simp add: constant_time_msb_w_def)
qed

lemma constant_time_lt_w_eq: "constant_time_lt_w a b = (if a < b then - 1 else 0)"
proof -
  let ?w = "a XOR ((a XOR b) OR ((a - b) XOR a))"
  have "bit ?w 63 \<longleftrightarrow>
      (if bit a 63 = bit b 63 then bit (a - b) 63 else bit b 63)"
    by (auto simp: bit_xor_iff bit_or_iff)
  also have "\<dots> \<longleftrightarrow> unat a < unat b"
    using unat_u64_less [of a] unat_u64_less [of b] unat_sub_if' [of a b]
    by (simp add: bit_63_iff split: if_splits; linarith)
  finally show ?thesis
    by (simp add: constant_time_lt_w_def msb_w_eq word_less_nat_alt)
qed

lemma constant_time_is_zero_w_eq: "constant_time_is_zero_w a = (if a = 0 then - 1 else 0)"
proof -
  have "bit (NOT a AND (a - 1)) 63 \<longleftrightarrow> \<not> bit a 63 \<and> bit (a - 1) 63"
    by (auto simp: bit_and_iff bit_not_iff)
  also have "\<dots> \<longleftrightarrow> a = 0"
    using unat_u64_less [of a] unat_sub_if' [of a 1]
    by (auto simp: bit_63_iff word_unat_eq_iff split: if_splits)
  finally show ?thesis
    by (simp add: constant_time_is_zero_w_def msb_w_eq)
qed

lemma constant_time_eq_w_eq: "constant_time_eq_w a b = (if a = b then - 1 else 0)"
  by (simp add: constant_time_eq_w_def constant_time_is_zero_w_eq xor_eq_0_iff)

lemma constant_time_ge_w_eq: "constant_time_ge_w a b = (if b \<le> a then - 1 else 0)"
  by (simp add: constant_time_ge_w_def constant_time_lt_w_eq not_le)

lemma constant_time_select_w_eq:
  "constant_time_select_w (- 1) a b = a" "constant_time_select_w 0 a b = b"
  by (simp_all add: constant_time_select_w_def)

lemma ucast_minus_one [simp]: "(ucast (- 1 :: crypto_word) :: byte) = - 1"
  by (rule bit_word_eqI) (auto simp: bit_ucast_iff)

lemma constant_time_select_8_eq:
  "constant_time_select_8 (- 1) a b = a" "constant_time_select_8 0 a b = b"
proof -
  show "constant_time_select_8 (- 1) a b = a"
    by (rule bit_word_eqI)
       (auto simp: constant_time_select_8_def constant_time_select_w_def bit_ucast_iff bit_or_iff
             bit_and_iff bit_not_iff)
  show "constant_time_select_8 0 a b = b"
    by (rule bit_word_eqI)
       (auto simp: constant_time_select_8_def constant_time_select_w_def bit_ucast_iff bit_or_iff
             bit_and_iff bit_not_iff)
qed

lemma constant_time_8_eq:
  "constant_time_lt_8 a b = (if a < b then - 1 else 0)"
  "constant_time_ge_8 a b = (if b \<le> a then - 1 else 0)"
  "constant_time_is_zero_8 a = (if a = 0 then - 1 else 0)"
  "constant_time_eq_8 a b = (if a = b then - 1 else 0)"
  by (simp_all add: constant_time_lt_8_def constant_time_ge_8_def constant_time_is_zero_8_def
        constant_time_eq_8_def constant_time_lt_w_eq constant_time_ge_w_eq
        constant_time_is_zero_w_eq constant_time_eq_w_eq)

end
