(* ===== verification/Mem.thy ===== *)
theory Mem
  imports Internal
begin

text \<open>
  \<open>crypto/mem.c\<close>: allocation with its size prefix, constant-time comparison, the FNV-1a hash and the
  string helpers.

  The system allocator is not part of the repository. It is the parameter \<open>libc\<close> of every
  allocating function: \<open>libc n\<close> says whether \<open>malloc(n)\<close> returns memory. A block is the list of the
  bytes the program has stored in it. A C string is the list of the bytes that can be read from its
  pointer; reading at or past the end of the list gives the terminating NUL. \<open>char\<close> is signed, as on
  the platforms the pod is built for.
\<close>

section \<open>Allocation\<close>

definition OPENSSL_MALLOC_PREFIX :: nat where
  "OPENSSL_MALLOC_PREFIX = 8"

text \<open>Whether the call returns a non-NULL pointer.\<close>

definition OPENSSL_malloc :: "(nat \<Rightarrow> bool) \<Rightarrow> nat \<Rightarrow> bool" where
  "OPENSSL_malloc libc n =
     (if (n + OPENSSL_MALLOC_PREFIX) mod 2 ^ 64 < n then False
      else libc (n + OPENSSL_MALLOC_PREFIX))"

text \<open>The defined bytes of the new block: the old contents up to the smaller of the two sizes.\<close>

definition OPENSSL_realloc :: "(nat \<Rightarrow> bool) \<Rightarrow> bytes option \<Rightarrow> nat \<Rightarrow> bytes option" where
  "OPENSSL_realloc libc orig new_size =
     (case orig of
        None \<Rightarrow> if OPENSSL_malloc libc new_size then Some [] else None
      | Some old \<Rightarrow>
          if \<not> OPENSSL_malloc libc new_size then None
          else
            let to_copy = (if length old < new_size then length old else new_size)
            in Some (take to_copy old))"

definition OPENSSL_memdup :: "(nat \<Rightarrow> bool) \<Rightarrow> bytes \<Rightarrow> bytes option" where
  "OPENSSL_memdup libc data =
     (if length data = 0 then None
      else if \<not> OPENSSL_malloc libc (length data) then None
      else Some data)"

text \<open>\<open>OPENSSL_memcpy(buf + off, src, len)\<close>.\<close>

definition mem_copy :: "bytes \<Rightarrow> nat \<Rightarrow> bytes \<Rightarrow> bytes" where
  "mem_copy buf off src = take off buf @ src @ drop (off + length src) buf"

section \<open>Comparison and hashing\<close>

fun CRYPTO_memcmp_loop :: "bytes \<Rightarrow> bytes \<Rightarrow> byte \<Rightarrow> byte" where
  "CRYPTO_memcmp_loop (a # as) (b # bs) x = CRYPTO_memcmp_loop as bs (x OR (a XOR b))"
| "CRYPTO_memcmp_loop _ _ x = x"

definition CRYPTO_memcmp :: "bytes \<Rightarrow> bytes \<Rightarrow> byte" where
  "CRYPTO_memcmp in_a in_b = CRYPTO_memcmp_loop in_a in_b 0"

text \<open>\<open>OPENSSL_memcmp\<close>: the sign of the first difference.\<close>

fun mem_cmp :: "bytes \<Rightarrow> bytes \<Rightarrow> int" where
  "mem_cmp (a # as) (b # bs) = (if a = b then mem_cmp as bs else if a < b then - 1 else 1)"
| "mem_cmp _ _ = 0"

definition OPENSSL_hash32 :: "bytes \<Rightarrow> u32" where
  "OPENSSL_hash32 bs = foldl (\<lambda>h b. (h XOR ucast b) * 16777619) 2166136261 bs"

section \<open>Strings\<close>

definition cstr_hd :: "bytes \<Rightarrow> byte" where
  "cstr_hd s = (case s of [] \<Rightarrow> 0 | c # _ \<Rightarrow> c)"

definition cstrlen :: "bytes \<Rightarrow> nat" where
  "cstrlen s = length (takeWhile (\<lambda>c. c \<noteq> 0) s)"

definition OPENSSL_strhash :: "bytes \<Rightarrow> u32" where
  "OPENSSL_strhash s = OPENSSL_hash32 (take (cstrlen s) s)"

fun OPENSSL_strnlen :: "bytes \<Rightarrow> nat \<Rightarrow> nat" where
  "OPENSSL_strnlen s 0 = 0"
| "OPENSSL_strnlen s (Suc n) = (if cstr_hd s = 0 then 0 else Suc (OPENSSL_strnlen (tl s) n))"

definition OPENSSL_strdup :: "(nat \<Rightarrow> bool) \<Rightarrow> bytes option \<Rightarrow> bytes option" where
  "OPENSSL_strdup libc s =
     (case s of
        None \<Rightarrow> None
      | Some t \<Rightarrow>
          if OPENSSL_malloc libc (cstrlen t + 1) then Some (take (cstrlen t) t @ [0]) else None)"

definition OPENSSL_strndup :: "(nat \<Rightarrow> bool) \<Rightarrow> bytes \<Rightarrow> nat \<Rightarrow> bytes option" where
  "OPENSSL_strndup libc str size0 =
     (let n = OPENSSL_strnlen str size0;
          alloc_size = (n + 1) mod 2 ^ 64
      in if alloc_size < n then None
         else if \<not> OPENSSL_malloc libc alloc_size then None
         else Some (take n str @ [0]))"

definition OPENSSL_tolower :: "int \<Rightarrow> int" where
  "OPENSSL_tolower c = (if 65 \<le> c \<and> c \<le> 90 then c + (97 - 65) else c)"

function OPENSSL_strcasecmp :: "bytes \<Rightarrow> bytes \<Rightarrow> int" where
  "OPENSSL_strcasecmp a b =
     (let aa = OPENSSL_tolower (sint (cstr_hd a));
          bb = OPENSSL_tolower (sint (cstr_hd b))
      in if aa < bb then - 1
         else if aa > bb then 1
         else if aa = 0 then 0
         else OPENSSL_strcasecmp (tl a) (tl b))"
  by pat_completeness auto
termination
  by (relation "measure (\<lambda>(a, b). length a)")
     (auto simp: cstr_hd_def OPENSSL_tolower_def split: list.splits if_splits)

declare OPENSSL_strcasecmp.simps [simp del]

fun OPENSSL_strncasecmp :: "bytes \<Rightarrow> bytes \<Rightarrow> nat \<Rightarrow> int" where
  "OPENSSL_strncasecmp a b 0 = 0"
| "OPENSSL_strncasecmp a b (Suc n) =
     (let aa = OPENSSL_tolower (sint (cstr_hd a));
          bb = OPENSSL_tolower (sint (cstr_hd b))
      in if aa < bb then - 1
         else if aa > bb then 1
         else if aa = 0 then 0
         else OPENSSL_strncasecmp (tl a) (tl b) n)"

text \<open>
  The copying loop of \<open>OPENSSL_strlcpy\<close>: it returns what it has stored, what is left of the source,
  what is left of the destination and of its size, and the number of characters copied.
\<close>

fun strlcpy_loop :: "bytes \<Rightarrow> bytes \<Rightarrow> nat \<Rightarrow> bytes \<times> bytes \<times> bytes \<times> nat \<times> nat" where
  "strlcpy_loop dst src dst_size =
     (if dst_size > 1 \<and> cstr_hd src \<noteq> 0 then
        (let (w, s, d, n, l) = strlcpy_loop (tl dst) (tl src) (dst_size - 1)
         in (cstr_hd src # w, s, d, n, l + 1))
      else ([], src, dst, dst_size, 0))"

declare strlcpy_loop.simps [simp del]

definition OPENSSL_strlcpy :: "bytes \<Rightarrow> bytes \<Rightarrow> nat \<Rightarrow> bytes \<times> nat" where
  "OPENSSL_strlcpy dst src dst_size =
     (let (w, s, d, n, l) = strlcpy_loop dst src dst_size
      in (w @ (if n \<noteq> 0 then 0 # tl d else d), l + cstrlen s))"

fun strlcat_loop :: "bytes \<Rightarrow> nat \<Rightarrow> nat" where
  "strlcat_loop dst dst_size =
     (if dst_size > 0 \<and> cstr_hd dst \<noteq> 0 then Suc (strlcat_loop (tl dst) (dst_size - 1)) else 0)"

declare strlcat_loop.simps [simp del]

definition OPENSSL_strlcat :: "bytes \<Rightarrow> bytes \<Rightarrow> nat \<Rightarrow> bytes \<times> nat" where
  "OPENSSL_strlcat dst src dst_size =
     (let l = strlcat_loop dst dst_size;
          (d, r) = OPENSSL_strlcpy (drop l dst) src (dst_size - l)
      in (take l dst @ d, l + r))"

section \<open>Lemmas\<close>

lemma OPENSSL_malloc_libc: "OPENSSL_malloc libc n \<Longrightarrow> libc (n + 8)"
  by (simp add: OPENSSL_malloc_def OPENSSL_MALLOC_PREFIX_def split: if_splits)

lemma OPENSSL_memdup_Some: "OPENSSL_memdup libc data = Some d \<Longrightarrow> d = data"
  by (simp add: OPENSSL_memdup_def split: if_splits)

lemma or_eq_0_iff: "a OR b = 0 \<longleftrightarrow> a = 0 \<and> b = (0 :: 'a::len word)"
  by (auto simp: bit_eq_iff bit_or_iff)

lemma memcmp_loop_eq_0:
  "length as = length bs \<Longrightarrow> CRYPTO_memcmp_loop as bs x = 0 \<longleftrightarrow> x = 0 \<and> as = bs"
  by (induction as bs x rule: CRYPTO_memcmp_loop.induct) (auto simp: or_eq_0_iff xor_eq_0_iff)

lemma mem_cmp_eq_0: "length a = length b \<Longrightarrow> mem_cmp a b = 0 \<longleftrightarrow> a = b"
  by (induction a b rule: mem_cmp.induct) auto

lemma CRYPTO_memcmp_eq_0: "length a = length b \<Longrightarrow> CRYPTO_memcmp a b = 0 \<longleftrightarrow> a = b"
  by (simp add: CRYPTO_memcmp_def memcmp_loop_eq_0)

lemma cstrlen_Nil [simp]: "cstrlen [] = 0"
  by (simp add: cstrlen_def)

lemma cstrlen_Cons [simp]: "cstrlen (c # s) = (if c = 0 then 0 else Suc (cstrlen s))"
  by (simp add: cstrlen_def)

lemma cstrlen_le: "cstrlen s \<le> length s"
  by (simp add: cstrlen_def length_takeWhile_le)

lemma OPENSSL_strnlen_eq: "OPENSSL_strnlen s n = min n (cstrlen s)"
  by (induction s n rule: OPENSSL_strnlen.induct) (auto simp: cstr_hd_def split: list.splits)

lemma strlcpy_loop_eq:
  "n \<le> length dst \<Longrightarrow>
   strlcpy_loop dst src n =
     (let k = min (n - 1) (cstrlen src) in (take k src, drop k src, drop k dst, n - k, k))"
proof (induction dst src n rule: strlcpy_loop.induct)
  case (1 dst src n)
  show ?case
  proof (cases "n > 1 \<and> cstr_hd src \<noteq> 0")
    case True
    then obtain c s where src: "src = c # s" "c \<noteq> 0"
      by (auto simp: cstr_hd_def split: list.splits)
    obtain d ds where dst: "dst = d # ds"
      using True "1.prems" by (cases dst) auto
    obtain m where m: "n = Suc (Suc m)"
      using True by (auto simp: less_eq_Suc_le dest!: le_Suc_ex)
    have "strlcpy_loop (tl dst) (tl src) (n - 1) =
        (let k = min m (cstrlen s) in (take k s, drop k s, drop k ds, n - 1 - k, k))"
      using "1.IH" [OF True] "1.prems" by (simp add: src dst m)
    then show ?thesis
      using True
      by (subst strlcpy_loop.simps) (simp add: src dst m cstr_hd_def Let_def)
  next
    case False
    then have "min (n - 1) (cstrlen src) = 0"
      by (cases src) (auto simp: cstr_hd_def)
    then show ?thesis using False by (subst strlcpy_loop.simps) (auto simp: Let_def)
  qed
qed

lemma cstrlen_drop: "k \<le> cstrlen s \<Longrightarrow> k + cstrlen (drop k s) = cstrlen s"
proof (induction s arbitrary: k)
  case (Cons c s)
  then show ?case by (cases k) (auto split: if_splits)
qed simp

lemma OPENSSL_strlcpy_eq:
  assumes "length dst = n" "0 < n"
  shows "OPENSSL_strlcpy dst src n =
     (let k = min (n - 1) (cstrlen src) in (take k src @ 0 # drop (Suc k) dst, cstrlen src))"
proof -
  let ?k = "min (n - 1) (cstrlen src)"
  have "?k + cstrlen (drop ?k src) = cstrlen src"
    by (rule cstrlen_drop) simp
  moreover have "?k < n" using assms by arith
  moreover have "tl (drop ?k dst) = drop (Suc ?k) dst" by (simp add: drop_Suc tl_drop)
  ultimately show ?thesis
    using assms by (simp add: OPENSSL_strlcpy_def strlcpy_loop_eq Let_def)
qed

lemma strlcat_loop_eq: "n \<le> length dst \<Longrightarrow> strlcat_loop dst n = min n (cstrlen dst)"
proof (induction dst n rule: strlcat_loop.induct)
  case (1 dst n)
  then show ?case
    by (subst strlcat_loop.simps) (cases dst; cases n; auto simp: cstr_hd_def)
qed

end
