(* ===== verification/Codec.thy ===== *)
theory Codec
  imports Prelude
begin

text \<open>
  The contract of a reading function that accepts exactly one encoding of every value.

  \<open>exact_codec get enc ok\<close> says that \<open>get\<close> succeeds with the value \<open>x\<close> and the rest \<open>r\<close> if and only if
  the input is the encoding of the valid value \<open>x\<close> followed by \<open>r\<close>. From this one law follow the
  round trip, that encodings are prefix-free and that no second byte string is read as the same
  value. \<open>get_all\<close> is the loop \<open>while (CBS_len(&cbs) != 0) { if (!get(&cbs, ...)) return 0; ... }\<close> that
  several routines of the source contain; \<open>item_codec\<close> adds that encodings are not empty, which makes
  the loop end, and shows that it accepts exactly the concatenations of encodings.
\<close>

section \<open>Reading until the input is empty\<close>

function get_all :: "(bytes \<Rightarrow> ('a \<times> bytes) option) \<Rightarrow> bytes \<Rightarrow> 'a list option" where
  "get_all get bs =
     (if bs = [] then Some []
      else case get bs of
             None \<Rightarrow> None
           | Some (x, r) \<Rightarrow>
               if length r < length bs then map_option (Cons x) (get_all get r) else None)"
  by pat_completeness auto
termination by (relation "measure (\<lambda>(get, bs). length bs)") auto

declare get_all.simps [simp del]

lemma get_all_Nil [simp]: "get_all get [] = Some []"
  by (simp add: get_all.simps)

lemma get_all_step:
  "bs \<noteq> [] \<Longrightarrow> get bs = Some (x, r) \<Longrightarrow> length r < length bs \<Longrightarrow>
     get_all get bs = map_option (Cons x) (get_all get r)"
  by (subst get_all.simps) simp

section \<open>Exact codecs\<close>

locale exact_codec =
  fixes get :: "bytes \<Rightarrow> ('a \<times> bytes) option"
    and enc :: "'a \<Rightarrow> bytes"
    and ok :: "'a \<Rightarrow> bool"
  assumes get_iff: "get bs = Some (x, r) \<longleftrightarrow> ok x \<and> bs = enc x @ r"
begin

lemma get_enc: "ok x \<Longrightarrow> get (enc x @ r) = Some (x, r)"
  by (simp add: get_iff)

lemma get_enc_Nil: "ok x \<Longrightarrow> get (enc x) = Some (x, [])"
  using get_enc [of x "[]"] by simp

lemma prefix_free: "ok x \<Longrightarrow> ok y \<Longrightarrow> enc x @ r = enc y @ s \<Longrightarrow> x = y \<and> r = s"
  using get_enc by (metis option.inject prod.inject)

lemma enc_inject: "ok x \<Longrightarrow> ok y \<Longrightarrow> enc x = enc y \<longleftrightarrow> x = y"
  using prefix_free [of x y "[]" "[]"] by auto

lemma not_malleable:
  "get bs = Some (x, r) \<Longrightarrow> get bs' = Some (x, r) \<Longrightarrow> bs = bs'"
  by (simp add: get_iff)

lemma get_extend: "get bs = Some (x, r) \<Longrightarrow> get (bs @ s) = Some (x, r @ s)"
  by (simp add: get_iff)

lemma get_None_iff: "get bs = None \<longleftrightarrow> (\<forall>x r. ok x \<longrightarrow> bs \<noteq> enc x @ r)"
  by (metis get_iff not_None_eq surj_pair)

end

locale item_codec = exact_codec +
  assumes enc_not_Nil: "ok x \<Longrightarrow> enc x \<noteq> []"
begin

lemma get_shorter: "get bs = Some (x, r) \<Longrightarrow> length r < length bs"
  using enc_not_Nil by (simp add: get_iff)

lemma get_all_complete: "list_all ok xs \<Longrightarrow> get_all get (concat (map enc xs)) = Some xs"
proof (induction xs)
  case (Cons x xs)
  have "get (enc x @ concat (map enc xs)) = Some (x, concat (map enc xs))"
    using Cons.prems by (intro get_enc) simp
  then show ?case
    using Cons enc_not_Nil [of x] by (simp add: get_all_step [of _ get x])
qed simp

lemma get_all_sound: "get_all get bs = Some xs \<Longrightarrow> list_all ok xs \<and> bs = concat (map enc xs)"
proof (induction bs arbitrary: xs rule: length_induct)
  case (1 bs)
  show ?case
  proof (cases "bs = []")
    case True
    then show ?thesis using "1.prems" by simp
  next
    case False
    with "1.prems" obtain x r where g: "get bs = Some (x, r)"
      by (auto simp: get_all.simps [of get bs] split: option.splits)
    note short = get_shorter [OF g]
    obtain ys where xs: "xs = x # ys" and ys: "get_all get r = Some ys"
      using "1.prems" get_all_step [of bs get x r] False g short by auto
    have "list_all ok ys \<and> r = concat (map enc ys)" using "1.IH" short ys by blast
    then show ?thesis using g xs by (simp add: get_iff)
  qed
qed

lemma get_all_iff: "get_all get bs = Some xs \<longleftrightarrow> list_all ok xs \<and> bs = concat (map enc xs)"
  using get_all_sound get_all_complete by blast

lemma concat_enc_inject:
  "list_all ok xs \<Longrightarrow> list_all ok ys \<Longrightarrow> concat (map enc xs) = concat (map enc ys) \<longleftrightarrow> xs = ys"
  using get_all_complete by (metis option.inject)

end

end
