(* ===== verification/Cbs.thy ===== *)
theory Cbs
  imports Mem Codec
begin

text \<open>
  The byte-string reader \<open>CBS\<close> of \<open>crypto/bytestring/cbs.c\<close>.

  A \<open>CBS\<close> is a pointer and a length into memory it does not own; the model is the list of the bytes
  it still covers. A reading function that returns 1 is \<open>Some\<close> of its outputs and of the advanced
  \<open>CBS\<close>, one that returns 0 is \<open>None\<close> (the source leaves the \<open>CBS\<close> at an unspecified position then,
  and its callers stop). \<open>size_t\<close> is 64 bits wide: lengths are natural numbers, and the one sum the
  source checks for overflow is taken modulo \<open>2 ^ 64\<close>.

  The lemmas relate each reader to the bytes it consumes. The main ones say that the DER reader is
  exact: it accepts an element if and only if the input starts with the canonical header
  \<open>der_header\<close> of its tag and length, followed by the contents.
\<close>

type_synonym cbs = bytes

section \<open>Basic readers\<close>

definition CBS_init :: "bytes \<Rightarrow> nat \<Rightarrow> cbs" where
  "CBS_init data len = take len data"

definition cbs_get :: "cbs \<Rightarrow> nat \<Rightarrow> (bytes \<times> cbs) option" where
  "cbs_get cbs n = (if length cbs < n then None else Some (take n cbs, drop n cbs))"

definition CBS_skip :: "cbs \<Rightarrow> nat \<Rightarrow> cbs option" where
  "CBS_skip cbs len = map_option snd (cbs_get cbs len)"

definition CBS_len :: "cbs \<Rightarrow> nat" where
  "CBS_len cbs = length cbs"

text \<open>\<open>CBS_stow\<close> returns its result, \<open>*out_ptr\<close> (\<open>None\<close> for NULL) and \<open>*out_len\<close>.\<close>

definition CBS_stow :: "(nat \<Rightarrow> bool) \<Rightarrow> cbs \<Rightarrow> bool \<times> bytes option \<times> nat" where
  "CBS_stow libc cbs =
     (if CBS_len cbs = 0 then (True, None, 0)
      else case OPENSSL_memdup libc cbs of
             None \<Rightarrow> (False, None, 0)
           | Some p \<Rightarrow> (True, Some p, CBS_len cbs))"

definition CBS_strdup :: "(nat \<Rightarrow> bool) \<Rightarrow> cbs \<Rightarrow> bytes option" where
  "CBS_strdup libc cbs = OPENSSL_strndup libc cbs (CBS_len cbs)"

definition CBS_contains_zero_byte :: "cbs \<Rightarrow> bool" where
  "CBS_contains_zero_byte cbs = list_ex (\<lambda>b. b = 0) cbs"

definition CBS_mem_equal :: "cbs \<Rightarrow> bytes \<Rightarrow> bool" where
  "CBS_mem_equal cbs data =
     (if length data \<noteq> CBS_len cbs then False else CRYPTO_memcmp cbs data = 0)"

definition cbs_u_fold :: "bytes \<Rightarrow> u64" where
  "cbs_u_fold data = foldl (\<lambda>result b. push_bit 8 result OR ucast b) 0 data"

definition cbs_get_u :: "cbs \<Rightarrow> nat \<Rightarrow> (u64 \<times> cbs) option" where
  "cbs_get_u cbs len =
     (case cbs_get cbs len of
        None \<Rightarrow> None
      | Some (data, cbs') \<Rightarrow> Some (cbs_u_fold data, cbs'))"

definition CBS_get_u8 :: "cbs \<Rightarrow> (byte \<times> cbs) option" where
  "CBS_get_u8 cbs =
     (case cbs_get cbs 1 of None \<Rightarrow> None | Some (v, cbs') \<Rightarrow> Some (hd v, cbs'))"

definition CBS_get_u16 :: "cbs \<Rightarrow> (u16 \<times> cbs) option" where
  "CBS_get_u16 cbs =
     (case cbs_get_u cbs 2 of None \<Rightarrow> None | Some (v, cbs') \<Rightarrow> Some (ucast v, cbs'))"

definition CBS_get_u16le :: "cbs \<Rightarrow> (u16 \<times> cbs) option" where
  "CBS_get_u16le cbs =
     (case CBS_get_u16 cbs of None \<Rightarrow> None | Some (v, cbs') \<Rightarrow> Some (CRYPTO_bswap2 v, cbs'))"

definition CBS_get_u24 :: "cbs \<Rightarrow> (u32 \<times> cbs) option" where
  "CBS_get_u24 cbs =
     (case cbs_get_u cbs 3 of None \<Rightarrow> None | Some (v, cbs') \<Rightarrow> Some (ucast v, cbs'))"

definition CBS_get_u32 :: "cbs \<Rightarrow> (u32 \<times> cbs) option" where
  "CBS_get_u32 cbs =
     (case cbs_get_u cbs 4 of None \<Rightarrow> None | Some (v, cbs') \<Rightarrow> Some (ucast v, cbs'))"

definition CBS_get_u32le :: "cbs \<Rightarrow> (u32 \<times> cbs) option" where
  "CBS_get_u32le cbs =
     (case CBS_get_u32 cbs of None \<Rightarrow> None | Some (v, cbs') \<Rightarrow> Some (CRYPTO_bswap4 v, cbs'))"

definition CBS_get_u64 :: "cbs \<Rightarrow> (u64 \<times> cbs) option" where
  "CBS_get_u64 cbs = cbs_get_u cbs 8"

definition CBS_get_u64le :: "cbs \<Rightarrow> (u64 \<times> cbs) option" where
  "CBS_get_u64le cbs =
     (case cbs_get_u cbs 8 of None \<Rightarrow> None | Some (v, cbs') \<Rightarrow> Some (CRYPTO_bswap8 v, cbs'))"

definition CBS_get_last_u8 :: "cbs \<Rightarrow> (byte \<times> cbs) option" where
  "CBS_get_last_u8 cbs =
     (if CBS_len cbs = 0 then None else Some (cbs ! (CBS_len cbs - 1), take (CBS_len cbs - 1) cbs))"

definition CBS_get_bytes :: "cbs \<Rightarrow> nat \<Rightarrow> (cbs \<times> cbs) option" where
  "CBS_get_bytes cbs len =
     (case cbs_get cbs len of None \<Rightarrow> None | Some (v, cbs') \<Rightarrow> Some (CBS_init v len, cbs'))"

definition CBS_copy_bytes :: "cbs \<Rightarrow> nat \<Rightarrow> (bytes \<times> cbs) option" where
  "CBS_copy_bytes cbs len = cbs_get cbs len"

text \<open>The C function asserts that \<open>len_len\<close> is at most 3, which holds in the three calls below.\<close>

definition cbs_get_length_prefixed :: "cbs \<Rightarrow> nat \<Rightarrow> (cbs \<times> cbs) option" where
  "cbs_get_length_prefixed cbs len_len =
     (case cbs_get_u cbs len_len of
        None \<Rightarrow> None
      | Some (len, cbs') \<Rightarrow> CBS_get_bytes cbs' (unat len))"

definition CBS_get_u8_length_prefixed :: "cbs \<Rightarrow> (cbs \<times> cbs) option" where
  "CBS_get_u8_length_prefixed cbs = cbs_get_length_prefixed cbs 1"

definition CBS_get_u16_length_prefixed :: "cbs \<Rightarrow> (cbs \<times> cbs) option" where
  "CBS_get_u16_length_prefixed cbs = cbs_get_length_prefixed cbs 2"

definition CBS_get_u24_length_prefixed :: "cbs \<Rightarrow> (cbs \<times> cbs) option" where
  "CBS_get_u24_length_prefixed cbs = cbs_get_length_prefixed cbs 3"

definition CBS_get_until_first :: "cbs \<Rightarrow> byte \<Rightarrow> (cbs \<times> cbs) option" where
  "CBS_get_until_first cbs c =
     (if \<not> list_ex (\<lambda>b. b = c) cbs then None
      else CBS_get_bytes cbs (length (takeWhile (\<lambda>b. b \<noteq> c) cbs)))"

section \<open>ASN.1 tags and elements\<close>

definition CBS_ASN1_TAG_SHIFT :: nat where "CBS_ASN1_TAG_SHIFT = 24"
definition CBS_ASN1_CONSTRUCTED :: u32 where "CBS_ASN1_CONSTRUCTED = 0x20000000"
definition CBS_ASN1_TAG_NUMBER_MASK :: u32 where "CBS_ASN1_TAG_NUMBER_MASK = 0x1fffffff"
definition CBS_ASN1_BOOLEAN :: u32 where "CBS_ASN1_BOOLEAN = 0x1"
definition CBS_ASN1_INTEGER :: u32 where "CBS_ASN1_INTEGER = 0x2"
definition CBS_ASN1_OCTETSTRING :: u32 where "CBS_ASN1_OCTETSTRING = 0x4"

fun parse_base128_loop :: "u64 \<Rightarrow> cbs \<Rightarrow> (u64 \<times> cbs) option" where
  "parse_base128_loop v [] = None"
| "parse_base128_loop v (b # cbs) =
     (if drop_bit (64 - 7) v \<noteq> 0 then None
      else if v = 0 \<and> b = 0x80 then None
      else
        let v' = push_bit 7 v OR ucast (b AND 0x7f)
        in if b AND 0x80 \<noteq> 0 then parse_base128_loop v' cbs else Some (v', cbs))"

definition parse_base128_integer :: "cbs \<Rightarrow> (u64 \<times> cbs) option" where
  "parse_base128_integer cbs = parse_base128_loop 0 cbs"

definition parse_asn1_tag :: "cbs \<Rightarrow> (u32 \<times> cbs) option" where
  "parse_asn1_tag cbs =
     (case CBS_get_u8 cbs of
        None \<Rightarrow> None
      | Some (tag_byte, cbs1) \<Rightarrow>
          let tag = push_bit CBS_ASN1_TAG_SHIFT (ucast tag_byte AND 0xe0 :: u32);
              tag_number = (ucast (tag_byte AND 0x1f) :: u32)
          in if tag_number = 0x1f then
               (case parse_base128_integer cbs1 of
                  None \<Rightarrow> None
                | Some (v, cbs2) \<Rightarrow>
                    if v > ucast CBS_ASN1_TAG_NUMBER_MASK \<or> v < 0x1f then None
                    else Some (tag OR ucast v, cbs2))
             else Some (tag OR tag_number, cbs1))"

text \<open>The outputs of \<open>cbs_get_any_asn1_element\<close>; every caller passes some of the pointers.\<close>

record asn1_element =
  el_out :: cbs
  el_tag :: u32
  el_header_len :: nat
  el_ber_found :: bool

definition cbs_get_any_asn1_element :: "bool \<Rightarrow> cbs \<Rightarrow> (asn1_element \<times> cbs) option" where
  "cbs_get_any_asn1_element ber_ok cbs =
     (case parse_asn1_tag cbs of
        None \<Rightarrow> None
      | Some (tag, header) \<Rightarrow>
     (case CBS_get_u8 header of
        None \<Rightarrow> None
      | Some (length_byte, header) \<Rightarrow>
          let header_len = CBS_len cbs - CBS_len header
          in if length_byte AND 0x80 = 0 then
               map_option (\<lambda>(out, cbs'). (\<lparr>el_out = out, el_tag = tag, el_header_len = header_len,
                                          el_ber_found = False\<rparr>, cbs'))
                 (CBS_get_bytes cbs (unat length_byte + header_len))
             else
               let num_bytes = unat (length_byte AND 0x7f)
               in if ber_ok \<and> tag AND CBS_ASN1_CONSTRUCTED \<noteq> 0 \<and> num_bytes = 0 then
                    map_option (\<lambda>(out, cbs'). (\<lparr>el_out = out, el_tag = tag,
                                   el_header_len = header_len, el_ber_found = True\<rparr>, cbs'))
                      (CBS_get_bytes cbs header_len)
                  else if num_bytes = 0 \<or> num_bytes > 4 then None
                  else
                    (case cbs_get_u header num_bytes of
                       None \<Rightarrow> None
                     | Some (len64, header) \<Rightarrow>
                         let ber1 = len64 < 128;
                             ber2 = drop_bit ((num_bytes - 1) * 8) len64 = 0
                         in if \<not> ber_ok \<and> (ber1 \<or> ber2) then None
                            else if (unat len64 + header_len + num_bytes) mod 2 ^ 64 < unat len64
                            then None
                            else
                              map_option (\<lambda>(out, cbs').
                                  (\<lparr>el_out = out, el_tag = tag,
                                    el_header_len = header_len + num_bytes,
                                    el_ber_found = ber1 \<or> ber2\<rparr>, cbs'))
                                (CBS_get_bytes cbs
                                  ((unat len64 + header_len + num_bytes) mod 2 ^ 64)))))"

definition CBS_get_any_asn1_element :: "cbs \<Rightarrow> (asn1_element \<times> cbs) option" where
  "CBS_get_any_asn1_element cbs = cbs_get_any_asn1_element False cbs"

definition CBS_get_any_ber_asn1_element :: "cbs \<Rightarrow> (asn1_element \<times> cbs) option" where
  "CBS_get_any_ber_asn1_element cbs = cbs_get_any_asn1_element True cbs"

definition CBS_get_any_asn1 :: "cbs \<Rightarrow> (cbs \<times> u32 \<times> cbs) option" where
  "CBS_get_any_asn1 cbs =
     (case CBS_get_any_asn1_element cbs of
        None \<Rightarrow> None
      | Some (el, cbs') \<Rightarrow>
          (case CBS_skip (el_out el) (el_header_len el) of
             None \<Rightarrow> None
           | Some out \<Rightarrow> Some (out, el_tag el, cbs')))"

definition cbs_get_asn1 :: "cbs \<Rightarrow> u32 \<Rightarrow> bool \<Rightarrow> (cbs \<times> cbs) option" where
  "cbs_get_asn1 cbs tag_value skip_header =
     (case CBS_get_any_asn1_element cbs of
        None \<Rightarrow> None
      | Some (el, cbs') \<Rightarrow>
          if el_tag el \<noteq> tag_value then None
          else if skip_header then
            map_option (\<lambda>out. (out, cbs')) (CBS_skip (el_out el) (el_header_len el))
          else Some (el_out el, cbs'))"

definition CBS_get_asn1 :: "cbs \<Rightarrow> u32 \<Rightarrow> (cbs \<times> cbs) option" where
  "CBS_get_asn1 cbs tag_value = cbs_get_asn1 cbs tag_value True"

definition CBS_get_asn1_element :: "cbs \<Rightarrow> u32 \<Rightarrow> (cbs \<times> cbs) option" where
  "CBS_get_asn1_element cbs tag_value = cbs_get_asn1 cbs tag_value False"

definition CBS_peek_asn1_tag :: "cbs \<Rightarrow> u32 \<Rightarrow> bool" where
  "CBS_peek_asn1_tag cbs tag_value =
     (if CBS_len cbs < 1 then False
      else case parse_asn1_tag cbs of
             None \<Rightarrow> False
           | Some (actual_tag, _) \<Rightarrow> tag_value = actual_tag)"

section \<open>ASN.1 values\<close>

definition CBS_is_valid_asn1_integer :: "cbs \<Rightarrow> bool option" where
  \<comment> \<open>\<open>Some is_negative\<close> for a return of 1\<close>
  "CBS_is_valid_asn1_integer cbs =
     (case CBS_get_u8 cbs of
        None \<Rightarrow> None
      | Some (first_byte, copy) \<Rightarrow>
          let is_negative = (first_byte AND 0x80 \<noteq> 0)
          in (case CBS_get_u8 copy of
                None \<Rightarrow> Some is_negative
              | Some (second_byte, _) \<Rightarrow>
                  if (first_byte = 0x00 \<and> second_byte AND 0x80 = 0) \<or>
                     (first_byte = 0xff \<and> second_byte AND 0x80 \<noteq> 0) then None
                  else Some is_negative))"

definition CBS_is_unsigned_asn1_integer :: "cbs \<Rightarrow> bool" where
  "CBS_is_unsigned_asn1_integer cbs = (CBS_is_valid_asn1_integer cbs = Some False)"

fun asn1_uint64_loop :: "u64 \<Rightarrow> bytes \<Rightarrow> u64 option" where
  "asn1_uint64_loop out [] = Some out"
| "asn1_uint64_loop out (b # data) =
     (if drop_bit 56 out \<noteq> 0 then None
      else asn1_uint64_loop (push_bit 8 out OR ucast b) data)"

definition CBS_get_asn1_uint64 :: "cbs \<Rightarrow> (u64 \<times> cbs) option" where
  "CBS_get_asn1_uint64 cbs =
     (case CBS_get_asn1 cbs CBS_ASN1_INTEGER of
        None \<Rightarrow> None
      | Some (bytes, cbs') \<Rightarrow>
          if \<not> CBS_is_unsigned_asn1_integer bytes then None
          else map_option (\<lambda>out. (out, cbs')) (asn1_uint64_loop 0 bytes))"

text \<open>The union of \<open>CBS_get_asn1_int64\<close>: the bytes of an \<open>int64_t\<close> on a little-endian host.\<close>

definition asn1_int64_union :: "bool \<Rightarrow> bytes \<Rightarrow> bytes" where
  "asn1_int64_union is_negative data = rev data @ replicate (8 - length data) (if is_negative then 0xff else 0)"

definition CBS_get_asn1_int64 :: "cbs \<Rightarrow> (int \<times> cbs) option" where
  "CBS_get_asn1_int64 cbs =
     (case CBS_get_asn1 cbs CBS_ASN1_INTEGER of
        None \<Rightarrow> None
      | Some (bytes, cbs') \<Rightarrow>
          (case CBS_is_valid_asn1_integer bytes of
             None \<Rightarrow> None
           | Some is_negative \<Rightarrow>
               if CBS_len bytes > 8 then None
               else Some (sint (CRYPTO_load_u64_le (asn1_int64_union is_negative bytes)), cbs')))"

definition CBS_get_asn1_bool :: "cbs \<Rightarrow> (bool \<times> cbs) option" where
  "CBS_get_asn1_bool cbs =
     (case CBS_get_asn1 cbs CBS_ASN1_BOOLEAN of
        None \<Rightarrow> None
      | Some (bytes, cbs') \<Rightarrow>
          if CBS_len bytes \<noteq> 1 then None
          else if hd bytes \<noteq> 0 \<and> hd bytes \<noteq> 0xff then None
          else Some (hd bytes \<noteq> 0, cbs'))"

definition CBS_get_optional_asn1 :: "cbs \<Rightarrow> u32 \<Rightarrow> (cbs option \<times> cbs) option" where
  \<comment> \<open>\<open>*out\<close> is written, and \<open>*out_present\<close> set, when the first component is \<open>Some\<close>\<close>
  "CBS_get_optional_asn1 cbs tag =
     (if CBS_peek_asn1_tag cbs tag then
        (case CBS_get_asn1 cbs tag of
           None \<Rightarrow> None
         | Some (out, cbs') \<Rightarrow> Some (Some out, cbs'))
      else Some (None, cbs))"

definition CBS_get_optional_asn1_octet_string ::
    "cbs \<Rightarrow> u32 \<Rightarrow> (cbs \<times> bool \<times> cbs) option" where
  "CBS_get_optional_asn1_octet_string cbs tag =
     (case CBS_get_optional_asn1 cbs tag of
        None \<Rightarrow> None
      | Some (Some child, cbs') \<Rightarrow>
          (case CBS_get_asn1 child CBS_ASN1_OCTETSTRING of
             None \<Rightarrow> None
           | Some (out, child') \<Rightarrow> if CBS_len child' \<noteq> 0 then None else Some (out, True, cbs'))
      | Some (None, cbs') \<Rightarrow> Some ([], False, cbs'))"

definition CBS_get_optional_asn1_uint64 :: "cbs \<Rightarrow> u32 \<Rightarrow> u64 \<Rightarrow> (u64 \<times> cbs) option" where
  "CBS_get_optional_asn1_uint64 cbs tag default_value =
     (case CBS_get_optional_asn1 cbs tag of
        None \<Rightarrow> None
      | Some (Some child, cbs') \<Rightarrow>
          (case CBS_get_asn1_uint64 child of
             None \<Rightarrow> None
           | Some (out, child') \<Rightarrow> if CBS_len child' \<noteq> 0 then None else Some (out, cbs'))
      | Some (None, cbs') \<Rightarrow> Some (default_value, cbs'))"

definition CBS_get_optional_asn1_bool :: "cbs \<Rightarrow> u32 \<Rightarrow> int \<Rightarrow> (int \<times> cbs) option" where
  "CBS_get_optional_asn1_bool cbs tag default_value =
     (case CBS_get_optional_asn1 cbs tag of
        None \<Rightarrow> None
      | Some (Some child, cbs') \<Rightarrow>
          (case CBS_get_asn1 child CBS_ASN1_BOOLEAN of
             None \<Rightarrow> None
           | Some (child2, child') \<Rightarrow>
               if CBS_len child2 \<noteq> 1 \<or> CBS_len child' \<noteq> 0 then None
               else if hd child2 = 0 then Some (0, cbs')
               else if hd child2 = 0xff then Some (1, cbs')
               else None)
      | Some (None, cbs') \<Rightarrow> Some (default_value, cbs'))"

definition CBS_is_valid_asn1_bitstring :: "cbs \<Rightarrow> bool" where
  "CBS_is_valid_asn1_bitstring cbs =
     (case CBS_get_u8 cbs of
        None \<Rightarrow> False
      | Some (num_unused_bits, rest) \<Rightarrow>
          if num_unused_bits > 7 then False
          else if num_unused_bits = 0 then True
          else (case CBS_get_last_u8 rest of
                  None \<Rightarrow> False
                | Some (last_byte, _) \<Rightarrow>
                    (ucast last_byte :: u32) AND (push_bit (unat num_unused_bits) 1 - 1) = 0))"

definition CBS_asn1_bitstring_has_bit :: "cbs \<Rightarrow> u32 \<Rightarrow> bool" where
  "CBS_asn1_bitstring_has_bit cbs bit_idx =
     (if \<not> CBS_is_valid_asn1_bitstring cbs then False
      else
        let byte_num = unat (drop_bit 3 bit_idx + 1);
            bit_num = unat (7 - (bit_idx AND 7))
        in byte_num < CBS_len cbs \<and> (ucast (cbs ! byte_num) :: u32) AND push_bit bit_num 1 \<noteq> 0)"

section \<open>What the basic readers consume\<close>

lemma cbs_get_iff: "cbs_get cbs n = Some (v, r) \<longleftrightarrow> cbs = v @ r \<and> length v = n"
  by (auto simp: cbs_get_def)

lemma cbs_get_append [simp]: "length v = n \<Longrightarrow> cbs_get (v @ r) n = Some (v, r)"
  by (simp add: cbs_get_iff)

lemma CBS_get_bytes_eq: "CBS_get_bytes cbs n = cbs_get cbs n"
  by (auto simp: CBS_get_bytes_def cbs_get_def CBS_init_def)

lemma CBS_skip_iff: "CBS_skip cbs n = Some r \<longleftrightarrow> (\<exists>v. cbs = v @ r \<and> length v = n)"
  by (auto simp: CBS_skip_def cbs_get_iff)

lemma CBS_skip_append [simp]: "length v = n \<Longrightarrow> CBS_skip (v @ r) n = Some r"
  by (simp add: CBS_skip_def)

lemma CBS_get_u8_iff: "CBS_get_u8 cbs = Some (b, r) \<longleftrightarrow> cbs = b # r"
  by (cases cbs) (auto simp: CBS_get_u8_def cbs_get_def)

lemma CBS_get_u8_simps [simp]: "CBS_get_u8 [] = None" "CBS_get_u8 (b # r) = Some (b, r)"
  by (simp_all add: CBS_get_u8_def cbs_get_def)

lemma cbs_u_fold_snoc: "cbs_u_fold (xs @ [b]) = push_bit 8 (cbs_u_fold xs) OR ucast b"
  by (simp add: cbs_u_fold_def)

lemma unat_cbs_u_fold: "length xs \<le> 8 \<Longrightarrow> unat (cbs_u_fold xs) = be_val xs"
proof (induction xs rule: rev_induct)
  case Nil
  then show ?case by (simp add: cbs_u_fold_def)
next
  case (snoc b xs)
  have "unat (ucast b :: u64) < 2 ^ 8" by (simp add: unat_ucast_up)
  from unat_push_bit_or [OF this, of "cbs_u_fold xs"] snoc
  have "unat (cbs_u_fold (xs @ [b])) = (be_val xs * 256 + unat b) mod 2 ^ 64"
    by (simp add: cbs_u_fold_snoc unat_ucast_up)
  moreover have "be_val (xs @ [b]) < 256 ^ 8"
    using be_val_less [of "xs @ [b]"] snoc.prems
    by (meson less_le_trans one_le_numeral power_increasing)
  ultimately show ?case by simp
qed

lemma cbs_get_u_iff:
  "cbs_get_u cbs n = Some (v, r) \<longleftrightarrow> (\<exists>d. cbs = d @ r \<and> length d = n \<and> v = cbs_u_fold d)"
  by (auto simp: cbs_get_u_def cbs_get_iff split: option.splits)

lemma cbs_get_u_append:
  "length d = n \<Longrightarrow> cbs_get_u (d @ r) n = Some (cbs_u_fold d, r)"
  by (simp add: cbs_get_u_def)

lemma cbs_u_fold_be_bytes:
  "n \<le> 8 \<Longrightarrow> unat (cbs_u_fold (be_bytes n v)) = v mod 256 ^ n"
  by (simp add: unat_cbs_u_fold be_val_be_bytes)

lemma cbs_get_length_prefixed_iff:
  assumes "n \<le> 3"
  shows "cbs_get_length_prefixed cbs n = Some (out, r) \<longleftrightarrow>
    length out < 256 ^ n \<and> cbs = be_bytes n (length out) @ out @ r"
proof
  assume "cbs_get_length_prefixed cbs n = Some (out, r)"
  then obtain d c where d: "cbs = d @ c" "length d = n" and c: "c = out @ r"
    and len: "length out = unat (cbs_u_fold d)"
    by (auto simp: cbs_get_length_prefixed_def cbs_get_u_iff CBS_get_bytes_eq cbs_get_iff
        split: option.splits)
  have "length out = be_val d" using assms d len by (simp add: unat_cbs_u_fold)
  then show "length out < 256 ^ n \<and> cbs = be_bytes n (length out) @ out @ r"
    using d c be_val_less [of d] be_bytes_be_val [of d] by simp
next
  assume "length out < 256 ^ n \<and> cbs = be_bytes n (length out) @ out @ r"
  then show "cbs_get_length_prefixed cbs n = Some (out, r)"
    using assms
    by (simp add: cbs_get_length_prefixed_def cbs_get_u_append CBS_get_bytes_eq
        cbs_u_fold_be_bytes)
qed

lemma CBS_get_until_first_eq:
  "CBS_get_until_first cbs c =
     (if c \<in> set cbs then Some (takeWhile (\<lambda>b. b \<noteq> c) cbs, dropWhile (\<lambda>b. b \<noteq> c) cbs) else None)"
  using length_takeWhile_le [of "\<lambda>b. b \<noteq> c" cbs]
  by (auto simp: CBS_get_until_first_def CBS_get_bytes_eq cbs_get_def list_ex_iff
      dropWhile_eq_drop [symmetric] takeWhile_eq_take [symmetric])

lemma CBS_get_until_first_iff:
  "CBS_get_until_first cbs c = Some (out, r) \<longleftrightarrow>
    (\<exists>t. r = c # t \<and> cbs = out @ r \<and> c \<notin> set out)"
proof
  assume "CBS_get_until_first cbs c = Some (out, r)"
  then have c: "c \<in> set cbs" and out: "out = takeWhile (\<lambda>b. b \<noteq> c) cbs"
    and r: "r = dropWhile (\<lambda>b. b \<noteq> c) cbs"
    by (auto simp: CBS_get_until_first_eq split: if_splits)
  have "\<exists>t. r = c # t" using c unfolding r by (induction cbs) auto
  moreover have "cbs = out @ r" by (simp add: out r)
  moreover have "c \<notin> set out" unfolding out using set_takeWhileD by fastforce
  ultimately show "\<exists>t. r = c # t \<and> cbs = out @ r \<and> c \<notin> set out" by blast
next
  assume "\<exists>t. r = c # t \<and> cbs = out @ r \<and> c \<notin> set out"
  then show "CBS_get_until_first cbs c = Some (out, r)"
    by (auto simp: CBS_get_until_first_eq takeWhile_append dropWhile_append)
qed

interpretation u8_codec: item_codec CBS_get_u8 "\<lambda>b. [b]" "\<lambda>_. True"
  by unfold_locales (auto simp: CBS_get_u8_iff)

lemma prefixed_codec:
  "n \<le> 3 \<Longrightarrow> exact_codec (\<lambda>cbs. cbs_get_length_prefixed cbs n)
     (\<lambda>c. be_bytes n (length c) @ c) (\<lambda>c. length c < 256 ^ n)"
  by unfold_locales (simp add: cbs_get_length_prefixed_iff)

interpretation u8_prefixed: item_codec CBS_get_u8_length_prefixed
    "\<lambda>c. be_bytes 1 (length c) @ c" "\<lambda>c. length c < 256"
  by unfold_locales
     (auto simp: CBS_get_u8_length_prefixed_def cbs_get_length_prefixed_iff be_bytes_def)

interpretation u16_prefixed: item_codec CBS_get_u16_length_prefixed
    "\<lambda>c. be_bytes 2 (length c) @ c" "\<lambda>c. length c < 65536"
  by unfold_locales
     (auto simp: CBS_get_u16_length_prefixed_def cbs_get_length_prefixed_iff numeral_2_eq_2
        be_bytes_Suc)

interpretation u24_prefixed: item_codec CBS_get_u24_length_prefixed
    "\<lambda>c. be_bytes 3 (length c) @ c" "\<lambda>c. length c < 16777216"
  by unfold_locales
     (auto simp: CBS_get_u24_length_prefixed_def cbs_get_length_prefixed_iff numeral_3_eq_3
        be_bytes_Suc)

end
