(* ===== verification/Der.thy ===== *)
theory Der
  imports Cbs
begin

text \<open>
  The distinguished encoding rules as a specification, and the exactness of the reader.

  \<open>base128 n\<close>, \<open>der_tag tag\<close>, \<open>der_length n\<close> and \<open>der_header tag n\<close> are the canonical byte strings of a
  base-128 integer, of an identifier, of a length and of both. They are defined on numbers, apart
  from the code. \<open>parse_base128_integer\<close>, \<open>parse_asn1_tag\<close> and \<open>cbs_get_any_asn1_element\<close> accept
  exactly these strings: each lemma is an equivalence, so no second encoding of the same value is
  accepted and no canonical encoding within the limits is refused.
\<close>

section \<open>The canonical encodings\<close>

function base128_hi :: "nat \<Rightarrow> bytes" where
  "base128_hi n = (if n = 0 then [] else base128_hi (n div 128) @ [word_of_nat (128 + n mod 128)])"
  by pat_completeness auto
termination by (relation "measure id") auto

declare base128_hi.simps [simp del]

definition base128 :: "nat \<Rightarrow> bytes" where
  "base128 n = base128_hi (n div 128) @ [word_of_nat (n mod 128)]"

definition der_tag :: "u32 \<Rightarrow> bytes" where
  "der_tag tag =
     (let tag_bits = (ucast (drop_bit 24 tag) AND 0xe0 :: byte);
          n = unat (tag AND CBS_ASN1_TAG_NUMBER_MASK)
      in if 31 \<le> n then (tag_bits OR 0x1f) # base128 n else [tag_bits OR word_of_nat n])"

definition der_len_len :: "nat \<Rightarrow> nat" where
  "der_len_len n = (if n < 2 ^ 8 then 1 else if n < 2 ^ 16 then 2 else if n < 2 ^ 24 then 3 else 4)"

definition der_length :: "nat \<Rightarrow> bytes" where
  "der_length n =
     (if n < 128 then [word_of_nat n]
      else word_of_nat (128 + der_len_len n) # be_bytes (der_len_len n) n)"

definition der_header :: "u32 \<Rightarrow> nat \<Rightarrow> bytes" where
  "der_header tag n = der_tag tag @ der_length n"

section \<open>Base-128 integers\<close>

lemma base128_hi_0 [simp]: "base128_hi 0 = []"
  by (simp add: base128_hi.simps)

lemma base128_hi_step:
  "0 < n \<Longrightarrow> base128_hi n = base128_hi (n div 128) @ [word_of_nat (128 + n mod 128)]"
  by (subst base128_hi.simps) simp

lemma length_base128_hi: "n < 128 ^ k \<Longrightarrow> length (base128_hi n) \<le> k"
proof (induction k arbitrary: n)
  case (Suc k)
  show ?case
  proof (cases "n = 0")
    case False
    have "n div 128 < 128 ^ k"
      using Suc.prems by (simp add: div_less_iff_less_mult mult.commute)
    with False show ?thesis using Suc.IH [of "n div 128"] by (simp add: base128_hi_step)
  qed simp
qed simp

lemma byte_high_bit: "(b :: byte) AND 0x80 \<noteq> 0 \<longleftrightarrow> 128 \<le> unat b"
proof -
  have "b AND 0x80 \<noteq> 0 \<longleftrightarrow> bit b 7"
    using and_exp_eq_0_iff_not_bit [of b 7] by simp
  also have "\<dots> \<longleftrightarrow> odd (unat b div 128)"
    by (simp add: bit_odd_unat)
  also have "\<dots> \<longleftrightarrow> 128 \<le> unat b"
  proof -
    have "unat b div 128 < 2" by (rule less_mult_imp_div_less) simp
    then show ?thesis by (cases "128 \<le> unat b") (auto simp: less_2_cases_iff div_eq_0_iff)
  qed
  finally show ?thesis .
qed

lemma unat_and_7f: "unat ((b :: byte) AND 0x7f) = unat b mod 128"
proof -
  have "b AND 0x7f = take_bit 7 b"
    by (simp add: take_bit_eq_mask mask_eq_exp_minus_1)
  then show ?thesis
    by (simp add: take_bit_eq_mod unat_mod)
qed

lemma base128_shift:
  "unat (push_bit 7 v OR ucast ((b :: byte) AND 0x7f) :: u64) =
     (unat v * 128 + unat b mod 128) mod 2 ^ 64"
proof -
  have u: "unat (ucast (b AND 0x7f) :: u64) = unat b mod 128"
    by (simp add: unat_ucast_up unat_and_7f)
  then have "unat (ucast (b AND 0x7f) :: u64) < 2 ^ 7" by simp
  from unat_push_bit_or [OF this, of v] show ?thesis by (simp add: u)
qed

lemma drop_bit_57: "drop_bit 57 (v :: u64) = 0 \<longleftrightarrow> unat v * 128 < 2 ^ 64"
proof -
  have "drop_bit 57 v = 0 \<longleftrightarrow> unat v div 2 ^ 57 = 0"
    by (simp add: word_unat_eq_iff unat_drop_bit)
  also have "\<dots> \<longleftrightarrow> unat v < 2 ^ 57" by (simp add: div_eq_0_iff)
  finally show ?thesis by simp
qed

lemma base128_digit_mod: "unat (b :: byte) mod 128 = (if 128 \<le> unat b then unat b - 128 else unat b)"
  using unat_byte_less [of b] by (auto simp: le_mod_geq simp del: unat_byte_less)

lemma base128_room: "m * 128 < (2 :: nat) ^ 64 \<Longrightarrow> d < 128 \<Longrightarrow> m * 128 + d < 2 ^ 64"
  by simp

lemma parse_base128_loop_sound:
  "parse_base128_loop v cbs = Some (w, r) \<Longrightarrow>
     base128_hi (unat v) @ cbs = base128 (unat w) @ r"
proof (induction v cbs rule: parse_base128_loop.induct)
  case (2 v b cbs)
  let ?v = "push_bit 7 v OR ucast (b AND 0x7f) :: u64"
  from "2.prems" have v: "unat v * 128 < 2 ^ 64" and nz: "\<not> (v = 0 \<and> b = 0x80)"
    by (auto simp: drop_bit_57 Let_def split: if_splits)
  have digit: "unat b mod 128 < 128" by simp
  have "unat v * 128 + unat b mod 128 < 2 ^ 64" by (rule base128_room [OF v digit])
  then have uv: "unat ?v = unat v * 128 + unat b mod 128"
    by (simp add: base128_shift)
  show ?case
  proof (cases "b AND 0x80 \<noteq> 0")
    case True
    with "2.prems" "2.IH" have IH: "base128_hi (unat ?v) @ cbs = base128 (unat w) @ r"
      by (simp add: Let_def split: if_splits)
    have b: "128 + unat b mod 128 = unat b"
      using True byte_high_bit [of b] by (simp add: base128_digit_mod)
    have "0 < unat ?v"
    proof (rule ccontr)
      assume "\<not> 0 < unat ?v"
      then have "unat v = 0" "unat b = 128" using uv b by auto
      then show False using nz by (simp add: word_unat_eq_iff)
    qed
    then have "base128_hi (unat ?v) = base128_hi (unat v) @ [b]"
      using b by (subst base128_hi_step [OF \<open>0 < unat ?v\<close>]) (simp add: uv)
    with IH show ?thesis by simp
  next
    case False
    with "2.prems" have w: "w = ?v" "r = cbs" by (auto simp: Let_def split: if_splits)
    have "unat b mod 128 = unat b" using False byte_high_bit [of b] by (simp add: base128_digit_mod)
    then show ?thesis unfolding w base128_def uv by simp
  qed
qed simp

lemma parse_base128_loop_step:
  "drop_bit 57 v = 0 \<Longrightarrow> \<not> (v = 0 \<and> c = 0x80) \<Longrightarrow> c AND 0x80 \<noteq> 0 \<Longrightarrow>
     parse_base128_loop v (c # s) = parse_base128_loop (push_bit 7 v OR ucast (c AND 0x7f)) s"
  by (auto simp: Let_def)

lemma parse_base128_loop_hi:
  "n < 2 ^ 64 \<Longrightarrow>
     parse_base128_loop 0 (base128_hi n @ b # r) = parse_base128_loop (word_of_nat n) (b # r)"
proof (induction n arbitrary: b r rule: base128_hi.induct)
  case (1 n)
  show ?case
  proof (cases "n = 0")
    case False
    let ?m = "n div 128" and ?b = "word_of_nat (128 + n mod 128) :: byte"
    have b: "unat ?b = 128 + n mod 128" by (simp add: unat_of_nat del: of_nat_add)
    have m: "unat (word_of_nat ?m :: u64) = ?m" using "1.prems" by (simp add: unat_of_nat)
    have m0: "?m = 0 \<Longrightarrow> n mod 128 \<noteq> 0" using False by (metis div_mult_mod_eq add_0 mult_0)
    have "parse_base128_loop 0 (base128_hi n @ b # r) =
        parse_base128_loop (word_of_nat ?m) (?b # b # r)"
      using False "1.IH" "1.prems" by (simp add: base128_hi_step)
    also have "\<dots> = parse_base128_loop (push_bit 7 (word_of_nat ?m) OR ucast (?b AND 0x7f)) (b # r)"
    proof -
      have "drop_bit 57 (word_of_nat ?m :: u64) = 0"
        using "1.prems" by (simp add: drop_bit_57 m)
      moreover have "\<not> (word_of_nat ?m = (0 :: u64) \<and> ?b = 0x80)"
      proof
        assume "word_of_nat ?m = (0 :: u64) \<and> ?b = 0x80"
        then have "?m = 0" "128 + n mod 128 = 128" using m b by auto
        then show False using m0 by simp
      qed
      moreover have "?b AND 0x80 \<noteq> 0" by (simp only: byte_high_bit b)
      ultimately show ?thesis by (rule parse_base128_loop_step)
    qed
    also have "push_bit 7 (word_of_nat ?m) OR ucast (?b AND 0x7f) = (word_of_nat n :: u64)"
    proof -
      have "?m * 128 + (128 + n mod 128) mod 128 = n" by simp
      then show ?thesis
        unfolding word_unat_eq_iff base128_shift b m using "1.prems" by (simp add: unat_of_nat)
    qed
    finally show ?thesis .
  qed simp
qed

lemma parse_base128_base128:
  assumes "n < 2 ^ 64"
  shows "parse_base128_integer (base128 n @ r) = Some (word_of_nat n, r)"
proof -
  let ?m = "n div 128" and ?b = "word_of_nat (n mod 128) :: byte"
  have b: "unat ?b = n mod 128" by (simp add: unat_of_nat)
  have m: "unat (word_of_nat ?m :: u64) = ?m" using assms by (simp add: unat_of_nat)
  have nz: "\<not> 128 \<le> unat ?b" by (simp add: b)
  have "drop_bit 57 (word_of_nat ?m :: u64) = 0"
    using assms by (simp add: drop_bit_57 m)
  moreover have "?b \<noteq> 0x80" using nz by auto
  moreover have "push_bit 7 (word_of_nat ?m) OR ucast (?b AND 0x7f) = (word_of_nat n :: u64)"
    unfolding word_unat_eq_iff base128_shift b m using assms by (simp add: unat_of_nat)
  moreover have "?m < 2 ^ 64" using assms by simp
  ultimately show ?thesis
    using nz byte_high_bit [of ?b]
    by (simp add: parse_base128_integer_def base128_def parse_base128_loop_hi Let_def)
qed

lemma parse_base128_integer_iff:
  "parse_base128_integer cbs = Some (v, r) \<longleftrightarrow> cbs = base128 (unat v) @ r"
proof
  assume "parse_base128_integer cbs = Some (v, r)"
  then show "cbs = base128 (unat v) @ r"
    using parse_base128_loop_sound [of 0 cbs v r] by (simp add: parse_base128_integer_def)
next
  assume "cbs = base128 (unat v) @ r"
  then show "parse_base128_integer cbs = Some (v, r)"
    using parse_base128_base128 [of "unat v" r] unat_u64_less [of v] by simp
qed

lemma length_base128: "n < 128 ^ Suc k \<Longrightarrow> length (base128 n) \<le> Suc k"
  using length_base128_hi [of "n div 128" k]
  by (simp add: base128_def div_less_iff_less_mult mult.commute)

section \<open>Identifiers\<close>

lemma mask_numerals:
  "(0xe0 :: byte) = push_bit 5 (mask 3)" "(0xe0 :: u32) = push_bit 5 (mask 3)"
  "(0x1f :: byte) = mask 5" "(0x1fffffff :: u32) = mask 29"
  by (simp_all add: mask_eq_exp_minus_1 push_bit_eq_mult)

lemmas tag_bit_simps = bit_or_iff bit_and_iff bit_push_bit_iff bit_drop_bit_eq bit_ucast_iff
  bit_mask_iff

text \<open>The tag word that the reader builds, and the two fields the writer takes it apart into.\<close>

definition tag_word :: "byte \<Rightarrow> u32 \<Rightarrow> u32" where
  "tag_word b n = (push_bit 24 (ucast b AND 0xe0) OR n)"

lemma tag_bits_of_tag:
  assumes "unat (n :: u32) < 2 ^ 29"
  shows "(ucast (drop_bit 24 (tag_word b n)) AND 0xe0 :: byte) = b AND 0xe0"
    and "tag_word b n AND CBS_ASN1_TAG_NUMBER_MASK = n"
proof -
  have n: "\<not> bit n i" if "29 \<le> i" for i using bit_of_narrow [OF assms that] .
  then have n_dest: "i < 29" if "bit n i" for i using that by (meson not_less)
  show "(ucast (drop_bit 24 (tag_word b n)) AND 0xe0 :: byte) = b AND 0xe0"
    unfolding tag_word_def by (rule bit_word_eqI) (auto simp: mask_numerals tag_bit_simps n)
  show "tag_word b n AND CBS_ASN1_TAG_NUMBER_MASK = n"
    unfolding tag_word_def CBS_ASN1_TAG_NUMBER_MASK_def
    by (rule bit_word_eqI) (auto simp: mask_numerals tag_bit_simps dest: n_dest)
qed

lemma tag_of_tag_bits:
  "tag_word (ucast (drop_bit 24 tag) AND 0xe0) (tag AND CBS_ASN1_TAG_NUMBER_MASK) = tag"
  unfolding CBS_ASN1_TAG_NUMBER_MASK_def tag_word_def
  by (rule bit_word_eqI) (auto simp: mask_numerals tag_bit_simps)

lemma unat_and_mask: "unat (w AND mask k :: 'a::len word) = unat w mod 2 ^ k"
  by (metis take_bit_eq_mask unsigned_take_bit_eq take_bit_eq_mod)

lemma unat_and_1f: "unat ((b :: byte) AND 0x1f) = unat b mod 32"
  by (simp only: mask_numerals unat_and_mask) simp

lemma unat_and_tag_number: "unat (tag AND CBS_ASN1_TAG_NUMBER_MASK) = unat tag mod 2 ^ 29"
  by (simp only: CBS_ASN1_TAG_NUMBER_MASK_def mask_numerals unat_and_mask)

lemma tag_word_cong: "b AND 0xe0 = c AND 0xe0 \<Longrightarrow> tag_word b n = tag_word c n"
proof -
  assume eq: "b AND 0xe0 = c AND 0xe0"
  have "(ucast x AND 0xe0 :: u32) = ucast (x AND 0xe0)" for x :: byte
    by (rule bit_word_eqI) (auto simp: mask_numerals tag_bit_simps)
  then show ?thesis using eq by (simp add: tag_word_def)
qed

lemma parse_asn1_tag_Cons:
  "parse_asn1_tag (b # c) =
     (let n = (ucast (b AND 0x1f) :: u32)
      in if n = 0x1f then
           (case parse_base128_integer c of
              None \<Rightarrow> None
            | Some (v, d) \<Rightarrow>
                if v > ucast CBS_ASN1_TAG_NUMBER_MASK \<or> v < 0x1f then None
                else Some (tag_word b (ucast v), d))
         else Some (tag_word b n, c))"
  unfolding parse_asn1_tag_def CBS_ASN1_TAG_SHIFT_def tag_word_def Let_def CBS_get_u8_simps
    option.case prod.case by (rule refl)

lemma parse_asn1_tag_sound:
  assumes "parse_asn1_tag cbs = Some (tag, r)"
  shows "cbs = der_tag tag @ r"
proof -
  obtain b c where cbs: "cbs = b # c"
    using assms by (cases cbs) (auto simp: parse_asn1_tag_def)
  let ?n = "ucast (b AND 0x1f) :: u32"
  have un: "unat ?n = unat b mod 32"
    by (simp add: unat_ucast_up unat_and_1f)
  have split: "(b AND 0xe0) OR (b AND 0x1f) = b"
    by (rule bit_word_eqI) (auto simp: mask_numerals tag_bit_simps)
  show ?thesis
  proof (cases "?n = 0x1f")
    case True
    with assms cbs obtain v where v: "parse_base128_integer c = Some (v, r)"
      and le: "v \<le> ucast CBS_ASN1_TAG_NUMBER_MASK" "0x1f \<le> v"
      and tag: "tag = tag_word b (ucast v)"
      by (auto simp: parse_asn1_tag_Cons Let_def not_less
          split: option.splits if_splits)
    have v29: "unat v < 2 ^ 29"
      using le(1) by (simp add: word_le_nat_alt CBS_ASN1_TAG_NUMBER_MASK_def)
    have uv: "unat (ucast v :: u32) = unat v"
      using v29 by (simp add: unat_ucast_down)
    have "b AND 0x1f = 0x1f"
      using True un by (simp add: word_unat_eq_iff unat_and_1f)
    then have b: "(b AND 0xe0) OR 0x1f = b" using split by simp
    have "31 \<le> unat v" using le(2) by (simp add: word_le_nat_alt)
    moreover have "c = base128 (unat v) @ r" using v by (simp add: parse_base128_integer_iff)
    ultimately show ?thesis
      using b v29 uv by (simp add: der_tag_def tag tag_bits_of_tag cbs)
  next
    case False
    with assms cbs have tag: "tag = tag_word b ?n" and r: "r = c"
      by (auto simp: parse_asn1_tag_Cons Let_def)
    have "unat ?n < 31"
      using False un by (simp add: word_unat_eq_iff)
    moreover have "word_of_nat (unat ?n) = b AND 0x1f"
      by (simp add: un word_unat_eq_iff unat_of_nat unat_and_1f)
    moreover have "unat ?n < 2 ^ 29" using un by simp
    ultimately show ?thesis
      using split by (simp add: der_tag_def tag tag_bits_of_tag cbs r)
  qed
qed

lemma low_tag_byte:
  assumes "unat n < 32"
  shows "((t AND 0xe0) OR n) AND 0x1f = (n :: byte)" "((t AND 0xe0) OR n) AND 0xe0 = t AND 0xe0"
proof -
  have n: "i < 5" if "bit n i" for i
    using bit_of_narrow [of n 5 i] that assms by (cases "i < 5") auto
  show "((t AND 0xe0) OR n) AND 0x1f = n" "((t AND 0xe0) OR n) AND 0xe0 = t AND 0xe0"
    by (rule bit_word_eqI, auto simp: mask_numerals tag_bit_simps dest: n)+
qed

lemma parse_asn1_tag_der_tag: "parse_asn1_tag (der_tag tag @ r) = Some (tag, r)"
proof -
  let ?t = "ucast (drop_bit 24 tag) AND 0xe0 :: byte"
  let ?m = "tag AND CBS_ASN1_TAG_NUMBER_MASK"
  have m: "unat ?m < 2 ^ 29"
    by (simp add: unat_and_tag_number)
  show ?thesis
  proof (cases "31 \<le> unat ?m")
    case True
    have b: "(?t OR 0x1f) AND 0x1f = 0x1f" "(?t OR 0x1f) AND 0xe0 = ?t AND 0xe0"
      by (rule bit_word_eqI, auto simp: mask_numerals tag_bit_simps)+
    have t: "tag_word (?t OR 0x1f) ?m = tag"
      using tag_word_cong [OF b(2), of ?m] tag_of_tag_bits [of tag] by (rule trans)
    have um: "(ucast (ucast ?m :: u64) :: u32) = ?m"
      by (rule bit_word_eqI) (simp add: bit_ucast_iff)
    have p: "parse_base128_integer (base128 (unat ?m) @ r) = Some (ucast ?m, r)"
      using m by (simp add: parse_base128_base128)
    have "\<not> (ucast ?m :: u64) > ucast CBS_ASN1_TAG_NUMBER_MASK" "\<not> (ucast ?m :: u64) < 0x1f"
      using m True
      by (simp_all add: word_less_nat_alt unat_ucast_up CBS_ASN1_TAG_NUMBER_MASK_def)
    then show ?thesis
      using True b(1) p t um by (simp add: parse_asn1_tag_Cons der_tag_def)
  next
    case False
    let ?b = "word_of_nat (unat ?m) :: byte"
    have ub: "unat ?b = unat ?m" using False by (simp only: unat_of_nat) simp
    have b: "(?t OR ?b) AND 0x1f = ?b" "(?t OR ?b) AND 0xe0 = ?t AND 0xe0"
      using low_tag_byte [of ?b] ub False by simp_all
    have t: "tag_word (?t OR ?b) ?m = tag"
      using tag_word_cong [OF b(2), of ?m] tag_of_tag_bits [of tag] by (rule trans)
    have n: "(ucast ?b :: u32) = ?m"
      using ub by (simp add: word_unat_eq_iff unat_ucast_up)
    have "?m \<noteq> 0x1f" using False by auto
    then show ?thesis
      using False b(1) n t by (simp add: parse_asn1_tag_Cons der_tag_def)
  qed
qed

lemma parse_asn1_tag_iff: "parse_asn1_tag cbs = Some (tag, r) \<longleftrightarrow> cbs = der_tag tag @ r"
  using parse_asn1_tag_sound parse_asn1_tag_der_tag by blast

lemma length_der_tag: "length (der_tag tag) \<le> 6"
proof -
  have "unat (tag AND CBS_ASN1_TAG_NUMBER_MASK) < 128 ^ Suc 4"
    unfolding unat_and_tag_number by (rule less_le_trans [OF mod_less_divisor]) simp_all
  from length_base128 [OF this] show ?thesis
    by (simp add: der_tag_def Let_def)
qed

lemma der_tag_not_Nil [simp]: "der_tag tag \<noteq> []"
  by (simp add: der_tag_def Let_def)

section \<open>Elements\<close>

definition der_element :: "u32 \<Rightarrow> bytes \<Rightarrow> bytes" where
  "der_element tag contents = der_header tag (length contents) @ contents"

definition der_parsed :: "u32 \<Rightarrow> bytes \<Rightarrow> asn1_element" where
  "der_parsed tag contents =
     \<lparr>el_out = der_element tag contents, el_tag = tag,
      el_header_len = length (der_header tag (length contents)), el_ber_found = False\<rparr>"

lemma der_len_len_bounds: "der_len_len n \<le> 4" "0 < der_len_len n"
  by (simp_all add: der_len_len_def)

lemma der_len_len_room: "n < 2 ^ 32 \<Longrightarrow> n < 256 ^ der_len_len n"
  by (simp add: der_len_len_def)

lemma der_len_len_unique:
  assumes "n < 256 ^ k" "256 ^ (k - 1) \<le> n" "0 < k" "k \<le> 4"
  shows "der_len_len n = k"
proof -
  have "k = 1 \<or> k = 2 \<or> k = 3 \<or> k = 4" using assms(3,4) by linarith
  then show ?thesis using assms(1,2) by (elim disjE) (simp_all add: der_len_len_def)
qed

lemma der_len_len_minimal: "128 \<le> n \<Longrightarrow> 256 ^ (der_len_len n - 1) \<le> n"
  by (simp add: der_len_len_def)

lemma drop_bit_len64: "drop_bit (j * 8) (w :: u64) = 0 \<longleftrightarrow> unat w < 256 ^ j"
proof -
  have "(2 :: nat) ^ (j * 8) = 256 ^ j"
    by (subst mult.commute) (simp only: power_mult, simp)
  then show ?thesis by (simp add: word_unat_eq_iff unat_drop_bit div_eq_0_iff)
qed

text \<open>Both directions of the long form rest on this description of its length octets.\<close>

lemma der_length_long:
  assumes "length d = k" "0 < k" "k \<le> 4" "128 \<le> be_val d" "256 ^ (k - 1) \<le> be_val d"
  shows "der_length (be_val d) = word_of_nat (128 + k) # d"
proof -
  have "der_len_len (be_val d) = k"
    using assms be_val_less [of d] by (intro der_len_len_unique) auto
  then show ?thesis
    using assms be_bytes_be_val [of d] by (simp add: der_length_def)
qed

lemma get_element_sound:
  assumes "cbs_get_any_asn1_element False cbs = Some (el, r)"
  shows "\<exists>tag contents. length contents < 2 ^ 32 \<and> el = der_parsed tag contents \<and>
    cbs = der_element tag contents @ r"
proof -
  obtain tag header where tag: "parse_asn1_tag cbs = Some (tag, header)"
    using assms by (auto simp: cbs_get_any_asn1_element_def split: option.splits)
  obtain lb h2 where header: "header = lb # h2"
    using assms tag by (cases header) (auto simp: cbs_get_any_asn1_element_def)
  have cbs: "cbs = der_tag tag @ lb # h2"
    using tag header by (simp add: parse_asn1_tag_iff)
  have hl: "length cbs - length h2 = Suc (length (der_tag tag))" by (simp add: cbs)
  show ?thesis
  proof (cases "lb AND 0x80 = 0")
    case True
    then have small: "unat lb < 128" using byte_high_bit [of lb] by auto
    let ?c = "take (unat lb) h2"
    have el: "unat lb \<le> length h2" "r = drop (unat lb) h2"
      "el = \<lparr>el_out = der_tag tag @ lb # ?c, el_tag = tag,
              el_header_len = Suc (length (der_tag tag)), el_ber_found = False\<rparr>"
      using assms tag header True
      by (auto simp: cbs_get_any_asn1_element_def CBS_len_def hl CBS_get_bytes_eq cbs_get_def cbs
          split: if_splits)
    moreover have "der_length (length ?c) = [lb]"
      using small el(1) by (simp add: der_length_def)
    ultimately show ?thesis
      using small
      by (intro exI [of _ tag] exI [of _ ?c]) (simp add: der_parsed_def der_element_def der_header_def cbs)
  next
    case False
    let ?k = "unat (lb AND 0x7f)"
    have k: "unat lb = 128 + ?k"
      using False byte_high_bit [of lb] by (simp add: unat_and_7f base128_digit_mod)
    obtain d h3 where d: "h2 = d @ h3" "length d = ?k" and k4: "0 < ?k" "?k \<le> 4"
      and get: "cbs_get_u h2 ?k = Some (cbs_u_fold d, h3)"
      using assms tag header False
      by (auto simp: cbs_get_any_asn1_element_def CBS_len_def Let_def cbs_get_u_iff
          split: option.splits if_splits)
    have v: "unat (cbs_u_fold d) = be_val d"
      using d k4 by (simp add: unat_cbs_u_fold)
    have vb: "be_val d < 2 ^ 32"
    proof -
      have "be_val d < 256 ^ ?k" using be_val_less [of d] d by simp
      also have "\<dots> \<le> 256 ^ 4" using k4 by (intro power_increasing) auto
      finally show ?thesis by simp
    qed
    let ?h = "Suc (length (der_tag tag)) + ?k"
    have no_wrap: "(be_val d + Suc (length (der_tag tag)) + ?k) mod 2 ^ 64 = be_val d + ?h"
      using vb k4 length_der_tag [of tag] by simp
    have body: "el = \<lparr>el_out = take (be_val d + ?h) cbs, el_tag = tag, el_header_len = ?h,
             el_ber_found = False\<rparr>" "r = drop (be_val d + ?h) cbs" "be_val d + ?h \<le> length cbs"
      and min: "128 \<le> be_val d" "256 ^ (?k - 1) \<le> be_val d"
      using assms tag header False get k4 no_wrap
      by (auto simp: cbs_get_any_asn1_element_def CBS_len_def hl Let_def v word_less_nat_alt
          drop_bit_len64 not_less CBS_get_bytes_eq cbs_get_def split: if_splits)
    have lb: "word_of_nat (128 + ?k) = lb" unfolding k [symmetric] by simp
    have len: "der_length (be_val d) = lb # d"
      unfolding der_length_long [OF d(2) k4 min] lb by (rule refl)
    let ?c = "take (be_val d) h3"
    have "be_val d \<le> length h3" using body(3) d by (simp add: cbs)
    then show ?thesis
      using body vb len d
      by (intro exI [of _ tag] exI [of _ ?c])
         (simp add: der_parsed_def der_element_def der_header_def cbs)
  qed
qed

lemma get_element_complete:
  assumes "length contents < 2 ^ 32"
  shows "cbs_get_any_asn1_element False (der_element tag contents @ r) =
    Some (der_parsed tag contents, r)"
proof -
  let ?n = "length contents" and ?t = "der_tag tag"
  show ?thesis
  proof (cases "?n < 128")
    case True
    let ?lb = "word_of_nat ?n :: byte"
    have u: "unat ?lb = ?n" using True by (simp add: unat_of_nat)
    then have "?lb AND 0x80 = 0" using True byte_high_bit [of ?lb] by auto
    then show ?thesis
      using True u
      by (simp add: cbs_get_any_asn1_element_def der_element_def der_header_def der_length_def
          parse_asn1_tag_der_tag CBS_len_def CBS_get_bytes_eq cbs_get_def der_parsed_def)
  next
    case False
    let ?k = "der_len_len ?n"
    let ?lb = "word_of_nat (128 + ?k) :: byte"
    have k: "0 < ?k" "?k \<le> 4" by (simp_all add: der_len_len_bounds)
    have u: "unat ?lb = 128 + ?k" using k by (simp only: unat_of_nat) simp
    then have hi: "?lb AND 0x80 \<noteq> 0" by (simp only: byte_high_bit)
    have num: "unat (?lb AND 0x7f) = ?k" using k by (simp only: unat_and_7f u) simp
    have v: "unat (cbs_u_fold (be_bytes ?k ?n)) = ?n"
      using k der_len_len_room [OF assms] by (simp add: cbs_u_fold_be_bytes)
    have min: "256 ^ (?k - Suc 0) \<le> ?n" using False der_len_len_minimal [of ?n] by simp
    define lb where "lb = ?lb"
    have no_wrap: "(?n + Suc (length ?t) + ?k) mod 2 ^ 64 = ?n + Suc (length ?t) + ?k"
      using assms k length_der_tag [of tag] by simp
    show ?thesis
      using False hi k num v min no_wrap
      unfolding der_element_def der_header_def der_length_def lb_def [symmetric]
      by (simp add: cbs_get_any_asn1_element_def parse_asn1_tag_der_tag CBS_len_def Let_def
          cbs_get_u_append drop_bit_len64 word_less_nat_alt CBS_get_bytes_eq cbs_get_def
          der_parsed_def der_element_def der_header_def der_length_def lb_def)
  qed
qed

lemma get_element_iff:
  "cbs_get_any_asn1_element False cbs = Some (el, r) \<longleftrightarrow>
     (\<exists>tag contents. length contents < 2 ^ 32 \<and> el = der_parsed tag contents \<and>
        cbs = der_element tag contents @ r)"
  using get_element_sound get_element_complete by blast

lemma der_parsed_sel [simp]:
  "el_out (der_parsed tag c) = der_element tag c" "el_tag (der_parsed tag c) = tag"
  "el_header_len (der_parsed tag c) = length (der_header tag (length c))"
  "\<not> el_ber_found (der_parsed tag c)"
  by (simp_all add: der_parsed_def)

lemma CBS_skip_der_element [simp]:
  "CBS_skip (der_element t c) (length (der_header t (length c))) = Some c"
  by (simp add: der_element_def)

lemma CBS_get_any_asn1_iff:
  "CBS_get_any_asn1 cbs = Some (contents, tag, r) \<longleftrightarrow>
     length contents < 2 ^ 32 \<and> cbs = der_element tag contents @ r" (is "?L \<longleftrightarrow> ?R")
proof
  assume ?L
  then obtain el where el: "cbs_get_any_asn1_element False cbs = Some (el, r)" "el_tag el = tag"
    "CBS_skip (el_out el) (el_header_len el) = Some contents"
    by (auto simp: CBS_get_any_asn1_def CBS_get_any_asn1_element_def split: option.splits)
  then show ?R by (auto simp: get_element_iff)
next
  assume ?R
  then show ?L
    by (simp add: CBS_get_any_asn1_def CBS_get_any_asn1_element_def get_element_complete)
qed

lemma CBS_get_asn1_iff:
  "CBS_get_asn1 cbs tag = Some (contents, r) \<longleftrightarrow>
     length contents < 2 ^ 32 \<and> cbs = der_element tag contents @ r" (is "?L \<longleftrightarrow> ?R")
proof
  assume ?L
  then obtain el where el: "cbs_get_any_asn1_element False cbs = Some (el, r)" "el_tag el = tag"
    "CBS_skip (el_out el) (el_header_len el) = Some contents"
    by (auto simp: CBS_get_asn1_def cbs_get_asn1_def CBS_get_any_asn1_element_def
        split: option.splits if_splits)
  then show ?R by (auto simp: get_element_iff)
next
  assume ?R
  then show ?L
    by (simp add: CBS_get_asn1_def cbs_get_asn1_def CBS_get_any_asn1_element_def
        get_element_complete)
qed

lemma CBS_get_asn1_element_iff:
  "CBS_get_asn1_element cbs tag = Some (out, r) \<longleftrightarrow>
     (\<exists>contents. length contents < 2 ^ 32 \<and> out = der_element tag contents \<and> cbs = out @ r)"
    (is "?L \<longleftrightarrow> ?R")
proof
  assume ?L
  then obtain el where el: "cbs_get_any_asn1_element False cbs = Some (el, r)" "el_tag el = tag"
    "el_out el = out"
    by (auto simp: CBS_get_asn1_element_def cbs_get_asn1_def CBS_get_any_asn1_element_def
        split: option.splits if_splits)
  then show ?R by (auto simp: get_element_iff)
next
  assume ?R
  then show ?L
    by (auto simp: CBS_get_asn1_element_def cbs_get_asn1_def CBS_get_any_asn1_element_def
        get_element_complete)
qed

lemma CBS_peek_asn1_tag_iff: "CBS_peek_asn1_tag cbs tag \<longleftrightarrow> (\<exists>r. cbs = der_tag tag @ r)"
proof -
  have "parse_asn1_tag [] = None" by (simp add: parse_asn1_tag_def)
  then have "CBS_peek_asn1_tag cbs tag \<longleftrightarrow> (\<exists>r. parse_asn1_tag cbs = Some (tag, r))"
    by (cases cbs) (auto simp: CBS_peek_asn1_tag_def CBS_len_def split: option.splits)
  then show ?thesis by (simp add: parse_asn1_tag_iff)
qed

section \<open>The readers as codecs\<close>

lemma base128_not_Nil [simp]: "base128 n \<noteq> []"
  by (simp add: base128_def)

lemma der_element_not_Nil [simp]: "der_element tag c \<noteq> []"
  by (simp add: der_element_def der_header_def)

interpretation base128_codec: item_codec parse_base128_integer "\<lambda>v. base128 (unat v)" "\<lambda>_. True"
  by unfold_locales (simp_all add: parse_base128_integer_iff)

interpretation tag_codec: item_codec parse_asn1_tag der_tag "\<lambda>_. True"
  by unfold_locales (simp_all add: parse_asn1_tag_iff)

definition get_tagged :: "bytes \<Rightarrow> ((u32 \<times> bytes) \<times> bytes) option" where
  "get_tagged cbs = map_option (\<lambda>(contents, tag, r). ((tag, contents), r)) (CBS_get_any_asn1 cbs)"

interpretation element_codec: item_codec get_tagged
    "\<lambda>(tag, c). der_element tag c" "\<lambda>(tag, c). length c < 2 ^ 32"
proof
  show "get_tagged bs = Some (x, r) \<longleftrightarrow>
      (case x of (tag, c) \<Rightarrow> length c < 2 ^ 32) \<and> bs = (case x of (tag, c) \<Rightarrow> der_element tag c) @ r"
    for bs x r
    by (cases x) (auto simp: get_tagged_def CBS_get_any_asn1_iff)
qed auto

lemma der_element_prefix_free:
  "length c < 2 ^ 32 \<Longrightarrow> length d < 2 ^ 32 \<Longrightarrow> der_element t c @ r = der_element u d @ s \<Longrightarrow>
     t = u \<and> c = d \<and> r = s"
  using element_codec.prefix_free [of "(t, c)" "(u, d)" r s] by simp

section \<open>Properties\<close>

text \<open>C1: the DER reader is exact. It returns the contents, the tag and the rest of the input if and
  only if the input starts with the canonical header of that tag and of the length of the contents,
  followed by the contents: no second encoding of an element is accepted, and none of less than
  \<open>2 ^ 32\<close> bytes of contents is refused.\<close>

theorem CBS_get_any_asn1_exact:
  "CBS_get_any_asn1 cbs = Some (contents, tag, r) \<longleftrightarrow>
     length contents < 2 ^ 32 \<and> cbs = der_tag tag @ der_length (length contents) @ contents @ r"
  by (simp add: CBS_get_any_asn1_iff der_element_def der_header_def)

text \<open>The base-128 reader of tags and object identifiers accepts the shortest encoding of a
  64-bit number and nothing else: leading \<open>0x80\<close> bytes, truncated input and numbers of more than 64
  bits are refused.\<close>

theorem parse_base128_integer_exact:
  "parse_base128_integer cbs = Some (v, r) \<longleftrightarrow> cbs = base128 (unat v) @ r"
  by (rule parse_base128_integer_iff)

end
