(* ===== verification/Der_Integer.thy ===== *)
theory Der_Integer
  imports Der
begin

text \<open>
  DER INTEGER contents. \<open>sval bs\<close> is the number a byte string denotes in two's complement and
  \<open>der_int i\<close> the shortest byte string that denotes \<open>i\<close>: bytes are split off with an arithmetic shift
  until the rest fits one signed byte. The validity check of \<open>cbs.c\<close> accepts exactly the strings
  \<open>der_int i\<close>; the 64-bit readers accept exactly those of the numbers that fit.
\<close>

definition sval :: "bytes \<Rightarrow> int" where
  "sval bs = int (be_val bs) - (if bs \<noteq> [] \<and> 128 \<le> uint (hd bs) then 256 ^ length bs else 0)"

function der_int :: "int \<Rightarrow> bytes" where
  "der_int i = (if - 128 \<le> i \<and> i < 128 then [word_of_int i] else der_int (i div 256) @ [word_of_int i])"
  by pat_completeness auto
termination
  by (relation "measure (\<lambda>i. nat (abs i))") auto

declare der_int.simps [simp del]

lemma der_int_small: "- 128 \<le> i \<Longrightarrow> i < 128 \<Longrightarrow> der_int i = [word_of_int i]"
  by (simp add: der_int.simps)

lemma der_int_large: "\<not> (- 128 \<le> i \<and> i < 128) \<Longrightarrow> der_int i = der_int (i div 256) @ [word_of_int i]"
  by (subst der_int.simps) auto

lemma der_int_not_Nil [simp]: "der_int i \<noteq> []"
  by (cases "- 128 \<le> i \<and> i < 128") (simp_all add: der_int_small der_int_large)

section \<open>Values\<close>

lemma uint_byte_bounds: "0 \<le> uint (b :: byte)" "uint b < 256"
  using uint_lt2p [of b] by simp_all

lemma high_byte_uint: "128 \<le> unat (b :: byte) \<longleftrightarrow> 128 \<le> uint b"
proof -
  have "int (unat b) = uint b" by simp
  then show ?thesis by linarith
qed

lemma high_bit_uint: "(b :: byte) AND 0x80 \<noteq> 0 \<longleftrightarrow> 128 \<le> uint b"
  by (simp only: byte_high_bit high_byte_uint)

lemma div_mod_256:
  "0 \<le> r \<Longrightarrow> r < 256 \<Longrightarrow> (s * 256 + r) div 256 = (s :: int)"
  "0 \<le> r \<Longrightarrow> r < 256 \<Longrightarrow> (s * 256 + r) mod 256 = r"
  by simp_all

lemma sval_snoc: "bs \<noteq> [] \<Longrightarrow> sval (bs @ [b]) = sval bs * 256 + uint b"
  by (simp add: sval_def)

lemma sval_single: "sval [b] = (if 128 \<le> uint b then uint b - 256 else uint b)"
  by (simp add: sval_def)

lemma uint_byte_of_int: "uint (word_of_int i :: byte) = i mod 256"
  by (simp add: unsigned_of_int take_bit_eq_mod)

lemma byte_of_int_uint: "(word_of_int (a * 256 + uint b) :: byte) = b"
  by (simp only: word_uint_eq_iff uint_byte_of_int div_mod_256 uint_byte_bounds)

lemma mod_256_signed: "- 128 \<le> i \<Longrightarrow> i < 128 \<Longrightarrow> i mod 256 = (if i < 0 then i + 256 else (i :: int))"
  using mod_pos_pos_trivial [of "i + 256" 256] by (auto simp: mod_pos_pos_trivial)

lemma sval_der_int [simp]: "sval (der_int i) = i"
proof (induction i rule: der_int.induct)
  case (1 i)
  show ?case
  proof (cases "- 128 \<le> i \<and> i < 128")
    case True
    then show ?thesis
      using mod_256_signed [of i] by (simp add: der_int_small sval_single uint_byte_of_int)
  next
    case False
    then show ?thesis
      using "1.IH" by (simp add: der_int_large sval_snoc uint_byte_of_int)
  qed
qed

lemma div_256_bounds:
  "i div 256 < m \<longleftrightarrow> i < m * 256" "m \<le> i div 256 \<longleftrightarrow> m * 256 \<le> (i :: int)"
  by linarith+

lemma length_der_int:
  "length (der_int i) \<le> Suc k \<longleftrightarrow> - (128 * 256 ^ k) \<le> i \<and> i < 128 * 256 ^ k"
proof (induction i arbitrary: k rule: der_int.induct)
  case (1 i)
  show ?case
  proof (cases "- 128 \<le> i \<and> i < 128")
    case True
    have "(1 :: int) \<le> 256 ^ k" by simp
    then have "- (128 * 256 ^ k) \<le> i \<and> i < 128 * 256 ^ k" using True by linarith
    with True show ?thesis by (simp add: der_int_small)
  next
    case False
    show ?thesis
    proof (cases k)
      case 0
      with False show ?thesis by (simp add: der_int_large)
    next
      case (Suc j)
      have "- (128 * 256 ^ j) \<le> i div 256 \<longleftrightarrow> - (128 * 256 ^ Suc j) \<le> i"
        "i div 256 < 128 * 256 ^ j \<longleftrightarrow> i < 128 * 256 ^ Suc j"
        by (simp_all add: div_256_bounds)
      with False Suc "1.IH" [of j] show ?thesis by (simp add: der_int_large)
    qed
  qed
qed

lemma sval_negative: "bs \<noteq> [] \<Longrightarrow> sval bs < 0 \<longleftrightarrow> 128 \<le> uint (hd bs)"
proof -
  have "int (be_val bs) < 256 ^ length bs"
    using be_val_less [of bs] by (metis of_nat_less_iff of_nat_numeral of_nat_power)
  then show "bs \<noteq> [] \<Longrightarrow> sval bs < 0 \<longleftrightarrow> 128 \<le> uint (hd bs)" by (simp add: sval_def)
qed

section \<open>Minimal encodings\<close>

definition minimal_start :: "byte \<Rightarrow> byte \<Rightarrow> bool" where
  "minimal_start a b \<longleftrightarrow> \<not> (uint a = 0 \<and> uint b < 128) \<and> \<not> (uint a = 255 \<and> 128 \<le> uint b)"

lemma two_byte_range:
  "0 \<le> a \<Longrightarrow> a < 256 \<Longrightarrow> 0 \<le> b \<Longrightarrow> b < 256 \<Longrightarrow>
     - 128 \<le> (if 128 \<le> a then a - 256 else a) * 256 + b \<and>
     (if 128 \<le> a then a - 256 else a) * 256 + b < 128 \<longleftrightarrow>
     (a = 0 \<and> b < 128) \<or> (a = 255 \<and> 128 \<le> (b :: int))"
  by (cases "128 \<le> a"; cases "a = 0"; cases "a = 255") auto

lemma minimal_start_wide: "minimal_start a b \<Longrightarrow> \<not> (- 128 \<le> sval (a # b # c) \<and> sval (a # b # c) < 128)"
proof (induction c rule: rev_induct)
  case Nil
  have "sval [a, b] = sval [a] * 256 + uint b" using sval_snoc [of "[a]" b] by simp
  then show ?case
    using Nil two_byte_range [OF uint_byte_bounds uint_byte_bounds, of a b]
    unfolding sval_single minimal_start_def by auto
next
  case (snoc x c)
  have "sval (a # b # c @ [x]) = sval (a # b # c) * 256 + uint x"
    using sval_snoc [of "a # b # c" x] by simp
  moreover have "s < 128" "- 128 \<le> s" if "- 128 \<le> s * 256 + uint x" "s * 256 + uint x < 128" for s
    using that uint_byte_bounds [of x] by linarith+
  ultimately show ?case using snoc by metis
qed

lemma der_int_sval_snoc:
  assumes "bs \<noteq> []" "der_int (sval bs) = bs" "\<not> (- 128 \<le> sval (bs @ [x]) \<and> sval (bs @ [x]) < 128)"
  shows "der_int (sval (bs @ [x])) = bs @ [x]"
proof -
  have s: "sval (bs @ [x]) = sval bs * 256 + uint x" using assms(1) by (rule sval_snoc)
  then have "sval (bs @ [x]) div 256 = sval bs"
    using div_mod_256(1) [OF uint_byte_bounds] by simp
  moreover have "word_of_int (sval (bs @ [x])) = x" unfolding s by (rule byte_of_int_uint)
  ultimately show ?thesis using assms(2) der_int_large [OF assms(3)] by simp
qed

lemma der_int_sval_single: "der_int (sval [a]) = [a]"
proof -
  have "- 128 \<le> sval [a] \<and> sval [a] < 128"
    using uint_byte_bounds [of a] unfolding sval_single
    by (cases "128 \<le> uint a") (simp_all only: if_True if_False, linarith+)
  moreover have "word_of_int (sval [a]) = a"
    using byte_of_int_uint [of "- 1" a] byte_of_int_uint [of 0 a] by (simp add: sval_single)
  ultimately show ?thesis by (simp add: der_int_small)
qed

lemma der_int_sval_long: "minimal_start a b \<Longrightarrow> der_int (sval (a # b # c)) = a # b # c"
proof (induction c rule: rev_induct)
  case Nil
  then show ?case
    using der_int_sval_snoc [of "[a]" b] der_int_sval_single minimal_start_wide [of a b "[]"] by simp
next
  case (snoc x c)
  then show ?case
    using der_int_sval_snoc [of "a # b # c" x] minimal_start_wide [of a b "c @ [x]"] by simp
qed

lemma der_int_minimal_start: "der_int i = a # b # c \<Longrightarrow> minimal_start a b"
proof (induction i arbitrary: c rule: der_int.induct)
  case (1 i)
  show ?case
  proof (cases "- 128 \<le> i \<and> i < 128")
    case True
    with "1.prems" show ?thesis by (simp add: der_int_small)
  next
    case False
    then have e: "der_int (i div 256) @ [word_of_int i] = a # b # c"
      using "1.prems" by (simp add: der_int_large)
    show ?thesis
    proof (cases "- 128 \<le> i div 256 \<and> i div 256 < 128")
      case True
      with e have a: "a = word_of_int (i div 256)" and b: "b = word_of_int i"
        by (simp_all add: der_int_small)
      have "uint a = (if i div 256 < 0 then i div 256 + 256 else i div 256)"
        using True mod_256_signed [of "i div 256"] by (simp add: a uint_byte_of_int)
      moreover have "uint b = i mod 256" by (simp add: b uint_byte_of_int)
      moreover have "(if 128 \<le> uint a then uint a - 256 else uint a) = i div 256"
        using True calculation(1) by (auto split: if_splits)
      ultimately have "(if 128 \<le> uint a then uint a - 256 else uint a) * 256 + uint b = i"
        by simp
      then show ?thesis
        using False two_byte_range [OF uint_byte_bounds uint_byte_bounds, of a b]
        unfolding minimal_start_def by auto
    next
      case long: False
      with e obtain d where "der_int (i div 256) = a # b # d"
        by (auto simp: der_int_large append_eq_Cons_conv)
      then show ?thesis using "1.IH" [OF False] by blast
    qed
  qed
qed

lemma CBS_is_valid_asn1_integer_iff:
  "CBS_is_valid_asn1_integer bs = Some neg \<longleftrightarrow> (\<exists>i. bs = der_int i \<and> neg = (i < 0))"
proof (cases bs rule: remdups_adj.cases)
  case 1
  then show ?thesis by (simp add: CBS_is_valid_asn1_integer_def der_int_not_Nil [symmetric])
next
  case (2 a)
  have "(\<exists>i. [a] = der_int i \<and> neg = (i < 0)) \<longleftrightarrow> neg = (sval [a] < 0)"
    by (metis der_int_sval_single sval_der_int)
  then show ?thesis
    using sval_negative [of "[a]"] 2
    by (auto simp: CBS_is_valid_asn1_integer_def high_bit_uint)
next
  case (3 a b c)
  have m: "minimal_start a b \<longleftrightarrow> \<not> ((a = 0x00 \<and> b AND 0x80 = 0) \<or> (a = 0xff \<and> b AND 0x80 \<noteq> 0))"
    using high_bit_uint [of b] by (auto simp: minimal_start_def word_uint_eq_iff not_le)
  have "(\<exists>i. bs = der_int i \<and> neg = (i < 0)) \<longleftrightarrow> minimal_start a b \<and> neg = (sval bs < 0)"
    by (metis 3 der_int_minimal_start der_int_sval_long sval_der_int)
  then show ?thesis
    using sval_negative [of bs] 3 m high_bit_uint [of a]
    by (auto simp: CBS_is_valid_asn1_integer_def Let_def)
qed

section \<open>The 64-bit readers\<close>

lemma unat_shift_8_or:
  "unat (push_bit 8 out OR ucast (b :: byte) :: u64) = (unat out * 256 + unat b) mod 2 ^ 64"
  using unat_push_bit_or [of "ucast b" 8 out] by (simp add: unat_ucast_up)

lemma drop_bit_56: "drop_bit 56 (v :: u64) = 0 \<longleftrightarrow> unat v * 256 < 2 ^ 64"
proof -
  have "drop_bit 56 v = 0 \<longleftrightarrow> unat v div 2 ^ 56 = 0"
    by (simp add: word_unat_eq_iff unat_drop_bit)
  also have "\<dots> \<longleftrightarrow> unat v < 2 ^ 56" by (simp add: div_eq_0_iff)
  finally show ?thesis by simp
qed

lemma asn1_uint64_loop_iff:
  "asn1_uint64_loop out data = Some v \<longleftrightarrow> unat v = unat out * 256 ^ length data + be_val data"
proof (induction out data rule: asn1_uint64_loop.induct)
  case (1 out)
  then show ?case by (auto simp: word_unat_eq_iff)
next
  case (2 out b data)
  let ?w = "push_bit 8 out OR ucast b :: u64"
  show ?case
  proof (cases "drop_bit 56 out = 0")
    case True
    have "unat out < 72057594037927936" using True by (simp add: drop_bit_56)
    then have "unat out * 256 + unat b < 18446744073709551616" using unat_byte_less [of b] by linarith
    then have "unat out * 256 + unat b < 2 ^ 64" by simp
    then have "unat ?w = unat out * 256 + unat b" by (simp add: unat_shift_8_or)
    then show ?thesis
      using True "2.IH" by (simp add: be_val_Cons algebra_simps)
  next
    case False
    then have "2 ^ 64 \<le> unat out * 256" by (simp only: drop_bit_56 not_less)
    also have "\<dots> \<le> unat out * 256 ^ length (b # data)" by simp
    finally have "unat v \<noteq> unat out * 256 ^ length (b # data) + be_val (b # data)"
      using unat_u64_less [of v] by simp
    with False show ?thesis by simp
  qed
qed

lemma be_val_der_int: "0 \<le> i \<Longrightarrow> int (be_val (der_int i)) = i"
  using sval_der_int [of i] sval_negative [of "der_int i"] by (simp add: sval_def split: if_splits)

lemma be_val_der_int_nat: "0 \<le> i \<Longrightarrow> be_val (der_int i) = nat i"
  using be_val_der_int [of i] by linarith

lemma length_der_int_64: "- (2 ^ 63) \<le> i \<Longrightarrow> i < 2 ^ 64 \<Longrightarrow> length (der_int i) \<le> 9"
  using length_der_int [of i 8] by simp

lemma CBS_get_asn1_uint64_iff:
  "CBS_get_asn1_uint64 cbs = Some (v, r) \<longleftrightarrow>
     cbs = der_element CBS_ASN1_INTEGER (der_int (uint v)) @ r" (is "?L \<longleftrightarrow> ?R")
proof
  assume ?L
  then obtain i where i: "cbs = der_element CBS_ASN1_INTEGER (der_int i) @ r" "0 \<le> i"
    and loop: "asn1_uint64_loop 0 (der_int i) = Some v"
    by (auto simp: CBS_get_asn1_uint64_def CBS_get_asn1_iff CBS_is_unsigned_asn1_integer_def
        CBS_is_valid_asn1_integer_iff split: option.splits if_splits)
  have "unat v = be_val (der_int i)" using loop by (simp add: asn1_uint64_loop_iff)
  then have "uint v = i" using be_val_der_int [OF i(2)] by (metis uint_nat)
  with i show ?R by simp
next
  assume ?R
  have "length (der_int (uint v)) \<le> 9"
    using uint_lt2p [of v] uint_ge_0 [of v]
    by (intro length_der_int_64 order_trans [OF _ uint_ge_0 [of v]]) simp_all
  then have "CBS_get_asn1 cbs CBS_ASN1_INTEGER = Some (der_int (uint v), r)"
    using \<open>?R\<close> by (simp add: CBS_get_asn1_iff)
  moreover have "CBS_is_unsigned_asn1_integer (der_int (uint v))"
    by (auto simp: CBS_is_unsigned_asn1_integer_def CBS_is_valid_asn1_integer_iff)
  moreover have "asn1_uint64_loop 0 (der_int (uint v)) = Some v"
    by (simp add: asn1_uint64_loop_iff be_val_der_int_nat)
  ultimately show ?L by (simp add: CBS_get_asn1_uint64_def)
qed


lemma le_val_replicate_ff: "int (le_val (replicate k 0xff)) = 256 ^ k - 1"
  by (induction k) simp_all

lemma asn1_int64_union_value:
  assumes "length d \<le> 8" "d \<noteq> []"
  shows "CRYPTO_load_u64_le (asn1_int64_union (sval d < 0) d) = word_of_int (sval d)"
proof -
  let ?f = "if sval d < 0 then 0xff else 0 :: byte"
  have "take 8 (asn1_int64_union (sval d < 0) d) = rev d @ replicate (8 - length d) ?f"
    using assms(1) by (simp add: asn1_int64_union_def)
  then have "CRYPTO_load_u64_le (asn1_int64_union (sval d < 0) d) =
      word_of_int (int (be_val d) + 256 ^ length d * int (le_val (replicate (8 - length d) ?f)))"
    by (simp add: CRYPTO_load_u64_le_def le_val_append be_val_le_val)
  also have "int (be_val d) + 256 ^ length d * int (le_val (replicate (8 - length d) ?f)) =
      sval d + (if sval d < 0 then 2 ^ 64 else 0)"
  proof (cases "sval d < 0")
    case True
    have "(256 :: int) ^ length d * 256 ^ (8 - length d) = 2 ^ 64"
      using assms(1) by (simp flip: power_add)
    then show ?thesis
      using True assms(2) sval_negative [of d]
      by (simp add: le_val_replicate_ff sval_def right_diff_distrib)
  next
    case False
    then show ?thesis using assms(2) sval_negative [of d] by (simp add: sval_def)
  qed
  also have "word_of_int (sval d + (if sval d < 0 then 2 ^ 64 else 0)) = (word_of_int (sval d) :: u64)"
    by (simp only: word_uint_eq_iff uint_word_of_int) simp
  finally show ?thesis .
qed

lemma sint_word_of_int_64:
  "- (2 ^ 63) \<le> i \<Longrightarrow> i < 2 ^ 63 \<Longrightarrow> sint (word_of_int i :: u64) = i"
  by (simp add: signed_of_int signed_take_bit_int_eq_self)

lemma CBS_get_asn1_int64_iff:
  "CBS_get_asn1_int64 cbs = Some (i, r) \<longleftrightarrow>
     - (2 ^ 63) \<le> i \<and> i < 2 ^ 63 \<and> cbs = der_element CBS_ASN1_INTEGER (der_int i) @ r"
proof -
  have rng: "length (der_int j) \<le> 8 \<longleftrightarrow> - (2 ^ 63) \<le> j \<and> j < 2 ^ 63" for j
    using length_der_int [of j 7] by simp
  have val: "sint (CRYPTO_load_u64_le (asn1_int64_union (j < 0) (der_int j))) = j"
    if "length (der_int j) \<le> 8" for j
    using asn1_int64_union_value [OF that] that rng [of j] by (simp add: sint_word_of_int_64)
  show ?thesis
  proof
    assume "CBS_get_asn1_int64 cbs = Some (i, r)"
    then obtain j where "cbs = der_element CBS_ASN1_INTEGER (der_int j) @ r" "length (der_int j) \<le> 8"
      "i = sint (CRYPTO_load_u64_le (asn1_int64_union (j < 0) (der_int j)))"
      by (auto simp: CBS_get_asn1_int64_def CBS_get_asn1_iff CBS_is_valid_asn1_integer_iff
          CBS_len_def split: option.splits if_splits)
    then show "- (2 ^ 63) \<le> i \<and> i < 2 ^ 63 \<and> cbs = der_element CBS_ASN1_INTEGER (der_int i) @ r"
      using val [of j] rng [of j] by simp
  next
    assume a: "- (2 ^ 63) \<le> i \<and> i < 2 ^ 63 \<and> cbs = der_element CBS_ASN1_INTEGER (der_int i) @ r"
    then have l: "length (der_int i) \<le> 8" using rng [of i] by blast
    then have "CBS_get_asn1 cbs CBS_ASN1_INTEGER = Some (der_int i, r)"
      using a by (simp add: CBS_get_asn1_iff)
    moreover have "CBS_is_valid_asn1_integer (der_int i) = Some (i < 0)"
      by (auto simp: CBS_is_valid_asn1_integer_iff)
    ultimately show "CBS_get_asn1_int64 cbs = Some (i, r)"
      using l val [OF l] by (simp add: CBS_get_asn1_int64_def CBS_len_def)
  qed
qed

interpretation uint64_codec: item_codec CBS_get_asn1_uint64
    "\<lambda>v. der_element CBS_ASN1_INTEGER (der_int (uint v))" "\<lambda>_. True"
  by unfold_locales (simp_all add: CBS_get_asn1_uint64_iff)

interpretation int64_codec: item_codec CBS_get_asn1_int64
    "\<lambda>i. der_element CBS_ASN1_INTEGER (der_int i)" "\<lambda>i. - (2 ^ 63) \<le> i \<and> i < 2 ^ 63"
  by unfold_locales (auto simp: CBS_get_asn1_int64_iff)

section \<open>Properties\<close>

text \<open>\<open>CBS_get_asn1_uint64\<close> reads exactly the DER INTEGER elements of the numbers below
  \<open>2 ^ 64\<close>, whose contents are the shortest two's-complement bytes of the number; negative numbers,
  padded contents and larger numbers are refused.\<close>

theorem CBS_get_asn1_uint64_exact:
  "CBS_get_asn1_uint64 cbs = Some (v, r) \<longleftrightarrow>
     cbs = der_element CBS_ASN1_INTEGER (der_int (uint v)) @ r"
  by (rule CBS_get_asn1_uint64_iff)

text \<open>C28: \<open>CBS_get_asn1_int64\<close> reads exactly the DER INTEGER elements of the numbers that fit an
  \<open>int64_t\<close>, and the union it fills byte by byte holds the number with its sign.\<close>

theorem CBS_get_asn1_int64_exact:
  "CBS_get_asn1_int64 cbs = Some (i, r) \<longleftrightarrow>
     - (2 ^ 63) \<le> i \<and> i < 2 ^ 63 \<and> cbs = der_element CBS_ASN1_INTEGER (der_int i) @ r"
  by (rule CBS_get_asn1_int64_iff)

end
