(* ===== verification/Cbb.thy ===== *)
theory Cbb
  imports Der_Integer
begin

text \<open>
  The byte-string builder \<open>CBB\<close> of \<open>crypto/bytestring/cbb.c\<close>.

  All \<open>CBB\<close>s of one message share a \<open>cbb_buffer\<close>: the bytes written so far, the capacity and a sticky
  error flag. Every open \<open>CBB\<close> has at most one open child, so the open ones form a chain from the
  root. The state is the buffer with that chain, each child with the offset of its length prefix;
  the \<open>CBB *\<close> argument of an operation is the depth \<open>k\<close> of the \<open>CBB\<close> in the chain, 0 for the root.
  A depth beyond the chain is a \<open>CBB\<close> whose \<open>base\<close> has been cleared, on which every call returns 0.
  An operation that writes through a pointer it hands out takes the bytes that end up there.
\<close>

record cbb_buffer =
  cb_buf :: bytes
  cb_cap :: nat
  cb_can_resize :: bool
  cb_error :: bool

record cbb_child =
  ch_offset :: nat
  ch_pending_len_len :: nat
  ch_pending_is_asn1 :: bool

record cbb =
  cbb_base :: cbb_buffer
  cbb_children :: "cbb_child list"

definition cbb_init :: "(nat \<Rightarrow> bool) \<Rightarrow> nat \<Rightarrow> bool \<Rightarrow> cbb option" where
  "cbb_init libc cap can_resize =
     (if \<not> OPENSSL_malloc libc 32 then None
      else Some \<lparr>cbb_base = \<lparr>cb_buf = [], cb_cap = cap, cb_can_resize = can_resize, cb_error = False\<rparr>,
                 cbb_children = []\<rparr>)"

definition CBB_init :: "(nat \<Rightarrow> bool) \<Rightarrow> nat \<Rightarrow> cbb option" where
  "CBB_init libc initial_capacity =
     (if initial_capacity > 0 \<and> \<not> OPENSSL_malloc libc initial_capacity then None
      else cbb_init libc initial_capacity True)"

definition CBB_init_fixed :: "(nat \<Rightarrow> bool) \<Rightarrow> nat \<Rightarrow> cbb option" where
  "CBB_init_fixed libc len = cbb_init libc len False"

section \<open>The buffer\<close>

definition cbb_fail :: "cbb_buffer \<Rightarrow> bool \<times> cbb_buffer" where
  "cbb_fail base = (False, base\<lparr>cb_error := True\<rparr>)"

definition cbb_buffer_reserve :: "(nat \<Rightarrow> bool) \<Rightarrow> cbb_buffer \<Rightarrow> nat \<Rightarrow> bool \<times> cbb_buffer" where
  "cbb_buffer_reserve libc base len =
     (let newlen = (length (cb_buf base) + len) mod 2 ^ 64
      in if newlen < length (cb_buf base) then cbb_fail base
         else if newlen > cb_cap base then
           (let newcap = (cb_cap base * 2) mod 2 ^ 64
            in if \<not> cb_can_resize base then cbb_fail base
               else
                 let newcap = (if newcap < cb_cap base \<or> newcap < newlen then newlen else newcap)
                 in case OPENSSL_realloc libc (Some (cb_buf base)) newcap of
                      None \<Rightarrow> cbb_fail base
                    | Some newbuf \<Rightarrow> (True, base\<lparr>cb_buf := newbuf, cb_cap := newcap\<rparr>))
         else (True, base))"

text \<open>\<open>data\<close> is what the caller stores in the \<open>len\<close> bytes it is given.\<close>

definition cbb_buffer_add :: "(nat \<Rightarrow> bool) \<Rightarrow> cbb_buffer \<Rightarrow> bytes \<Rightarrow> bool \<times> cbb_buffer" where
  "cbb_buffer_add libc base data =
     (case cbb_buffer_reserve libc base (length data) of
        (False, base') \<Rightarrow> (False, base')
      | (True, base') \<Rightarrow> (True, base'\<lparr>cb_buf := cb_buf base' @ data\<rparr>))"

text \<open>\<open>for (i = n - 1; i < n; i--) { buf[off + i] = v; v >>= 8; }\<close>, and the value left in \<open>v\<close>.\<close>

fun put_be_loop :: "bytes \<Rightarrow> nat \<Rightarrow> nat \<Rightarrow> u64 \<Rightarrow> bytes \<times> u64" where
  "put_be_loop buf off 0 v = (buf, v)"
| "put_be_loop buf off (Suc i) v = put_be_loop (buf[off + i := ucast v]) off i (drop_bit 8 v)"

definition cbb_buffer_add_u :: "(nat \<Rightarrow> bool) \<Rightarrow> cbb_buffer \<Rightarrow> u64 \<Rightarrow> nat \<Rightarrow> bool \<times> cbb_buffer" where
  "cbb_buffer_add_u libc base v len_len =
     (if len_len = 0 then (True, base)
      else case cbb_buffer_add libc base (replicate len_len 0) of
             (False, base') \<Rightarrow> (False, base')
           | (True, base') \<Rightarrow>
               (let off = length (cb_buf base);
                    (buf, v') = put_be_loop (cb_buf base') off len_len v;
                    base'' = base'\<lparr>cb_buf := buf\<rparr>
                in if v' \<noteq> 0 then cbb_fail base'' else (True, base'')))"

section \<open>Flushing\<close>

definition mem_move :: "bytes \<Rightarrow> nat \<Rightarrow> nat \<Rightarrow> nat \<Rightarrow> bytes" where
  "mem_move buf dst src n = take dst buf @ take n (drop src buf) @ drop (dst + n) buf"

text \<open>\<open>len_len\<close>, \<open>initial_length_byte\<close> and the remaining \<open>len\<close> of the ASN.1 branch.\<close>

definition cbb_asn1_len :: "nat \<Rightarrow> (nat \<times> byte \<times> nat) option" where
  "cbb_asn1_len len =
     (if len > 0xfffffffe then None
      else if len > 0xffffff then Some (5, 0x80 OR 4, len)
      else if len > 0xffff then Some (4, 0x80 OR 3, len)
      else if len > 0xff then Some (3, 0x80 OR 2, len)
      else if len > 0x7f then Some (2, 0x80 OR 1, len)
      else Some (1, word_of_nat len, 0))"

text \<open>The length prefix of \<open>c\<close>, whose contents start at \<open>child_start\<close> and have \<open>len\<close> bytes.\<close>

definition cbb_write_length :: "cbb_buffer \<Rightarrow> nat \<Rightarrow> nat \<Rightarrow> nat \<Rightarrow> bool \<times> cbb_buffer" where
  "cbb_write_length base offset len_len len =
     (let (buf, rest) = put_be_loop (cb_buf base) offset len_len (word_of_nat len);
          base' = base\<lparr>cb_buf := buf\<rparr>
      in if rest \<noteq> 0 then cbb_fail base' else (True, base'))"

definition cbb_finish_child ::
    "(nat \<Rightarrow> bool) \<Rightarrow> cbb_buffer \<Rightarrow> cbb_child \<Rightarrow> nat \<Rightarrow> bool \<times> cbb_buffer" where
  "cbb_finish_child libc base c child_start =
     (let len = length (cb_buf base) - child_start
      in if ch_pending_is_asn1 c then
           (case cbb_asn1_len len of
              None \<Rightarrow> cbb_fail base
            | Some (len_len, initial_length_byte, len') \<Rightarrow>
                (let extra_bytes = len_len - 1;
                     (ok, base1) =
                       (if len_len \<noteq> 1 then
                          (case cbb_buffer_add libc base (replicate extra_bytes 0) of
                             (False, b) \<Rightarrow> cbb_fail b
                           | (True, b) \<Rightarrow>
                               (True, b\<lparr>cb_buf := mem_move (cb_buf b) (child_start + extra_bytes) child_start len\<rparr>))
                        else (True, base))
                 in if \<not> ok then (False, base1)
                    else cbb_write_length
                           (base1\<lparr>cb_buf := (cb_buf base1)[ch_offset c := initial_length_byte]\<rparr>)
                           (ch_offset c + 1) (len_len - 1) len'))
         else cbb_write_length base (ch_offset c) (ch_pending_len_len c) len)"

text \<open>\<open>CBB_flush\<close> on the \<open>CBB\<close> whose open descendants are the list.\<close>

fun cbb_flush_chain :: "(nat \<Rightarrow> bool) \<Rightarrow> cbb_buffer \<Rightarrow> cbb_child list \<Rightarrow> bool \<times> cbb_buffer \<times> cbb_child list" where
  "cbb_flush_chain libc base [] = (if cb_error base then (False, base, []) else (True, base, []))"
| "cbb_flush_chain libc base (c # cs) =
     (if cb_error base then (False, base, c # cs)
      else if ch_pending_len_len c = 0 then (True, base, c # cs)
      else
        let child_start = (ch_offset c + ch_pending_len_len c) mod 2 ^ 64;
            (ok, base1, cs1) = cbb_flush_chain libc base cs
        in if \<not> ok \<or> child_start < ch_offset c \<or> length (cb_buf base1) < child_start
           then (False, base1\<lparr>cb_error := True\<rparr>, c # cs1)
           else
             (case cbb_finish_child libc base1 c child_start of
                (False, base2) \<Rightarrow> (False, base2, c # cs1)
              | (True, base2) \<Rightarrow> (True, base2, [])))"

definition CBB_flush :: "(nat \<Rightarrow> bool) \<Rightarrow> nat \<Rightarrow> cbb \<Rightarrow> bool \<times> cbb" where
  "CBB_flush libc k s =
     (if length (cbb_children s) < k then (False, s)
      else case cbb_flush_chain libc (cbb_base s) (drop k (cbb_children s)) of
             (ok, base, cs) \<Rightarrow> (ok, \<lparr>cbb_base = base, cbb_children = take k (cbb_children s) @ cs\<rparr>))"

section \<open>Operations\<close>

text \<open>\<open>if (!f) return 0; ...\<close>\<close>

definition cbb_then :: "bool \<times> cbb \<Rightarrow> (cbb \<Rightarrow> bool \<times> cbb) \<Rightarrow> bool \<times> cbb" where
  "cbb_then r f = (case r of (ok, s) \<Rightarrow> if ok then f s else (False, s))"

definition cbb_on_base :: "(cbb_buffer \<Rightarrow> bool \<times> cbb_buffer) \<Rightarrow> cbb \<Rightarrow> bool \<times> cbb" where
  "cbb_on_base f s = (case f (cbb_base s) of (ok, base) \<Rightarrow> (ok, s\<lparr>cbb_base := base\<rparr>))"

text \<open>A successful \<open>CBB_finish\<close> also frees the buffer record and clears \<open>base\<close>; the state that it returns here is
  the one before this, for which the caller has no use.\<close>

definition CBB_finish :: "(nat \<Rightarrow> bool) \<Rightarrow> bool \<Rightarrow> bool \<Rightarrow> nat \<Rightarrow> cbb \<Rightarrow> bytes option \<times> cbb" where
  \<comment> \<open>\<open>have_data\<close> and \<open>have_len\<close>: whether the output pointers are non-NULL\<close>
  "CBB_finish libc have_data have_len k s =
     (if k \<noteq> 0 then (None, s)
      else case CBB_flush libc k s of
             (False, s') \<Rightarrow> (None, s')
           | (True, s') \<Rightarrow>
               if cb_can_resize (cbb_base s') \<and> (\<not> have_data \<or> \<not> have_len) then (None, s')
               else (Some (cb_buf (cbb_base s')), s'))"

definition cbb_own_start :: "nat \<Rightarrow> cbb \<Rightarrow> nat" where
  \<comment> \<open>\<open>cbb->offset + cbb->pending_len_len\<close>\<close>
  "cbb_own_start k s =
     (if k = 0 then 0
      else ch_offset (cbb_children s ! (k - 1)) + ch_pending_len_len (cbb_children s ! (k - 1)))"

definition CBB_data :: "nat \<Rightarrow> cbb \<Rightarrow> bytes" where
  "CBB_data k s = drop (cbb_own_start k s) (cb_buf (cbb_base s))"

definition CBB_len :: "nat \<Rightarrow> cbb \<Rightarrow> nat" where
  "CBB_len k s = length (cb_buf (cbb_base s)) - cbb_own_start k s"

definition cbb_add_length_prefixed :: "(nat \<Rightarrow> bool) \<Rightarrow> nat \<Rightarrow> nat \<Rightarrow> cbb \<Rightarrow> bool \<times> cbb" where
  \<comment> \<open>on success \<open>out_contents\<close> is the \<open>CBB\<close> of depth \<open>k + 1\<close>\<close>
  "cbb_add_length_prefixed libc k len_len s =
     cbb_then (CBB_flush libc k s) (\<lambda>s.
       let offset = length (cb_buf (cbb_base s))
       in cbb_then (cbb_on_base (\<lambda>b. cbb_buffer_add libc b (replicate len_len 0)) s) (\<lambda>s.
            (True, s\<lparr>cbb_children := take k (cbb_children s) @
               [\<lparr>ch_offset = offset, ch_pending_len_len = len_len, ch_pending_is_asn1 = False\<rparr>]\<rparr>)))"

definition CBB_add_u8_length_prefixed :: "(nat \<Rightarrow> bool) \<Rightarrow> nat \<Rightarrow> cbb \<Rightarrow> bool \<times> cbb" where
  "CBB_add_u8_length_prefixed libc k s = cbb_add_length_prefixed libc k 1 s"

definition CBB_add_u16_length_prefixed :: "(nat \<Rightarrow> bool) \<Rightarrow> nat \<Rightarrow> cbb \<Rightarrow> bool \<times> cbb" where
  "CBB_add_u16_length_prefixed libc k s = cbb_add_length_prefixed libc k 2 s"

definition CBB_add_u24_length_prefixed :: "(nat \<Rightarrow> bool) \<Rightarrow> nat \<Rightarrow> cbb \<Rightarrow> bool \<times> cbb" where
  "CBB_add_u24_length_prefixed libc k s = cbb_add_length_prefixed libc k 3 s"

definition CBB_add_bytes :: "(nat \<Rightarrow> bool) \<Rightarrow> nat \<Rightarrow> bytes \<Rightarrow> cbb \<Rightarrow> bool \<times> cbb" where
  "CBB_add_bytes libc k data s =
     cbb_then (CBB_flush libc k s) (cbb_on_base (\<lambda>b. cbb_buffer_add libc b data))"

definition CBB_add_space :: "(nat \<Rightarrow> bool) \<Rightarrow> nat \<Rightarrow> bytes \<Rightarrow> cbb \<Rightarrow> bool \<times> cbb" where
  "CBB_add_space libc k data s =
     cbb_then (CBB_flush libc k s) (cbb_on_base (\<lambda>b. cbb_buffer_add libc b data))"

definition CBB_add_zeros :: "(nat \<Rightarrow> bool) \<Rightarrow> nat \<Rightarrow> nat \<Rightarrow> cbb \<Rightarrow> bool \<times> cbb" where
  "CBB_add_zeros libc k len s = CBB_add_space libc k (replicate len 0) s"

definition CBB_reserve :: "(nat \<Rightarrow> bool) \<Rightarrow> nat \<Rightarrow> nat \<Rightarrow> cbb \<Rightarrow> bool \<times> cbb" where
  "CBB_reserve libc k len s =
     cbb_then (CBB_flush libc k s) (cbb_on_base (\<lambda>b. cbb_buffer_reserve libc b len))"

text \<open>\<open>data\<close> is what the caller has written behind the end of the buffer. Neither this function nor
  \<open>CBB_discard_child\<close> looks at the error flag.\<close>

definition CBB_did_write :: "nat \<Rightarrow> bytes \<Rightarrow> cbb \<Rightarrow> bool \<times> cbb" where
  "CBB_did_write k data s =
     (let base = cbb_base s;
          newlen = (length (cb_buf base) + length data) mod 2 ^ 64
      in if length (cbb_children s) \<noteq> k \<or> newlen < length (cb_buf base) \<or> newlen > cb_cap base
         then (False, s)
         else (True, s\<lparr>cbb_base := base\<lparr>cb_buf := cb_buf base @ data\<rparr>\<rparr>))"

definition cbb_add_u :: "(nat \<Rightarrow> bool) \<Rightarrow> nat \<Rightarrow> u64 \<Rightarrow> nat \<Rightarrow> cbb \<Rightarrow> bool \<times> cbb" where
  "cbb_add_u libc k v len_len s =
     cbb_then (CBB_flush libc k s) (cbb_on_base (\<lambda>b. cbb_buffer_add_u libc b v len_len))"

definition CBB_add_u8 :: "(nat \<Rightarrow> bool) \<Rightarrow> nat \<Rightarrow> byte \<Rightarrow> cbb \<Rightarrow> bool \<times> cbb" where
  "CBB_add_u8 libc k v s = cbb_add_u libc k (ucast v) 1 s"

definition CBB_add_u16 :: "(nat \<Rightarrow> bool) \<Rightarrow> nat \<Rightarrow> u16 \<Rightarrow> cbb \<Rightarrow> bool \<times> cbb" where
  "CBB_add_u16 libc k v s = cbb_add_u libc k (ucast v) 2 s"

definition CBB_add_u16le :: "(nat \<Rightarrow> bool) \<Rightarrow> nat \<Rightarrow> u16 \<Rightarrow> cbb \<Rightarrow> bool \<times> cbb" where
  "CBB_add_u16le libc k v s = CBB_add_u16 libc k (CRYPTO_bswap2 v) s"

definition CBB_add_u24 :: "(nat \<Rightarrow> bool) \<Rightarrow> nat \<Rightarrow> u32 \<Rightarrow> cbb \<Rightarrow> bool \<times> cbb" where
  "CBB_add_u24 libc k v s = cbb_add_u libc k (ucast v) 3 s"

definition CBB_add_u32 :: "(nat \<Rightarrow> bool) \<Rightarrow> nat \<Rightarrow> u32 \<Rightarrow> cbb \<Rightarrow> bool \<times> cbb" where
  "CBB_add_u32 libc k v s = cbb_add_u libc k (ucast v) 4 s"

definition CBB_add_u32le :: "(nat \<Rightarrow> bool) \<Rightarrow> nat \<Rightarrow> u32 \<Rightarrow> cbb \<Rightarrow> bool \<times> cbb" where
  "CBB_add_u32le libc k v s = CBB_add_u32 libc k (CRYPTO_bswap4 v) s"

definition CBB_add_u64 :: "(nat \<Rightarrow> bool) \<Rightarrow> nat \<Rightarrow> u64 \<Rightarrow> cbb \<Rightarrow> bool \<times> cbb" where
  "CBB_add_u64 libc k v s = cbb_add_u libc k v 8 s"

definition CBB_add_u64le :: "(nat \<Rightarrow> bool) \<Rightarrow> nat \<Rightarrow> u64 \<Rightarrow> cbb \<Rightarrow> bool \<times> cbb" where
  "CBB_add_u64le libc k v s = CBB_add_u64 libc k (CRYPTO_bswap8 v) s"

definition CBB_discard_child :: "nat \<Rightarrow> cbb \<Rightarrow> cbb" where
  "CBB_discard_child k s =
     (if length (cbb_children s) \<le> k then s
      else s\<lparr>cbb_base := (cbb_base s)\<lparr>cb_buf := take (ch_offset (cbb_children s ! k)) (cb_buf (cbb_base s))\<rparr>,
             cbb_children := take k (cbb_children s)\<rparr>)"

section \<open>ASN.1\<close>

function base128_len_loop :: "u64 \<Rightarrow> nat \<Rightarrow> nat" where
  "base128_len_loop copy len_len = (if copy > 0 then base128_len_loop (drop_bit 7 copy) (Suc len_len) else len_len)"
  by pat_completeness auto
termination
  by (relation "measure (\<lambda>(copy, _). unat copy)")
     (auto simp: unat_drop_bit word_greater_zero_iff unat_gt_0 intro!: div_less_dividend)

declare base128_len_loop.simps [simp del]

fun add_base128_loop :: "(nat \<Rightarrow> bool) \<Rightarrow> nat \<Rightarrow> u64 \<Rightarrow> nat \<Rightarrow> cbb \<Rightarrow> bool \<times> cbb" where
  "add_base128_loop libc k v 0 s = (True, s)"
| "add_base128_loop libc k v (Suc i) s =
     (let byte = ucast (drop_bit (7 * i) v) AND 0x7f :: byte;
          byte = (if i \<noteq> 0 then byte OR 0x80 else byte)
      in cbb_then (CBB_add_u8 libc k byte s) (add_base128_loop libc k v i))"

definition add_base128_integer :: "(nat \<Rightarrow> bool) \<Rightarrow> nat \<Rightarrow> u64 \<Rightarrow> cbb \<Rightarrow> bool \<times> cbb" where
  "add_base128_integer libc k v s =
     (let len_len = base128_len_loop v 0;
          len_len = (if len_len = 0 then 1 else len_len)
      in add_base128_loop libc k v len_len s)"

definition CBB_add_asn1 :: "(nat \<Rightarrow> bool) \<Rightarrow> nat \<Rightarrow> u32 \<Rightarrow> cbb \<Rightarrow> bool \<times> cbb" where
  "CBB_add_asn1 libc k tag s =
     cbb_then (CBB_flush libc k s) (\<lambda>s.
       let tag_bits = ucast (drop_bit CBS_ASN1_TAG_SHIFT tag) AND 0xe0 :: byte;
           tag_number = tag AND CBS_ASN1_TAG_NUMBER_MASK
       in cbb_then
            (if tag_number \<ge> 0x1f then
               cbb_then (CBB_add_u8 libc k (tag_bits OR 0x1f) s) (add_base128_integer libc k (ucast tag_number))
             else CBB_add_u8 libc k (tag_bits OR ucast tag_number) s)
            (\<lambda>s. let offset = length (cb_buf (cbb_base s))
                 in cbb_then (CBB_add_u8 libc k 0 s) (\<lambda>s.
                      (True, s\<lparr>cbb_children := take k (cbb_children s) @
                         [\<lparr>ch_offset = offset, ch_pending_len_len = 1, ch_pending_is_asn1 = True\<rparr>]\<rparr>))))"

text \<open>The loop of \<open>CBB_add_asn1_uint64\<close> over the bytes of the value, most significant first.\<close>

fun add_asn1_uint64_loop :: "(nat \<Rightarrow> bool) \<Rightarrow> nat \<Rightarrow> u64 \<Rightarrow> nat \<Rightarrow> bool \<Rightarrow> cbb \<Rightarrow> bool \<times> cbb" where
  "add_asn1_uint64_loop libc k v 0 started s =
     (if \<not> started then CBB_add_u8 libc k 0 s else (True, s))"
| "add_asn1_uint64_loop libc k v (Suc j) started s =
     (let byte = ucast (drop_bit (8 * j) v AND 0xff) :: byte
      in if \<not> started \<and> byte = 0 then add_asn1_uint64_loop libc k v j False s
         else
           cbb_then
             (if \<not> started \<and> byte AND 0x80 \<noteq> 0 then CBB_add_u8 libc k 0 s else (True, s))
             (\<lambda>s. cbb_then (CBB_add_u8 libc k byte s) (add_asn1_uint64_loop libc k v j True)))"

definition CBB_add_asn1_uint64 :: "(nat \<Rightarrow> bool) \<Rightarrow> nat \<Rightarrow> u64 \<Rightarrow> cbb \<Rightarrow> bool \<times> cbb" where
  "CBB_add_asn1_uint64 libc k v s =
     cbb_then (CBB_add_asn1 libc k CBS_ASN1_INTEGER s) (\<lambda>s.
       cbb_then (add_asn1_uint64_loop libc (Suc k) v 8 False s) (CBB_flush libc k))"

fun asn1_int64_start :: "bytes \<Rightarrow> nat \<Rightarrow> nat" where
  "asn1_int64_start u 0 = 0"
| "asn1_int64_start u (Suc start) =
     (if u ! Suc start = 0xff \<and> u ! start AND 0x80 \<noteq> 0 then asn1_int64_start u start else Suc start)"

fun add_bytes_down :: "(nat \<Rightarrow> bool) \<Rightarrow> nat \<Rightarrow> bytes \<Rightarrow> nat \<Rightarrow> cbb \<Rightarrow> bool \<times> cbb" where
  "add_bytes_down libc k u 0 s = (True, s)"
| "add_bytes_down libc k u (Suc i) s =
     cbb_then (CBB_add_u8 libc k (u ! i) s) (add_bytes_down libc k u i)"

definition CBB_add_asn1_int64 :: "(nat \<Rightarrow> bool) \<Rightarrow> nat \<Rightarrow> int \<Rightarrow> cbb \<Rightarrow> bool \<times> cbb" where
  "CBB_add_asn1_int64 libc k v s =
     (if v \<ge> 0 then CBB_add_asn1_uint64 libc k (word_of_int v) s
      else
        let u = CRYPTO_store_u64_le (word_of_int v);
            start = asn1_int64_start u 7
        in cbb_then (CBB_add_asn1 libc k CBS_ASN1_INTEGER s) (\<lambda>s.
             cbb_then (add_bytes_down libc (Suc k) u (Suc start) s) (CBB_flush libc k)))"

definition CBB_add_asn1_octet_string :: "(nat \<Rightarrow> bool) \<Rightarrow> nat \<Rightarrow> bytes \<Rightarrow> cbb \<Rightarrow> bool \<times> cbb" where
  "CBB_add_asn1_octet_string libc k data s =
     cbb_then (CBB_add_asn1 libc k CBS_ASN1_OCTETSTRING s) (\<lambda>s.
       cbb_then (CBB_add_bytes libc (Suc k) data s) (CBB_flush libc k))"

definition CBB_add_asn1_bool :: "(nat \<Rightarrow> bool) \<Rightarrow> nat \<Rightarrow> int \<Rightarrow> cbb \<Rightarrow> bool \<times> cbb" where
  "CBB_add_asn1_bool libc k v s =
     cbb_then (CBB_add_asn1 libc k CBS_ASN1_BOOLEAN s) (\<lambda>s.
       cbb_then (CBB_add_u8 libc (Suc k) (if v \<noteq> 0 then 0xff else 0) s) (CBB_flush libc k))"

end
