(* ===== verification/Cbb_Spec.thy ===== *)
theory Cbb_Spec
  imports Cbb
begin

text \<open>
  What \<open>cbb.c\<close> promises, as a writer of nested documents, and the proof that it keeps it.

  A document is the list of the open \<open>CBB\<close>s from the root to the deepest: the kind of each length
  prefix and the contents written so far. Closing a child puts the prefix of its final length in
  front of its contents and appends both to the parent. \<open>cbb_rep s doc\<close> says that the buffer holds
  the flattened document, with a placeholder for every pending prefix, and that the chain of
  children records where the placeholders are. The lemmas show that every operation keeps the
  relation and has the effect of its abstract counterpart whenever it returns 1 (soundness), and that
  it returns 1 when the document it leads to fits (progress).
\<close>

section \<open>Documents\<close>

datatype cbb_prefix = Fixed nat | Der_Len

type_synonym cbb_doc = "(cbb_prefix \<times> bytes) list"

fun prefix_len :: "cbb_prefix \<Rightarrow> nat" where
  "prefix_len (Fixed n) = n"
| "prefix_len Der_Len = 1"

fun prefix_ok :: "cbb_prefix \<Rightarrow> bool" where
  "prefix_ok (Fixed n) = (0 < n \<and> n \<le> 8)"
| "prefix_ok Der_Len = True"

fun prefix_fits :: "cbb_prefix \<Rightarrow> nat \<Rightarrow> bool" where
  "prefix_fits (Fixed n) len = (len < 256 ^ n)"
| "prefix_fits Der_Len len = (len \<le> 0xfffffffe)"

fun prefix_bytes :: "cbb_prefix \<Rightarrow> nat \<Rightarrow> bytes" where
  "prefix_bytes (Fixed n) len = be_bytes n len"
| "prefix_bytes Der_Len len = der_length len"

fun doc_flat :: "cbb_doc \<Rightarrow> bytes" where
  "doc_flat [] = []"
| "doc_flat ((p, c) # d) = replicate (prefix_len p) 0 @ c @ doc_flat d"

fun doc_layout :: "nat \<Rightarrow> cbb_doc \<Rightarrow> cbb_child list" where
  "doc_layout off [] = []"
| "doc_layout off ((p, c) # d) =
     \<lparr>ch_offset = off, ch_pending_len_len = prefix_len p, ch_pending_is_asn1 = (p = Der_Len)\<rparr> #
     doc_layout (off + prefix_len p + length c) d"

fun doc_close :: "cbb_doc \<Rightarrow> bytes option" where
  "doc_close [] = Some []"
| "doc_close ((p, c) # d) =
     (case doc_close d of
        None \<Rightarrow> None
      | Some t \<Rightarrow>
          if prefix_fits p (length (c @ t)) then Some (prefix_bytes p (length (c @ t)) @ c @ t) else None)"

primrec doc_ok :: "cbb_doc \<Rightarrow> bool" where
  "doc_ok [] = True"
| "doc_ok (x # d) = (prefix_ok (fst x) \<and> doc_ok d)"

lemma doc_ok_append [simp]: "doc_ok (d @ e) \<longleftrightarrow> doc_ok d \<and> doc_ok e"
  by (induction d) auto

lemma length_doc_layout [simp]: "length (doc_layout off d) = length d"
  by (induction off d rule: doc_layout.induct) auto

lemma doc_flat_append [simp]: "doc_flat (d @ e) = doc_flat d @ doc_flat e"
  by (induction d rule: doc_flat.induct) auto

lemma doc_layout_append:
  "doc_layout off (d @ e) = doc_layout off d @ doc_layout (off + length (doc_flat d)) e"
  by (induction off d rule: doc_layout.induct) (auto simp: add.assoc)

section \<open>Buffers\<close>

lemma put_be_loop_eq:
  "off + n \<le> length buf \<Longrightarrow>
     put_be_loop buf off n v =
       (take off buf @ be_bytes n (unat v) @ drop (off + n) buf, drop_bit (8 * n) v)"
proof (induction n arbitrary: buf v)
  case (Suc n)
  have "ucast v = (word_of_nat (unat v) :: byte)"
    by (simp add: word_unat_eq_iff unat_ucast_down unat_of_nat)
  then show ?case
    using Suc
    by (simp add: be_bytes_Suc unat_drop_bit drop_update_swap Cons_nth_drop_Suc [symmetric]
        add.commute [of 8] del: of_nat_unat)
qed simp

lemma drop_bit_8_n: "drop_bit (8 * n) (v :: u64) = 0 \<longleftrightarrow> unat v < 256 ^ n"
  using drop_bit_len64 [of n v] by (simp add: mult.commute)

text \<open>\<open>cbb_grows b b'\<close>: the steps a buffer takes while no error occurs.\<close>

definition cbb_grows :: "cbb_buffer \<Rightarrow> cbb_buffer \<Rightarrow> bool" where
  "cbb_grows b b' \<longleftrightarrow> cb_can_resize b' = cb_can_resize b \<and> cb_cap b \<le> cb_cap b' \<and>
     cb_error b' = cb_error b"

definition cbb_room :: "(nat \<Rightarrow> bool) \<Rightarrow> cbb_buffer \<Rightarrow> nat \<Rightarrow> bool" where
  "cbb_room libc b n \<longleftrightarrow> n \<le> 2 ^ 62 \<and> (n \<le> cb_cap b \<or> cb_can_resize b \<and> (\<forall>m. libc m))"

lemma cbb_grows_refl [simp]: "cbb_grows b b"
  by (simp add: cbb_grows_def)

lemma cbb_grows_trans [trans]: "cbb_grows a b \<Longrightarrow> cbb_grows b c \<Longrightarrow> cbb_grows a c"
  by (auto simp: cbb_grows_def)

lemma cbb_grows_buf [simp]: "cbb_grows b (b'\<lparr>cb_buf := x\<rparr>) = cbb_grows b b'"
  by (simp add: cbb_grows_def)

lemma cbb_room_grows: "cbb_room libc b n \<Longrightarrow> cbb_grows b b' \<Longrightarrow> m \<le> n \<Longrightarrow> cbb_room libc b' m"
  by (auto simp: cbb_room_def cbb_grows_def)

lemma realloc_larger:
  "length buf \<le> n \<Longrightarrow> OPENSSL_realloc libc (Some buf) n = (if OPENSSL_malloc libc n then Some buf else None)"
  by (simp add: OPENSSL_realloc_def)

lemma cbb_buffer_reserve_sound:
  assumes "cbb_buffer_reserve libc b n = (True, b')" "n < 2 ^ 64" "length (cb_buf b) < 2 ^ 64"
  shows "cb_buf b' = cb_buf b \<and> cbb_grows b b' \<and> length (cb_buf b) + n < 2 ^ 64 \<and>
    length (cb_buf b) + n \<le> cb_cap b'"
proof -
  let ?l = "length (cb_buf b)"
  have no: "\<not> (?l + n) mod 2 ^ 64 < ?l"
    using assms(1) by (auto simp: cbb_buffer_reserve_def cbb_fail_def Let_def split: if_splits)
  have sum: "?l + n < 2 ^ 64"
  proof (rule ccontr)
    assume "\<not> ?l + n < 2 ^ 64"
    then have "(?l + n) mod 2 ^ 64 = ?l + n - 2 ^ 64"
      using assms(2,3) by (simp add: mod_if)
    with no have "\<not> ?l + n - 2 ^ 64 < ?l" by simp
    with assms(2) \<open>\<not> ?l + n < 2 ^ 64\<close> show False by linarith
  qed
  then show ?thesis
    using assms(1)
    by (auto simp: cbb_buffer_reserve_def cbb_fail_def Let_def realloc_larger cbb_grows_def
        split: if_splits option.splits)
qed

lemma cbb_buffer_reserve_progress:
  assumes "cbb_room libc b (length (cb_buf b) + n)"
  shows "fst (cbb_buffer_reserve libc b n)"
proof -
  let ?l = "length (cb_buf b)"
  have s: "(?l + n) mod 2 ^ 64 = ?l + n" using assms by (simp add: cbb_room_def)
  show ?thesis
  proof (cases "?l + n \<le> cb_cap b")
    case True
    then show ?thesis by (simp add: cbb_buffer_reserve_def Let_def s [simplified])
  next
    case False
    with assms have r: "cb_can_resize b" "\<forall>m. libc m" "?l + n \<le> 2 ^ 62" "cb_cap b < 2 ^ 62"
      by (auto simp: cbb_room_def)
    then show ?thesis
      using False
      by (auto simp: cbb_buffer_reserve_def s [simplified] Let_def realloc_larger OPENSSL_malloc_def
          OPENSSL_MALLOC_PREFIX_def)
  qed
qed

lemma cbb_buffer_add_sound:
  assumes "cbb_buffer_add libc b d = (True, b')" "length d < 2 ^ 64" "length (cb_buf b) < 2 ^ 64"
  shows "cb_buf b' = cb_buf b @ d \<and> cbb_grows b b' \<and> length (cb_buf b') < 2 ^ 64"
proof -
  obtain b1 where "cbb_buffer_reserve libc b (length d) = (True, b1)" "b' = b1\<lparr>cb_buf := cb_buf b1 @ d\<rparr>"
    using assms(1) by (auto simp: cbb_buffer_add_def split: prod.splits bool.splits)
  then show ?thesis using cbb_buffer_reserve_sound [of libc b "length d" b1] assms(2,3) by simp
qed

lemma cbb_buffer_add_progress:
  "cbb_room libc b (length (cb_buf b) + length d) \<Longrightarrow> fst (cbb_buffer_add libc b d)"
  using cbb_buffer_reserve_progress [of libc b "length d"]
  by (auto simp: cbb_buffer_add_def split: prod.splits bool.splits)

section \<open>Closing a child\<close>

lemma cbb_asn1_len_eq:
  "cbb_asn1_len n =
     (if \<not> prefix_fits Der_Len n then None
      else if n < 128 then Some (1, word_of_nat n, 0)
      else Some (Suc (der_len_len n), word_of_nat (128 + der_len_len n), n))"
  by (auto simp: cbb_asn1_len_def der_len_len_def)

lemma cbb_write_length_eq:
  assumes "cb_buf b = pre @ old @ post" "length old = k" "n < 2 ^ 64"
  shows "cbb_write_length b (length pre) k n =
    (n < 256 ^ k, b\<lparr>cb_buf := pre @ be_bytes k n @ post,
       cb_error := (cb_error b \<or> \<not> n < 256 ^ k)\<rparr>)"
proof -
  have "unat (word_of_nat n :: u64) = n" using assms(3) by (simp add: unat_of_nat)
  then show ?thesis
    using put_be_loop_eq [of "length pre" k "cb_buf b" "word_of_nat n"] assms(1,2)
    by (cases b) (auto simp: cbb_write_length_def drop_bit_8_n cbb_fail_def Let_def)
qed

lemma mem_move_tail:
  assumes "length z = k"
  shows "mem_move (pre @ x @ z) (length pre + k) (length pre) (length x) =
    pre @ take k (x @ z) @ x"
  using assms by (simp add: mem_move_def)

lemma cbb_finish_child_fixed:
  assumes "cb_buf b = pre @ replicate n 0 @ x" "length (cb_buf b) < 2 ^ 64"
  shows "cbb_finish_child libc b \<lparr>ch_offset = length pre, ch_pending_len_len = n,
      ch_pending_is_asn1 = False\<rparr> (length pre + n) =
    (length x < 256 ^ n, b\<lparr>cb_buf := pre @ be_bytes n (length x) @ x,
       cb_error := (cb_error b \<or> \<not> length x < 256 ^ n)\<rparr>)"
  using assms cbb_write_length_eq [of b pre "replicate n 0" x n "length x"]
  by (simp add: cbb_finish_child_def)

lemma cbb_finish_child_short:
  assumes "cb_buf b = pre @ [0] @ x" "length x < 128"
  shows "cbb_finish_child libc b \<lparr>ch_offset = length pre, ch_pending_len_len = 1,
      ch_pending_is_asn1 = True\<rparr> (length pre + 1) =
    (True, b\<lparr>cb_buf := pre @ der_length (length x) @ x\<rparr>)"
  using assms
  by (simp add: cbb_finish_child_def cbb_asn1_len_eq cbb_write_length_def der_length_def list_update_append)

lemma cbb_finish_child_long:
  assumes "cb_buf b = pre @ [0] @ x" "\<not> length x < 128" "prefix_fits Der_Len (length x)"
    "length (cb_buf b) < 2 ^ 64"
  shows "cbb_finish_child libc b \<lparr>ch_offset = length pre, ch_pending_len_len = 1,
      ch_pending_is_asn1 = True\<rparr> (length pre + 1) =
    (case cbb_buffer_add libc b (replicate (der_len_len (length x)) 0) of
       (False, b') \<Rightarrow> cbb_fail b'
     | (True, b') \<Rightarrow> (True, b'\<lparr>cb_buf := pre @ der_length (length x) @ x\<rparr>))"
proof -
  let ?n = "length x" and ?k = "der_len_len (length x)"
  have k: "0 < ?k" by (rule der_len_len_bounds)
  have fits: "?n < 256 ^ ?k" using assms(3) by (intro der_len_len_room) simp
  show ?thesis
  proof (cases "cbb_buffer_add libc b (replicate ?k 0)")
    case (Pair ok b')
    show ?thesis
    proof (cases ok)
      case False
      then show ?thesis using Pair k assms(1-3)
        by (simp add: cbb_finish_child_def cbb_asn1_len_eq cbb_fail_def)
    next
      case True
      have b': "cb_buf b' = pre @ [0] @ x @ replicate ?k 0"
        using cbb_buffer_add_sound [of libc b "replicate ?k 0" b'] Pair True assms(1,4)
          der_len_len_bounds(1) [of ?n] by simp
      let ?z = "take ?k (x @ replicate ?k 0)"
      have mv: "mem_move (cb_buf b') (Suc (length pre) + ?k) (Suc (length pre)) ?n =
          (pre @ [0]) @ ?z @ x"
        using mem_move_tail [of "replicate ?k 0" ?k "pre @ [0]" x] by (simp add: b')
      let ?ilb = "word_of_nat (128 + ?k) :: byte"
      have w: "cbb_write_length (b'\<lparr>cb_buf := (pre @ [?ilb]) @ ?z @ x\<rparr>) (Suc (length pre)) ?k ?n =
          (True, b'\<lparr>cb_buf := (pre @ [?ilb]) @ be_bytes ?k ?n @ x\<rparr>)"
        using cbb_write_length_eq [of "b'\<lparr>cb_buf := (pre @ [?ilb]) @ ?z @ x\<rparr>" "pre @ [?ilb]" ?z x ?k ?n]
          assms(1,4) fits by simp
      show ?thesis
        using Pair True k assms(1-3) mv w
        by (simp add: cbb_finish_child_def cbb_asn1_len_eq list_update_append der_length_def Let_def)
    qed
  qed
qed

section \<open>Flushing a chain\<close>

definition cbb_child_of :: "nat \<Rightarrow> cbb_prefix \<Rightarrow> cbb_child" where
  "cbb_child_of off p =
     \<lparr>ch_offset = off, ch_pending_len_len = prefix_len p, ch_pending_is_asn1 = (p = Der_Len)\<rparr>"

lemma cbb_child_of_sel [simp]:
  "ch_offset (cbb_child_of off p) = off" "ch_pending_len_len (cbb_child_of off p) = prefix_len p"
  by (simp_all add: cbb_child_of_def)

lemma doc_layout_Cons:
  "doc_layout off ((p, c) # d) = cbb_child_of off p # doc_layout (off + prefix_len p + length c) d"
  by (simp add: cbb_child_of_def)

lemma prefix_ok_pos: "prefix_ok p \<Longrightarrow> 0 < prefix_len p"
  by (cases p) auto

lemma cbb_finish_child_sound:
  assumes "cbb_finish_child libc b (cbb_child_of (length pre) p) (length pre + prefix_len p) = (True, b')"
    "cb_buf b = pre @ replicate (prefix_len p) 0 @ x" "length (cb_buf b) < 2 ^ 64"
  shows "prefix_fits p (length x) \<and> cb_buf b' = pre @ prefix_bytes p (length x) @ x \<and>
    cbb_grows b b' \<and> length (cb_buf b') < 2 ^ 64"
proof (cases p)
  case (Fixed n)
  then show ?thesis
    using assms cbb_finish_child_fixed [of b pre n x libc] by (auto simp: cbb_child_of_def cbb_grows_def)
next
  case Der_Len
  have b: "cb_buf b = pre @ [0] @ x" using assms(2) Der_Len by simp
  have fits: "prefix_fits Der_Len (length x)"
    using assms(1) Der_Len b
    by (auto simp: cbb_finish_child_def cbb_asn1_len_eq cbb_fail_def cbb_child_of_def Let_def split: if_splits)
  show ?thesis
  proof (cases "length x < 128")
    case True
    then show ?thesis
      using assms(1,3) b fits Der_Len cbb_finish_child_short [OF b True, of libc]
      by (auto simp: cbb_child_of_def der_length_def)
  next
    case False
    let ?k = "der_len_len (length x)"
    obtain b1 where "cbb_buffer_add libc b (replicate ?k 0) = (True, b1)"
      and b': "b' = b1\<lparr>cb_buf := pre @ der_length (length x) @ x\<rparr>"
      using assms(1) Der_Len cbb_finish_child_long [OF b False fits assms(3), of libc]
      by (auto simp: cbb_child_of_def cbb_fail_def split: prod.splits bool.splits)
    then show ?thesis
      using cbb_buffer_add_sound [of libc b "replicate ?k 0" b1] assms(3) b der_len_len_bounds(1) [of "length x"]
        fits False Der_Len
      by (auto simp: der_length_def)
  qed
qed

lemma cbb_finish_child_progress:
  assumes "cb_buf b = pre @ replicate (prefix_len p) 0 @ x" "prefix_fits p (length x)"
    "cbb_room libc b (length (pre @ prefix_bytes p (length x) @ x))" "length (cb_buf b) < 2 ^ 64"
  shows "fst (cbb_finish_child libc b (cbb_child_of (length pre) p) (length pre + prefix_len p))"
proof (cases p)
  case (Fixed n)
  then show ?thesis
    using assms cbb_finish_child_fixed [of b pre n x libc] by (simp add: cbb_child_of_def)
next
  case Der_Len
  have b: "cb_buf b = pre @ [0] @ x" using assms(1) Der_Len by simp
  show ?thesis
  proof (cases "length x < 128")
    case True
    then show ?thesis
      using Der_Len cbb_finish_child_short [OF b True, of libc] by (simp add: cbb_child_of_def)
  next
    case False
    let ?k = "der_len_len (length x)"
    have "fst (cbb_buffer_add libc b (replicate ?k 0))"
      using assms(3) b Der_Len False by (intro cbb_buffer_add_progress) (simp add: der_length_def add_ac)
    then show ?thesis
      using Der_Len cbb_finish_child_long [OF b False _ assms(4), of libc] assms(2)
      by (auto simp: cbb_child_of_def split: prod.splits bool.splits)
  qed
qed

lemma doc_close_Cons_iff:
  "doc_close ((p, c) # d) = Some u \<longleftrightarrow>
     (\<exists>t. doc_close d = Some t \<and> prefix_fits p (length (c @ t)) \<and> u = prefix_bytes p (length (c @ t)) @ c @ t)"
  by (auto split: option.splits)

lemma cbb_flush_chain_sound:
  "cbb_flush_chain libc b (doc_layout (length pre) d) = (True, b', cs) \<Longrightarrow>
     cb_buf b = pre @ doc_flat d \<Longrightarrow> doc_ok d \<Longrightarrow> length (cb_buf b) < 2 ^ 64 \<Longrightarrow>
     \<not> cb_error b \<and> cs = [] \<and> (\<exists>t. doc_close d = Some t \<and> cb_buf b' = pre @ t) \<and> cbb_grows b b' \<and>
     length (cb_buf b') < 2 ^ 64"
proof (induction d arbitrary: pre b b' cs)
  case Nil
  then show ?case by (auto split: if_splits)
next
  case (Cons pc d)
  obtain p c where pc [simp]: "pc = (p, c)" by fastforce
  let ?q = "pre @ replicate (prefix_len p) 0 @ c"
  have lq: "length ?q = length pre + prefix_len p + length c" by simp
  have start: "(length pre + prefix_len p) mod 2 ^ 64 = length pre + prefix_len p"
    using Cons.prems(2,4) by simp
  have pos: "0 < prefix_len p" using Cons.prems(3) by (intro prefix_ok_pos) simp
  obtain b1 cs1 where f: "cbb_flush_chain libc b (doc_layout (length ?q) d) = (True, b1, cs1)"
    and fin: "cbb_finish_child libc b1 (cbb_child_of (length pre) p) (length pre + prefix_len p) = (True, b')"
    and e: "\<not> cb_error b" "cs = []"
    using Cons.prems(1) pos start unfolding pc doc_layout_Cons lq
    by (auto simp: Let_def simp del: doc_layout.simps split: prod.splits if_splits bool.splits)
  from Cons.IH [OF f] Cons.prems(2-4) obtain t where t: "doc_close d = Some t" "cb_buf b1 = ?q @ t"
    "cbb_grows b b1" "length (cb_buf b1) < 2 ^ 64"
    by auto
  have b1: "cb_buf b1 = pre @ replicate (prefix_len p) 0 @ (c @ t)" using t(2) by simp
  note fs = cbb_finish_child_sound [OF fin b1 t(4)]
  then have f: "prefix_fits p (length (c @ t))" "cb_buf b' = pre @ prefix_bytes p (length (c @ t)) @ c @ t"
    "cbb_grows b1 b'" "length (cb_buf b') < 2 ^ 64"
    by blast+
  have "doc_close (pc # d) = Some (prefix_bytes p (length (c @ t)) @ c @ t)"
    using f(1) t(1) by simp
  then show ?case using e f cbb_grows_trans [OF t(3) f(3)] by blast
qed

lemma prefix_bytes_len: "prefix_len p \<le> length (prefix_bytes p n)"
  by (cases p) (auto simp: der_length_def)

lemma cbb_flush_chain_progress:
  "doc_close d = Some u \<Longrightarrow> cb_buf b = pre @ doc_flat d \<Longrightarrow> doc_ok d \<Longrightarrow>
     \<not> cb_error b \<Longrightarrow> length (cb_buf b) < 2 ^ 64 \<Longrightarrow> cbb_room libc b (length (pre @ u)) \<Longrightarrow>
     fst (cbb_flush_chain libc b (doc_layout (length pre) d))"
proof (induction d arbitrary: pre b u)
  case Nil
  then show ?case by simp
next
  case (Cons pc d)
  obtain p c where pc [simp]: "pc = (p, c)" by fastforce
  let ?q = "pre @ replicate (prefix_len p) 0 @ c"
  have lq: "length ?q = length pre + prefix_len p + length c" by simp
  have start: "(length pre + prefix_len p) mod 2 ^ 64 = length pre + prefix_len p"
    using Cons.prems(2,5) by simp
  have pos: "0 < prefix_len p" using Cons.prems(3) by (intro prefix_ok_pos) simp
  from Cons.prems(1) obtain t where t: "doc_close d = Some t" "prefix_fits p (length (c @ t))"
    and u: "u = prefix_bytes p (length (c @ t)) @ c @ t"
    unfolding pc doc_close_Cons_iff by blast
  have b: "cb_buf b = ?q @ doc_flat d" using Cons.prems(2) by simp
  have "cbb_room libc b (length (?q @ t))"
    using Cons.prems(6) u prefix_bytes_len [of p "length (c @ t)"] by (elim cbb_room_grows) simp_all
  with Cons.IH [OF t(1) b] Cons.prems(3-5)
  have "fst (cbb_flush_chain libc b (doc_layout (length ?q) d))" by simp
  then obtain b1 cs1 where f: "cbb_flush_chain libc b (doc_layout (length ?q) d) = (True, b1, cs1)"
    by (metis prod.collapse)
  with cbb_flush_chain_sound [OF f b] Cons.prems(3,5) t(1)
  have b1: "cb_buf b1 = ?q @ t" "cbb_grows b b1" "length (cb_buf b1) < 2 ^ 64" by auto
  have "fst (cbb_finish_child libc b1 (cbb_child_of (length pre) p) (length pre + prefix_len p))"
    using b1 t(2) u cbb_room_grows [OF Cons.prems(6) b1(2)]
    by (intro cbb_finish_child_progress [of b1 pre p "c @ t"]) simp_all
  then show ?case
    using f b1(1) Cons.prems(4) pos start unfolding pc doc_layout_Cons lq
    by (auto simp: Let_def simp del: doc_layout.simps split: prod.splits bool.splits)
qed

section \<open>Operations on documents\<close>

definition doc_snoc :: "cbb_doc \<Rightarrow> bytes \<Rightarrow> cbb_doc" where
  "doc_snoc d t = butlast d @ [(fst (last d), snd (last d) @ t)]"

definition doc_flush :: "nat \<Rightarrow> cbb_doc \<Rightarrow> cbb_doc option" where
  "doc_flush k doc =
     (if length doc \<le> k then None
      else map_option (doc_snoc (take (Suc k) doc)) (doc_close (drop (Suc k) doc)))"

definition doc_add :: "nat \<Rightarrow> bytes \<Rightarrow> cbb_doc \<Rightarrow> cbb_doc option" where
  "doc_add k data doc = map_option (\<lambda>d. doc_snoc d data) (doc_flush k doc)"

definition doc_open :: "nat \<Rightarrow> cbb_prefix \<Rightarrow> cbb_doc \<Rightarrow> cbb_doc option" where
  "doc_open k p doc = map_option (\<lambda>d. d @ [(p, [])]) (doc_flush k doc)"

definition doc_seq :: "(cbb_doc \<Rightarrow> cbb_doc option) \<Rightarrow> (cbb_doc \<Rightarrow> cbb_doc option) \<Rightarrow> cbb_doc \<Rightarrow> cbb_doc option" where
  "doc_seq a b doc = Option.bind (a doc) b"

lemma length_doc_snoc [simp]: "d \<noteq> [] \<Longrightarrow> length (doc_snoc d t) = length d"
  by (simp add: doc_snoc_def)

lemma doc_snoc_not_Nil [simp]: "doc_snoc d t \<noteq> []"
  by (simp add: doc_snoc_def)

lemma doc_snoc_snoc [simp]: "doc_snoc (d @ [(p, c)]) t = d @ [(p, c @ t)]"
  by (simp add: doc_snoc_def)

lemma doc_snoc_Nil [simp]: "d \<noteq> [] \<Longrightarrow> doc_snoc d [] = d"
  by (simp add: doc_snoc_def)

lemma doc_snoc_append [simp]: "d \<noteq> [] \<Longrightarrow> doc_snoc (doc_snoc d x) y = doc_snoc d (x @ y)"
  by (simp add: doc_snoc_def)

lemma doc_snoc_cases:
  assumes "d \<noteq> []"
  obtains e p c where "d = e @ [(p, c)]" "doc_snoc d = (\<lambda>t. e @ [(p, c @ t)])"
proof (cases d rule: rev_cases)
  case (snoc e x)
  then show ?thesis using that [of e "fst x" "snd x"] by (simp add: doc_snoc_def fun_eq_iff)
qed (use assms in simp)

lemma doc_flush_Some_iff:
  "doc_flush k doc = Some d \<longleftrightarrow> doc \<noteq> [] \<and> k < length doc \<and>
     (\<exists>t. doc_close (drop (Suc k) doc) = Some t \<and> d = doc_snoc (take (Suc k) doc) t)"
  by (auto simp: doc_flush_def)

lemma doc_flat_snoc [simp]: "d \<noteq> [] \<Longrightarrow> doc_flat (doc_snoc d t) = doc_flat d @ t"
  by (erule doc_snoc_cases) simp

lemma doc_layout_snoc [simp]: "d \<noteq> [] \<Longrightarrow> doc_layout off (doc_snoc d t) = doc_layout off d"
  by (erule doc_snoc_cases) (simp add: doc_layout_append)

lemma hd_doc_snoc: "d \<noteq> [] \<Longrightarrow> fst (hd (doc_snoc d t)) = fst (hd d)"
  by (erule doc_snoc_cases) (auto simp: hd_append)

lemma doc_ok_tl_snoc: "d \<noteq> [] \<Longrightarrow> doc_ok (tl (doc_snoc d t)) = doc_ok (tl d)"
  by (erule doc_snoc_cases) (auto simp: tl_append split: list.splits)

lemma doc_flush_length: "doc_flush k doc = Some d \<Longrightarrow> length d = Suc k"
  by (auto simp: doc_flush_Some_iff)

lemma doc_flush_not_Nil: "doc_flush k doc = Some d \<Longrightarrow> d \<noteq> []"
  using doc_flush_length by fastforce

lemma doc_flush_idem: "length d = Suc k \<Longrightarrow> doc_flush k d = Some d"
  by (cases d) (auto simp: doc_flush_def)

lemma doc_close_length: "doc_close d = Some t \<Longrightarrow> length (doc_flat d) \<le> length t"
proof (induction d arbitrary: t)
  case (Cons pc d)
  obtain p c where pc: "pc = (p, c)" by fastforce
  from Cons.prems obtain u where u: "doc_close d = Some u" "t = prefix_bytes p (length (c @ u)) @ c @ u"
    unfolding pc doc_close_Cons_iff by blast
  then show ?case
    using Cons.IH [OF u(1)] prefix_bytes_len [of p "length (c @ u)"] by (simp add: pc)
qed simp

lemma doc_flush_grows:
  assumes "doc_flush k doc = Some d" shows "length (doc_flat doc) \<le> length (doc_flat d)"
proof -
  have "doc_flat doc = doc_flat (take (Suc k) doc) @ doc_flat (drop (Suc k) doc)"
    by (simp flip: doc_flat_append)
  then show ?thesis
    using assms doc_close_length [of "drop (Suc k) doc"]
    by (auto simp: doc_flush_Some_iff)
qed

lemma doc_flush_keeps:
  assumes "doc_flush k doc = Some d"
  shows "fst (hd d) = fst (hd doc)" "doc_ok (tl doc) \<Longrightarrow> doc_ok (tl d)"
proof -
  have ne: "doc \<noteq> []" using assms by (auto simp: doc_flush_def)
  then show "fst (hd d) = fst (hd doc)"
    using assms by (auto simp: doc_flush_Some_iff hd_doc_snoc)
  have "tl doc = tl (take (Suc k) doc) @ drop (Suc k) doc"
    using ne by (cases doc) auto
  then show "doc_ok (tl doc) \<Longrightarrow> doc_ok (tl d)"
    using assms ne by (auto simp: doc_flush_Some_iff doc_ok_tl_snoc)
qed

section \<open>The representation\<close>

definition cbb_rep :: "cbb \<Rightarrow> cbb_doc \<Rightarrow> bool" where
  "cbb_rep s doc \<longleftrightarrow>
     doc \<noteq> [] \<and> fst (hd doc) = Fixed 0 \<and> doc_ok (tl doc) \<and>
     cb_buf (cbb_base s) = doc_flat doc \<and> cbb_children s = tl (doc_layout 0 doc) \<and>
     length (doc_flat doc) < 2 ^ 64"

text \<open>\<open>cbb_sim libc f a\<close>: the operation \<open>f\<close> of the code implements the operation \<open>a\<close> on documents.\<close>

definition cbb_sim :: "(nat \<Rightarrow> bool) \<Rightarrow> (cbb \<Rightarrow> bool \<times> cbb) \<Rightarrow> (cbb_doc \<Rightarrow> cbb_doc option) \<Rightarrow> bool" where
  "cbb_sim libc f a \<longleftrightarrow>
     (\<forall>s doc. cbb_rep s doc \<longrightarrow>
        (\<forall>s'. f s = (True, s') \<longrightarrow>
           \<not> cb_error (cbb_base s) \<and> cbb_grows (cbb_base s) (cbb_base s') \<and>
           (\<exists>doc'. a doc = Some doc' \<and> cbb_rep s' doc')) \<and>
        (\<forall>doc'. a doc = Some doc' \<longrightarrow> \<not> cb_error (cbb_base s) \<longrightarrow>
           cbb_room libc (cbb_base s) (length (doc_flat doc')) \<longrightarrow> fst (f s))) \<and>
     (\<forall>doc doc'. a doc = Some doc' \<longrightarrow> length (doc_flat doc) \<le> length (doc_flat doc'))"

lemma cbb_simI:
  assumes "\<And>s s' doc. cbb_rep s doc \<Longrightarrow> f s = (True, s') \<Longrightarrow>
      \<not> cb_error (cbb_base s) \<and> cbb_grows (cbb_base s) (cbb_base s') \<and>
      (\<exists>doc'. a doc = Some doc' \<and> cbb_rep s' doc')"
    and "\<And>s doc doc'. cbb_rep s doc \<Longrightarrow> a doc = Some doc' \<Longrightarrow> \<not> cb_error (cbb_base s) \<Longrightarrow>
      cbb_room libc (cbb_base s) (length (doc_flat doc')) \<Longrightarrow> fst (f s)"
    and "\<And>doc doc'. a doc = Some doc' \<Longrightarrow> length (doc_flat doc) \<le> length (doc_flat doc')"
  shows "cbb_sim libc f a"
  using assms unfolding cbb_sim_def by blast

lemma cbb_sim_sound:
  "cbb_sim libc f a \<Longrightarrow> cbb_rep s doc \<Longrightarrow> f s = (True, s') \<Longrightarrow>
     \<not> cb_error (cbb_base s) \<and> cbb_grows (cbb_base s) (cbb_base s') \<and>
     (\<exists>doc'. a doc = Some doc' \<and> cbb_rep s' doc')"
  unfolding cbb_sim_def by blast

lemma cbb_sim_progress:
  assumes "cbb_sim libc f a" "cbb_rep s doc" "a doc = Some doc'" "\<not> cb_error (cbb_base s)"
    "cbb_room libc (cbb_base s) (length (doc_flat doc'))"
  shows "\<exists>s'. f s = (True, s')"
proof -
  have "fst (f s)" using assms unfolding cbb_sim_def by blast
  then show ?thesis by (cases "f s") simp
qed

lemma cbb_sim_grows:
  "cbb_sim libc f a \<Longrightarrow> a doc = Some doc' \<Longrightarrow> length (doc_flat doc) \<le> length (doc_flat doc')"
  unfolding cbb_sim_def by blast

lemma cbb_then_True: "cbb_then r f = (True, s') \<longleftrightarrow> (\<exists>s. r = (True, s) \<and> f s = (True, s'))"
  by (auto simp: cbb_then_def split: prod.splits)

lemma cbb_sim_then:
  assumes f: "cbb_sim libc f a" and g: "cbb_sim libc g b"
  shows "cbb_sim libc (\<lambda>s. cbb_then (f s) g) (doc_seq a b)"
proof (rule cbb_simI)
  fix s s' doc assume rep: "cbb_rep s doc" and run: "cbb_then (f s) g = (True, s')"
  from run obtain s1 where s1: "f s = (True, s1)" "g s1 = (True, s')" by (auto simp: cbb_then_True)
  obtain d1 where d1: "a doc = Some d1" "cbb_rep s1 d1"
    and e: "\<not> cb_error (cbb_base s)" "cbb_grows (cbb_base s) (cbb_base s1)"
    using cbb_sim_sound [OF f rep s1(1)] by blast
  show "\<not> cb_error (cbb_base s) \<and> cbb_grows (cbb_base s) (cbb_base s') \<and>
      (\<exists>doc'. doc_seq a b doc = Some doc' \<and> cbb_rep s' doc')"
    using cbb_sim_sound [OF g d1(2) s1(2)] d1(1) e cbb_grows_trans [OF e(2)]
    by (auto simp: doc_seq_def)
next
  fix s doc doc'
  assume rep: "cbb_rep s doc" and ab: "doc_seq a b doc = Some doc'"
    and e: "\<not> cb_error (cbb_base s)" and room: "cbb_room libc (cbb_base s) (length (doc_flat doc'))"
  from ab obtain d1 where d1: "a doc = Some d1" "b d1 = Some doc'"
    by (auto simp: doc_seq_def bind_eq_Some_conv)
  have "cbb_room libc (cbb_base s) (length (doc_flat d1))"
    using cbb_sim_grows [OF g d1(2)] cbb_room_grows [OF room] by simp
  from cbb_sim_progress [OF f rep d1(1) e this] obtain s1 where s1: "f s = (True, s1)" ..
  with cbb_sim_sound [OF f rep s1] d1(1)
  have "cbb_rep s1 d1" "cbb_grows (cbb_base s) (cbb_base s1)" by auto
  moreover from this(2) have "\<not> cb_error (cbb_base s1)" using e by (simp add: cbb_grows_def)
  ultimately obtain s2 where "g s1 = (True, s2)"
    using cbb_sim_progress [OF g _ d1(2)] cbb_room_grows [OF room] by blast
  then show "fst (cbb_then (f s) g)" by (simp add: cbb_then_def s1)
next
  fix doc doc' assume "doc_seq a b doc = Some doc'"
  then show "length (doc_flat doc) \<le> length (doc_flat doc')"
    by (auto simp: doc_seq_def bind_eq_Some_conv
        intro: order_trans [OF cbb_sim_grows [OF f] cbb_sim_grows [OF g]])
qed

section \<open>The operations of the code\<close>

lemma layout_take: "take n (doc_layout off d) = doc_layout off (take n d)"
  using doc_layout_append [of off "take n d" "drop n d"] by (cases "n \<le> length d") auto

lemma layout_drop:
  "drop n (doc_layout off d) = doc_layout (off + length (doc_flat (take n d))) (drop n d)"
  using doc_layout_append [of off "take n d" "drop n d"] by (cases "n \<le> length d") auto

lemma take_Suc_tl: "take k (tl xs) = tl (take (Suc k) xs)"
  by (cases xs) auto

lemma drop_Suc_tl: "drop k (tl xs) = drop (Suc k) xs"
  by (cases xs) auto

lemma CBB_flush_rep:
  assumes "cbb_rep s doc" "k < length doc"
  shows "CBB_flush libc k s =
    (case cbb_flush_chain libc (cbb_base s)
            (doc_layout (length (doc_flat (take (Suc k) doc))) (drop (Suc k) doc)) of
       (ok, base, cs) \<Rightarrow> (ok, \<lparr>cbb_base = base, cbb_children = tl (doc_layout 0 (take (Suc k) doc)) @ cs\<rparr>))"
  using assms by (auto simp: CBB_flush_def cbb_rep_def take_Suc_tl drop_Suc_tl layout_take layout_drop)

lemma doc_flat_split: "doc_flat doc = doc_flat (take k doc) @ doc_flat (drop k doc)"
  by (simp flip: doc_flat_append)

lemma doc_ok_drop: "doc_ok (tl doc) \<Longrightarrow> doc_ok (drop (Suc k) doc)"
  using doc_ok_append [of "take k (tl doc)" "drop k (tl doc)"] by (simp add: drop_Suc)

lemma CBB_flush_sim: "cbb_sim libc (CBB_flush libc k) (doc_flush k)"
proof (rule cbb_simI)
  fix s s' doc assume rep: "cbb_rep s doc" and run: "CBB_flush libc k s = (True, s')"
  have ne: "doc \<noteq> []" using rep by (simp add: cbb_rep_def)
  have k: "k < length doc"
    using rep run by (cases doc) (auto simp: CBB_flush_def cbb_rep_def split: if_splits)
  let ?A = "take (Suc k) doc" and ?K = "drop (Suc k) doc"
  have A: "?A \<noteq> []" using ne by simp
  obtain b' cs where f: "cbb_flush_chain libc (cbb_base s) (doc_layout (length (doc_flat ?A)) ?K) = (True, b', cs)"
    and s': "s' = \<lparr>cbb_base = b', cbb_children = tl (doc_layout 0 ?A) @ cs\<rparr>"
    using run unfolding CBB_flush_rep [OF rep k] by (auto split: prod.splits)
  have "cb_buf (cbb_base s) = doc_flat ?A @ doc_flat ?K"
    using rep doc_flat_split [of doc "Suc k"] by (simp add: cbb_rep_def)
  moreover have "doc_ok ?K" "length (cb_buf (cbb_base s)) < 2 ^ 64"
    using rep by (simp_all add: cbb_rep_def doc_ok_drop)
  ultimately obtain t where t: "doc_close ?K = Some t" "cb_buf b' = doc_flat ?A @ t" "cs = []"
    and e: "\<not> cb_error (cbb_base s)" "cbb_grows (cbb_base s) b'" "length (cb_buf b') < 2 ^ 64"
    using cbb_flush_chain_sound [OF f] by blast
  have d: "doc_flush k doc = Some (doc_snoc ?A t)" using k t(1) by (simp add: doc_flush_def)
  have "cbb_rep s' (doc_snoc ?A t)"
    using rep t e(3) doc_flush_keeps [OF d] A s' unfolding cbb_rep_def by simp
  then show "\<not> cb_error (cbb_base s) \<and> cbb_grows (cbb_base s) (cbb_base s') \<and>
      (\<exists>doc'. doc_flush k doc = Some doc' \<and> cbb_rep s' doc')"
    using d e s' by simp
next
  fix s doc doc'
  assume rep: "cbb_rep s doc" and d: "doc_flush k doc = Some doc'" and e: "\<not> cb_error (cbb_base s)"
    and room: "cbb_room libc (cbb_base s) (length (doc_flat doc'))"
  from d obtain t where ne: "doc \<noteq> []" and k: "k < length doc" and t: "doc_close (drop (Suc k) doc) = Some t"
    and doc': "doc' = doc_snoc (take (Suc k) doc) t"
    unfolding doc_flush_Some_iff by blast
  have "cb_buf (cbb_base s) = doc_flat (take (Suc k) doc) @ doc_flat (drop (Suc k) doc)"
    using rep doc_flat_split [of doc "Suc k"] by (simp add: cbb_rep_def)
  moreover have "doc_ok (drop (Suc k) doc)" "length (cb_buf (cbb_base s)) < 2 ^ 64"
    using rep by (simp_all add: cbb_rep_def doc_ok_drop)
  ultimately show "fst (CBB_flush libc k s)"
    unfolding CBB_flush_rep [OF rep k]
    using cbb_flush_chain_progress [OF t, of "cbb_base s" _ libc] e room ne doc'
    by (auto split: prod.splits)
qed (rule doc_flush_grows)

text \<open>What remains of an operation after its flush works on the buffer alone.\<close>

definition cbb_appends :: "(nat \<Rightarrow> bool) \<Rightarrow> (cbb_buffer \<Rightarrow> bool \<times> cbb_buffer) \<Rightarrow> bytes \<Rightarrow> bool" where
  "cbb_appends libc f x \<longleftrightarrow>
     (\<forall>b. length (cb_buf b) < 2 ^ 64 \<longrightarrow>
        (\<forall>b'. f b = (True, b') \<longrightarrow>
           cb_buf b' = cb_buf b @ x \<and> cbb_grows b b' \<and> length (cb_buf b') < 2 ^ 64) \<and>
        (cbb_room libc b (length (cb_buf b @ x)) \<longrightarrow> fst (f b)))"

lemma cbb_appends_sound:
  "cbb_appends libc f x \<Longrightarrow> f b = (True, b') \<Longrightarrow> length (cb_buf b) < 2 ^ 64 \<Longrightarrow>
     cb_buf b' = cb_buf b @ x \<and> cbb_grows b b' \<and> length (cb_buf b') < 2 ^ 64"
  unfolding cbb_appends_def by blast

lemma cbb_appends_progress:
  "cbb_appends libc f x \<Longrightarrow> length (cb_buf b) < 2 ^ 64 \<Longrightarrow>
     cbb_room libc b (length (cb_buf b) + length x) \<Longrightarrow> fst (f b)"
  unfolding cbb_appends_def length_append by blast

lemma cbb_rep_snoc:
  assumes "cbb_rep s doc" "cb_buf b = cb_buf (cbb_base s) @ x" "length (cb_buf b) < 2 ^ 64"
  shows "cbb_rep (s\<lparr>cbb_base := b\<rparr>) (doc_snoc doc x)"
  using assms unfolding cbb_rep_def by (simp add: hd_doc_snoc doc_ok_tl_snoc)

lemma cbb_rep_snoc_appends:
  assumes "cbb_rep s d" "cbb_appends libc f x" "f (cbb_base s) = (True, b)"
  shows "cbb_rep (s\<lparr>cbb_base := b\<rparr>) (doc_snoc d x) \<and> cbb_grows (cbb_base s) b"
proof -
  have "length (cb_buf (cbb_base s)) < 2 ^ 64" using assms(1) by (simp add: cbb_rep_def)
  with cbb_appends_sound [OF assms(2,3)] cbb_rep_snoc [OF assms(1)] show ?thesis by blast
qed

lemma cbb_on_base_True:
  "cbb_on_base f s = (True, s') \<longleftrightarrow> (\<exists>b. f (cbb_base s) = (True, b) \<and> s' = s\<lparr>cbb_base := b\<rparr>)"
  by (cases "f (cbb_base s)") (auto simp: cbb_on_base_def)

lemma cbb_sim_append:
  assumes "cbb_appends libc f x"
  shows "cbb_sim libc (\<lambda>s. cbb_then (CBB_flush libc k s) (cbb_on_base f)) (doc_add k x)"
proof (rule cbb_simI)
  fix s s' doc assume rep: "cbb_rep s doc"
    and run: "cbb_then (CBB_flush libc k s) (cbb_on_base f) = (True, s')"
  from run obtain s1 b' where s1: "CBB_flush libc k s = (True, s1)" and b': "f (cbb_base s1) = (True, b')"
    and s': "s' = s1\<lparr>cbb_base := b'\<rparr>"
    by (auto simp: cbb_then_True cbb_on_base_True)
  obtain d where d: "doc_flush k doc = Some d" "cbb_rep s1 d"
    and e: "\<not> cb_error (cbb_base s)" "cbb_grows (cbb_base s) (cbb_base s1)"
    using cbb_sim_sound [OF CBB_flush_sim rep s1] by blast
  have "length (cb_buf (cbb_base s1)) < 2 ^ 64" using d(2) by (simp add: cbb_rep_def)
  then have a: "cb_buf b' = cb_buf (cbb_base s1) @ x" "cbb_grows (cbb_base s1) b'" "length (cb_buf b') < 2 ^ 64"
    using assms b' unfolding cbb_appends_def by blast+
  show "\<not> cb_error (cbb_base s) \<and> cbb_grows (cbb_base s) (cbb_base s') \<and>
      (\<exists>doc'. doc_add k x doc = Some doc' \<and> cbb_rep s' doc')"
    using cbb_rep_snoc [OF d(2) a(1,3)] d(1) e(1) cbb_grows_trans [OF e(2) a(2)] s'
    by (simp add: doc_add_def)
next
  fix s doc doc'
  assume rep: "cbb_rep s doc" and d: "doc_add k x doc = Some doc'" and e: "\<not> cb_error (cbb_base s)"
    and room: "cbb_room libc (cbb_base s) (length (doc_flat doc'))"
  from d obtain d1 where d1: "doc_flush k doc = Some d1" "doc' = doc_snoc d1 x"
    by (auto simp: doc_add_def)
  have l: "length (doc_flat doc') = length (doc_flat d1 @ x)"
    using d1 doc_flush_not_Nil by simp
  then obtain s1 where s1: "CBB_flush libc k s = (True, s1)"
    using cbb_sim_progress [OF CBB_flush_sim rep d1(1) e] cbb_room_grows [OF room] by fastforce
  with cbb_sim_sound [OF CBB_flush_sim rep s1] d1(1)
  have r1: "cbb_rep s1 d1" "cbb_grows (cbb_base s) (cbb_base s1)" by auto
  then have "cbb_room libc (cbb_base s1) (length (cb_buf (cbb_base s1) @ x))"
    using l cbb_room_grows [OF room r1(2)] by (simp add: cbb_rep_def)
  then have "fst (f (cbb_base s1))"
    using assms r1(1) unfolding cbb_appends_def cbb_rep_def by metis
  then show "fst (cbb_then (CBB_flush libc k s) (cbb_on_base f))"
    by (cases "f (cbb_base s1)") (simp add: s1 cbb_then_def cbb_on_base_def)
next
  fix doc doc' assume "doc_add k x doc = Some doc'"
  then obtain d where "doc_flush k doc = Some d" "doc' = doc_snoc d x" by (auto simp: doc_add_def)
  then show "length (doc_flat doc) \<le> length (doc_flat doc')"
    using doc_flush_grows [of k doc d] doc_flush_not_Nil [of k doc d] by simp
qed

lemma cbb_appends_add: "length x < 2 ^ 64 \<Longrightarrow> cbb_appends libc (\<lambda>b. cbb_buffer_add libc b x) x"
  using cbb_buffer_add_sound [of libc _ x] cbb_buffer_add_progress [of libc _ x]
  unfolding cbb_appends_def length_append by blast

lemma cbb_appends_u:
  assumes "n \<le> 8" "unat v < 256 ^ n"
  shows "cbb_appends libc (\<lambda>b. cbb_buffer_add_u libc b v n) (be_bytes n (unat v))"
  unfolding cbb_appends_def
proof (intro allI impI conjI)
  fix b b' :: cbb_buffer assume b: "length (cb_buf b) < 2 ^ 64"
  have eq: "cbb_buffer_add_u libc b v n = (True, b1\<lparr>cb_buf := cb_buf b @ be_bytes n (unat v)\<rparr>)"
    if "cbb_buffer_add libc b (replicate n 0) = (True, b1)" "n \<noteq> 0" for b1
    using that assms b cbb_buffer_add_sound [OF that(1)]
      put_be_loop_eq [of "length (cb_buf b)" n "cb_buf b1" v]
    by (auto simp: cbb_buffer_add_u_def drop_bit_8_n Let_def)
  have fine: "fst (cbb_buffer_add libc b (replicate n 0))" if "fst (cbb_buffer_add_u libc b v n)" "n \<noteq> 0"
    using that by (auto simp: cbb_buffer_add_u_def split: bool.splits prod.splits)
  {
    assume run: "cbb_buffer_add_u libc b v n = (True, b')"
    have "cb_buf b' = cb_buf b @ be_bytes n (unat v) \<and> cbb_grows b b' \<and> length (cb_buf b') < 2 ^ 64"
    proof (cases "n = 0")
      case True
      then show ?thesis using run b by (simp add: cbb_buffer_add_u_def)
    next
      case False
      then obtain b1 where b1: "cbb_buffer_add libc b (replicate n 0) = (True, b1)"
        using fine run by (cases "cbb_buffer_add libc b (replicate n 0)") simp
      from cbb_buffer_add_sound [OF b1] b assms(1) eq [OF b1 False] run
      show ?thesis by auto
    qed
  }
  then show "cbb_buffer_add_u libc b v n = (True, b') \<Longrightarrow> cb_buf b' = cb_buf b @ be_bytes n (unat v)"
    "cbb_buffer_add_u libc b v n = (True, b') \<Longrightarrow> cbb_grows b b'"
    "cbb_buffer_add_u libc b v n = (True, b') \<Longrightarrow> length (cb_buf b') < 2 ^ 64"
    by blast+
  show "fst (cbb_buffer_add_u libc b v n)"
    if room: "cbb_room libc b (length (cb_buf b @ be_bytes n (unat v)))"
  proof (cases "n = 0")
    case False
    then obtain b1 where "cbb_buffer_add libc b (replicate n 0) = (True, b1)"
      using cbb_buffer_add_progress [of libc b "replicate n 0"] room
      by (cases "cbb_buffer_add libc b (replicate n 0)") auto
    then show ?thesis using eq False by simp
  qed (simp add: cbb_buffer_add_u_def)
qed

lemma CBB_add_bytes_sim: "length x < 2 ^ 64 \<Longrightarrow> cbb_sim libc (CBB_add_bytes libc k x) (doc_add k x)"
  unfolding CBB_add_bytes_def by (intro cbb_sim_append cbb_appends_add)

lemma cbb_add_u_sim:
  "n \<le> 8 \<Longrightarrow> unat v < 256 ^ n \<Longrightarrow> cbb_sim libc (cbb_add_u libc k v n) (doc_add k (be_bytes n (unat v)))"
  unfolding cbb_add_u_def by (intro cbb_sim_append cbb_appends_u)

lemma CBB_add_u8_sim: "cbb_sim libc (CBB_add_u8 libc k b) (doc_add k [b])"
  using cbb_add_u_sim [of 1 "ucast b" libc k]
  by (simp add: CBB_add_u8_def [abs_def] unat_ucast_up be_bytes_def)

lemma cbb_sim_eq: "cbb_sim libc f a \<Longrightarrow> (\<And>doc. a doc = b doc) \<Longrightarrow> cbb_sim libc f b"
  by (simp add: cbb_sim_def)

lemma doc_add_0 [simp]: "doc_add k [] = doc_flush k"
proof
  show "doc_add k [] doc = doc_flush k doc" for doc
    using doc_flush_not_Nil by (cases "doc_flush k doc") (auto simp: doc_add_def)
qed

lemma doc_add_Some_iff: "doc_add k x doc = Some d' \<longleftrightarrow> (\<exists>d. doc_flush k doc = Some d \<and> d' = doc_snoc d x)"
  by (auto simp: doc_add_def)

lemma doc_flush_snoc: "doc_flush k doc = Some d \<Longrightarrow> doc_flush k (doc_snoc d x) = Some (doc_snoc d x)"
  using doc_flush_length [of k doc d] doc_flush_not_Nil [of k doc d] by (intro doc_flush_idem) simp

lemma doc_add_add: "doc_seq (doc_add k x) (doc_add k y) = doc_add k (x @ y)"
proof
  show "doc_seq (doc_add k x) (doc_add k y) doc = doc_add k (x @ y) doc" for doc
    using doc_flush_snoc doc_flush_not_Nil
    by (cases "doc_flush k doc") (auto simp: doc_add_def doc_seq_def)
qed

lemma doc_flush_add: "doc_seq (doc_flush k) (doc_add k x) = doc_add k x"
  using doc_add_add [of k "[]" x] by simp

lemma doc_add_flush: "doc_seq (doc_add k x) (doc_flush k) = doc_add k x"
  using doc_add_add [of k x "[]"] by simp

lemma doc_flush_again: "doc_flush k doc = Some d \<Longrightarrow> doc_flush k d = Some d"
  by (intro doc_flush_idem doc_flush_length)

lemma doc_flush_open: "doc_seq (doc_flush k) (doc_open k p) = doc_open k p"
proof
  show "doc_seq (doc_flush k) (doc_open k p) doc = doc_open k p doc" for doc
    using doc_flush_again [of k doc]
    by (cases "doc_flush k doc") (simp_all add: doc_open_def doc_seq_def)
qed

lemma doc_seq_assoc: "doc_seq a (doc_seq b c) = doc_seq (doc_seq a b) c"
  by (simp add: doc_seq_def [abs_def])

section \<open>Opening a child\<close>

definition cbb_push_child :: "nat \<Rightarrow> nat \<Rightarrow> cbb_prefix \<Rightarrow> cbb \<Rightarrow> bool \<times> cbb" where
  "cbb_push_child k off p s = (True, s\<lparr>cbb_children := take k (cbb_children s) @ [cbb_child_of off p]\<rparr>)"

lemma cbb_rep_push:
  assumes "cbb_rep s (doc_snoc d (replicate (prefix_len p) 0))" "length d = Suc k" "prefix_ok p"
  shows "cbb_rep (snd (cbb_push_child k (length (doc_flat d)) p s)) (d @ [(p, [])])"
proof -
  have ne: "d \<noteq> []" using assms(2) by auto
  have "tl (doc_layout 0 (d @ [(p, [])])) = tl (doc_layout 0 d) @ [cbb_child_of (length (doc_flat d)) p]"
    using ne by (cases "doc_layout 0 d") (auto simp: doc_layout_append cbb_child_of_def dest: arg_cong [of _ _ length])
  moreover have "length (tl (doc_layout 0 d)) = k" using assms(2) by simp
  ultimately show ?thesis
    using assms ne by (auto simp: cbb_rep_def cbb_push_child_def hd_doc_snoc doc_ok_tl_snoc)
qed

lemma cbb_sim_open:
  assumes f: "cbb_sim libc f a" and a: "\<And>doc d. a doc = Some d \<Longrightarrow> length d = Suc k" and p: "prefix_ok p"
    and gs: "\<And>s s' d. cbb_rep s d \<Longrightarrow> length d = Suc k \<Longrightarrow> g s = (True, s') \<Longrightarrow>
      cbb_rep s' (doc_snoc d (replicate (prefix_len p) 0)) \<and> cbb_grows (cbb_base s) (cbb_base s')"
    and gp: "\<And>s d. cbb_rep s d \<Longrightarrow> length d = Suc k \<Longrightarrow> \<not> cb_error (cbb_base s) \<Longrightarrow>
      cbb_room libc (cbb_base s) (length (doc_flat d) + prefix_len p) \<Longrightarrow> fst (g s)"
  shows "cbb_sim libc
    (\<lambda>s. cbb_then (f s) (\<lambda>s1. cbb_then (g s1) (cbb_push_child k (length (cb_buf (cbb_base s1))) p)))
    (doc_seq a (doc_open k p))"
proof (rule cbb_simI)
  fix s s' doc assume rep: "cbb_rep s doc"
    and run: "cbb_then (f s) (\<lambda>s1. cbb_then (g s1) (cbb_push_child k (length (cb_buf (cbb_base s1))) p)) = (True, s')"
  from run obtain s1 s2 where s1: "f s = (True, s1)" and s2: "g s1 = (True, s2)"
    and s': "s' = snd (cbb_push_child k (length (cb_buf (cbb_base s1))) p s2)"
    by (auto simp: cbb_then_True cbb_push_child_def)
  obtain d where d: "a doc = Some d" "cbb_rep s1 d"
    and e: "\<not> cb_error (cbb_base s)" "cbb_grows (cbb_base s) (cbb_base s1)"
    using cbb_sim_sound [OF f rep s1] by blast
  have l: "length d = Suc k" using a d(1) by blast
  note g2 = gs [OF d(2) l s2]
  have off: "length (cb_buf (cbb_base s1)) = length (doc_flat d)" using d(2) by (simp add: cbb_rep_def)
  have "cbb_rep s' (d @ [(p, [])])"
    using cbb_rep_push [OF _ l p, of s2] g2 unfolding s' off by blast
  moreover have "doc_seq a (doc_open k p) doc = Some (d @ [(p, [])])"
    using d(1) doc_flush_idem [OF l] by (simp add: doc_seq_def doc_open_def)
  moreover have "cbb_grows (cbb_base s) (cbb_base s')"
    using cbb_grows_trans [OF e(2)] g2 by (simp add: s' cbb_push_child_def)
  ultimately show "\<not> cb_error (cbb_base s) \<and> cbb_grows (cbb_base s) (cbb_base s') \<and>
      (\<exists>doc'. doc_seq a (doc_open k p) doc = Some doc' \<and> cbb_rep s' doc')"
    using e(1) by blast
next
  fix s doc doc'
  assume rep: "cbb_rep s doc" and d: "doc_seq a (doc_open k p) doc = Some doc'"
    and e: "\<not> cb_error (cbb_base s)" and room: "cbb_room libc (cbb_base s) (length (doc_flat doc'))"
  from d obtain d1 where d1: "a doc = Some d1" and "doc_open k p d1 = Some doc'"
    by (auto simp: doc_seq_def bind_eq_Some_conv)
  then have l: "length d1 = Suc k" and doc': "doc' = d1 @ [(p, [])]"
    using a [of doc d1] doc_flush_idem [of d1 k] by (simp_all add: doc_open_def)
  have "cbb_room libc (cbb_base s) (length (doc_flat d1))"
    using cbb_room_grows [OF room cbb_grows_refl] by (simp add: doc')
  with cbb_sim_progress [OF f rep d1 e] obtain s1 where s1: "f s = (True, s1)" by blast
  with cbb_sim_sound [OF f rep s1] d1
  have r1: "cbb_rep s1 d1" "cbb_grows (cbb_base s) (cbb_base s1)" by auto
  then have "\<not> cb_error (cbb_base s1)" using e by (simp add: cbb_grows_def)
  moreover have "cbb_room libc (cbb_base s1) (length (doc_flat d1) + prefix_len p)"
    using cbb_room_grows [OF room r1(2)] by (simp add: doc')
  ultimately have "fst (g s1)" using gp [OF r1(1) l] by blast
  then show "fst (cbb_then (f s) (\<lambda>s1. cbb_then (g s1) (cbb_push_child k (length (cb_buf (cbb_base s1))) p)))"
    by (cases "g s1") (simp add: s1 cbb_then_def cbb_push_child_def)
next
  fix doc doc' assume "doc_seq a (doc_open k p) doc = Some doc'"
  then obtain d d1 where d: "a doc = Some d" "doc_flush k d = Some d1" "doc' = d1 @ [(p, [])]"
    by (auto simp: doc_seq_def doc_open_def bind_eq_Some_conv)
  from cbb_sim_grows [OF f d(1)] doc_flush_grows [OF d(2)] d(3)
  show "length (doc_flat doc) \<le> length (doc_flat doc')" by simp
qed

lemma cbb_add_length_prefixed_sim:
  assumes "0 < n" "n \<le> 8"
  shows "cbb_sim libc (cbb_add_length_prefixed libc k n) (doc_open k (Fixed n))"
proof -
  have ap: "cbb_appends libc (\<lambda>b. cbb_buffer_add libc b (replicate n 0)) (replicate n 0)"
    using assms by (intro cbb_appends_add) simp
  have "cbb_sim libc
    (\<lambda>s. cbb_then (CBB_flush libc k s) (\<lambda>s1. cbb_then (cbb_on_base (\<lambda>b. cbb_buffer_add libc b (replicate n 0)) s1)
        (cbb_push_child k (length (cb_buf (cbb_base s1))) (Fixed n))))
    (doc_seq (doc_flush k) (doc_open k (Fixed n)))"
  proof (rule cbb_sim_open [OF CBB_flush_sim doc_flush_length])
    fix s :: cbb and s' d assume rep: "cbb_rep s d" "cbb_on_base (\<lambda>b. cbb_buffer_add libc b (replicate n 0)) s = (True, s')"
    then obtain b where b: "cbb_buffer_add libc (cbb_base s) (replicate n 0) = (True, b)" "s' = s\<lparr>cbb_base := b\<rparr>"
      by (auto simp: cbb_on_base_True)
    then show "cbb_rep s' (doc_snoc d (replicate (prefix_len (Fixed n)) 0)) \<and> cbb_grows (cbb_base s) (cbb_base s')"
      using cbb_rep_snoc_appends [OF rep(1) ap b(1)] by simp
  next
    fix s :: cbb and d assume "cbb_rep s d" "cbb_room libc (cbb_base s) (length (doc_flat d) + prefix_len (Fixed n))"
    then have "fst (cbb_buffer_add libc (cbb_base s) (replicate n 0))"
      by (intro cbb_appends_progress [OF ap]) (simp_all add: cbb_rep_def)
    then show "fst (cbb_on_base (\<lambda>b. cbb_buffer_add libc b (replicate n 0)) s)"
      by (cases "cbb_buffer_add libc (cbb_base s) (replicate n 0)") (simp add: cbb_on_base_def)
  qed (use assms in auto)
  then show ?thesis
    unfolding doc_flush_open
    by (simp add: cbb_add_length_prefixed_def [abs_def] cbb_push_child_def [abs_def] cbb_child_of_def Let_def)
qed

section \<open>ASN.1 operations\<close>

lemma base128_len_loop_eq: "base128_len_loop v n = n + length (base128_hi (unat v))"
proof (induction v n rule: base128_len_loop.induct)
  case (1 v n)
  show ?case
  proof (cases "v = 0")
    case False
    then have "0 < unat v" "0 < v" by (simp_all add: unat_gt_0 word_greater_zero_iff)
    then show ?thesis
      using "1.IH" by (subst base128_len_loop.simps) (simp add: base128_hi_step [of "unat v"] unat_drop_bit)
  qed (simp add: base128_len_loop.simps)
qed

text \<open>The bytes that the loop of \<open>add_base128_integer\<close> emits from index \<open>n - 1\<close> down to 0.\<close>

fun base128_digits :: "nat \<Rightarrow> nat \<Rightarrow> bytes" where
  "base128_digits v 0 = []"
| "base128_digits v (Suc i) =
     word_of_nat ((if i = 0 then 0 else 128) + v div 128 ^ i mod 128) # base128_digits v i"

lemma base128_digits_hi: "length (base128_hi v) = n \<Longrightarrow>
  map (\<lambda>i. word_of_nat (128 + v div 128 ^ i mod 128)) (rev [0..<n]) = base128_hi v"
proof (induction n arbitrary: v)
  case (Suc n)
  have "0 < v" using Suc.prems by (cases "v = 0") auto
  then have hi: "base128_hi v = base128_hi (v div 128) @ [word_of_nat (128 + v mod 128)]"
    by (rule base128_hi_step)
  have "map (\<lambda>i. word_of_nat (128 + v div 128 ^ Suc i mod 128)) (rev [0..<n]) = base128_hi (v div 128)"
    using Suc.IH [of "v div 128"] Suc.prems hi by (simp add: div_mult2_eq)
  moreover have "rev [0..<Suc n] = map Suc (rev [0..<n]) @ [0]"
    by (simp add: rev_map [symmetric] map_Suc_upt upt_conv_Cons del: upt_Suc)
  ultimately show ?case by (simp add: hi comp_def del: upt_Suc)
qed simp

lemma base128_digits_eq:
  "base128_digits v n = (if n = 0 then [] else
     map (\<lambda>i. word_of_nat (128 + v div 128 ^ i mod 128)) (rev [1..<n]) @ [word_of_nat (v mod 128)])"
proof (induction n)
  case (Suc n)
  then show ?case by (cases n) auto
qed simp

lemma base128_digits_base128:
  "base128_digits v (if length (base128_hi v) = 0 then 1 else length (base128_hi v)) = base128 v"
proof (cases "v = 0")
  case True
  then show ?thesis by (simp add: base128_def)
next
  case False
  let ?m = "length (base128_hi (v div 128))"
  have l: "length (base128_hi v) = Suc ?m" using False by (simp add: base128_hi_step)
  have "map (\<lambda>i. word_of_nat (128 + v div 128 ^ i mod 128)) (rev [1..<Suc ?m]) =
      (map (\<lambda>i. word_of_nat (128 + v div 128 div 128 ^ i mod 128)) (rev [0..<?m]) :: bytes)"
    by (simp add: rev_map [symmetric] map_Suc_upt [symmetric] div_mult2_eq comp_def del: upt_Suc)
  also have "\<dots> = base128_hi (v div 128)" by (rule base128_digits_hi) simp
  finally show ?thesis by (simp add: l base128_digits_eq base128_def del: upt_Suc)
qed

lemma base128_digit_byte:
  "(let byte = ucast (drop_bit (7 * i) (v :: u64)) AND 0x7f :: byte in if i \<noteq> 0 then byte OR 0x80 else byte) =
     word_of_nat ((if i = 0 then 0 else 128) + unat v div 128 ^ i mod 128)"
proof -
  let ?b = "ucast (drop_bit (7 * i) v) :: byte"
  have p: "(2 :: nat) ^ (7 * i) = 128 ^ i" by (simp add: power_mult)
  have "unat ?b mod 128 = unat v div 128 ^ i mod 128"
    by (simp add: unat_ucast_down unat_drop_bit p mod_mod_cancel)
  then have b: "unat (?b AND 0x7f) = unat v div 128 ^ i mod 128" by (simp add: unat_and_7f)
  have "(?b AND 0x7f) OR 0x80 = word_of_nat (128 + unat (?b AND 0x7f))"
  proof -
    have "\<not> bit (?b AND 0x7f) n \<or> \<not> bit (0x80 :: byte) n" for n
      using bit_of_narrow [of "?b AND 0x7f" 7 n] b bit_exp_iff [where 'a = byte, of 7 n] by (cases "n < 7") auto
    then have "(?b AND 0x7f) OR 0x80 = (?b AND 0x7f) + 0x80"
      by (simp add: disjunctive_add)
    then show ?thesis by simp
  qed
  moreover have "?b AND 0x7f = word_of_nat (unat (?b AND 0x7f))" by simp
  ultimately show ?thesis unfolding Let_def b by (cases "i = 0") (simp_all del: of_nat_unat)
qed

lemma cbb_then_return: "cbb_then r (\<lambda>s. (True, s)) = r"
  by (cases r) (simp add: cbb_then_def)

lemma add_base128_loop_sim:
  "cbb_sim libc (add_base128_loop libc k v (Suc n)) (doc_add k (base128_digits (unat v) (Suc n)))"
proof (induction n)
  case 0
  have base: "add_base128_loop libc k v 0 = (\<lambda>s. (True, s))" by (simp add: fun_eq_iff)
  have "add_base128_loop libc k v (Suc 0) = CBB_add_u8 libc k (word_of_nat (unat v mod 128))"
    using base128_digit_byte [of 0 v] by (simp add: fun_eq_iff base cbb_then_return)
  then show ?case using CBB_add_u8_sim [of libc k "word_of_nat (unat v mod 128)"] by simp
next
  case (Suc i)
  let ?b = "word_of_nat (128 + unat v div 128 ^ Suc i mod 128) :: byte"
  have f: "add_base128_loop libc k v (Suc (Suc i)) =
      (\<lambda>s. cbb_then (CBB_add_u8 libc k ?b s) (add_base128_loop libc k v (Suc i)))"
    using base128_digit_byte [of "Suc i" v]
    by (simp add: fun_eq_iff Let_def del: add_base128_loop.simps(2) power_Suc)
      (simp add: Let_def add_base128_loop.simps(2) [of _ _ _ "Suc i"] del: add_base128_loop.simps(2))
  have e: "base128_digits (unat v) (Suc (Suc i)) = [?b] @ base128_digits (unat v) (Suc i)" by simp
  show ?case
    unfolding f e by (rule cbb_sim_then [OF CBB_add_u8_sim [of libc k ?b] Suc, unfolded doc_add_add])
qed

lemma add_base128_integer_sim:
  "cbb_sim libc (add_base128_integer libc k v) (doc_add k (base128 (unat v)))"
proof -
  let ?n = "length (base128_hi (unat v))"
  obtain m where m: "(if ?n = 0 then 1 else ?n) = Suc m" by (cases ?n) auto
  have "add_base128_integer libc k v = add_base128_loop libc k v (Suc m)"
    using m by (simp add: add_base128_integer_def [abs_def] base128_len_loop_eq Let_def)
  then show ?thesis
    using add_base128_loop_sim [of libc k v m] base128_digits_base128 [of "unat v"] unfolding m by simp
qed

lemma der_tag_bits: "ucast (tag AND CBS_ASN1_TAG_NUMBER_MASK) = (word_of_nat (unat (tag AND CBS_ASN1_TAG_NUMBER_MASK)) :: byte)"
  by (simp add: word_unat_eq_iff unat_ucast_down unat_of_nat)

lemma CBB_add_asn1_sim:
  "cbb_sim libc (CBB_add_asn1 libc k tag) (doc_seq (doc_add k (der_tag tag)) (doc_open k Der_Len))"
proof -
  let ?t = "ucast (drop_bit CBS_ASN1_TAG_SHIFT tag) AND 0xe0 :: byte"
  let ?n = "tag AND CBS_ASN1_TAG_NUMBER_MASK"
  let ?f = "\<lambda>s. if ?n \<ge> 0x1f then cbb_then (CBB_add_u8 libc k (?t OR 0x1f) s) (add_base128_integer libc k (ucast ?n))
      else CBB_add_u8 libc k (?t OR ucast ?n) s"
  have "cbb_sim libc ?f (doc_add k (der_tag tag))"
  proof (cases "?n \<ge> 0x1f")
    case True
    then have "31 \<le> unat ?n" by (simp add: word_le_nat_alt)
    then have t: "der_tag tag = [?t OR 0x1f] @ base128 (unat (ucast ?n :: u64))"
      by (simp add: der_tag_def CBS_ASN1_TAG_SHIFT_def unat_ucast_up)
    from True show ?thesis
      using cbb_sim_then [OF CBB_add_u8_sim add_base128_integer_sim, of libc k "?t OR 0x1f" k "ucast ?n"]
      unfolding doc_add_add t by simp
  next
    case False
    then have "\<not> 31 \<le> unat ?n" by (simp add: word_le_nat_alt)
    then have t: "der_tag tag = [?t OR ucast ?n]"
      unfolding der_tag_bits by (simp add: der_tag_def CBS_ASN1_TAG_SHIFT_def Let_def)
    from False show ?thesis using CBB_add_u8_sim [of libc k "?t OR ucast ?n"] unfolding t by simp
  qed
  from cbb_sim_then [OF CBB_flush_sim [of libc k] this]
  have f: "cbb_sim libc (\<lambda>s. cbb_then (CBB_flush libc k s) ?f) (doc_add k (der_tag tag))"
    unfolding doc_flush_add .
  have "cbb_sim libc
     (\<lambda>s. cbb_then (cbb_then (CBB_flush libc k s) ?f) (\<lambda>s1. cbb_then (CBB_add_u8 libc k 0 s1)
        (cbb_push_child k (length (cb_buf (cbb_base s1))) Der_Len)))
     (doc_seq (doc_add k (der_tag tag)) (doc_open k Der_Len))"
  proof (rule cbb_sim_open [OF f])
    show "length d = Suc k" if "doc_add k (der_tag tag) doc = Some d" for doc d
      using that doc_flush_length doc_flush_not_Nil by (fastforce simp: doc_add_Some_iff)
  next
    fix s :: cbb and s' d assume rep: "cbb_rep s d" "length d = Suc k" "CBB_add_u8 libc k 0 s = (True, s')"
    then show "cbb_rep s' (doc_snoc d (replicate (prefix_len Der_Len) 0)) \<and> cbb_grows (cbb_base s) (cbb_base s')"
      using cbb_sim_sound [OF CBB_add_u8_sim rep(1,3)] doc_flush_idem [OF rep(2)] by (auto simp: doc_add_def)
  next
    fix s :: cbb and d assume rep: "cbb_rep s d" "length d = Suc k" "\<not> cb_error (cbb_base s)"
      "cbb_room libc (cbb_base s) (length (doc_flat d) + prefix_len Der_Len)"
    have "d \<noteq> []" using rep(2) by auto
    then have "doc_add k [0] d = Some (doc_snoc d [0])" "length (doc_flat (doc_snoc d [0])) = length (doc_flat d) + prefix_len Der_Len"
      using doc_flush_idem [OF rep(2)] by (simp_all add: doc_add_def)
    then show "fst (CBB_add_u8 libc k 0 s)"
      using cbb_sim_progress [OF CBB_add_u8_sim rep(1) _ rep(3)] rep(4) by fastforce
  qed simp
  moreover have "CBB_add_asn1 libc k tag = (\<lambda>s. cbb_then (cbb_then (CBB_flush libc k s) ?f) (\<lambda>s1. cbb_then (CBB_add_u8 libc k 0 s1)
        (cbb_push_child k (length (cb_buf (cbb_base s1))) Der_Len)))"
    by (auto simp: fun_eq_iff CBB_add_asn1_def cbb_then_def cbb_push_child_def cbb_child_of_def Let_def split: prod.splits)
  ultimately show ?thesis by simp
qed

section \<open>Complete elements\<close>

lemma doc_element:
  "doc_seq (doc_seq (doc_add k t) (doc_open k p)) (doc_seq (doc_add (Suc k) x) (doc_flush k)) doc =
     (if prefix_fits p (length x) then doc_add k (t @ prefix_bytes p (length x) @ x) doc else None)"
proof (cases "doc_flush k doc")
  case None
  then show ?thesis by (simp add: doc_seq_def doc_add_def)
next
  case (Some d)
  have l: "length d = Suc k" "d \<noteq> []" using Some doc_flush_length doc_flush_not_Nil by blast+
  let ?e = "doc_snoc d t"
  have le: "length ?e = Suc k" using l by simp
  have o: "doc_open k p ?e = Some (?e @ [(p, [])])" using doc_flush_idem [OF le] by (simp add: doc_open_def)
  have "doc_flush (Suc k) (?e @ [(p, [])]) = Some (?e @ [(p, [])])"
    using doc_flush_idem [of "?e @ [(p, [])]" "Suc k"] le by simp
  moreover have "doc_flush k (?e @ [(p, x)]) =
      (if prefix_fits p (length x) then Some (doc_snoc ?e (prefix_bytes p (length x) @ x)) else None)"
    using le by (simp add: doc_flush_def)
  ultimately show ?thesis
    using Some o l by (simp add: doc_seq_def doc_add_def)
qed

lemma cbb_then_assoc: "cbb_then (cbb_then r f) g = cbb_then r (\<lambda>s. cbb_then (f s) g)"
  by (cases r) (simp add: cbb_then_def)

text \<open>An element: header, contents, flush.\<close>

lemma cbb_element_sim:
  assumes body: "cbb_sim libc g (doc_add (Suc k) x)" and x: "length x \<le> 0xfffffffe"
  shows "cbb_sim libc
    (\<lambda>s. cbb_then (CBB_add_asn1 libc k tag s) (\<lambda>s. cbb_then (g s) (CBB_flush libc k)))
    (doc_add k (der_element tag x))"
proof (rule cbb_sim_eq [OF cbb_sim_then [OF CBB_add_asn1_sim cbb_sim_then [OF body CBB_flush_sim]]])
  show "doc_seq (doc_seq (doc_add k (der_tag tag)) (doc_open k Der_Len)) (doc_seq (doc_add (Suc k) x) (doc_flush k)) doc =
      doc_add k (der_element tag x) doc" for doc
    using x by (simp add: doc_element der_element_def der_header_def)
qed

lemma CBB_add_asn1_octet_string_sim:
  "length x \<le> 0xfffffffe \<Longrightarrow>
     cbb_sim libc (CBB_add_asn1_octet_string libc k x) (doc_add k (der_element CBS_ASN1_OCTETSTRING x))"
  unfolding CBB_add_asn1_octet_string_def [abs_def] by (intro cbb_element_sim CBB_add_bytes_sim) simp_all

lemma CBB_add_asn1_bool_sim:
  "cbb_sim libc (CBB_add_asn1_bool libc k v)
     (doc_add k (der_element CBS_ASN1_BOOLEAN [if v \<noteq> 0 then 0xff else 0]))"
  unfolding CBB_add_asn1_bool_def [abs_def] by (intro cbb_element_sim CBB_add_u8_sim) simp

text \<open>A big-endian number of which the leading zero bytes are dropped, with a padding byte.\<close>

fun uint64_contents :: "nat \<Rightarrow> nat \<Rightarrow> bytes" where
  "uint64_contents v 0 = [0]"
| "uint64_contents v (Suc j) =
     (if v < 256 ^ j then uint64_contents v j
      else if 128 * 256 ^ j \<le> v then 0 # be_bytes (Suc j) v
      else be_bytes (Suc j) v)"

lemma le_bytes_snoc: "le_bytes (Suc n) v = le_bytes n v @ [word_of_nat (v div 256 ^ n)]"
  by (induction n arbitrary: v) (simp_all add: div_mult2_eq)

lemma be_bytes_Cons: "be_bytes (Suc n) v = word_of_nat (v div 256 ^ n) # be_bytes n v"
  unfolding be_bytes_def le_bytes_snoc by simp

lemma unat_uint64_byte:
  "unat (ucast (drop_bit (8 * j) (v :: u64) AND 0xff) :: byte) = unat v div 256 ^ j mod 256"
proof -
  have "drop_bit (8 * j) v AND 0xff = take_bit 8 (drop_bit (8 * j) v)"
    by (simp add: take_bit_eq_mask mask_eq_exp_minus_1)
  then have "ucast (drop_bit (8 * j) v AND 0xff) = (ucast (drop_bit (8 * j) v) :: byte)"
    by (intro bit_word_eqI) (simp add: bit_ucast_iff bit_take_bit_iff)
  then show ?thesis by (simp add: unat_ucast_down unat_drop_bit power_mult)
qed

lemma add_asn1_uint64_loop_started:
  "cbb_sim libc (add_asn1_uint64_loop libc k v (Suc j) True) (doc_add k (be_bytes (Suc j) (unat v)))"
proof (induction j)
  case 0
  have base: "add_asn1_uint64_loop libc k v 0 True = (\<lambda>s. (True, s))" by (simp add: fun_eq_iff)
  have "ucast (v AND 0xff) = (word_of_nat (unat v) :: byte)"
    using unat_uint64_byte [of 0 v] by (simp add: word_unat_eq_iff unat_of_nat del: of_nat_unat)
  then have "add_asn1_uint64_loop libc k v (Suc 0) True = CBB_add_u8 libc k (word_of_nat (unat v))"
    by (simp add: fun_eq_iff cbb_then_def cbb_then_return [unfolded cbb_then_def] base del: of_nat_unat)
  then show ?case using CBB_add_u8_sim [of libc k "word_of_nat (unat v)"] by (simp add: be_bytes_def)
next
  case (Suc j)
  let ?b = "word_of_nat (unat v div 256 ^ Suc j) :: byte"
  have b: "ucast (drop_bit (8 * Suc j) v AND 0xff) = ?b"
    using unat_uint64_byte [of "Suc j" v] by (simp only: word_unat_eq_iff unat_of_nat) simp
  have f: "add_asn1_uint64_loop libc k v (Suc (Suc j)) True =
      (\<lambda>s. cbb_then (CBB_add_u8 libc k ?b s) (add_asn1_uint64_loop libc k v (Suc j) True))"
    by (simp only: add_asn1_uint64_loop.simps(2) [of libc k v "Suc j"] b fun_eq_iff Let_def cbb_then_def) simp
  have e: "be_bytes (Suc (Suc j)) (unat v) = [?b] @ be_bytes (Suc j) (unat v)"
    unfolding be_bytes_Cons [of "Suc j"] by simp
  show ?case
    unfolding f e by (rule cbb_sim_then [OF CBB_add_u8_sim [of libc k ?b] Suc, unfolded doc_add_add])
qed

lemma add_asn1_uint64_loop_sim:
  "unat v < 256 ^ j \<Longrightarrow>
     cbb_sim libc (add_asn1_uint64_loop libc k v j False) (doc_add k (uint64_contents (unat v) j))"
proof (induction j)
  case 0
  have "add_asn1_uint64_loop libc k v 0 False = CBB_add_u8 libc k 0" by (simp add: fun_eq_iff)
  then show ?case using CBB_add_u8_sim [of libc k 0] by simp
next
  case (Suc j)
  let ?b = "ucast (drop_bit (8 * j) v AND 0xff) :: byte"
  have "unat v div 256 ^ j < 256" using Suc.prems by (simp add: less_mult_imp_div_less)
  then have b: "unat ?b = unat v div 256 ^ j" by (simp add: unat_uint64_byte)
  have zero: "?b = 0 \<longleftrightarrow> unat v < 256 ^ j" by (simp add: word_unat_eq_iff b div_eq_0_iff)
  have hi: "?b AND 0x80 \<noteq> 0 \<longleftrightarrow> 128 * 256 ^ j \<le> unat v"
    by (simp only: byte_high_bit b) (simp add: less_eq_div_iff_mult_less_eq)
  show ?case
  proof (cases "?b = 0")
    case True
    then have "add_asn1_uint64_loop libc k v (Suc j) False = add_asn1_uint64_loop libc k v j False"
      by (simp add: fun_eq_iff)
    with True show ?thesis using Suc.IH zero by simp
  next
    case False
    have st: "cbb_sim libc (\<lambda>s. cbb_then (CBB_add_u8 libc k ?b s) (add_asn1_uint64_loop libc k v j True))
        (doc_add k (be_bytes (Suc j) (unat v)))"
    proof -
      have "(\<lambda>s. cbb_then (CBB_add_u8 libc k ?b s) (add_asn1_uint64_loop libc k v j True)) =
          add_asn1_uint64_loop libc k v (Suc j) True"
        by (simp add: fun_eq_iff cbb_then_def)
      then show ?thesis using add_asn1_uint64_loop_started by simp
    qed
    show ?thesis
    proof (cases "?b AND 0x80 \<noteq> 0")
      case True
      then have "add_asn1_uint64_loop libc k v (Suc j) False =
          (\<lambda>s. cbb_then (CBB_add_u8 libc k 0 s) (\<lambda>s. cbb_then (CBB_add_u8 libc k ?b s) (add_asn1_uint64_loop libc k v j True)))"
        using False by (simp add: fun_eq_iff)
      with True False show ?thesis
        using cbb_sim_then [OF CBB_add_u8_sim [of libc k 0] st, unfolded doc_add_add] zero hi by simp
    next
      case low: False
      then have "add_asn1_uint64_loop libc k v (Suc j) False =
          (\<lambda>s. cbb_then (CBB_add_u8 libc k ?b s) (add_asn1_uint64_loop libc k v j True))"
        using False by (simp add: fun_eq_iff cbb_then_def)
      with low False show ?thesis using st zero hi by simp
    qed
  qed
qed

section \<open>Integers\<close>

lemma sval_be_bytes:
  "v < 256 ^ Suc n \<Longrightarrow> sval (be_bytes (Suc n) v) = int v - (if 128 * 256 ^ n \<le> v then 256 ^ Suc n else 0)"
proof -
  assume v: "v < 256 ^ Suc n"
  let ?b = "word_of_nat (v div 256 ^ n) :: byte"
  have "v div 256 ^ n < 256" using v by (simp add: less_mult_imp_div_less)
  then have "unat ?b = v div 256 ^ n" by (simp add: unat_of_nat)
  then have "128 \<le> uint ?b \<longleftrightarrow> 128 * 256 ^ n \<le> v"
    using high_byte_uint [of ?b] by (simp add: less_eq_div_iff_mult_less_eq)
  moreover have "be_val (be_bytes (Suc n) v) = v" using v by (simp add: be_val_be_bytes)
  moreover have "hd (be_bytes (Suc n) v) = ?b" "be_bytes (Suc n) v \<noteq> []" by (simp_all add: be_bytes_Cons)
  ultimately show ?thesis by (simp add: sval_def)
qed

lemma sval_0_Cons: "sval (0 # bs) = int (be_val bs)"
  by (simp add: sval_def be_val_Cons)

lemma der_int_sval:
  "(\<And>a b c. bs = a # b # c \<Longrightarrow> minimal_start a b) \<Longrightarrow> bs \<noteq> [] \<Longrightarrow> der_int (sval bs) = bs"
  by (cases bs rule: remdups_adj.cases) (auto simp: der_int_sval_single der_int_sval_long)

lemma uint64_contents_der: "v < 256 ^ j \<Longrightarrow> uint64_contents v j = der_int (int v)"
proof (induction j)
  case 0
  then show ?case by (simp add: der_int_small)
next
  case (Suc j)
  let ?b = "word_of_nat (v div 256 ^ j) :: byte"
  have "v div 256 ^ j < 256" using Suc.prems by (simp add: less_mult_imp_div_less)
  then have "unat ?b = v div 256 ^ j" by (simp add: unat_of_nat)
  then have b: "uint ?b = int (v div 256 ^ j)" by (metis uint_nat)
  have v: "be_val (be_bytes (Suc j) v) = v" using Suc.prems by (simp add: be_val_be_bytes)
  consider "v < 256 ^ j" | "\<not> v < 256 ^ j" "128 * 256 ^ j \<le> v" | "\<not> v < 256 ^ j" "\<not> 128 * 256 ^ j \<le> v" by blast
  then show ?case
  proof cases
    case 1
    then show ?thesis using Suc.IH by simp
  next
    case 2
    then have "128 \<le> v div 256 ^ j" by (simp add: less_eq_div_iff_mult_less_eq)
    then have "minimal_start 0 ?b" by (simp add: minimal_start_def b)
    then have "der_int (sval (0 # be_bytes (Suc j) v)) = 0 # be_bytes (Suc j) v"
      by (intro der_int_sval) (auto simp: be_bytes_Cons)
    with 2 v show ?thesis by (simp add: sval_0_Cons)
  next
    case 3
    then have "0 < v div 256 ^ j" "v div 256 ^ j < 128"
      by (simp_all add: div_greater_zero_iff less_mult_imp_div_less)
    then have "minimal_start ?b c" for c unfolding minimal_start_def b by simp
    then have "der_int (sval (be_bytes (Suc j) v)) = be_bytes (Suc j) v"
      by (intro der_int_sval) (auto simp: be_bytes_Cons)
    with 3 Suc.prems show ?thesis by (simp add: sval_be_bytes)
  qed
qed

lemma length_der_int_word: "- (2 ^ 63) \<le> i \<Longrightarrow> i < 2 ^ 64 \<Longrightarrow> length (der_int i) \<le> 0xfffffffe"
  using length_der_int_64 [of i] by simp

lemma CBB_add_asn1_uint64_sim:
  "cbb_sim libc (CBB_add_asn1_uint64 libc k v)
     (doc_add k (der_element CBS_ASN1_INTEGER (der_int (uint v))))"
proof -
  have v: "unat v < 256 ^ 8" using unat_u64_less [of v] by simp
  have "uint64_contents (unat v) 8 = der_int (uint v)"
    using uint64_contents_der [OF v] by simp
  then have "cbb_sim libc (add_asn1_uint64_loop libc (Suc k) v 8 False) (doc_add (Suc k) (der_int (uint v)))"
    using add_asn1_uint64_loop_sim [OF v] by simp
  moreover have "length (der_int (uint v)) \<le> 0xfffffffe"
    using uint_lt2p [of v] by (intro length_der_int_word order_trans [OF _ uint_ge_0 [of v]]) simp_all
  ultimately show ?thesis
    unfolding CBB_add_asn1_uint64_def [abs_def] by (rule cbb_element_sim)
qed

lemma add_bytes_down_sim:
  "i < length u \<Longrightarrow> cbb_sim libc (add_bytes_down libc k u (Suc i)) (doc_add k (rev (take (Suc i) u)))"
proof (induction i)
  case 0
  have base: "add_bytes_down libc k u 0 = (\<lambda>s. (True, s))" by (simp add: fun_eq_iff)
  have "add_bytes_down libc k u (Suc 0) = CBB_add_u8 libc k (u ! 0)"
    by (simp add: fun_eq_iff base cbb_then_return)
  then show ?case using CBB_add_u8_sim [of libc k "u ! 0"] 0 by (simp add: take_Suc_conv_app_nth)
next
  case (Suc i)
  have f: "add_bytes_down libc k u (Suc (Suc i)) =
      (\<lambda>s. cbb_then (CBB_add_u8 libc k (u ! Suc i) s) (add_bytes_down libc k u (Suc i)))"
    by (simp add: fun_eq_iff cbb_then_def)
  have e: "rev (take (Suc (Suc i)) u) = [u ! Suc i] @ rev (take (Suc i) u)"
    using Suc.prems by (simp add: take_Suc_conv_app_nth [of "Suc i"])
  have IH: "cbb_sim libc (add_bytes_down libc k u (Suc i)) (doc_add k (rev (take (Suc i) u)))"
    using Suc.prems by (intro Suc.IH) simp
  show ?case
    unfolding f e by (rule cbb_sim_then [OF CBB_add_u8_sim [of libc k] IH, unfolded doc_add_add])
qed

lemma sval_drop_ff: "uint a = 255 \<Longrightarrow> 128 \<le> uint b \<Longrightarrow> sval (a # b # c) = sval (b # c)"
  by (simp add: sval_def be_val_Cons [of a])

lemma asn1_int64_start_sval:
  "i < length u \<Longrightarrow> 128 \<le> uint (u ! i) \<Longrightarrow>
     asn1_int64_start u i \<le> i \<and>
     sval (rev (take (Suc (asn1_int64_start u i)) u)) = sval (rev (take (Suc i) u)) \<and>
     128 \<le> uint (u ! asn1_int64_start u i) \<and>
     (asn1_int64_start u i = 0 \<or>
      \<not> (uint (u ! asn1_int64_start u i) = 255 \<and> 128 \<le> uint (u ! (asn1_int64_start u i - 1))))"
proof (induction i)
  case (Suc i)
  have ff: "u ! Suc i = 0xff \<longleftrightarrow> uint (u ! Suc i) = 255" by (simp add: word_uint_eq_iff)
  show ?case
  proof (cases "u ! Suc i = 0xff \<and> u ! i AND 0x80 \<noteq> 0")
    case True
    then have i: "128 \<le> uint (u ! i)" by (simp add: high_bit_uint)
    have "rev (take (Suc (Suc i)) u) = u ! Suc i # u ! i # rev (take i u)" "rev (take (Suc i) u) = u ! i # rev (take i u)"
      using Suc.prems by (simp_all add: take_Suc_conv_app_nth)
    then have "sval (rev (take (Suc (Suc i)) u)) = sval (rev (take (Suc i) u))"
      using sval_drop_ff [of "u ! Suc i" "u ! i"] True ff i by simp
    with Suc.IH Suc.prems True i show ?thesis by simp
  next
    case False
    then have "asn1_int64_start u (Suc i) = Suc i" by auto
    with False Suc.prems ff high_bit_uint [of "u ! i"] show ?thesis by (simp del: asn1_int64_start.simps)
  qed
qed simp

lemma der_int_int64:
  assumes "- (2 ^ 63) \<le> v" "v < 0"
  shows "rev (take (Suc (asn1_int64_start (CRYPTO_store_u64_le (word_of_int v)) 7)) (CRYPTO_store_u64_le (word_of_int v))) = der_int v"
proof -
  let ?n = "nat (v + 2 ^ 64)"
  let ?u = "CRYPTO_store_u64_le (word_of_int v)"
  let ?r = "asn1_int64_start ?u 7"
  have "uint (word_of_int v :: u64) = v + 2 ^ 64"
    using assms mod_pos_pos_trivial [of "v + 2 ^ 64" "2 ^ 64"] by (simp add: uint_word_of_int)
  then have n: "unat (word_of_int v :: u64) = ?n" by (simp add: unat_eq_nat_uint)
  have u: "rev ?u = be_bytes (Suc 7) ?n" by (simp add: CRYPTO_store_u64_le_def n be_bytes_def)
  have sv: "sval (rev ?u) = v"
    unfolding u using assms by (subst sval_be_bytes) (simp_all add: nat_less_iff le_nat_iff)
  have ne: "rev ?u \<noteq> []" unfolding u be_bytes_Cons by simp
  have "hd (rev ?u) = ?u ! 7" by (simp add: hd_rev last_conv_nth CRYPTO_store_u64_le_def flip: length_greater_0_conv)
  then have h: "128 \<le> uint (?u ! 7)"
    using sval_negative [of "rev ?u"] sv assms(2) ne by simp
  have l: "length ?u = 8" by (simp add: CRYPTO_store_u64_le_def)
  note st = asn1_int64_start_sval [of 7 ?u, OF _ h]
  have r: "?r \<le> 7" using st l by simp
  have "der_int (sval (rev (take (Suc ?r) ?u))) = rev (take (Suc ?r) ?u)"
  proof (rule der_int_sval)
    fix a b c assume e: "rev (take (Suc ?r) ?u) = a # b # c"
    have t: "rev (take (Suc ?r) ?u) = ?u ! ?r # rev (take ?r ?u)"
      using r l by (simp add: take_Suc_conv_app_nth)
    with e have r0: "?r \<noteq> 0" by (cases "?r = 0") auto
    then obtain q where q: "?r = Suc q" by (cases ?r) auto
    have "rev (take ?r ?u) = ?u ! q # rev (take q ?u)"
      using r l by (simp add: q take_Suc_conv_app_nth)
    with t e have "a = ?u ! ?r" "b = ?u ! (?r - 1)" by (simp_all add: q)
    then show "minimal_start a b" using st l r0 by (auto simp: minimal_start_def)
  next
    show "rev (take (Suc ?r) ?u) \<noteq> []" using ne by simp
  qed
  moreover have "sval (rev (take (Suc ?r) ?u)) = v" using st l sv by simp
  ultimately show ?thesis by simp
qed

lemma CBB_add_asn1_int64_sim:
  assumes "- (2 ^ 63) \<le> v" "v < 2 ^ 63"
  shows "cbb_sim libc (CBB_add_asn1_int64 libc k v) (doc_add k (der_element CBS_ASN1_INTEGER (der_int v)))"
proof (cases "0 \<le> v")
  case True
  then have "uint (word_of_int v :: u64) = v" using assms by (simp add: uint_word_of_int)
  then show ?thesis
    using True CBB_add_asn1_uint64_sim [of libc k "word_of_int v"]
    by (simp add: CBB_add_asn1_int64_def [abs_def])
next
  case False
  let ?u = "CRYPTO_store_u64_le (word_of_int v)"
  let ?r = "asn1_int64_start ?u 7"
  have le: "asn1_int64_start u i \<le> i" for u i by (induction i) (auto simp: le_SucI)
  have "?r < length ?u" using le [of ?u 7] by (simp add: CRYPTO_store_u64_le_def)
  then have "cbb_sim libc (add_bytes_down libc (Suc k) ?u (Suc ?r)) (doc_add (Suc k) (der_int v))"
    using add_bytes_down_sim [of ?r ?u libc "Suc k"] der_int_int64 [of v] assms False by simp
  moreover have "length (der_int v) \<le> 0xfffffffe"
    using assms False by (intro length_der_int_word) simp_all
  ultimately have "cbb_sim libc (\<lambda>s. cbb_then (CBB_add_asn1 libc k CBS_ASN1_INTEGER s)
      (\<lambda>s. cbb_then (add_bytes_down libc (Suc k) ?u (Suc ?r) s) (CBB_flush libc k)))
    (doc_add k (der_element CBS_ASN1_INTEGER (der_int v)))"
    by (rule cbb_element_sim)
  then show ?thesis using False by (simp add: CBB_add_asn1_int64_def [abs_def] Let_def del: add_bytes_down.simps)
qed

end
