(* ===== verification/Cbb_Roundtrip.thy ===== *)
theory Cbb_Roundtrip
  imports Cbb_Spec
begin

text \<open>
  Complete messages: what \<open>CBB_init\<close>, a writing operation and \<open>CBB_finish\<close> produce, and that the
  readers of \<open>cbs.c\<close> read it back. \<open>cbb_message\<close> is the usual frame around a writer,
  \<open>if (!CBB_init(&cbb, cap) || !f(&cbb) || !CBB_finish(&cbb, &out, &out_len)) return 0;\<close>.
\<close>

definition cbb_message :: "(nat \<Rightarrow> bool) \<Rightarrow> nat \<Rightarrow> (cbb \<Rightarrow> bool \<times> cbb) \<Rightarrow> bytes option" where
  "cbb_message libc cap f =
     (case CBB_init libc cap of
        None \<Rightarrow> None
      | Some s \<Rightarrow>
          (case f s of
             (False, _) \<Rightarrow> None
           | (True, s') \<Rightarrow> fst (CBB_finish libc True True 0 s')))"

definition doc_empty :: cbb_doc where
  "doc_empty = [(Fixed 0, [])]"

lemma cbb_init_rep:
  assumes "cbb_init libc cap r = Some s"
  shows "cbb_rep s doc_empty" "\<not> cb_error (cbb_base s)" "cb_can_resize (cbb_base s) = r" "cb_cap (cbb_base s) = cap"
  using assms by (auto simp: cbb_init_def cbb_rep_def doc_empty_def split: if_splits)

lemma CBB_init_rep:
  assumes "CBB_init libc cap = Some s"
  shows "cbb_rep s doc_empty" "\<not> cb_error (cbb_base s)" "cb_can_resize (cbb_base s)"
  using assms cbb_init_rep [of libc cap True s] by (auto simp: CBB_init_def split: if_splits)

lemma CBB_finish_sound:
  assumes "cbb_rep s doc" "CBB_finish libc have_data have_len k s = (Some out, s')"
  shows "k = 0 \<and> (\<exists>d. doc_flush 0 doc = Some d \<and> out = doc_flat d)"
proof -
  obtain k: "k = 0" and f: "CBB_flush libc 0 s = (True, s')" and out: "out = cb_buf (cbb_base s')"
    using assms(2) by (auto simp: CBB_finish_def split: if_splits prod.splits bool.splits)
  show ?thesis
    using cbb_sim_sound [OF CBB_flush_sim assms(1) f] k out by (auto simp: cbb_rep_def)
qed

lemma cbb_message_sound:
  assumes "cbb_sim libc f a" "cbb_message libc cap f = Some out"
  shows "\<exists>d. doc_seq a (doc_flush 0) doc_empty = Some d \<and> out = doc_flat d"
proof -
  obtain s s' s'' where s: "CBB_init libc cap = Some s" and s': "f s = (True, s')"
    and fin: "CBB_finish libc True True 0 s' = (Some out, s'')"
    using assms(2)
    by (auto simp: cbb_message_def split: option.splits prod.splits bool.splits intro: prod.collapse [symmetric])
       (metis prod.collapse)
  from cbb_sim_sound [OF assms(1) CBB_init_rep(1) [OF s] s'] obtain d where
    d: "a doc_empty = Some d" "cbb_rep s' d" by blast
  with CBB_finish_sound [OF d(2) fin] show ?thesis by (auto simp: doc_seq_def)
qed

lemma cbb_message_progress:
  assumes sim: "cbb_sim libc f a" and d: "doc_seq a (doc_flush 0) doc_empty = Some d"
    and libc: "\<forall>m. libc m" and size: "length (doc_flat d) \<le> 2 ^ 62" and cap: "cap \<le> 2 ^ 62"
  shows "cbb_message libc cap f = Some (doc_flat d)"
proof -
  obtain s where s: "CBB_init libc cap = Some s"
    using libc cap by (auto simp: CBB_init_def cbb_init_def OPENSSL_malloc_def OPENSSL_MALLOC_PREFIX_def)
  note init = CBB_init_rep [OF s]
  obtain d1 where d1: "a doc_empty = Some d1" "doc_flush 0 d1 = Some d"
    using d by (auto simp: doc_seq_def bind_eq_Some_conv)
  have room: "cbb_room libc (cbb_base s) (length (doc_flat d))"
    using libc size init by (simp add: cbb_room_def)
  have "cbb_room libc (cbb_base s) (length (doc_flat d1))"
    using cbb_room_grows [OF room cbb_grows_refl doc_flush_grows [OF d1(2)]] .
  from cbb_sim_progress [OF sim init(1) d1(1) init(2) this] obtain s' where s': "f s = (True, s')" ..
  with cbb_sim_sound [OF sim init(1) s'] d1(1) have
    r1: "cbb_rep s' d1" and g: "cbb_grows (cbb_base s) (cbb_base s')" by auto
  have "\<not> cb_error (cbb_base s')" using g init(2) by (simp add: cbb_grows_def)
  from cbb_sim_progress [OF CBB_flush_sim r1 d1(2) this] cbb_room_grows [OF room g]
  obtain s2 where s2: "CBB_flush libc 0 s' = (True, s2)" by blast
  with cbb_sim_sound [OF CBB_flush_sim r1 s2] d1(2) have "cb_buf (cbb_base s2) = doc_flat d"
    by (auto simp: cbb_rep_def)
  then show ?thesis by (simp add: cbb_message_def s s' CBB_finish_def s2)
qed

lemma doc_add_empty: "doc_seq (doc_add 0 x) (doc_flush 0) doc_empty = Some [(Fixed 0, x)]"
  by (simp add: doc_add_flush doc_add_def doc_empty_def doc_flush_def doc_snoc_def)

text \<open>A message of one item: it is the item, and it is produced if memory can be had.\<close>

lemma cbb_message_item:
  assumes "cbb_sim libc f (doc_add 0 x)"
  shows "cbb_message libc cap f = Some out \<Longrightarrow> out = x"
    and "\<forall>m. libc m \<Longrightarrow> length x \<le> 2 ^ 62 \<Longrightarrow> cap \<le> 2 ^ 62 \<Longrightarrow> cbb_message libc cap f = Some x"
  using cbb_message_sound [OF assms] cbb_message_progress [OF assms doc_add_empty]
  by (simp_all add: doc_add_empty)

section \<open>Length-prefixed strings\<close>

definition cbb_put_prefixed :: "(nat \<Rightarrow> bool) \<Rightarrow> nat \<Rightarrow> nat \<Rightarrow> bytes \<Rightarrow> cbb \<Rightarrow> bool \<times> cbb" where
  "cbb_put_prefixed libc k n x s =
     cbb_then (cbb_add_length_prefixed libc k n s) (\<lambda>s.
       cbb_then (CBB_add_bytes libc (Suc k) x s) (CBB_flush libc k))"

text \<open>The same at the root, through one of the functions of the interface.\<close>

definition cbb_put_string ::
  "((nat \<Rightarrow> bool) \<Rightarrow> nat \<Rightarrow> cbb \<Rightarrow> bool \<times> cbb) \<Rightarrow> (nat \<Rightarrow> bool) \<Rightarrow> bytes \<Rightarrow> cbb \<Rightarrow> bool \<times> cbb" where
  "cbb_put_string add libc x s =
     cbb_then (add libc 0 s) (\<lambda>s. cbb_then (CBB_add_bytes libc 1 x s) (CBB_flush libc 0))"

lemma doc_open_add: "doc_seq (doc_add k []) (doc_open k p) = doc_open k p"
  by (simp add: doc_flush_open)

lemma cbb_put_prefixed_sim:
  assumes "0 < n" "n \<le> 8" "length x < 2 ^ 64"
  shows "cbb_sim libc (cbb_put_prefixed libc k n x)
    (\<lambda>doc. if length x < 256 ^ n then doc_add k (be_bytes n (length x) @ x) doc else None)"
proof -
  have "cbb_sim libc (cbb_put_prefixed libc k n x)
      (doc_seq (doc_open k (Fixed n)) (doc_seq (doc_add (Suc k) x) (doc_flush k)))"
    unfolding cbb_put_prefixed_def [abs_def]
    using cbb_sim_then [OF cbb_add_length_prefixed_sim [OF assms(1,2)]
        cbb_sim_then [OF CBB_add_bytes_sim [OF assms(3)] CBB_flush_sim], of libc k "Suc k" k] .
  then show ?thesis
    using doc_element [of k "[]" "Fixed n" x] by (elim cbb_sim_eq) (simp add: doc_open_add doc_flush_open)
qed

section \<open>Properties\<close>

text \<open>C2: the operations of \<open>cbb.c\<close> implement the writer of nested documents: whenever one returns 1,
  the buffer is the flattened document the abstract operation leads to, and whenever that document
  exists and fits (in the capacity, or in memory that can be had), the operation returns 1. Flushing
  closes all open children with their final length prefixes, moving the contents of an ASN.1 child
  when its length needs more than one byte.\<close>

theorem CBB_implements_documents:
  "cbb_sim libc (CBB_flush libc k) (doc_flush k) \<and>
   cbb_sim libc (CBB_add_u8 libc k b) (doc_add k [b]) \<and>
   cbb_sim libc (CBB_add_u32 libc k w) (doc_add k (be_bytes 4 (unat w))) \<and>
   cbb_sim libc (CBB_add_u16_length_prefixed libc k) (doc_open k (Fixed 2)) \<and>
   cbb_sim libc (CBB_add_asn1 libc k tag) (doc_seq (doc_add k (der_tag tag)) (doc_open k Der_Len)) \<and>
   cbb_sim libc (CBB_add_asn1_uint64 libc k v) (doc_add k (der_element CBS_ASN1_INTEGER (der_int (uint v))))"
proof -
  have "unat (ucast w :: u64) < 256 ^ 4" using unat_u32_less [of w] by (simp add: unat_ucast_up)
  then have "cbb_sim libc (CBB_add_u32 libc k w) (doc_add k (be_bytes 4 (unat w)))"
    using cbb_add_u_sim [of 4 "ucast w" libc k] by (simp add: CBB_add_u32_def [abs_def] unat_ucast_up)
  then show ?thesis
    using CBB_flush_sim CBB_add_u8_sim CBB_add_asn1_sim CBB_add_asn1_uint64_sim
      cbb_add_length_prefixed_sim [of 2 libc k]
    by (simp add: CBB_add_u16_length_prefixed_def [abs_def])
qed

text \<open>C3: an INTEGER written by \<open>CBB_add_asn1_int64\<close> is read back by \<open>CBS_get_asn1_int64\<close>, for every
  number of an \<open>int64_t\<close> and every initial capacity, when memory can be had.\<close>

theorem asn1_int64_roundtrip:
  assumes "- (2 ^ 63) \<le> v" "v < 2 ^ 63" "\<forall>m. libc m" "cap \<le> 2 ^ 62"
  shows "\<exists>out. cbb_message libc cap (CBB_add_asn1_int64 libc 0 v) = Some out \<and>
    CBS_get_asn1_int64 out = Some (v, [])"
proof -
  have "length (der_int v) \<le> 9" using assms(1,2) by (intro length_der_int_64) simp_all
  then have "length (der_element CBS_ASN1_INTEGER (der_int v)) \<le> 2 ^ 62"
    using length_der_tag [of CBS_ASN1_INTEGER] by (simp add: der_element_def der_header_def der_length_def)
  from cbb_message_item(2) [OF CBB_add_asn1_int64_sim [OF assms(1,2)] assms(3) this assms(4)]
  show ?thesis using int64_codec.get_enc_Nil [of v] assms(1,2) by blast
qed

theorem asn1_int64_roundtrip_witness:
  "\<exists>out. cbb_message (\<lambda>_. True) 0 (CBB_add_asn1_int64 (\<lambda>_. True) 0 (- 129)) = Some out \<and>
    CBS_get_asn1_int64 out = Some (- 129, [])"
  using asn1_int64_roundtrip [of "- 129" "\<lambda>_. True" 0] by simp

text \<open>C29: a string that is written with a length prefix of one, two or three bytes, by \<open>CBB_add_u8_length_prefixed\<close>,
  \<open>CBB_add_u16_length_prefixed\<close> or \<open>CBB_add_u24_length_prefixed\<close>, is read back by the function of \<open>cbs.c\<close> of the same
  size, whatever follows it, and the writer fails exactly when the length does not fit the prefix.\<close>

theorem length_prefixed_roundtrip:
  assumes "(n, add, get) \<in> {(1, CBB_add_u8_length_prefixed, CBS_get_u8_length_prefixed),
      (2, CBB_add_u16_length_prefixed, CBS_get_u16_length_prefixed), (3, CBB_add_u24_length_prefixed, CBS_get_u24_length_prefixed)}"
    and "length x \<le> 2 ^ 61" "\<forall>m. libc m" "cap \<le> 2 ^ 62"
  shows "case cbb_message libc cap (cbb_put_string add libc x) of
      None \<Rightarrow> 256 ^ n \<le> length x
    | Some out \<Rightarrow> length x < 256 ^ n \<and> out = be_bytes n (length x) @ x \<and> get (out @ rest) = Some (x, rest)"
proof -
  have a: "cbb_put_string add libc x = cbb_put_prefixed libc 0 n x" and n: "0 < n" "n \<le> 3"
    using assms(1)
    by (auto simp: cbb_put_string_def cbb_put_prefixed_def fun_eq_iff CBB_add_u8_length_prefixed_def
        CBB_add_u16_length_prefixed_def CBB_add_u24_length_prefixed_def)
  have g: "get cbs = cbs_get_length_prefixed cbs n" for cbs
    using assms(1)
    by (auto simp: CBS_get_u8_length_prefixed_def CBS_get_u16_length_prefixed_def CBS_get_u24_length_prefixed_def)
  show ?thesis
  proof (cases "length x < 256 ^ n")
    case True
    have "cbb_sim libc (cbb_put_prefixed libc 0 n x) (doc_add 0 (be_bytes n (length x) @ x))"
      using cbb_put_prefixed_sim [of n x libc 0] assms(2) n True by simp
    from cbb_message_item(2) [OF this assms(3) _ assms(4)] assms(2) n
    have "cbb_message libc cap (cbb_put_prefixed libc 0 n x) = Some (be_bytes n (length x) @ x)" by simp
    moreover have "cbs_get_length_prefixed ((be_bytes n (length x) @ x) @ rest) n = Some (x, rest)"
      using True by (simp add: cbs_get_length_prefixed_iff [OF n(2)])
    ultimately show ?thesis using True by (simp add: a g)
  next
    case False
    have "cbb_sim libc (cbb_put_prefixed libc 0 n x) (\<lambda>_. None)"
      using cbb_put_prefixed_sim [of n x libc 0] assms(2) n False by simp
    from cbb_message_sound [OF this] have "cbb_message libc cap (cbb_put_prefixed libc 0 n x) = None"
      by (cases "cbb_message libc cap (cbb_put_prefixed libc 0 n x)") (auto simp: doc_seq_def)
    then show ?thesis using False by (simp add: a)
  qed
qed

text \<open>Three bytes behind a prefix of two.\<close>

theorem length_prefixed_roundtrip_witness:
  "\<exists>out. cbb_message (\<lambda>_. True) 1 (cbb_put_string CBB_add_u16_length_prefixed (\<lambda>_. True) [7, 8, 9]) = Some out \<and>
    CBS_get_u16_length_prefixed (out @ [4]) = Some ([7, 8, 9], [4])"
  using length_prefixed_roundtrip [of 2 CBB_add_u16_length_prefixed CBS_get_u16_length_prefixed "[7, 8, 9]" "\<lambda>_. True" 1 "[4]"]
  by (auto split: option.splits)

end
