(* ===== verification/Cbb_Set.thy ===== *)
theory Cbb_Set
  imports Cbb_Roundtrip "HOL-Library.Multiset" "HOL-Library.List_Lexorder" Qsort
begin

text \<open>
  \<open>CBB_flush_asn1_set_of\<close> of \<open>cbb.c\<close>: the elements of a SET OF are sorted by their encodings.

  \<open>qsort\<close> is a function of the C library; the model takes it as a parameter, with the documented
  behaviour as the hypothesis \<open>qsort_sorts\<close>: the result is a permutation of the input in which no
  element compares greater than a later one.
\<close>

definition compare_set_of_element :: "bytes \<Rightarrow> bytes \<Rightarrow> int" where
  "compare_set_of_element a b =
     (let a_len = CBS_len a; b_len = CBS_len b;
          min_len = (if a_len < b_len then a_len else b_len);
          ret = mem_cmp (take min_len a) (take min_len b)
      in if ret \<noteq> 0 then ret
         else if a_len = b_len then 0
         else if a_len < b_len then - 1 else 1)"

fun cbb_add_all :: "(nat \<Rightarrow> bool) \<Rightarrow> nat \<Rightarrow> bytes list \<Rightarrow> cbb \<Rightarrow> bool \<times> cbb" where
  "cbb_add_all libc k [] s = (True, s)"
| "cbb_add_all libc k (x # xs) s = cbb_then (CBB_add_bytes libc k x s) (cbb_add_all libc k xs)"

text \<open>\<open>sizeof(CBS)\<close> is 16. Both passes over the contents read the same elements.\<close>

definition CBB_flush_asn1_set_of ::
    "(nat \<Rightarrow> bool) \<Rightarrow> ((bytes \<Rightarrow> bytes \<Rightarrow> int) \<Rightarrow> bytes list \<Rightarrow> bytes list) \<Rightarrow> nat \<Rightarrow> cbb \<Rightarrow> bool \<times> cbb" where
  "CBB_flush_asn1_set_of libc qsort k s =
     cbb_then (CBB_flush libc k s) (\<lambda>s.
       case get_all CBS_get_any_asn1_element (CBS_init (CBB_data k s) (CBB_len k s)) of
         None \<Rightarrow> (False, s)
       | Some els \<Rightarrow>
           (let num_children = length els
            in if num_children < 2 then (True, s)
               else if num_children > (2 ^ 64 - 1) div 16 then (False, s)
               else
                 case OPENSSL_memdup libc (CBB_data k s) of
                   None \<Rightarrow> (False, s)
                 | Some buf \<Rightarrow>
                     if \<not> OPENSSL_malloc libc (num_children * 16) then (False, s)
                     else
                       case get_all CBS_get_any_asn1_element (CBS_init buf (CBB_len k s)) of
                         None \<Rightarrow> (False, s)
                       | Some els' \<Rightarrow>
                           let children = qsort compare_set_of_element (map el_out els')
                           in cbb_add_all libc k children
                                (s\<lparr>cbb_base := (cbb_base s)\<lparr>cb_buf := take (cbb_own_start k s) (cb_buf (cbb_base s))\<rparr>\<rparr>)))"

section \<open>The comparison\<close>

lemma mem_cmp_le:
  "length a = length b \<Longrightarrow> mem_cmp a b \<le> 0 \<longleftrightarrow> a \<le> b"
  by (induction a b rule: mem_cmp.induct) auto

lemma lex_take:
  "length a = length b \<Longrightarrow> a \<noteq> b \<Longrightarrow> a @ x \<le> b @ y \<longleftrightarrow> a \<le> (b :: bytes)"
  by (induction a b rule: list_induct2) auto

lemma compare_set_of_element_le: "compare_set_of_element a b \<le> 0 \<longleftrightarrow> a \<le> b"
proof -
  let ?n = "min (length a) (length b)"
  have n: "(if length a < length b then length a else length b) = ?n" by simp
  have l: "length (take ?n a) = length (take ?n b)" by simp
  show ?thesis
  proof (cases "take ?n a = take ?n b")
    case False
    then have "a \<le> b \<longleftrightarrow> take ?n a \<le> take ?n b"
      using lex_take [OF l False, of "drop ?n a" "drop ?n b"] by simp
    then show ?thesis
      using mem_cmp_le [OF l] mem_cmp_eq_0 [OF l] False by (simp add: compare_set_of_element_def CBS_len_def Let_def n)
  next
    case True
    then have m: "mem_cmp (take ?n a) (take ?n b) = 0" using mem_cmp_eq_0 [OF l] by simp
    have "\<exists>x. a = b @ x \<or> b = a @ x"
      using True append_take_drop_id [of ?n a] append_take_drop_id [of ?n b]
      by (cases "length a \<le> length b") (metis min_def take_all nle_le)+
    then have "a \<le> b \<longleftrightarrow> length a \<le> length b"
    proof (elim exE disjE)
      have nil: "u @ x \<le> u \<longleftrightarrow> x = []" for u x :: bytes by (induction u) auto
      have le: "u \<le> u @ x" for u x :: bytes by (induction u) auto
      show "a \<le> b \<longleftrightarrow> length a \<le> length b" if "a = b @ x" for x using nil [of b x] that by auto
      show "a \<le> b \<longleftrightarrow> length a \<le> length b" if "b = a @ x" for x using le [of a x] that by auto
    qed
    then show ?thesis by (simp add: compare_set_of_element_def CBS_len_def Let_def n m)
  qed
qed

lemma qsort_set_of:
  assumes "qsort_sorts qsort"
  shows "qsort compare_set_of_element xs = sort xs"
proof -
  have "(\<forall>a b c. compare_set_of_element a b \<le> 0 \<longrightarrow> compare_set_of_element b c \<le> 0 \<longrightarrow> compare_set_of_element a c \<le> 0)"
    "(\<forall>a b. compare_set_of_element a b \<le> 0 \<or> compare_set_of_element b a \<le> 0)"
    unfolding compare_set_of_element_le using order_trans linear by blast+
  then have "mset (qsort compare_set_of_element xs) = mset xs \<and>
      sorted_wrt (\<lambda>a b. compare_set_of_element a b \<le> 0) (qsort compare_set_of_element xs)"
    using assms unfolding qsort_sorts_def by blast
  then show ?thesis
    unfolding compare_set_of_element_le by (intro properties_for_sort [symmetric]) simp_all
qed

section \<open>The effect of the flush\<close>

definition is_der_element :: "bytes \<Rightarrow> bool" where
  "is_der_element x \<longleftrightarrow> (\<exists>t c. length c < 2 ^ 32 \<and> x = der_element t c)"

interpretation raw_element: item_codec CBS_get_any_asn1_element el_out
    "\<lambda>el. \<exists>t c. length c < 2 ^ 32 \<and> el = der_parsed t c"
proof
  show "CBS_get_any_asn1_element bs = Some (x, r) \<longleftrightarrow>
      (\<exists>t c. length c < 2 ^ 32 \<and> x = der_parsed t c) \<and> bs = el_out x @ r" for bs x r
    unfolding CBS_get_any_asn1_element_def get_element_iff by (metis der_parsed_sel(1))
qed auto

lemma all_elements_iff:
  "(\<exists>els. get_all CBS_get_any_asn1_element x = Some els \<and> map el_out els = es) \<longleftrightarrow>
     list_all is_der_element es \<and> x = concat es" (is "?L \<longleftrightarrow> ?R")
proof
  show "?L \<Longrightarrow> ?R"
    by (auto simp: raw_element.get_all_iff list_all_iff is_der_element_def) (metis der_parsed_sel(1))
  assume r: ?R
  define f where "f = (\<lambda>x. SOME el. (\<exists>t c. length c < 2 ^ 32 \<and> el = der_parsed t c) \<and> el_out el = x)"
  have f: "(\<exists>t c. length c < 2 ^ 32 \<and> f x = der_parsed t c) \<and> el_out (f x) = x" if "is_der_element x" for x
    unfolding f_def by (rule someI_ex) (use that in \<open>unfold is_der_element_def, metis der_parsed_sel(1)\<close>)
  have "map el_out (map f es) = es" using r f by (auto simp: list_all_iff intro: map_idI)
  moreover have "list_all (\<lambda>el. \<exists>t c. length c < 2 ^ 32 \<and> el = der_parsed t c) (map f es)"
    using r f by (auto simp: list_all_iff)
  ultimately show ?L using r raw_element.get_all_complete by fastforce
qed

lemma cbb_add_all_sim:
  "xs \<noteq> [] \<Longrightarrow> list_all (\<lambda>x. length x < 2 ^ 64) xs \<Longrightarrow>
     cbb_sim libc (cbb_add_all libc k xs) (doc_add k (concat xs))"
proof (induction xs)
  case (Cons x xs)
  have f: "cbb_add_all libc k (x # xs) = (\<lambda>s. cbb_then (CBB_add_bytes libc k x s) (cbb_add_all libc k xs))"
    by (simp add: fun_eq_iff)
  have sx: "cbb_sim libc (CBB_add_bytes libc k x) (doc_add k x)" using Cons.prems by (intro CBB_add_bytes_sim) simp
  show ?case
  proof (cases "xs = []")
    case True
    have base: "cbb_add_all libc k [] = (\<lambda>s. (True, s))" by (simp add: fun_eq_iff)
    show ?thesis unfolding f unfolding True base cbb_then_return using sx by simp
  next
    case False
    with Cons have "cbb_sim libc (cbb_add_all libc k xs) (doc_add k (concat xs))" by simp
    from cbb_sim_then [OF sx this] show ?thesis unfolding f doc_add_add by simp
  qed
qed simp

lemma cbb_own_start_rep:
  assumes "cbb_rep s d" "length d = Suc k"
  shows "cbb_own_start k s = length (doc_flat (butlast d)) + prefix_len (fst (last d))"
proof -
  obtain e p c where d: "d = e @ [(p, c)]" using assms(2) by (cases d rule: rev_cases) auto
  have l: "length e = k" using assms(2) by (simp add: d)
  show ?thesis
  proof (cases k)
    case 0
    then show ?thesis using assms(1) l by (simp add: d cbb_own_start_def cbb_rep_def)
  next
    case (Suc j)
    have "cbb_children s = tl (doc_layout 0 e @ [cbb_child_of (length (doc_flat e)) p])"
      using assms(1) by (simp add: d cbb_rep_def doc_layout_append cbb_child_of_def)
    moreover have "doc_layout 0 e \<noteq> []" using l Suc by (metis length_doc_layout list.size(3) nat.distinct(1))
    ultimately have "cbb_children s ! (k - 1) = cbb_child_of (length (doc_flat e)) p"
      using l Suc by (simp add: nth_append)
    then show ?thesis using Suc by (simp add: d cbb_own_start_def)
  qed
qed

lemma cbb_contents_rep:
  assumes "cbb_rep s d" "length d = Suc k"
  shows "CBB_data k s = snd (last d)" "CBB_len k s = length (snd (last d))"
    "take (cbb_own_start k s) (cb_buf (cbb_base s)) = doc_flat (butlast d @ [(fst (last d), [])])"
proof -
  obtain e p c where d: "d = e @ [(p, c)]" using assms(2) by (cases d rule: rev_cases) auto
  show "CBB_data k s = snd (last d)" "CBB_len k s = length (snd (last d))"
    "take (cbb_own_start k s) (cb_buf (cbb_base s)) = doc_flat (butlast d @ [(fst (last d), [])])"
    using assms(1) by (simp_all add: CBB_data_def CBB_len_def cbb_own_start_rep [OF assms] cbb_rep_def d)
qed

lemma cbb_rep_rewind:
  assumes "cbb_rep s d" "length d = Suc k"
  shows "cbb_rep (s\<lparr>cbb_base := (cbb_base s)\<lparr>cb_buf := take (cbb_own_start k s) (cb_buf (cbb_base s))\<rparr>\<rparr>)
    (butlast d @ [(fst (last d), [])])"
proof -
  obtain e p c where d: "d = e @ [(p, c)]" using assms(2) by (cases d rule: rev_cases) auto
  have "doc_snoc (e @ [(p, [])]) c = d" by (simp add: d)
  then have "fst (hd (e @ [(p, [])])) = fst (hd d)" "doc_ok (tl (e @ [(p, [])])) = doc_ok (tl d)"
    "doc_layout 0 (e @ [(p, [])]) = doc_layout 0 d"
    using hd_doc_snoc [of "e @ [(p, [])]" c] doc_ok_tl_snoc [of "e @ [(p, [])]" c] doc_layout_snoc [of "e @ [(p, [])]" 0 c]
    by simp_all
  then show ?thesis
    using assms(1) cbb_contents_rep(3) [OF assms] by (simp add: cbb_rep_def d)
qed

lemma der_element_length: "is_der_element x \<Longrightarrow> 2 \<le> length x"
proof -
  have "0 < length (der_tag t)" "0 < length (der_length n)" for t n
    using der_tag_not_Nil [of t] by (simp_all add: der_length_def del: der_tag_not_Nil)
  then have "2 \<le> length (der_tag t) + length (der_length n)" for t n
    by (metis Suc_leI add_mono one_add_one One_nat_def)
  then show "is_der_element x \<Longrightarrow> 2 \<le> length x"
    by (auto simp: is_der_element_def der_element_def der_header_def simp flip: add.assoc) (metis trans_le_add1)
qed

lemma length_concat_der: "list_all is_der_element es \<Longrightarrow> 2 * length es \<le> length (concat es)"
  by (induction es) (auto dest: der_element_length)

lemma length_in_concat: "x \<in> set es \<Longrightarrow> length x \<le> length (concat es)"
  by (induction es) auto

lemma sort_short: "length es < 2 \<Longrightarrow> sort es = es"
  by (cases es rule: remdups_adj.cases) auto

text \<open>From the flushed state on, the contents being DER elements.\<close>

lemma set_of_rewrite:
  assumes rep: "cbb_rep s d" and l: "length d = Suc k" and c: "snd (last d) = concat es"
    and es: "list_all is_der_element es" "\<not> length es < 2" and q: "qsort_sorts qsort"
    and e: "\<not> cb_error (cbb_base s)" and libc: "\<forall>m. libc m" and size: "length (doc_flat d) \<le> 2 ^ 59"
    and room: "cbb_room libc (cbb_base s) (length (doc_flat d))"
  shows "\<exists>s'. cbb_add_all libc k (sort es)
      (s\<lparr>cbb_base := (cbb_base s)\<lparr>cb_buf := take (cbb_own_start k s) (cb_buf (cbb_base s))\<rparr>\<rparr>) = (True, s') \<and>
    cbb_rep s' (butlast d @ [(fst (last d), concat (sort es))])"
proof -
  let ?d0 = "butlast d @ [(fst (last d), [])]"
  let ?s0 = "s\<lparr>cbb_base := (cbb_base s)\<lparr>cb_buf := take (cbb_own_start k s) (cb_buf (cbb_base s))\<rparr>\<rparr>"
  have dd: "d = butlast d @ [(fst (last d), concat es)]" using l c by (cases d rule: rev_cases) auto
  have "length (concat es) \<le> length (doc_flat d)" by (subst dd) simp
  then have small: "length (concat es) < 2 ^ 64" using size by simp
  then have "length x < 2 ^ 64" if "x \<in> set es" for x using length_in_concat [OF that] by simp
  then have sx: "list_all (\<lambda>x. length x < 2 ^ 64) (sort es)" by (simp add: list_all_iff)
  have "sort es \<noteq> []" using es(2) by (metis length_sort list.size(3) zero_less_numeral)
  from cbb_add_all_sim [OF this sx, of libc k]
  have sim: "cbb_sim libc (cbb_add_all libc k (sort es)) (doc_add k (concat (sort es)))" .
  have r0: "cbb_rep ?s0 ?d0" by (rule cbb_rep_rewind [OF rep l])
  have l0: "length ?d0 = Suc k" using l by simp
  have add: "doc_add k (concat (sort es)) ?d0 = Some (butlast d @ [(fst (last d), concat (sort es))])"
    using doc_flush_idem [OF l0] by (simp add: doc_add_def)
  have "length (concat (sort es)) = length (concat es)"
    by (simp add: length_concat) (metis mset_map mset_sort sum_mset_sum_list)
  then have "length (doc_flat (butlast d @ [(fst (last d), concat (sort es))])) =
      length (doc_flat (butlast d @ [(fst (last d), concat es)]))" by simp
  also have "\<dots> = length (doc_flat d)" using arg_cong [OF dd [symmetric], of "\<lambda>d. length (doc_flat d)"] .
  finally have "length (doc_flat (butlast d @ [(fst (last d), concat (sort es))])) = length (doc_flat d)" .
  with cbb_sim_progress [OF sim r0 add] e room cbb_sim_sound [OF sim r0] add show ?thesis
    by (auto simp: cbb_room_def)
qed

section \<open>Properties\<close>

text \<open>C21: \<open>CBB_flush_asn1_set_of\<close> closes the open children; it then returns 1 exactly when the contents
  are a sequence of DER elements, and the contents it leaves are the same elements sorted by their
  encodings, as the distinguished encoding of a SET OF requires. \<open>qsort\<close> is any function that sorts,
  memory can be had and the document fits.\<close>

theorem CBB_flush_asn1_set_of_sorts:
  assumes "qsort_sorts qsort" "\<forall>m. libc m" "cbb_rep s doc" "\<not> cb_error (cbb_base s)"
    and "doc_flush k doc = Some d" "length (doc_flat d) \<le> 2 ^ 59" "cbb_room libc (cbb_base s) (length (doc_flat d))"
  shows "case CBB_flush_asn1_set_of libc qsort k s of
      (True, s') \<Rightarrow> \<exists>es. list_all is_der_element es \<and> snd (last d) = concat es \<and>
         cbb_rep s' (butlast d @ [(fst (last d), concat (sort es))])
    | (False, s') \<Rightarrow> \<not> (\<exists>es. list_all is_der_element es \<and> snd (last d) = concat es)"
proof -
  obtain s1 where s1: "CBB_flush libc k s = (True, s1)"
    using cbb_sim_progress [OF CBB_flush_sim assms(3,5,4,7)] ..
  with cbb_sim_sound [OF CBB_flush_sim assms(3) s1] assms(4,5)
  have r: "cbb_rep s1 d" and g: "cbb_grows (cbb_base s) (cbb_base s1)" by auto
  have l: "length d = Suc k" using doc_flush_length assms(5) .
  have e1: "\<not> cb_error (cbb_base s1)" using g assms(4) by (simp add: cbb_grows_def)
  have room: "cbb_room libc (cbb_base s1) (length (doc_flat d))" using cbb_room_grows [OF assms(7) g] by simp
  have init: "CBS_init x (length x) = x" for x by (simp add: CBS_init_def)
  note c = cbb_contents_rep [OF r l]
  show ?thesis
  proof (cases "get_all CBS_get_any_asn1_element (snd (last d))")
    case None
    then have "\<not> (\<exists>es. list_all is_der_element es \<and> snd (last d) = concat es)"
      using all_elements_iff [of "snd (last d)"] by auto
    with None show ?thesis by (simp add: CBB_flush_asn1_set_of_def s1 cbb_then_def c init)
  next
    case (Some els)
    let ?es = "map el_out els"
    have es: "list_all is_der_element ?es" "snd (last d) = concat ?es"
      using all_elements_iff [of "snd (last d)" ?es] Some by auto
    have "length (snd (last d)) \<le> length (doc_flat d)" using l by (cases d rule: rev_cases) auto
    then have sz: "2 * length els \<le> 2 ^ 59" "length (concat ?es) \<le> 2 ^ 59"
      using length_concat_der [OF es(1)] es(2) assms(6) by simp_all
    show ?thesis
    proof (cases "length els < 2")
      case True
      then have "sort ?es = ?es" by (intro sort_short) simp
      moreover have "d = butlast d @ [(fst (last d), concat ?es)]" using es(2) l by (cases d rule: rev_cases) auto
      ultimately show ?thesis
        using True Some es r by (auto simp: CBB_flush_asn1_set_of_def s1 cbb_then_def c init intro!: exI [of _ ?es])
    next
      case False
      then have n2: "\<not> length ?es < 2" by simp
      have ne: "length (snd (last d)) \<noteq> 0" unfolding es(2) using length_concat_der [OF es(1)] n2 by linarith
      have m: "OPENSSL_memdup libc (snd (last d)) = Some (snd (last d))" "OPENSSL_malloc libc (length els * 16)"
        using sz es(2) ne assms(2) by (auto simp: OPENSSL_memdup_def OPENSSL_malloc_def OPENSSL_MALLOC_PREFIX_def)
      obtain s' where "cbb_add_all libc k (sort ?es)
          (s1\<lparr>cbb_base := (cbb_base s1)\<lparr>cb_buf := take (cbb_own_start k s1) (cb_buf (cbb_base s1))\<rparr>\<rparr>) = (True, s')"
        "cbb_rep s' (butlast d @ [(fst (last d), concat (sort ?es))])"
        using set_of_rewrite [OF r l es(2,1) n2 assms(1) e1 assms(2,6) room] by blast
      then show ?thesis
        using False Some es m sz qsort_set_of [OF assms(1), of ?es]
        by (auto simp: CBB_flush_asn1_set_of_def s1 cbb_then_def c init Let_def)
    qed
  qed
qed

theorem CBB_flush_asn1_set_of_sorts_witness:
  "case CBB_flush_asn1_set_of (\<lambda>_. True) sort_cmp 0
       \<lparr>cbb_base = \<lparr>cb_buf = [5, 0, 1, 1, 0xff], cb_cap = 16, cb_can_resize = False, cb_error = False\<rparr>,
        cbb_children = []\<rparr> of
      (True, s') \<Rightarrow> \<exists>es. list_all is_der_element es \<and> [5, 0, 1, 1, 0xff] = concat es \<and>
         cbb_rep s' [(Fixed 0, concat (sort es))]
    | (False, s') \<Rightarrow> \<not> (\<exists>es. list_all is_der_element es \<and> [5, 0, 1, 1, 0xff] = concat es)"
  using CBB_flush_asn1_set_of_sorts [OF sort_cmp_sorts, of "\<lambda>_. True"
      "\<lparr>cbb_base = \<lparr>cb_buf = [5, 0, 1, 1, 0xff], cb_cap = 16, cb_can_resize = False, cb_error = False\<rparr>,
        cbb_children = []\<rparr>" "[(Fixed 0, [5, 0, 1, 1, 0xff])]" 0 "[(Fixed 0, [5, 0, 1, 1, 0xff])]"]
  unfolding last_ConsL [OF refl] butlast.simps(2) if_P [OF refl] snd_conv fst_conv append_Nil
  by (simp add: cbb_rep_def doc_flush_def doc_snoc_def cbb_room_def)

section \<open>Errors\<close>

lemma cbb_buffer_reserve_fails: "cbb_buffer_reserve libc b n = (False, b') \<Longrightarrow> cb_error b' \<and> cb_buf b' = cb_buf b"
  by (auto simp: cbb_buffer_reserve_def cbb_fail_def Let_def split: if_splits option.splits)

lemma CBB_flush_error:
  assumes "cb_error (cbb_base s)"
  shows "CBB_flush libc k s = (False, s)"
proof (cases "drop k (cbb_children s)")
  case Nil
  then show ?thesis using assms by (cases s) (auto simp: CBB_flush_def)
next
  case (Cons c cs)
  then show ?thesis
    using assms append_take_drop_id [of k "cbb_children s"] by (cases s) (auto simp: CBB_flush_def)
qed

text \<open>C30: errors are sticky. A reservation that fails (overflow, a full fixed buffer, no memory) sets the error flag and
  leaves the bytes alone, and so does a number or length that does not fit. While the flag is set, each operation that
  writes, reserves, opens a child, flushes or finishes returns 0 and changes nothing, at any depth. The two remaining
  operations, \<open>CBB_did_write\<close> and \<open>CBB_discard_child\<close>, do not look at the flag, as in the source, but they leave it set.
  (\<open>CBB_add_asn1_oid_from_text\<close> is not modelled.)\<close>

theorem CBB_error_is_sticky:
  "(cbb_buffer_reserve libc b n = (False, b') \<longrightarrow> cb_error b' \<and> cb_buf b' = cb_buf b) \<and>
   (cbb_buffer_add_u libc b v n = (False, b') \<longrightarrow> cb_error b') \<and> (cbb_write_length b off n len = (False, b') \<longrightarrow> cb_error b') \<and>
   (cb_error (cbb_base s) \<longrightarrow>
     CBB_flush libc k s = (False, s) \<and> CBB_finish libc d l k s = (None, s) \<and>
     CBB_add_bytes libc k x s = (False, s) \<and> CBB_add_space libc k x s = (False, s) \<and> CBB_add_zeros libc k n s = (False, s) \<and>
     CBB_reserve libc k n s = (False, s) \<and>
     CBB_add_u8 libc k u s = (False, s) \<and> CBB_add_u16 libc k h s = (False, s) \<and> CBB_add_u16le libc k h s = (False, s) \<and>
     CBB_add_u24 libc k w s = (False, s) \<and> CBB_add_u32 libc k w s = (False, s) \<and> CBB_add_u32le libc k w s = (False, s) \<and>
     CBB_add_u64 libc k v s = (False, s) \<and> CBB_add_u64le libc k v s = (False, s) \<and>
     CBB_add_u8_length_prefixed libc k s = (False, s) \<and> CBB_add_u16_length_prefixed libc k s = (False, s) \<and>
     CBB_add_u24_length_prefixed libc k s = (False, s) \<and> CBB_add_asn1 libc k tag s = (False, s) \<and>
     CBB_add_asn1_uint64 libc k v s = (False, s) \<and> CBB_add_asn1_int64 libc k i s = (False, s) \<and>
     CBB_add_asn1_octet_string libc k x s = (False, s) \<and> CBB_add_asn1_bool libc k i s = (False, s) \<and>
     CBB_flush_asn1_set_of libc qsort k s = (False, s) \<and>
     cb_error (cbb_base (snd (CBB_did_write k x s))) \<and> cb_error (cbb_base (CBB_discard_child k s)))"
proof (intro conjI impI)
  show "cb_error b'" "cb_buf b' = cb_buf b" if "cbb_buffer_reserve libc b n = (False, b')"
    using cbb_buffer_reserve_fails that by blast+
  show "cb_error b'" if "cbb_buffer_add_u libc b v n = (False, b')"
    using that by (auto simp: cbb_buffer_add_u_def cbb_buffer_add_def cbb_fail_def Let_def
        dest: cbb_buffer_reserve_fails split: if_splits prod.splits bool.splits)
  show "cb_error b'" if "cbb_write_length b off n len = (False, b')"
    using that by (auto simp: cbb_write_length_def cbb_fail_def Let_def split: if_splits prod.splits)
  assume e: "cb_error (cbb_base s)"
  note f = CBB_flush_error [OF e] and ops = cbb_then_def cbb_add_u_def cbb_add_length_prefixed_def
  have a: "CBB_add_asn1 libc k tag s = (False, s)" for tag by (simp add: CBB_add_asn1_def f ops)
  then show "CBB_add_asn1 libc k tag s = (False, s)" .
  show "CBB_flush libc k s = (False, s)" by (rule f)
  show "CBB_finish libc d l k s = (None, s)" by (simp add: CBB_finish_def f)
  show "CBB_add_bytes libc k x s = (False, s)" "CBB_add_space libc k x s = (False, s)" "CBB_add_zeros libc k n s = (False, s)"
    "CBB_reserve libc k n s = (False, s)"
    by (simp_all add: CBB_add_bytes_def CBB_add_space_def CBB_add_zeros_def CBB_reserve_def f ops)
  show "CBB_add_u8 libc k u s = (False, s)" "CBB_add_u16 libc k h s = (False, s)" "CBB_add_u16le libc k h s = (False, s)"
    "CBB_add_u24 libc k w s = (False, s)" "CBB_add_u32 libc k w s = (False, s)" "CBB_add_u32le libc k w s = (False, s)"
    "CBB_add_u64 libc k v s = (False, s)" "CBB_add_u64le libc k v s = (False, s)"
    by (simp_all add: CBB_add_u8_def CBB_add_u16_def CBB_add_u16le_def CBB_add_u24_def CBB_add_u32_def CBB_add_u32le_def
        CBB_add_u64_def CBB_add_u64le_def f ops)
  show "CBB_add_u8_length_prefixed libc k s = (False, s)" "CBB_add_u16_length_prefixed libc k s = (False, s)"
    "CBB_add_u24_length_prefixed libc k s = (False, s)"
    by (simp_all add: CBB_add_u8_length_prefixed_def CBB_add_u16_length_prefixed_def CBB_add_u24_length_prefixed_def f ops)
  show uint: "CBB_add_asn1_uint64 libc k v s = (False, s)" for v by (simp add: CBB_add_asn1_uint64_def a ops)
  show "CBB_add_asn1_int64 libc k i s = (False, s)" by (simp add: CBB_add_asn1_int64_def uint a ops Let_def)
  show "CBB_add_asn1_octet_string libc k x s = (False, s)" "CBB_add_asn1_bool libc k i s = (False, s)"
    by (simp_all add: CBB_add_asn1_octet_string_def CBB_add_asn1_bool_def a ops)
  show "CBB_flush_asn1_set_of libc qsort k s = (False, s)" by (simp add: CBB_flush_asn1_set_of_def f ops)
  show "cb_error (cbb_base (snd (CBB_did_write k x s)))" "cb_error (cbb_base (CBB_discard_child k s))"
    using e by (simp_all add: CBB_did_write_def CBB_discard_child_def Let_def)
qed

text \<open>Two bytes do not fit the fixed buffer of one byte; after that one byte is refused as well.\<close>

theorem CBB_error_is_sticky_witness:
  "\<exists>b' s'. cbb_buffer_reserve (\<lambda>_. True) \<lparr>cb_buf = [], cb_cap = 1, cb_can_resize = False, cb_error = False\<rparr> 2 = (False, b') \<and>
     s' = \<lparr>cbb_base = b', cbb_children = []\<rparr> \<and> CBB_add_u8 (\<lambda>_. True) 0 7 s' = (False, s')"
proof -
  let ?b = "\<lparr>cb_buf = [] :: bytes, cb_cap = 1, cb_can_resize = False, cb_error = False\<rparr>"
  obtain b' where r: "cbb_buffer_reserve (\<lambda>_. True) ?b 2 = (False, b')" by (simp add: cbb_buffer_reserve_def cbb_fail_def)
  let ?s = "\<lparr>cbb_base = b', cbb_children = []\<rparr>"
  have "cb_error b'" using CBB_error_is_sticky [of "\<lambda>_. True" ?b 2 b'] r by blast
  then have "cb_error (cbb_base ?s)" by simp
  then have "CBB_add_u8 (\<lambda>_. True) 0 7 ?s = (False, ?s)"
    using CBB_error_is_sticky [where s = ?s and libc = "\<lambda>_. True" and k = 0 and u = 7] by blast
  then show ?thesis using r by blast
qed

end
