(* ===== verification/Base64.thy ===== *)
theory Base64
  imports Internal
begin

text \<open>
  \<open>crypto/base64/base64.c\<close>: the base64 encoder and decoder, in one piece and as a stream.

  The source writes through \<open>out\<close> pointers; the model returns the bytes written there that
  \<open>*out_len\<close> covers. \<open>EVP_ENCODE_CTX\<close> holds the bytes waiting for a complete group: its \<open>data\<close> is
  the list of the first \<open>data_used\<close> bytes. \<open>b64\<close> is the encoding of RFC 4648 on numbers, written with
  the alphabet as a string.
\<close>

section \<open>Characters\<close>

definition constant_time_lt_args_8 :: "byte \<Rightarrow> byte \<Rightarrow> byte" where
  "constant_time_lt_args_8 a b = ucast (constant_time_msb_w (ucast a - ucast b))"

definition constant_time_in_range_8 :: "byte \<Rightarrow> byte \<Rightarrow> byte \<Rightarrow> byte" where
  "constant_time_in_range_8 a mn mx = constant_time_lt_args_8 (a - mn) (mx - mn + 1)"

definition conv_bin2ascii :: "byte \<Rightarrow> byte" where
  "conv_bin2ascii a0 =
     (let a = a0 AND 0x3f;
          ret = constant_time_select_8 (constant_time_eq_8 (ucast a) 62) 43 47;
          ret = constant_time_select_8 (constant_time_lt_args_8 a 62) (a - 52 + 48) ret;
          ret = constant_time_select_8 (constant_time_lt_args_8 a 52) (a - 26 + 97) ret
      in constant_time_select_8 (constant_time_lt_args_8 a 26) (a + 65) ret)"

definition base64_ascii_to_bin :: "byte \<Rightarrow> byte" where
  "base64_ascii_to_bin a =
     (let is_upper = constant_time_in_range_8 a 65 90;
          is_lower = constant_time_in_range_8 a 97 122;
          is_digit = constant_time_in_range_8 a 48 57;
          is_plus = constant_time_eq_8 (ucast a) 43;
          is_slash = constant_time_eq_8 (ucast a) 47;
          is_equals = constant_time_eq_8 (ucast a) 61;
          ret = (is_upper AND (a - 65)) OR (is_lower AND (a - 97 + 26)) OR
                (is_digit AND (a - 48 + 52)) OR (is_plus AND 62) OR (is_slash AND 63);
          is_valid = is_upper OR is_lower OR is_digit OR is_plus OR is_slash OR is_equals
      in ret OR NOT is_valid)"

section \<open>Encoding\<close>

record evp_encode_ctx =
  ec_data :: bytes
  ec_eof_seen :: bool
  ec_error_encountered :: bool

definition EVP_EncodedLength :: "nat \<Rightarrow> nat option" where
  "EVP_EncodedLength len =
     (if (len + 2) mod 2 ^ 64 < len then None
      else
        let len = (len + 2) mod 2 ^ 64 div 3
        in if (len * 4) mod 2 ^ 64 div 4 \<noteq> len then None
           else let len = (len * 4) mod 2 ^ 64
                in if (len + 1) mod 2 ^ 64 < len then None else Some ((len + 1) mod 2 ^ 64))"

text \<open>The bytes \<open>EVP_EncodeBlock\<close> writes before the terminating NUL; it returns their number.\<close>

fun EVP_EncodeBlock :: "bytes \<Rightarrow> bytes" where
  "EVP_EncodeBlock [] = []"
| "EVP_EncodeBlock [s0] =
     (let l = push_bit 16 (ucast s0) :: u32
      in [conv_bin2ascii (ucast (drop_bit 18 l)), conv_bin2ascii (ucast (drop_bit 12 l)), 61, 61])"
| "EVP_EncodeBlock [s0, s1] =
     (let l = push_bit 16 (ucast s0) OR push_bit 8 (ucast s1) :: u32
      in [conv_bin2ascii (ucast (drop_bit 18 l)), conv_bin2ascii (ucast (drop_bit 12 l)),
          conv_bin2ascii (ucast (drop_bit 6 l)), 61])"
| "EVP_EncodeBlock (s0 # s1 # s2 # src) =
     (let l = push_bit 16 (ucast s0) OR push_bit 8 (ucast s1) OR ucast s2 :: u32
      in [conv_bin2ascii (ucast (drop_bit 18 l)), conv_bin2ascii (ucast (drop_bit 12 l)),
          conv_bin2ascii (ucast (drop_bit 6 l)), conv_bin2ascii (ucast l)] @ EVP_EncodeBlock src)"

definition EVP_EncodeInit :: evp_encode_ctx where
  "EVP_EncodeInit = \<lparr>ec_data = [], ec_eof_seen = False, ec_error_encountered = False\<rparr>"

definition encode_data_size :: nat where "encode_data_size = 48"
definition INT_MAX :: nat where "INT_MAX = 2 ^ 31 - 1"

text \<open>The loop over whole blocks: the output, the rest of the input and the final \<open>total\<close>;
  \<open>None\<close> for the return on overflow.\<close>

function encode_update_loop :: "bytes \<Rightarrow> nat \<Rightarrow> bytes \<Rightarrow> (bytes \<times> bytes \<times> nat) option" where
  "encode_update_loop inp tot out =
     (if length inp \<ge> encode_data_size then
        let enc = EVP_EncodeBlock (take encode_data_size inp);
            encoded = length enc
        in if (tot + encoded + 1) mod 2 ^ 64 < tot then None
           else encode_update_loop (drop encode_data_size inp) ((tot + encoded + 1) mod 2 ^ 64)
                  (out @ enc @ [10])
      else Some (out, inp, tot))"
  by pat_completeness auto
termination
  by (relation "measure (\<lambda>(inp, _). length inp)") (auto simp: encode_data_size_def)

declare encode_update_loop.simps [simp del]

definition EVP_EncodeUpdate :: "evp_encode_ctx \<Rightarrow> bytes \<Rightarrow> bytes \<times> evp_encode_ctx" where
  "EVP_EncodeUpdate ctx inp =
     (if length inp = 0 then ([], ctx)
      else if encode_data_size - length (ec_data ctx) > length inp then
        ([], ctx\<lparr>ec_data := ec_data ctx @ inp\<rparr>)
      else
        let (out, inp', tot) =
          (if length (ec_data ctx) \<noteq> 0 then
             let todo = encode_data_size - length (ec_data ctx);
                 enc = EVP_EncodeBlock (ec_data ctx @ take todo inp)
             in (enc @ [10], drop todo inp, length enc + 1)
           else ([], inp, 0))
        in case encode_update_loop inp' tot out of
             None \<Rightarrow> ([], ctx\<lparr>ec_data := []\<rparr>)
           | Some (out, inp', tot) \<Rightarrow>
               (if tot > INT_MAX then [] else out, ctx\<lparr>ec_data := inp'\<rparr>))"

definition EVP_EncodeFinal :: "evp_encode_ctx \<Rightarrow> bytes \<times> evp_encode_ctx" where
  "EVP_EncodeFinal ctx =
     (if length (ec_data ctx) = 0 then ([], ctx)
      else (EVP_EncodeBlock (ec_data ctx) @ [10], ctx\<lparr>ec_data := []\<rparr>))"

section \<open>Decoding\<close>

definition EVP_DecodedLength :: "nat \<Rightarrow> nat option" where
  "EVP_DecodedLength len = (if len mod 4 \<noteq> 0 then None else Some (len div 4 * 3))"

definition base64_decode_quad :: "byte \<Rightarrow> byte \<Rightarrow> byte \<Rightarrow> byte \<Rightarrow> bytes option" where
  "base64_decode_quad in0 in1 in2 in3 =
     (let a = base64_ascii_to_bin in0; b = base64_ascii_to_bin in1;
          c = base64_ascii_to_bin in2; d = base64_ascii_to_bin in3
      in if a = 0xff \<or> b = 0xff \<or> c = 0xff \<or> d = 0xff then None
         else
           let v = push_bit 18 (ucast a) OR push_bit 12 (ucast b) OR push_bit 6 (ucast c) OR ucast d :: u32;
               padding_pattern = (of_bool (in0 = 61) * 8 + of_bool (in1 = 61) * 4 +
                                  of_bool (in2 = 61) * 2 + of_bool (in3 = 61) :: nat)
           in if padding_pattern = 0 then Some [ucast (drop_bit 16 v), ucast (drop_bit 8 v), ucast v]
              else if padding_pattern = 1 then Some [ucast (drop_bit 16 v), ucast (drop_bit 8 v)]
              else if padding_pattern = 3 then Some [ucast (drop_bit 16 v)]
              else None)"

fun is_b64_space :: "byte \<Rightarrow> bool" where
  "is_b64_space c = (c = 32 \<or> c = 9 \<or> c = 13 \<or> c = 10)"

text \<open>The loop of \<open>EVP_DecodeUpdate\<close>: \<open>None\<close> for the return of \<open>-1\<close> inside the loop.\<close>

fun decode_update_loop :: "evp_encode_ctx \<Rightarrow> bytes \<Rightarrow> bytes \<Rightarrow> (bytes \<times> evp_encode_ctx) option" where
  "decode_update_loop ctx out [] = Some (out, ctx)"
| "decode_update_loop ctx out (c # inp) =
     (if is_b64_space c then decode_update_loop ctx out inp
      else if ec_eof_seen ctx then None
      else
        let data = ec_data ctx @ [c]
        in if length data = 4 then
             (case base64_decode_quad (data ! 0) (data ! 1) (data ! 2) (data ! 3) of
                None \<Rightarrow> None
              | Some res \<Rightarrow>
                  decode_update_loop
                    (ctx\<lparr>ec_data := [], ec_eof_seen := (length res < 3 \<or> ec_eof_seen ctx)\<rparr>)
                    (out @ res) inp)
           else decode_update_loop (ctx\<lparr>ec_data := data\<rparr>) out inp)"

definition EVP_DecodeUpdate :: "evp_encode_ctx \<Rightarrow> bytes \<Rightarrow> int \<times> bytes \<times> evp_encode_ctx" where
  "EVP_DecodeUpdate ctx inp =
     (if ec_error_encountered ctx then (- 1, [], ctx)
      else case decode_update_loop ctx [] inp of
             None \<Rightarrow> (- 1, [], ctx\<lparr>ec_error_encountered := True\<rparr>)
           | Some (out, ctx') \<Rightarrow>
               if length out > INT_MAX then (- 1, [], ctx'\<lparr>ec_error_encountered := True\<rparr>)
               else if ec_eof_seen ctx' then (0, out, ctx')
               else (1, out, ctx'))"

definition EVP_DecodeFinal :: "evp_encode_ctx \<Rightarrow> int" where
  "EVP_DecodeFinal ctx = (if ec_error_encountered ctx \<or> length (ec_data ctx) \<noteq> 0 then - 1 else 1)"

fun decode_base64_loop :: "bytes \<Rightarrow> bytes option" where
  "decode_base64_loop (a # b # c # d # inp) =
     (case base64_decode_quad a b c d of
        None \<Rightarrow> None
      | Some res \<Rightarrow>
          if length res \<noteq> 3 \<and> inp \<noteq> [] then None
          else map_option ((@) res) (decode_base64_loop inp))"
| "decode_base64_loop inp = Some []"

definition EVP_DecodeBase64 :: "nat \<Rightarrow> bytes \<Rightarrow> bytes option" where
  "EVP_DecodeBase64 max_out inp =
     (if length inp mod 4 \<noteq> 0 then None
      else case EVP_DecodedLength (length inp) of
             None \<Rightarrow> None
           | Some max_len \<Rightarrow> if max_out < max_len then None else decode_base64_loop inp)"

text \<open>Returns the \<open>dst_len\<close> bytes written, \<open>None\<close> for \<open>-1\<close>.\<close>

definition EVP_DecodeBlock :: "bytes \<Rightarrow> bytes option" where
  "EVP_DecodeBlock src =
     (let src = dropWhile (\<lambda>c. c = 32 \<or> c = 9) src;
          src = rev (dropWhile is_b64_space (rev src))
      in case EVP_DecodedLength (length src) of
           None \<Rightarrow> None
         | Some dst_len \<Rightarrow>
             if dst_len > INT_MAX then None
             else
               case EVP_DecodeBase64 dst_len src of
                 None \<Rightarrow> None
               | Some dst \<Rightarrow> Some (dst @ replicate ((3 - length dst mod 3) mod 3) 0))"

section \<open>The characters are the alphabet\<close>

lemma constant_time_lt_args_8_eq: "constant_time_lt_args_8 a b = (if a < b then - 1 else 0)"
proof -
  have "bit (ucast a - ucast b :: crypto_word) 63 \<longleftrightarrow> a < b"
    using unat_byte_less [of a] unat_byte_less [of b]
    by (auto simp: bit_63_iff unat_sub_if' unat_ucast_up word_less_nat_alt simp del: unat_byte_less)
  then show ?thesis by (simp add: constant_time_lt_args_8_def msb_w_eq)
qed

lemma constant_time_in_range_8_eq:
  "unat lo \<le> unat hi \<Longrightarrow> unat hi < 255 \<Longrightarrow>
     constant_time_in_range_8 a lo hi = (if lo \<le> a \<and> a \<le> hi then - 1 else 0)"
  using unat_byte_less [of a]
  by (auto simp: constant_time_in_range_8_def constant_time_lt_args_8_eq word_less_nat_alt word_le_nat_alt
      unat_sub_if' unat_word_ariths simp del: unat_byte_less)

definition b64_alphabet :: bytes where
  "b64_alphabet = map of_char
     (''ABCDEFGHIJKLMNOPQRSTUVWXYZ'' @ ''abcdefghijklmnopqrstuvwxyz'' @ ''0123456789'' @ ''+/'')"

definition b64_char :: "nat \<Rightarrow> byte" where
  "b64_char n = b64_alphabet ! (n mod 64)"

lemma b64_alphabet_nth: "list_all (\<lambda>n. b64_alphabet ! n =
    (if n < 26 then word_of_nat (n + 65) else if n < 52 then word_of_nat (n + 71)
     else if n < 62 then word_of_nat (n - 4) else if n = 62 then 43 else 47)) [0..<64]"
  by (simp add: b64_alphabet_def upt_rec)

lemma b64_char_eq:
  "n < 64 \<Longrightarrow> b64_char n =
    (if n < 26 then word_of_nat (n + 65) else if n < 52 then word_of_nat (n + 71)
     else if n < 62 then word_of_nat (n - 4) else if n = 62 then 43 else 47)"
  using b64_alphabet_nth by (simp add: list_all_iff b64_char_def)

lemma b64_char_mod: "b64_char (n mod 64) = b64_char n"
  by (simp add: b64_char_def)

lemma unat_and_3f: "unat ((b :: byte) AND 0x3f) = unat b mod 64"
proof -
  have "b AND 0x3f = take_bit 6 b" by (simp add: take_bit_eq_mask mask_eq_exp_minus_1)
  then show ?thesis by (simp add: take_bit_eq_mod unat_mod)
qed

lemma conv_bin2ascii_eq: "conv_bin2ascii a = b64_char (unat a)"
proof -
  let ?n = "unat a mod 64"
  define m where "m = a AND 0x3f"
  have m: "unat m = ?n" by (simp add: m_def unat_and_3f)
  have w: "m = word_of_nat ?n" by (simp flip: m)
  have n: "?n < 64" by simp
  have lt: "m < 62 \<longleftrightarrow> ?n < 62" "m < 52 \<longleftrightarrow> ?n < 52" "m < 26 \<longleftrightarrow> ?n < 26" "(ucast m :: crypto_word) = 62 \<longleftrightarrow> ?n = 62"
    by (simp_all add: word_less_nat_alt m word_unat_eq_iff unat_ucast_up)
  have "conv_bin2ascii a = (if ?n < 26 then m + 65 else if ?n < 52 then m - 26 + 97
      else if ?n < 62 then m - 52 + 48 else if ?n = 62 then 43 else 47)"
    by (simp add: conv_bin2ascii_def Let_def m_def [symmetric] constant_time_8_eq constant_time_lt_args_8_eq lt
        constant_time_select_8_eq)
  also have "\<dots> = b64_char ?n"
    unfolding b64_char_eq [OF n] by (auto simp: w of_nat_diff)
  finally show ?thesis by (simp add: b64_char_mod)
qed

lemma base64_ascii_to_bin_eq:
  "base64_ascii_to_bin c =
     (if 65 \<le> c \<and> c \<le> 90 then c - 65 else if 97 \<le> c \<and> c \<le> 122 then c - 71
      else if 48 \<le> c \<and> c \<le> 57 then c + 4 else if c = 43 then 62 else if c = 47 then 63
      else if c = 61 then 0 else 0xff)"
proof -
  have minus_1: "NOT (0 :: byte) = 0xff" "NOT (- 1 :: byte) = 0" by simp_all
  have eq: "constant_time_eq_8 (ucast c) 43 = (if c = 43 then - 1 else 0)"
    "constant_time_eq_8 (ucast c) 47 = (if c = 47 then - 1 else 0)"
    "constant_time_eq_8 (ucast c) 61 = (if c = 61 then - 1 else 0)"
    by (simp_all add: constant_time_8_eq word_unat_eq_iff unat_ucast_up)
  show ?thesis
    unfolding base64_ascii_to_bin_def eq
    by (auto simp: constant_time_in_range_8_eq Let_def minus_1 word_le_nat_alt)
qed

lemma ascii_to_bin_char: "n < 64 \<Longrightarrow> base64_ascii_to_bin (b64_char n) = word_of_nat n \<and> b64_char n \<noteq> 61"
proof -
  have "list_all (\<lambda>n. base64_ascii_to_bin (b64_char n) = word_of_nat n \<and> b64_char n \<noteq> 61) [0..<64]"
    unfolding base64_ascii_to_bin_eq by (simp add: upt_rec b64_char_eq word_le_nat_alt)
  then show "n < 64 \<Longrightarrow> base64_ascii_to_bin (b64_char n) = word_of_nat n \<and> b64_char n \<noteq> 61"
    by (simp add: list_all_iff)
qed

section \<open>The encoding of RFC 4648\<close>

fun b64 :: "bytes \<Rightarrow> bytes" where
  "b64 [] = []"
| "b64 [a] = (let v = be_val [a, 0, 0] in [b64_char (v div 2 ^ 18), b64_char (v div 2 ^ 12), 61, 61])"
| "b64 [a, b] = (let v = be_val [a, b, 0]
     in [b64_char (v div 2 ^ 18), b64_char (v div 2 ^ 12), b64_char (v div 2 ^ 6), 61])"
| "b64 (a # b # c # xs) = (let v = be_val [a, b, c]
     in [b64_char (v div 2 ^ 18), b64_char (v div 2 ^ 12), b64_char (v div 2 ^ 6), b64_char v] @ b64 xs)"

lemma be_val_3: "be_val [a, b, c] = unat a * 65536 + unat b * 256 + unat c"
  by (simp add: be_val_Cons)

lemma unat_group: "unat (push_bit 16 (ucast (a :: byte)) OR push_bit 8 (ucast (b :: byte)) OR ucast (c :: byte) :: u32) = be_val [a, b, c]"
proof -
  let ?c = "ucast c :: u32" and ?b = "ucast b :: u32" and ?a = "ucast a :: u32"
  have c: "unat ?c < 2 ^ 8" and b: "unat ?b < 2 ^ 8" and a: "unat ?a < 2 ^ 8" by (simp_all add: unat_ucast_up)
  have "push_bit 16 ?a OR push_bit 8 ?b OR ?c = push_bit 8 (push_bit 8 ?a OR ?b) OR ?c"
    by (simp add: push_bit_or or.assoc)
  moreover have ab: "unat (push_bit 8 ?a OR ?b) = unat a * 256 + unat b"
  proof -
    have "unat a * 256 + unat b < 4294967296" using unat_byte_less [of a] unat_byte_less [of b] by linarith
    then show ?thesis using unat_push_bit_or [OF b, of ?a] by (simp add: unat_ucast_up)
  qed
  moreover have "unat (push_bit 8 (push_bit 8 ?a OR ?b) OR ?c) = (unat a * 256 + unat b) * 256 + unat c"
  proof -
    have "x < 256 \<Longrightarrow> y < 256 \<Longrightarrow> z < 256 \<Longrightarrow> x * 65536 + y * 256 + z < (4294967296 :: nat)" for x y z
      by linarith
    from this [of "unat a" "unat b" "unat c"]
    have "(unat a * 256 + unat b) * 256 + unat c < 4294967296" by (simp add: algebra_simps)
    then show ?thesis
      unfolding unat_push_bit_or [OF c, of "push_bit 8 ?a OR ?b"] ab by (simp add: unat_ucast_up)
  qed
  ultimately show ?thesis by (simp add: be_val_3)
qed

lemma conv_group: "conv_bin2ascii (ucast (drop_bit k (l :: u32))) = b64_char (unat l div 2 ^ k)"
proof -
  have "unat l div 2 ^ k mod 256 mod 64 = unat l div 2 ^ k mod 64" by (rule mod_mod_cancel) simp
  then show ?thesis
    by (simp add: conv_bin2ascii_eq unat_ucast_down unat_drop_bit b64_char_def)
qed

lemma EVP_EncodeBlock_eq: "EVP_EncodeBlock xs = b64 xs"
proof (induction xs rule: b64.induct)
  case (2 a)
  then show ?case using unat_group [of a 0 0] by (simp add: Let_def conv_group)
next
  case (3 a b)
  then show ?case using unat_group [of a b 0] by (simp add: Let_def conv_group)
next
  case (4 a b c xs)
  then show ?case
    using conv_group [of 0, simplified]
    unfolding EVP_EncodeBlock.simps b64.simps Let_def conv_group unat_group by (simp add: unat_group)
qed simp

section \<open>Decoding one piece\<close>

lemma unat_quad:
  assumes "n0 < 64" "n1 < 64" "n2 < 64" "n3 < 64"
  shows "unat (push_bit 18 (ucast (word_of_nat n0 :: byte)) OR push_bit 12 (ucast (word_of_nat n1 :: byte)) OR
      push_bit 6 (ucast (word_of_nat n2 :: byte)) OR ucast (word_of_nat n3 :: byte) :: u32) =
    n0 * 262144 + n1 * 4096 + n2 * 64 + n3"
proof -
  let ?u = "\<lambda>n. ucast (word_of_nat n :: byte) :: u32"
  have u: "unat (?u n) = n" if "n < 64" for n using that by (simp add: unat_ucast_up unat_of_nat)
  then have s: "unat (?u n) < 2 ^ 6" if "n < 64" for n using that by simp
  have "push_bit 18 (?u n0) OR push_bit 12 (?u n1) OR push_bit 6 (?u n2) OR ?u n3 =
      push_bit 6 (push_bit 6 (push_bit 6 (?u n0) OR ?u n1) OR ?u n2) OR ?u n3"
    by (simp add: push_bit_or or.assoc)
  moreover have 1: "unat (push_bit 6 (?u n0) OR ?u n1) = n0 * 64 + n1"
    using assms unat_push_bit_or [OF s [OF assms(2)], of "?u n0"] by (simp add: u)
  moreover have 2: "unat (push_bit 6 (push_bit 6 (?u n0) OR ?u n1) OR ?u n2) = (n0 * 64 + n1) * 64 + n2"
    unfolding unat_push_bit_or [OF s [OF assms(3)]] 1 using assms by (simp add: u)
  moreover have "unat (push_bit 6 (push_bit 6 (push_bit 6 (?u n0) OR ?u n1) OR ?u n2) OR ?u n3) =
      ((n0 * 64 + n1) * 64 + n2) * 64 + n3"
    unfolding unat_push_bit_or [OF s [OF assms(4)]] 2 using assms by (simp add: u)
  ultimately show ?thesis by simp
qed

lemma sextets: "v < 16777216 \<Longrightarrow>
    v div 262144 mod 64 * 262144 + v div 4096 mod 64 * 4096 + v div 64 mod 64 * 64 + v mod 64 = (v :: nat)"
proof -
  assume v: "v < 16777216"
  have "v div 4096 = v div 64 div 64" "v div 262144 = v div 4096 div 64" by (simp_all flip: div_mult2_eq)
  moreover have "v div 262144 mod 64 = v div 262144" using v by simp
  ultimately show ?thesis
    using div_mult_mod_eq [of v 64] div_mult_mod_eq [of "v div 64" 64] div_mult_mod_eq [of "v div 4096" 64]
    by linarith
qed

lemma be_val_3_less: "be_val [a, b, c] < 2 ^ 24"
  using be_val_less [of "[a, b, c]"] by simp

lemma quad_not_ff: "n < 64 \<Longrightarrow> base64_ascii_to_bin (b64_char n) \<noteq> 0xff"
  by (auto simp: ascii_to_bin_char word_unat_eq_iff unat_of_nat)

lemma char_bin: "base64_ascii_to_bin (b64_char n) = word_of_nat (n mod 64)" "b64_char n \<noteq> 61"
  using ascii_to_bin_char [of "n mod 64"] by (simp_all add: b64_char_mod)

lemma bin_61: "base64_ascii_to_bin 61 = 0"
  by (simp add: base64_ascii_to_bin_eq word_le_nat_alt)

lemma not_ff: "(word_of_nat (n mod 64) :: byte) \<noteq> 0xff"
proof -
  have "n mod 64 < 64" by simp
  then have "n mod 64 \<noteq> 255" by linarith
  then show ?thesis by (simp add: word_unat_eq_iff unat_of_nat)
qed

lemma decode_quad_chars:
  "base64_decode_quad (b64_char n0) (b64_char n1) (b64_char n2) (b64_char n3) =
     (let v = n0 mod 64 * 262144 + n1 mod 64 * 4096 + n2 mod 64 * 64 + n3 mod 64
      in Some [word_of_nat (v div 65536), word_of_nat (v div 256), word_of_nat v])"
  "base64_decode_quad (b64_char n0) (b64_char n1) (b64_char n2) 61 =
     (let v = n0 mod 64 * 262144 + n1 mod 64 * 4096 + n2 mod 64 * 64
      in Some [word_of_nat (v div 65536), word_of_nat (v div 256)])"
  "base64_decode_quad (b64_char n0) (b64_char n1) 61 61 =
     (let v = n0 mod 64 * 262144 + n1 mod 64 * 4096 in Some [word_of_nat (v div 65536)])"
proof -
  have uc: "ucast (w :: u32) = (word_of_nat (unat w) :: byte)" for w
    by (simp add: word_unat_eq_iff unat_ucast_down unat_of_nat)
  have z: "(0 :: byte) = word_of_nat (0 mod 64)" by simp
  have m: "n mod 64 < 64" for n :: nat by simp
  note q = unat_quad [OF m m m m]
  show "base64_decode_quad (b64_char n0) (b64_char n1) (b64_char n2) (b64_char n3) =
     (let v = n0 mod 64 * 262144 + n1 mod 64 * 4096 + n2 mod 64 * 64 + n3 mod 64
      in Some [word_of_nat (v div 65536), word_of_nat (v div 256), word_of_nat v])"
    unfolding base64_decode_quad_def Let_def char_bin(1) uc unat_drop_bit q by (simp add: char_bin(2) not_ff)
  show "base64_decode_quad (b64_char n0) (b64_char n1) (b64_char n2) 61 =
     (let v = n0 mod 64 * 262144 + n1 mod 64 * 4096 + n2 mod 64 * 64
      in Some [word_of_nat (v div 65536), word_of_nat (v div 256)])"
    using q [of n0 n1 n2 0]
    unfolding base64_decode_quad_def Let_def char_bin(1) bin_61 uc unat_drop_bit by (simp add: char_bin(2) not_ff)
  show "base64_decode_quad (b64_char n0) (b64_char n1) 61 61 =
     (let v = n0 mod 64 * 262144 + n1 mod 64 * 4096 in Some [word_of_nat (v div 65536)])"
    using q [of n0 n1 0 0]
    unfolding base64_decode_quad_def Let_def char_bin(1) bin_61 uc unat_drop_bit by (simp add: char_bin(2) not_ff)
qed

lemma group_value:
  "be_val [a, b, c] div 262144 mod 64 * 262144 + be_val [a, b, c] div 4096 mod 64 * 4096 +
     be_val [a, b, c] div 64 mod 64 * 64 + be_val [a, b, c] mod 64 = be_val [a, b, c]"
  using be_val_3_less [of a b c] by (intro sextets) simp

lemma group_bytes:
  "word_of_nat (be_val [a, b, c] div 65536) = a" "word_of_nat (be_val [a, b, c] div 256) = b"
  "word_of_nat (be_val [a, b, c]) = c"
proof -
  have v: "be_val [a, b, c] = (unat a * 256 + unat b) * 256 + unat c" by (simp add: be_val_3)
  have d: "x < 256 \<Longrightarrow> (n * 256 + x) div 256 = n" "x < 256 \<Longrightarrow> (n * 256 + x) mod 256 = x" for n x :: nat
    by simp_all
  have "be_val [a, b, c] div 65536 = be_val [a, b, c] div 256 div 256" by (simp flip: div_mult2_eq)
  then have q: "be_val [a, b, c] div 65536 = unat a" "be_val [a, b, c] div 256 mod 256 = unat b"
    "be_val [a, b, c] mod 256 = unat c"
    by (simp_all only: v d unat_byte_less)
  show "word_of_nat (be_val [a, b, c] div 65536) = a" "word_of_nat (be_val [a, b, c] div 256) = b"
    "word_of_nat (be_val [a, b, c]) = c"
    by (simp_all only: word_unat_eq_iff unat_of_nat) (use q in simp_all)
qed

lemma group_zero: "be_val [a, b, 0] mod 64 = 0" "be_val [a, 0, 0] div 64 mod 64 = 0"
proof -
  have "be_val [a, b, 0] = 64 * (unat a * 1024 + unat b * 4)" by (simp add: be_val_3)
  then show "be_val [a, b, 0] mod 64 = 0" by simp
  have "be_val [a, 0, 0] div 64 = 64 * (unat a * 16)" by (simp add: be_val_3)
  then show "be_val [a, 0, 0] div 64 mod 64 = 0" by simp
qed

text \<open>One group of characters, complete or padded.\<close>

lemma decode_group:
  "base64_decode_quad (b64 [a, b, c] ! 0) (b64 [a, b, c] ! 1) (b64 [a, b, c] ! 2) (b64 [a, b, c] ! 3) = Some [a, b, c]"
  "base64_decode_quad (b64 [a, b] ! 0) (b64 [a, b] ! 1) (b64 [a, b] ! 2) (b64 [a, b] ! 3) = Some [a, b]"
  "base64_decode_quad (b64 [a] ! 0) (b64 [a] ! 1) (b64 [a] ! 2) (b64 [a] ! 3) = Some [a]"
proof -
  show "base64_decode_quad (b64 [a, b, c] ! 0) (b64 [a, b, c] ! 1) (b64 [a, b, c] ! 2) (b64 [a, b, c] ! 3) = Some [a, b, c]"
    using decode_quad_chars(1) [of "be_val [a, b, c] div 262144" "be_val [a, b, c] div 4096" "be_val [a, b, c] div 64" "be_val [a, b, c]"]
    by (simp add: Let_def group_value group_bytes)
  let ?v = "be_val [a, b, 0]" and ?w = "be_val [a, 0, 0]"
  have v: "?v div 262144 mod 64 * 262144 + ?v div 4096 mod 64 * 4096 + ?v div 64 mod 64 * 64 = ?v"
    using group_value [of a b 0] group_zero(1) [of a b] by linarith
  have w: "?w div 262144 mod 64 * 262144 + ?w div 4096 mod 64 * 4096 = ?w"
    using group_value [of a 0 0] group_zero(1) [of a 0] group_zero(2) [of a] by linarith
  show "base64_decode_quad (b64 [a, b] ! 0) (b64 [a, b] ! 1) (b64 [a, b] ! 2) (b64 [a, b] ! 3) = Some [a, b]"
    using decode_quad_chars(2) [of "?v div 262144" "?v div 4096" "?v div 64"]
    unfolding Let_def v group_bytes by (simp add: Let_def)
  show "base64_decode_quad (b64 [a] ! 0) (b64 [a] ! 1) (b64 [a] ! 2) (b64 [a] ! 3) = Some [a]"
    using decode_quad_chars(3) [of "?w div 262144" "?w div 4096"]
    unfolding Let_def w group_bytes by (simp add: Let_def)
qed

lemma decode_base64_loop_b64: "decode_base64_loop (b64 xs) = Some xs"
proof (induction xs rule: b64.induct)
  case (2 a)
  then show ?case using decode_group(3) [of a] by (simp add: Let_def)
next
  case (3 a b)
  then show ?case using decode_group(2) [of a b] by (simp add: Let_def)
next
  case (4 a b c xs)
  then show ?case using decode_group(1) [of a b c] by (simp add: Let_def)
qed simp

lemma length_b64: "length (b64 xs) = 4 * ((length xs + 2) div 3)"
proof (induction xs rule: b64.induct)
  case (4 a b c xs)
  have "(length (a # b # c # xs) + 2) div 3 = Suc ((length xs + 2) div 3)" by simp
  then show ?case using 4 by (simp add: Let_def)
qed (simp_all add: Let_def)

lemma EVP_DecodeBase64_b64:
  "3 * ((length xs + 2) div 3) \<le> max_out \<Longrightarrow> EVP_DecodeBase64 max_out (b64 xs) = Some xs"
  by (simp add: EVP_DecodeBase64_def EVP_DecodedLength_def length_b64 decode_base64_loop_b64)

section \<open>Streams\<close>

function b64_full :: "bytes \<Rightarrow> bytes" where
  "b64_full xs = (if 48 \<le> length xs then b64 (take 48 xs) @ [10] @ b64_full (drop 48 xs) else [])"
  by pat_completeness auto
termination by (relation "measure length") auto

declare b64_full.simps [simp del]

function b64_rest :: "bytes \<Rightarrow> bytes" where
  "b64_rest xs = (if 48 \<le> length xs then b64_rest (drop 48 xs) else xs)"
  by pat_completeness auto
termination by (relation "measure length") auto

declare b64_rest.simps [simp del]

text \<open>The text a stream of input gives: lines of 48 bytes, and a last line of fewer.\<close>

definition b64_lines :: "bytes \<Rightarrow> bytes" where
  "b64_lines xs = b64_full xs @ (if b64_rest xs = [] then [] else b64 (b64_rest xs) @ [10])"

lemma b64_short: "length xs < 48 \<Longrightarrow> b64_full xs = []" "length xs < 48 \<Longrightarrow> b64_rest xs = xs"
  by (simp_all add: b64_full.simps b64_rest.simps)

lemma b64_block: "length x = 48 \<Longrightarrow> b64_full (x @ ys) = b64 x @ [10] @ b64_full ys"
  "length x = 48 \<Longrightarrow> b64_rest (x @ ys) = b64_rest ys"
  by (simp_all add: b64_full.simps [of "x @ ys"] b64_rest.simps [of "x @ ys"])

lemma length_b64_rest: "length (b64_rest xs) < 48"
  by (induction xs rule: b64_rest.induct) (subst b64_rest.simps, auto)

lemma length_b64_full: "length (b64_full xs) \<le> 2 * length xs"
proof (induction xs rule: b64_full.induct)
  case (1 xs)
  then show ?case by (subst b64_full.simps) (auto simp: length_b64)
qed

lemma b64_full_append: "b64_full (xs @ ys) = b64_full xs @ b64_full (b64_rest xs @ ys)"
proof (induction xs rule: b64_full.induct)
  case (1 xs)
  show ?case
  proof (cases "48 \<le> length xs")
    case True
    have e: "xs @ ys = take 48 xs @ (drop 48 xs @ ys)" by simp
    have "b64_full (xs @ ys) = b64 (take 48 xs) @ [10] @ b64_full (drop 48 xs @ ys)"
      unfolding e using True by (intro b64_block) simp
    then show ?thesis using True 1 by (simp add: b64_full.simps [of xs] b64_rest.simps [of xs])
  qed (simp add: b64_short)
qed

lemma b64_rest_append: "b64_rest (xs @ ys) = b64_rest (b64_rest xs @ ys)"
proof (induction xs rule: b64_full.induct)
  case (1 xs)
  show ?case
  proof (cases "48 \<le> length xs")
    case True
    have e: "xs @ ys = take 48 xs @ (drop 48 xs @ ys)" by simp
    have "b64_rest (xs @ ys) = b64_rest (drop 48 xs @ ys)"
      unfolding e using True by (intro b64_block) simp
    then show ?thesis using True 1 by (simp add: b64_rest.simps [of xs])
  qed (simp add: b64_short)
qed

lemma encode_update_loop_eq:
  "tot + length (b64_full inp) < 2 ^ 64 \<Longrightarrow>
     encode_update_loop inp tot out = Some (out @ b64_full inp, b64_rest inp, tot + length (b64_full inp))"
proof (induction inp tot out rule: encode_update_loop.induct)
  case (1 inp tot out)
  show ?case
  proof (cases "48 \<le> length inp")
    case True
    have f: "b64_full inp = b64 (take 48 inp) @ [10] @ b64_full (drop 48 inp)" "b64_rest inp = b64_rest (drop 48 inp)"
      using True by (simp_all add: b64_full.simps [of inp] b64_rest.simps [of inp])
    have small: "tot + length (b64 (take 48 inp)) + 1 < 2 ^ 64" using "1.prems" f by simp
    then show ?thesis
      using True "1.IH" "1.prems" f
      by (subst encode_update_loop.simps) (simp add: encode_data_size_def EVP_EncodeBlock_eq Let_def)
  next
    case False
    then show ?thesis by (subst encode_update_loop.simps) (simp add: encode_data_size_def b64_short)
  qed
qed

lemma EVP_EncodeUpdate_eq:
  assumes "length (ec_data ctx) < 48" "length inp \<le> 2 ^ 29"
  shows "EVP_EncodeUpdate ctx inp = (b64_full (ec_data ctx @ inp), ctx\<lparr>ec_data := b64_rest (ec_data ctx @ inp)\<rparr>)"
proof -
  let ?d = "ec_data ctx"
  have fl: "length (b64_full (?d @ inp)) < 2 ^ 31 - 1"
    using length_b64_full [of "?d @ inp"] assms by simp
  consider "inp = []" | "length ?d + length inp < 48" | "inp \<noteq> []" "48 \<le> length ?d + length inp" "?d = []" |
      "inp \<noteq> []" "48 \<le> length ?d + length inp" "?d \<noteq> []"
    by linarith
  then show ?thesis
  proof cases
    case 1
    then show ?thesis using assms by (simp add: EVP_EncodeUpdate_def b64_short)
  next
    case 2
    then show ?thesis by (auto simp: EVP_EncodeUpdate_def b64_short encode_data_size_def)
  next
    case 3
    then show ?thesis
      using fl encode_update_loop_eq [of 0 inp "[]"]
      by (simp add: EVP_EncodeUpdate_def encode_data_size_def INT_MAX_def)
  next
    case 4
    let ?t = "48 - length ?d"
    have t: "length (?d @ take ?t inp) = 48" using 4 assms by simp
    have e: "?d @ inp = (?d @ take ?t inp) @ drop ?t inp" by simp
    have f: "b64_full (?d @ inp) = b64 (?d @ take ?t inp) @ [10] @ b64_full (drop ?t inp)"
      "b64_rest (?d @ inp) = b64_rest (drop ?t inp)"
      unfolding e b64_block [OF t] by (rule refl)+
    have "length (b64 (?d @ take ?t inp)) + 1 + length (b64_full (drop ?t inp)) < 2 ^ 31 - 1"
      using fl f by simp
    then show ?thesis
      using 4 f encode_update_loop_eq [of "length (b64 (?d @ take ?t inp)) + 1" "drop ?t inp" "b64 (?d @ take ?t inp) @ [10]"]
      by (auto simp: EVP_EncodeUpdate_def encode_data_size_def INT_MAX_def Let_def EVP_EncodeBlock_eq)
  qed
qed

text \<open>Feeding a context piece by piece: \<open>EVP_EncodeUpdate\<close> on each piece, then \<open>EVP_EncodeFinal\<close>.\<close>

primrec encode_stream :: "evp_encode_ctx \<Rightarrow> bytes list \<Rightarrow> bytes" where
  "encode_stream ctx [] = fst (EVP_EncodeFinal ctx)"
| "encode_stream ctx (c # cs) = (case EVP_EncodeUpdate ctx c of (out, ctx') \<Rightarrow> out @ encode_stream ctx' cs)"

lemma encode_stream_eq:
  "length (ec_data ctx) < 48 \<Longrightarrow> list_all (\<lambda>c. length c \<le> 2 ^ 29) cs \<Longrightarrow>
     encode_stream ctx cs = b64_lines (ec_data ctx @ concat cs)"
proof (induction cs arbitrary: ctx)
  case Nil
  then show ?case by (simp add: EVP_EncodeFinal_def b64_lines_def b64_short EVP_EncodeBlock_eq)
next
  case (Cons c cs)
  have "encode_stream ctx (c # cs) =
      b64_full (ec_data ctx @ c) @ b64_lines (b64_rest (ec_data ctx @ c) @ concat cs)"
    using Cons.prems Cons.IH [of "ctx\<lparr>ec_data := b64_rest (ec_data ctx @ c)\<rparr>"] length_b64_rest
    by (simp add: EVP_EncodeUpdate_eq)
  also have "\<dots> = b64_lines ((ec_data ctx @ c) @ concat cs)"
    unfolding b64_lines_def b64_full_append [of "ec_data ctx @ c"] b64_rest_append [of "ec_data ctx @ c"] by simp
  finally show ?case by simp
qed

primrec decode_stream :: "evp_encode_ctx \<Rightarrow> bytes list \<Rightarrow> bytes option" where
  "decode_stream ctx [] = (if EVP_DecodeFinal ctx = - 1 then None else Some [])"
| "decode_stream ctx (c # cs) =
     (case EVP_DecodeUpdate ctx c of
        (rv, out, ctx') \<Rightarrow> if rv = - 1 then None else map_option ((@) out) (decode_stream ctx' cs))"

lemma decode_update_loop_out:
  "decode_update_loop ctx out inp = map_option (\<lambda>(o', c). (out @ o', c)) (decode_update_loop ctx [] inp)"
proof (induction inp arbitrary: ctx out)
  case (Cons c inp)
  show ?case
  proof (cases "is_b64_space c \<or> ec_eof_seen ctx \<or> length (ec_data ctx @ [c]) \<noteq> 4")
    case True
    then show ?thesis using Cons [of ctx out] Cons [of "ctx\<lparr>ec_data := ec_data ctx @ [c]\<rparr>" out] by (auto simp: Let_def)
  next
    case False
    show ?thesis
    proof (cases "base64_decode_quad ((ec_data ctx @ [c]) ! 0) ((ec_data ctx @ [c]) ! 1) ((ec_data ctx @ [c]) ! 2) ((ec_data ctx @ [c]) ! 3)")
      case None
      then show ?thesis using False by (simp add: Let_def)
    next
      case (Some res)
      let ?ctx = "ctx\<lparr>ec_data := [], ec_eof_seen := length res < 3\<rparr>"
      show ?thesis
        using False Some Cons [of ?ctx "out @ res"] Cons [of ?ctx res]
        by (simp add: Let_def option.map_comp comp_def case_prod_beta)
    qed
  qed
qed simp

lemma decode_update_loop_append:
  "decode_update_loop ctx out (x @ y) =
     (case decode_update_loop ctx out x of
        None \<Rightarrow> None
      | Some (o1, c1) \<Rightarrow> decode_update_loop c1 o1 y)"
  by (induction ctx out x rule: decode_update_loop.induct) (auto simp: Let_def split: option.splits)

lemma decode_update_loop_filter:
  "decode_update_loop ctx out inp = decode_update_loop ctx out (filter (\<lambda>c. \<not> is_b64_space c) inp)"
  by (induction ctx out inp rule: decode_update_loop.induct) (auto simp: Let_def split: option.splits)

lemma space_61 [simp]: "\<not> is_b64_space 61" and space_10 [simp]: "is_b64_space 10"
  by simp_all

declare is_b64_space.simps [simp del]

text \<open>A group of characters takes the context from a group boundary to the next.\<close>

definition dec_ctx :: "bool \<Rightarrow> evp_encode_ctx" where
  "dec_ctx eof = \<lparr>ec_data = [], ec_eof_seen = eof, ec_error_encountered = False\<rparr>"

lemma b64_chars_not_space:
  "list_all (\<lambda>n. \<not> is_b64_space (b64_char n)) [0..<64]"
  by (simp add: upt_rec b64_char_eq is_b64_space.simps)

lemma b64_char_not_space: "\<not> is_b64_space (b64_char n)"
  using b64_chars_not_space b64_char_mod [of n] by (simp add: list_all_iff) (metis atLeast0LessThan lessThan_iff mod_less_divisor zero_less_numeral)

lemma b64_no_space: "filter (\<lambda>c. \<not> is_b64_space c) (b64 xs) = b64 xs"
  by (induction xs rule: b64.induct) (simp_all add: Let_def b64_char_not_space)

lemma decode_update_loop_quad:
  assumes "\<not> is_b64_space a" "\<not> is_b64_space b" "\<not> is_b64_space c" "\<not> is_b64_space d"
  shows "decode_update_loop (dec_ctx False) out ([a, b, c, d] @ inp) =
    (case base64_decode_quad a b c d of
       None \<Rightarrow> None
     | Some res \<Rightarrow> decode_update_loop (dec_ctx (length res < 3)) (out @ res) inp)"
  using assms by (auto simp: dec_ctx_def Let_def split: option.splits)

lemma dec_ctx_end: "decode_update_loop ctx out [] = Some (out, ctx)"
  by simp

lemma decode_update_loop_b64:
  "decode_update_loop (dec_ctx False) out (b64 xs) = Some (out @ xs, dec_ctx (length xs mod 3 \<noteq> 0))"
proof (induction xs arbitrary: out rule: b64.induct)
  case 1
  then show ?case by (simp add: dec_ctx_def)
next
  case (2 a)
  let ?v = "be_val [a, 0, 0]"
  show ?case
    using decode_group(3) [of a] decode_update_loop_quad [of "b64_char (?v div 2 ^ 18)" "b64_char (?v div 2 ^ 12)" 61 61 out "[]"]
    unfolding b64.simps Let_def by (simp add: b64_char_not_space del: decode_update_loop.simps(2))
next
  case (3 a b)
  let ?v = "be_val [a, b, 0]"
  show ?case
    using decode_group(2) [of a b]
      decode_update_loop_quad [of "b64_char (?v div 2 ^ 18)" "b64_char (?v div 2 ^ 12)" "b64_char (?v div 2 ^ 6)" 61 out "[]"]
    unfolding b64.simps Let_def by (simp add: b64_char_not_space del: decode_update_loop.simps(2))
next
  case (4 a b c xs)
  let ?v = "be_val [a, b, c]"
  have m: "length (a # b # c # xs) mod 3 = length xs mod 3"
    using mod_add_self2 [of "length xs" 3] by simp
  show ?case
    using decode_group(1) [of a b c] "4.IH" [of ?v "out @ [a, b, c]"]
      decode_update_loop_quad [of "b64_char (?v div 2 ^ 18)" "b64_char (?v div 2 ^ 12)" "b64_char (?v div 2 ^ 6)" "b64_char ?v" out "b64 xs"]
    unfolding m unfolding b64.simps Let_def
    by (simp add: b64_char_not_space del: decode_update_loop.simps(2))
qed

lemma decode_update_loop_length:
  "decode_update_loop ctx out inp = Some (out', ctx') \<Longrightarrow> length out' \<le> length out + 3 * length inp"
proof (induction ctx out inp rule: decode_update_loop.induct)
  case (2 ctx out c inp)
  have "length res \<le> 3" if "base64_decode_quad a b c d = Some res" for a b c d res
    using that by (auto simp: base64_decode_quad_def Let_def split: if_splits)
  with 2 show ?case by (fastforce simp: Let_def split: if_splits option.splits)
qed simp

lemma decode_update_loop_error:
  "decode_update_loop ctx out inp = Some (out', ctx') \<Longrightarrow> ec_error_encountered ctx' = ec_error_encountered ctx"
  by (induction ctx out inp rule: decode_update_loop.induct)
     (auto simp: Let_def split: if_splits option.splits)

lemma decode_stream_eq:
  assumes "\<not> ec_error_encountered ctx" "list_all (\<lambda>c. length c \<le> 2 ^ 29) cs"
  shows "decode_stream ctx cs =
    (case decode_update_loop ctx [] (concat cs) of
       None \<Rightarrow> None
     | Some (out, ctx') \<Rightarrow> if EVP_DecodeFinal ctx' = - 1 then None else Some out)"
  using assms
proof (induction cs arbitrary: ctx)
  case (Cons c cs)
  show ?case
  proof (cases "decode_update_loop ctx [] c")
    case None
    then show ?thesis using Cons.prems by (simp add: EVP_DecodeUpdate_def decode_update_loop_append)
  next
    case (Some r)
    obtain out ctx' where r: "r = (out, ctx')" by (cases r)
    have "length out \<le> 3 * length c" using decode_update_loop_length [of ctx "[]" c out ctx'] Some r by simp
    then have "\<not> length out > INT_MAX" using Cons.prems by (simp add: INT_MAX_def)
    then have u: "\<exists>rv. rv \<noteq> - 1 \<and> EVP_DecodeUpdate ctx c = (rv, out, ctx')"
      using Some r Cons.prems by (simp add: EVP_DecodeUpdate_def)
    have e: "\<not> ec_error_encountered ctx'" using decode_update_loop_error [of ctx "[]" c out ctx'] Some r Cons.prems by simp
    have "decode_stream ctx' cs = (case decode_update_loop ctx' [] (concat cs) of
        None \<Rightarrow> None | Some (out, ctx') \<Rightarrow> if EVP_DecodeFinal ctx' = - 1 then None else Some out)"
      using Cons.IH [OF e] Cons.prems by simp
    with u Some r decode_update_loop_out [of ctx' out "concat cs"] show ?thesis
      by (auto simp: decode_update_loop_append split: option.splits)
  qed
qed simp

lemma b64_append_48: "length x mod 3 = 0 \<Longrightarrow> b64 (x @ y) = b64 x @ b64 y"
  by (induction x rule: b64.induct) (auto simp: Let_def mod_Suc split: if_splits)

lemma filter_b64_lines: "filter (\<lambda>c. \<not> is_b64_space c) (b64_lines xs) = b64 xs"
proof (induction xs rule: b64_full.induct)
  case (1 xs)
  show ?case
  proof (cases "48 \<le> length xs")
    case True
    have "b64_lines xs = b64 (take 48 xs) @ [10] @ b64_lines (drop 48 xs)"
      using True by (simp add: b64_lines_def b64_full.simps [of xs] b64_rest.simps [of xs])
    then have "filter (\<lambda>c. \<not> is_b64_space c) (b64_lines xs) = b64 (take 48 xs) @ b64 (drop 48 xs)"
      using 1 True by (simp add: b64_no_space)
    also have "\<dots> = b64 xs" using True b64_append_48 [of "take 48 xs" "drop 48 xs"] by simp
    finally show ?thesis .
  next
    case False
    then show ?thesis unfolding b64_lines_def by (simp add: b64_short b64_no_space)
  qed
qed

section \<open>Properties\<close>

text \<open>C22: whatever the sizes of the pieces in which the input is handed to \<open>EVP_EncodeUpdate\<close>, the
  output of the updates and of \<open>EVP_EncodeFinal\<close> is the RFC 4648 encoding in lines of 48 input bytes,
  and handing that text, cut into pieces in any way, to \<open>EVP_DecodeUpdate\<close> and \<open>EVP_DecodeFinal\<close>
  succeeds and gives back the input.\<close>

theorem base64_stream_roundtrip:
  assumes "list_all (\<lambda>c. length c \<le> 2 ^ 29) ins" "list_all (\<lambda>c. length c \<le> 2 ^ 29) outs"
    and "concat outs = encode_stream EVP_EncodeInit ins"
  shows "concat outs = b64_lines (concat ins) \<and> decode_stream EVP_EncodeInit outs = Some (concat ins)"
proof -
  have i: "EVP_EncodeInit = dec_ctx False" by (simp add: EVP_EncodeInit_def dec_ctx_def)
  have l: "concat outs = b64_lines (concat ins)"
    using assms(3) encode_stream_eq [OF _ assms(1), of EVP_EncodeInit] by (simp add: EVP_EncodeInit_def)
  have "decode_update_loop (dec_ctx False) [] (concat outs) = Some (concat ins, dec_ctx (length (concat ins) mod 3 \<noteq> 0))"
    using decode_update_loop_b64 [of "[]" "concat ins"]
    unfolding l decode_update_loop_filter [of _ _ "b64_lines (concat ins)"] filter_b64_lines by simp
  then show ?thesis
    using decode_stream_eq [OF _ assms(2), of "dec_ctx False"] l
    by (simp add: i dec_ctx_def EVP_DecodeFinal_def)
qed

theorem base64_stream_roundtrip_witness:
  "concat [b64_lines [1, 2]] = b64_lines (concat [[1], [2]]) \<and>
     decode_stream EVP_EncodeInit [b64_lines [1, 2]] = Some (concat [[1], [2]])"
  by (rule base64_stream_roundtrip)
     (simp_all add: encode_stream_eq EVP_EncodeInit_def b64_lines_def b64_short Let_def del: encode_stream.simps)

text \<open>\<open>EVP_DecodeBase64\<close> and \<open>EVP_DecodeBlock\<close> undo \<open>EVP_EncodeBlock\<close>; the block variant fills the
  last group with zero bytes, as its callers expect.\<close>

theorem base64_block_roundtrip:
  assumes "length xs \<le> 2 ^ 30"
  shows "length (EVP_EncodeBlock xs) = 4 * ((length xs + 2) div 3) \<and>
    EVP_DecodeBase64 (3 * ((length xs + 2) div 3)) (EVP_EncodeBlock xs) = Some xs \<and>
    EVP_DecodeBlock (EVP_EncodeBlock xs) = Some (xs @ replicate ((3 - length xs mod 3) mod 3) 0)"
proof -
  have d: "dropWhile P ys = ys" if "filter (\<lambda>c. \<not> is_b64_space c) ys = ys" "\<And>c. P c \<Longrightarrow> is_b64_space c" for P ys
  proof -
    have "\<forall>c\<in>set ys. \<not> is_b64_space c" using that(1) unfolding filter_id_conv .
    then show ?thesis using that(2) by (cases ys) auto
  qed
  have n: "filter (\<lambda>c. \<not> is_b64_space c) (b64 xs) = b64 xs" by (rule b64_no_space)
  then have r: "filter (\<lambda>c. \<not> is_b64_space c) (rev (b64 xs)) = rev (b64 xs)" by (simp add: rev_filter [symmetric])
  have "dropWhile (\<lambda>c. c = 32 \<or> c = 9) (b64 xs) = b64 xs" by (rule d [OF n]) (auto simp: is_b64_space.simps)
  moreover have "dropWhile is_b64_space (rev (b64 xs)) = rev (b64 xs)" by (rule d [OF r])
  moreover have "\<not> (length xs + 2) div 3 * 3 > INT_MAX" using assms by (simp add: INT_MAX_def)
  ultimately show ?thesis
    using EVP_DecodeBase64_b64 [of xs "3 * ((length xs + 2) div 3)"]
    by (simp add: EVP_DecodeBlock_def EVP_EncodeBlock_eq length_b64 EVP_DecodedLength_def mult.commute)
qed

theorem base64_block_roundtrip_witness:
  "length (EVP_EncodeBlock [1, 2]) = 4 * ((length [1, 2 :: byte] + 2) div 3) \<and>
    EVP_DecodeBase64 (3 * ((length [1, 2 :: byte] + 2) div 3)) (EVP_EncodeBlock [1, 2]) = Some [1, 2] \<and>
    EVP_DecodeBlock (EVP_EncodeBlock [1, 2]) = Some ([1, 2] @ replicate ((3 - length [1, 2 :: byte] mod 3) mod 3) 0)"
  by (rule base64_block_roundtrip) simp

end
