(* ===== verification/Block_Hash.thy ===== *)
theory Block_Hash
  imports Mem
begin

text \<open>
  The part of a streaming hash that does not depend on the width of its words: a block function, a
  buffer for the bytes that do not fill a block, and the padding. The locale \<open>block_hash\<close> is the contract
  of a block function: a call on several blocks is a call per block, and a call reads only its blocks.
  \<open>md_fold\<close> is the Merkle-Damgaard iteration and \<open>md_pad\<close> the padding; the lemmas say what each branch
  of a collector does to a buffered message. The 32-bit hashes (\<open>Md32\<close>) and SHA-512 (\<open>Sha512\<close>) have
  their own collectors over it.
\<close>

section \<open>The specification\<close>

function md_fold :: "nat \<Rightarrow> ('h \<Rightarrow> bytes \<Rightarrow> 'h) \<Rightarrow> 'h \<Rightarrow> bytes \<Rightarrow> 'h" where
  "md_fold bs cf h x =
     (if 0 < bs \<and> bs \<le> length x then md_fold bs cf (cf h (take bs x)) (drop bs x) else h)"
  by pat_completeness auto
termination by (relation "measure (\<lambda>(bs, cf, h, x). length x)") auto

declare md_fold.simps [simp del]

text \<open>The padding: a one bit, zeros up to the end of a block less \<open>lf\<close> bytes, the number of bits of the
  message in \<open>lf\<close> bytes.\<close>

definition md_pad :: "nat \<Rightarrow> nat \<Rightarrow> bool \<Rightarrow> bytes \<Rightarrow> bytes" where
  "md_pad bs lf is_big_endian m =
     m @ [0x80] @ replicate (nat ((- int (length m + Suc lf)) mod int bs)) 0 @
     (if is_big_endian then be_bytes lf (8 * length m) else le_bytes lf (8 * length m))"

lemma md_fold_short: "length x < bs \<Longrightarrow> md_fold bs cf h x = h"
  by (simp add: md_fold.simps)

lemma md_fold_block: "length x = bs \<Longrightarrow> 0 < bs \<Longrightarrow> md_fold bs cf h (x @ y) = md_fold bs cf (cf h x) y"
  by (subst md_fold.simps) simp

lemma md_fold_one: "length x = bs \<Longrightarrow> 0 < bs \<Longrightarrow> md_fold bs cf h x = cf h x"
  using md_fold_block [of x bs cf h "[]"] by (simp add: md_fold_short)

lemma md_fold_append:
  "0 < bs \<Longrightarrow> bs dvd length x \<Longrightarrow> md_fold bs cf h (x @ y) = md_fold bs cf (md_fold bs cf h x) y"
proof (induction bs cf h x rule: md_fold.induct)
  case (1 bs cf h x)
  show ?case
  proof (cases "bs \<le> length x")
    case True
    have e: "x @ y = take bs x @ (drop bs x @ y)" by simp
    have "md_fold bs cf h (x @ y) = md_fold bs cf (cf h (take bs x)) (drop bs x @ y)"
      unfolding e using True 1 by (intro md_fold_block) simp_all
    also have "\<dots> = md_fold bs cf (md_fold bs cf (cf h (take bs x)) (drop bs x)) y"
      using 1 True by simp
    also have "md_fold bs cf (cf h (take bs x)) (drop bs x) = md_fold bs cf h x"
      using True 1 by (subst (2) md_fold.simps) simp
    finally show ?thesis .
  next
    case False
    then have "x = []" using 1 dvd_imp_le [of bs "length x"] by fastforce
    then show ?thesis using 1 by (simp add: md_fold_short)
  qed
qed

lemma md_fold_invariant: "P h \<Longrightarrow> (\<And>h x. P h \<Longrightarrow> P (cf h x)) \<Longrightarrow> P (md_fold bs cf h x)"
  by (induction bs cf h x rule: md_fold.induct) (subst md_fold.simps, simp)

lemma final_fill:
  assumes "take n d = r" "length r = n" "length d = bs" "n + 1 \<le> bs - lf"
  shows "take (bs - lf) (mem_copy (d[n := 0x80]) (n + 1) (replicate (bs - lf - (n + 1)) 0)) =
    r @ [0x80] @ replicate (bs - lf - (n + 1)) 0"
proof -
  have "n + lf + 1 \<le> bs" using assms(4) by arith
  then obtain k where "bs = n + lf + 1 + k" using le_Suc_ex by blast
  then show ?thesis using assms(1-3) by (simp add: mem_copy_def take_Suc_conv_app_nth)
qed

lemma pad_mod: "n = l mod bs \<Longrightarrow> (- int (l + k)) mod int bs = (- int (n + k)) mod int bs"
proof -
  assume n: "n = l mod bs"
  have "int l = int (l div bs) * int bs + int n"
    unfolding n by (metis div_mult_mod_eq of_nat_add of_nat_mult)
  then have e: "- int (l + k) = - int (n + k) + (- int (l div bs)) * int bs" by simp
  show ?thesis unfolding e by (rule mod_mult_self1)
qed

lemma pad_one: "n = l mod bs \<Longrightarrow> \<not> n + 1 > bs - lf \<Longrightarrow> lf < bs \<Longrightarrow>
    nat ((- int (l + Suc lf)) mod int bs) = bs - lf - (n + 1)"
proof -
  assume a: "n = l mod bs" "\<not> n + 1 > bs - lf" "lf < bs"
  have "(- int (l + Suc lf)) mod int bs = (- int (n + Suc lf)) mod int bs"
    by (rule pad_mod [OF a(1)])
  also have "\<dots> = (int bs - int (n + Suc lf)) mod int bs" by simp
  also have "\<dots> = int bs - int (n + Suc lf)" using a by (intro mod_pos_pos_trivial) simp_all
  finally show ?thesis using a by simp
qed

lemma pad_two: "n = l mod bs \<Longrightarrow> n + 1 > bs - lf \<Longrightarrow> n < bs \<Longrightarrow> lf < bs \<Longrightarrow>
    nat ((- int (l + Suc lf)) mod int bs) = bs - (n + 1) + (bs - lf)"
proof -
  assume a: "n = l mod bs" "n + 1 > bs - lf" "n < bs" "lf < bs"
  have "(- int (l + Suc lf)) mod int bs = (- int (n + Suc lf)) mod int bs"
    by (rule pad_mod [OF a(1)])
  also have "\<dots> = (2 * int bs - int (n + Suc lf)) mod int bs"
    using mod_add_self2 [of "int bs - int (n + Suc lf)" "int bs"] mod_add_self2 [of "- int (n + Suc lf)" "int bs"]
    by (simp add: algebra_simps)
  also have "\<dots> = 2 * int bs - int (n + Suc lf)" using a(2-4) by (intro mod_pos_pos_trivial) simp_all
  finally show ?thesis using a(2-4) by simp
qed

text \<open>The number of bits in two words.\<close>

lemma bits_add:
  fixes Nh Nl :: "'a::len word" and len :: nat
  assumes w: "3 \<le> LENGTH('a)"
  defines "l \<equiv> Nl + push_bit 3 (word_of_nat len)"
  shows "unat ((if l < Nl then Nh + 1 else Nh) + word_of_nat (len div 2 ^ (LENGTH('a) - 3))) * 2 ^ LENGTH('a) + unat l =
    (unat Nh * 2 ^ LENGTH('a) + unat Nl + 8 * len) mod 2 ^ (2 * LENGTH('a))"
proof -
  define B :: nat where "B = 2 ^ LENGTH('a)"
  have B8: "B = 8 * 2 ^ (LENGTH('a) - 3)"
  proof -
    have "(2 :: nat) ^ (3 + (LENGTH('a) - 3)) = 8 * 2 ^ (LENGTH('a) - 3)" by (simp only: power_add) simp
    then show ?thesis using w by (simp add: B_def)
  qed
  have B: "0 < B" by (simp add: B_def)
  have BB: "(2 :: nat) ^ (2 * LENGTH('a)) = B * B" by (simp add: B_def mult_2 power_add)
  define lo where "lo = 8 * len mod B"
  have p: "push_bit 3 (word_of_nat len :: 'a word) = word_of_nat (8 * len)"
    by (simp add: push_bit_eq_mult)
  have l: "unat l = (unat Nl + lo) mod B"
    unfolding l_def p lo_def B_def
    by (simp add: unat_word_ariths unat_of_nat mod_add_right_eq del: of_nat_mult)
  have lo: "lo < B" using B by (simp add: lo_def)
  have Nl: "unat Nl < B" unfolding B_def by (rule unsigned_less)
  have split: "8 * len = len div 2 ^ (LENGTH('a) - 3) * B + lo"
  proof -
    have "8 * len div B = len div 2 ^ (LENGTH('a) - 3)" unfolding B8 by (rule div_mult_mult1) simp
    then show ?thesis unfolding lo_def by (metis div_mult_mod_eq)
  qed
  define carry :: nat where "carry = (if l < Nl then 1 else 0)"
  have c: "unat Nl + lo = carry * B + unat l"
    using l lo Nl B unfolding carry_def word_less_nat_alt
    by (cases "unat Nl + lo < B") (auto simp: mod_if)
  define M where "M = unat Nh + carry + len div 2 ^ (LENGTH('a) - 3)"
  have e1: "unat ((if l < Nl then Nh + 1 else Nh) + word_of_nat (len div 2 ^ (LENGTH('a) - 3))) = M mod B"
    unfolding carry_def M_def B_def by (simp add: unat_word_ariths unat_of_nat mod_simps)
  have e2: "unat Nh * B + unat Nl + 8 * len = M * B + unat l"
    using split c by (simp add: M_def algebra_simps)
  have "(M * B + unat l) mod (B * B) = B * ((M * B + unat l) div B mod B) + (M * B + unat l) mod B"
    by (rule mod_mult2_eq)
  moreover have "unat l < B" using l B by simp
  ultimately have e3: "(M * B + unat l) mod (B * B) = M mod B * B + unat l"
    using B by (simp add: mult.commute)
  show ?thesis unfolding e1 BB B_def [symmetric] e2 e3 ..
qed

section \<open>The contract of a block function\<close>

locale block_hash =
  fixes block_func :: "'h \<Rightarrow> bytes \<Rightarrow> nat \<Rightarrow> 'h" and bs :: nat
  assumes block_local: "length x = bs \<Longrightarrow> block_func h (x @ y) 1 = block_func h x 1"
    and block_step: "block_func h d (Suc (Suc n)) = block_func (block_func h d 1) (drop bs d) (Suc n)"
    and bs_room: "9 \<le> bs"
begin

abbreviation fold_blocks :: "'h \<Rightarrow> bytes \<Rightarrow> 'h" where
  "fold_blocks \<equiv> md_fold bs (\<lambda>h x. block_func h x 1)"

lemma block_many: "Suc n * bs \<le> length d \<Longrightarrow> block_func h d (Suc n) = fold_blocks h (take (Suc n * bs) d)"
proof (induction n arbitrary: h d)
  case 0
  then have "block_func h (take bs d @ drop bs d) 1 = block_func h (take bs d) 1"
    by (intro block_local) simp
  with 0 show ?case using bs_room by (simp add: md_fold_one)
next
  case (Suc n)
  let ?x = "take bs d"
  have x: "length ?x = bs" using Suc.prems by simp
  have "block_func h (?x @ drop bs d) 1 = block_func h ?x 1" by (intro block_local x)
  then have one: "block_func h d 1 = block_func h ?x 1" by simp
  have "take (Suc (Suc n) * bs) d = ?x @ take (Suc n * bs) (drop bs d)"
    by (simp add: take_add)
  then have "fold_blocks h (take (Suc (Suc n) * bs) d) = fold_blocks (block_func h ?x 1) (take (Suc n * bs) (drop bs d))"
    using md_fold_block [OF x, of "\<lambda>h x. block_func h x 1" h] bs_room by simp
  then show ?case
    using Suc.IH [of "drop bs d" "block_func h ?x 1"] Suc.prems by (simp add: block_step one [unfolded One_nat_def])
qed

text \<open>The chaining value, the buffer and its fill after a message \<open>m\<close>, from the chaining value \<open>h0\<close>.\<close>

definition buffered :: "'h \<Rightarrow> bytes \<Rightarrow> 'h \<Rightarrow> bytes \<Rightarrow> nat \<Rightarrow> bool" where
  "buffered h0 m h data n \<longleftrightarrow>
     n = length m mod bs \<and> length data = bs \<and> take n data = drop (length m - n) m \<and>
     h = fold_blocks h0 (take (length m - n) m)"

lemma bs_pos: "0 < bs" using bs_room by simp

lemma buffered_init: "length data = bs \<Longrightarrow> buffered h0 [] h0 data 0"
  using bs_room by (simp add: buffered_def md_fold_short)

lemma buffered_n: "buffered h0 m h data n \<Longrightarrow> n < bs \<and> length data = bs \<and> n \<le> length m"
  using bs_pos by (auto simp: buffered_def mod_less_eq_dividend)

lemma buffered_whole:
  "buffered h0 m h data 0 \<Longrightarrow> bs dvd length m \<and> h = fold_blocks h0 m"
  by (auto simp: buffered_def dvd_eq_mod_eq_0)

lemma buffered_at_block:
  "bs dvd length m \<Longrightarrow> h = fold_blocks h0 m \<Longrightarrow> length data = bs \<Longrightarrow> buffered h0 m h data 0"
  by (simp add: buffered_def)

text \<open>Input that does not fill the buffer.\<close>

lemma buffered_add:
  assumes "buffered h0 m h data n" "length s + n < bs"
  shows "buffered h0 (m @ s) h (mem_copy data n s) (n + length s)"
proof -
  have inv: "n = length m mod bs" "length data = bs" "take n data = drop (length m - n) m"
    using assms(1) by (auto simp: buffered_def)
  have "length (m @ s) mod bs = n + length s"
    using assms(2) mod_add_left_eq [of "length m" bs "length s"] unfolding inv(1) [symmetric] by simp
  moreover have "length (m @ s) - (n + length s) = length m - n" by simp
  ultimately show ?thesis
    using assms(2) inv buffered_n [OF assms(1)] assms(1) unfolding buffered_def
    by (auto simp: mem_copy_def simp del: append_take_drop_id)
qed

text \<open>Input that fills it.\<close>

lemma buffered_fill:
  assumes "buffered h0 m h data n" "bs \<le> length s + n" "length data' = bs"
  shows "buffered h0 (m @ take (bs - n) s) (block_func h (mem_copy data n (take (bs - n) s)) 1) data' 0"
proof (rule buffered_at_block [OF _ _ assms(3)])
  let ?q = "length m - n" and ?t = "take (bs - n) s"
  have inv: "n = length m mod bs" "length data = bs" "take n data = drop ?q m" "h = fold_blocks h0 (take ?q m)"
    and n: "n < bs" "n \<le> length m"
    using assms(1) buffered_n [OF assms(1)] by (auto simp: buffered_def)
  have q: "bs dvd length (take ?q m)"
    using inv(1) by (simp add: minus_mod_eq_div_mult)
  have r: "mem_copy data n ?t = drop ?q m @ ?t"
    using assms(2) inv(2,3) by (simp add: mem_copy_def)
  have lr: "length (drop ?q m @ ?t) = bs"
    using assms(2) n by simp
  have m: "m @ ?t = take ?q m @ drop ?q m @ ?t" by simp
  show "block_func h (mem_copy data n ?t) 1 = fold_blocks h0 (m @ ?t)"
    unfolding m r inv(4) md_fold_append [OF bs_pos q] md_fold_one [OF lr bs_pos] ..
  show "bs dvd length (m @ ?t)"
    unfolding m length_append [of "take ?q m"] lr using q by simp
qed

text \<open>Whole blocks taken from the input.\<close>

lemma buffered_blocks:
  assumes "buffered h0 m h data 0"
  shows "buffered h0 (m @ take (length s div bs * bs) s)
    (if 0 < length s div bs then block_func h s (length s div bs) else h) data 0"
proof -
  let ?k = "length s div bs"
  have d: "bs dvd length m" and h: "h = fold_blocks h0 m" and l: "length data = bs"
    using buffered_whole [OF assms] buffered_n [OF assms] by simp_all
  have k: "?k * bs \<le> length s" by simp
  show ?thesis
  proof (cases ?k)
    case 0
    then show ?thesis using assms by simp
  next
    case (Suc j)
    then have "block_func h s ?k = fold_blocks h0 (m @ take (?k * bs) s)"
      using block_many [of j s h] k d h bs_pos by (simp add: md_fold_append)
    moreover have "bs dvd length (m @ take (?k * bs) s)" using d k by simp
    ultimately show ?thesis using Suc l by (intro buffered_at_block) simp_all
  qed
qed

text \<open>The end: a one bit, zeros, the length field, in the buffered block or in one more.\<close>

definition md_finish :: "nat \<Rightarrow> bytes \<Rightarrow> 'h \<Rightarrow> bytes \<Rightarrow> nat \<Rightarrow> 'h" where
  "md_finish lf L h data num =
     (let data = data[num := 0x80];
          n = num + 1;
          (h, data, n) =
            (if n > bs - lf then
               let data = mem_copy data n (replicate (bs - n) 0)
               in (block_func h data 1, data, 0)
             else (h, data, n));
          data = mem_copy data n (replicate (bs - lf - n) 0)
      in block_func h (take (bs - lf) data @ L) 1)"

lemma md_finish_eq:
  assumes "buffered h0 m h data n" "length L = lf" "lf < bs"
    and L: "L = (if be then be_bytes lf (8 * length m) else le_bytes lf (8 * length m))"
  shows "md_finish lf L h data n = fold_blocks h0 (md_pad bs lf be m)"
proof -
  let ?q = "length m - n"
  let ?r = "drop ?q m"
  have inv: "n = length m mod bs" "length data = bs" "take n data = ?r" "h = fold_blocks h0 (take ?q m)"
    and n: "n < bs" "n \<le> length m"
    using assms(1) buffered_n [OF assms(1)] by (auto simp: buffered_def)
  have q: "bs dvd length (take ?q m)" using inv(1) by (simp add: minus_mod_eq_div_mult)
  have lr: "length ?r = n" using n by simp
  show ?thesis
  proof (cases "n + 1 > bs - lf")
    case True
    let ?b1 = "?r @ [0x80] @ replicate (bs - (n + 1)) 0"
    let ?b2 = "replicate (bs - lf) 0 @ L"
    have d1: "mem_copy (data[n := 0x80]) (n + 1) (replicate (bs - (n + 1)) 0) = ?b1"
      using n inv(2,3) by (simp add: mem_copy_def take_Suc_conv_app_nth)
    have l1: "length ?b1 = bs" "length ?b2 = bs" using n lr assms(2,3) by simp_all
    have pad: "nat ((- int (length m + Suc lf)) mod int bs) = bs - (n + 1) + (bs - lf)"
      by (rule pad_two [OF inv(1)]) (use True n assms(3) in simp_all)
    have d2: "take (bs - lf) (mem_copy x 0 (replicate (bs - lf - 0) 0)) = replicate (bs - lf) 0" for x
      by (simp add: mem_copy_def)
    have "md_finish lf L h data n = block_func (block_func h ?b1 1) ?b2 1"
      unfolding md_finish_def Let_def if_P [OF True] prod.case d1 d2 ..
    also have "\<dots> = fold_blocks h0 (take ?q m @ ?b1 @ ?b2)"
      by (simp only: md_fold_append [OF bs_pos q] md_fold_block [OF l1(1) bs_pos] md_fold_one [OF l1(2) bs_pos] inv(4))
    also have "take ?q m @ ?b1 @ ?b2 = md_pad bs lf be m"
      unfolding md_pad_def pad L [symmetric] by (simp add: replicate_add)
    finally show ?thesis .
  next
    case False
    let ?b = "?r @ [0x80] @ replicate (bs - lf - (n + 1)) 0 @ L"
    have l: "length ?b = bs" using False lr assms(2,3) by simp
    have pad: "nat ((- int (length m + Suc lf)) mod int bs) = bs - lf - (n + 1)"
      by (rule pad_one [OF inv(1)]) (use False assms(3) in simp_all)
    have d1: "take (bs - lf) (mem_copy (data[n := 0x80]) (n + 1) (replicate (bs - lf - (n + 1)) 0)) =
        ?r @ [0x80] @ replicate (bs - lf - (n + 1)) 0"
      by (rule final_fill [OF inv(3) lr inv(2)]) (use False in simp)
    have "md_finish lf L h data n = block_func h ?b 1"
      unfolding md_finish_def Let_def if_not_P [OF False] prod.case d1 by simp
    also have "\<dots> = fold_blocks h0 (take ?q m @ ?b)"
      by (simp only: md_fold_append [OF bs_pos q] md_fold_one [OF l bs_pos] inv(4))
    also have "take ?q m @ ?b = md_pad bs lf be m"
      unfolding md_pad_def pad L [symmetric] by simp
    finally show ?thesis .
  qed
qed

end

end
