(* ===== verification/Md32.thy ===== *)
theory Md32
  imports Block_Hash
begin

text \<open>
  \<open>crypto/fipsmodule/digest/md32_common.h\<close>: the collector that SHA-1, SHA-224, SHA-256, MD4 and MD5
  share. It cuts the input into blocks for a block function, keeps the rest in a buffer, counts bits in
  two 32-bit words and pads the message at the end.

  The locale \<open>md32_hash\<close> is \<open>block_hash\<close> for a function on lists of 32-bit words. Inside it, the collector
  is shown to compute the hash \<open>md_fold\<close> of the padded message \<open>md_pad\<close>, whatever the sizes of the pieces
  in which the message arrives. Every 32-bit digest of the library is an interpretation.
\<close>

record md32_ctx =
  md_h :: "u32 list"
  md_Nl :: u32
  md_Nh :: u32
  md_data :: bytes
  md_num :: nat

type_synonym md32_block_func = "u32 list \<Rightarrow> bytes \<Rightarrow> nat \<Rightarrow> u32 list"

text \<open>The end of \<open>crypto_md32_update\<close>, reached with an empty buffer.\<close>

definition md32_whole_blocks :: "md32_block_func \<Rightarrow> nat \<Rightarrow> md32_ctx \<Rightarrow> bytes \<Rightarrow> md32_ctx" where
  "md32_whole_blocks block_func block_size c inp =
     (let n = length inp div block_size;
          (c, inp) =
            (if n > 0 then (c\<lparr>md_h := block_func (md_h c) inp n\<rparr>, drop (n * block_size) inp) else (c, inp))
      in if length inp \<noteq> 0 then
           c\<lparr>md_num := length inp, md_data := mem_copy (md_data c) 0 inp\<rparr>
         else c)"

definition crypto_md32_update :: "md32_block_func \<Rightarrow> nat \<Rightarrow> md32_ctx \<Rightarrow> bytes \<Rightarrow> md32_ctx" where
  "crypto_md32_update block_func block_size c inp =
     (if length inp = 0 then c
      else
        let l = md_Nl c + push_bit 3 (word_of_nat (length inp));
            Nh = (if l < md_Nl c then md_Nh c + 1 else md_Nh c);
            Nh = Nh + word_of_nat (length inp div 2 ^ 29);
            c = c\<lparr>md_Nh := Nh, md_Nl := l\<rparr>;
            n = md_num c
        in if n \<noteq> 0 \<and> \<not> (length inp \<ge> block_size \<or> length inp + n \<ge> block_size) then
             c\<lparr>md_data := mem_copy (md_data c) n inp, md_num := n + length inp\<rparr>
           else
             let (c, inp) =
               (if n \<noteq> 0 then
                  (c\<lparr>md_h := block_func (md_h c) (mem_copy (md_data c) n (take (block_size - n) inp)) 1,
                     md_num := 0, md_data := replicate block_size 0\<rparr>, drop (block_size - n) inp)
                else (c, inp))
             in md32_whole_blocks block_func block_size c inp)"

definition crypto_md32_final :: "md32_block_func \<Rightarrow> nat \<Rightarrow> bool \<Rightarrow> md32_ctx \<Rightarrow> md32_ctx" where
  "crypto_md32_final block_func block_size is_big_endian c =
     (let data = (md_data c)[md_num c := 0x80];
          n = md_num c + 1;
          (h, data, n) =
            (if n > block_size - 8 then
               let data = mem_copy data n (replicate (block_size - n) 0)
               in (block_func (md_h c) data 1, data, 0)
             else (md_h c, data, n));
          data = mem_copy data n (replicate (block_size - 8 - n) 0);
          data =
            (if is_big_endian then
               mem_copy (mem_copy data (block_size - 8) (CRYPTO_store_u32_be (md_Nh c)))
                 (block_size - 4) (CRYPTO_store_u32_be (md_Nl c))
             else
               mem_copy (mem_copy data (block_size - 8) (CRYPTO_store_u32_le (md_Nl c)))
                 (block_size - 4) (CRYPTO_store_u32_le (md_Nh c)))
      in c\<lparr>md_h := block_func h data 1, md_num := 0, md_data := replicate block_size 0\<rparr>)"

lemma store_count:
  assumes "unat (Nh :: u32) * 2 ^ 32 + unat (Nl :: u32) = k mod 2 ^ 64"
  shows "(if be then CRYPTO_store_u32_be Nh @ CRYPTO_store_u32_be Nl
      else CRYPTO_store_u32_le Nl @ CRYPTO_store_u32_le Nh) = (if be then be_bytes 8 k else le_bytes 8 k)"
proof -
  have le: "CRYPTO_store_u32_le Nl @ CRYPTO_store_u32_le Nh = le_bytes 8 k"
    using assms by (intro le_val_inject)
      (simp_all add: CRYPTO_store_u32_le_def le_val_append le_val_le_bytes unat_u32_less mult.commute)
  have "CRYPTO_store_u32_be Nh @ CRYPTO_store_u32_be Nl = be_bytes 8 k"
    using le by (simp add: store_u32_be_eq be_bytes_def CRYPTO_store_u32_le_def flip: rev_append)
  with le show ?thesis by simp
qed

section \<open>The collector\<close>

locale md32_hash = block_hash block_func bs for block_func :: md32_block_func and bs :: nat
begin

text \<open>The context after a message \<open>m\<close>, from the initial chaining value \<open>h0\<close>.\<close>

definition holds_message :: "u32 list \<Rightarrow> bytes \<Rightarrow> md32_ctx \<Rightarrow> bool" where
  "holds_message h0 m c \<longleftrightarrow>
     buffered h0 m (md_h c) (md_data c) (md_num c) \<and>
     unat (md_Nh c) * 2 ^ 32 + unat (md_Nl c) = 8 * length m mod 2 ^ 64"

lemma whole_blocks_buffered:
  fixes s :: bytes
  assumes "buffered h0 m (md_h c) (md_data c) 0" "md_num c = 0"
  defines "c' \<equiv> md32_whole_blocks block_func bs c s"
  shows "buffered h0 (m @ s) (md_h c') (md_data c') (md_num c') \<and> md_Nl c' = md_Nl c \<and> md_Nh c' = md_Nh c"
proof -
  let ?k = "length s div bs"
  let ?z = "drop (?k * bs) s"
  let ?h = "if 0 < ?k then block_func (md_h c) s ?k else md_h c"
  have b: "buffered h0 (m @ take (?k * bs) s) ?h (md_data c) 0"
    by (rule buffered_blocks [OF assms(1)])
  have "length ?z < bs" using bs_pos by (simp add: minus_div_mult_eq_mod)
  then have z: "buffered h0 (m @ s) ?h (mem_copy (md_data c) 0 ?z) (length ?z)"
    using buffered_add [OF b, of ?z] by simp
  have e: "?z = [] \<Longrightarrow> buffered h0 (m @ s) ?h (md_data c) 0" using b by simp
  have c': "c' = (let c = c\<lparr>md_h := ?h\<rparr> in if ?z = [] then c else c\<lparr>md_num := length ?z, md_data := mem_copy (md_data c) 0 ?z\<rparr>)"
    unfolding c'_def md32_whole_blocks_def Let_def by (cases "0 < ?k") auto
  show ?thesis using z e assms(2) unfolding c' by (auto simp: Let_def)
qed

lemma update_holds:
  assumes "holds_message h0 m c"
  shows "holds_message h0 (m @ inp) (crypto_md32_update block_func bs c inp)"
proof (cases "inp = []")
  case True
  then show ?thesis using assms by (simp add: crypto_md32_update_def)
next
  case False
  let ?n = "md_num c"
  define l where "l = md_Nl c + push_bit 3 (word_of_nat (length inp))"
  define Nh where "Nh = (if l < md_Nl c then md_Nh c + 1 else md_Nh c) + word_of_nat (length inp div 2 ^ 29)"
  define c1 where "c1 = c\<lparr>md_Nh := Nh, md_Nl := l\<rparr>"
  have buf: "buffered h0 m (md_h c) (md_data c) ?n" using assms by (simp add: holds_message_def)
  have bits: "unat Nh * 2 ^ 32 + unat l = 8 * length (m @ inp) mod 2 ^ 64"
  proof -
    have "unat (md_Nh c) * 2 ^ 32 + unat (md_Nl c) = 8 * length m mod 2 ^ 64"
      using assms by (simp add: holds_message_def)
    moreover have "unat Nh * 2 ^ 32 + unat l = (unat (md_Nh c) * 2 ^ 32 + unat (md_Nl c) + 8 * length inp) mod 2 ^ 64"
      using bits_add [of "md_Nl c" "length inp" "md_Nh c"] unfolding Nh_def l_def by simp
    ultimately show ?thesis by (simp only: length_append distrib_left mod_add_left_eq)
  qed
  consider "?n \<noteq> 0" "length inp + ?n < bs" | "?n \<noteq> 0" "bs \<le> length inp + ?n" | "?n = 0" by linarith
  then show ?thesis
  proof cases
    case 1
    have "crypto_md32_update block_func bs c inp = c1\<lparr>md_data := mem_copy (md_data c) ?n inp, md_num := ?n + length inp\<rparr>"
      using 1 False by (simp add: crypto_md32_update_def Let_def c1_def l_def Nh_def)
    then show ?thesis
      using buffered_add [OF buf 1(2)] bits by (simp add: holds_message_def c1_def)
  next
    case 2
    let ?t = "take (bs - ?n) inp"
    let ?c2 = "c1\<lparr>md_h := block_func (md_h c) (mem_copy (md_data c) ?n ?t) 1, md_num := 0, md_data := replicate bs 0\<rparr>"
    have "crypto_md32_update block_func bs c inp = md32_whole_blocks block_func bs ?c2 (drop (bs - ?n) inp)"
      using 2 False by (auto simp: crypto_md32_update_def Let_def c1_def l_def Nh_def)
    moreover have "buffered h0 (m @ ?t) (md_h ?c2) (md_data ?c2) 0"
      using buffered_fill [OF buf 2(2), of "replicate bs 0"] by simp
    ultimately show ?thesis
      using whole_blocks_buffered [of h0 "m @ ?t" ?c2 "drop (bs - ?n) inp"] bits
      by (simp add: holds_message_def c1_def)
  next
    case 3
    have "crypto_md32_update block_func bs c inp = md32_whole_blocks block_func bs c1 inp"
      using 3 False by (simp add: crypto_md32_update_def Let_def c1_def l_def Nh_def)
    then show ?thesis
      using whole_blocks_buffered [of h0 m c1 inp] 3 buf bits by (simp add: holds_message_def c1_def)
  qed
qed

lemma final_eq:
  assumes "holds_message h0 m c"
  shows "md_h (crypto_md32_final block_func bs be c) = fold_blocks h0 (md_pad bs 8 be m)"
proof -
  define L where "L = (if be then be_bytes 8 (8 * length m) else le_bytes 8 (8 * length m))"
  have buf: "buffered h0 m (md_h c) (md_data c) (md_num c)"
    and bits: "unat (md_Nh c) * 2 ^ 32 + unat (md_Nl c) = 8 * length m mod 2 ^ 64"
    using assms by (simp_all add: holds_message_def)
  have store: "(if be then CRYPTO_store_u32_be (md_Nh c) @ CRYPTO_store_u32_be (md_Nl c)
      else CRYPTO_store_u32_le (md_Nl c) @ CRYPTO_store_u32_le (md_Nh c)) = L"
    unfolding L_def by (rule store_count [OF bits])
  have tail: "(if be then mem_copy (mem_copy d (bs - 8) (CRYPTO_store_u32_be (md_Nh c))) (bs - 4) (CRYPTO_store_u32_be (md_Nl c))
      else mem_copy (mem_copy d (bs - 8) (CRYPTO_store_u32_le (md_Nl c))) (bs - 4) (CRYPTO_store_u32_le (md_Nh c))) =
      take (bs - 8) d @ L" if "length d = bs" for d
    using that store bs_room by (simp add: mem_copy_def split: if_splits)
  have len: "length (mem_copy (mem_copy ((md_data c)[md_num c := 0x80]) (md_num c + 1) (replicate (bs - (md_num c + 1)) 0)) 0
      (replicate (bs - 8 - 0) 0)) = bs"
    "\<not> md_num c + 1 > bs - 8 \<Longrightarrow>
      length (mem_copy ((md_data c)[md_num c := 0x80]) (md_num c + 1) (replicate (bs - 8 - (md_num c + 1)) 0)) = bs"
    using buffered_n [OF buf] by (auto simp: mem_copy_def)
  have "md_h (crypto_md32_final block_func bs be c) = md_finish 8 L (md_h c) (md_data c) (md_num c)"
  proof (cases "md_num c + 1 > bs - 8")
    case True
    show ?thesis
      unfolding crypto_md32_final_def md_finish_def Let_def if_P [OF True] prod.case tail [OF len(1)] by simp
  next
    case False
    show ?thesis
      unfolding crypto_md32_final_def md_finish_def Let_def if_not_P [OF False] prod.case tail [OF len(2) [OF False]] by simp
  qed
  also have "\<dots> = fold_blocks h0 (md_pad bs 8 be m)"
    using bs_room by (intro md_finish_eq [OF buf]) (simp_all add: L_def)
  finally show ?thesis .
qed

text \<open>A message in pieces, from the initial context.\<close>

lemma updates_hold:
  "holds_message h0 m c \<Longrightarrow> holds_message h0 (m @ concat ps) (foldl (crypto_md32_update block_func bs) c ps)"
proof (induction ps arbitrary: m c)
  case (Cons p ps)
  then show ?case using update_holds [OF Cons.prems, of p] by fastforce
qed simp

lemma init_holds:
  "holds_message h0 [] \<lparr>md_h = h0, md_Nl = 0, md_Nh = 0, md_data = replicate bs 0, md_num = 0\<rparr>"
  by (simp add: holds_message_def buffered_init)

lemma digest_eq:
  "md_h (crypto_md32_final block_func bs be
      (foldl (crypto_md32_update block_func bs)
         \<lparr>md_h = h0, md_Nl = 0, md_Nh = 0, md_data = replicate bs 0, md_num = 0\<rparr> ps)) =
   fold_blocks h0 (md_pad bs 8 be (concat ps))"
  using final_eq [OF updates_hold [OF init_holds]] by simp

end

end
