(* ===== verification/Md4.thy ===== *)
theory Md4
  imports Md32
begin

text \<open>
  \<open>crypto/fipsmodule/md4/md4.c\<close>. The model keeps the table of the 48 steps as the code writes them out
  (word of the block, rotation, constant); \<open>md4_compress\<close> is the compression function of RFC 1320.
\<close>

definition md4_F :: "u32 \<Rightarrow> u32 \<Rightarrow> u32 \<Rightarrow> u32" where
  "md4_F b c d = (((c XOR d) AND b) XOR d)"

definition md4_G :: "u32 \<Rightarrow> u32 \<Rightarrow> u32 \<Rightarrow> u32" where
  "md4_G b c d = ((b AND c) OR (b AND d) OR (c AND d))"

definition md4_H :: "u32 \<Rightarrow> u32 \<Rightarrow> u32 \<Rightarrow> u32" where
  "md4_H b c d = (b XOR c XOR d)"


type_synonym md4_vars = "u32 \<times> u32 \<times> u32 \<times> u32"

text \<open>A step returns the variables in the order in which the next step names them.\<close>

fun md4_R0 :: "u32 \<Rightarrow> nat \<Rightarrow> u32 \<Rightarrow> md4_vars \<Rightarrow> md4_vars" where
  "md4_R0 k s t (a, b, c, d) =
     (let a = a + (k + t + md4_F b c d);
          a = CRYPTO_rotl_u32 a s
      in (d, a, b, c))"

fun md4_R1 :: "u32 \<Rightarrow> nat \<Rightarrow> u32 \<Rightarrow> md4_vars \<Rightarrow> md4_vars" where
  "md4_R1 k s t (a, b, c, d) =
     (let a = a + (k + t + md4_G b c d);
          a = CRYPTO_rotl_u32 a s
      in (d, a, b, c))"

fun md4_R2 :: "u32 \<Rightarrow> nat \<Rightarrow> u32 \<Rightarrow> md4_vars \<Rightarrow> md4_vars" where
  "md4_R2 k s t (a, b, c, d) =
     (let a = a + (k + t + md4_H b c d);
          a = CRYPTO_rotl_u32 a s
      in (d, a, b, c))"

text \<open>The steps of each round of the block function: the word of the block, the rotation, the constant.\<close>

definition md4_round0 :: "(nat \<times> nat \<times> u32) list" where
  "md4_round0 =
    [(0, 3, 0), (1, 7, 0), (2, 11, 0), (3, 19, 0),
     (4, 3, 0), (5, 7, 0), (6, 11, 0), (7, 19, 0),
     (8, 3, 0), (9, 7, 0), (10, 11, 0), (11, 19, 0),
     (12, 3, 0), (13, 7, 0), (14, 11, 0), (15, 19, 0)]"

definition md4_round1 :: "(nat \<times> nat \<times> u32) list" where
  "md4_round1 =
    [(0, 3, 1518500249), (4, 5, 1518500249), (8, 9, 1518500249), (12, 13, 1518500249),
     (1, 3, 1518500249), (5, 5, 1518500249), (9, 9, 1518500249), (13, 13, 1518500249),
     (2, 3, 1518500249), (6, 5, 1518500249), (10, 9, 1518500249), (14, 13, 1518500249),
     (3, 3, 1518500249), (7, 5, 1518500249), (11, 9, 1518500249), (15, 13, 1518500249)]"

definition md4_round2 :: "(nat \<times> nat \<times> u32) list" where
  "md4_round2 =
    [(0, 3, 1859775393), (8, 9, 1859775393), (4, 11, 1859775393), (12, 15, 1859775393),
     (2, 3, 1859775393), (10, 9, 1859775393), (6, 11, 1859775393), (14, 15, 1859775393),
     (1, 3, 1859775393), (9, 9, 1859775393), (5, 11, 1859775393), (13, 15, 1859775393),
     (3, 3, 1859775393), (11, 9, 1859775393), (7, 11, 1859775393), (15, 15, 1859775393)]"

definition md4_load :: "bytes \<Rightarrow> u32 list" where
  "md4_load data = map (\<lambda>i. CRYPTO_load_u32_le (drop (4 * i) data)) [0..<16]"

definition md4_block :: "u32 list \<Rightarrow> bytes \<Rightarrow> u32 list" where
  "md4_block state data =
     (let X = md4_load data;
          v = (state ! 0, state ! 1, state ! 2, state ! 3);
          v = fold (\<lambda>(k, s, t). md4_R0 (X ! k) s t) md4_round0 v;
          v = fold (\<lambda>(k, s, t). md4_R1 (X ! k) s t) md4_round1 v;
          v = fold (\<lambda>(k, s, t). md4_R2 (X ! k) s t) md4_round2 v;
          (A, B, C, D) = v
      in [state ! 0 + A, state ! 1 + B, state ! 2 + C, state ! 3 + D])"

fun md4_block_data_order :: "u32 list \<Rightarrow> bytes \<Rightarrow> nat \<Rightarrow> u32 list" where
  "md4_block_data_order state data 0 = state"
| "md4_block_data_order state data (Suc num) =
     md4_block_data_order (md4_block state data) (drop 64 data) num"

definition MD4_CBLOCK :: nat where "MD4_CBLOCK = 64"

definition MD4_Init :: md32_ctx where
  "MD4_Init =
     \<lparr>md_h = [1732584193, 4023233417, 2562383102, 271733878],
      md_Nl = 0, md_Nh = 0, md_data = replicate MD4_CBLOCK 0, md_num = 0\<rparr>"

definition MD4_Transform :: "md32_ctx \<Rightarrow> bytes \<Rightarrow> md32_ctx" where
  "MD4_Transform c data = c\<lparr>md_h := md4_block_data_order (md_h c) data 1\<rparr>"

definition MD4_Update :: "md32_ctx \<Rightarrow> bytes \<Rightarrow> md32_ctx" where
  "MD4_Update c data = crypto_md32_update md4_block_data_order MD4_CBLOCK c data"

definition MD4_Final :: "md32_ctx \<Rightarrow> bytes \<times> md32_ctx" where
  "MD4_Final c =
     (let c = crypto_md32_final md4_block_data_order MD4_CBLOCK False c
      in (CRYPTO_store_u32_le (md_h c ! 0) @ CRYPTO_store_u32_le (md_h c ! 1) @ CRYPTO_store_u32_le (md_h c ! 2) @ CRYPTO_store_u32_le (md_h c ! 3), c))"

definition MD4 :: "bytes \<Rightarrow> bytes" where
  "MD4 data = fst (MD4_Final (MD4_Update MD4_Init data))"

section \<open>The hash of RFC 1320\<close>

definition md4_rfc_F :: "u32 \<Rightarrow> u32 \<Rightarrow> u32 \<Rightarrow> u32" where
  "md4_rfc_F x y z = ((x AND y) OR (NOT x AND z))"

definition md4_rfc_G :: "u32 \<Rightarrow> u32 \<Rightarrow> u32 \<Rightarrow> u32" where
  "md4_rfc_G x y z = ((x AND y) OR (x AND z) OR (y AND z))"

definition md4_rfc_H :: "u32 \<Rightarrow> u32 \<Rightarrow> u32 \<Rightarrow> u32" where
  "md4_rfc_H x y z = (x XOR y XOR z)"

definition md4_f :: "nat \<Rightarrow> u32 \<Rightarrow> u32 \<Rightarrow> u32 \<Rightarrow> u32" where
  "md4_f i = (if i < 16 then md4_rfc_F else if i < 32 then md4_rfc_G else md4_rfc_H)"

text \<open>The second round reads the block by columns, the third in bit-reversed order.\<close>

definition md4_index :: "nat \<Rightarrow> nat" where
  "md4_index i =
     (if i < 16 then i else if i < 32 then i mod 4 * 4 + (i - 16) div 4
      else i mod 2 * 8 + i div 2 mod 2 * 4 + i div 4 mod 2 * 2 + i div 8 mod 2)"

definition md4_shift :: "nat \<Rightarrow> nat" where
  "md4_shift i = [[3, 7, 11, 19], [3, 5, 9, 13], [3, 9, 11, 15]] ! (i div 16) ! (i mod 4)"

definition md4_T :: "nat \<Rightarrow> u32" where
  "md4_T i = (if i < 16 then 0 else if i < 32 then 0x5a827999 else 0x6ed9eba1)"

fun md4_op :: "(u32 \<Rightarrow> u32 \<Rightarrow> u32 \<Rightarrow> u32) \<Rightarrow> u32 \<Rightarrow> nat \<Rightarrow> u32 \<Rightarrow> md4_vars \<Rightarrow> md4_vars" where
  "md4_op f x s t (a, b, c, d) = (d, CRYPTO_rotl_u32 (a + f b c d + x + t) s, b, c)"

definition md4_compress :: "u32 list \<Rightarrow> bytes \<Rightarrow> u32 list" where
  "md4_compress H blk =
     (let X = md4_load blk;
          (a, b, c, d) =
            fold (\<lambda>i. md4_op (md4_f i) (X ! md4_index i) (md4_shift i) (md4_T i)) [0..<48]
              (H ! 0, H ! 1, H ! 2, H ! 3)
      in [H ! 0 + a, H ! 1 + b, H ! 2 + c, H ! 3 + d])"

definition md4_words :: "bytes \<Rightarrow> u32 list" where
  "md4_words m = md_fold 64 md4_compress (md_h MD4_Init) (md_pad 64 8 False m)"

lemma md4_R_op:
  "md4_R0 k s t = md4_op md4_rfc_F k s t"
  "md4_R1 k s t = md4_op md4_rfc_G k s t"
  "md4_R2 k s t = md4_op md4_rfc_H k s t"
proof -
  have f0: "md4_F b c d = md4_rfc_F b c d" for b c d
    unfolding md4_F_def md4_rfc_F_def by (rule bit_word_eqI) (auto simp: bit_or_iff bit_and_iff bit_xor_iff bit_not_iff)
  have f1: "md4_G b c d = md4_rfc_G b c d" for b c d
    unfolding md4_G_def md4_rfc_G_def by (rule bit_word_eqI) (auto simp: bit_or_iff bit_and_iff bit_xor_iff bit_not_iff)
  have f2: "md4_H b c d = md4_rfc_H b c d" for b c d
    unfolding md4_H_def md4_rfc_H_def by (rule bit_word_eqI) (auto simp: bit_or_iff bit_and_iff bit_xor_iff bit_not_iff)
  show "md4_R0 k s t = md4_op md4_rfc_F k s t"
    by (rule ext, rename_tac v, case_tac v) (simp add: f0 Let_def add_ac)
  show "md4_R1 k s t = md4_op md4_rfc_G k s t"
    by (rule ext, rename_tac v, case_tac v) (simp add: f1 Let_def add_ac)
  show "md4_R2 k s t = md4_op md4_rfc_H k s t"
    by (rule ext, rename_tac v, case_tac v) (simp add: f2 Let_def add_ac)
qed

lemma md4_rounds:
  "md4_round0 = map (\<lambda>i. (md4_index i, md4_shift i, md4_T i)) [0..<16]"
  "md4_round1 = map (\<lambda>i. (md4_index i, md4_shift i, md4_T i)) [16..<32]"
  "md4_round2 = map (\<lambda>i. (md4_index i, md4_shift i, md4_T i)) [32..<48]"
  by code_simp+

lemma md4_block_eq: "md4_block H blk = md4_compress H blk"
proof -
  let ?X = "md4_load blk"
  let ?op = "\<lambda>i. md4_op (md4_f i) (?X ! md4_index i) (md4_shift i) (md4_T i)"
  have r: "fold (\<lambda>(k, s, t). md4_op f (?X ! k) s t) (map (\<lambda>i. (md4_index i, md4_shift i, md4_T i)) [m..<n]) v =
      fold ?op [m..<n] v" if "\<And>i. m \<le> i \<Longrightarrow> i < n \<Longrightarrow> md4_f i = f" for f m n v
    unfolding fold_map using that by (intro fold_cong) (simp_all add: fun_eq_iff)
  have u: "[0..<48] = [0..<16] @ [16..<32] @ [32..<48]"
    by code_simp
  have r0: "fold (\<lambda>(k, s, t). md4_R0 (?X ! k) s t) md4_round0 v = fold ?op [0..<16] v" for v
    unfolding md4_R_op md4_rounds by (rule r) (simp add: md4_f_def)
  have r1: "fold (\<lambda>(k, s, t). md4_R1 (?X ! k) s t) md4_round1 v = fold ?op [16..<32] v" for v
    unfolding md4_R_op md4_rounds by (rule r) (simp add: md4_f_def)
  have r2: "fold (\<lambda>(k, s, t). md4_R2 (?X ! k) s t) md4_round2 v = fold ?op [32..<48] v" for v
    unfolding md4_R_op md4_rounds by (rule r) (simp add: md4_f_def)
  show ?thesis
    unfolding md4_block_def md4_compress_def Let_def r0 r1 r2 u fold_append comp_apply ..
qed

section \<open>The digest\<close>

lemma md4_load_local: "length x = 64 \<Longrightarrow> md4_load (x @ y) = md4_load x"
  unfolding md4_load_def by (intro map_cong load_u32_le_local) simp_all

interpretation md4: md32_hash md4_block_data_order 64
  by unfold_locales (simp_all add: md4_block_eq md4_compress_def md4_load_local)

lemma md4_block_one: "md4_block_data_order h x 1 = md4_compress h x"
  by (simp add: md4_block_eq)

lemma length_md4_words: "length (md4_words m) = 4"
  unfolding md4_words_def
  by (rule md_fold_invariant [where P = "\<lambda>h. length h = 4"])
    (simp_all add: MD4_Init_def md4_compress_def Let_def case_prod_unfold)

definition md4_digest :: "bytes \<Rightarrow> bytes" where
  "md4_digest m = concat (map (\<lambda>w. le_bytes 4 (unat w)) (md4_words m))"

lemma length_md4_digest: "length (md4_digest m) = 16"
  by (simp add: md4_digest_def length_concat comp_def length_md4_words sum_list_triv)

text \<open>The context that has taken in a message.\<close>

abbreviation md4_holds :: "bytes \<Rightarrow> md32_ctx \<Rightarrow> bool" where
  "md4_holds \<equiv> md4.holds_message (md_h MD4_Init)"

lemma md4_holds_init: "md4_holds [] MD4_Init"
  using md4.init_holds [of "md_h MD4_Init"] by (simp add: MD4_Init_def MD4_CBLOCK_def)

lemma md4_holds_update: "md4_holds m c \<Longrightarrow> md4_holds (m @ s) (MD4_Update c s)"
  unfolding MD4_Update_def MD4_CBLOCK_def by (rule md4.update_holds)

lemma md4_holds_updates: "md4_holds m c \<Longrightarrow> md4_holds (m @ concat ps) (foldl MD4_Update c ps)"
proof (induction ps arbitrary: m c)
  case (Cons s ps)
  then show ?case using md4_holds_update [OF Cons.prems, of s] by fastforce
qed simp

lemma md4_holds_final:
  assumes "md4_holds m c"
  shows "fst (MD4_Final c) = md4_digest m"
proof -
  let ?h = "md4_words m"
  have h: "md_h (crypto_md32_final md4_block_data_order 64 False c) = ?h"
    unfolding md4.final_eq [OF assms] md4_block_one md4_words_def ..
  have u: "[0..<4] = [0, 1, 2, 3]" by code_simp
  have "?h = map ((!) ?h) [0..<4]" using map_nth [of ?h] by (simp only: length_md4_words)
  then have "?h = [?h ! 0, ?h ! 1, ?h ! 2, ?h ! 3]" unfolding u by (simp only: list.map)
  then have "md4_digest m = concat (map (\<lambda>w. le_bytes 4 (unat w)) [?h ! 0, ?h ! 1, ?h ! 2, ?h ! 3])"
    unfolding md4_digest_def by (rule arg_cong)
  then show ?thesis by (simp add: MD4_Final_def MD4_CBLOCK_def h Let_def CRYPTO_store_u32_le_def)
qed

text \<open>MD4 in pieces. Whatever the sizes of the pieces given to \<open>MD4_Update\<close>, the digest is that of
  RFC 1320 for the whole message: little-endian padding to blocks of 64 bytes, three rounds over each
  block, the four words in little-endian order.\<close>

theorem MD4_streams_RFC1320:
  "fst (MD4_Final (foldl MD4_Update MD4_Init ps)) = concat (map (\<lambda>w. le_bytes 4 (unat w)) (md4_words (concat ps)))"
  using md4_holds_final [OF md4_holds_updates [OF md4_holds_init]] by (simp add: md4_digest_def)

end
