(* ===== verification/Md5.thy ===== *)
theory Md5
  imports Md32
begin

text \<open>
  \<open>crypto/fipsmodule/md5/md5.c\<close>. The model keeps the table of the 64 steps as the code writes them out
  (word of the block, rotation, constant) and the simplified round functions; \<open>md5_compress\<close> is the
  compression function of RFC 1321, with its index formulas and round functions.
\<close>

definition md5_F :: "u32 \<Rightarrow> u32 \<Rightarrow> u32 \<Rightarrow> u32" where
  "md5_F b c d = (((c XOR d) AND b) XOR d)"

definition md5_G :: "u32 \<Rightarrow> u32 \<Rightarrow> u32 \<Rightarrow> u32" where
  "md5_G b c d = (((b XOR c) AND d) XOR c)"

definition md5_H :: "u32 \<Rightarrow> u32 \<Rightarrow> u32 \<Rightarrow> u32" where
  "md5_H b c d = (b XOR c XOR d)"

definition md5_I :: "u32 \<Rightarrow> u32 \<Rightarrow> u32 \<Rightarrow> u32" where
  "md5_I b c d = ((NOT d OR b) XOR c)"


type_synonym md5_vars = "u32 \<times> u32 \<times> u32 \<times> u32"

text \<open>A step returns the variables in the order in which the next step names them.\<close>

fun md5_R0 :: "u32 \<Rightarrow> nat \<Rightarrow> u32 \<Rightarrow> md5_vars \<Rightarrow> md5_vars" where
  "md5_R0 k s t (a, b, c, d) =
     (let a = a + (k + t + md5_F b c d);
          a = CRYPTO_rotl_u32 a s;
          a = a + b
      in (d, a, b, c))"

fun md5_R1 :: "u32 \<Rightarrow> nat \<Rightarrow> u32 \<Rightarrow> md5_vars \<Rightarrow> md5_vars" where
  "md5_R1 k s t (a, b, c, d) =
     (let a = a + (k + t + md5_G b c d);
          a = CRYPTO_rotl_u32 a s;
          a = a + b
      in (d, a, b, c))"

fun md5_R2 :: "u32 \<Rightarrow> nat \<Rightarrow> u32 \<Rightarrow> md5_vars \<Rightarrow> md5_vars" where
  "md5_R2 k s t (a, b, c, d) =
     (let a = a + (k + t + md5_H b c d);
          a = CRYPTO_rotl_u32 a s;
          a = a + b
      in (d, a, b, c))"

fun md5_R3 :: "u32 \<Rightarrow> nat \<Rightarrow> u32 \<Rightarrow> md5_vars \<Rightarrow> md5_vars" where
  "md5_R3 k s t (a, b, c, d) =
     (let a = a + (k + t + md5_I b c d);
          a = CRYPTO_rotl_u32 a s;
          a = a + b
      in (d, a, b, c))"

text \<open>The steps of each round of the block function: the word of the block, the rotation, the constant.\<close>

definition md5_round0 :: "(nat \<times> nat \<times> u32) list" where
  "md5_round0 =
    [(0, 7, 3614090360), (1, 12, 3905402710), (2, 17, 606105819), (3, 22, 3250441966),
     (4, 7, 4118548399), (5, 12, 1200080426), (6, 17, 2821735955), (7, 22, 4249261313),
     (8, 7, 1770035416), (9, 12, 2336552879), (10, 17, 4294925233), (11, 22, 2304563134),
     (12, 7, 1804603682), (13, 12, 4254626195), (14, 17, 2792965006), (15, 22, 1236535329)]"

definition md5_round1 :: "(nat \<times> nat \<times> u32) list" where
  "md5_round1 =
    [(1, 5, 4129170786), (6, 9, 3225465664), (11, 14, 643717713), (0, 20, 3921069994),
     (5, 5, 3593408605), (10, 9, 38016083), (15, 14, 3634488961), (4, 20, 3889429448),
     (9, 5, 568446438), (14, 9, 3275163606), (3, 14, 4107603335), (8, 20, 1163531501),
     (13, 5, 2850285829), (2, 9, 4243563512), (7, 14, 1735328473), (12, 20, 2368359562)]"

definition md5_round2 :: "(nat \<times> nat \<times> u32) list" where
  "md5_round2 =
    [(5, 4, 4294588738), (8, 11, 2272392833), (11, 16, 1839030562), (14, 23, 4259657740),
     (1, 4, 2763975236), (4, 11, 1272893353), (7, 16, 4139469664), (10, 23, 3200236656),
     (13, 4, 681279174), (0, 11, 3936430074), (3, 16, 3572445317), (6, 23, 76029189),
     (9, 4, 3654602809), (12, 11, 3873151461), (15, 16, 530742520), (2, 23, 3299628645)]"

definition md5_round3 :: "(nat \<times> nat \<times> u32) list" where
  "md5_round3 =
    [(0, 6, 4096336452), (7, 10, 1126891415), (14, 15, 2878612391), (5, 21, 4237533241),
     (12, 6, 1700485571), (3, 10, 2399980690), (10, 15, 4293915773), (1, 21, 2240044497),
     (8, 6, 1873313359), (15, 10, 4264355552), (6, 15, 2734768916), (13, 21, 1309151649),
     (4, 6, 4149444226), (11, 10, 3174756917), (2, 15, 718787259), (9, 21, 3951481745)]"

definition md5_load :: "bytes \<Rightarrow> u32 list" where
  "md5_load data = map (\<lambda>i. CRYPTO_load_u32_le (drop (4 * i) data)) [0..<16]"

definition md5_block :: "u32 list \<Rightarrow> bytes \<Rightarrow> u32 list" where
  "md5_block state data =
     (let X = md5_load data;
          v = (state ! 0, state ! 1, state ! 2, state ! 3);
          v = fold (\<lambda>(k, s, t). md5_R0 (X ! k) s t) md5_round0 v;
          v = fold (\<lambda>(k, s, t). md5_R1 (X ! k) s t) md5_round1 v;
          v = fold (\<lambda>(k, s, t). md5_R2 (X ! k) s t) md5_round2 v;
          v = fold (\<lambda>(k, s, t). md5_R3 (X ! k) s t) md5_round3 v;
          (A, B, C, D) = v
      in [state ! 0 + A, state ! 1 + B, state ! 2 + C, state ! 3 + D])"

fun md5_block_data_order :: "u32 list \<Rightarrow> bytes \<Rightarrow> nat \<Rightarrow> u32 list" where
  "md5_block_data_order state data 0 = state"
| "md5_block_data_order state data (Suc num) =
     md5_block_data_order (md5_block state data) (drop 64 data) num"

definition MD5_CBLOCK :: nat where "MD5_CBLOCK = 64"

definition MD5_Init :: md32_ctx where
  "MD5_Init =
     \<lparr>md_h = [1732584193, 4023233417, 2562383102, 271733878],
      md_Nl = 0, md_Nh = 0, md_data = replicate MD5_CBLOCK 0, md_num = 0\<rparr>"

definition MD5_Transform :: "md32_ctx \<Rightarrow> bytes \<Rightarrow> md32_ctx" where
  "MD5_Transform c data = c\<lparr>md_h := md5_block_data_order (md_h c) data 1\<rparr>"

definition MD5_Update :: "md32_ctx \<Rightarrow> bytes \<Rightarrow> md32_ctx" where
  "MD5_Update c data = crypto_md32_update md5_block_data_order MD5_CBLOCK c data"

definition MD5_Final :: "md32_ctx \<Rightarrow> bytes \<times> md32_ctx" where
  "MD5_Final c =
     (let c = crypto_md32_final md5_block_data_order MD5_CBLOCK False c
      in (CRYPTO_store_u32_le (md_h c ! 0) @ CRYPTO_store_u32_le (md_h c ! 1) @ CRYPTO_store_u32_le (md_h c ! 2) @ CRYPTO_store_u32_le (md_h c ! 3), c))"

definition MD5 :: "bytes \<Rightarrow> bytes" where
  "MD5 data = fst (MD5_Final (MD5_Update MD5_Init data))"

section \<open>The hash of RFC 1321\<close>

definition md5_rfc_F :: "u32 \<Rightarrow> u32 \<Rightarrow> u32 \<Rightarrow> u32" where
  "md5_rfc_F x y z = ((x AND y) OR (NOT x AND z))"

definition md5_rfc_G :: "u32 \<Rightarrow> u32 \<Rightarrow> u32 \<Rightarrow> u32" where
  "md5_rfc_G x y z = ((x AND z) OR (y AND NOT z))"

definition md5_rfc_H :: "u32 \<Rightarrow> u32 \<Rightarrow> u32 \<Rightarrow> u32" where
  "md5_rfc_H x y z = (x XOR y XOR z)"

definition md5_rfc_I :: "u32 \<Rightarrow> u32 \<Rightarrow> u32 \<Rightarrow> u32" where
  "md5_rfc_I x y z = (y XOR (x OR NOT z))"

definition md5_f :: "nat \<Rightarrow> u32 \<Rightarrow> u32 \<Rightarrow> u32 \<Rightarrow> u32" where
  "md5_f i = (if i < 16 then md5_rfc_F else if i < 32 then md5_rfc_G else if i < 48 then md5_rfc_H else md5_rfc_I)"

definition md5_index :: "nat \<Rightarrow> nat" where
  "md5_index i =
     (if i < 16 then i else if i < 32 then (5 * i + 1) mod 16 else if i < 48 then (3 * i + 5) mod 16
      else 7 * i mod 16)"

definition md5_shift :: "nat \<Rightarrow> nat" where
  "md5_shift i =
     [[7, 12, 17, 22], [5, 9, 14, 20], [4, 11, 16, 23], [6, 10, 15, 21]] ! (i div 16) ! (i mod 4)"

text \<open>The constants of the code, in the order of the steps. The RFC derives them from the sine; that is
  not part of the model.\<close>

definition md5_T :: "nat \<Rightarrow> u32" where
  "md5_T i = (snd \<circ> snd) ((md5_round0 @ md5_round1 @ md5_round2 @ md5_round3) ! i)"

fun md5_op :: "(u32 \<Rightarrow> u32 \<Rightarrow> u32 \<Rightarrow> u32) \<Rightarrow> u32 \<Rightarrow> nat \<Rightarrow> u32 \<Rightarrow> md5_vars \<Rightarrow> md5_vars" where
  "md5_op f x s t (a, b, c, d) = (d, b + CRYPTO_rotl_u32 (a + f b c d + x + t) s, b, c)"

definition md5_compress :: "u32 list \<Rightarrow> bytes \<Rightarrow> u32 list" where
  "md5_compress H blk =
     (let X = md5_load blk;
          (a, b, c, d) =
            fold (\<lambda>i. md5_op (md5_f i) (X ! md5_index i) (md5_shift i) (md5_T i)) [0..<64]
              (H ! 0, H ! 1, H ! 2, H ! 3)
      in [H ! 0 + a, H ! 1 + b, H ! 2 + c, H ! 3 + d])"

definition md5_words :: "bytes \<Rightarrow> u32 list" where
  "md5_words m = md_fold 64 md5_compress (md_h MD5_Init) (md_pad 64 8 False m)"

lemma md5_R_op:
  "md5_R0 k s t = md5_op md5_rfc_F k s t"
  "md5_R1 k s t = md5_op md5_rfc_G k s t"
  "md5_R2 k s t = md5_op md5_rfc_H k s t"
  "md5_R3 k s t = md5_op md5_rfc_I k s t"
proof -
  have f0: "md5_F b c d = md5_rfc_F b c d" for b c d
    unfolding md5_F_def md5_rfc_F_def by (rule bit_word_eqI) (auto simp: bit_or_iff bit_and_iff bit_xor_iff bit_not_iff)
  have f1: "md5_G b c d = md5_rfc_G b c d" for b c d
    unfolding md5_G_def md5_rfc_G_def by (rule bit_word_eqI) (auto simp: bit_or_iff bit_and_iff bit_xor_iff bit_not_iff)
  have f2: "md5_H b c d = md5_rfc_H b c d" for b c d
    unfolding md5_H_def md5_rfc_H_def by (rule bit_word_eqI) (auto simp: bit_or_iff bit_and_iff bit_xor_iff bit_not_iff)
  have f3: "md5_I b c d = md5_rfc_I b c d" for b c d
    unfolding md5_I_def md5_rfc_I_def by (rule bit_word_eqI) (auto simp: bit_or_iff bit_and_iff bit_xor_iff bit_not_iff)
  show "md5_R0 k s t = md5_op md5_rfc_F k s t"
    by (rule ext, rename_tac v, case_tac v) (simp add: f0 Let_def add_ac)
  show "md5_R1 k s t = md5_op md5_rfc_G k s t"
    by (rule ext, rename_tac v, case_tac v) (simp add: f1 Let_def add_ac)
  show "md5_R2 k s t = md5_op md5_rfc_H k s t"
    by (rule ext, rename_tac v, case_tac v) (simp add: f2 Let_def add_ac)
  show "md5_R3 k s t = md5_op md5_rfc_I k s t"
    by (rule ext, rename_tac v, case_tac v) (simp add: f3 Let_def add_ac)
qed

lemma md5_rounds:
  "md5_round0 = map (\<lambda>i. (md5_index i, md5_shift i, md5_T i)) [0..<16]"
  "md5_round1 = map (\<lambda>i. (md5_index i, md5_shift i, md5_T i)) [16..<32]"
  "md5_round2 = map (\<lambda>i. (md5_index i, md5_shift i, md5_T i)) [32..<48]"
  "md5_round3 = map (\<lambda>i. (md5_index i, md5_shift i, md5_T i)) [48..<64]"
  by code_simp+

lemma md5_block_eq: "md5_block H blk = md5_compress H blk"
proof -
  let ?X = "md5_load blk"
  let ?op = "\<lambda>i. md5_op (md5_f i) (?X ! md5_index i) (md5_shift i) (md5_T i)"
  have r: "fold (\<lambda>(k, s, t). md5_op f (?X ! k) s t) (map (\<lambda>i. (md5_index i, md5_shift i, md5_T i)) [m..<n]) v =
      fold ?op [m..<n] v" if "\<And>i. m \<le> i \<Longrightarrow> i < n \<Longrightarrow> md5_f i = f" for f m n v
    unfolding fold_map using that by (intro fold_cong) (simp_all add: fun_eq_iff)
  have u: "[0..<64] = [0..<16] @ [16..<32] @ [32..<48] @ [48..<64]"
    by code_simp
  have r0: "fold (\<lambda>(k, s, t). md5_R0 (?X ! k) s t) md5_round0 v = fold ?op [0..<16] v" for v
    unfolding md5_R_op md5_rounds by (rule r) (simp add: md5_f_def)
  have r1: "fold (\<lambda>(k, s, t). md5_R1 (?X ! k) s t) md5_round1 v = fold ?op [16..<32] v" for v
    unfolding md5_R_op md5_rounds by (rule r) (simp add: md5_f_def)
  have r2: "fold (\<lambda>(k, s, t). md5_R2 (?X ! k) s t) md5_round2 v = fold ?op [32..<48] v" for v
    unfolding md5_R_op md5_rounds by (rule r) (simp add: md5_f_def)
  have r3: "fold (\<lambda>(k, s, t). md5_R3 (?X ! k) s t) md5_round3 v = fold ?op [48..<64] v" for v
    unfolding md5_R_op md5_rounds by (rule r) (simp add: md5_f_def)
  show ?thesis
    unfolding md5_block_def md5_compress_def Let_def r0 r1 r2 r3 u fold_append comp_apply ..
qed

section \<open>The digest\<close>

lemma md5_load_local: "length x = 64 \<Longrightarrow> md5_load (x @ y) = md5_load x"
  unfolding md5_load_def by (intro map_cong load_u32_le_local) simp_all

interpretation md5: md32_hash md5_block_data_order 64
  by unfold_locales (simp_all add: md5_block_eq md5_compress_def md5_load_local)

lemma md5_block_one: "md5_block_data_order h x 1 = md5_compress h x"
  by (simp add: md5_block_eq)

lemma length_md5_words: "length (md5_words m) = 4"
  unfolding md5_words_def
  by (rule md_fold_invariant [where P = "\<lambda>h. length h = 4"])
    (simp_all add: MD5_Init_def md5_compress_def Let_def case_prod_unfold)

definition md5_digest :: "bytes \<Rightarrow> bytes" where
  "md5_digest m = concat (map (\<lambda>w. le_bytes 4 (unat w)) (md5_words m))"

lemma length_md5_digest: "length (md5_digest m) = 16"
  by (simp add: md5_digest_def length_concat comp_def length_md5_words sum_list_triv)

text \<open>The context that has taken in a message.\<close>

abbreviation md5_holds :: "bytes \<Rightarrow> md32_ctx \<Rightarrow> bool" where
  "md5_holds \<equiv> md5.holds_message (md_h MD5_Init)"

lemma md5_holds_init: "md5_holds [] MD5_Init"
  using md5.init_holds [of "md_h MD5_Init"] by (simp add: MD5_Init_def MD5_CBLOCK_def)

lemma md5_holds_update: "md5_holds m c \<Longrightarrow> md5_holds (m @ s) (MD5_Update c s)"
  unfolding MD5_Update_def MD5_CBLOCK_def by (rule md5.update_holds)

lemma md5_holds_updates: "md5_holds m c \<Longrightarrow> md5_holds (m @ concat ps) (foldl MD5_Update c ps)"
proof (induction ps arbitrary: m c)
  case (Cons s ps)
  then show ?case using md5_holds_update [OF Cons.prems, of s] by fastforce
qed simp

lemma md5_holds_final:
  assumes "md5_holds m c"
  shows "fst (MD5_Final c) = md5_digest m"
proof -
  let ?h = "md5_words m"
  have h: "md_h (crypto_md32_final md5_block_data_order 64 False c) = ?h"
    unfolding md5.final_eq [OF assms] md5_block_one md5_words_def ..
  have u: "[0..<4] = [0, 1, 2, 3]" by code_simp
  have "?h = map ((!) ?h) [0..<4]" using map_nth [of ?h] by (simp only: length_md5_words)
  then have "?h = [?h ! 0, ?h ! 1, ?h ! 2, ?h ! 3]" unfolding u by (simp only: list.map)
  then have "md5_digest m = concat (map (\<lambda>w. le_bytes 4 (unat w)) [?h ! 0, ?h ! 1, ?h ! 2, ?h ! 3])"
    unfolding md5_digest_def by (rule arg_cong)
  then show ?thesis by (simp add: MD5_Final_def MD5_CBLOCK_def h Let_def CRYPTO_store_u32_le_def)
qed

text \<open>MD5 in pieces. Whatever the sizes of the pieces given to \<open>MD5_Update\<close>, the digest is that of
  RFC 1321 for the whole message: little-endian padding to blocks of 64 bytes, the compression function
  over the blocks, the four words in little-endian order.\<close>

theorem MD5_streams_RFC1321:
  "fst (MD5_Final (foldl MD5_Update MD5_Init ps)) = concat (map (\<lambda>w. le_bytes 4 (unat w)) (md5_words (concat ps)))"
  using md5_holds_final [OF md5_holds_updates [OF md5_holds_init]] by (simp add: md5_digest_def)

end
