(* ===== verification/Schedule.thy ===== *)
theory Schedule
  imports Prelude
begin

text \<open>
  The message schedule of the SHA family. The standard extends the 16 words of a block by a rule that
  reads the last 16 words; the code keeps only those, in a circular buffer. \<open>circular_rounds\<close> shows that
  rounds which extend the buffer on the way see the words of the whole schedule. SHA-1, SHA-256 and
  SHA-512 are instances.
\<close>

text \<open>The functions of \<open>sha256.c\<close> and \<open>sha512.c\<close>.\<close>

definition sha_Ch :: "'a::len word \<Rightarrow> 'a word \<Rightarrow> 'a word \<Rightarrow> 'a word" where
  "sha_Ch x y z = (x AND y) XOR (NOT x AND z)"

definition sha_Maj :: "'a::len word \<Rightarrow> 'a word \<Rightarrow> 'a word \<Rightarrow> 'a word" where
  "sha_Maj x y z = (x AND y) XOR (x AND z) XOR (y AND z)"

lemma prod_cases8:
  obtains a b c d e f g h where "y = (a, b, c, d, e, f, g, h)"
proof -
  obtain a b c d e f gh where "y = (a, b, c, d, e, f, gh)" by (cases y)
  moreover obtain g h where "gh = (g, h)" by (cases gh)
  ultimately show ?thesis using that by simp
qed

section \<open>The schedule\<close>

primrec message_schedule :: "((nat \<Rightarrow> 'a) \<Rightarrow> 'a) \<Rightarrow> 'a list \<Rightarrow> nat \<Rightarrow> 'a list" where
  "message_schedule f M 0 = M"
| "message_schedule f M (Suc n) = (let W = message_schedule f M n in W @ [f (\<lambda>j. W ! (n + j))])"

fun circular_round ::
  "((nat \<Rightarrow> 'a) \<Rightarrow> 'a) \<Rightarrow> (nat \<Rightarrow> 'a \<Rightarrow> 'v \<Rightarrow> 'v) \<Rightarrow> nat \<Rightarrow> 'a list \<times> 'v \<Rightarrow> 'a list \<times> 'v" where
  "circular_round f g i (X, v) =
     (let T = f (\<lambda>j. X ! ((i + j) mod 16)) in (X[i mod 16 := T], g i T v))"

text \<open>The rule reads only the window of 16 words.\<close>

definition window_rule :: "((nat \<Rightarrow> 'a) \<Rightarrow> 'a) \<Rightarrow> bool" where
  "window_rule f \<longleftrightarrow> (\<forall>u v. (\<forall>j<16. u j = v j) \<longrightarrow> f u = f v)"

lemma length_message_schedule: "length (message_schedule f M n) = length M + n"
  by (induction n) (simp_all add: Let_def)

lemma message_schedule_prefix:
  "t < length M + n \<Longrightarrow> message_schedule f M (n + k) ! t = message_schedule f M n ! t"
  by (induction k) (simp_all add: Let_def nth_append length_message_schedule)

lemma message_schedule_first: "t < length M \<Longrightarrow> message_schedule f M k ! t = M ! t"
  using message_schedule_prefix [of t M 0 f k] by simp

lemma fold_upt_snoc: "fold h [16..<16 + Suc n] s = h (16 + n) (fold h [16..<16 + n] s)"
  unfolding add_Suc_right by (subst upt_Suc_append) simp_all

lemma circular_rounds_aux:
  assumes M: "length M = 16" and f: "window_rule f"
  shows "fold (circular_round f g) [16..<16 + n] (M, v) = (X, u) \<Longrightarrow>
    length X = 16 \<and> (\<forall>j<16. X ! ((n + j) mod 16) = message_schedule f M n ! (n + j)) \<and>
    u = fold (\<lambda>t. g t (message_schedule f M n ! t)) [16..<16 + n] v"
proof (induction n arbitrary: X u)
  case 0
  then show ?case using M by simp
next
  case (Suc n)
  obtain Y w where Y: "fold (circular_round f g) [16..<16 + n] (M, v) = (Y, w)" by (rule prod.exhaust)
  note IH = Suc.IH [OF Y]
  let ?S = "message_schedule f M"
  define T where "T = ?S (Suc n) ! (16 + n)"
  have "f (\<lambda>j. Y ! ((16 + n + j) mod 16)) = f (\<lambda>j. ?S n ! (n + j))"
    using f IH unfolding window_rule_def by (simp add: add.assoc)
  also have "\<dots> = T"
    unfolding T_def using M by (simp add: Let_def nth_append length_message_schedule)
  finally have T: "f (\<lambda>j. Y ! ((16 + n + j) mod 16)) = T" .
  have "(X, u) = circular_round f g (16 + n) (Y, w)"
    using Suc.prems unfolding fold_upt_snoc Y by (rule sym)
  then have X: "X = Y[n mod 16 := T]" and u: "u = g (16 + n) T w"
    unfolding circular_round.simps T Let_def by simp_all
  have len: "length Y = 16" using IH by blast
  have "X ! ((Suc n + j) mod 16) = ?S (Suc n) ! (Suc n + j)" if "j < 16" for j
  proof (cases "j = 15")
    case True
    then have "(Suc n + j) mod 16 = n mod 16" using mod_add_self2 [of n 16] by (simp add: add.commute)
    then show ?thesis using True len by (simp add: X T_def add.commute)
  next
    case False
    then have j: "Suc j < 16" using that by simp
    have "(n + Suc j) mod 16 \<noteq> n mod 16" using j by (intro mod_add_neq) simp_all
    then have "X ! ((Suc n + j) mod 16) = Y ! ((n + Suc j) mod 16)" by (simp add: X)
    also have "\<dots> = ?S n ! (n + Suc j)" using IH j by blast
    also have "\<dots> = ?S (Suc n) ! (n + Suc j)"
      using message_schedule_prefix [of "n + Suc j" M n f 1] j M by simp
    finally show ?thesis by simp
  qed
  moreover have "w = fold (\<lambda>t. g t (?S (Suc n) ! t)) [16..<16 + n] v"
    using IH message_schedule_prefix [of _ M n f 1] M by (auto intro!: fold_cong)
  ultimately show ?case using len u unfolding fold_upt_snoc T_def [symmetric] by (simp add: X T_def add.commute)
qed

lemma circular_rounds:
  assumes "length M = 16" "window_rule f"
  shows "snd (fold (circular_round f g) [16..<16 + n] (M, v)) =
    fold (\<lambda>t. g t (message_schedule f M n ! t)) [16..<16 + n] v"
  using circular_rounds_aux [OF assms, of g n v] by (metis prod.collapse)

text \<open>The rounds that only read the block, followed by those that extend the buffer.\<close>

lemma all_rounds:
  assumes "length M = 16" "window_rule f" and m: "m = 16 + n"
  shows "snd (fold (circular_round f g) [16..<m] (M, fold (\<lambda>i. g i (M ! i)) [0..<16] v)) =
    fold (\<lambda>t. g t (message_schedule f M n ! t)) [0..<m] v"
proof -
  have "fold (\<lambda>i. g i (M ! i)) [0..<16] v = fold (\<lambda>t. g t (message_schedule f M n ! t)) [0..<16] v"
    using assms(1) by (intro fold_cong) (simp_all add: message_schedule_first)
  moreover have "[0..<16 + n] = [0..<16] @ [16..<16 + n]"
    using upt_add_eq_append [of 0 16 n] by simp
  ultimately show ?thesis
    unfolding m circular_rounds [OF assms(1,2)] by (simp only: fold_append comp_apply)
qed

end
