(* ===== verification/Sha1.thy ===== *)
theory Sha1
  imports Md32 Schedule
begin

text \<open>
  \<open>crypto/fipsmodule/sha/sha1.c\<close>. As in the code, the message schedule lives in a circular buffer of 16
  words, and six registers rotate through the names of the macros, of which one is scratch.
  \<open>sha1_compress\<close> is the compression function of FIPS 180-4 with the schedule of 80 words and five
  variables.
\<close>

definition K_00_19 :: u32 where "K_00_19 = 0x5a827999"
definition K_20_39 :: u32 where "K_20_39 = 0x6ed9eba1"
definition K_40_59 :: u32 where "K_40_59 = 0x8f1bbcdc"
definition K_60_79 :: u32 where "K_60_79 = 0xca62c1d6"

definition F_00_19 :: "u32 \<Rightarrow> u32 \<Rightarrow> u32 \<Rightarrow> u32" where
  "F_00_19 b c d = (((c XOR d) AND b) XOR d)"

definition F_20_39 :: "u32 \<Rightarrow> u32 \<Rightarrow> u32 \<Rightarrow> u32" where
  "F_20_39 b c d = (b XOR c XOR d)"

definition F_40_59 :: "u32 \<Rightarrow> u32 \<Rightarrow> u32 \<Rightarrow> u32" where
  "F_40_59 b c d = ((b AND c) OR ((b OR c) AND d))"

definition F_60_79 :: "u32 \<Rightarrow> u32 \<Rightarrow> u32 \<Rightarrow> u32" where
  "F_60_79 b c d = F_20_39 b c d"

type_synonym sha1_vars = "u32 \<times> u32 \<times> u32 \<times> u32 \<times> u32 \<times> u32"

text \<open>\<open>Xupdate (a, X(ix), X(ia), X(ib), X(ic), X(id))\<close>: the new word and the buffer with it.\<close>

definition Xupdate :: "u32 list \<Rightarrow> nat \<Rightarrow> nat \<Rightarrow> nat \<Rightarrow> nat \<Rightarrow> nat \<Rightarrow> u32 \<times> u32 list" where
  "Xupdate X ix ia ib ic idx =
     (let a = X ! ia XOR X ! ib XOR X ! ic XOR X ! idx;
          a = CRYPTO_rotl_u32 a 1
      in (a, X[ix := a]))"

text \<open>A body returns the registers in the order in which the next one names them.\<close>

fun BODY_00_15 :: "u32 \<Rightarrow> sha1_vars \<Rightarrow> sha1_vars" where
  "BODY_00_15 xi (a, b, c, d, e, f) =
     (let f = xi + e + K_00_19 + CRYPTO_rotl_u32 a 5 + F_00_19 b c d;
          b = CRYPTO_rotl_u32 b 30
      in (f, a, b, c, d, e))"

fun BODY_16_19 :: "nat \<Rightarrow> nat \<Rightarrow> nat \<Rightarrow> nat \<Rightarrow> nat \<Rightarrow> u32 list \<times> sha1_vars \<Rightarrow> u32 list \<times> sha1_vars" where
  "BODY_16_19 xi xa xb xc xd (X, (a, b, c, d, e, f)) =
     (let (f, X) = Xupdate X xi xa xb xc xd;
          f = f + (e + K_00_19 + CRYPTO_rotl_u32 a 5 + F_00_19 b c d);
          b = CRYPTO_rotl_u32 b 30
      in (X, (f, a, b, c, d, e)))"

fun BODY_20_31 :: "nat \<Rightarrow> nat \<Rightarrow> nat \<Rightarrow> nat \<Rightarrow> nat \<Rightarrow> u32 list \<times> sha1_vars \<Rightarrow> u32 list \<times> sha1_vars" where
  "BODY_20_31 xi xa xb xc xd (X, (a, b, c, d, e, f)) =
     (let (f, X) = Xupdate X xi xa xb xc xd;
          f = f + (e + K_20_39 + CRYPTO_rotl_u32 a 5 + F_20_39 b c d);
          b = CRYPTO_rotl_u32 b 30
      in (X, (f, a, b, c, d, e)))"

fun BODY_32_39 :: "nat \<Rightarrow> nat \<Rightarrow> nat \<Rightarrow> nat \<Rightarrow> u32 list \<times> sha1_vars \<Rightarrow> u32 list \<times> sha1_vars" where
  "BODY_32_39 xa xb xc xd (X, (a, b, c, d, e, f)) =
     (let (f, X) = Xupdate X xa xa xb xc xd;
          f = f + (e + K_20_39 + CRYPTO_rotl_u32 a 5 + F_20_39 b c d);
          b = CRYPTO_rotl_u32 b 30
      in (X, (f, a, b, c, d, e)))"

fun BODY_40_59 :: "nat \<Rightarrow> nat \<Rightarrow> nat \<Rightarrow> nat \<Rightarrow> u32 list \<times> sha1_vars \<Rightarrow> u32 list \<times> sha1_vars" where
  "BODY_40_59 xa xb xc xd (X, (a, b, c, d, e, f)) =
     (let (f, X) = Xupdate X xa xa xb xc xd;
          f = f + (e + K_40_59 + CRYPTO_rotl_u32 a 5 + F_40_59 b c d);
          b = CRYPTO_rotl_u32 b 30
      in (X, (f, a, b, c, d, e)))"

fun BODY_60_79 :: "nat \<Rightarrow> nat \<Rightarrow> nat \<Rightarrow> nat \<Rightarrow> u32 list \<times> sha1_vars \<Rightarrow> u32 list \<times> sha1_vars" where
  "BODY_60_79 xa xb xc xd (X, (a, b, c, d, e, f)) =
     (let (f, X) = Xupdate X xa xa xb xc xd;
          f = X ! xa + e + K_60_79 + CRYPTO_rotl_u32 a 5 + F_60_79 b c d;
          b = CRYPTO_rotl_u32 b 30
      in (X, (f, a, b, c, d, e)))"

definition sha1_load :: "bytes \<Rightarrow> u32 list" where
  "sha1_load data = map (\<lambda>i. CRYPTO_load_u32_be (drop (4 * i) data)) [0..<16]"

text \<open>The 80 bodies of one block, with the arguments that the code writes out. The scratch register,
  which is assigned before it is read, starts at 0.\<close>

definition sha1_block :: "u32 list \<Rightarrow> bytes \<Rightarrow> u32 list" where
  "sha1_block state data =
     (let X = sha1_load data;
          v = (state ! 0, state ! 1, state ! 2, state ! 3, state ! 4, 0);
          v = fold (\<lambda>i. BODY_00_15 (X ! i)) [0..<16] v;
          s = (X, v);
          s = fold (\<lambda>i. BODY_16_19 (i mod 16) (i mod 16) ((i + 2) mod 16) ((i + 8) mod 16) ((i + 13) mod 16)) [16..<20] s;
          s = fold (\<lambda>i. BODY_20_31 (i mod 16) (i mod 16) ((i + 2) mod 16) ((i + 8) mod 16) ((i + 13) mod 16)) [20..<32] s;
          s = fold (\<lambda>i. BODY_32_39 (i mod 16) ((i + 2) mod 16) ((i + 8) mod 16) ((i + 13) mod 16)) [32..<40] s;
          s = fold (\<lambda>i. BODY_40_59 (i mod 16) ((i + 2) mod 16) ((i + 8) mod 16) ((i + 13) mod 16)) [40..<60] s;
          s = fold (\<lambda>i. BODY_60_79 (i mod 16) ((i + 2) mod 16) ((i + 8) mod 16) ((i + 13) mod 16)) [60..<80] s;
          (X, (a, b, c, d, e, f)) = s
      in [state ! 0 + a, state ! 1 + b, state ! 2 + c, state ! 3 + d, state ! 4 + e])"

text \<open>The loop leaves when \<open>num\<close>, decremented, is 0, so a call with 0 would go round \<open>2 ^ 64\<close> times.\<close>

fun sha1_blocks :: "u32 list \<Rightarrow> bytes \<Rightarrow> nat \<Rightarrow> u32 list" where
  "sha1_blocks state data 0 = state"
| "sha1_blocks state data (Suc num) = sha1_blocks (sha1_block state data) (drop 64 data) num"

definition sha1_block_data_order :: "u32 list \<Rightarrow> bytes \<Rightarrow> nat \<Rightarrow> u32 list" where
  "sha1_block_data_order state data num = sha1_blocks state data (if num = 0 then 2 ^ 64 else num)"

definition SHA_CBLOCK :: nat where "SHA_CBLOCK = 64"

definition SHA1_Init :: md32_ctx where
  "SHA1_Init =
     \<lparr>md_h = [1732584193, 4023233417, 2562383102, 271733878, 3285377520],
      md_Nl = 0, md_Nh = 0, md_data = replicate SHA_CBLOCK 0, md_num = 0\<rparr>"

definition SHA1_Transform :: "md32_ctx \<Rightarrow> bytes \<Rightarrow> md32_ctx" where
  "SHA1_Transform c data = c\<lparr>md_h := sha1_block_data_order (md_h c) data 1\<rparr>"

definition SHA1_Update :: "md32_ctx \<Rightarrow> bytes \<Rightarrow> md32_ctx" where
  "SHA1_Update c data = crypto_md32_update sha1_block_data_order SHA_CBLOCK c data"

definition SHA1_Final :: "md32_ctx \<Rightarrow> bytes \<times> md32_ctx" where
  "SHA1_Final c =
     (let c = crypto_md32_final sha1_block_data_order SHA_CBLOCK True c
      in (CRYPTO_store_u32_be (md_h c ! 0) @ CRYPTO_store_u32_be (md_h c ! 1) @ CRYPTO_store_u32_be (md_h c ! 2) @ CRYPTO_store_u32_be (md_h c ! 3) @ CRYPTO_store_u32_be (md_h c ! 4), c))"

definition SHA1 :: "bytes \<Rightarrow> bytes" where
  "SHA1 data = fst (SHA1_Final (SHA1_Update SHA1_Init data))"

section \<open>The hash of FIPS 180-4\<close>

definition sha1_rule :: "(nat \<Rightarrow> u32) \<Rightarrow> u32" where
  "sha1_rule w = CRYPTO_rotl_u32 (w 13 XOR w 8 XOR w 2 XOR w 0) 1"

definition sha1_f :: "nat \<Rightarrow> u32 \<Rightarrow> u32 \<Rightarrow> u32 \<Rightarrow> u32" where
  "sha1_f t x y z =
     (if t < 20 then sha_Ch x y z else if t < 40 then x XOR y XOR z
      else if t < 60 then sha_Maj x y z else x XOR y XOR z)"

definition sha1_K :: "nat \<Rightarrow> u32" where
  "sha1_K t =
     (if t < 20 then 0x5a827999 else if t < 40 then 0x6ed9eba1
      else if t < 60 then 0x8f1bbcdc else 0xca62c1d6)"

fun sha1_step :: "nat \<Rightarrow> u32 \<Rightarrow> u32 \<times> u32 \<times> u32 \<times> u32 \<times> u32 \<Rightarrow> u32 \<times> u32 \<times> u32 \<times> u32 \<times> u32" where
  "sha1_step t Wt (a, b, c, d, e) =
     (CRYPTO_rotl_u32 a 5 + sha1_f t b c d + e + sha1_K t + Wt, a, CRYPTO_rotl_u32 b 30, c, d)"

definition sha1_compress :: "u32 list \<Rightarrow> bytes \<Rightarrow> u32 list" where
  "sha1_compress H blk =
     (let W = message_schedule sha1_rule (sha1_load blk) 64;
          (a, b, c, d, e) = fold (\<lambda>t. sha1_step t (W ! t)) [0..<80] (H ! 0, H ! 1, H ! 2, H ! 3, H ! 4)
      in [H ! 0 + a, H ! 1 + b, H ! 2 + c, H ! 3 + d, H ! 4 + e])"

definition sha1_words :: "bytes \<Rightarrow> u32 list" where
  "sha1_words m = md_fold 64 sha1_compress (md_h SHA1_Init) (md_pad 64 8 True m)"

text \<open>The step of the standard on the six registers of the code.\<close>

fun sha1_vstep :: "nat \<Rightarrow> u32 \<Rightarrow> sha1_vars \<Rightarrow> sha1_vars" where
  "sha1_vstep t Wt (a, b, c, d, e, f) =
     (CRYPTO_rotl_u32 a 5 + sha1_f t b c d + e + sha1_K t + Wt, a, CRYPTO_rotl_u32 b 30, c, d, e)"

definition five :: "sha1_vars \<Rightarrow> u32 \<times> u32 \<times> u32 \<times> u32 \<times> u32" where
  "five v = (case v of (a, b, c, d, e, f) \<Rightarrow> (a, b, c, d, e))"

lemma F_Ch: "F_00_19 b c d = sha_Ch b c d"
  unfolding F_00_19_def sha_Ch_def
  by (rule bit_word_eqI) (auto simp: bit_and_iff bit_xor_iff bit_not_iff)

lemma F_Maj: "F_40_59 b c d = sha_Maj b c d"
  unfolding F_40_59_def sha_Maj_def
  by (rule bit_word_eqI) (auto simp: bit_and_iff bit_xor_iff bit_or_iff)

lemma BODY_first: "i < 16 \<Longrightarrow> BODY_00_15 w v = sha1_vstep i w v"
  by (cases v) (simp add: Let_def sha1_f_def sha1_K_def K_00_19_def F_Ch add_ac)

lemma fold_project:
  "(\<And>x s. p (f x s) = g x (p s)) \<Longrightarrow> p (fold f xs s) = fold g xs (p s)"
  by (induction xs arbitrary: s) simp_all

lemmas body_simps = Xupdate_def Let_def sha1_rule_def sha1_f_def sha1_K_def xor.assoc xor.commute xor.left_commute add_ac
  K_00_19_def K_20_39_def K_40_59_def K_60_79_def F_Ch F_20_39_def F_Maj F_60_79_def

lemma BODY_circular:
  "16 \<le> i \<Longrightarrow> i < 20 \<Longrightarrow> BODY_16_19 (i mod 16) (i mod 16) ((i + 2) mod 16) ((i + 8) mod 16) ((i + 13) mod 16) (X, v) =
     circular_round sha1_rule sha1_vstep i (X, v)"
  "20 \<le> i \<Longrightarrow> i < 32 \<Longrightarrow> BODY_20_31 (i mod 16) (i mod 16) ((i + 2) mod 16) ((i + 8) mod 16) ((i + 13) mod 16) (X, v) =
     circular_round sha1_rule sha1_vstep i (X, v)"
  "32 \<le> i \<Longrightarrow> i < 40 \<Longrightarrow> BODY_32_39 (i mod 16) ((i + 2) mod 16) ((i + 8) mod 16) ((i + 13) mod 16) (X, v) =
     circular_round sha1_rule sha1_vstep i (X, v)"
  "40 \<le> i \<Longrightarrow> i < 60 \<Longrightarrow> BODY_40_59 (i mod 16) ((i + 2) mod 16) ((i + 8) mod 16) ((i + 13) mod 16) (X, v) =
     circular_round sha1_rule sha1_vstep i (X, v)"
  "60 \<le> i \<Longrightarrow> length X = 16 \<Longrightarrow>
     BODY_60_79 (i mod 16) ((i + 2) mod 16) ((i + 8) mod 16) ((i + 13) mod 16) (X, v) =
     circular_round sha1_rule sha1_vstep i (X, v)"
  by (cases v; simp add: body_simps)+

text \<open>So each group of rounds is that of the standard, as long as the buffer keeps its 16 words.\<close>

lemma BODY_fold:
  assumes "\<And>i X v. i \<in> set is \<Longrightarrow> length X = 16 \<Longrightarrow> f i (X, v) = circular_round sha1_rule sha1_vstep i (X, v)"
    and "length (fst s) = 16"
  shows "fold f is s = fold (circular_round sha1_rule sha1_vstep) is s"
  using assms
proof (induction "is" arbitrary: s)
  case (Cons i "is")
  obtain X v where s: "s = (X, v)" by (cases s)
  have f: "f i s = circular_round sha1_rule sha1_vstep i s" using Cons.prems s by simp
  have "length (fst (circular_round sha1_rule sha1_vstep i s)) = 16" using Cons.prems s by (simp add: Let_def)
  then show ?case using Cons.IH Cons.prems(1) by (simp add: f)
qed simp

lemma circular_length:
  "length (fst (fold (circular_round f g) is s)) = length (fst s)"
proof (induction "is" arbitrary: s)
  case (Cons i "is")
  then show ?case by (cases s) (simp add: Let_def)
qed simp

lemma length_sha1_load [simp]: "length (sha1_load d) = 16"
  by (simp add: sha1_load_def)

lemma sha1_window: "window_rule sha1_rule"
  by (simp add: window_rule_def sha1_rule_def)

lemma sha1_block_eq: "sha1_block H blk = sha1_compress H blk"
proof -
  let ?M = "sha1_load blk"
  let ?v = "(H ! 0, H ! 1, H ! 2, H ! 3, H ! 4, 0)"
  let ?c = "fold (circular_round sha1_rule sha1_vstep)"
  let ?s = "(?M, fold (\<lambda>i. sha1_vstep i (?M ! i)) [0..<16] ?v)"
  let ?W = "message_schedule sha1_rule ?M 64"
  have v1: "fold (\<lambda>i. BODY_00_15 (?M ! i)) [0..<16] ?v = snd ?s"
    unfolding snd_conv by (rule fold_cong) (simp_all add: fun_eq_iff BODY_first)
  have b1: "fold (\<lambda>i. BODY_16_19 (i mod 16) (i mod 16) ((i + 2) mod 16) ((i + 8) mod 16) ((i + 13) mod 16)) [16..<20] s = ?c [16..<20] s"
    if "length (fst s) = 16" for s
    using that by (intro BODY_fold BODY_circular) (simp_all only: set_upt atLeastLessThan_iff)
  have b2: "fold (\<lambda>i. BODY_20_31 (i mod 16) (i mod 16) ((i + 2) mod 16) ((i + 8) mod 16) ((i + 13) mod 16)) [20..<32] s = ?c [20..<32] s"
    if "length (fst s) = 16" for s
    using that by (intro BODY_fold BODY_circular) (simp_all only: set_upt atLeastLessThan_iff)
  have b3: "fold (\<lambda>i. BODY_32_39 (i mod 16) ((i + 2) mod 16) ((i + 8) mod 16) ((i + 13) mod 16)) [32..<40] s = ?c [32..<40] s"
    if "length (fst s) = 16" for s
    using that by (intro BODY_fold BODY_circular) (simp_all only: set_upt atLeastLessThan_iff)
  have b4: "fold (\<lambda>i. BODY_40_59 (i mod 16) ((i + 2) mod 16) ((i + 8) mod 16) ((i + 13) mod 16)) [40..<60] s = ?c [40..<60] s"
    if "length (fst s) = 16" for s
    using that by (intro BODY_fold BODY_circular) (simp_all only: set_upt atLeastLessThan_iff)
  have b5: "fold (\<lambda>i. BODY_60_79 (i mod 16) ((i + 2) mod 16) ((i + 8) mod 16) ((i + 13) mod 16)) [60..<80] s = ?c [60..<80] s"
    if "length (fst s) = 16" for s
    using that by (intro BODY_fold BODY_circular) (simp_all only: set_upt atLeastLessThan_iff)
  note len = circular_length fst_conv length_sha1_load
  have u: "[16..<80] = [16..<20] @ [20..<32] @ [32..<40] @ [40..<60] @ [60..<80]" by code_simp
  have all: "?c [60..<80] (?c [40..<60] (?c [32..<40] (?c [20..<32] (?c [16..<20] ?s)))) = ?c [16..<80] ?s"
    unfolding u fold_append comp_apply ..
  have "snd (?c [16..<80] ?s) = fold (\<lambda>t. sha1_vstep t (?W ! t)) [0..<80] ?v"
    unfolding snd_conv by (rule all_rounds [OF length_sha1_load sha1_window]) simp
  moreover have "five (fold (\<lambda>t. sha1_vstep t (?W ! t)) [0..<80] ?v) =
      fold (\<lambda>t. sha1_step t (?W ! t)) [0..<80] (five ?v)"
    by (rule fold_project) (simp add: five_def split: prod.splits)
  moreover have "five ?v = (H ! 0, H ! 1, H ! 2, H ! 3, H ! 4)" by (simp add: five_def)
  ultimately have w: "five (snd (?c [16..<80] ?s)) =
      fold (\<lambda>t. sha1_step t (?W ! t)) [0..<80] (H ! 0, H ! 1, H ! 2, H ! 3, H ! 4)" by (simp only:)
  have "sha1_block H blk =
      (case ?c [16..<80] ?s of (X, a, b, c, d, e, f) \<Rightarrow> [H ! 0 + a, H ! 1 + b, H ! 2 + c, H ! 3 + d, H ! 4 + e])"
    unfolding sha1_block_def Let_def v1 snd_conv
    by (simp only: b1 b2 b3 b4 b5 len all)
  also have "\<dots> = (case five (snd (?c [16..<80] ?s)) of (a, b, c, d, e) \<Rightarrow> [H ! 0 + a, H ! 1 + b, H ! 2 + c, H ! 3 + d, H ! 4 + e])"
    by (simp only: five_def case_prod_unfold fst_conv snd_conv)
  finally show ?thesis unfolding w sha1_compress_def Let_def .
qed

section \<open>The digest\<close>

lemma sha1_load_local: "length x = 64 \<Longrightarrow> sha1_load (x @ y) = sha1_load x"
  unfolding sha1_load_def by (intro map_cong load_u32_be_local) simp_all

interpretation sha1: md32_hash sha1_block_data_order 64
  by unfold_locales (simp_all add: sha1_block_data_order_def sha1_block_eq sha1_compress_def sha1_load_local)

lemma sha1_block_one: "sha1_block_data_order h x 1 = sha1_compress h x"
  by (simp add: sha1_block_data_order_def sha1_block_eq)

lemma length_sha1_words: "length (sha1_words m) = 5"
  unfolding sha1_words_def
  by (rule md_fold_invariant [where P = "\<lambda>h. length h = 5"])
    (simp_all add: SHA1_Init_def sha1_compress_def Let_def case_prod_unfold)

definition sha1_digest :: "bytes \<Rightarrow> bytes" where
  "sha1_digest m = concat (map (\<lambda>w. be_bytes 4 (unat w)) (sha1_words m))"

lemma length_sha1_digest: "length (sha1_digest m) = 20"
  by (simp add: sha1_digest_def length_concat comp_def length_sha1_words sum_list_triv)

text \<open>The context that has taken in a message.\<close>

abbreviation sha1_holds :: "bytes \<Rightarrow> md32_ctx \<Rightarrow> bool" where
  "sha1_holds \<equiv> sha1.holds_message (md_h SHA1_Init)"

lemma sha1_holds_init: "sha1_holds [] SHA1_Init"
  using sha1.init_holds [of "md_h SHA1_Init"] by (simp add: SHA1_Init_def SHA_CBLOCK_def)

lemma sha1_holds_update: "sha1_holds m c \<Longrightarrow> sha1_holds (m @ s) (SHA1_Update c s)"
  unfolding SHA1_Update_def SHA_CBLOCK_def by (rule sha1.update_holds)

lemma sha1_holds_updates: "sha1_holds m c \<Longrightarrow> sha1_holds (m @ concat ps) (foldl SHA1_Update c ps)"
proof (induction ps arbitrary: m c)
  case (Cons s ps)
  then show ?case using sha1_holds_update [OF Cons.prems, of s] by fastforce
qed simp

lemma sha1_holds_final:
  assumes "sha1_holds m c"
  shows "fst (SHA1_Final c) = sha1_digest m"
proof -
  let ?h = "sha1_words m"
  have h: "md_h (crypto_md32_final sha1_block_data_order 64 True c) = ?h"
    unfolding sha1.final_eq [OF assms] sha1_block_one sha1_words_def ..
  have u: "[0..<5] = [0, 1, 2, 3, 4]" by code_simp
  have "?h = map ((!) ?h) [0..<5]" using map_nth [of ?h] by (simp only: length_sha1_words)
  then have "?h = [?h ! 0, ?h ! 1, ?h ! 2, ?h ! 3, ?h ! 4]" unfolding u by (simp only: list.map)
  then have "sha1_digest m = concat (map (\<lambda>w. be_bytes 4 (unat w)) [?h ! 0, ?h ! 1, ?h ! 2, ?h ! 3, ?h ! 4])"
    unfolding sha1_digest_def by (rule arg_cong)
  then show ?thesis by (simp add: SHA1_Final_def SHA_CBLOCK_def h Let_def store_u32_be_eq)
qed


end
