(* ===== verification/Sha256.thy ===== *)
theory Sha256
  imports Md32 Schedule
begin

text \<open>
  \<open>crypto/fipsmodule/sha/sha256.c\<close>: SHA-224 and SHA-256.

  The code keeps the last 16 words of the message schedule in a circular buffer \<open>X\<close> and rotates the
  names of the working variables instead of their values. The model keeps the buffer and passes the
  rotated tuple. \<open>sha256_compress\<close> is the compression function of FIPS 180-4 with the whole schedule of
  64 words; the block function of the code computes it, and the digest of a message in pieces is the
  hash of FIPS 180-4 of the whole message.
\<close>

definition K256 :: "u32 list" where
  "K256 =
    [1116352408, 1899447441, 3049323471, 3921009573, 961987163, 1508970993,
     2453635748, 2870763221, 3624381080, 310598401, 607225278, 1426881987,
     1925078388, 2162078206, 2614888103, 3248222580, 3835390401, 4022224774,
     264347078, 604807628, 770255983, 1249150122, 1555081692, 1996064986,
     2554220882, 2821834349, 2952996808, 3210313671, 3336571891, 3584528711,
     113926993, 338241895, 666307205, 773529912, 1294757372, 1396182291,
     1695183700, 1986661051, 2177026350, 2456956037, 2730485921, 2820302411,
     3259730800, 3345764771, 3516065817, 3600352804, 4094571909, 275423344,
     430227734, 506948616, 659060556, 883997877, 958139571, 1322822218,
     1537002063, 1747873779, 1955562222, 2024104815, 2227730452, 2361852424,
     2428436474, 2756734187, 3204031479, 3329325298]"

definition sha256_Sigma0 :: "u32 \<Rightarrow> u32" where
  "sha256_Sigma0 x = CRYPTO_rotr_u32 x 2 XOR CRYPTO_rotr_u32 x 13 XOR CRYPTO_rotr_u32 x 22"

definition sha256_Sigma1 :: "u32 \<Rightarrow> u32" where
  "sha256_Sigma1 x = CRYPTO_rotr_u32 x 6 XOR CRYPTO_rotr_u32 x 11 XOR CRYPTO_rotr_u32 x 25"

definition sha256_sigma0 :: "u32 \<Rightarrow> u32" where
  "sha256_sigma0 x = CRYPTO_rotr_u32 x 7 XOR CRYPTO_rotr_u32 x 18 XOR drop_bit 3 x"

definition sha256_sigma1 :: "u32 \<Rightarrow> u32" where
  "sha256_sigma1 x = CRYPTO_rotr_u32 x 17 XOR CRYPTO_rotr_u32 x 19 XOR drop_bit 10 x"

type_synonym sha256_vars = "u32 \<times> u32 \<times> u32 \<times> u32 \<times> u32 \<times> u32 \<times> u32 \<times> u32"

text \<open>The variables in the order in which the next round names them.\<close>

fun sha256_ROUND_00_15 :: "nat \<Rightarrow> u32 \<Rightarrow> sha256_vars \<Rightarrow> sha256_vars" where
  "sha256_ROUND_00_15 i T1 (a, b, c, d, e, f, g, h) =
     (let T1 = T1 + h + sha256_Sigma1 e + sha_Ch e f g + K256 ! i;
          h = sha256_Sigma0 a + sha_Maj a b c;
          d = d + T1;
          h = h + T1
      in (h, a, b, c, d, e, f, g))"

fun sha256_ROUND_16_63 :: "nat \<Rightarrow> u32 list \<times> sha256_vars \<Rightarrow> u32 list \<times> sha256_vars" where
  "sha256_ROUND_16_63 i (X, v) =
     (let s0 = sha256_sigma0 (X ! ((i + 1) mod 16));
          s1 = sha256_sigma1 (X ! ((i + 14) mod 16));
          T1 = X ! (i mod 16) + (s0 + s1 + X ! ((i + 9) mod 16))
      in (X[i mod 16 := T1], sha256_ROUND_00_15 i T1 v))"

definition sha256_load :: "bytes \<Rightarrow> u32 list" where
  "sha256_load data = map (\<lambda>i. CRYPTO_load_u32_be (drop (4 * i) data)) [0..<16]"

definition sha256_block :: "u32 list \<Rightarrow> bytes \<Rightarrow> u32 list" where
  "sha256_block state data =
     (let v = (state ! 0, state ! 1, state ! 2, state ! 3, state ! 4, state ! 5, state ! 6, state ! 7);
          X = sha256_load data;
          v = fold (\<lambda>i. sha256_ROUND_00_15 i (X ! i)) [0..<16] v;
          (X, a, b, c, d, e, f, g, h) = fold sha256_ROUND_16_63 [16..<64] (X, v)
      in [state ! 0 + a, state ! 1 + b, state ! 2 + c, state ! 3 + d,
          state ! 4 + e, state ! 5 + f, state ! 6 + g, state ! 7 + h])"

fun sha256_block_data_order :: "u32 list \<Rightarrow> bytes \<Rightarrow> nat \<Rightarrow> u32 list" where
  "sha256_block_data_order state data 0 = state"
| "sha256_block_data_order state data (Suc num) =
     sha256_block_data_order (sha256_block state data) (drop 64 data) num"

record sha256_ctx =
  sha_md :: md32_ctx
  sha_md_len :: nat

definition SHA256_CBLOCK :: nat where "SHA256_CBLOCK = 64"
definition SHA224_DIGEST_LENGTH :: nat where "SHA224_DIGEST_LENGTH = 28"
definition SHA256_DIGEST_LENGTH :: nat where "SHA256_DIGEST_LENGTH = 32"

definition SHA224_Init :: sha256_ctx where
  "SHA224_Init =
     \<lparr>sha_md =
        \<lparr>md_h = [3238371032, 914150663, 812702999, 4144912697,
                 4290775857, 1750603025, 1694076839, 3204075428],
         md_Nl = 0, md_Nh = 0, md_data = replicate SHA256_CBLOCK 0, md_num = 0\<rparr>,
      sha_md_len = SHA224_DIGEST_LENGTH\<rparr>"

definition SHA256_Init :: sha256_ctx where
  "SHA256_Init =
     \<lparr>sha_md =
        \<lparr>md_h = [1779033703, 3144134277, 1013904242, 2773480762,
                 1359893119, 2600822924, 528734635, 1541459225],
         md_Nl = 0, md_Nh = 0, md_data = replicate SHA256_CBLOCK 0, md_num = 0\<rparr>,
      sha_md_len = SHA256_DIGEST_LENGTH\<rparr>"

definition SHA256_Transform :: "sha256_ctx \<Rightarrow> bytes \<Rightarrow> sha256_ctx" where
  "SHA256_Transform c data =
     c\<lparr>sha_md := (sha_md c)\<lparr>md_h := sha256_block_data_order (md_h (sha_md c)) data 1\<rparr>\<rparr>"

definition SHA256_TransformBlocks :: "u32 list \<Rightarrow> bytes \<Rightarrow> nat \<Rightarrow> u32 list" where
  "SHA256_TransformBlocks state data num_blocks = sha256_block_data_order state data num_blocks"

definition SHA256_Update :: "sha256_ctx \<Rightarrow> bytes \<Rightarrow> sha256_ctx" where
  "SHA256_Update c data =
     c\<lparr>sha_md := crypto_md32_update sha256_block_data_order SHA256_CBLOCK (sha_md c) data\<rparr>"

definition SHA224_Update :: "sha256_ctx \<Rightarrow> bytes \<Rightarrow> sha256_ctx" where
  "SHA224_Update ctx data = SHA256_Update ctx data"

text \<open>\<open>None\<close> for the return of 0.\<close>

definition sha256_final_impl :: "sha256_ctx \<Rightarrow> bytes option \<times> sha256_ctx" where
  "sha256_final_impl c =
     (let c = c\<lparr>sha_md := crypto_md32_final sha256_block_data_order SHA256_CBLOCK True (sha_md c)\<rparr>
      in if sha_md_len c > SHA256_DIGEST_LENGTH then (None, c)
         else
           let out_words = sha_md_len c div 4
           in (Some (concat (map (\<lambda>i. CRYPTO_store_u32_be (md_h (sha_md c) ! i)) [0..<out_words])), c))"

definition SHA256_Final :: "sha256_ctx \<Rightarrow> bytes option \<times> sha256_ctx" where
  "SHA256_Final c = sha256_final_impl c"

definition SHA224_Final :: "sha256_ctx \<Rightarrow> bytes option \<times> sha256_ctx" where
  "SHA224_Final ctx = sha256_final_impl ctx"

definition SHA256 :: "bytes \<Rightarrow> bytes option" where
  "SHA256 data = fst (SHA256_Final (SHA256_Update SHA256_Init data))"

definition SHA224 :: "bytes \<Rightarrow> bytes option" where
  "SHA224 data = fst (SHA224_Final (SHA224_Update SHA224_Init data))"

section \<open>The hash of FIPS 180-4\<close>

definition sha256_rule :: "(nat \<Rightarrow> u32) \<Rightarrow> u32" where
  "sha256_rule w = sha256_sigma1 (w 14) + w 9 + sha256_sigma0 (w 1) + w 0"

fun sha256_step :: "u32 \<Rightarrow> u32 \<Rightarrow> sha256_vars \<Rightarrow> sha256_vars" where
  "sha256_step Kt Wt (a, b, c, d, e, f, g, h) =
     (let T1 = h + sha256_Sigma1 e + sha_Ch e f g + Kt + Wt;
          T2 = sha256_Sigma0 a + sha_Maj a b c
      in (T1 + T2, a, b, c, d + T1, e, f, g))"

definition sha256_compress :: "u32 list \<Rightarrow> bytes \<Rightarrow> u32 list" where
  "sha256_compress H blk =
     (let W = message_schedule sha256_rule (sha256_load blk) 48;
          (a, b, c, d, e, f, g, h) =
            fold (\<lambda>t. sha256_step (K256 ! t) (W ! t)) [0..<64]
              (H ! 0, H ! 1, H ! 2, H ! 3, H ! 4, H ! 5, H ! 6, H ! 7)
      in [H ! 0 + a, H ! 1 + b, H ! 2 + c, H ! 3 + d, H ! 4 + e, H ! 5 + f, H ! 6 + g, H ! 7 + h])"

definition sha256_words :: "u32 list \<Rightarrow> bytes \<Rightarrow> u32 list" where
  "sha256_words H0 m = md_fold 64 sha256_compress H0 (md_pad 64 8 True m)"

lemma sha256_ROUND_step: "sha256_ROUND_00_15 i w v = sha256_step (K256 ! i) w v"
proof -
  obtain a b c d e f g h where "v = (a, b, c, d, e, f, g, h)" by (rule prod_cases8)
  then show ?thesis by (simp add: Let_def add_ac)
qed

lemma sha256_ROUND_circular:
  "sha256_ROUND_16_63 = circular_round sha256_rule (\<lambda>t. sha256_step (K256 ! t))"
  by (auto simp: fun_eq_iff Let_def sha256_rule_def sha256_ROUND_step add_ac)

lemma sha256_window: "window_rule sha256_rule"
  by (simp add: window_rule_def sha256_rule_def)

lemma length_sha256_load [simp]: "length (sha256_load d) = 16"
  by (simp add: sha256_load_def)

lemma sha256_block_eq: "sha256_block H blk = sha256_compress H blk"
proof -
  let ?M = "sha256_load blk"
  let ?v = "(H ! 0, H ! 1, H ! 2, H ! 3, H ! 4, H ! 5, H ! 6, H ! 7)"
  let ?v1 = "fold (\<lambda>i. sha256_ROUND_00_15 i (?M ! i)) [0..<16] ?v"
  have "snd (fold sha256_ROUND_16_63 [16..<64] (?M, ?v1)) =
      fold (\<lambda>t. sha256_step (K256 ! t) (message_schedule sha256_rule ?M 48 ! t)) [0..<64] ?v"
    unfolding sha256_ROUND_circular sha256_ROUND_step
    by (rule all_rounds [OF length_sha256_load sha256_window]) simp
  moreover obtain X w where X: "fold sha256_ROUND_16_63 [16..<64] (?M, ?v1) = (X, w)" by (rule prod.exhaust)
  ultimately have w: "fold (\<lambda>t. sha256_step (K256 ! t) (message_schedule sha256_rule ?M 48 ! t)) [0..<64] ?v = w"
    by simp
  show ?thesis unfolding sha256_block_def sha256_compress_def Let_def X w prod.case ..
qed

section \<open>The digest\<close>

lemma sha256_load_local: "length x = 64 \<Longrightarrow> sha256_load (x @ y) = sha256_load x"
  unfolding sha256_load_def by (intro map_cong load_u32_be_local) simp_all

interpretation sha256: md32_hash sha256_block_data_order 64
  by unfold_locales (simp_all add: sha256_block_eq sha256_compress_def sha256_load_local)

lemma sha256_block_one: "sha256_block_data_order h x 1 = sha256_compress h x"
  by (simp add: sha256_block_eq)

lemma length_sha256_words: "length H0 = 8 \<Longrightarrow> length (sha256_words H0 m) = 8"
  unfolding sha256_words_def
  by (rule md_fold_invariant [where P = "\<lambda>h. length h = 8"])
    (simp_all add: sha256_compress_def Let_def case_prod_unfold)

text \<open>The first \<open>n\<close> words of the hash, as bytes.\<close>

definition sha256_digest :: "u32 list \<Rightarrow> nat \<Rightarrow> bytes \<Rightarrow> bytes" where
  "sha256_digest H0 n m = concat (map (\<lambda>w. be_bytes 4 (unat w)) (take n (sha256_words H0 m)))"

lemma length_sha256_digest: "length H0 = 8 \<Longrightarrow> n \<le> 8 \<Longrightarrow> length (sha256_digest H0 n m) = 4 * n"
  by (simp add: sha256_digest_def length_concat comp_def length_sha256_words sum_list_triv)

text \<open>The context that has taken in a message, from the initial words \<open>H0\<close> and for \<open>n\<close> output words.\<close>

definition sha256_holds :: "u32 list \<Rightarrow> nat \<Rightarrow> bytes \<Rightarrow> sha256_ctx \<Rightarrow> bool" where
  "sha256_holds H0 n m c \<longleftrightarrow> sha256.holds_message H0 m (sha_md c) \<and> sha_md_len c = 4 * n"

lemma sha256_holds_init: "sha256_holds (md_h (sha_md SHA256_Init)) 8 [] SHA256_Init"
  using sha256.init_holds [of "md_h (sha_md SHA256_Init)"]
  by (simp add: sha256_holds_def SHA256_Init_def SHA256_CBLOCK_def SHA256_DIGEST_LENGTH_def)

lemma sha224_holds_init: "sha256_holds (md_h (sha_md SHA224_Init)) 7 [] SHA224_Init"
  using sha256.init_holds [of "md_h (sha_md SHA224_Init)"]
  by (simp add: sha256_holds_def SHA224_Init_def SHA256_CBLOCK_def SHA224_DIGEST_LENGTH_def)

lemma sha256_holds_update: "sha256_holds H0 n m c \<Longrightarrow> sha256_holds H0 n (m @ s) (SHA256_Update c s)"
  unfolding sha256_holds_def SHA256_Update_def SHA256_CBLOCK_def by (simp add: sha256.update_holds)

lemma sha256_holds_updates:
  "sha256_holds H0 n m c \<Longrightarrow> sha256_holds H0 n (m @ concat ps) (foldl SHA256_Update c ps)"
proof (induction ps arbitrary: m c)
  case (Cons s ps)
  then show ?case using sha256_holds_update [OF Cons.prems, of s] by fastforce
qed simp

lemma sha256_holds_final:
  assumes "sha256_holds H0 n m c" and H0: "length H0 = 8" and n: "n \<le> 8"
  shows "fst (sha256_final_impl c) = Some (sha256_digest H0 n m)"
proof -
  let ?h = "sha256_words H0 m"
  have len: "sha_md_len c = 4 * n" and m: "sha256.holds_message H0 m (sha_md c)"
    using assms(1) by (simp_all add: sha256_holds_def)
  have h: "md_h (crypto_md32_final sha256_block_data_order 64 True (sha_md c)) = ?h"
    unfolding sha256.final_eq [OF m] sha256_block_one sha256_words_def ..
  have "map ((!) ?h) [0..<n] = take n ?h"
    using length_sha256_words [OF H0] n by (intro nth_equalityI) simp_all
  then have "map (\<lambda>i. be_bytes 4 (unat (?h ! i))) [0..<n] = map (\<lambda>w. be_bytes 4 (unat w)) (take n ?h)"
    by (metis (no_types, lifting) map_map comp_def map_cong)
  then show ?thesis
    using n len by (simp add: sha256_final_impl_def SHA256_CBLOCK_def SHA256_DIGEST_LENGTH_def
        sha256_digest_def Let_def h store_u32_be_eq)
qed


end
