(* ===== verification/Sha512.thy ===== *)
theory Sha512
  imports Block_Hash Schedule
begin

text \<open>
  \<open>crypto/fipsmodule/sha/sha512.c\<close>: SHA-384, SHA-512 and SHA-512/256, with their own collector (128-byte
  blocks, a 128-bit count of bits in two words, a 16-byte length field). The block function is the one of
  the builds that are not 32-bit x86. \<open>sha512_compress\<close> is the compression function of FIPS 180-4 with the
  schedule of 80 words.
\<close>

text \<open>The macro of \<open>stdint.h\<close>.\<close>

abbreviation (input) UINT64_C :: "u64 \<Rightarrow> u64" where "UINT64_C c \<equiv> c"

definition K512 :: "u64 list" where
  "K512 =
    [UINT64_C 0x428a2f98d728ae22, UINT64_C 0x7137449123ef65cd, UINT64_C 0xb5c0fbcfec4d3b2f,
     UINT64_C 0xe9b5dba58189dbbc, UINT64_C 0x3956c25bf348b538, UINT64_C 0x59f111f1b605d019,
     UINT64_C 0x923f82a4af194f9b, UINT64_C 0xab1c5ed5da6d8118, UINT64_C 0xd807aa98a3030242,
     UINT64_C 0x12835b0145706fbe, UINT64_C 0x243185be4ee4b28c, UINT64_C 0x550c7dc3d5ffb4e2,
     UINT64_C 0x72be5d74f27b896f, UINT64_C 0x80deb1fe3b1696b1, UINT64_C 0x9bdc06a725c71235,
     UINT64_C 0xc19bf174cf692694, UINT64_C 0xe49b69c19ef14ad2, UINT64_C 0xefbe4786384f25e3,
     UINT64_C 0x0fc19dc68b8cd5b5, UINT64_C 0x240ca1cc77ac9c65, UINT64_C 0x2de92c6f592b0275,
     UINT64_C 0x4a7484aa6ea6e483, UINT64_C 0x5cb0a9dcbd41fbd4, UINT64_C 0x76f988da831153b5,
     UINT64_C 0x983e5152ee66dfab, UINT64_C 0xa831c66d2db43210, UINT64_C 0xb00327c898fb213f,
     UINT64_C 0xbf597fc7beef0ee4, UINT64_C 0xc6e00bf33da88fc2, UINT64_C 0xd5a79147930aa725,
     UINT64_C 0x06ca6351e003826f, UINT64_C 0x142929670a0e6e70, UINT64_C 0x27b70a8546d22ffc,
     UINT64_C 0x2e1b21385c26c926, UINT64_C 0x4d2c6dfc5ac42aed, UINT64_C 0x53380d139d95b3df,
     UINT64_C 0x650a73548baf63de, UINT64_C 0x766a0abb3c77b2a8, UINT64_C 0x81c2c92e47edaee6,
     UINT64_C 0x92722c851482353b, UINT64_C 0xa2bfe8a14cf10364, UINT64_C 0xa81a664bbc423001,
     UINT64_C 0xc24b8b70d0f89791, UINT64_C 0xc76c51a30654be30, UINT64_C 0xd192e819d6ef5218,
     UINT64_C 0xd69906245565a910, UINT64_C 0xf40e35855771202a, UINT64_C 0x106aa07032bbd1b8,
     UINT64_C 0x19a4c116b8d2d0c8, UINT64_C 0x1e376c085141ab53, UINT64_C 0x2748774cdf8eeb99,
     UINT64_C 0x34b0bcb5e19b48a8, UINT64_C 0x391c0cb3c5c95a63, UINT64_C 0x4ed8aa4ae3418acb,
     UINT64_C 0x5b9cca4f7763e373, UINT64_C 0x682e6ff3d6b2b8a3, UINT64_C 0x748f82ee5defb2fc,
     UINT64_C 0x78a5636f43172f60, UINT64_C 0x84c87814a1f0ab72, UINT64_C 0x8cc702081a6439ec,
     UINT64_C 0x90befffa23631e28, UINT64_C 0xa4506cebde82bde9, UINT64_C 0xbef9a3f7b2c67915,
     UINT64_C 0xc67178f2e372532b, UINT64_C 0xca273eceea26619c, UINT64_C 0xd186b8c721c0c207,
     UINT64_C 0xeada7dd6cde0eb1e, UINT64_C 0xf57d4f7fee6ed178, UINT64_C 0x06f067aa72176fba,
     UINT64_C 0x0a637dc5a2c898a6, UINT64_C 0x113f9804bef90dae, UINT64_C 0x1b710b35131c471b,
     UINT64_C 0x28db77f523047d84, UINT64_C 0x32caab7b40c72493, UINT64_C 0x3c9ebe0a15c9bebc,
     UINT64_C 0x431d67c49c100d4c, UINT64_C 0x4cc5d4becb3e42b6, UINT64_C 0x597f299cfc657e2a,
     UINT64_C 0x5fcb6fab3ad6faec, UINT64_C 0x6c44198c4a475817]"

definition sha512_Sigma0 :: "u64 \<Rightarrow> u64" where
  "sha512_Sigma0 x = CRYPTO_rotr_u64 x 28 XOR CRYPTO_rotr_u64 x 34 XOR CRYPTO_rotr_u64 x 39"

definition sha512_Sigma1 :: "u64 \<Rightarrow> u64" where
  "sha512_Sigma1 x = CRYPTO_rotr_u64 x 14 XOR CRYPTO_rotr_u64 x 18 XOR CRYPTO_rotr_u64 x 41"

definition sha512_sigma0 :: "u64 \<Rightarrow> u64" where
  "sha512_sigma0 x = CRYPTO_rotr_u64 x 1 XOR CRYPTO_rotr_u64 x 8 XOR drop_bit 7 x"

definition sha512_sigma1 :: "u64 \<Rightarrow> u64" where
  "sha512_sigma1 x = CRYPTO_rotr_u64 x 19 XOR CRYPTO_rotr_u64 x 61 XOR drop_bit 6 x"

type_synonym sha512_vars = "u64 \<times> u64 \<times> u64 \<times> u64 \<times> u64 \<times> u64 \<times> u64 \<times> u64"

text \<open>The variables in the order in which the next round names them.\<close>

fun sha512_ROUND_00_15 :: "nat \<Rightarrow> u64 \<Rightarrow> sha512_vars \<Rightarrow> sha512_vars" where
  "sha512_ROUND_00_15 i T1 (a, b, c, d, e, f, g, h) =
     (let T1 = T1 + (h + sha512_Sigma1 e + sha_Ch e f g + K512 ! i);
          h = sha512_Sigma0 a + sha_Maj a b c;
          d = d + T1;
          h = h + T1
      in (h, a, b, c, d, e, f, g))"

fun sha512_ROUND_16_80 :: "nat \<Rightarrow> nat \<Rightarrow> u64 list \<times> sha512_vars \<Rightarrow> u64 list \<times> sha512_vars" where
  "sha512_ROUND_16_80 i j (X, v) =
     (let s0 = sha512_sigma0 (X ! ((j + 1) mod 16));
          s1 = sha512_sigma1 (X ! ((j + 14) mod 16));
          T1 = X ! (j mod 16) + (s0 + s1 + X ! ((j + 9) mod 16))
      in (X[j mod 16 := T1], sha512_ROUND_00_15 (i + j) T1 v))"

definition sha512_load :: "bytes \<Rightarrow> u64 list" where
  "sha512_load inp = map (\<lambda>i. CRYPTO_load_u64_be (drop (8 * i) inp)) [0..<16]"

text \<open>The loop \<open>for (i = 16; i < 80; i += 16)\<close> with its 16 rounds.\<close>

definition sha512_block :: "u64 list \<Rightarrow> bytes \<Rightarrow> u64 list" where
  "sha512_block state inp =
     (let v = (state ! 0, state ! 1, state ! 2, state ! 3, state ! 4, state ! 5, state ! 6, state ! 7);
          X = sha512_load inp;
          v = fold (\<lambda>i. sha512_ROUND_00_15 i (X ! i)) [0..<16] v;
          (X, a, b, c, d, e, f, g, h) =
            fold (\<lambda>i. fold (sha512_ROUND_16_80 i) [0..<16]) [16, 32, 48, 64] (X, v)
      in [state ! 0 + a, state ! 1 + b, state ! 2 + c, state ! 3 + d,
          state ! 4 + e, state ! 5 + f, state ! 6 + g, state ! 7 + h])"

fun sha512_block_data_order :: "u64 list \<Rightarrow> bytes \<Rightarrow> nat \<Rightarrow> u64 list" where
  "sha512_block_data_order state inp 0 = state"
| "sha512_block_data_order state inp (Suc num) =
     sha512_block_data_order (sha512_block state inp) (drop (16 * 8) inp) num"

record sha512_ctx =
  sha512_h :: "u64 list"
  sha512_Nl :: u64
  sha512_Nh :: u64
  sha512_p :: bytes
  sha512_num :: nat
  sha512_md_len :: nat

definition SHA512_CBLOCK :: nat where "SHA512_CBLOCK = 128"
definition SHA384_DIGEST_LENGTH :: nat where "SHA384_DIGEST_LENGTH = 48"
definition SHA512_DIGEST_LENGTH :: nat where "SHA512_DIGEST_LENGTH = 64"
definition SHA512_256_DIGEST_LENGTH :: nat where "SHA512_256_DIGEST_LENGTH = 32"

text \<open>The initialisers leave the buffer as it is.\<close>

definition SHA384_Init :: "sha512_ctx \<Rightarrow> sha512_ctx" where
  "SHA384_Init sha =
     sha\<lparr>sha512_h :=
           [0xcbbb9d5dc1059ed8, 0x629a292a367cd507, 0x9159015a3070dd17,
            0x152fecd8f70e5939, 0x67332667ffc00b31, 0x8eb44a8768581511,
            0xdb0c2e0d64f98fa7, 0x47b5481dbefa4fa4],
         sha512_Nl := 0, sha512_Nh := 0, sha512_num := 0, sha512_md_len := SHA384_DIGEST_LENGTH\<rparr>"

definition SHA512_Init :: "sha512_ctx \<Rightarrow> sha512_ctx" where
  "SHA512_Init sha =
     sha\<lparr>sha512_h :=
           [0x6a09e667f3bcc908, 0xbb67ae8584caa73b, 0x3c6ef372fe94f82b,
            0xa54ff53a5f1d36f1, 0x510e527fade682d1, 0x9b05688c2b3e6c1f,
            0x1f83d9abfb41bd6b, 0x5be0cd19137e2179],
         sha512_Nl := 0, sha512_Nh := 0, sha512_num := 0, sha512_md_len := SHA512_DIGEST_LENGTH\<rparr>"

definition SHA512_256_Init :: "sha512_ctx \<Rightarrow> sha512_ctx" where
  "SHA512_256_Init sha =
     sha\<lparr>sha512_h :=
           [0x22312194fc2bf72c, 0x9f555fa3c84c64c2, 0x2393b86b6f53b151,
            0x963877195940eabd, 0x96283ee2a88effe3, 0xbe5e1e2553863992,
            0x2b0199fc2c85b8aa, 0x0eb72ddc81c52ca2],
         sha512_Nl := 0, sha512_Nh := 0, sha512_num := 0, sha512_md_len := SHA512_256_DIGEST_LENGTH\<rparr>"

definition SHA512_Transform :: "sha512_ctx \<Rightarrow> bytes \<Rightarrow> sha512_ctx" where
  "SHA512_Transform c block = c\<lparr>sha512_h := sha512_block_data_order (sha512_h c) block 1\<rparr>"

definition SHA512_Update :: "sha512_ctx \<Rightarrow> bytes \<Rightarrow> sha512_ctx" where
  "SHA512_Update c data =
     (if length data = 0 then c
      else
        let l = sha512_Nl c + push_bit 3 (word_of_nat (length data));
            Nh = (if l < sha512_Nl c then sha512_Nh c + 1 else sha512_Nh c);
            Nh = Nh + word_of_nat (length data div 2 ^ 61);
            c = c\<lparr>sha512_Nh := Nh, sha512_Nl := l\<rparr>;
            n = 128 - sha512_num c
        in if sha512_num c \<noteq> 0 \<and> length data < n then
             c\<lparr>sha512_p := mem_copy (sha512_p c) (sha512_num c) data, sha512_num := sha512_num c + length data\<rparr>
           else
             let (c, data) =
               (if sha512_num c \<noteq> 0 then
                  let p = mem_copy (sha512_p c) (sha512_num c) (take n data)
                  in (c\<lparr>sha512_p := p, sha512_num := 0, sha512_h := sha512_block_data_order (sha512_h c) p 1\<rparr>,
                      drop n data)
                else (c, data));
               (c, data) =
                 (if length data \<ge> 128 then
                    (c\<lparr>sha512_h := sha512_block_data_order (sha512_h c) data (length data div 128)\<rparr>,
                     drop (length data - length data mod 128) data)
                  else (c, data))
             in if length data \<noteq> 0 then
                  c\<lparr>sha512_p := mem_copy (sha512_p c) 0 data, sha512_num := length data\<rparr>
                else c)"

definition SHA384_Update :: "sha512_ctx \<Rightarrow> bytes \<Rightarrow> sha512_ctx" where
  "SHA384_Update sha data = SHA512_Update sha data"

definition SHA512_256_Update :: "sha512_ctx \<Rightarrow> bytes \<Rightarrow> sha512_ctx" where
  "SHA512_256_Update sha data = SHA512_Update sha data"

text \<open>\<open>None\<close> for the return of 0, when there is no output buffer.\<close>

definition sha512_final_impl :: "bool \<Rightarrow> sha512_ctx \<Rightarrow> bytes option \<times> sha512_ctx" where
  "sha512_final_impl out_null sha =
     (let p = (sha512_p sha)[sha512_num sha := 0x80];
          n = sha512_num sha + 1;
          (h, p, n) =
            (if n > 128 - 16 then
               let p = mem_copy p n (replicate (128 - n) 0)
               in (sha512_block_data_order (sha512_h sha) p 1, p, 0)
             else (sha512_h sha, p, n));
          p = mem_copy p n (replicate (128 - 16 - n) 0);
          p = mem_copy p (128 - 16) (CRYPTO_store_u64_be (sha512_Nh sha));
          p = mem_copy p (128 - 8) (CRYPTO_store_u64_be (sha512_Nl sha));
          h = sha512_block_data_order h p 1;
          sha = sha\<lparr>sha512_h := h, sha512_p := p\<rparr>
      in if out_null then (None, sha)
         else
           let out_words = sha512_md_len sha div 8
           in (Some (concat (map (\<lambda>i. CRYPTO_store_u64_be (h ! i)) [0..<out_words])), sha))"

definition SHA384_Final :: "bool \<Rightarrow> sha512_ctx \<Rightarrow> bytes option \<times> sha512_ctx" where
  "SHA384_Final out_null sha = sha512_final_impl out_null sha"

definition SHA512_Final :: "bool \<Rightarrow> sha512_ctx \<Rightarrow> bytes option \<times> sha512_ctx" where
  "SHA512_Final out_null sha = sha512_final_impl out_null sha"

definition SHA512_256_Final :: "bool \<Rightarrow> sha512_ctx \<Rightarrow> bytes option \<times> sha512_ctx" where
  "SHA512_256_Final out_null sha = sha512_final_impl out_null sha"

text \<open>The one-shot functions, with the context as the stack gives it.\<close>

definition SHA384 :: "sha512_ctx \<Rightarrow> bytes \<Rightarrow> bytes option" where
  "SHA384 ctx data = fst (SHA384_Final False (SHA384_Update (SHA384_Init ctx) data))"

definition SHA512 :: "sha512_ctx \<Rightarrow> bytes \<Rightarrow> bytes option" where
  "SHA512 ctx data = fst (SHA512_Final False (SHA512_Update (SHA512_Init ctx) data))"

definition SHA512_256 :: "sha512_ctx \<Rightarrow> bytes \<Rightarrow> bytes option" where
  "SHA512_256 ctx data = fst (SHA512_256_Final False (SHA512_256_Update (SHA512_256_Init ctx) data))"

section \<open>The hash of FIPS 180-4\<close>

definition sha512_rule :: "(nat \<Rightarrow> u64) \<Rightarrow> u64" where
  "sha512_rule w = sha512_sigma1 (w 14) + w 9 + sha512_sigma0 (w 1) + w 0"

fun sha512_step :: "u64 \<Rightarrow> u64 \<Rightarrow> sha512_vars \<Rightarrow> sha512_vars" where
  "sha512_step Kt Wt (a, b, c, d, e, f, g, h) =
     (let T1 = h + sha512_Sigma1 e + sha_Ch e f g + Kt + Wt;
          T2 = sha512_Sigma0 a + sha_Maj a b c
      in (T1 + T2, a, b, c, d + T1, e, f, g))"

definition sha512_compress :: "u64 list \<Rightarrow> bytes \<Rightarrow> u64 list" where
  "sha512_compress H blk =
     (let W = message_schedule sha512_rule (sha512_load blk) 64;
          (a, b, c, d, e, f, g, h) =
            fold (\<lambda>t. sha512_step (K512 ! t) (W ! t)) [0..<80]
              (H ! 0, H ! 1, H ! 2, H ! 3, H ! 4, H ! 5, H ! 6, H ! 7)
      in [H ! 0 + a, H ! 1 + b, H ! 2 + c, H ! 3 + d, H ! 4 + e, H ! 5 + f, H ! 6 + g, H ! 7 + h])"

definition sha512_words :: "u64 list \<Rightarrow> bytes \<Rightarrow> u64 list" where
  "sha512_words H0 m = md_fold 128 sha512_compress H0 (md_pad 128 16 True m)"

lemma sha512_ROUND_step: "sha512_ROUND_00_15 i w v = sha512_step (K512 ! i) w v"
proof -
  obtain a b c d e f g h where "v = (a, b, c, d, e, f, g, h)" by (rule prod_cases8)
  then show ?thesis by (simp add: Let_def add_ac)
qed

lemma sha512_ROUND_circular:
  assumes "i mod 16 = 0"
  shows "sha512_ROUND_16_80 i j = circular_round sha512_rule (\<lambda>t. sha512_step (K512 ! t)) (i + j)"
proof -
  have m: "(i + k) mod 16 = k mod 16" for k
    using assms mod_add_left_eq [of i 16 k] by simp
  show ?thesis
    using m [of "Suc j"] by (auto simp: fun_eq_iff Let_def sha512_rule_def sha512_ROUND_step m add_ac)
qed

lemma sha512_window: "window_rule sha512_rule"
  by (simp add: window_rule_def sha512_rule_def)

lemma length_sha512_load [simp]: "length (sha512_load d) = 16"
  by (simp add: sha512_load_def)

text \<open>The loop in steps of 16 rounds is a loop over the rounds.\<close>

lemma sha512_loop:
  "fold (\<lambda>i. fold (sha512_ROUND_16_80 i) [0..<16]) [16, 32, 48, 64] s =
     fold (circular_round sha512_rule (\<lambda>t. sha512_step (K512 ! t))) [16..<80] s"
proof -
  let ?c = "circular_round sha512_rule (\<lambda>t. sha512_step (K512 ! t))"
  have i: "fold (sha512_ROUND_16_80 i) [0..<16] s = fold ?c (map ((+) i) [0..<16]) s" if "i mod 16 = 0" for i s
    unfolding fold_map using that by (intro fold_cong) (simp_all add: sha512_ROUND_circular)
  have u: "[16..<80] = map ((+) 16) [0..<16] @ map ((+) 32) [0..<16] @ map ((+) 48) [0..<16] @ map ((+) 64) [0..<16]"
    by code_simp
  have "fold (\<lambda>i. fold (sha512_ROUND_16_80 i) [0..<16]) [16, 32, 48, 64] s =
      fold ?c (map ((+) 64) [0..<16]) (fold ?c (map ((+) 48) [0..<16])
        (fold ?c (map ((+) 32) [0..<16]) (fold ?c (map ((+) 16) [0..<16]) s)))"
    unfolding fold_simps by (simp add: i del: upt_conv_Cons upt_rec)
  then show ?thesis unfolding u fold_append comp_apply .
qed

lemma sha512_block_eq: "sha512_block H blk = sha512_compress H blk"
proof -
  let ?M = "sha512_load blk"
  let ?v = "(H ! 0, H ! 1, H ! 2, H ! 3, H ! 4, H ! 5, H ! 6, H ! 7)"
  let ?v1 = "fold (\<lambda>i. sha512_ROUND_00_15 i (?M ! i)) [0..<16] ?v"
  let ?loop = "fold (\<lambda>i. fold (sha512_ROUND_16_80 i) [0..<16]) [16, 32, 48, 64]"
  have "snd (?loop (?M, ?v1)) =
      fold (\<lambda>t. sha512_step (K512 ! t) (message_schedule sha512_rule ?M 64 ! t)) [0..<80] ?v"
    unfolding sha512_loop sha512_ROUND_step
    by (rule all_rounds [OF length_sha512_load sha512_window]) simp
  moreover obtain X w where X: "?loop (?M, ?v1) = (X, w)" by (rule prod.exhaust)
  ultimately have w: "fold (\<lambda>t. sha512_step (K512 ! t) (message_schedule sha512_rule ?M 64 ! t)) [0..<80] ?v = w"
    by simp
  show ?thesis unfolding sha512_block_def sha512_compress_def Let_def X w prod.case ..
qed

section \<open>The collector\<close>

lemma sha512_load_local: "length x = 128 \<Longrightarrow> sha512_load (x @ y) = sha512_load x"
  unfolding sha512_load_def by (intro map_cong load_u64_be_local) simp_all

interpretation sha512: block_hash sha512_block_data_order 128
  by unfold_locales (simp_all add: sha512_block_eq sha512_compress_def sha512_load_local)

lemma sha512_block_one: "sha512_block_data_order h x 1 = sha512_compress h x"
  by (simp add: sha512_block_eq)

definition sha512_holds :: "u64 list \<Rightarrow> bytes \<Rightarrow> sha512_ctx \<Rightarrow> bool" where
  "sha512_holds h0 m c \<longleftrightarrow>
     sha512.buffered h0 m (sha512_h c) (sha512_p c) (sha512_num c) \<and>
     unat (sha512_Nh c) * 2 ^ 64 + unat (sha512_Nl c) = 8 * length m mod 2 ^ 128"

text \<open>The end of an update, with an empty buffer.\<close>

definition sha512_rest :: "sha512_ctx \<Rightarrow> bytes \<Rightarrow> sha512_ctx" where
  "sha512_rest c data =
     (let (c, data) =
        (if length data \<ge> 128 then
           (c\<lparr>sha512_h := sha512_block_data_order (sha512_h c) data (length data div 128)\<rparr>,
            drop (length data - length data mod 128) data)
         else (c, data))
      in if length data \<noteq> 0 then
           c\<lparr>sha512_p := mem_copy (sha512_p c) 0 data, sha512_num := length data\<rparr>
         else c)"

lemma sha512_rest_buffered:
  fixes s :: bytes
  assumes "sha512.buffered h0 m (sha512_h c) (sha512_p c) 0" "sha512_num c = 0"
  defines "c' \<equiv> sha512_rest c s"
  shows "sha512.buffered h0 (m @ s) (sha512_h c') (sha512_p c') (sha512_num c') \<and>
    sha512_Nl c' = sha512_Nl c \<and> sha512_Nh c' = sha512_Nh c \<and> sha512_md_len c' = sha512_md_len c"
proof -
  let ?k = "length s div 128"
  let ?z = "drop (?k * 128) s"
  let ?h = "if 0 < ?k then sha512_block_data_order (sha512_h c) s ?k else sha512_h c"
  have b: "sha512.buffered h0 (m @ take (?k * 128) s) ?h (sha512_p c) 0"
    by (rule sha512.buffered_blocks [OF assms(1)])
  have "length ?z < 128" by (simp add: minus_div_mult_eq_mod)
  then have z: "sha512.buffered h0 (m @ s) ?h (mem_copy (sha512_p c) 0 ?z) (length ?z)"
    using sha512.buffered_add [OF b, of ?z] by simp
  have e: "?z = [] \<Longrightarrow> sha512.buffered h0 (m @ s) ?h (sha512_p c) 0" using b by simp
  have k: "128 \<le> length s \<longleftrightarrow> 0 < ?k" "length s - length s mod 128 = ?k * 128"
    by (auto simp: div_greater_zero_iff minus_mod_eq_div_mult)
  have c': "c' = (let c = c\<lparr>sha512_h := ?h\<rparr> in
      if ?z = [] then c else c\<lparr>sha512_p := mem_copy (sha512_p c) 0 ?z, sha512_num := length ?z\<rparr>)"
    unfolding c'_def sha512_rest_def Let_def k by (cases "0 < ?k") auto
  show ?thesis using z e assms(2) unfolding c' by (auto simp: Let_def)
qed

lemma sha512_update_holds:
  assumes "sha512_holds h0 m c"
  shows "sha512_holds h0 (m @ inp) (SHA512_Update c inp) \<and> sha512_md_len (SHA512_Update c inp) = sha512_md_len c"
proof (cases "inp = []")
  case True
  then show ?thesis using assms by (simp add: SHA512_Update_def)
next
  case False
  let ?n = "sha512_num c"
  define l where "l = sha512_Nl c + push_bit 3 (word_of_nat (length inp))"
  define Nh where "Nh = (if l < sha512_Nl c then sha512_Nh c + 1 else sha512_Nh c) + word_of_nat (length inp div 2 ^ 61)"
  define c1 where "c1 = c\<lparr>sha512_Nh := Nh, sha512_Nl := l\<rparr>"
  have buf: "sha512.buffered h0 m (sha512_h c) (sha512_p c) ?n" using assms by (simp add: sha512_holds_def)
  have bits: "unat Nh * 2 ^ 64 + unat l = 8 * length (m @ inp) mod 2 ^ 128"
  proof -
    have "unat (sha512_Nh c) * 2 ^ 64 + unat (sha512_Nl c) = 8 * length m mod 2 ^ 128"
      using assms by (simp add: sha512_holds_def)
    moreover have "unat Nh * 2 ^ 64 + unat l =
        (unat (sha512_Nh c) * 2 ^ 64 + unat (sha512_Nl c) + 8 * length inp) mod 2 ^ 128"
      using bits_add [of "sha512_Nl c" "length inp" "sha512_Nh c"] unfolding Nh_def l_def by simp
    ultimately show ?thesis by (simp only: length_append distrib_left mod_add_left_eq)
  qed
  have rest: "sha512_holds h0 (m @ inp) (sha512_rest c2 s) \<and> sha512_md_len (sha512_rest c2 s) = sha512_md_len c"
    if "sha512.buffered h0 m' (sha512_h c2) (sha512_p c2) 0" "sha512_num c2 = 0" "m' @ s = m @ inp"
      "sha512_Nl c2 = l" "sha512_Nh c2 = Nh" "sha512_md_len c2 = sha512_md_len c" for m' c2 s
    using sha512_rest_buffered [OF that(1,2), of s] that(3-) bits by (simp add: sha512_holds_def)
  consider "?n \<noteq> 0" "length inp < 128 - ?n" | "?n \<noteq> 0" "\<not> length inp < 128 - ?n" | "?n = 0" by blast
  then show ?thesis
  proof cases
    case 1
    have "SHA512_Update c inp = c1\<lparr>sha512_p := mem_copy (sha512_p c) ?n inp, sha512_num := ?n + length inp\<rparr>"
      using 1 False by (simp add: SHA512_Update_def Let_def c1_def l_def Nh_def)
    then show ?thesis
      using sha512.buffered_add [OF buf, of inp] 1(2) bits by (simp add: sha512_holds_def c1_def)
  next
    case 2
    let ?p = "mem_copy (sha512_p c) ?n (take (128 - ?n) inp)"
    let ?c2 = "c1\<lparr>sha512_p := ?p, sha512_num := 0, sha512_h := sha512_block_data_order (sha512_h c) ?p 1\<rparr>"
    have e: "SHA512_Update c inp = sha512_rest ?c2 (drop (128 - ?n) inp)"
      using 2 False by (simp add: SHA512_Update_def sha512_rest_def Let_def c1_def l_def Nh_def)
    have n: "?n < 128" "length (sha512_p c) = 128" using sha512.buffered_n [OF buf] by simp_all
    have "sha512.buffered h0 (m @ take (128 - ?n) inp) (sha512_h ?c2) (sha512_p ?c2) 0"
      using sha512.buffered_fill [OF buf, of inp ?p] 2(2) n by (simp add: mem_copy_def)
    then show ?thesis unfolding e by (rule rest) (simp_all add: c1_def)
  next
    case 3
    have e: "SHA512_Update c inp = sha512_rest c1 inp"
      using 3 False by (simp add: SHA512_Update_def sha512_rest_def Let_def c1_def l_def Nh_def)
    show ?thesis unfolding e by (rule rest [where m' = m]) (use 3 buf in \<open>simp_all add: c1_def\<close>)
  qed
qed

lemma sha512_updates_hold:
  "sha512_holds h0 m c \<Longrightarrow>
    sha512_holds h0 (m @ concat ps) (foldl SHA512_Update c ps) \<and>
    sha512_md_len (foldl SHA512_Update c ps) = sha512_md_len c"
proof (induction ps arbitrary: m c)
  case (Cons p ps)
  then show ?case using sha512_update_holds [OF Cons.prems, of p] by fastforce
qed simp

lemma store_count_128:
  assumes "unat (Nh :: u64) * 2 ^ 64 + unat (Nl :: u64) = k mod 2 ^ 128"
  shows "CRYPTO_store_u64_be Nh @ CRYPTO_store_u64_be Nl = be_bytes 16 k"
  using assms by (intro be_val_inject)
    (simp_all add: store_u64_be_eq be_val_append be_val_be_bytes unat_u64_less)

lemma length_sha512_words: "length H0 = 8 \<Longrightarrow> length (sha512_words H0 m) = 8"
  unfolding sha512_words_def
  by (rule md_fold_invariant [where P = "\<lambda>h. length h = 8"])
    (simp_all add: sha512_compress_def Let_def case_prod_unfold)

lemma sha512_final_h:
  assumes "sha512_holds h0 m c"
  shows "fst (sha512_final_impl False c) =
    Some (concat (map (\<lambda>i. CRYPTO_store_u64_be (sha512_words h0 m ! i)) [0..<sha512_md_len c div 8]))"
proof -
  define L where "L = be_bytes 16 (8 * length m)"
  have buf: "sha512.buffered h0 m (sha512_h c) (sha512_p c) (sha512_num c)"
    and bits: "unat (sha512_Nh c) * 2 ^ 64 + unat (sha512_Nl c) = 8 * length m mod 2 ^ 128"
    using assms by (simp_all add: sha512_holds_def)
  have tail: "mem_copy (mem_copy d (128 - 16) (CRYPTO_store_u64_be (sha512_Nh c))) (128 - 8) (CRYPTO_store_u64_be (sha512_Nl c)) =
      take (128 - 16) d @ L" if "length d = 128" for d
    using that by (simp add: mem_copy_def L_def flip: store_count_128 [OF bits])
  have n: "sha512_num c < 128" "length (sha512_p c) = 128" using sha512.buffered_n [OF buf] by simp_all
  have len: "length (mem_copy (mem_copy ((sha512_p c)[sha512_num c := 0x80]) (sha512_num c + 1) (replicate (128 - (sha512_num c + 1)) 0)) 0
      (replicate (128 - 16 - 0) 0)) = 128"
    "\<not> sha512_num c + 1 > 128 - 16 \<Longrightarrow>
      length (mem_copy ((sha512_p c)[sha512_num c := 0x80]) (sha512_num c + 1) (replicate (128 - 16 - (sha512_num c + 1)) 0)) = 128"
    using n by (auto simp: mem_copy_def)
  have "sha512.md_finish 16 L (sha512_h c) (sha512_p c) (sha512_num c) = sha512_words h0 m"
    using sha512.md_finish_eq [OF buf, of L 16 True] unfolding sha512_words_def sha512_block_one
    by (simp add: L_def)
  then show ?thesis
  proof (cases "sha512_num c + 1 > 128 - 16")
    case True
    assume w: "sha512.md_finish 16 L (sha512_h c) (sha512_p c) (sha512_num c) = sha512_words h0 m"
    show ?thesis
      unfolding sha512_final_impl_def w [symmetric] sha512.md_finish_def Let_def if_P [OF True] prod.case tail [OF len(1)]
      by simp
  next
    case False
    assume w: "sha512.md_finish 16 L (sha512_h c) (sha512_p c) (sha512_num c) = sha512_words h0 m"
    show ?thesis
      unfolding sha512_final_impl_def w [symmetric] sha512.md_finish_def Let_def if_not_P [OF False] prod.case
        tail [OF len(2) [OF False]]
      by simp
  qed
qed

definition sha512_digest :: "u64 list \<Rightarrow> nat \<Rightarrow> bytes \<Rightarrow> bytes" where
  "sha512_digest H0 n m = concat (map (\<lambda>w. be_bytes 8 (unat w)) (take n (sha512_words H0 m)))"

lemma length_sha512_digest: "length H0 = 8 \<Longrightarrow> n \<le> 8 \<Longrightarrow> length (sha512_digest H0 n m) = 8 * n"
  by (simp add: sha512_digest_def length_concat comp_def length_sha512_words sum_list_triv)

lemma sha512_holds_final:
  assumes "sha512_holds H0 m c" "sha512_md_len c = 8 * n" "length H0 = 8" "n \<le> 8"
  shows "fst (sha512_final_impl False c) = Some (sha512_digest H0 n m)"
proof -
  let ?h = "sha512_words H0 m"
  have "map ((!) ?h) [0..<n] = take n ?h"
    using length_sha512_words [OF assms(3)] assms(4) by (intro nth_equalityI) simp_all
  then have "map (\<lambda>i. be_bytes 8 (unat (?h ! i))) [0..<n] = map (\<lambda>w. be_bytes 8 (unat w)) (take n ?h)"
    by (metis (no_types, lifting) map_map comp_def map_cong)
  then show ?thesis using sha512_final_h [OF assms(1)] by (simp add: assms(2) sha512_digest_def store_u64_be_eq)
qed

lemma sha512_holds_init:
  assumes "length (sha512_p sha) = 128"
  shows "sha512_holds (sha512_h (SHA512_Init sha)) [] (SHA512_Init sha)"
    "sha512_holds (sha512_h (SHA384_Init sha)) [] (SHA384_Init sha)"
    "sha512_holds (sha512_h (SHA512_256_Init sha)) [] (SHA512_256_Init sha)"
  using assms by (simp_all add: sha512_holds_def sha512.buffered_init SHA512_Init_def SHA384_Init_def SHA512_256_Init_def)

lemma sha512_init_h:
  "length (sha512_h (SHA512_Init sha)) = 8" "length (sha512_h (SHA384_Init sha)) = 8"
  "length (sha512_h (SHA512_256_Init sha)) = 8"
  by (simp_all add: SHA512_Init_def SHA384_Init_def SHA512_256_Init_def)

lemma sha512_init_len:
  "sha512_md_len (SHA512_Init sha) = 8 * 8" "sha512_md_len (SHA384_Init sha) = 8 * 6"
  "sha512_md_len (SHA512_256_Init sha) = 8 * 4"
  by (simp_all add: SHA512_Init_def SHA384_Init_def SHA512_256_Init_def
      SHA512_DIGEST_LENGTH_def SHA384_DIGEST_LENGTH_def SHA512_256_DIGEST_LENGTH_def)

lemma sha512_stream:
  assumes "sha512_holds H0 [] c" "sha512_md_len c = 8 * n" "length H0 = 8" "n \<le> 8"
  shows "fst (sha512_final_impl False (foldl SHA512_Update c ps)) = Some (sha512_digest H0 n (concat ps))"
  using sha512_updates_hold [OF assms(1), of ps] assms(2-) by (intro sha512_holds_final) simp_all



end
