(* ===== verification/Digest.thy ===== *)
theory Digest
  imports Md4 Md5 Sha1 Sha256 Sha512
begin

text \<open>
  \<open>crypto/fipsmodule/digest/digests.c\<close> and \<open>digest.c\<close>: the digests behind one interface. An \<open>EVP_MD\<close> is a
  record of sizes and function pointers (\<open>env_md_st\<close>); an \<open>EVP_MD_CTX\<close> points to the digest in use and to
  memory of its context type, which \<open>md_data\<close> makes a tagged union. Digests are static objects, so
  pointers to them are equal when their types (NIDs) are. Memory comes from the allocator, which is taken
  to succeed, as zeros (the initialisers overwrite or ignore it). The public-key context \<open>pctx\<close> that some
  callers attach is not modelled.

  The locale \<open>digest_contract\<close> is what the callers of a digest rely on: after \<open>init\<close>, updates append to the
  message, \<open>final\<close> writes the hash of the message. The nine digests of \<open>digests.c\<close> are interpretations.
\<close>

datatype md_data =
    MD4_CTX md32_ctx
  | MD5_CTX md32_ctx
  | SHA_CTX md32_ctx
  | SHA256_CTX sha256_ctx
  | SHA512_CTX sha512_ctx
  | MD5_SHA1_CTX md32_ctx md32_ctx

record env_md =
  emd_type :: nat
  emd_md_size :: nat
  emd_init :: "md_data \<Rightarrow> md_data"
  emd_update :: "md_data \<Rightarrow> bytes \<Rightarrow> md_data"
  emd_final :: "md_data \<Rightarrow> bytes \<times> md_data"
  emd_block_size :: nat
  emd_blank :: md_data

text \<open>\<open>emd_blank\<close> stands for \<open>ctx_size\<close> zero bytes.\<close>

definition md32_blank :: "nat \<Rightarrow> md32_ctx" where
  "md32_blank n = \<lparr>md_h = replicate n 0, md_Nl = 0, md_Nh = 0, md_data = replicate 64 0, md_num = 0\<rparr>"

definition sha256_blank :: sha256_ctx where
  "sha256_blank = \<lparr>sha_md = md32_blank 8, sha_md_len = 0\<rparr>"

definition sha512_blank :: sha512_ctx where
  "sha512_blank =
     \<lparr>sha512_h = replicate 8 0, sha512_Nl = 0, sha512_Nh = 0, sha512_p = replicate 128 0,
      sha512_num = 0, sha512_md_len = 0\<rparr>"

section \<open>The method table (\<open>digests.c\<close>)\<close>

definition MD4_DIGEST_LENGTH :: nat where "MD4_DIGEST_LENGTH = 16"
definition MD5_DIGEST_LENGTH :: nat where "MD5_DIGEST_LENGTH = 16"
definition SHA_DIGEST_LENGTH :: nat where "SHA_DIGEST_LENGTH = 20"

definition md4_init :: "md_data \<Rightarrow> md_data" where
  "md4_init d = MD4_CTX MD4_Init"

fun md4_update :: "md_data \<Rightarrow> bytes \<Rightarrow> md_data" where
  "md4_update (MD4_CTX c) data = MD4_CTX (MD4_Update c data)"
| "md4_update d data = d"

fun md4_final :: "md_data \<Rightarrow> bytes \<times> md_data" where
  "md4_final (MD4_CTX c) = (case MD4_Final c of (out, c) \<Rightarrow> (out, MD4_CTX c))"
| "md4_final d = ([], d)"

definition EVP_md4 :: env_md where
  "EVP_md4 =
     \<lparr>emd_type = 257, emd_md_size = MD4_DIGEST_LENGTH, emd_init = md4_init, emd_update = md4_update,
      emd_final = md4_final, emd_block_size = 64, emd_blank = MD4_CTX (md32_blank 4)\<rparr>"

definition md5_init :: "md_data \<Rightarrow> md_data" where
  "md5_init d = MD5_CTX MD5_Init"

fun md5_update :: "md_data \<Rightarrow> bytes \<Rightarrow> md_data" where
  "md5_update (MD5_CTX c) data = MD5_CTX (MD5_Update c data)"
| "md5_update d data = d"

fun md5_final :: "md_data \<Rightarrow> bytes \<times> md_data" where
  "md5_final (MD5_CTX c) = (case MD5_Final c of (out, c) \<Rightarrow> (out, MD5_CTX c))"
| "md5_final d = ([], d)"

definition EVP_md5 :: env_md where
  "EVP_md5 =
     \<lparr>emd_type = 4, emd_md_size = MD5_DIGEST_LENGTH, emd_init = md5_init, emd_update = md5_update,
      emd_final = md5_final, emd_block_size = 64, emd_blank = MD5_CTX (md32_blank 4)\<rparr>"

definition sha1_init :: "md_data \<Rightarrow> md_data" where
  "sha1_init d = SHA_CTX SHA1_Init"

fun sha1_update :: "md_data \<Rightarrow> bytes \<Rightarrow> md_data" where
  "sha1_update (SHA_CTX c) data = SHA_CTX (SHA1_Update c data)"
| "sha1_update d data = d"

fun sha1_final :: "md_data \<Rightarrow> bytes \<times> md_data" where
  "sha1_final (SHA_CTX c) = (case SHA1_Final c of (out, c) \<Rightarrow> (out, SHA_CTX c))"
| "sha1_final d = ([], d)"

definition EVP_sha1 :: env_md where
  "EVP_sha1 =
     \<lparr>emd_type = 64, emd_md_size = SHA_DIGEST_LENGTH, emd_init = sha1_init, emd_update = sha1_update,
      emd_final = sha1_final, emd_block_size = 64, emd_blank = SHA_CTX (md32_blank 5)\<rparr>"

text \<open>\<open>CHECK\<close> asserts that a final function returns 1.\<close>

definition checked_out :: "bytes option \<Rightarrow> bytes" where
  "checked_out r = (case r of Some out \<Rightarrow> out | None \<Rightarrow> [])"

definition sha224_init :: "md_data \<Rightarrow> md_data" where
  "sha224_init d = SHA256_CTX SHA224_Init"

fun sha224_update :: "md_data \<Rightarrow> bytes \<Rightarrow> md_data" where
  "sha224_update (SHA256_CTX c) data = SHA256_CTX (SHA224_Update c data)"
| "sha224_update d data = d"

fun sha224_final :: "md_data \<Rightarrow> bytes \<times> md_data" where
  "sha224_final (SHA256_CTX c) = (case SHA224_Final c of (out, c) \<Rightarrow> (checked_out out, SHA256_CTX c))"
| "sha224_final d = ([], d)"

definition EVP_sha224 :: env_md where
  "EVP_sha224 =
     \<lparr>emd_type = 675, emd_md_size = SHA224_DIGEST_LENGTH, emd_init = sha224_init, emd_update = sha224_update,
      emd_final = sha224_final, emd_block_size = 64, emd_blank = SHA256_CTX sha256_blank\<rparr>"

definition sha256_init :: "md_data \<Rightarrow> md_data" where
  "sha256_init d = SHA256_CTX SHA256_Init"

fun sha256_update :: "md_data \<Rightarrow> bytes \<Rightarrow> md_data" where
  "sha256_update (SHA256_CTX c) data = SHA256_CTX (SHA256_Update c data)"
| "sha256_update d data = d"

fun sha256_final :: "md_data \<Rightarrow> bytes \<times> md_data" where
  "sha256_final (SHA256_CTX c) = (case SHA256_Final c of (out, c) \<Rightarrow> (checked_out out, SHA256_CTX c))"
| "sha256_final d = ([], d)"

definition EVP_sha256 :: env_md where
  "EVP_sha256 =
     \<lparr>emd_type = 672, emd_md_size = SHA256_DIGEST_LENGTH, emd_init = sha256_init, emd_update = sha256_update,
      emd_final = sha256_final, emd_block_size = 64, emd_blank = SHA256_CTX sha256_blank\<rparr>"

fun sha384_init :: "md_data \<Rightarrow> md_data" where
  "sha384_init (SHA512_CTX c) = SHA512_CTX (SHA384_Init c)"
| "sha384_init d = d"

fun sha384_update :: "md_data \<Rightarrow> bytes \<Rightarrow> md_data" where
  "sha384_update (SHA512_CTX c) data = SHA512_CTX (SHA384_Update c data)"
| "sha384_update d data = d"

fun sha384_final :: "md_data \<Rightarrow> bytes \<times> md_data" where
  "sha384_final (SHA512_CTX c) = (case SHA384_Final False c of (out, c) \<Rightarrow> (checked_out out, SHA512_CTX c))"
| "sha384_final d = ([], d)"

definition EVP_sha384 :: env_md where
  "EVP_sha384 =
     \<lparr>emd_type = 673, emd_md_size = SHA384_DIGEST_LENGTH, emd_init = sha384_init, emd_update = sha384_update,
      emd_final = sha384_final, emd_block_size = 128, emd_blank = SHA512_CTX sha512_blank\<rparr>"

fun sha512_init :: "md_data \<Rightarrow> md_data" where
  "sha512_init (SHA512_CTX c) = SHA512_CTX (SHA512_Init c)"
| "sha512_init d = d"

fun sha512_update :: "md_data \<Rightarrow> bytes \<Rightarrow> md_data" where
  "sha512_update (SHA512_CTX c) data = SHA512_CTX (SHA512_Update c data)"
| "sha512_update d data = d"

fun sha512_final :: "md_data \<Rightarrow> bytes \<times> md_data" where
  "sha512_final (SHA512_CTX c) = (case SHA512_Final False c of (out, c) \<Rightarrow> (checked_out out, SHA512_CTX c))"
| "sha512_final d = ([], d)"

definition EVP_sha512 :: env_md where
  "EVP_sha512 =
     \<lparr>emd_type = 674, emd_md_size = SHA512_DIGEST_LENGTH, emd_init = sha512_init, emd_update = sha512_update,
      emd_final = sha512_final, emd_block_size = 128, emd_blank = SHA512_CTX sha512_blank\<rparr>"

fun sha512_256_init :: "md_data \<Rightarrow> md_data" where
  "sha512_256_init (SHA512_CTX c) = SHA512_CTX (SHA512_256_Init c)"
| "sha512_256_init d = d"

fun sha512_256_update :: "md_data \<Rightarrow> bytes \<Rightarrow> md_data" where
  "sha512_256_update (SHA512_CTX c) data = SHA512_CTX (SHA512_256_Update c data)"
| "sha512_256_update d data = d"

fun sha512_256_final :: "md_data \<Rightarrow> bytes \<times> md_data" where
  "sha512_256_final (SHA512_CTX c) = (case SHA512_256_Final False c of (out, c) \<Rightarrow> (checked_out out, SHA512_CTX c))"
| "sha512_256_final d = ([], d)"

definition EVP_sha512_256 :: env_md where
  "EVP_sha512_256 =
     \<lparr>emd_type = 962, emd_md_size = SHA512_256_DIGEST_LENGTH, emd_init = sha512_256_init, emd_update = sha512_256_update,
      emd_final = sha512_256_final, emd_block_size = 128, emd_blank = SHA512_CTX sha512_blank\<rparr>"

definition md5_sha1_init :: "md_data \<Rightarrow> md_data" where
  "md5_sha1_init d = MD5_SHA1_CTX MD5_Init SHA1_Init"

fun md5_sha1_update :: "md_data \<Rightarrow> bytes \<Rightarrow> md_data" where
  "md5_sha1_update (MD5_SHA1_CTX c5 c1) data = MD5_SHA1_CTX (MD5_Update c5 data) (SHA1_Update c1 data)"
| "md5_sha1_update d data = d"

fun md5_sha1_final :: "md_data \<Rightarrow> bytes \<times> md_data" where
  "md5_sha1_final (MD5_SHA1_CTX c5 c1) =
     (case (MD5_Final c5, SHA1_Final c1) of ((out5, c5), (out1, c1)) \<Rightarrow> (out5 @ out1, MD5_SHA1_CTX c5 c1))"
| "md5_sha1_final d = ([], d)"

definition EVP_md5_sha1 :: env_md where
  "EVP_md5_sha1 =
     \<lparr>emd_type = 114, emd_md_size = MD5_DIGEST_LENGTH + SHA_DIGEST_LENGTH, emd_init = md5_sha1_init,
      emd_update = md5_sha1_update, emd_final = md5_sha1_final, emd_block_size = 64,
      emd_blank = MD5_SHA1_CTX (md32_blank 4) (md32_blank 5)\<rparr>"

section \<open>Contexts (\<open>digest.c\<close>)\<close>

record evp_md_ctx =
  ctx_digest :: "env_md option"
  ctx_data :: "md_data option"

definition EVP_MD_type :: "env_md \<Rightarrow> nat" where "EVP_MD_type md = emd_type md"
definition EVP_MD_size :: "env_md \<Rightarrow> nat" where "EVP_MD_size md = emd_md_size md"
definition EVP_MD_block_size :: "env_md \<Rightarrow> nat" where "EVP_MD_block_size md = emd_block_size md"

definition same_md :: "env_md option \<Rightarrow> env_md option \<Rightarrow> bool" where
  "same_md a b \<longleftrightarrow> map_option emd_type a = map_option emd_type b"

definition EVP_MD_CTX_init :: evp_md_ctx where
  "EVP_MD_CTX_init = \<lparr>ctx_digest = None, ctx_data = None\<rparr>"

definition EVP_MD_CTX_cleanup :: "evp_md_ctx \<Rightarrow> evp_md_ctx" where
  "EVP_MD_CTX_cleanup ctx = EVP_MD_CTX_init"

definition EVP_MD_CTX_copy_ex :: "evp_md_ctx \<Rightarrow> evp_md_ctx option \<Rightarrow> evp_md_ctx option" where
  "EVP_MD_CTX_copy_ex out inp =
     (case inp of
        None \<Rightarrow> None
      | Some c \<Rightarrow> if ctx_digest c = None then None
          else Some ((EVP_MD_CTX_cleanup out)\<lparr>ctx_digest := ctx_digest c, ctx_data := ctx_data c\<rparr>))"

definition EVP_MD_CTX_copy :: "evp_md_ctx option \<Rightarrow> evp_md_ctx option" where
  "EVP_MD_CTX_copy inp = EVP_MD_CTX_copy_ex EVP_MD_CTX_init inp"

definition EVP_MD_CTX_move :: "evp_md_ctx \<Rightarrow> evp_md_ctx \<Rightarrow> evp_md_ctx \<times> evp_md_ctx" where
  "EVP_MD_CTX_move out inp = (inp, EVP_MD_CTX_init)"

definition EVP_MD_CTX_reset :: "evp_md_ctx \<Rightarrow> evp_md_ctx" where
  "EVP_MD_CTX_reset ctx = EVP_MD_CTX_init"

definition EVP_DigestInit_ex :: "evp_md_ctx \<Rightarrow> env_md \<Rightarrow> evp_md_ctx" where
  "EVP_DigestInit_ex ctx type =
     (let ctx = (if same_md (ctx_digest ctx) (Some type) then ctx
                 else ctx\<lparr>ctx_data := Some (emd_blank type), ctx_digest := Some type\<rparr>)
      in ctx\<lparr>ctx_data := map_option (emd_init type) (ctx_data ctx)\<rparr>)"

definition EVP_DigestInit :: "env_md \<Rightarrow> evp_md_ctx" where
  "EVP_DigestInit type = EVP_DigestInit_ex EVP_MD_CTX_init type"

text \<open>\<open>None\<close> in the results of the next three is a crash, the call through a NULL digest.\<close>

definition EVP_DigestUpdate :: "evp_md_ctx \<Rightarrow> bytes \<Rightarrow> evp_md_ctx option" where
  "EVP_DigestUpdate ctx data =
     (case (ctx_digest ctx, ctx_data ctx) of
        (Some md, Some d) \<Rightarrow> Some (ctx\<lparr>ctx_data := Some (emd_update md d data)\<rparr>)
      | _ \<Rightarrow> None)"

definition EVP_DigestFinal_ex :: "evp_md_ctx \<Rightarrow> (bytes \<times> evp_md_ctx) option" where
  "EVP_DigestFinal_ex ctx =
     (case (ctx_digest ctx, ctx_data ctx) of
        (Some md, Some d) \<Rightarrow> Some (fst (emd_final md d), ctx\<lparr>ctx_data := Some (emd_blank md)\<rparr>)
      | _ \<Rightarrow> None)"

definition EVP_DigestFinal :: "evp_md_ctx \<Rightarrow> (bytes \<times> evp_md_ctx) option" where
  "EVP_DigestFinal ctx = map_option (\<lambda>(out, ctx). (out, EVP_MD_CTX_cleanup ctx)) (EVP_DigestFinal_ex ctx)"

definition EVP_Digest :: "bytes \<Rightarrow> env_md \<Rightarrow> bytes option" where
  "EVP_Digest data type =
     (case EVP_DigestUpdate (EVP_DigestInit_ex EVP_MD_CTX_init type) data of
        None \<Rightarrow> None
      | Some ctx \<Rightarrow> map_option fst (EVP_DigestFinal_ex ctx))"

section \<open>The contract\<close>

locale digest_contract =
  fixes md :: env_md and H :: "bytes \<Rightarrow> bytes"
    and holds :: "bytes \<Rightarrow> md_data \<Rightarrow> bool" and ok :: "md_data \<Rightarrow> bool"
  assumes init: "ok d \<Longrightarrow> holds [] (emd_init md d)"
    and update: "holds m d \<Longrightarrow> holds (m @ x) (emd_update md d x)"
    and final: "holds m d \<Longrightarrow> fst (emd_final md d) = H m"
    and blank: "ok (emd_blank md)"
    and shape: "holds m d \<Longrightarrow> ok d"
    and size: "length (H m) = emd_md_size md"
    and sizes: "0 < emd_md_size md" "emd_md_size md \<le> emd_block_size md" "emd_block_size md \<le> 128"
begin

definition ctx_holds :: "bytes \<Rightarrow> evp_md_ctx \<Rightarrow> bool" where
  "ctx_holds m c \<longleftrightarrow> ctx_digest c = Some md \<and> (\<exists>d. ctx_data c = Some d \<and> holds m d)"

text \<open>A context that \<open>EVP_DigestInit_ex\<close> can take over.\<close>

definition usable :: "evp_md_ctx \<Rightarrow> bool" where
  "usable c \<longleftrightarrow> (\<forall>t. ctx_digest c = Some t \<longrightarrow> emd_type t = emd_type md \<longrightarrow>
     t = md \<and> (\<exists>d. ctx_data c = Some d \<and> ok d))"

lemma usable_init: "usable EVP_MD_CTX_init"
  by (simp add: usable_def EVP_MD_CTX_init_def)

lemma usable_holds: "ctx_holds m c \<Longrightarrow> usable c"
  using shape by (auto simp: usable_def ctx_holds_def)

lemma digest_init: "usable c \<Longrightarrow> ctx_holds [] (EVP_DigestInit_ex c md)"
  using init blank by (auto simp: ctx_holds_def usable_def EVP_DigestInit_ex_def same_md_def Let_def)

lemma digest_update:
  assumes "ctx_holds m c"
  obtains c' where "EVP_DigestUpdate c x = Some c'" "ctx_holds (m @ x) c'"
  using assms update by (auto simp: ctx_holds_def EVP_DigestUpdate_def)

lemma digest_final:
  assumes "ctx_holds m c"
  obtains c' where "EVP_DigestFinal_ex c = Some (H m, c')" "usable c'"
  using assms final blank by (auto simp: ctx_holds_def EVP_DigestFinal_ex_def usable_def)

lemma digest_copy: "ctx_holds m c \<Longrightarrow> EVP_MD_CTX_copy_ex out (Some c) = Some c"
  by (simp add: ctx_holds_def EVP_MD_CTX_copy_ex_def EVP_MD_CTX_cleanup_def EVP_MD_CTX_init_def)

lemma digest_one_shot: "EVP_Digest data md = Some (H data)"
proof -
  obtain c where c: "EVP_DigestUpdate (EVP_DigestInit_ex EVP_MD_CTX_init md) data = Some c" "ctx_holds ([] @ data) c"
    using digest_update [OF digest_init [OF usable_init]] .
  obtain c' where "EVP_DigestFinal_ex c = Some (H ([] @ data), c')" using digest_final [OF c(2)] .
  with c(1) show ?thesis by (simp add: EVP_Digest_def)
qed

end

section \<open>The digests meet it\<close>

interpretation md4_md: digest_contract EVP_md4 md4_digest
  "\<lambda>m d. \<exists>c. d = MD4_CTX c \<and> md4_holds m c" "\<lambda>d. True"
  by unfold_locales
    (auto simp: EVP_md4_def md4_init_def md4_holds_init md4_holds_update md4_holds_final length_md4_digest
      MD4_DIGEST_LENGTH_def case_prod_unfold)

interpretation md5_md: digest_contract EVP_md5 md5_digest
  "\<lambda>m d. \<exists>c. d = MD5_CTX c \<and> md5_holds m c" "\<lambda>d. True"
  by unfold_locales
    (auto simp: EVP_md5_def md5_init_def md5_holds_init md5_holds_update md5_holds_final length_md5_digest
      MD5_DIGEST_LENGTH_def case_prod_unfold)

interpretation sha1_md: digest_contract EVP_sha1 sha1_digest
  "\<lambda>m d. \<exists>c. d = SHA_CTX c \<and> sha1_holds m c" "\<lambda>d. True"
  by unfold_locales
    (auto simp: EVP_sha1_def sha1_init_def sha1_holds_init sha1_holds_update sha1_holds_final length_sha1_digest
      SHA_DIGEST_LENGTH_def case_prod_unfold)

definition sha224_hash :: "bytes \<Rightarrow> bytes" where
  "sha224_hash = sha256_digest (md_h (sha_md SHA224_Init)) 7"

lemma length_sha224_H0: "length (md_h (sha_md SHA224_Init)) = 8"
  by (simp add: SHA224_Init_def)

interpretation sha224_md: digest_contract EVP_sha224 sha224_hash
  "\<lambda>m d. \<exists>c. d = SHA256_CTX c \<and> sha256_holds (md_h (sha_md SHA224_Init)) 7 m c" "\<lambda>d. True"
  by unfold_locales
    (auto simp: EVP_sha224_def sha224_init_def sha224_holds_init sha256_holds_update SHA224_Update_def SHA224_Final_def
      sha256_holds_final length_sha224_H0 length_sha256_digest sha224_hash_def checked_out_def
      SHA224_DIGEST_LENGTH_def case_prod_unfold)

definition sha256_hash :: "bytes \<Rightarrow> bytes" where
  "sha256_hash = sha256_digest (md_h (sha_md SHA256_Init)) 8"

lemma length_sha256_H0: "length (md_h (sha_md SHA256_Init)) = 8"
  by (simp add: SHA256_Init_def)

interpretation sha256_md: digest_contract EVP_sha256 sha256_hash
  "\<lambda>m d. \<exists>c. d = SHA256_CTX c \<and> sha256_holds (md_h (sha_md SHA256_Init)) 8 m c" "\<lambda>d. True"
  by unfold_locales
    (auto simp: EVP_sha256_def sha256_init_def sha256_holds_init sha256_holds_update SHA256_Final_def
      sha256_holds_final length_sha256_H0 length_sha256_digest sha256_hash_def checked_out_def
      SHA256_DIGEST_LENGTH_def case_prod_unfold)

definition sha512_H0 :: "u64 list" where
  "sha512_H0 = sha512_h (SHA512_Init sha512_blank)"

lemma sha512_H0: "sha512_h (SHA512_Init c) = sha512_H0"
  by (simp add: sha512_H0_def SHA512_Init_def)

lemma length_sha512_H0: "length sha512_H0 = 8"
  unfolding sha512_H0_def by (rule sha512_init_h)

definition sha512_hash :: "bytes \<Rightarrow> bytes" where
  "sha512_hash = sha512_digest sha512_H0 8"

interpretation sha512_md: digest_contract EVP_sha512 sha512_hash
  "\<lambda>m d. \<exists>c. d = SHA512_CTX c \<and> sha512_holds sha512_H0 m c \<and> sha512_md_len c = 8 * 8"
  "\<lambda>d. \<exists>c. d = SHA512_CTX c \<and> length (sha512_p c) = 128"
  using sha512_holds_init(1) [unfolded sha512_H0] sha512_update_holds [of sha512_H0] sha512_init_len(1)
  by unfold_locales
    (auto simp: EVP_sha512_def SHA512_Final_def sha512_holds_final length_sha512_H0
      length_sha512_digest sha512_hash_def checked_out_def sha512_blank_def SHA512_DIGEST_LENGTH_def
      case_prod_unfold sha512_holds_def dest: sha512.buffered_n)

definition sha384_H0 :: "u64 list" where
  "sha384_H0 = sha512_h (SHA384_Init sha512_blank)"

lemma sha384_H0: "sha512_h (SHA384_Init c) = sha384_H0"
  by (simp add: sha384_H0_def SHA384_Init_def)

lemma length_sha384_H0: "length sha384_H0 = 8"
  unfolding sha384_H0_def by (rule sha512_init_h)

definition sha384_hash :: "bytes \<Rightarrow> bytes" where
  "sha384_hash = sha512_digest sha384_H0 6"

interpretation sha384_md: digest_contract EVP_sha384 sha384_hash
  "\<lambda>m d. \<exists>c. d = SHA512_CTX c \<and> sha512_holds sha384_H0 m c \<and> sha512_md_len c = 8 * 6"
  "\<lambda>d. \<exists>c. d = SHA512_CTX c \<and> length (sha512_p c) = 128"
  using sha512_holds_init(2) [unfolded sha384_H0] sha512_update_holds [of sha384_H0] sha512_init_len(2)
  by unfold_locales
    (auto simp: EVP_sha384_def SHA384_Update_def SHA384_Final_def sha512_holds_final length_sha384_H0
      length_sha512_digest sha384_hash_def checked_out_def sha512_blank_def SHA384_DIGEST_LENGTH_def
      case_prod_unfold sha512_holds_def dest: sha512.buffered_n)

definition sha512_256_H0 :: "u64 list" where
  "sha512_256_H0 = sha512_h (SHA512_256_Init sha512_blank)"

lemma sha512_256_H0: "sha512_h (SHA512_256_Init c) = sha512_256_H0"
  by (simp add: sha512_256_H0_def SHA512_256_Init_def)

lemma length_sha512_256_H0: "length sha512_256_H0 = 8"
  unfolding sha512_256_H0_def by (rule sha512_init_h)

definition sha512_256_hash :: "bytes \<Rightarrow> bytes" where
  "sha512_256_hash = sha512_digest sha512_256_H0 4"

interpretation sha512_256_md: digest_contract EVP_sha512_256 sha512_256_hash
  "\<lambda>m d. \<exists>c. d = SHA512_CTX c \<and> sha512_holds sha512_256_H0 m c \<and> sha512_md_len c = 8 * 4"
  "\<lambda>d. \<exists>c. d = SHA512_CTX c \<and> length (sha512_p c) = 128"
  using sha512_holds_init(3) [unfolded sha512_256_H0] sha512_update_holds [of sha512_256_H0] sha512_init_len(3)
  by unfold_locales
    (auto simp: EVP_sha512_256_def SHA512_256_Update_def SHA512_256_Final_def sha512_holds_final length_sha512_256_H0
      length_sha512_digest sha512_256_hash_def checked_out_def sha512_blank_def SHA512_256_DIGEST_LENGTH_def
      case_prod_unfold sha512_holds_def dest: sha512.buffered_n)

interpretation md5_sha1_md: digest_contract EVP_md5_sha1 "\<lambda>m. md5_digest m @ sha1_digest m"
  "\<lambda>m d. \<exists>c5 c1. d = MD5_SHA1_CTX c5 c1 \<and> md5_holds m c5 \<and> sha1_holds m c1" "\<lambda>d. True"
  by unfold_locales
    (auto simp: EVP_md5_sha1_def md5_sha1_init_def md5_holds_init md5_holds_update md5_holds_final
      sha1_holds_init sha1_holds_update sha1_holds_final length_md5_digest length_sha1_digest
      MD5_DIGEST_LENGTH_def SHA_DIGEST_LENGTH_def case_prod_unfold)

text \<open>The digests and their hashes.\<close>

definition evp_digests :: "(env_md \<times> (bytes \<Rightarrow> bytes)) list" where
  "evp_digests =
     [(EVP_md4, md4_digest), (EVP_md5, md5_digest), (EVP_sha1, sha1_digest), (EVP_sha224, sha224_hash),
      (EVP_sha256, sha256_hash), (EVP_sha384, sha384_hash), (EVP_sha512, sha512_hash),
      (EVP_sha512_256, sha512_256_hash), (EVP_md5_sha1, \<lambda>m. md5_digest m @ sha1_digest m)]"

lemma evp_digest_contract:
  assumes "(md, H) \<in> set evp_digests"
  shows "\<exists>holds ok. digest_contract md H holds ok"
proof -
  from assms consider
    (md4) "(md, H) = (EVP_md4, md4_digest)" |
    (md5) "(md, H) = (EVP_md5, md5_digest)" |
    (sha1) "(md, H) = (EVP_sha1, sha1_digest)" |
    (sha224) "(md, H) = (EVP_sha224, sha224_hash)" |
    (sha256) "(md, H) = (EVP_sha256, sha256_hash)" |
    (sha384) "(md, H) = (EVP_sha384, sha384_hash)" |
    (sha512) "(md, H) = (EVP_sha512, sha512_hash)" |
    (sha512_256) "(md, H) = (EVP_sha512_256, sha512_256_hash)" |
    (md5_sha1) "(md, H) = (EVP_md5_sha1, \<lambda>m. md5_digest m @ sha1_digest m)"
    unfolding evp_digests_def list.set insert_iff empty_iff by (elim disjE FalseE)
  then show ?thesis
  proof cases
    case md4
    then show ?thesis using md4_md.digest_contract_axioms unfolding prod.inject by (elim conjE) (hypsubst, intro exI)
  next
    case md5
    then show ?thesis using md5_md.digest_contract_axioms unfolding prod.inject by (elim conjE) (hypsubst, intro exI)
  next
    case sha1
    then show ?thesis using sha1_md.digest_contract_axioms unfolding prod.inject by (elim conjE) (hypsubst, intro exI)
  next
    case sha224
    then show ?thesis using sha224_md.digest_contract_axioms unfolding prod.inject by (elim conjE) (hypsubst, intro exI)
  next
    case sha256
    then show ?thesis using sha256_md.digest_contract_axioms unfolding prod.inject by (elim conjE) (hypsubst, intro exI)
  next
    case sha384
    then show ?thesis using sha384_md.digest_contract_axioms unfolding prod.inject by (elim conjE) (hypsubst, intro exI)
  next
    case sha512
    then show ?thesis using sha512_md.digest_contract_axioms unfolding prod.inject by (elim conjE) (hypsubst, intro exI)
  next
    case sha512_256
    then show ?thesis using sha512_256_md.digest_contract_axioms unfolding prod.inject by (elim conjE) (hypsubst, intro exI)
  next
    case md5_sha1
    then show ?thesis using md5_sha1_md.digest_contract_axioms unfolding prod.inject by (elim conjE) (hypsubst, intro exI)
  qed
qed

end
