(* ===== verification/Hmac.thy ===== *)
theory Hmac
  imports Digest
begin

text \<open>
  \<open>crypto/fipsmodule/hmac/hmac.c\<close>: HMAC over any digest, as a client of the digest contract. A context
  keeps the digest after the inner pad, the digest after the outer pad and the running digest, so that the
  same key can be used again (\<open>HMAC_Init_ex\<close> with no key and no digest rewinds). \<open>hmac\<close> is RFC 2104.
\<close>

record hmac_ctx =
  hmac_md :: "env_md option"
  md_ctx :: evp_md_ctx
  i_ctx :: evp_md_ctx
  o_ctx :: evp_md_ctx

definition EVP_MAX_MD_BLOCK_SIZE :: nat where "EVP_MAX_MD_BLOCK_SIZE = 128"

definition HMAC_CTX_init :: hmac_ctx where
  "HMAC_CTX_init =
     \<lparr>hmac_md = None, md_ctx = EVP_MD_CTX_init, i_ctx = EVP_MD_CTX_init, o_ctx = EVP_MD_CTX_init\<rparr>"

text \<open>The pad of one byte with a key block, and its absorption by a fresh digest.\<close>

definition hmac_pad :: "byte \<Rightarrow> bytes \<Rightarrow> bytes" where
  "hmac_pad b key_block = map (\<lambda>k. b XOR k) key_block"

text \<open>The key block: a long key is hashed, the rest of the block is zero. \<open>md_ctx\<close> is scratch here.\<close>

definition hmac_key_block :: "evp_md_ctx \<Rightarrow> env_md \<Rightarrow> bytes \<Rightarrow> (bytes \<times> evp_md_ctx) option" where
  "hmac_key_block ctx md key =
     (let zeros = (\<lambda>k. k @ replicate (EVP_MAX_MD_BLOCK_SIZE - length k) 0)
      in if EVP_MD_block_size md < length key then
           (case EVP_DigestUpdate (EVP_DigestInit_ex ctx md) key of
              None \<Rightarrow> None
            | Some ctx \<Rightarrow>
                (case EVP_DigestFinal_ex ctx of
                   None \<Rightarrow> None
                 | Some (k, ctx) \<Rightarrow> Some (zeros k, ctx)))
         else Some (zeros key, ctx))"

definition HMAC_Init_ex :: "hmac_ctx \<Rightarrow> bytes option \<Rightarrow> env_md option \<Rightarrow> hmac_ctx option" where
  "HMAC_Init_ex ctx key md =
     (let md = (if md = None then hmac_md ctx else md);
          rewind = (\<lambda>ctx. map_option (\<lambda>c. ctx\<lparr>md_ctx := c\<rparr>) (EVP_MD_CTX_copy_ex (md_ctx ctx) (Some (i_ctx ctx))))
      in if \<not> same_md md (hmac_md ctx) \<or> key \<noteq> None then
           (case md of
              None \<Rightarrow> None
            | Some m \<Rightarrow>
                (case hmac_key_block (md_ctx ctx) m (case key of None \<Rightarrow> [] | Some k \<Rightarrow> k) of
                   None \<Rightarrow> None
                 | Some (key_block, c) \<Rightarrow>
                     (case EVP_DigestUpdate (EVP_DigestInit_ex (i_ctx ctx) m)
                             (take (EVP_MD_block_size m) (hmac_pad 0x36 key_block)) of
                        None \<Rightarrow> None
                      | Some ic \<Rightarrow>
                          (case EVP_DigestUpdate (EVP_DigestInit_ex (o_ctx ctx) m)
                                  (take (EVP_MD_block_size m) (hmac_pad 0x5c key_block)) of
                             None \<Rightarrow> None
                           | Some oc \<Rightarrow> rewind \<lparr>hmac_md = Some m, md_ctx = c, i_ctx = ic, o_ctx = oc\<rparr>))))
         else rewind ctx)"

definition HMAC_Update :: "hmac_ctx \<Rightarrow> bytes \<Rightarrow> hmac_ctx option" where
  "HMAC_Update ctx data = map_option (\<lambda>c. ctx\<lparr>md_ctx := c\<rparr>) (EVP_DigestUpdate (md_ctx ctx) data)"

definition HMAC_Final :: "hmac_ctx \<Rightarrow> (bytes \<times> hmac_ctx) option" where
  "HMAC_Final ctx =
     (case EVP_DigestFinal_ex (md_ctx ctx) of
        None \<Rightarrow> None
      | Some (buf, c) \<Rightarrow>
          (case EVP_MD_CTX_copy_ex c (Some (o_ctx ctx)) of
             None \<Rightarrow> None
           | Some c \<Rightarrow>
               (case EVP_DigestUpdate c buf of
                  None \<Rightarrow> None
                | Some c \<Rightarrow> map_option (\<lambda>(out, c). (out, ctx\<lparr>md_ctx := c\<rparr>)) (EVP_DigestFinal_ex c))))"

definition HMAC :: "env_md \<Rightarrow> bytes option \<Rightarrow> bytes \<Rightarrow> bytes option" where
  "HMAC md key data =
     (case HMAC_Init_ex HMAC_CTX_init key (Some md) of
        None \<Rightarrow> None
      | Some ctx \<Rightarrow>
          (case HMAC_Update ctx data of
             None \<Rightarrow> None
           | Some ctx \<Rightarrow> map_option fst (HMAC_Final ctx)))"

definition HMAC_size :: "hmac_ctx \<Rightarrow> nat option" where
  "HMAC_size ctx = map_option EVP_MD_size (hmac_md ctx)"

definition HMAC_CTX_cleanup :: "hmac_ctx \<Rightarrow> hmac_ctx" where
  "HMAC_CTX_cleanup ctx = HMAC_CTX_init"

definition HMAC_CTX_reset :: "hmac_ctx \<Rightarrow> hmac_ctx" where
  "HMAC_CTX_reset ctx = HMAC_CTX_init"

definition HMAC_CTX_copy_ex :: "hmac_ctx \<Rightarrow> hmac_ctx \<Rightarrow> hmac_ctx option" where
  "HMAC_CTX_copy_ex dest src =
     (case EVP_MD_CTX_copy_ex (i_ctx dest) (Some (i_ctx src)) of
        None \<Rightarrow> None
      | Some ic \<Rightarrow>
          (case EVP_MD_CTX_copy_ex (o_ctx dest) (Some (o_ctx src)) of
             None \<Rightarrow> None
           | Some oc \<Rightarrow>
               (case EVP_MD_CTX_copy_ex (md_ctx dest) (Some (md_ctx src)) of
                  None \<Rightarrow> None
                | Some c \<Rightarrow> Some \<lparr>hmac_md = hmac_md src, md_ctx = c, i_ctx = ic, o_ctx = oc\<rparr>)))"

definition HMAC_Init :: "hmac_ctx \<Rightarrow> bytes option \<Rightarrow> env_md option \<Rightarrow> hmac_ctx option" where
  "HMAC_Init ctx key md =
     (let ctx = (if key \<noteq> None \<and> md \<noteq> None then HMAC_CTX_init else ctx)
      in HMAC_Init_ex ctx key md)"

definition HMAC_CTX_copy :: "hmac_ctx \<Rightarrow> hmac_ctx option" where
  "HMAC_CTX_copy src = HMAC_CTX_copy_ex HMAC_CTX_init src"

section \<open>RFC 2104\<close>

definition hmac_k0 :: "nat \<Rightarrow> (bytes \<Rightarrow> bytes) \<Rightarrow> bytes \<Rightarrow> bytes" where
  "hmac_k0 B H key =
     (let k = (if length key > B then H key else key) in k @ replicate (B - length k) 0)"

definition hmac :: "nat \<Rightarrow> (bytes \<Rightarrow> bytes) \<Rightarrow> bytes \<Rightarrow> bytes \<Rightarrow> bytes" where
  "hmac B H key m =
     H (map ((XOR) 0x5c) (hmac_k0 B H key) @ H (map ((XOR) 0x36) (hmac_k0 B H key) @ m))"

context digest_contract
begin

text \<open>A context ready for messages under a key: after a message \<open>m\<close>, and after a final.\<close>

definition hmac_keyed :: "bytes \<Rightarrow> hmac_ctx \<Rightarrow> bool" where
  "hmac_keyed key c \<longleftrightarrow>
     hmac_md c = Some md \<and> usable (md_ctx c) \<and>
     ctx_holds (map ((XOR) 0x36) (hmac_k0 (emd_block_size md) H key)) (i_ctx c) \<and>
     ctx_holds (map ((XOR) 0x5c) (hmac_k0 (emd_block_size md) H key)) (o_ctx c)"

definition hmac_holds :: "bytes \<Rightarrow> bytes \<Rightarrow> hmac_ctx \<Rightarrow> bool" where
  "hmac_holds key m c \<longleftrightarrow>
     hmac_keyed key c \<and> ctx_holds (map ((XOR) 0x36) (hmac_k0 (emd_block_size md) H key) @ m) (md_ctx c)"

text \<open>A context that \<open>HMAC_Init_ex\<close> can key: its three digests can be taken over.\<close>

definition hmac_usable :: "hmac_ctx \<Rightarrow> bool" where
  "hmac_usable c \<longleftrightarrow> usable (md_ctx c) \<and> usable (i_ctx c) \<and> usable (o_ctx c)"

lemma hmac_usable_init: "hmac_usable HMAC_CTX_init"
  by (simp add: hmac_usable_def HMAC_CTX_init_def usable_init)

lemma key_block:
  assumes "usable c"
  obtains kb c' where "hmac_key_block c md key = Some (kb, c')" "usable c'"
    "take (emd_block_size md) (hmac_pad b kb) = map ((XOR) b) (hmac_k0 (emd_block_size md) H key)"
    "take (emd_block_size md) (hmac_pad b' kb) = map ((XOR) b') (hmac_k0 (emd_block_size md) H key)"
proof (cases "emd_block_size md < length key")
  case True
  obtain c1 where c1: "EVP_DigestUpdate (EVP_DigestInit_ex c md) key = Some c1" "ctx_holds key c1"
    using digest_update [OF digest_init [OF assms], of key] by auto
  obtain c2 where c2: "EVP_DigestFinal_ex c1 = Some (H key, c2)" "usable c2"
    using digest_final [OF c1(2)] .
  have "take (emd_block_size md) (hmac_pad x (H key @ replicate (128 - length (H key)) 0)) =
      map ((XOR) x) (hmac_k0 (emd_block_size md) H key)" for x
    using True sizes size [of key] by (simp add: hmac_pad_def hmac_k0_def take_map min_def)
  then show ?thesis
    using that c1 c2 True by (auto simp: hmac_key_block_def EVP_MD_block_size_def EVP_MAX_MD_BLOCK_SIZE_def)
next
  case False
  have "take (emd_block_size md) (hmac_pad x (key @ replicate (128 - length key) 0)) =
      map ((XOR) x) (hmac_k0 (emd_block_size md) H key)" for x
    using False sizes by (simp add: hmac_pad_def hmac_k0_def take_map min_def)
  then show ?thesis
    using that False assms by (auto simp: hmac_key_block_def EVP_MD_block_size_def EVP_MAX_MD_BLOCK_SIZE_def)
qed

lemma hmac_init:
  assumes "hmac_usable c" and "key \<noteq> None \<or> hmac_md c = None"
  obtains c' where "HMAC_Init_ex c key (Some md) = Some c'"
    "hmac_holds (case key of None \<Rightarrow> [] | Some k \<Rightarrow> k) [] c'"
proof -
  let ?k = "case key of None \<Rightarrow> [] | Some k \<Rightarrow> k"
  have u: "usable (md_ctx c)" "usable (i_ctx c)" "usable (o_ctx c)"
    using assms(1) by (simp_all add: hmac_usable_def)
  obtain kb c1 where kb: "hmac_key_block (md_ctx c) md ?k = Some (kb, c1)" "usable c1"
    "take (emd_block_size md) (hmac_pad 0x36 kb) = map ((XOR) 0x36) (hmac_k0 (emd_block_size md) H ?k)"
    "take (emd_block_size md) (hmac_pad 0x5c kb) = map ((XOR) 0x5c) (hmac_k0 (emd_block_size md) H ?k)"
    using key_block [OF u(1)] .
  obtain ic where ic: "EVP_DigestUpdate (EVP_DigestInit_ex (i_ctx c) md) (take (emd_block_size md) (hmac_pad 0x36 kb)) = Some ic"
    "ctx_holds (map ((XOR) 0x36) (hmac_k0 (emd_block_size md) H ?k)) ic"
    using digest_update [OF digest_init [OF u(2)]] unfolding kb(3) by (metis append_Nil)
  obtain oc where oc: "EVP_DigestUpdate (EVP_DigestInit_ex (o_ctx c) md) (take (emd_block_size md) (hmac_pad 0x5c kb)) = Some oc"
    "ctx_holds (map ((XOR) 0x5c) (hmac_k0 (emd_block_size md) H ?k)) oc"
    using digest_update [OF digest_init [OF u(3)]] unfolding kb(4) by (metis append_Nil)
  have "\<not> same_md (Some md) (hmac_md c) \<or> key \<noteq> None" using assms(2) by (auto simp: same_md_def)
  then have "HMAC_Init_ex c key (Some md) = Some \<lparr>hmac_md = Some md, md_ctx = ic, i_ctx = ic, o_ctx = oc\<rparr>"
    using kb(1) ic(1) oc(1) digest_copy [OF ic(2)] by (simp add: HMAC_Init_ex_def EVP_MD_block_size_def)
  moreover have "hmac_holds ?k [] \<lparr>hmac_md = Some md, md_ctx = ic, i_ctx = ic, o_ctx = oc\<rparr>"
    using ic(2) oc(2) by (simp add: hmac_holds_def hmac_keyed_def usable_holds)
  ultimately show ?thesis using that by blast
qed

lemma hmac_rewind:
  assumes "hmac_keyed key c"
  obtains c' where "HMAC_Init_ex c None None = Some c'" "hmac_holds key [] c'"
proof -
  have i: "ctx_holds (map ((XOR) 0x36) (hmac_k0 (emd_block_size md) H key)) (i_ctx c)"
    using assms by (simp add: hmac_keyed_def)
  have "HMAC_Init_ex c None None = Some (c\<lparr>md_ctx := i_ctx c\<rparr>)"
    using digest_copy [OF i] by (simp add: HMAC_Init_ex_def same_md_def)
  moreover have "hmac_holds key [] (c\<lparr>md_ctx := i_ctx c\<rparr>)"
    using assms i by (simp add: hmac_holds_def hmac_keyed_def usable_holds)
  ultimately show ?thesis using that by blast
qed

lemma hmac_update:
  assumes "hmac_holds key m c"
  obtains c' where "HMAC_Update c x = Some c'" "hmac_holds key (m @ x) c'"
proof -
  have h: "ctx_holds (map ((XOR) 0x36) (hmac_k0 (emd_block_size md) H key) @ m) (md_ctx c)"
    using assms by (simp add: hmac_holds_def)
  obtain d where d: "EVP_DigestUpdate (md_ctx c) x = Some d"
    "ctx_holds ((map ((XOR) 0x36) (hmac_k0 (emd_block_size md) H key) @ m) @ x) d"
    using digest_update [OF h] .
  then have "HMAC_Update c x = Some (c\<lparr>md_ctx := d\<rparr>)" by (simp add: HMAC_Update_def)
  moreover have "hmac_holds key (m @ x) (c\<lparr>md_ctx := d\<rparr>)"
    using assms d(2) usable_holds [OF d(2)] by (simp add: hmac_holds_def hmac_keyed_def)
  ultimately show ?thesis using that by blast
qed

lemma hmac_final:
  assumes "hmac_holds key m c"
  obtains c' where "HMAC_Final c = Some (hmac (emd_block_size md) H key m, c')" "hmac_keyed key c'"
proof -
  let ?i = "map ((XOR) 0x36) (hmac_k0 (emd_block_size md) H key)"
  let ?o = "map ((XOR) 0x5c) (hmac_k0 (emd_block_size md) H key)"
  have h: "ctx_holds (?i @ m) (md_ctx c)" and o: "ctx_holds ?o (o_ctx c)"
    using assms by (simp_all add: hmac_holds_def hmac_keyed_def)
  obtain c1 where c1: "EVP_DigestFinal_ex (md_ctx c) = Some (H (?i @ m), c1)" using digest_final [OF h] .
  obtain c2 where c2: "EVP_DigestUpdate (o_ctx c) (H (?i @ m)) = Some c2" "ctx_holds (?o @ H (?i @ m)) c2"
    using digest_update [OF o] .
  obtain c3 where c3: "EVP_DigestFinal_ex c2 = Some (H (?o @ H (?i @ m)), c3)" "usable c3"
    using digest_final [OF c2(2)] .
  have "HMAC_Final c = Some (hmac (emd_block_size md) H key m, c\<lparr>md_ctx := c3\<rparr>)"
    using c1 c2(1) c3(1) digest_copy [OF o] by (simp add: HMAC_Final_def hmac_def)
  moreover have "hmac_keyed key (c\<lparr>md_ctx := c3\<rparr>)"
    using assms c3(2) by (simp add: hmac_holds_def hmac_keyed_def)
  ultimately show ?thesis using that by blast
qed

lemma hmac_one_shot:
  "HMAC md key data = Some (hmac (emd_block_size md) H (case key of None \<Rightarrow> [] | Some k \<Rightarrow> k) data)"
proof -
  let ?k = "case key of None \<Rightarrow> [] | Some k \<Rightarrow> k"
  have "hmac_md HMAC_CTX_init = None" by (simp add: HMAC_CTX_init_def)
  then obtain c where c: "HMAC_Init_ex HMAC_CTX_init key (Some md) = Some c" "hmac_holds ?k [] c"
    using hmac_init [OF hmac_usable_init, of key] by blast
  obtain c1 where c1: "HMAC_Update c data = Some c1" "hmac_holds ?k ([] @ data) c1"
    using hmac_update [OF c(2)] .
  obtain c2 where "HMAC_Final c1 = Some (hmac (emd_block_size md) H ?k ([] @ data), c2)"
    using hmac_final [OF c1(2)] .
  with c(1) c1(1) show ?thesis by (simp add: HMAC_def)
qed

lemma length_hmac: "length (hmac B H key m) = emd_md_size md"
  by (simp add: hmac_def size)

end

text \<open>C25: HMAC is RFC 2104 for each of the nine digests and any key, a missing one counting as empty: keys
  longer than a block are hashed, the padded key is combined with the inner and the outer pad.\<close>

theorem HMAC_is_RFC2104:
  assumes "(md, H) \<in> set evp_digests"
  shows "HMAC md key data =
    Some (hmac (emd_block_size md) H (case key of None \<Rightarrow> [] | Some k \<Rightarrow> k) data)"
  using evp_digest_contract [OF assms] digest_contract.hmac_one_shot by blast

theorem HMAC_is_RFC2104_witness:
  "HMAC EVP_sha256 (Some [11, 11]) [72, 105] = Some (hmac 64 sha256_hash [11, 11] [72, 105])"
  using HMAC_is_RFC2104 [of EVP_sha256 sha256_hash "Some [11, 11]" "[72, 105]"]
  by (simp add: evp_digests_def) (simp add: EVP_sha256_def)

end
