(* ===== verification/Tls_Prf.thy ===== *)
theory Tls_Prf
  imports Hmac "HOL-Library.Monad_Syntax"
begin

text \<open>
  \<open>crypto/fipsmodule/tls/kdf.c\<close>: the pseudo-random function of TLS over HMAC. \<open>tls1_P_hash\<close> keeps three
  HMAC contexts: one keyed and never used up, one for the current block, and a copy taken halfway through
  the block for the next \<open>A(i)\<close>. A failing call is None. The loop has one round per unit of fuel;
  \<open>tls1_P_hash\<close> gives it one more than there are bytes to write, each round but the last writing a whole
  digest. \<open>p_hash\<close> is RFC 5246, section 5, and for MD5 with SHA-1 the function of RFC 4346.
\<close>

text \<open>The rest of the output and the blocks written to it.\<close>

fun p_hash_loop ::
  "nat \<Rightarrow> nat \<Rightarrow> hmac_ctx \<Rightarrow> bytes \<Rightarrow> bytes \<Rightarrow> bytes \<Rightarrow> hmac_ctx \<Rightarrow> hmac_ctx \<Rightarrow> bytes \<Rightarrow> bytes \<Rightarrow> bytes option" where
  "p_hash_loop 0 chunk ctx_init label seed1 seed2 ctx ctx_tmp A1 out = None"
| "p_hash_loop (Suc n) chunk ctx_init label seed1 seed2 ctx ctx_tmp A1 out =
     do {
       ctx \<leftarrow> HMAC_CTX_copy_ex ctx ctx_init;
       ctx \<leftarrow> HMAC_Update ctx A1;
       ctx_tmp \<leftarrow> (if length out > chunk then HMAC_CTX_copy_ex ctx_tmp ctx else Some ctx_tmp);
       ctx \<leftarrow> HMAC_Update ctx label;
       ctx \<leftarrow> HMAC_Update ctx seed1;
       ctx \<leftarrow> HMAC_Update ctx seed2;
       (hmac_out, ctx) \<leftarrow> HMAC_Final ctx;
       let len = (if length hmac_out > length out then length out else length hmac_out);
       let written = map2 (XOR) (take len out) (take len hmac_out);
       let out = drop len out;
       if length out = 0 then Some written
       else do {
         (A1, ctx_tmp) \<leftarrow> HMAC_Final ctx_tmp;
         rest \<leftarrow> p_hash_loop n chunk ctx_init label seed1 seed2 ctx ctx_tmp A1 out;
         Some (written @ rest)
       }
     }"

definition tls1_P_hash :: "bytes \<Rightarrow> env_md \<Rightarrow> bytes \<Rightarrow> bytes \<Rightarrow> bytes \<Rightarrow> bytes \<Rightarrow> bytes option" where
  "tls1_P_hash out md secret label seed1 seed2 =
     do {
       let chunk = EVP_MD_size md;
       let ctx = HMAC_CTX_init;
       let ctx_tmp = HMAC_CTX_init;
       ctx_init \<leftarrow> HMAC_Init_ex HMAC_CTX_init (Some secret) (Some md);
       ctx \<leftarrow> HMAC_CTX_copy_ex ctx ctx_init;
       ctx \<leftarrow> HMAC_Update ctx label;
       ctx \<leftarrow> HMAC_Update ctx seed1;
       ctx \<leftarrow> HMAC_Update ctx seed2;
       (A1, ctx) \<leftarrow> HMAC_Final ctx;
       p_hash_loop (length out + 1) chunk ctx_init label seed1 seed2 ctx ctx_tmp A1 out
     }"

definition CRYPTO_tls1_prf :: "env_md \<Rightarrow> nat \<Rightarrow> bytes \<Rightarrow> bytes \<Rightarrow> bytes \<Rightarrow> bytes \<Rightarrow> bytes option" where
  "CRYPTO_tls1_prf digest out_len secret label seed1 seed2 =
     (if out_len = 0 then Some []
      else
        let out = replicate out_len 0
        in if same_md (Some digest) (Some EVP_md5_sha1) then
             (let secret_half = length secret - length secret div 2
              in do {
                   out \<leftarrow> tls1_P_hash out EVP_md5 (take secret_half secret) label seed1 seed2;
                   tls1_P_hash out EVP_sha1 (take secret_half (drop (length secret - secret_half) secret)) label seed1 seed2
                 })
           else tls1_P_hash out digest secret label seed1 seed2)"

section \<open>RFC 5246\<close>

primrec tls_A :: "(bytes \<Rightarrow> bytes) \<Rightarrow> bytes \<Rightarrow> nat \<Rightarrow> bytes" where
  "tls_A mac seed 0 = seed"
| "tls_A mac seed (Suc i) = mac (tls_A mac seed i)"

definition p_hash_block :: "(bytes \<Rightarrow> bytes) \<Rightarrow> bytes \<Rightarrow> nat \<Rightarrow> bytes" where
  "p_hash_block mac seed i = mac (tls_A mac seed i @ seed)"

definition p_hash :: "(bytes \<Rightarrow> bytes) \<Rightarrow> nat \<Rightarrow> bytes \<Rightarrow> nat \<Rightarrow> bytes" where
  "p_hash mac hash_len seed n = take_blocks hash_len (p_hash_block mac seed) 1 n"

context digest_contract
begin

lemma hmac_copy:
  assumes "hmac_holds key m src"
  shows "HMAC_CTX_copy_ex dest src = Some src"
proof -
  obtain a b c where "ctx_holds a (i_ctx src)" "ctx_holds b (o_ctx src)" "ctx_holds c (md_ctx src)"
    using assms by (auto simp: hmac_holds_def hmac_keyed_def)
  then show ?thesis by (simp add: HMAC_CTX_copy_ex_def digest_copy)
qed

lemma hmac_update3:
  assumes "hmac_holds key m c"
  obtains c1 c2 c3 where "HMAC_Update c x = Some c1" "HMAC_Update c1 y = Some c2" "HMAC_Update c2 z = Some c3"
    "hmac_holds key (m @ x @ y @ z) c3"
proof -
  obtain c1 where c1: "HMAC_Update c x = Some c1" "hmac_holds key (m @ x) c1" using hmac_update [OF assms] .
  obtain c2 where c2: "HMAC_Update c1 y = Some c2" "hmac_holds key ((m @ x) @ y) c2" using hmac_update [OF c1(2)] .
  obtain c3 where c3: "HMAC_Update c2 z = Some c3" "hmac_holds key (((m @ x) @ y) @ z) c3" using hmac_update [OF c2(2)] .
  show thesis using that [OF c1(1) c2(1) c3(1)] c3(2) by simp
qed

lemma p_hash_loop_eq:
  fixes secret label seed1 seed2 :: bytes
  defines "mc \<equiv> hmac (emd_block_size md) H secret" and "seed \<equiv> label @ seed1 @ seed2"
  assumes k: "hmac_holds secret [] ctx_init"
  shows "length out < n \<Longrightarrow> 0 < length out \<Longrightarrow> A1 = tls_A mc seed i \<Longrightarrow>
    p_hash_loop n (emd_md_size md) ctx_init label seed1 seed2 ctx ctx_tmp A1 out =
      Some (map2 (XOR) out (take_blocks (emd_md_size md) (p_hash_block mc seed) i (length out)))"
proof (induction n arbitrary: ctx ctx_tmp A1 out i)
  case (Suc n)
  obtain c1 where c1: "HMAC_Update ctx_init A1 = Some c1" "hmac_holds secret ([] @ A1) c1" using hmac_update [OF k] .
  obtain c2 c3 c4 where u: "HMAC_Update c1 label = Some c2" "HMAC_Update c2 seed1 = Some c3"
    "HMAC_Update c3 seed2 = Some c4" "hmac_holds secret (([] @ A1) @ label @ seed1 @ seed2) c4"
    using hmac_update3 [OF c1(2)] .
  obtain c5 where f: "HMAC_Final c4 = Some (mc (A1 @ seed), c5)"
    using hmac_final [OF u(4)] by (auto simp: mc_def seed_def)
  have T: "mc (A1 @ seed) = p_hash_block mc seed i" by (simp add: p_hash_block_def Suc.prems(3))
  have l: "length (p_hash_block mc seed j) = emd_md_size md" for j by (simp add: p_hash_block_def mc_def length_hmac)
  let ?T = "p_hash_block mc seed i" and ?s = "emd_md_size md"
  have tb: "take_blocks ?s (p_hash_block mc seed) i (length out) =
      (if length out \<le> ?s then take (length out) ?T else ?T @ take_blocks ?s (p_hash_block mc seed) (Suc i) (length out - ?s))"
    using take_blocks_step [of ?s "p_hash_block mc seed" i "length out"] l sizes Suc.prems(2) by simp
  show ?case
  proof (cases "length out \<le> ?s")
    case True
    then show ?thesis using l [of i] by (simp add: hmac_copy [OF k] c1(1) u(1-3) f T tb Let_def)
  next
    case False
    obtain c6 where t: "HMAC_Final c1 = Some (tls_A mc seed (Suc i), c6)"
      using hmac_final [OF c1(2)] by (auto simp: Suc.prems(3) mc_def)
    have "length (drop ?s out) < n" "0 < length (drop ?s out)" using Suc.prems(1) False sizes by auto
    note IH = Suc.IH [OF this refl, of c5 c6 "Suc i", unfolded tls_A.simps]
    have "map2 (XOR) out (?T @ r) = map2 (XOR) (take ?s out) ?T @ map2 (XOR) (drop ?s out) r" for r
      using l [of i] False zip_append2 [of out ?T r] by (simp add: min_def)
    then show ?thesis using False l [of i]
      by (simp add: hmac_copy [OF k] hmac_copy [OF c1(2)] c1(1) u(1-3) f T tb t IH Let_def)
  qed
qed simp

lemma tls1_P_hash_eq:
  assumes "out \<noteq> []"
  shows "tls1_P_hash out md secret label seed1 seed2 =
    Some (map2 (XOR) out (p_hash (hmac (emd_block_size md) H secret) (emd_md_size md) (label @ seed1 @ seed2) (length out)))"
proof -
  have "hmac_md HMAC_CTX_init = None" by (simp add: HMAC_CTX_init_def)
  then obtain k where k: "HMAC_Init_ex HMAC_CTX_init (Some secret) (Some md) = Some k" "hmac_holds secret [] k"
    using hmac_init [OF hmac_usable_init, of "Some secret"] by auto
  obtain c1 c2 c3 where u: "HMAC_Update k label = Some c1" "HMAC_Update c1 seed1 = Some c2"
    "HMAC_Update c2 seed2 = Some c3" "hmac_holds secret ([] @ label @ seed1 @ seed2) c3"
    using hmac_update3 [OF k(2)] .
  obtain c4 where f: "HMAC_Final c3 = Some (hmac (emd_block_size md) H secret (label @ seed1 @ seed2), c4)"
    using hmac_final [OF u(4)] by auto
  show ?thesis
    using p_hash_loop_eq [OF k(2), of out "length out + 1" _ label seed1 seed2 1 c4 HMAC_CTX_init] assms
    by (simp add: tls1_P_hash_def k(1) hmac_copy [OF k(2)] u(1-3) f EVP_MD_size_def p_hash_def Let_def)
qed

lemma map2_xor_zero: "length x = n \<Longrightarrow> map2 (XOR) (replicate n (0 :: byte)) x = x"
  by (induction x arbitrary: n) auto

lemma length_p_hash: "length (p_hash (hmac (emd_block_size md) H secret) (emd_md_size md) seed n) = n"
  using sizes by (simp add: p_hash_def length_take_blocks p_hash_block_def length_hmac)

lemma prf_eq:
  assumes "\<not> same_md (Some md) (Some EVP_md5_sha1)"
  shows "CRYPTO_tls1_prf md n secret label seed1 seed2 =
    Some (p_hash (hmac (emd_block_size md) H secret) (emd_md_size md) (label @ seed1 @ seed2) n)"
proof (cases "n = 0")
  case True
  then show ?thesis using length_p_hash [of secret "label @ seed1 @ seed2" 0] by (simp add: CRYPTO_tls1_prf_def)
next
  case False
  then show ?thesis using assms
    by (simp add: CRYPTO_tls1_prf_def Let_def tls1_P_hash_eq map2_xor_zero length_p_hash)
qed

end

text \<open>C33: the TLS pseudo-random function is that of RFC 5246 for every digest, with any length of output: the
  first bytes of P_hash over the label and the seeds. For MD5 with SHA-1 it is that of RFC 4346: the XOR of
  P_MD5 under the first half of the secret and of P_SHA1 under the second, which share a byte when the
  length is odd.\<close>

theorem tls1_prf_is_RFC5246:
  assumes "(md, H) \<in> set evp_digests"
  shows "CRYPTO_tls1_prf md n secret label seed1 seed2 = Some (
    let seed = label @ seed1 @ seed2; half = length secret - length secret div 2
    in if emd_type md = emd_type EVP_md5_sha1 then
         map2 (XOR) (p_hash (hmac 64 md5_digest (take half secret)) 16 seed n)
           (p_hash (hmac 64 sha1_digest (drop (length secret - half) secret)) 20 seed n)
       else p_hash (hmac (emd_block_size md) H secret) (emd_md_size md) seed n)"
proof (cases "same_md (Some md) (Some EVP_md5_sha1)")
  case True
  define half where "half = length secret - length secret div 2"
  have h: "take half (drop (length secret - half) secret) = drop (length secret - half) secret" by (simp add: half_def)
  let ?seed = "label @ seed1 @ seed2"
  let ?m = "p_hash (hmac 64 md5_digest (take half secret)) 16 ?seed n"
  let ?s = "p_hash (hmac 64 sha1_digest (drop (length secret - half) secret)) 20 ?seed n"
  have s: "emd_block_size EVP_md5 = 64" "emd_md_size EVP_md5 = 16" "emd_block_size EVP_sha1 = 64" "emd_md_size EVP_sha1 = 20"
    by (simp_all add: EVP_md5_def EVP_sha1_def MD5_DIGEST_LENGTH_def SHA_DIGEST_LENGTH_def)
  have l: "length ?m = n" "length ?s = n"
    using md5_md.length_p_hash [of "take half secret" ?seed n] sha1_md.length_p_hash [of "drop (length secret - half) secret" ?seed n]
    by (simp_all add: s)
  have "CRYPTO_tls1_prf md n secret label seed1 seed2 = Some (map2 (XOR) ?m ?s)"
  proof (cases "n = 0")
    case False
    have "tls1_P_hash (replicate n 0) EVP_md5 (take half secret) label seed1 seed2 = Some ?m"
      using md5_md.tls1_P_hash_eq [of "replicate n 0" "take half secret"] False l
      by (simp add: s md5_md.map2_xor_zero)
    moreover have "?m \<noteq> []" using False l by auto
    then have "tls1_P_hash ?m EVP_sha1 (drop (length secret - half) secret) label seed1 seed2 = Some (map2 (XOR) ?m ?s)"
      using sha1_md.tls1_P_hash_eq [of ?m "drop (length secret - half) secret"] l by (simp add: s)
    ultimately show ?thesis using False True
      by (simp add: CRYPTO_tls1_prf_def Let_def h [unfolded half_def] half_def [symmetric] h)
  qed (use l in \<open>simp add: CRYPTO_tls1_prf_def\<close>)
  moreover have "emd_type md = emd_type EVP_md5_sha1" using True by (simp add: same_md_def)
  ultimately show ?thesis by (simp add: half_def Let_def)
next
  case False
  have "CRYPTO_tls1_prf md n secret label seed1 seed2 =
      Some (p_hash (hmac (emd_block_size md) H secret) (emd_md_size md) (label @ seed1 @ seed2) n)"
    using evp_digest_contract [OF assms] digest_contract.prf_eq [OF _ False] by blast
  moreover have "emd_type md \<noteq> emd_type EVP_md5_sha1" using False by (simp add: same_md_def)
  ultimately show ?thesis by (simp add: Let_def)
qed

theorem tls1_prf_is_RFC5246_witness:
  "CRYPTO_tls1_prf EVP_sha256 12 [1, 2, 3] [65] [4] [5] = Some (p_hash (hmac 64 sha256_hash [1, 2, 3]) 32 [65, 4, 5] 12)"
  using tls1_prf_is_RFC5246 [of EVP_sha256 sha256_hash 12 "[1, 2, 3]" "[65]" "[4]" "[5]"]
  by (simp add: evp_digests_def) (simp add: EVP_sha256_def EVP_md5_sha1_def SHA256_DIGEST_LENGTH_def)

end
