(* ===== verification/Hkdf.thy ===== *)
theory Hkdf
  imports Hmac
begin

text \<open>
  \<open>crypto/hkdf/hkdf.c\<close>: key derivation over HMAC. The expansion keeps one HMAC context, rewound for each
  block with the same key, and copies the blocks to the output. \<open>hkdf_expand\<close> is RFC 5869; the code
  computes it for any output of at most 255 digests and refuses longer ones. \<open>size_t\<close> has 64 bits.
\<close>

definition HKDF_extract :: "env_md \<Rightarrow> bytes \<Rightarrow> bytes option \<Rightarrow> bytes option" where
  "HKDF_extract digest secret salt = HMAC digest salt secret"

text \<open>One round of the loop, for \<open>ctr = i + 1\<close>: the HMAC context, the previous block and the output so far.\<close>

definition hkdf_round ::
  "nat \<Rightarrow> nat \<Rightarrow> bytes \<Rightarrow> nat \<Rightarrow> hmac_ctx \<times> bytes \<times> bytes \<Rightarrow> (hmac_ctx \<times> bytes \<times> bytes) option" where
  "hkdf_round digest_len out_len info i s =
     (case s of (h, previous, out) \<Rightarrow>
        let start =
          (if i \<noteq> 0 then
             (case HMAC_Init_ex h None None of
                None \<Rightarrow> None
              | Some h \<Rightarrow> HMAC_Update h previous)
           else Some h)
        in case start of
             None \<Rightarrow> None
           | Some h \<Rightarrow>
               (case HMAC_Update h info of
                  None \<Rightarrow> None
                | Some h \<Rightarrow>
                    (case HMAC_Update h [word_of_nat (i + 1)] of
                       None \<Rightarrow> None
                     | Some h \<Rightarrow>
                         (case HMAC_Final h of
                            None \<Rightarrow> None
                          | Some (previous, h) \<Rightarrow>
                              let todo = (if length out + digest_len > out_len then out_len - length out
                                          else digest_len)
                              in Some (h, previous, out @ take todo previous)))))"

primrec hkdf_loop ::
  "nat \<Rightarrow> nat \<Rightarrow> bytes \<Rightarrow> nat list \<Rightarrow> hmac_ctx \<times> bytes \<times> bytes \<Rightarrow> (hmac_ctx \<times> bytes \<times> bytes) option" where
  "hkdf_loop digest_len out_len info [] s = Some s"
| "hkdf_loop digest_len out_len info (i # is) s =
     (case hkdf_round digest_len out_len info i s of
        None \<Rightarrow> None
      | Some s \<Rightarrow> hkdf_loop digest_len out_len info is s)"

definition HKDF_expand :: "nat \<Rightarrow> env_md \<Rightarrow> bytes \<Rightarrow> bytes \<Rightarrow> bytes option" where
  "HKDF_expand out_len digest prk info =
     (let digest_len = EVP_MD_size digest;
          n = (out_len + digest_len - 1) mod 2 ^ 64 div digest_len
      in if (out_len + digest_len) mod 2 ^ 64 < out_len \<or> n > 255 then None
         else
           case HMAC_Init_ex HMAC_CTX_init (Some prk) (Some digest) of
             None \<Rightarrow> None
           | Some h \<Rightarrow> map_option (\<lambda>(h, previous, out). out) (hkdf_loop digest_len out_len info [0..<n] (h, [], [])))"

definition HKDF :: "nat \<Rightarrow> env_md \<Rightarrow> bytes \<Rightarrow> bytes option \<Rightarrow> bytes \<Rightarrow> bytes option" where
  "HKDF out_len digest secret salt info =
     (case HKDF_extract digest secret salt of
        None \<Rightarrow> None
      | Some prk \<Rightarrow> HKDF_expand out_len digest prk info)"

section \<open>RFC 5869\<close>

text \<open>\<open>T(i)\<close> of the RFC, with \<open>T(0)\<close> empty, and their concatenation.\<close>

primrec hkdf_T :: "(bytes \<Rightarrow> bytes \<Rightarrow> bytes) \<Rightarrow> bytes \<Rightarrow> bytes \<Rightarrow> nat \<Rightarrow> bytes" where
  "hkdf_T mac prk info 0 = []"
| "hkdf_T mac prk info (Suc i) = mac prk (hkdf_T mac prk info i @ info @ [word_of_nat (Suc i)])"

definition hkdf_expand :: "(bytes \<Rightarrow> bytes \<Rightarrow> bytes) \<Rightarrow> nat \<Rightarrow> nat \<Rightarrow> bytes \<Rightarrow> bytes \<Rightarrow> bytes" where
  "hkdf_expand mac digest_len out_len prk info =
     take out_len (concat (map (\<lambda>i. hkdf_T mac prk info (Suc i)) [0..<(out_len + digest_len - 1) div digest_len]))"

context digest_contract
begin

abbreviation mac :: "bytes \<Rightarrow> bytes \<Rightarrow> bytes" where
  "mac \<equiv> hmac (emd_block_size md) H"

definition hkdf_blocks :: "bytes \<Rightarrow> bytes \<Rightarrow> nat \<Rightarrow> bytes" where
  "hkdf_blocks prk info n = concat (map (\<lambda>i. hkdf_T mac prk info (Suc i)) [0..<n])"

lemma length_hkdf_blocks: "length (hkdf_blocks prk info n) = n * emd_md_size md"
  by (induction n) (simp_all add: hkdf_blocks_def length_hmac)

text \<open>The state of the loop before round \<open>i\<close>.\<close>

definition hkdf_state :: "nat \<Rightarrow> bytes \<Rightarrow> bytes \<Rightarrow> nat \<Rightarrow> hmac_ctx \<times> bytes \<times> bytes \<Rightarrow> bool" where
  "hkdf_state out_len prk info i s \<longleftrightarrow>
     (case s of (h, previous, out) \<Rightarrow>
        (if i = 0 then hmac_holds prk [] h else hmac_keyed prk h) \<and>
        previous = hkdf_T mac prk info i \<and> out = take out_len (hkdf_blocks prk info i))"

lemma hkdf_round:
  assumes "hkdf_state out_len prk info i s"
  obtains s' where "hkdf_round (emd_md_size md) out_len info i s = Some s'" "hkdf_state out_len prk info (Suc i) s'"
proof -
  obtain h previous out where s: "s = (h, previous, out)" by (cases s) auto
  let ?T = "hkdf_T mac prk info"
  have st: "if i = 0 then hmac_holds prk [] h else hmac_keyed prk h" "previous = ?T i"
    "out = take out_len (hkdf_blocks prk info i)"
    using assms by (auto simp: hkdf_state_def s)
  obtain h0 where h0: "(if i \<noteq> 0 then (case HMAC_Init_ex h None None of None \<Rightarrow> None | Some h \<Rightarrow> HMAC_Update h previous)
      else Some h) = Some h0" "hmac_holds prk (?T i) h0"
  proof (cases "i = 0")
    case True
    then show ?thesis using that st by auto
  next
    case False
    then obtain h1 where h1: "HMAC_Init_ex h None None = Some h1" "hmac_holds prk [] h1"
      using hmac_rewind st(1) by auto
    obtain h2 where "HMAC_Update h1 previous = Some h2" "hmac_holds prk ([] @ previous) h2"
      using hmac_update [OF h1(2)] .
    with h1(1) False st(2) that show ?thesis by auto
  qed
  obtain h1 where h1: "HMAC_Update h0 info = Some h1" "hmac_holds prk (?T i @ info) h1"
    using hmac_update [OF h0(2)] .
  obtain h2 where h2: "HMAC_Update h1 [word_of_nat (i + 1)] = Some h2"
      "hmac_holds prk ((?T i @ info) @ [word_of_nat (i + 1)]) h2"
    using hmac_update [OF h1(2)] .
  obtain h3 where h3: "HMAC_Final h2 = Some (?T (Suc i), h3)" "hmac_keyed prk h3"
    using hmac_final [OF h2(2)] by auto
  define todo where "todo =
    (if length out + emd_md_size md > out_len then out_len - length out else emd_md_size md)"
  have r: "hkdf_round (emd_md_size md) out_len info i s = Some (h3, ?T (Suc i), out @ take todo (?T (Suc i)))"
    unfolding hkdf_round_def s prod.case Let_def h0(1) option.case h1(1) h2(1) h3(1) todo_def ..
  have T: "length (?T (Suc i)) = emd_md_size md" by (simp add: length_hmac)
  have l: "length out = min (i * emd_md_size md) out_len"
    using st(3) by (simp add: length_hkdf_blocks)
  have b: "hkdf_blocks prk info (Suc i) = hkdf_blocks prk info i @ ?T (Suc i)" by (simp add: hkdf_blocks_def)
  have "out @ take todo (?T (Suc i)) = take out_len (hkdf_blocks prk info (Suc i))"
  proof (cases "i * emd_md_size md \<le> out_len")
    case True
    then have "take todo (?T (Suc i)) = take (out_len - i * emd_md_size md) (?T (Suc i))"
      using l T unfolding todo_def by (intro nth_equalityI) (auto simp: min_def)
    with True show ?thesis unfolding b st(3) by (simp add: length_hkdf_blocks)
  next
    case False
    then show ?thesis using l sizes unfolding b st(3) todo_def by (simp add: length_hkdf_blocks)
  qed
  with r h3(2) show ?thesis using that by (simp add: hkdf_state_def)
qed

lemma hkdf_loop:
  assumes "hkdf_state out_len prk info i s"
  obtains s' where "hkdf_loop (emd_md_size md) out_len info [i..<i + k] s = Some s'"
    "hkdf_state out_len prk info (i + k) s'"
  using assms
proof (induction k arbitrary: i s thesis)
  case 0
  then show ?case by simp
next
  case (Suc k)
  obtain s1 where s1: "hkdf_round (emd_md_size md) out_len info i s = Some s1"
    "hkdf_state out_len prk info (Suc i) s1" using hkdf_round [OF Suc.prems(2)] .
  obtain s2 where "hkdf_loop (emd_md_size md) out_len info [Suc i..<Suc i + k] s1 = Some s2"
    "hkdf_state out_len prk info (Suc i + k) s2" using Suc.IH [OF _ s1(2)] .
  moreover have u: "[i..<i + Suc k] = i # [Suc i..<Suc i + k]" by (subst upt_conv_Cons) simp_all
  ultimately show ?case using s1(1) by (intro Suc.prems(1)) (simp_all only: u hkdf_loop.simps option.case add_Suc_shift)
qed

lemma hkdf_expand_eq:
  assumes "out_len \<le> 255 * emd_md_size md"
  shows "HKDF_expand out_len md prk info = Some (hkdf_expand mac (emd_md_size md) out_len prk info)"
proof -
  define n where "n = (out_len + emd_md_size md - 1) div emd_md_size md"
  have bound: "out_len + emd_md_size md < 2 ^ 64"
  proof -
    have "out_len + emd_md_size md \<le> 256 * 128" using assms sizes by simp
    then show ?thesis by (rule le_less_trans) simp
  qed
  have n: "n \<le> 255"
  proof -
    have "out_len + emd_md_size md - 1 < 256 * emd_md_size md" using assms sizes(1) by linarith
    then have "n < 256" using sizes(1) by (simp add: n_def div_less_iff_less_mult)
    then show ?thesis by simp
  qed
  have nc: "(out_len + emd_md_size md - 1) mod 2 ^ 64 div emd_md_size md = n"
    using bound by (simp add: n_def)
  have "hmac_md HMAC_CTX_init = None" by (simp add: HMAC_CTX_init_def)
  then obtain h where h: "HMAC_Init_ex HMAC_CTX_init (Some prk) (Some md) = Some h" "hmac_holds prk [] h"
    using hmac_init [OF hmac_usable_init, of "Some prk"] by auto
  have "hkdf_state out_len prk info 0 (h, [], [])" using h(2) by (simp add: hkdf_state_def hkdf_blocks_def)
  then obtain s where s: "hkdf_loop (emd_md_size md) out_len info [0..<0 + n] (h, [], []) = Some s"
    "hkdf_state out_len prk info (0 + n) s" by (rule hkdf_loop)
  obtain h' previous out where "s = (h', previous, out)" by (cases s) auto
  then have "map_option (\<lambda>(h, previous, out). out) (Some s) = Some (hkdf_expand mac (emd_md_size md) out_len prk info)"
    using s(2) by (simp add: hkdf_state_def hkdf_expand_def hkdf_blocks_def n_def)
  then show ?thesis
    unfolding HKDF_expand_def EVP_MD_size_def Let_def nc h(1) option.case
    using s(1) bound n by simp
qed

text \<open>Longer outputs are refused, up to the largest \<open>size_t\<close>.\<close>

lemma hkdf_too_long:
  assumes "255 * emd_md_size md < out_len" "out_len < 2 ^ 64"
  shows "HKDF_expand out_len md prk info = None"
proof (cases "out_len + emd_md_size md - 1 < 2 ^ 64")
  case True
  have "256 * emd_md_size md \<le> out_len + emd_md_size md - 1" using assms(1) by simp
  then have "256 \<le> (out_len + emd_md_size md - 1) div emd_md_size md"
    using sizes(1) by (simp add: less_eq_div_iff_mult_less_eq)
  then show ?thesis using True by (simp add: HKDF_expand_def EVP_MD_size_def Let_def)
next
  case False
  then have "(out_len + emd_md_size md) mod 2 ^ 64 < out_len"
    using assms(2) sizes le_mod_geq [of "2 ^ 64" "out_len + emd_md_size md"] by simp
  then show ?thesis by (simp add: HKDF_expand_def EVP_MD_size_def Let_def)
qed

lemma hkdf_eq:
  "out_len < 2 ^ 64 \<Longrightarrow> HKDF out_len md secret salt info =
    (if out_len \<le> 255 * emd_md_size md then
       Some (hkdf_expand mac (emd_md_size md) out_len (mac (case salt of None \<Rightarrow> [] | Some s \<Rightarrow> s) secret) info)
     else None)"
  by (simp add: HKDF_def HKDF_extract_def hmac_one_shot hkdf_expand_eq hkdf_too_long)

end

text \<open>C26: HKDF is RFC 5869 for each of the nine digests: it returns the first \<open>out_len\<close> bytes of the expansion of
  the extracted key when \<open>out_len\<close> is at most 255 digests, and refuses any other length, those whose sum
  with the digest length wraps included.\<close>

theorem HKDF_is_RFC5869:
  assumes "(md, H) \<in> set evp_digests" "out_len < 2 ^ 64"
  shows "HKDF out_len md secret salt info =
    (if out_len \<le> 255 * emd_md_size md then
       Some (hkdf_expand (hmac (emd_block_size md) H) (emd_md_size md) out_len
         (hmac (emd_block_size md) H (case salt of None \<Rightarrow> [] | Some s \<Rightarrow> s) secret) info)
     else None)"
proof -
  obtain holds ok where "digest_contract md H holds ok" using evp_digest_contract [OF assms(1)] by blast
  then show ?thesis using assms(2) by (rule digest_contract.hkdf_eq)
qed

theorem HKDF_is_RFC5869_witness:
  "HKDF 42 EVP_sha256 [11, 11] (Some [0, 1]) [240] =
     Some (hkdf_expand (hmac 64 sha256_hash) 32 42 (hmac 64 sha256_hash [0, 1] [11, 11]) [240]) \<and>
   HKDF 8161 EVP_sha256 [11, 11] (Some [0, 1]) [240] = None"
  using HKDF_is_RFC5869 [of EVP_sha256 sha256_hash 42 "[11, 11]" "Some [0, 1]" "[240]"]
    HKDF_is_RFC5869 [of EVP_sha256 sha256_hash 8161 "[11, 11]" "Some [0, 1]" "[240]"]
  by (simp add: evp_digests_def) (simp add: EVP_sha256_def SHA256_DIGEST_LENGTH_def)

end
