(* ===== verification/Pbkdf.thy ===== *)
theory Pbkdf
  imports Tls_Prf Hkdf
begin

text \<open>
  \<open>crypto/evp/pbkdf.c\<close>: PBKDF2 over HMAC. One HMAC context is rewound for every call under the password;
  the block counter is a 32-bit word written in big-endian order. The outer loop has one round per unit of
  fuel, the length of the key being enough as each round but the last writes a whole digest. \<open>unsigned\<close> and
  \<open>size_t\<close> counts are naturals. \<open>pbkdf2\<close> is RFC 8018, section 5.2.
\<close>

text \<open>The rounds from \<open>U_2\<close> on, \<open>iterations - 1\<close> of them: the context, the last digest and the block.\<close>

fun pbkdf2_inner :: "nat \<Rightarrow> nat \<Rightarrow> hmac_ctx \<Rightarrow> bytes \<Rightarrow> bytes \<Rightarrow> (hmac_ctx \<times> bytes) option" where
  "pbkdf2_inner 0 md_len hctx digest_tmp out_key = Some (hctx, out_key)"
| "pbkdf2_inner (Suc n) md_len hctx digest_tmp out_key =
     do {
       hctx \<leftarrow> HMAC_Init_ex hctx None None;
       hctx \<leftarrow> HMAC_Update hctx (take md_len digest_tmp);
       (digest_tmp, hctx) \<leftarrow> HMAC_Final hctx;
       pbkdf2_inner n md_len hctx digest_tmp (map2 (XOR) out_key (take (length out_key) digest_tmp))
     }"

fun pbkdf2_loop :: "nat \<Rightarrow> nat \<Rightarrow> nat \<Rightarrow> bytes \<Rightarrow> hmac_ctx \<Rightarrow> u32 \<Rightarrow> nat \<Rightarrow> bytes option" where
  "pbkdf2_loop fuel md_len iterations salt hctx i key_len =
     (if key_len > 0 then
        (case fuel of
           0 \<Rightarrow> None
         | Suc fuel \<Rightarrow>
             do {
               let todo = (if md_len > key_len then key_len else md_len);
               let i_buf = [ucast (drop_bit 24 i AND 0xff), ucast (drop_bit 16 i AND 0xff),
                            ucast (drop_bit 8 i AND 0xff), ucast (i AND 0xff)];
               hctx \<leftarrow> HMAC_Init_ex hctx None None;
               hctx \<leftarrow> HMAC_Update hctx salt;
               hctx \<leftarrow> HMAC_Update hctx i_buf;
               (digest_tmp, hctx) \<leftarrow> HMAC_Final hctx;
               (hctx, block) \<leftarrow> pbkdf2_inner (iterations - 1) md_len hctx digest_tmp (take todo digest_tmp);
               rest \<leftarrow> pbkdf2_loop fuel md_len iterations salt hctx (i + 1) (key_len - todo);
               Some (block @ rest)
             })
      else Some [])"

declare pbkdf2_loop.simps [simp del]

text \<open>The return value and the key. A count of no iterations leaves the key of one and returns 0.\<close>

definition PKCS5_PBKDF2_HMAC :: "bytes \<Rightarrow> bytes \<Rightarrow> nat \<Rightarrow> env_md \<Rightarrow> nat \<Rightarrow> bool \<times> bytes" where
  "PKCS5_PBKDF2_HMAC password salt iterations digest key_len =
     (let md_len = EVP_MD_size digest
      in case HMAC_Init_ex HMAC_CTX_init (Some password) (Some digest) of
           None \<Rightarrow> (False, [])
         | Some hctx \<Rightarrow>
             (case pbkdf2_loop key_len md_len iterations salt hctx 1 key_len of
                None \<Rightarrow> (False, [])
              | Some out_key \<Rightarrow> if iterations = 0 then (False, out_key) else (True, out_key)))"

definition PKCS5_PBKDF2_HMAC_SHA1 :: "bytes \<Rightarrow> bytes \<Rightarrow> nat \<Rightarrow> nat \<Rightarrow> bool \<times> bytes" where
  "PKCS5_PBKDF2_HMAC_SHA1 password salt iterations key_len =
     PKCS5_PBKDF2_HMAC password salt iterations EVP_sha1 key_len"

section \<open>RFC 8018\<close>

text \<open>\<open>U_(j + 1)\<close> of block \<open>i\<close>, and \<open>F\<close>.\<close>

primrec pbkdf2_U :: "(bytes \<Rightarrow> bytes) \<Rightarrow> bytes \<Rightarrow> nat \<Rightarrow> nat \<Rightarrow> bytes" where
  "pbkdf2_U mac salt i 0 = mac (salt @ be_bytes 4 i)"
| "pbkdf2_U mac salt i (Suc j) = mac (pbkdf2_U mac salt i j)"

primrec pbkdf2_F :: "(bytes \<Rightarrow> bytes) \<Rightarrow> bytes \<Rightarrow> nat \<Rightarrow> nat \<Rightarrow> bytes" where
  "pbkdf2_F mac salt 0 i = pbkdf2_U mac salt i 0"
| "pbkdf2_F mac salt (Suc c) i = map2 (XOR) (pbkdf2_F mac salt c i) (pbkdf2_U mac salt i (Suc c))"

definition pbkdf2 :: "(bytes \<Rightarrow> bytes) \<Rightarrow> nat \<Rightarrow> bytes \<Rightarrow> nat \<Rightarrow> nat \<Rightarrow> bytes" where
  "pbkdf2 mac hash_len salt c n = take_blocks hash_len (pbkdf2_F mac salt (c - 1)) 1 n"

lemma take_map2: "take n (map2 f xs ys) = map2 f (take n xs) (take n ys)"
  by (simp add: take_map take_zip)

context digest_contract
begin

lemma length_pbkdf2_U: "length (pbkdf2_U (mac key) salt i j) = emd_md_size md"
  by (cases j) (simp_all add: length_hmac)

lemma length_pbkdf2_F: "length (pbkdf2_F (mac key) salt c i) = emd_md_size md"
  by (induction c) (simp_all add: length_pbkdf2_U length_hmac)

lemma pbkdf2_inner_eq:
  assumes "todo \<le> emd_md_size md"
  shows "hmac_keyed key c \<Longrightarrow>
    \<exists>c'. hmac_keyed key c' \<and>
      pbkdf2_inner n (emd_md_size md) c (pbkdf2_U (mac key) salt i j) (take todo (pbkdf2_F (mac key) salt j i)) =
        Some (c', take todo (pbkdf2_F (mac key) salt (j + n) i))"
proof (induction n arbitrary: c j)
  case (Suc n)
  obtain c1 where c1: "HMAC_Init_ex c None None = Some c1" "hmac_holds key [] c1" using hmac_rewind [OF Suc.prems] .
  obtain c2 where c2: "HMAC_Update c1 (pbkdf2_U (mac key) salt i j) = Some c2" "hmac_holds key ([] @ pbkdf2_U (mac key) salt i j) c2"
    using hmac_update [OF c1(2)] .
  obtain c3 where c3: "HMAC_Final c2 = Some (pbkdf2_U (mac key) salt i (Suc j), c3)" "hmac_keyed key c3"
    using hmac_final [OF c2(2)] by auto
  have "map2 (XOR) (take todo (pbkdf2_F (mac key) salt j i)) (take todo (pbkdf2_U (mac key) salt i (Suc j))) =
      take todo (pbkdf2_F (mac key) salt (Suc j) i)"
    by (simp add: take_map2)
  then show ?case using Suc.IH [OF c3(2), of "Suc j"] assms
    by (simp add: c1(1) c2(1) c3(1) length_pbkdf2_U length_pbkdf2_F min_absorb2 del: pbkdf2_U.simps pbkdf2_F.simps)
qed auto

text \<open>The counter block.\<close>

lemma i_buf_eq:
  "[ucast (drop_bit 24 i AND 0xff), ucast (drop_bit 16 i AND 0xff), ucast (drop_bit 8 i AND 0xff), ucast (i AND 0xff)] =
    be_bytes 4 (unat (i :: u32))"
proof -
  have m: "ucast (w AND 0xff) = (word_of_nat (unat w) :: byte)" for w :: u32
  proof -
    have m: "(0xff :: u32) = mask 8" by (simp add: mask_eq_exp_minus_1)
    have "bit (0xff :: u32) n" if "n < 8" for n unfolding m bit_mask_iff using that by simp
    then show ?thesis by (intro bit_word_eqI) (simp add: bit_simps)
  qed
  have four: "4 = Suc (Suc (Suc (Suc 0)))" by simp
  show ?thesis unfolding m four be_bytes_Suc be_bytes_0 unat_drop_bit by (simp add: div_mult2_eq [symmetric])
qed

end

context digest_contract
begin

lemma pbkdf2_loop_eq:
  "hmac_keyed key c \<Longrightarrow> key_len \<le> fuel \<Longrightarrow> i + (key_len + emd_md_size md - 1) div emd_md_size md \<le> 2 ^ 32 \<Longrightarrow>
    pbkdf2_loop fuel (emd_md_size md) iterations salt c (word_of_nat i) key_len =
      Some (take_blocks (emd_md_size md) (pbkdf2_F (mac key) salt (iterations - 1)) i key_len)"
proof (induction fuel arbitrary: c i key_len)
  case 0
  then show ?case by (simp add: pbkdf2_loop.simps take_blocks_def)
next
  case (Suc fuel)
  let ?s = "emd_md_size md" and ?F = "pbkdf2_F (mac key) salt (iterations - 1)"
  show ?case
  proof (cases "key_len = 0")
    case True
    then show ?thesis by (simp add: pbkdf2_loop.simps take_blocks_def)
  next
    case False
    define todo where "todo = (if ?s > key_len then key_len else ?s)"
    have todo: "todo \<le> ?s" "0 < todo" "todo \<le> key_len" using False sizes by (auto simp: todo_def)
    define w :: u32 where "w = word_of_nat i"
    have blocks: "(key_len + ?s - 1) div ?s = Suc ((key_len - 1) div ?s)"
      by (rule ceil_div_Suc) (use False sizes in auto)
    have "i < 2 ^ 32" using Suc.prems(3) unfolding blocks by simp
    then have w: "unat w = i" by (simp add: w_def unsigned_of_nat take_bit_nat_eq_self_iff)
    obtain c1 where c1: "HMAC_Init_ex c None None = Some c1" "hmac_holds key [] c1" using hmac_rewind [OF Suc.prems(1)] .
    obtain c2 where c2: "HMAC_Update c1 salt = Some c2" "hmac_holds key ([] @ salt) c2" using hmac_update [OF c1(2)] .
    obtain c3 where c3: "HMAC_Update c2 (be_bytes 4 i) = Some c3" "hmac_holds key (([] @ salt) @ be_bytes 4 i) c3"
      using hmac_update [OF c2(2)] .
    obtain c4 where c4: "HMAC_Final c3 = Some (pbkdf2_U (mac key) salt i 0, c4)" "hmac_keyed key c4"
      using hmac_final [OF c3(2)] by auto
    obtain c5 where c5: "hmac_keyed key c5" "pbkdf2_inner (iterations - 1) ?s c4 (pbkdf2_U (mac key) salt i 0)
        (take todo (pbkdf2_F (mac key) salt 0 i)) = Some (c5, take todo (?F i))"
      using pbkdf2_inner_eq [OF todo(1) c4(2), of "iterations - 1" salt i 0] by auto
    have next_i: "w + 1 = word_of_nat (Suc i)" by (simp add: w_def)
    have "Suc i + (key_len - todo + ?s - 1) div ?s \<le> 2 ^ 32"
    proof (cases "?s < key_len")
      case True
      then have "(key_len - todo + ?s - 1) div ?s = (key_len - 1) div ?s" by (simp add: todo_def)
      then show ?thesis using Suc.prems(3) blocks by simp
    next
      case le: False
      then have "key_len - todo = 0" by (auto simp: todo_def)
      then show ?thesis using Suc.prems(3) sizes unfolding blocks by simp
    qed
    note IH = Suc.IH [OF c5(1) _ this]
    have l: "length (?F j) = ?s" for j by (rule length_pbkdf2_F)
    have "pbkdf2_loop (Suc fuel) ?s iterations salt c w key_len =
        Some (take todo (?F i) @ take_blocks ?s ?F (Suc i) (key_len - todo))"
      using False c5(2) IH Suc.prems(2) todo
      by (simp add: pbkdf2_loop.simps [of "Suc fuel"] todo_def [symmetric] i_buf_eq w c1(1) c2(1) c3(1) c4(1) next_i Let_def)
    also have "\<dots> = Some (take_blocks ?s ?F i key_len)"
      using take_blocks_step [of ?s ?F i key_len] l sizes False
      by (auto simp: todo_def take_blocks_def)
    finally show ?thesis by (simp add: w_def)
  qed
qed

lemma pbkdf2_eq:
  assumes "key_len \<le> (2 ^ 32 - 1) * emd_md_size md"
  shows "PKCS5_PBKDF2_HMAC password salt iterations md key_len =
    (iterations \<noteq> 0, pbkdf2 (mac password) (emd_md_size md) salt iterations key_len)"
proof -
  have "hmac_md HMAC_CTX_init = None" by (simp add: HMAC_CTX_init_def)
  then obtain c where c: "HMAC_Init_ex HMAC_CTX_init (Some password) (Some md) = Some c" "hmac_holds password [] c"
    using hmac_init [OF hmac_usable_init, of "Some password"] by auto
  have "key_len + emd_md_size md - 1 < 2 ^ 32 * emd_md_size md" using assms sizes by simp
  then have "(key_len + emd_md_size md - 1) div emd_md_size md < 2 ^ 32" using sizes by (simp add: div_less_iff_less_mult)
  then have "1 + (key_len + emd_md_size md - 1) div emd_md_size md \<le> 2 ^ 32" by simp
  from pbkdf2_loop_eq [OF _ order_refl this, of password c] c(2)
  have "pbkdf2_loop key_len (emd_md_size md) iterations salt c 1 key_len =
      Some (take_blocks (emd_md_size md) (pbkdf2_F (mac password) salt (iterations - 1)) 1 key_len)"
    by (simp add: hmac_holds_def)
  then show ?thesis by (simp add: PKCS5_PBKDF2_HMAC_def EVP_MD_size_def c(1) pbkdf2_def)
qed

end

text \<open>C34: PBKDF2 is RFC 8018 for every digest and any key the RFC allows, at most \<open>2 ^ 32 - 1\<close> digests long. A
  count of no iterations, which the RFC excludes, is reported, the key being that of one iteration.\<close>

theorem PBKDF2_is_RFC8018:
  assumes "(md, H) \<in> set evp_digests" "key_len \<le> (2 ^ 32 - 1) * emd_md_size md"
  shows "PKCS5_PBKDF2_HMAC password salt iterations md key_len =
    (iterations \<noteq> 0, pbkdf2 (hmac (emd_block_size md) H password) (emd_md_size md) salt iterations key_len)"
proof -
  obtain holds ok where "digest_contract md H holds ok" using evp_digest_contract [OF assms(1)] by blast
  then show ?thesis using assms(2) by (rule digest_contract.pbkdf2_eq)
qed

theorem PBKDF2_is_RFC8018_witness:
  "PKCS5_PBKDF2_HMAC [112, 97] [115] 2 EVP_sha256 40 = (True, pbkdf2 (hmac 64 sha256_hash [112, 97]) 32 [115] 2 40)"
  using PBKDF2_is_RFC8018 [of EVP_sha256 sha256_hash 40 "[112, 97]" "[115]" 2]
  by (simp add: evp_digests_def) (simp add: EVP_sha256_def SHA256_DIGEST_LENGTH_def)

end
