(* ===== verification/Stack.thy ===== *)
theory Stack
  imports Mem Qsort
begin

text \<open>
  \<open>crypto/stack/stack.c\<close>: the growable array of pointers. A pointer to an element is an \<open>option\<close> (\<open>None\<close> for
  NULL), and so is the pointer to the stack itself. \<open>st_data\<close> is the allocated array of \<open>st_num_alloc\<close>
  pointers; the cells from \<open>st_num\<close> on are stale or unused (memory not yet written reads as NULL). A
  comparison function is a name that the caller's \<open>call_cmp_func\<close> interprets, so that \<open>sk_set_cmp_func\<close>
  can compare two of them. \<open>libc\<close> is the system allocator and \<open>qsort\<close> the library's sort.

  \<open>sk_items\<close> is the abstraction, the list of the elements. The operations are list operations on it, and
  a sorted stack is searched by bisection for the first match.
\<close>

record ('p, 'c) stack =
  st_num :: nat
  st_data :: "'p option list"
  st_sorted :: bool
  st_num_alloc :: nat
  st_comp :: "'c option"

type_synonym ('p, 'c) cmp_call = "'c \<Rightarrow> 'p option \<Rightarrow> 'p option \<Rightarrow> int"

definition kMinSize :: nat where "kMinSize = 4"

definition sk_new :: "(nat \<Rightarrow> bool) \<Rightarrow> 'c option \<Rightarrow> ('p, 'c) stack option" where
  "sk_new libc cmp =
     (if \<not> OPENSSL_malloc libc 40 then None
      else if \<not> OPENSSL_malloc libc (8 * kMinSize) then None
      else Some \<lparr>st_num = 0, st_data = replicate kMinSize None, st_sorted = False,
                 st_num_alloc = kMinSize, st_comp = cmp\<rparr>)"

definition sk_new_null :: "(nat \<Rightarrow> bool) \<Rightarrow> ('p, 'c) stack option" where
  "sk_new_null libc = sk_new libc None"

definition sk_num :: "('p, 'c) stack option \<Rightarrow> nat" where
  "sk_num sk = (case sk of None \<Rightarrow> 0 | Some s \<Rightarrow> st_num s)"

definition sk_zero :: "('p, 'c) stack option \<Rightarrow> ('p, 'c) stack option" where
  "sk_zero sk =
     (case sk of
        None \<Rightarrow> None
      | Some s \<Rightarrow>
          if st_num s = 0 then Some s
          else Some (s\<lparr>st_data := replicate (st_num s) None @ drop (st_num s) (st_data s),
                       st_num := 0, st_sorted := False\<rparr>))"

definition sk_value :: "('p, 'c) stack option \<Rightarrow> nat \<Rightarrow> 'p option" where
  "sk_value sk i =
     (case sk of None \<Rightarrow> None | Some s \<Rightarrow> if i \<ge> st_num s then None else st_data s ! i)"

definition sk_set :: "('p, 'c) stack option \<Rightarrow> nat \<Rightarrow> 'p option \<Rightarrow> 'p option \<times> ('p, 'c) stack option" where
  "sk_set sk i val =
     (case sk of
        None \<Rightarrow> (None, None)
      | Some s \<Rightarrow>
          if i \<ge> st_num s then (None, Some s)
          else (val, Some (s\<lparr>st_data := (st_data s)[i := val]\<rparr>)))"

text \<open>The elements in the order in which they are freed; the stack is gone afterwards.\<close>

definition sk_pop_free_ex :: "('p, 'c) stack option \<Rightarrow> 'p list" where
  "sk_pop_free_ex sk =
     (case sk of
        None \<Rightarrow> []
      | Some s \<Rightarrow> concat (map (\<lambda>i. case st_data s ! i of None \<Rightarrow> [] | Some p \<Rightarrow> [p]) [0..<st_num s]))"

text \<open>The new size of the array, \<open>None\<close> when it does not fit a \<open>size_t\<close>.\<close>

definition sk_grow :: "nat \<Rightarrow> (nat \<times> nat) option" where
  "sk_grow num_alloc =
     (let new_alloc = num_alloc * 2 mod 2 ^ 64;
          alloc_size = new_alloc * 8 mod 2 ^ 64;
          (new_alloc, alloc_size) =
            (if new_alloc < num_alloc \<or> alloc_size div 8 \<noteq> new_alloc then
               let new_alloc = (num_alloc + 1) mod 2 ^ 64 in (new_alloc, new_alloc * 8 mod 2 ^ 64)
             else (new_alloc, alloc_size))
      in if new_alloc < num_alloc \<or> alloc_size div 8 \<noteq> new_alloc then None
         else Some (new_alloc, alloc_size))"

definition sk_reserve :: "(nat \<Rightarrow> bool) \<Rightarrow> ('p, 'c) stack \<Rightarrow> ('p, 'c) stack option" where
  "sk_reserve libc s =
     (if st_num_alloc s \<le> st_num s + 1 then
        (case sk_grow (st_num_alloc s) of
           None \<Rightarrow> None
         | Some (new_alloc, alloc_size) \<Rightarrow>
             if \<not> OPENSSL_malloc libc alloc_size then None
             else Some (s\<lparr>st_data := st_data s @ replicate (new_alloc - st_num_alloc s) None,
                          st_num_alloc := new_alloc\<rparr>))
      else Some s)"

definition sk_insert ::
  "(nat \<Rightarrow> bool) \<Rightarrow> ('p, 'c) stack option \<Rightarrow> 'p option \<Rightarrow> nat \<Rightarrow> nat \<times> ('p, 'c) stack option" where
  "sk_insert libc sk p where' =
     (case sk of
        None \<Rightarrow> (0, None)
      | Some s0 \<Rightarrow>
          (case sk_reserve libc s0 of
             None \<Rightarrow> (0, Some s0)
           | Some s \<Rightarrow>
               let d = st_data s;
                   data =
                     (if where' \<ge> st_num s then d[st_num s := p]
                      else (take (where' + 1) d @ take (st_num s - where') (drop where' d) @ drop (st_num s + 1) d)[where' := p])
               in (st_num s + 1, Some (s\<lparr>st_data := data, st_num := st_num s + 1, st_sorted := False\<rparr>))))"

definition sk_delete :: "('p, 'c) stack option \<Rightarrow> nat \<Rightarrow> 'p option \<times> ('p, 'c) stack option" where
  "sk_delete sk where' =
     (case sk of
        None \<Rightarrow> (None, None)
      | Some s \<Rightarrow>
          if where' \<ge> st_num s then (None, Some s)
          else
            let d = st_data s;
                data =
                  (if where' \<noteq> st_num s - 1 then
                     take where' d @ take (st_num s - where' - 1) (drop (where' + 1) d) @ drop (st_num s - 1) d
                   else d)
            in (d ! where', Some (s\<lparr>st_data := data, st_num := st_num s - 1\<rparr>)))"

text \<open>\<open>for (size_t i = 0; i < sk->num; i++)\<close> over the elements, for the first that satisfies a test.\<close>

fun sk_scan :: "('p option \<Rightarrow> bool) \<Rightarrow> 'p option list \<Rightarrow> nat \<Rightarrow> nat \<Rightarrow> nat option" where
  "sk_scan t data i 0 = None"
| "sk_scan t data i (Suc k) = (if t (data ! i) then Some i else sk_scan t data (i + 1) k)"

definition sk_delete_ptr :: "('p, 'c) stack option \<Rightarrow> 'p option \<Rightarrow> 'p option \<times> ('p, 'c) stack option" where
  "sk_delete_ptr sk p =
     (case sk of
        None \<Rightarrow> (None, None)
      | Some s \<Rightarrow>
          (case sk_scan (\<lambda>q. q = p) (st_data s) 0 (st_num s) of
             None \<Rightarrow> (None, sk)
           | Some i \<Rightarrow> sk_delete sk i))"

definition sk_is_sorted :: "('p, 'c) stack option \<Rightarrow> bool" where
  "sk_is_sorted sk = (case sk of None \<Rightarrow> True | Some s \<Rightarrow> st_sorted s)"

function sk_bisect :: "('p option \<Rightarrow> int) \<Rightarrow> 'p option list \<Rightarrow> nat \<Rightarrow> nat \<Rightarrow> nat option" where
  "sk_bisect cmp data lo hi =
     (if lo < hi then
        let mid = lo + (hi - lo - 1) div 2;
            r = cmp (data ! mid)
        in if r > 0 then sk_bisect cmp data (mid + 1) hi
           else if r < 0 then sk_bisect cmp data lo mid
           else if hi - lo = 1 then Some mid
           else sk_bisect cmp data lo (mid + 1)
      else None)"
  by pat_completeness auto
termination
  by (relation "measure (\<lambda>(cmp, data, lo, hi). hi - lo)") (auto simp: less_diff_conv div_less_iff_less_mult)

declare sk_bisect.simps [simp del]

text \<open>The index of the element found, \<open>None\<close> for the return of 0.\<close>

definition sk_find :: "('p, 'c) cmp_call \<Rightarrow> ('p, 'c) stack option \<Rightarrow> 'p option \<Rightarrow> nat option" where
  "sk_find call_cmp_func sk p =
     (case sk of
        None \<Rightarrow> None
      | Some s \<Rightarrow>
          (case st_comp s of
             None \<Rightarrow> sk_scan (\<lambda>q. q = p) (st_data s) 0 (st_num s)
           | Some c \<Rightarrow>
               if p = None then None
               else if \<not> sk_is_sorted sk then
                 sk_scan (\<lambda>elem. call_cmp_func c p elem = 0) (st_data s) 0 (st_num s)
               else sk_bisect (call_cmp_func c p) (st_data s) 0 (st_num s)))"

definition sk_shift :: "('p, 'c) stack option \<Rightarrow> 'p option \<times> ('p, 'c) stack option" where
  "sk_shift sk =
     (case sk of None \<Rightarrow> (None, None)
      | Some s \<Rightarrow> if st_num s = 0 then (None, sk) else sk_delete sk 0)"

definition sk_push ::
  "(nat \<Rightarrow> bool) \<Rightarrow> ('p, 'c) stack option \<Rightarrow> 'p option \<Rightarrow> nat \<times> ('p, 'c) stack option" where
  "sk_push libc sk p = sk_insert libc sk p (sk_num sk)"

definition sk_pop :: "('p, 'c) stack option \<Rightarrow> 'p option \<times> ('p, 'c) stack option" where
  "sk_pop sk =
     (case sk of None \<Rightarrow> (None, None)
      | Some s \<Rightarrow> if st_num s = 0 then (None, sk) else sk_delete sk (st_num s - 1))"

definition sk_dup :: "(nat \<Rightarrow> bool) \<Rightarrow> ('p, 'c) stack option \<Rightarrow> ('p, 'c) stack option" where
  "sk_dup libc sk =
     (case sk of
        None \<Rightarrow> None
      | Some s \<Rightarrow>
          if \<not> OPENSSL_malloc libc 40 then None
          else if \<not> OPENSSL_malloc libc (8 * st_num_alloc s mod 2 ^ 64) then None
          else Some \<lparr>st_num = st_num s,
                     st_data = take (st_num s) (st_data s) @ replicate (st_num_alloc s - st_num s) None,
                     st_sorted = st_sorted s, st_num_alloc = st_num_alloc s, st_comp = st_comp s\<rparr>)"

definition sk_sort ::
  "(('p option \<Rightarrow> 'p option \<Rightarrow> int) \<Rightarrow> 'p option list \<Rightarrow> 'p option list) \<Rightarrow> ('p, 'c) cmp_call \<Rightarrow>
     ('p, 'c) stack option \<Rightarrow> ('p, 'c) stack option" where
  "sk_sort qsort call_cmp_func sk =
     (case sk of
        None \<Rightarrow> None
      | Some s \<Rightarrow>
          (case st_comp s of
             None \<Rightarrow> sk
           | Some c \<Rightarrow>
               if st_sorted s then sk
               else
                 let data = (if st_num s \<ge> 2 then qsort (call_cmp_func c) (take (st_num s) (st_data s)) @ drop (st_num s) (st_data s)
                             else st_data s)
                 in Some (s\<lparr>st_data := data, st_sorted := True\<rparr>)))"

definition sk_set_cmp_func :: "('p, 'c) stack \<Rightarrow> 'c option \<Rightarrow> 'c option \<times> ('p, 'c) stack" where
  "sk_set_cmp_func s cmp =
     (st_comp s, s\<lparr>st_sorted := (if st_comp s \<noteq> cmp then False else st_sorted s), st_comp := cmp\<rparr>)"

text \<open>The loop of \<open>sk_deep_copy\<close>: the copies made so far, or the copies that were freed after a failure.\<close>

fun sk_copy_loop :: "('p \<Rightarrow> 'p option) \<Rightarrow> 'p option list \<Rightarrow> nat \<Rightarrow> nat \<Rightarrow> 'p list + 'p option list" where
  "sk_copy_loop copy data i 0 = Inr data"
| "sk_copy_loop copy data i (Suc k) =
     (case data ! i of
        None \<Rightarrow> sk_copy_loop copy data (i + 1) k
      | Some p \<Rightarrow>
          (case copy p of
             None \<Rightarrow> Inl (concat (map (\<lambda>j. case data ! j of None \<Rightarrow> [] | Some q \<Rightarrow> [q]) [0..<i]))
           | Some q \<Rightarrow> sk_copy_loop copy (data[i := Some q]) (i + 1) k))"

text \<open>The copy, or \<open>None\<close>, with the elements freed.\<close>

definition sk_deep_copy ::
  "(nat \<Rightarrow> bool) \<Rightarrow> ('p, 'c) stack option \<Rightarrow> ('p \<Rightarrow> 'p option) \<Rightarrow> ('p, 'c) stack option \<times> 'p list" where
  "sk_deep_copy libc sk copy =
     (case sk_dup libc sk of
        None \<Rightarrow> (None, [])
      | Some s \<Rightarrow>
          (case sk_copy_loop copy (st_data s) 0 (st_num s) of
             Inl freed \<Rightarrow> (None, freed)
           | Inr data \<Rightarrow> (Some (s\<lparr>st_data := data\<rparr>), [])))"

section \<open>The list of the elements\<close>

definition sk_items :: "('p, 'c) stack \<Rightarrow> 'p option list" where
  "sk_items s = take (st_num s) (st_data s)"

text \<open>What every operation keeps: the array has its announced size, fits a \<open>size_t\<close>, and has room.\<close>

definition sk_wf :: "('p, 'c) stack \<Rightarrow> bool" where
  "sk_wf s \<longleftrightarrow> length (st_data s) = st_num_alloc s \<and> st_num s < st_num_alloc s \<and> 8 * st_num_alloc s < 2 ^ 64"

text \<open>A comparison function that is a total preorder.\<close>

definition comparator :: "('a \<Rightarrow> 'a \<Rightarrow> int) \<Rightarrow> bool" where
  "comparator f \<longleftrightarrow> (\<forall>a b. f a b < 0 \<longleftrightarrow> f b a > 0) \<and> (\<forall>a b c. f a b \<le> 0 \<longrightarrow> f b c \<le> 0 \<longrightarrow> f a c \<le> 0)"

definition sk_ordered :: "('p, 'c) cmp_call \<Rightarrow> ('p, 'c) stack \<Rightarrow> bool" where
  "sk_ordered call s \<longleftrightarrow>
     (st_sorted s \<longrightarrow> (\<exists>c. st_comp s = Some c \<and> sorted_wrt (\<lambda>a b. call c a b \<le> 0) (sk_items s)))"

lemma comparator_le: "comparator f \<Longrightarrow> f a b \<le> 0 \<Longrightarrow> f b c \<le> 0 \<Longrightarrow> f a c \<le> 0"
  by (auto simp: comparator_def)

lemma comparator_flip: "comparator f \<Longrightarrow> f a b < 0 \<longleftrightarrow> f b a > 0"
  by (auto simp: comparator_def)

lemma comparator_total: "comparator f \<Longrightarrow> f a b \<le> 0 \<or> f b a \<le> 0"
  using comparator_flip [of f] by (metis linorder_not_less order_less_le)

lemma length_sk_items [simp]: "sk_wf s \<Longrightarrow> length (sk_items s) = st_num s"
  by (simp add: sk_items_def sk_wf_def)

lemma sk_items_nth: "i < st_num s \<Longrightarrow> sk_items s ! i = st_data s ! i"
  by (simp add: sk_items_def)

section \<open>The operations on the list\<close>

text \<open>The larger array has twice the size, or one cell more where that would not fit a \<open>size_t\<close>.\<close>

definition sk_larger :: "nat \<Rightarrow> nat" where
  "sk_larger num_alloc = (if 16 * num_alloc < 2 ^ 64 then 2 * num_alloc else num_alloc + 1)"

lemma sk_grow_larger:
  assumes "0 < n" "8 * n < 2 ^ 64"
  shows "sk_grow n = (if 8 * sk_larger n < 2 ^ 64 then Some (sk_larger n, 8 * sk_larger n) else None)"
proof -
  have n: "n < 2305843009213693952" using assms(2) by simp
  then have m1: "n * 2 mod 18446744073709551616 = n * 2" "(n + 1) mod 18446744073709551616 = n + 1" by simp_all
  have d: "x * 8 mod 18446744073709551616 div 8 = x \<longleftrightarrow> 8 * x < 18446744073709551616" for x :: nat
  proof
    assume "x * 8 mod 18446744073709551616 div 8 = x"
    moreover have "x * 8 mod 18446744073709551616 < 18446744073709551616" by simp
    ultimately show "8 * x < 18446744073709551616" by linarith
  next
    assume "8 * x < 18446744073709551616"
    then show "x * 8 mod 18446744073709551616 div 8 = x" by simp
  qed
  show ?thesis
    using assms(1) n unfolding sk_grow_def Let_def sk_larger_def
    by (auto simp: m1 d mult.commute split: if_splits)
qed

lemma sk_grow_fits:
  "sk_grow n = Some (m, sz) \<Longrightarrow> 0 < n \<Longrightarrow> 8 * n < 2 ^ 64 \<Longrightarrow> n < m \<and> sz = 8 * m \<and> 8 * m < 2 ^ 64"
  using sk_grow_larger [of n] by (auto simp: sk_larger_def split: if_splits)

lemma sk_reserve_items:
  assumes "sk_reserve libc s = Some s'" "sk_wf s"
  shows "sk_wf s' \<and> st_num s' = st_num s \<and> sk_items s' = sk_items s \<and> st_num s' + 1 < st_num_alloc s' \<and>
    st_comp s' = st_comp s \<and> take (st_num s) (st_data s') = take (st_num s) (st_data s)"
proof (cases "st_num_alloc s \<le> st_num s + 1")
  case True
  then obtain m sz where m: "sk_grow (st_num_alloc s) = Some (m, sz)"
    and s': "s' = s\<lparr>st_data := st_data s @ replicate (m - st_num_alloc s) None, st_num_alloc := m\<rparr>"
    using assms(1) by (auto simp: sk_reserve_def split: option.splits if_splits)
  have "st_num_alloc s < m \<and> sz = 8 * m \<and> 8 * m < 2 ^ 64"
    by (rule sk_grow_fits [OF m]) (use assms(2) in \<open>simp_all add: sk_wf_def\<close>)
  then show ?thesis using assms(2) s' by (simp add: sk_wf_def sk_items_def)
next
  case False
  then show ?thesis using assms by (simp add: sk_reserve_def sk_wf_def)
qed

lemma sk_insert_items:
  assumes "sk_wf s"
  shows "sk_insert libc (Some s) p w = (0, Some s) \<or>
    (\<exists>s'. sk_insert libc (Some s) p w = (st_num s + 1, Some s') \<and> sk_wf s' \<and> \<not> st_sorted s' \<and> st_comp s' = st_comp s \<and>
      st_num s' = st_num s + 1 \<and> sk_items s' = take w (sk_items s) @ p # drop w (sk_items s))"
proof (cases "sk_reserve libc s")
  case None
  then show ?thesis by (simp add: sk_insert_def)
next
  case (Some r)
  note r = sk_reserve_items [OF Some assms]
  let ?d = "st_data r" and ?n = "st_num s"
  have len: "length ?d = st_num_alloc r" "?n + 1 < st_num_alloc r" using r by (simp_all add: sk_wf_def)
  define data where "data = (if w \<ge> ?n then ?d[?n := p]
    else (take (w + 1) ?d @ take (?n - w) (drop w ?d) @ drop (?n + 1) ?d)[w := p])"
  have i: "sk_insert libc (Some s) p w =
      (?n + 1, Some (r\<lparr>st_data := data, st_num := ?n + 1, st_sorted := False\<rparr>))"
    using Some r by (simp add: sk_insert_def Let_def data_def)
  have items: "take (?n + 1) data = take w (sk_items s) @ p # drop w (sk_items s)"
  proof (cases "w \<ge> ?n")
    case True
    then show ?thesis using len r assms by (simp add: sk_items_def take_Suc_conv_app_nth data_def)
  next
    case False
    then have x: "take (w + 1) ?d @ take (?n - w) (drop w ?d) @ drop (?n + 1) ?d =
        take w ?d @ ?d ! w # take (?n - w) (drop w ?d) @ drop (?n + 1) ?d"
      using len by (simp add: take_Suc_conv_app_nth)
    have "take (?n + 1) data = take w ?d @ p # take (?n - w) (drop w ?d)"
      unfolding data_def if_not_P [OF False] x using False len by (simp add: list_update_append Suc_diff_le)
    moreover have "take w ?d = take w (sk_items s)" "take (?n - w) (drop w ?d) = drop w (sk_items s)"
    proof -
      have "take (?n - w) (drop w ?d) = drop w (take ?n ?d)" "take w ?d = take w (take ?n ?d)"
        using False by (simp_all add: drop_take)
      then show "take w ?d = take w (sk_items s)" "take (?n - w) (drop w ?d) = drop w (sk_items s)"
        using r by (simp_all add: sk_items_def)
    qed
    ultimately show ?thesis by simp
  qed
  have l: "length data = st_num_alloc r" using len by (simp add: data_def)
  let ?s = "r\<lparr>st_data := data, st_num := ?n + 1, st_sorted := False\<rparr>"
  have "sk_wf ?s" "\<not> st_sorted ?s" "st_comp ?s = st_comp s" "st_num ?s = ?n + 1"
    using r len(2) l by (simp_all add: sk_wf_def)
  moreover have "sk_items ?s = take w (sk_items s) @ p # drop w (sk_items s)"
    unfolding items [symmetric] by (simp add: sk_items_def)
  ultimately show ?thesis using i by blast
qed

lemma sk_delete_items:
  assumes "sk_wf s" "w < st_num s"
  obtains s' where "sk_delete (Some s) w = (sk_items s ! w, Some s')" "sk_wf s'" "st_num s' = st_num s - 1"
    "st_comp s' = st_comp s" "st_sorted s' = st_sorted s"
    "sk_items s' = take w (sk_items s) @ drop (w + 1) (sk_items s)"
proof -
  let ?d = "st_data s" and ?n = "st_num s"
  have len: "length ?d = st_num_alloc s" "?n < st_num_alloc s" using assms(1) by (simp_all add: sk_wf_def)
  let ?data = "if w \<noteq> ?n - 1 then take w ?d @ take (?n - w - 1) (drop (w + 1) ?d) @ drop (?n - 1) ?d else ?d"
  have "take (?n - 1) ?data = take w (sk_items s) @ drop (w + 1) (sk_items s)"
    using assms(2) len by (auto simp: sk_items_def drop_take min_def)
  moreover have "length ?data = st_num_alloc s" using assms(2) len by auto
  moreover have "sk_delete (Some s) w = (sk_items s ! w, Some (s\<lparr>st_data := ?data, st_num := ?n - 1\<rparr>))"
    using assms(2) by (simp add: sk_delete_def Let_def sk_items_nth)
  ultimately show ?thesis using assms by (intro that [of "s\<lparr>st_data := ?data, st_num := ?n - 1\<rparr>"]) (auto simp: sk_wf_def sk_items_def)
qed

lemma sk_scan_first:
  "sk_scan t data i k = (if \<exists>j<k. t (data ! (i + j)) then Some (i + (LEAST j. t (data ! (i + j)))) else None)"
proof (induction t data i k rule: sk_scan.induct)
  case (2 t data i k)
  show ?case
  proof (cases "t (data ! i)")
    case True
    then have "(LEAST j. t (data ! (i + j))) = 0" by (intro Least_eq_0) simp
    with True show ?thesis by auto
  next
    case False
    have ex: "(\<exists>j<Suc k. t (data ! (i + j))) \<longleftrightarrow> (\<exists>j<k. t (data ! (i + 1 + j)))"
      using False by (auto simp: less_Suc_eq_0_disj)
    have "(LEAST j. t (data ! (i + j))) = Suc (LEAST j. t (data ! (i + Suc j)))" if "t (data ! (i + Suc j))" for j
      using Least_Suc [of "\<lambda>j. t (data ! (i + j))" "Suc j"] that False by simp
    then show ?thesis using 2 [OF False] False unfolding ex by auto
  qed
qed simp

text \<open>The bisection: below \<open>lo\<close> the elements are too small, and either those from \<open>hi\<close> on are too large or
  there is a match just below \<open>hi\<close>.\<close>

lemma sk_bisect_first:
  assumes "\<And>i j. i \<le> j \<Longrightarrow> j < n \<Longrightarrow> cmp (data ! i) \<le> 0 \<Longrightarrow> cmp (data ! j) \<le> 0"
    and "\<And>i j. i \<le> j \<Longrightarrow> j < n \<Longrightarrow> cmp (data ! i) < 0 \<Longrightarrow> cmp (data ! j) < 0"
  shows "lo \<le> hi \<Longrightarrow> hi \<le> n \<Longrightarrow> \<forall>i<lo. cmp (data ! i) > 0 \<Longrightarrow>
    hi < n \<longrightarrow> cmp (data ! hi) < 0 \<or> lo < hi \<and> cmp (data ! (hi - 1)) = 0 \<Longrightarrow>
    (case sk_bisect cmp data lo hi of
       Some i \<Rightarrow> i < n \<and> cmp (data ! i) = 0 \<and> (\<forall>j<i. cmp (data ! j) \<noteq> 0)
     | None \<Rightarrow> \<forall>j<n. cmp (data ! j) \<noteq> 0)"
  using assms
proof (induction cmp data lo hi rule: sk_bisect.induct)
  case (1 cmp data lo hi)
  note mono = 1(8,9)
  let ?mid = "lo + (hi - lo - 1) div 2"
  show ?case
  proof (cases "lo < hi")
    case False
    then have eq: "lo = hi" using 1(4) by simp
    have "cmp (data ! j) \<noteq> 0" if "j < n" for j
    proof (cases "j < lo")
      case True
      then show ?thesis using 1(6) by fastforce
    next
      case False
      then have "cmp (data ! hi) < 0" using 1(7) eq that by simp
      then show ?thesis using mono(2) [of hi j] False eq that by simp
    qed
    then show ?thesis using False by (subst sk_bisect.simps) simp
  next
    case True
    have m: "lo \<le> ?mid" "?mid < hi" "?mid < n" using True 1(5) by auto
    consider "cmp (data ! ?mid) > 0" | "cmp (data ! ?mid) < 0" | "cmp (data ! ?mid) = 0" "hi - lo = 1"
      | "cmp (data ! ?mid) = 0" "hi - lo \<noteq> 1" by linarith
    then show ?thesis
    proof cases
      case c: 1
      have below: "\<forall>i<?mid + 1. cmp (data ! i) > 0"
        using mono(1) [of _ ?mid] c m(3) by (metis less_Suc_eq_le Suc_eq_plus1 linorder_not_less)
      have "hi < n \<longrightarrow> cmp (data ! hi) < 0 \<or> ?mid + 1 < hi \<and> cmp (data ! (hi - 1)) = 0"
      proof (cases "cmp (data ! (hi - 1)) = 0")
      case True
      then have "?mid \<noteq> hi - 1" using c by (metis less_irrefl)
      then show ?thesis using 1(7) m True by linarith
    next
      case False
      then show ?thesis using 1(7) by blast
    qed
      then have "case sk_bisect cmp data (?mid + 1) hi of
         Some i \<Rightarrow> i < n \<and> cmp (data ! i) = 0 \<and> (\<forall>j<i. cmp (data ! j) \<noteq> 0)
       | None \<Rightarrow> \<forall>j<n. cmp (data ! j) \<noteq> 0"
        using 1(1) [OF True refl refl c] below m 1(5) mono by simp
      then show ?thesis using True c by (subst sk_bisect.simps) (simp add: Let_def)
    next
      case c: 2
      then have "case sk_bisect cmp data lo ?mid of
         Some i \<Rightarrow> i < n \<and> cmp (data ! i) = 0 \<and> (\<forall>j<i. cmp (data ! j) \<noteq> 0)
       | None \<Rightarrow> \<forall>j<n. cmp (data ! j) \<noteq> 0"
        using 1(2) [OF True refl refl] m 1(6) mono by simp
      then show ?thesis using True c by (subst sk_bisect.simps) (simp add: Let_def)
    next
      case c: 3
      then have "?mid = lo" by simp
      then have "\<forall>j<?mid. cmp (data ! j) \<noteq> 0" using 1(6) by fastforce
      then show ?thesis using True c m(3) by (subst sk_bisect.simps) (simp add: Let_def)
    next
      case c: 4
      then have m1: "?mid + 1 < hi" using True by auto
      have "case sk_bisect cmp data lo (?mid + 1) of
         Some i \<Rightarrow> i < n \<and> cmp (data ! i) = 0 \<and> (\<forall>j<i. cmp (data ! j) \<noteq> 0)
       | None \<Rightarrow> \<forall>j<n. cmp (data ! j) \<noteq> 0"
        using 1(3) [OF True refl refl _ _ c(2)] m m1 c(1) 1(5,6) mono by simp
      then show ?thesis using True c by (subst sk_bisect.simps) (simp add: Let_def)
    qed
  qed
qed

lemma sk_ordered_decreasing:
  assumes "comparator f" "sorted_wrt (\<lambda>a b. f a b \<le> 0) xs" "i \<le> j" "j < length xs"
  shows "f p (xs ! i) \<le> 0 \<Longrightarrow> f p (xs ! j) \<le> 0" "f p (xs ! i) < 0 \<Longrightarrow> f p (xs ! j) < 0"
proof -
  have "f (xs ! i) (xs ! i) \<le> 0" using comparator_total [OF assms(1)] by blast
  then have le: "f (xs ! i) (xs ! j) \<le> 0"
    using sorted_wrt_nth_less [OF assms(2), of i j] assms(3,4) by (cases "i = j") auto
  show "f p (xs ! i) \<le> 0 \<Longrightarrow> f p (xs ! j) \<le> 0" using comparator_le [OF assms(1) _ le] .
  assume lt: "f p (xs ! i) < 0"
  show "f p (xs ! j) < 0"
  proof (rule ccontr)
    assume "\<not> f p (xs ! j) < 0"
    then have "f (xs ! j) p \<le> 0" using comparator_flip [OF assms(1), of "xs ! j" p]
      comparator_flip [OF assms(1), of p "xs ! j"] by linarith
    from comparator_le [OF assms(1) le this] have "f (xs ! i) p \<le> 0" .
    then show False using lt comparator_flip [OF assms(1), of p "xs ! i"] by linarith
  qed
qed

text \<open>What \<open>sk_find\<close> looks for: the same pointer, or an element equal under the comparison function.\<close>

definition sk_match :: "('p, 'c) cmp_call \<Rightarrow> ('p, 'c) stack \<Rightarrow> 'p option \<Rightarrow> 'p option \<Rightarrow> bool" where
  "sk_match call s p q =
     (case st_comp s of None \<Rightarrow> q = p | Some c \<Rightarrow> p \<noteq> None \<and> call c p q = 0)"

text \<open>The first element of a list that satisfies a test.\<close>

definition first_match :: "('a \<Rightarrow> bool) \<Rightarrow> 'a list \<Rightarrow> nat option" where
  "first_match t xs = List.find (\<lambda>i. t (xs ! i)) [0..<length xs]"

lemma first_match_Some:
  "first_match t xs = Some i \<longleftrightarrow> i < length xs \<and> t (xs ! i) \<and> (\<forall>j<i. \<not> t (xs ! j))"
  unfolding first_match_def find_Some_iff by (auto 0 3)

lemma first_match_None: "first_match t xs = None \<longleftrightarrow> (\<forall>x \<in> set xs. \<not> t x)"
  unfolding first_match_def find_None_iff by (auto simp: all_set_conv_all_nth)

lemma first_matchI:
  assumes "case r of Some i \<Rightarrow> i < length xs \<and> t (xs ! i) \<and> (\<forall>j<i. \<not> t (xs ! j)) | None \<Rightarrow> \<forall>j<length xs. \<not> t (xs ! j)"
  shows "r = first_match t xs"
proof (cases r)
  case None
  then have "first_match t xs = None" using assms by (simp add: first_match_None all_set_conv_all_nth)
  then show ?thesis using None by simp
next
  case (Some i)
  then have "first_match t xs = Some i" using assms by (simp add: first_match_Some)
  then show ?thesis using Some by simp
qed

lemma sk_scan_first_match:
  assumes "sk_wf s"
  shows "sk_scan t (st_data s) 0 (st_num s) = first_match t (sk_items s)"
proof (rule first_matchI)
  have n: "length (sk_items s) = st_num s" using assms by simp
  show "case sk_scan t (st_data s) 0 (st_num s) of
      Some i \<Rightarrow> i < length (sk_items s) \<and> t (sk_items s ! i) \<and> (\<forall>j<i. \<not> t (sk_items s ! j))
    | None \<Rightarrow> \<forall>j<length (sk_items s). \<not> t (sk_items s ! j)"
  proof (cases "\<exists>j < st_num s. t (st_data s ! j)")
    case True
    then obtain j where j: "j < st_num s" "t (st_data s ! j)" by blast
    define L where "L = (LEAST j. t (st_data s ! j))"
    have L: "t (st_data s ! L)" "L < st_num s"
      using LeastI [of "\<lambda>j. t (st_data s ! j)", OF j(2)] Least_le [of "\<lambda>j. t (st_data s ! j)", OF j(2)] j(1)
      by (simp_all add: L_def)
    moreover have "\<not> t (sk_items s ! k)" if "k < L" for k
      using not_less_Least [of k "\<lambda>j. t (st_data s ! j)"] that L(2) by (simp add: L_def sk_items_nth)
    moreover have "sk_scan t (st_data s) 0 (st_num s) = Some L"
      using True by (simp add: sk_scan_first L_def)
    ultimately show ?thesis by (simp add: n sk_items_nth)
  next
    case False
    then have "sk_scan t (st_data s) 0 (st_num s) = None" by (simp add: sk_scan_first)
    then show ?thesis using False by (simp add: n sk_items_nth)
  qed
qed

text \<open>the search finds the first match in every well-formed stack that is ordered when its flag says so, by
  pointer without a comparison function, by a scan in an unsorted stack and by bisection in a sorted one,
  for a comparison function that is a total preorder.\<close>

theorem sk_find_first:
  assumes "sk_wf s" "sk_ordered call s" "\<forall>c. st_comp s = Some c \<longrightarrow> comparator (call c)"
  shows "sk_find call (Some s) p = first_match (sk_match call s p) (sk_items s)"
proof (cases "st_comp s")
  case None
  then have "sk_match call s p = (\<lambda>q. q = p)" by (simp add: sk_match_def fun_eq_iff)
  then show ?thesis using None sk_scan_first_match [OF assms(1)] by (simp add: sk_find_def)
next
  case (Some c)
  show ?thesis
  proof (cases "p = None")
    case True
    then have "first_match (sk_match call s p) (sk_items s) = None"
      using Some by (simp add: first_match_None sk_match_def)
    then show ?thesis using True Some by (simp add: sk_find_def)
  next
    case False
    then have m: "sk_match call s p = (\<lambda>q. call c p q = 0)" using Some by (simp add: sk_match_def fun_eq_iff)
    have n: "length (sk_items s) = st_num s" using assms(1) by simp
    show ?thesis
    proof (cases "st_sorted s")
      case sorted: True
      then have o: "sorted_wrt (\<lambda>a b. call c a b \<le> 0) (sk_items s)"
        using assms(2) Some by (auto simp: sk_ordered_def)
      have cc: "comparator (call c)" using assms(3) Some by blast
      have "case sk_bisect (call c p) (st_data s) 0 (st_num s) of
         Some i \<Rightarrow> i < st_num s \<and> call c p (st_data s ! i) = 0 \<and> (\<forall>j<i. call c p (st_data s ! j) \<noteq> 0)
       | None \<Rightarrow> \<forall>j < st_num s. call c p (st_data s ! j) \<noteq> 0"
        using sk_ordered_decreasing [OF cc o, of _ _ p]
        by (intro sk_bisect_first) (simp_all add: sk_items_nth n)
      then have "sk_bisect (call c p) (st_data s) 0 (st_num s) = first_match (\<lambda>q. call c p q = 0) (sk_items s)"
        by (intro first_matchI) (auto simp: sk_items_nth n split: option.splits)
      then show ?thesis
        unfolding sk_find_def option.case Some if_not_P [OF False] m sk_is_sorted_def using sorted by simp
    next
      case unsorted: False
      then show ?thesis
        unfolding sk_find_def option.case Some if_not_P [OF False] m sk_is_sorted_def
        using sk_scan_first_match [OF assms(1)] by simp
    qed
  qed
qed

theorem sk_find_first_witness:
  "sk_find (\<lambda>_ p q. the p - the q)
      (Some \<lparr>st_num = 4, st_data = [Some 1, Some 3, Some 3, Some 8, None], st_sorted = True,
             st_num_alloc = 5, st_comp = Some ()\<rparr>) (Some 3) = Some (1 :: nat)"
proof -
  let ?s = "\<lparr>st_num = 4, st_data = [Some 1, Some 3, Some 3, Some 8, None], st_sorted = True,
    st_num_alloc = 5, st_comp = Some ()\<rparr>"
  have "comparator (\<lambda>p q. the p - the q :: int)" by (auto simp: comparator_def)
  moreover have "sk_wf ?s" "sk_ordered (\<lambda>_ p q. the p - the q :: int) ?s"
    by (simp_all add: sk_wf_def sk_ordered_def sk_items_def)
  ultimately have "sk_find (\<lambda>_ p q. the p - the q) (Some ?s) (Some 3) =
      first_match (sk_match (\<lambda>_ p q. the p - the q) ?s (Some 3)) (sk_items ?s)"
    by (intro sk_find_first) simp_all
  then show ?thesis by (simp add: first_match_def sk_match_def sk_items_def upt_rec)
qed

section \<open>Reachable stacks\<close>

lemma sk_delete_ordered:
  assumes "sk_wf s" "sk_ordered call s" "sk_delete (Some s) w = (p, Some s')"
  shows "sk_wf s' \<and> sk_ordered call s'"
proof (cases "w < st_num s")
  case True
  obtain t where t: "sk_delete (Some s) w = (sk_items s ! w, Some t)" "sk_wf t" "st_comp t = st_comp s"
    "st_sorted t = st_sorted s" "sk_items t = take w (sk_items s) @ drop (w + 1) (sk_items s)"
    using sk_delete_items [OF assms(1) True] .
  have "sorted_wrt R (take w xs @ drop (w + 1) xs)" if "sorted_wrt R xs" for R and xs :: "'a option list"
  proof -
    have "sorted_wrt R (take w xs @ drop w xs)" using that by simp
    then show ?thesis
      using set_drop_subset_set_drop [of w "w + 1" xs] unfolding sorted_wrt_append by (auto simp: sorted_wrt_drop that)
  qed
  then show ?thesis using t assms(2,3) by (auto simp: sk_ordered_def)
next
  case False
  then show ?thesis using assms by (simp add: sk_delete_def)
qed

lemma sk_sort_ordered:
  assumes "sk_wf s" "sk_ordered call s" "sk_sort qsort call (Some s) = Some s'"
    and "qsort_sorts qsort" "\<forall>c. comparator (call c)"
  shows "sk_wf s' \<and> sk_ordered call s' \<and> mset (sk_items s') = mset (sk_items s) \<and>
    st_num s' = st_num s \<and> st_comp s' = st_comp s \<and> (st_comp s \<noteq> None \<longrightarrow> st_sorted s')"
proof (cases "st_comp s = None \<or> st_sorted s")
  case True
  then show ?thesis using assms(1-3) by (auto simp: sk_sort_def split: option.splits)
next
  case False
  then obtain c where c: "st_comp s = Some c" "\<not> st_sorted s" by auto
  let ?n = "st_num s"
  have len: "length (st_data s) = st_num_alloc s" "?n < st_num_alloc s" using assms(1) by (simp_all add: sk_wf_def)
  define q where "q = (if ?n \<ge> 2 then qsort (call c) (sk_items s) else sk_items s)"
  have "mset q = mset (sk_items s) \<and> sorted_wrt (\<lambda>a b. call c a b \<le> 0) q"
  proof (cases "?n \<ge> 2")
    case True
    have cc: "comparator (call c)" using assms(5) by blast
    show ?thesis
      using assms(4) comparator_le [OF cc] comparator_total [OF cc] unfolding qsort_sorts_def q_def if_P [OF True] by blast
  next
    case F: False
    then have "length (sk_items s) < 2" using assms(1) by simp
    then have "sorted_wrt R (sk_items s)" for R
      by (cases "sk_items s" rule: remdups_adj.cases) auto
    then show ?thesis using F by (simp add: q_def)
  qed
  then have q: "mset q = mset (sk_items s)" "sorted_wrt (\<lambda>a b. call c a b \<le> 0) q" "length q = ?n"
    using assms(1) by (simp_all add: mset_eq_length [of q "sk_items s"])
  have "s' = s\<lparr>st_data := q @ drop ?n (st_data s), st_sorted := True\<rparr>"
    using c assms(3) append_take_drop_id [of ?n "st_data s"] by (auto simp: sk_sort_def Let_def q_def sk_items_def)
  moreover have "length (q @ drop ?n (st_data s)) = st_num_alloc s" using q(3) len by simp
  ultimately show ?thesis using q len c assms(1) by (simp add: sk_wf_def sk_ordered_def sk_items_def)
qed

text \<open>The stacks that the operations of the file build, all but \<open>sk_set\<close>, which changes an element behind
  the back of the flag, and the copy of the elements, which depends on the caller's function.\<close>

inductive sk_reach ::
  "(nat \<Rightarrow> bool) \<Rightarrow> (('p option \<Rightarrow> 'p option \<Rightarrow> int) \<Rightarrow> 'p option list \<Rightarrow> 'p option list) \<Rightarrow> ('p, 'c) cmp_call \<Rightarrow>
     ('p, 'c) stack \<Rightarrow> bool"
  for libc qsort call where
  new: "sk_new libc cmp = Some s \<Longrightarrow> sk_reach libc qsort call s"
| zero: "sk_reach libc qsort call s \<Longrightarrow> sk_zero (Some s) = Some s' \<Longrightarrow> sk_reach libc qsort call s'"
| insert: "sk_reach libc qsort call s \<Longrightarrow> sk_insert libc (Some s) p w = (n, Some s') \<Longrightarrow> sk_reach libc qsort call s'"
| push: "sk_reach libc qsort call s \<Longrightarrow> sk_push libc (Some s) p = (n, Some s') \<Longrightarrow> sk_reach libc qsort call s'"
| delete: "sk_reach libc qsort call s \<Longrightarrow> sk_delete (Some s) w = (p, Some s') \<Longrightarrow> sk_reach libc qsort call s'"
| delete_ptr: "sk_reach libc qsort call s \<Longrightarrow> sk_delete_ptr (Some s) p = (r, Some s') \<Longrightarrow> sk_reach libc qsort call s'"
| shift: "sk_reach libc qsort call s \<Longrightarrow> sk_shift (Some s) = (p, Some s') \<Longrightarrow> sk_reach libc qsort call s'"
| pop: "sk_reach libc qsort call s \<Longrightarrow> sk_pop (Some s) = (p, Some s') \<Longrightarrow> sk_reach libc qsort call s'"
| dup: "sk_reach libc qsort call s \<Longrightarrow> sk_dup libc (Some s) = Some s' \<Longrightarrow> sk_reach libc qsort call s'"
| sort: "sk_reach libc qsort call s \<Longrightarrow> sk_sort qsort call (Some s) = Some s' \<Longrightarrow> sk_reach libc qsort call s'"
| set_cmp: "sk_reach libc qsort call s \<Longrightarrow> sk_set_cmp_func s cmp = (old, s') \<Longrightarrow> sk_reach libc qsort call s'"

lemma sk_insert_ordered:
  "sk_wf s \<Longrightarrow> sk_ordered call s \<Longrightarrow> sk_insert libc (Some s) p w = (n, Some s') \<Longrightarrow> sk_wf s' \<and> sk_ordered call s'"
  using sk_insert_items [of s libc p w] by (auto simp: sk_ordered_def)

lemma sk_dup_ordered:
  "sk_wf s \<Longrightarrow> sk_ordered call s \<Longrightarrow> sk_dup libc (Some s) = Some s' \<Longrightarrow>
    sk_wf s' \<and> sk_ordered call s' \<and> sk_items s' = sk_items s"
  by (auto simp: sk_dup_def sk_wf_def sk_ordered_def sk_items_def split: if_splits)

text \<open>C32: in every reachable stack the array has its announced size with a free cell, fits a \<open>size_t\<close>, and the
  elements are in order whenever the flag \<open>sorted\<close> is set.\<close>

theorem sk_reach_invariant:
  assumes "sk_reach libc qsort call s" "qsort_sorts qsort" "\<forall>c. comparator (call c)"
  shows "sk_wf s \<and> sk_ordered call s"
  using assms(1)
proof (induction rule: sk_reach.induct)
  case (new cmp s)
  then show ?case
    by (auto simp: sk_new_def kMinSize_def sk_wf_def sk_ordered_def split: if_splits)
next
  case (zero s s')
  then show ?case by (auto simp: sk_zero_def sk_wf_def sk_ordered_def split: if_splits)
next
  case (insert s p w n s')
  then show ?case using sk_insert_ordered by blast
next
  case (push s p n s')
  then show ?case using sk_insert_ordered [OF _ _ push(2) [unfolded sk_push_def]] by blast
next
  case (delete s w p s')
  then show ?case using sk_delete_ordered by blast
next
  case (delete_ptr s p r s')
  then show ?case using sk_delete_ordered [of s call] by (auto simp: sk_delete_ptr_def split: option.splits)
next
  case (shift s p s')
  then show ?case using sk_delete_ordered [of s call] by (auto simp: sk_shift_def split: if_splits)
next
  case (pop s p s')
  then show ?case using sk_delete_ordered [of s call] by (auto simp: sk_pop_def split: if_splits)
next
  case (dup s s')
  then show ?case using sk_dup_ordered by blast
next
  case (sort s s')
  then show ?case using sk_sort_ordered assms(2,3) by blast
next
  case (set_cmp s cmp old s')
  then show ?case by (auto simp: sk_set_cmp_func_def sk_wf_def sk_ordered_def sk_items_def split: if_splits)
qed

theorem sk_reach_invariant_witness:
  "\<exists>s. sk_sort sort_cmp (\<lambda>_ p q. the p - the q :: int) (snd (sk_push (\<lambda>_. True)
       (snd (sk_push (\<lambda>_. True) (sk_new (\<lambda>_. True) (Some ())) (Some 7))) (Some 2))) = Some s \<and>
     sk_items s = [Some 2, Some 7] \<and> sk_wf s \<and> sk_ordered (\<lambda>_ p q. the p - the q) s"
proof -
  let ?call = "\<lambda>_ p q. the p - the q :: int"
  let ?s0 = "\<lparr>st_num = 0, st_data = [None :: int option, None, None, None], st_sorted = False, st_num_alloc = 4, st_comp = Some ()\<rparr>"
  let ?s1 = "?s0\<lparr>st_num := 1, st_data := [Some (7 :: int), None, None, None]\<rparr>"
  let ?s2 = "?s0\<lparr>st_num := 2, st_data := [Some (7 :: int), Some 2, None, None]\<rparr>"
  let ?s3 = "?s0\<lparr>st_num := 2, st_data := [Some (2 :: int), Some 7, None, None], st_sorted := True\<rparr>"
  have n: "sk_new (\<lambda>_. True) (Some ()) = Some ?s0"
    by (simp add: sk_new_def OPENSSL_malloc_def OPENSSL_MALLOC_PREFIX_def kMinSize_def) (simp add: numeral_eq_Suc)
  have p1: "sk_push (\<lambda>_. True) (Some ?s0) (Some 7) = (1, Some ?s1)"
    by (simp add: sk_push_def sk_num_def sk_insert_def sk_reserve_def Let_def)
  have p2: "sk_push (\<lambda>_. True) (Some ?s1) (Some 2) = (2, Some ?s2)"
    by (simp add: sk_push_def sk_num_def sk_insert_def sk_reserve_def Let_def)
  have st: "sk_sort sort_cmp ?call (Some ?s2) = Some ?s3"
    by (simp add: sk_sort_def sort_cmp_def Let_def numeral_2_eq_2)
  have "sk_reach (\<lambda>_. True) sort_cmp ?call ?s3"
    using sk_reach.sort [OF sk_reach.push [OF sk_reach.push [OF sk_reach.new [OF n] p1] p2] st] .
  moreover have "comparator (?call ())" by (auto simp: comparator_def)
  ultimately have "sk_wf ?s3 \<and> sk_ordered ?call ?s3"
    using sort_cmp_sorts by (intro sk_reach_invariant) auto
  moreover have "sk_items ?s3 = [Some 2, Some 7]" by (simp add: sk_items_def numeral_2_eq_2)
  ultimately show ?thesis using n p1 p2 st by (intro exI [of _ ?s3]) simp
qed

text \<open>\<open>sk_set\<close> replaces an element and leaves the flag: a sorted stack is then searched by bisection although it
  is not in order, and an element that it holds is not found.\<close>

lemma sk_set_keeps_sorted_flag:
  "let s = \<lparr>st_num = 3, st_data = [Some 1, Some 3, Some 5, None], st_sorted = True, st_num_alloc = 4, st_comp = Some ()\<rparr>;
       s' = snd (sk_set (Some s) 0 (Some (9 :: int)))
   in sk_is_sorted s' \<and> sk_value s' 0 = Some 9 \<and> sk_find (\<lambda>_ p q. the p - the q) s' (Some 9) = None"
  by (simp add: sk_set_def sk_is_sorted_def sk_value_def sk_find_def sk_bisect.simps)

section \<open>The operations refine the list\<close>

lemma sk_pop_items:
  assumes "sk_wf s" "sk_items s \<noteq> []"
  obtains s' where "sk_pop (Some s) = (last (sk_items s), Some s')" "sk_wf s'" "sk_items s' = butlast (sk_items s)"
proof -
  have n: "length (sk_items s) = st_num s" using assms(1) by simp
  then have "st_num s - 1 < st_num s" using assms(2) by (cases "sk_items s") auto
  then obtain s' where "sk_delete (Some s) (st_num s - 1) = (sk_items s ! (st_num s - 1), Some s')" "sk_wf s'"
    "sk_items s' = take (st_num s - 1) (sk_items s) @ drop (st_num s - 1 + 1) (sk_items s)"
    using sk_delete_items [OF assms(1)] by blast
  then show ?thesis
    using assms(2) n by (intro that [of s']) (auto simp: sk_pop_def last_conv_nth butlast_conv_take)
qed

lemma sk_shift_items:
  assumes "sk_wf s" "sk_items s \<noteq> []"
  obtains s' where "sk_shift (Some s) = (hd (sk_items s), Some s')" "sk_wf s'" "sk_items s' = tl (sk_items s)"
proof -
  have "length (sk_items s) = st_num s" using assms(1) by simp
  then have "0 < st_num s" using assms(2) by (cases "sk_items s") auto
  then obtain s' where "sk_delete (Some s) 0 = (sk_items s ! 0, Some s')" "sk_wf s'"
    "sk_items s' = take 0 (sk_items s) @ drop (0 + 1) (sk_items s)"
    using sk_delete_items [OF assms(1)] by blast
  then show ?thesis
    using that assms(2) \<open>0 < st_num s\<close> by (auto simp: sk_shift_def hd_conv_nth drop_Suc)
qed

lemma remove1_first_match:
  "first_match (\<lambda>q. q = p) xs = Some i \<Longrightarrow> take i xs @ drop (i + 1) xs = remove1 p xs"
proof (induction xs arbitrary: i)
  case (Cons x xs)
  then show ?case
  proof (cases "x = p")
    case True
    then have "i = 0" using Cons.prems unfolding first_match_Some by (cases i) auto
    then show ?thesis using True by simp
  next
    case False
    then obtain j where "i = Suc j" using Cons.prems unfolding first_match_Some by (cases i) auto
    moreover have "first_match (\<lambda>q. q = p) xs = Some j"
      using Cons.prems \<open>i = Suc j\<close> unfolding first_match_Some by fastforce
    ultimately show ?thesis using Cons.IH False by simp
  qed
qed (simp add: first_match_Some)

lemma sk_delete_ptr_items:
  assumes "sk_wf s" "p \<in> set (sk_items s)"
  obtains s' where "sk_delete_ptr (Some s) p = (p, Some s')" "sk_wf s'" "sk_items s' = remove1 p (sk_items s)"
proof -
  obtain i where i: "first_match (\<lambda>q. q = p) (sk_items s) = Some i"
    using assms(2) first_match_None [of "\<lambda>q. q = p" "sk_items s"] by (cases "first_match (\<lambda>q. q = p) (sk_items s)") auto
  then have lt: "i < st_num s" "sk_items s ! i = p" using assms(1) by (auto simp: first_match_Some)
  then obtain s' where "sk_delete (Some s) i = (p, Some s')" "sk_wf s'"
    "sk_items s' = take i (sk_items s) @ drop (i + 1) (sk_items s)"
    using sk_delete_items [OF assms(1)] by blast
  then show ?thesis
    using that i remove1_first_match [OF i] sk_scan_first_match [OF assms(1)] by (simp add: sk_delete_ptr_def)
qed

text \<open>Room for one more element: a free cell besides the one that the array keeps, or memory for the larger array.\<close>

definition sk_has_room :: "(nat \<Rightarrow> bool) \<Rightarrow> ('p, 'c) stack \<Rightarrow> bool" where
  "sk_has_room libc s \<longleftrightarrow> st_num s + 1 < st_num_alloc s \<or>
     8 * sk_larger (st_num_alloc s) < 2 ^ 64 \<and> OPENSSL_malloc libc (8 * sk_larger (st_num_alloc s))"

lemma sk_insert_room:
  assumes "sk_wf s"
  shows "sk_has_room libc s \<longleftrightarrow> sk_insert libc (Some s) p w \<noteq> (0, Some s)"
proof -
  have g: "sk_grow (st_num_alloc s) = (if 8 * sk_larger (st_num_alloc s) < 2 ^ 64
      then Some (sk_larger (st_num_alloc s), 8 * sk_larger (st_num_alloc s)) else None)"
    by (rule sk_grow_larger) (use assms in \<open>auto simp: sk_wf_def\<close>)
  have "sk_has_room libc s \<longleftrightarrow> sk_reserve libc s \<noteq> None"
    by (auto simp: sk_has_room_def sk_reserve_def g)
  also have "\<dots> \<longleftrightarrow> sk_insert libc (Some s) p w \<noteq> (0, Some s)"
    by (cases "sk_reserve libc s") (simp_all add: sk_insert_def Let_def)
  finally show ?thesis .
qed

text \<open>C20: the operations of a stack are those of the list of its elements. Insertion at an index (at the end when it is
  past the end) and \<open>sk_push\<close> succeed exactly when there is room, and otherwise return \<open>0\<close> and change nothing;
  reading and replacing the element at an index, deletion at an index, removal of the last, of the
  first and of the first occurrence of a pointer do the same to the list, and return NULL and change nothing when
  there is no such element.\<close>

theorem sk_refines_list:
  assumes "sk_wf s"
  defines "xs \<equiv> sk_items s"
  shows "(if sk_has_room libc s
      then \<exists>s'. sk_insert libc (Some s) p w = (length xs + 1, Some s') \<and> sk_wf s' \<and> sk_items s' = take w xs @ p # drop w xs
      else sk_insert libc (Some s) p w = (0, Some s)) \<and>
    (if sk_has_room libc s
      then \<exists>s'. sk_push libc (Some s) p = (length xs + 1, Some s') \<and> sk_wf s' \<and> sk_items s' = xs @ [p]
      else sk_push libc (Some s) p = (0, Some s)) \<and>
    sk_num (Some s) = length xs \<and> sk_value (Some s) w = (if w < length xs then xs ! w else None) \<and>
    (if w < length xs
      then (\<exists>s'. sk_set (Some s) w p = (p, Some s') \<and> sk_wf s' \<and> sk_items s' = xs[w := p]) \<and>
        (\<exists>s'. sk_delete (Some s) w = (xs ! w, Some s') \<and> sk_wf s' \<and> sk_items s' = take w xs @ drop (w + 1) xs)
      else sk_set (Some s) w p = (None, Some s) \<and> sk_delete (Some s) w = (None, Some s)) \<and>
    (if xs \<noteq> []
      then (\<exists>s'. sk_pop (Some s) = (last xs, Some s') \<and> sk_wf s' \<and> sk_items s' = butlast xs) \<and>
        (\<exists>s'. sk_shift (Some s) = (hd xs, Some s') \<and> sk_wf s' \<and> sk_items s' = tl xs)
      else sk_pop (Some s) = (None, Some s) \<and> sk_shift (Some s) = (None, Some s)) \<and>
    (if p \<in> set xs
      then \<exists>s'. sk_delete_ptr (Some s) p = (p, Some s') \<and> sk_wf s' \<and> sk_items s' = remove1 p xs
      else sk_delete_ptr (Some s) p = (None, Some s))"
proof -
  have n: "length xs = st_num s" using assms by simp
  have ins: "if sk_has_room libc s
      then \<exists>s'. sk_insert libc (Some s) p w = (length xs + 1, Some s') \<and> sk_wf s' \<and> sk_items s' = take w xs @ p # drop w xs
      else sk_insert libc (Some s) p w = (0, Some s)" for w
    using sk_insert_items [OF assms(1), of libc p w] sk_insert_room [OF assms(1), of libc p w] n unfolding xs_def by auto
  have push: "if sk_has_room libc s
      then \<exists>s'. sk_push libc (Some s) p = (length xs + 1, Some s') \<and> sk_wf s' \<and> sk_items s' = xs @ [p]
      else sk_push libc (Some s) p = (0, Some s)"
    using ins [of "length xs"] n by (cases "sk_has_room libc s") (simp_all add: sk_push_def sk_num_def)
  have get: "sk_num (Some s) = length xs \<and> sk_value (Some s) w = (if w < length xs then xs ! w else None)"
    using n by (simp add: sk_num_def sk_value_def xs_def sk_items_def)
  have set: "\<exists>s'. sk_set (Some s) w p = (p, Some s') \<and> sk_wf s' \<and> sk_items s' = xs[w := p]" if "w < length xs"
    using that n assms(1) by (auto simp: sk_set_def sk_wf_def xs_def sk_items_def take_update_swap)
  have del: "\<exists>s'. sk_delete (Some s) w = (xs ! w, Some s') \<and> sk_wf s' \<and> sk_items s' = take w xs @ drop (w + 1) xs" if "w < length xs"
    using sk_delete_items [OF assms(1), of w] that n unfolding xs_def by metis
  have out: "sk_set (Some s) w p = (None, Some s) \<and> sk_delete (Some s) w = (None, Some s)" if "\<not> w < length xs"
    using that n by (simp add: sk_set_def sk_delete_def)
  have pop: "\<exists>s'. sk_pop (Some s) = (last xs, Some s') \<and> sk_wf s' \<and> sk_items s' = butlast xs"
    "\<exists>s'. sk_shift (Some s) = (hd xs, Some s') \<and> sk_wf s' \<and> sk_items s' = tl xs" if "xs \<noteq> []"
    using that sk_pop_items [OF assms(1)] sk_shift_items [OF assms(1)] unfolding xs_def by metis+
  have none: "sk_pop (Some s) = (None, Some s) \<and> sk_shift (Some s) = (None, Some s)" if "xs = []"
    using that n by (simp add: sk_pop_def sk_shift_def)
  have ptr: "\<exists>s'. sk_delete_ptr (Some s) p = (p, Some s') \<and> sk_wf s' \<and> sk_items s' = remove1 p xs" if "p \<in> set xs"
    using that sk_delete_ptr_items [OF assms(1), of p] unfolding xs_def by metis
  have no_ptr: "sk_delete_ptr (Some s) p = (None, Some s)" if "p \<notin> set xs"
    using that sk_scan_first_match [OF assms(1), of "\<lambda>q. q = p"] first_match_None [of "\<lambda>q. q = p" "sk_items s"]
    by (auto simp: sk_delete_ptr_def xs_def)
  show ?thesis
    using ins [of w] push get set del out pop none ptr no_ptr
    by (cases "xs = []"; cases "w < length xs"; cases "p \<in> set xs") (simp_all split del: if_split)
qed

text \<open>Four cells, three of them used: the next insertion needs a larger array.\<close>

theorem sk_refines_list_witness:
  "\<exists>s' t'. sk_insert (\<lambda>_. True) (Some \<lparr>st_num = 3, st_data = [Some 1, Some 2, Some (3 :: nat), None], st_sorted = False,
      st_num_alloc = 4, st_comp = (None :: unit option)\<rparr>) (Some 9) 1 = (4, Some s') \<and> sk_items s' = [Some 1, Some 9, Some 2, Some 3] \<and>
    sk_delete (Some \<lparr>st_num = 3, st_data = [Some 1, Some 2, Some (3 :: nat), None], st_sorted = False,
      st_num_alloc = 4, st_comp = (None :: unit option)\<rparr>) 1 = (Some 2, Some t') \<and> sk_items t' = [Some 1, Some 3]"
proof -
  let ?s = "\<lparr>st_num = 3, st_data = [Some 1, Some 2, Some (3 :: nat), None], st_sorted = False,
      st_num_alloc = 4, st_comp = (None :: unit option)\<rparr>"
  have w: "sk_wf ?s" by (simp add: sk_wf_def)
  have r: "sk_has_room (\<lambda>_. True) ?s"
    by (simp add: sk_has_room_def sk_larger_def OPENSSL_malloc_def OPENSSL_MALLOC_PREFIX_def)
  have x: "sk_items ?s = [Some 1, Some 2, Some 3]" by (simp add: sk_items_def)
  show ?thesis
    using sk_refines_list [OF w, of "\<lambda>_. True" "Some 9" 1, unfolded x] r by auto
qed

end
