(* ===== verification/Lhash.thy ===== *)
theory Lhash
  imports Mem "HOL-Library.Multiset"
begin

text \<open>
  \<open>crypto/lhash/lhash.c\<close>: the chained hash table. A bucket is the list of its chain; an item keeps the
  pointer \<open>lh_item_data\<close> and the cached hash. A pointer to a \<open>next\<close> field, as the search returns it, is a
  bucket and a position in its chain, the length of the chain standing for the final NULL. The hash and
  comparison functions of the table, called through the helpers of the caller, are the parameters \<open>hash\<close>
  and \<open>cmp\<close>; \<open>libc\<close> is the system allocator. The table of pointers has 8 bytes per bucket, an item 24.

  The locale \<open>keyed_set\<close> is the contract of the table towards its clients: a set with at most one element
  of each equivalence class, looked up, replaced and deleted by class. \<open>lh_inv\<close> is the invariant of the
  table: a chain holds the items whose cached hash, the hash of their data, falls into its bucket, no two
  items of the table are equal, and \<open>num_items\<close> counts them. Resizing, which reverses chains, keeps it.
\<close>

record 'd lhash_item =
  lh_item_data :: 'd
  lh_item_hash :: u32

record 'd lhash =
  lh_num_items :: nat
  lh_buckets :: "'d lhash_item list list"
  lh_num_buckets :: nat
  lh_callback_depth :: nat

definition kMinNumBuckets :: nat where "kMinNumBuckets = 16"
definition kMaxAverageChainLength :: nat where "kMaxAverageChainLength = 2"
definition kMinAverageChainLength :: nat where "kMinAverageChainLength = 1"

definition OPENSSL_lh_new :: "(nat \<Rightarrow> bool) \<Rightarrow> 'd lhash option" where
  "OPENSSL_lh_new libc =
     (if \<not> OPENSSL_malloc libc 48 then None
      else if \<not> OPENSSL_malloc libc (8 * kMinNumBuckets) then None
      else Some \<lparr>lh_num_items = 0, lh_buckets = replicate kMinNumBuckets [], lh_num_buckets = kMinNumBuckets,
                 lh_callback_depth = 0\<rparr>)"

definition OPENSSL_lh_num_items :: "'d lhash \<Rightarrow> nat" where
  "OPENSSL_lh_num_items lh = lh_num_items lh"

text \<open>\<open>for (cur = *ret; cur != NULL; cur = *ret)\<close>: the position of the first match, or of the final NULL.\<close>

fun chain_find :: "('d \<Rightarrow> bool) \<Rightarrow> 'd lhash_item list \<Rightarrow> nat \<Rightarrow> nat" where
  "chain_find eq [] i = i"
| "chain_find eq (cur # rest) i = (if eq (lh_item_data cur) then i else chain_find eq rest (i + 1))"

definition get_next_ptr_and_hash ::
  "('d \<Rightarrow> u32) \<Rightarrow> ('d \<Rightarrow> 'd \<Rightarrow> int) \<Rightarrow> 'd lhash \<Rightarrow> 'd \<Rightarrow> u32 \<times> nat \<times> nat" where
  "get_next_ptr_and_hash hash cmp lh data =
     (let h = hash data;
          b = unat h mod lh_num_buckets lh
      in (h, b, chain_find (\<lambda>cur. cmp cur data = 0) (lh_buckets lh ! b) 0))"

definition get_next_ptr_by_key :: "('k \<Rightarrow> 'd \<Rightarrow> int) \<Rightarrow> 'd lhash \<Rightarrow> 'k \<Rightarrow> u32 \<Rightarrow> nat \<times> nat" where
  "get_next_ptr_by_key cmp_key lh key key_hash =
     (let b = unat key_hash mod lh_num_buckets lh
      in (b, chain_find (\<lambda>cur. cmp_key key cur = 0) (lh_buckets lh ! b) 0))"

text \<open>\<open>*next_ptr\<close>.\<close>

definition lh_deref :: "'d lhash \<Rightarrow> nat \<Rightarrow> nat \<Rightarrow> 'd lhash_item option" where
  "lh_deref lh b i = (if i < length (lh_buckets lh ! b) then Some (lh_buckets lh ! b ! i) else None)"

definition OPENSSL_lh_retrieve :: "('d \<Rightarrow> u32) \<Rightarrow> ('d \<Rightarrow> 'd \<Rightarrow> int) \<Rightarrow> 'd lhash \<Rightarrow> 'd \<Rightarrow> 'd option" where
  "OPENSSL_lh_retrieve hash cmp lh data =
     (case get_next_ptr_and_hash hash cmp lh data of
        (h, b, i) \<Rightarrow> map_option lh_item_data (lh_deref lh b i))"

definition OPENSSL_lh_retrieve_key :: "('k \<Rightarrow> 'd \<Rightarrow> int) \<Rightarrow> 'd lhash \<Rightarrow> 'k \<Rightarrow> u32 \<Rightarrow> 'd option" where
  "OPENSSL_lh_retrieve_key cmp_key lh key key_hash =
     (case get_next_ptr_by_key cmp_key lh key key_hash of
        (b, i) \<Rightarrow> map_option lh_item_data (lh_deref lh b i))"

text \<open>The inner loop of \<open>lh_rebucket\<close>: each item goes to the front of its new chain.\<close>

fun rebucket_chain :: "nat \<Rightarrow> 'd lhash_item list \<Rightarrow> 'd lhash_item list list \<Rightarrow> 'd lhash_item list list" where
  "rebucket_chain n [] new_buckets = new_buckets"
| "rebucket_chain n (cur # rest) new_buckets =
     (let new_bucket = unat (lh_item_hash cur) mod n
      in rebucket_chain n rest (new_buckets[new_bucket := cur # new_buckets ! new_bucket]))"

definition lh_rebucket :: "(nat \<Rightarrow> bool) \<Rightarrow> 'd lhash \<Rightarrow> nat \<Rightarrow> 'd lhash" where
  "lh_rebucket libc lh new_num_buckets =
     (let alloc_size = 8 * new_num_buckets mod 2 ^ 64
      in if alloc_size div 8 \<noteq> new_num_buckets then lh
         else if \<not> OPENSSL_malloc libc alloc_size then lh
         else
           let new_buckets = fold (rebucket_chain new_num_buckets) (lh_buckets lh) (replicate new_num_buckets [])
           in lh\<lparr>lh_num_buckets := new_num_buckets, lh_buckets := new_buckets\<rparr>)"

definition lh_maybe_resize :: "(nat \<Rightarrow> bool) \<Rightarrow> 'd lhash \<Rightarrow> 'd lhash" where
  "lh_maybe_resize libc lh =
     (if lh_callback_depth lh > 0 then lh
      else
        let avg_chain_length = lh_num_items lh div lh_num_buckets lh
        in if avg_chain_length > kMaxAverageChainLength then
             (let new_num_buckets = lh_num_buckets lh * 2 mod 2 ^ 64
              in if new_num_buckets > lh_num_buckets lh then lh_rebucket libc lh new_num_buckets else lh)
           else if avg_chain_length < kMinAverageChainLength \<and> lh_num_buckets lh > kMinNumBuckets then
             (let new_num_buckets = lh_num_buckets lh div 2;
                  new_num_buckets = (if new_num_buckets < kMinNumBuckets then kMinNumBuckets else new_num_buckets)
              in lh_rebucket libc lh new_num_buckets)
           else lh)"

text \<open>The return value, \<open>*old_data\<close> and the table.\<close>

definition OPENSSL_lh_insert ::
  "(nat \<Rightarrow> bool) \<Rightarrow> ('d \<Rightarrow> u32) \<Rightarrow> ('d \<Rightarrow> 'd \<Rightarrow> int) \<Rightarrow> 'd lhash \<Rightarrow> 'd \<Rightarrow> bool \<times> 'd option \<times> 'd lhash" where
  "OPENSSL_lh_insert libc hash cmp lh data =
     (case get_next_ptr_and_hash hash cmp lh data of
        (h, b, i) \<Rightarrow>
          (case lh_deref lh b i of
             Some item \<Rightarrow>
               (True, Some (lh_item_data item),
                lh\<lparr>lh_buckets := (lh_buckets lh)[b := (lh_buckets lh ! b)[i := item\<lparr>lh_item_data := data\<rparr>]]\<rparr>)
           | None \<Rightarrow>
               if \<not> OPENSSL_malloc libc 24 then (False, None, lh)
               else
                 (True, None,
                  lh_maybe_resize libc
                    (lh\<lparr>lh_buckets := (lh_buckets lh)[b := lh_buckets lh ! b @ [\<lparr>lh_item_data = data, lh_item_hash = h\<rparr>]],
                        lh_num_items := lh_num_items lh + 1\<rparr>))))"

definition OPENSSL_lh_delete ::
  "(nat \<Rightarrow> bool) \<Rightarrow> ('d \<Rightarrow> u32) \<Rightarrow> ('d \<Rightarrow> 'd \<Rightarrow> int) \<Rightarrow> 'd lhash \<Rightarrow> 'd \<Rightarrow> 'd option \<times> 'd lhash" where
  "OPENSSL_lh_delete libc hash cmp lh data =
     (case get_next_ptr_and_hash hash cmp lh data of
        (h, b, i) \<Rightarrow>
          (case lh_deref lh b i of
             None \<Rightarrow> (None, lh)
           | Some item \<Rightarrow>
               (Some (lh_item_data item),
                lh_maybe_resize libc
                  (lh\<lparr>lh_buckets := (lh_buckets lh)[b := take i (lh_buckets lh ! b) @ drop (i + 1) (lh_buckets lh ! b)],
                      lh_num_items := lh_num_items lh - 1\<rparr>))))"

text \<open>The iteration, for callbacks that do not touch the table; \<open>callback_depth\<close> saturates at \<open>UINT_MAX\<close>.\<close>

definition OPENSSL_lh_doall_arg ::
  "(nat \<Rightarrow> bool) \<Rightarrow> 'd lhash option \<Rightarrow> ('d \<Rightarrow> 'a \<Rightarrow> 'a) \<Rightarrow> 'a \<Rightarrow> 'a \<times> 'd lhash option" where
  "OPENSSL_lh_doall_arg libc lh func arg =
     (case lh of
        None \<Rightarrow> (arg, None)
      | Some lh \<Rightarrow>
          let depth = (\<lambda>d. if d < 2 ^ 32 - 1 then d + 1 else d);
              lh = lh\<lparr>lh_callback_depth := depth (lh_callback_depth lh)\<rparr>;
              arg = fold (fold (\<lambda>cur. func (lh_item_data cur))) (lh_buckets lh) arg;
              lh = lh\<lparr>lh_callback_depth :=
                        (if lh_callback_depth lh < 2 ^ 32 - 1 then lh_callback_depth lh - 1 else lh_callback_depth lh)\<rparr>
          in (arg, Some (lh_maybe_resize libc lh)))"

section \<open>The contract\<close>

locale keyed_set =
  fixes inv :: "'s \<Rightarrow> bool" and items :: "'s \<Rightarrow> 'd set" and eq :: "'d \<Rightarrow> 'd \<Rightarrow> bool"
    and retrieve :: "'s \<Rightarrow> 'd \<Rightarrow> 'd option"
    and put :: "'s \<Rightarrow> 'd \<Rightarrow> bool \<times> 'd option \<times> 's"
    and remove :: "'s \<Rightarrow> 'd \<Rightarrow> 'd option \<times> 's"
  assumes retrieve_Some: "inv s \<Longrightarrow> retrieve s d = Some x \<longleftrightarrow> x \<in> items s \<and> eq x d"
    and put_ok: "inv s \<Longrightarrow> put s d = (True, old, s') \<Longrightarrow>
      inv s' \<and> items s' = insert d {x \<in> items s. \<not> eq x d} \<and> old = retrieve s d"
    and put_fail: "put s d = (False, old, s') \<Longrightarrow> s' = s"
    and remove_ok: "inv s \<Longrightarrow> remove s d = (old, s') \<Longrightarrow>
      inv s' \<and> items s' = {x \<in> items s. \<not> eq x d} \<and> old = retrieve s d"
    and eq_refl: "eq d d"
    and eq_sym: "eq d e \<Longrightarrow> eq e d"
    and eq_trans: "eq c d \<Longrightarrow> eq d e \<Longrightarrow> eq c e"
begin

lemma retrieve_None:
  assumes "inv s"
  shows "retrieve s d = None \<longleftrightarrow> (\<forall>x \<in> items s. \<not> eq x d)"
  using retrieve_Some [OF assms, of d] by (metis option.exhaust option.distinct(1))

lemma items_unique: "inv s \<Longrightarrow> x \<in> items s \<Longrightarrow> y \<in> items s \<Longrightarrow> eq x y \<Longrightarrow> x = y"
  using retrieve_Some [of s y x] retrieve_Some [of s y y] eq_refl [of y] by simp

lemma retrieve_cong:
  assumes "inv s" "inv s'" "\<And>x. x \<in> items s' \<and> eq x e \<longleftrightarrow> x \<in> items s \<and> eq x e"
  shows "retrieve s' e = retrieve s e"
proof -
  have r: "retrieve s' e = Some x \<longleftrightarrow> retrieve s e = Some x" for x
    unfolding retrieve_Some [OF assms(1)] retrieve_Some [OF assms(2)] by (rule assms(3))
  show ?thesis
  proof (cases "retrieve s e")
    case None
    have "retrieve s' e \<noteq> Some x" for x using r [of x] None by simp
    then show ?thesis unfolding None not_Some_eq [symmetric] by blast
  next
    case (Some x)
    then show ?thesis using r [of x] by simp
  qed
qed

lemma retrieve_put:
  assumes s: "inv s" and p: "put s d = (True, old, s')"
  shows "retrieve s' e = (if eq d e then Some d else retrieve s e)"
proof -
  have i: "inv s'" "items s' = insert d {x \<in> items s. \<not> eq x d}" using put_ok [OF s p] by blast+
  show ?thesis
  proof (cases "eq d e")
    case True
    then have "retrieve s' e = Some d" unfolding retrieve_Some [OF i(1)] i(2) by blast
    with True show ?thesis by simp
  next
    case False
    have "x \<in> items s' \<and> eq x e \<longleftrightarrow> x \<in> items s \<and> eq x e" for x
      unfolding i(2) using False eq_trans eq_sym by blast
    then have "retrieve s' e = retrieve s e" by (rule retrieve_cong [OF s i(1)])
    with False show ?thesis by simp
  qed
qed

lemma retrieve_remove:
  assumes s: "inv s" and p: "remove s d = (old, s')"
  shows "retrieve s' e = (if eq d e then None else retrieve s e)"
proof -
  have i: "inv s'" "items s' = {x \<in> items s. \<not> eq x d}" using remove_ok [OF s p] by blast+
  show ?thesis
  proof (cases "eq d e")
    case True
    then have "retrieve s' e = None" unfolding retrieve_None [OF i(1)] i(2) using eq_sym eq_trans by blast
    with True show ?thesis by simp
  next
    case False
    have "x \<in> items s' \<and> eq x e \<longleftrightarrow> x \<in> items s \<and> eq x e" for x
      unfolding i(2) using False eq_trans eq_sym by blast
    then have "retrieve s' e = retrieve s e" by (rule retrieve_cong [OF s i(1)])
    with False show ?thesis by simp
  qed
qed

end

section \<open>The invariant\<close>

text \<open>A hash and a comparison that fit together, as the header asks: equality is an equivalence, and equal
  elements have equal hashes.\<close>

definition hash_cmp :: "('d \<Rightarrow> u32) \<Rightarrow> ('d \<Rightarrow> 'd \<Rightarrow> int) \<Rightarrow> bool" where
  "hash_cmp hash cmp \<longleftrightarrow>
     (\<forall>a. cmp a a = 0) \<and> (\<forall>a b. cmp a b = 0 \<longrightarrow> cmp b a = 0) \<and>
     (\<forall>a b c. cmp a b = 0 \<longrightarrow> cmp b c = 0 \<longrightarrow> cmp a c = 0) \<and> (\<forall>a b. cmp a b = 0 \<longrightarrow> hash a = hash b)"

definition lh_all :: "'d lhash \<Rightarrow> 'd lhash_item list" where
  "lh_all lh = concat (lh_buckets lh)"

definition lh_items :: "'d lhash \<Rightarrow> 'd set" where
  "lh_items lh = lh_item_data ` set (lh_all lh)"

definition lh_buckets_ok :: "nat \<Rightarrow> 'd lhash_item list list \<Rightarrow> bool" where
  "lh_buckets_ok n bs \<longleftrightarrow> length bs = n \<and> (\<forall>b<n. \<forall>item \<in> set (bs ! b). unat (lh_item_hash item) mod n = b)"

definition lh_items_ok :: "('d \<Rightarrow> u32) \<Rightarrow> ('d \<Rightarrow> 'd \<Rightarrow> int) \<Rightarrow> 'd lhash_item list \<Rightarrow> bool" where
  "lh_items_ok hash cmp xs \<longleftrightarrow>
     (\<forall>x \<in> set xs. lh_item_hash x = hash (lh_item_data x)) \<and> distinct xs \<and>
     (\<forall>x \<in> set xs. \<forall>y \<in> set xs. cmp (lh_item_data x) (lh_item_data y) = 0 \<longrightarrow> x = y)"

definition lh_inv :: "('d \<Rightarrow> u32) \<Rightarrow> ('d \<Rightarrow> 'd \<Rightarrow> int) \<Rightarrow> 'd lhash \<Rightarrow> bool" where
  "lh_inv hash cmp lh \<longleftrightarrow>
     kMinNumBuckets \<le> lh_num_buckets lh \<and> lh_buckets_ok (lh_num_buckets lh) (lh_buckets lh) \<and>
     lh_items_ok hash cmp (lh_all lh) \<and> lh_num_items lh = length (lh_all lh)"

lemma lh_items_ok_mset: "mset xs = mset ys \<Longrightarrow> lh_items_ok hash cmp xs \<longleftrightarrow> lh_items_ok hash cmp ys"
  using mset_eq_setD [of xs ys] mset_eq_imp_distinct_iff [of xs ys] by (simp add: lh_items_ok_def)

lemma mset_concat_update:
  "b < length bs \<Longrightarrow> mset (concat (bs[b := c])) + mset (bs ! b) = mset (concat bs) + mset c"
proof (induction bs arbitrary: b)
  case (Cons x bs)
  then show ?case by (cases b) (simp_all add: add_ac)
qed simp

lemma chain_find_spec:
  "\<exists>k \<le> length xs. chain_find eq xs i = i + k \<and> (\<forall>j<k. \<not> eq (lh_item_data (xs ! j))) \<and>
     (k < length xs \<longrightarrow> eq (lh_item_data (xs ! k)))"
proof (induction eq xs i rule: chain_find.induct)
  case (2 eq cur rest i)
  show ?case
  proof (cases "eq (lh_item_data cur)")
    case True
    then show ?thesis by (intro exI [of _ 0]) simp
  next
    case False
    then obtain k where "k \<le> length rest" "chain_find eq rest (i + 1) = i + 1 + k"
      "\<forall>j<k. \<not> eq (lh_item_data (rest ! j))" "k < length rest \<longrightarrow> eq (lh_item_data (rest ! k))"
      using 2 by blast
    then show ?thesis using False by (intro exI [of _ "Suc k"]) (auto simp: less_Suc_eq_0_disj)
  qed
qed simp

lemma chain_find_spec0:
  assumes "i = chain_find eq xs 0"
  shows "i \<le> length xs \<and> (\<forall>j<i. \<not> eq (lh_item_data (xs ! j))) \<and> (i < length xs \<longrightarrow> eq (lh_item_data (xs ! i)))"
proof -
  obtain k where "k \<le> length xs" "chain_find eq xs 0 = 0 + k" "\<forall>j<k. \<not> eq (lh_item_data (xs ! j))"
    "k < length xs \<longrightarrow> eq (lh_item_data (xs ! k))"
    using chain_find_spec [of xs eq 0] by (elim exE conjE)
  moreover from this have "i = k" using assms by simp
  ultimately show ?thesis by simp
qed

lemma lh_bucket:
  assumes "lh_inv hash cmp lh"
  shows "unat (h :: u32) mod lh_num_buckets lh < length (lh_buckets lh)"
    "b < lh_num_buckets lh \<Longrightarrow> item \<in> set (lh_buckets lh ! b) \<Longrightarrow> item \<in> set (lh_all lh)"
    "item \<in> set (lh_all lh) \<Longrightarrow> item \<in> set (lh_buckets lh ! (unat (lh_item_hash item) mod lh_num_buckets lh))"
proof -
  have n: "0 < lh_num_buckets lh" "length (lh_buckets lh) = lh_num_buckets lh"
    and ok: "\<And>b item. b < lh_num_buckets lh \<Longrightarrow> item \<in> set (lh_buckets lh ! b) \<Longrightarrow>
      unat (lh_item_hash item) mod lh_num_buckets lh = b"
    using assms by (auto simp: lh_inv_def lh_buckets_ok_def kMinNumBuckets_def)
  show "unat h mod lh_num_buckets lh < length (lh_buckets lh)" using n by simp
  show "item \<in> set (lh_all lh)" if "b < lh_num_buckets lh" "item \<in> set (lh_buckets lh ! b)"
  proof -
    have "lh_buckets lh ! b \<in> set (lh_buckets lh)" using nth_mem [of b "lh_buckets lh"] that(1) n(2) by simp
    then show ?thesis unfolding lh_all_def set_concat using that(2) by (rule UN_I)
  qed
  show "item \<in> set (lh_buckets lh ! (unat (lh_item_hash item) mod lh_num_buckets lh))" if "item \<in> set (lh_all lh)"
  proof -
    from that [unfolded lh_all_def set_concat]
    obtain bs where bs: "bs \<in> set (lh_buckets lh)" "item \<in> set bs" by (rule UN_E)
    obtain b where "b < length (lh_buckets lh)" "lh_buckets lh ! b = bs" using bs(1) unfolding in_set_conv_nth by (elim exE conjE)
    then have b: "b < lh_num_buckets lh" "item \<in> set (lh_buckets lh ! b)" using bs(2) n(2) by simp_all
    show ?thesis unfolding ok [OF b] by (rule b(2))
  qed
qed

lemma hash_cmpD:
  assumes "hash_cmp hash cmp"
  shows "cmp a a = 0" "cmp a b = 0 \<Longrightarrow> cmp b a = 0" "cmp a b = 0 \<Longrightarrow> cmp b c = 0 \<Longrightarrow> cmp a c = 0"
    "cmp a b = 0 \<Longrightarrow> hash a = hash b"
  using assms unfolding hash_cmp_def by blast+

lemma lh_itemsD:
  assumes "lh_inv hash cmp lh" "x \<in> set (lh_all lh)"
  shows "lh_item_hash x = hash (lh_item_data x)"
    "y \<in> set (lh_all lh) \<Longrightarrow> cmp (lh_item_data x) (lh_item_data y) = 0 \<Longrightarrow> x = y"
  using assms unfolding lh_inv_def lh_items_ok_def by blast+

text \<open>The search finds the item equal to \<open>d\<close>, when there is one.\<close>

lemma lh_search:
  assumes inv: "lh_inv hash cmp lh" and g: "get_next_ptr_and_hash hash cmp lh d = (h, b, i)"
  shows "h = hash d" "b < length (lh_buckets lh)" "b = unat h mod lh_num_buckets lh"
    "i = chain_find (\<lambda>cur. cmp cur d = 0) (lh_buckets lh ! b) 0" "length (lh_buckets lh) = lh_num_buckets lh"
proof -
  show h: "h = hash d" "b = unat h mod lh_num_buckets lh"
    "i = chain_find (\<lambda>cur. cmp cur d = 0) (lh_buckets lh ! b) 0"
    using g by (auto simp: get_next_ptr_and_hash_def Let_def)
  show "b < length (lh_buckets lh)" using lh_bucket(1) [OF inv] h(2) by simp
  show "length (lh_buckets lh) = lh_num_buckets lh" using inv by (simp add: lh_inv_def lh_buckets_ok_def)
qed

lemma lh_search_Some:
  assumes inv: "lh_inv hash cmp lh" and g: "get_next_ptr_and_hash hash cmp lh d = (h, b, i)"
    and s: "lh_deref lh b i = Some item"
  shows "i < length (lh_buckets lh ! b)" "item = lh_buckets lh ! b ! i" "item \<in> set (lh_all lh)"
    "cmp (lh_item_data item) d = 0"
proof -
  show i: "i < length (lh_buckets lh ! b)" "item = lh_buckets lh ! b ! i"
    using s by (auto simp: lh_deref_def split: if_splits)
  then show "item \<in> set (lh_all lh)" using lh_bucket(2) [OF inv, of b item] lh_search [OF inv g] by simp
  show "cmp (lh_item_data item) d = 0"
    using chain_find_spec0 [OF lh_search(4) [OF inv g]] i(1) unfolding i(2) by (elim conjE) (rule mp)
qed

lemma lh_search_None:
  assumes inv: "lh_inv hash cmp lh" and hc: "hash_cmp hash cmp"
    and g: "get_next_ptr_and_hash hash cmp lh d = (h, b, i)"
    and s: "lh_deref lh b i = None" and item: "item \<in> set (lh_all lh)"
  shows "cmp (lh_item_data item) d \<noteq> 0"
proof
  assume eq: "cmp (lh_item_data item) d = 0"
  have "\<not> i < length (lh_buckets lh ! b)" using s by (simp add: lh_deref_def split: if_splits)
  then have none: "\<forall>j<length (lh_buckets lh ! b). cmp (lh_item_data (lh_buckets lh ! b ! j)) d \<noteq> 0"
    using chain_find_spec0 [OF lh_search(4) [OF inv g]] by simp
  have "lh_item_hash item = hash d" using lh_itemsD(1) [OF inv item] hash_cmpD(4) [OF hc eq] by simp
  then have "item \<in> set (lh_buckets lh ! b)" using lh_bucket(3) [OF inv item] lh_search(1,3) [OF inv g] by simp
  then obtain j where "j < length (lh_buckets lh ! b)" "lh_buckets lh ! b ! j = item"
    unfolding in_set_conv_nth by (elim exE conjE)
  then show False using none eq by blast
qed

lemma lh_retrieve_cases:
  assumes inv: "lh_inv hash cmp lh" and g: "get_next_ptr_and_hash hash cmp lh d = (h, b, i)"
  shows "OPENSSL_lh_retrieve hash cmp lh d = map_option lh_item_data (lh_deref lh b i)"
  by (simp add: OPENSSL_lh_retrieve_def g)

lemma lh_retrieve_Some:
  assumes inv: "lh_inv hash cmp lh" and hc: "hash_cmp hash cmp"
  shows "OPENSSL_lh_retrieve hash cmp lh d = Some x \<longleftrightarrow> x \<in> lh_items lh \<and> cmp x d = 0"
proof -
  obtain h b i where g: "get_next_ptr_and_hash hash cmp lh d = (h, b, i)" by (rule prod_cases3)
  show ?thesis
  proof (cases "lh_deref lh b i")
    case None
    have "\<not> (x \<in> lh_items lh \<and> cmp x d = 0)"
      using lh_search_None [OF inv hc g None] unfolding lh_items_def by blast
    then show ?thesis by (simp add: lh_retrieve_cases [OF inv g] None)
  next
    case (Some item)
    note item = lh_search_Some [OF inv g Some]
    have "y = item" if y: "y \<in> set (lh_all lh)" "cmp (lh_item_data y) d = 0" for y
      using lh_itemsD(2) [OF inv y(1) item(3)] hash_cmpD(2) [OF hc item(4)] hash_cmpD(3) [OF hc y(2)] by blast
    then have "x \<in> lh_items lh \<and> cmp x d = 0 \<longleftrightarrow> lh_item_data item = x"
      unfolding lh_items_def using item(3,4) by blast
    then show ?thesis by (simp add: lh_retrieve_cases [OF inv g] Some)
  qed
qed

section \<open>Resizing\<close>

lemma rebucket_chain_spec:
  assumes "0 < n"
  shows "lh_buckets_ok n nb \<Longrightarrow> lh_buckets_ok n (rebucket_chain n xs nb) \<and>
    mset (concat (rebucket_chain n xs nb)) = mset xs + mset (concat nb)"
proof (induction xs arbitrary: nb)
  case (Cons x xs)
  let ?b = "unat (lh_item_hash x) mod n"
  have b: "?b < length nb" using assms Cons.prems by (simp add: lh_buckets_ok_def)
  have "lh_buckets_ok n (nb[?b := x # nb ! ?b])"
    using Cons.prems b by (auto simp: lh_buckets_ok_def nth_list_update split: if_splits)
  moreover have "mset (concat (nb[?b := x # nb ! ?b])) = add_mset x (mset (concat nb))"
    using mset_concat_update [OF b, of "x # nb ! ?b"] by simp
  ultimately show ?case using Cons.IH by (simp add: Let_def)
qed simp

lemma rebucket_all_spec:
  assumes "0 < n"
  shows "lh_buckets_ok n nb \<Longrightarrow> lh_buckets_ok n (fold (rebucket_chain n) bs nb) \<and>
    mset (concat (fold (rebucket_chain n) bs nb)) = mset (concat bs) + mset (concat nb)"
proof (induction bs arbitrary: nb)
  case (Cons b bs)
  then show ?case using rebucket_chain_spec [OF assms, of nb b] by simp
qed simp

lemma lh_rebucket_inv:
  assumes "lh_inv hash cmp lh" "kMinNumBuckets \<le> n"
  shows "lh_inv hash cmp (lh_rebucket libc lh n) \<and> lh_items (lh_rebucket libc lh n) = lh_items lh"
proof -
  have n: "0 < n" using assms(2) by (simp add: kMinNumBuckets_def)
  define bs where "bs = fold (rebucket_chain n) (lh_buckets lh) (replicate n [])"
  have "lh_buckets_ok n (replicate n [])" by (simp add: lh_buckets_ok_def)
  from rebucket_all_spec [OF n this, of "lh_buckets lh"]
  have bs: "lh_buckets_ok n bs" "mset (concat bs) = mset (concat (lh_buckets lh))"
    by (simp_all add: bs_def del: mset_concat)
  have "lh_rebucket libc lh n = lh \<or> lh_rebucket libc lh n = lh\<lparr>lh_num_buckets := n, lh_buckets := bs\<rparr>"
    by (simp add: lh_rebucket_def Let_def bs_def)
  moreover have "lh_inv hash cmp (lh\<lparr>lh_num_buckets := n, lh_buckets := bs\<rparr>)"
    using assms bs lh_items_ok_mset [OF bs(2)] mset_eq_length [OF bs(2)] by (simp add: lh_inv_def lh_all_def)
  moreover have "lh_items (lh\<lparr>lh_num_buckets := n, lh_buckets := bs\<rparr>) = lh_items lh"
    using mset_eq_setD [OF bs(2)] by (simp add: lh_items_def lh_all_def)
  ultimately show ?thesis using assms(1) by metis
qed

lemma lh_maybe_resize_inv:
  assumes "lh_inv hash cmp lh"
  shows "lh_inv hash cmp (lh_maybe_resize libc lh) \<and> lh_items (lh_maybe_resize libc lh) = lh_items lh"
proof -
  have "kMinNumBuckets \<le> lh_num_buckets lh" using assms by (simp add: lh_inv_def)
  then show ?thesis
    using assms lh_rebucket_inv [OF assms] by (auto simp: lh_maybe_resize_def Let_def)
qed

section \<open>Insertion and deletion\<close>

lemma lh_update_all:
  assumes inv: "lh_inv hash cmp lh" and g: "get_next_ptr_and_hash hash cmp lh d = (h, b, i)"
  shows "mset (concat ((lh_buckets lh)[b := c])) + mset (lh_buckets lh ! b) = mset (lh_all lh) + mset c"
  using mset_concat_update [OF lh_search(2) [OF inv g]] by (simp add: lh_all_def del: mset_concat)

lemma lh_remove_all:
  assumes inv: "lh_inv hash cmp lh" and g: "get_next_ptr_and_hash hash cmp lh d = (h, b, i)"
    and s: "lh_deref lh b i = Some item"
  defines "c' \<equiv> take i (lh_buckets lh ! b) @ drop (i + 1) (lh_buckets lh ! b)"
  shows "mset (lh_all lh) = mset (item # concat ((lh_buckets lh)[b := c']))"
    "mset (concat ((lh_buckets lh)[b := (lh_buckets lh ! b)[i := new]])) = mset (new # concat ((lh_buckets lh)[b := c']))"
proof -
  note item = lh_search_Some [OF inv g s]
  have c: "mset (lh_buckets lh ! b) = add_mset item (mset c')"
    using arg_cong [OF id_take_nth_drop [OF item(1)], of mset] item(2) by (simp add: c'_def)
  have n: "mset ((lh_buckets lh ! b)[i := new]) = add_mset new (mset c')"
    using item(1) by (simp add: upd_conv_take_nth_drop c'_def)
  show all: "mset (lh_all lh) = mset (item # concat ((lh_buckets lh)[b := c']))"
    using lh_update_all [OF inv g, of c'] c by (simp del: mset_concat)
  show "mset (concat ((lh_buckets lh)[b := (lh_buckets lh ! b)[i := new]])) = mset (new # concat ((lh_buckets lh)[b := c']))"
    using lh_update_all [OF inv g, of "(lh_buckets lh ! b)[i := new]"] c n all by (simp del: mset_concat)
qed

lemma lh_insert_inv:
  assumes inv: "lh_inv hash cmp lh" and hc: "hash_cmp hash cmp"
    and p: "OPENSSL_lh_insert libc hash cmp lh d = (True, old, lh')"
  shows "lh_inv hash cmp lh' \<and> lh_items lh' = insert d {x \<in> lh_items lh. cmp x d \<noteq> 0} \<and>
    old = OPENSSL_lh_retrieve hash cmp lh d"
proof -
  obtain h b i where g: "get_next_ptr_and_hash hash cmp lh d = (h, b, i)" by (rule prod_cases3)
  note s = lh_search [OF inv g]
  show ?thesis
  proof (cases "lh_deref lh b i")
    case None
    let ?new = "\<lparr>lh_item_data = d, lh_item_hash = h\<rparr>"
    let ?bs = "(lh_buckets lh)[b := lh_buckets lh ! b @ [?new]]"
    let ?lh = "lh\<lparr>lh_buckets := ?bs, lh_num_items := lh_num_items lh + 1\<rparr>"
    have m: "mset (concat ?bs) = mset (?new # lh_all lh)" using lh_update_all [OF inv g, of "lh_buckets lh ! b @ [?new]"] by simp
    have none: "cmp (lh_item_data x) d \<noteq> 0" if "x \<in> set (lh_all lh)" for x
      using lh_search_None [OF inv hc g None that] .
    then have none': "cmp d (lh_item_data x) \<noteq> 0" if "x \<in> set (lh_all lh)" for x
      using that hash_cmpD(2) [OF hc] by blast
    have "?new \<notin> set (lh_all lh)" using none [of ?new] hash_cmpD(1) [OF hc, of d] by auto
    then have "lh_items_ok hash cmp (?new # lh_all lh)"
      using inv none none' s(1) by (auto simp: lh_items_ok_def lh_inv_def)
    then have "lh_items_ok hash cmp (concat ?bs)" using lh_items_ok_mset [OF m] by blast
    moreover have "lh_buckets_ok (lh_num_buckets lh) ?bs"
      using inv s(2,3) by (auto simp: lh_inv_def lh_buckets_ok_def nth_list_update)
    ultimately have i: "lh_inv hash cmp ?lh"
      using inv mset_eq_length [OF m] by (simp add: lh_inv_def lh_all_def)
    have "lh_items ?lh = insert d (lh_items lh)" using mset_eq_setD [OF m] by (simp add: lh_items_def lh_all_def)
    also have "lh_items lh = {x \<in> lh_items lh. cmp x d \<noteq> 0}" using none by (auto simp: lh_items_def)
    finally show ?thesis
      using p lh_maybe_resize_inv [OF i, of libc]
      by (auto simp: OPENSSL_lh_insert_def g None lh_retrieve_cases [OF inv g] split: if_splits)
  next
    case (Some item)
    note item = lh_search_Some [OF inv g Some]
    let ?new = "item\<lparr>lh_item_data := d\<rparr>" let ?c = "lh_buckets lh ! b"
    let ?bs = "(lh_buckets lh)[b := ?c[i := ?new]]"
    define rest where "rest = concat ((lh_buckets lh)[b := take i ?c @ drop (i + 1) ?c])"
    note m = lh_remove_all(1) [OF inv g Some, folded rest_def] lh_remove_all(2) [OF inv g Some, of ?new, folded rest_def]
    have ok: "lh_items_ok hash cmp (item # rest)" using inv lh_items_ok_mset [OF m(1)] by (simp add: lh_inv_def)
    then have rest: "set rest = set (lh_all lh) - {item}" "distinct rest"
      using mset_eq_setD [OF m(1)] by (auto simp: lh_items_ok_def)
    have none: "cmp (lh_item_data x) d \<noteq> 0" if "x \<in> set rest" for x
      using that rest(1) lh_itemsD(2) [OF inv _ item(3), of x] hash_cmpD(3) [OF hc, of _ d "lh_item_data item"]
        hash_cmpD(2) [OF hc item(4)] by blast
    have none': "cmp d (lh_item_data x) \<noteq> 0" if "x \<in> set rest" for x
      using none [OF that] hash_cmpD(2) [OF hc] by blast
    have h: "lh_item_hash item = hash d" using lh_itemsD(1) [OF inv item(3)] hash_cmpD(4) [OF hc item(4)] by simp
    have "?new \<notin> set rest" using none [of ?new] hash_cmpD(1) [OF hc, of d] by auto
    then have "lh_items_ok hash cmp (?new # rest)"
      using ok none none' h by (auto simp: lh_items_ok_def)
    then have ok': "lh_items_ok hash cmp (concat ?bs)" using lh_items_ok_mset [OF m(2)] by blast
    have "unat (lh_item_hash x) mod lh_num_buckets lh = b" if "x \<in> set (?c[i := ?new])" for x
    proof -
      have "x \<in> set ?c \<or> x = ?new" using that set_update_subset_insert [of ?c i ?new] by blast
      then show ?thesis using inv s h by (auto simp: lh_inv_def lh_buckets_ok_def)
    qed
    then have "lh_buckets_ok (lh_num_buckets lh) ?bs"
      using inv s(2) by (simp add: lh_inv_def lh_buckets_ok_def nth_list_update)
    moreover have "length (concat ?bs) = length (lh_all lh)"
      using mset_eq_length [OF m(1)] mset_eq_length [OF m(2)] by simp
    ultimately have i: "lh_inv hash cmp (lh\<lparr>lh_buckets := ?bs\<rparr>)" using inv ok' by (simp add: lh_inv_def lh_all_def)
    have "lh_items (lh\<lparr>lh_buckets := ?bs\<rparr>) = insert d (lh_item_data ` set rest)"
      using mset_eq_setD [OF m(2)] by (simp add: lh_items_def lh_all_def)
    also have "lh_item_data ` set rest = {x \<in> lh_items lh. cmp x d \<noteq> 0}"
      using none item(4) rest(1) by (auto simp: lh_items_def)
    finally show ?thesis using p i
      by (auto simp: OPENSSL_lh_insert_def g Some lh_retrieve_cases [OF inv g])
  qed
qed

lemma lh_delete_inv:
  assumes inv: "lh_inv hash cmp lh" and hc: "hash_cmp hash cmp"
    and p: "OPENSSL_lh_delete libc hash cmp lh d = (old, lh')"
  shows "lh_inv hash cmp lh' \<and> lh_items lh' = {x \<in> lh_items lh. cmp x d \<noteq> 0} \<and>
    old = OPENSSL_lh_retrieve hash cmp lh d"
proof -
  obtain h b i where g: "get_next_ptr_and_hash hash cmp lh d = (h, b, i)" by (rule prod_cases3)
  note s = lh_search [OF inv g]
  show ?thesis
  proof (cases "lh_deref lh b i")
    case None
    have "{x \<in> lh_items lh. cmp x d \<noteq> 0} = lh_items lh" using lh_search_None [OF inv hc g None] by (auto simp: lh_items_def)
    moreover have "old = None" "lh' = lh" using p by (simp_all add: OPENSSL_lh_delete_def g None)
    ultimately show ?thesis using inv lh_retrieve_cases [OF inv g] None by simp
  next
    case (Some item)
    note item = lh_search_Some [OF inv g Some]
    let ?c = "lh_buckets lh ! b" let ?c' = "take i ?c @ drop (i + 1) ?c"
    let ?bs = "(lh_buckets lh)[b := ?c']"
    let ?lh = "lh\<lparr>lh_buckets := ?bs, lh_num_items := lh_num_items lh - 1\<rparr>"
    note m = lh_remove_all(1) [OF inv g Some]
    have ok': "lh_items_ok hash cmp (item # concat ?bs)" using inv lh_items_ok_mset [OF m] by (simp add: lh_inv_def)
    then have ok: "lh_items_ok hash cmp (concat ?bs)" by (simp add: lh_items_ok_def del: set_concat)
    have sub: "set ?c' \<subseteq> set ?c" using set_take_subset [of i ?c] set_drop_subset [of "i + 1" ?c] by auto
    then have "lh_buckets_ok (lh_num_buckets lh) ?bs"
      using inv s(2) by (auto simp: lh_inv_def lh_buckets_ok_def nth_list_update)
    then have i: "lh_inv hash cmp ?lh" using inv ok mset_eq_length [OF m] by (simp add: lh_inv_def lh_all_def)
    have "lh_items ?lh = lh_item_data ` set (concat ?bs)" by (simp add: lh_items_def lh_all_def)
    also have "\<dots> = {x \<in> lh_items lh. cmp x d \<noteq> 0}"
    proof -
      have all: "set (lh_all lh) = insert item (set (concat ?bs))" using mset_eq_setD [OF m] by simp
      have "item \<notin> set (concat ?bs)" using ok' by (simp add: lh_items_ok_def del: set_concat)
      moreover have "cmp (lh_item_data x) d \<noteq> 0" if "x \<in> set (concat ?bs)" for x
        using that all calculation lh_itemsD(2) [OF inv _ item(3), of x]
          hash_cmpD(3) [OF hc, of _ d "lh_item_data item"] hash_cmpD(2) [OF hc item(4)] by blast
      ultimately show ?thesis unfolding lh_items_def all using item(4) by blast
    qed
    finally show ?thesis using p lh_maybe_resize_inv [OF i, of libc]
      by (auto simp: OPENSSL_lh_delete_def g Some lh_retrieve_cases [OF inv g])
  qed
qed

lemma lh_insert_fail: "OPENSSL_lh_insert libc hash cmp lh d = (False, old, lh') \<Longrightarrow> lh' = lh"
  by (auto simp: OPENSSL_lh_insert_def Let_def split: prod.splits option.splits if_splits)

lemma lh_new_inv: "OPENSSL_lh_new libc = Some lh \<Longrightarrow> lh_inv hash cmp lh \<and> lh_items lh = {}"
  by (auto simp: OPENSSL_lh_new_def lh_inv_def lh_buckets_ok_def lh_items_ok_def lh_items_def lh_all_def
      kMinNumBuckets_def split: if_splits)

lemma lh_doall_inv:
  assumes "lh_inv hash cmp lh" "OPENSSL_lh_doall_arg libc (Some lh) func arg = (arg', Some lh')"
  shows "lh_inv hash cmp lh' \<and> lh_items lh' = lh_items lh"
proof -
  obtain d where d: "lh' = lh_maybe_resize libc (lh\<lparr>lh_callback_depth := d\<rparr>)"
    using assms(2) by (auto simp: OPENSSL_lh_doall_arg_def Let_def)
  have i: "lh_inv hash cmp (lh\<lparr>lh_callback_depth := d\<rparr>)" using assms(1) by (simp add: lh_inv_def lh_all_def)
  show ?thesis using lh_maybe_resize_inv [OF i] unfolding d by (simp add: lh_items_def lh_all_def)
qed

text \<open>The table with a fitting pair of functions is a keyed set.\<close>

locale lhash_functions =
  fixes hash :: "'d \<Rightarrow> u32" and cmp :: "'d \<Rightarrow> 'd \<Rightarrow> int"
  assumes fits: "hash_cmp hash cmp"
begin

lemma num_items_card:
  assumes "lh_inv hash cmp lh"
  shows "OPENSSL_lh_num_items lh = card (lh_items lh)"
proof -
  have "inj_on lh_item_data (set (lh_all lh))"
    using lh_itemsD(2) [OF assms] hash_cmpD(1) [OF fits] by (auto intro!: inj_onI)
  then show ?thesis using assms
    by (simp add: OPENSSL_lh_num_items_def lh_inv_def lh_items_def lh_items_ok_def card_image distinct_card)
qed

end

sublocale lhash_functions \<subseteq> table: keyed_set "lh_inv hash cmp" lh_items "\<lambda>x d. cmp x d = 0"
  "OPENSSL_lh_retrieve hash cmp" "OPENSSL_lh_insert libc hash cmp" "OPENSSL_lh_delete libc hash cmp" for libc
  using fits
  by unfold_locales (rule lh_retrieve_Some lh_insert_inv lh_insert_fail lh_delete_inv; assumption | blast dest: hash_cmpD)+

section \<open>The table as a map\<close>

datatype 'd lh_op = Lh_insert 'd | Lh_delete 'd

text \<open>Each operation comes with the allocator at its time, so that memory can run out and come back at any point; the
  result of an operation is whether it succeeded and the element that it replaced or deleted.\<close>

fun lh_run ::
  "('d \<Rightarrow> u32) \<Rightarrow> ('d \<Rightarrow> 'd \<Rightarrow> int) \<Rightarrow> ((nat \<Rightarrow> bool) \<times> 'd lh_op) list \<Rightarrow> 'd lhash \<Rightarrow> (bool \<times> 'd option) list \<times> 'd lhash" where
  "lh_run hash cmp [] lh = ([], lh)"
| "lh_run hash cmp ((libc, Lh_insert d) # ops) lh =
     (case OPENSSL_lh_insert libc hash cmp lh d of
        (ok, old, lh) \<Rightarrow> (case lh_run hash cmp ops lh of (rs, lh) \<Rightarrow> ((ok, old) # rs, lh)))"
| "lh_run hash cmp ((libc, Lh_delete d) # ops) lh =
     (case OPENSSL_lh_delete libc hash cmp lh d of
        (old, lh) \<Rightarrow> (case lh_run hash cmp ops lh of (rs, lh) \<Rightarrow> ((True, old) # rs, lh)))"

text \<open>The specification: a map on the classes of \<open>cmp\<close>. An insertion fails, and changes nothing, exactly when there is
  no element to replace and no memory for a new item.\<close>

fun map_run ::
  "('d \<Rightarrow> 'd \<Rightarrow> int) \<Rightarrow> ((nat \<Rightarrow> bool) \<times> 'd lh_op) list \<Rightarrow> ('d \<Rightarrow> 'd option) \<Rightarrow> (bool \<times> 'd option) list \<times> ('d \<Rightarrow> 'd option)" where
  "map_run cmp [] m = ([], m)"
| "map_run cmp ((libc, Lh_insert d) # ops) m =
     (if m d \<noteq> None \<or> OPENSSL_malloc libc 24
      then (case map_run cmp ops (\<lambda>e. if cmp d e = 0 then Some d else m e) of (rs, m') \<Rightarrow> ((True, m d) # rs, m'))
      else (case map_run cmp ops m of (rs, m') \<Rightarrow> ((False, None) # rs, m')))"
| "map_run cmp ((libc, Lh_delete d) # ops) m =
     (case map_run cmp ops (\<lambda>e. if cmp d e = 0 then None else m e) of (rs, m') \<Rightarrow> ((True, m d) # rs, m'))"

lemma lh_insert_succeeds:
  "OPENSSL_lh_insert libc hash cmp lh d = (ok, old, lh') \<Longrightarrow>
    ok \<longleftrightarrow> OPENSSL_lh_retrieve hash cmp lh d \<noteq> None \<or> OPENSSL_malloc libc 24"
  by (auto simp: OPENSSL_lh_insert_def OPENSSL_lh_retrieve_def split: prod.splits option.splits if_splits)

lemma lh_insert_alloc:
  assumes "OPENSSL_malloc libc 24" "OPENSSL_lh_insert libc hash cmp lh d = (ok, old, lh')"
  shows ok
  using lh_insert_succeeds [OF assms(2)] assms(1) by simp

lemma lh_insert_fail_old: "OPENSSL_lh_insert libc hash cmp lh d = (False, old, lh') \<Longrightarrow> old = None"
  by (auto simp: OPENSSL_lh_insert_def Let_def split: prod.splits option.splits if_splits)

context lhash_functions begin

lemma run_refines:
  "lh_inv hash cmp lh \<Longrightarrow> lh_run hash cmp ops lh = (rs, lh') \<Longrightarrow>
    lh_inv hash cmp lh' \<and> map_run cmp ops (OPENSSL_lh_retrieve hash cmp lh) = (rs, OPENSSL_lh_retrieve hash cmp lh')"
proof (induction ops arbitrary: lh rs)
  case (Cons x ops)
  obtain libc op where x: "x = (libc, op)" by (rule prod.exhaust)
  show ?case
  proof (cases op)
    case (Lh_insert d)
    obtain ok old s where p: "OPENSSL_lh_insert libc hash cmp lh d = (ok, old, s)" by (rule prod_cases3)
    obtain rs' where r: "lh_run hash cmp ops s = (rs', lh')" "rs = (ok, old) # rs'"
      using Cons.prems(2) by (auto simp: x Lh_insert p split: prod.splits)
    note ok = lh_insert_succeeds [OF p]
    show ?thesis
    proof (cases ok)
      case True
      have p': "OPENSSL_lh_insert libc hash cmp lh d = (True, old, s)" using p True by simp
      have s: "lh_inv hash cmp s" "old = OPENSSL_lh_retrieve hash cmp lh d" using table.put_ok [OF Cons.prems(1) p'] by blast+
      have "OPENSSL_lh_retrieve hash cmp s = (\<lambda>e. if cmp d e = 0 then Some d else OPENSSL_lh_retrieve hash cmp lh e)"
        using table.retrieve_put [OF Cons.prems(1) p'] by (rule ext)
      then show ?thesis using Cons.IH [OF s(1) r(1)] s(2) ok True by (simp add: x Lh_insert r(2))
    next
      case False
      have p': "OPENSSL_lh_insert libc hash cmp lh d = (False, old, s)" using p False by simp
      have "s = lh" "old = None" using lh_insert_fail [OF p'] lh_insert_fail_old [OF p'] by simp_all
      then show ?thesis using Cons.IH [OF Cons.prems(1), of rs'] r ok False by (simp add: x Lh_insert)
    qed
  next
    case (Lh_delete d)
    obtain old s where p: "OPENSSL_lh_delete libc hash cmp lh d = (old, s)" by (rule prod.exhaust)
    obtain rs' where r: "lh_run hash cmp ops s = (rs', lh')" "rs = (True, old) # rs'"
      using Cons.prems(2) by (auto simp: x Lh_delete p split: prod.splits)
    have s: "lh_inv hash cmp s" "old = OPENSSL_lh_retrieve hash cmp lh d" using table.remove_ok [OF Cons.prems(1) p] by blast+
    have "OPENSSL_lh_retrieve hash cmp s = (\<lambda>e. if cmp d e = 0 then None else OPENSSL_lh_retrieve hash cmp lh e)"
      using table.retrieve_remove [OF Cons.prems(1) p] by (rule ext)
    then show ?thesis using Cons.IH [OF s(1) r(1)] s(2) by (simp add: x Lh_delete r(2))
  qed
qed simp

end

text \<open>C19: a table answers like a map, under any sequence of insertions and deletions, each with an allocator of its
  own, so that the item or the larger table of any of them may be refused. Each call returns what the map held for the
  class of its argument; an insertion fails exactly when it replaces nothing and there is no memory for the
  item, and then the table, empty or not, holds what it held before; each look-up at the end finds the element
  inserted last, and the element count is the number of elements.\<close>

theorem lhash_refines_map:
  assumes "hash_cmp hash cmp" and "OPENSSL_lh_new libc = Some lh0"
    and "lh_run hash cmp ops lh0 = (rs, lh)"
  shows "map_run cmp ops (\<lambda>_. None) = (rs, OPENSSL_lh_retrieve hash cmp lh) \<and>
    OPENSSL_lh_num_items lh = card (lh_items lh)"
proof -
  have t: "lhash_functions hash cmp" using assms(1) by unfold_locales
  have i: "lh_inv hash cmp lh0" "lh_items lh0 = {}" using lh_new_inv [OF assms(2), of hash cmp] by blast+
  have "OPENSSL_lh_retrieve hash cmp lh0 e \<noteq> Some x" for e x
    using lh_retrieve_Some [OF i(1) assms(1), of e x] i(2) by simp
  then have "OPENSSL_lh_retrieve hash cmp lh0 e = None" for e by (simp add: not_Some_eq [symmetric])
  then have "OPENSSL_lh_retrieve hash cmp lh0 = (\<lambda>_. None)" by (rule ext)
  then show ?thesis
    using lhash_functions.run_refines [OF t i(1) assms(3)] lhash_functions.num_items_card [OF t, of lh] by simp
qed

text \<open>Numbers with the same low byte are equal. After two insertions memory runs out: \<open>0x101\<close> still replaces \<open>1\<close>, but
  \<open>3\<close> is refused and nothing is lost.\<close>

theorem lhash_refines_map_witness:
  "\<exists>lh0 rs lh. OPENSSL_lh_new (\<lambda>_. True) = Some lh0 \<and>
     lh_run (\<lambda>k :: u32. k AND 0xff) (\<lambda>a b. if a AND 0xff = b AND 0xff then 0 else 1)
       [(\<lambda>_. True, Lh_insert 1), (\<lambda>_. True, Lh_insert 2), (\<lambda>_. False, Lh_insert 0x101), (\<lambda>_. False, Lh_insert 3),
        (\<lambda>_. False, Lh_delete 0x202)] lh0 = (rs, lh) \<and>
     OPENSSL_lh_retrieve (\<lambda>k :: u32. k AND 0xff) (\<lambda>a b. if a AND 0xff = b AND 0xff then 0 else 1) lh 1 = Some 0x101 \<and>
     rs = [(True, None), (True, None), (True, Some 1), (False, None), (True, Some 2)]"
proof -
  define cmp :: "u32 \<Rightarrow> u32 \<Rightarrow> int" where "cmp = (\<lambda>a b. if a AND 0xff = b AND 0xff then 0 else 1)"
  define ops :: "((nat \<Rightarrow> bool) \<times> u32 lh_op) list" where
    "ops = [(\<lambda>_. True, Lh_insert 1), (\<lambda>_. True, Lh_insert 2), (\<lambda>_. False, Lh_insert 0x101), (\<lambda>_. False, Lh_insert 3),
      (\<lambda>_. False, Lh_delete 0x202)]"
  have hc: "hash_cmp (\<lambda>k :: u32. k AND 0xff) cmp" by (auto simp: hash_cmp_def cmp_def)
  obtain lh0 :: "u32 lhash" where n: "OPENSSL_lh_new (\<lambda>_. True) = Some lh0" 
    by (simp add: OPENSSL_lh_new_def OPENSSL_malloc_def OPENSSL_MALLOC_PREFIX_def kMinNumBuckets_def)
  obtain rs lh where r: "lh_run (\<lambda>k :: u32. k AND 0xff) cmp ops lh0 = (rs, lh)" by (rule prod.exhaust)
  have m: "map_run cmp ops (\<lambda>_. None) = (rs, OPENSSL_lh_retrieve (\<lambda>k :: u32. k AND 0xff) cmp lh)"
    using lhash_refines_map [OF hc n r] by (rule conjunct1)
  have c: "rs = [(True, None), (True, None), (True, Some 1), (False, None), (True, Some 2)]"
    "OPENSSL_lh_retrieve (\<lambda>k :: u32. k AND 0xff) cmp lh 1 = Some 0x101"
    using arg_cong [OF m, of fst] arg_cong [OF m, of "\<lambda>p. snd p 1"]
    by (simp_all add: ops_def cmp_def OPENSSL_malloc_def OPENSSL_MALLOC_PREFIX_def)
  show ?thesis by (intro exI conjI) (rule n r [unfolded cmp_def ops_def] c(2) [unfolded cmp_def] c(1))+
qed

end
