(* ===== verification/Pool.thy ===== *)
theory Pool
  imports Lhash
begin

text \<open>
  \<open>crypto/pool/pool.c\<close> and \<open>crypto/refcount_lock.c\<close>: reference-counted immutable buffers, and the pool that
  shares equal ones between its users.

  A buffer lives at an address of \<open>pool_heap\<close>; address 0 is that of the variable \<open>tmp\<close> on the stack of
  \<open>crypto_buffer_new\<close>. Freed objects leave the heap, so a dangling pointer is an address the heap does not
  map. The table \<open>pool_bufs\<close> holds addresses, and its hash and comparison read the heap. \<open>buf_pool\<close> says
  whether \<open>buf->pool\<close> is the pool or NULL. The address of a new object, chosen by the allocator, is a
  parameter, and \<open>libc\<close> says which allocations succeed.

  \<open>crypto_buffer_new\<close> takes the lock of the pool twice. Each locked section is one step, as is the
  allocation between them, so that the steps of other threads can fall in between: \<open>pool_step\<close> is the
  transition relation of any number of threads that share the pool. Its state adds to the heap and the
  table the multiset of the references callers hold and the buffers made but not yet inserted.

  The lemmas show that the count of a buffer is the number of references held, unless it is saturated; that
  the table lists live buffers only; and that no pointer in use is dangling.
\<close>

section \<open>Reference counts\<close>

definition CRYPTO_REFCOUNT_MAX :: u32 where "CRYPTO_REFCOUNT_MAX = 0xffffffff"

definition CRYPTO_refcount_inc :: "u32 \<Rightarrow> u32" where
  "CRYPTO_refcount_inc n = (if n < CRYPTO_REFCOUNT_MAX then n + 1 else n)"

text \<open>None is \<open>abort\<close>.\<close>

definition CRYPTO_refcount_dec_and_test_zero :: "u32 \<Rightarrow> (bool \<times> u32) option" where
  "CRYPTO_refcount_dec_and_test_zero n =
     (if n = 0 then None
      else let n = (if n < CRYPTO_REFCOUNT_MAX then n - 1 else n) in Some (n = 0, n))"

section \<open>Buffers\<close>

record crypto_buffer =
  buf_pool :: bool
  buf_data :: bytes
  buf_references :: u32
  buf_data_is_static :: bool

type_synonym buffer_heap = "nat \<rightharpoonup> crypto_buffer"

record buffer_pool =
  pool_heap :: buffer_heap
  pool_bufs :: "nat lhash"

definition buf_bytes :: "buffer_heap \<Rightarrow> nat \<Rightarrow> bytes" where
  "buf_bytes h p = (case h p of Some b \<Rightarrow> buf_data b | None \<Rightarrow> [])"

definition CRYPTO_BUFFER_hash :: "(nat \<Rightarrow> bytes) \<Rightarrow> nat \<Rightarrow> u32" where
  "CRYPTO_BUFFER_hash mem buf = OPENSSL_hash32 (mem buf)"

definition CRYPTO_BUFFER_cmp :: "(nat \<Rightarrow> bytes) \<Rightarrow> nat \<Rightarrow> nat \<Rightarrow> int" where
  "CRYPTO_BUFFER_cmp mem a b = (if length (mem a) \<noteq> length (mem b) then 1 else mem_cmp (mem a) (mem b))"

text \<open>The size of the pool object depends on the lock of the platform.\<close>

definition CRYPTO_BUFFER_POOL_new :: "(nat \<Rightarrow> bool) \<Rightarrow> nat \<Rightarrow> buffer_heap \<Rightarrow> buffer_pool option" where
  "CRYPTO_BUFFER_POOL_new libc sizeof_pool h =
     (if \<not> OPENSSL_malloc libc sizeof_pool then None
      else case OPENSSL_lh_new libc of
        None \<Rightarrow> None
      | Some bufs \<Rightarrow> Some \<lparr>pool_heap = h, pool_bufs = bufs\<rparr>)"

definition refs_inc :: "nat \<Rightarrow> buffer_pool \<Rightarrow> buffer_pool" where
  "refs_inc p s = s\<lparr>pool_heap := (pool_heap s)(p := map_option
     (\<lambda>b. b\<lparr>buf_references := CRYPTO_refcount_inc (buf_references b)\<rparr>) (pool_heap s p))\<rparr>"

definition is_static :: "buffer_heap \<Rightarrow> nat \<Rightarrow> bool" where
  "is_static h p = (case h p of Some b \<Rightarrow> buf_data_is_static b | None \<Rightarrow> False)"

text \<open>The look-up both locked sections make: a duplicate that does not have static data is ignored when
  the new buffer has.\<close>

definition find_duplicate :: "(nat \<Rightarrow> bytes) \<Rightarrow> buffer_pool \<Rightarrow> bool \<Rightarrow> nat \<Rightarrow> nat option" where
  "find_duplicate mem s data_is_static buf =
     (case OPENSSL_lh_retrieve (CRYPTO_BUFFER_hash mem) (CRYPTO_BUFFER_cmp mem) (pool_bufs s) buf of
        None \<Rightarrow> None
      | Some duplicate \<Rightarrow>
          if data_is_static \<and> \<not> is_static (pool_heap s) duplicate then None else Some duplicate)"

text \<open>The section under the read lock.\<close>

definition buffer_new_find :: "bytes \<Rightarrow> bool \<Rightarrow> buffer_pool \<Rightarrow> nat option \<times> buffer_pool" where
  "buffer_new_find data data_is_static s =
     (let mem = (buf_bytes (pool_heap s))(0 := data)
      in case find_duplicate mem s data_is_static 0 of
           None \<Rightarrow> (None, s)
         | Some duplicate \<Rightarrow> (Some duplicate, refs_inc duplicate s))"

text \<open>The allocation; \<open>sizeof(CRYPTO_BUFFER)\<close> is 32.\<close>

definition buffer_new_alloc ::
  "(nat \<Rightarrow> bool) \<Rightarrow> nat \<Rightarrow> bytes \<Rightarrow> bool \<Rightarrow> bool \<Rightarrow> buffer_pool \<Rightarrow> buffer_pool option" where
  "buffer_new_alloc libc p data data_is_static pool s =
     (if \<not> OPENSSL_malloc libc 32 then None
      else
        let buf = \<lparr>buf_pool = pool, buf_data = data, buf_references = 1, buf_data_is_static = data_is_static\<rparr>
        in if data_is_static then Some (s\<lparr>pool_heap := (pool_heap s)(p \<mapsto> buf)\<rparr>)
           else if length data \<noteq> 0 \<and> OPENSSL_memdup libc data = None then None
           else Some (s\<lparr>pool_heap := (pool_heap s)(p \<mapsto> buf)\<rparr>))"

definition crypto_buffer_free_object :: "nat \<Rightarrow> buffer_pool \<Rightarrow> buffer_pool" where
  "crypto_buffer_free_object p s = s\<lparr>pool_heap := (pool_heap s)(p := None)\<rparr>"

text \<open>The section under the write lock, and the release of the buffer when it was not inserted.\<close>

definition buffer_new_insert :: "(nat \<Rightarrow> bool) \<Rightarrow> bool \<Rightarrow> nat \<Rightarrow> buffer_pool \<Rightarrow> nat option \<times> buffer_pool" where
  "buffer_new_insert libc data_is_static buf s =
     (let mem = buf_bytes (pool_heap s)
      in case find_duplicate mem s data_is_static buf of
           None \<Rightarrow>
             (case OPENSSL_lh_insert libc (CRYPTO_BUFFER_hash mem) (CRYPTO_BUFFER_cmp mem) (pool_bufs s) buf of
                (inserted, old, bufs) \<Rightarrow>
                  if inserted then (Some buf, s\<lparr>pool_bufs := bufs\<rparr>)
                  else (None, crypto_buffer_free_object buf (s\<lparr>pool_bufs := bufs\<rparr>)))
         | Some duplicate \<Rightarrow> (Some duplicate, crypto_buffer_free_object buf (refs_inc duplicate s)))"

definition crypto_buffer_new ::
  "(nat \<Rightarrow> bool) \<Rightarrow> nat \<Rightarrow> bytes \<Rightarrow> bool \<Rightarrow> bool \<Rightarrow> buffer_pool \<Rightarrow> nat option \<times> buffer_pool" where
  "crypto_buffer_new libc p data data_is_static pool s =
     (case (if pool then buffer_new_find data data_is_static s else (None, s)) of
        (Some duplicate, s) \<Rightarrow> (Some duplicate, s)
      | (None, s) \<Rightarrow>
          (case buffer_new_alloc libc p data data_is_static pool s of
             None \<Rightarrow> (None, s)
           | Some s \<Rightarrow> if \<not> pool then (Some p, s) else buffer_new_insert libc data_is_static p s))"

definition CRYPTO_BUFFER_new :: "(nat \<Rightarrow> bool) \<Rightarrow> nat \<Rightarrow> bytes \<Rightarrow> bool \<Rightarrow> buffer_pool \<Rightarrow> nat option \<times> buffer_pool" where
  "CRYPTO_BUFFER_new libc p data pool s = crypto_buffer_new libc p data False pool s"

definition CRYPTO_BUFFER_new_from_static_data_unsafe ::
  "(nat \<Rightarrow> bool) \<Rightarrow> nat \<Rightarrow> bytes \<Rightarrow> bool \<Rightarrow> buffer_pool \<Rightarrow> nat option \<times> buffer_pool" where
  "CRYPTO_BUFFER_new_from_static_data_unsafe libc p data pool s = crypto_buffer_new libc p data True pool s"

text \<open>The contents of the new memory are \<open>junk\<close>.\<close>

definition CRYPTO_BUFFER_alloc :: "(nat \<Rightarrow> bool) \<Rightarrow> nat \<Rightarrow> bytes \<Rightarrow> buffer_pool \<Rightarrow> nat option \<times> buffer_pool" where
  "CRYPTO_BUFFER_alloc libc p junk s =
     (if \<not> OPENSSL_malloc libc 32 then (None, s)
      else if length junk \<noteq> 0 \<and> \<not> OPENSSL_malloc libc (length junk) then (None, s)
      else (Some p, s\<lparr>pool_heap := (pool_heap s)
              (p \<mapsto> \<lparr>buf_pool = False, buf_data = junk, buf_references = 1, buf_data_is_static = False\<rparr>)\<rparr>))"

text \<open>None is the use of a dangling pointer, or \<open>abort\<close>.\<close>

definition CRYPTO_BUFFER_free :: "(nat \<Rightarrow> bool) \<Rightarrow> nat \<Rightarrow> buffer_pool \<Rightarrow> buffer_pool option" where
  "CRYPTO_BUFFER_free libc p s =
     (case pool_heap s p of
        None \<Rightarrow> None
      | Some buf \<Rightarrow>
          (case CRYPTO_refcount_dec_and_test_zero (buf_references buf) of
             None \<Rightarrow> None
           | Some (zero, refs) \<Rightarrow>
               let s = s\<lparr>pool_heap := (pool_heap s)(p \<mapsto> buf\<lparr>buf_references := refs\<rparr>)\<rparr>;
                   mem = buf_bytes (pool_heap s)
               in if \<not> zero then Some s
                  else if \<not> buf_pool buf then Some (crypto_buffer_free_object p s)
                  else
                    let found = OPENSSL_lh_retrieve (CRYPTO_BUFFER_hash mem) (CRYPTO_BUFFER_cmp mem) (pool_bufs s) p;
                        s = (if found = Some p then
                               s\<lparr>pool_bufs := snd (OPENSSL_lh_delete libc (CRYPTO_BUFFER_hash mem)
                                                     (CRYPTO_BUFFER_cmp mem) (pool_bufs s) p)\<rparr>
                             else s)
                    in Some (crypto_buffer_free_object p s)))"

definition CRYPTO_BUFFER_up_ref :: "nat \<Rightarrow> buffer_pool \<Rightarrow> buffer_pool option" where
  "CRYPTO_BUFFER_up_ref p s = (if pool_heap s p = None then None else Some (refs_inc p s))"

definition CRYPTO_BUFFER_data :: "nat \<Rightarrow> buffer_pool \<Rightarrow> bytes option" where
  "CRYPTO_BUFFER_data p s = map_option buf_data (pool_heap s p)"

definition CRYPTO_BUFFER_len :: "nat \<Rightarrow> buffer_pool \<Rightarrow> nat option" where
  "CRYPTO_BUFFER_len p s = map_option (\<lambda>b. length (buf_data b)) (pool_heap s p)"

section \<open>Threads\<close>

text \<open>The state: the pool, the references held by callers, and the buffers between their allocation and the
  second locked section.\<close>

type_synonym pool_world = "buffer_pool \<times> nat multiset \<times> nat set"

inductive pool_step :: "pool_world \<Rightarrow> pool_world \<Rightarrow> bool" where
  find: "buffer_new_find data data_is_static s = (Some p, s') \<Longrightarrow> pool_step (s, H, N) (s', add_mset p H, N)"
| alloc: "buffer_new_alloc libc p data data_is_static pool s = Some s' \<Longrightarrow> p \<noteq> 0 \<Longrightarrow> pool_heap s p = None \<Longrightarrow>
    pool_step (s, H, N) (if pool then (s', H, insert p N) else (s', add_mset p H, N))"
| insert: "p \<in> N \<Longrightarrow> buffer_new_insert libc (is_static (pool_heap s) p) p s = (r, s') \<Longrightarrow>
    pool_step (s, H, N) (s', (case r of None \<Rightarrow> H | Some q \<Rightarrow> add_mset q H), N - {p})"
| buffer_alloc: "CRYPTO_BUFFER_alloc libc p junk s = (Some p, s') \<Longrightarrow> p \<noteq> 0 \<Longrightarrow> pool_heap s p = None \<Longrightarrow>
    pool_step (s, H, N) (s', add_mset p H, N)"
| fill: "p \<in># H \<Longrightarrow> pool_heap s p = Some b \<Longrightarrow> \<not> buf_pool b \<Longrightarrow> length data = length (buf_data b) \<Longrightarrow>
    pool_step (s, H, N) (s\<lparr>pool_heap := (pool_heap s)(p \<mapsto> b\<lparr>buf_data := data\<rparr>)\<rparr>, H, N)"
| free: "p \<in># H \<Longrightarrow> CRYPTO_BUFFER_free libc p s = Some s' \<Longrightarrow> pool_step (s, H, N) (s', H - {#p#}, N)"
| up_ref: "p \<in># H \<Longrightarrow> CRYPTO_BUFFER_up_ref p s = Some s' \<Longrightarrow> pool_step (s, H, N) (s', add_mset p H, N)"

inductive pool_reach :: "pool_world \<Rightarrow> bool" where
  start: "CRYPTO_BUFFER_POOL_new libc sizeof_pool Map.empty = Some s \<Longrightarrow> pool_reach (s, {#}, {})"
| step: "pool_reach w \<Longrightarrow> pool_step w w' \<Longrightarrow> pool_reach w'"

section \<open>The invariant\<close>

definition refs_ok :: "u32 \<Rightarrow> nat \<Rightarrow> bool" where
  "refs_ok r n \<longleftrightarrow> r \<noteq> 0 \<and> (r = CRYPTO_REFCOUNT_MAX \<or> unat r = n)"

definition pool_table :: "buffer_pool \<Rightarrow> nat set" where
  "pool_table s = lh_items (pool_bufs s)"

definition pool_inv :: "buffer_pool \<Rightarrow> nat multiset \<Rightarrow> nat set \<Rightarrow> bool" where
  "pool_inv s H N \<longleftrightarrow>
     lh_inv (CRYPTO_BUFFER_hash (buf_bytes (pool_heap s))) (CRYPTO_BUFFER_cmp (buf_bytes (pool_heap s))) (pool_bufs s) \<and>
     pool_heap s 0 = None \<and>
     (\<forall>p \<in> pool_table s. p \<notin> N \<and> (\<exists>b. pool_heap s p = Some b \<and> buf_pool b)) \<and>
     (\<forall>p \<in> N. \<exists>b. pool_heap s p = Some b \<and> buf_pool b \<and> buf_references b = 1) \<and>
     (\<forall>p \<in># H. pool_heap s p \<noteq> None) \<and>
     (\<forall>p b. pool_heap s p = Some b \<longrightarrow> refs_ok (buf_references b) (count H p + (if p \<in> N then 1 else 0)))"

lemma CRYPTO_BUFFER_cmp_eq_0: "CRYPTO_BUFFER_cmp mem a b = 0 \<longleftrightarrow> mem a = mem b"
  using mem_cmp_eq_0 [of "mem a" "mem b"] by (auto simp: CRYPTO_BUFFER_cmp_def)

lemma hash_cmp_buffer: "hash_cmp (CRYPTO_BUFFER_hash mem) (CRYPTO_BUFFER_cmp mem)"
  by (simp add: hash_cmp_def CRYPTO_BUFFER_cmp_eq_0 CRYPTO_BUFFER_hash_def)

lemma le_REFCOUNT_MAX: "r \<le> CRYPTO_REFCOUNT_MAX"
proof -
  have m: "CRYPTO_REFCOUNT_MAX = - 1" by (simp add: CRYPTO_REFCOUNT_MAX_def)
  show ?thesis unfolding m by (rule word_n1_ge)
qed

interpretation bufs: lhash_functions "CRYPTO_BUFFER_hash mem" "CRYPTO_BUFFER_cmp mem" for mem
  by unfold_locales (rule hash_cmp_buffer)

text \<open>The table depends on the memory of its own buffers only.\<close>

lemma lh_inv_mem:
  assumes "lh_inv (CRYPTO_BUFFER_hash f) (CRYPTO_BUFFER_cmp f) lh" "\<And>p. p \<in> lh_items lh \<Longrightarrow> f p = g p"
  shows "lh_inv (CRYPTO_BUFFER_hash g) (CRYPTO_BUFFER_cmp g) lh"
proof -
  have "f (lh_item_data x) = g (lh_item_data x)" if "x \<in> set (lh_all lh)" for x
    using that by (intro assms(2)) (simp add: lh_items_def)
  then show ?thesis using assms(1)
    by (simp add: lh_inv_def lh_items_ok_def CRYPTO_BUFFER_hash_def CRYPTO_BUFFER_cmp_eq_0)
qed

lemma refs_ok_inc: "refs_ok r n \<Longrightarrow> refs_ok (CRYPTO_refcount_inc r) (n + 1)"
proof -
  assume r: "refs_ok r n"
  show ?thesis
  proof (cases "r < CRYPTO_REFCOUNT_MAX")
    case True
    then have "unat r < 0xffffffff" by (simp add: CRYPTO_REFCOUNT_MAX_def word_less_nat_alt)
    then have "unat (r + 1) = unat r + 1" by (simp add: unat_word_ariths)
    then show ?thesis using r True unat_0_iff [of "r + 1"]
      by (auto simp: refs_ok_def CRYPTO_refcount_inc_def simp del: unat_0_iff)
  next
    case False
    then show ?thesis using r le_REFCOUNT_MAX [of r] by (simp add: refs_ok_def CRYPTO_refcount_inc_def)
  qed
qed

lemma refs_ok_dec:
  assumes "refs_ok r (n + 1)"
  obtains r' where "CRYPTO_refcount_dec_and_test_zero r = Some (r' = 0, r')"
    "r' = 0 \<longrightarrow> n = 0" "r' \<noteq> 0 \<longrightarrow> refs_ok r' n"
proof -
  define r' where "r' = (if r < CRYPTO_REFCOUNT_MAX then r - 1 else r)"
  have r: "r \<noteq> 0" "r = CRYPTO_REFCOUNT_MAX \<or> unat r = n + 1" using assms by (simp_all add: refs_ok_def)
  have u: "unat (r - 1) = unat r - 1" using r(1) by (simp add: unat_minus_one)
  have z: "r' = 0 \<longleftrightarrow> r = 1" using r(1) by (auto simp: r'_def CRYPTO_REFCOUNT_MAX_def)
  show thesis
  proof (rule that)
    show "CRYPTO_refcount_dec_and_test_zero r = Some (r' = 0, r')"
      using r(1) by (simp add: CRYPTO_refcount_dec_and_test_zero_def r'_def Let_def)
    show "r' = 0 \<longrightarrow> n = 0" using z r by (auto simp: CRYPTO_REFCOUNT_MAX_def)
    show "r' \<noteq> 0 \<longrightarrow> refs_ok r' n"
      using r u le_REFCOUNT_MAX [of r] by (auto simp: refs_ok_def r'_def split: if_splits)
  qed
qed

lemma buf_bytes_upd:
  "pool_heap s p = Some b \<Longrightarrow> buf_data b' = buf_data b \<Longrightarrow>
    buf_bytes ((pool_heap s)(p \<mapsto> b')) = buf_bytes (pool_heap s)"
  by (auto simp: buf_bytes_def fun_eq_iff)

lemma pool_invD:
  assumes "pool_inv s H N"
  shows "lh_inv (CRYPTO_BUFFER_hash (buf_bytes (pool_heap s))) (CRYPTO_BUFFER_cmp (buf_bytes (pool_heap s))) (pool_bufs s)"
    "pool_heap s 0 = None" "p \<in> pool_table s \<Longrightarrow> p \<notin> N"
    "p \<in> pool_table s \<Longrightarrow> \<exists>b. pool_heap s p = Some b \<and> buf_pool b"
    "p \<in> N \<Longrightarrow> \<exists>b. pool_heap s p = Some b \<and> buf_pool b \<and> buf_references b = 1"
    "p \<in># H \<Longrightarrow> \<exists>b. pool_heap s p = Some b"
    "pool_heap s p = Some b \<Longrightarrow> refs_ok (buf_references b) (count H p + (if p \<in> N then 1 else 0))"
  using assms unfolding pool_inv_def by blast+

text \<open>A buffer that is not inserted yet is not held by anyone.\<close>

lemma pending_not_held:
  assumes "pool_inv s H N" "p \<in> N"
  shows "count H p = 0"
proof -
  obtain b where b: "pool_heap s p = Some b" "buf_references b = 1" using pool_invD(5) [OF assms] by blast
  then show ?thesis using pool_invD(7) [OF assms(1) b(1)] assms(2)
    by (simp add: refs_ok_def CRYPTO_REFCOUNT_MAX_def)
qed

lemma refs_inc_inv:
  assumes inv: "pool_inv s H N" and p: "pool_heap s p = Some b" and n: "p \<notin> N"
  shows "pool_inv (refs_inc p s) (add_mset p H) N"
proof -
  define b' where "b' = b\<lparr>buf_references := CRYPTO_refcount_inc (buf_references b)\<rparr>"
  have s: "refs_inc p s = s\<lparr>pool_heap := (pool_heap s)(p \<mapsto> b')\<rparr>" by (simp add: refs_inc_def p b'_def)
  have "refs_ok (buf_references b') (count H p + 1)"
    using refs_ok_inc [OF pool_invD(7) [OF inv p]] n by (simp add: b'_def)
  moreover have "buf_bytes ((pool_heap s)(p \<mapsto> b')) = buf_bytes (pool_heap s)"
    by (rule buf_bytes_upd [OF p]) (simp add: b'_def)
  moreover have "p \<noteq> 0" using p pool_invD(2) [OF inv] by (metis option.distinct(1))
  ultimately show ?thesis using inv n p unfolding s pool_inv_def pool_table_def
    by (auto simp: b'_def)
qed

lemma new_object_inv:
  fixes b :: crypto_buffer
  assumes inv: "pool_inv s H N" and p: "pool_heap s p = None" "p \<noteq> 0"
    and s': "s' = s\<lparr>pool_heap := (pool_heap s)(p \<mapsto> b)\<rparr>" and r: "buf_references b = 1"
  shows "if buf_pool b then pool_inv s' H (insert p N) else pool_inv s' (add_mset p H) N"
proof -
  have out: "p \<notin> pool_table s" "p \<notin> N" "count H p = 0"
    using pool_invD(4-6) [OF inv, of p] p(1) by (auto simp: not_in_iff [symmetric])
  have "lh_inv (CRYPTO_BUFFER_hash (buf_bytes (pool_heap s'))) (CRYPTO_BUFFER_cmp (buf_bytes (pool_heap s'))) (pool_bufs s)"
    using pool_invD(1) [OF inv] by (rule lh_inv_mem) (use out(1) in \<open>auto simp: s' buf_bytes_def pool_table_def\<close>)
  moreover have "refs_ok 1 1" by (simp add: refs_ok_def)
  ultimately show ?thesis using inv out p r unfolding pool_inv_def
    by (auto simp: s' pool_table_def)
qed

lemma free_object_inv:
  assumes inv: "lh_inv (CRYPTO_BUFFER_hash (buf_bytes (pool_heap s))) (CRYPTO_BUFFER_cmp (buf_bytes (pool_heap s))) (pool_bufs s)"
    and h0: "pool_heap s 0 = None"
    and t: "\<And>q. q \<in> pool_table s \<Longrightarrow> q \<noteq> p \<and> q \<notin> N \<and> (\<exists>b. pool_heap s q = Some b \<and> buf_pool b)"
    and n: "\<And>q. q \<in> N \<Longrightarrow> q \<noteq> p \<and> (\<exists>b. pool_heap s q = Some b \<and> buf_pool b \<and> buf_references b = 1)"
    and h: "\<And>q. q \<in># H \<Longrightarrow> q \<noteq> p \<and> pool_heap s q \<noteq> None"
    and r: "\<And>q b. q \<noteq> p \<Longrightarrow> pool_heap s q = Some b \<Longrightarrow> refs_ok (buf_references b) (count H q + (if q \<in> N then 1 else 0))"
  shows "pool_inv (crypto_buffer_free_object p s) H N"
proof -
  have "lh_inv (CRYPTO_BUFFER_hash (buf_bytes ((pool_heap s)(p := None))))
      (CRYPTO_BUFFER_cmp (buf_bytes ((pool_heap s)(p := None)))) (pool_bufs s)"
    using inv by (rule lh_inv_mem) (use t in \<open>auto simp: buf_bytes_def pool_table_def\<close>)
  then show ?thesis using h0 t n h r
    by (auto simp: pool_inv_def crypto_buffer_free_object_def pool_table_def)
qed

text \<open>What the look-up returns is in the table and has the bytes asked for.\<close>

lemma find_duplicate_Some:
  assumes "lh_inv (CRYPTO_BUFFER_hash mem) (CRYPTO_BUFFER_cmp mem) (pool_bufs s)" "find_duplicate mem s st buf = Some d"
  shows "d \<in> pool_table s \<and> mem d = mem buf"
  using assms(2) bufs.table.retrieve_Some [OF assms(1), of buf d]
  by (auto simp: find_duplicate_def pool_table_def CRYPTO_BUFFER_cmp_eq_0 split: option.splits if_splits)

section \<open>Every step keeps the invariant\<close>

lemma find_inv:
  assumes inv: "pool_inv s H N" and f: "buffer_new_find data st s = (Some p, s')"
  shows "pool_inv s' (add_mset p H) N \<and> p \<in> pool_table s \<and> buf_bytes (pool_heap s) p = data \<and> s' = refs_inc p s"
proof -
  let ?mem = "(buf_bytes (pool_heap s))(0 := data)"
  have z: "0 \<notin> pool_table s" using pool_invD(2) [OF inv] pool_invD(4) [OF inv, of 0] by auto
  have m: "lh_inv (CRYPTO_BUFFER_hash ?mem) (CRYPTO_BUFFER_cmp ?mem) (pool_bufs s)"
    using pool_invD(1) [OF inv] by (rule lh_inv_mem) (use z in \<open>auto simp: pool_table_def\<close>)
  have d: "find_duplicate ?mem s st 0 = Some p" "s' = refs_inc p s"
    using f by (auto simp: buffer_new_find_def Let_def split: option.splits)
  have p: "p \<in> pool_table s" "?mem p = data" using find_duplicate_Some [OF m d(1)] by simp_all
  then have "buf_bytes (pool_heap s) p = data" using z by (auto split: if_splits)
  moreover obtain b where "pool_heap s p = Some b" using pool_invD(4) [OF inv p(1)] by blast
  ultimately show ?thesis using refs_inc_inv [OF inv _ pool_invD(3) [OF inv p(1)]] p(1) d(2) by blast
qed

lemma alloc_shape:
  "buffer_new_alloc libc p data st pool s = Some s' \<Longrightarrow>
    s' = s\<lparr>pool_heap := (pool_heap s)(p \<mapsto> \<lparr>buf_pool = pool, buf_data = data, buf_references = 1, buf_data_is_static = st\<rparr>)\<rparr>"
  by (auto simp: buffer_new_alloc_def Let_def split: if_splits)

lemma alloc_inv:
  assumes "pool_inv s H N" "buffer_new_alloc libc p data st pool s = Some s'" "p \<noteq> 0" "pool_heap s p = None"
  shows "if pool then pool_inv s' H (insert p N) else pool_inv s' (add_mset p H) N"
  using new_object_inv [OF assms(1,4,3) refl, where b = "\<lparr>buf_pool = pool, buf_data = data, buf_references = 1, buf_data_is_static = st\<rparr>"]
  unfolding alloc_shape [OF assms(2)] by simp

lemma buffer_alloc_inv:
  assumes "pool_inv s H N" "CRYPTO_BUFFER_alloc libc p junk s = (Some p, s')" "p \<noteq> 0" "pool_heap s p = None"
  shows "pool_inv s' (add_mset p H) N"
  using new_object_inv [OF assms(1,4,3) refl, where b = "\<lparr>buf_pool = False, buf_data = junk, buf_references = 1, buf_data_is_static = False\<rparr>"] assms(2)
  by (auto simp: CRYPTO_BUFFER_alloc_def split: if_splits)

text \<open>Giving up a pending buffer.\<close>

lemma drop_pending_inv:
  assumes inv: "pool_inv s H N" and p: "p \<in> N"
  shows "pool_inv (crypto_buffer_free_object p s) H (N - {p})"
proof (rule free_object_inv)
  have h: "count H p = 0" using pending_not_held [OF inv p] .
  show "lh_inv (CRYPTO_BUFFER_hash (buf_bytes (pool_heap s))) (CRYPTO_BUFFER_cmp (buf_bytes (pool_heap s))) (pool_bufs s)"
    "pool_heap s 0 = None"
    using pool_invD(1,2) [OF inv] by simp_all
  show "q \<noteq> p \<and> q \<notin> N - {p} \<and> (\<exists>b. pool_heap s q = Some b \<and> buf_pool b)" if "q \<in> pool_table s" for q
    using pool_invD(3,4) [OF inv that] p by blast
  show "q \<noteq> p \<and> (\<exists>b. pool_heap s q = Some b \<and> buf_pool b \<and> buf_references b = 1)" if "q \<in> N - {p}" for q
    using pool_invD(5) [OF inv, of q] that by blast
  show "q \<noteq> p \<and> pool_heap s q \<noteq> None" if "q \<in># H" for q
    using pool_invD(6) [OF inv that] that h by (auto simp: count_eq_zero_iff)
  show "refs_ok (buf_references b) (count H q + (if q \<in> N - {p} then 1 else 0))"
    if "q \<noteq> p" "pool_heap s q = Some b" for q b
    using pool_invD(7) [OF inv that(2)] that(1) by simp
qed

lemma insert_inv:
  assumes inv: "pool_inv s H N" and p: "p \<in> N" and i: "buffer_new_insert libc st p s = (r, s')"
  shows "pool_inv s' (case r of None \<Rightarrow> H | Some q \<Rightarrow> add_mset q H) (N - {p})"
    "r = Some q \<Longrightarrow> CRYPTO_BUFFER_data q s' = Some (buf_bytes (pool_heap s) p)"
proof -
  let ?mem = "buf_bytes (pool_heap s)"
  note lh = pool_invD(1) [OF inv]
  obtain b where b: "pool_heap s p = Some b" "buf_pool b" "buf_references b = 1" using pool_invD(5) [OF inv p] by blast
  have "pool_inv s' (case r of None \<Rightarrow> H | Some q \<Rightarrow> add_mset q H) (N - {p}) \<and>
    (r = Some q \<longrightarrow> CRYPTO_BUFFER_data q s' = Some (?mem p))"
  proof (cases "find_duplicate ?mem s st p")
    case (Some d)
    have d: "d \<in> pool_table s" "?mem d = ?mem p" using find_duplicate_Some [OF lh Some] by simp_all
    obtain c where c: "pool_heap s d = Some c" using pool_invD(4) [OF inv d(1)] by blast
    have n: "d \<notin> N" "d \<noteq> p" using pool_invD(3) [OF inv d(1)] p by auto
    have s': "r = Some d" "s' = crypto_buffer_free_object p (refs_inc d s)"
      using i by (simp_all add: buffer_new_insert_def Some)
    show ?thesis using drop_pending_inv [OF refs_inc_inv [OF inv c n(1)] p] n(2) c d(2)
      by (auto simp: s' CRYPTO_BUFFER_data_def crypto_buffer_free_object_def refs_inc_def buf_bytes_def)
  next
    case None
    obtain ok old lh' where l: "OPENSSL_lh_insert libc (CRYPTO_BUFFER_hash ?mem) (CRYPTO_BUFFER_cmp ?mem) (pool_bufs s) p = (ok, old, lh')"
      by (rule prod_cases3)
    show ?thesis
    proof (cases ok)
      case False
      have "lh' = pool_bufs s" using l False by (auto dest: bufs.table.put_fail)
      then have "r = None" "s' = crypto_buffer_free_object p s" using i False
        by (simp_all add: buffer_new_insert_def None l)
      then show ?thesis using drop_pending_inv [OF inv p] by simp
    next
      case True
      have r: "r = Some p" "s' = s\<lparr>pool_bufs := lh'\<rparr>" using i True by (simp_all add: buffer_new_insert_def None l)
      have t: "lh_inv (CRYPTO_BUFFER_hash ?mem) (CRYPTO_BUFFER_cmp ?mem) lh'" "lh_items lh' \<subseteq> insert p (pool_table s)"
        using bufs.table.put_ok [OF lh, of libc p old lh'] l True by (auto simp: pool_table_def)
      have "refs_ok (buf_references c) (count (add_mset p H) q + (if q \<in> N - {p} then 1 else 0))"
        if "pool_heap s q = Some c" for q c
        using pool_invD(7) [OF inv that] p by (cases "q = p") auto
      moreover have "q \<notin> N - {p} \<and> (\<exists>b. pool_heap s q = Some b \<and> buf_pool b)" if "q \<in> lh_items lh'" for q
        using t(2) that b pool_invD(3,4) [OF inv, of q] by blast
      ultimately show ?thesis using inv t(1) b unfolding r pool_inv_def
        by (auto simp: pool_table_def CRYPTO_BUFFER_data_def buf_bytes_def)
    qed
  qed
  then show "pool_inv s' (case r of None \<Rightarrow> H | Some q \<Rightarrow> add_mset q H) (N - {p})"
    "r = Some q \<Longrightarrow> CRYPTO_BUFFER_data q s' = Some (?mem p)" by blast+
qed

lemma up_ref_inv:
  assumes inv: "pool_inv s H N" and p: "p \<in># H" and u: "CRYPTO_BUFFER_up_ref p s = Some s'"
  shows "pool_inv s' (add_mset p H) N"
proof -
  obtain b where b: "pool_heap s p = Some b" using pool_invD(6) [OF inv p] by blast
  have "p \<notin> N" using pending_not_held [OF inv, of p] p by (auto simp: count_eq_zero_iff)
  then show ?thesis using refs_inc_inv [OF inv b] u by (auto simp: CRYPTO_BUFFER_up_ref_def b)
qed

lemma fill_inv:
  assumes inv: "pool_inv s H N" and b: "pool_heap s p = Some b" "\<not> buf_pool b"
  shows "pool_inv (s\<lparr>pool_heap := (pool_heap s)(p \<mapsto> b\<lparr>buf_data := data\<rparr>)\<rparr>) H N"
proof -
  let ?h = "(pool_heap s)(p \<mapsto> b\<lparr>buf_data := data\<rparr>)"
  have out: "p \<notin> pool_table s" "p \<notin> N" using pool_invD(4,5) [OF inv, of p] b by auto
  have "lh_inv (CRYPTO_BUFFER_hash (buf_bytes ?h)) (CRYPTO_BUFFER_cmp (buf_bytes ?h)) (pool_bufs s)"
    using pool_invD(1) [OF inv] by (rule lh_inv_mem) (use out in \<open>auto simp: buf_bytes_def pool_table_def\<close>)
  moreover have "p \<noteq> 0" using b pool_invD(2) [OF inv] by (metis option.distinct(1))
  ultimately show ?thesis using inv b out pool_invD(7) [OF inv b(1)] by (auto simp: pool_inv_def pool_table_def)
qed

text \<open>Giving up a reference: it never aborts, and the last one takes the buffer out of the table and
  releases it.\<close>

lemma free_inv:
  assumes inv: "pool_inv s H N" and p: "p \<in># H"
  shows "\<exists>s'. CRYPTO_BUFFER_free libc p s = Some s' \<and> pool_inv s' (H - {#p#}) N"
proof -
  obtain b where b: "pool_heap s p = Some b" using pool_invD(6) [OF inv p] by blast
  have n: "p \<notin> N" using pending_not_held [OF inv, of p] p by (auto simp: count_eq_zero_iff)
  define k where "k = count (H - {#p#}) p"
  have k: "count H p = k + 1" using p by (simp add: k_def)
  have "refs_ok (buf_references b) (k + 1)" using pool_invD(7) [OF inv b] n k by simp
  then obtain r where r: "CRYPTO_refcount_dec_and_test_zero (buf_references b) = Some (r = 0, r)"
    "r = 0 \<longrightarrow> k = 0" "r \<noteq> 0 \<longrightarrow> refs_ok r k" by (rule refs_ok_dec)
  define b' where "b' = b\<lparr>buf_references := r\<rparr>"
  define s1 where "s1 = s\<lparr>pool_heap := (pool_heap s)(p \<mapsto> b')\<rparr>"
  have mem: "buf_bytes (pool_heap s1) = buf_bytes (pool_heap s)"
    unfolding s1_def using buf_bytes_upd [OF b, of b'] by (simp add: b'_def)
  let ?hash = "CRYPTO_BUFFER_hash (buf_bytes (pool_heap s1))" let ?cmp = "CRYPTO_BUFFER_cmp (buf_bytes (pool_heap s1))"
  have lh: "lh_inv ?hash ?cmp (pool_bufs s1)" using pool_invD(1) [OF inv] unfolding mem by (simp add: s1_def)
  have p0: "p \<noteq> 0" using b pool_invD(2) [OF inv] by (metis option.distinct(1))
  have others: "q \<noteq> p \<Longrightarrow> pool_heap s1 q = Some c \<Longrightarrow>
      refs_ok (buf_references c) (count (H - {#p#}) q + (if q \<in> N then 1 else 0))" for q c
    using pool_invD(7) [OF inv, of q c] by (simp add: s1_def)
  have tab: "q \<in> pool_table s \<Longrightarrow> q \<notin> N \<and> (\<exists>c. pool_heap s1 q = Some c \<and> buf_pool c)" for q
    using pool_invD(3,4) [OF inv, of q] b by (auto simp: s1_def b'_def)
  have pend: "q \<in> N \<Longrightarrow> q \<noteq> p \<and> (\<exists>c. pool_heap s1 q = Some c \<and> buf_pool c \<and> buf_references c = 1)" for q
    using pool_invD(5) [OF inv, of q] n by (auto simp: s1_def)
  have held: "q \<in># H - {#p#} \<Longrightarrow> pool_heap s1 q \<noteq> None" for q
    using pool_invD(6) [OF inv, of q] by (auto simp: s1_def dest: in_diffD)
  show ?thesis
  proof (cases "r = 0")
    case False
    have "CRYPTO_BUFFER_free libc p s = Some s1"
      using False by (simp add: CRYPTO_BUFFER_free_def b r(1) s1_def b'_def Let_def)
    moreover have "refs_ok (buf_references c) (count (H - {#p#}) q + (if q \<in> N then 1 else 0))"
      if "pool_heap s1 q = Some c" for q c
      using others [OF _ that] that r(3) False n by (cases "q = p") (auto simp: s1_def b'_def k_def)
    moreover have "pool_heap s1 0 = None" using p0 pool_invD(2) [OF inv] by (simp add: s1_def)
    moreover have "pool_table s1 = pool_table s" by (simp add: s1_def pool_table_def)
    ultimately show ?thesis using lh tab pend held by (auto simp: pool_inv_def)
  next
    case True
    have k0: "count (H - {#p#}) p = 0" using r(2) True by (simp add: k_def)
    have gone: "q \<in># H - {#p#} \<Longrightarrow> q \<noteq> p" for q using k0 by (metis count_eq_zero_iff)
    define bufs where "bufs = (if buf_pool b \<and> OPENSSL_lh_retrieve ?hash ?cmp (pool_bufs s1) p = Some p
      then snd (OPENSSL_lh_delete libc ?hash ?cmp (pool_bufs s1) p) else pool_bufs s1)"
    have f: "CRYPTO_BUFFER_free libc p s = Some (crypto_buffer_free_object p (s1\<lparr>pool_bufs := bufs\<rparr>))"
      using True by (simp add: CRYPTO_BUFFER_free_def b r(1) s1_def b'_def Let_def bufs_def)
    have t: "lh_inv ?hash ?cmp bufs \<and> lh_items bufs \<subseteq> pool_table s - {p}"
    proof (cases "buf_pool b \<and> OPENSSL_lh_retrieve ?hash ?cmp (pool_bufs s1) p = Some p")
      case True
      obtain old lh' where l: "OPENSSL_lh_delete libc ?hash ?cmp (pool_bufs s1) p = (old, lh')" by (rule prod.exhaust)
      have "lh_inv ?hash ?cmp lh'" "lh_items lh' = {x \<in> lh_items (pool_bufs s1). ?cmp x p \<noteq> 0}"
        using bufs.table.remove_ok [OF lh l] by blast+
      moreover have "bufs = lh'" using True by (simp add: bufs_def l)
      ultimately show ?thesis by (auto simp: pool_table_def s1_def CRYPTO_BUFFER_cmp_eq_0)
    next
      case False
      have "p \<notin> pool_table s"
      proof
        assume p: "p \<in> pool_table s"
        then have "buf_pool b" using pool_invD(4) [OF inv p] b by simp
        moreover have "OPENSSL_lh_retrieve ?hash ?cmp (pool_bufs s1) p = Some p"
          using bufs.table.retrieve_Some [OF lh, of p p] p by (simp add: pool_table_def s1_def CRYPTO_BUFFER_cmp_eq_0)
        ultimately show False using False by blast
      qed
      moreover have "bufs = pool_bufs s1" unfolding bufs_def using False by (rule if_not_P)
      ultimately show ?thesis using lh by (auto simp: pool_table_def s1_def)
    qed
    have "pool_inv (crypto_buffer_free_object p (s1\<lparr>pool_bufs := bufs\<rparr>)) (H - {#p#}) N"
    proof (rule free_object_inv)
      show "lh_inv (CRYPTO_BUFFER_hash (buf_bytes (pool_heap (s1\<lparr>pool_bufs := bufs\<rparr>))))
          (CRYPTO_BUFFER_cmp (buf_bytes (pool_heap (s1\<lparr>pool_bufs := bufs\<rparr>)))) (pool_bufs (s1\<lparr>pool_bufs := bufs\<rparr>))"
        using t by simp
      show "pool_heap (s1\<lparr>pool_bufs := bufs\<rparr>) 0 = None" using p0 pool_invD(2) [OF inv] by (simp add: s1_def)
      show "q \<noteq> p \<and> q \<notin> N \<and> (\<exists>b. pool_heap (s1\<lparr>pool_bufs := bufs\<rparr>) q = Some b \<and> buf_pool b)"
        if "q \<in> pool_table (s1\<lparr>pool_bufs := bufs\<rparr>)" for q
        using that t tab [of q] by (auto simp: pool_table_def)
      show "q \<noteq> p \<and> (\<exists>b. pool_heap (s1\<lparr>pool_bufs := bufs\<rparr>) q = Some b \<and> buf_pool b \<and> buf_references b = 1)"
        if "q \<in> N" for q using pend [OF that] by simp
      show "q \<noteq> p \<and> pool_heap (s1\<lparr>pool_bufs := bufs\<rparr>) q \<noteq> None" if "q \<in># H - {#p#}" for q
        using held [OF that] gone [OF that] by simp
      show "refs_ok (buf_references c) (count (H - {#p#}) q + (if q \<in> N then 1 else 0))"
        if "q \<noteq> p" "pool_heap (s1\<lparr>pool_bufs := bufs\<rparr>) q = Some c" for q c
        using others [OF that(1)] that(2) by simp
    qed
    then show ?thesis using f by blast
  qed
qed

lemma inserted_in_table:
  assumes inv: "pool_inv s H N" and p: "p \<in> N" and i: "buffer_new_insert libc st p s = (Some p, s')"
  shows "p \<in> pool_table s'"
proof -
  let ?mem = "buf_bytes (pool_heap s)"
  note lh = pool_invD(1) [OF inv]
  show ?thesis
  proof (cases "find_duplicate ?mem s st p")
    case (Some d)
    then have "p \<in> pool_table s" using find_duplicate_Some [OF lh Some] i by (simp add: buffer_new_insert_def Some)
    then show ?thesis using pool_invD(3) [OF inv] p by blast
  next
    case None
    obtain ok old lh' where l: "OPENSSL_lh_insert libc (CRYPTO_BUFFER_hash ?mem) (CRYPTO_BUFFER_cmp ?mem) (pool_bufs s) p = (ok, old, lh')"
      by (rule prod_cases3)
    have "ok" "s' = s\<lparr>pool_bufs := lh'\<rparr>" using i by (auto simp: buffer_new_insert_def None l split: if_splits)
    then show ?thesis using bufs.table.put_ok [OF lh, of libc p old lh'] l by (simp add: pool_table_def)
  qed
qed

lemma pool_new_inv: "CRYPTO_BUFFER_POOL_new libc n Map.empty = Some s \<Longrightarrow> pool_inv s {#} {}"
  by (auto simp: lh_new_inv CRYPTO_BUFFER_POOL_new_def pool_inv_def pool_table_def split: if_splits option.splits)

lemma pool_step_inv:
  "pool_step w w' \<Longrightarrow> w = (s, H, N) \<Longrightarrow> pool_inv s H N \<Longrightarrow> pool_inv (fst w') (fst (snd w')) (snd (snd w'))"
proof (induction rule: pool_step.induct)
  case (find data st s p s' H N)
  then show ?case using find_inv by auto
next
  case (alloc libc p data st pool s s' H N)
  then show ?case using alloc_inv [of s H N libc p data st pool s'] by (cases pool) auto
next
  case (insert p N libc s r s' H)
  then show ?case using insert_inv(1) by auto
next
  case (buffer_alloc libc p junk s s' H N)
  then show ?case using buffer_alloc_inv by auto
next
  case (fill p H s b data N)
  then show ?case using fill_inv by auto
next
  case (free p H libc s s' N)
  then show ?case using free_inv [of s H N p libc] by auto
next
  case (up_ref p H s s' N)
  then show ?case using up_ref_inv by auto
qed

lemma pool_reach_inv: "pool_reach w \<Longrightarrow> pool_inv (fst w) (fst (snd w)) (snd (snd w))"
proof (induction rule: pool_reach.induct)
  case (start libc n s)
  then show ?case by (simp add: pool_new_inv)
next
  case (step w w')
  then show ?case using pool_step_inv [of w w' "fst w" "fst (snd w)" "snd (snd w)"] by simp
qed

text \<open>C4: however threads interleave, no reference a caller holds and no entry of the table is dangling, giving
  a reference up never aborts, and a buffer's count is the number of references to it, its own creator's
  included, unless it is saturated; so a buffer nobody refers to has been released.\<close>

theorem pool_no_dangling:
  assumes "pool_reach (s, H, N)"
  shows "(\<forall>p \<in># H. \<exists>b s'. pool_heap s p = Some b \<and> CRYPTO_BUFFER_free libc p s = Some s') \<and>
    (\<forall>p \<in> lh_items (pool_bufs s). pool_heap s p \<noteq> None) \<and>
    (\<forall>p b. pool_heap s p = Some b \<longrightarrow>
       buf_references b = CRYPTO_REFCOUNT_MAX \<or>
       unat (buf_references b) = count H p + (if p \<in> N then 1 else 0) \<and> (p \<in># H \<or> p \<in> N))"
proof (intro conjI ballI allI impI)
  have inv: "pool_inv s H N" using pool_reach_inv [OF assms] by simp
  show "\<exists>b s'. pool_heap s p = Some b \<and> CRYPTO_BUFFER_free libc p s = Some s'" if "p \<in># H" for p
    using pool_invD(6) [OF inv that] free_inv [OF inv that] by blast
  show "pool_heap s p \<noteq> None" if "p \<in> lh_items (pool_bufs s)" for p
    using pool_invD(4) [OF inv] that by (auto simp: pool_table_def)
  show "buf_references b = CRYPTO_REFCOUNT_MAX \<or>
      unat (buf_references b) = count H p + (if p \<in> N then 1 else 0) \<and> (p \<in># H \<or> p \<in> N)"
    if "pool_heap s p = Some b" for p b
    using pool_invD(7) [OF inv that] count_eq_zero_iff [of H p] by (cases "p \<in> N") (auto simp: refs_ok_def unsigned_eq_0_iff)
qed

lemma refs_inc_data: "CRYPTO_BUFFER_data q (refs_inc d s) = CRYPTO_BUFFER_data q s"
  by (cases "pool_heap s d") (auto simp: CRYPTO_BUFFER_data_def refs_inc_def)

lemma insert_frame:
  "buffer_new_insert libc st p s = (r, s') \<Longrightarrow> q \<noteq> p \<Longrightarrow> CRYPTO_BUFFER_data q s' = CRYPTO_BUFFER_data q s"
  using refs_inc_data [of q _ s]
  by (auto simp: buffer_new_insert_def Let_def crypto_buffer_free_object_def CRYPTO_BUFFER_data_def
      split: option.splits prod.splits if_splits)

lemma find_None_state: "fst (buffer_new_find data st s) = None \<Longrightarrow> buffer_new_find data st s = (None, s)"
  by (auto simp: buffer_new_find_def Let_def split: option.splits)

text \<open>When the look-up fails, the table has nothing that would do.\<close>

lemma find_None:
  assumes inv: "pool_inv s H N" and f: "buffer_new_find data st s = (None, s)"
    and d: "d \<in> lh_items (pool_bufs s)" "CRYPTO_BUFFER_data d s = Some data"
  shows "st \<and> \<not> is_static (pool_heap s) d"
proof -
  let ?mem = "(buf_bytes (pool_heap s))(0 := data)"
  have z: "0 \<notin> pool_table s" using pool_invD(2) [OF inv] pool_invD(4) [OF inv, of 0] by auto
  have m: "lh_inv (CRYPTO_BUFFER_hash ?mem) (CRYPTO_BUFFER_cmp ?mem) (pool_bufs s)"
    using pool_invD(1) [OF inv] by (rule lh_inv_mem) (use z in \<open>auto simp: pool_table_def\<close>)
  have "?mem d = data" using d z by (auto simp: pool_table_def CRYPTO_BUFFER_data_def buf_bytes_def)
  then have "OPENSSL_lh_retrieve (CRYPTO_BUFFER_hash ?mem) (CRYPTO_BUFFER_cmp ?mem) (pool_bufs s) 0 = Some d"
    using bufs.table.retrieve_Some [OF m, of 0 d] d(1) by (simp add: CRYPTO_BUFFER_cmp_eq_0)
  then show ?thesis using f by (auto simp: buffer_new_find_def find_duplicate_def Let_def split: if_splits)
qed

text \<open>A pool in which two callers have made the same buffer.\<close>

definition shared_buffer :: crypto_buffer where
  "shared_buffer = \<lparr>buf_pool = True, buf_data = [1, 2], buf_references = 2, buf_data_is_static = False\<rparr>"

lemma shared_pool_reach:
  "\<exists>s. pool_reach (s, {#5, 5#}, {}) \<and> pool_heap s = [5 \<mapsto> shared_buffer] \<and> 5 \<in> lh_items (pool_bufs s)"
proof -
  have m: "OPENSSL_malloc (\<lambda>_. True) n" if "n < 1000" for n
    using that by (simp add: OPENSSL_malloc_def OPENSSL_MALLOC_PREFIX_def)
  obtain s0 where n: "CRYPTO_BUFFER_POOL_new (\<lambda>_. True) 208 Map.empty = Some s0" and h0: "pool_heap s0 = Map.empty"
    by (simp add: CRYPTO_BUFFER_POOL_new_def OPENSSL_lh_new_def kMinNumBuckets_def m)
  have t0: "pool_table s0 = {}" using pool_invD(4) [OF pool_new_inv [OF n]] h0 by auto
  define s1 where "s1 = s0\<lparr>pool_heap := (pool_heap s0)(5 \<mapsto> shared_buffer\<lparr>buf_references := 1\<rparr>)\<rparr>"
  have a: "buffer_new_alloc (\<lambda>_. True) 5 [1, 2] False True s0 = Some s1"
    by (simp add: s1_def buffer_new_alloc_def m OPENSSL_memdup_def Let_def shared_buffer_def)
  have i1: "pool_inv s1 {#} {5}" using alloc_inv [OF pool_new_inv [OF n] a] h0 by simp
  have r1: "pool_reach (s1, {#}, {5})"
    using pool_reach.step [OF pool_reach.start [OF n] pool_step.alloc [OF a]] h0 by simp
  obtain r s2 where i: "buffer_new_insert (\<lambda>_. True) False 5 s1 = (r, s2)" by (rule prod.exhaust)
  have "find_duplicate (buf_bytes (pool_heap s1)) s1 False 5 = None"
    using find_duplicate_Some [OF pool_invD(1) [OF i1], of False 5] t0
    by (cases "find_duplicate (buf_bytes (pool_heap s1)) s1 False 5") (auto simp: s1_def pool_table_def)
  then have s2: "r = Some 5" "pool_heap s2 = pool_heap s1"
    using i by (auto simp: buffer_new_insert_def Let_def dest!: lh_insert_alloc [OF m [of 24], simplified]
        split: prod.splits if_splits)
  have "is_static (pool_heap s1) 5 = False" by (simp add: s1_def is_static_def shared_buffer_def)
  then have r2: "pool_reach (s2, {#5#}, {})"
    using pool_reach.step [OF r1 pool_step.insert [of 5 _ "\<lambda>_. True" s1 r s2]] i s2(1) by simp
  have i2: "pool_inv s2 {#5#} {}" using pool_reach_inv [OF r2] by simp
  have t2: "5 \<in> lh_items (pool_bufs s2)" using inserted_in_table [OF i1 _ i [unfolded s2(1)]] by (simp add: pool_table_def)
  have d2: "CRYPTO_BUFFER_data 5 s2 = Some [1, 2]" by (simp add: CRYPTO_BUFFER_data_def s2(2) s1_def shared_buffer_def)
  obtain q s3 where f: "buffer_new_find [1, 2] False s2 = (q, s3)" by (rule prod.exhaust)
  have "buffer_new_find [1, 2] False s2 \<noteq> (None, s2)" using find_None [OF i2 _ t2 d2, of False] by blast
  then have "q \<noteq> None" using find_None_state [of "[1, 2]" False s2] f by auto
  then obtain d where d: "q = Some d" by blast
  note fd = find_inv [OF i2 f [unfolded d]]
  have "d = 5" using bufs.table.items_unique [OF pool_invD(1) [OF i2], of d 5] t2 fd d2
    by (auto simp: pool_table_def CRYPTO_BUFFER_cmp_eq_0 CRYPTO_BUFFER_data_def buf_bytes_def)
  then have r3: "pool_reach (s3, {#5, 5#}, {})" using pool_reach.step [OF r2 pool_step.find [OF f [unfolded d]]] by simp
  have "s3 = refs_inc 5 s2" using fd \<open>d = 5\<close> by simp
  then have "pool_heap s3 = [5 \<mapsto> shared_buffer]" "5 \<in> lh_items (pool_bufs s3)"
    using t2 by (simp_all add: refs_inc_def s2(2) s1_def h0 shared_buffer_def CRYPTO_refcount_inc_def CRYPTO_REFCOUNT_MAX_def)
  then show ?thesis using r3 by blast
qed

theorem pool_no_dangling_witness:
  "\<exists>s b s'. pool_reach (s, {#5, 5#}, {}) \<and> pool_heap s 5 = Some b \<and> unat (buf_references b) = 2 \<and>
     CRYPTO_BUFFER_free (\<lambda>_. True) 5 s = Some s'"
proof -
  obtain s where s: "pool_reach (s, {#5, 5#}, {})" "pool_heap s = [5 \<mapsto> shared_buffer]" using shared_pool_reach by blast
  from pool_no_dangling [OF s(1), of "\<lambda>_. True"]
  have "\<exists>b s'. pool_heap s 5 = Some b \<and> CRYPTO_BUFFER_free (\<lambda>_. True) 5 s = Some s'" by simp
  then obtain b s' where b: "pool_heap s 5 = Some b" "CRYPTO_BUFFER_free (\<lambda>_. True) 5 s = Some s'" by blast
  then have "b = shared_buffer" using s(2) by simp
  then have "unat (buf_references b) = 2" by (simp add: shared_buffer_def)
  then show ?thesis using s(1) b by blast
qed

text \<open>C31: what \<open>crypto_buffer_new\<close> returns, on its own thread, is a live buffer with the bytes it was given, and
  when the pool lists such a buffer that is good enough, it is that one; the contents of the buffers others
  hold do not change.\<close>

theorem pool_interns:
  assumes "pool_reach (s, H, N)" and "p \<noteq> 0" "pool_heap s p = None"
    and "crypto_buffer_new libc p data data_is_static pool s = (Some q, s')"
  shows "CRYPTO_BUFFER_data q s' = Some data \<and>
    (pool \<longrightarrow> (\<forall>d \<in> lh_items (pool_bufs s). CRYPTO_BUFFER_data d s = Some data \<longrightarrow>
       (data_is_static \<longrightarrow> is_static (pool_heap s) d) \<longrightarrow> q = d)) \<and>
    (\<forall>o' \<in># H. CRYPTO_BUFFER_data o' s' = CRYPTO_BUFFER_data o' s)"
proof -
  have inv: "pool_inv s H N" using pool_reach_inv [OF assms(1)] by simp
  have held: "o' \<noteq> p" if "o' \<in># H" for o' using pool_invD(6) [OF inv that] assms(3) by auto
  note new = assms(4) [unfolded crypto_buffer_new_def]
  show ?thesis
  proof (cases pool)
    case False
    then have "q = p" "buffer_new_alloc libc p data data_is_static False s = Some s'"
      using new by (auto split: option.splits)
    then show ?thesis using alloc_shape held False by (fastforce simp: CRYPTO_BUFFER_data_def)
  next
    case pool: True
    show ?thesis
    proof (cases "fst (buffer_new_find data data_is_static s)")
      case (Some d)
      then have f: "buffer_new_find data data_is_static s = (Some q, s')" using new pool by (cases "buffer_new_find data data_is_static s") simp
      note d = find_inv [OF inv f]
      have "q = d" if "d \<in> lh_items (pool_bufs s)" "CRYPTO_BUFFER_data d s = Some data" for d
        using bufs.table.items_unique [OF pool_invD(1) [OF inv], of q d] that d
        by (auto simp: pool_table_def CRYPTO_BUFFER_cmp_eq_0 CRYPTO_BUFFER_data_def buf_bytes_def)
      moreover have "CRYPTO_BUFFER_data q s = Some data"
        using d pool_invD(4) [OF inv, of q] by (auto simp: CRYPTO_BUFFER_data_def buf_bytes_def)
      ultimately show ?thesis using d by (simp add: refs_inc_data)
    next
      case None
      then have n: "buffer_new_find data data_is_static s = (None, s)" by (rule find_None_state)
      obtain s1 where s1: "buffer_new_alloc libc p data data_is_static True s = Some s1"
        "buffer_new_insert libc data_is_static p s1 = (Some q, s')"
        using new pool by (auto simp: n split: option.splits)
      have "pool_inv s1 H (insert p N)" using alloc_inv [OF inv s1(1) assms(2,3)] by simp
      from insert_inv(2) [OF this _ s1(2)] have "CRYPTO_BUFFER_data q s' = Some (buf_bytes (pool_heap s1) p)" by simp
      moreover have "buf_bytes (pool_heap s1) p = data" using alloc_shape [OF s1(1)] by (simp add: buf_bytes_def)
      moreover have "CRYPTO_BUFFER_data o' s' = CRYPTO_BUFFER_data o' s" if "o' \<in># H" for o'
        using insert_frame [OF s1(2) held [OF that]] alloc_shape [OF s1(1)] held [OF that]
        by (simp add: CRYPTO_BUFFER_data_def)
      ultimately show ?thesis using find_None [OF inv n] by auto
    qed
  qed
qed

theorem pool_interns_witness:
  "\<exists>s q s'. pool_reach (s, {#5, 5#}, {}) \<and> crypto_buffer_new (\<lambda>_. True) 7 [1, 2] False True s = (Some q, s') \<and>
     CRYPTO_BUFFER_data q s' = Some [1, 2] \<and> q = 5"
proof -
  obtain s where s: "pool_reach (s, {#5, 5#}, {})" "pool_heap s = [5 \<mapsto> shared_buffer]" "5 \<in> lh_items (pool_bufs s)"
    using shared_pool_reach by blast
  have inv: "pool_inv s {#5, 5#} {}" using pool_reach_inv [OF s(1)] by simp
  have d: "CRYPTO_BUFFER_data 5 s = Some [1, 2]" by (simp add: CRYPTO_BUFFER_data_def s(2) shared_buffer_def)
  have "buffer_new_find [1, 2] False s \<noteq> (None, s)" using find_None [OF inv _ s(3) d, of False] by blast
  then have "fst (buffer_new_find [1, 2] False s) \<noteq> None" using find_None_state [of "[1, 2]" False s] by blast
  then obtain q s' where f: "buffer_new_find [1, 2] False s = (Some q, s')" by (metis not_Some_eq prod.collapse)
  then have n: "crypto_buffer_new (\<lambda>_. True) 7 [1, 2] False True s = (Some q, s')" by (simp add: crypto_buffer_new_def)
  have "CRYPTO_BUFFER_data q s' = Some [1, 2] \<and> q = 5"
    using pool_interns [OF s(1) _ _ n] s(2,3) d by simp
  then show ?thesis using s(1) n by blast
qed

end
