(* ===== verification/Bn_Words.thy ===== *)
theory Bn_Words
  imports Internal
begin

text \<open>
  \<open>crypto/fipsmodule/bn/generic.c\<close>: arithmetic on little-endian strings of 64-bit words, in the build with a
  128-bit type, which is that of 64-bit clang on processors other than x86. \<open>BN_ULONG\<close> is \<open>u64\<close>, and
  \<open>BN_ULLONG\<close> the 128-bit words \<open>u128\<close>. Each function returns the words it writes and its carry. The loops
  that handle four words at a time are recursions on lists that do.

  \<open>bn_val\<close> is the number a string of words denotes. The lemmas state each function as arithmetic on
  numbers, and in particular that the 128-bit sums do not overflow. The column products of the comba
  multiplications are given as the tables of indices the code spells out; \<open>comba_mul_val\<close> shows that such
  a table multiplies when it lists every pair of indices once, in the column of its sum.
\<close>

type_synonym u128 = "128 word"

definition Lw :: "u128 \<Rightarrow> u64" where "Lw t = ucast t"
definition Hw :: "u128 \<Rightarrow> u64" where "Hw t = ucast (drop_bit 64 t)"

section \<open>Multiplication by a word\<close>

definition mul_add :: "u64 \<Rightarrow> u64 \<Rightarrow> u64 \<Rightarrow> u64 \<Rightarrow> u64 \<times> u64" where
  "mul_add r a w c = (let t = ucast w * ucast a + ucast r + ucast c in (Lw t, Hw t))"

definition mul_word :: "u64 \<Rightarrow> u64 \<Rightarrow> u64 \<Rightarrow> u64 \<times> u64" where
  "mul_word a w c = (let t = ucast w * ucast a + ucast c in (Lw t, Hw t))"

definition sqr_word :: "u64 \<Rightarrow> u64 \<times> u64" where
  "sqr_word a = (let t = ucast a * ucast a in (Lw t, Hw t))"

fun mul_add_loop :: "u64 list \<Rightarrow> u64 list \<Rightarrow> u64 \<Rightarrow> u64 \<Rightarrow> u64 list \<times> u64" where
  "mul_add_loop (r0 # r1 # r2 # r3 # rp) (a0 # a1 # a2 # a3 # ap) w c1 =
     (let (r0, c1) = mul_add r0 a0 w c1;
          (r1, c1) = mul_add r1 a1 w c1;
          (r2, c1) = mul_add r2 a2 w c1;
          (r3, c1) = mul_add r3 a3 w c1;
          (rs, c1) = mul_add_loop rp ap w c1
      in (r0 # r1 # r2 # r3 # rs, c1))"
| "mul_add_loop (r0 # rp) (a0 # ap) w c1 =
     (let (r0, c1) = mul_add r0 a0 w c1;
          (rs, c1) = mul_add_loop rp ap w c1
      in (r0 # rs, c1))"
| "mul_add_loop _ _ w c1 = ([], c1)"

definition bn_mul_add_words :: "u64 list \<Rightarrow> u64 list \<Rightarrow> u64 \<Rightarrow> u64 list \<times> u64" where
  "bn_mul_add_words rp ap w = (if length ap = 0 then ([], 0) else mul_add_loop rp ap w 0)"

fun mul_words_loop :: "u64 list \<Rightarrow> u64 \<Rightarrow> u64 \<Rightarrow> u64 list \<times> u64" where
  "mul_words_loop (a0 # a1 # a2 # a3 # ap) w c1 =
     (let (r0, c1) = mul_word a0 w c1;
          (r1, c1) = mul_word a1 w c1;
          (r2, c1) = mul_word a2 w c1;
          (r3, c1) = mul_word a3 w c1;
          (rs, c1) = mul_words_loop ap w c1
      in (r0 # r1 # r2 # r3 # rs, c1))"
| "mul_words_loop (a0 # ap) w c1 =
     (let (r0, c1) = mul_word a0 w c1;
          (rs, c1) = mul_words_loop ap w c1
      in (r0 # rs, c1))"
| "mul_words_loop [] w c1 = ([], c1)"

definition bn_mul_words :: "u64 list \<Rightarrow> u64 \<Rightarrow> u64 list \<times> u64" where
  "bn_mul_words ap w = (if length ap = 0 then ([], 0) else mul_words_loop ap w 0)"

fun bn_sqr_words :: "u64 list \<Rightarrow> u64 list" where
  "bn_sqr_words (a0 # a1 # a2 # a3 # a) =
     (let (r0, r1) = sqr_word a0;
          (r2, r3) = sqr_word a1;
          (r4, r5) = sqr_word a2;
          (r6, r7) = sqr_word a3
      in r0 # r1 # r2 # r3 # r4 # r5 # r6 # r7 # bn_sqr_words a)"
| "bn_sqr_words (a0 # a) = (let (r0, r1) = sqr_word a0 in r0 # r1 # bn_sqr_words a)"
| "bn_sqr_words [] = []"

section \<open>Addition and subtraction\<close>

definition add_step :: "u128 \<Rightarrow> u64 \<Rightarrow> u64 \<Rightarrow> u64 \<times> u128" where
  "add_step ll a b = (let ll = ll + (ucast a + ucast b) in (ucast ll, drop_bit 64 ll))"

fun add_words_loop :: "u64 list \<Rightarrow> u64 list \<Rightarrow> u128 \<Rightarrow> u64 list \<times> u128" where
  "add_words_loop (a0 # a1 # a2 # a3 # a) (b0 # b1 # b2 # b3 # b) ll =
     (let (r0, ll) = add_step ll a0 b0;
          (r1, ll) = add_step ll a1 b1;
          (r2, ll) = add_step ll a2 b2;
          (r3, ll) = add_step ll a3 b3;
          (rs, ll) = add_words_loop a b ll
      in (r0 # r1 # r2 # r3 # rs, ll))"
| "add_words_loop (a0 # a) (b0 # b) ll =
     (let (r0, ll) = add_step ll a0 b0;
          (rs, ll) = add_words_loop a b ll
      in (r0 # rs, ll))"
| "add_words_loop _ _ ll = ([], ll)"

definition bn_add_words :: "u64 list \<Rightarrow> u64 list \<Rightarrow> u64 list \<times> u64" where
  "bn_add_words a b =
     (if length a = 0 then ([], 0) else (case add_words_loop a b 0 of (r, ll) \<Rightarrow> (r, ucast ll)))"

definition sub_step :: "u64 \<Rightarrow> u64 \<Rightarrow> u64 \<Rightarrow> u64 \<times> u64" where
  "sub_step t1 t2 c = (t1 - t2 - c, if t1 \<noteq> t2 then (if t1 < t2 then 1 else 0) else c)"

fun sub_words_loop :: "u64 list \<Rightarrow> u64 list \<Rightarrow> u64 \<Rightarrow> u64 list \<times> u64" where
  "sub_words_loop (a0 # a1 # a2 # a3 # a) (b0 # b1 # b2 # b3 # b) c =
     (let (r0, c) = sub_step a0 b0 c;
          (r1, c) = sub_step a1 b1 c;
          (r2, c) = sub_step a2 b2 c;
          (r3, c) = sub_step a3 b3 c;
          (rs, c) = sub_words_loop a b c
      in (r0 # r1 # r2 # r3 # rs, c))"
| "sub_words_loop (a0 # a) (b0 # b) c =
     (let (r0, c) = sub_step a0 b0 c;
          (rs, c) = sub_words_loop a b c
      in (r0 # rs, c))"
| "sub_words_loop _ _ c = ([], c)"

definition bn_sub_words :: "u64 list \<Rightarrow> u64 list \<Rightarrow> u64 list \<times> u64" where
  "bn_sub_words a b = (if length a = 0 then ([], 0) else sub_words_loop a b 0)"

section \<open>Column products\<close>

text \<open>The accumulator is the number \<open>c0 + B c1 + B\<^sup>2 c2\<close>.\<close>

definition mul_add_c :: "u64 \<Rightarrow> u64 \<Rightarrow> u64 \<times> u64 \<times> u64 \<Rightarrow> u64 \<times> u64 \<times> u64" where
  "mul_add_c a b c =
     (case c of (c0, c1, c2) \<Rightarrow>
        let t = ucast a * ucast b;
            t = t + ucast c0;
            c0 = Lw t;
            hi = Hw t;
            c1 = c1 + hi;
            c2 = (if c1 < hi then c2 + 1 else c2)
        in (c0, c1, c2))"

definition mul_add_c2 :: "u64 \<Rightarrow> u64 \<Rightarrow> u64 \<times> u64 \<times> u64 \<Rightarrow> u64 \<times> u64 \<times> u64" where
  "mul_add_c2 a b c =
     (case c of (c0, c1, c2) \<Rightarrow>
        let t = ucast a * ucast b;
            tt = t + ucast c0;
            c0 = Lw tt;
            hi = Hw tt;
            c1 = c1 + hi;
            c2 = (if c1 < hi then c2 + 1 else c2);
            t = t + ucast c0;
            c0 = Lw t;
            hi = Hw t;
            c1 = c1 + hi;
            c2 = (if c1 < hi then c2 + 1 else c2)
        in (c0, c1, c2))"

definition sqr_add_c :: "u64 list \<Rightarrow> nat \<Rightarrow> u64 \<times> u64 \<times> u64 \<Rightarrow> u64 \<times> u64 \<times> u64" where
  "sqr_add_c a i c =
     (case c of (c0, c1, c2) \<Rightarrow>
        let t = ucast (a ! i) * ucast (a ! i);
            t = t + ucast c0;
            c0 = Lw t;
            hi = Hw t;
            c1 = c1 + hi;
            c2 = (if c1 < hi then c2 + 1 else c2)
        in (c0, c1, c2))"

definition sqr_add_c2 :: "u64 list \<Rightarrow> nat \<Rightarrow> nat \<Rightarrow> u64 \<times> u64 \<times> u64 \<Rightarrow> u64 \<times> u64 \<times> u64" where
  "sqr_add_c2 a i j c = mul_add_c2 (a ! i) (a ! j) c"

text \<open>Each column is added up, its low word stored, and the three words renamed with a zero on top.\<close>

fun comba_columns ::
  "('x \<Rightarrow> u64 \<times> u64 \<times> u64 \<Rightarrow> u64 \<times> u64 \<times> u64) \<Rightarrow> 'x list list \<Rightarrow> u64 \<times> u64 \<times> u64 \<Rightarrow> u64 list" where
  "comba_columns step [] (c0, c1, c2) = [c0]"
| "comba_columns step (col # cols) c =
     (case fold step col c of (c0, c1, c2) \<Rightarrow> c0 # comba_columns step cols (c1, c2, 0))"

definition mul_comba8_table :: "(nat \<times> nat) list list" where
  "mul_comba8_table =
    [[(0, 0)],
     [(0, 1), (1, 0)],
     [(2, 0), (1, 1), (0, 2)],
     [(0, 3), (1, 2), (2, 1), (3, 0)],
     [(4, 0), (3, 1), (2, 2), (1, 3), (0, 4)],
     [(0, 5), (1, 4), (2, 3), (3, 2), (4, 1), (5, 0)],
     [(6, 0), (5, 1), (4, 2), (3, 3), (2, 4), (1, 5), (0, 6)],
     [(0, 7), (1, 6), (2, 5), (3, 4), (4, 3), (5, 2), (6, 1), (7, 0)],
     [(7, 1), (6, 2), (5, 3), (4, 4), (3, 5), (2, 6), (1, 7)],
     [(2, 7), (3, 6), (4, 5), (5, 4), (6, 3), (7, 2)],
     [(7, 3), (6, 4), (5, 5), (4, 6), (3, 7)],
     [(4, 7), (5, 6), (6, 5), (7, 4)],
     [(7, 5), (6, 6), (5, 7)],
     [(6, 7), (7, 6)],
     [(7, 7)]]"

definition mul_comba4_table :: "(nat \<times> nat) list list" where
  "mul_comba4_table =
    [[(0, 0)],
     [(0, 1), (1, 0)],
     [(2, 0), (1, 1), (0, 2)],
     [(0, 3), (1, 2), (2, 1), (3, 0)],
     [(3, 1), (2, 2), (1, 3)],
     [(2, 3), (3, 2)],
     [(3, 3)]]"

definition sqr_comba8_table :: "(nat \<times> nat) list list" where
  "sqr_comba8_table =
    [[(0, 0)],
     [(1, 0)],
     [(1, 1), (2, 0)],
     [(3, 0), (2, 1)],
     [(2, 2), (3, 1), (4, 0)],
     [(5, 0), (4, 1), (3, 2)],
     [(3, 3), (4, 2), (5, 1), (6, 0)],
     [(7, 0), (6, 1), (5, 2), (4, 3)],
     [(4, 4), (5, 3), (6, 2), (7, 1)],
     [(7, 2), (6, 3), (5, 4)],
     [(5, 5), (6, 4), (7, 3)],
     [(7, 4), (6, 5)],
     [(6, 6), (7, 5)],
     [(7, 6)],
     [(7, 7)]]"

definition sqr_comba4_table :: "(nat \<times> nat) list list" where
  "sqr_comba4_table =
    [[(0, 0)],
     [(1, 0)],
     [(1, 1), (2, 0)],
     [(3, 0), (2, 1)],
     [(2, 2), (3, 1)],
     [(3, 2)],
     [(3, 3)]]"

definition bn_mul_comba8 :: "u64 list \<Rightarrow> u64 list \<Rightarrow> u64 list" where
  "bn_mul_comba8 a b = comba_columns (\<lambda>(i, j). mul_add_c (a ! i) (b ! j)) mul_comba8_table (0, 0, 0)"

definition bn_mul_comba4 :: "u64 list \<Rightarrow> u64 list \<Rightarrow> u64 list" where
  "bn_mul_comba4 a b = comba_columns (\<lambda>(i, j). mul_add_c (a ! i) (b ! j)) mul_comba4_table (0, 0, 0)"

definition bn_sqr_comba8 :: "u64 list \<Rightarrow> u64 list" where
  "bn_sqr_comba8 a =
     comba_columns (\<lambda>(i, j). if i = j then sqr_add_c a i else sqr_add_c2 a i j) sqr_comba8_table (0, 0, 0)"

definition bn_sqr_comba4 :: "u64 list \<Rightarrow> u64 list" where
  "bn_sqr_comba4 a =
     comba_columns (\<lambda>(i, j). if i = j then sqr_add_c a i else sqr_add_c2 a i j) sqr_comba4_table (0, 0, 0)"

section \<open>The numbers\<close>

definition BN_B :: nat where "BN_B = 2 ^ 64"

primrec bn_val :: "u64 list \<Rightarrow> nat" where
  "bn_val [] = 0"
| "bn_val (w # ws) = unat w + BN_B * bn_val ws"

lemma BN_B_pos [simp]: "0 < BN_B" "BN_B \<noteq> 0" by (simp_all add: BN_B_def)

lemma unat_u64_BN [simp]: "unat (w :: u64) < BN_B"
  using unat_u64_less [of w] by (simp add: BN_B_def)

lemma bn_val_bound: "bn_val ws < BN_B ^ length ws"
proof (induction ws)
  case (Cons w ws)
  have "unat w + BN_B * bn_val ws < BN_B + BN_B * bn_val ws" by simp
  also have "\<dots> = BN_B * Suc (bn_val ws)" by simp
  also have "\<dots> \<le> BN_B * BN_B ^ length ws" using Cons by (intro mult_le_mono2) simp
  finally show ?case by simp
qed simp

lemma bn_val_append: "bn_val (xs @ ys) = bn_val xs + BN_B ^ length xs * bn_val ys"
  by (induction xs) (simp_all add: algebra_simps)

lemma bn_val_zeros [simp]: "bn_val (replicate n 0) = 0"
  by (induction n) simp_all

lemma bn_val_eq_0: "bn_val ws = 0 \<longleftrightarrow> (\<forall>w \<in> set ws. w = 0)"
  by (induction ws) (simp_all add: unsigned_eq_0_iff)

lemma digit_less: "a < BN_B \<Longrightarrow> b < n \<Longrightarrow> a + BN_B * b < BN_B * n"
proof -
  assume a: "a < BN_B" and b: "b < n"
  have "a + BN_B * b < BN_B * Suc b" using a by simp
  also have "\<dots> \<le> BN_B * n" using b by (intro mult_le_mono2) simp
  finally show ?thesis .
qed

text \<open>Strings of the same length denote the same number only when they are equal.\<close>

lemma bn_val_inj: "length xs = length ys \<Longrightarrow> bn_val xs = bn_val ys \<Longrightarrow> xs = ys"
proof (induction xs ys rule: list_induct2)
  case (Cons x xs y ys)
  have "unat x = (unat x + BN_B * bn_val xs) mod BN_B" by simp
  also have "\<dots> = (unat y + BN_B * bn_val ys) mod BN_B" using Cons.prems by simp
  also have "\<dots> = unat y" by simp
  finally have x: "unat x = unat y" .
  then have "bn_val xs = bn_val ys" using Cons.prems by simp
  then show ?case using Cons.IH unsigned_word_eqI [OF x] by simp
qed simp

lemma unat_Lw: "unat (Lw t) = unat t mod BN_B"
  by (simp add: Lw_def BN_B_def unsigned_ucast_eq take_bit_eq_mod)

lemma unat_Hw: "unat (Hw t) = unat t div BN_B"
proof -
  have "unat t < 2 ^ 128" by (rule less_le_trans [OF unsigned_less]) simp
  then have "unat t div 2 ^ 64 < 2 ^ 64" by (simp add: div_less_iff_less_mult)
  then show ?thesis by (simp add: Hw_def BN_B_def unsigned_ucast_eq take_bit_eq_mod unat_drop_bit)
qed

lemma Lw_Hw: "unat (Lw t) + BN_B * unat (Hw t) = unat t"
  by (simp add: unat_Lw unat_Hw)

text \<open>The 128-bit sum of a product and two words does not overflow.\<close>

lemma unat_ucast_128 [simp]: "unat (ucast (w :: u64) :: u128) = unat w"
  by (simp add: unsigned_ucast_eq take_bit_nat_eq_self_iff) (rule less_trans [OF unat_u64_less], simp)

lemma product_bound: "unat w * unat a + unat r + unat c < BN_B * BN_B" for w a r c :: u64
proof -
  have "unat w \<le> BN_B - 1" "unat a \<le> BN_B - 1" "unat r \<le> BN_B - 1" "unat c \<le> BN_B - 1"
    using unat_u64_BN [of w] unat_u64_BN [of a] unat_u64_BN [of r] unat_u64_BN [of c] by linarith+
  then have "unat w * unat a \<le> (BN_B - 1) * (BN_B - 1)" by (intro mult_le_mono)
  moreover have "(BN_B - 1) * (BN_B - 1) + (BN_B - 1) + (BN_B - 1) < BN_B * BN_B"
    by (simp add: BN_B_def)
  ultimately show ?thesis
    using \<open>unat r \<le> BN_B - 1\<close> \<open>unat c \<le> BN_B - 1\<close> by linarith
qed

lemma unat_muladd:
  "unat (ucast w * ucast a + ucast r + ucast c :: u128) = unat (w :: u64) * unat (a :: u64) + unat (r :: u64) + unat (c :: u64)"
proof -
  have "unat w * unat a + unat r + unat c < 2 ^ 128" using product_bound [of w a r c] by (simp add: BN_B_def)
  then show ?thesis by (simp add: unat_word_ariths mod_add_left_eq)
qed

lemma mul_add_val: "mul_add r a w c = (r', c') \<Longrightarrow> unat r' + BN_B * unat c' = unat r + unat w * unat a + unat c"
  using Lw_Hw [of "ucast w * ucast a + ucast r + ucast c"] unat_muladd [of w a r c]
  by (auto simp: mul_add_def Let_def)

lemma mul_word_mul_add: "mul_word a w c = mul_add 0 a w c"
  by (simp add: mul_word_def mul_add_def)

lemma sqr_word_mul_add: "sqr_word a = mul_add 0 a a 0"
  by (simp add: sqr_word_def mul_add_def)

section \<open>The loops\<close>

text \<open>Four steps at a time are four times one step.\<close>

lemma mul_add_loop_Cons:
  "mul_add_loop (r # rp) (a # ap) w c =
     (let (r, c) = mul_add r a w c; (rs, c) = mul_add_loop rp ap w c in (r # rs, c))"
proof (induction "length ap" arbitrary: r rp a ap c rule: less_induct)
  case less
  consider (four) r1 r2 r3 rp' a1 a2 a3 ap' where "rp = r1 # r2 # r3 # rp'" "ap = a1 # a2 # a3 # ap'" |
    (few) "\<nexists>r1 r2 r3 rp' a1 a2 a3 ap'. rp = r1 # r2 # r3 # rp' \<and> ap = a1 # a2 # a3 # ap'" by blast
  then show ?case
  proof cases
    case four
    show ?thesis unfolding four
      by (simp add: less four Let_def case_prod_unfold)
  next
    case few
    then show ?thesis
      by (cases "(r # rp, a # ap, w, c)" rule: mul_add_loop.cases) auto
  qed
qed

declare mul_add_loop.simps(1,2) [simp del]

lemma mul_add_loop_val:
  "length rp = length ap \<Longrightarrow> mul_add_loop rp ap w c = (rs, c') \<Longrightarrow>
    length rs = length ap \<and> bn_val rs + BN_B ^ length ap * unat c' = bn_val rp + unat w * bn_val ap + unat c"
proof (induction rp ap arbitrary: c rs rule: list_induct2)
  case (Cons r rp a ap)
  obtain r1 c1 where m: "mul_add r a w c = (r1, c1)" by (rule prod.exhaust)
  obtain rs1 where l: "mul_add_loop rp ap w c1 = (rs1, c')" "rs = r1 # rs1"
    using Cons.prems by (auto simp: mul_add_loop_Cons m Let_def split: prod.splits)
  note IH = Cons.IH [OF l(1)]
  have "bn_val rs + BN_B ^ length (a # ap) * unat c' = unat r1 + BN_B * (bn_val rs1 + BN_B ^ length ap * unat c')"
    by (simp add: l(2) algebra_simps)
  also have "\<dots> = (unat r1 + BN_B * unat c1) + BN_B * (bn_val rp + unat w * bn_val ap)"
    using IH by (simp add: algebra_simps)
  also have "\<dots> = bn_val (r # rp) + unat w * bn_val (a # ap) + unat c"
    using mul_add_val [OF m] by (simp add: algebra_simps)
  finally show ?case using IH by (simp add: l(2))
qed simp

lemma bn_mul_add_words_val:
  assumes "length rp = length ap" "bn_mul_add_words rp ap w = (rs, c)"
  shows "length rs = length ap \<and> bn_val rs + BN_B ^ length ap * unat c = bn_val rp + unat w * bn_val ap"
  using assms mul_add_loop_val [OF assms(1), of w 0] by (auto simp: bn_mul_add_words_def split: if_splits)

lemma mul_words_loop_Cons:
  "mul_words_loop (a # ap) w c = (let (r, c) = mul_word a w c; (rs, c) = mul_words_loop ap w c in (r # rs, c))"
proof (induction "length ap" arbitrary: a ap c rule: less_induct)
  case less
  consider (four) a1 a2 a3 ap' where "ap = a1 # a2 # a3 # ap'" | (few) "\<nexists>a1 a2 a3 ap'. ap = a1 # a2 # a3 # ap'" by blast
  then show ?case
  proof cases
    case four
    show ?thesis unfolding four by (simp add: less four Let_def case_prod_unfold)
  next
    case few
    then show ?thesis by (cases "(a # ap, w, c)" rule: mul_words_loop.cases) auto
  qed
qed

declare mul_words_loop.simps(1,2) [simp del]

lemma mul_words_loop_mul_add: "mul_words_loop ap w c = mul_add_loop (replicate (length ap) 0) ap w c"
  by (induction ap arbitrary: c)
    (simp_all add: mul_words_loop_Cons mul_add_loop_Cons mul_word_mul_add Let_def case_prod_unfold)

lemma bn_mul_words_val:
  assumes "bn_mul_words ap w = (rs, c)"
  shows "length rs = length ap \<and> bn_val rs + BN_B ^ length ap * unat c = unat w * bn_val ap"
proof (cases "length ap = 0")
  case False
  then have "mul_add_loop (replicate (length ap) 0) ap w 0 = (rs, c)"
    using assms by (simp add: bn_mul_words_def mul_words_loop_mul_add)
  from mul_add_loop_val [OF _ this] show ?thesis by simp
qed (use assms in \<open>auto simp: bn_mul_words_def\<close>)

text \<open>The squares of the words, two words each.\<close>

primrec sum_squares :: "u64 list \<Rightarrow> nat" where
  "sum_squares [] = 0"
| "sum_squares (a # as) = unat a * unat a + BN_B * BN_B * sum_squares as"

lemma sqr_word_val: "sqr_word a = (r0, r1) \<Longrightarrow> unat r0 + BN_B * unat r1 = unat a * unat a"
  using mul_add_val [of 0 a a 0 r0 r1] by (simp add: sqr_word_mul_add)

lemma bn_sqr_words_Cons: "bn_sqr_words (a # as) = fst (sqr_word a) # snd (sqr_word a) # bn_sqr_words as"
proof (induction "length as" arbitrary: a as rule: less_induct)
  case less
  consider (four) a1 a2 a3 as' where "as = a1 # a2 # a3 # as'" | (few) "\<nexists>a1 a2 a3 as'. as = a1 # a2 # a3 # as'" by blast
  then show ?case
  proof cases
    case four
    show ?thesis unfolding four by (simp add: less four Let_def case_prod_unfold)
  next
    case few
    then show ?thesis by (cases "a # as" rule: bn_sqr_words.cases) (auto simp: case_prod_unfold Let_def)
  qed
qed

declare bn_sqr_words.simps(1,2) [simp del]

lemma bn_sqr_words_val: "length (bn_sqr_words as) = 2 * length as \<and> bn_val (bn_sqr_words as) = sum_squares as"
proof (induction as)
  case (Cons a as)
  have "unat (fst (sqr_word a)) + BN_B * unat (snd (sqr_word a)) = unat a * unat a"
    by (rule sqr_word_val) simp
  then show ?case using Cons by (simp add: bn_sqr_words_Cons algebra_simps)
qed simp

section \<open>Addition and subtraction as arithmetic\<close>

lemma add_step_val:
  assumes "unat ll \<le> 1" "add_step ll a b = (r, ll')"
  shows "unat r + BN_B * unat ll' = unat ll + unat a + unat b" "unat ll' \<le> 1"
proof -
  have b: "unat a + unat b + unat ll < 2 * BN_B" using unat_u64_BN [of a] unat_u64_BN [of b] assms(1) by linarith
  also have "\<dots> \<le> 2 ^ 128" by (simp add: BN_B_def)
  finally have u: "unat (ll + (ucast a + ucast b)) = unat ll + unat a + unat b"
    by (simp add: unat_word_ariths mod_add_right_eq)
  have r: "r = Lw (ll + (ucast a + ucast b))" "unat ll' = unat (ll + (ucast a + ucast b)) div BN_B"
    using assms(2) by (auto simp: add_step_def Lw_def Let_def unat_drop_bit BN_B_def)
  show "unat r + BN_B * unat ll' = unat ll + unat a + unat b" by (simp add: r unat_Lw u)
  have "unat ll' < 2" unfolding r(2) u using b by (simp add: div_less_iff_less_mult)
  then show "unat ll' \<le> 1" by simp
qed

lemma add_words_loop_Cons:
  "add_words_loop (a # as) (b # bs) ll =
     (let (r, ll) = add_step ll a b; (rs, ll) = add_words_loop as bs ll in (r # rs, ll))"
proof (induction "length as" arbitrary: a as b bs ll rule: less_induct)
  case less
  consider (four) a1 a2 a3 as' b1 b2 b3 bs' where "as = a1 # a2 # a3 # as'" "bs = b1 # b2 # b3 # bs'" |
    (few) "\<nexists>a1 a2 a3 as' b1 b2 b3 bs'. as = a1 # a2 # a3 # as' \<and> bs = b1 # b2 # b3 # bs'" by blast
  then show ?case
  proof cases
    case four
    show ?thesis unfolding four by (simp add: less four Let_def case_prod_unfold)
  next
    case few
    then show ?thesis by (cases "(a # as, b # bs, ll)" rule: add_words_loop.cases) auto
  qed
qed

declare add_words_loop.simps(1,2) [simp del]

lemma add_words_loop_val:
  "length as = length bs \<Longrightarrow> unat ll \<le> 1 \<Longrightarrow> add_words_loop as bs ll = (rs, ll') \<Longrightarrow>
    length rs = length as \<and> unat ll' \<le> 1 \<and> bn_val rs + BN_B ^ length as * unat ll' = bn_val as + bn_val bs + unat ll"
proof (induction as bs arbitrary: ll rs rule: list_induct2)
  case (Cons a as b bs)
  obtain r l1 where m: "add_step ll a b = (r, l1)" by (rule prod.exhaust)
  obtain rs1 where l: "add_words_loop as bs l1 = (rs1, ll')" "rs = r # rs1"
    using Cons.prems by (auto simp: add_words_loop_Cons m Let_def split: prod.splits)
  note v = add_step_val [OF Cons.prems(1) m]
  note IH = Cons.IH [OF v(2) l(1)]
  have "bn_val rs + BN_B ^ length (a # as) * unat ll' = unat r + BN_B * (bn_val rs1 + BN_B ^ length as * unat ll')"
    by (simp add: l(2) algebra_simps)
  also have "\<dots> = (unat r + BN_B * unat l1) + BN_B * (bn_val as + bn_val bs)"
    using IH by (simp add: algebra_simps)
  also have "\<dots> = bn_val (a # as) + bn_val (b # bs) + unat ll"
    using v(1) by (simp add: algebra_simps)
  finally show ?case using IH by (simp add: l(2))
qed simp

lemma bn_add_words_val:
  assumes "length as = length bs" "bn_add_words as bs = (rs, c)"
  shows "length rs = length as \<and> unat c \<le> 1 \<and> bn_val rs + BN_B ^ length as * unat c = bn_val as + bn_val bs"
proof (cases "length as = 0")
  case True
  then show ?thesis using assms by (simp add: bn_add_words_def)
next
  case False
  obtain ll where l: "add_words_loop as bs 0 = (rs, ll)" "c = ucast ll"
    using assms(2) False by (auto simp: bn_add_words_def split: prod.splits)
  note v = add_words_loop_val [OF assms(1) _ l(1), simplified]
  then have "unat c = unat ll" by (simp add: l(2) unsigned_ucast_eq take_bit_nat_eq_self_iff)
  then show ?thesis using v by simp
qed

lemma sub_step_val:
  assumes "unat c \<le> 1" "sub_step a b c = (r, c')"
  shows "unat r + unat b + unat c = unat a + BN_B * unat c'" "unat c' \<le> 1"
proof -
  have c: "c = 0 \<or> c = 1" using assms(1) by (auto simp: word_unat_eq_iff le_Suc_eq)
  have r: "r = a - b - c" "c' = (if a \<noteq> b then (if a < b then 1 else 0) else c)" using assms(2) by (auto simp: sub_step_def)
  show "unat c' \<le> 1" using assms(1) by (simp add: r(2))
  show "unat r + unat b + unat c = unat a + BN_B * unat c'"
  proof (cases "unat b + unat c \<le> unat a")
    case True
    then have "unat (a - b) = unat a - unat b" by (simp add: unat_sub_if')
    then have "unat r = unat a - unat b - unat c" using True c by (auto simp: r(1) unat_sub_if')
    moreover have "c' = 0" using True c by (auto simp: r(2) word_less_nat_alt word_unat_eq_iff)
    ultimately show ?thesis using True by simp
  next
    case False
    then have "c' = 1" using c by (auto simp: r(2) word_less_nat_alt word_unat_eq_iff)
    moreover have "unat r = unat a + BN_B - unat b - unat c"
    proof (cases "unat b \<le> unat a")
      case True
      then have "a = b" "c = 1" using False c by (auto simp: word_unat_eq_iff)
      then show ?thesis by (simp add: r(1) BN_B_def unsigned_minus_1_eq_mask mask_eq_exp_minus_1)
    next
      case lt: False
      then have "unat (a - b) = unat a + BN_B - unat b" by (simp add: unat_sub_if' BN_B_def)
      then show ?thesis using c lt unat_u64_BN [of b] by (auto simp: r(1) unat_sub_if' BN_B_def)
    qed
    moreover have "unat b + unat c \<le> unat a + BN_B" using unat_u64_BN [of b] assms(1) by linarith
    ultimately show ?thesis by simp
  qed
qed

lemma sub_words_loop_Cons:
  "sub_words_loop (a # as) (b # bs) c =
     (let (r, c) = sub_step a b c; (rs, c) = sub_words_loop as bs c in (r # rs, c))"
proof (induction "length as" arbitrary: a as b bs c rule: less_induct)
  case less
  consider (four) a1 a2 a3 as' b1 b2 b3 bs' where "as = a1 # a2 # a3 # as'" "bs = b1 # b2 # b3 # bs'" |
    (few) "\<nexists>a1 a2 a3 as' b1 b2 b3 bs'. as = a1 # a2 # a3 # as' \<and> bs = b1 # b2 # b3 # bs'" by blast
  then show ?case
  proof cases
    case four
    show ?thesis unfolding four by (simp add: less four Let_def case_prod_unfold)
  next
    case few
    then show ?thesis by (cases "(a # as, b # bs, c)" rule: sub_words_loop.cases) auto
  qed
qed

declare sub_words_loop.simps(1,2) [simp del]

lemma sub_words_loop_val:
  "length as = length bs \<Longrightarrow> unat c \<le> 1 \<Longrightarrow> sub_words_loop as bs c = (rs, c') \<Longrightarrow>
    length rs = length as \<and> unat c' \<le> 1 \<and> bn_val rs + bn_val bs + unat c = bn_val as + BN_B ^ length as * unat c'"
proof (induction as bs arbitrary: c rs rule: list_induct2)
  case (Cons a as b bs)
  obtain r c1 where m: "sub_step a b c = (r, c1)" by (rule prod.exhaust)
  obtain rs1 where l: "sub_words_loop as bs c1 = (rs1, c')" "rs = r # rs1"
    using Cons.prems by (auto simp: sub_words_loop_Cons m Let_def split: prod.splits)
  note v = sub_step_val [OF Cons.prems(1) m]
  note IH = Cons.IH [OF v(2) l(1)]
  have "bn_val rs + bn_val (b # bs) + unat c + BN_B * unat c1 =
      (unat r + unat b + unat c) + BN_B * (bn_val rs1 + bn_val bs + unat c1)"
    by (simp add: l(2) algebra_simps)
  also have "\<dots> = unat a + BN_B * unat c1 + BN_B * (bn_val as + BN_B ^ length as * unat c')"
    using v(1) IH by simp
  also have "\<dots> = bn_val (a # as) + BN_B ^ length (a # as) * unat c' + BN_B * unat c1" by (simp add: algebra_simps)
  finally show ?case using IH by (simp add: l(2))
qed simp

lemma bn_sub_words_val:
  assumes "length as = length bs" "bn_sub_words as bs = (rs, c)"
  shows "length rs = length as \<and> unat c \<le> 1 \<and> bn_val rs + bn_val bs = bn_val as + BN_B ^ length as * unat c"
proof (cases "length as = 0")
  case False
  then have "sub_words_loop as bs 0 = (rs, c)" using assms(2) by (simp add: bn_sub_words_def)
  from sub_words_loop_val [OF assms(1) _ this] show ?thesis by simp
qed (use assms in \<open>auto simp: bn_sub_words_def\<close>)

text \<open>The borrow says which number is larger.\<close>

lemma bn_sub_words_borrow:
  assumes "length as = length bs" "bn_sub_words as bs = (rs, c)"
  shows "c = (if bn_val as < bn_val bs then 1 else 0)"
proof -
  note v = bn_sub_words_val [OF assms]
  have "bn_val rs < BN_B ^ length as" using v bn_val_bound [of rs] by simp
  then have "unat c = (if bn_val as < bn_val bs then 1 else 0)"
    using v by (cases "unat c = 0") (auto simp: le_Suc_eq)
  then show ?thesis by (simp add: word_unat_eq_iff split: if_splits)
qed

section \<open>Column products as arithmetic\<close>

definition acc_val :: "u64 \<times> u64 \<times> u64 \<Rightarrow> nat" where
  "acc_val c = (case c of (c0, c1, c2) \<Rightarrow> unat c0 + BN_B * (unat c1 + BN_B * unat c2))"

lemma carry_word:
  fixes c1 hi :: u64
  shows "unat (c1 + hi) + BN_B * (if c1 + hi < hi then 1 else 0) = unat c1 + unat hi"
proof (cases "unat c1 + unat hi < BN_B")
  case True
  then have "unat (c1 + hi) = unat c1 + unat hi" by (simp add: unat_word_ariths BN_B_def)
  then show ?thesis by (simp add: word_less_nat_alt)
next
  case False
  then have "unat c1 + unat hi - BN_B < BN_B" using unat_u64_BN [of c1] unat_u64_BN [of hi] by linarith
  then have "unat (c1 + hi) = unat c1 + unat hi - BN_B"
    using False by (simp add: unat_word_ariths BN_B_def mod_if)
  moreover have "unat c1 + unat hi - BN_B < unat hi" using False unat_u64_BN [of c1] by linarith
  ultimately show ?thesis using False by (simp add: word_less_nat_alt)
qed

lemma mul_add_c_val:
  assumes "acc_val c + unat a * unat b < BN_B * (BN_B * BN_B)"
  shows "acc_val (mul_add_c a b c) = acc_val c + unat a * unat b"
proof -
  obtain c0 c1 c2 where c: "c = (c0, c1, c2)" by (rule prod_cases3)
  define t :: u128 where "t = ucast a * ucast b + ucast c0"
  have t: "unat t = unat a * unat b + unat c0" using unat_muladd [of a b c0 0] by (simp add: t_def)
  define k :: nat where "k = (if c1 + Hw t < Hw t then 1 else 0)"
  have carry: "unat (c1 + Hw t) + BN_B * k = unat c1 + unat (Hw t)" unfolding k_def by (rule carry_word)
  have "unat (Lw t) + BN_B * (unat (c1 + Hw t) + BN_B * (k + unat c2)) =
      (unat (Lw t) + BN_B * unat (Hw t)) + BN_B * (unat c1 + BN_B * unat c2)"
    using arg_cong [OF carry, of "\<lambda>x. BN_B * x"] by (simp add: algebra_simps)
  also have "\<dots> = acc_val c + unat a * unat b" using Lw_Hw [of t] by (simp add: t c acc_val_def)
  finally have sum: "unat (Lw t) + BN_B * (unat (c1 + Hw t) + BN_B * (k + unat c2)) = acc_val c + unat a * unat b" .
  then have "BN_B * (BN_B * (k + unat c2)) < BN_B * (BN_B * BN_B)" using assms by (simp add: distrib_left)
  then have "k + unat c2 < BN_B" by simp
  then have "unat (if c1 + Hw t < Hw t then c2 + 1 else c2) = k + unat c2"
    by (auto simp: k_def BN_B_def unat_word_ariths)
  then show ?thesis using sum
    by (simp add: mul_add_c_def c Let_def acc_val_def flip: t_def)
qed

lemma mul_add_c2_twice: "mul_add_c2 a b c = mul_add_c a b (mul_add_c a b c)"
  by (simp add: mul_add_c2_def mul_add_c_def Let_def split: prod.splits)

lemma sqr_add_c_mul_add_c: "sqr_add_c a i = mul_add_c (a ! i) (a ! i)"
  by (simp add: sqr_add_c_def mul_add_c_def fun_eq_iff)

text \<open>A step that adds \<open>f x\<close> as long as the accumulator can hold the sum.\<close>

definition comba_step :: "('x \<Rightarrow> u64 \<times> u64 \<times> u64 \<Rightarrow> u64 \<times> u64 \<times> u64) \<Rightarrow> ('x \<Rightarrow> nat) \<Rightarrow> bool" where
  "comba_step step f \<longleftrightarrow>
     (\<forall>x c. acc_val c + f x < BN_B * (BN_B * BN_B) \<longrightarrow> acc_val (step x c) = acc_val c + f x)"

lemma comba_fold:
  assumes "comba_step step f"
  shows "acc_val c + sum_list (map f col) < BN_B * (BN_B * BN_B) \<Longrightarrow>
    acc_val (fold step col c) = acc_val c + sum_list (map f col)"
proof (induction col arbitrary: c)
  case (Cons x col)
  have "acc_val c + f x < BN_B * (BN_B * BN_B)" using Cons.prems by simp
  then have "acc_val (step x c) = acc_val c + f x" using assms unfolding comba_step_def by blast
  then show ?case using Cons by simp
qed simp

primrec comba_total :: "('x \<Rightarrow> nat) \<Rightarrow> 'x list list \<Rightarrow> nat" where
  "comba_total f [] = 0"
| "comba_total f (col # cols) = sum_list (map f col) + BN_B * comba_total f cols"

lemma digit_mod: "c < BN_B \<Longrightarrow> (c + BN_B * x) mod BN_B ^ Suc n = c + BN_B * (x mod BN_B ^ n)"
  by (simp add: mod_mult2_eq)

text \<open>When no column has more than \<open>m\<close> products, the carry into a column is at most \<open>m B\<close>.\<close>

lemma comba_columns_val:
  assumes "comba_step step f" "m < BN_B"
    and "\<And>col. col \<in> set cols \<Longrightarrow> sum_list (map f col) \<le> m * ((BN_B - 1) * (BN_B - 1))"
  shows "acc_val c \<le> m * BN_B \<Longrightarrow>
    bn_val (comba_columns step cols c) = (acc_val c + comba_total f cols) mod BN_B ^ Suc (length cols) \<and>
    length (comba_columns step cols c) = Suc (length cols)"
  using assms(3)
proof (induction cols arbitrary: c)
  case Nil
  obtain c0 c1 c2 where "c = (c0, c1, c2)" by (rule prod_cases3)
  then show ?case by (simp add: acc_val_def)
next
  case (Cons col cols)
  obtain c0 c1 c2 where f: "fold step col c = (c0, c1, c2)" by (rule prod_cases3)
  have s: "sum_list (map f col) \<le> m * ((BN_B - 1) * (BN_B - 1))" using Cons.prems(2) by simp
  have "acc_val c + sum_list (map f col) \<le> m * BN_B + m * ((BN_B - 1) * (BN_B - 1))" using Cons.prems(1) s by linarith
  also have "\<dots> = m * (BN_B + (BN_B - 1) * (BN_B - 1))" by (simp add: algebra_simps)
  also have "\<dots> \<le> m * (BN_B * BN_B)" by (intro mult_le_mono2) (simp add: BN_B_def)
  finally have le: "acc_val c + sum_list (map f col) \<le> m * (BN_B * BN_B)" .
  also have "\<dots> < BN_B * (BN_B * BN_B)" using assms(2) by simp
  finally have v: "acc_val (c0, c1, c2) = acc_val c + sum_list (map f col)" using comba_fold [OF assms(1)] f by metis
  have e: "acc_val (c0, c1, c2) = unat c0 + BN_B * acc_val (c1, c2, 0)" by (simp add: acc_val_def)
  have "BN_B * acc_val (c1, c2, 0) \<le> m * (BN_B * BN_B)" using le v e by linarith
  then have "acc_val (c1, c2, 0) \<le> m * BN_B" by (simp add: mult_ac)
  note IH = Cons.IH [OF this Cons.prems(2)]
  have "bn_val (comba_columns step (col # cols) c) =
      unat c0 + BN_B * ((acc_val (c1, c2, 0) + comba_total f cols) mod BN_B ^ Suc (length cols))"
    using IH by (simp add: f)
  also have "\<dots> = (unat c0 + BN_B * (acc_val (c1, c2, 0) + comba_total f cols)) mod BN_B ^ Suc (Suc (length cols))"
    by (rule digit_mod [symmetric]) simp
  also have "unat c0 + BN_B * (acc_val (c1, c2, 0) + comba_total f cols) = acc_val c + comba_total f (col # cols)"
    using v e by (simp add: distrib_left)
  finally show ?case using IH by (simp add: f del: power_Suc)
qed

section \<open>A table with every pair once multiplies\<close>

lemma bn_val_sum: "bn_val ws = (\<Sum>i<length ws. unat (ws ! i) * BN_B ^ i)"
proof (induction ws)
  case (Cons w ws)
  show ?case unfolding length_Cons sum.lessThan_Suc_shift using Cons by (simp add: sum_distrib_left mult_ac)
qed simp

lemma comba_total_pairs:
  assumes "\<And>k x. k < length cols \<Longrightarrow> x \<in> set (cols ! k) \<Longrightarrow> pos x = off + k"
  shows "BN_B ^ off * comba_total f cols = sum_list (map (\<lambda>x. f x * BN_B ^ pos x) (concat cols))"
  using assms
proof (induction cols arbitrary: off)
  case (Cons col cols)
  have "pos x = Suc off + k" if "k < length cols" "x \<in> set (cols ! k)" for k x
    using Cons.prems [of "Suc k" x] that by simp
  note IH = Cons.IH [OF this]
  have "pos x = off" if "x \<in> set col" for x using Cons.prems [of 0 x] that by simp
  then have "sum_list (map (\<lambda>x. f x * BN_B ^ pos x) col) = sum_list (map (\<lambda>x. f x * BN_B ^ off) col)"
    by (metis (mono_tags, lifting) map_eq_conv)
  also have "\<dots> = BN_B ^ off * sum_list (map f col)" by (simp only: mult.commute [of _ "BN_B ^ off"] sum_list_const_mult)
  finally show ?case using IH by (simp add: algebra_simps)
qed simp

lemma all_pairs_product:
  assumes "distinct ps" "set ps = {..<length a} \<times> {..<length b}"
  shows "sum_list (map (\<lambda>(i, j). unat (a ! i) * unat (b ! j) * BN_B ^ (i + j)) ps) = bn_val a * bn_val b"
proof -
  have "sum_list (map (\<lambda>(i, j). unat (a ! i) * unat (b ! j) * BN_B ^ (i + j)) ps) =
      (\<Sum>(i, j) \<in> {..<length a} \<times> {..<length b}. unat (a ! i) * unat (b ! j) * BN_B ^ (i + j))"
    using sum_list_distinct_conv_sum_set [OF assms(1)] assms(2) by simp
  also have "\<dots> = bn_val a * bn_val b"
    unfolding bn_val_sum sum_product sum.cartesian_product [symmetric]
    by (simp add: power_add mult_ac)
  finally show ?thesis .
qed

lemma word_product_bound: "unat (x :: u64) * unat (y :: u64) \<le> (BN_B - 1) * (BN_B - 1)"
  using unat_u64_BN [of x] unat_u64_BN [of y] by (intro mult_le_mono) linarith+

lemma sum_list_bound: "(\<And>x. x \<in> set xs \<Longrightarrow> f x \<le> (k :: nat)) \<Longrightarrow> sum_list (map f xs) \<le> length xs * k"
  by (induction xs) (simp_all add: add_mono)

lemma comba_mul_val:
  assumes "\<And>k i j. k < length cols \<Longrightarrow> (i, j) \<in> set (cols ! k) \<Longrightarrow> i + j = k"
    and "\<And>col. col \<in> set cols \<Longrightarrow> length col \<le> m" "m < BN_B"
    and "distinct (concat cols)" "set (concat cols) = {..<length a} \<times> {..<length b}"
    and "length a + length b = Suc (length cols)"
  shows "bn_val (comba_columns (\<lambda>(i, j). mul_add_c (a ! i) (b ! j)) cols (0, 0, 0)) = bn_val a * bn_val b \<and>
    length (comba_columns (\<lambda>(i, j). mul_add_c (a ! i) (b ! j)) cols (0, 0, 0)) = length a + length b"
proof -
  let ?f = "\<lambda>(i, j). unat (a ! i) * unat (b ! j)"
  have s: "comba_step (\<lambda>(i, j). mul_add_c (a ! i) (b ! j)) ?f"
    unfolding comba_step_def using mul_add_c_val by (auto simp del: split_paired_All)
  have "sum_list (map ?f col) \<le> m * ((BN_B - 1) * (BN_B - 1))" if "col \<in> set cols" for col
  proof -
    have "sum_list (map ?f col) \<le> length col * ((BN_B - 1) * (BN_B - 1))"
    proof (rule sum_list_bound)
      show "?f x \<le> (BN_B - 1) * (BN_B - 1)" for x
        using word_product_bound [of "a ! fst x" "b ! snd x"] by (simp only: case_prod_unfold)
    qed
    also have "\<dots> \<le> m * ((BN_B - 1) * (BN_B - 1))" using assms(2) [OF that] by (rule mult_le_mono1)
    finally show ?thesis .
  qed
  from comba_columns_val [OF s assms(3) this, where c = "(0, 0, 0)" and cols = cols]
  have v: "bn_val (comba_columns (\<lambda>(i, j). mul_add_c (a ! i) (b ! j)) cols (0, 0, 0)) = comba_total ?f cols mod BN_B ^ Suc (length cols)"
    "length (comba_columns (\<lambda>(i, j). mul_add_c (a ! i) (b ! j)) cols (0, 0, 0)) = Suc (length cols)"
    by (simp_all add: acc_val_def)
  have "BN_B ^ 0 * comba_total ?f cols = sum_list (map (\<lambda>x. ?f x * BN_B ^ (case x of (i, j) \<Rightarrow> i + j)) (concat cols))"
    by (rule comba_total_pairs) (use assms(1) in auto)
  also have "\<dots> = sum_list (map (\<lambda>(i, j). unat (a ! i) * unat (b ! j) * BN_B ^ (i + j)) (concat cols))"
    by (intro arg_cong [where f = sum_list] map_cong refl) auto
  also have "\<dots> = bn_val a * bn_val b" by (rule all_pairs_product [OF assms(4,5)])
  finally have t: "comba_total ?f cols = bn_val a * bn_val b" by simp
  have "bn_val a * bn_val b < BN_B ^ length a * BN_B ^ length b"
    by (intro mult_strict_mono bn_val_bound) simp_all
  then have "bn_val a * bn_val b < BN_B ^ Suc (length cols)" unfolding assms(6) [symmetric] by (simp add: power_add)
  then show ?thesis using v t assms(6) by simp
qed

text \<open>For squares each pair stands for itself and its mirror image.\<close>

definition mirror :: "nat \<times> nat \<Rightarrow> (nat \<times> nat) list" where
  "mirror p = (case p of (i, j) \<Rightarrow> if i = j then [(i, j)] else [(i, j), (j, i)])"

lemma sum_mirror:
  "sum_list (map (\<lambda>x. (case x of (i, j) \<Rightarrow> (if i = j then 1 else 2) * (unat (a ! i) * unat (a ! j))) *
       BN_B ^ (case x of (i, j) \<Rightarrow> i + j)) ps) =
   sum_list (map (\<lambda>(i, j). unat (a ! i) * unat (a ! j) * BN_B ^ (i + j)) (concat (map mirror ps)))"
  by (induction ps) (auto simp: mirror_def mult_ac add_ac)

lemma comba_sqr_val:
  assumes "\<And>k i j. k < length cols \<Longrightarrow> (i, j) \<in> set (cols ! k) \<Longrightarrow> i + j = k"
    and "\<And>col. col \<in> set cols \<Longrightarrow> length col \<le> m" "2 * m < BN_B"
    and "distinct (concat (map mirror (concat cols)))"
    and "set (concat (map mirror (concat cols))) = {..<length a} \<times> {..<length a}"
    and "2 * length a = Suc (length cols)"
  defines "r \<equiv> comba_columns (\<lambda>(i, j). if i = j then sqr_add_c a i else sqr_add_c2 a i j) cols (0, 0, 0)"
  shows "bn_val r = bn_val a * bn_val a \<and> length r = 2 * length a"
proof -
  let ?f = "\<lambda>(i, j). (if i = j then 1 else 2) * (unat (a ! i) * unat (a ! j))"
  have s: "comba_step (\<lambda>(i, j). if i = j then sqr_add_c a i else sqr_add_c2 a i j) ?f"
    unfolding comba_step_def
  proof (intro allI impI)
    fix x c
    assume b: "acc_val c + ?f x < BN_B * (BN_B * BN_B)"
    obtain i j where x: "x = (i, j)" by (rule prod.exhaust)
    show "acc_val ((case x of (i, j) \<Rightarrow> if i = j then sqr_add_c a i else sqr_add_c2 a i j) c) = acc_val c + ?f x"
    proof (cases "i = j")
      case True
      then show ?thesis using mul_add_c_val [of c "a ! i" "a ! j"] b by (simp add: x sqr_add_c_mul_add_c)
    next
      case False
      then have "acc_val (mul_add_c (a ! i) (a ! j) c) = acc_val c + unat (a ! i) * unat (a ! j)"
        using b by (intro mul_add_c_val) (simp add: x)
      then show ?thesis using mul_add_c_val [of "mul_add_c (a ! i) (a ! j) c" "a ! i" "a ! j"] b False
        by (simp add: x sqr_add_c2_def mul_add_c2_twice)
    qed
  qed
  have "sum_list (map ?f col) \<le> (2 * m) * ((BN_B - 1) * (BN_B - 1))" if "col \<in> set cols" for col
  proof -
    have "?f x \<le> 2 * ((BN_B - 1) * (BN_B - 1))" for x
    proof -
      define P where "P = (BN_B - 1) * (BN_B - 1)"
      have "unat (a ! fst x) * unat (a ! snd x) \<le> P" unfolding P_def by (rule word_product_bound)
      then have "?f x \<le> 2 * P" by (auto simp: case_prod_unfold)
      then show ?thesis by (simp only: P_def)
    qed
    then have "sum_list (map ?f col) \<le> length col * (2 * ((BN_B - 1) * (BN_B - 1)))" by (intro sum_list_bound)
    also have "\<dots> \<le> m * (2 * ((BN_B - 1) * (BN_B - 1)))" using assms(2) [OF that] by (rule mult_le_mono1)
    finally show ?thesis by (simp add: mult_ac)
  qed
  from comba_columns_val [OF s assms(3) this, where c = "(0, 0, 0)" and cols = cols]
  have v: "bn_val r = comba_total ?f cols mod BN_B ^ Suc (length cols)" "length r = Suc (length cols)"
    by (simp_all add: acc_val_def r_def)
  have "BN_B ^ 0 * comba_total ?f cols = sum_list (map (\<lambda>x. ?f x * BN_B ^ (case x of (i, j) \<Rightarrow> i + j)) (concat cols))"
    by (rule comba_total_pairs) (use assms(1) in auto)
  also have "\<dots> = sum_list (map (\<lambda>(i, j). unat (a ! i) * unat (a ! j) * BN_B ^ (i + j)) (concat (map mirror (concat cols))))"
    by (rule sum_mirror)
  also have "\<dots> = bn_val a * bn_val a" by (rule all_pairs_product [OF assms(4,5)])
  finally have t: "comba_total ?f cols = bn_val a * bn_val a" by simp
  have "bn_val a * bn_val a < BN_B ^ length a * BN_B ^ length a"
    by (intro mult_strict_mono bn_val_bound) simp_all
  then have "bn_val a * bn_val a < BN_B ^ Suc (length cols)"
    unfolding assms(6) [symmetric] by (simp add: power_add mult_2)
  then show ?thesis using v t assms(6) by simp
qed

lemma upto8: "{..<8 :: nat} = set [0..<8]" "{..<4 :: nat} = set [0..<4]"
  by auto

lemma comba_tables:
  "list_all (\<lambda>k. list_all (\<lambda>(i, j). i + j = k) (mul_comba8_table ! k)) [0..<15]"
  "list_all (\<lambda>k. list_all (\<lambda>(i, j). i + j = k) (mul_comba4_table ! k)) [0..<7]"
  "list_all (\<lambda>k. list_all (\<lambda>(i, j). i + j = k) (sqr_comba8_table ! k)) [0..<15]"
  "list_all (\<lambda>k. list_all (\<lambda>(i, j). i + j = k) (sqr_comba4_table ! k)) [0..<7]"
  "list_all (\<lambda>c. length c \<le> 8) mul_comba8_table" "list_all (\<lambda>c. length c \<le> 8) mul_comba4_table"
  "list_all (\<lambda>c. length c \<le> 8) sqr_comba8_table" "list_all (\<lambda>c. length c \<le> 8) sqr_comba4_table"
  "length mul_comba8_table = 15" "length mul_comba4_table = 7" "length sqr_comba8_table = 15" "length sqr_comba4_table = 7"
  by code_simp+

lemma comba_table_sets:
  "distinct (concat mul_comba8_table)" "distinct (concat mul_comba4_table)"
  "distinct (concat (map mirror (concat sqr_comba8_table)))" "distinct (concat (map mirror (concat sqr_comba4_table)))"
  "set (concat mul_comba8_table) = set [0..<8] \<times> set [0..<8]"
  "set (concat mul_comba4_table) = set [0..<4] \<times> set [0..<4]"
  "set (concat (map mirror (concat sqr_comba8_table))) = set [0..<8] \<times> set [0..<8]"
  "set (concat (map mirror (concat sqr_comba4_table))) = set [0..<4] \<times> set [0..<4]"
  by code_simp+

lemma table_pos:
  assumes "list_all (\<lambda>k. list_all (\<lambda>(i, j). i + j = k) (t ! k)) [0..<n]" "length t = n"
  shows "k < length t \<Longrightarrow> (i, j) \<in> set (t ! k) \<Longrightarrow> i + j = k"
  using assms by (auto simp: list_all_iff)

lemma bn_mul_comba8_val:
  "length a = 8 \<Longrightarrow> length b = 8 \<Longrightarrow> bn_val (bn_mul_comba8 a b) = bn_val a * bn_val b \<and> length (bn_mul_comba8 a b) = 16"
  unfolding bn_mul_comba8_def
  using comba_mul_val [OF table_pos [OF comba_tables(1,9)], where m = 8 and a = a and b = b] comba_tables(5,9) comba_table_sets(1,5)
  by (simp add: upto8 list_all_iff BN_B_def del: set_concat set_upt)

lemma bn_mul_comba4_val:
  "length a = 4 \<Longrightarrow> length b = 4 \<Longrightarrow> bn_val (bn_mul_comba4 a b) = bn_val a * bn_val b \<and> length (bn_mul_comba4 a b) = 8"
  unfolding bn_mul_comba4_def
  using comba_mul_val [OF table_pos [OF comba_tables(2,10)], where m = 8 and a = a and b = b] comba_tables(6,10) comba_table_sets(2,6)
  by (simp add: upto8 list_all_iff BN_B_def del: set_concat set_upt)

lemma bn_sqr_comba8_val:
  "length a = 8 \<Longrightarrow> bn_val (bn_sqr_comba8 a) = bn_val a * bn_val a \<and> length (bn_sqr_comba8 a) = 16"
  unfolding bn_sqr_comba8_def
  using comba_sqr_val [OF table_pos [OF comba_tables(3,11)], where m = 8 and a = a] comba_tables(7,11) comba_table_sets(3,7)
  by (simp add: upto8 list_all_iff BN_B_def del: set_concat set_upt)

lemma bn_sqr_comba4_val:
  "length a = 4 \<Longrightarrow> bn_val (bn_sqr_comba4 a) = bn_val a * bn_val a \<and> length (bn_sqr_comba4 a) = 8"
  unfolding bn_sqr_comba4_def
  using comba_sqr_val [OF table_pos [OF comba_tables(4,12)], where m = 8 and a = a] comba_tables(8,12) comba_table_sets(4,8)
  by (simp add: upto8 list_all_iff BN_B_def del: set_concat set_upt)

text \<open>C36: the column products of four and of eight words are exact: the products and squares of the numbers, in
  twice as many words.\<close>

theorem bn_comba_exact:
  fixes a b c d :: "u64 list"
  assumes "length a = 8" "length b = 8" "length c = 4" "length d = 4"
  shows "bn_val (bn_mul_comba8 a b) = bn_val a * bn_val b \<and> length (bn_mul_comba8 a b) = 16 \<and>
    bn_val (bn_sqr_comba8 a) = bn_val a ^ 2 \<and> length (bn_sqr_comba8 a) = 16 \<and>
    bn_val (bn_mul_comba4 c d) = bn_val c * bn_val d \<and> length (bn_mul_comba4 c d) = 8 \<and>
    bn_val (bn_sqr_comba4 c) = bn_val c ^ 2 \<and> length (bn_sqr_comba4 c) = 8"
  using bn_mul_comba8_val [OF assms(1,2)] bn_sqr_comba8_val [OF assms(1)]
    bn_mul_comba4_val [OF assms(3,4)] bn_sqr_comba4_val [OF assms(3)]
  by (simp add: power2_eq_square)

theorem bn_comba_exact_witness:
  "bn_val (bn_mul_comba4 (replicate 4 (- 1)) [1, 2, 3, 4]) = bn_val (replicate 4 (- 1)) * bn_val [1, 2, 3, 4]"
  using bn_comba_exact [of "replicate 8 1" "replicate 8 1" "replicate 4 (- 1)" "[1, 2, 3, 4]"] by simp

lemma bn_sqr_words_nth:
  "i < length as \<Longrightarrow>
    unat (bn_sqr_words as ! (2 * i)) + BN_B * unat (bn_sqr_words as ! (2 * i + 1)) = unat (as ! i) * unat (as ! i)"
proof (induction as arbitrary: i)
  case (Cons a as)
  show ?case
  proof (cases i)
    case 0
    obtain lo hi where "sqr_word a = (lo, hi)" by (rule prod.exhaust)
    then show ?thesis using 0 sqr_word_val [of a lo hi] by (simp add: bn_sqr_words_Cons)
  next
    case (Suc j)
    then show ?thesis using Cons.IH [of j] Cons.prems by (simp add: bn_sqr_words_Cons)
  qed
qed simp

text \<open>C37: the word loops do not lose carries: multiplying by a word and adding, adding and subtracting strings
  of any length give the exact result in as many words, and its carry or borrow; and \<open>bn_sqr_words\<close> puts the square
  of each word into the two words at twice its position, the less significant one first.\<close>

theorem bn_words_exact:
  fixes as bs :: "u64 list"
  assumes "length as = length bs"
  shows "(case bn_mul_add_words as bs w of (rs, c) \<Rightarrow>
      length rs = length bs \<and> bn_val rs + BN_B ^ length bs * unat c = bn_val as + unat w * bn_val bs) \<and>
    (case bn_mul_words bs w of (rs, c) \<Rightarrow>
      length rs = length bs \<and> bn_val rs + BN_B ^ length bs * unat c = unat w * bn_val bs) \<and>
    (case bn_add_words as bs of (rs, c) \<Rightarrow>
      length rs = length bs \<and> bn_val rs + BN_B ^ length bs * unat c = bn_val as + bn_val bs) \<and>
    (case bn_sub_words as bs of (rs, c) \<Rightarrow>
      length rs = length bs \<and> bn_val rs + bn_val bs = bn_val as + BN_B ^ length bs * unat c \<and>
      c = (if bn_val as < bn_val bs then 1 else 0)) \<and>
    length (bn_sqr_words bs) = 2 * length bs \<and>
    (\<forall>i < length bs. unat (bn_sqr_words bs ! (2 * i)) + BN_B * unat (bn_sqr_words bs ! (2 * i + 1)) = (unat (bs ! i)) ^ 2)"
proof (intro conjI allI impI)
  show "case bn_mul_add_words as bs w of (rs, c) \<Rightarrow>
      length rs = length bs \<and> bn_val rs + BN_B ^ length bs * unat c = bn_val as + unat w * bn_val bs"
    using bn_mul_add_words_val [OF assms] by (auto simp: assms split: prod.splits)
  show "case bn_mul_words bs w of (rs, c) \<Rightarrow>
      length rs = length bs \<and> bn_val rs + BN_B ^ length bs * unat c = unat w * bn_val bs"
    using bn_mul_words_val by (auto split: prod.splits)
  show "case bn_add_words as bs of (rs, c) \<Rightarrow>
      length rs = length bs \<and> bn_val rs + BN_B ^ length bs * unat c = bn_val as + bn_val bs"
    using bn_add_words_val [OF assms] by (auto simp: assms split: prod.splits)
  show "case bn_sub_words as bs of (rs, c) \<Rightarrow>
      length rs = length bs \<and> bn_val rs + bn_val bs = bn_val as + BN_B ^ length bs * unat c \<and>
      c = (if bn_val as < bn_val bs then 1 else 0)"
    using bn_sub_words_val [OF assms] bn_sub_words_borrow [OF assms] by (auto simp: assms split: prod.splits)
  show "length (bn_sqr_words bs) = 2 * length bs" using bn_sqr_words_val by blast
  show "unat (bn_sqr_words bs ! (2 * i)) + BN_B * unat (bn_sqr_words bs ! (2 * i + 1)) = (unat (bs ! i)) ^ 2"
    if "i < length bs" for i
    using bn_sqr_words_nth [OF that] by (simp add: power2_eq_square)
qed

text \<open>\<open>2^64 - (2^64 + 1)\<close> borrows; the square of \<open>2^32\<close> has its bit in the upper word.\<close>

theorem bn_words_exact_witness:
  "(case bn_sub_words [0, 1] [1, 1] of (rs, c) \<Rightarrow> bn_val rs + bn_val [1, 1] = bn_val [0, 1] + BN_B ^ 2 * unat c \<and> c = 1) \<and>
   unat (bn_sqr_words [2 ^ 32, 3] ! 0) + BN_B * unat (bn_sqr_words [2 ^ 32, 3] ! 1) = 2 ^ 64"
proof
  have "(case bn_sub_words [0, 1] [1, 1] of (rs, c) \<Rightarrow>
      length rs = length [1 :: u64, 1] \<and> bn_val rs + bn_val [1, 1] = bn_val [0, 1] + BN_B ^ length [1 :: u64, 1] * unat c \<and>
      c = (if bn_val [0, 1] < bn_val [1, 1] then 1 else 0))"
    by (rule bn_words_exact [of "[0, 1]" "[1, 1]", THEN conjunct2, THEN conjunct2, THEN conjunct2, THEN conjunct1]) simp
  then show "case bn_sub_words [0, 1] [1, 1] of (rs, c) \<Rightarrow> bn_val rs + bn_val [1, 1] = bn_val [0, 1] + BN_B ^ 2 * unat c \<and> c = 1"
    by (simp add: case_prod_unfold power2_eq_square)
  have "\<forall>i < length [2 ^ 32, 3 :: u64]. unat (bn_sqr_words [2 ^ 32, 3] ! (2 * i)) +
      BN_B * unat (bn_sqr_words [2 ^ 32, 3] ! (2 * i + 1)) = (unat ([2 ^ 32, 3 :: u64] ! i)) ^ 2"
    by (rule bn_words_exact [of "[0, 0]" "[2 ^ 32, 3]", THEN conjunct2, THEN conjunct2, THEN conjunct2, THEN conjunct2, THEN conjunct2]) simp
  then have "unat (bn_sqr_words [2 ^ 32, 3] ! (2 * 0)) + BN_B * unat (bn_sqr_words [2 ^ 32, 3] ! (2 * 0 + 1)) = (unat ([2 ^ 32, 3 :: u64] ! 0)) ^ 2"
    by (rule allE [of _ 0]) simp
  then show "unat (bn_sqr_words [2 ^ 32, 3] ! 0) + BN_B * unat (bn_sqr_words [2 ^ 32, 3] ! 1) = 2 ^ 64" by simp
qed

end
