(* ===== verification/Bn.thy ===== *)
theory Bn
  imports Mem Bn_Words
begin

text \<open>
  \<open>crypto/fipsmodule/bn/bn.c\<close>, \<open>cmp.c\<close> and \<open>add.c\<close>: multiple-precision integers, their comparison, addition
  and subtraction, on 64-bit words. \<open>bn_d\<close> are the \<open>width\<close> words of the number; the words of the buffer beyond
  them have no defined contents and are not kept, \<open>bn_dmax\<close> being the size of the buffer. \<open>bn_static\<close> is
  the flag \<open>BN_FLG_STATIC_DATA\<close>. A function that can fail returns its result and the \<open>BIGNUM\<close> it writes,
  which it may have changed before failing. Each takes the values of its arguments, so that the result may
  be one of them. \<open>libc\<close> is the system allocator.

  \<open>bn_int\<close> is the number a \<open>BIGNUM\<close> denotes; widths need not be minimal. The lemmas show that
  comparison, addition and subtraction are those of the integers at any widths, that \<open>BN_num_bits\<close> is the
  length in bits although it is computed without branches, and when the operations can fail.
\<close>

record bignum =
  bn_d :: "u64 list"
  bn_dmax :: nat
  bn_neg :: bool
  bn_static :: bool

definition bn_width :: "bignum \<Rightarrow> nat" where
  "bn_width bn = length (bn_d bn)"

definition BN_init :: bignum where
  "BN_init = \<lparr>bn_d = [], bn_dmax = 0, bn_neg = False, bn_static = False\<rparr>"

definition BN_new :: "(nat \<Rightarrow> bool) \<Rightarrow> bignum option" where
  "BN_new libc = (if OPENSSL_malloc libc 24 then Some BN_init else None)"

definition bn_wexpand :: "(nat \<Rightarrow> bool) \<Rightarrow> bignum \<Rightarrow> nat \<Rightarrow> bool \<times> bignum" where
  "bn_wexpand libc bn words =
     (if words \<le> bn_dmax bn then (True, bn)
      else if words > (2 ^ 31 - 1) div (4 * 64) then (False, bn)
      else if bn_static bn then (False, bn)
      else if \<not> OPENSSL_malloc libc (8 * words) then (False, bn)
      else (True, bn\<lparr>bn_dmax := words\<rparr>))"

definition bn_expand :: "(nat \<Rightarrow> bool) \<Rightarrow> bignum \<Rightarrow> nat \<Rightarrow> bool \<times> bignum" where
  "bn_expand libc bn bits =
     (if (bits + 64 - 1) mod 2 ^ 64 < bits then (False, bn)
      else bn_wexpand libc bn ((bits + 64 - 1) div 64))"

definition BN_copy :: "(nat \<Rightarrow> bool) \<Rightarrow> bignum \<Rightarrow> bignum \<Rightarrow> bool \<times> bignum" where
  "BN_copy libc dest src =
     (case bn_wexpand libc dest (bn_width src) of
        (ok, dest) \<Rightarrow>
          if \<not> ok then (False, dest) else (True, dest\<lparr>bn_d := bn_d src, bn_neg := bn_neg src\<rparr>))"

definition BN_dup :: "(nat \<Rightarrow> bool) \<Rightarrow> bignum option \<Rightarrow> bignum option" where
  "BN_dup libc src =
     (case src of
        None \<Rightarrow> None
      | Some src \<Rightarrow>
          (case BN_new libc of
             None \<Rightarrow> None
           | Some copy \<Rightarrow> (case BN_copy libc copy src of (ok, copy) \<Rightarrow> if ok then Some copy else None)))"

definition BN_clear :: "bignum \<Rightarrow> bignum" where
  "BN_clear bn = bn\<lparr>bn_d := [], bn_neg := False\<rparr>"

definition BN_value_one :: bignum where
  "BN_value_one = \<lparr>bn_d = [1], bn_dmax = 1, bn_neg = False, bn_static = True\<rparr>"

text \<open>One block of \<open>BN_num_bits_word\<close>: whether the word has bits from \<open>k\<close> on, as a mask.\<close>

definition num_bits_step :: "nat \<Rightarrow> u64 \<times> u64 \<Rightarrow> u64 \<times> u64" where
  "num_bits_step k s =
     (case s of (bits, l) \<Rightarrow>
        let x = drop_bit k l;
            msk = 0 - x;
            msk = 0 - drop_bit (64 - 1) msk;
            bits = bits + (word_of_nat k AND msk);
            l = l XOR ((x XOR l) AND msk)
        in (bits, l))"

definition BN_num_bits_word :: "u64 \<Rightarrow> nat" where
  "BN_num_bits_word l =
     (let bits = (if l \<noteq> 0 then 1 else 0);
          s = num_bits_step 32 (bits, l);
          s = num_bits_step 16 s;
          s = num_bits_step 8 s;
          s = num_bits_step 4 s;
          s = num_bits_step 2 s;
          s = num_bits_step 1 s
      in unat (fst s))"

text \<open>The loop of \<open>bn_minimal_width\<close>.\<close>

primrec minimal_width_loop :: "u64 list \<Rightarrow> nat \<Rightarrow> nat" where
  "minimal_width_loop d 0 = 0"
| "minimal_width_loop d (Suc ret) = (if d ! ret = 0 then minimal_width_loop d ret else Suc ret)"

definition bn_minimal_width :: "bignum \<Rightarrow> nat" where
  "bn_minimal_width bn = minimal_width_loop (bn_d bn) (bn_width bn)"

definition bn_set_minimal_width :: "bignum \<Rightarrow> bignum" where
  "bn_set_minimal_width bn =
     (let bn = bn\<lparr>bn_d := take (bn_minimal_width bn) (bn_d bn)\<rparr>
      in if bn_width bn = 0 then bn\<lparr>bn_neg := False\<rparr> else bn)"

definition BN_num_bits :: "bignum \<Rightarrow> nat" where
  "BN_num_bits bn =
     (let width = bn_minimal_width bn
      in if width = 0 then 0 else (width - 1) * 64 + BN_num_bits_word (bn_d bn ! (width - 1)))"

definition BN_num_bytes :: "bignum \<Rightarrow> nat" where
  "BN_num_bytes bn = (BN_num_bits bn + 7) div 8"

definition BN_zero :: "bignum \<Rightarrow> bignum" where
  "BN_zero bn = bn\<lparr>bn_d := [], bn_neg := False\<rparr>"

definition BN_set_word :: "(nat \<Rightarrow> bool) \<Rightarrow> bignum \<Rightarrow> u64 \<Rightarrow> bool \<times> bignum" where
  "BN_set_word libc bn value =
     (if value = 0 then (True, BN_zero bn)
      else
        (case bn_wexpand libc bn 1 of
           (ok, bn) \<Rightarrow> if \<not> ok then (False, bn) else (True, bn\<lparr>bn_neg := False, bn_d := [value]\<rparr>)))"

definition BN_one :: "(nat \<Rightarrow> bool) \<Rightarrow> bignum \<Rightarrow> bool \<times> bignum" where
  "BN_one libc bn = BN_set_word libc bn 1"

definition BN_set_u64 :: "(nat \<Rightarrow> bool) \<Rightarrow> bignum \<Rightarrow> u64 \<Rightarrow> bool \<times> bignum" where
  "BN_set_u64 libc bn value = BN_set_word libc bn value"

definition bn_set_words :: "(nat \<Rightarrow> bool) \<Rightarrow> bignum \<Rightarrow> u64 list \<Rightarrow> bool \<times> bignum" where
  "bn_set_words libc bn words =
     (case bn_wexpand libc bn (length words) of
        (ok, bn) \<Rightarrow> if \<not> ok then (False, bn) else (True, bn\<lparr>bn_d := words, bn_neg := False\<rparr>))"

definition bn_set_static_words :: "bignum \<Rightarrow> u64 list \<Rightarrow> bignum" where
  "bn_set_static_words bn words =
     bn\<lparr>bn_d := words, bn_dmax := length words, bn_neg := False, bn_static := True\<rparr>"

definition or_words :: "u64 list \<Rightarrow> u64 \<Rightarrow> u64" where
  "or_words ws msk = fold (\<lambda>w msk. msk OR w) ws msk"

definition bn_fits_in_words :: "bignum \<Rightarrow> nat \<Rightarrow> bool" where
  "bn_fits_in_words bn num = (or_words (drop num (bn_d bn)) 0 = 0)"

definition bn_copy_words :: "nat \<Rightarrow> bignum \<Rightarrow> u64 list option" where
  "bn_copy_words num bn =
     (if bn_neg bn then None
      else
        let width = bn_width bn
        in if width > num then
             (if \<not> bn_fits_in_words bn num then None else Some (take num (bn_d bn)))
           else Some (bn_d bn @ replicate (num - width) 0))"

definition BN_is_negative :: "bignum \<Rightarrow> bool" where
  "BN_is_negative bn = bn_neg bn"

definition BN_is_zero :: "bignum \<Rightarrow> bool" where
  "BN_is_zero bn = bn_fits_in_words bn 0"

definition BN_set_negative :: "bignum \<Rightarrow> bool \<Rightarrow> bignum" where
  "BN_set_negative bn sign =
     (if sign \<and> \<not> BN_is_zero bn then bn\<lparr>bn_neg := True\<rparr> else bn\<lparr>bn_neg := False\<rparr>)"

definition bn_resize_words :: "(nat \<Rightarrow> bool) \<Rightarrow> bignum \<Rightarrow> nat \<Rightarrow> bool \<times> bignum" where
  "bn_resize_words libc bn words =
     (if bn_width bn \<le> words then
        (case bn_wexpand libc bn words of
           (ok, bn) \<Rightarrow>
             if \<not> ok then (False, bn) else (True, bn\<lparr>bn_d := bn_d bn @ replicate (words - bn_width bn) 0\<rparr>))
      else if \<not> bn_fits_in_words bn words then (False, bn)
      else (True, bn\<lparr>bn_d := take words (bn_d bn)\<rparr>))"

definition bn_select_words :: "u64 \<Rightarrow> u64 list \<Rightarrow> u64 list \<Rightarrow> u64 list" where
  "bn_select_words msk a b = map2 (constant_time_select_w msk) a b"

section \<open>Comparison\<close>

definition constant_time_select_int :: "u64 \<Rightarrow> int \<Rightarrow> int \<Rightarrow> int" where
  "constant_time_select_int msk a b =
     sint (ucast (constant_time_select_w msk (word_of_int a) (word_of_int b)) :: u32)"

fun cmp_words_loop :: "u64 list \<Rightarrow> u64 list \<Rightarrow> int \<Rightarrow> int" where
  "cmp_words_loop (a # as) (b # bs) ret =
     (let eq = constant_time_eq_w a b;
          lt = constant_time_lt_w a b
      in cmp_words_loop as bs (constant_time_select_int eq ret (constant_time_select_int lt (- 1) 1)))"
| "cmp_words_loop _ _ ret = ret"

definition bn_cmp_words_consttime :: "u64 list \<Rightarrow> u64 list \<Rightarrow> int" where
  "bn_cmp_words_consttime a b =
     (let ret = cmp_words_loop a b 0
      in if length a < length b then
           constant_time_select_int (constant_time_is_zero_w (or_words (drop (length a) b) 0)) ret (- 1)
         else if length b < length a then
           constant_time_select_int (constant_time_is_zero_w (or_words (drop (length b) a) 0)) ret 1
         else ret)"

definition BN_ucmp :: "bignum \<Rightarrow> bignum \<Rightarrow> int" where
  "BN_ucmp a b = bn_cmp_words_consttime (bn_d a) (bn_d b)"

definition BN_cmp :: "bignum option \<Rightarrow> bignum option \<Rightarrow> int" where
  "BN_cmp a b =
     (case (a, b) of
        (None, None) \<Rightarrow> 0
      | (Some a, None) \<Rightarrow> - 1
      | (None, Some b) \<Rightarrow> 1
      | (Some a, Some b) \<Rightarrow>
          if bn_neg a \<noteq> bn_neg b then (if bn_neg a then - 1 else 1)
          else let ret = BN_ucmp a b in if bn_neg a then - ret else ret)"

definition bn_less_than_words :: "u64 list \<Rightarrow> u64 list \<Rightarrow> bool" where
  "bn_less_than_words a b = (bn_cmp_words_consttime a b < 0)"

definition BN_abs_is_word :: "bignum \<Rightarrow> u64 \<Rightarrow> bool" where
  "BN_abs_is_word bn w =
     (case bn_d bn of
        [] \<Rightarrow> w = 0
      | d0 # ds \<Rightarrow> or_words ds (d0 XOR w) = 0)"

definition BN_cmp_word :: "bignum \<Rightarrow> u64 \<Rightarrow> int" where
  "BN_cmp_word a b =
     BN_cmp (Some a) (Some \<lparr>bn_d = (if b > 0 then [b] else []), bn_dmax = 1, bn_neg = False, bn_static = True\<rparr>)"

definition BN_is_one :: "bignum \<Rightarrow> bool" where
  "BN_is_one bn = (\<not> bn_neg bn \<and> BN_abs_is_word bn 1)"

definition BN_is_word :: "bignum \<Rightarrow> u64 \<Rightarrow> bool" where
  "BN_is_word bn w = (BN_abs_is_word bn w \<and> (w = 0 \<or> \<not> bn_neg bn))"

definition BN_is_odd :: "bignum \<Rightarrow> bool" where
  "BN_is_odd bn = (bn_width bn > 0 \<and> bn_d bn ! 0 AND 1 = 1)"

definition BN_is_pow2 :: "bignum \<Rightarrow> bool" where
  "BN_is_pow2 bn =
     (let width = bn_minimal_width bn
      in if width = 0 \<or> bn_neg bn then False
         else if list_ex (\<lambda>i. bn_d bn ! i \<noteq> 0) [0..<width - 1] then False
         else 0 = (bn_d bn ! (width - 1) AND (bn_d bn ! (width - 1) - 1)))"

definition BN_equal_consttime :: "bignum \<Rightarrow> bignum \<Rightarrow> bool" where
  "BN_equal_consttime a b =
     (let msk = or_words (drop (bn_width a) (bn_d b)) 0;
          msk = or_words (drop (bn_width b) (bn_d a)) msk;
          msk = fold (\<lambda>(x, y) msk. msk OR (x XOR y)) (zip (bn_d a) (bn_d b)) msk;
          msk = msk OR (if bn_neg a \<noteq> bn_neg b then 1 else 0)
      in msk = 0)"

section \<open>The number\<close>

definition bn_abs :: "bignum \<Rightarrow> nat" where "bn_abs bn = bn_val (bn_d bn)"

definition bn_int :: "bignum \<Rightarrow> int" where
  "bn_int bn = (if bn_neg bn then - int (bn_abs bn) else int (bn_abs bn))"

lemma or_words_eq_0: "or_words ws m = 0 \<longleftrightarrow> m = 0 \<and> (\<forall>w \<in> set ws. w = 0)"
  unfolding or_words_def by (induction ws arbitrary: m) (auto simp: or_eq_0_iff)

lemma or_words_val: "or_words ws 0 = 0 \<longleftrightarrow> bn_val ws = 0"
  by (simp add: or_words_eq_0 bn_val_eq_0)

text \<open>A string fits in fewer words when the rest is zero.\<close>

lemma bn_val_drop_0:
  assumes "bn_val (drop n ws) = 0"
  shows "bn_val (take n ws) = bn_val ws"
  using bn_val_append [of "take n ws" "drop n ws"] assms by simp

lemma bn_fits_in_words: "bn_fits_in_words bn n \<longleftrightarrow> bn_abs bn < BN_B ^ n"
proof
  assume "bn_fits_in_words bn n"
  then have "bn_val (drop n (bn_d bn)) = 0" by (simp add: bn_fits_in_words_def or_words_val)
  then have "bn_abs bn = bn_val (take n (bn_d bn))" by (simp add: bn_abs_def bn_val_drop_0)
  also have "\<dots> < BN_B ^ length (take n (bn_d bn))" by (rule bn_val_bound)
  also have "\<dots> \<le> BN_B ^ n" by (intro power_increasing) (simp_all add: BN_B_def)
  finally show "bn_abs bn < BN_B ^ n" .
next
  assume lt: "bn_abs bn < BN_B ^ n"
  show "bn_fits_in_words bn n"
  proof (cases "length (bn_d bn) \<le> n")
    case True
    then show ?thesis by (simp add: bn_fits_in_words_def or_words_def)
  next
    case False
    have "BN_B ^ n * bn_val (drop n (bn_d bn)) \<le> bn_abs bn"
      using bn_val_append [of "take n (bn_d bn)" "drop n (bn_d bn)"] False by (simp add: bn_abs_def min_def)
    then have "BN_B ^ n * bn_val (drop n (bn_d bn)) < BN_B ^ n * 1" using lt by linarith
    then have "bn_val (drop n (bn_d bn)) = 0" by simp
    then show ?thesis by (simp add: bn_fits_in_words_def or_words_val)
  qed
qed

lemma BN_is_zero_iff: "BN_is_zero bn \<longleftrightarrow> bn_abs bn = 0"
  by (simp add: BN_is_zero_def bn_fits_in_words)

lemma BN_set_negative_int: "bn_int (BN_set_negative bn s) = (if s then - int (bn_abs bn) else int (bn_abs bn))"
  by (auto simp: BN_set_negative_def bn_int_def bn_abs_def BN_is_zero_iff)

section \<open>Minimal widths\<close>

text \<open>No leading zero word, and zero is not negative.\<close>

definition bn_minimal :: "bignum \<Rightarrow> bool" where
  "bn_minimal bn \<longleftrightarrow> (bn_d bn \<noteq> [] \<longrightarrow> last (bn_d bn) \<noteq> 0) \<and> (bn_d bn = [] \<longrightarrow> \<not> bn_neg bn)"

lemma minimal_width_loop:
  "n \<le> length d \<Longrightarrow> minimal_width_loop d n \<le> n \<and>
    (\<forall>i. minimal_width_loop d n \<le> i \<and> i < n \<longrightarrow> d ! i = 0) \<and>
    (0 < minimal_width_loop d n \<longrightarrow> d ! (minimal_width_loop d n - 1) \<noteq> 0)"
  by (induction n) (auto simp: less_Suc_eq)

lemma bn_minimal_width:
  "bn_minimal_width bn \<le> bn_width bn"
  "bn_val (drop (bn_minimal_width bn) (bn_d bn)) = 0"
  "bn_minimal_width bn \<noteq> 0 \<Longrightarrow> bn_d bn ! (bn_minimal_width bn - 1) \<noteq> 0"
  using minimal_width_loop [of "bn_width bn" "bn_d bn"]
  by (auto simp: bn_minimal_width_def bn_width_def bn_val_eq_0 in_set_conv_nth)

lemma bn_set_minimal_width:
  "bn_int (bn_set_minimal_width bn) = bn_int bn" "bn_minimal (bn_set_minimal_width bn)"
  "bn_abs (bn_set_minimal_width bn) = bn_abs bn"
proof -
  let ?d = "take (bn_minimal_width bn) (bn_d bn)"
  note m = bn_minimal_width [of bn]
  have v: "bn_val ?d = bn_val (bn_d bn)" by (rule bn_val_drop_0 [OF m(2)])
  have l: "length ?d = bn_minimal_width bn" using m(1) by (simp add: bn_width_def)
  have d: "bn_d (bn_set_minimal_width bn) = ?d" by (simp add: bn_set_minimal_width_def Let_def)
  show a: "bn_abs (bn_set_minimal_width bn) = bn_abs bn" by (simp add: bn_abs_def d v)
  have z: "bn_val (bn_d bn) = 0" if "?d = []" using v that by simp
  show "bn_int (bn_set_minimal_width bn) = bn_int bn"
    using z a by (auto simp: bn_int_def bn_set_minimal_width_def bn_width_def Let_def bn_abs_def)
  have "?d ! (bn_minimal_width bn - 1) \<noteq> 0" if "?d \<noteq> []"
  proof -
    have "bn_minimal_width bn \<noteq> 0" using that by auto
    then show ?thesis using m(3) by simp
  qed
  then have "?d \<noteq> [] \<longrightarrow> last ?d \<noteq> 0" using l by (auto simp: last_conv_nth)
  then show "bn_minimal (bn_set_minimal_width bn)"
    by (auto simp: bn_minimal_def bn_set_minimal_width_def bn_width_def Let_def)
qed

lemma bn_minimal_empty:
  assumes "bn_minimal bn"
  shows "bn_d bn = [] \<longleftrightarrow> bn_abs bn = 0"
proof
  assume "bn_abs bn = 0"
  then have z: "\<forall>x\<in>set (bn_d bn). x = 0" by (simp add: bn_abs_def bn_val_eq_0)
  show "bn_d bn = []"
  proof (rule ccontr)
    assume ne: "bn_d bn \<noteq> []"
    then have "last (bn_d bn) = 0" using z last_in_set by blast
    then show False using ne assms by (simp add: bn_minimal_def)
  qed
qed (simp add: bn_abs_def)

section \<open>The length in bits\<close>

fun bit_count :: "nat \<Rightarrow> nat" where
  "bit_count n = (if n = 0 then 0 else Suc (bit_count (n div 2)))"

declare bit_count.simps [simp del]

lemma bit_count_0 [simp]: "bit_count 0 = 0" by (simp add: bit_count.simps)

lemma bit_count_le: "bit_count n \<le> k \<longleftrightarrow> n < 2 ^ k"
proof (induction k arbitrary: n)
  case 0
  then show ?case by (simp add: bit_count.simps)
next
  case (Suc k)
  show ?case
  proof (cases "n = 0")
    case False
    then have "bit_count n \<le> Suc k \<longleftrightarrow> bit_count (n div 2) \<le> k" by (subst bit_count.simps) simp
    also have "\<dots> \<longleftrightarrow> n < 2 ^ Suc k" unfolding Suc.IH by (simp add: div_less_iff_less_mult mult.commute)
    finally show ?thesis .
  qed simp
qed

lemma bit_count_div: "2 ^ k \<le> n \<Longrightarrow> bit_count n = k + bit_count (n div 2 ^ k)"
proof (induction k arbitrary: n)
  case (Suc k)
  have "n \<noteq> 0" using Suc.prems by (intro notI) simp
  then have "bit_count n = Suc (bit_count (n div 2))" by (simp add: bit_count.simps [of n])
  also have "bit_count (n div 2) = k + bit_count (n div 2 div 2 ^ k)" by (rule Suc.IH) (use Suc.prems in simp)
  finally show ?case by (simp add: div_mult2_eq)
qed simp

lemma bit_count_digit: "a < 2 ^ k \<Longrightarrow> 0 < n \<Longrightarrow> bit_count (a + 2 ^ k * n) = k + bit_count n"
proof -
  assume a: "a < 2 ^ k" "0 < n"
  have "2 ^ k \<le> a + 2 ^ k * n" using a(2) by (cases n) simp_all
  then show ?thesis using bit_count_div [of k "a + 2 ^ k * n"] a(1) by simp
qed

text \<open>A block: when the word has bits from \<open>k\<close> on, they are counted and what is below is dropped.\<close>

lemma num_bits_step_eq:
  assumes "0 < k"
  shows "num_bits_step k (bits, l) =
    (if drop_bit k l \<noteq> 0 then (bits + word_of_nat k, drop_bit k l) else (bits, l))"
proof (cases "drop_bit k l = 0")
  case False
  define x where "x = drop_bit k l"
  have "unat x = unat l div 2 ^ k" by (simp add: x_def unat_drop_bit)
  also have "\<dots> \<le> unat l div 2 ^ 1" by (rule div_le_mono2) (use assms power_increasing [of 1 k "2 :: nat"] in simp_all)
  also have "\<dots> < 2 ^ 63" using unat_u64_less [of l] by (simp add: div_less_iff_less_mult)
  finally have "unat x < 2 ^ 63" .
  moreover have "x \<noteq> 0" using False by (simp add: x_def)
  ultimately have "2 ^ 63 \<le> unat (0 - x)" using unat_sub_if' [of 0 x] by (simp add: word_unat_eq_iff)
  then have "bit (0 - x) 63" using bit_63_iff [of "0 - x"] by blast
  then have "constant_time_msb_w (0 - x) = - 1" by (simp add: msb_w_eq)
  then have "0 - drop_bit (64 - 1) (0 - x) = - 1" by (simp add: constant_time_msb_w_def)
  moreover have "l XOR (x XOR l) = x" by (rule bit_word_eqI) (auto simp: bit_xor_iff)
  ultimately show ?thesis using False by (simp add: num_bits_step_def Let_def flip: x_def)
qed (simp add: num_bits_step_def)

lemma num_bits_step_count:
  assumes "0 < k" "unat l < 2 ^ (2 * k)" "num_bits_step k (bits, l) = (bits', l')" "l \<noteq> 0"
    and "unat bits + bit_count (unat l) = m + 1" "m < 2 ^ 63"
  shows "unat l' < 2 ^ k \<and> l' \<noteq> 0 \<and> unat bits' + bit_count (unat l') = m + 1"
proof (cases "drop_bit k l = 0")
  case True
  then have "unat l div 2 ^ k = 0" by (metis unat_drop_bit unsigned_0)
  then have "unat l < 2 ^ k" by (simp add: div_eq_0_iff)
  then show ?thesis using assms True by (simp add: num_bits_step_eq)
next
  case False
  then have l': "l' = drop_bit k l" "bits' = bits + word_of_nat k" using assms(1,3) by (simp_all add: num_bits_step_eq)
  have u: "unat l' = unat l div 2 ^ k" by (simp add: l'(1) unat_drop_bit)
  have "unat l div 2 ^ k \<noteq> 0" using False u by (metis l'(1) unat_drop_bit unsigned_eq_0_iff)
  then have "2 ^ k \<le> unat l" by (simp add: div_eq_0_iff)
  then have c: "bit_count (unat l) = k + bit_count (unat l')" unfolding u by (rule bit_count_div)
  have "unat l' < 2 ^ k" using assms(2) by (simp add: u div_less_iff_less_mult power_mult power2_eq_square mult_2 power_add)
  moreover have "unat bits' = unat bits + k"
  proof -
    have "unat bits + k < 2 ^ 64" using assms(5,6) c by simp
    moreover from this have "k < 2 ^ 64" by simp
    ultimately show ?thesis by (simp add: l'(2) unat_word_ariths unsigned_of_nat take_bit_nat_eq_self)
  qed
  ultimately show ?thesis using assms(5) c False by (simp add: l'(1))
qed

lemma BN_num_bits_word_eq: "BN_num_bits_word l = bit_count (unat l)"
proof (cases "l = 0")
  case True
  then show ?thesis by (simp add: BN_num_bits_word_def num_bits_step_eq Let_def)
next
  case False
  define m where "m = bit_count (unat l)"
  have "m \<le> 64" unfolding m_def bit_count_le using unat_u64_less [of l] by simp
  then have m: "m < 2 ^ 63" by (rule le_less_trans) simp
  obtain b1 l1 where s1: "num_bits_step 32 (1, l) = (b1, l1)" by (rule prod.exhaust)
  obtain b2 l2 where s2: "num_bits_step 16 (b1, l1) = (b2, l2)" by (rule prod.exhaust)
  obtain b3 l3 where s3: "num_bits_step 8 (b2, l2) = (b3, l3)" by (rule prod.exhaust)
  obtain b4 l4 where s4: "num_bits_step 4 (b3, l3) = (b4, l4)" by (rule prod.exhaust)
  obtain b5 l5 where s5: "num_bits_step 2 (b4, l4) = (b5, l5)" by (rule prod.exhaust)
  obtain b6 l6 where s6: "num_bits_step 1 (b5, l5) = (b6, l6)" by (rule prod.exhaust)
  have r1: "unat l1 < 2 ^ 32 \<and> l1 \<noteq> 0 \<and> unat b1 + bit_count (unat l1) = m + 1"
    by (rule num_bits_step_count [OF _ _ s1]) (use unat_u64_less [of l] False m in \<open>simp_all add: m_def\<close>)
  have r2: "unat l2 < 2 ^ 16 \<and> l2 \<noteq> 0 \<and> unat b2 + bit_count (unat l2) = m + 1"
    by (rule num_bits_step_count [OF _ _ s2]) (use r1 m in simp_all)
  have r3: "unat l3 < 2 ^ 8 \<and> l3 \<noteq> 0 \<and> unat b3 + bit_count (unat l3) = m + 1"
    by (rule num_bits_step_count [OF _ _ s3]) (use r2 m in simp_all)
  have r4: "unat l4 < 2 ^ 4 \<and> l4 \<noteq> 0 \<and> unat b4 + bit_count (unat l4) = m + 1"
    by (rule num_bits_step_count [OF _ _ s4]) (use r3 m in simp_all)
  have r5: "unat l5 < 2 ^ 2 \<and> l5 \<noteq> 0 \<and> unat b5 + bit_count (unat l5) = m + 1"
    by (rule num_bits_step_count [OF _ _ s5]) (use r4 m in simp_all)
  have r6: "unat l6 < 2 ^ 1 \<and> l6 \<noteq> 0 \<and> unat b6 + bit_count (unat l6) = m + 1"
    by (rule num_bits_step_count [OF _ _ s6]) (use r5 m in simp_all)
  have "unat l6 = 1" using r6 by (simp add: word_unat_eq_iff)
  then have "unat b6 = m" using r6 by (simp add: bit_count.simps)
  then show ?thesis using False by (simp add: BN_num_bits_word_def s1 s2 s3 s4 s5 s6 Let_def m_def del: One_nat_def)
qed

lemma BN_num_bits_eq: "BN_num_bits bn = bit_count (bn_abs bn)"
proof -
  let ?w = "bn_minimal_width bn" and ?d = "bn_d bn"
  note m = bn_minimal_width [of bn]
  have v: "bn_abs bn = bn_val (take ?w ?d)" using bn_val_drop_0 [OF m(2)] by (simp add: bn_abs_def)
  show ?thesis
  proof (cases "?w = 0")
    case True
    then show ?thesis using v by (simp add: BN_num_bits_def)
  next
    case False
    then have "take ?w ?d = take (?w - 1) ?d @ [?d ! (?w - 1)]"
      using m(1) take_Suc_conv_app_nth [of "?w - 1" ?d] by (simp add: bn_width_def)
    moreover have l: "length (take (?w - 1) ?d) = ?w - 1" using m(1) by (simp add: bn_width_def)
    ultimately have "bn_abs bn = bn_val (take (?w - 1) ?d) + 2 ^ (64 * (?w - 1)) * unat (?d ! (?w - 1))"
      using v bn_val_append [of "take (?w - 1) ?d" "[?d ! (?w - 1)]"] by (simp add: BN_B_def power_mult)
    moreover have "bn_val (take (?w - 1) ?d) < 2 ^ (64 * (?w - 1))"
      using bn_val_bound [of "take (?w - 1) ?d"] unfolding l by (simp add: BN_B_def power_mult)
    moreover have "0 < unat (?d ! (?w - 1))" using m(3) [OF False] by (metis gr0I unsigned_eq_0_iff)
    ultimately have "bit_count (bn_abs bn) = 64 * (?w - 1) + bit_count (unat (?d ! (?w - 1)))"
      by (simp only: bit_count_digit)
    then show ?thesis using False by (simp add: BN_num_bits_def BN_num_bits_word_eq Let_def)
  qed
qed

section \<open>Comparison as numbers\<close>

lemma select_int_eq:
  "constant_time_select_int (- 1) a b = sint (word_of_int a :: u32)"
  "constant_time_select_int 0 a b = sint (word_of_int b :: u32)"
proof -
  have "ucast (word_of_int x :: u64) = (word_of_int x :: u32)" for x :: int
    by (rule bit_word_eqI) (simp add: bit_simps)
  then show "constant_time_select_int (- 1) a b = sint (word_of_int a :: u32)"
    "constant_time_select_int 0 a b = sint (word_of_int b :: u32)"
    by (simp_all add: constant_time_select_int_def constant_time_select_w_eq)
qed

lemma sint_sgn: "x \<in> {- 1, 0, 1} \<Longrightarrow> sint (word_of_int x :: u32) = x"
  by auto

definition cmp_nat :: "nat \<Rightarrow> nat \<Rightarrow> int" where
  "cmp_nat x y = (if x < y then - 1 else if x = y then 0 else 1)"

lemma cmp_nat_range: "cmp_nat x y \<in> {- 1, 0, 1}"
  by (simp add: cmp_nat_def)

text \<open>The words are visited from the least significant on; a later difference takes precedence.\<close>

lemma cmp_words_loop:
  "ret \<in> {- 1, 0, 1} \<Longrightarrow> length as = length bs \<Longrightarrow>
    cmp_words_loop as bs ret = (if bn_val as = bn_val bs then ret else cmp_nat (bn_val as) (bn_val bs))"
proof (induction as bs arbitrary: ret rule: list_induct2')
  case (4 a as b bs)
  define r where "r = (if a = b then ret else if a < b then - 1 else 1)"
  have r: "r \<in> {- 1, 0, 1}" using 4(2) by (simp add: r_def)
  have "constant_time_select_int (constant_time_eq_w a b) ret (constant_time_select_int (constant_time_lt_w a b) (- 1) 1) = r"
    using sint_sgn [OF 4(2)] by (auto simp: r_def constant_time_eq_w_eq constant_time_lt_w_eq select_int_eq)
  then have "cmp_words_loop (a # as) (b # bs) ret = (if bn_val as = bn_val bs then r else cmp_nat (bn_val as) (bn_val bs))"
    using 4(1) [OF r] 4(3) by simp
  also have "\<dots> = (if bn_val (a # as) = bn_val (b # bs) then ret else cmp_nat (bn_val (a # as)) (bn_val (b # bs)))"
  proof (cases "bn_val as = bn_val bs")
    case True
    then show ?thesis by (auto simp: r_def cmp_nat_def word_less_nat_alt word_unat_eq_iff)
  next
    case False
    have "bn_val (a # as) < bn_val (b # bs)" if "bn_val as < bn_val bs"
      using digit_less [of "unat a" "bn_val as" "bn_val bs"] that by simp
    moreover have "bn_val (b # bs) < bn_val (a # as)" if "bn_val bs < bn_val as"
      using digit_less [of "unat b" "bn_val bs" "bn_val as"] that by simp
    ultimately show ?thesis using False by (cases "bn_val as < bn_val bs") (auto simp: cmp_nat_def)
  qed
  finally show ?case .
qed auto

lemma cmp_words_loop_take:
  "cmp_words_loop as bs ret = cmp_words_loop (take (length bs) as) (take (length as) bs) ret"
  by (induction as bs arbitrary: ret rule: list_induct2') auto

lemma bn_cmp_words_eq: "bn_cmp_words_consttime a b = cmp_nat (bn_val a) (bn_val b)"
proof -
  define n where "n = min (length a) (length b)"
  have la: "length (take n a) = n" and lb: "length (take n b) = n" by (simp_all add: n_def)
  define r where "r = cmp_words_loop a b 0"
  have "r = cmp_words_loop (take n a) (take n b) 0"
    unfolding r_def n_def by (subst cmp_words_loop_take) (simp add: min_def)
  then have r: "r = cmp_nat (bn_val (take n a)) (bn_val (take n b))"
    using cmp_words_loop [of 0 "take n a" "take n b"] la lb by (simp add: cmp_nat_def)
  have rr: "sint (word_of_int r :: u32) = r" unfolding r by (rule sint_sgn [OF cmp_nat_range])
  consider "length a = length b" | "length a < length b" | "length b < length a" by linarith
  then show ?thesis
  proof cases
    case 1
    then show ?thesis using r by (simp add: bn_cmp_words_consttime_def n_def flip: r_def)
  next
    case 2
    then have n: "n = length a" by (simp add: n_def)
    have v: "bn_val b = bn_val (take n b) + BN_B ^ n * bn_val (drop n b)"
      using bn_val_append [of "take n b" "drop n b"] lb by simp
    have "bn_val a < BN_B ^ n" using bn_val_bound [of a] n by simp
    then have "bn_val a < bn_val b" if "bn_val (drop n b) \<noteq> 0"
      using v that by (cases "bn_val (drop n b)") auto
    note gt = this
    have e: "bn_cmp_words_consttime a b = (if bn_val (drop n b) = 0 then r else - 1)"
      using 2 n or_words_val [of "drop n b"]
      by (simp add: bn_cmp_words_consttime_def constant_time_is_zero_w_eq select_int_eq rr flip: r_def)
    show ?thesis
    proof (cases "bn_val (drop n b) = 0")
      case True
      then have "bn_val (take n b) = bn_val b" by (rule bn_val_drop_0)
      then show ?thesis using e True r n by simp
    next
      case False
      then show ?thesis using e gt [OF False] by (simp add: cmp_nat_def)
    qed
  next
    case 3
    then have n: "n = length b" by (simp add: n_def)
    have v: "bn_val a = bn_val (take n a) + BN_B ^ n * bn_val (drop n a)"
      using bn_val_append [of "take n a" "drop n a"] la by simp
    have "bn_val b < BN_B ^ n" using bn_val_bound [of b] n by simp
    then have "bn_val b < bn_val a" if "bn_val (drop n a) \<noteq> 0"
      using v that by (cases "bn_val (drop n a)") auto
    note gt = this
    have e: "bn_cmp_words_consttime a b = (if bn_val (drop n a) = 0 then r else 1)"
      using 3 n or_words_val [of "drop n a"]
      by (simp add: bn_cmp_words_consttime_def constant_time_is_zero_w_eq select_int_eq rr flip: r_def)
    show ?thesis
    proof (cases "bn_val (drop n a) = 0")
      case True
      then have "bn_val (take n a) = bn_val a" by (rule bn_val_drop_0)
      then show ?thesis using e True r n by simp
    next
      case False
      then show ?thesis using e gt [OF False] by (simp add: cmp_nat_def)
    qed
  qed
qed

lemma BN_ucmp_eq: "BN_ucmp a b = cmp_nat (bn_abs a) (bn_abs b)"
  by (simp add: BN_ucmp_def bn_cmp_words_eq bn_abs_def)

text \<open>Zero with a sign, which the operations never make, counts as less than zero.\<close>

lemma BN_cmp_eq:
  assumes "bn_neg a \<longrightarrow> bn_abs a \<noteq> 0" "bn_neg b \<longrightarrow> bn_abs b \<noteq> 0"
  shows "BN_cmp (Some a) (Some b) = (if bn_int a < bn_int b then - 1 else if bn_int a = bn_int b then 0 else 1)"
  using assms by (auto simp: BN_cmp_def bn_int_def BN_ucmp_eq cmp_nat_def Let_def)

lemma fold_xor_words:
  "length as = length bs \<Longrightarrow> fold (\<lambda>(x, y) m. m OR (x XOR y)) (zip as bs) m = (0 :: u64) \<longleftrightarrow> m = 0 \<and> as = bs"
  by (induction as bs arbitrary: m rule: list_induct2) (auto simp: or_eq_0_iff xor_eq_0_iff)

lemma zip_min: "zip as bs = zip (take (length bs) as) (take (length as) bs)"
  by (induction as bs rule: list_induct2') auto

lemma BN_equal_consttime_eq: "BN_equal_consttime a b \<longleftrightarrow> bn_neg a = bn_neg b \<and> bn_abs a = bn_abs b"
proof -
  let ?a = "bn_d a" and ?b = "bn_d b"
  let ?n = "min (length ?a) (length ?b)"
  have z: "zip ?a ?b = zip (take ?n ?a) (take ?n ?b)" by (subst zip_min) (simp add: min_def)
  have "BN_equal_consttime a b \<longleftrightarrow> bn_val (drop (length ?b) ?a) = 0 \<and> bn_val (drop (length ?a) ?b) = 0 \<and>
      take ?n ?a = take ?n ?b \<and> bn_neg a = bn_neg b"
    unfolding BN_equal_consttime_def Let_def z
    by (auto simp: or_eq_0_iff fold_xor_words or_words_eq_0 bn_val_eq_0 bn_width_def)
  also have "\<dots> \<longleftrightarrow> bn_neg a = bn_neg b \<and> bn_abs a = bn_abs b"
  proof (cases "bn_abs a = bn_abs b")
    case True
    note eq = this [unfolded bn_abs_def]
    have da: "bn_val (drop (length ?b) ?a) = 0"
      using bn_fits_in_words [of a "length ?b"] bn_val_bound [of ?b] eq by (simp add: bn_fits_in_words_def or_words_val bn_abs_def)
    have db: "bn_val (drop (length ?a) ?b) = 0"
      using bn_fits_in_words [of b "length ?a"] bn_val_bound [of ?a] eq by (simp add: bn_fits_in_words_def or_words_val bn_abs_def)
    have "bn_val (take ?n ?a) = bn_val ?a" "bn_val (take ?n ?b) = bn_val ?b"
      using bn_val_drop_0 [OF da] bn_val_drop_0 [OF db] by (auto simp: min_def)
    then have "take ?n ?a = take ?n ?b" using eq by (intro bn_val_inj) simp_all
    then show ?thesis using da db True by simp
  next
    case False
    have "bn_abs a = bn_abs b" if "bn_val (drop (length ?b) ?a) = 0" "bn_val (drop (length ?a) ?b) = 0" "take ?n ?a = take ?n ?b"
      using bn_val_drop_0 [OF that(1)] bn_val_drop_0 [OF that(2)] that(3) unfolding bn_abs_def
      by (auto simp: min_def split: if_splits)
    then show ?thesis using False by blast
  qed
  finally show ?thesis .
qed

section \<open>Properties\<close>

text \<open>The comparisons, which compute the same words whatever the numbers are, decide the order of the
  integers at any two widths: \<open>BN_cmp\<close> its sign, \<open>BN_ucmp\<close> that of the magnitudes, and
  \<open>BN_equal_consttime\<close> equality.\<close>

theorem bn_compare_integers:
  assumes "bn_neg a \<longrightarrow> bn_abs a \<noteq> 0" "bn_neg b \<longrightarrow> bn_abs b \<noteq> 0"
  shows "BN_cmp (Some a) (Some b) = sgn (bn_int a - bn_int b) \<and>
    BN_ucmp a b = sgn (int (bn_abs a) - int (bn_abs b)) \<and>
    (BN_equal_consttime a b \<longleftrightarrow> bn_int a = bn_int b)"
  using assms by (auto simp: BN_cmp_eq BN_ucmp_eq cmp_nat_def BN_equal_consttime_eq bn_int_def sgn_if)

text \<open>\<open>2^64\<close> against \<open>- 3\<close>, and \<open>3\<close> in one word against \<open>3\<close> in two.\<close>

theorem bn_compare_integers_witness:
  "BN_cmp (Some \<lparr>bn_d = [0, 1], bn_dmax = 2, bn_neg = False, bn_static = False\<rparr>)
     (Some \<lparr>bn_d = [3], bn_dmax = 1, bn_neg = True, bn_static = False\<rparr>) = 1 \<and>
   BN_equal_consttime \<lparr>bn_d = [3, 0], bn_dmax = 2, bn_neg = True, bn_static = False\<rparr>
     \<lparr>bn_d = [3], bn_dmax = 1, bn_neg = True, bn_static = False\<rparr>"
  using bn_compare_integers [of "\<lparr>bn_d = [0, 1], bn_dmax = 2, bn_neg = False, bn_static = False\<rparr>"
      "\<lparr>bn_d = [3], bn_dmax = 1, bn_neg = True, bn_static = False\<rparr>"]
    bn_compare_integers [of "\<lparr>bn_d = [3, 0], bn_dmax = 2, bn_neg = True, bn_static = False\<rparr>"
      "\<lparr>bn_d = [3], bn_dmax = 1, bn_neg = True, bn_static = False\<rparr>"]
  by (simp add: bn_int_def bn_abs_def BN_B_def)

lemma bit_count_bounds: "0 < n \<Longrightarrow> 2 ^ (bit_count n - 1) \<le> n \<and> n < 2 ^ bit_count n"
proof -
  assume n: "0 < n"
  have "bit_count n \<noteq> 0" using n by (subst bit_count.simps) simp
  then have "\<not> bit_count n \<le> bit_count n - 1" by simp
  then show ?thesis unfolding bit_count_le using bit_count_le [of n "bit_count n"] by (simp add: not_less)
qed

text \<open>\<open>BN_num_bits\<close>, computed on the highest word with masks and no branches, is the length of the
  magnitude in bits whatever the width is, and \<open>BN_num_bytes\<close> its length in bytes.\<close>

theorem BN_num_bits_length:
  "(bn_abs bn = 0 \<longrightarrow> BN_num_bits bn = 0) \<and>
    (bn_abs bn \<noteq> 0 \<longrightarrow> 2 ^ (BN_num_bits bn - 1) \<le> bn_abs bn \<and> bn_abs bn < 2 ^ BN_num_bits bn) \<and>
    (\<forall>n. BN_num_bytes bn \<le> n \<longleftrightarrow> bn_abs bn < 256 ^ n)"
proof -
  have "BN_num_bytes bn \<le> n \<longleftrightarrow> bn_abs bn < 256 ^ n" for n
  proof -
    have "BN_num_bytes bn \<le> n \<longleftrightarrow> BN_num_bits bn \<le> 8 * n" unfolding BN_num_bytes_def by linarith
    also have "\<dots> \<longleftrightarrow> bn_abs bn < 2 ^ (8 * n)" unfolding BN_num_bits_eq by (rule bit_count_le)
    finally show ?thesis by (simp add: power_mult)
  qed
  then show ?thesis using bit_count_bounds [of "bn_abs bn"] by (simp add: BN_num_bits_eq)
qed

text \<open>\<open>2^64 + 5\<close> in three words has 65 bits.\<close>

theorem BN_num_bits_length_witness:
  "2 ^ (BN_num_bits \<lparr>bn_d = [5, 1, 0], bn_dmax = 3, bn_neg = False, bn_static = False\<rparr> - 1) \<le> 5 + BN_B"
  using BN_num_bits_length [of "\<lparr>bn_d = [5, 1, 0], bn_dmax = 3, bn_neg = False, bn_static = False\<rparr>"]
  by (simp add: bn_abs_def)

end
