(* ===== verification/Bn_Add.thy ===== *)
theory Bn_Add
  imports Bn
begin

text \<open>
  \<open>crypto/fipsmodule/bn/add.c\<close>: addition and subtraction of signed numbers and of words. The magnitudes go
  through \<open>bn_add_words\<close> and \<open>bn_sub_words\<close> for the common words and a carry or borrow loop for the rest.
  The results are those of the integers for operands of any widths; \<open>bn_room\<close> says when the result buffer
  can be had, and then the functions do not fail.
\<close>

text \<open>\<open>r[i] = carry + a[i]; carry = r[i] < a[i]\<close>.\<close>

primrec carry_loop :: "u64 list \<Rightarrow> u64 \<Rightarrow> u64 list \<times> u64" where
  "carry_loop [] carry = ([], carry)"
| "carry_loop (a # as) carry =
     (let tmp = carry + a;
          carry = (if tmp < a then 1 else 0);
          (rs, carry) = carry_loop as carry
      in (tmp # rs, carry))"

primrec borrow_loop :: "u64 list \<Rightarrow> u64 \<Rightarrow> u64 list \<times> u64" where
  "borrow_loop [] borrow = ([], borrow)"
| "borrow_loop (a # as) borrow =
     (let tmp = a;
          r = a - borrow;
          borrow = (if tmp < r then 1 else 0);
          (rs, borrow) = borrow_loop as borrow
      in (r # rs, borrow))"

definition bn_uadd_consttime :: "(nat \<Rightarrow> bool) \<Rightarrow> bignum \<Rightarrow> bignum \<Rightarrow> bignum \<Rightarrow> bool \<times> bignum" where
  "bn_uadd_consttime libc r a b =
     (let (a, b) = (if bn_width a < bn_width b then (b, a) else (a, b));
          mx = bn_width a;
          mn = bn_width b
      in case bn_wexpand libc r (mx + 1) of
           (ok, r) \<Rightarrow>
             if \<not> ok then (False, r)
             else
               let (lo, carry) = bn_add_words (take mn (bn_d a)) (bn_d b);
                   (hi, carry) = carry_loop (drop mn (bn_d a)) carry
               in (True, r\<lparr>bn_d := lo @ hi @ [carry]\<rparr>))"

definition BN_uadd :: "(nat \<Rightarrow> bool) \<Rightarrow> bignum \<Rightarrow> bignum \<Rightarrow> bignum \<Rightarrow> bool \<times> bignum" where
  "BN_uadd libc r a b =
     (case bn_uadd_consttime libc r a b of
        (ok, r) \<Rightarrow> if \<not> ok then (False, r) else (True, bn_set_minimal_width r))"

text \<open>When the borrow is not zero the words of \<open>r\<close> have been overwritten, its width and sign not.\<close>

definition bn_usub_consttime :: "(nat \<Rightarrow> bool) \<Rightarrow> bignum \<Rightarrow> bignum \<Rightarrow> bignum \<Rightarrow> bool \<times> bignum" where
  "bn_usub_consttime libc r a b =
     (if bn_width b > bn_width a \<and> \<not> bn_fits_in_words b (bn_width a) then (False, r)
      else
        let b_width = (if bn_width b > bn_width a then bn_width a else bn_width b)
        in case bn_wexpand libc r (bn_width a) of
             (ok, r) \<Rightarrow>
               if \<not> ok then (False, r)
               else
                 let (lo, borrow) = bn_sub_words (take b_width (bn_d a)) (take b_width (bn_d b));
                     (hi, borrow) = borrow_loop (drop b_width (bn_d a)) borrow
                 in if borrow \<noteq> 0 then
                      (False, r\<lparr>bn_d := take (bn_width r) (lo @ hi @ drop (bn_width a) (bn_d r))\<rparr>)
                    else (True, r\<lparr>bn_d := lo @ hi, bn_neg := False\<rparr>))"

definition BN_usub :: "(nat \<Rightarrow> bool) \<Rightarrow> bignum \<Rightarrow> bignum \<Rightarrow> bignum \<Rightarrow> bool \<times> bignum" where
  "BN_usub libc r a b =
     (case bn_usub_consttime libc r a b of
        (ok, r) \<Rightarrow> if \<not> ok then (False, r) else (True, bn_set_minimal_width r))"

definition BN_add :: "(nat \<Rightarrow> bool) \<Rightarrow> bignum \<Rightarrow> bignum \<Rightarrow> bignum \<Rightarrow> bool \<times> bignum" where
  "BN_add libc r a b =
     (let a_neg = bn_neg a
      in if a_neg \<noteq> bn_neg b then
           (let (a, b) = (if a_neg then (b, a) else (a, b))
            in if BN_ucmp a b < 0 then
                 (case BN_usub libc r b a of
                    (ok, r) \<Rightarrow> if \<not> ok then (False, r) else (True, r\<lparr>bn_neg := True\<rparr>))
               else
                 (case BN_usub libc r a b of
                    (ok, r) \<Rightarrow> if \<not> ok then (False, r) else (True, r\<lparr>bn_neg := False\<rparr>)))
         else
           (case BN_uadd libc r a b of (ret, r) \<Rightarrow> (ret, r\<lparr>bn_neg := a_neg\<rparr>)))"

definition BN_sub :: "(nat \<Rightarrow> bool) \<Rightarrow> bignum \<Rightarrow> bignum \<Rightarrow> bignum \<Rightarrow> bool \<times> bignum" where
  "BN_sub libc r a b =
     (let (a', b') = (if bn_neg a \<and> bn_neg b then (b, a) else (a, b));
          add = (bn_neg a \<noteq> bn_neg b);
          neg = (bn_neg a \<and> \<not> bn_neg b)
      in if add then
           (case BN_uadd libc r a' b' of
              (ok, r) \<Rightarrow> if \<not> ok then (False, r) else (True, r\<lparr>bn_neg := neg\<rparr>))
         else if BN_ucmp a' b' < 0 then
           (case BN_usub libc r b' a' of
              (ok, r) \<Rightarrow> if \<not> ok then (False, r) else (True, r\<lparr>bn_neg := True\<rparr>))
         else
           (case BN_usub libc r a' b' of
              (ok, r) \<Rightarrow> if \<not> ok then (False, r) else (True, r\<lparr>bn_neg := False\<rparr>)))"

section \<open>Words\<close>

text \<open>\<open>for (i = 0; w != 0 && i < a->width; i++)\<close>: the words and what is left of the carry.\<close>

fun add_word_loop :: "u64 list \<Rightarrow> u64 \<Rightarrow> u64 list \<times> u64" where
  "add_word_loop [] w = ([], w)"
| "add_word_loop (a # as) w =
     (if w = 0 then (a # as, 0)
      else
        let l = a + w;
            w = (if w > l then 1 else 0);
            (rs, w) = add_word_loop as w
        in (l # rs, w))"

fun sub_word_loop :: "u64 list \<Rightarrow> u64 \<Rightarrow> u64 list" where
  "sub_word_loop [] w = []"
| "sub_word_loop (a # as) w = (if a \<ge> w then (a - w) # as else (a - w) # sub_word_loop as 1)"

text \<open>The index at which the loop of \<open>BN_sub_word\<close> stops.\<close>

fun sub_word_index :: "u64 list \<Rightarrow> u64 \<Rightarrow> nat \<Rightarrow> nat" where
  "sub_word_index [] w i = i"
| "sub_word_index (a # as) w i = (if a \<ge> w then i else sub_word_index as 1 (i + 1))"

text \<open>The two functions on a number that is not negative; for a negative one each calls the other on the
  magnitude.\<close>

definition add_word_pos :: "(nat \<Rightarrow> bool) \<Rightarrow> bignum \<Rightarrow> u64 \<Rightarrow> bool \<times> bignum" where
  "add_word_pos libc a w =
     (if w = 0 then (True, a)
      else if BN_is_zero a then BN_set_word libc a w
      else
        let (d, w) = add_word_loop (bn_d a) w;
            a = a\<lparr>bn_d := d\<rparr>
        in if w \<noteq> 0 then
             (case bn_wexpand libc a (bn_width a + 1) of
                (ok, a) \<Rightarrow> if \<not> ok then (False, a) else (True, a\<lparr>bn_d := bn_d a @ [w]\<rparr>))
           else (True, a))"

definition sub_word_pos :: "(nat \<Rightarrow> bool) \<Rightarrow> bignum \<Rightarrow> u64 \<Rightarrow> bool \<times> bignum" where
  "sub_word_pos libc a w =
     (if w = 0 then (True, a)
      else if BN_is_zero a then
        (case BN_set_word libc a w of (ok, a) \<Rightarrow> (ok, if ok then BN_set_negative a True else a))
      else if bn_minimal_width a = 1 \<and> bn_d a ! 0 < w then
        (True, a\<lparr>bn_d := (bn_d a)[0 := w - bn_d a ! 0], bn_neg := True\<rparr>)
      else
        let i = sub_word_index (bn_d a) w 0;
            a = a\<lparr>bn_d := sub_word_loop (bn_d a) w\<rparr>
        in if bn_d a ! i = 0 \<and> i = bn_width a - 1 then (True, a\<lparr>bn_d := butlast (bn_d a)\<rparr>) else (True, a))"

definition BN_add_word :: "(nat \<Rightarrow> bool) \<Rightarrow> bignum \<Rightarrow> u64 \<Rightarrow> bool \<times> bignum" where
  "BN_add_word libc a w =
     (if w \<noteq> 0 \<and> \<not> BN_is_zero a \<and> bn_neg a then
        (case sub_word_pos libc (a\<lparr>bn_neg := False\<rparr>) w of
           (i, a) \<Rightarrow> (i, if \<not> BN_is_zero a then a\<lparr>bn_neg := \<not> bn_neg a\<rparr> else a))
      else add_word_pos libc a w)"

definition BN_sub_word :: "(nat \<Rightarrow> bool) \<Rightarrow> bignum \<Rightarrow> u64 \<Rightarrow> bool \<times> bignum" where
  "BN_sub_word libc a w =
     (if w \<noteq> 0 \<and> \<not> BN_is_zero a \<and> bn_neg a then
        (case add_word_pos libc (a\<lparr>bn_neg := False\<rparr>) w of (i, a) \<Rightarrow> (i, a\<lparr>bn_neg := True\<rparr>))
      else sub_word_pos libc a w)"

section \<open>Carries and borrows\<close>

lemma carry_loop_val:
  "unat c \<le> 1 \<Longrightarrow> carry_loop as c = (rs, c') \<Longrightarrow>
    length rs = length as \<and> unat c' \<le> 1 \<and> bn_val rs + BN_B ^ length as * unat c' = bn_val as + unat c"
proof (induction as arbitrary: c rs)
  case (Cons a as)
  define k :: u64 where "k = (if c + a < a then 1 else 0)"
  obtain rs1 where l: "carry_loop as k = (rs1, c')" "rs = (c + a) # rs1"
    using Cons.prems(2) by (auto simp: k_def Let_def split: prod.splits)
  have s: "unat (c + a) + BN_B * unat k = unat c + unat a" using carry_word [of c a] by (auto simp: k_def)
  have "unat k \<le> 1" by (simp add: k_def)
  note IH = Cons.IH [OF this l(1)]
  have "bn_val rs + BN_B ^ length (a # as) * unat c' = unat (c + a) + BN_B * (bn_val rs1 + BN_B ^ length as * unat c')"
    by (simp add: l(2) algebra_simps)
  also have "\<dots> = unat (c + a) + BN_B * unat k + BN_B * bn_val as" using IH by (simp add: algebra_simps)
  finally show ?case using IH s by (simp add: l(2))
qed simp

lemma borrow_word:
  fixes a c :: u64
  assumes "unat c \<le> 1"
  shows "unat (a - c) + unat c = unat a + BN_B * (if a < a - c then 1 else 0)"
proof (cases "unat c \<le> unat a")
  case True
  then have "unat (a - c) = unat a - unat c" by (simp add: unat_sub_if')
  then show ?thesis using True by (simp add: word_less_nat_alt)
next
  case False
  then have "unat (a - c) = unat a + BN_B - unat c" by (simp add: unat_sub_if' BN_B_def)
  moreover have "unat a < unat a + BN_B - unat c" using False unat_u64_BN [of c] by linarith
  ultimately show ?thesis using unat_u64_BN [of c] by (simp add: word_less_nat_alt less_imp_le)
qed

lemma borrow_loop_val:
  "unat c \<le> 1 \<Longrightarrow> borrow_loop as c = (rs, c') \<Longrightarrow>
    length rs = length as \<and> unat c' \<le> 1 \<and> bn_val rs + unat c = bn_val as + BN_B ^ length as * unat c'"
proof (induction as arbitrary: c rs)
  case (Cons a as)
  define k :: u64 where "k = (if a < a - c then 1 else 0)"
  obtain rs1 where l: "borrow_loop as k = (rs1, c')" "rs = (a - c) # rs1"
    using Cons.prems(2) by (auto simp: k_def Let_def split: prod.splits)
  have s: "unat (a - c) + unat c = unat a + BN_B * unat k" using borrow_word [OF Cons.prems(1), of a] by (auto simp: k_def)
  have "unat k \<le> 1" by (simp add: k_def)
  note IH = Cons.IH [OF this l(1)]
  have "bn_val rs + unat c + BN_B * unat k = unat (a - c) + unat c + BN_B * (bn_val rs1 + unat k)"
    by (simp add: l(2) algebra_simps)
  also have "\<dots> = unat a + BN_B * unat k + BN_B * (bn_val as + BN_B ^ length as * unat c')" using IH s by simp
  also have "\<dots> = bn_val (a # as) + BN_B ^ length (a # as) * unat c' + BN_B * unat k" by (simp add: algebra_simps)
  finally show ?case using IH by (simp add: l(2))
qed simp

text \<open>Room for up to \<open>n\<close> words.\<close>

definition bn_room :: "(nat \<Rightarrow> bool) \<Rightarrow> bignum \<Rightarrow> nat \<Rightarrow> bool" where
  "bn_room libc r n \<longleftrightarrow> (\<forall>k\<le>n. fst (bn_wexpand libc r k))"

lemma bn_room_libc:
  assumes "\<not> bn_static r" "\<And>k. libc k" "n \<le> 8388607"
  shows "bn_room libc r n"
  using assms by (auto simp: bn_room_def bn_wexpand_def OPENSSL_malloc_def OPENSSL_MALLOC_PREFIX_def)

lemma bn_wexpand_frame: "bn_wexpand libc r k = (ok, r') \<Longrightarrow> bn_d r' = bn_d r \<and> bn_neg r' = bn_neg r \<and> bn_static r' = bn_static r"
  by (auto simp: bn_wexpand_def split: if_splits)

lemma bn_wexpand_upd [simp]:
  "fst (bn_wexpand libc (r\<lparr>bn_d := d\<rparr>) n) = fst (bn_wexpand libc r n)"
  "fst (bn_wexpand libc (r\<lparr>bn_neg := s\<rparr>) n) = fst (bn_wexpand libc r n)"
  by (simp_all add: bn_wexpand_def)

lemma bn_uadd_consttime_val:
  assumes "bn_uadd_consttime libc r a b = (True, r')"
  shows "bn_abs r' = bn_abs a + bn_abs b \<and> bn_neg r' = bn_neg r \<and> bn_width r' = max (bn_width a) (bn_width b) + 1"
proof -
  obtain x y where xy: "(if bn_width a < bn_width b then (b, a) else (a, b)) = (x, y)" by (rule prod.exhaust)
  have le: "bn_width y \<le> bn_width x" and s: "bn_abs x + bn_abs y = bn_abs a + bn_abs b"
    and mx: "bn_width x = max (bn_width a) (bn_width b)"
    using xy by (auto split: if_splits)
  obtain ok r1 where w: "bn_wexpand libc r (Suc (bn_width x)) = (ok, r1)" by (rule prod.exhaust)
  obtain lo c where l: "bn_add_words (take (bn_width y) (bn_d x)) (bn_d y) = (lo, c)" by (rule prod.exhaust)
  obtain hi c' where h: "carry_loop (drop (bn_width y) (bn_d x)) c = (hi, c')" by (rule prod.exhaust)
  have r': "r' = r1\<lparr>bn_d := lo @ hi @ [c']\<rparr>"
    using assms by (auto simp: bn_uadd_consttime_def xy w l h Let_def split: if_splits)
  let ?n = "bn_width y" and ?x = "bn_d x"
  have len: "length (take ?n ?x) = length (bn_d y)" "length (bn_d y) = ?n" using le by (simp_all add: bn_width_def)
  note L = bn_add_words_val [OF len(1) l] and H = carry_loop_val [OF _ h]
  have lens: "length lo = ?n" "length hi = bn_width x - ?n" using L H le by (auto simp: bn_width_def)
  have "bn_abs r' = bn_val lo + BN_B ^ ?n * (bn_val hi + BN_B ^ length hi * unat c')"
    by (simp add: bn_abs_def r' bn_val_append lens(1))
  also have "\<dots> = bn_val lo + BN_B ^ ?n * unat c + BN_B ^ ?n * bn_val (drop ?n ?x)"
    using H L lens by (simp add: algebra_simps)
  also have "\<dots> = bn_val (take ?n ?x) + bn_val (bn_d y) + BN_B ^ ?n * bn_val (drop ?n ?x)"
    using L len by simp
  also have "\<dots> = bn_abs x + bn_abs y"
    using bn_val_append [of "take ?n ?x" "drop ?n ?x"] len by (simp add: bn_abs_def)
  finally show ?thesis using s le mx lens bn_wexpand_frame [OF w] by (auto simp: r' bn_width_def)
qed

lemma bn_uadd_consttime_ok: "fst (bn_uadd_consttime libc r a b) = fst (bn_wexpand libc r (max (bn_width a) (bn_width b) + 1))"
  by (auto simp: bn_uadd_consttime_def Let_def max_def split: prod.splits if_splits)

text \<open>The sign of the result is the old sign of \<open>r\<close>.\<close>

lemma BN_uadd_val:
  assumes "BN_uadd libc r a b = (True, r')"
  shows "bn_abs r' = bn_abs a + bn_abs b" "bn_minimal r'" "bn_neg r' \<longleftrightarrow> bn_neg r \<and> bn_abs r' \<noteq> 0"
proof -
  obtain r1 where r1: "bn_uadd_consttime libc r a b = (True, r1)" "r' = bn_set_minimal_width r1"
    using assms by (auto simp: BN_uadd_def split: prod.splits if_splits)
  note v = bn_uadd_consttime_val [OF r1(1)]
  show a: "bn_abs r' = bn_abs a + bn_abs b" "bn_minimal r'" using v by (simp_all add: r1(2) bn_set_minimal_width)
  have "bn_neg r' \<longleftrightarrow> bn_neg r \<and> bn_d r' \<noteq> []"
    using v by (auto simp: r1(2) bn_set_minimal_width_def Let_def bn_width_def)
  moreover have "bn_d r' = [] \<longleftrightarrow> bn_abs r' = 0" using a(2) by (rule bn_minimal_empty)
  ultimately show "bn_neg r' \<longleftrightarrow> bn_neg r \<and> bn_abs r' \<noteq> 0" by simp
qed

lemma BN_uadd_ok: "fst (BN_uadd libc r a b) = fst (bn_wexpand libc r (max (bn_width a) (bn_width b) + 1))"
  using bn_uadd_consttime_ok [of libc r a b] by (auto simp: BN_uadd_def split: prod.splits)

lemma bn_usub_consttime_cases:
  obtains (wide) "bn_width a < bn_width b" "BN_B ^ bn_width a \<le> bn_abs b" "bn_usub_consttime libc r a b = (False, r)"
  | (room) r1 where "bn_wexpand libc r (bn_width a) = (False, r1)" "bn_usub_consttime libc r a b = (False, r1)"
  | (below) r1 where "bn_abs a < bn_abs b" "bn_usub_consttime libc r a b = (False, r1)"
  | (ok) r1 where "bn_wexpand libc r (bn_width a) = (True, r1)" "bn_abs b \<le> bn_abs a"
      "\<exists>d. bn_usub_consttime libc r a b = (True, r1\<lparr>bn_d := d, bn_neg := False\<rparr>) \<and> bn_val d + bn_abs b = bn_abs a \<and>
         length d = bn_width a"
proof (cases "bn_width b > bn_width a \<and> \<not> bn_fits_in_words b (bn_width a)")
  case True
  then show ?thesis by (intro wide) (simp_all add: bn_fits_in_words bn_usub_consttime_def)
next
  case fits: False
  define n where "n = (if bn_width b > bn_width a then bn_width a else bn_width b)"
  obtain ok r1 where w: "bn_wexpand libc r (bn_width a) = (ok, r1)" by (rule prod.exhaust)
  obtain lo c where l: "bn_sub_words (take n (bn_d a)) (take n (bn_d b)) = (lo, c)" by (rule prod.exhaust)
  obtain hi c' where h: "borrow_loop (drop n (bn_d a)) c = (hi, c')" by (rule prod.exhaust)
  have u: "bn_usub_consttime libc r a b =
      (if \<not> ok then (False, r1)
       else if c' \<noteq> 0 then (False, r1\<lparr>bn_d := take (bn_width r1) (lo @ hi @ drop (bn_width a) (bn_d r1))\<rparr>)
       else (True, r1\<lparr>bn_d := lo @ hi, bn_neg := False\<rparr>))"
    unfolding bn_usub_consttime_def if_not_P [OF fits] by (simp add: w l h flip: n_def)
  have n: "n \<le> bn_width a" "length (take n (bn_d a)) = n" "length (take n (bn_d b)) = n"
    by (auto simp: n_def bn_width_def)
  note L = bn_sub_words_val [OF _ l, unfolded n, OF refl] and H = borrow_loop_val [OF _ h]
  have b: "bn_val (take n (bn_d b)) = bn_abs b"
  proof (cases "bn_width b > bn_width a")
    case True
    then have "bn_val (drop n (bn_d b)) = 0" using fits by (simp add: n_def bn_fits_in_words_def or_words_val)
    then show ?thesis by (simp add: bn_val_drop_0 bn_abs_def)
  qed (simp add: n_def bn_width_def bn_abs_def)
  have lens: "length lo = n" "length hi = bn_width a - n" using L H by (auto simp: bn_width_def)
  have v: "bn_val (lo @ hi) + bn_abs b = bn_abs a + BN_B ^ bn_width a * unat c'"
  proof -
    have "bn_val (lo @ hi) + bn_abs b + BN_B ^ n * unat c = (bn_val lo + bn_abs b) + BN_B ^ n * (bn_val hi + unat c)"
      by (simp add: bn_val_append lens algebra_simps)
    also have "\<dots> = bn_val (take n (bn_d a)) + BN_B ^ n * unat c + BN_B ^ n * (bn_val (drop n (bn_d a)) + BN_B ^ length hi * unat c')"
      using L H b by simp
    also have "\<dots> = bn_abs a + BN_B ^ bn_width a * unat c' + BN_B ^ n * unat c"
      using bn_val_append [of "take n (bn_d a)" "drop n (bn_d a)"] n lens power_add [of BN_B n "bn_width a - n"]
      by (simp add: bn_abs_def algebra_simps)
    finally show ?thesis by simp
  qed
  have l': "length (lo @ hi) = bn_width a" using lens n by simp
  have bound: "bn_val (lo @ hi) < BN_B ^ bn_width a" using bn_val_bound [of "lo @ hi"] l' by simp
  show ?thesis
  proof (cases "ok \<and> c' = 0")
    case True
    then show ?thesis using v l' by (intro ok [of r1]) (auto simp: w u)
  next
    case False
    show ?thesis
    proof (cases ok)
      case True
      then have "0 < unat c'" using False by (metis gr0I unsigned_eq_0_iff)
      then have "BN_B ^ bn_width a * 1 \<le> BN_B ^ bn_width a * unat c'" by (intro mult_le_mono2) simp
      then have "bn_abs a < bn_abs b" using v bound by linarith
      then show ?thesis using True False by (intro below) (auto simp: u)
    next
      case False
      then show ?thesis by (intro room [of r1]) (simp_all add: w u)
    qed
  qed
qed

lemma BN_usub_val:
  assumes "BN_usub libc r a b = (True, r')"
  shows "bn_abs r' + bn_abs b = bn_abs a" "bn_minimal r'" "\<not> bn_neg r'"
proof -
  obtain r1 where r1: "bn_usub_consttime libc r a b = (True, r1)" "r' = bn_set_minimal_width r1"
    using assms by (auto simp: BN_usub_def split: prod.splits if_splits)
  have "\<exists>d s. r1 = s\<lparr>bn_d := d, bn_neg := False\<rparr> \<and> bn_val d + bn_abs b = bn_abs a"
    by (rule bn_usub_consttime_cases [of a b libc r]) (use r1(1) in auto)
  then obtain d s where s: "r1 = s\<lparr>bn_d := d, bn_neg := False\<rparr>" "bn_val d + bn_abs b = bn_abs a" by blast
  have "bn_abs (s\<lparr>bn_d := d, bn_neg := False\<rparr>) = bn_val d" by (simp add: bn_abs_def)
  then show "bn_abs r' + bn_abs b = bn_abs a" "bn_minimal r'"
    using s(2) by (simp_all add: r1(2) bn_set_minimal_width s(1))
  show "\<not> bn_neg r'" by (simp add: r1(2) s(1) bn_set_minimal_width_def Let_def)
qed

lemma BN_usub_ok:
  assumes "bn_abs b \<le> bn_abs a"
  shows "fst (BN_usub libc r a b) = fst (bn_wexpand libc r (bn_width a))"
proof -
  have "bn_abs a < BN_B ^ bn_width a" by (simp add: bn_abs_def bn_width_def bn_val_bound)
  then show ?thesis
    using assms by (rule_tac bn_usub_consttime_cases [of a b libc r]) (auto simp: BN_usub_def)
qed

section \<open>Addition and subtraction as integers\<close>

lemma bn_abs_upd [simp]: "bn_abs (x\<lparr>bn_neg := s\<rparr>) = bn_abs x" "bn_abs (x\<lparr>bn_d := d\<rparr>) = bn_val d"
  by (simp_all add: bn_abs_def)

lemma bn_int_upd [simp]: "bn_int (x\<lparr>bn_neg := s\<rparr>) = (if s then - int (bn_abs x) else int (bn_abs x))"
  by (simp add: bn_int_def)

lemma bn_minimal_sign:
  assumes "bn_minimal x" "s \<longrightarrow> bn_abs x \<noteq> 0"
  shows "bn_minimal (x\<lparr>bn_neg := s\<rparr>)"
proof -
  have "bn_d x = [] \<longrightarrow> \<not> s" using bn_minimal_empty [OF assms(1)] assms(2) by blast
  then show ?thesis using assms(1) by (simp add: bn_minimal_def)
qed

lemma BN_usub_snd:
  assumes "fst (BN_usub libc r a b)"
  shows "bn_abs (snd (BN_usub libc r a b)) + bn_abs b = bn_abs a" "bn_minimal (snd (BN_usub libc r a b))"
  using BN_usub_val [of libc r a b "snd (BN_usub libc r a b)"] assms by (simp_all add: prod_eq_iff)

lemma BN_uadd_snd:
  assumes "fst (BN_uadd libc r a b)"
  shows "bn_abs (snd (BN_uadd libc r a b)) = bn_abs a + bn_abs b" "bn_minimal (snd (BN_uadd libc r a b))"
  using BN_uadd_val [of libc r a b "snd (BN_uadd libc r a b)"] assms by (simp_all add: prod_eq_iff)

lemma ucmp_less: "BN_ucmp a b < 0 \<longleftrightarrow> bn_abs a < bn_abs b"
  by (simp add: BN_ucmp_eq cmp_nat_def)

text \<open>The difference of two magnitudes, as both functions compute it.\<close>

definition sub_signed :: "(nat \<Rightarrow> bool) \<Rightarrow> bignum \<Rightarrow> bignum \<Rightarrow> bignum \<Rightarrow> bool \<times> bignum" where
  "sub_signed libc r a b =
     (if BN_ucmp a b < 0 then
        (case BN_usub libc r b a of (ok, r) \<Rightarrow> if \<not> ok then (False, r) else (True, r\<lparr>bn_neg := True\<rparr>))
      else (case BN_usub libc r a b of (ok, r) \<Rightarrow> if \<not> ok then (False, r) else (True, r\<lparr>bn_neg := False\<rparr>)))"

definition add_signed :: "(nat \<Rightarrow> bool) \<Rightarrow> bignum \<Rightarrow> bool \<Rightarrow> bignum \<Rightarrow> bignum \<Rightarrow> bool \<times> bignum" where
  "add_signed libc r s a b =
     (case BN_uadd libc r a b of (ok, r) \<Rightarrow> if \<not> ok then (False, r) else (True, r\<lparr>bn_neg := s\<rparr>))"

lemma sub_signed_int:
  assumes "fst (sub_signed libc r a b)"
  shows "bn_int (snd (sub_signed libc r a b)) = int (bn_abs a) - int (bn_abs b) \<and> bn_minimal (snd (sub_signed libc r a b))"
proof (cases "bn_abs a < bn_abs b")
  case True
  then have s: "sub_signed libc r a b =
      (case BN_usub libc r b a of (ok, r) \<Rightarrow> if \<not> ok then (False, r) else (True, r\<lparr>bn_neg := True\<rparr>))"
    by (simp add: sub_signed_def ucmp_less)
  then have ok: "fst (BN_usub libc r b a)" using assms by (auto split: prod.splits if_splits)
  show ?thesis using BN_usub_snd [OF ok] True ok
    by (simp add: s split_beta bn_minimal_sign)
next
  case False
  then have s: "sub_signed libc r a b =
      (case BN_usub libc r a b of (ok, r) \<Rightarrow> if \<not> ok then (False, r) else (True, r\<lparr>bn_neg := False\<rparr>))"
    by (simp add: sub_signed_def ucmp_less)
  then have ok: "fst (BN_usub libc r a b)" using assms by (auto split: prod.splits if_splits)
  show ?thesis using BN_usub_snd [OF ok] False ok by (simp add: s split_beta bn_minimal_sign)
qed

lemma add_signed_int:
  assumes "fst (add_signed libc r s a b)"
  shows "bn_int (snd (add_signed libc r s a b)) = (if s then - 1 else 1) * (int (bn_abs a) + int (bn_abs b)) \<and>
    ((s \<longrightarrow> bn_abs a + bn_abs b \<noteq> 0) \<longrightarrow> bn_minimal (snd (add_signed libc r s a b)))"
proof -
  have ok: "fst (BN_uadd libc r a b)" using assms by (auto simp: add_signed_def split: prod.splits if_splits)
  show ?thesis using BN_uadd_snd [OF ok] ok by (auto simp: add_signed_def split_beta intro!: bn_minimal_sign)
qed

lemma sub_signed_ok:
  assumes "bn_room libc r (max (bn_width a) (bn_width b))"
  shows "fst (sub_signed libc r a b)"
  using assms by (auto simp: sub_signed_def ucmp_less bn_room_def split_beta BN_usub_ok)

lemma add_signed_ok:
  assumes "bn_room libc r (max (bn_width a) (bn_width b) + 1)"
  shows "fst (add_signed libc r s a b)"
  using assms by (auto simp: add_signed_def bn_room_def split_beta BN_uadd_ok)

lemma BN_add_signed:
  "fst (BN_add libc r a b) = fst (if bn_neg a \<noteq> bn_neg b then (if bn_neg a then sub_signed libc r b a else sub_signed libc r a b)
     else add_signed libc r (bn_neg a) a b)"
  "fst (BN_add libc r a b) \<Longrightarrow> BN_add libc r a b = (if bn_neg a \<noteq> bn_neg b then (if bn_neg a then sub_signed libc r b a else sub_signed libc r a b)
     else add_signed libc r (bn_neg a) a b)"
  by (auto simp: BN_add_def sub_signed_def add_signed_def Let_def split: prod.splits if_splits)

lemma BN_sub_signed:
  "BN_sub libc r a b = (if bn_neg a \<noteq> bn_neg b then add_signed libc r (bn_neg a) a b
     else if bn_neg a then sub_signed libc r b a else sub_signed libc r a b)"
proof (cases "bn_neg a = bn_neg b")
  case False
  then have "(bn_neg a \<and> \<not> bn_neg b) = bn_neg a" by blast
  then show ?thesis using False by (simp add: BN_sub_def add_signed_def Let_def)
qed (auto simp: BN_sub_def sub_signed_def Let_def)

lemma BN_add_int:
  assumes "fst (BN_add libc r a b)"
  shows "bn_int (snd (BN_add libc r a b)) = bn_int a + bn_int b"
    "(bn_neg a \<longrightarrow> bn_abs a \<noteq> 0) \<Longrightarrow> bn_minimal (snd (BN_add libc r a b))"
  using assms sub_signed_int [of libc r a b] sub_signed_int [of libc r b a] add_signed_int [of libc r "bn_neg a" a b]
  by (auto simp: BN_add_signed(1) BN_add_signed(2) [OF assms] bn_int_def split: if_splits)

lemma BN_sub_int:
  assumes "fst (BN_sub libc r a b)"
  shows "bn_int (snd (BN_sub libc r a b)) = bn_int a - bn_int b"
    "(bn_neg a \<longrightarrow> bn_abs a \<noteq> 0) \<Longrightarrow> bn_minimal (snd (BN_sub libc r a b))"
  using assms sub_signed_int [of libc r a b] sub_signed_int [of libc r b a] add_signed_int [of libc r "bn_neg a" a b]
  by (auto simp: BN_sub_signed bn_int_def split: if_splits)

lemma bn_room_less: "bn_room libc r n \<Longrightarrow> m \<le> n \<Longrightarrow> bn_room libc r m"
  by (auto simp: bn_room_def)

lemma BN_add_sub_ok:
  assumes "bn_room libc r (max (bn_width a) (bn_width b) + 1)"
  shows "fst (BN_add libc r a b)" "fst (BN_sub libc r a b)"
proof -
  have "bn_room libc r (max (bn_width a) (bn_width b))" by (rule bn_room_less [OF assms]) linarith
  then have "fst (sub_signed libc r a b)" "fst (sub_signed libc r b a)"
    by (auto intro!: sub_signed_ok simp: max.commute)
  then show "fst (BN_add libc r a b)" "fst (BN_sub libc r a b)"
    using add_signed_ok [OF assms] by (auto simp: BN_add_signed(1) BN_sub_signed)
qed

section \<open>Adding and subtracting a word\<close>

lemma add_word_loop_val:
  "add_word_loop as w = (rs, w') \<Longrightarrow> length rs = length as \<and> bn_val rs + BN_B ^ length as * unat w' = bn_val as + unat w"
proof (induction as arbitrary: w rs)
  case (Cons a as)
  show ?case
  proof (cases "w = 0")
    case False
    define k :: u64 where "k = (if w > a + w then 1 else 0)"
    obtain rs1 where l: "add_word_loop as k = (rs1, w')" "rs = (a + w) # rs1"
      using Cons.prems False by (auto simp: k_def Let_def split: prod.splits)
    note IH = Cons.IH [OF l(1)]
    have s: "unat (a + w) + BN_B * unat k = unat a + unat w" using carry_word [of a w] by (auto simp: k_def)
    have "bn_val rs + BN_B ^ length (a # as) * unat w' = unat (a + w) + BN_B * (bn_val rs1 + BN_B ^ length as * unat w')"
      by (simp add: l(2) algebra_simps)
    also have "\<dots> = unat (a + w) + BN_B * unat k + BN_B * bn_val as" using IH by (simp add: algebra_simps)
    finally show ?thesis using s IH by (simp add: l(2))
  qed (use Cons.prems in auto)
qed simp

lemma sub_word_loop_val:
  "unat w \<le> bn_val as \<Longrightarrow> length (sub_word_loop as w) = length as \<and> bn_val (sub_word_loop as w) + unat w = bn_val as"
proof (induction as arbitrary: w)
  case (Cons a as)
  show ?case
  proof (cases "w \<le> a")
    case True
    then have "unat (a - w) + unat w = unat a" by (simp add: unat_sub word_le_nat_alt)
    then show ?thesis using True by simp
  next
    case False
    then have lt: "unat a < unat w" by (simp add: word_le_nat_alt)
    then have "bn_val as \<noteq> 0" using Cons.prems by (intro notI) simp
    then have "unat (1 :: u64) \<le> bn_val as" by simp
    note IH = Cons.IH [OF this]
    have "unat (a - w) + unat w = unat a + BN_B" using lt unat_u64_BN [of w] by (simp add: unat_sub_if' BN_B_def)
    moreover have "BN_B * bn_val (sub_word_loop as 1) + BN_B = BN_B * bn_val as" using IH by (metis add_mult_distrib2 mult.right_neutral unsigned_1)
    ultimately show ?thesis using IH False by simp
  qed
qed simp

lemma sub_word_index_less: "unat w \<le> bn_val as \<Longrightarrow> as \<noteq> [] \<Longrightarrow> i \<le> sub_word_index as w i \<and> sub_word_index as w i < i + length as"
proof (induction as w i rule: sub_word_index.induct)
  case (2 a as w i)
  show ?case
  proof (cases "w \<le> a")
    case False
    then have lt: "unat a < unat w" by (simp add: word_le_nat_alt)
    then have "bn_val as \<noteq> 0" using 2(2) by (intro notI) simp
    then have "unat (1 :: u64) \<le> bn_val as" "as \<noteq> []" by auto
    then show ?thesis using 2(1) False by auto
  qed simp
qed simp

lemma bn_val_butlast: "ds \<noteq> [] \<Longrightarrow> last ds = 0 \<Longrightarrow> bn_val (butlast ds) = bn_val ds"
  using bn_val_append [of "butlast ds" "[last ds]"] append_butlast_last_id [of ds] by simp

lemma BN_set_word_int: "fst (BN_set_word libc a w) \<Longrightarrow> bn_int (snd (BN_set_word libc a w)) = int (unat w)"
  by (auto simp: BN_set_word_def BN_zero_def bn_int_def bn_abs_def split: prod.splits if_splits)

lemma bn_int_nat: "bn_int a = int n \<Longrightarrow> bn_abs a = n"
  by (cases "bn_neg a") (auto simp: bn_int_def)

lemma add_word_pos_int:
  assumes "fst (add_word_pos libc a w)" "bn_neg a \<longrightarrow> bn_abs a = 0 \<or> w = 0"
  shows "bn_int (snd (add_word_pos libc a w)) = bn_int a + int (unat w)"
proof -
  consider "w = 0" | "w \<noteq> 0" "BN_is_zero a" | "w \<noteq> 0" "\<not> BN_is_zero a" by blast
  then show ?thesis
  proof cases
    case 1
    then show ?thesis by (simp add: add_word_pos_def)
  next
    case 2
    then have "bn_int a = 0" by (simp add: bn_int_def BN_is_zero_iff)
    then show ?thesis using 2 BN_set_word_int [of libc a w] assms(1) by (simp add: add_word_pos_def)
  next
    case 3
    then have neg: "\<not> bn_neg a" using assms(2) by (simp add: BN_is_zero_iff)
    obtain d w' where l: "add_word_loop (bn_d a) w = (d, w')" by (rule prod.exhaust)
    note L = add_word_loop_val [OF l]
    let ?a = "a\<lparr>bn_d := d\<rparr>"
    obtain ok a2 where x: "bn_wexpand libc ?a (Suc (bn_width ?a)) = (ok, a2)" by (rule prod.exhaust)
    have e: "add_word_pos libc a w = (if w' \<noteq> 0 then (if \<not> ok then (False, a2) else (True, a2\<lparr>bn_d := bn_d a2 @ [w']\<rparr>)) else (True, ?a))"
      using 3 l x by (simp add: add_word_pos_def Let_def)
    have v: "bn_val (d @ [w']) = bn_abs a + unat w" using L by (simp add: bn_val_append bn_abs_def)
    show ?thesis
    proof (cases "w' = 0")
      case True
      then show ?thesis using e v neg by (simp add: bn_int_def bn_val_append)
    next
      case False
      then have ok using e assms(1) by (auto split: if_splits)
      then show ?thesis using False e v neg bn_wexpand_frame [OF x] by (simp add: bn_int_def)
    qed
  qed
qed

lemma add_word_pos_ok:
  assumes "bn_room libc a (bn_width a + 1)"
  shows "fst (add_word_pos libc a w)"
proof (cases "w = 0 \<or> BN_is_zero a")
  case True
  have "fst (bn_wexpand libc a 1)" using assms by (simp add: bn_room_def)
  then show ?thesis using True by (auto simp: add_word_pos_def BN_set_word_def split: prod.splits)
next
  case False
  obtain d w' where l: "add_word_loop (bn_d a) w = (d, w')" by (rule prod.exhaust)
  have "fst (bn_wexpand libc a (Suc (bn_width a)))" using assms by (simp add: bn_room_def)
  then have "fst (bn_wexpand libc (a\<lparr>bn_d := d\<rparr>) (Suc (bn_width (a\<lparr>bn_d := d\<rparr>))))"
    using add_word_loop_val [OF l] by (simp add: bn_width_def)
  then have "fst (bn_wexpand libc (a\<lparr>bn_d := d\<rparr>) (bn_width (a\<lparr>bn_d := d\<rparr>) + 1))" by simp
  then show ?thesis using False l by (simp add: add_word_pos_def Let_def split_beta del: bn_wexpand_upd)
qed

lemma sub_word_pos_int:
  assumes "fst (sub_word_pos libc a w)" "bn_neg a \<longrightarrow> bn_abs a = 0 \<or> w = 0"
  shows "bn_int (snd (sub_word_pos libc a w)) = bn_int a - int (unat w)"
proof -
  consider "w = 0" | "w \<noteq> 0" "BN_is_zero a" | "w \<noteq> 0" "\<not> BN_is_zero a" by blast
  then show ?thesis
  proof cases
    case 1
    then show ?thesis by (simp add: sub_word_pos_def)
  next
    case 2
    obtain ok a' where s: "BN_set_word libc a w = (ok, a')" by (rule prod.exhaust)
    have ok using assms(1) 2 s by (simp add: sub_word_pos_def)
    then have "bn_int a' = int (unat w)" using BN_set_word_int [of libc a w] s by simp
    then have "bn_abs a' = unat w" by (rule bn_int_nat)
    moreover have "bn_int a = 0" using 2 by (simp add: bn_int_def BN_is_zero_iff)
    ultimately show ?thesis using 2 s \<open>ok\<close> by (simp add: sub_word_pos_def BN_set_negative_int)
  next
    case 3
    then have neg: "\<not> bn_neg a" and nz: "bn_abs a \<noteq> 0" using assms(2) by (simp_all add: BN_is_zero_iff)
    then have ne: "bn_d a \<noteq> []" by (auto simp: bn_abs_def)
    note m = bn_minimal_width [of a]
    have v: "bn_abs a = bn_val (take (bn_minimal_width a) (bn_d a))" using bn_val_drop_0 [OF m(2)] by (simp add: bn_abs_def)
    obtain x xs where d: "bn_d a = x # xs" using ne by (cases "bn_d a") auto
    show ?thesis
    proof (cases "bn_minimal_width a = 1 \<and> bn_d a ! 0 < w")
      case True
      then have z: "bn_val xs = 0" using m(2) d by simp
      have "unat (w - x) = unat w - unat x" using True d by (simp add: unat_sub word_le_nat_alt word_less_nat_alt)
      then have "bn_int (a\<lparr>bn_d := (bn_d a)[0 := w - bn_d a ! 0], bn_neg := True\<rparr>) = int (unat x) - int (unat w)"
        using True d z by (simp add: bn_int_def word_less_nat_alt)
      moreover have "bn_abs a = unat x" using z d by (simp add: bn_abs_def)
      ultimately show ?thesis using True 3 neg by (simp add: sub_word_pos_def bn_int_def)
    next
      case False
      have le: "unat w \<le> bn_val (bn_d a)"
      proof (cases "bn_minimal_width a = 1")
        case True
        then have "bn_abs a = unat x" using v d by simp
        then show ?thesis using False True d by (simp add: bn_abs_def word_le_nat_alt not_less)
      next
        case False
        have "bn_minimal_width a \<noteq> 0" using v nz by (intro notI) simp
        then obtain k where k: "bn_minimal_width a = Suc (Suc k)" using False by (metis One_nat_def not0_implies_Suc)
        then have "bn_d a ! Suc k \<noteq> 0" and lk: "Suc k < length (bn_d a)" using m(1,3) by (simp_all add: bn_width_def)
        then have "bn_val xs \<noteq> 0" using d by (auto simp: bn_val_eq_0)
        then have "BN_B * 1 \<le> BN_B * bn_val xs" by (intro mult_le_mono2) simp
        moreover have "bn_val (bn_d a) = unat x + BN_B * bn_val xs" by (simp add: d)
        ultimately have "BN_B \<le> bn_val (bn_d a)" by linarith
        then show ?thesis using unat_u64_BN [of w] by linarith
      qed
      note L = sub_word_loop_val [OF le] and I = sub_word_index_less [OF le ne, of 0]
      let ?d = "sub_word_loop (bn_d a) w" and ?i = "sub_word_index (bn_d a) w 0"
      have "bn_val (butlast ?d) = bn_val ?d" if "?d ! ?i = 0" "?i = length ?d - 1"
      proof -
        have "?d \<noteq> []" using L ne by auto
        then show ?thesis using that by (intro bn_val_butlast) (simp_all add: last_conv_nth)
      qed
      then have "bn_abs (snd (sub_word_pos libc a w)) = bn_val ?d \<and> \<not> bn_neg (snd (sub_word_pos libc a w))"
        unfolding sub_word_pos_def if_not_P [OF 3(1)] if_not_P [OF 3(2)] if_not_P [OF False] Let_def
        using neg by (auto simp: bn_width_def)
      moreover have "int (bn_val ?d) = int (bn_val (bn_d a)) - int (unat w)" using L by linarith
      ultimately show ?thesis using neg by (simp add: bn_int_def bn_abs_def)
    qed
  qed
qed

lemma sub_word_pos_ok: "fst (bn_wexpand libc a 1) \<Longrightarrow> fst (sub_word_pos libc a w)"
  by (auto simp: sub_word_pos_def BN_set_word_def Let_def split: prod.splits)

lemma BN_add_word_int:
  assumes "fst (BN_add_word libc a w)"
  shows "bn_int (snd (BN_add_word libc a w)) = bn_int a + int (unat w)"
proof (cases "w \<noteq> 0 \<and> \<not> BN_is_zero a \<and> bn_neg a")
  case True
  let ?r = "sub_word_pos libc (a\<lparr>bn_neg := False\<rparr>) w"
  have e: "BN_add_word libc a w = (fst ?r, if \<not> BN_is_zero (snd ?r) then (snd ?r)\<lparr>bn_neg := \<not> bn_neg (snd ?r)\<rparr> else snd ?r)"
    unfolding BN_add_word_def if_P [OF True] by (simp add: split_beta)
  have "bn_int (snd ?r) = int (bn_abs a) - int (unat w)" using sub_word_pos_int [of libc "a\<lparr>bn_neg := False\<rparr>" w] assms e by simp
  moreover have "bn_int (snd (BN_add_word libc a w)) = - bn_int (snd ?r)" by (simp add: e bn_int_def BN_is_zero_iff)
  ultimately show ?thesis using True by (simp add: bn_int_def)
next
  case False
  then have "BN_add_word libc a w = add_word_pos libc a w" unfolding BN_add_word_def by (rule if_not_P)
  then show ?thesis using add_word_pos_int [of libc a w] assms False by (auto simp: BN_is_zero_iff)
qed

lemma BN_sub_word_int:
  assumes "fst (BN_sub_word libc a w)"
  shows "bn_int (snd (BN_sub_word libc a w)) = bn_int a - int (unat w)"
proof (cases "w \<noteq> 0 \<and> \<not> BN_is_zero a \<and> bn_neg a")
  case True
  let ?r = "add_word_pos libc (a\<lparr>bn_neg := False\<rparr>) w"
  have e: "BN_sub_word libc a w = (fst ?r, (snd ?r)\<lparr>bn_neg := True\<rparr>)"
    unfolding BN_sub_word_def if_P [OF True] by (simp add: split_beta)
  have "bn_int (snd ?r) = int (bn_abs a + unat w)" using add_word_pos_int [of libc "a\<lparr>bn_neg := False\<rparr>" w] assms e by simp
  then have "bn_abs (snd ?r) = bn_abs a + unat w" by (rule bn_int_nat)
  then show ?thesis using True by (simp add: e bn_int_def)
next
  case False
  then have "BN_sub_word libc a w = sub_word_pos libc a w" unfolding BN_sub_word_def by (rule if_not_P)
  then show ?thesis using sub_word_pos_int [of libc a w] assms False by (auto simp: BN_is_zero_iff)
qed

lemma bn_room_neg [simp]: "bn_room libc (a\<lparr>bn_neg := s\<rparr>) n = bn_room libc a n"
  by (simp add: bn_room_def)

lemma BN_words_ok:
  assumes "bn_room libc a (bn_width a + 1)"
  shows "fst (BN_add_word libc a w)" "fst (BN_sub_word libc a w)"
proof -
  have r: "bn_room libc (a\<lparr>bn_neg := False\<rparr>) (bn_width (a\<lparr>bn_neg := False\<rparr>) + 1)" using assms by (simp add: bn_width_def)
  have o: "fst (bn_wexpand libc a 1)" using assms by (simp add: bn_room_def)
  show "fst (BN_add_word libc a w)" "fst (BN_sub_word libc a w)"
    using add_word_pos_ok [OF assms, of w] add_word_pos_ok [OF r, of w] sub_word_pos_ok [OF o, of w]
      sub_word_pos_ok [of libc "a\<lparr>bn_neg := False\<rparr>" w] o
    by (auto simp: BN_add_word_def BN_sub_word_def split: prod.splits)
qed

section \<open>The arithmetic of signed numbers\<close>

text \<open>C35: \<open>BN_add\<close> and \<open>BN_sub\<close> of numbers of any widths and signs give the integer sum and difference,
  whatever \<open>r\<close> held before, without leading zero words and never a negative zero (when the first operand
  is not one); and they succeed whenever \<open>r\<close> has or can get one word more than the wider operand.\<close>

theorem BN_add_sub_integers:
  assumes "bn_neg a \<longrightarrow> bn_abs a \<noteq> 0"
  shows "(fst (BN_add libc r a b) \<longrightarrow>
      bn_int (snd (BN_add libc r a b)) = bn_int a + bn_int b \<and> bn_minimal (snd (BN_add libc r a b))) \<and>
    (fst (BN_sub libc r a b) \<longrightarrow>
      bn_int (snd (BN_sub libc r a b)) = bn_int a - bn_int b \<and> bn_minimal (snd (BN_sub libc r a b))) \<and>
    (bn_room libc r (max (bn_width a) (bn_width b) + 1) \<longrightarrow> fst (BN_add libc r a b) \<and> fst (BN_sub libc r a b))"
  using BN_add_int [of libc r a b] BN_sub_int [of libc r a b] BN_add_sub_ok [of libc r a b] assms by blast

text \<open>\<open>(2^64 - 1) + (- 2)\<close> and \<open>(2^64 - 1) - (- 2)\<close>, which carries into a second word.\<close>

theorem BN_add_sub_integers_witness:
  "bn_int (snd (BN_add (\<lambda>n. True) BN_init \<lparr>bn_d = [- 1], bn_dmax = 1, bn_neg = False, bn_static = True\<rparr>
      \<lparr>bn_d = [2, 0], bn_dmax = 2, bn_neg = True, bn_static = False\<rparr>)) = 2 ^ 64 - 3 \<and>
   bn_int (snd (BN_sub (\<lambda>n. True) BN_init \<lparr>bn_d = [- 1], bn_dmax = 1, bn_neg = False, bn_static = True\<rparr>
      \<lparr>bn_d = [2, 0], bn_dmax = 2, bn_neg = True, bn_static = False\<rparr>)) = 2 ^ 64 + 1"
proof -
  let ?a = "\<lparr>bn_d = [- 1], bn_dmax = 1, bn_neg = False, bn_static = True\<rparr> :: bignum"
  let ?b = "\<lparr>bn_d = [2, 0], bn_dmax = 2, bn_neg = True, bn_static = False\<rparr> :: bignum"
  have "bn_room (\<lambda>n. True) BN_init (max (bn_width ?a) (bn_width ?b) + 1)"
    by (rule bn_room_libc) (simp_all add: bn_width_def BN_init_def)
  moreover have "bn_int ?a = 2 ^ 64 - 1" "bn_int ?b = - 2" by (simp_all add: bn_int_def bn_abs_def unsigned_minus_1_eq_mask mask_eq_exp_minus_1)
  ultimately show ?thesis using BN_add_sub_integers [of ?a "\<lambda>n. True" BN_init ?b] by simp
qed

text \<open>\<open>BN_add_word\<close> and \<open>BN_sub_word\<close> add and subtract a word from a number of either sign, through
  zero and across carries and borrows, and fail only when the number cannot get one more word.\<close>

theorem BN_word_arith_integers:
  "(fst (BN_add_word libc a w) \<longrightarrow> bn_int (snd (BN_add_word libc a w)) = bn_int a + int (unat w)) \<and>
    (fst (BN_sub_word libc a w) \<longrightarrow> bn_int (snd (BN_sub_word libc a w)) = bn_int a - int (unat w)) \<and>
    (bn_room libc a (bn_width a + 1) \<longrightarrow> fst (BN_add_word libc a w) \<and> fst (BN_sub_word libc a w))"
  using BN_add_word_int [of libc a w] BN_sub_word_int [of libc a w] BN_words_ok [of libc a w] by blast

text \<open>\<open>2^64 - 1\<close> plus and minus one more than itself, the latter through zero.\<close>

theorem BN_word_arith_integers_witness:
  "bn_int (snd (BN_add_word (\<lambda>n. True) \<lparr>bn_d = [- 1, 0], bn_dmax = 2, bn_neg = False, bn_static = False\<rparr> 1)) = 2 ^ 64 \<and>
   bn_int (snd (BN_sub_word (\<lambda>n. True) \<lparr>bn_d = [5, 0], bn_dmax = 2, bn_neg = False, bn_static = False\<rparr> 7)) = - 2"
proof -
  let ?a = "\<lparr>bn_d = [- 1, 0], bn_dmax = 2, bn_neg = False, bn_static = False\<rparr> :: bignum"
  let ?b = "\<lparr>bn_d = [5, 0], bn_dmax = 2, bn_neg = False, bn_static = False\<rparr> :: bignum"
  have "bn_room (\<lambda>n. True) x (bn_width x + 1)" if "x \<in> {?a, ?b}" for x
    by (rule bn_room_libc) (use that in \<open>auto simp: bn_width_def\<close>)
  then have "fst (BN_add_word (\<lambda>n. True) ?a 1)" "fst (BN_sub_word (\<lambda>n. True) ?b 7)"
    using BN_word_arith_integers [of "\<lambda>n. True" ?a 1] BN_word_arith_integers [of "\<lambda>n. True" ?b 7] by blast+
  moreover have "bn_int ?a = 2 ^ 64 - 1" "bn_int ?b = 5" by (simp_all add: bn_int_def bn_abs_def unsigned_minus_1_eq_mask mask_eq_exp_minus_1)
  ultimately show ?thesis using BN_word_arith_integers [of "\<lambda>n. True" ?a 1] BN_word_arith_integers [of "\<lambda>n. True" ?b 7] by simp
qed

end
