(* ===== verification/Bn_Bytes.thy ===== *)
theory Bn_Bytes
  imports Bn_Add
begin

text \<open>
  \<open>crypto/fipsmodule/bn/bytes.c\<close>: numbers as byte strings, big-endian and little-endian, of minimal or of
  given length. \<open>words_bytes\<close> is the memory of an array of words on a little-endian machine, which the
  padded functions read as bytes, and \<open>bytes_words\<close> the words that given bytes are. A pointer \<open>ret\<close> that
  may be \<open>NULL\<close> is an option, and so is a result.
\<close>

definition words_bytes :: "u64 list \<Rightarrow> bytes" where
  "words_bytes ws = concat (map CRYPTO_store_u64_le ws)"

primrec bytes_words :: "nat \<Rightarrow> bytes \<Rightarrow> u64 list" where
  "bytes_words 0 bs = []"
| "bytes_words (Suc n) bs = CRYPTO_load_u64_le bs # bytes_words n (drop 8 bs)"

text \<open>\<open>while (len--)\<close> of \<open>BN_bin2bn\<close>; \<open>d\<close> is the buffer, whose words are all written.\<close>

primrec bin2bn_loop :: "bytes \<Rightarrow> nat \<Rightarrow> u64 \<Rightarrow> nat \<Rightarrow> u64 list \<Rightarrow> u64 list" where
  "bin2bn_loop [] m w num_words d = d"
| "bin2bn_loop (b # bs) m w num_words d =
     (let w = push_bit 8 w OR ucast b
      in if m = 0 then bin2bn_loop bs (8 - 1) 0 (num_words - 1) (d[num_words - 1 := w])
         else bin2bn_loop bs (m - 1) w num_words d)"

definition BN_bin2bn :: "(nat \<Rightarrow> bool) \<Rightarrow> bytes \<Rightarrow> bignum option \<Rightarrow> bignum option" where
  "BN_bin2bn libc bs ret =
     (case (case ret of None \<Rightarrow> BN_new libc | Some bn \<Rightarrow> Some bn) of
        None \<Rightarrow> None
      | Some ret \<Rightarrow>
          if length bs = 0 then Some (ret\<lparr>bn_d := []\<rparr>)
          else
            let num_words = (length bs - 1) div 8 + 1;
                m = (length bs - 1) mod 8
            in case bn_wexpand libc ret num_words of
                 (ok, ret) \<Rightarrow>
                   if \<not> ok then None
                   else Some (ret\<lparr>bn_d := bin2bn_loop bs m 0 num_words (replicate num_words 0), bn_neg := False\<rparr>))"

definition BN_le2bn :: "(nat \<Rightarrow> bool) \<Rightarrow> bytes \<Rightarrow> bignum option \<Rightarrow> bignum option" where
  "BN_le2bn libc bs ret =
     (case (case ret of None \<Rightarrow> BN_new libc | Some bn \<Rightarrow> Some bn) of
        None \<Rightarrow> None
      | Some ret \<Rightarrow>
          if length bs = 0 then Some (ret\<lparr>bn_d := [], bn_neg := False\<rparr>)
          else
            let num_words = (length bs - 1) div 8 + 1
            in case bn_wexpand libc ret num_words of
                 (ok, ret) \<Rightarrow>
                   if \<not> ok then None
                   else Some (ret\<lparr>bn_d := bytes_words num_words (bs @ replicate (8 * num_words - length bs) 0)\<rparr>))"

definition BN_bn2bin :: "bignum \<Rightarrow> bytes" where
  "BN_bn2bin bn =
     map (\<lambda>i. ucast (drop_bit (8 * (i mod 8)) (bn_d bn ! (i div 8))) AND 0xff) (rev [0..<BN_num_bytes bn])"

definition fits_in_bytes :: "bytes \<Rightarrow> nat \<Rightarrow> bool" where
  "fits_in_bytes bs len = (fold (\<lambda>b msk. msk OR b) (drop len bs) 0 = 0)"

definition BN_bn2le_padded :: "nat \<Rightarrow> bignum \<Rightarrow> bytes option" where
  "BN_bn2le_padded len bn =
     (let bs = words_bytes (bn_d bn);
          num_bytes = bn_width bn * 8
      in if len < num_bytes \<and> \<not> fits_in_bytes bs len then None
         else
           let num_bytes = (if len < num_bytes then len else num_bytes)
           in Some (take num_bytes bs @ replicate (len - num_bytes) 0))"

definition BN_bn2bin_padded :: "nat \<Rightarrow> bignum \<Rightarrow> bytes option" where
  "BN_bn2bin_padded len bn =
     (let bs = words_bytes (bn_d bn);
          num_bytes = bn_width bn * 8
      in if len < num_bytes \<and> \<not> fits_in_bytes bs len then None
         else
           let num_bytes = (if len < num_bytes then len else num_bytes)
           in Some (replicate (len - num_bytes) 0 @ rev (take num_bytes bs)))"

definition BN_get_word :: "bignum \<Rightarrow> u64" where
  "BN_get_word bn =
     (if bn_minimal_width bn = 0 then 0 else if bn_minimal_width bn = 1 then bn_d bn ! 0 else - 1)"

definition BN_get_u64 :: "bignum \<Rightarrow> u64 option" where
  "BN_get_u64 bn =
     (if bn_minimal_width bn = 0 then Some 0
      else if bn_minimal_width bn = 1 then Some (bn_d bn ! 0) else None)"

section \<open>Words in memory\<close>

lemma length_words_bytes [simp]: "length (words_bytes ws) = 8 * length ws"
  by (induction ws) (simp_all add: words_bytes_def)

lemma le_val_store_u64: "le_val (CRYPTO_store_u64_le w) = unat w"
  using unat_u64_less [of w] by (simp add: CRYPTO_store_u64_le_def le_val_le_bytes)

lemma le_val_words_bytes: "le_val (words_bytes ws) = bn_val ws"
proof (induction ws)
  case (Cons w ws)
  have "words_bytes (w # ws) = CRYPTO_store_u64_le w @ words_bytes ws" by (simp add: words_bytes_def)
  then show ?case using Cons by (simp add: le_val_append le_val_store_u64 BN_B_def)
qed (simp add: words_bytes_def)

lemma bytes_words_val: "length bs = 8 * n \<Longrightarrow> bn_val (bytes_words n bs) = le_val bs"
proof (induction n arbitrary: bs)
  case (Suc n)
  let ?h = "take 8 bs"
  have h: "le_val ?h < 256 ^ 8" using le_val_less [of ?h] Suc.prems by simp
  have "unat (CRYPTO_load_u64_le bs) = le_val ?h"
    using h by (simp add: CRYPTO_load_u64_le_def unat_of_nat)
  moreover have "bn_val (bytes_words n (drop 8 bs)) = le_val (drop 8 bs)" by (rule Suc.IH) (use Suc.prems in simp)
  moreover have "le_val bs = le_val ?h + BN_B * le_val (drop 8 bs)"
    using le_val_append [of ?h "drop 8 bs"] Suc.prems by (simp add: BN_B_def)
  ultimately show ?case by simp
qed simp

lemma length_bytes_words [simp]: "length (bytes_words n bs) = n"
  by (induction n arbitrary: bs) simp_all

lemma words_bytes_nth:
  "i < 8 * length ws \<Longrightarrow> words_bytes ws ! i = ucast (drop_bit (8 * (i mod 8)) (ws ! (i div 8)))"
proof (induction ws arbitrary: i)
  case (Cons w ws)
  have e: "words_bytes (w # ws) = CRYPTO_store_u64_le w @ words_bytes ws" by (simp add: words_bytes_def)
  show ?case
  proof (cases "i < 8")
    case True
    have "word_of_nat (unat w div 256 ^ i) = (ucast (drop_bit (8 * i) w) :: byte)"
      unfolding word_unat_eq_iff unat_of_nat unat_ucast_down unat_drop_bit by (simp add: power_mult)
    then show ?thesis using True by (simp add: e nth_append CRYPTO_store_u64_le_def nth_le_bytes)
  next
    case False
    then have "words_bytes ws ! (i - 8) = ucast (drop_bit (8 * ((i - 8) mod 8)) (ws ! ((i - 8) div 8)))"
      using Cons.prems by (intro Cons.IH) simp
    moreover have "(i - 8) mod 8 = i mod 8" "i div 8 = Suc ((i - 8) div 8)" using False by (simp_all add: le_mod_geq le_div_geq)
    ultimately show ?thesis using False by (simp add: e nth_append)
  qed
qed simp

lemma le_val_take: "le_val (take n bs) = le_val bs mod 256 ^ n"
proof (cases "n \<le> length bs")
  case True
  then have "le_val bs = le_val (take n bs) + 256 ^ n * le_val (drop n bs)" using le_val_append [of "take n bs" "drop n bs"] by simp
  moreover have "le_val (take n bs) < 256 ^ n" using le_val_less [of "take n bs"] True by simp
  ultimately show ?thesis by simp
next
  case False
  then have "le_val bs < 256 ^ n" by (intro less_le_trans [OF le_val_less] power_increasing) simp_all
  then show ?thesis using False by simp
qed

lemma le_val_eq_0: "le_val bs = 0 \<longleftrightarrow> (\<forall>b \<in> set bs. b = 0)"
  by (induction bs) (simp_all add: unsigned_eq_0_iff)

lemma fits_in_bytes: "fits_in_bytes bs len \<longleftrightarrow> le_val bs < 256 ^ len"
proof -
  have "fold (\<lambda>b m. m OR b) xs m = (0 :: byte) \<longleftrightarrow> m = 0 \<and> (\<forall>b \<in> set xs. b = 0)" for xs m
    by (induction xs arbitrary: m) (auto simp: or_eq_0_iff)
  then have f: "fits_in_bytes bs len \<longleftrightarrow> le_val (drop len bs) = 0" by (simp add: fits_in_bytes_def le_val_eq_0)
  show ?thesis
  proof (cases "len \<le> length bs")
    case True
    then have v: "le_val bs = le_val (take len bs) + 256 ^ len * le_val (drop len bs)"
      using le_val_append [of "take len bs" "drop len bs"] by simp
    have "le_val (take len bs) < 256 ^ len" using le_val_less [of "take len bs"] True by simp
    then show ?thesis unfolding f using v by (cases "le_val (drop len bs)") auto
  next
    case False
    then have "le_val bs < 256 ^ len" by (intro less_le_trans [OF le_val_less] power_increasing) simp_all
    then show ?thesis using False by (simp add: f)
  qed
qed

section \<open>Reading a big-endian string\<close>

lemma bin2bn_loop:
  assumes "length bs + (7 - m) = 8 * n" "m \<le> 7" "n \<le> length d" "unat w < 256 ^ (7 - m)"
  shows "length (bin2bn_loop bs m w n d) = length d \<and> drop n (bin2bn_loop bs m w n d) = drop n d \<and>
    bn_val (take n (bin2bn_loop bs m w n d)) = unat w * 256 ^ length bs + be_val bs"
  using assms
proof (induction bs arbitrary: m w n d)
  case Nil
  then have "n = 0" by (cases n) auto
  then show ?case using Nil by simp
next
  case (Cons b bs)
  define w' where "w' = push_bit 8 w OR ucast b"
  have ub: "unat (ucast b :: u64) = unat b" by (rule unat_ucast_up) simp
  have "unat w * 256 + unat b < 256 * 256 ^ (7 - m)"
  proof -
    have "unat w * 256 + unat b < Suc (unat w) * 256" using unat_byte_less [of b] by simp
    also have "\<dots> \<le> 256 ^ (7 - m) * 256" using Cons.prems(4) by (intro mult_le_mono1) simp
    finally show ?thesis by simp
  qed
  moreover have "8 - m = Suc (7 - m)" using Cons.prems(2) by linarith
  ultimately have lt: "unat w * 256 + unat b < 256 ^ (8 - m)" by simp
  also have "\<dots> \<le> 256 ^ 8" by (intro power_increasing) simp_all
  finally have "unat w' = unat w * 256 + unat b"
    using unat_push_bit_or [of "ucast b :: u64" 8 w] by (simp add: w'_def ub)
  note w' = this
  show ?case
  proof (cases "m = 0")
    case True
    let ?d = "d[n - 1 := w']"
    have n: "length bs = 8 * (n - 1)" "0 < n" using Cons.prems(1) True by auto
    define d' where "d' = bin2bn_loop bs 7 0 (n - 1) ?d"
    have IH: "length d' = length ?d \<and> drop (n - 1) d' = drop (n - 1) ?d \<and>
        bn_val (take (n - 1) d') = unat (0 :: u64) * 256 ^ length bs + be_val bs"
      unfolding d'_def by (rule Cons.IH) (use n Cons.prems(3) in simp_all)
    have l: "n - 1 < length d" using n Cons.prems(3) by simp
    have "drop (n - 1) d' = w' # drop n d" using IH l n by (simp add: drop_update_swap Cons_nth_drop_Suc [symmetric])
    then have t: "drop n d' = drop n d" "d' ! (n - 1) = w'"
      using IH l n by (simp_all add: Cons_nth_drop_Suc [symmetric])
    have "take n d' = take (n - 1) d' @ [w']" using IH l n t take_Suc_conv_app_nth [of "n - 1" d'] by simp
    then have "bn_val (take n d') = be_val bs + 256 ^ length bs * unat w'"
      using IH l by (simp add: bn_val_append n(1) BN_B_def power_mult)
    moreover have "bin2bn_loop (b # bs) m w n d = d'" using True by (simp add: d'_def flip: w'_def)
    ultimately show ?thesis using IH t by (simp add: w' be_val_Cons algebra_simps)
  next
    case False
    have m: "7 - (m - 1) = 8 - m" using False Cons.prems(2) by simp
    have e: "bin2bn_loop (b # bs) m w n d = bin2bn_loop bs (m - 1) w' n d" using False by (simp add: w'_def)
    have "length bs + (7 - (m - 1)) = 8 * n" using Cons.prems(1,2) False by simp
    moreover have "unat w' < 256 ^ (7 - (m - 1))" unfolding m w' by (rule lt)
    ultimately show ?thesis unfolding e using Cons.IH [of "m - 1" n d w'] Cons.prems(2,3) False
      by (simp add: w' be_val_Cons algebra_simps)
  qed
qed

lemma BN_bin2bn_cases:
  assumes "BN_bin2bn libc bs ret = Some r"
  shows "bn_abs r = be_val bs \<and> bn_width r = (length bs + 7) div 8 \<and>
    (bn_neg r \<longleftrightarrow> bs = [] \<and> (case ret of None \<Rightarrow> False | Some bn \<Rightarrow> bn_neg bn))"
proof -
  obtain r0 where r0: "(case ret of None \<Rightarrow> BN_new libc | Some bn \<Rightarrow> Some bn) = Some r0"
    using assms by (auto simp: BN_bin2bn_def split: option.splits)
  have neg: "bn_neg r0 \<longleftrightarrow> (case ret of None \<Rightarrow> False | Some bn \<Rightarrow> bn_neg bn)"
    using r0 by (auto simp: BN_new_def BN_init_def split: option.splits if_splits)
  show ?thesis
  proof (cases "bs = []")
    case True
    then show ?thesis using assms neg r0 by (auto simp: BN_bin2bn_def bn_abs_def bn_width_def)
  next
    case False
    define n where "n = (length bs - 1) div 8 + 1"
    define m where "m = (length bs - 1) mod 8"
    have l: "length bs + (7 - m) = 8 * n" "m \<le> 7"
    proof -
      have "length bs = 8 * ((length bs - 1) div 8) + (length bs - 1) mod 8 + 1" using False by (cases bs) simp_all
      moreover show "m \<le> 7" using mod_less_divisor [of 8 "length bs - 1"] by (simp add: m_def)
      ultimately show "length bs + (7 - m) = 8 * n" unfolding n_def m_def [symmetric] by (simp add: m_def [symmetric])
    qed
    obtain r1 where r: "r = r1\<lparr>bn_d := bin2bn_loop bs m 0 n (replicate n 0), bn_neg := False\<rparr>"
      using assms r0 False
      by (auto simp: BN_bin2bn_def Let_def n_def m_def split: prod.splits if_splits)
    define X where "X = bin2bn_loop bs m 0 n (replicate n 0)"
    have L: "length X = n \<and> drop n X = [] \<and> bn_val (take n X) = be_val bs"
      using bin2bn_loop [OF l, of "replicate n 0" 0] by (simp del: take_all take_all_iff drop_eq_Nil add: X_def)
    then have "length X = n" "bn_val X = be_val bs" by (metis, metis append_Nil2 append_take_drop_id)
    moreover have "n = (length bs + 7) div 8" using l by linarith
    moreover have "bn_d r = X" "\<not> bn_neg r" by (simp_all add: r X_def)
    ultimately show ?thesis using False by (simp add: bn_abs_def bn_width_def)
  qed
qed

lemma BN_le2bn_val:
  assumes "BN_le2bn libc bs ret = Some r"
  shows "bn_abs r = le_val bs"
proof (cases "bs = []")
  case True
  then show ?thesis using assms by (auto simp: BN_le2bn_def bn_abs_def split: option.splits)
next
  case False
  define n where "n = (length bs - 1) div 8 + 1"
  have n: "length bs \<le> 8 * n" unfolding n_def by presburger
  obtain r1 where r: "r = r1\<lparr>bn_d := bytes_words n (bs @ replicate (8 * n - length bs) 0)\<rparr>"
    using assms False by (auto simp: BN_le2bn_def Let_def n_def split: option.splits prod.splits if_splits)
  have "le_val (replicate k 0) = 0" for k by (induction k) simp_all
  then show ?thesis using n by (simp add: r bytes_words_val le_val_append)
qed

text \<open>Unlike \<open>BN_bin2bn\<close> it keeps the sign of a given number.\<close>

lemma BN_le2bn_neg:
  assumes "BN_le2bn libc bs ret = Some r"
  shows "bn_neg r \<longleftrightarrow> bs \<noteq> [] \<and> (case ret of None \<Rightarrow> False | Some bn \<Rightarrow> bn_neg bn)"
proof -
  obtain r0 where r0: "(case ret of None \<Rightarrow> BN_new libc | Some bn \<Rightarrow> Some bn) = Some r0"
    using assms by (auto simp: BN_le2bn_def split: option.splits)
  have neg: "bn_neg r0 \<longleftrightarrow> (case ret of None \<Rightarrow> False | Some bn \<Rightarrow> bn_neg bn)"
    using r0 by (auto simp: BN_new_def BN_init_def split: option.splits if_splits)
  have w: "bn_neg r1 = bn_neg r0" if "bn_wexpand libc r0 n = (ok, r1)" for n ok r1
    using bn_wexpand_frame [OF that] by blast
  show ?thesis using assms r0 neg w by (auto simp: BN_le2bn_def Let_def split: if_splits prod.splits)
qed

lemma bn_abs_0: "bn_width r = 0 \<Longrightarrow> bn_abs r = 0"
  by (simp add: bn_abs_def bn_width_def)

lemma BN_bin2bn_int: "BN_bin2bn libc bs ret = Some r \<Longrightarrow> bn_int r = int (be_val bs)"
  using BN_bin2bn_cases [of libc bs ret r] bn_abs_0 [of r] by (auto simp: bn_int_def)

lemma BN_bin2bn_ok:
  assumes "bn_room libc bn ((length bs + 7) div 8)"
  shows "BN_bin2bn libc bs (Some bn) \<noteq> None \<and> BN_le2bn libc bs (Some bn) \<noteq> None"
proof (cases "bs = []")
  case False
  have "(length bs - 1) div 8 + 1 \<le> (length bs + 7) div 8" using False by (cases bs) simp_all
  then have "fst (bn_wexpand libc bn ((length bs - 1) div 8 + 1))" using assms by (simp add: bn_room_def)
  then show ?thesis using False by (auto simp: BN_bin2bn_def BN_le2bn_def split: prod.splits)
qed (simp add: BN_bin2bn_def BN_le2bn_def)

section \<open>Writing\<close>

lemma BN_num_bytes_le: "BN_num_bytes bn \<le> n \<longleftrightarrow> bn_abs bn < 256 ^ n"
proof -
  have "BN_num_bytes bn \<le> n \<longleftrightarrow> BN_num_bits bn \<le> 8 * n" unfolding BN_num_bytes_def by linarith
  also have "\<dots> \<longleftrightarrow> bn_abs bn < 256 ^ n" unfolding BN_num_bits_eq bit_count_le by (simp add: power_mult)
  finally show ?thesis .
qed

lemma bn_abs_width: "bn_abs bn < 256 ^ (8 * bn_width bn)"
  using bn_val_bound [of "bn_d bn"] by (simp add: bn_abs_def bn_width_def BN_B_def power_mult)

lemma le_bytes_of_words:
  assumes "bn_abs bn < 256 ^ len"
  shows "take len (words_bytes (bn_d bn)) @ replicate (len - 8 * bn_width bn) 0 = le_bytes len (bn_abs bn)"
proof -
  have z: "le_val (replicate k 0) = 0" for k by (induction k) simp_all
  have "le_val (take len (words_bytes (bn_d bn)) @ replicate (len - 8 * bn_width bn) 0) = bn_abs bn"
    using assms by (simp add: le_val_append z le_val_take le_val_words_bytes bn_abs_def)
  moreover have "length (take len (words_bytes (bn_d bn)) @ replicate (len - 8 * bn_width bn) 0) = len"
    by (simp add: bn_width_def)
  ultimately show ?thesis using le_bytes_le_val by metis
qed

lemma BN_bn2bin_eq: "BN_bn2bin bn = be_bytes (BN_num_bytes bn) (bn_abs bn)"
proof -
  let ?n = "BN_num_bytes bn" and ?w = "words_bytes (bn_d bn)"
  have le: "?n \<le> 8 * bn_width bn" unfolding BN_num_bytes_le by (rule bn_abs_width)
  have "(0xff :: byte) = - 1" by simp
  then have m: "w AND 0xff = w" for w :: byte by (metis and.right_neutral)
  have "map (\<lambda>i. ucast (drop_bit (8 * (i mod 8)) (bn_d bn ! (i div 8))) AND 0xff) [0..<?n] = take ?n ?w"
    using le by (intro nth_equalityI) (simp_all add: words_bytes_nth bn_width_def m)
  then have "BN_bn2bin bn = rev (take ?n ?w)" by (simp add: BN_bn2bin_def flip: rev_map)
  also have "take ?n ?w = le_bytes ?n (bn_abs bn)"
    using le_bytes_of_words [of bn ?n] BN_num_bytes_le [of bn ?n] le by simp
  finally show ?thesis by (simp add: be_bytes_def)
qed

lemma padded_eq:
  "BN_bn2le_padded len bn = (if bn_abs bn < 256 ^ len then Some (le_bytes len (bn_abs bn)) else None)"
  "BN_bn2bin_padded len bn = (if bn_abs bn < 256 ^ len then Some (be_bytes len (bn_abs bn)) else None)"
proof -
  let ?w = "words_bytes (bn_d bn)"
  have f: "fits_in_bytes ?w len \<longleftrightarrow> bn_abs bn < 256 ^ len" by (simp add: fits_in_bytes le_val_words_bytes bn_abs_def)
  have w: "bn_abs bn < 256 ^ len" if "\<not> len < bn_width bn * 8"
  proof -
    have "(256 :: nat) ^ (8 * bn_width bn) \<le> 256 ^ len" using that by (intro power_increasing) simp_all
    then show ?thesis using bn_abs_width [of bn] by linarith
  qed
  define k where "k = (if len < bn_width bn * 8 then len else bn_width bn * 8)"
  have t: "take k ?w @ replicate (len - k) 0 = le_bytes len (bn_abs bn)" if "bn_abs bn < 256 ^ len"
    using le_bytes_of_words [OF that] by (auto simp: k_def bn_width_def mult.commute)
  have r: "replicate (len - k) 0 @ rev (take k ?w) = rev (take k ?w @ replicate (len - k) 0)" by simp
  have c: "(len < bn_width bn * 8 \<and> \<not> fits_in_bytes ?w len) = (\<not> bn_abs bn < 256 ^ len)" using f w by blast
  show "BN_bn2le_padded len bn = (if bn_abs bn < 256 ^ len then Some (le_bytes len (bn_abs bn)) else None)"
    unfolding BN_bn2le_padded_def Let_def c k_def [symmetric] using t by simp
  show "BN_bn2bin_padded len bn = (if bn_abs bn < 256 ^ len then Some (be_bytes len (bn_abs bn)) else None)"
    unfolding BN_bn2bin_padded_def Let_def c k_def [symmetric] r be_bytes_def using t by simp
qed

lemma BN_get_u64_eq: "BN_get_u64 bn = (if bn_abs bn < 2 ^ 64 then Some (word_of_nat (bn_abs bn)) else None)"
proof -
  note m = bn_minimal_width [of bn]
  let ?k = "bn_minimal_width bn"
  have v: "bn_abs bn = bn_val (take ?k (bn_d bn))" using bn_val_drop_0 [OF m(2)] by (simp add: bn_abs_def)
  consider "?k = 0" | "?k = 1" | j where "?k = Suc (Suc j)" by (metis One_nat_def not0_implies_Suc)
  then show ?thesis
  proof cases
    case 1
    then show ?thesis using v by (simp add: BN_get_u64_def)
  next
    case 2
    then obtain x xs where "bn_d bn = x # xs" using m(1) by (cases "bn_d bn") (auto simp: bn_width_def)
    then show ?thesis using 2 v unat_u64_less [of x] by (simp add: BN_get_u64_def)
  next
    case 3
    then have nz: "bn_d bn ! Suc j \<noteq> 0" and l: "Suc j < length (bn_d bn)" using m(1,3) by (simp_all add: bn_width_def)
    then obtain x xs where d: "bn_d bn = x # xs" by (cases "bn_d bn") auto
    then have "bn_val xs \<noteq> 0" using nz l by (auto simp: bn_val_eq_0)
    then have "BN_B * 1 \<le> BN_B * bn_val xs" by (intro mult_le_mono2) simp
    moreover have "bn_abs bn = unat x + BN_B * bn_val xs" by (simp add: d bn_abs_def)
    ultimately have "2 ^ 64 \<le> bn_abs bn" by (simp add: BN_B_def)
    then show ?thesis using 3 by (simp add: BN_get_u64_def)
  qed
qed

text \<open>C38: numbers and byte strings. When \<open>t\<close>, of whatever value, can get the words, \<open>BN_bin2bn\<close> stores in it the number that
  the string denotes, which is not negative; \<open>BN_le2bn\<close> stores the magnitude and keeps the sign that \<open>t\<close> had, so that
  it stores the number when \<open>t\<close> was not negative, and both store the number in a fresh \<open>BIGNUM\<close>, for which there must be memory.
  \<open>BN_bn2bin\<close> writes the shortest big-endian string of a magnitude; the padded functions write
  the string of the given length, and report exactly the magnitudes that do not fit, whatever the width; and
  reading what was written gives the magnitude back.\<close>

theorem bn_bytes_roundtrip:
  assumes "bn_room libc t ((length bs + 7) div 8)"
  shows "(\<exists>r. BN_bin2bn libc bs (Some t) = Some r \<and> bn_int r = int (be_val bs) \<and> (bs \<noteq> [] \<longrightarrow> \<not> bn_neg r)) \<and>
    (\<exists>r. BN_le2bn libc bs (Some t) = Some r \<and> bn_abs r = le_val bs \<and> (bn_neg r \<longleftrightarrow> bs \<noteq> [] \<and> bn_neg t)) \<and>
    (\<forall>r. BN_bin2bn libc bs None = Some r \<longrightarrow> bn_int r = int (be_val bs)) \<and>
    (\<forall>r. BN_le2bn libc bs None = Some r \<longrightarrow> bn_int r = int (le_val bs)) \<and>
    (BN_new libc = Some t \<longrightarrow> BN_bin2bn libc bs None \<noteq> None \<and> BN_le2bn libc bs None \<noteq> None) \<and>
    be_val (BN_bn2bin bn) = bn_abs bn \<and> length (BN_bn2bin bn) = BN_num_bytes bn \<and>
    (BN_num_bytes bn \<le> len \<longleftrightarrow> bn_abs bn < 256 ^ len) \<and>
    BN_bn2bin_padded len bn = (if bn_abs bn < 256 ^ len then Some (be_bytes len (bn_abs bn)) else None) \<and>
    BN_bn2le_padded len bn = (if bn_abs bn < 256 ^ len then Some (le_bytes len (bn_abs bn)) else None) \<and>
    (bs = BN_bn2bin bn \<or> BN_bn2bin_padded len bn = Some bs \<longrightarrow>
      (\<exists>r. BN_bin2bn libc bs (Some t) = Some r \<and> bn_int r = int (bn_abs bn))) \<and>
    (BN_bn2le_padded len bn = Some bs \<and> \<not> bn_neg t \<longrightarrow>
      (\<exists>r. BN_le2bn libc bs (Some t) = Some r \<and> bn_int r = int (bn_abs bn)))"
proof -
  have v: "be_val (BN_bn2bin bn) = bn_abs bn" "length (BN_bn2bin bn) = BN_num_bytes bn"
    using BN_num_bytes_le [of bn "BN_num_bytes bn"] by (simp_all add: BN_bn2bin_eq be_val_be_bytes)
  obtain r s where r: "BN_bin2bn libc bs (Some t) = Some r" and s: "BN_le2bn libc bs (Some t) = Some s"
    using BN_bin2bn_ok [OF assms] by blast
  have br: "bn_int r = int (be_val bs)" "bs \<noteq> [] \<longrightarrow> \<not> bn_neg r" using BN_bin2bn_int [OF r] BN_bin2bn_cases [OF r] by auto
  have bs: "bn_abs s = le_val bs" "bn_neg s \<longleftrightarrow> bs \<noteq> [] \<and> bn_neg t" using BN_le2bn_val [OF s] BN_le2bn_neg [OF s] by auto
  have n: "\<forall>r. BN_bin2bn libc bs None = Some r \<longrightarrow> bn_int r = int (be_val bs)" using BN_bin2bn_int by blast
  have l: "\<forall>r. BN_le2bn libc bs None = Some r \<longrightarrow> bn_int r = int (le_val bs)"
    using BN_le2bn_val BN_le2bn_neg by (fastforce simp: bn_int_def)
  have new: "BN_bin2bn libc bs None \<noteq> None \<and> BN_le2bn libc bs None \<noteq> None" if "BN_new libc = Some t"
    using r s that by (auto simp: BN_bin2bn_def BN_le2bn_def)
  have rt: "be_val bs = bn_abs bn" if "bs = BN_bn2bin bn \<or> BN_bn2bin_padded len bn = Some bs"
    using that v(1) by (auto simp: padded_eq be_val_be_bytes split: if_splits)
  have lt: "le_val bs = bn_abs bn" if "BN_bn2le_padded len bn = Some bs"
    using that by (auto simp: padded_eq le_val_le_bytes split: if_splits)
  have ls: "bn_int s = int (le_val bs)" if "\<not> bn_neg t" using bs that by (simp add: bn_int_def)
  show ?thesis
    using r s br bs n l new v BN_num_bytes_le [of bn len] padded_eq [of len bn] rt lt ls
    by (intro conjI impI) (blast | metis)+
qed

text \<open>258 in two bytes and not in one; the bytes read into \<open>- 5\<close> give 258 in big-endian and \<open>- 513\<close> in little-endian order.\<close>

theorem bn_bytes_roundtrip_witness:
  "BN_bn2bin_padded 2 \<lparr>bn_d = [0x0102, 0], bn_dmax = 2, bn_neg = False, bn_static = True\<rparr> = Some [1, 2] \<and>
   BN_bn2le_padded 1 \<lparr>bn_d = [0x0102, 0], bn_dmax = 2, bn_neg = False, bn_static = True\<rparr> = None \<and>
   (\<exists>r. BN_bin2bn (\<lambda>n. True) [1, 2] (Some \<lparr>bn_d = [5], bn_dmax = 1, bn_neg = True, bn_static = True\<rparr>) = Some r \<and> bn_int r = 258) \<and>
   (\<exists>r. BN_le2bn (\<lambda>n. True) [1, 2] (Some \<lparr>bn_d = [5], bn_dmax = 1, bn_neg = True, bn_static = True\<rparr>) = Some r \<and> bn_int r = - 513)"
proof -
  let ?bn = "\<lparr>bn_d = [0x0102, 0], bn_dmax = 2, bn_neg = False, bn_static = True\<rparr>"
  let ?t = "\<lparr>bn_d = [5], bn_dmax = 1, bn_neg = True, bn_static = True\<rparr>"
  have a: "bn_abs ?bn = 258" by (simp add: bn_abs_def)
  have r: "bn_room (\<lambda>n. True) ?t ((length [1 :: byte, 2] + 7) div 8)" by (simp add: bn_room_def bn_wexpand_def)
  have b: "be_bytes (Suc (Suc 0)) 258 = [1, 2]" by (simp add: be_bytes_Suc)
  have "BN_bn2bin_padded (Suc (Suc 0)) ?bn = Some (be_bytes (Suc (Suc 0)) 258)"
    using bn_bytes_roundtrip [OF r, of ?bn "Suc (Suc 0)"] unfolding a by simp
  moreover have "BN_bn2le_padded 1 ?bn = None" using bn_bytes_roundtrip [OF r, of ?bn 1] unfolding a by simp
  moreover have "\<exists>r. BN_bin2bn (\<lambda>n. True) [1, 2] (Some ?t) = Some r \<and> bn_int r = 258"
    using bn_bytes_roundtrip [OF r, of ?bn 1] by (auto simp: be_val_def)
  moreover have "\<exists>r. BN_le2bn (\<lambda>n. True) [1, 2] (Some ?t) = Some r \<and> bn_int r = - 513"
    using bn_bytes_roundtrip [OF r, of ?bn 1] by (auto simp: bn_int_def)
  ultimately show ?thesis unfolding b by (simp add: numeral_2_eq_2)
qed

end
