(* ===== verification/Bio.thy ===== *)
theory Bio
  imports Mem "HOL-Library.Monad_Syntax"
begin

text \<open>
  \<open>crypto/bio/bio.c\<close> with its two methods that need no operating system: BIO pairs (\<open>crypto/bio/pair.c\<close>) and
  memory buffers (\<open>crypto/bio/bio_mem.c\<close> over \<open>crypto/buf/buf.c\<close>).

  A \<open>BIO\<close> is an address of a heap; the two ends of a pair point at each other. An operation returns
  \<open>None\<close> where the C code would fail an \<open>assert\<close>, follow a pointer that is not one, read or write outside the
  ring of a pair or the block of a memory BIO, or loop for ever: each access to a buffer tests its bounds. It returns
  otherwise \<open>Some\<close> of its result and the new heap. A read also returns the bytes it stored in the caller's
  buffer. A written or read length is an \<open>int\<close>; the bytes of a write are the list of that length. The
  caller's buffers are not \<open>NULL\<close>. The table \<open>BIO_METHOD\<close> of function pointers is a tag, on which the
  functions of \<open>bio.c\<close> dispatch; \<open>libc\<close> is the system allocator. Reference counts and chains of BIOs
  (\<open>next_bio\<close>) are not modelled: \<open>BIO_free\<close> is that of the last reference.
\<close>

section \<open>State\<close>

text \<open>\<open>struct bio_bio_st\<close>; \<open>pb_len\<close> bytes of the ring buffer \<open>pb_buf\<close>, from \<open>pb_offset\<close> on, are data that
  the owner wrote and its peer has not read yet.\<close>

record bio_bio =
  pb_peer :: "nat option"
  pb_closed :: bool
  pb_len :: nat
  pb_offset :: nat
  pb_size :: nat
  pb_buf :: "bytes option"
  pb_request :: nat

text \<open>\<open>BUF_MEM\<close>. \<open>data\<close> points at the offset \<open>bm_pos\<close> of the block \<open>bm_block\<close>, which is not \<open>0\<close> only
  in a read-only BIO that has been read from.\<close>

record buf_mem =
  bm_length :: nat
  bm_block :: "bytes option"
  bm_pos :: nat
  bm_max :: nat

datatype bio_ptr = Ptr_null | Ptr_pair bio_bio | Ptr_mem buf_mem

datatype bio_method = methods_biop | mem_method

record bio =
  bio_method :: bio_method
  bio_init :: bool
  bio_shutdown :: int
  bio_flags :: u32
  bio_retry_reason :: int
  bio_num :: int
  bio_ptr :: bio_ptr
  bio_num_read :: u64
  bio_num_write :: u64

text \<open>Address \<open>0\<close> is \<open>NULL\<close>; addresses up to \<open>bio_brk\<close> have been given out.\<close>

record bio_heap =
  bio_at :: "nat \<Rightarrow> bio option"
  bio_brk :: nat

definition bio_upd :: "bio_heap \<Rightarrow> nat \<Rightarrow> (bio \<Rightarrow> bio) \<Rightarrow> bio_heap" where
  "bio_upd h x f = h\<lparr>bio_at := (bio_at h)(x := map_option f (bio_at h x))\<rparr>"

definition pair_at :: "bio_heap \<Rightarrow> nat \<Rightarrow> bio_bio option" where
  "pair_at h x =
     do { b \<leftarrow> bio_at h x; (case bio_ptr b of Ptr_pair p \<Rightarrow> Some p | _ \<Rightarrow> None) }"

definition pair_put :: "bio_heap \<Rightarrow> nat \<Rightarrow> bio_bio \<Rightarrow> bio_heap" where
  "pair_put h x p = bio_upd h x (\<lambda>b. b\<lparr>bio_ptr := Ptr_pair p\<rparr>)"

definition mem_at :: "bio_heap \<Rightarrow> nat \<Rightarrow> buf_mem option" where
  "mem_at h x =
     do { b \<leftarrow> bio_at h x; (case bio_ptr b of Ptr_mem m \<Rightarrow> Some m | _ \<Rightarrow> None) }"

definition mem_put :: "bio_heap \<Rightarrow> nat \<Rightarrow> buf_mem \<Rightarrow> bio_heap" where
  "mem_put h x m = bio_upd h x (\<lambda>b. b\<lparr>bio_ptr := Ptr_mem m\<rparr>)"

definition c_assert :: "bool \<Rightarrow> unit option" where
  "c_assert P = (if P then Some () else None)"

text \<open>Addition of \<open>size_t\<close>.\<close>

definition size_add :: "nat \<Rightarrow> nat \<Rightarrow> nat" where
  "size_add a b = (a + b) mod 2 ^ 64"

definition C_INT_MAX :: nat where "C_INT_MAX = 2 ^ 31 - 1"

section \<open>Flags\<close>

definition BIO_FLAGS_READ :: u32 where "BIO_FLAGS_READ = 0x01"
definition BIO_FLAGS_WRITE :: u32 where "BIO_FLAGS_WRITE = 0x02"
definition BIO_FLAGS_IO_SPECIAL :: u32 where "BIO_FLAGS_IO_SPECIAL = 0x04"
definition BIO_FLAGS_SHOULD_RETRY :: u32 where "BIO_FLAGS_SHOULD_RETRY = 0x08"
definition BIO_FLAGS_MEM_RDONLY :: u32 where "BIO_FLAGS_MEM_RDONLY = 0x200"

definition BIO_FLAGS_RWS :: u32 where
  "BIO_FLAGS_RWS = BIO_FLAGS_READ OR BIO_FLAGS_WRITE OR BIO_FLAGS_IO_SPECIAL"

definition kRetryFlags :: u32 where
  "kRetryFlags = BIO_FLAGS_RWS OR BIO_FLAGS_SHOULD_RETRY"

definition BIO_set_flags :: "u32 \<Rightarrow> bio \<Rightarrow> bio" where
  "BIO_set_flags fl b = b\<lparr>bio_flags := bio_flags b OR fl\<rparr>"

definition BIO_test_flags :: "bio \<Rightarrow> u32 \<Rightarrow> bool" where
  "BIO_test_flags b fl = (bio_flags b AND fl \<noteq> 0)"

definition BIO_should_read :: "bio \<Rightarrow> bool" where
  "BIO_should_read b = BIO_test_flags b BIO_FLAGS_READ"

definition BIO_should_write :: "bio \<Rightarrow> bool" where
  "BIO_should_write b = BIO_test_flags b BIO_FLAGS_WRITE"

definition BIO_should_retry :: "bio \<Rightarrow> bool" where
  "BIO_should_retry b = BIO_test_flags b BIO_FLAGS_SHOULD_RETRY"

definition BIO_set_retry_read :: "bio \<Rightarrow> bio" where
  "BIO_set_retry_read b = b\<lparr>bio_flags := bio_flags b OR (BIO_FLAGS_READ OR BIO_FLAGS_SHOULD_RETRY)\<rparr>"

definition BIO_set_retry_write :: "bio \<Rightarrow> bio" where
  "BIO_set_retry_write b = b\<lparr>bio_flags := bio_flags b OR (BIO_FLAGS_WRITE OR BIO_FLAGS_SHOULD_RETRY)\<rparr>"

definition BIO_clear_retry_flags :: "bio \<Rightarrow> bio" where
  "BIO_clear_retry_flags b = b\<lparr>bio_flags := bio_flags b AND NOT kRetryFlags, bio_retry_reason := 0\<rparr>"

section \<open>BIO pairs\<close>

definition bio_new :: "(nat \<Rightarrow> bool) \<Rightarrow> bio \<Rightarrow> bio option" where
  "bio_new libc b =
     (if \<not> OPENSSL_malloc libc 56 then None
      else Some (b\<lparr>bio_ptr := Ptr_pair \<lparr>pb_peer = None, pb_closed = False, pb_len = 0, pb_offset = 0,
        pb_size = 17 * 1024, pb_buf = None, pb_request = 0\<rparr>\<rparr>))"

definition bio_unpair :: "bio_heap \<Rightarrow> nat \<Rightarrow> bio_heap option" where
  "bio_unpair h x =
     do {
       p \<leftarrow> pair_at h x;
       let h = bio_upd h x (\<lambda>b. b\<lparr>bio_init := False\<rparr>);
       c_assert (pb_buf p \<noteq> None);
       Some (pair_put h x (p\<lparr>pb_peer := None, pb_len := 0, pb_offset := 0\<rparr>))
     }"

definition bio_destroy_pair :: "bio_heap \<Rightarrow> nat \<Rightarrow> bio_heap option" where
  "bio_destroy_pair h x =
     do {
       p \<leftarrow> pair_at h x;
       (case pb_peer p of
          None \<Rightarrow> Some h
        | Some y \<Rightarrow>
            do {
              q \<leftarrow> pair_at h y;
              c_assert (pb_peer q = Some x);
              h \<leftarrow> bio_unpair h y;
              bio_unpair h x
            })
     }"

definition bio_free :: "bio_heap \<Rightarrow> nat \<Rightarrow> bio_heap option" where
  "bio_free h x =
     do {
       p \<leftarrow> pair_at h x;
       (if pb_peer p \<noteq> None then bio_destroy_pair h x else Some h)
     }"

text \<open>The loop of \<open>bio_read\<close>: the bytes stored in the caller's buffer and the new ring.\<close>

partial_function (option) ring_read :: "bio_bio \<Rightarrow> nat \<Rightarrow> (bytes \<times> bio_bio) option" where
  "ring_read q rest =
     do {
       c_assert (rest \<le> pb_len q);
       let chunk = (if size_add (pb_offset q) rest \<le> pb_size q then rest else pb_size q - pb_offset q);
       c_assert (size_add (pb_offset q) chunk \<le> pb_size q);
       buf \<leftarrow> pb_buf q;
       c_assert (pb_offset q + chunk \<le> length buf);
       let out = take chunk (drop (pb_offset q) buf);
       let q = q\<lparr>pb_len := pb_len q - chunk\<rparr>;
       q \<leftarrow> (if pb_len q \<noteq> 0 then
              do {
                let q = q\<lparr>pb_offset := size_add (pb_offset q) chunk\<rparr>;
                c_assert (pb_offset q \<le> pb_size q);
                Some (if pb_offset q = pb_size q then q\<lparr>pb_offset := 0\<rparr> else q)
              }
            else do { c_assert (chunk = rest); Some (q\<lparr>pb_offset := 0\<rparr>) });
       let rest = rest - chunk;
       (if rest = 0 then Some (out, q)
        else do { (more, q) \<leftarrow> ring_read q rest; Some (out @ more, q) })
     }"

definition bio_read :: "bio_heap \<Rightarrow> nat \<Rightarrow> nat \<Rightarrow> (int \<times> bytes \<times> bio_heap) option" where
  "bio_read h x n =
     do {
       let h = bio_upd h x BIO_clear_retry_flags;
       b \<leftarrow> bio_at h x;
       (if \<not> bio_init b then Some (0, [], h)
        else do {
          p \<leftarrow> pair_at h x;
          y \<leftarrow> pb_peer p;
          q \<leftarrow> pair_at h y;
          c_assert (pb_buf q \<noteq> None);
          let q = q\<lparr>pb_request := 0\<rparr>;
          let h = pair_put h y q;
          (if n = 0 then Some (0, [], h)
           else if pb_len q = 0 then
             (if pb_closed q then Some (0, [], h)
              else
                let h = bio_upd h x BIO_set_retry_read;
                    h = pair_put h y (q\<lparr>pb_request := (if n \<le> pb_size q then n else pb_size q)\<rparr>)
                in Some (- 1, [], h))
           else do {
             let n = (if pb_len q < n then pb_len q else n);
             (out, q) \<leftarrow> ring_read q n;
             Some (int n, out, pair_put h y q)
           })
        })
     }"

text \<open>The loop of \<open>bio_write\<close>, which stores the bytes \<open>buf\<close>.\<close>

partial_function (option) ring_write :: "bio_bio \<Rightarrow> bytes \<Rightarrow> bio_bio option" where
  "ring_write p buf =
     do {
       let rest = length buf;
       c_assert (size_add (pb_len p) rest \<le> pb_size p);
       let write_offset = size_add (pb_offset p) (pb_len p);
       let write_offset = (if write_offset \<ge> pb_size p then write_offset - pb_size p else write_offset);
       let chunk = (if size_add write_offset rest \<le> pb_size p then rest else pb_size p - write_offset);
       old \<leftarrow> pb_buf p;
       c_assert (write_offset + chunk \<le> length old);
       let p = p\<lparr>pb_buf := Some (mem_copy old write_offset (take chunk buf)), pb_len := pb_len p + chunk\<rparr>;
       c_assert (pb_len p \<le> pb_size p);
       let rest = rest - chunk;
       (if rest = 0 then Some p else ring_write p (drop chunk buf))
     }"

definition bio_write :: "bio_heap \<Rightarrow> nat \<Rightarrow> bytes \<Rightarrow> (int \<times> bio_heap) option" where
  "bio_write h x buf =
     do {
       let h = bio_upd h x BIO_clear_retry_flags;
       b \<leftarrow> bio_at h x;
       (if \<not> bio_init b \<or> buf = [] then Some (0, h)
        else do {
          p \<leftarrow> pair_at h x;
          c_assert (pb_peer p \<noteq> None);
          c_assert (pb_buf p \<noteq> None);
          let p = p\<lparr>pb_request := 0\<rparr>;
          let h = pair_put h x p;
          (if pb_closed p then Some (- 1, h)
           else do {
             c_assert (pb_len p \<le> pb_size p);
             (if pb_len p = pb_size p then Some (- 1, bio_upd h x BIO_set_retry_write)
              else do {
                let num = (if length buf > pb_size p - pb_len p then pb_size p - pb_len p else length buf);
                p \<leftarrow> ring_write p (take num buf);
                Some (int num, pair_put h x p)
              })
           })
        })
     }"

text \<open>The buffer of one side: its bytes have no defined values before they are written.\<close>

definition pair_alloc :: "(nat \<Rightarrow> bool) \<Rightarrow> bio_bio \<Rightarrow> nat \<Rightarrow> bool \<times> bio_bio" where
  "pair_alloc libc b writebuf_len =
     (if pb_buf b \<noteq> None then (True, b)
      else
        let b = (if writebuf_len \<noteq> 0 then b\<lparr>pb_size := writebuf_len\<rparr> else b)
        in if \<not> OPENSSL_malloc libc (pb_size b) then (False, b)
           else (True, b\<lparr>pb_buf := Some (replicate (pb_size b) 0), pb_len := 0, pb_offset := 0\<rparr>))"

definition bio_make_pair :: "(nat \<Rightarrow> bool) \<Rightarrow> bio_heap \<Rightarrow> nat \<Rightarrow> nat \<Rightarrow> nat \<Rightarrow> nat \<Rightarrow> (bool \<times> bio_heap) option" where
  "bio_make_pair libc h bio1 bio2 writebuf1_len writebuf2_len =
     do {
       b1 \<leftarrow> pair_at h bio1;
       b2 \<leftarrow> pair_at h bio2;
       (if pb_peer b1 \<noteq> None \<or> pb_peer b2 \<noteq> None then Some (False, h)
        else do {
          let (ok, b1) = pair_alloc libc b1 writebuf1_len;
          let h = pair_put h bio1 b1;
          (if \<not> ok then Some (False, h)
           else do {
             b2 \<leftarrow> pair_at h bio2;
             let (ok, b2) = pair_alloc libc b2 writebuf2_len;
             let h = pair_put h bio2 b2;
             (if \<not> ok then Some (False, h)
              else do {
                b1 \<leftarrow> pair_at h bio1;
                let h = pair_put h bio1 (b1\<lparr>pb_peer := Some bio2, pb_closed := False, pb_request := 0\<rparr>);
                b2 \<leftarrow> pair_at h bio2;
                let h = pair_put h bio2 (b2\<lparr>pb_peer := Some bio1, pb_closed := False, pb_request := 0\<rparr>);
                let h = bio_upd h bio1 (\<lambda>b. b\<lparr>bio_init := True\<rparr>);
                Some (True, bio_upd h bio2 (\<lambda>b. b\<lparr>bio_init := True\<rparr>))
              })
           })
        })
     }"

section \<open>Control commands\<close>

definition BIO_CTRL_RESET :: nat where "BIO_CTRL_RESET = 1"
definition BIO_CTRL_EOF :: nat where "BIO_CTRL_EOF = 2"
definition BIO_CTRL_INFO :: nat where "BIO_CTRL_INFO = 3"
definition BIO_CTRL_GET_CLOSE :: nat where "BIO_CTRL_GET_CLOSE = 8"
definition BIO_CTRL_SET_CLOSE :: nat where "BIO_CTRL_SET_CLOSE = 9"
definition BIO_CTRL_PENDING :: nat where "BIO_CTRL_PENDING = 10"
definition BIO_CTRL_FLUSH :: nat where "BIO_CTRL_FLUSH = 11"
definition BIO_CTRL_WPENDING :: nat where "BIO_CTRL_WPENDING = 13"
definition BIO_C_SET_BUF_MEM :: nat where "BIO_C_SET_BUF_MEM = 114"
definition BIO_C_GET_BUF_MEM_PTR :: nat where "BIO_C_GET_BUF_MEM_PTR = 115"
definition BIO_C_SET_BUF_MEM_EOF_RETURN :: nat where "BIO_C_SET_BUF_MEM_EOF_RETURN = 130"
definition BIO_C_GET_WRITE_BUF_SIZE :: nat where "BIO_C_GET_WRITE_BUF_SIZE = 137"
definition BIO_C_GET_WRITE_GUARANTEE :: nat where "BIO_C_GET_WRITE_GUARANTEE = 140"
definition BIO_C_GET_READ_REQUEST :: nat where "BIO_C_GET_READ_REQUEST = 141"
definition BIO_C_SHUTDOWN_WR :: nat where "BIO_C_SHUTDOWN_WR = 142"
definition BIO_C_RESET_READ_REQUEST :: nat where "BIO_C_RESET_READ_REQUEST = 147"

text \<open>The argument \<open>void *ptr\<close> of a command: \<open>NULL\<close>, a BIO, a \<open>BUF_MEM\<close>, or the place for a result, which is a pointer
  into the BIO and is not modelled. A command that takes it for something else than it is has no result.\<close>

datatype bio_arg = Arg_null | Arg_bio nat | Arg_buf buf_mem | Arg_out

definition bio_ctrl :: "bio_heap \<Rightarrow> nat \<Rightarrow> nat \<Rightarrow> int \<Rightarrow> bio_arg \<Rightarrow> (int \<times> bio_heap) option" where
  "bio_ctrl h x cmd num ptr =
     do {
       p \<leftarrow> pair_at h x;
       (if cmd = BIO_C_GET_WRITE_BUF_SIZE then Some (int (pb_size p), h)
        else if cmd = BIO_C_GET_WRITE_GUARANTEE then
          Some (if pb_peer p = None \<or> pb_closed p then 0 else int (pb_size p) - int (pb_len p), h)
        else if cmd = BIO_C_GET_READ_REQUEST then Some (int (pb_request p), h)
        else if cmd = BIO_C_RESET_READ_REQUEST then Some (1, pair_put h x (p\<lparr>pb_request := 0\<rparr>))
        else if cmd = BIO_C_SHUTDOWN_WR then Some (1, pair_put h x (p\<lparr>pb_closed := True\<rparr>))
        else if cmd = BIO_CTRL_GET_CLOSE then do { b \<leftarrow> bio_at h x; Some (bio_shutdown b, h) }
        else if cmd = BIO_CTRL_SET_CLOSE then Some (1, bio_upd h x (\<lambda>b. b\<lparr>bio_shutdown := signed_take_bit 31 num\<rparr>))
        else if cmd = BIO_CTRL_PENDING then
          (case pb_peer p of
             None \<Rightarrow> Some (0, h)
           | Some y \<Rightarrow> do { q \<leftarrow> pair_at h y; Some (int (pb_len q), h) })
        else if cmd = BIO_CTRL_WPENDING then Some (if pb_buf p \<noteq> None then int (pb_len p) else 0, h)
        else if cmd = BIO_CTRL_FLUSH then Some (1, h)
        else if cmd = BIO_CTRL_EOF then
          (case ptr of
             Arg_null \<Rightarrow> Some (1, h)
           | Arg_bio y \<Rightarrow> do { q \<leftarrow> pair_at h y; Some (if pb_len q = 0 \<and> pb_closed q then 1 else 0, h) }
           | _ \<Rightarrow> None)
        else Some (0, h))
     }"

section \<open>Memory buffers\<close>

definition BUF_MEM_new :: "(nat \<Rightarrow> bool) \<Rightarrow> buf_mem option" where
  "BUF_MEM_new libc =
     (if OPENSSL_malloc libc 24 then Some \<lparr>bm_length = 0, bm_block = None, bm_pos = 0, bm_max = 0\<rparr> else None)"

definition BUF_MEM_reserve :: "(nat \<Rightarrow> bool) \<Rightarrow> buf_mem \<Rightarrow> nat \<Rightarrow> bool \<times> buf_mem" where
  "BUF_MEM_reserve libc buf cap =
     (if bm_max buf \<ge> cap then (True, buf)
      else
        let n = size_add cap 3
        in if n < cap then (False, buf)
           else
             let n = n div 3;
                 alloc_size = n * 4 mod 2 ^ 64
             in if alloc_size div 4 \<noteq> n then (False, buf)
                else
                  case OPENSSL_realloc libc (bm_block buf) alloc_size of
                    None \<Rightarrow> (False, buf)
                  | Some new_buf \<Rightarrow> (True, buf\<lparr>bm_block := Some new_buf, bm_max := alloc_size\<rparr>))"

text \<open>\<open>memset\<close> or \<open>memcpy\<close> of \<open>bs\<close> to \<open>data + off\<close>.\<close>

definition bm_store :: "buf_mem \<Rightarrow> nat \<Rightarrow> bytes \<Rightarrow> buf_mem option" where
  "bm_store buf off bs =
     do {
       d \<leftarrow> bm_block buf;
       c_assert (bm_pos buf + off \<le> length d \<and> bm_pos buf + off + length bs \<le> bm_max buf);
       Some (buf\<lparr>bm_block := Some (mem_copy d (bm_pos buf + off) bs)\<rparr>)
     }"

definition BUF_MEM_grow :: "(nat \<Rightarrow> bool) \<Rightarrow> buf_mem \<Rightarrow> nat \<Rightarrow> (nat \<times> buf_mem) option" where
  "BUF_MEM_grow libc buf len =
     (case BUF_MEM_reserve libc buf len of
        (ok, buf) \<Rightarrow>
          if \<not> ok then Some (0, buf)
          else do {
            buf \<leftarrow> (if bm_length buf < len then bm_store buf (bm_length buf) (replicate (len - bm_length buf) 0) else Some buf);
            Some (len, buf\<lparr>bm_length := len\<rparr>)
          })"

definition BUF_MEM_grow_clean :: "(nat \<Rightarrow> bool) \<Rightarrow> buf_mem \<Rightarrow> nat \<Rightarrow> (nat \<times> buf_mem) option" where
  "BUF_MEM_grow_clean libc buf len = BUF_MEM_grow libc buf len"

definition BUF_MEM_append :: "(nat \<Rightarrow> bool) \<Rightarrow> buf_mem \<Rightarrow> bytes \<Rightarrow> (bool \<times> buf_mem) option" where
  "BUF_MEM_append libc buf bs =
     (if length bs = 0 then Some (True, buf)
      else
        let new_len = size_add (bm_length buf) (length bs)
        in if new_len < length bs then Some (False, buf)
           else
             case BUF_MEM_reserve libc buf new_len of
               (ok, buf) \<Rightarrow>
                 if \<not> ok then Some (False, buf)
                 else do { buf \<leftarrow> bm_store buf (bm_length buf) bs; Some (True, buf\<lparr>bm_length := new_len\<rparr>) })"

definition mem_new :: "(nat \<Rightarrow> bool) \<Rightarrow> bio \<Rightarrow> bio option" where
  "mem_new libc b =
     (case BUF_MEM_new libc of
        None \<Rightarrow> None
      | Some m \<Rightarrow> Some (b\<lparr>bio_shutdown := 1, bio_init := True, bio_num := - 1, bio_ptr := Ptr_mem m\<rparr>))"

text \<open>Only the pointer matters: a \<open>BUF_MEM\<close> that the BIO does not own is left to its owner, one that it owns is freed.\<close>

definition mem_free :: "bio \<Rightarrow> bio" where
  "mem_free b = (if bio_shutdown b = 0 \<or> \<not> bio_init b \<or> bio_ptr b = Ptr_null then b else b\<lparr>bio_ptr := Ptr_null\<rparr>)"

text \<open>The bytes at \<open>b->data\<close>.\<close>

definition bm_data :: "buf_mem \<Rightarrow> bytes option" where
  "bm_data m = map_option (drop (bm_pos m)) (bm_block m)"

definition mem_read :: "bio_heap \<Rightarrow> nat \<Rightarrow> int \<Rightarrow> (int \<times> bytes \<times> bio_heap) option" where
  "mem_read h x outl =
     do {
       m \<leftarrow> mem_at h x;
       let h = bio_upd h x BIO_clear_retry_flags;
       b \<leftarrow> bio_at h x;
       let ret = (if bm_length m < C_INT_MAX \<and> outl > int (bm_length m) then int (bm_length m) else outl);
       (if ret > 0 then
          do {
            data \<leftarrow> bm_data m;
            c_assert (nat ret \<le> length data);
            let out = take (nat ret) data;
            let m = m\<lparr>bm_length := bm_length m - nat ret\<rparr>;
            m \<leftarrow> (if BIO_test_flags b BIO_FLAGS_MEM_RDONLY then Some (m\<lparr>bm_pos := bm_pos m + nat ret\<rparr>)
                  else do { c_assert (nat ret + bm_length m \<le> length data); bm_store m 0 (take (bm_length m) (drop (nat ret) data)) });
            Some (ret, out, mem_put h x m)
          }
        else if bm_length m = 0 then
          (let ret = bio_num b in Some (ret, [], if ret \<noteq> 0 then bio_upd h x BIO_set_retry_read else h))
        else Some (ret, [], h))
     }"

definition mem_write :: "(nat \<Rightarrow> bool) \<Rightarrow> bio_heap \<Rightarrow> nat \<Rightarrow> bytes \<Rightarrow> (int \<times> bio_heap) option" where
  "mem_write libc h x bs =
     do {
       m \<leftarrow> mem_at h x;
       b \<leftarrow> bio_at h x;
       (if BIO_test_flags b BIO_FLAGS_MEM_RDONLY then Some (- 1, h)
        else
          let h = bio_upd h x BIO_clear_retry_flags;
              blen = signed_take_bit 31 (int (bm_length m))
          in if int C_INT_MAX - blen < int (length bs) then Some (- 1, h)
             else do {
               (n, m) \<leftarrow> BUF_MEM_grow_clean libc m (nat ((blen + int (length bs)) mod 2 ^ 64));
               (if int n \<noteq> (blen + int (length bs)) mod 2 ^ 64 then Some (- 1, mem_put h x m)
                else do { m \<leftarrow> bm_store m (nat blen) bs; Some (int (length bs), mem_put h x m) })
             })
     }"

text \<open>The loop of \<open>mem_gets\<close> from \<open>i\<close> on, with \<open>k\<close> bytes to go: the end of the line.\<close>

primrec gets_loop :: "bytes \<Rightarrow> nat \<Rightarrow> nat \<Rightarrow> nat option" where
  "gets_loop p i 0 = Some i"
| "gets_loop p i (Suc k) =
     do { c_assert (i < length p); (if p ! i = 10 then Some (i + 1) else gets_loop p (i + 1) k) }"

definition mem_gets :: "bio_heap \<Rightarrow> nat \<Rightarrow> int \<Rightarrow> (int \<times> bytes \<times> bio_heap) option" where
  "mem_gets h x sz =
     do {
       m \<leftarrow> mem_at h x;
       let h = bio_upd h x BIO_clear_retry_flags;
       let j = signed_take_bit 31 (int (bm_length m));
       let j = (if sz - 1 < j then sz - 1 else j);
       (if j \<le> 0 then Some (0, if sz > 0 then [0] else [], h)
        else do {
          p \<leftarrow> bm_data m;
          i \<leftarrow> gets_loop p 0 (nat j);
          (i, out, h) \<leftarrow> mem_read h x (int i);
          Some (i, if i > 0 then out @ [0] else out, h)
        })
     }"

definition mem_ctrl :: "bio_heap \<Rightarrow> nat \<Rightarrow> nat \<Rightarrow> int \<Rightarrow> bio_arg \<Rightarrow> (int \<times> bio_heap) option" where
  "mem_ctrl h x cmd num ptr =
     do {
       b \<leftarrow> bio_at h x;
       (if cmd = BIO_CTRL_RESET then
          do {
            m \<leftarrow> mem_at h x;
            (if bm_block m = None then Some (1, h)
             else if BIO_test_flags b BIO_FLAGS_MEM_RDONLY then
               do {
                 c_assert (bm_length m \<le> bm_max m \<and> bm_max m - bm_length m \<le> bm_pos m);
                 Some (1, mem_put h x (m\<lparr>bm_pos := bm_pos m - (bm_max m - bm_length m), bm_length := bm_max m\<rparr>))
               }
             else do { m \<leftarrow> bm_store m 0 (replicate (bm_max m) 0); Some (1, mem_put h x (m\<lparr>bm_length := 0\<rparr>)) })
          }
        else if cmd = BIO_CTRL_EOF then do { m \<leftarrow> mem_at h x; Some (if bm_length m = 0 then 1 else 0, h) }
        else if cmd = BIO_C_SET_BUF_MEM_EOF_RETURN then
          Some (1, bio_upd h x (\<lambda>b. b\<lparr>bio_num := signed_take_bit 31 num\<rparr>))
        else if cmd = BIO_CTRL_INFO then
          do { m \<leftarrow> mem_at h x; c_assert (ptr \<in> {Arg_null, Arg_out}); Some (int (bm_length m), h) }
        else if cmd = BIO_C_SET_BUF_MEM then
          do {
            p \<leftarrow> (case ptr of Arg_null \<Rightarrow> Some Ptr_null | Arg_buf m \<Rightarrow> Some (Ptr_mem m) | _ \<Rightarrow> None);
            Some (1, bio_upd h x (\<lambda>b. (mem_free b)\<lparr>bio_shutdown := signed_take_bit 31 num, bio_ptr := p\<rparr>))
          }
        else if cmd = BIO_C_GET_BUF_MEM_PTR then do { c_assert (ptr \<in> {Arg_null, Arg_out}); Some (1, h) }
        else if cmd = BIO_CTRL_GET_CLOSE then Some (bio_shutdown b, h)
        else if cmd = BIO_CTRL_SET_CLOSE then
          Some (1, bio_upd h x (\<lambda>b. b\<lparr>bio_shutdown := signed_take_bit 31 num\<rparr>))
        else if cmd = BIO_CTRL_WPENDING then Some (0, h)
        else if cmd = BIO_CTRL_PENDING then do { m \<leftarrow> mem_at h x; Some (int (bm_length m), h) }
        else if cmd = BIO_CTRL_FLUSH then Some (1, h)
        else Some (0, h))
     }"

section \<open>The functions of bio.c\<close>

definition BIO_new :: "(nat \<Rightarrow> bool) \<Rightarrow> bio_heap \<Rightarrow> bio_method \<Rightarrow> nat \<times> bio_heap" where
  "BIO_new libc h meth =
     (if \<not> OPENSSL_malloc libc 64 then (0, h)
      else
        let ret = \<lparr>bio_method = meth, bio_init = False, bio_shutdown = 1, bio_flags = 0, bio_retry_reason = 0,
              bio_num = 0, bio_ptr = Ptr_null, bio_num_read = 0, bio_num_write = 0\<rparr>;
            x = bio_brk h + 1
        in case (case meth of methods_biop \<Rightarrow> bio_new libc ret | mem_method \<Rightarrow> mem_new libc ret) of
             None \<Rightarrow> (0, h)
           | Some ret \<Rightarrow> (x, h\<lparr>bio_at := (bio_at h)(x \<mapsto> ret), bio_brk := x\<rparr>))"

definition BIO_free :: "bio_heap \<Rightarrow> nat \<Rightarrow> (bool \<times> bio_heap) option" where
  "BIO_free h x =
     (if x = 0 then Some (True, h)
      else do {
        b \<leftarrow> bio_at h x;
        h \<leftarrow> (case bio_method b of methods_biop \<Rightarrow> bio_free h x | mem_method \<Rightarrow> Some (bio_upd h x mem_free));
        Some (True, h\<lparr>bio_at := (bio_at h)(x := None)\<rparr>)
      })"

definition BIO_new_bio_pair :: "(nat \<Rightarrow> bool) \<Rightarrow> bio_heap \<Rightarrow> nat \<Rightarrow> nat \<Rightarrow> (bool \<times> nat \<times> nat \<times> bio_heap) option" where
  "BIO_new_bio_pair libc h writebuf1_len writebuf2_len =
     (let (bio1, h) = BIO_new libc h methods_biop;
          (bio2, h) = BIO_new libc h methods_biop
      in do {
        (ok, h) \<leftarrow> (if bio1 = 0 \<or> bio2 = 0 then Some (False, h)
                     else bio_make_pair libc h bio1 bio2 writebuf1_len writebuf2_len);
        (if \<not> ok then
           do { (_, h) \<leftarrow> BIO_free h bio1; (_, h) \<leftarrow> BIO_free h bio2; Some (False, 0, 0, h) }
         else Some (True, bio1, bio2, h))
      })"

text \<open>\<open>len\<close> is the length of the bytes \<open>buf\<close>, \<open>None\<close> being \<open>NULL\<close> with a length of \<open>0\<close>.\<close>

definition BIO_new_mem_buf :: "(nat \<Rightarrow> bool) \<Rightarrow> bio_heap \<Rightarrow> bytes option \<Rightarrow> nat \<times> bio_heap" where
  "BIO_new_mem_buf libc h buf =
     (let sz = (case buf of None \<Rightarrow> 0 | Some bs \<Rightarrow> length bs);
          (ret, h) = BIO_new libc h mem_method
      in if ret = 0 then (0, h)
         else
           let h = mem_put h ret \<lparr>bm_length = sz, bm_block = buf, bm_pos = 0, bm_max = sz\<rparr>
           in (ret, bio_upd h ret (\<lambda>b. b\<lparr>bio_flags := bio_flags b OR BIO_FLAGS_MEM_RDONLY, bio_num := 0\<rparr>)))"

definition BIO_read :: "bio_heap \<Rightarrow> nat \<Rightarrow> int \<Rightarrow> (int \<times> bytes \<times> bio_heap) option" where
  "BIO_read h x len =
     (if x = 0 then Some (- 2, [], h)
      else do {
        b \<leftarrow> bio_at h x;
        (if \<not> bio_init b then Some (- 2, [], h)
         else if len \<le> 0 then Some (0, [], h)
         else do {
           (ret, out, h) \<leftarrow> (case bio_method b of methods_biop \<Rightarrow> bio_read h x (nat len) | mem_method \<Rightarrow> mem_read h x len);
           Some (ret, out, if ret > 0 then bio_upd h x (\<lambda>b. b\<lparr>bio_num_read := bio_num_read b + word_of_int ret\<rparr>) else h)
         })
      })"

definition BIO_gets :: "bio_heap \<Rightarrow> nat \<Rightarrow> int \<Rightarrow> (int \<times> bytes \<times> bio_heap) option" where
  "BIO_gets h x len =
     (if x = 0 then Some (- 2, [], h)
      else do {
        b \<leftarrow> bio_at h x;
        (if bio_method b = methods_biop then Some (- 2, [], h)
         else if \<not> bio_init b then Some (- 2, [], h)
         else if len \<le> 0 then Some (0, [], h)
         else do {
           (ret, out, h) \<leftarrow> mem_gets h x len;
           Some (ret, out, if ret > 0 then bio_upd h x (\<lambda>b. b\<lparr>bio_num_read := bio_num_read b + word_of_int ret\<rparr>) else h)
         })
      })"

definition BIO_write :: "(nat \<Rightarrow> bool) \<Rightarrow> bio_heap \<Rightarrow> nat \<Rightarrow> bytes \<Rightarrow> (int \<times> bio_heap) option" where
  "BIO_write libc h x buf =
     (if x = 0 then Some (- 2, h)
      else do {
        b \<leftarrow> bio_at h x;
        (if \<not> bio_init b then Some (- 2, h)
         else if length buf = 0 then Some (0, h)
         else do {
           (ret, h) \<leftarrow> (case bio_method b of methods_biop \<Rightarrow> bio_write h x buf | mem_method \<Rightarrow> mem_write libc h x buf);
           Some (ret, if ret > 0 then bio_upd h x (\<lambda>b. b\<lparr>bio_num_write := bio_num_write b + word_of_int ret\<rparr>) else h)
         })
      })"

definition BIO_ctrl :: "bio_heap \<Rightarrow> nat \<Rightarrow> nat \<Rightarrow> int \<Rightarrow> bio_arg \<Rightarrow> (int \<times> bio_heap) option" where
  "BIO_ctrl h x cmd larg parg =
     (if x = 0 then Some (0, h)
      else do {
        b \<leftarrow> bio_at h x;
        (case bio_method b of methods_biop \<Rightarrow> bio_ctrl h x cmd larg parg | mem_method \<Rightarrow> mem_ctrl h x cmd larg parg)
      })"

definition BIO_flush :: "bio_heap \<Rightarrow> nat \<Rightarrow> (int \<times> bio_heap) option" where
  "BIO_flush h x = BIO_ctrl h x BIO_CTRL_FLUSH 0 Arg_null"

definition BIO_reset :: "bio_heap \<Rightarrow> nat \<Rightarrow> (int \<times> bio_heap) option" where
  "BIO_reset h x = BIO_ctrl h x BIO_CTRL_RESET 0 Arg_null"

definition BIO_eof :: "bio_heap \<Rightarrow> nat \<Rightarrow> (int \<times> bio_heap) option" where
  "BIO_eof h x = BIO_ctrl h x BIO_CTRL_EOF 0 Arg_null"

definition BIO_set_close :: "bio_heap \<Rightarrow> nat \<Rightarrow> int \<Rightarrow> (int \<times> bio_heap) option" where
  "BIO_set_close h x close_flag = BIO_ctrl h x BIO_CTRL_SET_CLOSE close_flag Arg_null"

definition BIO_set_mem_eof_return :: "bio_heap \<Rightarrow> nat \<Rightarrow> int \<Rightarrow> (int \<times> bio_heap) option" where
  "BIO_set_mem_eof_return h x eof_value = BIO_ctrl h x BIO_C_SET_BUF_MEM_EOF_RETURN eof_value Arg_null"

text \<open>The caller and the BIO share the \<open>BUF_MEM\<close> of \<open>BIO_set_mem_buf\<close>; the model gives it to the BIO.\<close>

definition BIO_set_mem_buf :: "bio_heap \<Rightarrow> nat \<Rightarrow> buf_mem \<Rightarrow> int \<Rightarrow> (int \<times> bio_heap) option" where
  "BIO_set_mem_buf h x m take_ownership = BIO_ctrl h x BIO_C_SET_BUF_MEM take_ownership (Arg_buf m)"

definition BIO_get_mem_ptr :: "bio_heap \<Rightarrow> nat \<Rightarrow> (int \<times> bio_heap) option" where
  "BIO_get_mem_ptr h x = BIO_ctrl h x BIO_C_GET_BUF_MEM_PTR 0 Arg_out"

definition BIO_get_mem_data :: "bio_heap \<Rightarrow> nat \<Rightarrow> (int \<times> bio_heap) option" where
  "BIO_get_mem_data h x = BIO_ctrl h x BIO_CTRL_INFO 0 Arg_out"

definition BIO_shutdown_wr :: "bio_heap \<Rightarrow> nat \<Rightarrow> (int \<times> bio_heap) option" where
  "BIO_shutdown_wr h x = BIO_ctrl h x BIO_C_SHUTDOWN_WR 0 Arg_null"

definition BIO_pending :: "bio_heap \<Rightarrow> nat \<Rightarrow> (nat \<times> bio_heap) option" where
  "BIO_pending h x =
     do { (r, h) \<leftarrow> BIO_ctrl h x BIO_CTRL_PENDING 0 Arg_null; c_assert (r \<ge> 0); Some (if r < 0 then 0 else nat r, h) }"

definition BIO_wpending :: "bio_heap \<Rightarrow> nat \<Rightarrow> (nat \<times> bio_heap) option" where
  "BIO_wpending h x =
     do { (r, h) \<leftarrow> BIO_ctrl h x BIO_CTRL_WPENDING 0 Arg_null; c_assert (r \<ge> 0); Some (if r < 0 then 0 else nat r, h) }"

definition BIO_ctrl_get_read_request :: "bio_heap \<Rightarrow> nat \<Rightarrow> (nat \<times> bio_heap) option" where
  "BIO_ctrl_get_read_request h x =
     do { (r, h) \<leftarrow> BIO_ctrl h x BIO_C_GET_READ_REQUEST 0 Arg_null; Some (nat (r mod 2 ^ 64), h) }"

definition BIO_ctrl_get_write_guarantee :: "bio_heap \<Rightarrow> nat \<Rightarrow> (nat \<times> bio_heap) option" where
  "BIO_ctrl_get_write_guarantee h x =
     do { (r, h) \<leftarrow> BIO_ctrl h x BIO_C_GET_WRITE_GUARANTEE 0 Arg_null; Some (nat (r mod 2 ^ 64), h) }"

definition BIO_mem_contents :: "bio_heap \<Rightarrow> nat \<Rightarrow> bytes option option" where
  "BIO_mem_contents h x =
     do {
       b \<leftarrow> bio_at h x;
       (if bio_method b \<noteq> mem_method then Some None
        else do { m \<leftarrow> mem_at h x; Some (Some (case bm_data m of None \<Rightarrow> [] | Some d \<Rightarrow> take (bm_length m) d)) })
     }"

end
