(* ===== verification/Bio_Pair.thy ===== *)
theory Bio_Pair
  imports Bio
begin

text \<open>
  BIO pairs as queues. \<open>ring_contents\<close> reads the bytes in a ring buffer, wherever they wrap; the loops of
  \<open>bio_read\<close> and \<open>bio_write\<close> remove them from its front and append them at its end, in at most two steps.
  \<open>pair_inv\<close> is the invariant of a heap: peers point at each other, the indices are in bounds, and a BIO is
  initialised exactly when it has a peer. All operations keep it, and none fails an assertion where it holds.
\<close>

section \<open>Rings\<close>

definition ring_ok :: "bio_bio \<Rightarrow> bool" where
  "ring_ok p \<longleftrightarrow>
     (case pb_buf p of
        None \<Rightarrow> False
      | Some bs \<Rightarrow> length bs = pb_size p \<and> 0 < pb_size p \<and> pb_size p < 2 ^ 63 \<and> pb_len p \<le> pb_size p \<and> pb_offset p < pb_size p)"

definition ring_contents :: "bio_bio \<Rightarrow> bytes" where
  "ring_contents p =
     (case pb_buf p of
        None \<Rightarrow> []
      | Some bs \<Rightarrow> map (\<lambda>i. bs ! ((pb_offset p + i) mod pb_size p)) [0..<pb_len p])"

lemma ring_okE:
  assumes "ring_ok p"
  obtains bs where "pb_buf p = Some bs" "length bs = pb_size p" "0 < pb_size p" "pb_size p < 2 ^ 63"
    "pb_len p \<le> pb_size p" "pb_offset p < pb_size p"
  using assms by (auto simp: ring_ok_def split: option.splits)

lemma length_ring_contents: "ring_ok p \<Longrightarrow> length (ring_contents p) = pb_len p"
  by (auto simp: ring_contents_def elim: ring_okE)

lemma size_add_small: "a < 2 ^ 63 \<Longrightarrow> b < 2 ^ 63 \<Longrightarrow> size_add a b = a + b"
  by (simp add: size_add_def)

text \<open>What a read of the first \<open>k\<close> bytes leaves.\<close>

definition ring_advance :: "nat \<Rightarrow> bio_bio \<Rightarrow> bio_bio" where
  "ring_advance k q =
     q\<lparr>pb_len := pb_len q - k, pb_offset := (if pb_len q = k then 0 else (pb_offset q + k) mod pb_size q)\<rparr>"

lemma ring_advance_ok:
  assumes "ring_ok q" "k \<le> pb_len q"
  shows "ring_ok (ring_advance k q) \<and> ring_contents (ring_advance k q) = drop k (ring_contents q)"
proof -
  obtain bs where q: "pb_buf q = Some bs" "length bs = pb_size q" "0 < pb_size q" "pb_size q < 2 ^ 63"
    "pb_len q \<le> pb_size q" "pb_offset q < pb_size q"
    using assms(1) by (rule ring_okE)
  have "ring_contents (ring_advance k q) = drop k (ring_contents q)"
    using assms(2)
    by (intro nth_equalityI) (auto simp: ring_contents_def ring_advance_def q(1) mod_add_left_eq mod_add_right_eq ac_simps)
  moreover have "pb_len q - k \<le> pb_size q" using q by linarith
  ultimately show ?thesis using q by (simp add: ring_ok_def ring_advance_def)
qed

lemma ring_advance_add:
  "j + k \<le> pb_len q \<Longrightarrow> ring_advance k (ring_advance j q) = ring_advance (j + k) q"
  by (auto simp: ring_advance_def mod_add_left_eq mod_add_right_eq ac_simps)

lemma ring_advance_0: "ring_ok q \<Longrightarrow> pb_len q \<noteq> 0 \<Longrightarrow> ring_advance 0 q = q"
  by (auto simp: ring_advance_def elim: ring_okE)

text \<open>One turn of the loop takes as much as lies before the end of the buffer.\<close>

lemma ring_read_step:
  assumes "ring_ok q" "0 < rest" "rest \<le> pb_len q"
  defines "chunk \<equiv> min rest (pb_size q - pb_offset q)"
  shows "ring_read q rest =
    (if rest = chunk then Some (take chunk (ring_contents q), ring_advance chunk q)
     else do { (more, q') \<leftarrow> ring_read (ring_advance chunk q) (rest - chunk);
               Some (take chunk (ring_contents q) @ more, q') })"
proof -
  obtain bs where q: "pb_buf q = Some bs" "length bs = pb_size q" "0 < pb_size q" "pb_size q < 2 ^ 63"
    "pb_len q \<le> pb_size q" "pb_offset q < pb_size q"
    using assms(1) by (rule ring_okE)
  have c: "(if size_add (pb_offset q) rest \<le> pb_size q then rest else pb_size q - pb_offset q) = chunk"
    using q assms(3) by (auto simp: chunk_def size_add_small min_def)
  have cb: "chunk \<le> rest" "pb_offset q + chunk \<le> pb_size q" "0 < chunk" using q assms(2) by (auto simp: chunk_def)
  have a: "size_add (pb_offset q) chunk = pb_offset q + chunk" using q cb assms(3) by (intro size_add_small) auto
  have out: "take chunk (drop (pb_offset q) bs) = take chunk (ring_contents q)"
    using q cb assms(3) by (intro nth_equalityI) (auto simp: ring_contents_def)
  have len: "chunk = rest" if "pb_len q - chunk = 0" using that assms(3) cb by linarith
  show ?thesis
  proof (cases "pb_len q = chunk")
    case True
    then have "rest = chunk" using assms(3) cb by linarith
    then show ?thesis using q c a cb out assms True
      by (subst ring_read.simps) (simp add: c_assert_def ring_advance_def Let_def)
  next
    case False
    then have n: "pb_len q - chunk \<noteq> 0" using assms(3) cb by linarith
    have adv: "(if pb_offset q + chunk = pb_size q then 0 else pb_offset q + chunk) = (pb_offset q + chunk) mod pb_size q"
      using cb q by auto
    have e: "(if pb_offset q + chunk = pb_size q then q\<lparr>pb_len := pb_len q - chunk, pb_offset := 0\<rparr>
        else q\<lparr>pb_len := pb_len q - chunk, pb_offset := pb_offset q + chunk\<rparr>) = ring_advance chunk q"
      using False adv by (auto simp: ring_advance_def)
    have r: "rest - chunk = 0 \<longleftrightarrow> rest = chunk" using cb by linarith
    show ?thesis using q a cb assms(3) n
      by (subst ring_read.simps) (simp add: c_assert_def Let_def c out e r split del: if_split cong: if_cong)
  qed
qed

lemma ring_read_take:
  assumes "ring_ok q" "0 < rest" "rest \<le> pb_len q"
  shows "ring_read q rest = Some (take rest (ring_contents q), ring_advance rest q)"
  using assms
proof (induction rest arbitrary: q rule: less_induct)
  case (less rest)
  define chunk where "chunk = min rest (pb_size q - pb_offset q)"
  note step = ring_read_step [OF less.prems, folded chunk_def]
  show ?case
  proof (cases "rest = chunk")
    case False
    then have c: "0 < chunk" "chunk < rest" using less.prems by (auto simp: chunk_def elim!: ring_okE)
    let ?q = "ring_advance chunk q"
    have ok: "ring_ok ?q" "ring_contents ?q = drop chunk (ring_contents q)"
      using ring_advance_ok [of q chunk] less.prems c by auto
    have "ring_read ?q (rest - chunk) = Some (take (rest - chunk) (ring_contents ?q), ring_advance (rest - chunk) ?q)"
      by (rule less.IH) (use c ok less.prems in \<open>auto simp: ring_advance_def\<close>)
    moreover have "ring_advance (rest - chunk) ?q = ring_advance rest q"
      using ring_advance_add [of chunk "rest - chunk" q] c less.prems by simp
    moreover have "take chunk (ring_contents q) @ take (rest - chunk) (drop chunk (ring_contents q)) = take rest (ring_contents q)"
      using take_add [of chunk "rest - chunk" "ring_contents q"] c by simp
    ultimately show ?thesis using step False by (simp add: ok(2))
  qed (use step in simp)
qed

section \<open>Writing\<close>

definition ring_append :: "bytes \<Rightarrow> bio_bio \<Rightarrow> bio_bio \<Rightarrow> bool" where
  "ring_append bs p p' \<longleftrightarrow>
     ring_ok p' \<and> ring_contents p' = ring_contents p @ bs \<and> pb_size p' = pb_size p \<and> pb_offset p' = pb_offset p \<and>
     pb_len p' = pb_len p + length bs \<and> pb_peer p' = pb_peer p \<and> pb_closed p' = pb_closed p \<and> pb_request p' = pb_request p"

lemma ring_append_trans: "ring_append xs p q \<Longrightarrow> ring_append ys q r \<Longrightarrow> ring_append (xs @ ys) p r"
  by (simp add: ring_append_def)

text \<open>A chunk stored behind the contents, before the end of the buffer or after the wrap.\<close>

lemma ring_append_chunk:
  assumes "ring_ok p" "pb_buf p = Some old" "pb_len p + length cs \<le> pb_size p"
    and "wo = (pb_offset p + pb_len p) mod pb_size p" "wo + length cs \<le> pb_size p"
  shows "ring_append cs p (p\<lparr>pb_buf := Some (mem_copy old wo cs), pb_len := pb_len p + length cs\<rparr>)"
proof -
  let ?p = "p\<lparr>pb_buf := Some (mem_copy old wo cs), pb_len := pb_len p + length cs\<rparr>"
  have p: "length old = pb_size p" "0 < pb_size p" "pb_size p < 2 ^ 63" "pb_offset p < pb_size p"
    using assms(1,2) by (auto elim: ring_okE)
  let ?n = "pb_size p" and ?o = "pb_offset p"
  have new: "mem_copy old wo cs ! i = (if i < wo then old ! i else if i < wo + length cs then cs ! (i - wo) else old ! i)"
    if "i < ?n" for i
    using that p(1) assms(5) by (auto simp: mem_copy_def nth_append min_def)
  have "ring_contents ?p ! i = (ring_contents p @ cs) ! i" if i: "i < pb_len p + length cs" for i
  proof (cases "i < pb_len p")
    case True
    let ?j = "(?o + i) mod ?n"
    have "?j < wo \<or> wo + length cs \<le> ?j"
    proof (rule ccontr)
      assume "\<not> ?thesis"
      then obtain k where k: "k < length cs" "?j = wo + k"
        by (metis le_Suc_ex nat_add_left_cancel_less not_le_imp_less)
      have "?j = (wo + k) mod ?n" using k(2) p(2) by (metis mod_mod_trivial)
      also have "\<dots> = (?o + i + (pb_len p + k - i)) mod ?n" using True by (simp add: assms(4) mod_add_left_eq add.assoc)
      finally have "(?o + i + (pb_len p + k - i)) mod ?n = (?o + i) mod ?n" by simp
      moreover have "0 < pb_len p + k - i" "pb_len p + k - i < ?n" using True k(1) assms(3) by linarith+
      ultimately show False using mod_add_neq [of "pb_len p + k - i" ?n "?o + i"] by blast
    qed
    then show ?thesis using True new [of ?j] p(2) by (auto simp: ring_contents_def assms(2) nth_append)
  next
    case False
    then obtain k where k: "i = pb_len p + k" "k < length cs" using i by (metis le_Suc_ex nat_add_left_cancel_less not_le_imp_less)
    have "(?o + i) mod ?n = (wo + k) mod ?n" using k(1) by (simp add: assms(4) mod_add_left_eq mod_add_right_eq ac_simps)
    also have "\<dots> = wo + k" using k(2) assms(5) by simp
    finally show ?thesis using k new [of "wo + k"] assms(5) by (simp add: ring_contents_def assms(2) nth_append)
  qed
  moreover have "length (ring_contents p) = pb_len p" using assms(1) by (rule length_ring_contents)
  moreover have "length (ring_contents ?p) = pb_len p + length cs" by (simp add: ring_contents_def)
  ultimately have "ring_contents ?p = ring_contents p @ cs" by (intro nth_equalityI) simp_all
  then show ?thesis using p assms(3,5) by (simp add: ring_append_def ring_ok_def mem_copy_def)
qed

lemma ring_write_append:
  assumes "ring_ok p" "buf \<noteq> []" "pb_len p + length buf \<le> pb_size p"
  shows "\<exists>p'. ring_write p buf = Some p' \<and> ring_append buf p p'"
  using assms
proof (induction "length buf" arbitrary: p buf rule: less_induct)
  case less
  obtain old where p: "pb_buf p = Some old" "length old = pb_size p" "0 < pb_size p" "pb_size p < 2 ^ 63"
    "pb_len p \<le> pb_size p" "pb_offset p < pb_size p"
    using less.prems(1) by (rule ring_okE)
  define wo where "wo = (pb_offset p + pb_len p) mod pb_size p"
  define chunk where "chunk = min (length buf) (pb_size p - wo)"
  let ?p = "p\<lparr>pb_buf := Some (mem_copy old wo (take chunk buf)), pb_len := pb_len p + chunk\<rparr>"
  have wo: "wo < pb_size p" using p by (simp add: wo_def)
  have l: "length (take chunk buf) = chunk" by (simp add: chunk_def)
  have a: "size_add (pb_len p) (length buf) = pb_len p + length buf" using p less.prems(3) by (intro size_add_small) auto
  have w: "(if size_add (pb_offset p) (pb_len p) \<ge> pb_size p then size_add (pb_offset p) (pb_len p) - pb_size p
      else size_add (pb_offset p) (pb_len p)) = wo"
    using p by (simp add: size_add_small wo_def mod_if)
  have c: "(if size_add wo (length buf) \<le> pb_size p then length buf else pb_size p - wo) = chunk"
    using wo p less.prems(3) by (auto simp: size_add_small chunk_def min_def)
  have step: "ring_write p buf = (if length buf = chunk then Some ?p else ring_write ?p (drop chunk buf))"
  proof -
    have r: "length buf \<le> chunk \<longleftrightarrow> length buf = chunk" by (auto simp: chunk_def)
    have c': "(if size_add wo chunk \<le> pb_size p then chunk else pb_size p - wo) = chunk"
      using wo p less.prems(3) by (auto simp: size_add_small chunk_def min_def)
    have "pb_len p + chunk \<le> pb_size p" using less.prems(3) by (simp add: chunk_def)
    moreover have "wo + chunk \<le> length old" using wo p(2) by (simp add: chunk_def)
    ultimately show ?thesis using less.prems(3) p(1)
      by (subst ring_write.simps) (simp add: a w c c' r c_assert_def Let_def split del: if_split cong: if_cong)
  qed
  have app: "ring_append (take chunk buf) p ?p"
    using ring_append_chunk [OF less.prems(1) p(1), of "take chunk buf" wo] less.prems(3) wo l
    by (simp add: wo_def chunk_def)
  show ?case
  proof (cases "length buf = chunk")
    case True
    then show ?thesis using step app by simp
  next
    case False
    have c0: "0 < chunk" "chunk < length buf" using wo less.prems(2) False by (auto simp: chunk_def)
    have "\<exists>p'. ring_write ?p (drop chunk buf) = Some p' \<and> ring_append (drop chunk buf) ?p p'"
      by (rule less.hyps) (use c0 app less.prems(3) in \<open>simp_all add: ring_append_def\<close>)
    then obtain p' where p': "ring_write ?p (drop chunk buf) = Some p'" "ring_append (drop chunk buf) ?p p'" by blast
    have "ring_append buf p p'" using ring_append_trans [OF app p'(2)] by simp
    then show ?thesis using step False p'(1) by auto
  qed
qed

section \<open>Heaps\<close>

lemma bio_at_upd [simp]: "bio_at (bio_upd h x f) z = (if z = x then map_option f (bio_at h x) else bio_at h z)"
  by (simp add: bio_upd_def)

lemma bio_brk_upd [simp]: "bio_brk (bio_upd h x f) = bio_brk h"
  by (simp add: bio_upd_def)

lemma bio_at_pair_put:
  "bio_at (pair_put h x p) z = (if z = x then map_option (\<lambda>b. b\<lparr>bio_ptr := Ptr_pair p\<rparr>) (bio_at h x) else bio_at h z)"
  by (simp add: pair_put_def)

lemma bio_brk_pair_put [simp]: "bio_brk (pair_put h x p) = bio_brk h"
  by (simp add: pair_put_def)

lemma pair_at_iff: "pair_at h x = Some p \<longleftrightarrow> (\<exists>b. bio_at h x = Some b \<and> bio_ptr b = Ptr_pair p)"
  by (auto simp: pair_at_def split: bind_splits bio_ptr.splits)

lemma mem_at_iff: "mem_at h x = Some m \<longleftrightarrow> (\<exists>b. bio_at h x = Some b \<and> bio_ptr b = Ptr_mem m)"
  by (auto simp: mem_at_def split: bind_splits bio_ptr.splits)

lemma pair_at_put:
  "pair_at (pair_put h x p) z = (if z = x then (case bio_at h x of None \<Rightarrow> None | Some _ \<Rightarrow> Some p) else pair_at h z)"
  by (auto simp: pair_at_def bio_at_pair_put split: option.splits)

lemma pair_at_put_same: "pair_at h x = Some q \<Longrightarrow> pair_at (pair_put h x p) x = Some p"
  by (auto simp: pair_at_put pair_at_iff)

lemma pair_at_put_other [simp]: "z \<noteq> x \<Longrightarrow> pair_at (pair_put h x p) z = pair_at h z"
  by (simp add: pair_at_put)

lemma pair_at_upd [simp]: "(\<And>b. bio_ptr (f b) = bio_ptr b) \<Longrightarrow> pair_at (bio_upd h x f) z = pair_at h z"
  by (cases "bio_at h x") (auto simp: pair_at_def)

lemma bio_ptr_flags [simp]:
  "bio_ptr (BIO_clear_retry_flags b) = bio_ptr b" "bio_ptr (BIO_set_retry_read b) = bio_ptr b"
  "bio_ptr (BIO_set_retry_write b) = bio_ptr b"
  by (simp_all add: BIO_clear_retry_flags_def BIO_set_retry_read_def BIO_set_retry_write_def)

section \<open>The invariant\<close>

definition linked :: "bio_heap \<Rightarrow> nat \<Rightarrow> nat \<Rightarrow> bool" where
  "linked h y x \<longleftrightarrow> (\<exists>q. pair_at h y = Some q \<and> pb_peer q = Some x)"

definition pair_ok :: "bio_heap \<Rightarrow> nat \<Rightarrow> bool \<Rightarrow> bio_bio \<Rightarrow> bool" where
  "pair_ok h x init p \<longleftrightarrow>
     (init \<longleftrightarrow> pb_peer p \<noteq> None) \<and> pb_request p \<le> pb_size p \<and>
     (pb_len p \<noteq> 0 \<longrightarrow> pb_request p = 0) \<and>
     (if pb_buf p = None then pb_len p = 0 else ring_ok p) \<and>
     (\<forall>y. pb_peer p = Some y \<longrightarrow> y \<noteq> x \<and> pb_buf p \<noteq> None \<and> linked h y x)"

definition mem_ok :: "bool \<Rightarrow> buf_mem \<Rightarrow> bool" where
  "mem_ok rdonly m \<longleftrightarrow>
     (case bm_block m of
        None \<Rightarrow> bm_length m = 0 \<and> bm_pos m = 0 \<and> bm_max m = 0
      | Some d \<Rightarrow>
          bm_pos m + bm_length m \<le> length d \<and> length d \<le> bm_max m \<and> bm_length m \<le> C_INT_MAX \<and>
          (if rdonly then bm_pos m + bm_length m = bm_max m \<and> bm_max m \<le> C_INT_MAX else bm_pos m = 0))"

definition bio_ok :: "bio_heap \<Rightarrow> nat \<Rightarrow> bio \<Rightarrow> bool" where
  "bio_ok h x b \<longleftrightarrow>
     (case bio_method b of
        methods_biop \<Rightarrow> (\<exists>p. bio_ptr b = Ptr_pair p \<and> pair_ok h x (bio_init b) p)
      | mem_method \<Rightarrow> (\<exists>m. bio_ptr b = Ptr_mem m \<and> bio_init b \<and> mem_ok (BIO_test_flags b BIO_FLAGS_MEM_RDONLY) m))"

definition bio_inv :: "bio_heap \<Rightarrow> bool" where
  "bio_inv h \<longleftrightarrow> (\<forall>x b. bio_at h x = Some b \<longrightarrow> 0 < x \<and> x \<le> bio_brk h \<and> bio_ok h x b)"

lemma bio_ok_cong: "(\<And>y z. linked h' y z = linked h y z) \<Longrightarrow> bio_ok h' x b = bio_ok h x b"
  by (simp add: bio_ok_def pair_ok_def split: bio_method.splits)

lemma bio_inv_ok: "bio_inv h \<Longrightarrow> bio_at h x = Some b \<Longrightarrow> 0 < x \<and> x \<le> bio_brk h \<and> bio_ok h x b"
  by (simp add: bio_inv_def)

lemma bio_inv_peer:
  assumes "bio_inv h" "pair_at h x = Some p"
  shows "\<exists>b. bio_at h x = Some b \<and> bio_method b = methods_biop \<and> bio_ptr b = Ptr_pair p \<and> pair_ok h x (bio_init b) p"
proof -
  obtain b where b: "bio_at h x = Some b" "bio_ptr b = Ptr_pair p" using assms(2) by (auto simp: pair_at_iff)
  then have "bio_ok h x b" using assms(1) by (simp add: bio_inv_def)
  then show ?thesis using b by (auto simp: bio_ok_def split: bio_method.splits)
qed

text \<open>Two ends that are connected.\<close>

lemma pair_link:
  assumes "bio_inv h" "pair_at h x = Some p" "pb_peer p = Some y"
  obtains q where "pair_at h y = Some q" "pb_peer q = Some x" "y \<noteq> x" "ring_ok p" "ring_ok q"
proof -
  obtain b :: bio where "pair_ok h x (bio_init b) p" using bio_inv_peer [OF assms(1,2)] by blast
  then obtain q where q: "pair_at h y = Some q" "pb_peer q = Some x" "y \<noteq> x" "ring_ok p"
    using assms(3) by (auto simp: pair_ok_def linked_def)
  obtain c :: bio where "pair_ok h y (bio_init c) q" using bio_inv_peer [OF assms(1) q(1)] by blast
  then have "ring_ok q" using q(2) by (auto simp: pair_ok_def)
  then show ?thesis using that q by blast
qed

text \<open>Changing one end without its peer.\<close>

lemma bio_inv_pair_put_ok:
  assumes "bio_inv h" "pair_at h x = Some p" "pb_peer p' = pb_peer p" "\<And>b. bio_at h x = Some b \<Longrightarrow> pair_ok h x (bio_init b) p'"
  shows "bio_inv (pair_put h x p')"
proof -
  obtain b where b: "bio_at h x = Some b" "bio_method b = methods_biop" using bio_inv_peer [OF assms(1,2)] by blast
  have peers: "linked (pair_put h x p') y z = linked h y z" for y z
    using assms(2,3) by (auto simp: linked_def pair_at_put pair_at_iff)
  have "bio_ok h z c" if c: "bio_at (pair_put h x p') z = Some c" for z c
  proof (cases "z = x")
    case True
    then have "c = b\<lparr>bio_ptr := Ptr_pair p'\<rparr>" using c b(1) by (simp add: bio_at_pair_put)
    then show ?thesis using b(2) True assms(4) [OF b(1)] by (simp add: bio_ok_def)
  next
    case False
    then have "bio_at h z = Some c" using c by (simp add: bio_at_pair_put)
    then show ?thesis using assms(1) by (simp add: bio_inv_def)
  qed
  moreover have "0 < z \<and> z \<le> bio_brk h" if c: "bio_at (pair_put h x p') z = Some c" for z c
    using c assms(1) by (auto simp: bio_inv_def bio_at_pair_put split: if_splits)
  ultimately show ?thesis by (simp add: bio_inv_def bio_ok_cong [OF peers])
qed

lemma bio_inv_pair_put:
  assumes "bio_inv h" "pair_at h x = Some p" "pb_peer p' = pb_peer p" "pb_size p' = pb_size p" "pb_request p' \<le> pb_size p"
    and "pb_len p' \<noteq> 0 \<longrightarrow> pb_request p' = 0" "if pb_buf p' = None then pb_len p' = 0 \<and> pb_buf p = None else ring_ok p'"
  shows "bio_inv (pair_put h x p')"
proof (rule bio_inv_pair_put_ok [OF assms(1-3)])
  fix c assume c: "bio_at h x = Some c"
  obtain b where b: "bio_at h x = Some b" "pair_ok h x (bio_init b) p" using bio_inv_peer [OF assms(1,2)] by blast
  have "pb_buf p \<noteq> None \<Longrightarrow> pb_buf p' \<noteq> None" using assms(7) by (cases "pb_buf p'") auto
  then have "\<forall>y. pb_peer p = Some y \<longrightarrow> y \<noteq> x \<and> pb_buf p' \<noteq> None \<and> linked h y x"
    using b(2) by (simp add: pair_ok_def)
  moreover have "if pb_buf p' = None then pb_len p' = 0 else ring_ok p'" using assms(7) by (auto split: if_splits)
  moreover have "bio_init c \<longleftrightarrow> pb_peer p \<noteq> None" using b c by (simp add: pair_ok_def)
  ultimately show "pair_ok h x (bio_init c) p'" unfolding pair_ok_def assms(3,4) by (intro conjI assms(5,6))
qed

text \<open>Changing flags and counters.\<close>

definition bio_frame :: "(bio \<Rightarrow> bio) \<Rightarrow> bool" where
  "bio_frame f \<longleftrightarrow> (\<forall>b. bio_method (f b) = bio_method b \<and> bio_init (f b) = bio_init b \<and> bio_ptr (f b) = bio_ptr b \<and>
     BIO_test_flags (f b) BIO_FLAGS_MEM_RDONLY = BIO_test_flags b BIO_FLAGS_MEM_RDONLY)"

lemma bio_inv_upd:
  assumes "bio_inv h" "bio_frame f"
  shows "bio_inv (bio_upd h x f)"
proof -
  have l: "linked (bio_upd h x f) y z = linked h y z" for y z using assms(2) by (simp add: linked_def bio_frame_def)
  have f: "bio_ok h z (f b) = bio_ok h z b" for z b using assms(2) by (simp add: bio_ok_def bio_frame_def split: bio_method.splits)
  show ?thesis using assms(1) by (auto simp: bio_inv_def bio_ok_cong [OF l] f)
qed

lemma bio_frame_intros:
  "bio_frame BIO_clear_retry_flags" "bio_frame BIO_set_retry_read" "bio_frame BIO_set_retry_write"
  "bio_frame (\<lambda>b. b\<lparr>bio_num_read := n b\<rparr>)" "bio_frame (\<lambda>b. b\<lparr>bio_num_write := n b\<rparr>)"
  "bio_frame (\<lambda>b. b\<lparr>bio_shutdown := s\<rparr>)" "bio_frame (\<lambda>b. b\<lparr>bio_num := s\<rparr>)"
proof -
  have c: "(fl AND NOT kRetryFlags) AND BIO_FLAGS_MEM_RDONLY = fl AND BIO_FLAGS_MEM_RDONLY" for fl
    unfolding and.assoc by (simp add: kRetryFlags_def BIO_FLAGS_RWS_def BIO_FLAGS_READ_def BIO_FLAGS_WRITE_def
      BIO_FLAGS_IO_SPECIAL_def BIO_FLAGS_SHOULD_RETRY_def BIO_FLAGS_MEM_RDONLY_def)
  have o: "(fl OR (k OR BIO_FLAGS_SHOULD_RETRY)) AND BIO_FLAGS_MEM_RDONLY = fl AND BIO_FLAGS_MEM_RDONLY"
    if "k \<in> {BIO_FLAGS_READ, BIO_FLAGS_WRITE}" for fl k
    using that by (auto simp: bit.conj_disj_distrib2 BIO_FLAGS_READ_def BIO_FLAGS_WRITE_def BIO_FLAGS_SHOULD_RETRY_def BIO_FLAGS_MEM_RDONLY_def)
  show "bio_frame BIO_clear_retry_flags" "bio_frame BIO_set_retry_read" "bio_frame BIO_set_retry_write"
    by (simp_all add: bio_frame_def BIO_clear_retry_flags_def BIO_set_retry_read_def BIO_set_retry_write_def BIO_test_flags_def c o)
  show "bio_frame (\<lambda>b. b\<lparr>bio_num_read := n b\<rparr>)" "bio_frame (\<lambda>b. b\<lparr>bio_num_write := n b\<rparr>)"
    "bio_frame (\<lambda>b. b\<lparr>bio_shutdown := s\<rparr>)" "bio_frame (\<lambda>b. b\<lparr>bio_num := s\<rparr>)"
    by (simp_all add: bio_frame_def BIO_test_flags_def)
qed

section \<open>Pairs as queues\<close>

text \<open>What a pair promises: each end has a queue of the bytes it has written and its peer has not read, with
  room for \<open>pe_size\<close> of them. The results are those of \<open>BIO_write\<close> and \<open>BIO_read\<close>.\<close>

record pipe_end =
  pe_peer :: "nat option"
  pe_closed :: bool
  pe_size :: nat
  pe_data :: bytes

definition end_of :: "bio_bio \<Rightarrow> pipe_end" where
  "end_of p = \<lparr>pe_peer = pb_peer p, pe_closed = pb_closed p, pe_size = pb_size p, pe_data = ring_contents p\<rparr>"

definition pipes :: "bio_heap \<Rightarrow> nat \<Rightarrow> pipe_end option" where
  "pipes h x = map_option end_of (pair_at h x)"

definition pipe_write :: "(nat \<Rightarrow> pipe_end option) \<Rightarrow> nat \<Rightarrow> bytes \<Rightarrow> int \<times> (nat \<Rightarrow> pipe_end option)" where
  "pipe_write A x bs =
     (case A x of
        None \<Rightarrow> (- 2, A)
      | Some e \<Rightarrow>
          if pe_peer e = None then (- 2, A)
          else if bs = [] then (0, A)
          else if pe_closed e \<or> length (pe_data e) = pe_size e then (- 1, A)
          else let k = min (length bs) (pe_size e - length (pe_data e))
               in (int k, A(x \<mapsto> e\<lparr>pe_data := pe_data e @ take k bs\<rparr>)))"

definition pipe_read :: "(nat \<Rightarrow> pipe_end option) \<Rightarrow> nat \<Rightarrow> int \<Rightarrow> int \<times> bytes \<times> (nat \<Rightarrow> pipe_end option)" where
  "pipe_read A x n =
     (case A x of
        None \<Rightarrow> (- 2, [], A)
      | Some e \<Rightarrow>
          (case pe_peer e of
             None \<Rightarrow> (- 2, [], A)
           | Some y \<Rightarrow>
               (case A y of
                  None \<Rightarrow> (- 2, [], A)
                | Some d \<Rightarrow>
                    if n \<le> 0 then (0, [], A)
                    else if pe_data d = [] then (if pe_closed d then 0 else - 1, [], A)
                    else let k = min (nat n) (length (pe_data d))
                         in (int k, take k (pe_data d), A(y \<mapsto> d\<lparr>pe_data := drop k (pe_data d)\<rparr>)))))"

lemma ring_request [simp]:
  "ring_ok (p\<lparr>pb_request := r\<rparr>) = ring_ok p" "ring_contents (p\<lparr>pb_request := r\<rparr>) = ring_contents p"
  "end_of (p\<lparr>pb_request := r\<rparr>) = end_of p"
  by (simp_all add: ring_ok_def ring_contents_def end_of_def cong: option.case_cong)

lemma end_of_sel [simp]:
  "pe_peer (end_of p) = pb_peer p" "pe_closed (end_of p) = pb_closed p" "pe_size (end_of p) = pb_size p"
  "pe_data (end_of p) = ring_contents p"
  by (simp_all add: end_of_def)

lemma pipes_put: "pair_at h x = Some p \<Longrightarrow> pipes (pair_put h x p') = (pipes h)(x \<mapsto> end_of p')"
  by (auto simp: pipes_def fun_eq_iff pair_at_put pair_at_iff)

lemma pipes_upd [simp]: "bio_frame f \<Longrightarrow> pipes (bio_upd h x f) = pipes h"
  by (simp add: pipes_def fun_eq_iff bio_frame_def)

lemma pipes_at: "pair_at h x = Some p \<Longrightarrow> pipes h x = Some (end_of p)"
  by (simp add: pipes_def)

lemma pipes_put_same: "pair_at h x = Some p \<Longrightarrow> end_of p' = end_of p \<Longrightarrow> pipes (pair_put h x p') = pipes h"
  by (simp add: pipes_put pipes_at fun_upd_idem_iff)

lemma no_retry_cleared [simp]: "\<not> BIO_should_retry (BIO_clear_retry_flags b)"
  by (simp add: BIO_should_retry_def BIO_test_flags_def BIO_clear_retry_flags_def kRetryFlags_def BIO_FLAGS_RWS_def
      BIO_FLAGS_READ_def BIO_FLAGS_WRITE_def BIO_FLAGS_IO_SPECIAL_def BIO_FLAGS_SHOULD_RETRY_def and.assoc)

lemma retry_set [simp]: "BIO_should_retry (BIO_set_retry_write b)" "BIO_should_retry (BIO_set_retry_read b)"
proof -
  have "(fl OR (k OR BIO_FLAGS_SHOULD_RETRY)) AND BIO_FLAGS_SHOULD_RETRY = BIO_FLAGS_SHOULD_RETRY" for fl k
    by (rule bit_word_eqI) (auto simp: bit_simps)
  then show "BIO_should_retry (BIO_set_retry_write b)" "BIO_should_retry (BIO_set_retry_read b)"
    by (simp_all add: BIO_should_retry_def BIO_test_flags_def BIO_set_retry_write_def BIO_set_retry_read_def)
      (simp_all add: BIO_FLAGS_SHOULD_RETRY_def)
qed

text \<open>One direction, without the wrapper of \<open>bio.c\<close>. The flags of \<open>x\<close> say whether to try again.\<close>

lemma bio_write_pipe:
  assumes inv: "bio_inv h" and p: "pair_at h x = Some p" "pb_peer p = Some y" and bs: "bs \<noteq> []"
  shows "\<exists>h' b. bio_write h x bs = Some (fst (pipe_write (pipes h) x bs), h') \<and> bio_inv h' \<and>
    pipes h' = snd (pipe_write (pipes h) x bs) \<and> bio_at h' x = Some b \<and>
    (BIO_should_retry b \<longleftrightarrow> \<not> pb_closed p \<and> fst (pipe_write (pipes h) x bs) = - 1)"
proof -
  obtain b where b: "bio_at h x = Some b" "bio_method b = methods_biop" "bio_ptr b = Ptr_pair p" "pair_ok h x (bio_init b) p"
    using bio_inv_peer [OF inv p(1)] by blast
  have ok: "ring_ok p" "bio_init b" using b(4) p(2) by (auto simp: pair_ok_def split: if_splits)
  define h1 where "h1 = bio_upd h x BIO_clear_retry_flags"
  define p1 where "p1 = p\<lparr>pb_request := 0\<rparr>"
  define h2 where "h2 = pair_put h1 x p1"
  have h1: "bio_inv h1" "pair_at h1 x = Some p" "pipes h1 = pipes h"
    using inv p bio_frame_intros(1) by (simp_all add: h1_def bio_inv_upd)
  have b1: "bio_at h1 x = Some (BIO_clear_retry_flags b)" using b(1) by (simp add: h1_def)
  have p1: "ring_ok p1" "pb_peer p1 = pb_peer p" "pb_size p1 = pb_size p" "pb_closed p1 = pb_closed p" "pb_len p1 = pb_len p"
    "pb_request p1 = 0" "end_of p1 = end_of p" "ring_contents p1 = ring_contents p"
    using ok by (simp_all add: p1_def)
  have h2: "bio_inv h2" "pair_at h2 x = Some p1" "pipes h2 = pipes h"
  proof -
    have "pb_buf p1 \<noteq> None" using p1(1) by (auto elim: ring_okE)
    then show "bio_inv h2" unfolding h2_def using p1 by (intro bio_inv_pair_put [OF h1(1,2)]) auto
    show "pair_at h2 x = Some p1" unfolding h2_def by (rule pair_at_put_same [OF h1(2)])
    show "pipes h2 = pipes h" unfolding h2_def using pipes_put_same [OF h1(2) p1(7)] h1(3) by simp
  qed
  have init1: "bio_init (BIO_clear_retry_flags b)" using ok(2) by (simp add: BIO_clear_retry_flags_def)
  have buf: "pb_buf p \<noteq> None" "pb_buf p1 \<noteq> None" using ok(1) by (auto simp: p1_def elim: ring_okE)
  have len: "length (ring_contents p) = pb_len p" "pb_len p \<le> pb_size p" using ok(1) by (auto simp: length_ring_contents elim: ring_okE)
  have b2: "bio_at h2 x = Some ((BIO_clear_retry_flags b)\<lparr>bio_ptr := Ptr_pair p1\<rparr>)" using b1 by (simp add: h2_def bio_at_pair_put)
  have pw: "pipe_write (pipes h) x bs = (if pb_closed p \<or> pb_len p = pb_size p then (- 1, pipes h)
      else let k = min (length bs) (pb_size p - pb_len p)
           in (int k, (pipes h)(x \<mapsto> (end_of p)\<lparr>pe_data := ring_contents p @ take k bs\<rparr>)))"
    using p bs len(1) by (simp add: pipe_write_def pipes_at)
  have w: "bio_write h x bs =
      (if pb_closed p then Some (- 1, h2)
       else if pb_len p = pb_size p then Some (- 1, bio_upd h2 x BIO_set_retry_write)
       else do {
         q \<leftarrow> ring_write p1 (take (min (length bs) (pb_size p - pb_len p)) bs);
         Some (int (min (length bs) (pb_size p - pb_len p)), pair_put h2 x q)
       })"
    using b1 init1 bs h1(2) p(2) buf len(2) p1
    by (simp add: bio_write_def c_assert_def min_def flip: h1_def p1_def h2_def)
  consider "pb_closed p" | "\<not> pb_closed p" "pb_len p = pb_size p" | "\<not> pb_closed p" "pb_len p \<noteq> pb_size p" by blast
  then show ?thesis
  proof cases
    case 1
    then show ?thesis using w pw h2 b2 no_retry_cleared [of b] by (simp add: BIO_should_retry_def BIO_test_flags_def)
  next
    case 2
    then show ?thesis using b2 w pw h2 bio_frame_intros(3) by (simp add: bio_inv_upd)
  next
    case 3
    define k where "k = min (length bs) (pb_size p - pb_len p)"
    have k: "0 < k" "k \<le> length bs" "pb_len p + k \<le> pb_size p" using 3 bs len(2) by (auto simp: k_def)
    obtain q where q: "ring_write p1 (take k bs) = Some q" "ring_append (take k bs) p1 q"
      using ring_write_append [OF p1(1), of "take k bs"] k p1 bs by auto
    have r: "ring_ok q" "ring_contents q = ring_contents p @ take k bs" "pb_size q = pb_size p" "pb_peer q = pb_peer p"
      "pb_closed q = pb_closed p" "pb_request q = 0"
      using q(2) p1 by (simp_all add: ring_append_def)
    have "pb_buf q \<noteq> None" using r(1) by (auto elim: ring_okE)
    then have "bio_inv (pair_put h2 x q)" using r p1 by (intro bio_inv_pair_put [OF h2(1,2)]) auto
    moreover have "pipes (pair_put h2 x q) = (pipes h)(x \<mapsto> (end_of p)\<lparr>pe_data := ring_contents p @ take k bs\<rparr>)"
      using pipes_put [OF h2(2)] h2(3) r by (simp add: end_of_def)
    moreover have "bio_at (pair_put h2 x q) x = Some ((BIO_clear_retry_flags b)\<lparr>bio_ptr := Ptr_pair q\<rparr>)"
      using b2 by (simp add: bio_at_pair_put)
    ultimately show ?thesis using 3 w pw q(1) no_retry_cleared [of b] k(1)
      by (simp add: Let_def BIO_should_retry_def BIO_test_flags_def flip: k_def)
  qed
qed

lemma bio_read_pipe:
  assumes inv: "bio_inv h" and p: "pair_at h x = Some p" "pb_peer p = Some y" and q: "pair_at h y = Some q" and n: "0 < n"
  shows "\<exists>h' b. bio_read h x n =
      Some (fst (pipe_read (pipes h) x (int n)), fst (snd (pipe_read (pipes h) x (int n))), h') \<and> bio_inv h' \<and>
    pipes h' = snd (snd (pipe_read (pipes h) x (int n))) \<and> bio_at h' x = Some b \<and>
    (BIO_should_retry b \<longleftrightarrow> fst (pipe_read (pipes h) x (int n)) = - 1)"
proof -
  obtain b where b: "bio_at h x = Some b" "bio_method b = methods_biop" "bio_ptr b = Ptr_pair p" "pair_ok h x (bio_init b) p"
    using bio_inv_peer [OF inv p(1)] by blast
  have ok: "bio_init b" "ring_ok q" "y \<noteq> x"
    using b(4) p(2) pair_link [OF inv p] q by (auto simp: pair_ok_def)
  define h1 where "h1 = bio_upd h x BIO_clear_retry_flags"
  define q1 where "q1 = q\<lparr>pb_request := 0\<rparr>"
  define h2 where "h2 = pair_put h1 y q1"
  have h1: "bio_inv h1" "pair_at h1 x = Some p" "pair_at h1 y = Some q" "pipes h1 = pipes h"
    using inv p q bio_frame_intros(1) by (simp_all add: h1_def bio_inv_upd)
  have b1: "bio_at h1 x = Some (BIO_clear_retry_flags b)" using b(1) by (simp add: h1_def)
  have init1: "bio_init (BIO_clear_retry_flags b)" using ok(1) by (simp add: BIO_clear_retry_flags_def)
  have q1: "ring_ok q1" "pb_peer q1 = pb_peer q" "pb_size q1 = pb_size q" "pb_closed q1 = pb_closed q" "pb_len q1 = pb_len q"
    "pb_request q1 = 0" "end_of q1 = end_of q" "ring_contents q1 = ring_contents q"
    using ok by (simp_all add: q1_def)
  have buf: "pb_buf q \<noteq> None" "pb_buf q1 \<noteq> None" using ok(2) by (auto simp: q1_def elim: ring_okE)
  have h2: "bio_inv h2" "pair_at h2 y = Some q1" "pipes h2 = pipes h"
  proof -
    show "bio_inv h2" unfolding h2_def using q1 buf(2) by (intro bio_inv_pair_put [OF h1(1,3)]) auto
    show "pair_at h2 y = Some q1" unfolding h2_def by (rule pair_at_put_same [OF h1(3)])
    show "pipes h2 = pipes h" unfolding h2_def using pipes_put_same [OF h1(3) q1(7)] h1(4) by simp
  qed
  have b2: "bio_at h2 x = Some (BIO_clear_retry_flags b)" using b1 ok(3) by (simp add: h2_def bio_at_pair_put)
  have len: "length (ring_contents q) = pb_len q" using ok(2) by (rule length_ring_contents)
  define k where "k = min n (pb_len q)"
  have pr: "pipe_read (pipes h) x (int n) = (if pb_len q = 0 then (if pb_closed q then 0 else - 1, [], pipes h)
      else (int k, take k (ring_contents q), (pipes h)(y \<mapsto> (end_of q)\<lparr>pe_data := drop k (ring_contents q)\<rparr>)))"
  proof -
    have "ring_contents q = [] \<longleftrightarrow> pb_len q = 0" using len by auto
    then show ?thesis using p q n len by (simp add: pipe_read_def pipes_at Let_def k_def)
  qed
  have r: "bio_read h x n =
      (if pb_len q = 0 then
         (if pb_closed q then Some (0, [], h2)
          else Some (- 1, [], pair_put (bio_upd h2 x BIO_set_retry_read) y (q1\<lparr>pb_request := (if n \<le> pb_size q then n else pb_size q)\<rparr>)))
       else do { (out, q') \<leftarrow> ring_read q1 k; Some (int k, out, pair_put h2 y q') })"
    using b1 init1 n h1(2,3) p(2) buf q1
    by (simp add: bio_read_def c_assert_def min_def k_def Let_def flip: h1_def q1_def h2_def)
  consider "pb_len q = 0" "pb_closed q" | "pb_len q = 0" "\<not> pb_closed q" | "pb_len q \<noteq> 0" by blast
  then show ?thesis
  proof cases
    case 1
    then show ?thesis using r pr h2 b2 by simp
  next
    case 2
    let ?h = "bio_upd h2 x BIO_set_retry_read" and ?q = "q1\<lparr>pb_request := (if n \<le> pb_size q then n else pb_size q)\<rparr>"
    have h: "bio_inv ?h" "pair_at ?h y = Some q1" using h2 bio_frame_intros(2) by (simp_all add: bio_inv_upd)
    have "bio_inv (pair_put ?h y ?q)" using 2 q1 buf(2) by (intro bio_inv_pair_put [OF h]) auto
    moreover have "pipes (pair_put ?h y ?q) = pipes h"
      using pipes_put_same [OF h(2), of ?q] h2(3) bio_frame_intros(2) by simp
    moreover have "bio_at (pair_put ?h y ?q) x = Some (BIO_set_retry_read (BIO_clear_retry_flags b))"
      using b2 ok(3) by (simp add: bio_at_pair_put)
    ultimately show ?thesis using 2 r pr by simp
  next
    case 3
    have k: "0 < k" "k \<le> pb_len q1" using 3 n q1(5) by (auto simp: k_def)
    let ?q = "ring_advance k q1"
    have rr: "ring_read q1 k = Some (take k (ring_contents q), ?q)" using ring_read_take [OF q1(1) k] q1(8) by simp
    have a: "ring_ok ?q" "ring_contents ?q = drop k (ring_contents q)" using ring_advance_ok [OF q1(1) k(2)] q1(8) by simp_all
    have f: "pb_peer ?q = pb_peer q" "pb_closed ?q = pb_closed q" "pb_size ?q = pb_size q" "pb_request ?q = 0" "pb_buf ?q = pb_buf q1"
      using q1 by (simp_all add: ring_advance_def)
    have "bio_inv (pair_put h2 y ?q)" using a f q1 buf(2) by (intro bio_inv_pair_put [OF h2(1,2)]) auto
    moreover have "pipes (pair_put h2 y ?q) = (pipes h)(y \<mapsto> (end_of q)\<lparr>pe_data := drop k (ring_contents q)\<rparr>)"
      using pipes_put [OF h2(2)] h2(3) a f by (simp add: end_of_def)
    moreover have "bio_at (pair_put h2 y ?q) x = Some (BIO_clear_retry_flags b)" using b2 ok(3) by (simp add: bio_at_pair_put)
    ultimately show ?thesis using 3 r pr rr by simp
  qed
qed

section \<open>BIO_write and BIO_read on pairs\<close>

lemma pipes_biop:
  assumes "bio_inv h" "bio_at h x = Some b" "bio_method b = methods_biop"
  obtains p where "pair_at h x = Some p" "bio_init b \<longleftrightarrow> pb_peer p \<noteq> None" "0 < x"
proof -
  have "0 < x \<and> bio_ok h x b" using bio_inv_ok [OF assms(1,2)] by blast
  then obtain p where "bio_ptr b = Ptr_pair p" "pair_ok h x (bio_init b) p" "0 < x" using assms(3) by (auto simp: bio_ok_def)
  then show ?thesis using that assms(2) by (auto simp: pair_at_iff pair_ok_def)
qed

lemma bio_inv_counted:
  assumes "bio_inv h" "bio_frame f"
  shows "bio_inv (if c then bio_upd h x f else h)" "pipes (if c then bio_upd h x f else h) = pipes h"
  using assms by (simp_all add: bio_inv_upd)

lemma BIO_write_pair:
  assumes inv: "bio_inv h" and b: "bio_at h x = Some b" "bio_method b = methods_biop"
  shows "\<exists>h' b'. BIO_write libc h x bs = Some (fst (pipe_write (pipes h) x bs), h') \<and> bio_inv h' \<and>
    pipes h' = snd (pipe_write (pipes h) x bs) \<and> bio_at h' x = Some b' \<and> bio_method b' = methods_biop"
proof -
  obtain p where p: "pair_at h x = Some p" "bio_init b \<longleftrightarrow> pb_peer p \<noteq> None" "0 < x" using pipes_biop [OF assms] by blast
  consider "pb_peer p = None" | "pb_peer p \<noteq> None" "bs = []" | y where "pb_peer p = Some y" "bs \<noteq> []" by blast
  then show ?thesis
  proof cases
    case 3
    obtain h' b' where w: "bio_write h x bs = Some (fst (pipe_write (pipes h) x bs), h')" "bio_inv h'"
      "pipes h' = snd (pipe_write (pipes h) x bs)" "bio_at h' x = Some b'"
      using bio_write_pipe [OF inv p(1) 3] by blast
    let ?r = "fst (pipe_write (pipes h) x bs)"
    let ?f = "\<lambda>b. b\<lparr>bio_num_write := bio_num_write b + word_of_int ?r\<rparr>"
    let ?h = "if ?r > 0 then bio_upd h' x ?f else h'"
    have f: "bio_frame ?f" by (rule bio_frame_intros)
    have e: "BIO_write libc h x bs = Some (?r, ?h)" using b p(2,3) 3 w(1) by (simp add: BIO_write_def)
    have i: "bio_inv ?h" "pipes ?h = snd (pipe_write (pipes h) x bs)" using bio_inv_counted [OF w(2) f] w(3) by simp_all
    have "pipes h' x \<noteq> None" using p(1) w(3) 3 by (auto simp: pipe_write_def pipes_at Let_def)
    then obtain p' where "pair_at h' x = Some p'" by (auto simp: pipes_def)
    then have "bio_method b' = methods_biop" using bio_inv_peer [OF w(2)] w(4) by fastforce
    then show ?thesis using e i w(4) by auto
  qed (use b p inv in \<open>auto simp: BIO_write_def pipe_write_def pipes_at\<close>)
qed

lemma BIO_read_pair:
  assumes inv: "bio_inv h" and b: "bio_at h x = Some b" "bio_method b = methods_biop"
  shows "\<exists>h' b'. BIO_read h x n = Some (fst (pipe_read (pipes h) x n), fst (snd (pipe_read (pipes h) x n)), h') \<and> bio_inv h' \<and>
    pipes h' = snd (snd (pipe_read (pipes h) x n)) \<and> bio_at h' x = Some b' \<and> bio_method b' = methods_biop"
proof -
  obtain p where p: "pair_at h x = Some p" "bio_init b \<longleftrightarrow> pb_peer p \<noteq> None" "0 < x" using pipes_biop [OF assms] by blast
  show ?thesis
  proof (cases "pb_peer p")
    case None
    then show ?thesis using b p inv by (auto simp: BIO_read_def pipe_read_def pipes_at)
  next
    case (Some y)
    obtain q where q: "pair_at h y = Some q" "y \<noteq> x" using pair_link [OF inv p(1) Some] by blast
    show ?thesis
    proof (cases "n \<le> 0")
      case True
      then show ?thesis using b p inv Some q by (auto simp: BIO_read_def pipe_read_def pipes_at)
    next
      case False
      then have n: "int (nat n) = n" "0 < nat n" by simp_all
      obtain h' b' where w: "bio_read h x (nat n) = Some (fst (pipe_read (pipes h) x n), fst (snd (pipe_read (pipes h) x n)), h')"
        "bio_inv h'" "pipes h' = snd (snd (pipe_read (pipes h) x n))" "bio_at h' x = Some b'"
        using bio_read_pipe [OF inv p(1) Some q(1) n(2)] unfolding n(1) by blast
      let ?r = "fst (pipe_read (pipes h) x n)"
      let ?f = "\<lambda>b. b\<lparr>bio_num_read := bio_num_read b + word_of_int ?r\<rparr>"
      let ?h = "if ?r > 0 then bio_upd h' x ?f else h'"
      have f: "bio_frame ?f" by (rule bio_frame_intros)
      have e: "BIO_read h x n = Some (?r, fst (snd (pipe_read (pipes h) x n)), ?h)" using b p(2,3) False Some w(1) by (simp add: BIO_read_def)
      have i: "bio_inv ?h" "pipes ?h = snd (snd (pipe_read (pipes h) x n))" using bio_inv_counted [OF w(2) f] w(3) by simp_all
      have "pipes h' x \<noteq> None" using p(1) w(3) Some q by (auto simp: pipe_read_def pipes_at Let_def)
      then obtain p' where "pair_at h' x = Some p'" by (auto simp: pipes_def)
      then have "bio_method b' = methods_biop" using bio_inv_peer [OF w(2)] w(4) by fastforce
      then show ?thesis using e i w(4) by auto
    qed
  qed
qed

end
