(* ===== verification/Bio_Mem.thy ===== *)
theory Bio_Mem
  imports Bio_Pair
begin

text \<open>
  Memory BIOs as queues: \<open>mem_contents\<close> are the bytes not read yet. Reads remove bytes from their front, a
  read-only BIO by advancing a pointer and the others by moving the rest down; writes append, growing the
  buffer, or fail and leave the contents alone.
\<close>

definition mem_contents :: "buf_mem \<Rightarrow> bytes" where
  "mem_contents m = (case bm_data m of None \<Rightarrow> [] | Some d \<Rightarrow> take (bm_length m) d)"

lemma length_mem_contents: "mem_ok rd m \<Longrightarrow> length (mem_contents m) = bm_length m"
  by (auto simp: mem_contents_def mem_ok_def bm_data_def split: option.splits)

lemma mem_ok_length: "mem_ok rd m \<Longrightarrow> bm_length m \<le> C_INT_MAX"
  by (auto simp: mem_ok_def C_INT_MAX_def split: option.splits)

section \<open>Growing the buffer\<close>

lemma BUF_MEM_reserve_ok:
  assumes "mem_ok False m" "cap \<le> C_INT_MAX" "BUF_MEM_reserve libc m cap = (True, m')"
  shows "mem_ok False m' \<and> mem_contents m' = mem_contents m \<and> bm_length m' = bm_length m \<and> cap \<le> bm_max m' \<and>
    (cap \<noteq> 0 \<longrightarrow> bm_block m' \<noteq> None)"
proof (cases "bm_max m \<ge> cap")
  case True
  then show ?thesis using assms by (auto simp: BUF_MEM_reserve_def mem_ok_def split: option.splits)
next
  case False
  define n where "n = (cap + 3) div 3"
  have "n * 3 \<le> cap + 3" "cap < n * 3" unfolding n_def by presburger+
  then have n: "n * 4 < 2 ^ 64" "cap < n * 4" using assms(2) by (simp_all add: C_INT_MAX_def)
  have r: "BUF_MEM_reserve libc m cap =
      (case OPENSSL_realloc libc (bm_block m) (n * 4) of None \<Rightarrow> (False, m) | Some b \<Rightarrow> (True, m\<lparr>bm_block := Some b, bm_max := n * 4\<rparr>))"
    using False n assms(2) by (simp add: BUF_MEM_reserve_def size_add_def C_INT_MAX_def Let_def flip: n_def cong: option.case_cong)
  obtain b where b: "OPENSSL_realloc libc (bm_block m) (n * 4) = Some b" "m' = m\<lparr>bm_block := Some b, bm_max := n * 4\<rparr>"
    using assms(3) r by (auto split: option.splits)
  show ?thesis
  proof (cases "bm_block m")
    case None
    then have "b = []" using b(1) by (auto simp: OPENSSL_realloc_def split: if_splits)
    then show ?thesis using b(2) None assms(1) n by (simp add: mem_ok_def mem_contents_def bm_data_def)
  next
    case (Some d)
    then have d: "length d \<le> bm_max m" "bm_pos m = 0" "bm_length m \<le> length d" "bm_length m \<le> C_INT_MAX"
      using assms(1) by (simp_all add: mem_ok_def)
    then have "length d < n * 4" using False n by linarith
    then have "b = d" using b(1) Some by (auto simp: OPENSSL_realloc_def Let_def split: if_splits)
    then show ?thesis using b(2) Some d n \<open>length d < n * 4\<close> by (simp add: mem_ok_def mem_contents_def bm_data_def)
  qed
qed

lemma BUF_MEM_reserve_fail: "BUF_MEM_reserve libc m cap = (False, m') \<Longrightarrow> m' = m"
  by (auto simp: BUF_MEM_reserve_def Let_def split: if_splits option.splits)

lemma bm_store_same: "bm_block m = Some d \<Longrightarrow> bm_pos m = 0 \<Longrightarrow> off \<le> length d \<Longrightarrow> off + length bs \<le> bm_max m \<Longrightarrow>
    bm_store m off bs = Some (m\<lparr>bm_block := Some (mem_copy d off bs)\<rparr>)"
  by (simp add: bm_store_def c_assert_def)

lemma BUF_MEM_grow_ok:
  assumes "mem_ok False m" "bm_length m < len" "len \<le> C_INT_MAX"
  shows "BUF_MEM_grow libc m len = Some (0, m) \<or>
    (\<exists>m' d. BUF_MEM_grow libc m len = Some (len, m') \<and> mem_ok False m' \<and> bm_length m' = len \<and> bm_block m' = Some d \<and>
       take (bm_length m) d = mem_contents m)"
proof -
  obtain ok m1 where r: "BUF_MEM_reserve libc m len = (ok, m1)" by (rule prod.exhaust)
  show ?thesis
  proof (cases ok)
    case False
    then show ?thesis using r BUF_MEM_reserve_fail by (auto simp: BUF_MEM_grow_def)
  next
    case True
    then have m1: "mem_ok False m1" "mem_contents m1 = mem_contents m" "bm_length m1 = bm_length m" "len \<le> bm_max m1"
      "bm_block m1 \<noteq> None"
      using BUF_MEM_reserve_ok [OF assms(1,3)] r assms(2) by auto
    obtain d where d: "bm_block m1 = Some d" using m1(5) by blast
    have dd: "bm_pos m1 = 0" "bm_length m \<le> length d" "length d \<le> bm_max m1" using m1(1,3) d by (simp_all add: mem_ok_def)
    let ?d = "mem_copy d (bm_length m) (replicate (len - bm_length m) 0)"
    let ?m = "m1\<lparr>bm_block := Some ?d, bm_length := len\<rparr>"
    have "BUF_MEM_grow libc m len = Some (len, ?m)"
      using r True assms(2) m1(3,4) d dd by (simp add: BUF_MEM_grow_def bm_store_same)
    moreover have "mem_ok False ?m" using assms m1(4) dd by (simp add: mem_ok_def mem_copy_def)
    moreover have "take (bm_length m) ?d = mem_contents m"
    proof -
      have "mem_contents m1 = take (bm_length m) d" using m1(3) d dd by (simp add: mem_contents_def bm_data_def)
      then show ?thesis using m1(2) dd by (simp add: mem_copy_def)
    qed
    ultimately show ?thesis by auto
  qed
qed

section \<open>Heaps\<close>

lemma bio_at_mem_put:
  "bio_at (mem_put h x m) z = (if z = x then map_option (\<lambda>b. b\<lparr>bio_ptr := Ptr_mem m\<rparr>) (bio_at h x) else bio_at h z)"
  by (simp add: mem_put_def)

lemma bio_brk_mem_put [simp]: "bio_brk (mem_put h x m) = bio_brk h"
  by (simp add: mem_put_def)

lemma mem_at_upd [simp]: "(\<And>b. bio_ptr (f b) = bio_ptr b) \<Longrightarrow> mem_at (bio_upd h x f) z = mem_at h z"
  by (cases "bio_at h x") (auto simp: mem_at_def)

lemma mem_at_put_same: "mem_at h x = Some m \<Longrightarrow> mem_at (mem_put h x m') x = Some m'"
  by (auto simp: mem_at_iff bio_at_mem_put)

lemma bio_inv_mem:
  assumes "bio_inv h" "mem_at h x = Some m"
  shows "\<exists>b. bio_at h x = Some b \<and> bio_method b = mem_method \<and> bio_ptr b = Ptr_mem m \<and> bio_init b \<and> 0 < x \<and>
    mem_ok (BIO_test_flags b BIO_FLAGS_MEM_RDONLY) m"
proof -
  obtain b where b: "bio_at h x = Some b" "bio_ptr b = Ptr_mem m" using assms(2) by (auto simp: mem_at_iff)
  then have "bio_ok h x b" "0 < x" using assms(1) by (simp_all add: bio_inv_def)
  then show ?thesis using b by (auto simp: bio_ok_def split: bio_method.splits)
qed

lemma bio_inv_mem_put:
  assumes "bio_inv h" "mem_at h x = Some m" "bio_at h x = Some b" "mem_ok (BIO_test_flags b BIO_FLAGS_MEM_RDONLY) m'"
  shows "bio_inv (mem_put h x m')" "pipes (mem_put h x m') = pipes h"
proof -
  have b: "bio_method b = mem_method" "bio_init b" "bio_ptr b = Ptr_mem m" using bio_inv_mem [OF assms(1,2)] assms(3) by auto
  have p: "pair_at (mem_put h x m') z = pair_at h z" for z
    using assms(3) b(3) by (simp add: pair_at_def bio_at_mem_put)
  have l: "linked (mem_put h x m') y z = linked h y z" for y z by (simp add: linked_def p)
  have t: "BIO_test_flags (b\<lparr>bio_ptr := q\<rparr>) fl = BIO_test_flags b fl" for q fl by (simp add: BIO_test_flags_def)
  have o: "bio_ok h x (b\<lparr>bio_ptr := Ptr_mem m'\<rparr>)" using b assms(4) by (simp add: bio_ok_def t)
  have "0 < x \<and> x \<le> bio_brk h" using assms(1,3) by (simp add: bio_inv_def)
  then show "bio_inv (mem_put h x m')" using assms(1,3) o unfolding bio_inv_def bio_ok_cong [OF l] by (auto simp: bio_at_mem_put)
  show "pipes (mem_put h x m') = pipes h" by (simp add: pipes_def p fun_eq_iff)
qed

section \<open>Reading and writing\<close>

lemma rdonly_flags [simp]:
  "BIO_test_flags (BIO_clear_retry_flags b) BIO_FLAGS_MEM_RDONLY = BIO_test_flags b BIO_FLAGS_MEM_RDONLY"
  "BIO_test_flags (BIO_set_retry_read b) BIO_FLAGS_MEM_RDONLY = BIO_test_flags b BIO_FLAGS_MEM_RDONLY"
  using bio_frame_intros(1,2) by (simp_all add: bio_frame_def)

lemma flags_fields [simp]: "bio_num (BIO_clear_retry_flags b) = bio_num b" "bio_method (BIO_clear_retry_flags b) = bio_method b"
  by (simp_all add: BIO_clear_retry_flags_def)

text \<open>\<open>n\<close> bytes off the front.\<close>

lemma mem_read_ok:
  assumes inv: "bio_inv h" and m: "mem_at h x = Some m" and b: "bio_at h x = Some b" and n: "0 < n" "n \<le> int C_INT_MAX"
  shows "\<exists>h' m'. mem_read h x n =
      Some (if mem_contents m = [] then bio_num b else int (min (nat n) (length (mem_contents m))), take (nat n) (mem_contents m), h') \<and>
    bio_inv h' \<and> pipes h' = pipes h \<and> mem_at h' x = Some m' \<and> mem_contents m' = drop (nat n) (mem_contents m)"
proof -
  let ?ro = "BIO_test_flags b BIO_FLAGS_MEM_RDONLY"
  have ok: "mem_ok ?ro m" using bio_inv_mem [OF inv m] b by auto
  have len: "length (mem_contents m) = bm_length m" "bm_length m \<le> C_INT_MAX"
    using length_mem_contents [OF ok] mem_ok_length [OF ok] by simp_all
  define h1 where "h1 = bio_upd h x BIO_clear_retry_flags"
  have h1: "bio_inv h1" "mem_at h1 x = Some m" "bio_at h1 x = Some (BIO_clear_retry_flags b)" "pipes h1 = pipes h"
    using inv m b bio_frame_intros(1) by (simp_all add: h1_def bio_inv_upd)
  show ?thesis
  proof (cases "bm_length m = 0")
    case True
    then have e: "mem_contents m = []" using len(1) by simp
    have "mem_read h x n = Some (bio_num b, [], if bio_num b \<noteq> 0 then bio_upd h1 x BIO_set_retry_read else h1)"
      using True n m h1(3) by (simp add: mem_read_def C_INT_MAX_def Let_def flip: h1_def)
    moreover have "bio_inv (bio_upd h1 x BIO_set_retry_read)" "pipes (bio_upd h1 x BIO_set_retry_read) = pipes h"
      "mem_at (bio_upd h1 x BIO_set_retry_read) x = Some m"
      using h1 bio_frame_intros(2) by (simp_all add: bio_inv_upd)
    ultimately show ?thesis using e h1 by (cases "bio_num b = 0") auto
  next
    case False
    then have ne: "mem_contents m \<noteq> []" using len(1) by auto
    define k where "k = min (nat n) (bm_length m)"
    have k: "0 < k" "k \<le> bm_length m" "k \<le> C_INT_MAX" using n False len(2) by (auto simp: k_def)
    obtain d where d: "bm_block m = Some d" using ok False by (auto simp: mem_ok_def split: option.splits)
    have dd: "bm_pos m + bm_length m \<le> length d" "length d \<le> bm_max m" using ok d by (simp_all add: mem_ok_def)
    have r: "(if bm_length m < C_INT_MAX \<and> n > int (bm_length m) then int (bm_length m) else n) = int k"
      using n len(2) by (auto simp: k_def)
    define m' where "m' = (if ?ro then m\<lparr>bm_length := bm_length m - k, bm_pos := bm_pos m + k\<rparr>
      else m\<lparr>bm_length := bm_length m - k, bm_block := Some (mem_copy d (bm_pos m) (take (bm_length m - k) (drop k (drop (bm_pos m) d))))\<rparr>)"
    have c: "mem_contents m = take (bm_length m) (drop (bm_pos m) d)" using d by (simp add: mem_contents_def bm_data_def)
    have out: "take k (drop (bm_pos m) d) = take (nat n) (mem_contents m)" unfolding c k_def by (simp add: min.commute)
    have read: "mem_read h x n = Some (int k, take (nat n) (mem_contents m), mem_put h1 x m')"
    proof -
      have "length d - bm_pos m \<ge> bm_length m" using dd(1) by simp
      moreover have "bm_store (m\<lparr>bm_length := bm_length m - k\<rparr>) 0 (take (bm_length m - k) (drop k d)) = Some m'" if "\<not> ?ro"
        using that ok d dd by (simp add: bm_store_same m'_def mem_ok_def)
      moreover have "bm_pos m = 0" if "\<not> ?ro" using that ok d by (simp add: mem_ok_def)
      ultimately show ?thesis
        using m h1(3) k d out by (cases ?ro) (simp_all add: mem_read_def r bm_data_def m'_def c_assert_def Let_def flip: h1_def)
    qed
    have "mem_ok ?ro m'" using ok d dd k by (auto simp: mem_ok_def m'_def mem_copy_def)
    then have "bio_inv (mem_put h1 x m')" "pipes (mem_put h1 x m') = pipes h1"
      using bio_inv_mem_put [OF h1(1-3)] by simp_all
    moreover have "mem_contents m' = drop k (mem_contents m)"
      using d dd k ok unfolding c by (auto simp: mem_contents_def bm_data_def m'_def mem_copy_def mem_ok_def take_drop add.commute)
    moreover have "drop k (mem_contents m) = drop (nat n) (mem_contents m)" using len(1) by (simp add: k_def min_def)
    ultimately show ?thesis using read ne h1(4) mem_at_put_same [OF h1(2)] len(1) by (auto simp: k_def)
  qed
qed

lemma mem_write_ok:
  assumes inv: "bio_inv h" and m: "mem_at h x = Some m" and b: "bio_at h x = Some b" and bs: "bs \<noteq> []" "length bs \<le> C_INT_MAX"
  shows "\<exists>h' m' r. mem_write libc h x bs = Some (r, h') \<and> bio_inv h' \<and> pipes h' = pipes h \<and> mem_at h' x = Some m' \<and>
    (r = - 1 \<and> mem_contents m' = mem_contents m \<or> r = int (length bs) \<and> mem_contents m' = mem_contents m @ bs)"
proof -
  let ?ro = "BIO_test_flags b BIO_FLAGS_MEM_RDONLY"
  have ok: "mem_ok ?ro m" using bio_inv_mem [OF inv m] b by auto
  show ?thesis
  proof (cases ?ro)
    case True
    then show ?thesis using inv m b by (simp add: mem_write_def)
  next
    case ro: False
    then have ok: "mem_ok False m" using ok by simp
    have len: "length (mem_contents m) = bm_length m" "bm_length m \<le> C_INT_MAX"
      using length_mem_contents [OF ok] mem_ok_length [OF ok] by simp_all
    have blen: "signed_take_bit 31 (int (bm_length m)) = int (bm_length m)"
      using len(2) by (intro signed_take_bit_int_eq_self) (simp_all add: C_INT_MAX_def)
    define h1 where "h1 = bio_upd h x BIO_clear_retry_flags"
    have h1: "bio_inv h1" "mem_at h1 x = Some m" "bio_at h1 x = Some (BIO_clear_retry_flags b)" "pipes h1 = pipes h"
      using inv m b bio_frame_intros(1) by (simp_all add: h1_def bio_inv_upd)
    define n where "n = bm_length m + length bs"
    show ?thesis
    proof (cases "int C_INT_MAX - int (bm_length m) < int (length bs)")
      case True
      then have "mem_write libc h x bs = Some (- 1, h1)" using m b ro by (simp add: mem_write_def blen Let_def flip: h1_def)
      then show ?thesis using h1 by auto
    next
      case False
      then have n: "n \<le> C_INT_MAX" "bm_length m < n" using bs(1) by (auto simp: n_def)
      have md: "(int (bm_length m) + int (length bs)) mod 18446744073709551616 = int n" using n(1) by (simp add: n_def C_INT_MAX_def)
      have nn: "n - length bs = bm_length m" by (simp add: n_def)
      have w: "mem_write libc h x bs = do {
          (k, m) \<leftarrow> BUF_MEM_grow libc m n;
          (if k \<noteq> n then Some (- 1, mem_put h1 x m)
           else do { m \<leftarrow> bm_store m (n - length bs) bs; Some (int (length bs), mem_put h1 x m) }) }"
        using m b ro False by (simp add: mem_write_def blen md Let_def BUF_MEM_grow_clean_def nn flip: h1_def cong: if_cong prod.case_cong)
      have put: "bio_inv (mem_put h1 x m')" "pipes (mem_put h1 x m') = pipes h" "mem_at (mem_put h1 x m') x = Some m'"
        if "mem_ok False m'" for m'
        using bio_inv_mem_put [OF h1(1-3), of m'] mem_at_put_same [OF h1(2), of m'] that ro h1(4) by simp_all
      consider "BUF_MEM_grow libc m n = Some (0, m)" | m' d where "BUF_MEM_grow libc m n = Some (n, m')" "mem_ok False m'" "bm_length m' = n"
          "bm_block m' = Some d" "take (bm_length m) d = mem_contents m"
        using BUF_MEM_grow_ok [OF ok n(2,1), of libc] by blast
      then show ?thesis
      proof cases
        case 1
        then show ?thesis using w put [OF ok] n(2) by auto
      next
        case 2
        let ?m = "m'\<lparr>bm_block := Some (mem_copy d (n - length bs) bs)\<rparr>"
        have dd: "n \<le> length d" "length d \<le> bm_max m'" "bm_pos m' = 0" using 2 by (simp_all add: mem_ok_def)
        have "mem_ok False ?m" using 2 dd n len(1) by (simp add: mem_ok_def mem_copy_def n_def)
        moreover have "mem_contents ?m = mem_contents m @ bs"
        proof -
          have "mem_contents ?m = take n (take (n - length bs) d @ bs @ drop (n - length bs + length bs) d)"
            using dd(3) 2(3) by (simp add: mem_contents_def bm_data_def mem_copy_def)
          then show ?thesis using 2(5) len(1) by (simp add: nn n_def)
        qed
        moreover have "bm_store m' (n - length bs) bs = Some ?m" using 2(4) dd by (intro bm_store_same) (simp_all add: n_def)
        ultimately show ?thesis using w 2(1) put [of ?m] by auto
      qed
    qed
  qed
qed

text \<open>What a read leaves as it is.\<close>

lemma mem_read_frame:
  assumes "mem_read h x n = Some (r, out, h')" "bio_at h x = Some b"
  shows "\<exists>b'. bio_at h' x = Some b' \<and> bio_num b' = bio_num b \<and> bio_method b' = bio_method b"
  using assms
  by (auto simp: mem_read_def bind_eq_Some_conv mem_put_def BIO_set_retry_read_def Let_def split: if_splits)

lemma mem_write_frame:
  assumes "mem_write libc h x bs = Some (r, h')" "bio_at h x = Some b"
  shows "\<exists>b'. bio_at h' x = Some b' \<and> bio_num b' = bio_num b \<and> bio_method b' = bio_method b"
  using assms
  by (auto simp: mem_write_def bind_eq_Some_conv mem_put_def Let_def split: if_splits prod.splits)

end
