(* ===== verification/Bio_Ops.thy ===== *)
theory Bio_Ops
  imports Bio_Mem
begin

text \<open>
  Any sequence of operations on BIOs of both kinds, from an empty heap: creating, pairing, reading, writing,
  controlling and freeing them in any order. Each keeps the invariant, and none fails an assertion or follows
  a stale pointer, so that freeing one end of a pair never leaves the other pointing at it.
\<close>

section \<open>New BIOs\<close>

lemma linked_new:
  assumes "bio_inv h" "x = bio_brk h + 1" "\<And>p. bio_ptr b = Ptr_pair p \<Longrightarrow> pb_peer p = None"
  shows "linked (h\<lparr>bio_at := (bio_at h)(x \<mapsto> b), bio_brk := x\<rparr>) y z = linked h y z"
proof -
  have "bio_at h x = None"
  proof (rule ccontr)
    assume "bio_at h x \<noteq> None"
    then obtain c where "bio_at h x = Some c" by blast
    then show False using bio_inv_ok [OF assms(1)] assms(2) by fastforce
  qed
  then show ?thesis using assms(3) by (auto simp: linked_def pair_at_iff)
qed

lemma bio_inv_new:
  assumes "bio_inv h" "x = bio_brk h + 1" "\<And>p. bio_ptr b = Ptr_pair p \<Longrightarrow> pb_peer p = None" "bio_ok h x b"
  shows "bio_inv (h\<lparr>bio_at := (bio_at h)(x \<mapsto> b), bio_brk := x\<rparr>)"
proof -
  note l = linked_new [OF assms(1-3)]
  have "0 < y \<and> y \<le> x \<and> bio_ok h y c" if "bio_at h y = Some c" for y c
    using bio_inv_ok [OF assms(1) that] assms(2) by auto
  moreover have "bio_ok (h\<lparr>bio_at := (bio_at h)(x \<mapsto> b), bio_brk := x\<rparr>) y c = bio_ok h y c" for y c by (rule bio_ok_cong [OF l])
  moreover have "0 < x" using assms(2) by simp
  ultimately show ?thesis using assms(4) unfolding bio_inv_def by auto
qed

lemma BIO_new_cases:
  assumes "bio_inv h" "BIO_new libc h meth = (x, h')"
  shows "bio_inv h' \<and>
    (x = 0 \<and> h' = h \<or>
     x = bio_brk h + 1 \<and> bio_brk h' = x \<and>
     (\<exists>b. bio_at h' = (bio_at h)(x \<mapsto> b) \<and> bio_method b = meth \<and> bio_flags b = 0 \<and>
        (meth = methods_biop \<longrightarrow> (\<exists>p. bio_ptr b = Ptr_pair p \<and> pb_peer p = None \<and> pb_buf p = None \<and> pb_request p = 0 \<and> pb_size p = 17408))))"
proof -
  define r where "r = \<lparr>bio_method = meth, bio_init = False, bio_shutdown = 1, bio_flags = 0, bio_retry_reason = 0,
    bio_num = 0, bio_ptr = Ptr_null, bio_num_read = 0, bio_num_write = 0\<rparr>"
  define c where "c = (case meth of methods_biop \<Rightarrow> bio_new libc r | mem_method \<Rightarrow> mem_new libc r)"
  have e: "BIO_new libc h meth = (if \<not> OPENSSL_malloc libc 64 then (0, h)
      else case c of None \<Rightarrow> (0, h) | Some b \<Rightarrow> (bio_brk h + 1, h\<lparr>bio_at := (bio_at h)(bio_brk h + 1 \<mapsto> b), bio_brk := bio_brk h + 1\<rparr>))"
    unfolding BIO_new_def Let_def c_def r_def by (rule refl)
  show ?thesis
  proof (cases "\<not> OPENSSL_malloc libc 64 \<or> c = None")
    case True
    then show ?thesis using assms e by (auto split: if_splits)
  next
    case False
    then obtain b where b: "c = Some b" by blast
    have xh: "x = bio_brk h + 1" "h' = h\<lparr>bio_at := (bio_at h)(x \<mapsto> b), bio_brk := x\<rparr>"
      using assms(2) e False b by auto
    have "bio_ok h x b \<and> bio_method b = meth \<and> bio_flags b = 0 \<and> (\<forall>p. bio_ptr b = Ptr_pair p \<longrightarrow> pb_peer p = None) \<and>
        (meth = methods_biop \<longrightarrow> (\<exists>p. bio_ptr b = Ptr_pair p \<and> pb_peer p = None \<and> pb_buf p = None \<and> pb_request p = 0 \<and> pb_size p = 17408))"
    proof (cases meth)
      case methods_biop
      then show ?thesis using b by (auto simp: c_def r_def bio_new_def bio_ok_def pair_ok_def split: if_splits)
    next
      case mem_method
      then show ?thesis using b
        by (auto simp: c_def r_def mem_new_def BUF_MEM_new_def bio_ok_def mem_ok_def split: if_splits option.splits)
    qed
    then show ?thesis using bio_inv_new [OF assms(1) xh(1), of b] xh by auto
  qed
qed

lemma BIO_new_mem_buf_inv:
  assumes "bio_inv h" "\<And>bs. buf = Some bs \<Longrightarrow> length bs \<le> C_INT_MAX" "BIO_new_mem_buf libc h buf = (x, h')"
  shows "bio_inv h' \<and> (x \<noteq> 0 \<longrightarrow> (\<exists>m b. mem_at h' x = Some m \<and> bio_at h' x = Some b \<and> bio_num b = 0 \<and>
    mem_contents m = (case buf of None \<Rightarrow> [] | Some bs \<Rightarrow> bs)))"
proof -
  obtain y h1 where n: "BIO_new libc h mem_method = (y, h1)" by (rule prod.exhaust)
  define sz where "sz = (case buf of None \<Rightarrow> 0 | Some bs \<Rightarrow> length bs)"
  define m where "m = \<lparr>bm_length = sz, bm_block = buf, bm_pos = 0, bm_max = sz\<rparr>"
  have e: "BIO_new_mem_buf libc h buf = (if y = 0 then (0, h1)
      else (y, bio_upd (mem_put h1 y m) y (\<lambda>b. b\<lparr>bio_flags := bio_flags b OR BIO_FLAGS_MEM_RDONLY, bio_num := 0\<rparr>)))"
    by (simp add: BIO_new_mem_buf_def n m_def sz_def Let_def)
  note c = BIO_new_cases [OF assms(1) n]
  show ?thesis
  proof (cases "y = 0")
    case True
    then show ?thesis using e c assms(1,3) by auto
  next
    case False
    then obtain b where b: "bio_at h1 y = Some b" "bio_method b = mem_method" "bio_flags b = 0" "bio_inv h1" using c by auto
    obtain m0 where m0: "bio_ptr b = Ptr_mem m0" "bio_init b" "0 < y" "y \<le> bio_brk h1" using bio_inv_ok [OF b(4,1)] b(2) by (auto simp: bio_ok_def)
    let ?b = "b\<lparr>bio_ptr := Ptr_mem m, bio_flags := bio_flags b OR BIO_FLAGS_MEM_RDONLY, bio_num := 0\<rparr>"
    have h': "h' = bio_upd h1 y (\<lambda>_. ?b)" "x = y"
      using e assms(3) False b(1) by (auto simp: mem_put_def bio_upd_def)
    have p: "pair_at h' z = pair_at h1 z" for z using b(1) m0(1) by (simp add: pair_at_def h')
    have l: "linked h' u v = linked h1 u v" for u v by (simp add: linked_def p)
    have "BIO_test_flags ?b BIO_FLAGS_MEM_RDONLY" using b(3) by (simp add: BIO_test_flags_def BIO_FLAGS_MEM_RDONLY_def)
    moreover have "mem_ok True m" using assms(2) by (cases buf) (auto simp: mem_ok_def m_def sz_def)
    ultimately have "bio_ok h1 y ?b" using b(2) m0(2) by (simp add: bio_ok_def)
    then have "bio_inv h'" using b(4) m0(3,4) unfolding bio_inv_def bio_ok_cong [OF l] by (auto simp: h'(1))
    moreover have "mem_contents m = (case buf of None \<Rightarrow> [] | Some bs \<Rightarrow> bs)"
      by (simp add: mem_contents_def bm_data_def m_def sz_def split: option.splits)
    ultimately show ?thesis using b(1) by (simp add: h' mem_at_iff)
  qed
qed

section \<open>Connecting and disconnecting\<close>

text \<open>Two ends replaced at once.\<close>

lemma bio_inv_two:
  assumes inv: "bio_inv h" and p: "pair_at h x = Some p" "pair_at h y = Some q" "x \<noteq> y"
    and un: "pb_peer p = None \<and> pb_peer q = None \<or> pb_peer p = Some y \<and> pb_peer q = Some x"
    and un': "pb_peer p' = None \<and> pb_peer q' = None \<or> pb_peer p' = Some y \<and> pb_peer q' = Some x"
    and b: "bio_ptr b = Ptr_pair p'" "bio_method b = methods_biop" "bio_init b \<longleftrightarrow> pb_peer p' \<noteq> None"
    and c: "bio_ptr c = Ptr_pair q'" "bio_method c = methods_biop" "bio_init c \<longleftrightarrow> pb_peer q' \<noteq> None"
    and r: "ring_ok p'" "pb_request p' = 0 \<or> pb_len p' = 0 \<and> pb_request p' \<le> pb_size p'"
      "ring_ok q'" "pb_request q' = 0 \<or> pb_len q' = 0 \<and> pb_request q' \<le> pb_size q'"
  shows "bio_inv (h\<lparr>bio_at := (bio_at h)(x \<mapsto> b, y \<mapsto> c)\<rparr>)" (is "bio_inv ?h")
proof -
  have xy: "0 < x \<and> x \<le> bio_brk h" "0 < y \<and> y \<le> bio_brk h" using bio_inv_peer [OF inv p(1)] bio_inv_peer [OF inv p(2)] bio_inv_ok [OF inv] by blast+
  have pa: "pair_at ?h z = (if z = y then Some q' else if z = x then Some p' else pair_at h z)" for z
    using b(1) c(1) by (simp add: pair_at_def)
  have lx: "linked ?h x y \<longleftrightarrow> pb_peer p' = Some y" "linked ?h y x \<longleftrightarrow> pb_peer q' = Some x" using p(3) by (simp_all add: linked_def pa)
  have "pair_ok ?h x (bio_init b) p'"
    using b(3) r(1,2) un' lx p(3) by (auto simp: pair_ok_def elim!: ring_okE)
  moreover have "pair_ok ?h y (bio_init c) q'"
    using c(3) r(3,4) un' lx p(3) by (auto simp: pair_ok_def elim!: ring_okE)
  moreover have "bio_ok ?h z d" if z: "bio_at h z = Some d" "z \<noteq> x" "z \<noteq> y" for z d
  proof -
    have "bio_ok h z d" using bio_inv_ok [OF inv z(1)] by blast
    moreover have "linked ?h w z" if "linked h w z" for w
    proof -
      have "w \<noteq> x" "w \<noteq> y" using that z un p by (auto simp: linked_def)
      then show ?thesis using that by (simp add: linked_def pa)
    qed
    ultimately show ?thesis by (auto simp: bio_ok_def pair_ok_def split: bio_method.splits)
  qed
  ultimately show ?thesis using xy b(1,2) c(1,2) bio_inv_ok [OF inv] unfolding bio_inv_def by (auto simp: bio_ok_def)
qed

lemma bio_destroy_pair_ok:
  assumes inv: "bio_inv h" and p: "pair_at h x = Some p" "pb_peer p = Some y"
  shows "\<exists>h' p'. bio_destroy_pair h x = Some h' \<and> bio_inv h' \<and> pair_at h' x = Some p' \<and> pb_peer p' = None \<and>
    (\<forall>z. bio_at h' z = None \<longleftrightarrow> bio_at h z = None) \<and> bio_brk h' = bio_brk h"
proof -
  obtain q where q: "pair_at h y = Some q" "pb_peer q = Some x" "y \<noteq> x" "ring_ok p" "ring_ok q" using pair_link [OF inv p] by blast
  obtain b where b: "bio_at h x = Some b" "bio_method b = methods_biop" "bio_ptr b = Ptr_pair p" "pair_ok h x (bio_init b) p"
    using bio_inv_peer [OF inv p(1)] by blast
  obtain c where c: "bio_at h y = Some c" "bio_method c = methods_biop" "bio_ptr c = Ptr_pair q" "pair_ok h y (bio_init c) q"
    using bio_inv_peer [OF inv q(1)] by blast
  let ?p = "p\<lparr>pb_peer := None, pb_len := 0, pb_offset := 0\<rparr>" and ?q = "q\<lparr>pb_peer := None, pb_len := 0, pb_offset := 0\<rparr>"
  let ?b = "b\<lparr>bio_init := False, bio_ptr := Ptr_pair ?p\<rparr>" and ?c = "c\<lparr>bio_init := False, bio_ptr := Ptr_pair ?q\<rparr>"
  let ?h = "h\<lparr>bio_at := (bio_at h)(x \<mapsto> ?b, y \<mapsto> ?c)\<rparr>"
  have bf: "pb_buf p \<noteq> None" "pb_buf q \<noteq> None" using q(4,5) by (auto elim: ring_okE)
  have uy: "bio_unpair h y = Some (h\<lparr>bio_at := (bio_at h)(y \<mapsto> ?c)\<rparr>)"
    using q(1) bf(2) c(1) by (simp add: bio_unpair_def c_assert_def pair_put_def bio_upd_def)
  have "pair_at (h\<lparr>bio_at := (bio_at h)(y \<mapsto> ?c)\<rparr>) x = Some p" using p(1) q(3) by (simp add: pair_at_def)
  then have "bio_unpair (h\<lparr>bio_at := (bio_at h)(y \<mapsto> ?c)\<rparr>) x = Some ?h"
    using bf(1) b(1) q(3) by (simp add: bio_unpair_def c_assert_def pair_put_def bio_upd_def fun_upd_twist)
  then have d: "bio_destroy_pair h x = Some ?h"
    using p q uy by (simp add: bio_destroy_pair_def c_assert_def)
  have r: "ring_ok ?p" "ring_ok ?q" using q(4,5) by (auto simp: ring_ok_def split: option.splits)
  have "bio_inv ?h"
    using bio_inv_two [OF inv p(1) q(1), of ?p ?q ?b ?c] p(2) q(2,3) b(2,4) c(2,4) r by (simp add: pair_ok_def)
  moreover have "pair_at ?h x = Some ?p" using q(3) by (simp add: pair_at_def)
  ultimately show ?thesis using d b(1) c(1) by auto
qed

lemma bio_inv_delete:
  assumes inv: "bio_inv h" and un: "\<And>p. pair_at h x = Some p \<Longrightarrow> pb_peer p = None"
  shows "bio_inv (h\<lparr>bio_at := (bio_at h)(x := None)\<rparr>)" (is "bio_inv ?h")
proof -
  have "linked ?h w z = linked h w z" for w z
  proof (cases "w = x")
    case True
    have "\<not> linked h x z" using un by (auto simp: linked_def)
    then show ?thesis using True by (simp add: linked_def pair_at_def)
  qed (simp add: linked_def pair_at_def)
  then have "bio_ok ?h z b = bio_ok h z b" for z b by (rule bio_ok_cong)
  then show ?thesis using inv by (auto simp: bio_inv_def)
qed

lemma BIO_free_ok:
  assumes inv: "bio_inv h" and x: "x = 0 \<or> bio_at h x \<noteq> None"
  shows "\<exists>h'. BIO_free h x = Some (True, h') \<and> bio_inv h'"
proof (cases "x = 0")
  case False
  then obtain b where b: "bio_at h x = Some b" using x by blast
  show ?thesis
  proof (cases "bio_method b")
    case methods_biop
    then obtain p where p: "pair_at h x = Some p" using pipes_biop [OF inv b] by blast
    show ?thesis
    proof (cases "pb_peer p")
      case None
      then show ?thesis using False b methods_biop p bio_inv_delete [OF inv, of x] by (simp add: BIO_free_def bio_free_def)
    next
      case (Some y)
      then obtain h' p' where d: "bio_destroy_pair h x = Some h'" "bio_inv h'" "pair_at h' x = Some p'" "pb_peer p' = None"
        using bio_destroy_pair_ok [OF inv p] by blast
      then show ?thesis using False b methods_biop p Some bio_inv_delete [OF d(2), of x] by (simp add: BIO_free_def bio_free_def)
    qed
  next
    case mem_method
    then have "pair_at h x = None" using bio_inv_ok [OF inv b] b by (auto simp: bio_ok_def pair_at_def)
    then show ?thesis using False b mem_method bio_inv_delete [OF inv, of x] by (simp add: BIO_free_def bio_upd_def)
  qed
qed (use inv in \<open>simp add: BIO_free_def\<close>)

lemma BIO_free_others:
  assumes inv: "bio_inv h" and x: "x = 0 \<or> bio_at h x \<noteq> None" and f: "BIO_free h x = Some (r, h')"
  shows "y \<noteq> x \<Longrightarrow> bio_at h' y = None \<longleftrightarrow> bio_at h y = None"
proof (cases "x = 0")
  case False
  then obtain b where b: "bio_at h x = Some b" using x by blast
  show "y \<noteq> x \<Longrightarrow> bio_at h' y = None \<longleftrightarrow> bio_at h y = None"
  proof (cases "bio_method b")
    case methods_biop
    then obtain p where p: "pair_at h x = Some p" using pipes_biop [OF inv b] by blast
    show "y \<noteq> x \<Longrightarrow> bio_at h' y = None \<longleftrightarrow> bio_at h y = None"
    proof (cases "pb_peer p")
      case None
      then show "y \<noteq> x \<Longrightarrow> bio_at h' y = None \<longleftrightarrow> bio_at h y = None"
        using f False b methods_biop p by (auto simp: BIO_free_def bio_free_def)
    next
      case (Some z)
      then obtain h1 where "bio_destroy_pair h x = Some h1" "\<forall>z. bio_at h1 z = None \<longleftrightarrow> bio_at h z = None"
        using bio_destroy_pair_ok [OF inv p] by blast
      then show "y \<noteq> x \<Longrightarrow> bio_at h' y = None \<longleftrightarrow> bio_at h y = None"
        using f False b methods_biop p Some by (auto simp: BIO_free_def bio_free_def)
    qed
  next
    case mem_method
    then show "y \<noteq> x \<Longrightarrow> bio_at h' y = None \<longleftrightarrow> bio_at h y = None" using f False b by (auto simp: BIO_free_def)
  qed
qed (use f in \<open>auto simp: BIO_free_def\<close>)

text \<open>The sizes of blocks that \<open>malloc\<close> can give, which C limits to \<open>PTRDIFF_MAX\<close>.\<close>

definition libc_bounded :: "(nat \<Rightarrow> bool) \<Rightarrow> bool" where
  "libc_bounded libc \<longleftrightarrow> (\<forall>n. libc n \<longrightarrow> n < 2 ^ 63)"

lemma pair_alloc_ok:
  assumes "libc_bounded libc" "pair_alloc libc p w = (ok, p')" "pb_buf p = None" "pb_len p = 0" "0 < pb_size p"
  shows "pb_peer p' = pb_peer p \<and> pb_request p' = pb_request p \<and> pb_closed p' = pb_closed p \<and> pb_len p' = 0 \<and>
    (if ok then ring_ok p' \<and> ring_contents p' = [] \<and> pb_size p' = (if w \<noteq> 0 then w else pb_size p) else pb_buf p' = None)"
proof -
  have m: "n < 2 ^ 63" if "OPENSSL_malloc libc n" for n
    using that assms(1) by (auto simp: OPENSSL_malloc_def libc_bounded_def split: if_splits)
  show ?thesis using assms(2-5) m
    by (auto simp: pair_alloc_def Let_def ring_ok_def ring_contents_def split: if_splits)
qed

lemma bio_make_pair_ok:
  assumes inv: "bio_inv h" and libc: "libc_bounded libc" and xy: "x \<noteq> y"
    and p: "pair_at h x = Some p" "pb_peer p = None" "pb_buf p = None" "pb_request p = 0" "0 < pb_size p"
    and q: "pair_at h y = Some q" "pb_peer q = None" "pb_buf q = None" "pb_request q = 0" "0 < pb_size q"
  shows "\<exists>ok h'. bio_make_pair libc h x y w1 w2 = Some (ok, h') \<and> bio_inv h' \<and>
    bio_at h' x \<noteq> None \<and> bio_at h' y \<noteq> None \<and>
    (ok \<longrightarrow> pipes h' x = Some \<lparr>pe_peer = Some y, pe_closed = False, pe_size = (if w1 \<noteq> 0 then w1 else pb_size p), pe_data = []\<rparr> \<and>
      pipes h' y = Some \<lparr>pe_peer = Some x, pe_closed = False, pe_size = (if w2 \<noteq> 0 then w2 else pb_size q), pe_data = []\<rparr>)"
proof -
  obtain b where b: "bio_at h x = Some b" "bio_method b = methods_biop" "pair_ok h x (bio_init b) p"
    using bio_inv_peer [OF inv p(1)] by blast
  obtain c where c: "bio_at h y = Some c" "bio_method c = methods_biop" "pair_ok h y (bio_init c) q"
    using bio_inv_peer [OF inv q(1)] by blast
  have len: "pb_len p = 0" "pb_len q = 0" using b(3) c(3) p(3) q(3) by (simp_all add: pair_ok_def)
  obtain ok1 p1 where a1: "pair_alloc libc p w1 = (ok1, p1)" by (rule prod.exhaust)
  obtain ok2 q1 where a2: "pair_alloc libc q w2 = (ok2, q1)" by (rule prod.exhaust)
  note P = pair_alloc_ok [OF libc a1 p(3) len(1) p(5)] and Q = pair_alloc_ok [OF libc a2 q(3) len(2) q(5)]
  define h1 where "h1 = pair_put h x p1"
  define h2 where "h2 = pair_put h1 y q1"
  have "pair_ok h x (bio_init b) p1" if "bio_at h x = Some b" for b
    using b(1,3) that P p(2,4) by (cases ok1) (auto simp: pair_ok_def elim: ring_okE)
  then have h1: "bio_inv h1" "pair_at h1 x = Some p1" "pair_at h1 y = Some q"
    unfolding h1_def using bio_inv_pair_put_ok [OF inv p(1), of p1] P pair_at_put_same [OF p(1)] q(1) xy by auto
  have c1: "bio_at h1 y = Some c" using c(1) xy by (simp add: h1_def bio_at_pair_put)
  have "pair_ok h1 y (bio_init c') q1" if "bio_at h1 y = Some c'" for c'
    using c(3) that c1 Q q(2,4) by (cases ok2) (auto simp: pair_ok_def elim: ring_okE)
  then have h2: "bio_inv h2" "pair_at h2 y = Some q1" "pair_at h2 x = Some p1"
    unfolding h2_def using bio_inv_pair_put_ok [OF h1(1,3), of q1] Q pair_at_put_same [OF h1(3)] h1(2) xy by auto
  have b2: "bio_at h2 x = Some (b\<lparr>bio_ptr := Ptr_pair p1\<rparr>)" "bio_at h2 y = Some (c\<lparr>bio_ptr := Ptr_pair q1\<rparr>)"
    "bio_at h1 x = Some (b\<lparr>bio_ptr := Ptr_pair p1\<rparr>)"
    using b(1) c(1) xy by (simp_all add: h1_def h2_def bio_at_pair_put)
  let ?p = "p1\<lparr>pb_peer := Some y, pb_closed := False, pb_request := 0\<rparr>"
  let ?q = "q1\<lparr>pb_peer := Some x, pb_closed := False, pb_request := 0\<rparr>"
  let ?b = "b\<lparr>bio_init := True, bio_ptr := Ptr_pair ?p\<rparr>" and ?c = "c\<lparr>bio_init := True, bio_ptr := Ptr_pair ?q\<rparr>"
  let ?h = "h2\<lparr>bio_at := (bio_at h2)(x \<mapsto> ?b, y \<mapsto> ?c)\<rparr>"
  have m: "bio_make_pair libc h x y w1 w2 = (if \<not> ok1 then Some (False, h1) else if \<not> ok2 then Some (False, h2) else Some (True, ?h))"
  proof -
    have pa: "pair_at (pair_put h2 x ?p) y = Some q1" using h2(2) xy by simp
    have e: "bio_upd (bio_upd (pair_put (pair_put h2 x ?p) y ?q) x (\<lambda>b. b\<lparr>bio_init := True\<rparr>)) y (\<lambda>b. b\<lparr>bio_init := True\<rparr>) = ?h"
      using b2 xy by (simp add: pair_put_def bio_upd_def fun_eq_iff)
    show ?thesis using p q h1(3) h2(3) pa a1 a2
      by (simp add: bio_make_pair_def e flip: h1_def h2_def)
  qed
  show ?thesis
  proof (cases "ok1 \<and> ok2")
    case False
    then show ?thesis using m h1 h2 b2 c1 by auto
  next
    case True
    then have r: "ring_ok p1" "ring_ok q1" "ring_contents p1 = []" "ring_contents q1 = []"
      "pb_size p1 = (if w1 \<noteq> 0 then w1 else pb_size p)" "pb_size q1 = (if w2 \<noteq> 0 then w2 else pb_size q)"
      using P Q by simp_all
    have rr: "ring_ok ?p" "ring_ok ?q" "ring_contents ?p = []" "ring_contents ?q = []"
      using r(1-4) by (simp_all add: ring_ok_def ring_contents_def cong: option.case_cong)
    have "bio_inv ?h"
      using bio_inv_two [OF h2(1,3,2) xy, of ?p ?q ?b ?c] P Q p(2) q(2) b(2) c(2) rr by simp
    moreover have "pair_at ?h x = Some ?p" "pair_at ?h y = Some ?q" using xy by (simp_all add: pair_at_def)
    ultimately show ?thesis using m True rr r(5,6) by (auto simp: pipes_def end_of_def)
  qed
qed

lemma BIO_new_bio_pair_ok:
  assumes inv: "bio_inv h" and libc: "libc_bounded libc"
  shows "\<exists>ok x y h'. BIO_new_bio_pair libc h w1 w2 = Some (ok, x, y, h') \<and> bio_inv h' \<and>
    (ok \<longrightarrow> x \<noteq> y \<and>
      pipes h' x = Some \<lparr>pe_peer = Some y, pe_closed = False, pe_size = (if w1 \<noteq> 0 then w1 else 17408), pe_data = []\<rparr> \<and>
      pipes h' y = Some \<lparr>pe_peer = Some x, pe_closed = False, pe_size = (if w2 \<noteq> 0 then w2 else 17408), pe_data = []\<rparr>)"
proof -
  obtain x h1 where n1: "BIO_new libc h methods_biop = (x, h1)" by (rule prod.exhaust)
  obtain y h2 where n2: "BIO_new libc h1 methods_biop = (y, h2)" by (rule prod.exhaust)
  note c1 = BIO_new_cases [OF inv n1]
  then have i1: "bio_inv h1" by blast
  note c2 = BIO_new_cases [OF i1 n2]
  then have i2: "bio_inv h2" by blast
  have cleanup: "\<exists>h4 h5. BIO_free h3 x = Some (True, h4) \<and> BIO_free h4 y = Some (True, h5) \<and> bio_inv h5"
    if i3: "bio_inv h3" and x: "x = 0 \<or> bio_at h3 x \<noteq> None" and y: "y = 0 \<or> bio_at h3 y \<noteq> None" and xy: "x \<noteq> y \<or> x = 0" for h3
  proof -
    obtain h4 where h4: "BIO_free h3 x = Some (True, h4)" "bio_inv h4" using BIO_free_ok [OF i3 x] by blast
    have "bio_at h4 y \<noteq> None" if "bio_at h3 y \<noteq> None" "x \<noteq> y" using BIO_free_others [OF i3 x h4(1), of y] that by auto
    then have "y = 0 \<or> bio_at h4 y \<noteq> None" using y xy h4(1) x by (cases "x = 0") (auto simp: BIO_free_def)
    then show ?thesis using h4 BIO_free_ok by blast
  qed
  show ?thesis
  proof (cases "x = 0 \<or> y = 0")
    case True
    have a: "x = 0 \<or> bio_at h2 x \<noteq> None" "y = 0 \<or> bio_at h2 y \<noteq> None" "x \<noteq> y \<or> x = 0" using c1 c2 True by auto
    obtain h4 h5 where "BIO_free h2 x = Some (True, h4)" "BIO_free h4 y = Some (True, h5)" "bio_inv h5" using cleanup [OF i2 a] by blast
    then have "BIO_new_bio_pair libc h w1 w2 = Some (False, 0, 0, h5)" using True by (simp add: BIO_new_bio_pair_def n1 n2)
    then show ?thesis using \<open>bio_inv h5\<close> by (intro exI [of _ False] exI [of _ 0] exI [of _ h5]) simp
  next
    case False
    obtain b where b: "bio_at h1 = (bio_at h)(x \<mapsto> b)" "x = bio_brk h + 1" "bio_brk h1 = x"
      and p: "\<exists>p. bio_ptr b = Ptr_pair p \<and> pb_peer p = None \<and> pb_buf p = None \<and> pb_request p = 0 \<and> pb_size p = 17408"
      using c1 False by auto
    obtain c where c: "bio_at h2 = (bio_at h1)(y \<mapsto> c)" "y = bio_brk h1 + 1"
      and q: "\<exists>p. bio_ptr c = Ptr_pair p \<and> pb_peer p = None \<and> pb_buf p = None \<and> pb_request p = 0 \<and> pb_size p = 17408"
      using c2 False by auto
    have xy: "x \<noteq> y" using b c by simp
    obtain p where p: "pair_at h2 x = Some p" "pb_peer p = None" "pb_buf p = None" "pb_request p = 0" "pb_size p = 17408"
      using p b c xy by (auto simp: pair_at_def)
    obtain q where q: "pair_at h2 y = Some q" "pb_peer q = None" "pb_buf q = None" "pb_request q = 0" "pb_size q = 17408"
      using q c by (auto simp: pair_at_def)
    obtain ok h3 where m: "bio_make_pair libc h2 x y w1 w2 = Some (ok, h3)" "bio_inv h3" "bio_at h3 x \<noteq> None" "bio_at h3 y \<noteq> None"
      "ok \<longrightarrow> pipes h3 x = Some \<lparr>pe_peer = Some y, pe_closed = False, pe_size = (if w1 \<noteq> 0 then w1 else pb_size p), pe_data = []\<rparr> \<and>
        pipes h3 y = Some \<lparr>pe_peer = Some x, pe_closed = False, pe_size = (if w2 \<noteq> 0 then w2 else pb_size q), pe_data = []\<rparr>"
      using bio_make_pair_ok [OF i2 libc xy p(1-4) _ q(1-4), of w1 w2] p(5) q(5) by auto
    show ?thesis
    proof (cases ok)
      case True
      then have "BIO_new_bio_pair libc h w1 w2 = Some (True, x, y, h3)" using False m(1) by (simp add: BIO_new_bio_pair_def n1 n2)
      then show ?thesis using True m xy p(5) q(5) by (intro exI [of _ True] exI [of _ x] exI [of _ y] exI [of _ h3]) simp
    next
      case not_ok: False
      obtain h4 h5 where "BIO_free h3 x = Some (True, h4)" "BIO_free h4 y = Some (True, h5)" "bio_inv h5"
        using cleanup [OF m(2)] m(3,4) xy by blast
      then have "BIO_new_bio_pair libc h w1 w2 = Some (False, 0, 0, h5)" using False m(1) not_ok by (simp add: BIO_new_bio_pair_def n1 n2)
      then show ?thesis using \<open>bio_inv h5\<close> by (intro exI [of _ False] exI [of _ 0] exI [of _ h5]) simp
    qed
  qed
qed

section \<open>Control and lines\<close>

lemmas bio_cmds =
  BIO_CTRL_RESET_def BIO_CTRL_EOF_def BIO_CTRL_INFO_def BIO_CTRL_GET_CLOSE_def BIO_CTRL_SET_CLOSE_def BIO_CTRL_PENDING_def
  BIO_CTRL_FLUSH_def BIO_CTRL_WPENDING_def BIO_C_SET_BUF_MEM_def BIO_C_GET_BUF_MEM_PTR_def BIO_C_SET_BUF_MEM_EOF_RETURN_def
  BIO_C_GET_WRITE_BUF_SIZE_def BIO_C_GET_WRITE_GUARANTEE_def BIO_C_GET_READ_REQUEST_def BIO_C_SHUTDOWN_WR_def
  BIO_C_RESET_READ_REQUEST_def

text \<open>The argument of a command that the methods can take: for \<open>BIO_CTRL_EOF\<close> of a pair \<open>NULL\<close> or an end of a pair, for
  \<open>BIO_C_SET_BUF_MEM\<close> a \<open>BUF_MEM\<close> that is well-formed, and for the commands that store a pointer the place for it.\<close>

definition bio_arg_ok :: "bio_heap \<Rightarrow> bio \<Rightarrow> nat \<Rightarrow> bio_arg \<Rightarrow> bool" where
  "bio_arg_ok h b cmd ptr \<longleftrightarrow>
     (case bio_method b of
        methods_biop \<Rightarrow>
          cmd = BIO_CTRL_EOF \<longrightarrow> (case ptr of Arg_null \<Rightarrow> True | Arg_bio y \<Rightarrow> pair_at h y \<noteq> None | _ \<Rightarrow> False)
      | mem_method \<Rightarrow>
          (cmd = BIO_C_SET_BUF_MEM \<longrightarrow> (case ptr of Arg_buf m \<Rightarrow> mem_ok (BIO_test_flags b BIO_FLAGS_MEM_RDONLY) m | _ \<Rightarrow> False)) \<and>
          (cmd \<in> {BIO_CTRL_INFO, BIO_C_GET_BUF_MEM_PTR} \<longrightarrow> ptr \<in> {Arg_null, Arg_out}))"

lemma bio_ctrl_ok:
  assumes inv: "bio_inv h" and p: "pair_at h x = Some p" and b: "bio_at h x = Some b" and ptr: "bio_arg_ok h b cmd ptr"
  shows "\<exists>r h'. bio_ctrl h x cmd num ptr = Some (r, h') \<and> bio_inv h'"
proof -
  have b': "bio_method b = methods_biop" "pair_ok h x (bio_init b) p" using bio_inv_peer [OF inv p] b by auto
  have i1: "bio_inv (pair_put h x (p\<lparr>pb_request := 0\<rparr>))"
    by (rule bio_inv_pair_put_ok [OF inv p]) (use b b' in \<open>auto simp: pair_ok_def\<close>)
  have i2: "bio_inv (pair_put h x (p\<lparr>pb_closed := True\<rparr>))"
    by (rule bio_inv_pair_put_ok [OF inv p])
      (use b b' in \<open>auto simp: pair_ok_def ring_ok_def cong: option.case_cong\<close>)
  have i3: "bio_inv (bio_upd h x (\<lambda>b. b\<lparr>bio_shutdown := signed_take_bit 31 num\<rparr>))" by (intro bio_inv_upd inv bio_frame_intros)
  have y: "pair_at h y \<noteq> None" if "pb_peer p = Some y" for y using pair_link [OF inv p that] by blast
  have eof: "\<exists>r. (case ptr of Arg_null \<Rightarrow> Some (1, h)
      | Arg_bio y \<Rightarrow> do { q \<leftarrow> pair_at h y; Some (if pb_len q = 0 \<and> pb_closed q then 1 else 0, h) } | _ \<Rightarrow> None) = Some (r :: int, h)"
    if "cmd = BIO_CTRL_EOF"
    using ptr that b'(1) by (auto simp: bio_arg_ok_def split: bio_arg.splits)
  show ?thesis
  proof (cases "cmd = BIO_CTRL_EOF")
    case True
    then have "bio_ctrl h x cmd num ptr = (case ptr of Arg_null \<Rightarrow> Some (1, h)
      | Arg_bio y \<Rightarrow> do { q \<leftarrow> pair_at h y; Some (if pb_len q = 0 \<and> pb_closed q then 1 else 0, h) } | _ \<Rightarrow> None)"
      using p by (simp add: bio_ctrl_def bio_cmds)
    then show ?thesis using eof [OF True] inv by auto
  next
    case False
    then show ?thesis using inv p i1 i2 i3 b y by (auto simp: bio_ctrl_def split: option.splits)
  qed
qed

lemma gets_loop_ok: "i + k \<le> length p \<Longrightarrow> \<exists>j. gets_loop p i k = Some j \<and> j \<le> i + k \<and> (0 < k \<longrightarrow> i < j)"
proof (induction k arbitrary: i)
  case (Suc k)
  show ?case
  proof (cases "p ! i = 10")
    case False
    obtain j where "gets_loop p (i + 1) k = Some j" "j \<le> i + 1 + k" "0 < k \<longrightarrow> i + 1 < j"
      using Suc.IH [of "i + 1"] Suc.prems by auto
    then show ?thesis using False Suc.prems by (cases "k = 0") (auto simp: c_assert_def)
  qed (use Suc.prems in \<open>simp add: c_assert_def\<close>)
qed simp

lemma mem_gets_ok:
  assumes inv: "bio_inv h" and m: "mem_at h x = Some m" and n: "0 < n" "n \<le> int C_INT_MAX"
  shows "\<exists>r out h'. mem_gets h x n = Some (r, out, h') \<and> bio_inv h' \<and> int (length out) \<le> n"
proof -
  obtain b where b: "bio_at h x = Some b" "mem_ok (BIO_test_flags b BIO_FLAGS_MEM_RDONLY) m" using bio_inv_mem [OF inv m] by blast
  have len: "bm_length m \<le> C_INT_MAX" using b(2) by (rule mem_ok_length)
  then have s: "signed_take_bit 31 (int (bm_length m)) = int (bm_length m)"
    by (intro signed_take_bit_int_eq_self) (simp_all add: C_INT_MAX_def)
  define h1 where "h1 = bio_upd h x BIO_clear_retry_flags"
  have h1: "bio_inv h1" "mem_at h1 x = Some m" "bio_at h1 x = Some (BIO_clear_retry_flags b)"
    using inv m b bio_frame_intros(1) by (simp_all add: h1_def bio_inv_upd)
  define j where "j = (if n - 1 < int (bm_length m) then n - 1 else int (bm_length m))"
  show ?thesis
  proof (cases "j \<le> 0")
    case True
    then show ?thesis using m h1(1) n(1) by (simp add: mem_gets_def s j_def flip: h1_def cong: if_cong)
  next
    case False
    then have "bm_length m \<noteq> 0" by (auto simp: j_def split: if_splits)
    then obtain d where d: "bm_data m = Some d" "bm_length m \<le> length d" using b(2) by (auto simp: mem_ok_def bm_data_def split: option.splits)
    have jn: "nat j \<le> bm_length m" "j < n" using n(1) by (auto simp: j_def)
    then obtain k where k: "gets_loop d 0 (nat j) = Some k" "k \<le> nat j" "0 < k" using gets_loop_ok [of 0 "nat j" d] d(2) False by auto
    have kk: "0 < int k" "int k \<le> int C_INT_MAX" using k jn len by auto
    obtain h' out r where r: "mem_read h1 x (int k) = Some (r, out, h')" "bio_inv h'" "length out \<le> k"
      using mem_read_ok [OF h1 kk] by auto
    have "mem_gets h x n = Some (r, if r > 0 then out @ [0] else out, h')"
      using m False d k(1) r(1) by (simp add: mem_gets_def s j_def flip: h1_def cong: if_cong)
    moreover have "int (length (if r > 0 then out @ [0] else out)) \<le> n" using r(3) k(2) jn(2) False by auto
    ultimately show ?thesis using r(2) by blast
  qed
qed

lemma bio_inv_mem_ptr:
  assumes "bio_inv h" "bio_at h x = Some b" "bio_method b = mem_method" "mem_ok (BIO_test_flags b BIO_FLAGS_MEM_RDONLY) m"
  shows "bio_inv (bio_upd h x (\<lambda>b. (mem_free b)\<lparr>bio_shutdown := s, bio_ptr := Ptr_mem m\<rparr>))"
proof -
  obtain m0 where m0: "bio_ptr b = Ptr_mem m0" "bio_init b" using bio_inv_ok [OF assms(1,2)] assms(3) by (auto simp: bio_ok_def)
  then have "mem_at h x = Some m0" using assms(2) by (simp add: mem_at_iff)
  note put = bio_inv_mem_put(1) [OF assms(1) this assms(2,4)]
  have "bio_upd h x (\<lambda>b. (mem_free b)\<lparr>bio_shutdown := s, bio_ptr := Ptr_mem m\<rparr>) =
      bio_upd (mem_put h x m) x (\<lambda>b. b\<lparr>bio_shutdown := s\<rparr>)"
    using assms(2) by (simp add: bio_upd_def mem_put_def mem_free_def fun_eq_iff)
  then show ?thesis using bio_inv_upd [OF put bio_frame_intros(6), of x s] by simp
qed

lemma mem_ctrl_ok:
  assumes inv: "bio_inv h" and m: "mem_at h x = Some m" and b: "bio_at h x = Some b" and ptr: "bio_arg_ok h b cmd ptr"
  shows "\<exists>r h'. mem_ctrl h x cmd num ptr = Some (r, h') \<and> bio_inv h'"
proof -
  have b': "bio_method b = mem_method" "mem_ok (BIO_test_flags b BIO_FLAGS_MEM_RDONLY) m" using bio_inv_mem [OF inv m] b by auto
  let ?ro = "BIO_test_flags b BIO_FLAGS_MEM_RDONLY"
  consider "cmd = BIO_CTRL_RESET" | "cmd = BIO_C_SET_BUF_MEM" | "cmd \<in> {BIO_CTRL_INFO, BIO_C_GET_BUF_MEM_PTR}"
    | "cmd \<notin> {BIO_CTRL_RESET, BIO_C_SET_BUF_MEM, BIO_CTRL_INFO, BIO_C_GET_BUF_MEM_PTR}" by auto
  then show ?thesis
  proof cases
    case 1
    show ?thesis
    proof (cases "bm_block m")
      case None
      then show ?thesis using 1 inv m b by (simp add: mem_ctrl_def bio_cmds)
    next
      case (Some d)
      let ?m1 = "m\<lparr>bm_pos := bm_pos m - (bm_max m - bm_length m), bm_length := bm_max m\<rparr>"
      let ?m2 = "m\<lparr>bm_block := Some (mem_copy d 0 (replicate (bm_max m) 0)), bm_length := 0\<rparr>"
      have i1: "bio_inv (mem_put h x ?m1)" if ?ro
        by (rule bio_inv_mem_put [OF inv m b]) (use b'(2) that Some in \<open>auto simp: mem_ok_def\<close>)
      have i2: "bio_inv (mem_put h x ?m2)" if "\<not> ?ro"
        by (rule bio_inv_mem_put [OF inv m b]) (use b'(2) that Some in \<open>auto simp: mem_ok_def mem_copy_def\<close>)
      have a1: "bm_length m \<le> bm_max m" "bm_max m - bm_length m \<le> bm_pos m" if ?ro
        using that b'(2) Some unfolding mem_ok_def by simp_all linarith+
      have a2: "bm_store m 0 (replicate (bm_max m) 0) = Some (m\<lparr>bm_block := Some (mem_copy d 0 (replicate (bm_max m) 0))\<rparr>)" if "\<not> ?ro"
        using that b'(2) Some by (simp add: bm_store_same mem_ok_def)
      show ?thesis using 1 m b Some i1 i2 a1 a2 by (cases ?ro) (simp_all add: mem_ctrl_def bio_cmds c_assert_def)
    qed
  next
    case 2
    then obtain m' where m': "ptr = Arg_buf m'" "mem_ok ?ro m'" using ptr b'(1) by (auto simp: bio_arg_ok_def split: bio_arg.splits)
    then show ?thesis using 2 b bio_inv_mem_ptr [OF inv b b'(1) m'(2)] by (simp add: mem_ctrl_def bio_cmds)
  next
    case 3
    then have "ptr \<in> {Arg_null, Arg_out}" using ptr b'(1) by (auto simp: bio_arg_ok_def)
    then show ?thesis using 3 inv m b by (auto simp: mem_ctrl_def c_assert_def bio_cmds)
  next
    case 4
    have i3: "bio_inv (bio_upd h x (\<lambda>b. b\<lparr>bio_shutdown := signed_take_bit 31 num\<rparr>))"
      "bio_inv (bio_upd h x (\<lambda>b. b\<lparr>bio_num := signed_take_bit 31 num\<rparr>))" by (intro bio_inv_upd inv bio_frame_intros)+
    show ?thesis using 4 inv m b i3 by (auto simp: mem_ctrl_def)
  qed
qed

section \<open>Sequences of operations\<close>

datatype bio_op =
    Op_pair nat nat
  | Op_mem
  | Op_mem_buf "bytes option"
  | Op_read nat int
  | Op_gets nat int
  | Op_write nat bytes
  | Op_ctrl nat nat int bio_arg
  | Op_free nat

fun bio_do :: "(nat \<Rightarrow> bool) \<Rightarrow> bio_op \<Rightarrow> bio_heap \<Rightarrow> bio_heap option" where
  "bio_do libc (Op_pair w1 w2) h = map_option (\<lambda>(ok, x, y, h). h) (BIO_new_bio_pair libc h w1 w2)"
| "bio_do libc Op_mem h = Some (snd (BIO_new libc h mem_method))"
| "bio_do libc (Op_mem_buf buf) h = Some (snd (BIO_new_mem_buf libc h buf))"
| "bio_do libc (Op_read x n) h = map_option (\<lambda>(r, out, h). h) (BIO_read h x n)"
| "bio_do libc (Op_gets x n) h = map_option (\<lambda>(r, out, h). h) (BIO_gets h x n)"
| "bio_do libc (Op_write x bs) h = map_option (\<lambda>(r, h). h) (BIO_write libc h x bs)"
| "bio_do libc (Op_ctrl x cmd num ptr) h = map_option (\<lambda>(r, h). h) (BIO_ctrl h x cmd num ptr)"
| "bio_do libc (Op_free x) h = map_option (\<lambda>(r, h). h) (BIO_free h x)"

text \<open>What a caller must see to: a pointer is \<open>NULL\<close> or to a BIO that has not been freed, a length is an
  \<open>int\<close>, and the argument of a command is of the kind that the command takes.\<close>

definition bio_live :: "bio_heap \<Rightarrow> nat \<Rightarrow> bool" where
  "bio_live h x \<longleftrightarrow> x = 0 \<or> bio_at h x \<noteq> None"

fun bio_op_ok :: "bio_heap \<Rightarrow> bio_op \<Rightarrow> bool" where
  "bio_op_ok h (Op_pair w1 w2) = True"
| "bio_op_ok h Op_mem = True"
| "bio_op_ok h (Op_mem_buf buf) = (case buf of None \<Rightarrow> True | Some bs \<Rightarrow> length bs \<le> C_INT_MAX)"
| "bio_op_ok h (Op_read x n) = (bio_live h x \<and> n \<le> int C_INT_MAX)"
| "bio_op_ok h (Op_gets x n) = (bio_live h x \<and> n \<le> int C_INT_MAX)"
| "bio_op_ok h (Op_write x bs) = (bio_live h x \<and> length bs \<le> C_INT_MAX)"
| "bio_op_ok h (Op_ctrl x cmd num ptr) = (bio_live h x \<and> (case bio_at h x of None \<Rightarrow> True | Some b \<Rightarrow> bio_arg_ok h b cmd ptr))"
| "bio_op_ok h (Op_free x) = bio_live h x"

inductive bio_reach :: "(nat \<Rightarrow> bool) \<Rightarrow> bio_heap \<Rightarrow> bool" for libc where
  bio_reach_empty: "bio_reach libc \<lparr>bio_at = Map.empty, bio_brk = 0\<rparr>"
| bio_reach_step: "bio_reach libc h \<Longrightarrow> bio_op_ok h op \<Longrightarrow> bio_do libc op h = Some h' \<Longrightarrow> bio_reach libc h'"

lemma bio_kind:
  assumes "bio_inv h" "bio_live h x" "x \<noteq> 0"
  obtains (pair) b p where "bio_at h x = Some b" "bio_method b = methods_biop" "pair_at h x = Some p"
  | (mem) b m where "bio_at h x = Some b" "bio_method b = mem_method" "bio_init b" "mem_at h x = Some m"
proof -
  obtain b where b: "bio_at h x = Some b" using assms(2,3) by (auto simp: bio_live_def)
  have ok: "bio_ok h x b" using bio_inv_ok [OF assms(1) b] by blast
  show thesis
  proof (cases "bio_method b")
    case methods_biop
    then obtain p where "bio_ptr b = Ptr_pair p" using ok by (auto simp: bio_ok_def)
    then show thesis using pair [of b p] b methods_biop by (simp add: pair_at_iff)
  next
    case mem_method
    then obtain m where "bio_ptr b = Ptr_mem m" "bio_init b" using ok by (auto simp: bio_ok_def)
    then show thesis using mem [of b m] b mem_method by (simp add: mem_at_iff)
  qed
qed

lemma BIO_read_ok:
  assumes inv: "bio_inv h" and x: "bio_live h x" and n: "n \<le> int C_INT_MAX"
  shows "\<exists>r out h'. BIO_read h x n = Some (r, out, h') \<and> bio_inv h' \<and> length out \<le> nat n"
proof (cases "x = 0")
  case False
  show ?thesis
  proof (rule bio_kind [OF inv x False])
    fix b p assume b: "bio_at h x = Some b" "bio_method b = methods_biop"
    have "length (fst (snd (pipe_read (pipes h) x n))) \<le> nat n" by (auto simp: pipe_read_def Let_def split: option.splits)
    then show ?thesis using BIO_read_pair [OF inv b, of n] by metis
  next
    fix b m assume m: "bio_at h x = Some b" "bio_method b = mem_method" "bio_init b" "mem_at h x = Some m"
    show ?thesis
    proof (cases "n \<le> 0")
      case True
      then show ?thesis using m inv False by (simp add: BIO_read_def)
    next
      case pos: False
      then have p: "0 < n" by simp
      obtain h' out r where r: "mem_read h x n = Some (r, out, h')" "bio_inv h'" "length out \<le> nat n"
        using mem_read_ok [OF inv m(4,1) p n] by auto
      have "bio_inv (if r > 0 then bio_upd h' x (\<lambda>b. b\<lparr>bio_num_read := bio_num_read b + word_of_int r\<rparr>) else h')"
        using bio_inv_counted(1) [OF r(2) bio_frame_intros(4)] .
      then show ?thesis using m False pos r(1,3) by (simp add: BIO_read_def)
    qed
  qed
qed (use inv in \<open>simp add: BIO_read_def\<close>)

lemma BIO_gets_ok:
  assumes inv: "bio_inv h" and x: "bio_live h x" and n: "n \<le> int C_INT_MAX"
  shows "\<exists>r out h'. BIO_gets h x n = Some (r, out, h') \<and> bio_inv h' \<and> length out \<le> nat n"
proof (cases "x = 0")
  case False
  show ?thesis
  proof (rule bio_kind [OF inv x False])
    fix b p assume b: "bio_at h x = Some b" "bio_method b = methods_biop"
    then show ?thesis using inv False by (simp add: BIO_gets_def)
  next
    fix b m assume m: "bio_at h x = Some b" "bio_method b = mem_method" "bio_init b" "mem_at h x = Some m"
    show ?thesis
    proof (cases "n \<le> 0")
      case True
      then show ?thesis using m inv False by (simp add: BIO_gets_def)
    next
      case pos: False
      then obtain h' out r where r: "mem_gets h x n = Some (r, out, h')" "bio_inv h'" "int (length out) \<le> n"
        using mem_gets_ok [OF inv m(4) _ n] by auto
      have "bio_inv (if r > 0 then bio_upd h' x (\<lambda>b. b\<lparr>bio_num_read := bio_num_read b + word_of_int r\<rparr>) else h')"
        using bio_inv_counted(1) [OF r(2) bio_frame_intros(4)] .
      then show ?thesis using m False pos r(1,3) by (simp add: BIO_gets_def le_nat_iff)
    qed
  qed
qed (use inv in \<open>simp add: BIO_gets_def\<close>)

lemma BIO_write_ok:
  assumes inv: "bio_inv h" and x: "bio_live h x" and bs: "length bs \<le> C_INT_MAX"
  shows "\<exists>r h'. BIO_write libc h x bs = Some (r, h') \<and> bio_inv h'"
proof (cases "x = 0")
  case False
  show ?thesis
  proof (rule bio_kind [OF inv x False])
    fix b p assume b: "bio_at h x = Some b" "bio_method b = methods_biop"
    then show ?thesis using BIO_write_pair [OF inv, of x b libc bs] by blast
  next
    fix b m assume m: "bio_at h x = Some b" "bio_method b = mem_method" "bio_init b" "mem_at h x = Some m"
    show ?thesis
    proof (cases "bs = []")
      case True
      then show ?thesis using m inv False by (simp add: BIO_write_def)
    next
      case ne: False
      obtain h' r where r: "mem_write libc h x bs = Some (r, h')" "bio_inv h'" using mem_write_ok [OF inv m(4,1) ne bs, of libc] by blast
      have "bio_inv (if r > 0 then bio_upd h' x (\<lambda>b. b\<lparr>bio_num_write := bio_num_write b + word_of_int r\<rparr>) else h')"
        using bio_inv_counted(1) [OF r(2) bio_frame_intros(5)] .
      then show ?thesis using m False ne r(1) by (simp add: BIO_write_def)
    qed
  qed
qed (use inv in \<open>simp add: BIO_write_def\<close>)

lemma BIO_ctrl_ok:
  assumes inv: "bio_inv h" and x: "bio_live h x" and ptr: "\<And>b. bio_at h x = Some b \<Longrightarrow> bio_arg_ok h b cmd ptr"
  shows "\<exists>r h'. BIO_ctrl h x cmd num ptr = Some (r, h') \<and> bio_inv h'"
proof (cases "x = 0")
  case False
  show ?thesis
  proof (rule bio_kind [OF inv x False])
    fix b p assume "bio_at h x = Some b" "bio_method b = methods_biop" "pair_at h x = Some p"
    then show ?thesis using bio_ctrl_ok [OF inv _ _ ptr, of x p b num] False by (simp add: BIO_ctrl_def)
  next
    fix b m assume "bio_at h x = Some b" "bio_method b = mem_method" "mem_at h x = Some m"
    then show ?thesis using mem_ctrl_ok [OF inv _ _ ptr, of x m b num] False by (simp add: BIO_ctrl_def)
  qed
qed (use inv in \<open>simp add: BIO_ctrl_def\<close>)

lemma bio_do_ok:
  assumes inv: "bio_inv h" and libc: "libc_bounded libc" and ok: "bio_op_ok h op"
  shows "\<exists>h'. bio_do libc op h = Some h' \<and> bio_inv h'"
proof (cases op)
  case (Op_pair w1 w2)
  obtain ok x y h' where "BIO_new_bio_pair libc h w1 w2 = Some (ok, x, y, h')" "bio_inv h'"
    using BIO_new_bio_pair_ok [OF inv libc] by blast
  then show ?thesis using Op_pair by simp
next
  case Op_mem
  then show ?thesis using BIO_new_cases [OF inv, of libc mem_method "fst (BIO_new libc h mem_method)"] by simp
next
  case (Op_mem_buf buf)
  then have "length bs \<le> C_INT_MAX" if "buf = Some bs" for bs using ok that by simp
  then show ?thesis using Op_mem_buf BIO_new_mem_buf_inv [OF inv, of buf libc "fst (BIO_new_mem_buf libc h buf)"] by simp
next
  case (Op_read x n)
  then obtain r out h' where "BIO_read h x n = Some (r, out, h')" "bio_inv h'" using BIO_read_ok [OF inv, of x n] ok by auto
  then show ?thesis using Op_read by simp
next
  case (Op_gets x n)
  then obtain r out h' where "BIO_gets h x n = Some (r, out, h')" "bio_inv h'" using BIO_gets_ok [OF inv, of x n] ok by auto
  then show ?thesis using Op_gets by simp
next
  case (Op_write x bs)
  then obtain r h' where "BIO_write libc h x bs = Some (r, h')" "bio_inv h'" using BIO_write_ok [OF inv, of x bs libc] ok by auto
  then show ?thesis using Op_write by simp
next
  case (Op_ctrl x cmd num ptr)
  then obtain r h' where "BIO_ctrl h x cmd num ptr = Some (r, h')" "bio_inv h'"
    using BIO_ctrl_ok [OF inv, of x cmd ptr num] ok by (fastforce split: option.splits)
  then show ?thesis using Op_ctrl by simp
next
  case (Op_free x)
  then obtain h' where "BIO_free h x = Some (True, h')" "bio_inv h'" using BIO_free_ok [OF inv, of x] ok by (auto simp: bio_live_def)
  then show ?thesis using Op_free by simp
qed

lemma bio_reach_inv: "bio_reach libc h \<Longrightarrow> libc_bounded libc \<Longrightarrow> bio_inv h"
proof (induction rule: bio_reach.induct)
  case bio_reach_empty
  then show ?case by (simp add: bio_inv_def)
next
  case (bio_reach_step h op h')
  then show ?case using bio_do_ok [of h libc op] by auto
qed

section \<open>Concrete states\<close>

text \<open>Two empty ends of a pair with rings of \<open>sz\<close> bytes.\<close>

definition fresh_pair :: "nat \<Rightarrow> bio_heap" where
  "fresh_pair sz =
     (let side = (\<lambda>y. \<lparr>bio_method = methods_biop, bio_init = True, bio_shutdown = 1, bio_flags = 0, bio_retry_reason = 0, bio_num = 0,
            bio_ptr = Ptr_pair \<lparr>pb_peer = Some y, pb_closed = False, pb_len = 0, pb_offset = 0, pb_size = sz,
              pb_buf = Some (replicate sz 0), pb_request = 0\<rparr>, bio_num_read = 0, bio_num_write = 0\<rparr>)
      in \<lparr>bio_at = [1 \<mapsto> side 2, 2 \<mapsto> side 1], bio_brk = 2\<rparr>)"

lemma fresh_pair_new:
  assumes "0 < sz" "sz < 2 ^ 19"
  shows "BIO_new_bio_pair (\<lambda>n. n < 2 ^ 20) \<lparr>bio_at = Map.empty, bio_brk = 0\<rparr> sz sz = Some (True, 1, 2, fresh_pair sz)"
  using assms
  by (simp add: BIO_new_bio_pair_def BIO_new_def bio_new_def bio_make_pair_def pair_alloc_def pair_at_def pair_put_def bio_upd_def
      OPENSSL_malloc_def OPENSSL_MALLOC_PREFIX_def fresh_pair_def Let_def fun_eq_iff)



end
