(* ===== verification/Bio_Stream.thy ===== *)
theory Bio_Stream
  imports Bio_Ops Der
begin

text \<open>
  The functions of \<open>bio.c\<close> that use a BIO through its method table: reading until a count or the end, and
  reading and writing whole objects. They take the calls \<open>BIO_read(bio, ., n)\<close> and \<open>BIO_write(bio, ., n)\<close> as
  arguments, so that they speak of any BIO. The locale \<open>byte_source\<close> is what they rely on of \<open>BIO_read\<close>; memory
  BIOs and both ends of a pair satisfy it.
\<close>

section \<open>Reading whole objects\<close>

text \<open>The loop of \<open>bio_read_full\<close>: whether all was read, whether the end came first, and the bytes.\<close>

partial_function (option) read_full_loop ::
  "('s \<Rightarrow> int \<Rightarrow> (int \<times> bytes \<times> 's) option) \<Rightarrow> 's \<Rightarrow> bool \<Rightarrow> nat \<Rightarrow> (bool \<times> bool \<times> bytes \<times> 's) option" where
  "read_full_loop rd s first_read len =
     (if len = 0 then Some (True, False, [], s)
      else do {
        (ret, out, s) \<leftarrow> rd s (int (min len C_INT_MAX));
        (if ret \<le> 0 then Some (False, first_read \<and> ret = 0, [], s)
         else do {
           (res, eof, more, s) \<leftarrow> read_full_loop rd s False (len - nat ret);
           Some (res, eof, out @ more, s)
         })
      })"

definition bio_read_full ::
  "('s \<Rightarrow> int \<Rightarrow> (int \<times> bytes \<times> 's) option) \<Rightarrow> 's \<Rightarrow> nat \<Rightarrow> (bool \<times> bool \<times> bytes \<times> 's) option" where
  "bio_read_full rd s len = read_full_loop rd s True len"

definition kChunkSize :: nat where "kChunkSize = 4096"

text \<open>The loop of \<open>bio_read_all\<close>: \<open>len\<close> is the size of the block, \<open>got\<close> the \<open>size_t\<close> \<open>done\<close> and \<open>out\<close> the bytes
  stored. A negative result other than \<open>- 1\<close> is added to \<open>got\<close>, which wraps; storing bytes past the block is an
  error.\<close>

partial_function (option) read_all_loop ::
  "(nat \<Rightarrow> bool) \<Rightarrow> ('s \<Rightarrow> int \<Rightarrow> (int \<times> bytes \<times> 's) option) \<Rightarrow> nat \<Rightarrow> 's \<Rightarrow> bytes \<Rightarrow> nat \<Rightarrow> nat \<Rightarrow> (bytes option \<times> 's) option" where
  "read_all_loop libc rd max_len s out got len =
     (if got = len then Some (None, s)
      else do {
        let todo = (len + 2 ^ 64 - got) mod 2 ^ 64;
        c_assert (todo < C_INT_MAX);
        (n, bs, s) \<leftarrow> rd s (int todo);
        (if n = 0 then Some (Some (take got out), s)
         else if n = - 1 then Some (None, s)
         else do {
           c_assert (bs = [] \<or> got + length bs \<le> len);
           let out = mem_copy out got bs;
           let got = nat ((int got + n) mod 2 ^ 64);
           (if len < max_len \<and> (len + 2 ^ 64 - got) mod 2 ^ 64 < kChunkSize div 2 then
              (let l = size_add len kChunkSize;
                   l = (if l < kChunkSize \<or> l > max_len then max_len else l)
               in case OPENSSL_realloc libc (Some out) l of
                    None \<Rightarrow> Some (None, s)
                  | Some out \<Rightarrow> read_all_loop libc rd max_len s out got l)
            else read_all_loop libc rd max_len s out got len)
         })
      })"

definition bio_read_all ::
  "(nat \<Rightarrow> bool) \<Rightarrow> ('s \<Rightarrow> int \<Rightarrow> (int \<times> bytes \<times> 's) option) \<Rightarrow> 's \<Rightarrow> bytes \<Rightarrow> nat \<Rightarrow> (bytes option \<times> 's) option" where
  "bio_read_all libc rd s prefx max_len =
     (let len = size_add (length prefx) kChunkSize;
          len = (if len > max_len then max_len else len)
      in if len < length prefx then Some (None, s)
         else if \<not> OPENSSL_malloc libc len then Some (None, s)
         else read_all_loop libc rd max_len s prefx (length prefx) len)"

text \<open>The error that \<open>BIO_read_asn1\<close> reports.\<close>

datatype asn1_error = HEADER_TOO_LONG | NOT_ENOUGH_DATA | DECODE_ERROR | TOO_LONG | MALLOC_FAILURE

definition asn1_len32 :: "bytes \<Rightarrow> u32" where
  "asn1_len32 bs = foldl (\<lambda>len32 b. push_bit 8 len32 OR ucast b) 0 bs"

definition read_asn1_body ::
  "(nat \<Rightarrow> bool) \<Rightarrow> ('s \<Rightarrow> int \<Rightarrow> (int \<times> bytes \<times> 's) option) \<Rightarrow> 's \<Rightarrow> bytes \<Rightarrow> nat \<Rightarrow> nat \<Rightarrow> ((asn1_error + bytes) \<times> 's) option" where
  "read_asn1_body libc rd s header len max_len =
     (let header_len = length header
      in if size_add len header_len < len \<or> size_add len header_len > max_len \<or> len > C_INT_MAX then Some (Inl TOO_LONG, s)
         else
           let len = size_add len header_len
           in if \<not> OPENSSL_malloc libc len then Some (Inl MALLOC_FAILURE, s)
              else do {
                (res, _, body, s) \<leftarrow> bio_read_full rd s (len - header_len);
                Some (if \<not> res then Inl NOT_ENOUGH_DATA else Inr (header @ body), s)
              })"

text \<open>What follows the reading of the first two bytes.\<close>

definition read_asn1_rest ::
  "(nat \<Rightarrow> bool) \<Rightarrow> ('s \<Rightarrow> int \<Rightarrow> (int \<times> bytes \<times> 's) option) \<Rightarrow> 's \<Rightarrow> byte \<Rightarrow> byte \<Rightarrow> nat \<Rightarrow> ((asn1_error + bytes) \<times> 's) option" where
  "read_asn1_rest libc rd s tag length_byte max_len =
     (if tag AND 0x1f = 0x1f then Some (Inl DECODE_ERROR, s)
      else if length_byte AND 0x80 = 0 then read_asn1_body libc rd s [tag, length_byte] (unat length_byte) max_len
      else
        let num_bytes = unat (length_byte AND 0x7f)
        in if tag AND 0x20 \<noteq> 0 \<and> num_bytes = 0 then
             do {
               (out, s) \<leftarrow> bio_read_all libc rd s [tag, length_byte] max_len;
               Some (case out of None \<Rightarrow> Inl NOT_ENOUGH_DATA | Some bs \<Rightarrow> Inr bs, s)
             }
           else if num_bytes = 0 \<or> num_bytes > 4 then Some (Inl DECODE_ERROR, s)
           else do {
             (res, _, more, s) \<leftarrow> bio_read_full rd s num_bytes;
             (if \<not> res then Some (Inl NOT_ENOUGH_DATA, s)
              else
                let len32 = asn1_len32 more
                in if len32 < 128 then Some (Inl DECODE_ERROR, s)
                   else if drop_bit ((num_bytes - 1) * 8) len32 = 0 then Some (Inl DECODE_ERROR, s)
                   else read_asn1_body libc rd s ([tag, length_byte] @ more) (unat len32) max_len)
           })"

definition BIO_read_asn1 ::
  "(nat \<Rightarrow> bool) \<Rightarrow> ('s \<Rightarrow> int \<Rightarrow> (int \<times> bytes \<times> 's) option) \<Rightarrow> 's \<Rightarrow> nat \<Rightarrow> ((asn1_error + bytes) \<times> 's) option" where
  "BIO_read_asn1 libc rd s max_len =
     do {
       (res, eof_on_first_read, header, s) \<leftarrow> bio_read_full rd s 2;
       (if \<not> res then Some (Inl (if eof_on_first_read then HEADER_TOO_LONG else NOT_ENOUGH_DATA), s)
        else read_asn1_rest libc rd s (header ! 0) (header ! 1) max_len)
     }"

section \<open>Writing whole objects\<close>

partial_function (option) BIO_write_all ::
  "('s \<Rightarrow> bytes \<Rightarrow> (int \<times> 's) option) \<Rightarrow> 's \<Rightarrow> bytes \<Rightarrow> (bool \<times> 's) option" where
  "BIO_write_all wr s data =
     (if data = [] then Some (True, s)
      else do {
        (ret, s) \<leftarrow> wr s (take C_INT_MAX data);
        (if ret \<le> 0 then Some (False, s) else BIO_write_all wr s (drop (nat ret) data))
      })"

primrec BIO_indent_loop :: "('s \<Rightarrow> bytes \<Rightarrow> (int \<times> 's) option) \<Rightarrow> 's \<Rightarrow> nat \<Rightarrow> (bool \<times> 's) option" where
  "BIO_indent_loop wr s 0 = Some (True, s)"
| "BIO_indent_loop wr s (Suc n) =
     do { (ret, s) \<leftarrow> wr s [0x20]; (if ret \<noteq> 1 then Some (False, s) else BIO_indent_loop wr s n) }"

definition BIO_indent :: "('s \<Rightarrow> bytes \<Rightarrow> (int \<times> 's) option) \<Rightarrow> 's \<Rightarrow> nat \<Rightarrow> nat \<Rightarrow> (bool \<times> 's) option" where
  "BIO_indent wr s indent max_indent = BIO_indent_loop wr s (if indent > max_indent then max_indent else indent)"

section \<open>Lengths\<close>

lemma unat_asn1_len32: "length bs \<le> 4 \<Longrightarrow> unat (asn1_len32 bs) = be_val bs"
proof (induction bs rule: rev_induct)
  case (snoc b bs)
  have "unat (ucast b :: u32) < 2 ^ 8" by (simp add: unat_ucast_up)
  then have "unat (push_bit 8 (asn1_len32 bs) OR ucast b :: u32) = (unat (asn1_len32 bs) * 2 ^ 8 + unat (ucast b :: u32)) mod 2 ^ 32"
    using unat_push_bit_or [of "ucast b :: u32" 8 "asn1_len32 bs"] by simp
  moreover have "be_val (bs @ [b]) < 256 ^ 4"
    using be_val_less [of "bs @ [b]"] snoc.prems power_increasing [of "length (bs @ [b])" 4 "256 :: nat"] by simp
  ultimately show ?case using snoc by (simp add: asn1_len32_def unat_ucast_up)
qed (simp add: asn1_len32_def)

lemma drop_bit_len32: "drop_bit (j * 8) (w :: u32) = 0 \<longleftrightarrow> unat w < 256 ^ j"
proof -
  have "(2 :: nat) ^ (j * 8) = 256 ^ j"
    by (subst mult.commute) (simp only: power_mult, simp)
  then show ?thesis by (simp add: word_unat_eq_iff unat_drop_bit div_eq_0_iff)
qed

text \<open>An object with a tag number below 31, as the distinguished encoding rules write it.\<close>

definition asn1_object :: "byte \<Rightarrow> bytes \<Rightarrow> bytes" where
  "asn1_object tag c = tag # der_length (length c) @ c"

definition low_tag :: "byte \<Rightarrow> bool" where
  "low_tag tag \<longleftrightarrow> tag AND 0x1f \<noteq> 0x1f"

lemma asn1_long_length:
  assumes "length d = unat (lb AND 0x7f)" "0 < length d" "length d \<le> 4" "lb AND 0x80 \<noteq> (0 :: byte)"
    "\<not> asn1_len32 d < 128" "drop_bit ((length d - 1) * 8) (asn1_len32 d) \<noteq> 0"
  shows "der_length (be_val d) = lb # d"
proof -
  have u: "unat (asn1_len32 d) = be_val d" using assms(3) by (rule unat_asn1_len32)
  have "128 \<le> be_val d" "256 ^ (length d - 1) \<le> be_val d"
    using assms(5,6) by (simp_all add: drop_bit_len32 u word_less_nat_alt not_less)
  then have "der_length (be_val d) = word_of_nat (128 + length d) # d" using der_length_long [OF refl assms(2,3)] by blast
  moreover have lb: "unat lb = 128 + length d"
    using assms(1,4) byte_high_bit [of lb] by (simp add: unat_and_7f base128_digit_mod)
  have "word_of_nat (128 + length d) = lb" unfolding lb [symmetric] by simp
  ultimately show ?thesis by simp
qed

section \<open>The contract of a source\<close>

text \<open>The new size of the block, also when the addition wraps.\<close>

lemma chunk_grown:
  assumes "len < max_len" "max_len < 2 ^ 64"
  defines "l \<equiv> (if size_add len kChunkSize < kChunkSize \<or> size_add len kChunkSize > max_len then max_len else size_add len kChunkSize)"
  shows "len < l \<and> l \<le> max_len \<and> (l = max_len \<or> l = len + kChunkSize) \<and> l \<le> len + kChunkSize"
proof (cases "len + kChunkSize < 2 ^ 64")
  case True
  then show ?thesis using assms by (auto simp: l_def size_add_def kChunkSize_def)
next
  case False
  then have "size_add len kChunkSize = len + kChunkSize - 2 ^ 64"
    using assms by (simp add: size_add_def mod_if kChunkSize_def)
  then have "l = max_len" using assms False by (auto simp: l_def kChunkSize_def)
  then show ?thesis using assms False by auto
qed

lemma size_diff:
  assumes "b \<le> a" "a < 2 ^ 64"
  shows "(a + 2 ^ 64 - b) mod 2 ^ 64 = a - (b :: nat)"
proof -
  have "a + 2 ^ 64 - b = a - b + 2 ^ 64" using assms(1) by simp
  then show ?thesis using assms(2) by (simp only: mod_add_self2) simp
qed

text \<open>\<open>pending\<close> are the bytes that can be read now, \<open>final\<close> is the result of a read when there are none.\<close>

locale byte_source =
  fixes rd :: "'s \<Rightarrow> int \<Rightarrow> (int \<times> bytes \<times> 's) option"
    and pending :: "'s \<Rightarrow> bytes"
    and final :: "'s \<Rightarrow> int"
    and ok :: "'s \<Rightarrow> bool"
  assumes rd_data: "ok s \<Longrightarrow> pending s \<noteq> [] \<Longrightarrow> 0 < n \<Longrightarrow> n \<le> int C_INT_MAX \<Longrightarrow>
      \<exists>k s'. rd s n = Some (int k, take k (pending s), s') \<and> 0 < k \<and> k \<le> nat n \<and> k \<le> length (pending s) \<and>
        ok s' \<and> pending s' = drop k (pending s) \<and> final s' = final s"
    and rd_end: "ok s \<Longrightarrow> pending s = [] \<Longrightarrow> 0 < n \<Longrightarrow> n \<le> int C_INT_MAX \<Longrightarrow>
      \<exists>s'. rd s n = Some (final s, [], s') \<and> ok s' \<and> pending s' = [] \<and> final s' = final s"
    and final_cases: "ok s \<Longrightarrow> final s = 0 \<or> final s = - 1"
begin

lemma final_le: "ok s \<Longrightarrow> final s \<le> 0"
  using final_cases by force

lemma read_full_loop_ok:
  "ok s \<Longrightarrow> len \<le> length (pending s) \<Longrightarrow>
    \<exists>s'. read_full_loop rd s fr len = Some (True, False, take len (pending s), s') \<and> ok s' \<and>
      pending s' = drop len (pending s) \<and> final s' = final s"
proof (induction len arbitrary: s fr rule: less_induct)
  case (less len)
  show ?case
  proof (cases "len = 0")
    case True
    then show ?thesis using less.prems by (subst read_full_loop.simps) simp
  next
    case False
    then have ne: "pending s \<noteq> []" "0 < int (min len C_INT_MAX)" "int (min len C_INT_MAX) \<le> int C_INT_MAX"
      using less.prems by (auto simp: C_INT_MAX_def)
    obtain k s1 where k: "rd s (int (min len C_INT_MAX)) = Some (int k, take k (pending s), s1)" "0 < k" "k \<le> min len C_INT_MAX"
      "ok s1" "pending s1 = drop k (pending s)" "final s1 = final s"
      using rd_data [OF less.prems(1) ne] by auto
    obtain s2 where s2: "read_full_loop rd s1 False (len - k) = Some (True, False, take (len - k) (pending s1), s2)" "ok s2"
      "pending s2 = drop (len - k) (pending s1)" "final s2 = final s1"
      using less.IH [of "len - k" s1 False] k(2-5) less.prems(2) False by (auto simp: diff_le_mono)
    have "take k (pending s) @ take (len - k) (drop k (pending s)) = take len (pending s)"
      using take_add [of k "len - k" "pending s"] k(3) by simp
    then have "read_full_loop rd s fr len = Some (True, False, take len (pending s), s2)"
      using False k(1,2,5) s2(1) by (subst read_full_loop.simps) simp
    then show ?thesis using s2 k by simp
  qed
qed

lemma read_full_loop_short:
  "ok s \<Longrightarrow> length (pending s) < len \<Longrightarrow>
    \<exists>bs s'. read_full_loop rd s fr len = Some (False, fr \<and> pending s = [] \<and> final s = 0, bs, s') \<and> ok s' \<and>
      pending s' = [] \<and> final s' = final s"
proof (induction len arbitrary: s fr rule: less_induct)
  case (less len)
  then have n: "0 < int (min len C_INT_MAX)" "int (min len C_INT_MAX) \<le> int C_INT_MAX" "len \<noteq> 0" by (auto simp: C_INT_MAX_def)
  show ?case
  proof (cases "pending s = []")
    case True
    obtain s1 where "rd s (int (min len C_INT_MAX)) = Some (final s, [], s1)" "ok s1" "pending s1 = []" "final s1 = final s"
      using rd_end [OF less.prems(1) True n(1,2)] by blast
    then show ?thesis using n(3) True final_le [OF less.prems(1)] by (subst read_full_loop.simps) simp
  next
    case False
    obtain k s1 where k: "rd s (int (min len C_INT_MAX)) = Some (int k, take k (pending s), s1)" "0 < k" "k \<le> min len C_INT_MAX"
      "ok s1" "pending s1 = drop k (pending s)" "final s1 = final s" "k \<le> length (pending s)"
      using rd_data [OF less.prems(1) False n(1,2)] by auto
    obtain bs s2 where s2: "read_full_loop rd s1 False (len - k) = Some (False, False, bs, s2)" "ok s2"
      "pending s2 = []" "final s2 = final s1"
      using less.IH [of "len - k" s1 False] k(2-5,7) less.prems(2) n(3) diff_less_mono [of "length (pending s)" len k] by auto
    then have "read_full_loop rd s fr len = Some (False, False, take k (pending s) @ bs, s2)"
      using n(3) k(1,2,5) by (subst read_full_loop.simps) simp
    then show ?thesis using s2 k False by simp
  qed
qed

text \<open>The loop of \<open>bio_read_all\<close>. At its head, either the block has its greatest size or there is room for half a
  chunk, so a full block is one that could not be larger.\<close>

lemma read_all_loop_ok:
  "ok s \<Longrightarrow> length out = got \<Longrightarrow> got \<le> len \<Longrightarrow> len \<le> max_len \<Longrightarrow> max_len < 2 ^ 64 \<Longrightarrow> len - got \<le> 8192 \<Longrightarrow>
    len = max_len \<or> kChunkSize div 2 \<le> len - got \<Longrightarrow>
    \<exists>r s'. read_all_loop libc rd max_len s out got len = Some (r, s') \<and> ok s' \<and> final s' = final s \<and>
      (\<forall>bs. r = Some bs \<longrightarrow> final s = 0 \<and> bs = out @ pending s \<and> length bs < max_len \<and> pending s' = []) \<and>
      ((\<forall>n\<le>max_len. OPENSSL_malloc libc n) \<and> final s = 0 \<and> got + length (pending s) < max_len \<longrightarrow> r \<noteq> None)"
proof (induction "length (pending s)" arbitrary: s out got len rule: less_induct)
  case less
  show ?case
  proof (cases "got = len")
    case True
    then show ?thesis using less.prems by (subst read_all_loop.simps) (auto simp: kChunkSize_def)
  next
    case False
    define todo where "todo = len - got"
    have td: "(len + 2 ^ 64 - got) mod 2 ^ 64 = todo" "0 < todo" "todo \<le> 8192" "todo < C_INT_MAX"
      using less.prems False size_diff [of got len] by (simp_all add: todo_def C_INT_MAX_def)
    have n: "0 < int todo" "int todo \<le> int C_INT_MAX" using td by (simp_all add: C_INT_MAX_def)
    show ?thesis
    proof (cases "pending s = []")
      case True
      obtain s1 where s1: "rd s (int todo) = Some (final s, [], s1)" "ok s1" "pending s1 = []" "final s1 = final s"
        using rd_end [OF less.prems(1) True n] by blast
      then have "read_all_loop libc rd max_len s out got len = Some (if final s = 0 then Some out else None, s1)"
        using False td(1,4) less.prems(2) final_cases [OF less.prems(1)]
        by (subst read_all_loop.simps) (auto simp: c_assert_def Let_def)
      then show ?thesis using s1 True False less.prems by auto
    next
      case ne: False
      obtain k s1 where k: "rd s (int todo) = Some (int k, take k (pending s), s1)" "0 < k" "k \<le> todo" "k \<le> length (pending s)"
        "ok s1" "pending s1 = drop k (pending s)" "final s1 = final s"
        using rd_data [OF less.prems(1) ne n] by auto
      define out' where "out' = out @ take k (pending s)"
      have mc: "mem_copy out got (take k (pending s)) = out'" using less.prems(2) by (simp add: mem_copy_def out'_def)
      have got': "nat ((int got + int k) mod 2 ^ 64) = got + k"
        using k(3) td(1) less.prems(3-5) todo_def by (simp add: nat_add_distrib nat_mod_distrib)
      have room: "(len + 2 ^ 64 - (got + k)) mod 2 ^ 64 = len - (got + k)"
        using k(3) less.prems(3-5) todo_def by (intro size_diff) simp_all
      have asr: "got + length (take k (pending s)) \<le> len" using k(3,4) less.prems(3) todo_def by simp
      define grow where "grow \<longleftrightarrow> len < max_len \<and> len - (got + k) < kChunkSize div 2"
      define l where "l = (if size_add len kChunkSize < kChunkSize \<or> size_add len kChunkSize > max_len then max_len else size_add len kChunkSize)"
      have step: "read_all_loop libc rd max_len s out got len =
          (if grow then (case OPENSSL_realloc libc (Some out') l of None \<Rightarrow> Some (None, s1)
             | Some out \<Rightarrow> read_all_loop libc rd max_len s1 out (got + k) l)
           else read_all_loop libc rd max_len s1 out' (got + k) len)"
        using False k(1,2) asr
        unfolding read_all_loop.simps [of libc rd max_len s out got len] Let_def td(1)
        by (simp add: td(4) c_assert_def mc got' [simplified] room [simplified] grow_def l_def del: mod_less cong: if_cong option.case_cong)
      have l: "len < l" "l \<le> max_len" "l = max_len \<or> l = len + kChunkSize" "l \<le> len + kChunkSize" if grow
        using chunk_grown [OF _ less.prems(5), of len] that unfolding grow_def l_def [symmetric] by simp_all
      have IH: "\<exists>r s'. read_all_loop libc rd max_len s1 out' (got + k) m = Some (r, s') \<and> ok s' \<and> final s' = final s \<and>
          (\<forall>bs. r = Some bs \<longrightarrow> final s = 0 \<and> bs = out @ pending s \<and> length bs < max_len \<and> pending s' = []) \<and>
          ((\<forall>n\<le>max_len. OPENSSL_malloc libc n) \<and> final s = 0 \<and> got + length (pending s) < max_len \<longrightarrow> r \<noteq> None)"
        if "got + k \<le> m" "m \<le> max_len" "m - (got + k) \<le> 8192" "m = max_len \<or> kChunkSize div 2 \<le> m - (got + k)" for m
        using less.hyps [of s1 out' "got + k" m] that less.prems(2,5) k by (simp add: out'_def)
      show ?thesis
      proof (cases grow)
        case True
        note l = l [OF True]
        have r: "OPENSSL_realloc libc (Some out') l = (if OPENSSL_malloc libc l then Some out' else None)"
          using l(1) asr less.prems(2) k(4) by (simp add: OPENSSL_realloc_def out'_def Let_def)
        have "l - (got + k) \<le> 8192" "l = max_len \<or> kChunkSize div 2 \<le> l - (got + k)" "got + k \<le> l"
          using l True asr k(4) by (auto simp: grow_def kChunkSize_def)
        then show ?thesis using IH [of l] l(2) True k(5,7) by (cases "OPENSSL_malloc libc l") (auto simp: step r)
      next
        case False
        have "len - (got + k) \<le> 8192" "len = max_len \<or> kChunkSize div 2 \<le> len - (got + k)" "got + k \<le> len"
          using False less.prems(4,6) asr k(4) by (auto simp: grow_def)
        then show ?thesis using IH [of len] less.prems(4) False by (simp add: step)
      qed
    qed
  qed
qed

lemma bio_read_all_ok:
  assumes "ok s" "length prefx + kChunkSize < 2 ^ 64" "max_len < 2 ^ 64"
  shows "\<exists>r s'. bio_read_all libc rd s prefx max_len = Some (r, s') \<and> ok s' \<and> final s' = final s \<and>
      (\<forall>bs. r = Some bs \<longrightarrow> final s = 0 \<and> bs = prefx @ pending s \<and> length bs < max_len \<and> pending s' = []) \<and>
      ((\<forall>n\<le>max_len. OPENSSL_malloc libc n) \<and> final s = 0 \<and> length prefx + length (pending s) < max_len \<longrightarrow> r \<noteq> None)"
proof -
  define len where "len = (if length prefx + kChunkSize > max_len then max_len else length prefx + kChunkSize)"
  have a: "size_add (length prefx) kChunkSize = length prefx + kChunkSize" using assms(2) by (simp add: size_add_def)
  have e: "bio_read_all libc rd s prefx max_len =
      (if len < length prefx \<or> \<not> OPENSSL_malloc libc len then Some (None, s) else read_all_loop libc rd max_len s prefx (length prefx) len)"
    by (simp add: bio_read_all_def Let_def a len_def)
  show ?thesis
  proof (cases "len < length prefx \<or> \<not> OPENSSL_malloc libc len")
    case True
    then show ?thesis using e assms(1) by (auto simp: len_def split: if_splits)
  next
    case False
    then have "length prefx \<le> len" "len \<le> max_len" "len - length prefx \<le> 8192" "len = max_len \<or> kChunkSize div 2 \<le> len - length prefx"
      by (auto simp: len_def kChunkSize_def)
    then show ?thesis using read_all_loop_ok [OF assms(1) refl _ _ assms(3), of prefx len libc] e False by simp
  qed
qed

lemma bio_read_full_ok:
  assumes "ok s"
  obtains res e bs s' where "bio_read_full rd s len = Some (res, e, bs, s')" "ok s'" "final s' = final s"
    "res \<longleftrightarrow> len \<le> length (pending s)" "res \<Longrightarrow> bs = take len (pending s)" "pending s' = drop len (pending s)"
    "\<not> res \<Longrightarrow> e \<longleftrightarrow> pending s = [] \<and> final s = 0"
proof (cases "len \<le> length (pending s)")
  case True
  then show ?thesis using read_full_loop_ok [OF assms True, of True] that by (auto simp: bio_read_full_def)
next
  case False
  then have "length (pending s) < len" by simp
  then show ?thesis using read_full_loop_short [OF assms, of len True] that False by (auto simp: bio_read_full_def)
qed

lemma read_asn1_body_ok:
  assumes "ok s" "length header \<le> 6" "len < 2 ^ 32"
  shows "\<exists>r s'. read_asn1_body libc rd s header len max_len = Some (r, s') \<and> ok s' \<and>
    (\<forall>out. r = Inr out \<longrightarrow> len \<le> C_INT_MAX \<and> length out \<le> max_len \<and> len \<le> length (pending s) \<and>
       out = header @ take len (pending s) \<and> pending s' = drop len (pending s)) \<and>
    ((\<forall>n\<le>max_len. OPENSSL_malloc libc n) \<and> len \<le> C_INT_MAX \<and> length header + len \<le> max_len \<and> len \<le> length (pending s) \<longrightarrow>
       r = Inr (header @ take len (pending s)))"
proof -
  have a: "size_add len (length header) = len + length header" using assms(2,3) by (simp add: size_add_def)
  obtain res e bs s' where s': "bio_read_full rd s len = Some (res, e, bs, s')" "ok s'" "final s' = final s"
    "res \<longleftrightarrow> len \<le> length (pending s)" "res \<Longrightarrow> bs = take len (pending s)" "pending s' = drop len (pending s)"
    using bio_read_full_ok [OF assms(1)] by metis
  have "read_asn1_body libc rd s header len max_len =
      (if len + length header > max_len \<or> len > C_INT_MAX then Some (Inl TOO_LONG, s)
       else if \<not> OPENSSL_malloc libc (len + length header) then Some (Inl MALLOC_FAILURE, s)
       else Some (if \<not> res then Inl NOT_ENOUGH_DATA else Inr (header @ bs), s'))"
    using s'(1) by (simp add: read_asn1_body_def Let_def a cong: if_cong)
  then show ?thesis using s' assms(1) by (auto simp: add.commute not_less split: if_splits)
qed

lemma bio_read_all_exact:
  assumes "ok s" "length prefx + kChunkSize < 2 ^ 64" "max_len < 2 ^ 64"
  shows "\<exists>r s'. bio_read_all libc rd s prefx max_len = Some (r, s') \<and> ok s' \<and>
      (\<forall>bs. r = Some bs \<longrightarrow> bs = prefx @ pending s \<and> pending s' = []) \<and>
      ((\<forall>n\<le>max_len. OPENSSL_malloc libc n) \<longrightarrow> (r \<noteq> None \<longleftrightarrow> final s = 0 \<and> length prefx + length (pending s) < max_len))"
proof -
  obtain r s' where r: "bio_read_all libc rd s prefx max_len = Some (r, s')" "ok s'"
      "\<And>bs. r = Some bs \<Longrightarrow> final s = 0 \<and> bs = prefx @ pending s \<and> length bs < max_len \<and> pending s' = []"
      "(\<forall>n\<le>max_len. OPENSSL_malloc libc n) \<and> final s = 0 \<and> length prefx + length (pending s) < max_len \<Longrightarrow> r \<noteq> None"
    using bio_read_all_ok [OF assms, of libc] by blast
  have "final s = 0 \<and> length prefx + length (pending s) < max_len" if "r \<noteq> None" using r(3) that by fastforce
  then show ?thesis using r by blast
qed

text \<open>What is left when the first two bytes have been read.\<close>

lemma BIO_read_asn1_step:
  assumes ok: "ok s" and p: "pending s = tag # lb # p"
  obtains s1 where "ok s1" "pending s1 = p" "final s1 = final s"
    "BIO_read_asn1 libc rd s max_len = read_asn1_rest libc rd s1 tag lb max_len"
proof -
  obtain res e hd1 s1 where s1: "bio_read_full rd s 2 = Some (res, e, hd1, s1)" "ok s1" "final s1 = final s"
    "res \<longleftrightarrow> 2 \<le> length (pending s)" "res \<Longrightarrow> hd1 = take 2 (pending s)" "pending s1 = drop 2 (pending s)"
    using bio_read_full_ok [OF ok] by metis
  then have h: "bio_read_full rd s 2 = Some (True, e, [tag, lb], s1)" "pending s1 = p" using p by simp_all
  show thesis by (rule that [OF s1(2) h(2) s1(3)]) (simp add: BIO_read_asn1_def h(1))
qed

lemma BIO_read_asn1_sound:
  assumes ok: "ok s" and max: "max_len < 2 ^ 64"
  shows "\<exists>r s'. BIO_read_asn1 libc rd s max_len = Some (r, s') \<and> ok s' \<and>
    (\<forall>out. r = Inr out \<longrightarrow> pending s = out @ pending s' \<and> length out \<le> max_len \<and>
       (\<exists>tag c. low_tag tag \<and> (out = asn1_object tag c \<and> length c \<le> C_INT_MAX \<or>
          out = tag # 0x80 # c \<and> tag AND 0x20 \<noteq> 0 \<and> pending s' = [] \<and> final s = 0)))"
    (is "\<exists>r s'. ?P r s'")
proof -
  show ?thesis
  proof (cases "2 \<le> length (pending s)")
    case False
    obtain res e bs s1 where "bio_read_full rd s 2 = Some (res, e, bs, s1)" "ok s1" "res \<longleftrightarrow> 2 \<le> length (pending s)"
      using bio_read_full_ok [OF ok] by metis
    then show ?thesis using False by (simp add: BIO_read_asn1_def)
  next
    case True
    then obtain tag lb p where p: "pending s = tag # lb # p" by (metis Suc_le_length_iff numeral_2_eq_2)
    obtain s1 where s1: "ok s1" "pending s1 = p" "final s1 = final s"
      and rest: "BIO_read_asn1 libc rd s max_len = read_asn1_rest libc rd s1 tag lb max_len"
      using BIO_read_asn1_step [OF ok p, of libc max_len] by metis
    note def = rest read_asn1_rest_def low_tag_def Let_def
    consider "\<not> low_tag tag" | "low_tag tag" "lb AND 0x80 = 0" | "low_tag tag" "lb AND 0x80 \<noteq> 0" "tag AND 0x20 \<noteq> 0" "unat (lb AND 0x7f) = 0"
      | "low_tag tag" "lb AND 0x80 \<noteq> 0" "\<not> (tag AND 0x20 \<noteq> 0 \<and> unat (lb AND 0x7f) = 0)" "unat (lb AND 0x7f) = 0 \<or> 4 < unat (lb AND 0x7f)"
      | "low_tag tag" "lb AND 0x80 \<noteq> 0" "0 < unat (lb AND 0x7f)" "unat (lb AND 0x7f) \<le> 4" by linarith
    then show ?thesis
    proof cases
      case 1
      then show ?thesis using s1 by (simp add: def)
    next
      case 2
      have small: "unat lb < 128" using 2 byte_high_bit [of lb] by auto
      obtain r s' where r: "read_asn1_body libc rd s1 [tag, lb] (unat lb) max_len = Some (r, s')" "ok s'"
        "\<And>out. r = Inr out \<Longrightarrow> unat lb \<le> C_INT_MAX \<and> length out \<le> max_len \<and> unat lb \<le> length p \<and>
           out = [tag, lb] @ take (unat lb) p \<and> pending s' = drop (unat lb) p"
        using read_asn1_body_ok [OF s1(1), of "[tag, lb]" "unat lb" libc max_len] small s1(2) by auto
      have "BIO_read_asn1 libc rd s max_len = Some (r, s')" using 2 r(1) by (simp add: def)
      moreover have "der_length (unat lb) = [lb]" using small by (simp add: der_length_def)
      then have "pending s = out @ pending s' \<and> length out \<le> max_len \<and> out = asn1_object tag (take (unat lb) p) \<and>
          length (take (unat lb) p) \<le> C_INT_MAX" if "r = Inr out" for out
        using r(3) [OF that] by (auto simp: asn1_object_def p)
      ultimately show ?thesis using r(2) 2(1) by blast
    next
      case 3
      have lb: "lb = 0x80" using 3(2,4) byte_high_bit [of lb]
        by (simp add: unat_and_7f base128_digit_mod word_unat_eq_iff)
      obtain r s' where r: "bio_read_all libc rd s1 [tag, lb] max_len = Some (r, s')" "ok s'" "final s' = final s"
        "\<And>bs. r = Some bs \<Longrightarrow> final s = 0 \<and> bs = [tag, lb] @ p \<and> length bs < max_len \<and> pending s' = []"
        using bio_read_all_ok [OF s1(1) _ max, of "[tag, lb]" libc] s1(2,3) by (auto simp: kChunkSize_def)
      have "BIO_read_asn1 libc rd s max_len = Some (case r of None \<Rightarrow> Inl NOT_ENOUGH_DATA | Some bs \<Rightarrow> Inr bs, s')"
        using 3 r(1) by (simp add: def)
      then show ?thesis using r(2,4) 3(1,3) lb p by (cases r) auto
    next
      case 4
      then have "BIO_read_asn1 libc rd s max_len = Some (Inl DECODE_ERROR, s1)" by (auto simp: def)
      then show ?thesis using s1(1) by simp
    next
      case 5
      let ?k = "unat (lb AND 0x7f)"
      obtain res2 e2 d s2 where s2: "bio_read_full rd s1 ?k = Some (res2, e2, d, s2)" "ok s2"
        "res2 \<longleftrightarrow> ?k \<le> length p" "res2 \<Longrightarrow> d = take ?k p" "pending s2 = drop ?k p"
        using bio_read_full_ok [OF s1(1), of ?k] s1(2) by metis
      let ?len = "asn1_len32 d"
      show ?thesis
      proof (cases "res2 \<and> \<not> ?len < 128 \<and> drop_bit ((?k - 1) * 8) ?len \<noteq> 0")
        case False
        then have "\<exists>e. BIO_read_asn1 libc rd s max_len = Some (Inl e, s2)"
          using 5 s2(1) by (auto simp: def)
        then show ?thesis using s2(2) by auto
      next
        case True
        then have d: "d = take ?k p" "length d = ?k" using s2(3,4) by simp_all
        have u: "unat ?len = be_val d" using d(2) 5(4) by (simp add: unat_asn1_len32)
        have lt: "unat ?len < 2 ^ 32" using be_val_less [of d] d(2) 5(4) power_increasing [of "length d" 4 "256 :: nat"] by (simp add: u)
        obtain r s' where r: "read_asn1_body libc rd s2 ([tag, lb] @ d) (unat ?len) max_len = Some (r, s')" "ok s'"
          "\<And>out. r = Inr out \<Longrightarrow> unat ?len \<le> C_INT_MAX \<and> length out \<le> max_len \<and> unat ?len \<le> length (drop ?k p) \<and>
             out = ([tag, lb] @ d) @ take (unat ?len) (drop ?k p) \<and> pending s' = drop (unat ?len) (drop ?k p)"
          using read_asn1_body_ok [OF s2(2), of "[tag, lb] @ d" "unat ?len" libc max_len] s2(5) d(2) 5(4) lt by auto
        have e: "BIO_read_asn1 libc rd s max_len = Some (r, s')"
          using 5 s2(1) True r(1) by (auto simp: def)
        have "der_length (be_val d) = lb # d" using asn1_long_length [of d lb] 5 d(2) True by simp
        then have "out = asn1_object tag (take (unat ?len) (drop ?k p))" if "r = Inr out" for out
          using r(3) [OF that] by (simp add: asn1_object_def u)
        moreover have "pending s = out @ pending s' \<and> length out \<le> max_len \<and> length (take (unat ?len) (drop ?k p)) \<le> C_INT_MAX"
          if "r = Inr out" for out
        proof -
          have "p = d @ take (unat ?len) (drop ?k p) @ drop (unat ?len) (drop ?k p)"
            unfolding d(1) by (simp only: append_take_drop_id)
          then show ?thesis using r(3) [OF that] p by auto
        qed
        ultimately show ?thesis using e r(2) 5(1) by blast
      qed
    qed
  qed
qed

lemma BIO_read_asn1_complete:
  assumes ok: "ok s" and p: "pending s = asn1_object tag c @ rest" and tag: "low_tag tag" and c: "length c \<le> C_INT_MAX"
    and max: "length (asn1_object tag c) \<le> max_len" and libc: "\<And>n. n \<le> max_len \<Longrightarrow> OPENSSL_malloc libc n"
  shows "\<exists>s'. BIO_read_asn1 libc rd s max_len = Some (Inr (asn1_object tag c), s') \<and> ok s' \<and> pending s' = rest"
proof -
  let ?n = "length c"
  have c32: "?n < 2 ^ 32" using c by (simp add: C_INT_MAX_def)
  show ?thesis
  proof (cases "?n < 128")
    case True
    define lb where "lb = (word_of_nat ?n :: byte)"
    have u: "unat lb = ?n" using True by (simp add: lb_def unat_of_nat)
    then have lb: "lb AND 0x80 = 0" using True byte_high_bit [of lb] by auto
    have o: "asn1_object tag c = [tag, lb] @ c" using True by (simp add: asn1_object_def der_length_def lb_def)
    then obtain s1 where s1: "ok s1" "pending s1 = c @ rest" "BIO_read_asn1 libc rd s max_len = read_asn1_rest libc rd s1 tag lb max_len"
      using BIO_read_asn1_step [OF ok, of tag lb "c @ rest" libc max_len] p by auto
    obtain r s' where "read_asn1_body libc rd s1 [tag, lb] ?n max_len = Some (r, s')" "ok s'" "r = Inr ([tag, lb] @ c)" "pending s' = rest"
      using read_asn1_body_ok [OF s1(1), of "[tag, lb]" ?n libc max_len] c32 c max libc s1(2) o by auto
    then show ?thesis using s1(3) tag lb u o by (simp add: read_asn1_rest_def low_tag_def)
  next
    case False
    let ?k = "der_len_len ?n"
    define lb where "lb = (word_of_nat (128 + ?k) :: byte)"
    define d where "d = be_bytes ?k ?n"
    have k: "0 < ?k" "?k \<le> 4" by (simp_all add: der_len_len_bounds)
    have u: "unat lb = 128 + ?k" unfolding lb_def using k by (simp only: unat_of_nat) simp
    then have hi: "lb AND 0x80 \<noteq> 0" by (simp only: byte_high_bit)
    have num: "unat (lb AND 0x7f) = ?k" using k by (simp only: unat_and_7f u) simp
    have d: "length d = ?k" "unat (asn1_len32 d) = ?n"
      using k der_len_len_room [OF c32] by (simp_all add: d_def unat_asn1_len32 be_val_be_bytes)
    have min: "256 ^ (?k - Suc 0) \<le> ?n" using False der_len_len_minimal [of ?n] by simp
    have o: "asn1_object tag c = [tag, lb] @ d @ c" using False by (simp add: asn1_object_def der_length_def lb_def d_def)
    then obtain s1 where s1: "ok s1" "pending s1 = d @ c @ rest" "BIO_read_asn1 libc rd s max_len = read_asn1_rest libc rd s1 tag lb max_len"
      using BIO_read_asn1_step [OF ok, of tag lb "d @ c @ rest" libc max_len] p by auto
    obtain res e bs s2 where s2: "bio_read_full rd s1 ?k = Some (res, e, bs, s2)" "ok s2"
      "res \<longleftrightarrow> ?k \<le> length (pending s1)" "res \<Longrightarrow> bs = take ?k (pending s1)" "pending s2 = drop ?k (pending s1)"
      using bio_read_full_ok [OF s1(1)] by metis
    then have full: "bio_read_full rd s1 ?k = Some (True, e, d, s2)" "pending s2 = c @ rest" using s1(2) d(1) by simp_all
    have "\<not> asn1_len32 d < 128" "drop_bit ((?k - 1) * 8) (asn1_len32 d) \<noteq> 0"
      using False min by (simp_all add: word_less_nat_alt d(2) drop_bit_len32 not_less)
    then have rest: "read_asn1_rest libc rd s1 tag lb max_len = read_asn1_body libc rd s2 ([tag, lb] @ d) ?n max_len"
      using tag hi k full(1) by (simp add: read_asn1_rest_def low_tag_def num d(2) Let_def)
    obtain r s' where "read_asn1_body libc rd s2 ([tag, lb] @ d) ?n max_len = Some (r, s')" "ok s'" "r = Inr (([tag, lb] @ d) @ c)" "pending s' = rest"
      using read_asn1_body_ok [OF s2(2), of "[tag, lb] @ d" ?n libc max_len] c32 c max libc full(2) o d(1) k by auto
    then show ?thesis using s1(3) rest o by simp
  qed
qed

end

section \<open>The sources\<close>

text \<open>An end of a pair, and a memory BIO whose result at the end is the usual one.\<close>

definition pair_source :: "nat \<Rightarrow> nat \<Rightarrow> bio_heap \<Rightarrow> bool" where
  "pair_source x y h \<longleftrightarrow> bio_inv h \<and> (\<exists>b p. bio_at h x = Some b \<and> bio_method b = methods_biop \<and>
     pair_at h x = Some p \<and> pb_peer p = Some y)"

definition queue_of :: "nat \<Rightarrow> bio_heap \<Rightarrow> bytes" where
  "queue_of y h = (case pipes h y of None \<Rightarrow> [] | Some d \<Rightarrow> pe_data d)"

definition pair_final :: "nat \<Rightarrow> bio_heap \<Rightarrow> int" where
  "pair_final y h = (case pipes h y of None \<Rightarrow> 0 | Some d \<Rightarrow> if pe_closed d then 0 else - 1)"

definition mem_source :: "nat \<Rightarrow> bio_heap \<Rightarrow> bool" where
  "mem_source x h \<longleftrightarrow> bio_inv h \<and> (\<exists>b m. bio_at h x = Some b \<and> bio_method b = mem_method \<and> bio_ptr b = Ptr_mem m \<and>
     (bio_num b = 0 \<or> bio_num b = - 1))"

definition mem_pending :: "nat \<Rightarrow> bio_heap \<Rightarrow> bytes" where
  "mem_pending x h = (case mem_at h x of None \<Rightarrow> [] | Some m \<Rightarrow> mem_contents m)"

definition mem_final :: "nat \<Rightarrow> bio_heap \<Rightarrow> int" where
  "mem_final x h = (case bio_at h x of None \<Rightarrow> 0 | Some b \<Rightarrow> bio_num b)"

lemma pair_source_read:
  assumes s: "pair_source x y h" and n: "0 < n"
  shows "\<exists>h'. pair_source x y h' \<and> pair_final y h' = pair_final y h \<and>
    (if queue_of y h = [] then BIO_read h x n = Some (pair_final y h, [], h') \<and> queue_of y h' = []
     else let k = min (nat n) (length (queue_of y h))
          in BIO_read h x n = Some (int k, take k (queue_of y h), h') \<and> queue_of y h' = drop k (queue_of y h))"
proof -
  obtain b p where b: "bio_inv h" "bio_at h x = Some b" "bio_method b = methods_biop" "pair_at h x = Some p" "pb_peer p = Some y"
    using s by (auto simp: pair_source_def)
  obtain q where q: "pair_at h y = Some q" "pb_peer q = Some x" "y \<noteq> x" using pair_link [OF b(1,4,5)] by metis
  obtain h' b' where h': "BIO_read h x n = Some (fst (pipe_read (pipes h) x n), fst (snd (pipe_read (pipes h) x n)), h')" "bio_inv h'"
    "pipes h' = snd (snd (pipe_read (pipes h) x n))" "bio_at h' x = Some b'" "bio_method b' = methods_biop"
    using BIO_read_pair [OF b(1-3)] by metis
  have x': "pipes h' x = pipes h x" using h'(3) b(4,5) q by (auto simp: pipe_read_def pipes_at Let_def)
  then obtain p' where "pair_at h' x = Some p'" "pb_peer p' = Some y"
    using b(4,5) by (auto simp: pipes_def end_of_def)
  then have "pair_source x y h'" using h' by (simp add: pair_source_def)
  then show ?thesis using h'(1,3) n b(4,5) q
    by (intro exI [of _ h']) (auto simp: pipe_read_def pipes_at Let_def queue_of_def pair_final_def)
qed

lemma mem_source_read:
  assumes s: "mem_source x h" and n: "0 < n" "n \<le> int C_INT_MAX"
  shows "\<exists>h'. mem_source x h' \<and> mem_final x h' = mem_final x h \<and>
    (if mem_pending x h = [] then BIO_read h x n = Some (mem_final x h, [], h') \<and> mem_pending x h' = []
     else let k = min (nat n) (length (mem_pending x h))
          in BIO_read h x n = Some (int k, take k (mem_pending x h), h') \<and> mem_pending x h' = drop k (mem_pending x h))"
proof -
  obtain b m where b: "bio_inv h" "bio_at h x = Some b" "bio_method b = mem_method" "bio_ptr b = Ptr_mem m" "bio_num b = 0 \<or> bio_num b = - 1"
    using s by (auto simp: mem_source_def)
  have m: "mem_at h x = Some m" using b by (simp add: mem_at_iff)
  have x: "0 < x" "bio_init b" using bio_inv_ok [OF b(1,2)] b(3) by (auto simp: bio_ok_def)
  obtain h1 m' where h1: "mem_read h x n =
      Some (if mem_contents m = [] then bio_num b else int (min (nat n) (length (mem_contents m))), take (nat n) (mem_contents m), h1)"
    "bio_inv h1" "mem_at h1 x = Some m'" "mem_contents m' = drop (nat n) (mem_contents m)"
    using mem_read_ok [OF b(1) m b(2) n] by metis
  obtain b1 where b1: "bio_at h1 x = Some b1" "bio_num b1 = bio_num b" "bio_method b1 = mem_method" "bio_ptr b1 = Ptr_mem m'"
    using mem_read_frame [OF h1(1) b(2)] h1(3) b(3) by (auto simp: mem_at_iff)
  let ?r = "if mem_contents m = [] then bio_num b else int (min (nat n) (length (mem_contents m)))"
  let ?f = "\<lambda>b. b\<lparr>bio_num_read := bio_num_read b + word_of_int ?r\<rparr>"
  define h' where "h' = (if ?r > 0 then bio_upd h1 x ?f else h1)"
  have e: "BIO_read h x n = Some (?r, take (nat n) (mem_contents m), h')"
    using x b(2,3) n h1(1) by (simp add: BIO_read_def h'_def)
  have inv: "bio_inv h'" unfolding h'_def using bio_inv_counted(1) [OF h1(2) bio_frame_intros(4)] .
  obtain b' where b': "bio_at h' x = Some b'" "bio_num b' = bio_num b" "bio_method b' = mem_method" "bio_ptr b' = Ptr_mem m'"
    unfolding h'_def using b1 by (cases "0 < ?r") (simp_all only: if_True if_False bio_at_upd, simp_all)
  then have "mem_at h' x = Some m'" by (simp add: mem_at_iff)
  then have "mem_source x h'" "mem_final x h' = mem_final x h" "mem_pending x h' = drop (nat n) (mem_contents m)"
    using b' inv b h1(4) by (auto simp: mem_source_def mem_final_def mem_pending_def)
  then show ?thesis using e m b(2)
    by (intro exI [of _ h']) (auto simp: mem_pending_def mem_final_def Let_def min_def)
qed

interpretation pair_source: byte_source "\<lambda>h n. BIO_read h x n" "queue_of y" "pair_final y" "pair_source x y" for x y
proof
  fix h :: bio_heap and n :: int assume a: "pair_source x y h" "0 < n"
  show "\<exists>k s'. BIO_read h x n = Some (int k, take k (queue_of y h), s') \<and> 0 < k \<and> k \<le> nat n \<and> k \<le> length (queue_of y h) \<and>
      pair_source x y s' \<and> queue_of y s' = drop k (queue_of y h) \<and> pair_final y s' = pair_final y h" if "queue_of y h \<noteq> []"
    using pair_source_read [OF a] a(2) that
    by (intro exI [of _ "min (nat n) (length (queue_of y h))"]) (auto simp: Let_def)
  show "\<exists>s'. BIO_read h x n = Some (pair_final y h, [], s') \<and> pair_source x y s' \<and> queue_of y s' = [] \<and> pair_final y s' = pair_final y h"
    if "queue_of y h = []" using pair_source_read [OF a] that by auto
qed (auto simp: pair_final_def split: option.splits)

interpretation mem_source: byte_source "\<lambda>h n. BIO_read h x n" "mem_pending x" "mem_final x" "mem_source x" for x
proof
  fix h :: bio_heap and n :: int assume a: "mem_source x h" "0 < n" "n \<le> int C_INT_MAX"
  show "\<exists>k s'. BIO_read h x n = Some (int k, take k (mem_pending x h), s') \<and> 0 < k \<and> k \<le> nat n \<and> k \<le> length (mem_pending x h) \<and>
      mem_source x s' \<and> mem_pending x s' = drop k (mem_pending x h) \<and> mem_final x s' = mem_final x h" if "mem_pending x h \<noteq> []"
    using mem_source_read [OF a] a(2) that
    by (intro exI [of _ "min (nat n) (length (mem_pending x h))"]) (auto simp: Let_def)
  show "\<exists>s'. BIO_read h x n = Some (mem_final x h, [], s') \<and> mem_source x s' \<and> mem_pending x s' = [] \<and> mem_final x s' = mem_final x h"
    if "mem_pending x h = []" using mem_source_read [OF a] that by auto
qed (auto simp: mem_source_def mem_final_def)

end
