(* ===== verification/Bio_Transfer.thy ===== *)
theory Bio_Transfer
  imports Bio_Stream
begin

text \<open>
  Moving bytes through BIOs. The locale \<open>byte_sink\<close> is what \<open>BIO_write_all\<close> and \<open>BIO_indent\<close> rely on of
  \<open>BIO_write\<close>; ends of a pair and memory BIOs satisfy it. The last section shows that a pair delivers everything
  its two users write and read in turns.
\<close>

section \<open>Sinks\<close>

text \<open>\<open>written\<close> is what the sink has taken and nobody has removed.\<close>

locale byte_sink =
  fixes wr :: "'s \<Rightarrow> bytes \<Rightarrow> (int \<times> 's) option"
    and written :: "'s \<Rightarrow> bytes"
    and ok :: "'s \<Rightarrow> bool"
  assumes wr_ok: "ok s \<Longrightarrow> bs \<noteq> [] \<Longrightarrow> length bs \<le> C_INT_MAX \<Longrightarrow>
      \<exists>r s'. wr s bs = Some (r, s') \<and> ok s' \<and> r \<le> int (length bs) \<and> written s' = written s @ take (nat r) bs"
begin

lemma write_all_ok:
  "ok s \<Longrightarrow> \<exists>res s' k. BIO_write_all wr s data = Some (res, s') \<and> ok s' \<and> written s' = written s @ take k data \<and>
     k \<le> length data \<and> (res \<longrightarrow> k = length data)"
proof (induction "length data" arbitrary: s data rule: less_induct)
  case less
  show ?case
  proof (cases "data = []")
    case True
    then show ?thesis using less.prems by (subst BIO_write_all.simps) (simp add: exI [of _ True])
  next
    case False
    let ?bs = "take C_INT_MAX data"
    have "?bs \<noteq> []" "length ?bs \<le> C_INT_MAX" using False by (simp_all add: C_INT_MAX_def)
    then obtain r s1 where r: "wr s ?bs = Some (r, s1)" "ok s1" "r \<le> int (length ?bs)" "written s1 = written s @ take (nat r) ?bs"
      using wr_ok [OF less.prems] by blast
    have e: "BIO_write_all wr s data = (if r \<le> 0 then Some (False, s1) else BIO_write_all wr s1 (drop (nat r) data))"
      using False r(1) by (subst BIO_write_all.simps) simp
    show ?thesis
    proof (cases "r \<le> 0")
      case True
      then show ?thesis using e r by (intro exI [of _ False] exI [of _ s1] exI [of _ 0]) simp
    next
      case pos: False
      have n: "nat r \<le> length data" "0 < nat r" "nat r \<le> C_INT_MAX" using r(3) pos by auto
      obtain res s' k where k: "BIO_write_all wr s1 (drop (nat r) data) = Some (res, s')" "ok s'"
        "written s' = written s1 @ take k (drop (nat r) data)" "k \<le> length data - nat r" "res \<longrightarrow> k = length data - nat r"
        using less.hyps [of "drop (nat r) data" s1] r(2) n False by auto
      have "written s' = written s @ take (nat r + k) data" using k(3) r(4) n(3) by (simp add: take_add min_def)
      then show ?thesis using e k(1,2,4,5) pos n by (intro exI [of _ res] exI [of _ s'] exI [of _ "nat r + k"]) auto
    qed
  qed
qed

lemma indent_loop_ok:
  "ok s \<Longrightarrow> \<exists>res s' k. BIO_indent_loop wr s n = Some (res, s') \<and> ok s' \<and> written s' = written s @ replicate k 0x20 \<and>
     k \<le> n \<and> (res \<longrightarrow> k = n)"
proof (induction n arbitrary: s)
  case (Suc n)
  obtain r s1 where r: "wr s [0x20] = Some (r, s1)" "ok s1" "r \<le> 1" "written s1 = written s @ take (nat r) [0x20]"
    using wr_ok [OF Suc.prems, of "[0x20]"] by (auto simp: C_INT_MAX_def)
  show ?case
  proof (cases "r = 1")
    case True
    obtain res s' k where "BIO_indent_loop wr s1 n = Some (res, s')" "ok s'" "written s' = written s1 @ replicate k 0x20" "k \<le> n" "res \<longrightarrow> k = n"
      using Suc.IH [OF r(2)] by blast
    then show ?thesis using r True by (intro exI [of _ res] exI [of _ s'] exI [of _ "Suc k"]) simp
  next
    case False
    then show ?thesis using r by (intro exI [of _ False] exI [of _ s1] exI [of _ 0]) simp
  qed
qed (simp add: exI [of _ True])

end

section \<open>The sinks\<close>

lemma pair_source_sym: "pair_source x y h \<Longrightarrow> pair_source y x h"
proof -
  assume s: "pair_source x y h"
  then obtain p where p: "bio_inv h" "pair_at h x = Some p" "pb_peer p = Some y" by (auto simp: pair_source_def)
  obtain q where q: "pair_at h y = Some q" "pb_peer q = Some x" using pair_link [OF p] by metis
  then show ?thesis using p(1) bio_inv_peer [OF p(1)] by (fastforce simp: pair_source_def pair_at_iff)
qed

lemma pair_source_write:
  assumes s: "pair_source x y h"
  shows "\<exists>r h'. BIO_write libc h x bs = Some (r, h') \<and> pair_source x y h' \<and> pair_final x h' = pair_final x h \<and>
    r \<le> int (length bs) \<and> queue_of x h' = queue_of x h @ take (nat r) bs \<and>
    (pair_final x h = - 1 \<and> queue_of x h = [] \<and> bs \<noteq> [] \<longrightarrow> 0 < r)"
proof -
  obtain b p where b: "bio_inv h" "bio_at h x = Some b" "bio_method b = methods_biop" "pair_at h x = Some p" "pb_peer p = Some y"
    using s by (auto simp: pair_source_def)
  have ring: "ring_ok p" "0 < pb_size p" "length (ring_contents p) \<le> pb_size p"
    using pair_link [OF b(1,4,5)] by (metis ring_okE length_ring_contents less_imp_le gr0I not_less0 le_0_eq)+
  obtain h' b' where h': "BIO_write libc h x bs = Some (fst (pipe_write (pipes h) x bs), h')" "bio_inv h'"
    "pipes h' = snd (pipe_write (pipes h) x bs)" "bio_at h' x = Some b'" "bio_method b' = methods_biop"
    using BIO_write_pair [OF b(1-3)] by metis
  have "\<exists>e. pipes h' x = Some e \<and> pe_peer e = Some y \<and> pe_closed e = pb_closed p"
    using h'(3) b(4,5) by (auto simp: pipe_write_def pipes_at Let_def split: if_splits)
  then obtain e where e: "pipes h' x = Some e" "pe_peer e = Some y" "pe_closed e = pb_closed p" by blast
  then obtain p' where "pair_at h' x = Some p'" "pb_peer p' = Some y" by (auto simp: pipes_def end_of_def)
  then have "pair_source x y h'" using h' by (simp add: pair_source_def)
  moreover have "pair_final x h' = pair_final x h" using e b(4) by (simp add: pair_final_def pipes_at)
  moreover have "fst (pipe_write (pipes h) x bs) \<le> int (length bs) \<and>
      queue_of x h' = queue_of x h @ take (nat (fst (pipe_write (pipes h) x bs))) bs \<and>
      (pair_final x h = - 1 \<and> queue_of x h = [] \<and> bs \<noteq> [] \<longrightarrow> 0 < fst (pipe_write (pipes h) x bs))"
    using h'(3) b(4,5) ring(2) by (auto simp: pipe_write_def pipes_at Let_def queue_of_def pair_final_def)
  ultimately show ?thesis using h'(1) by blast
qed

lemma mem_source_write:
  assumes s: "mem_source x h" and bs: "bs \<noteq> []" "length bs \<le> C_INT_MAX"
  shows "\<exists>r h'. BIO_write libc h x bs = Some (r, h') \<and> mem_source x h' \<and> r \<le> int (length bs) \<and>
    mem_pending x h' = mem_pending x h @ take (nat r) bs \<and> (r = - 1 \<or> r = int (length bs))"
proof -
  obtain b m where b: "bio_inv h" "bio_at h x = Some b" "bio_method b = mem_method" "bio_ptr b = Ptr_mem m" "bio_num b = 0 \<or> bio_num b = - 1"
    using s by (auto simp: mem_source_def)
  have m: "mem_at h x = Some m" using b by (simp add: mem_at_iff)
  have x: "0 < x" "bio_init b" using bio_inv_ok [OF b(1,2)] b(3) by (auto simp: bio_ok_def)
  obtain h1 m' r where h1: "mem_write libc h x bs = Some (r, h1)" "bio_inv h1" "mem_at h1 x = Some m'"
    "r = - 1 \<and> mem_contents m' = mem_contents m \<or> r = int (length bs) \<and> mem_contents m' = mem_contents m @ bs"
    using mem_write_ok [OF b(1) m b(2) bs, of libc] by metis
  obtain b1 where b1: "bio_at h1 x = Some b1" "bio_num b1 = bio_num b" "bio_method b1 = mem_method" "bio_ptr b1 = Ptr_mem m'"
    using mem_write_frame [OF h1(1) b(2)] h1(3) b(3) by (auto simp: mem_at_iff)
  let ?f = "\<lambda>b. b\<lparr>bio_num_write := bio_num_write b + word_of_int r\<rparr>"
  define h' where "h' = (if r > 0 then bio_upd h1 x ?f else h1)"
  have e: "BIO_write libc h x bs = Some (r, h')" using x b(2,3) bs h1(1) by (simp add: BIO_write_def h'_def)
  have inv: "bio_inv h'" unfolding h'_def using bio_inv_counted(1) [OF h1(2) bio_frame_intros(5)] .
  obtain b' where b': "bio_at h' x = Some b'" "bio_num b' = bio_num b" "bio_method b' = mem_method" "bio_ptr b' = Ptr_mem m'"
    unfolding h'_def using b1 by (cases "0 < r") (simp_all only: if_True if_False bio_at_upd, simp_all)
  then have "mem_at h' x = Some m'" by (simp add: mem_at_iff)
  then have "mem_source x h'" "mem_pending x h' = mem_contents m'"
    using b' inv b by (auto simp: mem_source_def mem_pending_def)
  then show ?thesis using e m h1(4) by (intro exI [of _ r] exI [of _ h']) (auto simp: mem_pending_def)
qed

interpretation pair_sink: byte_sink "\<lambda>h bs. BIO_write libc h x bs" "queue_of x" "pair_source x y" for libc x y
  by unfold_locales (use pair_source_write in blast)

interpretation mem_sink: byte_sink "\<lambda>h bs. BIO_write libc h x bs" "mem_pending x" "mem_source x" for libc x
  by unfold_locales (use mem_source_write in blast)

section \<open>Transfer\<close>

text \<open>The owner of \<open>x\<close> writes as much of its data as the pair takes, then the owner of \<open>y\<close> reads, and so on; \<open>ns\<close> are
  the sizes of the reads. The result is what was read and what could not yet be written.\<close>

primrec transfer :: "(nat \<Rightarrow> bool) \<Rightarrow> nat \<Rightarrow> nat \<Rightarrow> int list \<Rightarrow> bio_heap \<Rightarrow> bytes \<Rightarrow> (bytes \<times> bytes \<times> bio_heap) option" where
  "transfer libc x y [] h data = Some ([], data, h)"
| "transfer libc x y (n # ns) h data =
     do {
       (r, h) \<leftarrow> BIO_write libc h x (take C_INT_MAX data);
       (_, out, h) \<leftarrow> BIO_read h y n;
       (got, rest, h) \<leftarrow> transfer libc x y ns h (drop (nat r) data);
       Some (out @ got, rest, h)
     }"

lemma transfer_round:
  assumes s: "pair_source x y h" and n: "0 < n"
  obtains r h1 k h2 where "BIO_write libc h x (take C_INT_MAX data) = Some (r, h1)" "pair_source x y h2" "pair_final x h2 = pair_final x h"
    "BIO_read h1 y n = Some (if k = 0 then pair_final x h else int k, take k (queue_of x h @ take (nat r) data), h2)"
    "queue_of x h2 = drop k (queue_of x h @ take (nat r) data)" "k \<le> length (queue_of x h @ take (nat r) data)"
    "pair_final x h = - 1 \<and> queue_of x h @ data \<noteq> [] \<Longrightarrow> 0 < k"
proof -
  let ?bs = "take C_INT_MAX data"
  obtain r h1 where r: "BIO_write libc h x ?bs = Some (r, h1)" "pair_source x y h1" "pair_final x h1 = pair_final x h"
    "r \<le> int (length ?bs)" "queue_of x h1 = queue_of x h @ take (nat r) ?bs"
    "pair_final x h = - 1 \<and> queue_of x h = [] \<and> ?bs \<noteq> [] \<Longrightarrow> 0 < r"
    using pair_source_write [OF s, of libc ?bs] by blast
  have "take (nat r) ?bs = take (nat r) data" using r(4) by (cases "length data \<le> C_INT_MAX") auto
  then have q: "queue_of x h1 = queue_of x h @ take (nat r) data" using r(5) by simp
  define k where "k = min (nat n) (length (queue_of x h1))"
  have kz: "k = 0 \<longleftrightarrow> queue_of x h1 = []" using n by (auto simp: k_def min_def split: if_splits)
  obtain h2 where h2: "pair_source y x h2" "pair_final x h2 = pair_final x h1"
    "if queue_of x h1 = [] then BIO_read h1 y n = Some (pair_final x h1, [], h2) \<and> queue_of x h2 = []
     else BIO_read h1 y n = Some (int k, take k (queue_of x h1), h2) \<and> queue_of x h2 = drop k (queue_of x h1)"
    using pair_source_read [OF pair_source_sym [OF r(2)] n] unfolding Let_def k_def by blast
  show thesis
  proof (rule that [OF r(1) pair_source_sym [OF h2(1)]])
    show "pair_final x h2 = pair_final x h" using h2(2) r(3) by simp
    show "BIO_read h1 y n = Some (if k = 0 then pair_final x h else int k, take k (queue_of x h @ take (nat r) data), h2)"
      "queue_of x h2 = drop k (queue_of x h @ take (nat r) data)"
      unfolding q [symmetric] using h2(3) r(3) kz by (cases "queue_of x h1 = []"; simp)+
    show "k \<le> length (queue_of x h @ take (nat r) data)" by (simp add: k_def flip: q)
    show "0 < k" if c: "pair_final x h = - 1 \<and> queue_of x h @ data \<noteq> []"
    proof -
      have "queue_of x h1 \<noteq> []"
        using c q r(6) by (cases "queue_of x h = []"; cases data) (auto simp: C_INT_MAX_def)
      then show ?thesis using n by (simp add: k_def)
    qed
  qed
qed

lemma transfer_ok:
  assumes "pair_source x y h" "\<forall>n\<in>set ns. 0 < n"
  shows "\<exists>got rest h'. transfer libc x y ns h data = Some (got, rest, h') \<and> pair_source x y h' \<and>
    got @ queue_of x h' @ rest = queue_of x h @ data \<and>
    (pair_final x h = - 1 \<and> length (queue_of x h @ data) \<le> length ns \<longrightarrow> queue_of x h' @ rest = [])"
  using assms
proof (induction ns arbitrary: h data)
  case (Cons n ns)
  have n: "0 < n" using Cons.prems(2) by simp
  obtain r h1 k h2 where r: "BIO_write libc h x (take C_INT_MAX data) = Some (r, h1)" "pair_source x y h2" "pair_final x h2 = pair_final x h"
    "BIO_read h1 y n = Some (if k = 0 then pair_final x h else int k, take k (queue_of x h @ take (nat r) data), h2)"
    "queue_of x h2 = drop k (queue_of x h @ take (nat r) data)" "k \<le> length (queue_of x h @ take (nat r) data)"
    "pair_final x h = - 1 \<and> queue_of x h @ data \<noteq> [] \<Longrightarrow> 0 < k"
    using transfer_round [OF Cons.prems(1) n, of libc data] by metis
  obtain got rest h' where h': "transfer libc x y ns h2 (drop (nat r) data) = Some (got, rest, h')" "pair_source x y h'"
    "got @ queue_of x h' @ rest = queue_of x h2 @ drop (nat r) data"
    "pair_final x h2 = - 1 \<and> length (queue_of x h2 @ drop (nat r) data) \<le> length ns \<longrightarrow> queue_of x h' @ rest = []"
    using Cons.IH [OF r(2), of "drop (nat r) data"] Cons.prems(2) by auto
  let ?q = "queue_of x h @ take (nat r) data"
  have e: "transfer libc x y (n # ns) h data = Some (take k ?q @ got, rest, h')" using r(1,4) h'(1) by simp
  have all: "?q @ drop (nat r) data = queue_of x h @ data" by simp
  have "(take k ?q @ got) @ queue_of x h' @ rest = take k ?q @ drop k ?q @ drop (nat r) data"
    using h'(3) r(5) by simp
  also have "\<dots> = queue_of x h @ data" by (metis all append_assoc append_take_drop_id)
  finally have sum: "(take k ?q @ got) @ queue_of x h' @ rest = queue_of x h @ data" .
  have "length (queue_of x h2 @ drop (nat r) data) = length (queue_of x h @ data) - k"
  proof -
    have "length ?q + length (drop (nat r) data) = length (queue_of x h @ data)" by (simp only: all flip: length_append)
    moreover have "length (queue_of x h2) = length ?q - k" by (simp only: r(5) length_drop)
    ultimately show ?thesis using r(6) by (simp only: length_append)
  qed
  moreover have "got @ queue_of x h' @ rest = []" if "queue_of x h @ data = []" using sum that by simp
  ultimately have "queue_of x h' @ rest = []" if "pair_final x h = - 1" "length (queue_of x h @ data) \<le> length (n # ns)"
    using that h'(4) r(3,7) by (cases "queue_of x h @ data = []") auto
  then show ?case using e h'(2) sum by blast
qed simp

section \<open>Concrete states\<close>

lemma fresh_pair_source:
  assumes "0 < sz" "sz < 2 ^ 32"
  shows "pair_source 1 2 (fresh_pair sz)" "queue_of 1 (fresh_pair sz) = []" "pair_final 1 (fresh_pair sz) = - 1"
  using assms
  by (auto simp: fresh_pair_def pair_source_def bio_inv_def bio_ok_def pair_ok_def linked_def ring_ok_def pair_at_def
      queue_of_def pair_final_def pipes_def end_of_def ring_contents_def)

text \<open>A read-only memory BIO.\<close>

definition fresh_mem :: "bytes \<Rightarrow> bio_heap" where
  "fresh_mem bs = snd (BIO_new_mem_buf (\<lambda>n. n < 2 ^ 20) \<lparr>bio_at = Map.empty, bio_brk = 0\<rparr> (Some bs))"

lemma fresh_mem_source:
  assumes "length bs \<le> C_INT_MAX"
  shows "mem_source 1 (fresh_mem bs)" "mem_pending 1 (fresh_mem bs) = bs" "mem_final 1 (fresh_mem bs) = 0"
proof -
  have e: "fresh_mem bs = \<lparr>bio_at = [1 \<mapsto> \<lparr>bio_method = mem_method, bio_init = True, bio_shutdown = 1, bio_flags = BIO_FLAGS_MEM_RDONLY,
      bio_retry_reason = 0, bio_num = 0, bio_ptr = Ptr_mem \<lparr>bm_length = length bs, bm_block = Some bs, bm_pos = 0, bm_max = length bs\<rparr>,
      bio_num_read = 0, bio_num_write = 0\<rparr>], bio_brk = 1\<rparr>"
    by (simp add: fresh_mem_def BIO_new_mem_buf_def BIO_new_def OPENSSL_malloc_def OPENSSL_MALLOC_PREFIX_def mem_new_def BUF_MEM_new_def
        mem_put_def bio_upd_def Let_def)
  show "mem_source 1 (fresh_mem bs)" "mem_pending 1 (fresh_mem bs) = bs" "mem_final 1 (fresh_mem bs) = 0"
    using assms unfolding e
    by (simp_all add: mem_source_def bio_inv_def bio_ok_def mem_ok_def mem_pending_def mem_final_def mem_at_def mem_contents_def bm_data_def
        BIO_test_flags_def BIO_FLAGS_MEM_RDONLY_def)
qed

section \<open>Other results at the end of the data\<close>

text \<open>A memory BIO with nothing to be read, whose result at the end is neither \<open>0\<close> nor \<open>- 1\<close> but \<open>- 2\<close>.\<close>

definition mem_minus_two :: "nat \<Rightarrow> bio_heap \<Rightarrow> bool" where
  "mem_minus_two x h \<longleftrightarrow> bio_inv h \<and>
     (\<exists>b m. bio_at h x = Some b \<and> bio_method b = mem_method \<and> bio_num b = - 2 \<and> mem_at h x = Some m \<and> mem_contents m = [])"

lemma mem_minus_two_read:
  assumes s: "mem_minus_two x h" and n: "0 < n" "n \<le> int C_INT_MAX"
  shows "\<exists>h'. BIO_read h x n = Some (- 2, [], h') \<and> mem_minus_two x h'"
proof -
  obtain b m where b: "bio_inv h" "bio_at h x = Some b" "bio_method b = mem_method" "bio_num b = - 2" "mem_at h x = Some m" "mem_contents m = []"
    using s by (auto simp: mem_minus_two_def)
  obtain h' m' where h': "mem_read h x n = Some (- 2, [], h')" "bio_inv h'" "mem_at h' x = Some m'" "mem_contents m' = []"
    using mem_read_ok [OF b(1,5,2) n] b(4,6) by auto
  obtain b' where b': "bio_at h' x = Some b'" "bio_num b' = - 2" "bio_method b' = mem_method"
    using mem_read_frame [OF h'(1) b(2)] b(3,4) by auto
  have "0 < x" "bio_init b" using bio_inv_mem [OF b(1,5)] b(2) by auto
  then have "BIO_read h x n = Some (- 2, [], h')" using b(2,3) n(1) h'(1) by (simp add: BIO_read_def)
  then show ?thesis using h' b' by (auto simp: mem_minus_two_def)
qed

lemma read_all_loop_minus_two:
  assumes "mem_minus_two x h" "todo = (len + 2 ^ 64 - got) mod 2 ^ 64" "0 < todo" "got < 2 ^ 64" "max_len \<le> len" "len < 2 ^ 63"
  shows "read_all_loop libc (\<lambda>h n. BIO_read h x n) max_len h out got len = None"
  using assms
proof (induction "C_INT_MAX - todo" arbitrary: todo h out got rule: less_induct)
  case less
  have ne: "got \<noteq> len" using less.prems(2,3) by auto
  show ?case
  proof (cases "todo < C_INT_MAX")
    case False
    then show ?thesis using ne less.prems(2) by (subst read_all_loop.simps) (simp add: c_assert_def)
  next
    case True
    obtain h' where h': "BIO_read h x (int todo) = Some (- 2, [], h')" "mem_minus_two x h'"
      using mem_minus_two_read [OF less.prems(1), of "int todo"] less.prems(3) True by auto
    define got' where "got' = nat ((int got - 2) mod 2 ^ 64)"
    have got': "got' < 2 ^ 64" by (simp add: got'_def nat_less_iff)
    have t: "todo + 2 = (len + 2 ^ 64 - got') mod 2 ^ 64"
    proof -
      have "int ((len + 2 ^ 64 - got') mod 2 ^ 64) = (int len + 2 ^ 64 - (int got - 2) mod 2 ^ 64) mod 2 ^ 64"
        using got' by (simp add: zmod_int of_nat_diff got'_def)
      also have "\<dots> = (int len - int got + 2) mod 2 ^ 64"
      proof -
        have "int len + 2 ^ 64 - (int got - 2) = (int len - int got + 2) + 2 ^ 64" by simp
        then show ?thesis by (metis mod_diff_right_eq mod_add_self2)
      qed
      also have "\<dots> = ((int len + 2 ^ 64 - int got) mod 2 ^ 64 + 2) mod 2 ^ 64"
      proof -
        have "int len + 2 ^ 64 - int got + 2 = (int len - int got + 2) + 2 ^ 64" by simp
        then show ?thesis by (metis mod_add_left_eq mod_add_self2)
      qed
      also have "(int len + 2 ^ 64 - int got) mod 2 ^ 64 = int todo"
        using less.prems(2,4) by (simp add: zmod_int of_nat_diff)
      also have "(int todo + 2) mod 2 ^ 64 = int todo + 2" using True by (simp add: C_INT_MAX_def)
      finally show ?thesis by linarith
    qed
    have IH: "read_all_loop libc (\<lambda>h n. BIO_read h x n) max_len h' out' got' len = None" for out'
    proof (rule less.hyps)
      show "C_INT_MAX - (todo + 2) < C_INT_MAX - todo" using True by linarith
    qed (rule h'(2) t got' less.prems(5,6) | simp)+
    have g: "nat ((int got - 2) mod 18446744073709551616) = got'" by (simp add: got'_def)
    show ?thesis using ne True h'(1) less.prems(2,5) IH
      by (subst read_all_loop.simps) (simp add: c_assert_def Let_def g)
  qed
qed

text \<open>On such a BIO \<open>bio_read_all\<close> moves backwards, two bytes a turn, until the assertion on the size of a read fails.\<close>

lemma bio_read_all_minus_two:
  assumes "mem_minus_two x h" "length prefx < max_len" "max_len \<le> length prefx + kChunkSize" "max_len < 2 ^ 63"
    and "OPENSSL_malloc libc max_len"
  shows "bio_read_all libc (\<lambda>h n. BIO_read h x n) h prefx max_len = None"
proof -
  have s: "size_add (length prefx) kChunkSize = length prefx + kChunkSize"
    using assms(2,4) by (simp add: size_add_def kChunkSize_def)
  have "(max_len + 2 ^ 64 - length prefx) mod 2 ^ 64 = max_len - length prefx"
  proof -
    have e: "max_len + 2 ^ 64 - length prefx = (max_len - length prefx) + 2 ^ 64" using assms(2) by linarith
    have "max_len - length prefx < 2 ^ 64" using assms(4) by simp
    then show ?thesis unfolding e mod_add_self2 by (rule mod_less)
  qed
  then have "read_all_loop libc (\<lambda>h n. BIO_read h x n) max_len h prefx (length prefx) max_len = None"
    using assms(1,2,4) by (intro read_all_loop_minus_two [where todo = "max_len - length prefx"]) simp_all
  then show ?thesis using assms(2,3,5) s by (auto simp: bio_read_all_def Let_def)
qed

section \<open>The properties\<close>

text \<open>C6: each direction of a BIO pair is a bounded first-in first-out queue. On any state that satisfies the
  invariant, \<open>BIO_write\<close> and \<open>BIO_read\<close> of an end return what the queue would (how much was taken, end of data when the
  writer has shut down, \<open>- 1\<close> when the other side must act first, \<open>- 2\<close> without a peer), they change the queues alike
  and they keep the invariant, wherever the data lie in the ring.\<close>

theorem bio_pair_is_queue:
  assumes "bio_inv h" "bio_at h x = Some b" "bio_method b = methods_biop"
  shows "(\<exists>h'. BIO_write libc h x bs = Some (fst (pipe_write (pipes h) x bs), h') \<and> bio_inv h' \<and>
            pipes h' = snd (pipe_write (pipes h) x bs)) \<and>
    (\<exists>h'. BIO_read h x n = Some (fst (pipe_read (pipes h) x n), fst (snd (pipe_read (pipes h) x n)), h') \<and> bio_inv h' \<and>
            pipes h' = snd (snd (pipe_read (pipes h) x n)))"
  using BIO_write_pair [OF assms, of libc bs] BIO_read_pair [OF assms, of n] by blast

theorem bio_pair_is_queue_witness:
  "\<exists>h'. BIO_write (\<lambda>n. True) (fresh_pair 4) 1 [1, 2, 3, 4, 5] = Some (4, h') \<and> bio_inv h'"
proof -
  obtain b where b: "bio_inv (fresh_pair 4)" "bio_at (fresh_pair 4) 1 = Some b" "bio_method b = methods_biop"
    using fresh_pair_source(1) [of 4] by (auto simp: pair_source_def)
  have "fst (pipe_write (pipes (fresh_pair 4)) 1 [1, 2, 3, 4, 5]) = 4"
    by (simp add: pipe_write_def pipes_def pair_at_def fresh_pair_def end_of_def ring_contents_def Let_def)
  then show ?thesis using bio_pair_is_queue [OF b, of "\<lambda>n. True" "[1, 2, 3, 4, 5]" 0] by auto
qed

text \<open>C7: data moves through a pair. Whatever the sizes of the ring and of the reads, when one side writes what it
  can and the other reads, in turns, the bytes read, those still in the ring and those not yet written are the
  data in order; and as long as the writer has not shut down, as many rounds as there are bytes deliver everything:
  full and empty buffers are reported, never a deadlock.\<close>

theorem bio_pair_delivers:
  assumes "pair_source x y h" "\<forall>n\<in>set ns. 0 < n"
  shows "\<exists>got rest h'. transfer libc x y ns h data = Some (got, rest, h') \<and> pair_source x y h' \<and>
    got @ queue_of x h' @ rest = queue_of x h @ data \<and>
    (pair_final x h = - 1 \<and> length (queue_of x h @ data) \<le> length ns \<longrightarrow> got = queue_of x h @ data)"
proof -
  obtain got rest h' where "transfer libc x y ns h data = Some (got, rest, h')" "pair_source x y h'"
    "got @ queue_of x h' @ rest = queue_of x h @ data"
    "pair_final x h = - 1 \<and> length (queue_of x h @ data) \<le> length ns \<longrightarrow> queue_of x h' @ rest = []"
    using transfer_ok [OF assms, of libc data] by blast
  then show ?thesis by fastforce
qed

text \<open>Five bytes through a ring of two bytes, read three at a time.\<close>

theorem bio_pair_delivers_witness:
  "\<exists>rest h'. transfer (\<lambda>n. True) 1 2 [3, 3, 3, 3, 3] (fresh_pair 2) [1, 2, 3, 4, 5] = Some ([1, 2, 3, 4, 5], rest, h')"
  using bio_pair_delivers [of 1 2 "fresh_pair 2" "[3, 3, 3, 3, 3]" "\<lambda>n. True" "[1, 2, 3, 4, 5]"] fresh_pair_source [of 2] by auto

text \<open>C8: reading an object of the distinguished encoding rules from a memory BIO. When the bytes to be read begin with
  an object that has a tag number below 31 and is short enough, \<open>BIO_read_asn1\<close> returns exactly that object and leaves
  what follows it. And it returns nothing else: whatever the bytes are, a result is such an object at their front, or
  all that is left when the first two bytes announce an indefinite length; it returns in any case.\<close>

theorem BIO_read_asn1_exact:
  assumes "mem_source x h" "max_len < 2 ^ 64"
  shows "\<exists>r h'. BIO_read_asn1 libc (\<lambda>h n. BIO_read h x n) h max_len = Some (r, h') \<and> mem_source x h' \<and>
    (\<forall>out. r = Inr out \<longrightarrow> mem_pending x h = out @ mem_pending x h' \<and> length out \<le> max_len \<and>
       (\<exists>tag c. low_tag tag \<and> (out = asn1_object tag c \<and> length c \<le> C_INT_MAX \<or>
          out = tag # 0x80 # c \<and> tag AND 0x20 \<noteq> 0 \<and> mem_pending x h' = [] \<and> mem_final x h = 0))) \<and>
    (\<forall>tag c rest. mem_pending x h = asn1_object tag c @ rest \<and> low_tag tag \<and> length c \<le> C_INT_MAX \<and>
       length (asn1_object tag c) \<le> max_len \<and> (\<forall>n\<le>max_len. OPENSSL_malloc libc n) \<longrightarrow>
       r = Inr (asn1_object tag c) \<and> mem_pending x h' = rest)"
proof -
  obtain r h' where r: "BIO_read_asn1 libc (\<lambda>h n. BIO_read h x n) h max_len = Some (r, h')" "mem_source x h'"
    "\<forall>out. r = Inr out \<longrightarrow> mem_pending x h = out @ mem_pending x h' \<and> length out \<le> max_len \<and>
       (\<exists>tag c. low_tag tag \<and> (out = asn1_object tag c \<and> length c \<le> C_INT_MAX \<or>
          out = tag # 0x80 # c \<and> tag AND 0x20 \<noteq> 0 \<and> mem_pending x h' = [] \<and> mem_final x h = 0))"
    using mem_source.BIO_read_asn1_sound [OF assms, of libc] by blast
  have "r = Inr (asn1_object tag c) \<and> mem_pending x h' = rest"
    if "mem_pending x h = asn1_object tag c @ rest" "low_tag tag" "length c \<le> C_INT_MAX"
      "length (asn1_object tag c) \<le> max_len" "\<forall>n\<le>max_len. OPENSSL_malloc libc n" for tag c rest
    using mem_source.BIO_read_asn1_complete [OF assms(1) that(1-4), of libc] that(5) r(1) by auto
  then show ?thesis using r by blast
qed

text \<open>An object of two bytes and one byte after it.\<close>

theorem BIO_read_asn1_exact_witness:
  "\<exists>h'. BIO_read_asn1 (\<lambda>n. True) (\<lambda>h n. BIO_read h 1 n) (fresh_mem [4, 2, 7, 8, 9]) 100 = Some (Inr [4, 2, 7, 8], h') \<and>
     mem_pending 1 h' = [9]"
proof -
  have o: "asn1_object 4 [7, 8] = [4, 2, 7, 8]" by (simp add: asn1_object_def der_length_def)
  have src: "mem_source 1 (fresh_mem [4, 2, 7, 8, 9])" "mem_pending 1 (fresh_mem [4, 2, 7, 8, 9]) = asn1_object 4 [7, 8] @ [9]"
    using fresh_mem_source [of "[4, 2, 7, 8, 9]"] by (simp_all add: C_INT_MAX_def o)
  have "low_tag 4" "length [7, 8 :: byte] \<le> C_INT_MAX" "length (asn1_object 4 [7, 8]) \<le> 100"
    "\<forall>n\<le>100. OPENSSL_malloc (\<lambda>n. True) n"
    by (simp_all add: low_tag_def C_INT_MAX_def o OPENSSL_malloc_def OPENSSL_MALLOC_PREFIX_def)
  note c = this
  have lt: "(100 :: nat) < 2 ^ 64" by simp
  obtain r h' where r: "BIO_read_asn1 (\<lambda>n. True) (\<lambda>h n. BIO_read h 1 n) (fresh_mem [4, 2, 7, 8, 9]) 100 = Some (r, h')"
    "\<forall>tag c rest. mem_pending 1 (fresh_mem [4, 2, 7, 8, 9]) = asn1_object tag c @ rest \<and> low_tag tag \<and> length c \<le> C_INT_MAX \<and>
       length (asn1_object tag c) \<le> 100 \<and> (\<forall>n\<le>100. OPENSSL_malloc (\<lambda>n. True) n) \<longrightarrow>
       r = Inr (asn1_object tag c) \<and> mem_pending 1 h' = rest"
    using BIO_read_asn1_exact [OF src(1) lt, of "\<lambda>n. True"] by blast
  have "r = Inr (asn1_object 4 [7, 8]) \<and> mem_pending 1 h' = [9]" using r(2) src(2) c by blast
  then show ?thesis using r(1) o by simp
qed

text \<open>C9: reading until the end. \<open>bio_read_all\<close>, whose loop has no bound of its own and grows its block as it goes, returns
  for a memory BIO whose result at the end of the data is \<open>0\<close> or \<open>- 1\<close> (the hypothesis \<open>mem_source\<close>; these are the
  results that new memory BIOs have, \<open>BIO_set_mem_eof_return\<close> can set others) and for a connected end of a pair.
  What it returns is the prefix with
  all that was to be read, and it returns that whenever the end is reported by \<open>0\<close>, the total is below
  \<open>max_len\<close> and memory is given out; when it is reported by \<open>- 1\<close> it fails. No assertion fails and nothing is written past the block.\<close>

theorem bio_read_all_returns:
  assumes "length prefx + kChunkSize < 2 ^ 64" "max_len < 2 ^ 64"
  shows "(mem_source x h \<longrightarrow> (\<exists>r h'. bio_read_all libc (\<lambda>h n. BIO_read h x n) h prefx max_len = Some (r, h') \<and> mem_source x h' \<and>
      (\<forall>bs. r = Some bs \<longrightarrow> bs = prefx @ mem_pending x h \<and> mem_pending x h' = []) \<and>
      ((\<forall>n\<le>max_len. OPENSSL_malloc libc n) \<longrightarrow>
         (r \<noteq> None \<longleftrightarrow> mem_final x h = 0 \<and> length prefx + length (mem_pending x h) < max_len)))) \<and>
    (pair_source x y h \<longrightarrow> (\<exists>r h'. bio_read_all libc (\<lambda>h n. BIO_read h x n) h prefx max_len = Some (r, h') \<and> pair_source x y h' \<and>
      (\<forall>bs. r = Some bs \<longrightarrow> bs = prefx @ queue_of y h \<and> queue_of y h' = []) \<and>
      ((\<forall>n\<le>max_len. OPENSSL_malloc libc n) \<longrightarrow>
         (r \<noteq> None \<longleftrightarrow> pair_final y h = 0 \<and> length prefx + length (queue_of y h) < max_len))))"
  using mem_source.bio_read_all_exact [OF _ assms] pair_source.bio_read_all_exact [OF _ assms] by (intro conjI impI)

theorem bio_read_all_returns_witness:
  "\<exists>r h'. bio_read_all (\<lambda>n. True) (\<lambda>h n. BIO_read h 1 n) (fresh_mem [7, 8, 9]) [5] 100 = Some (Some r, h') \<and> r = [5, 7, 8, 9]"
proof -
  have src: "mem_source 1 (fresh_mem [7, 8, 9])" "mem_pending 1 (fresh_mem [7, 8, 9]) = [7, 8, 9]" "mem_final 1 (fresh_mem [7, 8, 9]) = 0"
    using fresh_mem_source [of "[7, 8, 9]"] by (simp_all add: C_INT_MAX_def)
  have m: "\<forall>n\<le>100. OPENSSL_malloc (\<lambda>n. True) n" by (simp add: OPENSSL_malloc_def OPENSSL_MALLOC_PREFIX_def)
  have lt: "length [5 :: byte] + kChunkSize < 2 ^ 64" "(100 :: nat) < 2 ^ 64" by (simp_all add: kChunkSize_def)
  obtain r h' where r: "bio_read_all (\<lambda>n. True) (\<lambda>h n. BIO_read h 1 n) (fresh_mem [7, 8, 9]) [5] 100 = Some (r, h')"
    "\<forall>bs. r = Some bs \<longrightarrow> bs = [5] @ mem_pending 1 (fresh_mem [7, 8, 9]) \<and> mem_pending 1 h' = []"
    "r \<noteq> None \<longleftrightarrow> mem_final 1 (fresh_mem [7, 8, 9]) = 0 \<and> length [5 :: byte] + length (mem_pending 1 (fresh_mem [7, 8, 9])) < 100"
    using bio_read_all_returns [OF lt, of 1 "fresh_mem [7, 8, 9]" "\<lambda>n. True" 0] src(1) m by blast
  then show ?thesis using src by (cases r) auto
qed

end
