(* ===== verification/Pb.thy ===== *)
theory Pb
  imports Mem
begin

text \<open>
  nanopb, the protocol-buffer library of the repository (\<open>Pods/nanopb\<close>): the output streams of \<open>pb_encode.c\<close>,
  everything that writes one value of the wire format, and the framing of messages. The build is that of the pods:
  64-bit integers, error messages, \<open>PB_FIELD_32BIT\<close> and \<open>PB_ENABLE_MALLOC\<close>.

  An output stream has a callback of the user (\<open>buf_write\<close>, or the one that appends to a growing array in
  \<open>Firestore/core/src/nanopb/writer.cc\<close>), or none when it only counts. A function of the C code that returns a
  \<open>bool\<close> and changes its stream returns both. The first error message of a stream is kept.
\<close>

section \<open>Output streams\<close>

record 's pb_ostream =
  os_callback :: "('s \<Rightarrow> bytes \<Rightarrow> bool \<times> 's) option"
  os_state :: 's
  os_max_size :: nat
  os_bytes_written :: nat
  os_errmsg :: "string option"

text \<open>\<open>PB_RETURN_ERROR\<close>.\<close>

definition os_error :: "string \<Rightarrow> 's pb_ostream \<Rightarrow> bool \<times> 's pb_ostream" where
  "os_error msg s = (False, s\<lparr>os_errmsg := (case os_errmsg s of None \<Rightarrow> Some msg | Some m \<Rightarrow> Some m)\<rparr>)"

text \<open>The state of \<open>buf_write\<close> is a pointer into a buffer.\<close>

definition buf_write :: "bytes \<times> nat \<Rightarrow> bytes \<Rightarrow> bool \<times> (bytes \<times> nat)" where
  "buf_write dest buf = (case dest of (mem, pos) \<Rightarrow> (True, (mem_copy mem pos buf, pos + length buf)))"

definition pb_ostream_from_buffer :: "bytes \<Rightarrow> nat \<Rightarrow> (bytes \<times> nat) pb_ostream" where
  "pb_ostream_from_buffer buf bufsize =
     \<lparr>os_callback = Some buf_write, os_state = (buf, 0), os_max_size = bufsize, os_bytes_written = 0, os_errmsg = None\<rparr>"

text \<open>A stream that only counts never looks at its state.\<close>

definition PB_OSTREAM_SIZING :: "'s \<Rightarrow> 's pb_ostream" where
  "PB_OSTREAM_SIZING st =
     \<lparr>os_callback = None, os_state = st, os_max_size = 0, os_bytes_written = 0, os_errmsg = None\<rparr>"

text \<open>\<open>buf\<close> has \<open>count\<close> bytes, or is \<open>NULL\<close> for a stream that only counts.\<close>

definition pb_write :: "'s pb_ostream \<Rightarrow> bytes \<Rightarrow> nat \<Rightarrow> bool \<times> 's pb_ostream" where
  "pb_write s buf count =
     (let advance = (\<lambda>s. (True, s\<lparr>os_bytes_written := (os_bytes_written s + count) mod 2 ^ 64\<rparr>))
      in case os_callback s of
           None \<Rightarrow> advance s
         | Some callback \<Rightarrow>
             if count = 0 then advance s
             else if (os_bytes_written s + count) mod 2 ^ 64 < os_bytes_written s \<or>
                     (os_bytes_written s + count) mod 2 ^ 64 > os_max_size s then os_error ''stream full'' s
             else (case callback (os_state s) (take count buf) of
                     (False, st) \<Rightarrow> os_error ''io error'' (s\<lparr>os_state := st\<rparr>)
                   | (True, st) \<Rightarrow> advance (s\<lparr>os_state := st\<rparr>)))"

text \<open>\<open>if (!first) return false; ...\<close>\<close>

definition os_then :: "bool \<times> 's pb_ostream \<Rightarrow> ('s pb_ostream \<Rightarrow> bool \<times> 's pb_ostream) \<Rightarrow> bool \<times> 's pb_ostream" where
  "os_then r f = (case r of (False, s) \<Rightarrow> (False, s) | (True, s) \<Rightarrow> f s)"

section \<open>Encoding of one value\<close>

text \<open>The bytes stored in \<open>buffer\<close> by the loop of \<open>pb_encode_varint\<close>.\<close>

function varint_loop :: "u64 \<Rightarrow> bytes" where
  "varint_loop value =
     (if value = 0 then []
      else (ucast (value AND 0x7F) OR 0x80) # varint_loop (drop_bit 7 value))"
  by auto
termination
  by (relation "measure unat") (simp_all add: unat_drop_bit unat_gt_0)

declare varint_loop.simps [simp del]

definition varint_bytes :: "u64 \<Rightarrow> bytes" where
  "varint_bytes value =
     (let buffer = varint_loop value; i = length buffer
      in buffer[i - 1 := buffer ! (i - 1) AND 0x7F])"

definition pb_encode_varint :: "u64 \<Rightarrow> 's pb_ostream \<Rightarrow> bool \<times> 's pb_ostream" where
  "pb_encode_varint value s =
     (if value \<le> 0x7F then pb_write s [ucast value] 1
      else pb_write s (varint_bytes value) (length (varint_bytes value)))"

definition zigzag :: "u64 \<Rightarrow> u64" where
  "zigzag value = (if value <s 0 then NOT (push_bit 1 value) else push_bit 1 value)"

definition pb_encode_svarint :: "u64 \<Rightarrow> 's pb_ostream \<Rightarrow> bool \<times> 's pb_ostream" where
  "pb_encode_svarint value s = pb_encode_varint (zigzag value) s"

definition pb_encode_fixed32 :: "u32 \<Rightarrow> 's pb_ostream \<Rightarrow> bool \<times> 's pb_ostream" where
  "pb_encode_fixed32 val s =
     pb_write s [ucast (val AND 0xFF), ucast (drop_bit 8 val AND 0xFF), ucast (drop_bit 16 val AND 0xFF),
       ucast (drop_bit 24 val AND 0xFF)] 4"

definition pb_encode_fixed64 :: "u64 \<Rightarrow> 's pb_ostream \<Rightarrow> bool \<times> 's pb_ostream" where
  "pb_encode_fixed64 val s =
     pb_write s [ucast (val AND 0xFF), ucast (drop_bit 8 val AND 0xFF), ucast (drop_bit 16 val AND 0xFF),
       ucast (drop_bit 24 val AND 0xFF), ucast (drop_bit 32 val AND 0xFF), ucast (drop_bit 40 val AND 0xFF),
       ucast (drop_bit 48 val AND 0xFF), ucast (drop_bit 56 val AND 0xFF)] 8"

definition PB_WT_VARINT :: u32 where "PB_WT_VARINT = 0"
definition PB_WT_64BIT :: u32 where "PB_WT_64BIT = 1"
definition PB_WT_STRING :: u32 where "PB_WT_STRING = 2"
definition PB_WT_32BIT :: u32 where "PB_WT_32BIT = 5"

lemmas wire_type_defs = PB_WT_VARINT_def PB_WT_64BIT_def PB_WT_STRING_def PB_WT_32BIT_def

definition pb_encode_tag :: "u32 \<Rightarrow> u32 \<Rightarrow> 's pb_ostream \<Rightarrow> bool \<times> 's pb_ostream" where
  "pb_encode_tag wiretype field_number s =
     pb_encode_varint (push_bit 3 (ucast field_number) OR ucast wiretype) s"

definition pb_encode_string :: "bytes \<Rightarrow> nat \<Rightarrow> 's pb_ostream \<Rightarrow> bool \<times> 's pb_ostream" where
  "pb_encode_string buffer sz s =
     os_then (pb_encode_varint (word_of_nat sz) s) (\<lambda>s. pb_write s buffer sz)"

section \<open>Field descriptors\<close>

record pb_field =
  pf_tag :: u32
  pf_type :: byte
  pf_data_offset :: u32
  pf_size_offset :: u32
  pf_data_size :: u32
  pf_array_size :: u32
  pf_ptr :: u64

definition PB_LTYPE_BOOL :: byte where "PB_LTYPE_BOOL = 0x00"
definition PB_LTYPE_VARINT :: byte where "PB_LTYPE_VARINT = 0x01"
definition PB_LTYPE_UVARINT :: byte where "PB_LTYPE_UVARINT = 0x02"
definition PB_LTYPE_SVARINT :: byte where "PB_LTYPE_SVARINT = 0x03"
definition PB_LTYPE_FIXED32 :: byte where "PB_LTYPE_FIXED32 = 0x04"
definition PB_LTYPE_FIXED64 :: byte where "PB_LTYPE_FIXED64 = 0x05"
definition PB_LTYPE_LAST_PACKABLE :: byte where "PB_LTYPE_LAST_PACKABLE = 0x05"
definition PB_LTYPE_BYTES :: byte where "PB_LTYPE_BYTES = 0x06"
definition PB_LTYPE_STRING :: byte where "PB_LTYPE_STRING = 0x07"
definition PB_LTYPE_SUBMESSAGE :: byte where "PB_LTYPE_SUBMESSAGE = 0x08"
definition PB_LTYPE_EXTENSION :: byte where "PB_LTYPE_EXTENSION = 0x09"
definition PB_LTYPE_FIXED_LENGTH_BYTES :: byte where "PB_LTYPE_FIXED_LENGTH_BYTES = 0x0A"
definition PB_HTYPE_REQUIRED :: byte where "PB_HTYPE_REQUIRED = 0x00"
definition PB_HTYPE_OPTIONAL :: byte where "PB_HTYPE_OPTIONAL = 0x10"
definition PB_HTYPE_REPEATED :: byte where "PB_HTYPE_REPEATED = 0x20"
definition PB_HTYPE_ONEOF :: byte where "PB_HTYPE_ONEOF = 0x30"
definition PB_ATYPE_STATIC :: byte where "PB_ATYPE_STATIC = 0x00"
definition PB_ATYPE_POINTER :: byte where "PB_ATYPE_POINTER = 0x80"
definition PB_ATYPE_CALLBACK :: byte where "PB_ATYPE_CALLBACK = 0x40"

lemmas ltype_defs = PB_LTYPE_BOOL_def PB_LTYPE_VARINT_def PB_LTYPE_UVARINT_def PB_LTYPE_SVARINT_def PB_LTYPE_FIXED32_def
  PB_LTYPE_FIXED64_def PB_LTYPE_LAST_PACKABLE_def PB_LTYPE_BYTES_def PB_LTYPE_STRING_def PB_LTYPE_SUBMESSAGE_def
  PB_LTYPE_EXTENSION_def PB_LTYPE_FIXED_LENGTH_BYTES_def

lemmas htype_defs = PB_HTYPE_REQUIRED_def PB_HTYPE_OPTIONAL_def PB_HTYPE_REPEATED_def PB_HTYPE_ONEOF_def

lemmas atype_defs = PB_ATYPE_STATIC_def PB_ATYPE_POINTER_def PB_ATYPE_CALLBACK_def

definition PB_LTYPE :: "byte \<Rightarrow> byte" where "PB_LTYPE x = x AND 0x0F"
definition PB_HTYPE :: "byte \<Rightarrow> byte" where "PB_HTYPE x = x AND 0x30"
definition PB_ATYPE :: "byte \<Rightarrow> byte" where "PB_ATYPE x = x AND 0xC0"

definition pb_bytes_offset :: nat where "pb_bytes_offset = 4"

definition pb_encode_tag_for_field :: "pb_field \<Rightarrow> 's pb_ostream \<Rightarrow> bool \<times> 's pb_ostream" where
  "pb_encode_tag_for_field field s =
     (let t = PB_LTYPE (pf_type field)
      in if t = PB_LTYPE_BOOL \<or> t = PB_LTYPE_VARINT \<or> t = PB_LTYPE_UVARINT \<or> t = PB_LTYPE_SVARINT then
           pb_encode_tag PB_WT_VARINT (pf_tag field) s
         else if t = PB_LTYPE_FIXED32 then pb_encode_tag PB_WT_32BIT (pf_tag field) s
         else if t = PB_LTYPE_FIXED64 then pb_encode_tag PB_WT_64BIT (pf_tag field) s
         else if t = PB_LTYPE_BYTES \<or> t = PB_LTYPE_STRING \<or> t = PB_LTYPE_SUBMESSAGE \<or> t = PB_LTYPE_FIXED_LENGTH_BYTES then
           pb_encode_tag PB_WT_STRING (pf_tag field) s
         else os_error ''invalid field type'' s)"

section \<open>Sequences and messages\<close>

text \<open>\<open>func\<close> on one item after the other.\<close>

primrec encode_items :: "('a \<Rightarrow> 's pb_ostream \<Rightarrow> bool \<times> 's pb_ostream) \<Rightarrow> 'a list \<Rightarrow> 's pb_ostream \<Rightarrow> bool \<times> 's pb_ostream" where
  "encode_items func [] s = (True, s)"
| "encode_items func (x # xs) s = os_then (func x s) (encode_items func xs)"

text \<open>\<open>enc\<close> stands for \<open>pb_encode(stream, fields, src_struct)\<close>.\<close>

definition pb_encode_submessage :: "('s pb_ostream \<Rightarrow> bool \<times> 's pb_ostream) \<Rightarrow> 's pb_ostream \<Rightarrow> bool \<times> 's pb_ostream" where
  "pb_encode_submessage enc s =
     (case enc (PB_OSTREAM_SIZING (os_state s)) of
        (False, substream) \<Rightarrow> (False, s\<lparr>os_errmsg := os_errmsg substream\<rparr>)
      | (True, substream) \<Rightarrow>
          let sz = os_bytes_written substream
          in os_then (pb_encode_varint (word_of_nat sz) s) (\<lambda>s.
               if os_callback s = None then pb_write s [] sz
               else if (os_bytes_written s + sz) mod 2 ^ 64 > os_max_size s then os_error ''stream full'' s
               else
                 (case enc \<lparr>os_callback = os_callback s, os_state = os_state s, os_max_size = sz, os_bytes_written = 0,
                             os_errmsg = None\<rparr> of
                    (status, substream) \<Rightarrow>
                      let s = s\<lparr>os_bytes_written := (os_bytes_written s + os_bytes_written substream) mod 2 ^ 64,
                                os_state := os_state substream, os_errmsg := os_errmsg substream\<rparr>
                      in if os_bytes_written substream \<noteq> sz then os_error ''submsg size changed'' s else (status, s))))"

definition pb_encode_delimited :: "('s pb_ostream \<Rightarrow> bool \<times> 's pb_ostream) \<Rightarrow> 's pb_ostream \<Rightarrow> bool \<times> 's pb_ostream" where
  "pb_encode_delimited enc s = pb_encode_submessage enc s"

definition pb_encode_nullterminated :: "('s pb_ostream \<Rightarrow> bool \<times> 's pb_ostream) \<Rightarrow> 's pb_ostream \<Rightarrow> bool \<times> 's pb_ostream" where
  "pb_encode_nullterminated enc s = os_then (enc s) (\<lambda>s. pb_write s [0] 1)"

definition pb_get_encoded_size :: "'s \<Rightarrow> ('s pb_ostream \<Rightarrow> bool \<times> 's pb_ostream) \<Rightarrow> nat option" where
  "pb_get_encoded_size st enc =
     (case enc (PB_OSTREAM_SIZING st) of (False, _) \<Rightarrow> None | (True, s) \<Rightarrow> Some (os_bytes_written s))"

end
