(* ===== verification/Pb_Decode.thy ===== *)
theory Pb_Decode
  imports Pb
begin

text \<open>
  \<open>pb_decode.c\<close> up to one value: input streams, variable-length integers of 32 and 64 bits, tags, the
  skipping of unknown fields, substreams, and the decoders of the field types. Input streams read from a buffer, as
  they all do in the repository; \<open>is_state\<close> is the buffer from the current position on. A reading function returns
  the value as an option, \<open>None\<close> being \<open>false\<close>, and the stream. \<open>uint_fast8_t\<close> has 8 bits, as it
  has on the platforms of the application. \<open>PB_ENABLE_MALLOC\<close> is set; \<open>libc\<close> is the allocator.
\<close>

section \<open>Input streams\<close>

record pb_istream =
  is_state :: bytes
  is_bytes_left :: nat
  is_errmsg :: "string option"

definition is_error :: "string \<Rightarrow> pb_istream \<Rightarrow> 'a option \<times> pb_istream" where
  "is_error msg s = (None, s\<lparr>is_errmsg := (case is_errmsg s of None \<Rightarrow> Some msg | Some m \<Rightarrow> Some m)\<rparr>)"

definition is_then :: "'a option \<times> pb_istream \<Rightarrow> ('a \<Rightarrow> pb_istream \<Rightarrow> 'b option \<times> pb_istream) \<Rightarrow> 'b option \<times> pb_istream" where
  "is_then r f = (case r of (None, s) \<Rightarrow> (None, s) | (Some x, s) \<Rightarrow> f x s)"

definition pb_istream_from_buffer :: "bytes \<Rightarrow> nat \<Rightarrow> pb_istream" where
  "pb_istream_from_buffer buf bufsize = \<lparr>is_state = buf, is_bytes_left = bufsize, is_errmsg = None\<rparr>"

text \<open>The bytes stored in \<open>buf\<close> when it is not \<open>NULL\<close>.\<close>

definition buf_read :: "pb_istream \<Rightarrow> nat \<Rightarrow> bytes \<times> pb_istream" where
  "buf_read s count = (take count (is_state s), s\<lparr>is_state := drop count (is_state s)\<rparr>)"

definition pb_read :: "pb_istream \<Rightarrow> nat \<Rightarrow> bytes option \<times> pb_istream" where
  "pb_read s count =
     (if count = 0 then (Some [], s)
      else if is_bytes_left s < count then is_error ''end-of-stream'' s
      else let (buf, s) = buf_read s count
           in (Some buf, s\<lparr>is_bytes_left := is_bytes_left s - count\<rparr>))"

definition pb_readbyte :: "pb_istream \<Rightarrow> byte option \<times> pb_istream" where
  "pb_readbyte s =
     (if is_bytes_left s = 0 then is_error ''end-of-stream'' s
      else let (buf, s) = buf_read s 1
           in (Some (hd buf), s\<lparr>is_bytes_left := is_bytes_left s - 1\<rparr>))"

lemma pb_readbyte_left: "pb_readbyte s = (Some b, s') \<Longrightarrow> is_bytes_left s' < is_bytes_left s"
  by (auto simp: pb_readbyte_def is_error_def buf_read_def split: if_splits)

lemma pb_read_left: "pb_read s n = (Some b, s') \<Longrightarrow> is_bytes_left s' + n = is_bytes_left s"
  by (auto simp: pb_read_def is_error_def buf_read_def split: if_splits)

section \<open>Integers\<close>

text \<open>The multibyte case of \<open>pb_decode_varint32_eof\<close>.\<close>

function varint32_loop :: "u32 \<Rightarrow> byte \<Rightarrow> pb_istream \<Rightarrow> u32 option \<times> pb_istream" where
  "varint32_loop result bitpos s =
     (case pb_readbyte s of
        (None, s) \<Rightarrow> (None, s)
      | (Some b, s) \<Rightarrow>
          let sign_extension = (if bitpos < 63 then 0xFF else 0x01)
          in if bitpos \<ge> 32 \<and> b AND 0x7F \<noteq> 0x00 \<and> (drop_bit 31 result = 0 \<or> b \<noteq> sign_extension) then
               is_error ''varint overflow'' s
             else
               let result = (if bitpos \<ge> 32 then result else result OR push_bit (unat bitpos) (ucast (b AND 0x7F)));
                   bitpos = bitpos + 7
               in if b AND 0x80 \<noteq> 0 then varint32_loop result bitpos s
                  else if bitpos = 35 \<and> b AND 0x70 \<noteq> 0 then is_error ''varint overflow'' s
                  else (Some result, s))"
  by pat_completeness auto
termination
  by (relation "measure (\<lambda>(result, bitpos, s). is_bytes_left s)") (auto dest!: pb_readbyte_left [OF sym])

declare varint32_loop.simps [simp del]

text \<open>The result, \<open>*eof\<close> when it was \<open>false\<close> before, and the stream.\<close>

definition pb_decode_varint32_eof :: "pb_istream \<Rightarrow> u32 option \<times> bool \<times> pb_istream" where
  "pb_decode_varint32_eof s =
     (case pb_readbyte s of
        (None, s) \<Rightarrow> (None, is_bytes_left s = 0, s)
      | (Some b, s) \<Rightarrow>
          if b AND 0x80 = 0 then (Some (ucast b), False, s)
          else let (r, s) = varint32_loop (ucast (b AND 0x7F)) 7 s in (r, False, s))"

definition pb_decode_varint32 :: "pb_istream \<Rightarrow> u32 option \<times> pb_istream" where
  "pb_decode_varint32 s = (case pb_decode_varint32_eof s of (r, eof, s) \<Rightarrow> (r, s))"

function varint64_loop :: "u64 \<Rightarrow> byte \<Rightarrow> pb_istream \<Rightarrow> u64 option \<times> pb_istream" where
  "varint64_loop result bitpos s =
     (if bitpos \<ge> 64 then is_error ''varint overflow'' s
      else case pb_readbyte s of
             (None, s) \<Rightarrow> (None, s)
           | (Some b, s) \<Rightarrow>
               let result = result OR push_bit (unat bitpos) (ucast (b AND 0x7F));
                   bitpos = bitpos + 7
               in if b AND 0x80 \<noteq> 0 then varint64_loop result bitpos s else (Some result, s))"
  by pat_completeness auto
termination
  by (relation "measure (\<lambda>(result, bitpos, s). is_bytes_left s)") (auto dest!: pb_readbyte_left [OF sym])

declare varint64_loop.simps [simp del]

definition pb_decode_varint :: "pb_istream \<Rightarrow> u64 option \<times> pb_istream" where
  "pb_decode_varint s = varint64_loop 0 0 s"

definition unzigzag :: "u64 \<Rightarrow> u64" where
  "unzigzag value = (if value AND 1 \<noteq> 0 then NOT (drop_bit 1 value) else drop_bit 1 value)"

definition pb_decode_svarint :: "pb_istream \<Rightarrow> u64 option \<times> pb_istream" where
  "pb_decode_svarint s = is_then (pb_decode_varint s) (\<lambda>value s. (Some (unzigzag value), s))"

definition pb_decode_fixed32 :: "pb_istream \<Rightarrow> u32 option \<times> pb_istream" where
  "pb_decode_fixed32 s =
     is_then (pb_read s 4) (\<lambda>bytes s.
       (Some (push_bit 0 (ucast (bytes ! 0)) OR push_bit 8 (ucast (bytes ! 1)) OR push_bit 16 (ucast (bytes ! 2)) OR
              push_bit 24 (ucast (bytes ! 3))), s))"

definition pb_decode_fixed64 :: "pb_istream \<Rightarrow> u64 option \<times> pb_istream" where
  "pb_decode_fixed64 s =
     is_then (pb_read s 8) (\<lambda>bytes s.
       (Some (push_bit 0 (ucast (bytes ! 0)) OR push_bit 8 (ucast (bytes ! 1)) OR push_bit 16 (ucast (bytes ! 2)) OR
              push_bit 24 (ucast (bytes ! 3)) OR push_bit 32 (ucast (bytes ! 4)) OR push_bit 40 (ucast (bytes ! 5)) OR
              push_bit 48 (ucast (bytes ! 6)) OR push_bit 56 (ucast (bytes ! 7))), s))"

section \<open>Tags and skipping\<close>

text \<open>Wire type and tag, and \<open>*eof\<close>.\<close>

definition pb_decode_tag :: "pb_istream \<Rightarrow> (u32 \<times> u32) option \<times> bool \<times> pb_istream" where
  "pb_decode_tag s =
     (case pb_decode_varint32_eof s of
        (None, eof, s) \<Rightarrow> (None, eof, s)
      | (Some temp, eof, s) \<Rightarrow>
          if temp = 0 then (None, True, s) else (Some (temp AND 7, drop_bit 3 temp), eof, s))"

function pb_skip_varint :: "pb_istream \<Rightarrow> unit option \<times> pb_istream" where
  "pb_skip_varint s =
     (case pb_read s 1 of
        (None, s) \<Rightarrow> (None, s)
      | (Some b, s) \<Rightarrow> if hd b AND 0x80 \<noteq> 0 then pb_skip_varint s else (Some (), s))"
  by pat_completeness auto
termination
  by (relation "measure is_bytes_left") (auto dest!: pb_read_left [OF sym])

declare pb_skip_varint.simps [simp del]

definition pb_skip_string :: "pb_istream \<Rightarrow> unit option \<times> pb_istream" where
  "pb_skip_string s =
     is_then (pb_decode_varint32 s) (\<lambda>len s. is_then (pb_read s (unat len)) (\<lambda>_ s. (Some (), s)))"

definition pb_skip_field :: "u32 \<Rightarrow> pb_istream \<Rightarrow> unit option \<times> pb_istream" where
  "pb_skip_field wire_type s =
     (if wire_type = PB_WT_VARINT then pb_skip_varint s
      else if wire_type = PB_WT_64BIT then is_then (pb_read s 8) (\<lambda>_ s. (Some (), s))
      else if wire_type = PB_WT_STRING then pb_skip_string s
      else if wire_type = PB_WT_32BIT then is_then (pb_read s 4) (\<lambda>_ s. (Some (), s))
      else is_error ''invalid wire_type'' s)"

text \<open>The loop of \<open>read_raw_value\<close>; \<open>sz\<close> is \<open>*size\<close>.\<close>

function raw_varint_loop :: "nat \<Rightarrow> nat \<Rightarrow> pb_istream \<Rightarrow> bytes option \<times> pb_istream" where
  "raw_varint_loop max_size sz s =
     (if sz + 1 > max_size then (None, s)
      else case pb_read s 1 of
             (None, s) \<Rightarrow> (None, s)
           | (Some b, s) \<Rightarrow>
               if hd b AND 0x80 \<noteq> 0 then is_then (raw_varint_loop max_size (sz + 1) s) (\<lambda>bs s. (Some (b @ bs), s))
               else (Some b, s))"
  by pat_completeness auto
termination
  by (relation "measure (\<lambda>(max_size, sz, s). is_bytes_left s)") (auto dest!: pb_read_left [OF sym])

declare raw_varint_loop.simps [simp del]

definition read_raw_value :: "u32 \<Rightarrow> nat \<Rightarrow> pb_istream \<Rightarrow> bytes option \<times> pb_istream" where
  "read_raw_value wire_type max_size s =
     (if wire_type = PB_WT_VARINT then raw_varint_loop max_size 0 s
      else if wire_type = PB_WT_64BIT then pb_read s 8
      else if wire_type = PB_WT_32BIT then pb_read s 4
      else is_error ''invalid wire_type'' s)"

section \<open>Substreams\<close>

definition pb_make_string_substream :: "pb_istream \<Rightarrow> pb_istream option \<times> pb_istream" where
  "pb_make_string_substream s =
     is_then (pb_decode_varint32 s) (\<lambda>sz s.
       if is_bytes_left s < unat sz then is_error ''parent stream too short'' s
       else (Some (s\<lparr>is_bytes_left := unat sz\<rparr>), s\<lparr>is_bytes_left := is_bytes_left s - unat sz\<rparr>))"

definition pb_close_string_substream :: "pb_istream \<Rightarrow> pb_istream \<Rightarrow> unit option \<times> pb_istream" where
  "pb_close_string_substream s substream =
     (let close = (\<lambda>substream. (Some (), s\<lparr>is_state := is_state substream, is_errmsg := is_errmsg substream\<rparr>))
      in if is_bytes_left substream \<noteq> 0 then
           (case pb_read substream (is_bytes_left substream) of
              (None, _) \<Rightarrow> (None, s)
            | (Some _, substream) \<Rightarrow> close substream)
         else close substream)"

section \<open>Fields\<close>

text \<open>What is stored in \<open>*dest\<close> is an integer of the size of the field; it is stored also when an error follows.
  The result is whether the call succeeded, the number stored and the stream.\<close>

definition pb_dec_bool :: "pb_istream \<Rightarrow> bool option \<times> pb_istream" where
  "pb_dec_bool s = is_then (pb_decode_varint32 s) (\<lambda>value s. (Some (value \<noteq> 0), s))"

definition pb_decode_bool :: "pb_istream \<Rightarrow> bool option \<times> pb_istream" where
  "pb_decode_bool s = pb_dec_bool s"

definition store_int :: "nat \<Rightarrow> int \<Rightarrow> int" where
  "store_int n v = signed_take_bit (8 * n - 1) v"

definition store_uint :: "nat \<Rightarrow> int \<Rightarrow> int" where
  "store_uint n v = take_bit (8 * n) v"

definition store_checked ::
  "(nat \<Rightarrow> int \<Rightarrow> int) \<Rightarrow> pb_field \<Rightarrow> int \<Rightarrow> pb_istream \<Rightarrow> bool \<times> int option \<times> pb_istream" where
  "store_checked store field v s =
     (if unat (pf_data_size field) \<in> {1, 2, 4, 8} then
        let clamped = store (unat (pf_data_size field)) v
        in if clamped \<noteq> v then (False, Some clamped, snd (is_error ''integer too large'' s :: unit option \<times> pb_istream))
           else (True, Some clamped, s)
      else (False, None, snd (is_error ''invalid data_size'' s :: unit option \<times> pb_istream)))"

definition pb_dec_varint :: "pb_field \<Rightarrow> pb_istream \<Rightarrow> bool \<times> int option \<times> pb_istream" where
  "pb_dec_varint field s =
     (case pb_decode_varint s of
        (None, s) \<Rightarrow> (False, None, s)
      | (Some value, s) \<Rightarrow>
          let svalue = (if unat (pf_data_size field) = 8 then sint value else sint (ucast value :: u32))
          in store_checked store_int field svalue s)"

definition pb_dec_uvarint :: "pb_field \<Rightarrow> pb_istream \<Rightarrow> bool \<times> int option \<times> pb_istream" where
  "pb_dec_uvarint field s =
     (case pb_decode_varint s of
        (None, s) \<Rightarrow> (False, None, s)
      | (Some value, s) \<Rightarrow> store_checked store_uint field (uint value) s)"

definition pb_dec_svarint :: "pb_field \<Rightarrow> pb_istream \<Rightarrow> bool \<times> int option \<times> pb_istream" where
  "pb_dec_svarint field s =
     (case pb_decode_svarint s of
        (None, s) \<Rightarrow> (False, None, s)
      | (Some value, s) \<Rightarrow> store_checked store_int field (sint value) s)"

definition pb_dec_fixed32 :: "pb_istream \<Rightarrow> u32 option \<times> pb_istream" where
  "pb_dec_fixed32 s = pb_decode_fixed32 s"

definition pb_dec_fixed64 :: "pb_istream \<Rightarrow> u64 option \<times> pb_istream" where
  "pb_dec_fixed64 s = pb_decode_fixed64 s"

text \<open>\<open>libc n\<close> is whether \<open>realloc(ptr, n)\<close> succeeds; the division by \<open>array_size\<close> is reached with a large factor only.\<close>

definition allocate_field :: "(nat \<Rightarrow> bool) \<Rightarrow> nat \<Rightarrow> nat \<Rightarrow> pb_istream \<Rightarrow> unit option \<times> pb_istream" where
  "allocate_field libc data_size array_size s =
     (if data_size = 0 \<or> array_size = 0 then is_error ''invalid size'' s
      else if (data_size \<ge> 2 ^ 32 \<or> array_size \<ge> 2 ^ 32) \<and> (2 ^ 64 - 1) div array_size < data_size then is_error ''size too large'' s
      else if \<not> libc (array_size * data_size mod 2 ^ 64) then is_error ''realloc failed'' s
      else (Some (), s))"

definition pb_dec_bytes :: "(nat \<Rightarrow> bool) \<Rightarrow> pb_field \<Rightarrow> pb_istream \<Rightarrow> bytes option \<times> pb_istream" where
  "pb_dec_bytes libc field s =
     is_then (pb_decode_varint32 s) (\<lambda>sz s.
       let alloc_size = unat sz + pb_bytes_offset
       in is_then
            (if PB_ATYPE (pf_type field) = PB_ATYPE_POINTER then
               (if is_bytes_left s < unat sz then is_error ''end-of-stream'' s else allocate_field libc alloc_size 1 s)
             else if alloc_size > unat (pf_data_size field) then is_error ''bytes overflow'' s
             else (Some (), s))
            (\<lambda>_ s. pb_read s (unat sz)))"

text \<open>The bytes before the terminating NUL, which is stored also when the read fails.\<close>

definition pb_dec_string :: "(nat \<Rightarrow> bool) \<Rightarrow> pb_field \<Rightarrow> pb_istream \<Rightarrow> bytes option \<times> pb_istream" where
  "pb_dec_string libc field s =
     is_then (pb_decode_varint32 s) (\<lambda>sz s.
       let alloc_size = sz + 1
       in if alloc_size < sz then is_error ''size too large'' s
          else
            is_then
              (if PB_ATYPE (pf_type field) = PB_ATYPE_POINTER then
                 (if is_bytes_left s < unat sz then is_error ''end-of-stream'' s else allocate_field libc (unat alloc_size) 1 s)
               else if unat alloc_size > unat (pf_data_size field) then is_error ''string overflow'' s
               else (Some (), s))
              (\<lambda>_ s. pb_read s (unat sz)))"

definition pb_dec_fixed_length_bytes :: "pb_field \<Rightarrow> pb_istream \<Rightarrow> bytes option \<times> pb_istream" where
  "pb_dec_fixed_length_bytes field s =
     is_then (pb_decode_varint32 s) (\<lambda>sz s.
       if sz = 0 then (Some (replicate (unat (pf_data_size field)) 0), s)
       else if unat sz \<noteq> unat (pf_data_size field) then is_error ''incorrect fixed length bytes size'' s
       else pb_read s (unat (pf_data_size field)))"

text \<open>The packed array of \<open>decode_static_field\<close>: \<open>items\<close> are those decoded before, at most \<open>array_size\<close> of them. An item
  reads at least one byte, or the loop ends by the size of the array.\<close>

function packed_loop ::
  "(pb_istream \<Rightarrow> 'a option \<times> pb_istream) \<Rightarrow> nat \<Rightarrow> 'a list \<Rightarrow> pb_istream \<Rightarrow> bool \<times> 'a list \<times> pb_istream" where
  "packed_loop func array_size items s =
     (if is_bytes_left s > 0 \<and> length items < array_size then
        (case func s of
           (None, s) \<Rightarrow> (False, items, s)
         | (Some x, s) \<Rightarrow> packed_loop func array_size (items @ [x]) s)
      else (True, items, s))"
  by pat_completeness auto
termination
  by (relation "measure (\<lambda>(func, array_size, items, s). array_size - length items)") auto

declare packed_loop.simps [simp del]

definition decode_packed ::
  "(pb_istream \<Rightarrow> 'a option \<times> pb_istream) \<Rightarrow> nat \<Rightarrow> 'a list \<Rightarrow> pb_istream \<Rightarrow> bool \<times> 'a list \<times> pb_istream" where
  "decode_packed func array_size items s =
     (case pb_make_string_substream s of
        (None, s) \<Rightarrow> (False, items, s)
      | (Some substream, s) \<Rightarrow>
          (case packed_loop func array_size items substream of
             (status, items, substream) \<Rightarrow>
               if is_bytes_left substream \<noteq> 0 then (False, items, snd (is_error ''array overflow'' s :: unit option \<times> pb_istream))
               else (case pb_close_string_substream s substream of
                       (None, s) \<Rightarrow> (False, items, s)
                     | (Some _, s) \<Rightarrow> (status, items, s))))"

text \<open>\<open>decode\<close> and \<open>noinit\<close> stand for \<open>pb_decode\<close> and \<open>pb_decode_noinit\<close> of the fields of the submessage.\<close>

definition pb_dec_submessage ::
  "(pb_istream \<Rightarrow> 'a option \<times> pb_istream) \<Rightarrow> (pb_istream \<Rightarrow> 'a option \<times> pb_istream) \<Rightarrow> pb_field \<Rightarrow> pb_istream \<Rightarrow> 'a option \<times> pb_istream" where
  "pb_dec_submessage decode noinit field s =
     is_then (pb_make_string_substream s) (\<lambda>substream s.
       if pf_ptr field = 0 then is_error ''invalid field descriptor'' s
       else
         case (if PB_HTYPE (pf_type field) = PB_HTYPE_REPEATED then decode substream else noinit substream) of
           (status, substream) \<Rightarrow> is_then (pb_close_string_substream s substream) (\<lambda>_ s. (status, s)))"

end
