(* ===== verification/Pb_Wire.thy ===== *)
theory Pb_Wire
  imports Pb_Decode
begin

text \<open>
  The wire format as a specification, and the readers on it. \<open>varint n\<close> is the shortest variable-length encoding of
  \<open>n\<close>. \<open>pb_decode_varint\<close> reads every such encoding of 64 bits back, and \<open>varint32_accepts\<close> is the set of numbers
  whose encoding \<open>pb_decode_varint32\<close> accepts.
\<close>

section \<open>Variable-length integers\<close>

function varint :: "nat \<Rightarrow> bytes" where
  "varint n = (if n < 128 then [word_of_nat n] else word_of_nat (128 + n mod 128) # varint (n div 128))"
  by auto
termination by (relation "measure id") auto

declare varint.simps [simp del]

lemma varint_small: "n < 128 \<Longrightarrow> varint n = [word_of_nat n]"
  by (simp add: varint.simps)

lemma varint_step: "128 \<le> n \<Longrightarrow> varint n = word_of_nat (128 + n mod 128) # varint (n div 128)"
  by (subst varint.simps) simp

lemma varint_nonempty [simp]: "varint n \<noteq> []"
  by (cases "n < 128") (simp_all add: varint_small varint_step)

lemma length_varint: "n < 2 ^ (7 * k) \<Longrightarrow> 0 < k \<Longrightarrow> length (varint n) \<le> k"
proof (induction k arbitrary: n)
  case (Suc k)
  show ?case
  proof (cases "n < 128")
    case False
    have k: "0 < k" using Suc.prems(1) False by (cases k) simp_all
    have "n div 128 < 2 ^ (7 * k)" using Suc.prems(1) by (simp add: div_less_iff_less_mult power_add mult.commute)
    then show ?thesis using Suc.IH [of "n div 128"] k False by (simp add: varint_step)
  qed (simp add: varint_small)
qed simp

lemma length_varint_u64: "length (varint (unat (v :: u64))) \<le> 10"
  using length_varint [of "unat v" 10] unat_u64_less [of v] by simp

lemma digit_more: "unat (word_of_nat (128 + n mod 128) :: byte) = 128 + n mod 128"
  by (simp only: unat_of_nat) simp

lemma digit_last: "n < 128 \<Longrightarrow> unat (word_of_nat n :: byte) = n"
  by (simp add: unat_of_nat)

lemma byte_low_bits: "unat ((b :: byte) AND 0x7F) = unat b mod 128"
proof -
  have "b AND 0x7F = take_bit 7 b" by (simp add: take_bit_eq_mask mask_eq_exp_minus_1)
  then show ?thesis by (simp add: take_bit_eq_mod unat_mod)
qed

lemma byte_top_bit: "(b :: byte) AND 0x80 = 0 \<longleftrightarrow> unat b < 128"
proof -
  have "b AND 0x80 = 0 \<longleftrightarrow> \<not> bit b 7" using and_exp_eq_0_iff_not_bit [of b 7] by simp
  also have "\<dots> \<longleftrightarrow> even (unat b div 128)" by (simp add: bit_odd_unat)
  also have "\<dots> \<longleftrightarrow> unat b < 128"
  proof -
    have "unat b div 128 < 2" by (rule less_mult_imp_div_less) simp
    then show ?thesis by (cases "unat b < 128") (auto simp: less_2_cases_iff div_eq_0_iff)
  qed
  finally show ?thesis .
qed

section \<open>The encoder\<close>

lemma varint_digit: "(ucast (v AND 0x7F) OR 0x80 :: byte) = word_of_nat (128 + unat (v :: u64) mod 128)"
proof -
  have "v AND 0x7F = take_bit 7 v" by (simp add: take_bit_eq_mask mask_eq_exp_minus_1)
  then have "unat (v AND 0x7F) = unat v mod 128" by (simp add: take_bit_eq_mod unat_mod)
  then have u: "unat (ucast (v AND 0x7F) :: byte) = unat v mod 128" by (simp add: unat_ucast_down)
  have "unat (push_bit 7 1 OR ucast (v AND 0x7F) :: byte) = 128 + unat v mod 128"
    using unat_push_bit_or [of "ucast (v AND 0x7F) :: byte" 7 1] by (simp add: u)
  moreover have "ucast (v AND 0x7F) OR 0x80 = (push_bit 7 1 OR ucast (v AND 0x7F) :: byte)" by (simp add: or.commute)
  ultimately show ?thesis by (simp only: word_unat_eq_iff digit_more)
qed

lemma varint_loop_nonempty: "v \<noteq> 0 \<Longrightarrow> varint_loop v \<noteq> []"
  by (subst varint_loop.simps) simp

lemma varint_bytes_spec: "v \<noteq> 0 \<Longrightarrow> varint_bytes v = varint (unat v)"
proof (induction v rule: varint_loop.induct)
  case (1 v)
  let ?d = "drop_bit 7 v"
  have d: "unat ?d = unat v div 128" by (simp add: unat_drop_bit)
  have loop: "varint_loop v = word_of_nat (128 + unat v mod 128) # varint_loop ?d"
    using 1(2) by (subst varint_loop.simps) (simp add: varint_digit)
  show ?case
  proof (cases "unat v < 128")
    case True
    then have "?d = 0" using d by (simp add: word_unat_eq_iff)
    then have "varint_loop ?d = []" by (subst varint_loop.simps) simp
    moreover have "(word_of_nat (128 + unat v mod 128) :: byte) AND 0x7F = word_of_nat (unat v)"
      by (simp only: word_unat_eq_iff byte_low_bits digit_more unat_of_nat) (use True in simp)
    ultimately show ?thesis using True by (simp add: varint_bytes_def loop Let_def varint_small)
  next
    case False
    then have nz: "?d \<noteq> 0" using d by (simp add: word_unat_eq_iff div_eq_0_iff)
    have ne: "varint_loop ?d \<noteq> []" using varint_loop_nonempty [OF nz] .
    then have "varint_bytes v = word_of_nat (128 + unat v mod 128) # varint_bytes ?d"
      by (cases "length (varint_loop ?d)") (simp_all add: varint_bytes_def loop Let_def)
    then show ?thesis using 1(1) [OF 1(2) nz] False d by (simp add: varint_step)
  qed
qed

lemma pb_encode_varint_spec: "pb_encode_varint v s = pb_write s (varint (unat v)) (length (varint (unat v)))"
proof (cases "v \<le> 0x7F")
  case True
  then have "unat v < 128" by (simp add: word_le_nat_alt)
  then show ?thesis using True by (simp add: pb_encode_varint_def varint_small)
next
  case False
  then have "v \<noteq> 0" by auto
  then show ?thesis using False by (simp add: pb_encode_varint_def varint_bytes_spec)
qed

section \<open>Streams that begin with given bytes\<close>

definition prepend :: "bytes \<Rightarrow> pb_istream \<Rightarrow> pb_istream" where
  "prepend bs s = s\<lparr>is_state := bs @ is_state s, is_bytes_left := length bs + is_bytes_left s\<rparr>"

lemma prepend_simps [simp]:
  "prepend [] s = s" "is_bytes_left (prepend bs s) = length bs + is_bytes_left s" "is_errmsg (prepend bs s) = is_errmsg s"
  "is_state (prepend bs s) = bs @ is_state s"
  by (simp_all add: prepend_def)

lemma prepend_append: "prepend (as @ bs) s = prepend as (prepend bs s)"
  by (simp add: prepend_def)

lemma pb_readbyte_prepend [simp]: "pb_readbyte (prepend (b # bs) s) = (Some b, prepend bs s)"
  by (simp add: pb_readbyte_def buf_read_def prepend_def)

lemma pb_read_prepend: "length bs = n \<Longrightarrow> pb_read (prepend bs s) n = (Some bs, s)"
  by (auto simp: pb_read_def buf_read_def prepend_def)

section \<open>The decoders of integers\<close>

lemma word_of_unat: "unat (w :: 'a::len word) = m \<Longrightarrow> w = word_of_nat m"
  by auto

lemma or_digit:
  fixes r :: "'a::len word"
  assumes r: "unat r < 2 ^ k" and j: "k + j = LENGTH('a)" and n: "n < 2 ^ j"
  shows "unat (r OR push_bit k (word_of_nat n)) = unat r + n * 2 ^ k"
proof -
  have L: "(2 :: nat) ^ LENGTH('a) = 2 ^ j * 2 ^ k" by (simp add: power_add mult.commute flip: j)
  have "Suc n * 2 ^ k \<le> 2 ^ j * (2 :: nat) ^ k" using n by (intro mult_le_mono1) simp
  then have lt: "n * 2 ^ k + unat r < 2 ^ LENGTH('a)" using r by (simp only: L mult_Suc)
  have "2 ^ j \<le> (2 :: nat) ^ LENGTH('a)" unfolding L by simp
  then have "n < 2 ^ LENGTH('a)" using n by linarith
  then have "unat (word_of_nat n :: 'a word) = n" by (simp only: unat_of_nat mod_less)
  then show ?thesis
    using unat_push_bit_or [OF r, of "word_of_nat n"] lt by (simp only: or.commute mod_less add.commute)
qed

lemma room: "n * 2 ^ (7 * k) < 2 ^ 64 \<Longrightarrow> k \<le> 9 \<Longrightarrow> n < (2 :: nat) ^ (64 - 7 * k)"
proof -
  assume "n * 2 ^ (7 * k) < 2 ^ 64" "k \<le> 9"
  moreover have "(2 :: nat) ^ 64 = 2 ^ (64 - 7 * k) * 2 ^ (7 * k)" using \<open>k \<le> 9\<close> by (simp flip: power_add)
  ultimately show ?thesis by (simp only: mult_less_cancel2)
qed

lemma ucast_digit: "(ucast ((b :: byte) AND 0x7F) :: 'a::len word) = word_of_nat (unat b mod 128)"
  by (simp flip: byte_low_bits)

lemma varint64_loop_step:
  assumes "bitpos < 64"
  shows "varint64_loop result bitpos (prepend (b # bs) s) =
    (if unat b < 128 then (Some (result OR push_bit (unat bitpos) (word_of_nat (unat b))), prepend bs s)
     else varint64_loop (result OR push_bit (unat bitpos) (word_of_nat (unat b mod 128))) (bitpos + 7) (prepend bs s))"
  using assms by (subst varint64_loop.simps) (auto simp: Let_def byte_top_bit ucast_digit not_le)

lemma varint64_loop_varint:
  "unat result < 2 ^ (7 * k) \<Longrightarrow> k \<le> 9 \<Longrightarrow> n * 2 ^ (7 * k) < 2 ^ 64 \<Longrightarrow>
    varint64_loop result (word_of_nat (7 * k)) (prepend (varint n) s) = (Some (word_of_nat (unat result + n * 2 ^ (7 * k))), s)"
proof (induction n arbitrary: result k rule: less_induct)
  case (less n)
  let ?p = "word_of_nat (7 * k) :: byte"
  have p: "unat ?p = 7 * k" using less.prems(2) by (simp only: unat_of_nat) simp
  then have lt: "?p < 64" using less.prems(2) by (simp add: word_less_nat_alt)
  show ?case
  proof (cases "n < 128")
    case True
    have "unat (result OR push_bit (7 * k) (word_of_nat n)) = unat result + n * 2 ^ (7 * k)"
      using or_digit [OF less.prems(1), of "64 - 7 * k" n] less.prems(2,3) room [of n k] by simp
    then have "result OR push_bit (7 * k) (word_of_nat n) = word_of_nat (unat result + n * 2 ^ (7 * k))"
      by (rule word_of_unat)
    then show ?thesis using True by (simp add: varint_small varint64_loop_step [OF lt] p digit_last del: of_nat_add of_nat_mult)
  next
    case False
    have k8: "k \<le> 8"
    proof (rule ccontr)
      assume "\<not> k \<le> 8"
      then have "k = 9" using less.prems(2) by simp
      then show False using less.prems(3) False by simp
    qed
    have m: "n mod 128 * 2 ^ (7 * k) < 2 ^ 64" "n div 128 * 2 ^ (7 * Suc k) < 2 ^ 64"
    proof -
      have "n mod 128 * 2 ^ (7 * k) \<le> n * 2 ^ (7 * k)" "n div 128 * 2 ^ (7 * Suc k) \<le> n * 2 ^ (7 * k)"
        by (simp_all add: power_add)
      then show "n mod 128 * 2 ^ (7 * k) < 2 ^ 64" "n div 128 * 2 ^ (7 * Suc k) < 2 ^ 64" using less.prems(3) by linarith+
    qed
    define r where "r = result OR push_bit (7 * k) (word_of_nat (n mod 128))"
    have r: "unat r = unat result + n mod 128 * 2 ^ (7 * k)" unfolding r_def 
      using or_digit [OF less.prems(1), of "64 - 7 * k" "n mod 128"] less.prems(2) room [of "n mod 128" k] m(1) by simp
    have p7: "(2 :: nat) ^ (7 * Suc k) = 128 * 2 ^ (7 * k)" by (simp add: power_add)
    have rlt: "unat r < 2 ^ (7 * Suc k)"
    proof -
      have "n mod 128 * 2 ^ (7 * k) \<le> 127 * 2 ^ (7 * k)" by (intro mult_le_mono1) simp
      then show ?thesis using r less.prems(1) p7 by linarith
    qed
    have "?p + 7 = word_of_nat (7 * Suc k)" by simp
    moreover have "varint64_loop r (word_of_nat (7 * Suc k)) (prepend (varint (n div 128)) s) =
        (Some (word_of_nat (unat r + n div 128 * 2 ^ (7 * Suc k))), s)"
      using less.IH [OF _ rlt _ m(2)] False k8 by simp
    moreover have "unat r + n div 128 * 2 ^ (7 * Suc k) = unat result + n * 2 ^ (7 * k)"
    proof -
      have "n mod 128 * 2 ^ (7 * k) + n div 128 * 2 ^ (7 * Suc k) = (n mod 128 + n div 128 * 128) * 2 ^ (7 * k)"
        by (simp only: p7 add_mult_distrib mult.assoc)
      also have "n mod 128 + n div 128 * 128 = n" by simp
      finally show ?thesis by (simp only: r add.assoc)
    qed
    ultimately show ?thesis using False
      by (simp add: varint_step varint64_loop_step [OF lt] digit_more p r_def del: of_nat_add of_nat_mult mult_Suc_right)
  qed
qed

lemma pb_decode_varint_spec: "pb_decode_varint (prepend (varint (unat v)) s) = (Some v, s)"
  using varint64_loop_varint [of 0 0 "unat v" s] unat_u64_less [of v] by (simp add: pb_decode_varint_def)

section \<open>Integers of 32 bits\<close>

lemma byte_70_all: "\<forall>i\<in>set [0..<128]. ((word_of_nat i :: byte) AND 0x70 = 0) = (i < 16)"
  by code_simp

lemma byte_70: "unat b < 128 \<Longrightarrow> (b :: byte) AND 0x70 = 0 \<longleftrightarrow> unat b < 16"
  using byte_70_all [rule_format, of "unat b"] by simp

lemma varint32_loop_low:
  assumes "bitpos < 32"
  shows "varint32_loop result bitpos (prepend (b # bs) s) =
    (let r = result OR push_bit (unat bitpos) (word_of_nat (unat b mod 128))
     in if 128 \<le> unat b then varint32_loop r (bitpos + 7) (prepend bs s)
        else if bitpos + 7 = 35 \<and> 16 \<le> unat b then is_error ''varint overflow'' (prepend bs s)
        else (Some r, prepend bs s))"
  using assms by (subst varint32_loop.simps) (auto simp: Let_def byte_top_bit byte_70 ucast_digit not_le not_less)

lemma varint32_loop_high:
  assumes "32 \<le> bitpos" "bitpos + 7 \<noteq> 35"
  shows "varint32_loop result bitpos (prepend (b # bs) s) =
    (if unat b mod 128 \<noteq> 0 \<and> (drop_bit 31 result = 0 \<or> b \<noteq> (if bitpos < 63 then 0xFF else 0x01)) then
       is_error ''varint overflow'' (prepend bs s)
     else if 128 \<le> unat b then varint32_loop result (bitpos + 7) (prepend bs s)
     else (Some result, prepend bs s))"
proof -
  have z: "b AND 0x7F = 0 \<longleftrightarrow> unat b mod 128 = 0" by (simp add: word_unat_eq_iff byte_low_bits)
  show ?thesis using assms by (subst varint32_loop.simps) (simp add: Let_def byte_top_bit z not_le not_less)
qed

text \<open>The position of the digit \<open>k\<close>, and the two forms of an encoding.\<close>

definition digit_pos :: "nat \<Rightarrow> byte" where
  "digit_pos k = word_of_nat (7 * k)"

lemma digit_pos_Suc [simp]: "digit_pos k + 7 = digit_pos (Suc k)"
  by (simp add: digit_pos_def)

lemma unat_digit_pos:
  assumes "k \<le> 9"
  shows "unat (digit_pos k) = 7 * k"
proof -
  have "7 * k < 256" using assms by simp
  then show ?thesis unfolding digit_pos_def by (simp only: unat_of_nat) simp
qed

lemma digit_pos_order:
  "k \<le> 4 \<Longrightarrow> digit_pos k < 32" "5 \<le> k \<Longrightarrow> k \<le> 9 \<Longrightarrow> 32 \<le> digit_pos k" "k \<le> 8 \<Longrightarrow> digit_pos k < 63"
  by (simp_all add: word_less_nat_alt word_le_nat_alt unat_digit_pos)

lemma digit_pos_35:
  assumes "k \<le> 9"
  shows "digit_pos k = 35 \<longleftrightarrow> k = 5"
proof -
  have "digit_pos k = 35 \<longleftrightarrow> unat (digit_pos k) = unat (35 :: byte)" by (simp only: word_unat_eq_iff)
  then show ?thesis using unat_digit_pos [OF assms] by simp
qed

lemma varint_cases:
  obtains (last_digit) b where "n < 128" "varint n = [b]" "unat b = n"
  | (more) b where "128 \<le> n" "varint n = b # varint (n div 128)" "unat b = 128 + n mod 128" "0 < n div 128"
proof (cases "n < 128")
  case True
  then show ?thesis using last_digit [OF True varint_small [OF True]] digit_last by blast
next
  case False
  then have n: "128 \<le> n" "0 < n div 128" by (simp_all add: div_greater_zero_iff)
  show ?thesis using more [OF n(1) varint_step [OF n(1)] digit_more n(2)] .
qed

text \<open>Past the low 32 bits: each digit must be zero or, when bit 31 is set, that of a sign extension. The last one, of
  a canonical encoding, is not zero, so that it must be the tenth: \<open>sign_digits m n\<close> says that \<open>n\<close> has
  \<open>m\<close> digits that are \<open>0\<close> or \<open>127\<close>, and then a \<open>1\<close>.\<close>

primrec sign_digits :: "nat \<Rightarrow> nat \<Rightarrow> bool" where
  "sign_digits 0 n = (n = 1)"
| "sign_digits (Suc m) n = (n mod 128 \<in> {0, 127} \<and> sign_digits m (n div 128))"

lemma sign_digits_0 [simp]: "\<not> sign_digits m 0"
  by (induction m) simp_all

lemma varint32_high:
  "k + m = 9 \<Longrightarrow> 5 \<le> k \<Longrightarrow> 0 < n \<Longrightarrow> n * 2 ^ (7 * k) < 2 ^ 64 \<Longrightarrow>
    if drop_bit 31 result \<noteq> 0 \<and> sign_digits m n then varint32_loop result (digit_pos k) (prepend (varint n) s) = (Some result, s)
    else \<exists>s'. varint32_loop result (digit_pos k) (prepend (varint n) s) = (None, s')"
proof (induction m arbitrary: k n)
  case 0
  then have k: "k = 9" by simp
  have "n = 1" using 0(3,4) k by simp
  then show ?case unfolding k by (auto simp: varint_small varint32_loop_high digit_pos_def is_error_def)
next
  case (Suc m)
  then have k: "k \<le> 8" by simp
  have high: "32 \<le> digit_pos k" "digit_pos k + 7 \<noteq> 35" "digit_pos k < 63"
    using Suc.prems(2) k by (simp_all add: digit_pos_order digit_pos_35)
  show ?case
  proof (cases rule: varint_cases [of n])
    case (last_digit b)
    then have "b \<noteq> 0xFF" by (auto simp: word_unat_eq_iff)
    moreover have "\<not> sign_digits (Suc m) n" using last_digit(1) sign_digits_0 by simp
    ultimately show ?thesis using last_digit Suc.prems(3) high by (simp add: varint32_loop_high is_error_def)
  next
    case (more b)
    have dv: "n div 128 * 2 ^ (7 * Suc k) \<le> n * 2 ^ (7 * k)" by (simp add: power_add)
    have IH: "if drop_bit 31 result \<noteq> 0 \<and> sign_digits m (n div 128)
        then varint32_loop result (digit_pos (Suc k)) (prepend (varint (n div 128)) s) = (Some result, s)
        else \<exists>s'. varint32_loop result (digit_pos (Suc k)) (prepend (varint (n div 128)) s) = (None, s')"
    proof (rule Suc.IH)
      show "n div 128 * 2 ^ (7 * Suc k) < 2 ^ 64" using dv Suc.prems(4) by (rule le_less_trans)
    qed (use Suc.prems more(4) in simp_all)
    have b: "b = 0xFF \<longleftrightarrow> n mod 128 = 127" using more(3) by (simp add: word_unat_eq_iff)
    show ?thesis
    proof (cases "n mod 128 = 0 \<or> n mod 128 = 127 \<and> drop_bit 31 result \<noteq> 0")
      case True
      then show ?thesis using IH high more(2,3) b by (auto simp: varint32_loop_high)
    next
      case False
      then show ?thesis using high more(2,3) b by (auto simp: varint32_loop_high is_error_def)
    qed
  qed
qed

text \<open>The numbers of 64 bits whose encodings \<open>pb_decode_varint32\<close> accepts.\<close>

definition varint32_accepts :: "nat \<Rightarrow> bool" where
  "varint32_accepts v \<longleftrightarrow> v < 2 ^ 32 \<or>
     odd (v div 2 ^ 31) \<and> v div 2 ^ 63 = 1 \<and> (\<forall>i \<in> {35, 42, 49, 56}. v div 2 ^ i mod 128 \<in> {0, 127})"

lemma sign_digits_4:
  "sign_digits 4 n \<longleftrightarrow> n mod 128 \<in> {0, 127} \<and> n div 128 mod 128 \<in> {0, 127} \<and> n div 128 div 128 mod 128 \<in> {0, 127} \<and>
    n div 128 div 128 div 128 mod 128 \<in> {0, 127} \<and> n div 128 div 128 div 128 div 128 = 1"
proof -
  have "4 = Suc (Suc (Suc (Suc 0)))" by simp
  then show ?thesis by (simp only: sign_digits.simps)
qed

lemma varint32_accepts_digits:
  "varint32_accepts v \<longleftrightarrow> v < 2 ^ 32 \<or> odd (v div 2 ^ 31) \<and> sign_digits 4 (v div 2 ^ 35)"
proof -
  have "v div 2 ^ 42 = v div 2 ^ 35 div 128" "v div 2 ^ 49 = v div 2 ^ 42 div 128" "v div 2 ^ 56 = v div 2 ^ 49 div 128"
    "v div 2 ^ 63 = v div 2 ^ 56 div 128"
    using div_mult2_eq [of v "2 ^ 35" 128] div_mult2_eq [of v "2 ^ 42" 128] div_mult2_eq [of v "2 ^ 49" 128]
      div_mult2_eq [of v "2 ^ 56" 128] by simp_all
  then show ?thesis unfolding varint32_accepts_def sign_digits_4 by (simp only: ball_simps) blast
qed

lemma varint32_accepts_negative:
  assumes "2 ^ 64 - 2 ^ 31 \<le> v" "v < 2 ^ 64"
  shows "varint32_accepts v"
proof -
  obtain a where v: "v = 2 ^ 64 - 2 ^ 31 + a" using assms(1) le_Suc_ex by blast
  then have a: "a < 2 ^ 31" using assms(2) by simp
  have o: "v div 2 ^ 31 = 2 ^ 33 - 1" using v a by simp
  then have "v div 2 ^ 35 = 2 ^ 29 - 1" using div_mult2_eq [of v "2 ^ 31" "2 ^ 4"] by simp
  then show ?thesis unfolding varint32_accepts_digits sign_digits_4 o by simp
qed

text \<open>The first five digits. The total is \<open>v\<close>, of which \<open>result\<close> are the low bits and \<open>n\<close> the rest.\<close>

lemma varint32_digits:
  fixes result :: u32
  assumes "unat result < 2 ^ (7 * k)" "1 \<le> k" "k \<le> 4" "unat result + n * 2 ^ (7 * k) < 2 ^ 64"
  defines "v \<equiv> unat result + n * 2 ^ (7 * k)"
  shows "if varint32_accepts v then varint32_loop result (digit_pos k) (prepend (varint n) s) = (Some (word_of_nat v), s)
    else \<exists>s'. varint32_loop result (digit_pos k) (prepend (varint n) s) = (None, s')"
  using assms(1-4) unfolding v_def
proof (induction "4 - k" arbitrary: k n result)
  case 0
  then have k: "k = 4" by simp
  have r28: "unat result < 2 ^ 28" using 0 k by simp
  define v where "v = unat result + n * 2 ^ 28"
  have V: "unat result + n * 2 ^ (7 * 4) = v" by (simp add: v_def)
  define d where "d = n mod 128"
  define r where "r = result OR push_bit 28 (word_of_nat d)"
  have r: "r = word_of_nat (unat result + d * 2 ^ 28)"
    using push_bit_or_eq_add [OF r28, of "word_of_nat d"] unfolding r_def
    by (simp add: or.commute push_bit_eq_mult add.commute mult.commute)
  show ?case
  proof (cases rule: varint_cases [of n])
    case (last_digit b)
    note True = last_digit(1)
    then have d: "d = n" by (simp add: d_def)
    have "varint32_loop result (digit_pos 4) (prepend (varint n) s) =
        (if 16 \<le> n then is_error ''varint overflow'' s else (Some r, s))"
      using last_digit by (simp add: varint32_loop_low digit_pos_order digit_pos_35 unat_digit_pos r_def d_def)
    moreover have "16 \<le> n \<longleftrightarrow> 2 ^ 32 \<le> v" using r28 unfolding v_def by (cases "16 \<le> n"; simp)
    moreover have "v div 2 ^ 35 = 0" using True r28 unfolding v_def by simp
    then have "varint32_accepts v \<longleftrightarrow> v < 2 ^ 32" unfolding varint32_accepts_digits using sign_digits_0 by simp
    moreover have "r = word_of_nat v" unfolding r d v_def by simp
    ultimately show ?thesis unfolding k V by (auto simp: is_error_def)
  next
    case (more b)
    have n: "n = d + n div 128 * 128" unfolding d_def by simp
    have vn: "v = unat result + d * 2 ^ 28 + n div 128 * 2 ^ 35"
      unfolding v_def by (subst n) simp
    have big: "2 ^ 35 \<le> v" using more(1) unfolding v_def by simp
    have step: "varint32_loop result (digit_pos 4) (prepend (varint n) s) = varint32_loop r (digit_pos 5) (prepend (varint (n div 128)) s)"
      using more by (simp add: varint32_loop_low digit_pos_order unat_digit_pos r_def d_def)
    have dl: "d < 128" by (simp add: d_def)
    have low: "unat result + d * 2 ^ 28 < 2 ^ 35" using dl r28 by simp
    have q: "n div 128 = v div 2 ^ 35" using low unfolding vn by simp
    have rv: "r = word_of_nat v"
    proof -
      have "word_of_nat (2 ^ 35) = (0 :: u32)" by (simp add: word_unat_eq_iff)
      then show ?thesis unfolding r vn of_nat_add of_nat_mult by (simp only: mult_zero_right add_0_right)
    qed
    have top: "drop_bit 31 r \<noteq> 0 \<longleftrightarrow> odd (v div 2 ^ 31)"
    proof -
      have "unat (drop_bit 31 r) = drop_bit 31 (take_bit 32 v)"
        unfolding rv by (simp only: unat_drop_bit_eq unat_of_nat take_bit_eq_mod) simp
      also have "\<dots> = v div 2 ^ 31 mod 2"
        using mod_mult2_eq [of v "2 ^ 31" 2] by (simp add: take_bit_eq_mod drop_bit_eq_div)
      finally show ?thesis by (simp only: word_unat_eq_iff unat_0 odd_iff_mod_2_eq_one) (simp add: not_mod_2_eq_0_eq_1)
    qed
    have "n div 128 * 2 ^ (7 * 5) < 2 ^ 64" using 0(5) k vn by (simp add: v_def)
    from varint32_high [OF _ _ more(4) this, of 4 r s] show ?thesis
      using big unfolding k V step varint32_accepts_digits top q rv [symmetric] by simp
  qed
next
  case (Suc m)
  then have k: "k \<le> 3" "m = 4 - Suc k" by simp_all
  define r where "r = result OR push_bit (7 * k) (word_of_nat (n mod 128))"
  have "n mod 128 < 2 ^ (32 - 7 * k)"
  proof -
    have "n mod 128 < 128" "k = 1 \<or> k = 2 \<or> k = 3" using k(1) Suc.prems(2) by auto
    then show ?thesis by auto
  qed
  then have r: "unat r = unat result + n mod 128 * 2 ^ (7 * k)"
    unfolding r_def using or_digit [OF Suc.prems(1), of "32 - 7 * k" "n mod 128"] k(1) by simp
  have p7: "(2 :: nat) ^ (7 * Suc k) = 128 * 2 ^ (7 * k)" by (simp add: power_add)
  have rlt: "unat r < 2 ^ (7 * Suc k)"
  proof -
    have "n mod 128 * 2 ^ (7 * k) \<le> 127 * 2 ^ (7 * k)" by (intro mult_le_mono1) simp
    then show ?thesis using r Suc.prems(1) p7 by linarith
  qed
  show ?case
  proof (cases rule: varint_cases [of n])
    case (last_digit b)
    note True = last_digit(1)
    have "varint32_loop result (digit_pos k) (prepend (varint n) s) = (Some r, s)"
      using last_digit k(1) by (simp add: varint32_loop_low digit_pos_order digit_pos_35 unat_digit_pos r_def)
    moreover have "unat result + n * 2 ^ (7 * k) < 2 ^ 32"
      using rlt r True power_increasing [of "7 * Suc k" 28 "2 :: nat"] k(1) by simp
    moreover have "r = word_of_nat (unat result + n * 2 ^ (7 * k))" using r True by (intro word_of_unat) simp
    ultimately show ?thesis by (simp add: varint32_accepts_def)
  next
    case (more b)
    have tot: "unat r + n div 128 * 2 ^ (7 * Suc k) = unat result + n * 2 ^ (7 * k)"
    proof -
      have "n mod 128 * 2 ^ (7 * k) + n div 128 * 2 ^ (7 * Suc k) = (n mod 128 + n div 128 * 128) * 2 ^ (7 * k)"
        by (simp only: p7 add_mult_distrib mult.assoc)
      also have "n mod 128 + n div 128 * 128 = n" by simp
      finally show ?thesis by (simp only: r add.assoc)
    qed
    have step: "varint32_loop result (digit_pos k) (prepend (varint n) s) =
        varint32_loop r (digit_pos (Suc k)) (prepend (varint (n div 128)) s)"
      using more k(1) by (simp add: varint32_loop_low digit_pos_order unat_digit_pos r_def)
    show ?thesis unfolding step
      using Suc.hyps(1) [OF k(2) rlt, of "n div 128"] k(1) Suc.prems(4) unfolding tot by simp
  qed
qed

lemma pb_decode_varint32_eof_spec:
  assumes "v < 2 ^ 64"
  shows "if varint32_accepts v then pb_decode_varint32_eof (prepend (varint v) s) = (Some (word_of_nat v), False, s)
    else \<exists>s'. pb_decode_varint32_eof (prepend (varint v) s) = (None, False, s')"
proof (cases rule: varint_cases [of v])
  case (last_digit b)
  then have "ucast b = (word_of_nat v :: u32)" by auto
  moreover have "varint32_accepts v" using last_digit(1) by (simp add: varint32_accepts_def)
  ultimately show ?thesis using last_digit by (simp add: pb_decode_varint32_eof_def byte_top_bit)
next
  case (more b)
  let ?r = "word_of_nat (v mod 128) :: u32"
  have u: "unat ?r = v mod 128" by (simp add: unat_of_nat)
  have r: "unat ?r < 2 ^ (7 * 1)" unfolding u by simp
  have tot: "unat ?r + v div 128 * 2 ^ (7 * 1) = v" unfolding u by simp
  have e: "pb_decode_varint32_eof (prepend (varint v) s) =
      (let (r, s) = varint32_loop ?r (digit_pos 1) (prepend (varint (v div 128)) s) in (r, False, s))"
    using more by (simp add: pb_decode_varint32_eof_def byte_top_bit ucast_digit digit_pos_def)
  show ?thesis unfolding e using varint32_digits [OF r, of "v div 128" s] assms unfolding tot
    by (cases "varint32_accepts v") auto
qed

lemma pb_decode_varint32_spec: "v < 2 ^ 32 \<Longrightarrow> pb_decode_varint32 (prepend (varint v) s) = (Some (word_of_nat v), s)"
  using pb_decode_varint32_eof_spec [of v s] by (simp add: pb_decode_varint32_def varint32_accepts_def)

section \<open>Other values\<close>

lemma zigzag_neg: "(v :: u64) <s 0 \<longleftrightarrow> bit v 63"
  using bit_last_iff [of v] by (simp add: word_sless_alt)

lemma unzigzag_zigzag: "unzigzag (zigzag v) = v"
proof -
  have odd: "x AND 1 \<noteq> 0 \<longleftrightarrow> bit x 0" for x :: u64
    by (simp add: and_one_eq bit_0 odd_iff_mod_2_eq_one)
  have push: "bit (push_bit 1 v) i \<longleftrightarrow> 1 \<le> i \<and> i < 64 \<and> bit v (i - 1)" for i
    by (auto simp: bit_push_bit_iff simp del: push_bit_Suc push_bit_of_Suc_0)
  define w where "w = push_bit 1 v"
  note push = push [folded w_def]
  show ?thesis
  proof (cases "bit v 63")
    case True
    have "NOT (drop_bit 1 (NOT w)) = v"
    proof (rule bit_word_eqI)
      fix n assume "n < LENGTH(64)"
      then have n: "n < 64" by simp
      then show "bit (NOT (drop_bit 1 (NOT w))) n \<longleftrightarrow> bit v n"
        using True by (cases "n = 63") (auto simp: bit_not_iff bit_drop_bit_eq push)
    qed
    moreover have "zigzag v = NOT w" using True by (simp only: zigzag_def zigzag_neg w_def if_True)
    moreover have "bit (NOT w) 0" by (simp add: bit_not_iff push)
    ultimately show ?thesis by (simp only: unzigzag_def odd if_True)
  next
    case False
    have "drop_bit 1 w = v"
    proof (rule bit_word_eqI)
      fix n assume "n < LENGTH(64)"
      then have n: "n < 64" by simp
      then show "bit (drop_bit 1 w) n \<longleftrightarrow> bit v n"
        using False by (cases "n = 63") (auto simp: bit_drop_bit_eq push)
    qed
    moreover have "zigzag v = w" using False by (simp only: zigzag_def zigzag_neg w_def if_False)
    moreover have "\<not> bit w 0" by (simp add: push)
    ultimately show ?thesis by (simp only: unzigzag_def odd if_False)
  qed
qed

text \<open>Small numbers of either sign have short encodings.\<close>

lemma unat_zigzag: "int (unat (zigzag v)) = (if sint v < 0 then - 2 * sint v - 1 else 2 * sint v)"
proof (cases "bit v 63")
  case True
  then have neg: "sint v < 0" using bit_last_iff [of v] by simp
  have "zigzag v = - (2 * v) - 1" using True by (simp add: zigzag_def zigzag_neg push_bit_eq_mult not_eq_complement)
  also have "\<dots> = word_of_int (- 2 * sint v - 1)" by simp
  finally have "uint (zigzag v) = (- 2 * sint v - 1) mod 2 ^ 64"
    by (simp only:) (rule trans [OF uint_word_of_int], simp)
  moreover have "- (2 ^ 63) \<le> sint v" using sint_ge [of v] by simp
  ultimately show ?thesis using neg by simp
next
  case False
  then have pos: "0 \<le> sint v" using bit_last_iff [of v] by simp
  have "zigzag v = word_of_int (2 * sint v)" using False by (simp add: zigzag_def zigzag_neg push_bit_eq_mult)
  then have "uint (zigzag v) = (2 * sint v) mod 2 ^ 64"
    by (simp only:) (rule trans [OF uint_word_of_int], simp)
  moreover have "sint v < 2 ^ 63" using sint_lt [of v] by simp
  ultimately show ?thesis using pos by simp
qed

definition fixed32 :: "u32 \<Rightarrow> bytes" where
  "fixed32 v = le_bytes 4 (unat v)"

definition fixed64 :: "u64 \<Rightarrow> bytes" where
  "fixed64 v = le_bytes 8 (unat v)"

lemma byte_at: "(ucast (drop_bit k (v :: 'a::len word) AND 0xFF) :: byte) = word_of_nat (unat v div 2 ^ k)"
proof -
  have m: "drop_bit k v AND 0xFF = take_bit 8 (drop_bit k v)" by (simp add: take_bit_eq_mask mask_eq_exp_minus_1)
  show ?thesis unfolding m
    by (rule bit_word_eqI) (simp add: bit_simps drop_bit_eq_div [symmetric])
qed

lemma byte_at_0: "(ucast ((v :: 'a::len word) AND 0xFF) :: byte) = word_of_nat (unat v)"
  using byte_at [of 0 v] by simp

lemma four_bytes: "le_bytes 4 n = [word_of_nat n, word_of_nat (n div 2 ^ 8), word_of_nat (n div 2 ^ 16), word_of_nat (n div 2 ^ 24)]"
proof -
  have "(4 :: nat) = Suc (Suc (Suc (Suc 0)))" by simp
  then show ?thesis by (simp only: le_bytes.simps) (simp flip: div_mult2_eq)
qed

lemma eight_bytes: "le_bytes 8 n = [word_of_nat n, word_of_nat (n div 2 ^ 8), word_of_nat (n div 2 ^ 16), word_of_nat (n div 2 ^ 24),
    word_of_nat (n div 2 ^ 32), word_of_nat (n div 2 ^ 40), word_of_nat (n div 2 ^ 48), word_of_nat (n div 2 ^ 56)]"
proof -
  have "(8 :: nat) = Suc (Suc (Suc (Suc (Suc (Suc (Suc (Suc 0)))))))" by simp
  then show ?thesis by (simp only: le_bytes.simps) (simp flip: div_mult2_eq)
qed

lemma pb_encode_fixed32_spec: "pb_encode_fixed32 v s = pb_write s (fixed32 v) 4"
  unfolding pb_encode_fixed32_def fixed32_def four_bytes byte_at unfolding byte_at_0 ..

lemma pb_encode_fixed64_spec: "pb_encode_fixed64 v s = pb_write s (fixed64 v) 8"
  unfolding pb_encode_fixed64_def fixed64_def eight_bytes byte_at unfolding byte_at_0 ..

text \<open>The decoders assemble the number from its bytes.\<close>

lemma assemble:
  fixes r :: "'a::len word"
  assumes "unat r = le_val bs" "8 * length bs + 8 \<le> LENGTH('a)"
  shows "unat (r OR push_bit (8 * length bs) (ucast (b :: byte))) = le_val (bs @ [b])"
proof -
  have r: "unat r < 2 ^ (8 * length bs)" using assms(1) le_val_less [of bs] by (simp add: power_mult)
  have "unat b < 2 ^ (LENGTH('a) - 8 * length bs)"
  proof -
    have "(2 :: nat) ^ 8 \<le> 2 ^ (LENGTH('a) - 8 * length bs)" using assms(2) by (intro power_increasing) auto
    then show ?thesis using unat_byte_less [of b] by (simp del: unat_byte_less)
  qed
  moreover have "(2 :: nat) ^ (8 * length bs) = 256 ^ length bs" by (simp add: power_mult)
  ultimately show ?thesis
    using or_digit [OF r, of "LENGTH('a) - 8 * length bs" "unat b"] assms by (simp add: le_val_append mult.commute)
qed

lemma pb_decode_fixed32_spec: "pb_decode_fixed32 (prepend (fixed32 v) s) = (Some v, s)"
proof -
  have "\<exists>a b c d. fixed32 v = [a, b, c, d]" by (simp add: fixed32_def four_bytes)
  then obtain a b c d where f: "fixed32 v = [a, b, c, d]" by blast
  have 1: "unat (push_bit 0 (ucast a) :: u32) = le_val [a]" by (simp add: unat_ucast_up)
  have 2: "unat (push_bit 0 (ucast a) OR push_bit 8 (ucast b) :: u32) = le_val [a, b]"
    using assemble [OF 1, of b] by simp
  have 3: "unat (push_bit 0 (ucast a) OR push_bit 8 (ucast b) OR push_bit 16 (ucast c) :: u32) = le_val [a, b, c]"
    using assemble [OF 2, of c] by (simp add: or.assoc)
  have 4: "unat (push_bit 0 (ucast a) OR push_bit 8 (ucast b) OR push_bit 16 (ucast c) OR push_bit 24 (ucast d) :: u32) = le_val [a, b, c, d]"
    using assemble [OF 3, of d] by (simp add: or.assoc)
  have "le_val (fixed32 v) = unat v" using unat_u32_less [of v] by (simp add: fixed32_def le_val_le_bytes)
  then have "push_bit 0 (ucast a) OR push_bit 8 (ucast b) OR push_bit 16 (ucast c) OR push_bit 24 (ucast d) = v"
    using 4 unfolding f by (simp only: word_unat_eq_iff)
  then show ?thesis
    unfolding pb_decode_fixed32_def is_then_def by (simp add: pb_read_prepend f)
qed

lemma pb_decode_fixed64_spec: "pb_decode_fixed64 (prepend (fixed64 v) s) = (Some v, s)"
proof -
  have "\<exists>a b c d e f g h. fixed64 v = [a, b, c, d, e, f, g, h]" by (simp add: fixed64_def eight_bytes)
  then obtain a b c d e f g h where eq: "fixed64 v = [a, b, c, d, e, f, g, h]" by blast
  have 1: "unat (push_bit 0 (ucast a) :: u64) = le_val [a]" by (simp add: unat_ucast_up)
  have 2: "unat (push_bit 0 (ucast a) OR push_bit 8 (ucast b) :: u64) = le_val [a, b]"
    using assemble [OF 1, of b] by (simp)
  have 3: "unat (push_bit 0 (ucast a) OR push_bit 8 (ucast b) OR push_bit 16 (ucast c) :: u64) = le_val [a, b, c]"
    using assemble [OF 2, of c] by (simp add: or.assoc)
  have 4: "unat (push_bit 0 (ucast a) OR push_bit 8 (ucast b) OR push_bit 16 (ucast c) OR push_bit 24 (ucast d) :: u64) = le_val [a, b, c, d]"
    using assemble [OF 3, of d] by (simp add: or.assoc)
  have 5: "unat (push_bit 0 (ucast a) OR push_bit 8 (ucast b) OR push_bit 16 (ucast c) OR push_bit 24 (ucast d) OR push_bit 32 (ucast e) :: u64) = le_val [a, b, c, d, e]"
    using assemble [OF 4, of e] by (simp add: or.assoc)
  have 6: "unat (push_bit 0 (ucast a) OR push_bit 8 (ucast b) OR push_bit 16 (ucast c) OR push_bit 24 (ucast d) OR push_bit 32 (ucast e) OR push_bit 40 (ucast f) :: u64) = le_val [a, b, c, d, e, f]"
    using assemble [OF 5, of f] by (simp add: or.assoc)
  have 7: "unat (push_bit 0 (ucast a) OR push_bit 8 (ucast b) OR push_bit 16 (ucast c) OR push_bit 24 (ucast d) OR push_bit 32 (ucast e) OR push_bit 40 (ucast f) OR push_bit 48 (ucast g) :: u64) = le_val [a, b, c, d, e, f, g]"
    using assemble [OF 6, of g] by (simp add: or.assoc)
  have 8: "unat (push_bit 0 (ucast a) OR push_bit 8 (ucast b) OR push_bit 16 (ucast c) OR push_bit 24 (ucast d) OR push_bit 32 (ucast e) OR push_bit 40 (ucast f) OR push_bit 48 (ucast g) OR push_bit 56 (ucast h) :: u64) = le_val [a, b, c, d, e, f, g, h]"
    using assemble [OF 7, of h] by (simp add: or.assoc)
  have "le_val (fixed64 v) = unat v" using unat_u64_less [of v] by (simp add: fixed64_def le_val_le_bytes)
  then have "push_bit 0 (ucast a) OR push_bit 8 (ucast b) OR push_bit 16 (ucast c) OR push_bit 24 (ucast d) OR push_bit 32 (ucast e) OR push_bit 40 (ucast f) OR push_bit 48 (ucast g) OR push_bit 56 (ucast h) = v"
    using 8 unfolding eq by (simp only: word_unat_eq_iff)
  then show ?thesis
    unfolding pb_decode_fixed64_def is_then_def by (simp add: pb_read_prepend eq)
qed

text \<open>The number of a tag, and the bytes it takes.\<close>

definition tag_number :: "u32 \<Rightarrow> u32 \<Rightarrow> nat" where
  "tag_number wiretype field_number = 8 * unat field_number + unat wiretype"

lemma pb_encode_tag_spec:
  assumes "wiretype < 8"
  shows "pb_encode_tag wiretype field_number s =
    pb_write s (varint (tag_number wiretype field_number)) (length (varint (tag_number wiretype field_number)))"
proof -
  have "unat (push_bit 3 (ucast field_number) OR ucast wiretype :: u64) = tag_number wiretype field_number"
  proof -
    have w: "unat (ucast wiretype :: u64) < 2 ^ 3" using assms by (simp add: word_less_nat_alt unat_ucast_up)
    have f: "unat (ucast field_number :: u64) * 2 ^ 3 < 2 ^ 64" using unat_u32_less [of field_number] by (simp add: unat_ucast_up)
    have "unat (push_bit 3 (ucast field_number) OR ucast wiretype :: u64) =
        (unat (ucast field_number :: u64) * 2 ^ 3 + unat (ucast wiretype :: u64)) mod 2 ^ LENGTH(64)"
      by (rule unat_push_bit_or [OF w])
    then show ?thesis using f w by (simp only:) (simp add: tag_number_def unat_ucast_up)
  qed
  then show ?thesis unfolding pb_encode_tag_def pb_encode_varint_spec by (simp only:)
qed

text \<open>Three encodings that no encoder writes are accepted: the position of a digit is kept in a byte that wraps around,
  and bits 32 to 34 of the fifth digit are looked at only when it is the last.\<close>

lemma varint32_wraps_around:
  "pb_decode_varint32 (pb_istream_from_buffer (replicate 37 0x80 @ [0x01]) 38) = (Some 8, pb_istream_from_buffer [] 0)"
  by code_simp

lemma varint32_drops_bits:
  "pb_decode_varint32 (pb_istream_from_buffer [0x80, 0x80, 0x80, 0x80, 0x90, 0x00] 6) = (Some 0, pb_istream_from_buffer [] 0)"
  by code_simp

lemma varint64_drops_bits:
  "pb_decode_varint (pb_istream_from_buffer (replicate 9 0x80 @ [0x7F]) 10) =
    (Some 0x8000000000000000, pb_istream_from_buffer [] 0)"
  by code_simp

text \<open>A string, a message or a packed array is preceded by its length.\<close>

definition frame :: "bytes \<Rightarrow> bytes" where
  "frame bs = varint (length bs) @ bs"

end
