(* ===== verification/Pb_Emit.thy ===== *)
theory Pb_Emit
  imports Pb_Wire
begin

text \<open>
  What the encoders of nanopb promise. The callback of an output stream is a sink: the locale \<open>pb_sink\<close> says what
  \<open>pb_write\<close> relies on, and \<open>buf_write\<close> is one. An encoder \<open>emits\<close> a byte string if it counts its bytes on a
  stream that only counts, writes them when they fit, and otherwise fails with \<open>stream full\<close>, having written a
  prefix. Every encoder of \<open>Pb\<close> emits what the specification of the wire format says; framing of messages and
  packed arrays, which encode twice, keeps that promise.
\<close>

section \<open>Sinks\<close>

locale pb_sink =
  fixes cb :: "'s \<Rightarrow> bytes \<Rightarrow> bool \<times> 's"
    and put :: "'s \<Rightarrow> bytes \<Rightarrow> 's"
    and room :: "'s \<Rightarrow> nat"
  assumes cb_put: "length bs \<le> room st \<Longrightarrow> cb st bs = (True, put st bs)"
    and put_nil: "put st [] = st"
    and put_append: "length as + length bs \<le> room st \<Longrightarrow> put (put st as) bs = put st (as @ bs)"
    and room_put: "length as \<le> room st \<Longrightarrow> room (put st as) = room st - length as"
begin

text \<open>A stream that can still take \<open>os_max_size - os_bytes_written\<close> bytes. No object of C has \<open>2 ^ 63\<close> bytes.\<close>

definition ready :: "'s pb_ostream \<Rightarrow> bool" where
  "ready s \<longleftrightarrow> os_callback s = Some cb \<and> os_errmsg s = None \<and> os_bytes_written s \<le> os_max_size s \<and>
     os_max_size s < 2 ^ 63 \<and> os_max_size s - os_bytes_written s \<le> room (os_state s)"

definition after :: "'s pb_ostream \<Rightarrow> bytes \<Rightarrow> 's pb_ostream" where
  "after s bs = s\<lparr>os_state := put (os_state s) bs, os_bytes_written := os_bytes_written s + length bs\<rparr>"

definition counted :: "'s pb_ostream \<Rightarrow> bytes \<Rightarrow> 's pb_ostream" where
  "counted s bs = s\<lparr>os_bytes_written := (os_bytes_written s + length bs) mod 2 ^ 64\<rparr>"

definition emits :: "('s pb_ostream \<Rightarrow> bool \<times> 's pb_ostream) \<Rightarrow> bytes \<Rightarrow> bool" where
  "emits enc bs \<longleftrightarrow>
     (\<forall>s. os_callback s = None \<and> os_bytes_written s < 2 ^ 64 \<longrightarrow> enc s = (True, counted s bs)) \<and>
     (\<forall>s. ready s \<and> length bs \<le> os_max_size s - os_bytes_written s \<longrightarrow> enc s = (True, after s bs)) \<and>
     (\<forall>s. ready s \<and> os_max_size s - os_bytes_written s < length bs \<longrightarrow>
        (\<exists>k \<le> os_max_size s - os_bytes_written s. enc s = (False, (after s (take k bs))\<lparr>os_errmsg := Some ''stream full''\<rparr>)))"

lemma emitsI:
  assumes "\<And>s. os_callback s = None \<Longrightarrow> os_bytes_written s < 2 ^ 64 \<Longrightarrow> enc s = (True, counted s bs)"
    "\<And>s. ready s \<Longrightarrow> length bs \<le> os_max_size s - os_bytes_written s \<Longrightarrow> enc s = (True, after s bs)"
    "\<And>s. ready s \<Longrightarrow> os_max_size s - os_bytes_written s < length bs \<Longrightarrow>
       \<exists>k \<le> os_max_size s - os_bytes_written s. enc s = (False, (after s (take k bs))\<lparr>os_errmsg := Some ''stream full''\<rparr>)"
  shows "emits enc bs"
  unfolding emits_def using assms by blast

lemma emits_counts: "emits enc bs \<Longrightarrow> os_callback s = None \<Longrightarrow> os_bytes_written s < 2 ^ 64 \<Longrightarrow> enc s = (True, counted s bs)"
  unfolding emits_def by blast

lemma emits_writes: "emits enc bs \<Longrightarrow> ready s \<Longrightarrow> length bs \<le> os_max_size s - os_bytes_written s \<Longrightarrow> enc s = (True, after s bs)"
  unfolding emits_def by blast

lemma emits_full:
  assumes "emits enc bs" "ready s" "os_max_size s - os_bytes_written s < length bs"
  obtains k where "k \<le> os_max_size s - os_bytes_written s"
    "enc s = (False, (after s (take k bs))\<lparr>os_errmsg := Some ''stream full''\<rparr>)"
  using assms unfolding emits_def by blast

lemma after_simps [simp]:
  "os_callback (after s bs) = os_callback s" "os_max_size (after s bs) = os_max_size s"
  "os_bytes_written (after s bs) = os_bytes_written s + length bs" "os_errmsg (after s bs) = os_errmsg s"
  by (simp_all add: after_def)

lemma counted_simps [simp]:
  "os_callback (counted s bs) = os_callback s" "os_state (counted s bs) = os_state s"
  "os_bytes_written (counted s bs) < 18446744073709551616"
  by (simp_all add: counted_def)

lemma counted_append: "counted (counted s as) bs = counted s (as @ bs)"
  by (simp add: counted_def mod_simps add.assoc)

lemma ready_after: "ready s \<Longrightarrow> length bs \<le> os_max_size s - os_bytes_written s \<Longrightarrow> ready (after s bs)"
  unfolding ready_def by (auto simp: after_def room_put)

lemma after_append:
  "ready s \<Longrightarrow> length as + length bs \<le> os_max_size s - os_bytes_written s \<Longrightarrow> after (after s as) bs = after s (as @ bs)"
  unfolding ready_def by (simp add: after_def put_append)

lemma after_nil: "after s [] = s"
  by (simp add: after_def put_nil)

section \<open>Composition\<close>

lemma emits_nil: "emits (\<lambda>s. (True, s)) []"
  by (rule emitsI) (simp_all add: counted_def after_nil)

lemma emits_write:
  assumes n: "length bs = n" "n < 2 ^ 64"
  shows "emits (\<lambda>s. pb_write s bs n) bs"
proof (rule emitsI)
  fix s :: "'s pb_ostream"
  assume "os_callback s = None" "os_bytes_written s < 2 ^ 64"
  then show "pb_write s bs n = (True, counted s bs)" using n by (simp add: pb_write_def counted_def)
next
  fix s :: "'s pb_ostream"
  assume s: "ready s" "length bs \<le> os_max_size s - os_bytes_written s"
  then have b: "os_bytes_written s + n < 2 ^ 64" "os_bytes_written s + n \<le> os_max_size s" "n \<le> room (os_state s)"
    unfolding ready_def using n by auto
  then have "cb (os_state s) bs = (True, put (os_state s) bs)" using n cb_put by auto
  then show "pb_write s bs n = (True, after s bs)"
    using s b n unfolding ready_def by (cases "n = 0") (simp_all add: pb_write_def after_def put_nil)
next
  fix s :: "'s pb_ostream"
  assume s: "ready s" "os_max_size s - os_bytes_written s < length bs"
  then have b: "os_bytes_written s \<le> os_max_size s" "os_max_size s < 2 ^ 64" "os_max_size s < os_bytes_written s + n" "n \<noteq> 0"
    unfolding ready_def using n by auto
  have "(os_bytes_written s + n) mod 2 ^ 64 < os_bytes_written s \<or> (os_bytes_written s + n) mod 2 ^ 64 > os_max_size s"
  proof (cases "os_bytes_written s + n < 2 ^ 64")
    case True
    then show ?thesis using b by simp
  next
    case False
    moreover have "os_bytes_written s + n < 2 * 2 ^ 64" using b n by simp
    ultimately have "(os_bytes_written s + n) mod 2 ^ 64 = os_bytes_written s + n - 2 ^ 64"
      by (simp add: mod_if)
    moreover have "os_bytes_written s + n - 2 ^ 64 < os_bytes_written s" using n False by linarith
    ultimately show ?thesis by simp
  qed
  then have "pb_write s bs n = (False, s\<lparr>os_errmsg := Some ''stream full''\<rparr>)"
    using s b unfolding ready_def pb_write_def os_error_def Let_def by auto
  then show "\<exists>k \<le> os_max_size s - os_bytes_written s. pb_write s bs n = (False, (after s (take k bs))\<lparr>os_errmsg := Some ''stream full''\<rparr>)"
    by (intro exI [of _ 0]) (simp add: after_nil)
qed

lemma emits_then:
  assumes 1: "emits e1 as" and 2: "emits e2 bs"
  shows "emits (\<lambda>s. os_then (e1 s) e2) (as @ bs)"
proof (rule emitsI)
  fix s :: "'s pb_ostream"
  assume "os_callback s = None" "os_bytes_written s < 2 ^ 64"
  then show "os_then (e1 s) e2 = (True, counted s (as @ bs))"
    using emits_counts [OF 1, of s] emits_counts [OF 2, of "counted s as"] by (simp add: os_then_def counted_append)
next
  fix s :: "'s pb_ostream"
  assume s: "ready s" "length (as @ bs) \<le> os_max_size s - os_bytes_written s"
  then have "e1 s = (True, after s as)" by (intro emits_writes [OF 1]) auto
  moreover have "e2 (after s as) = (True, after (after s as) bs)" using s by (intro emits_writes [OF 2] ready_after) auto
  ultimately show "os_then (e1 s) e2 = (True, after s (as @ bs))" using s by (simp add: os_then_def after_append)
next
  fix s :: "'s pb_ostream"
  let ?room = "os_max_size s - os_bytes_written s"
  assume s: "ready s" "?room < length (as @ bs)"
  show "\<exists>k \<le> ?room. os_then (e1 s) e2 = (False, (after s (take k (as @ bs)))\<lparr>os_errmsg := Some ''stream full''\<rparr>)"
  proof (cases "length as \<le> ?room")
    case True
    then have r: "ready (after s as)" using s by (intro ready_after)
    obtain k where k: "k \<le> os_max_size (after s as) - os_bytes_written (after s as)"
      and e: "e2 (after s as) = (False, (after (after s as) (take k bs))\<lparr>os_errmsg := Some ''stream full''\<rparr>)"
      using s(2) True by (rule_tac emits_full [OF 2 r]) auto
    have "after (after s as) (take k bs) = after s (as @ take k bs)"
      using k True s by (intro after_append) auto
    then have "os_then (e1 s) e2 = (False, (after s (take (length as + k) (as @ bs)))\<lparr>os_errmsg := Some ''stream full''\<rparr>)"
      using e emits_writes [OF 1 s(1) True] by (simp add: os_then_def)
    then show ?thesis using k True by (intro exI [of _ "length as + k"]) auto
  next
    case False
    then obtain k where k: "k \<le> ?room" and e: "e1 s = (False, (after s (take k as))\<lparr>os_errmsg := Some ''stream full''\<rparr>)"
      using emits_full [OF 1 s(1)] by auto
    then show ?thesis using False by (intro exI [of _ k]) (simp add: os_then_def)
  qed
qed

lemma emits_items:
  "(\<And>x. x \<in> set xs \<Longrightarrow> emits (func x) (wire x)) \<Longrightarrow> emits (encode_items func xs) (concat (map wire xs))"
proof (induction xs)
  case Nil
  show ?case using emits_nil by (simp add: encode_items.simps(1) [abs_def])
next
  case (Cons x xs)
  then show ?case using emits_then [of "func x" "wire x" "encode_items func xs"] by simp
qed

lemma emits_write_take:
  assumes "n \<le> length buf" "n < 2 ^ 64"
  shows "emits (\<lambda>s. pb_write s buf n) (take n buf)"
proof -
  have "pb_write s buf n = pb_write s (take n buf) n" for s :: "'s pb_ostream" by (simp add: pb_write_def cong: option.case_cong if_cong)
  then show ?thesis using emits_write [of "take n buf" n] assms by simp
qed

section \<open>Values\<close>

lemma emits_varint: "emits (pb_encode_varint v) (varint (unat v))"
  unfolding pb_encode_varint_spec [abs_def] using length_varint_u64 [of v] by (intro emits_write) simp_all

lemma emits_svarint: "emits (pb_encode_svarint v) (varint (unat (zigzag v)))"
  using emits_varint [of "zigzag v"] by (simp add: pb_encode_svarint_def [abs_def])

lemma emits_fixed32: "emits (pb_encode_fixed32 v) (fixed32 v)"
  using emits_write [of "fixed32 v" 4] by (simp add: pb_encode_fixed32_spec [abs_def] fixed32_def)

lemma emits_fixed64: "emits (pb_encode_fixed64 v) (fixed64 v)"
  using emits_write [of "fixed64 v" 8] by (simp add: pb_encode_fixed64_spec [abs_def] fixed64_def)

lemma emits_tag: "wiretype < 8 \<Longrightarrow> emits (pb_encode_tag wiretype n) (varint (tag_number wiretype n))"
proof -
  assume w: "wiretype < 8"
  have "tag_number wiretype n < 2 ^ (7 * 5)"
    using unat_u32_less [of n] w by (simp add: tag_number_def word_less_nat_alt)
  then have "length (varint (tag_number wiretype n)) \<le> 5" by (rule length_varint) simp
  then show ?thesis
    using emits_write [OF refl, of "varint (tag_number wiretype n)"] by (simp add: pb_encode_tag_spec [OF w, abs_def])
qed

lemma emits_string:
  assumes "n \<le> length buf" "n < 2 ^ 64"
  shows "emits (pb_encode_string buf n) (varint n @ take n buf)"
proof -
  have "unat (word_of_nat n :: u64) = n" using assms by (simp add: unat_of_nat)
  then show ?thesis
    using emits_then [OF emits_varint [of "word_of_nat n"] emits_write_take [OF assms]] by (simp add: pb_encode_string_def [abs_def])
qed

section \<open>Messages and packed arrays\<close>

lemma emits_submessage:
  assumes enc: "emits enc bs" and n: "length bs < 2 ^ 63"
  shows "emits (pb_encode_submessage enc) (frame bs)"
proof -
  let ?rest = "\<lambda>s. if os_callback s = None then pb_write s [] (length bs)
     else if (os_bytes_written s + length bs) mod 2 ^ 64 > os_max_size s then os_error ''stream full'' s
     else (case enc \<lparr>os_callback = os_callback s, os_state = os_state s, os_max_size = length bs, os_bytes_written = 0,
                      os_errmsg = None\<rparr> of
             (status, substream) \<Rightarrow>
               let s = s\<lparr>os_bytes_written := (os_bytes_written s + os_bytes_written substream) mod 2 ^ 64,
                         os_state := os_state substream, os_errmsg := os_errmsg substream\<rparr>
               in if os_bytes_written substream \<noteq> length bs then os_error ''submsg size changed'' s else (status, s))"
  have "enc (PB_OSTREAM_SIZING st) = (True, (PB_OSTREAM_SIZING st)\<lparr>os_bytes_written := length bs\<rparr>)" for st
    using n by (subst emits_counts [OF enc]) (simp_all add: PB_OSTREAM_SIZING_def counted_def)
  then have split: "pb_encode_submessage enc = (\<lambda>s. os_then (pb_encode_varint (word_of_nat (length bs)) s) ?rest)"
    by (intro ext) (simp add: pb_encode_submessage_def Let_def cong: if_cong prod.case_cong)
  have "emits ?rest bs"
  proof (rule emitsI)
    fix s :: "'s pb_ostream"
    assume "os_callback s = None" "os_bytes_written s < 2 ^ 64"
    then show "?rest s = (True, counted s bs)" by (simp add: pb_write_def counted_def)
  next
    fix s :: "'s pb_ostream"
    assume s: "ready s" "length bs \<le> os_max_size s - os_bytes_written s"
    let ?sub = "\<lparr>os_callback = os_callback s, os_state = os_state s, os_max_size = length bs, os_bytes_written = 0, os_errmsg = None\<rparr>"
    have "ready ?sub" using s n unfolding ready_def by simp
    then have "enc ?sub = (True, after ?sub bs)" by (rule emits_writes [OF enc]) simp
    moreover have "os_bytes_written s + length bs \<le> os_max_size s" "(os_bytes_written s + length bs) mod 2 ^ 64 = os_bytes_written s + length bs"
      using s unfolding ready_def by auto
    ultimately show "?rest s = (True, after s bs)" using s unfolding ready_def by (cases s) (simp add: after_def)
  next
    fix s :: "'s pb_ostream"
    assume s: "ready s" "os_max_size s - os_bytes_written s < length bs"
    then have "(os_bytes_written s + length bs) mod 2 ^ 64 > os_max_size s" "os_callback s = Some cb" "os_errmsg s = None"
      using n unfolding ready_def by auto
    then have "?rest s = (False, s\<lparr>os_errmsg := Some ''stream full''\<rparr>)" by (simp add: os_error_def)
    then show "\<exists>k \<le> os_max_size s - os_bytes_written s. ?rest s = (False, (after s (take k bs))\<lparr>os_errmsg := Some ''stream full''\<rparr>)"
      by (intro exI [of _ 0]) (simp only: take_0 after_nil, simp)
  qed
  then have "emits (pb_encode_submessage enc) (varint (unat (word_of_nat (length bs) :: u64)) @ bs)"
    unfolding split by (rule emits_then [OF emits_varint])
  moreover have "unat (word_of_nat (length bs) :: u64) = length bs" using n by (simp add: unat_of_nat)
  ultimately show ?thesis by (simp add: frame_def)
qed

lemma emits_nullterminated: "emits enc bs \<Longrightarrow> emits (pb_encode_nullterminated enc) (bs @ [0])"
  using emits_then [OF _ emits_write [of "[0]" 1]] by (simp add: pb_encode_nullterminated_def [abs_def])

lemma emits_get_encoded_size: "emits enc bs \<Longrightarrow> pb_get_encoded_size st enc = Some (length bs mod 2 ^ 64)"
  by (simp add: pb_get_encoded_size_def emits_counts PB_OSTREAM_SIZING_def counted_def)

end

end
