(* ===== verification/Pb_Message.thy ===== *)
theory Pb_Message
  imports Pb_Emit
begin

text \<open>
  The message level of \<open>pb_encode.c\<close>: the walk of \<open>pb_common.c\<close> over a C structure with its field descriptors, the
  encoders of the field types, repetition, presence and extensions. Memory is a function from addresses to bytes, with
  little-endian integers and 64-bit pointers. The array of descriptors at an address is a list without its terminator.
  The functions that a message can point to are parameters.

  A message can contain messages to any depth, and pointers could make it contain itself. \<open>pb_encode\<close> has a bound of
  the depth (and of the number of extensions of a message) as its first argument; with the bound zero it fails, and no
  theorem is about it. What \<open>message_at\<close> reads with a bound, \<open>pb_encode\<close> writes with the same bound.
\<close>

section \<open>Memory\<close>

type_synonym memory = "u64 \<Rightarrow> byte"

definition mem_bytes :: "memory \<Rightarrow> u64 \<Rightarrow> nat \<Rightarrow> bytes" where
  "mem_bytes m p n = map (\<lambda>i. m (p + word_of_nat i)) [0..<n]"

definition load_uint :: "nat \<Rightarrow> memory \<Rightarrow> u64 \<Rightarrow> u64" where
  "load_uint n m p = word_of_nat (le_val (mem_bytes m p n))"

definition load_int :: "nat \<Rightarrow> memory \<Rightarrow> u64 \<Rightarrow> u64" where
  "load_int n m p = signed_take_bit (8 * n - 1) (load_uint n m p)"

definition load_u32 :: "memory \<Rightarrow> u64 \<Rightarrow> u32" where
  "load_u32 m p = word_of_nat (le_val (mem_bytes m p 4))"

definition load_ptr :: "memory \<Rightarrow> u64 \<Rightarrow> u64" where
  "load_ptr m p = load_uint 8 m p"

definition safe_read_bool :: "memory \<Rightarrow> u64 \<Rightarrow> bool" where
  "safe_read_bool m p \<longleftrightarrow> m p \<noteq> 0"

text \<open>The descriptors, the memory, and the functions at addresses.\<close>

record 's pb_env =
  pe_fields :: "u64 \<Rightarrow> pb_field list"
  pe_mem :: memory
  pe_callback :: "u64 \<Rightarrow> pb_field \<Rightarrow> u64 \<Rightarrow> 's pb_ostream \<Rightarrow> bool \<times> 's pb_ostream"
  pe_extension :: "u64 \<Rightarrow> u64 \<Rightarrow> 's pb_ostream \<Rightarrow> bool \<times> 's pb_ostream"

section \<open>Iterators\<close>

record pb_field_iter =
  it_start :: "pb_field list"
  it_pos :: nat
  it_required_field_index :: u32
  it_dest_struct :: u64
  it_pData :: u64
  it_pSize :: u64

text \<open>The descriptor \<open>i\<close> of an array; behind the last there is \<open>PB_LAST_FIELD\<close>.\<close>

definition PB_LAST_FIELD :: pb_field where
  "PB_LAST_FIELD = \<lparr>pf_tag = 0, pf_type = 0, pf_data_offset = 0, pf_size_offset = 0, pf_data_size = 0, pf_array_size = 0, pf_ptr = 0\<rparr>"

definition field_at :: "pb_field list \<Rightarrow> nat \<Rightarrow> pb_field" where
  "field_at descriptors i = (if i < length descriptors then descriptors ! i else PB_LAST_FIELD)"

definition it_field :: "pb_field_iter \<Rightarrow> pb_field" where
  "it_field it = field_at (it_start it) (it_pos it)"

definition pb_field_iter_begin :: "pb_field list \<Rightarrow> u64 \<Rightarrow> bool \<times> pb_field_iter" where
  "pb_field_iter_begin descriptors dest_struct =
     (let pData = (if dest_struct = 0 then 0 else dest_struct + ucast (pf_data_offset (field_at descriptors 0)));
          pSize = (if dest_struct = 0 then 0 else pData + scast (pf_size_offset (field_at descriptors 0)))
      in (pf_tag (field_at descriptors 0) \<noteq> 0,
          \<lparr>it_start = descriptors, it_pos = 0, it_required_field_index = 0, it_dest_struct = dest_struct, it_pData = pData,
           it_pSize = pSize\<rparr>))"

definition pb_field_iter_next :: "pb_field_iter \<Rightarrow> bool \<times> pb_field_iter" where
  "pb_field_iter_next it =
     (let prev = it_field it; it' = it\<lparr>it_pos := it_pos it + 1\<rparr>; pos = it_field it'
      in if pf_tag prev = 0 then (False, it)
         else if pf_tag pos = 0 then (False, snd (pb_field_iter_begin (it_start it) (it_dest_struct it)))
         else if PB_HTYPE (pf_type prev) = PB_HTYPE_ONEOF \<and> PB_HTYPE (pf_type pos) = PB_HTYPE_ONEOF \<and>
                 pf_data_offset pos = - 1 then (True, it')
         else
           let prev_size =
                 (if PB_ATYPE (pf_type prev) = PB_ATYPE_STATIC \<and> PB_HTYPE (pf_type prev) = PB_HTYPE_REPEATED then
                    ucast (pf_data_size prev) * ucast (pf_array_size prev)
                  else if PB_ATYPE (pf_type prev) = PB_ATYPE_POINTER then 8
                  else ucast (pf_data_size prev));
               required = (if PB_HTYPE (pf_type prev) = PB_HTYPE_REQUIRED then it_required_field_index it + 1
                           else it_required_field_index it);
               pData = it_pData it + prev_size + ucast (pf_data_offset pos)
           in (True, it'\<lparr>it_required_field_index := required, it_pData := pData,
                         it_pSize := pData + scast (pf_size_offset pos)\<rparr>))"

lemma pb_field_iter_next_moves:
  assumes "pb_field_iter_next it = (True, it')"
  shows "length (it_start it') - it_pos it' < length (it_start it) - it_pos it"
proof -
  have "pf_tag (it_field it) \<noteq> 0" "it_start it' = it_start it" "it_pos it' = it_pos it + 1"
    using assms by (auto simp: pb_field_iter_next_def Let_def split: if_splits)
  then show ?thesis by (auto simp: it_field_def field_at_def PB_LAST_FIELD_def split: if_splits)
qed

text \<open>The descriptors and addresses at which the loop \<open>do ... while (pb_field_iter_next(&iter))\<close> runs its body.\<close>

function iter_walk :: "pb_field_iter \<Rightarrow> (pb_field \<times> u64) list" where
  "iter_walk it =
     (it_field it, it_pData it) # (case pb_field_iter_next it of (False, _) \<Rightarrow> [] | (True, it') \<Rightarrow> iter_walk it')"
  by pat_completeness auto
termination
  by (relation "measure (\<lambda>it. length (it_start it) - it_pos it)") (auto dest: pb_field_iter_next_moves [OF sym])

declare iter_walk.simps [simp del]

text \<open>The walk visits every descriptor once, at the address of its member of the structure. \<open>PB_DATAOFFSET_OTHER\<close> makes
  \<open>pf_data_offset\<close> the distance from the end of the member before; the members of a union share an address.\<close>

definition member_size :: "pb_field \<Rightarrow> u64" where
  "member_size f =
     (if PB_ATYPE (pf_type f) = PB_ATYPE_STATIC \<and> PB_HTYPE (pf_type f) = PB_HTYPE_REPEATED then
        ucast (pf_data_size f) * ucast (pf_array_size f)
      else if PB_ATYPE (pf_type f) = PB_ATYPE_POINTER then 8
      else ucast (pf_data_size f))"

fun laid_out :: "pb_field list \<Rightarrow> u64 list \<Rightarrow> bool" where
  "laid_out (f # g # fs) (p # q # ps) =
     ((if PB_HTYPE (pf_type f) = PB_HTYPE_ONEOF \<and> PB_HTYPE (pf_type g) = PB_HTYPE_ONEOF \<and> pf_data_offset g = - 1 then q = p
       else q = p + member_size f + ucast (pf_data_offset g)) \<and>
      laid_out (g # fs) (q # ps))"
| "laid_out [f] [p] = True"
| "laid_out fs ps = False"

lemma iter_walk_from:
  assumes "laid_out fs ps" "list_all (\<lambda>f. pf_tag f \<noteq> 0) fs" "drop (it_pos it) (it_start it) = fs" "it_pData it = hd ps"
  shows "iter_walk it = zip fs ps"
  using assms
proof (induction fs ps arbitrary: it rule: laid_out.induct)
  case (1 f g fs p q ps)
  let ?it = "snd (pb_field_iter_next it)"
  have at: "it_field it = f" "it_field (it\<lparr>it_pos := Suc (it_pos it)\<rparr>) = g" "drop (it_pos it + 1) (it_start it) = g # fs"
  proof -
    have "it_start it = take (it_pos it) (it_start it) @ f # g # fs" "it_pos it < length (it_start it)"
      using 1(4) append_take_drop_id [of "it_pos it" "it_start it"] by (simp, metis drop_all list.distinct(1) not_le)
    then have "it_start it ! it_pos it = f" "it_start it ! (it_pos it + 1) = g" "drop (it_pos it + 1) (it_start it) = g # fs" "it_pos it + 1 < length (it_start it)"
      using 1(4) by (metis Cons_nth_drop_Suc drop_eq_Nil list.distinct(1) list.inject not_le Suc_eq_plus1)+
    then show "it_field it = f" "it_field (it\<lparr>it_pos := Suc (it_pos it)\<rparr>) = g" "drop (it_pos it + 1) (it_start it) = g # fs"
      by (simp_all add: it_field_def field_at_def)
  qed
  have tags: "pf_tag f \<noteq> 0" "pf_tag g \<noteq> 0" and p: "it_pData it = p" using 1(3,5) by simp_all
  have l: "laid_out (g # fs) (q # ps)"
    and q: "q = (if PB_HTYPE (pf_type f) = PB_HTYPE_ONEOF \<and> PB_HTYPE (pf_type g) = PB_HTYPE_ONEOF \<and> pf_data_offset g = - 1 then p
       else p + member_size f + ucast (pf_data_offset g))"
    using 1(2) by (simp_all split: if_splits)
  have "fst (pb_field_iter_next it) \<and> it_start ?it = it_start it \<and> it_pos ?it = Suc (it_pos it) \<and> it_pData ?it = q"
    unfolding q member_size_def by (simp add: pb_field_iter_next_def Let_def at tags p)
  then obtain it' where "pb_field_iter_next it = (True, it')" "it_start it' = it_start it" "it_pos it' = Suc (it_pos it)" "it_pData it' = q"
    by (cases "pb_field_iter_next it") auto
  then show ?case
    using 1(1) [of it'] l 1(3) at p by (subst iter_walk.simps) simp
next
  case (2 f p)
  have "it_field it = f" "it_field (it\<lparr>it_pos := Suc (it_pos it)\<rparr>) = PB_LAST_FIELD"
    using 2(3) by (auto simp: it_field_def field_at_def drop_Suc nth_via_drop dest: arg_cong [of _ _ length])
  then show ?case
    using 2 by (subst iter_walk.simps) (simp add: pb_field_iter_next_def PB_LAST_FIELD_def)
qed simp_all

lemma laid_out_shift: "laid_out fs ps \<Longrightarrow> laid_out fs (map ((+) b) ps)"
  by (induction fs ps rule: laid_out.induct) (auto simp: ac_simps)

text \<open>C39: over a structure whose descriptors have the offsets of its members, the iterator of \<open>pb_common.c\<close> visits every
  member once, in order, at its address; unions and static arrays, pointers and padding included.\<close>

theorem pb_iter_walks_members:
  assumes "laid_out fs offsets" "list_all (\<lambda>f. pf_tag f \<noteq> 0) fs" "hd offsets = ucast (pf_data_offset (hd fs))" "base \<noteq> 0"
  shows "\<exists>it. pb_field_iter_begin fs base = (True, it) \<and> iter_walk it = zip fs (map ((+) base) offsets)"
proof -
  have ne: "fs \<noteq> []" "offsets \<noteq> []" using assms(1) by (auto elim: laid_out.elims)
  then have at: "field_at fs 0 = hd fs" "pf_tag (hd fs) \<noteq> 0" using assms(2) by (auto simp: field_at_def hd_conv_nth list_all_length)
  obtain it where it: "pb_field_iter_begin fs base = (True, it)" "it_start it = fs" "it_pos it = 0"
    "it_pData it = base + hd offsets"
    using assms(3,4) at by (simp add: pb_field_iter_begin_def Let_def)
  have "iter_walk it = zip fs (map ((+) base) offsets)"
    using iter_walk_from [OF laid_out_shift [OF assms(1)] assms(2), of it base] it ne by (simp add: hd_map)
  then show ?thesis using it(1) by blast
qed

theorem pb_iter_walks_members_witness:
  "\<exists>it. pb_field_iter_begin
       [\<lparr>pf_tag = 1, pf_type = 0x01, pf_data_offset = 0, pf_size_offset = 0, pf_data_size = 4, pf_array_size = 0, pf_ptr = 0\<rparr>,
        \<lparr>pf_tag = 2, pf_type = 0x22, pf_data_offset = 4, pf_size_offset = - 4, pf_data_size = 4, pf_array_size = 2, pf_ptr = 0\<rparr>,
        \<lparr>pf_tag = 3, pf_type = 0x86, pf_data_offset = 0, pf_size_offset = 0, pf_data_size = 1, pf_array_size = 0, pf_ptr = 0\<rparr>,
        \<lparr>pf_tag = 4, pf_type = 0x01, pf_data_offset = 0, pf_size_offset = 0, pf_data_size = 8, pf_array_size = 0, pf_ptr = 0\<rparr>] 0x1000
     = (True, it) \<and> map snd (iter_walk it) = [0x1000, 0x1008, 0x1010, 0x1018]"
proof -
  let ?fs = "[\<lparr>pf_tag = 1, pf_type = 0x01, pf_data_offset = 0, pf_size_offset = 0, pf_data_size = 4, pf_array_size = 0, pf_ptr = 0\<rparr>,
        \<lparr>pf_tag = 2, pf_type = 0x22, pf_data_offset = 4, pf_size_offset = - 4, pf_data_size = 4, pf_array_size = 2, pf_ptr = 0\<rparr>,
        \<lparr>pf_tag = 3, pf_type = 0x86, pf_data_offset = 0, pf_size_offset = 0, pf_data_size = 1, pf_array_size = 0, pf_ptr = 0\<rparr>,
        \<lparr>pf_tag = 4, pf_type = 0x01, pf_data_offset = 0, pf_size_offset = 0, pf_data_size = 8, pf_array_size = 0, pf_ptr = 0\<rparr>]"
  have l: "laid_out ?fs [0, 8, 16, 24]" by code_simp
  show ?thesis using pb_iter_walks_members [OF l, of "0x1000"] by auto
qed

section \<open>The encoders of field types\<close>

type_synonym 's pb_encoder = "pb_field \<Rightarrow> u64 \<Rightarrow> 's pb_ostream \<Rightarrow> bool \<times> 's pb_ostream"

definition pb_enc_bool :: "memory \<Rightarrow> 's pb_encoder" where
  "pb_enc_bool m field src s = pb_encode_varint (if safe_read_bool m src then 1 else 0) s"

definition pb_enc_varint :: "memory \<Rightarrow> 's pb_encoder" where
  "pb_enc_varint m field src s =
     (if pf_data_size field \<in> {1, 2, 4, 8} then pb_encode_varint (load_int (unat (pf_data_size field)) m src) s
      else os_error ''invalid data_size'' s)"

definition pb_enc_uvarint :: "memory \<Rightarrow> 's pb_encoder" where
  "pb_enc_uvarint m field src s =
     (if pf_data_size field \<in> {1, 2, 4, 8} then pb_encode_varint (load_uint (unat (pf_data_size field)) m src) s
      else os_error ''invalid data_size'' s)"

definition pb_enc_svarint :: "memory \<Rightarrow> 's pb_encoder" where
  "pb_enc_svarint m field src s =
     (if pf_data_size field \<in> {1, 2, 4, 8} then pb_encode_svarint (load_int (unat (pf_data_size field)) m src) s
      else os_error ''invalid data_size'' s)"

definition pb_enc_fixed32 :: "memory \<Rightarrow> 's pb_encoder" where
  "pb_enc_fixed32 m field src s = pb_encode_fixed32 (load_u32 m src) s"

definition pb_enc_fixed64 :: "memory \<Rightarrow> 's pb_encoder" where
  "pb_enc_fixed64 m field src s = pb_encode_fixed64 (load_uint 8 m src) s"

definition pb_enc_bytes :: "memory \<Rightarrow> 's pb_encoder" where
  "pb_enc_bytes m field src s =
     (if src = 0 then pb_encode_string [] 0 s
      else if PB_ATYPE (pf_type field) = PB_ATYPE_STATIC \<and>
              (ucast (load_u32 m src) :: u64) > ucast (pf_data_size field) - word_of_nat pb_bytes_offset
      then os_error ''bytes size exceeded'' s
      else pb_encode_string (mem_bytes m (src + word_of_nat pb_bytes_offset) (unat (load_u32 m src))) (unat (load_u32 m src)) s)"

function str_len :: "memory \<Rightarrow> u64 \<Rightarrow> nat \<Rightarrow> nat \<Rightarrow> nat" where
  "str_len m p sz max_size = (if sz < max_size \<and> m p \<noteq> 0 then str_len m (p + 1) (sz + 1) max_size else sz)"
  by pat_completeness auto
termination
  by (relation "measure (\<lambda>(m, p, sz, max_size). max_size - sz)") auto

declare str_len.simps [simp del]

definition pb_enc_string :: "memory \<Rightarrow> 's pb_encoder" where
  "pb_enc_string m field src s =
     (let max_size = (if PB_ATYPE (pf_type field) = PB_ATYPE_POINTER then 2 ^ 64 - 1 else unat (pf_data_size field));
          sz = (if src = 0 then 0 else str_len m src 0 max_size)
      in pb_encode_string (mem_bytes m src sz) sz s)"

definition pb_enc_submessage :: "(u64 \<Rightarrow> u64 \<Rightarrow> 's pb_ostream \<Rightarrow> bool \<times> 's pb_ostream) \<Rightarrow> 's pb_encoder" where
  "pb_enc_submessage enc field src s =
     (if pf_ptr field = 0 then os_error ''invalid field descriptor'' s
      else pb_encode_submessage (enc (pf_ptr field) src) s)"

definition pb_enc_fixed_length_bytes :: "memory \<Rightarrow> 's pb_encoder" where
  "pb_enc_fixed_length_bytes m field src s =
     pb_encode_string (mem_bytes m src (unat (pf_data_size field))) (unat (pf_data_size field)) s"

text \<open>The table has no function for the other types; \<open>pb_encode_tag_for_field\<close> fails before it would be called.\<close>

definition PB_ENCODERS :: "(u64 \<Rightarrow> u64 \<Rightarrow> 's pb_ostream \<Rightarrow> bool \<times> 's pb_ostream) \<Rightarrow> memory \<Rightarrow> byte \<Rightarrow> 's pb_encoder" where
  "PB_ENCODERS enc m t =
     (if t = PB_LTYPE_BOOL then pb_enc_bool m
      else if t = PB_LTYPE_VARINT then pb_enc_varint m
      else if t = PB_LTYPE_UVARINT then pb_enc_uvarint m
      else if t = PB_LTYPE_SVARINT then pb_enc_svarint m
      else if t = PB_LTYPE_FIXED32 then pb_enc_fixed32 m
      else if t = PB_LTYPE_FIXED64 then pb_enc_fixed64 m
      else if t = PB_LTYPE_BYTES then pb_enc_bytes m
      else if t = PB_LTYPE_STRING then pb_enc_string m
      else if t = PB_LTYPE_SUBMESSAGE then pb_enc_submessage enc
      else if t = PB_LTYPE_FIXED_LENGTH_BYTES then pb_enc_fixed_length_bytes m
      else (\<lambda>field src s. (False, s)))"

section \<open>Fields\<close>

text \<open>The addresses of the items of an array; an item of a pointer array of strings or byte strings is a pointer.\<close>

definition item_addresses :: "pb_field \<Rightarrow> u64 \<Rightarrow> nat \<Rightarrow> u64 list" where
  "item_addresses field pData count = map (\<lambda>i. pData + word_of_nat i * ucast (pf_data_size field)) [0..<count]"

definition item_address :: "memory \<Rightarrow> pb_field \<Rightarrow> u64 \<Rightarrow> u64" where
  "item_address m field p =
     (if PB_ATYPE (pf_type field) = PB_ATYPE_POINTER \<and>
         (PB_LTYPE (pf_type field) = PB_LTYPE_STRING \<or> PB_LTYPE (pf_type field) = PB_LTYPE_BYTES)
      then load_ptr m p else p)"

definition encode_array :: "memory \<Rightarrow> pb_field \<Rightarrow> u64 \<Rightarrow> nat \<Rightarrow> 's pb_encoder \<Rightarrow> 's pb_ostream \<Rightarrow> bool \<times> 's pb_ostream" where
  "encode_array m field pData count func s =
     (let items = item_addresses field pData count
      in if count = 0 then (True, s)
         else if PB_ATYPE (pf_type field) \<noteq> PB_ATYPE_POINTER \<and> count > unat (pf_array_size field) then
           os_error ''array max size exceeded'' s
         else if PB_LTYPE (pf_type field) \<le> PB_LTYPE_LAST_PACKABLE then
           os_then (pb_encode_tag PB_WT_STRING (pf_tag field) s) (\<lambda>s.
             case (if PB_LTYPE (pf_type field) = PB_LTYPE_FIXED32 then Some (4 * count mod 2 ^ 64)
                   else if PB_LTYPE (pf_type field) = PB_LTYPE_FIXED64 then Some (8 * count mod 2 ^ 64)
                   else (case encode_items (func field) items (PB_OSTREAM_SIZING (os_state s)) of
                           (False, _) \<Rightarrow> None
                         | (True, sizestream) \<Rightarrow> Some (os_bytes_written sizestream))) of
               None \<Rightarrow> (False, s)
             | Some sz \<Rightarrow>
                 os_then (pb_encode_varint (word_of_nat sz) s) (\<lambda>s.
                   if os_callback s = None then pb_write s [] sz
                   else encode_items (func field) items s))
         else encode_items (\<lambda>p s. os_then (pb_encode_tag_for_field field s) (func field (item_address m field p))) items s)"

text \<open>Without a bound left the answer is \<open>None\<close>.\<close>

primrec pb_check_proto3_default_value :: "(u64 \<Rightarrow> pb_field list) \<Rightarrow> memory \<Rightarrow> nat \<Rightarrow> pb_field \<Rightarrow> u64 \<Rightarrow> bool option" where
  "pb_check_proto3_default_value descr m 0 field pData = None"
| "pb_check_proto3_default_value descr m (Suc n) field pData =
     (let pSize = pData + scast (pf_size_offset field);
          htype = PB_HTYPE (pf_type field); atype = PB_ATYPE (pf_type field); ltype = PB_LTYPE (pf_type field)
      in if htype = PB_HTYPE_REQUIRED then Some False
         else if htype = PB_HTYPE_REPEATED \<and> pf_size_offset field \<noteq> 0 then Some (load_u32 m pSize = 0)
         else if htype = PB_HTYPE_REPEATED \<and> atype = PB_ATYPE_STATIC then Some False
         else if htype = PB_HTYPE_ONEOF then Some (load_u32 m pSize = 0)
         else if htype = PB_HTYPE_OPTIONAL \<and> pf_size_offset field \<noteq> 0 then Some (safe_read_bool m pSize = False)
         else if atype = PB_ATYPE_STATIC \<and> ltype = PB_LTYPE_BYTES then Some (load_u32 m pData = 0)
         else if atype = PB_ATYPE_STATIC \<and> ltype = PB_LTYPE_STRING then Some (m pData = 0)
         else if atype = PB_ATYPE_STATIC \<and> ltype = PB_LTYPE_FIXED_LENGTH_BYTES then Some (pf_data_size field = 0)
         else if atype = PB_ATYPE_STATIC \<and> ltype = PB_LTYPE_SUBMESSAGE then
           (case pb_field_iter_begin (descr (pf_ptr field)) pData of
              (False, _) \<Rightarrow> Some True
            | (True, iter) \<Rightarrow>
                map_option (list_all id) (those (map (\<lambda>(f, p). pb_check_proto3_default_value descr m n f p) (iter_walk iter))))
         else if atype = PB_ATYPE_POINTER \<and> ltype > PB_LTYPE_LAST_PACKABLE then Some (load_ptr m pData = 0)
         else Some (list_all (\<lambda>b. b = 0) (mem_bytes m pData (unat (pf_data_size field)))))"

text \<open>\<open>enc\<close> stands for \<open>pb_encode\<close>, and \<open>n\<close> bounds the depth of the search for values that are not zero. A oneof field
  has the offset of its selector.\<close>

definition encode_basic_field ::
  "'s pb_env \<Rightarrow> (u64 \<Rightarrow> u64 \<Rightarrow> 's pb_ostream \<Rightarrow> bool \<times> 's pb_ostream) \<Rightarrow> nat \<Rightarrow> 's pb_encoder" where
  "encode_basic_field E enc n field pData s =
     (let m = pe_mem E; func = PB_ENCODERS enc m (PB_LTYPE (pf_type field)); pSize = pData + scast (pf_size_offset field);
          implicit_has = (if pf_size_offset field \<noteq> 0 then Some False
                          else if PB_HTYPE (pf_type field) = PB_HTYPE_OPTIONAL then
                            map_option Not (pb_check_proto3_default_value (pe_fields E) m n field pData)
                          else Some True);
          pData = (if PB_ATYPE (pf_type field) = PB_ATYPE_POINTER then load_ptr m pData else pData);
          implicit_has = (if PB_ATYPE (pf_type field) = PB_ATYPE_POINTER then Some (pData \<noteq> 0) else implicit_has);
          encode_one = (\<lambda>s. os_then (pb_encode_tag_for_field field s) (func field pData))
      in if PB_HTYPE (pf_type field) = PB_HTYPE_REQUIRED then
           (if pData = 0 then os_error ''missing required field'' s else encode_one s)
         else if PB_HTYPE (pf_type field) = PB_HTYPE_OPTIONAL then
           (case (if pf_size_offset field \<noteq> 0 then Some (safe_read_bool m pSize) else implicit_has) of
              None \<Rightarrow> (False, s)
            | Some False \<Rightarrow> (True, s)
            | Some True \<Rightarrow> encode_one s)
         else if PB_HTYPE (pf_type field) = PB_HTYPE_REPEATED then
           encode_array m field pData (unat (if pf_size_offset field \<noteq> 0 then load_u32 m pSize else pf_array_size field)) func s
         else if load_u32 m pSize = pf_tag field then encode_one s
         else (True, s))"

definition encode_callback_field :: "'s pb_env \<Rightarrow> 's pb_encoder" where
  "encode_callback_field E field pData s =
     (let encode = load_ptr (pe_mem E) pData
      in if encode \<noteq> 0 then
           (case pe_callback E encode field (pData + 8) s of
              (False, s) \<Rightarrow> os_error ''callback error'' s
            | (True, s) \<Rightarrow> (True, s))
         else (True, s))"

definition encode_field ::
  "'s pb_env \<Rightarrow> (u64 \<Rightarrow> u64 \<Rightarrow> 's pb_ostream \<Rightarrow> bool \<times> 's pb_ostream) \<Rightarrow> nat \<Rightarrow> 's pb_encoder" where
  "encode_field E enc n field pData s =
     (if PB_ATYPE (pf_type field) = PB_ATYPE_STATIC \<or> PB_ATYPE (pf_type field) = PB_ATYPE_POINTER then
        encode_basic_field E enc n field pData s
      else if PB_ATYPE (pf_type field) = PB_ATYPE_CALLBACK then encode_callback_field E field pData s
      else os_error ''invalid field type'' s)"

text \<open>A \<open>pb_extension_t\<close> has its type at offset 0, \<open>dest\<close> at 8 and \<open>next\<close> at 16; the type has \<open>encode\<close> at 8 and \<open>arg\<close>
  at 16.\<close>

definition default_extension_encoder ::
  "'s pb_env \<Rightarrow> (u64 \<Rightarrow> u64 \<Rightarrow> 's pb_ostream \<Rightarrow> bool \<times> 's pb_ostream) \<Rightarrow> nat \<Rightarrow> u64 \<Rightarrow> 's pb_ostream \<Rightarrow> bool \<times> 's pb_ostream" where
  "default_extension_encoder E enc n extension s =
     (let field = field_at (pe_fields E (load_ptr (pe_mem E) (load_ptr (pe_mem E) extension + 16))) 0
      in if PB_ATYPE (pf_type field) = PB_ATYPE_POINTER then encode_field E enc n field (extension + 8) s
         else encode_field E enc n field (load_ptr (pe_mem E) (extension + 8)) s)"

primrec encode_extensions ::
  "'s pb_env \<Rightarrow> (u64 \<Rightarrow> u64 \<Rightarrow> 's pb_ostream \<Rightarrow> bool \<times> 's pb_ostream) \<Rightarrow> nat \<Rightarrow> nat \<Rightarrow> u64 \<Rightarrow> 's pb_ostream \<Rightarrow> bool \<times> 's pb_ostream" where
  "encode_extensions E enc n 0 extension s = (False, s)"
| "encode_extensions E enc n (Suc k) extension s =
     (if extension = 0 then (True, s)
      else let encode = load_ptr (pe_mem E) (load_ptr (pe_mem E) extension + 8)
           in os_then (if encode \<noteq> 0 then pe_extension E encode extension s else default_extension_encoder E enc n extension s)
                (encode_extensions E enc n k (load_ptr (pe_mem E) (extension + 16))))"

definition encode_extension_field ::
  "'s pb_env \<Rightarrow> (u64 \<Rightarrow> u64 \<Rightarrow> 's pb_ostream \<Rightarrow> bool \<times> 's pb_ostream) \<Rightarrow> nat \<Rightarrow> 's pb_encoder" where
  "encode_extension_field E enc n field pData s = encode_extensions E enc n n (load_ptr (pe_mem E) pData) s"

section \<open>Messages\<close>

primrec pb_encode :: "'s pb_env \<Rightarrow> nat \<Rightarrow> u64 \<Rightarrow> u64 \<Rightarrow> 's pb_ostream \<Rightarrow> bool \<times> 's pb_ostream" where
  "pb_encode E 0 descriptors src_struct s = (False, s)"
| "pb_encode E (Suc n) descriptors src_struct s =
     (case pb_field_iter_begin (pe_fields E descriptors) src_struct of
        (False, _) \<Rightarrow> (True, s)
      | (True, iter) \<Rightarrow>
          encode_items (\<lambda>(field, pData) s.
              if PB_LTYPE (pf_type field) = PB_LTYPE_EXTENSION then encode_extension_field E (pb_encode E n) n field pData s
              else encode_field E (pb_encode E n) n field pData s)
            (iter_walk iter) s)"

end
