(* ===== verification/Pb_Exact.thy ===== *)
theory Pb_Exact
  imports Pb_Message
begin

text \<open>
  What a message is, and that \<open>pb_encode\<close> writes it. A message is a list of tagged values; \<open>wire_message\<close> is the wire
  format, and knows nothing of memory; \<open>message_at\<close> reads a message from the C structure that holds it, and knows
  nothing of bytes. The encoder emits the one for the other, whatever is nested in it.
\<close>

section \<open>The wire format\<close>

datatype pb_value =
    PVarint u64
  | PFixed32 u32
  | PFixed64 u64
  | PBytes bytes
  | PPacked "pb_value list"
  | PMessage "pb_entry list"
and pb_entry =
    PEntry u32 pb_value
  | PRaw bytes

fun wire_type :: "pb_value \<Rightarrow> u32" where
  "wire_type (PVarint v) = PB_WT_VARINT"
| "wire_type (PFixed32 v) = PB_WT_32BIT"
| "wire_type (PFixed64 v) = PB_WT_64BIT"
| "wire_type (PBytes bs) = PB_WT_STRING"
| "wire_type (PPacked vs) = PB_WT_STRING"
| "wire_type (PMessage es) = PB_WT_STRING"

primrec wire :: "pb_value \<Rightarrow> bytes" and wire_entry :: "pb_entry \<Rightarrow> bytes" where
  "wire (PVarint v) = varint (unat v)"
| "wire (PFixed32 v) = fixed32 v"
| "wire (PFixed64 v) = fixed64 v"
| "wire (PBytes bs) = frame bs"
| "wire (PPacked vs) = frame (concat (map wire vs))"
| "wire (PMessage es) = frame (concat (map wire_entry es))"
| "wire_entry (PEntry tag v) = varint (tag_number (wire_type v) tag) @ wire v"
| "wire_entry (PRaw bs) = bs"

definition wire_message :: "pb_entry list \<Rightarrow> bytes" where
  "wire_message es = concat (map wire_entry es)"

section \<open>Messages in memory\<close>

text \<open>The value of a field at an address; \<open>sub\<close> reads the messages it contains.\<close>

definition value_at :: "(u64 \<Rightarrow> u64 \<Rightarrow> pb_entry list option) \<Rightarrow> memory \<Rightarrow> pb_field \<Rightarrow> u64 \<Rightarrow> pb_value option" where
  "value_at sub m field p =
     (let t = PB_LTYPE (pf_type field); n = unat (pf_data_size field); sized = (pf_data_size field \<in> {1, 2, 4, 8})
      in if t = PB_LTYPE_BOOL then Some (PVarint (if safe_read_bool m p then 1 else 0))
         else if t = PB_LTYPE_VARINT then (if sized then Some (PVarint (load_int n m p)) else None)
         else if t = PB_LTYPE_UVARINT then (if sized then Some (PVarint (load_uint n m p)) else None)
         else if t = PB_LTYPE_SVARINT then (if sized then Some (PVarint (zigzag (load_int n m p))) else None)
         else if t = PB_LTYPE_FIXED32 then Some (PFixed32 (load_u32 m p))
         else if t = PB_LTYPE_FIXED64 then Some (PFixed64 (load_uint 8 m p))
         else if t = PB_LTYPE_BYTES then
           (if p = 0 then Some (PBytes [])
            else if PB_ATYPE (pf_type field) = PB_ATYPE_STATIC \<and>
                    (ucast (load_u32 m p) :: u64) > ucast (pf_data_size field) - word_of_nat pb_bytes_offset then None
            else Some (PBytes (mem_bytes m (p + word_of_nat pb_bytes_offset) (unat (load_u32 m p)))))
         else if t = PB_LTYPE_STRING then
           Some (PBytes (mem_bytes m p (if p = 0 then 0
             else str_len m p 0 (if PB_ATYPE (pf_type field) = PB_ATYPE_POINTER then 2 ^ 64 - 1 else n))))
         else if t = PB_LTYPE_SUBMESSAGE then (if pf_ptr field = 0 then None else map_option PMessage (sub (pf_ptr field) p))
         else if t = PB_LTYPE_FIXED_LENGTH_BYTES then Some (PBytes (mem_bytes m p n))
         else None)"

text \<open>The field is present once.\<close>

definition one_entry :: "(u64 \<Rightarrow> u64 \<Rightarrow> pb_entry list option) \<Rightarrow> memory \<Rightarrow> pb_field \<Rightarrow> u64 \<Rightarrow> pb_entry list option" where
  "one_entry sub m field p = map_option (\<lambda>v. [PEntry (pf_tag field) v]) (value_at sub m field p)"

definition array_entries :: "(u64 \<Rightarrow> u64 \<Rightarrow> pb_entry list option) \<Rightarrow> memory \<Rightarrow> pb_field \<Rightarrow> u64 \<Rightarrow> nat \<Rightarrow> pb_entry list option" where
  "array_entries sub m field pData count =
     (let items = item_addresses field pData count
      in if count = 0 then Some []
         else if PB_ATYPE (pf_type field) \<noteq> PB_ATYPE_POINTER \<and> count > unat (pf_array_size field) then None
         else if PB_LTYPE (pf_type field) \<le> PB_LTYPE_LAST_PACKABLE then
           map_option (\<lambda>vs. [PEntry (pf_tag field) (PPacked vs)]) (those (map (value_at sub m field) items))
         else map_option (map (PEntry (pf_tag field))) (those (map (value_at sub m field \<circ> item_address m field) items)))"

text \<open>Whether an optional field is present; a field without a flag is when its pointer or its contents are not zero.\<close>

definition present :: "(u64 \<Rightarrow> pb_field list) \<Rightarrow> memory \<Rightarrow> nat \<Rightarrow> pb_field \<Rightarrow> u64 \<Rightarrow> bool option" where
  "present descr m n field pData =
     (if pf_size_offset field \<noteq> 0 then Some (safe_read_bool m (pData + scast (pf_size_offset field)))
      else if PB_ATYPE (pf_type field) = PB_ATYPE_POINTER then Some (load_ptr m pData \<noteq> 0)
      else map_option Not (pb_check_proto3_default_value descr m n field pData))"

definition basic_entries ::
  "(u64 \<Rightarrow> pb_field list) \<Rightarrow> memory \<Rightarrow> (u64 \<Rightarrow> u64 \<Rightarrow> pb_entry list option) \<Rightarrow> nat \<Rightarrow> pb_field \<Rightarrow> u64 \<Rightarrow> pb_entry list option" where
  "basic_entries descr m sub n field pData =
     (let htype = PB_HTYPE (pf_type field); pSize = pData + scast (pf_size_offset field);
          p = (if PB_ATYPE (pf_type field) = PB_ATYPE_POINTER then load_ptr m pData else pData)
      in if htype = PB_HTYPE_REQUIRED then (if p = 0 then None else one_entry sub m field p)
         else if htype = PB_HTYPE_OPTIONAL then
           (case present descr m n field pData of None \<Rightarrow> None | Some False \<Rightarrow> Some [] | Some True \<Rightarrow> one_entry sub m field p)
         else if htype = PB_HTYPE_REPEATED then
           array_entries sub m field p (unat (if pf_size_offset field \<noteq> 0 then load_u32 m pSize else pf_array_size field))
         else if load_u32 m pSize = pf_tag field then one_entry sub m field p
         else Some [])"

text \<open>\<open>user\<close> and \<open>ext\<close> are what the functions of the application write.\<close>

definition field_entries ::
  "(u64 \<Rightarrow> pb_field list) \<Rightarrow> memory \<Rightarrow> (u64 \<Rightarrow> pb_field \<Rightarrow> u64 \<Rightarrow> bytes option) \<Rightarrow> (u64 \<Rightarrow> u64 \<Rightarrow> pb_entry list option) \<Rightarrow> nat \<Rightarrow>
    pb_field \<Rightarrow> u64 \<Rightarrow> pb_entry list option" where
  "field_entries descr m user sub n field pData =
     (if PB_ATYPE (pf_type field) = PB_ATYPE_STATIC \<or> PB_ATYPE (pf_type field) = PB_ATYPE_POINTER then
        basic_entries descr m sub n field pData
      else if PB_ATYPE (pf_type field) = PB_ATYPE_CALLBACK then
        (if load_ptr m pData = 0 then Some []
         else map_option (\<lambda>bs. [PRaw bs]) (user (load_ptr m pData) field (pData + 8)))
      else None)"

primrec extension_entries ::
  "(u64 \<Rightarrow> pb_field list) \<Rightarrow> memory \<Rightarrow> (u64 \<Rightarrow> pb_field \<Rightarrow> u64 \<Rightarrow> bytes option) \<Rightarrow> (u64 \<Rightarrow> u64 \<Rightarrow> bytes option) \<Rightarrow>
    (u64 \<Rightarrow> u64 \<Rightarrow> pb_entry list option) \<Rightarrow> nat \<Rightarrow> nat \<Rightarrow> u64 \<Rightarrow> pb_entry list option" where
  "extension_entries descr m user ext sub n 0 extension = None"
| "extension_entries descr m user ext sub n (Suc k) extension =
     (if extension = 0 then Some []
      else
        let encode = load_ptr m (load_ptr m extension + 8);
            field = field_at (descr (load_ptr m (load_ptr m extension + 16))) 0;
            p = (if PB_ATYPE (pf_type field) = PB_ATYPE_POINTER then extension + 8 else load_ptr m (extension + 8))
        in case (if encode \<noteq> 0 then map_option (\<lambda>bs. [PRaw bs]) (ext encode extension)
                 else field_entries descr m user sub n field p) of
             None \<Rightarrow> None
           | Some es \<Rightarrow> map_option ((@) es) (extension_entries descr m user ext sub n k (load_ptr m (extension + 16))))"

primrec message_at ::
  "(u64 \<Rightarrow> pb_field list) \<Rightarrow> memory \<Rightarrow> (u64 \<Rightarrow> pb_field \<Rightarrow> u64 \<Rightarrow> bytes option) \<Rightarrow> (u64 \<Rightarrow> u64 \<Rightarrow> bytes option) \<Rightarrow> nat \<Rightarrow>
    u64 \<Rightarrow> u64 \<Rightarrow> pb_entry list option" where
  "message_at descr m user ext 0 descriptors src = None"
| "message_at descr m user ext (Suc n) descriptors src =
     (case pb_field_iter_begin (descr descriptors) src of
        (False, _) \<Rightarrow> Some []
      | (True, iter) \<Rightarrow>
          map_option concat (those (map (\<lambda>(field, p).
            if PB_LTYPE (pf_type field) = PB_LTYPE_EXTENSION then
              extension_entries descr m user ext (message_at descr m user ext n) n n (load_ptr m p)
            else field_entries descr m user (message_at descr m user ext n) n field p) (iter_walk iter))))"

lemma value_at_cases:
  assumes "value_at sub m field p = Some v"
  obtains
    (bool) "PB_LTYPE (pf_type field) = PB_LTYPE_BOOL" "v = PVarint (if safe_read_bool m p then 1 else 0)"
  | (varint) "PB_LTYPE (pf_type field) = PB_LTYPE_VARINT" "pf_data_size field \<in> {1, 2, 4, 8}"
      "v = PVarint (load_int (unat (pf_data_size field)) m p)"
  | (uvarint) "PB_LTYPE (pf_type field) = PB_LTYPE_UVARINT" "pf_data_size field \<in> {1, 2, 4, 8}"
      "v = PVarint (load_uint (unat (pf_data_size field)) m p)"
  | (svarint) "PB_LTYPE (pf_type field) = PB_LTYPE_SVARINT" "pf_data_size field \<in> {1, 2, 4, 8}"
      "v = PVarint (zigzag (load_int (unat (pf_data_size field)) m p))"
  | (fixed32) "PB_LTYPE (pf_type field) = PB_LTYPE_FIXED32" "v = PFixed32 (load_u32 m p)"
  | (fixed64) "PB_LTYPE (pf_type field) = PB_LTYPE_FIXED64" "v = PFixed64 (load_uint 8 m p)"
  | (no_bytes) "PB_LTYPE (pf_type field) = PB_LTYPE_BYTES" "p = 0" "v = PBytes []"
  | (bytes) "PB_LTYPE (pf_type field) = PB_LTYPE_BYTES" "p \<noteq> 0"
      "\<not> (PB_ATYPE (pf_type field) = PB_ATYPE_STATIC \<and>
         (ucast (load_u32 m p) :: u64) > ucast (pf_data_size field) - word_of_nat pb_bytes_offset)"
      "v = PBytes (mem_bytes m (p + word_of_nat pb_bytes_offset) (unat (load_u32 m p)))"
  | (string) "PB_LTYPE (pf_type field) = PB_LTYPE_STRING"
      "v = PBytes (mem_bytes m p (if p = 0 then 0
         else str_len m p 0 (if PB_ATYPE (pf_type field) = PB_ATYPE_POINTER then 2 ^ 64 - 1 else unat (pf_data_size field))))"
  | (submessage) es where "PB_LTYPE (pf_type field) = PB_LTYPE_SUBMESSAGE" "pf_ptr field \<noteq> 0" "sub (pf_ptr field) p = Some es"
      "v = PMessage es"
  | (fixed_length) "PB_LTYPE (pf_type field) = PB_LTYPE_FIXED_LENGTH_BYTES"
      "v = PBytes (mem_bytes m p (unat (pf_data_size field)))"
  using assms unfolding value_at_def Let_def
  by (simp only: split: if_splits option.splits) (simp_all only: option.inject option.map not_True_eq_False, auto)

section \<open>The encoders of the field types emit their values\<close>

lemma enc_fields:
  "pb_enc_bool m field p = pb_encode_varint (if safe_read_bool m p then 1 else 0)"
  "pf_data_size field \<in> {1, 2, 4, 8} \<Longrightarrow> pb_enc_varint m field p = pb_encode_varint (load_int (unat (pf_data_size field)) m p)"
  "pf_data_size field \<in> {1, 2, 4, 8} \<Longrightarrow> pb_enc_uvarint m field p = pb_encode_varint (load_uint (unat (pf_data_size field)) m p)"
  "pf_data_size field \<in> {1, 2, 4, 8} \<Longrightarrow> pb_enc_svarint m field p = pb_encode_svarint (load_int (unat (pf_data_size field)) m p)"
  "pb_enc_fixed32 m field p = pb_encode_fixed32 (load_u32 m p)"
  "pb_enc_fixed64 m field p = pb_encode_fixed64 (load_uint 8 m p)"
  "pb_enc_fixed_length_bytes m field p =
     pb_encode_string (mem_bytes m p (unat (pf_data_size field))) (unat (pf_data_size field))"
  by (rule ext, simp add: pb_enc_bool_def pb_enc_varint_def pb_enc_uvarint_def pb_enc_svarint_def pb_enc_fixed32_def
      pb_enc_fixed64_def pb_enc_fixed_length_bytes_def)+

lemma length_mem_bytes [simp]: "length (mem_bytes m p n) = n"
  by (simp add: mem_bytes_def)

lemma str_len_le: "sz \<le> max_size \<Longrightarrow> str_len m p sz max_size \<le> max_size"
proof (induction m p sz max_size rule: str_len.induct)
  case (1 m p sz max_size)
  then show ?case by (subst str_len.simps) auto
qed

lemma length_frame: "length bs \<le> length (frame bs)"
  by (simp add: frame_def)

context pb_sink
begin

lemma emits_bytes: "n < 2 ^ 64 \<Longrightarrow> length bs = n \<Longrightarrow> emits (pb_encode_string bs n) (frame bs)"
  using emits_string [of n bs] by (simp add: frame_def)

lemma emits_enc_bytes:
  assumes "p = 0 \<or> \<not> (PB_ATYPE (pf_type field) = PB_ATYPE_STATIC \<and>
    (ucast (load_u32 m p) :: u64) > ucast (pf_data_size field) - word_of_nat pb_bytes_offset)"
  shows "emits (pb_enc_bytes m field p)
    (frame (if p = 0 then [] else mem_bytes m (p + word_of_nat pb_bytes_offset) (unat (load_u32 m p))))"
proof -
  have "unat (load_u32 m p) < 2 ^ 64" using unat_u32_less [of "load_u32 m p"] by simp
  then show ?thesis
    using assms emits_bytes [of 0 "[]"] emits_bytes [of "unat (load_u32 m p)" "mem_bytes m (p + word_of_nat pb_bytes_offset) (unat (load_u32 m p))"]
    by (auto simp: pb_enc_bytes_def [abs_def] cong: if_cong)
qed

lemma emits_enc_string:
  "emits (pb_enc_string m field p) (frame (mem_bytes m p (if p = 0 then 0
     else str_len m p 0 (if PB_ATYPE (pf_type field) = PB_ATYPE_POINTER then 2 ^ 64 - 1 else unat (pf_data_size field)))))"
  (is "emits _ (frame (mem_bytes m p ?n))")
proof -
  have "?n \<le> 2 ^ 64 - 1"
    using str_len_le [of 0 "2 ^ 64 - 1" m p] str_len_le [of 0 "unat (pf_data_size field)" m p] unat_u32_less [of "pf_data_size field"]
    by auto
  then have "emits (pb_encode_string (mem_bytes m p ?n) ?n) (frame (mem_bytes m p ?n))" by (intro emits_bytes) auto
  then show ?thesis by (simp add: pb_enc_string_def [abs_def] Let_def)
qed

text \<open>The messages that the descriptors lead to are encoded with one level less.\<close>

definition encodes :: "(u64 \<Rightarrow> u64 \<Rightarrow> pb_entry list option) \<Rightarrow> (u64 \<Rightarrow> u64 \<Rightarrow> 's pb_ostream \<Rightarrow> bool \<times> 's pb_ostream) \<Rightarrow> bool" where
  "encodes sub enc \<longleftrightarrow>
     (\<forall>f q es. sub f q = Some es \<and> length (wire_message es) < 2 ^ 63 \<longrightarrow> emits (enc f q) (wire_message es))"

lemma encodesD: "encodes sub enc \<Longrightarrow> sub f q = Some es \<Longrightarrow> length (wire_message es) < 2 ^ 63 \<Longrightarrow> emits (enc f q) (wire_message es)"
  unfolding encodes_def by blast

lemma emits_value:
  assumes v: "value_at sub m field p = Some v" "length (wire v) < 2 ^ 63"
    and sub: "encodes sub enc"
  shows "emits (PB_ENCODERS enc m (PB_LTYPE (pf_type field)) field p) (wire v)"
proof -
  have sub': "emits (pb_enc_submessage enc field p) (wire (PMessage es))"
    if "pf_ptr field \<noteq> 0" "sub (pf_ptr field) p = Some es" "length (wire (PMessage es)) < 2 ^ 63" for es
  proof -
    have n: "length (wire_message es) < 2 ^ 63"
      using that(3) length_frame [of "wire_message es"] by (simp add: wire_message_def)
    show ?thesis using emits_submessage [OF encodesD [OF sub that(2) n] n] that by (simp add: pb_enc_submessage_def [abs_def] wire_message_def)
  qed
  have fl: "emits (pb_enc_fixed_length_bytes m field p) (wire (PBytes (mem_bytes m p (unat (pf_data_size field)))))"
    unfolding enc_fields wire.simps using unat_u32_less [of "pf_data_size field"] by (intro emits_bytes) simp_all
  have nb: "emits (pb_enc_bytes m field p) (wire (PBytes [])) " if "p = 0"
    using emits_enc_bytes [of p field m] that by simp
  have bb: "emits (pb_enc_bytes m field p) (wire (PBytes (mem_bytes m (p + word_of_nat pb_bytes_offset) (unat (load_u32 m p)))))"
    if "p \<noteq> 0" "\<not> (PB_ATYPE (pf_type field) = PB_ATYPE_STATIC \<and>
      (ucast (load_u32 m p) :: u64) > ucast (pf_data_size field) - word_of_nat pb_bytes_offset)"
    using emits_enc_bytes [of p field m] that by simp
  have st: "emits (pb_enc_string m field p) (wire (PBytes (mem_bytes m p (if p = 0 then 0
     else str_len m p 0 (if PB_ATYPE (pf_type field) = PB_ATYPE_POINTER then 2 ^ 64 - 1 else unat (pf_data_size field))))))"
    using emits_enc_string [of m field p] by simp
  have num: "emits (pb_encode_varint w) (wire (PVarint w))" "emits (pb_encode_svarint w) (wire (PVarint (zigzag w)))"
    "emits (pb_encode_fixed64 w) (wire (PFixed64 w))" "emits (pb_encode_fixed32 x) (wire (PFixed32 x))" for w x
    by (simp_all add: emits_varint emits_svarint emits_fixed32 emits_fixed64)
  show ?thesis
    using v(1)
    by (cases rule: value_at_cases) (use v(2) sub' fl nb bb st num in \<open>simp_all add: PB_ENCODERS_def ltype_defs enc_fields\<close>)
qed

lemma emits_tag_for_field:
  assumes "value_at sub m field p = Some v"
  shows "emits (pb_encode_tag_for_field field) (varint (tag_number (wire_type v) (pf_tag field)))"
  using assms
  by (cases rule: value_at_cases)
    (use emits_tag in \<open>simp_all add: pb_encode_tag_for_field_def [abs_def] ltype_defs wire_type_defs\<close>)

end

section \<open>Arrays, fields and messages\<close>

lemma those_map: "those (map f xs) = Some ys \<longleftrightarrow> list_all2 (\<lambda>x y. f x = Some y) xs ys"
  by (induction xs arbitrary: ys) (auto simp: list_all2_Cons1 split: option.splits)

lemma length_concat_member: "y \<in> set ys \<Longrightarrow> length (w y) \<le> length (concat (map w ys))"
  by (induction ys) auto

lemma value_width:
  assumes "value_at sub m field p = Some v"
  shows "PB_LTYPE (pf_type field) = PB_LTYPE_FIXED32 \<Longrightarrow> length (wire v) = 4"
    "PB_LTYPE (pf_type field) = PB_LTYPE_FIXED64 \<Longrightarrow> length (wire v) = 8"
  using assms by (auto elim!: value_at_cases simp: ltype_defs fixed32_def fixed64_def)

lemma length_concat_width: "(\<And>y. y \<in> set ys \<Longrightarrow> length (w y) = k) \<Longrightarrow> length (concat (map w ys)) = k * length ys"
  by (induction ys) auto

lemma wire_message_simps [simp]:
  "wire_message [] = []" "wire_message (e # es) = wire_entry e @ wire_message es"
  "wire_message (es @ fs) = wire_message es @ wire_message fs"
  "wire_message (map (PEntry t) vs) = concat (map (\<lambda>v. wire_entry (PEntry t v)) vs)"
  by (simp_all add: wire_message_def comp_def)

context pb_sink
begin

lemma emits_items2:
  "list_all2 (\<lambda>x y. emits (func x) (w y)) xs ys \<Longrightarrow> emits (encode_items func xs) (concat (map w ys))"
proof (induction xs ys rule: list_all2_induct)
  case Nil
  show ?case using emits_nil by (simp add: encode_items.simps(1) [abs_def])
next
  case (Cons x xs y ys)
  then show ?case using emits_then [of "func x" "w y" "encode_items func xs"] by simp
qed

lemma emits_counted:
  assumes "emits enc bs"
  shows "emits (\<lambda>s. if os_callback s = None then pb_write s [] (length bs) else enc s) bs"
proof (rule emitsI)
  fix s :: "'s pb_ostream"
  assume "os_callback s = None" "os_bytes_written s < 2 ^ 64"
  then show "(if os_callback s = None then pb_write s [] (length bs) else enc s) = (True, counted s bs)"
    by (simp add: pb_write_def counted_def)
next
  fix s :: "'s pb_ostream"
  assume s: "ready s" "length bs \<le> os_max_size s - os_bytes_written s"
  then show "(if os_callback s = None then pb_write s [] (length bs) else enc s) = (True, after s bs)"
    using emits_writes [OF assms s] by (simp add: ready_def)
next
  fix s :: "'s pb_ostream"
  assume s: "ready s" "os_max_size s - os_bytes_written s < length bs"
  then show "\<exists>k \<le> os_max_size s - os_bytes_written s.
      (if os_callback s = None then pb_write s [] (length bs) else enc s) =
      (False, (after s (take k bs))\<lparr>os_errmsg := Some ''stream full''\<rparr>)"
    using assms unfolding emits_def by (simp add: ready_def)
qed

text \<open>A packed array, whose size is counted first.\<close>

lemma emits_packed:
  assumes body: "emits (encode_items func items) bs" and n: "length bs < 2 ^ 63"
    and sz: "\<And>s :: 's pb_ostream. sz s = Some (length bs)"
  shows "emits (\<lambda>s. os_then (pb_encode_tag PB_WT_STRING tag s) (\<lambda>s.
      case sz s of None \<Rightarrow> (False, s)
      | Some sz \<Rightarrow> os_then (pb_encode_varint (word_of_nat sz) s) (\<lambda>s.
          if os_callback s = None then pb_write s [] sz else encode_items func items s)))
    (varint (tag_number PB_WT_STRING tag) @ frame bs)"
proof -
  have "unat (word_of_nat (length bs) :: u64) = length bs" using n by (simp add: unat_of_nat)
  then have "emits (\<lambda>s. os_then (pb_encode_varint (word_of_nat (length bs)) s) (\<lambda>s.
      if os_callback s = None then pb_write s [] (length bs) else encode_items func items s)) (frame bs)"
    using emits_then [OF emits_varint [of "word_of_nat (length bs)"] emits_counted [OF body]] by (simp add: frame_def)
  then show ?thesis unfolding sz option.case by (intro emits_then emits_tag) (simp_all add: wire_type_defs)
qed

lemma emits_array:
  assumes es: "array_entries sub m field pData count = Some es" "length (wire_message es) < 2 ^ 63"
    and sub: "encodes sub enc"
  shows "emits (encode_array m field pData count (PB_ENCODERS enc m (PB_LTYPE (pf_type field)))) (wire_message es)"
proof (cases "count = 0")
  case True
  then have "encode_array m field pData count (PB_ENCODERS enc m (PB_LTYPE (pf_type field))) = (\<lambda>s. (True, s :: 's pb_ostream))"
    by (intro ext) (simp add: encode_array_def)
  then show ?thesis using es True emits_nil by (simp add: array_entries_def)
next
  case False
  let ?items = "item_addresses field pData count"
  let ?func = "PB_ENCODERS enc m (PB_LTYPE (pf_type field)) field"
  have size_ok: "\<not> (PB_ATYPE (pf_type field) \<noteq> PB_ATYPE_POINTER \<and> count > unat (pf_array_size field))"
    using es(1) False by (auto simp: array_entries_def Let_def split: if_splits)
  show ?thesis
  proof (cases "PB_LTYPE (pf_type field) \<le> PB_LTYPE_LAST_PACKABLE")
    case True
    obtain vs where vs: "list_all2 (\<lambda>p v. value_at sub m field p = Some v) ?items vs"
      and e: "es = [PEntry (pf_tag field) (PPacked vs)]"
      using es(1) False size_ok True by (auto simp: array_entries_def Let_def those_map split: if_splits)
    let ?body = "concat (map wire vs)"
    have n: "length ?body < 2 ^ 63" using es(2) length_frame [of ?body] unfolding e by simp
    have "list_all2 (\<lambda>p v. emits (?func p) (wire v)) ?items vs"
      using vs
    proof (rule list.rel_mono_strong)
      fix p v
      assume "p \<in> set ?items" "v \<in> set vs" "value_at sub m field p = Some v"
      moreover have "length (wire v) < 2 ^ 63" using length_concat_member [OF \<open>v \<in> set vs\<close>, of wire] n by linarith
      ultimately show "emits (?func p) (wire v)" using emits_value sub by blast
    qed
    then have body: "emits (encode_items ?func ?items) ?body" by (rule emits_items2)
    have len: "length vs = count" using list_all2_lengthD [OF vs] by (simp add: item_addresses_def)
    have w: "\<exists>p. value_at sub m field p = Some v" if "v \<in> set vs" for v
      using vs that by (auto simp: list_all2_conv_all_nth in_set_conv_nth)
    have sz: "(if PB_LTYPE (pf_type field) = PB_LTYPE_FIXED32 then Some (4 * count mod 2 ^ 64)
         else if PB_LTYPE (pf_type field) = PB_LTYPE_FIXED64 then Some (8 * count mod 2 ^ 64)
         else (case encode_items ?func ?items (PB_OSTREAM_SIZING (os_state s)) of
                 (False, _) \<Rightarrow> None
               | (True, sizestream) \<Rightarrow> Some (os_bytes_written sizestream))) = Some (length ?body)" for s :: "'s pb_ostream"
    proof -
      have "length ?body = 4 * count" if "PB_LTYPE (pf_type field) = PB_LTYPE_FIXED32"
        using length_concat_width [of vs wire 4] value_width(1) [OF _ that] w len by blast
      moreover have "length ?body = 8 * count" if "PB_LTYPE (pf_type field) = PB_LTYPE_FIXED64"
        using length_concat_width [of vs wire 8] value_width(2) [OF _ that] w len by blast
      moreover have "encode_items ?func ?items (PB_OSTREAM_SIZING (os_state s)) =
          (True, (PB_OSTREAM_SIZING (os_state s))\<lparr>os_bytes_written := length ?body\<rparr>)"
        using n by (subst emits_counts [OF body]) (simp_all add: PB_OSTREAM_SIZING_def counted_def)
      ultimately show ?thesis using n by (simp only: if_split) auto
    qed
    show ?thesis
      unfolding encode_array_def [abs_def] Let_def if_not_P [OF False] if_not_P [OF size_ok] if_P [OF True] sz
      using emits_packed [OF body n, of "\<lambda>_. Some (length ?body)" "pf_tag field"] unfolding e by simp
  next
    case np: False
    obtain vs where vs: "list_all2 (\<lambda>p v. value_at sub m field (item_address m field p) = Some v) ?items vs"
      and e: "es = map (PEntry (pf_tag field)) vs"
      using es(1) False size_ok np by (auto simp: array_entries_def Let_def those_map split: if_splits)
    have items: "list_all2 (\<lambda>p v. emits (\<lambda>s. os_then (pb_encode_tag_for_field field s) (?func (item_address m field p)))
        (wire_entry (PEntry (pf_tag field) v))) ?items vs"
      using vs
    proof (rule list.rel_mono_strong)
      fix p v
      assume "p \<in> set ?items" and v: "v \<in> set vs" "value_at sub m field (item_address m field p) = Some v"
      have "length (wire_entry (PEntry (pf_tag field) v)) < 2 ^ 63"
        using length_concat_member [OF v(1), of "\<lambda>v. wire_entry (PEntry (pf_tag field) v)"] es(2) unfolding e by simp
      then have "length (wire v) < 2 ^ 63" by simp
      then show "emits (\<lambda>s. os_then (pb_encode_tag_for_field field s) (?func (item_address m field p))) (wire_entry (PEntry (pf_tag field) v))"
        unfolding wire_entry.simps using v(2) sub by (intro emits_then emits_tag_for_field emits_value) auto
    qed
    show ?thesis
      unfolding encode_array_def [abs_def] Let_def if_not_P [OF False] if_not_P [OF size_ok] if_not_P [OF np] e wire_message_simps
      by (rule emits_items2 [OF items])
  qed
qed

lemma emits_one:
  assumes es: "one_entry sub m field p = Some es" "length (wire_message es) < 2 ^ 63"
    and sub: "encodes sub enc"
  shows "emits (\<lambda>s. os_then (pb_encode_tag_for_field field s) (PB_ENCODERS enc m (PB_LTYPE (pf_type field)) field p)) (wire_message es)"
proof -
  obtain v where v: "value_at sub m field p = Some v" and e: "es = [PEntry (pf_tag field) v]"
    using es(1) by (auto simp: one_entry_def)
  have "length (wire v) < 2 ^ 63" using es(2) unfolding e by simp
  then show ?thesis
    using emits_then [OF emits_tag_for_field [OF v] emits_value [OF v _ sub]] unfolding e by simp
qed

lemma emits_basic_field:
  assumes es: "basic_entries (pe_fields E) (pe_mem E) sub n field pData = Some es" "length (wire_message es) < 2 ^ 63"
    and sub: "encodes sub enc"
  shows "emits (encode_basic_field E enc n field pData) (wire_message es)"
proof -
  let ?m = "pe_mem E" and ?type = "pf_type field"
  let ?p = "if PB_ATYPE ?type = PB_ATYPE_POINTER then load_ptr ?m pData else pData"
  let ?func = "PB_ENCODERS enc ?m (PB_LTYPE ?type)"
  let ?one = "\<lambda>s. os_then (pb_encode_tag_for_field field s) (?func field ?p)"
  have one: "emits ?one (wire_message es)" if "one_entry sub ?m field ?p = Some es"
    using emits_one [OF that es(2) sub] .
  note d = encode_basic_field_def [abs_def] basic_entries_def Let_def
  show ?thesis
  proof (cases "PB_HTYPE ?type = PB_HTYPE_REQUIRED")
    case True
    then show ?thesis using es(1) one unfolding d by (simp split: if_splits)
  next
    case nr: False
    show ?thesis
    proof (cases "PB_HTYPE ?type = PB_HTYPE_OPTIONAL")
      case True
      have has: "(if pf_size_offset field \<noteq> 0 then Some (safe_read_bool ?m (pData + scast (pf_size_offset field)))
          else if PB_ATYPE ?type = PB_ATYPE_POINTER then Some (?p \<noteq> 0)
          else if pf_size_offset field \<noteq> 0 then Some False
          else if PB_HTYPE ?type = PB_HTYPE_OPTIONAL then map_option Not (pb_check_proto3_default_value (pe_fields E) ?m n field pData)
          else Some True) = present (pe_fields E) ?m n field pData"
        using True by (simp add: present_def)
      show ?thesis
        using es(1) one emits_nil unfolding d if_not_P [OF nr] if_P [OF True]
        unfolding has [unfolded if_P [OF True]]
        by (auto split: option.splits bool.splits)
    next
      case no: False
      show ?thesis
      proof (cases "PB_HTYPE ?type = PB_HTYPE_REPEATED")
        case True
        show ?thesis
          using es(1) unfolding d if_not_P [OF nr] if_not_P [OF no] if_P [OF True] by (rule emits_array [OF _ es(2) sub])
      next
        case nrep: False
        show ?thesis
          using es(1) one emits_nil unfolding d if_not_P [OF nr] if_not_P [OF no] if_not_P [OF nrep]
          by (auto split: if_splits)
      qed
    qed
  qed
qed

definition user_emits :: "'s pb_env \<Rightarrow> (u64 \<Rightarrow> pb_field \<Rightarrow> u64 \<Rightarrow> bytes option) \<Rightarrow> (u64 \<Rightarrow> u64 \<Rightarrow> bytes option) \<Rightarrow> bool" where
  "user_emits E user ext \<longleftrightarrow>
     (\<forall>f field arg bs. user f field arg = Some bs \<longrightarrow> emits (pe_callback E f field arg) bs) \<and>
     (\<forall>f x bs. ext f x = Some bs \<longrightarrow> emits (pe_extension E f x) bs)"

lemma emits_field:
  assumes es: "field_entries (pe_fields E) (pe_mem E) user sub n field pData = Some es" "length (wire_message es) < 2 ^ 63"
    and sub: "encodes sub enc" and user: "user_emits E user ext"
  shows "emits (encode_field E enc n field pData) (wire_message es)"
proof (cases "PB_ATYPE (pf_type field) = PB_ATYPE_STATIC \<or> PB_ATYPE (pf_type field) = PB_ATYPE_POINTER")
  case True
  then show ?thesis
    using es(1) emits_basic_field [OF _ es(2) sub] unfolding encode_field_def [abs_def] field_entries_def by simp
next
  case False
  let ?f = "load_ptr (pe_mem E) pData"
  have cb: "PB_ATYPE (pf_type field) = PB_ATYPE_CALLBACK" using es(1) False by (simp add: field_entries_def split: if_splits)
  have eq: "encode_field E enc n field pData = (if ?f = 0 then (\<lambda>s. (True, s)) else
      (\<lambda>s. case pe_callback E ?f field (pData + 8) s of (False, s) \<Rightarrow> os_error ''callback error'' s | (True, s) \<Rightarrow> (True, s)))"
    by (rule ext) (simp add: encode_field_def encode_callback_field_def cb Let_def atype_defs)
  show ?thesis
  proof (cases "?f = 0")
    case True
    then have "es = []" using es(1) by (simp add: field_entries_def cb atype_defs)
    then show ?thesis unfolding eq if_P [OF True] using emits_nil by simp
  next
    case f: False
    obtain bs where bs: "user ?f field (pData + 8) = Some bs" and e: "es = [PRaw bs]"
      using es(1) False f by (auto simp: field_entries_def cb atype_defs)
    have u: "emits (pe_callback E ?f field (pData + 8)) bs" using user bs unfolding user_emits_def by blast
    have "emits (\<lambda>s. case pe_callback E ?f field (pData + 8) s of (False, s) \<Rightarrow> os_error ''callback error'' s | (True, s) \<Rightarrow> (True, s)) bs"
    proof (rule emitsI)
      fix s :: "'s pb_ostream"
      assume s: "ready s" "os_max_size s - os_bytes_written s < length bs"
      show "\<exists>k \<le> os_max_size s - os_bytes_written s.
          (case pe_callback E ?f field (pData + 8) s of (False, s) \<Rightarrow> os_error ''callback error'' s | (True, s) \<Rightarrow> (True, s)) =
          (False, (after s (take k bs))\<lparr>os_errmsg := Some ''stream full''\<rparr>)"
        by (rule emits_full [OF u s]) (auto simp: os_error_def)
    next
      fix s :: "'s pb_ostream"
      assume "os_callback s = None" "os_bytes_written s < 2 ^ 64"
      from emits_counts [OF u this]
      show "(case pe_callback E ?f field (pData + 8) s of (False, s) \<Rightarrow> os_error ''callback error'' s | (True, s) \<Rightarrow> (True, s)) = (True, counted s bs)"
        by simp
    next
      fix s :: "'s pb_ostream"
      assume "ready s" "length bs \<le> os_max_size s - os_bytes_written s"
      from emits_writes [OF u this]
      show "(case pe_callback E ?f field (pData + 8) s of (False, s) \<Rightarrow> os_error ''callback error'' s | (True, s) \<Rightarrow> (True, s)) = (True, after s bs)"
        by simp
    qed
    then show ?thesis unfolding eq if_not_P [OF f] e by simp
  qed
qed

lemma emits_extensions:
  assumes sub: "encodes sub enc" and user: "user_emits E user ext"
  shows "extension_entries (pe_fields E) (pe_mem E) user ext sub n k x = Some es \<Longrightarrow> length (wire_message es) < 2 ^ 63 \<Longrightarrow>
    emits (encode_extensions E enc n k x) (wire_message es)"
proof (induction k arbitrary: x es)
  case 0
  then show ?case by simp
next
  case (Suc k)
  show ?case
  proof (cases "x = 0")
    case True
    then show ?thesis using Suc.prems emits_nil by (simp add: encode_extensions.simps(2) [abs_def])
  next
    case False
    let ?m = "pe_mem E"
    let ?encode = "load_ptr ?m (load_ptr ?m x + 8)" and ?next = "load_ptr ?m (x + 16)"
    let ?first = "\<lambda>s. if ?encode \<noteq> 0 then pe_extension E ?encode x s else default_extension_encoder E enc n x s"
    obtain as bs where e: "es = as @ bs" and rest: "extension_entries (pe_fields E) ?m user ext sub n k ?next = Some bs"
      and first: "(if ?encode \<noteq> 0 then map_option (\<lambda>bs. [PRaw bs]) (ext ?encode x)
         else field_entries (pe_fields E) ?m user sub n (field_at (pe_fields E (load_ptr ?m (load_ptr ?m x + 16))) 0)
           (if PB_ATYPE (pf_type (field_at (pe_fields E (load_ptr ?m (load_ptr ?m x + 16))) 0)) = PB_ATYPE_POINTER
            then x + 8 else load_ptr ?m (x + 8))) = Some as"
      using Suc.prems(1) False by (auto simp: Let_def split: option.splits)
    have n: "length (wire_message as) < 2 ^ 63" "length (wire_message bs) < 2 ^ 63" using Suc.prems(2) unfolding e by simp_all
    have "emits ?first (wire_message as)"
    proof (cases "?encode = 0")
      case True
      then show ?thesis
        using first emits_field [OF _ n(1) sub user] by (simp add: default_extension_encoder_def [abs_def] Let_def split: if_splits)
    next
      case ne: False
      then obtain ws where "ext ?encode x = Some ws" "as = [PRaw ws]" using first by auto
      moreover have "emits (pe_extension E ?encode x) ws" using user calculation(1) unfolding user_emits_def by blast
      ultimately show ?thesis using ne by simp
    qed
    from emits_then [OF this Suc.IH [OF rest n(2)]] show ?thesis
      using False unfolding e wire_message_simps by (simp add: encode_extensions.simps(2) [abs_def] Let_def)
  qed
qed

lemma emits_message:
  assumes user: "user_emits E user ext"
  shows "message_at (pe_fields E) (pe_mem E) user ext n f src = Some es \<Longrightarrow> length (wire_message es) < 2 ^ 63 \<Longrightarrow>
    emits (pb_encode E n f src) (wire_message es)"
proof (induction n arbitrary: f src es)
  case 0
  then show ?case by simp
next
  case (Suc n)
  let ?sub = "message_at (pe_fields E) (pe_mem E) user ext n"
  have sub: "encodes ?sub (pb_encode E n)" unfolding encodes_def using Suc.IH by blast
  obtain more iter where b: "pb_field_iter_begin (pe_fields E f) src = (more, iter)" by force
  show ?case
  proof (cases more)
    case False
    then show ?thesis using Suc.prems(1) emits_nil b by (simp add: pb_encode.simps(2) [abs_def])
  next
    case True
    let ?entries = "\<lambda>(field, p). if PB_LTYPE (pf_type field) = PB_LTYPE_EXTENSION then
        extension_entries (pe_fields E) (pe_mem E) user ext ?sub n n (load_ptr (pe_mem E) p)
      else field_entries (pe_fields E) (pe_mem E) user ?sub n field p"
    let ?enc = "\<lambda>(field, p) s. if PB_LTYPE (pf_type field) = PB_LTYPE_EXTENSION then
        encode_extension_field E (pb_encode E n) n field p s else encode_field E (pb_encode E n) n field p s"
    obtain ess where ess: "list_all2 (\<lambda>x y. ?entries x = Some y) (iter_walk iter) ess" and e: "es = concat ess"
      using Suc.prems(1) b True by (auto simp: those_map)
    have w: "wire_message es = concat (map wire_message ess)" unfolding e by (induction ess) simp_all
    have "list_all2 (\<lambda>x y. emits (?enc x) (wire_message y)) (iter_walk iter) ess"
      using ess
    proof (rule list.rel_mono_strong)
      fix x y
      assume y: "y \<in> set ess" "?entries x = Some y"
      have n: "length (wire_message y) < 2 ^ 63" using length_concat_member [OF y(1), of wire_message] Suc.prems(2) w by simp
      obtain field p where x: "x = (field, p)" by force
      show "emits (?enc x) (wire_message y)"
        using y(2) emits_extensions [OF sub user _ n] emits_field [OF _ n sub user]
        unfolding x by (cases "PB_LTYPE (pf_type field) = PB_LTYPE_EXTENSION") (simp_all add: encode_extension_field_def [abs_def])
    qed
    from emits_items2 [OF this] show ?thesis using b True by (simp add: pb_encode.simps(2) [abs_def] w)
  qed
qed

end

end
