(* ===== verification/Pb_Roundtrip.thy ===== *)
theory Pb_Roundtrip
  imports Pb_Exact
begin

text \<open>
  What \<open>pb_encode\<close> leaves in a buffer: the contract \<open>pb_sink\<close> for the stream of a buffer, the exact result of the
  encoder on it, and a message in memory with a packed array and a message inside, on which it is evaluated.
\<close>

section \<open>Buffers are sinks\<close>

definition buf_put :: "bytes \<times> nat \<Rightarrow> bytes \<Rightarrow> bytes \<times> nat" where
  "buf_put dest bs = (mem_copy (fst dest) (snd dest) bs, snd dest + length bs)"

definition buf_room :: "bytes \<times> nat \<Rightarrow> nat" where
  "buf_room dest = length (fst dest) - snd dest"

lemma mem_copy_append:
  assumes "off + length as \<le> length buf"
  shows "mem_copy (mem_copy buf off as) (off + length as) bs = mem_copy buf off (as @ bs)"
  using assms by (simp add: mem_copy_def add.commute add.left_commute)

interpretation bufs: pb_sink buf_write buf_put buf_room
proof
  fix bs st
  show "buf_write st bs = (True, buf_put st bs)" by (cases st) (simp add: buf_write_def buf_put_def)
next
  fix st :: "bytes \<times> nat"
  show "buf_put st [] = st" by (cases st) (simp add: buf_put_def mem_copy_def)
next
  fix as bs :: bytes and st :: "bytes \<times> nat"
  assume "length as + length bs \<le> buf_room st"
  then show "buf_put (buf_put st as) bs = buf_put st (as @ bs)"
  proof (cases "as = []")
    case True
    then show ?thesis by (simp add: buf_put_def mem_copy_def)
  next
    case False
    then have "0 < length as" by simp
    then have "snd st + length as \<le> length (fst st)" using \<open>length as + length bs \<le> buf_room st\<close> unfolding buf_room_def by linarith
    then show ?thesis by (simp add: buf_put_def mem_copy_append)
  qed
next
  fix as :: bytes and st :: "bytes \<times> nat"
  assume "length as \<le> buf_room st"
  then show "buf_room (buf_put st as) = buf_room st - length as"
    by (cases "as = []") (auto simp: buf_put_def buf_room_def mem_copy_def)
qed

lemma ready_from_buffer: "bufsize \<le> length buf \<Longrightarrow> length buf < 2 ^ 63 \<Longrightarrow> bufs.ready (pb_ostream_from_buffer buf bufsize)"
  by (simp add: bufs.ready_def pb_ostream_from_buffer_def buf_room_def)

lemma after_from_buffer:
  "bufs.after (pb_ostream_from_buffer buf bufsize) bs =
    (pb_ostream_from_buffer buf bufsize)\<lparr>os_state := (bs @ drop (length bs) buf, length bs), os_bytes_written := length bs\<rparr>"
  by (simp add: bufs.after_def pb_ostream_from_buffer_def buf_put_def mem_copy_def)

text \<open>C10: \<open>pb_encode\<close> of a message in memory, whatever it contains, without functions of the application:
  \<open>pb_get_encoded_size\<close> is the length of its wire format; if the buffer is large enough the wire format is written at its
  beginning and the rest of the buffer is left alone; otherwise the call fails with the message \<open>stream full\<close>, and
  nothing is written beyond the size that was given.\<close>

theorem pb_encode_exact:
  fixes E :: "(bytes \<times> nat) pb_env"
  assumes es: "message_at (pe_fields E) (pe_mem E) (\<lambda>_ _ _. None) (\<lambda>_ _. None) n f src = Some es" and len: "length (wire_message es) < 2 ^ 63"
    and buf: "bufsize \<le> length buf" "length buf < 2 ^ 63"
  shows "pb_get_encoded_size st (pb_encode E n f src) = Some (length (wire_message es)) \<and>
    (length (wire_message es) \<le> bufsize \<longrightarrow>
       pb_encode E n f src (pb_ostream_from_buffer buf bufsize) =
         (True, (pb_ostream_from_buffer buf bufsize)
            \<lparr>os_state := (wire_message es @ drop (length (wire_message es)) buf, length (wire_message es)),
             os_bytes_written := length (wire_message es)\<rparr>)) \<and>
    (bufsize < length (wire_message es) \<longrightarrow>
       (\<exists>k \<le> bufsize. pb_encode E n f src (pb_ostream_from_buffer buf bufsize) =
         (False, (pb_ostream_from_buffer buf bufsize)
            \<lparr>os_state := (take k (wire_message es) @ drop k buf, k), os_bytes_written := k, os_errmsg := Some ''stream full''\<rparr>)))"
proof -
  have e: "bufs.emits (pb_encode E n f src) (wire_message es)"
    using es len by (intro bufs.emits_message) (simp_all add: bufs.user_emits_def)
  let ?s = "pb_ostream_from_buffer buf bufsize"
  have s: "os_max_size ?s = bufsize" "os_bytes_written ?s = 0" by (simp_all add: pb_ostream_from_buffer_def)
  note r = ready_from_buffer [OF buf]
  have "\<exists>k \<le> bufsize. pb_encode E n f src ?s =
      (False, ?s\<lparr>os_state := (take k (wire_message es) @ drop k buf, k), os_bytes_written := k, os_errmsg := Some ''stream full''\<rparr>)"
    if full: "bufsize < length (wire_message es)"
  proof -
    obtain k where "k \<le> bufsize" "pb_encode E n f src ?s = (False, (bufs.after ?s (take k (wire_message es)))\<lparr>os_errmsg := Some ''stream full''\<rparr>)"
      using full by (rule_tac bufs.emits_full [OF e r]) (auto simp: s)
    then show ?thesis using full unfolding after_from_buffer by (intro exI [of _ k]) (simp add: min_absorb2)
  qed
  then show ?thesis
    using bufs.emits_get_encoded_size [OF e] bufs.emits_writes [OF e r] len by (simp add: s after_from_buffer)
qed

text \<open>A structure at 0x1000 with an \<open>int32_t\<close>, an array of at most two \<open>uint32_t\<close> after its count, and a message with
  a \<open>bool\<close>.\<close>

definition example_fields :: "u64 \<Rightarrow> pb_field list" where
  "example_fields p =
     (if p = 0x100 then
        [\<lparr>pf_tag = 1, pf_type = 0x01, pf_data_offset = 0, pf_size_offset = 0, pf_data_size = 4, pf_array_size = 0, pf_ptr = 0\<rparr>,
         \<lparr>pf_tag = 2, pf_type = 0x22, pf_data_offset = 4, pf_size_offset = - 4, pf_data_size = 4, pf_array_size = 2, pf_ptr = 0\<rparr>,
         \<lparr>pf_tag = 3, pf_type = 0x08, pf_data_offset = 0, pf_size_offset = 0, pf_data_size = 1, pf_array_size = 0, pf_ptr = 0x200\<rparr>]
      else if p = 0x200 then
        [\<lparr>pf_tag = 1, pf_type = 0x00, pf_data_offset = 0, pf_size_offset = 0, pf_data_size = 1, pf_array_size = 0, pf_ptr = 0\<rparr>]
      else [])"

definition example_memory :: memory where
  "example_memory p =
     (let bs = [0x96, 0, 0, 0, 2, 0, 0, 0, 3, 0, 0, 0, 0x0E, 1, 0, 0, 1]; i = unat (p - 0x1000)
      in if i < length bs then bs ! i else 0)"

definition example_env :: "(bytes \<times> nat) pb_env" where
  "example_env = \<lparr>pe_fields = example_fields, pe_mem = example_memory, pe_callback = (\<lambda>f field arg s. (False, s)),
     pe_extension = (\<lambda>f x s. (False, s))\<rparr>"

definition example_message :: "pb_entry list" where
  "example_message =
     [PEntry 1 (PVarint 150), PEntry 2 (PPacked [PVarint 3, PVarint 270]), PEntry 3 (PMessage [PEntry 1 (PVarint 1)])]"

lemma example_walk:
  "pb_field_iter_begin (example_fields 0x100) 0x1000 = (True, snd (pb_field_iter_begin (example_fields 0x100) 0x1000))"
  "iter_walk (snd (pb_field_iter_begin (example_fields 0x100) 0x1000)) =
     [(example_fields 0x100 ! 0, 0x1000), (example_fields 0x100 ! Suc 0, 0x1008), (example_fields 0x100 ! 2, 0x1010)]"
  "PB_LTYPE (pf_type (example_fields 0x100 ! 0)) \<noteq> PB_LTYPE_EXTENSION"
  "PB_LTYPE (pf_type (example_fields 0x100 ! Suc 0)) \<noteq> PB_LTYPE_EXTENSION"
  "PB_LTYPE (pf_type (example_fields 0x100 ! 2)) \<noteq> PB_LTYPE_EXTENSION"
  by code_simp+

lemma example_entries:
  "field_entries example_fields example_memory (\<lambda>_ _ _. None) sub 2 (example_fields 0x100 ! 0) 0x1000 = Some [PEntry 1 (PVarint 150)]"
  "field_entries example_fields example_memory (\<lambda>_ _ _. None) sub 2 (example_fields 0x100 ! Suc 0) 0x1008 =
     Some [PEntry 2 (PPacked [PVarint 3, PVarint 270])]"
  "field_entries example_fields example_memory (\<lambda>_ _ _. None) sub 2 (example_fields 0x100 ! 2) 0x1010 =
     map_option (\<lambda>es. [PEntry 3 (PMessage es)]) (sub 0x200 0x1010)"
  by (code_simp, code_simp, (code_simp, simp add: option.map_comp comp_def))

lemma example_sub: "message_at example_fields example_memory (\<lambda>_ _ _. None) (\<lambda>_ _. None) 2 0x200 0x1010 = Some [PEntry 1 (PVarint 1)]"
  by code_simp

lemma example_message_at: "message_at (pe_fields example_env) (pe_mem example_env) (\<lambda>_ _ _. None) (\<lambda>_ _. None) 3 0x100 0x1000 = Some example_message"
proof -
  have "message_at example_fields example_memory (\<lambda>_ _ _. None) (\<lambda>_ _. None) (Suc 2) 0x100 0x1000 = Some example_message"
    unfolding message_at.simps(2) by (subst example_walk(1)) (simp add: example_walk(2-5) example_entries example_sub example_message_def)
  then show ?thesis by (simp add: example_env_def)
qed

lemma example_wire: "wire_message example_message = [0x08, 0x96, 0x01, 0x12, 0x03, 0x03, 0x8E, 0x02, 0x1A, 0x02, 0x08, 0x01]"
  by code_simp

theorem pb_encode_exact_witness:
  "pb_encode example_env 3 0x100 0x1000 (pb_ostream_from_buffer (replicate 13 0xFF) 13) =
     (True, (pb_ostream_from_buffer (replicate 13 0xFF) 13)
        \<lparr>os_state := ([0x08, 0x96, 0x01, 0x12, 0x03, 0x03, 0x8E, 0x02, 0x1A, 0x02, 0x08, 0x01, 0xFF], 12), os_bytes_written := 12\<rparr>)"
  using pb_encode_exact [OF example_message_at, of 13 "replicate 13 0xFF"] by (simp add: example_wire)

end
