(* ===== verification/Pb_Read.thy ===== *)
theory Pb_Read
  imports Pb_Roundtrip
begin

text \<open>
  The readers of \<open>Pb_Decode\<close> on what the encoder writes: every value of the wire format is read back by the decoder of
  its type and skipped by \<open>pb_skip_field\<close>, to its last byte and no further. The locale \<open>wire_codec\<close> is what a packed
  array asks of the encoding of its items.
\<close>

section \<open>Frames\<close>

text \<open>The substream of a frame, before anything is read of it and after.\<close>

lemma make_substream:
  assumes "length bs < 2 ^ 32"
  shows "pb_make_string_substream (prepend (frame bs) s) =
    (Some (prepend bs (s\<lparr>is_bytes_left := 0\<rparr>)), s\<lparr>is_state := bs @ is_state s\<rparr>)"
proof -
  have n: "unat (word_of_nat (length bs) :: u32) = length bs" using assms by (simp add: unat_of_nat)
  have "pb_decode_varint32 (prepend (frame bs) s) = (Some (word_of_nat (length bs)), prepend bs s)"
    using pb_decode_varint32_spec [OF assms, of "prepend bs s"] by (simp add: frame_def prepend_append)
  then show ?thesis by (simp add: pb_make_string_substream_def is_then_def n prepend_def)
qed

lemma close_substream:
  "pb_close_string_substream (s\<lparr>is_state := bs @ is_state s\<rparr>) (s\<lparr>is_bytes_left := 0\<rparr>) = (Some (), s)"
  by (simp add: pb_close_string_substream_def Let_def)

lemma pb_dec_submessage_frame:
  assumes "length bs < 2 ^ 32" "pf_ptr field \<noteq> 0"
    "(if PB_HTYPE (pf_type field) = PB_HTYPE_REPEATED then decode else noinit) (prepend bs (s\<lparr>is_bytes_left := 0\<rparr>)) =
       (Some x, s\<lparr>is_bytes_left := 0\<rparr>)"
  shows "pb_dec_submessage decode noinit field (prepend (frame bs) s) = (Some x, s)"
  using assms(2,3) by (auto simp: pb_dec_submessage_def is_then_def make_substream [OF assms(1)] close_substream split: if_splits)

lemma pb_skip_string_frame: "length bs < 2 ^ 32 \<Longrightarrow> pb_skip_string (prepend (frame bs) s) = (Some (), s)"
  by (simp add: pb_skip_string_def is_then_def frame_def prepend_append pb_decode_varint32_spec pb_read_prepend unat_of_nat)

section \<open>Skipping\<close>

lemma pb_skip_varint_varint: "pb_skip_varint (prepend (varint n) s) = (Some (), s)"
proof (induction n rule: less_induct)
  case (less n)
  show ?case
  proof (cases rule: varint_cases [of n])
    case (last_digit b)
    then show ?thesis by (subst pb_skip_varint.simps) (simp add: pb_read_prepend byte_top_bit)
  next
    case (more b)
    have "pb_read (prepend (b # varint (n div 128)) s) 1 = (Some [b], prepend (varint (n div 128)) s)"
      using pb_read_prepend [of "[b]" 1 "prepend (varint (n div 128)) s"] by (simp flip: prepend_append)
    then show ?thesis using more less [of "n div 128"] by (subst pb_skip_varint.simps) (simp add: byte_top_bit)
  qed
qed

fun content :: "pb_value \<Rightarrow> bytes" where
  "content (PBytes bs) = bs"
| "content (PPacked vs) = concat (map wire vs)"
| "content (PMessage es) = wire_message es"
| "content v = wire v"

lemma pb_skip_field_value:
  assumes "length (content v) < 2 ^ 32"
  shows "pb_skip_field (wire_type v) (prepend (wire v) s) = (Some (), s)"
  using assms
  by (cases v) (simp_all add: pb_skip_field_def wire_type_defs pb_skip_varint_varint is_then_def pb_read_prepend
      fixed32_def fixed64_def pb_skip_string_frame wire_message_def)

lemma drop_tag:
  assumes "wt < 8" "unat n < 2 ^ 29"
  shows "(word_of_nat (tag_number wt n) :: u32) AND 7 = wt" "drop_bit 3 (word_of_nat (tag_number wt n) :: u32) = n"
proof -
  have w: "unat wt < 8" using assms(1) by (simp add: word_less_nat_alt)
  have "tag_number wt n < 2 ^ 32" using assms(2) w by (simp add: tag_number_def)
  then have u: "unat (word_of_nat (tag_number wt n) :: u32) = 8 * unat n + unat wt" by (simp add: unat_of_nat) (simp add: tag_number_def)
  have "(word_of_nat (tag_number wt n) :: u32) AND 7 = take_bit 3 (word_of_nat (tag_number wt n))"
    by (simp add: take_bit_eq_mask mask_eq_exp_minus_1)
  moreover have "unat (take_bit 3 (word_of_nat (tag_number wt n)) :: u32) = take_bit 3 (8 * unat n + unat wt)"
    by (simp only: unsigned_take_bit_eq u)
  moreover have "take_bit 3 (8 * unat n + unat wt) = unat wt" using w by (simp add: take_bit_eq_mod)
  ultimately show "(word_of_nat (tag_number wt n) :: u32) AND 7 = wt" by (simp only: word_unat_eq_iff)
  have "unat (drop_bit 3 (word_of_nat (tag_number wt n) :: u32)) = unat n"
  proof -
    have "unat (drop_bit 3 (word_of_nat (tag_number wt n) :: u32)) = drop_bit 3 (8 * unat n + unat wt)"
      unfolding u [symmetric] by (rule unat_drop_bit_eq)
    then show ?thesis using w by (simp add: drop_bit_eq_div)
  qed
  then show "drop_bit 3 (word_of_nat (tag_number wt n) :: u32) = n" by (simp only: word_unat_eq_iff)
qed

lemma pb_decode_tag_spec:
  assumes wt: "wt < 8" and n: "n \<noteq> 0" "unat n < 2 ^ 29"
  shows "pb_decode_tag (prepend (varint (tag_number wt n)) s) = (Some (wt, n), False, s)"
proof -
  have lt: "tag_number wt n < 2 ^ 32" using n wt by (simp add: tag_number_def word_less_nat_alt)
  have "tag_number wt n \<noteq> 0" using n(1) by (simp add: tag_number_def unat_eq_0)
  then have "unat (word_of_nat (tag_number wt n) :: u32) \<noteq> 0" using lt by (simp add: unat_of_nat)
  then have "(word_of_nat (tag_number wt n) :: u32) \<noteq> 0" by auto
  moreover have "pb_decode_varint32_eof (prepend (varint (tag_number wt n)) s) = (Some (word_of_nat (tag_number wt n)), False, s)"
    using pb_decode_varint32_eof_spec [of "tag_number wt n" s] lt by (simp add: varint32_accepts_def)
  ultimately show ?thesis using drop_tag [OF wt n(2)] by (simp add: pb_decode_tag_def)
qed

section \<open>Numbers in fields\<close>

text \<open>The numbers that a field of one, two, four or eight bytes can hold.\<close>

definition int_fits :: "pb_field \<Rightarrow> int \<Rightarrow> bool" where
  "int_fits field x \<longleftrightarrow> unat (pf_data_size field) \<in> {1, 2, 4, 8} \<and>
     - (2 ^ (8 * unat (pf_data_size field) - 1)) \<le> x \<and> x < 2 ^ (8 * unat (pf_data_size field) - 1)"

definition uint_fits :: "pb_field \<Rightarrow> int \<Rightarrow> bool" where
  "uint_fits field x \<longleftrightarrow> unat (pf_data_size field) \<in> {1, 2, 4, 8} \<and> 0 \<le> x \<and> x < 2 ^ (8 * unat (pf_data_size field))"

lemma store_int_fits: "int_fits field x \<Longrightarrow> store_checked store_int field x s = (True, Some x, s)"
  by (auto simp: store_checked_def store_int_def int_fits_def Let_def intro!: signed_take_bit_int_eq_self)

lemma store_uint_fits: "uint_fits field x \<Longrightarrow> store_checked store_uint field x s = (True, Some x, s)"
  by (auto simp: store_checked_def store_uint_def uint_fits_def Let_def intro!: take_bit_int_eq_self)

lemma int_fits_64: "int_fits field x \<Longrightarrow> sint (word_of_int x :: u64) = x"
  by (auto simp: int_fits_def signed_of_int intro!: signed_take_bit_int_eq_self)

lemma pb_dec_varint_fits:
  assumes "int_fits field x"
  shows "pb_dec_varint field (prepend (varint (unat (word_of_int x :: u64))) s) = (True, Some x, s)"
proof -
  have "sint (word_of_int x :: u32) = x" if "unat (pf_data_size field) \<noteq> 8"
    using assms that by (auto simp: int_fits_def signed_of_int intro!: signed_take_bit_int_eq_self)
  moreover have "ucast (word_of_int x :: u64) = (word_of_int x :: u32)"
    by (simp add: ucast_down_wi is_down)
  ultimately show ?thesis
    using int_fits_64 [OF assms] store_int_fits [OF assms] by (simp add: pb_dec_varint_def pb_decode_varint_spec)
qed

lemma pb_dec_uvarint_fits:
  assumes "uint_fits field x"
  shows "pb_dec_uvarint field (prepend (varint (unat (word_of_int x :: u64))) s) = (True, Some x, s)"
proof -
  have "x < 2 ^ 64" "0 \<le> x" using assms by (auto simp: uint_fits_def)
  then have "uint (word_of_int x :: u64) = x" by (simp add: uint_word_of_int)
  then show ?thesis using store_uint_fits [OF assms] by (simp add: pb_dec_uvarint_def pb_decode_varint_spec)
qed

lemma pb_decode_svarint_zigzag: "pb_decode_svarint (prepend (varint (unat (zigzag x))) s) = (Some x, s)"
  by (simp add: pb_decode_svarint_def is_then_def pb_decode_varint_spec unzigzag_zigzag)

lemma pb_dec_svarint_fits:
  "int_fits field x \<Longrightarrow> pb_dec_svarint field (prepend (varint (unat (zigzag (word_of_int x)))) s) = (True, Some x, s)"
  by (simp add: pb_dec_svarint_def pb_decode_svarint_zigzag int_fits_64 store_int_fits)

section \<open>Packed arrays\<close>

locale wire_codec =
  fixes dec :: "pb_istream \<Rightarrow> 'a option \<times> pb_istream" and enc :: "'a \<Rightarrow> bytes" and valid :: "'a \<Rightarrow> bool"
  assumes dec_enc: "valid v \<Longrightarrow> dec (prepend (enc v) s) = (Some v, s)"
    and enc_nonempty: "enc v \<noteq> []"
begin

lemma packed_loop_full:
  "list_all valid vs \<Longrightarrow> is_bytes_left s = 0 \<Longrightarrow> length items + length vs \<le> n \<Longrightarrow>
    packed_loop dec n items (prepend (concat (map enc vs)) s) = (True, items @ vs, s)"
proof (induction vs arbitrary: items)
  case Nil
  then show ?case by (subst packed_loop.simps) simp
next
  case (Cons v vs)
  have "dec (prepend (enc v @ concat (map enc vs)) s) = (Some v, prepend (concat (map enc vs)) s)"
    using Cons.prems(1) by (simp add: prepend_append dec_enc)
  moreover have "0 < length (enc v)" using enc_nonempty by simp
  ultimately show ?case using Cons.IH [of "items @ [v]"] Cons.prems by (subst packed_loop.simps) simp
qed

lemma packed_loop_overflow:
  "list_all valid vs \<Longrightarrow> length items \<le> n \<Longrightarrow> n < length items + length vs \<Longrightarrow>
    packed_loop dec n items (prepend (concat (map enc vs)) s) =
      (True, items @ take (n - length items) vs, prepend (concat (map enc (drop (n - length items) vs))) s)"
proof (induction vs arbitrary: items)
  case Nil
  then show ?case by simp
next
  case (Cons v vs)
  have "dec (prepend (enc v @ concat (map enc vs)) s) = (Some v, prepend (concat (map enc vs)) s)"
    using Cons.prems(1) by (simp add: prepend_append dec_enc)
  moreover have "0 < length (enc v)" using enc_nonempty by simp
  ultimately show ?case
  proof (cases "length items = n")
    case True
    then show ?thesis by (subst packed_loop.simps) simp
  next
    case False
    then have "n - length items = Suc (n - Suc (length items))" using Cons.prems by simp
    then show ?thesis
      using \<open>dec _ = _\<close> \<open>0 < length (enc v)\<close> Cons.IH [of "items @ [v]"] Cons.prems False by (subst packed_loop.simps) simp
  qed
qed

lemma decode_packed_full:
  assumes "length (concat (map enc vs)) < 2 ^ 32" "length items + length vs \<le> n" "list_all valid vs"
  shows "decode_packed dec n items (prepend (frame (concat (map enc vs))) s) = (True, items @ vs, s)"
  using packed_loop_full [of vs "s\<lparr>is_bytes_left := 0\<rparr>" items n] assms
  by (simp add: decode_packed_def make_substream close_substream)

lemma decode_packed_overflow:
  assumes "length (concat (map enc vs)) < 2 ^ 32" "length items \<le> n" "n < length items + length vs" "is_errmsg s = None" "list_all valid vs"
  shows "\<exists>s'. decode_packed dec n items (prepend (frame (concat (map enc vs))) s) =
    (False, items @ take (n - length items) vs, s') \<and> is_errmsg s' = Some ''array overflow''"
proof -
  have "drop (n - length items) vs \<noteq> []" using assms(2,3) by simp
  then have "concat (map enc (drop (n - length items) vs)) \<noteq> []"
    using enc_nonempty by (cases "drop (n - length items) vs") simp_all
  then show ?thesis
    using packed_loop_overflow [OF assms(5,2,3), of "s\<lparr>is_bytes_left := 0\<rparr>"] assms(1,4)
    by (simp add: decode_packed_def make_substream is_error_def)
qed

end

text \<open>The decoders of numbers as decoders of items: the number stored, when the call succeeds.\<close>

definition stored :: "(pb_istream \<Rightarrow> bool \<times> int option \<times> pb_istream) \<Rightarrow> pb_istream \<Rightarrow> int option \<times> pb_istream" where
  "stored dec s = (case dec s of (ok, x, s) \<Rightarrow> (if ok then x else None, s))"

interpretation varints: wire_codec "stored (pb_dec_varint field)" "\<lambda>x. wire (PVarint (word_of_int x))" "int_fits field" for field
  by unfold_locales (simp_all add: stored_def pb_dec_varint_fits)

interpretation uvarints: wire_codec "stored (pb_dec_uvarint field)" "\<lambda>x. wire (PVarint (word_of_int x))" "uint_fits field" for field
  by unfold_locales (simp_all add: stored_def pb_dec_uvarint_fits)

interpretation svarints: wire_codec "stored (pb_dec_svarint field)" "\<lambda>x. wire (PVarint (zigzag (word_of_int x)))" "int_fits field" for field
  by unfold_locales (simp_all add: stored_def pb_dec_svarint_fits)

interpretation fixed32s: wire_codec pb_dec_fixed32 "\<lambda>v. wire (PFixed32 v)" "\<lambda>_. True"
  by unfold_locales (simp_all add: pb_dec_fixed32_def pb_decode_fixed32_spec, simp add: fixed32_def flip: length_0_conv)

interpretation fixed64s: wire_codec pb_dec_fixed64 "\<lambda>v. wire (PFixed64 v)" "\<lambda>_. True"
  by unfold_locales (simp_all add: pb_dec_fixed64_def pb_decode_fixed64_spec, simp add: fixed64_def flip: length_0_conv)

interpretation bools: wire_codec pb_dec_bool "\<lambda>b. wire (PVarint (if b then 1 else 0))" "\<lambda>_. True"
  by unfold_locales (simp_all add: pb_dec_bool_def is_then_def pb_decode_varint32_spec)

section \<open>Reading what was written\<close>

lemma pb_dec_bytes_frame:
  assumes "length bs < 2 ^ 32" "PB_ATYPE (pf_type field) = PB_ATYPE_STATIC" "length bs + pb_bytes_offset \<le> unat (pf_data_size field)"
  shows "pb_dec_bytes libc field (prepend (frame bs) s) = (Some bs, s)"
proof -
  have "pb_decode_varint32 (prepend (frame bs) s) = (Some (word_of_nat (length bs)), prepend bs s)"
    using pb_decode_varint32_spec [OF assms(1), of "prepend bs s"] by (simp add: frame_def prepend_append)
  moreover have "unat (word_of_nat (length bs) :: u32) = length bs" using assms(1) by (simp add: unat_of_nat)
  ultimately show ?thesis
    using assms(2,3) by (simp add: pb_dec_bytes_def is_then_def Let_def pb_read_prepend atype_defs)
qed

lemma pb_dec_string_frame:
  assumes "length bs < 2 ^ 32" "PB_ATYPE (pf_type field) = PB_ATYPE_STATIC" "length bs + 1 \<le> unat (pf_data_size field)"
  shows "pb_dec_string libc field (prepend (frame bs) s) = (Some bs, s)"
proof -
  have "pb_decode_varint32 (prepend (frame bs) s) = (Some (word_of_nat (length bs)), prepend bs s)"
    using pb_decode_varint32_spec [OF assms(1), of "prepend bs s"] by (simp add: frame_def prepend_append)
  moreover have l: "length bs + 1 < 2 ^ 32" using assms(3) unat_u32_less [of "pf_data_size field"] by simp
  have "word_of_nat (length bs) + 1 = (word_of_nat (length bs + 1) :: u32)" by simp
  then have u: "unat (word_of_nat (length bs) :: u32) = length bs" "unat (word_of_nat (length bs) + 1 :: u32) = length bs + 1"
    using l by (simp_all only: unat_of_nat) simp_all
  then have "\<not> (word_of_nat (length bs) + 1 :: u32) < word_of_nat (length bs)" by (simp add: word_less_nat_alt)
  ultimately show ?thesis
    using assms(2,3) u by (simp add: pb_dec_string_def is_then_def Let_def pb_read_prepend atype_defs)
qed

lemma pb_dec_fixed_length_bytes_frame:
  assumes "length bs = unat (pf_data_size field)" "bs \<noteq> []"
  shows "pb_dec_fixed_length_bytes field (prepend (frame bs) s) = (Some bs, s)"
proof -
  have l: "length bs < 2 ^ 32" using assms(1) unat_u32_less [of "pf_data_size field"] by simp
  have "pb_decode_varint32 (prepend (frame bs) s) = (Some (word_of_nat (length bs)), prepend bs s)"
    using pb_decode_varint32_spec [OF l, of "prepend bs s"] by (simp add: frame_def prepend_append)
  moreover have u: "unat (word_of_nat (length bs) :: u32) = length bs" using l by (simp add: unat_of_nat)
  then have "(word_of_nat (length bs) :: u32) \<noteq> 0" using assms(2) by (metis length_0_conv unat_0)
  ultimately show ?thesis
    using assms u by (simp add: pb_dec_fixed_length_bytes_def is_then_def pb_read_prepend)
qed

text \<open>C11: a field of a message as \<open>pb_encode\<close> writes it is read back, whatever follows it in the stream: its tag by
  \<open>pb_decode_tag\<close>, and \<open>pb_skip_field\<close> steps over exactly the value. A number is read by
  \<open>pb_decode_varint\<close>, \<open>pb_decode_svarint\<close>, \<open>pb_decode_fixed32\<close> or \<open>pb_decode_fixed64\<close>, and
  \<open>pb_dec_varint\<close>, \<open>pb_dec_uvarint\<close> and \<open>pb_dec_svarint\<close> store it when it fits the field; bytes are read into a static
  field that is large enough by \<open>pb_dec_bytes\<close>, \<open>pb_dec_string\<close> and \<open>pb_dec_fixed_length_bytes\<close>; the items of a packed
  array of any of the six packable types are read into an array that is large enough.
  For a submessage the property stops at its substream: \<open>pb_make_string_substream\<close> cuts out exactly the encoded fields and
  \<open>pb_close_string_substream\<close> then leaves what follows; the decoder of the fields of a structure is not modelled.\<close>

theorem pb_entry_roundtrip:
  assumes n: "n \<noteq> 0" "unat n < 2 ^ 29" and len: "length (content v) < 2 ^ 32"
  shows "pb_decode_tag (prepend (wire_entry (PEntry n v)) s) = (Some (wire_type v, n), False, prepend (wire v) s) \<and>
    pb_skip_field (wire_type v) (prepend (wire v) s) = (Some (), s) \<and>
    (case v of
       PVarint w \<Rightarrow> pb_decode_varint (prepend (wire v) s) = (Some w, s) \<and>
         (\<forall>x. w = zigzag x \<longrightarrow> pb_decode_svarint (prepend (wire v) s) = (Some x, s)) \<and>
         (\<forall>b. w = (if b then 1 else 0) \<longrightarrow> pb_dec_bool (prepend (wire v) s) = (Some b, s)) \<and>
         (\<forall>field x. int_fits field x \<and> w = word_of_int x \<longrightarrow> pb_dec_varint field (prepend (wire v) s) = (True, Some x, s)) \<and>
         (\<forall>field x. uint_fits field x \<and> w = word_of_int x \<longrightarrow> pb_dec_uvarint field (prepend (wire v) s) = (True, Some x, s)) \<and>
         (\<forall>field x. int_fits field x \<and> w = zigzag (word_of_int x) \<longrightarrow> pb_dec_svarint field (prepend (wire v) s) = (True, Some x, s))
     | PFixed32 w \<Rightarrow> pb_decode_fixed32 (prepend (wire v) s) = (Some w, s)
     | PFixed64 w \<Rightarrow> pb_decode_fixed64 (prepend (wire v) s) = (Some w, s)
     | PBytes bs \<Rightarrow>
         (\<forall>libc field. PB_ATYPE (pf_type field) = PB_ATYPE_STATIC \<and> length bs + pb_bytes_offset \<le> unat (pf_data_size field) \<longrightarrow>
            pb_dec_bytes libc field (prepend (wire v) s) = (Some bs, s)) \<and>
         (\<forall>libc field. PB_ATYPE (pf_type field) = PB_ATYPE_STATIC \<and> length bs + 1 \<le> unat (pf_data_size field) \<longrightarrow>
            pb_dec_string libc field (prepend (wire v) s) = (Some bs, s)) \<and>
         (\<forall>field. length bs = unat (pf_data_size field) \<and> bs \<noteq> [] \<longrightarrow>
            pb_dec_fixed_length_bytes field (prepend (wire v) s) = (Some bs, s))
     | PPacked vs \<Rightarrow>
         (\<forall>k field xs. length xs \<le> k \<and> list_all (int_fits field) xs \<and> vs = map (\<lambda>x. PVarint (word_of_int x)) xs \<longrightarrow>
            decode_packed (stored (pb_dec_varint field)) k [] (prepend (wire v) s) = (True, xs, s)) \<and>
         (\<forall>k field xs. length xs \<le> k \<and> list_all (uint_fits field) xs \<and> vs = map (\<lambda>x. PVarint (word_of_int x)) xs \<longrightarrow>
            decode_packed (stored (pb_dec_uvarint field)) k [] (prepend (wire v) s) = (True, xs, s)) \<and>
         (\<forall>k field xs. length xs \<le> k \<and> list_all (int_fits field) xs \<and> vs = map (\<lambda>x. PVarint (zigzag (word_of_int x))) xs \<longrightarrow>
            decode_packed (stored (pb_dec_svarint field)) k [] (prepend (wire v) s) = (True, xs, s)) \<and>
         (\<forall>k ws. length ws \<le> k \<and> vs = map PFixed32 ws \<longrightarrow> decode_packed pb_dec_fixed32 k [] (prepend (wire v) s) = (True, ws, s)) \<and>
         (\<forall>k ws. length ws \<le> k \<and> vs = map PFixed64 ws \<longrightarrow> decode_packed pb_dec_fixed64 k [] (prepend (wire v) s) = (True, ws, s)) \<and>
         (\<forall>k bs. length bs \<le> k \<and> vs = map (\<lambda>b. PVarint (if b then 1 else 0)) bs \<longrightarrow>
            decode_packed pb_dec_bool k [] (prepend (wire v) s) = (True, bs, s))
     | PMessage es \<Rightarrow>
         \<exists>sub rest. pb_make_string_substream (prepend (wire v) s) = (Some sub, rest) \<and>
           sub = prepend (wire_message es) (s\<lparr>is_bytes_left := 0\<rparr>) \<and>
           pb_close_string_substream rest (s\<lparr>is_bytes_left := 0\<rparr>) = (Some (), s))"
proof -
  have wt: "wire_type v < 8" by (cases v) (simp_all add: wire_type_defs)
  have "pb_decode_tag (prepend (wire_entry (PEntry n v)) s) = (Some (wire_type v, n), False, prepend (wire v) s)"
    using pb_decode_tag_spec [OF wt n] by (simp add: prepend_append)
  moreover note pb_skip_field_value [OF len]
  moreover have "decode_packed (stored (pb_dec_varint field)) k [] (prepend (wire v) s) = (True, xs, s)"
    if "v = PPacked (map (\<lambda>x. PVarint (word_of_int x)) xs)" "length xs \<le> k" "list_all (int_fits field) xs" for field k xs
    using varints.decode_packed_full [of xs "[]" k field s] that len by (simp add: comp_def)
  moreover have "decode_packed (stored (pb_dec_uvarint field)) k [] (prepend (wire v) s) = (True, xs, s)"
    if "v = PPacked (map (\<lambda>x. PVarint (word_of_int x)) xs)" "length xs \<le> k" "list_all (uint_fits field) xs" for field k xs
    using uvarints.decode_packed_full [of xs "[]" k field s] that len by (simp add: comp_def)
  moreover have "decode_packed (stored (pb_dec_svarint field)) k [] (prepend (wire v) s) = (True, xs, s)"
    if "v = PPacked (map (\<lambda>x. PVarint (zigzag (word_of_int x))) xs)" "length xs \<le> k" "list_all (int_fits field) xs" for field k xs
    using svarints.decode_packed_full [of xs "[]" k field s] that len by (simp add: comp_def)
  moreover have "decode_packed pb_dec_fixed32 k [] (prepend (wire v) s) = (True, ws, s)"
    if "v = PPacked (map PFixed32 ws)" "length ws \<le> k" for k ws
    using fixed32s.decode_packed_full [of ws "[]" k s] that len by (simp add: comp_def list_all_iff)
  moreover have "decode_packed pb_dec_fixed64 k [] (prepend (wire v) s) = (True, ws, s)"
    if "v = PPacked (map PFixed64 ws)" "length ws \<le> k" for k ws
    using fixed64s.decode_packed_full [of ws "[]" k s] that len by (simp add: comp_def list_all_iff)
  moreover have "decode_packed pb_dec_bool k [] (prepend (wire v) s) = (True, bs, s)"
    if "v = PPacked (map (\<lambda>b. PVarint (if b then 1 else 0)) bs)" "length bs \<le> k" for k bs
    using bools.decode_packed_full [of bs "[]" k s] that len by (simp add: comp_def list_all_iff)
  ultimately show ?thesis
    using pb_decode_varint_spec pb_decode_svarint_zigzag bools.dec_enc pb_dec_varint_fits pb_dec_uvarint_fits pb_dec_svarint_fits
      pb_decode_fixed32_spec pb_decode_fixed64_spec pb_dec_bytes_frame pb_dec_string_frame pb_dec_fixed_length_bytes_frame len
      make_substream close_substream
    by (cases v) (auto simp: wire_message_def)
qed

text \<open>The packed array of \<open>3\<close> and \<open>- 2\<close>, zigzag-encoded, before another byte.\<close>

theorem pb_entry_roundtrip_witness:
  "decode_packed (stored (pb_dec_svarint \<lparr>pf_tag = 2, pf_type = 0, pf_data_offset = 0, pf_size_offset = 0, pf_data_size = 4,
      pf_array_size = 4, pf_ptr = 0\<rparr>)) 4 [] (prepend (wire (PPacked [PVarint 6, PVarint 3])) (pb_istream_from_buffer [0x08] 1)) =
     (True, [3, - 2], pb_istream_from_buffer [0x08] 1)"
proof -
  let ?f = "\<lparr>pf_tag = 2, pf_type = 0, pf_data_offset = 0, pf_size_offset = 0, pf_data_size = 4, pf_array_size = 4, pf_ptr = 0\<rparr>"
  have z: "zigzag (word_of_int 3) = 6" "zigzag (word_of_int (- 2)) = 3" by code_simp+
  have "length (content (PPacked [PVarint 6, PVarint 3])) = 2" by code_simp
  then have "length (content (PPacked [PVarint 6, PVarint 3])) < 2 ^ 32" "unat (2 :: u32) < 2 ^ 29" "(2 :: u32) \<noteq> 0" by simp_all
  note h = pb_entry_roundtrip [OF this(3,2,1), of "pb_istream_from_buffer [0x08] 1"]
  have f: "list_all (int_fits ?f) [3, - 2]" by (simp add: int_fits_def)
  have m: "[PVarint 6, PVarint 3] = map (\<lambda>x. PVarint (zigzag (word_of_int x))) [3, - 2]" by (simp only: list.map z)
  show ?thesis
    using h [THEN conjunct2, THEN conjunct2, unfolded pb_value.case, THEN conjunct2, THEN conjunct2, THEN conjunct1,
        THEN spec [of _ 4], THEN spec [of _ ?f], THEN spec [of _ "[3, - 2]"]] f m by simp
qed

text \<open>C40: \<open>pb_decode_varint32\<close> on the encoding of any number of 64 bits, as the encoder writes it: which it accepts, and what
  it then returns. It accepts the numbers of 32 bits and the negative numbers of an \<open>int32_t\<close>, in ten bytes, and it
  refuses all other numbers below \<open>2 ^ 63\<close>. Of the numbers from \<open>2 ^ 63\<close> on it accepts those that have bit 31 set and
  in which each of the four groups of seven bits from 35 to 62 is all zeros or all ones; it returns their low 32 bits, although only those with the
  bits from 32 on set are negative numbers of 32 bits (\<open>pb_decode_varint32_takes_large\<close>).\<close>

theorem pb_decode_varint32_range:
  assumes "v < 2 ^ 64"
  shows "(if v < 2 ^ 32 \<or> odd (v div 2 ^ 31) \<and> v div 2 ^ 63 = 1 \<and> (\<forall>i \<in> {35, 42, 49, 56}. v div 2 ^ i mod 128 \<in> {0, 127})
      then pb_decode_varint32 (prepend (varint v) s) = (Some (word_of_nat v), s)
      else fst (pb_decode_varint32 (prepend (varint v) s)) = None) \<and>
    (2 ^ 64 - 2 ^ 31 \<le> v \<longrightarrow> pb_decode_varint32 (prepend (varint v) s) = (Some (word_of_nat v), s)) \<and>
    (2 ^ 32 \<le> v \<and> v < 2 ^ 63 \<longrightarrow> fst (pb_decode_varint32 (prepend (varint v) s)) = None)"
proof -
  have e: "if varint32_accepts v then pb_decode_varint32 (prepend (varint v) s) = (Some (word_of_nat v), s)
      else fst (pb_decode_varint32 (prepend (varint v) s)) = None"
    using pb_decode_varint32_eof_spec [OF assms, of s] by (cases "varint32_accepts v") (auto simp: pb_decode_varint32_def)
  have "\<not> varint32_accepts v" if "2 ^ 32 \<le> v" "v < 2 ^ 63" using that by (simp add: varint32_accepts_def)
  then show ?thesis
    using e varint32_accepts_negative [OF _ assms] unfolding varint32_accepts_def [symmetric]
    by (cases "varint32_accepts v") auto
qed

text \<open>\<open>2 ^ 32\<close> is refused and \<open>- 1\<close> accepted.\<close>

theorem pb_decode_varint32_range_witness:
  "fst (pb_decode_varint32 (prepend (varint 4294967296) (pb_istream_from_buffer [] 0))) = None \<and>
   fst (pb_decode_varint32 (prepend (varint (2 ^ 64 - 1)) (pb_istream_from_buffer [] 0))) = Some (- 1)"
proof -
  have "word_of_nat (2 ^ 64 - 1) = (- 1 :: u32)" by simp
  then show ?thesis
    using pb_decode_varint32_range [of 4294967296 "pb_istream_from_buffer [] 0"]
      pb_decode_varint32_range [of "2 ^ 64 - 1" "pb_istream_from_buffer [] 0"] by simp
qed

text \<open>The ten bytes of \<open>2 ^ 63 + 2 ^ 31\<close>, which no encoder writes for a number of 32 bits, are taken for \<open>2 ^ 31\<close>.\<close>

lemma pb_decode_varint32_takes_large:
  "varint (2 ^ 63 + 2 ^ 31) = [0x80, 0x80, 0x80, 0x80, 0x88, 0x80, 0x80, 0x80, 0x80, 1]"
  "pb_decode_varint32 (prepend (varint (2 ^ 63 + 2 ^ 31)) s) = (Some 0x80000000, s)"
proof -
  show "varint (2 ^ 63 + 2 ^ 31) = [0x80, 0x80, 0x80, 0x80, 0x88, 0x80, 0x80, 0x80, 0x80, 1]"
    by (simp add: varint.simps)
  have "varint32_accepts (2 ^ 63 + 2 ^ 31)" by (simp add: varint32_accepts_def)
  moreover have "word_of_nat (2 ^ 63 + 2 ^ 31) = (0x80000000 :: u32)" by (simp add: word_unat_eq_iff)
  ultimately show "pb_decode_varint32 (prepend (varint (2 ^ 63 + 2 ^ 31)) s) = (Some 0x80000000, s)"
    using pb_decode_varint32_eof_spec [of "2 ^ 63 + 2 ^ 31" s] by (simp add: pb_decode_varint32_def)
qed

end
