(* ===== verification/Chacha.thy ===== *)
theory Chacha
  imports Internal Mem
begin

text \<open>
  \<open>crypto/chacha/chacha.c\<close>, the C code that is built with \<open>OPENSSL_NO_ASM\<close>. The sixteen words are a list that the
  macro \<open>QUARTERROUND\<close> updates in place. The specification is that of RFC 8439: a state of four rows, rounds that
  work on its columns and diagonals at once, and a key stream of numbered blocks.
\<close>

section \<open>The code\<close>

definition sigma :: bytes where
  "sigma = [0x65, 0x78, 0x70, 0x61, 0x6e, 0x64, 0x20, 0x33, 0x32, 0x2d, 0x62, 0x79, 0x74, 0x65, 0x20, 0x6b]"

definition QUARTERROUND :: "nat \<Rightarrow> nat \<Rightarrow> nat \<Rightarrow> nat \<Rightarrow> u32 list \<Rightarrow> u32 list" where
  "QUARTERROUND a b c d x =
     (let x = x[a := x ! a + x ! b];
          x = x[d := CRYPTO_rotl_u32 (x ! d XOR x ! a) 16];
          x = x[c := x ! c + x ! d];
          x = x[b := CRYPTO_rotl_u32 (x ! b XOR x ! c) 12];
          x = x[a := x ! a + x ! b];
          x = x[d := CRYPTO_rotl_u32 (x ! d XOR x ! a) 8];
          x = x[c := x ! c + x ! d];
          x = x[b := CRYPTO_rotl_u32 (x ! b XOR x ! c) 7]
      in x)"

definition chacha_double_round :: "u32 list \<Rightarrow> u32 list" where
  "chacha_double_round x =
     (let x = QUARTERROUND 0 4 8 12 x;
          x = QUARTERROUND 1 5 9 13 x;
          x = QUARTERROUND 2 6 10 14 x;
          x = QUARTERROUND 3 7 11 15 x;
          x = QUARTERROUND 0 5 10 15 x;
          x = QUARTERROUND 1 6 11 12 x;
          x = QUARTERROUND 2 7 8 13 x;
          x = QUARTERROUND 3 4 9 14 x
      in x)"

text \<open>The words of a byte string, as \<open>memcpy\<close> to an array of \<open>uint32_t\<close> gives them on a little-endian machine.\<close>

definition le_words :: "bytes \<Rightarrow> nat \<Rightarrow> u32 list" where
  "le_words bs n = map (\<lambda>i. CRYPTO_load_u32_le (drop (4 * i) bs)) [0..<n]"

definition words_le :: "u32 list \<Rightarrow> bytes" where
  "words_le x = concat (map CRYPTO_store_u32_le x)"

text \<open>The loop of \<open>chacha_core\<close> counts down from 20, that of \<open>CRYPTO_hchacha20\<close> up to 20.\<close>

function chacha_core_loop :: "int \<Rightarrow> u32 list \<Rightarrow> u32 list" where
  "chacha_core_loop i x = (if i > 0 then chacha_core_loop (i - 2) (chacha_double_round x) else x)"
  by pat_completeness auto
termination by (relation "measure (\<lambda>(i, x). nat i)") auto

function hchacha_loop :: "nat \<Rightarrow> u32 list \<Rightarrow> u32 list" where
  "hchacha_loop i x = (if i < 20 then hchacha_loop (i + 2) (chacha_double_round x) else x)"
  by pat_completeness auto
termination by (relation "measure (\<lambda>(i, x). 20 - i)") auto

declare chacha_core_loop.simps [simp del] hchacha_loop.simps [simp del]

definition chacha_core :: "u32 list \<Rightarrow> bytes" where
  "chacha_core input =
     (let x = chacha_core_loop 20 input;
          x = map (\<lambda>i. x ! i + input ! i) [0..<16]
      in words_le x)"

definition CRYPTO_hchacha20 :: "bytes \<Rightarrow> bytes \<Rightarrow> bytes" where
  "CRYPTO_hchacha20 key nonce =
     (let x = le_words sigma 4 @ le_words key 8 @ le_words nonce 4;
          x = hchacha_loop 0 x
      in words_le (take 4 x) @ words_le (take 4 (drop 12 x)))"

function chacha_20_loop :: "u32 list \<Rightarrow> bytes \<Rightarrow> bytes" where
  "chacha_20_loop input inp =
     (if length inp > 0 then
        let todo = (if length inp < 64 then length inp else 64);
            buf = chacha_core input;
            out = map (\<lambda>i. inp ! i XOR buf ! i) [0..<todo]
        in out @ chacha_20_loop (input[12 := input ! 12 + 1]) (drop todo inp)
      else [])"
  by pat_completeness auto
termination by (relation "measure (\<lambda>(input, inp). length inp)") (auto split: if_splits)

declare chacha_20_loop.simps [simp del]

text \<open>The output; the input may be the same buffer, of which a block is read before it is written.\<close>

definition CRYPTO_chacha_20 :: "bytes \<Rightarrow> bytes \<Rightarrow> bytes \<Rightarrow> u32 \<Rightarrow> bytes" where
  "CRYPTO_chacha_20 inp key nonce counter =
     chacha_20_loop (le_words sigma 4 @ le_words key 8 @ [counter] @ le_words nonce 3) inp"

section \<open>RFC 8439\<close>

definition quarter_round :: "u32 \<times> u32 \<times> u32 \<times> u32 \<Rightarrow> u32 list" where
  "quarter_round = (\<lambda>(a, b, c, d).
     (let a = a + b; d = CRYPTO_rotl_u32 (d XOR a) 16;
          c = c + d; b = CRYPTO_rotl_u32 (b XOR c) 12;
          a = a + b; d = CRYPTO_rotl_u32 (d XOR a) 8;
          c = c + d; b = CRYPTO_rotl_u32 (b XOR c) 7
      in [a, b, c, d]))"

text \<open>A round acts on the four quadruples with one word in every row; in row \<open>r\<close> they are shifted by \<open>r * k\<close> columns:
  \<open>k = 0\<close> gives the columns and \<open>k = 1\<close> the diagonals.\<close>

definition chacha_round :: "nat \<Rightarrow> u32 list \<Rightarrow> u32 list" where
  "chacha_round k x =
     (let out = map (\<lambda>i. quarter_round (x ! i, x ! (4 + (i + k) mod 4), x ! (8 + (i + 2 * k) mod 4), x ! (12 + (i + 3 * k) mod 4))) [0..<4]
      in map (\<lambda>j. out ! ((j mod 4 + 4 * k - j div 4 * k) mod 4) ! (j div 4)) [0..<16])"

definition inner_block :: "u32 list \<Rightarrow> u32 list" where
  "inner_block x = chacha_round 1 (chacha_round 0 x)"

definition chacha20_rounds :: "u32 list \<Rightarrow> u32 list" where
  "chacha20_rounds = inner_block ^^ 10"

definition chacha20_state :: "bytes \<Rightarrow> u32 \<Rightarrow> bytes \<Rightarrow> u32 list" where
  "chacha20_state key counter nonce =
     [0x61707865, 0x3320646e, 0x79622d32, 0x6b206574] @ le_words key 8 @ [counter] @ le_words nonce 3"

definition chacha20_block :: "bytes \<Rightarrow> u32 \<Rightarrow> bytes \<Rightarrow> bytes" where
  "chacha20_block key counter nonce =
     (let s = chacha20_state key counter nonce in words_le (map2 (+) (chacha20_rounds s) s))"

definition chacha20_keystream :: "bytes \<Rightarrow> bytes \<Rightarrow> u32 \<Rightarrow> nat \<Rightarrow> bytes" where
  "chacha20_keystream key nonce counter n = take_blocks 64 (\<lambda>i. chacha20_block key (counter + word_of_nat i) nonce) 0 n"

definition chacha20_encrypt :: "bytes \<Rightarrow> bytes \<Rightarrow> u32 \<Rightarrow> bytes \<Rightarrow> bytes" where
  "chacha20_encrypt key nonce counter text = map2 (XOR) text (chacha20_keystream key nonce counter (length text))"

text \<open>The test vector of section 2.1.1.\<close>

lemma quarter_round_vector:
  "quarter_round (0x11111111, 0x01020304, 0x9b8d6f43, 0x01234567) = [0xea2a92f4, 0xcb1cf8ce, 0x4581472e, 0x5881c4bb]"
  by code_simp

section \<open>Rounds\<close>

lemma QUARTERROUND_eq:
  assumes "a < length x" "b < length x" "c < length x" "d < length x" "distinct [a, b, c, d]"
  shows "QUARTERROUND a b c d x = (let q = quarter_round (x ! a, x ! b, x ! c, x ! d) in x[a := q ! 0, b := q ! 1, c := q ! 2, d := q ! 3])"
proof -
  define A1 where "A1 = x ! a + x ! b"
  define D1 where "D1 = CRYPTO_rotl_u32 (x ! d XOR A1) 16"
  define C1 where "C1 = x ! c + D1"
  define B1 where "B1 = CRYPTO_rotl_u32 (x ! b XOR C1) 12"
  define A2 where "A2 = A1 + B1"
  define D2 where "D2 = CRYPTO_rotl_u32 (D1 XOR A2) 8"
  define C2 where "C2 = C1 + D2"
  define B2 where "B2 = CRYPTO_rotl_u32 (B1 XOR C2) 7"
  have d: "a \<noteq> b" "a \<noteq> c" "a \<noteq> d" "b \<noteq> c" "b \<noteq> d" "c \<noteq> d" "b \<noteq> a" "c \<noteq> a" "d \<noteq> a" "c \<noteq> b" "d \<noteq> b" "d \<noteq> c"
    using assms(5) by auto
  have "quarter_round (x ! a, x ! b, x ! c, x ! d) = [A2, B2, C2, D2]"
    by (simp add: quarter_round_def Let_def A1_def B1_def C1_def D1_def A2_def B2_def C2_def D2_def)
  moreover have "QUARTERROUND a b c d x = x[a := A1, d := D1, c := C1, b := B1, a := A2, d := D2, c := C2, b := B2]"
  proof -
    have 1: "x[a := x ! a + x ! b] = x[a := A1]" by (simp add: A1_def)
    have 2: "CRYPTO_rotl_u32 (x[a := A1] ! d XOR x[a := A1] ! a) 16 = D1" using assms d by (simp add: D1_def)
    have 3: "x[a := A1, d := D1] ! c + x[a := A1, d := D1] ! d = C1" using assms d by (simp add: C1_def)
    have 4: "CRYPTO_rotl_u32 (x[a := A1, d := D1, c := C1] ! b XOR x[a := A1, d := D1, c := C1] ! c) 12 = B1" using assms d by (simp add: B1_def)
    let ?x = "x[a := A1, d := D1, c := C1, b := B1]"
    have 5: "?x ! a + ?x ! b = A2" using assms d by (simp add: A2_def)
    have 6: "CRYPTO_rotl_u32 (?x[a := A2] ! d XOR ?x[a := A2] ! a) 8 = D2" using assms d by (simp add: D2_def)
    have 7: "?x[a := A2, d := D2] ! c + ?x[a := A2, d := D2] ! d = C2" using assms d by (simp add: C2_def)
    have 8: "CRYPTO_rotl_u32 (?x[a := A2, d := D2, c := C2] ! b XOR ?x[a := A2, d := D2, c := C2] ! c) 7 = B2" using assms d by (simp add: B2_def)
    show ?thesis unfolding QUARTERROUND_def Let_def 1 2 3 4 5 6 7 8 ..
  qed
  moreover have "x[a := A1, d := D1, c := C1, b := B1, a := A2, d := D2, c := C2, b := B2] = x[a := A2, b := B2, c := C2, d := D2]"
    using assms(1-4) d by (intro nth_equalityI) (auto simp: nth_list_update)
  ultimately show ?thesis by simp
qed

lemma list16:
  assumes "length x = 16"
  obtains x0 x1 x2 x3 x4 x5 x6 x7 x8 x9 x10 x11 x12 x13 x14 x15
    where "x = [x0, x1, x2, x3, x4, x5, x6, x7, x8, x9, x10, x11, x12, x13, x14, x15]"
proof -
  have "x = map ((!) x) [0..<16]" using assms by (metis map_nth)
  then show ?thesis using that by (simp add: upt_rec)
qed

lemma nth_quarter: "\<exists>a b c d. quarter_round v = [a, b, c, d]"
  by (cases v) (simp add: quarter_round_def Let_def)

lemma column_round:
  "QUARTERROUND 3 7 11 15 (QUARTERROUND 2 6 10 14 (QUARTERROUND 1 5 9 13 (QUARTERROUND 0 4 8 12 [x0, x1, x2, x3, x4, x5, x6, x7, x8, x9, x10, x11, x12, x13, x14, x15]))) = chacha_round 0 [x0, x1, x2, x3, x4, x5, x6, x7, x8, x9, x10, x11, x12, x13, x14, x15]"
proof -
  obtain a0 b0 c0 d0 where q0: "quarter_round (x0, x4, x8, x12) = [a0, b0, c0, d0]" using nth_quarter by blast
  obtain a1 b1 c1 d1 where q1: "quarter_round (x1, x5, x9, x13) = [a1, b1, c1, d1]" using nth_quarter by blast
  obtain a2 b2 c2 d2 where q2: "quarter_round (x2, x6, x10, x14) = [a2, b2, c2, d2]" using nth_quarter by blast
  obtain a3 b3 c3 d3 where q3: "quarter_round (x3, x7, x11, x15) = [a3, b3, c3, d3]" using nth_quarter by blast
  have 1: "QUARTERROUND 0 4 8 12 [x0, x1, x2, x3, x4, x5, x6, x7, x8, x9, x10, x11, x12, x13, x14, x15] = [a0, x1, x2, x3, b0, x5, x6, x7, c0, x9, x10, x11, d0, x13, x14, x15]"
    by (subst QUARTERROUND_eq) (simp_all add: q0)
  have 2: "QUARTERROUND 1 5 9 13 [a0, x1, x2, x3, b0, x5, x6, x7, c0, x9, x10, x11, d0, x13, x14, x15] = [a0, a1, x2, x3, b0, b1, x6, x7, c0, c1, x10, x11, d0, d1, x14, x15]"
    by (subst QUARTERROUND_eq) (simp_all add: q1)
  have 3: "QUARTERROUND 2 6 10 14 [a0, a1, x2, x3, b0, b1, x6, x7, c0, c1, x10, x11, d0, d1, x14, x15] = [a0, a1, a2, x3, b0, b1, b2, x7, c0, c1, c2, x11, d0, d1, d2, x15]"
    by (subst QUARTERROUND_eq) (simp_all add: q2)
  have 4: "QUARTERROUND 3 7 11 15 [a0, a1, a2, x3, b0, b1, b2, x7, c0, c1, c2, x11, d0, d1, d2, x15] = [a0, a1, a2, a3, b0, b1, b2, b3, c0, c1, c2, c3, d0, d1, d2, d3]"
    by (subst QUARTERROUND_eq) (simp_all add: q3)
  show ?thesis unfolding 1 2 3 4 by (simp add: chacha_round_def upt_rec q0 q1 q2 q3)
qed

lemma diagonal_round:
  "QUARTERROUND 3 4 9 14 (QUARTERROUND 2 7 8 13 (QUARTERROUND 1 6 11 12 (QUARTERROUND 0 5 10 15 [x0, x1, x2, x3, x4, x5, x6, x7, x8, x9, x10, x11, x12, x13, x14, x15]))) = chacha_round 1 [x0, x1, x2, x3, x4, x5, x6, x7, x8, x9, x10, x11, x12, x13, x14, x15]"
proof -
  obtain a0 b0 c0 d0 where q0: "quarter_round (x0, x5, x10, x15) = [a0, b0, c0, d0]" using nth_quarter by blast
  obtain a1 b1 c1 d1 where q1: "quarter_round (x1, x6, x11, x12) = [a1, b1, c1, d1]" using nth_quarter by blast
  obtain a2 b2 c2 d2 where q2: "quarter_round (x2, x7, x8, x13) = [a2, b2, c2, d2]" using nth_quarter by blast
  obtain a3 b3 c3 d3 where q3: "quarter_round (x3, x4, x9, x14) = [a3, b3, c3, d3]" using nth_quarter by blast
  have 1: "QUARTERROUND 0 5 10 15 [x0, x1, x2, x3, x4, x5, x6, x7, x8, x9, x10, x11, x12, x13, x14, x15] = [a0, x1, x2, x3, x4, b0, x6, x7, x8, x9, c0, x11, x12, x13, x14, d0]"
    by (subst QUARTERROUND_eq) (simp_all add: q0)
  have 2: "QUARTERROUND 1 6 11 12 [a0, x1, x2, x3, x4, b0, x6, x7, x8, x9, c0, x11, x12, x13, x14, d0] = [a0, a1, x2, x3, x4, b0, b1, x7, x8, x9, c0, c1, d1, x13, x14, d0]"
    by (subst QUARTERROUND_eq) (simp_all add: q1)
  have 3: "QUARTERROUND 2 7 8 13 [a0, a1, x2, x3, x4, b0, b1, x7, x8, x9, c0, c1, d1, x13, x14, d0] = [a0, a1, a2, x3, x4, b0, b1, b2, c2, x9, c0, c1, d1, d2, x14, d0]"
    by (subst QUARTERROUND_eq) (simp_all add: q2)
  have 4: "QUARTERROUND 3 4 9 14 [a0, a1, a2, x3, x4, b0, b1, b2, c2, x9, c0, c1, d1, d2, x14, d0] = [a0, a1, a2, a3, b3, b0, b1, b2, c2, c3, c0, c1, d1, d2, d3, d0]"
    by (subst QUARTERROUND_eq) (simp_all add: q3)
  show ?thesis unfolding 1 2 3 4 by (simp add: chacha_round_def upt_rec q0 q1 q2 q3)
qed

lemma double_round_eq:
  assumes "length x = 16"
  shows "chacha_double_round x = inner_block x"
proof -
  have l: "length (chacha_round 0 x) = 16" by (simp add: chacha_round_def Let_def)
  show ?thesis
    unfolding chacha_double_round_def inner_block_def Let_def
    by (rule list16 [OF assms], simp only: column_round, rule list16 [OF l], simp only: diagonal_round)
qed

lemma length_chacha_round [simp]: "length (chacha_round k x) = 16"
  by (simp add: chacha_round_def Let_def)

lemma length_inner_block [simp]: "length (inner_block x) = 16"
  by (simp add: inner_block_def)

lemma length_rounds: "length x = 16 \<Longrightarrow> length ((inner_block ^^ n) x) = 16"
  by (induction n) simp_all

lemma chacha_core_loop_eq:
  "length x = 16 \<Longrightarrow> chacha_core_loop (2 * int n) x = (inner_block ^^ n) x"
proof (induction n arbitrary: x)
  case 0
  then show ?case by (simp add: chacha_core_loop.simps)
next
  case (Suc n)
  then show ?case by (subst chacha_core_loop.simps) (simp add: double_round_eq funpow_Suc_right del: funpow.simps)
qed

lemma hchacha_loop_eq:
  "length x = 16 \<Longrightarrow> 2 * n + i = 20 \<Longrightarrow> hchacha_loop i x = (inner_block ^^ n) x"
proof (induction n arbitrary: x i)
  case 0
  then show ?case by (simp add: hchacha_loop.simps)
next
  case (Suc n)
  then show ?case by (subst hchacha_loop.simps) (simp add: double_round_eq funpow_Suc_right del: funpow.simps)
qed

section \<open>Blocks and the key stream\<close>

lemma length_le_words [simp]: "length (le_words bs n) = n"
  by (simp add: le_words_def)

lemma length_words_le [simp]: "length (words_le x) = 4 * length x"
  by (induction x) (simp_all add: words_le_def)

lemma sigma_words: "le_words sigma 4 = [0x61707865, 0x3320646e, 0x79622d32, 0x6b206574]"
  by (simp add: le_words_def sigma_def CRYPTO_load_u32_le_def upt_rec)

lemma length_state [simp]: "length (chacha20_state key counter nonce) = 16"
  by (simp add: chacha20_state_def)

lemma chacha_core_eq: "chacha_core (chacha20_state key counter nonce) = chacha20_block key counter nonce"
proof -
  have r: "chacha_core_loop 20 (chacha20_state key counter nonce) = chacha20_rounds (chacha20_state key counter nonce)"
    using chacha_core_loop_eq [of "chacha20_state key counter nonce" 10] by (simp add: chacha20_rounds_def)
  have l: "length (chacha20_rounds (chacha20_state key counter nonce)) = 16"
    unfolding chacha20_rounds_def by (rule length_rounds) simp
  have "map (\<lambda>i. chacha20_rounds (chacha20_state key counter nonce) ! i + chacha20_state key counter nonce ! i) [0..<16] =
      map2 (+) (chacha20_rounds (chacha20_state key counter nonce)) (chacha20_state key counter nonce)"
    using l by (intro nth_equalityI) simp_all
  then show ?thesis by (simp add: chacha_core_def chacha20_block_def r Let_def)
qed

lemma length_chacha20_block [simp]: "length (chacha20_block key counter nonce) = 64"
proof -
  have "length (chacha20_rounds (chacha20_state key counter nonce)) = 16"
    unfolding chacha20_rounds_def by (rule length_rounds) simp
  then show ?thesis by (simp add: chacha20_block_def Let_def)
qed

lemma length_keystream [simp]: "length (chacha20_keystream key nonce counter n) = n"
  unfolding chacha20_keystream_def by (rule length_take_blocks) simp_all

lemma next_counter: "(chacha20_state key counter nonce)[12 := chacha20_state key counter nonce ! 12 + 1] = chacha20_state key (counter + 1) nonce"
  by (simp add: chacha20_state_def nth_append list_update_append)

lemma chacha_20_loop_eq:
  "chacha_20_loop (chacha20_state key (counter + word_of_nat i) nonce) inp =
    map2 (XOR) inp (take_blocks 64 (\<lambda>i. chacha20_block key (counter + word_of_nat i) nonce) i (length inp))"
proof (induction inp arbitrary: i rule: length_induct)
  case (1 inp)
  let ?T = "\<lambda>i. chacha20_block key (counter + word_of_nat i) nonce"
  show ?case
  proof (cases "length inp = 0")
    case True
    then show ?thesis by (simp add: chacha_20_loop.simps)
  next
    case False
    let ?todo = "if length inp < 64 then length inp else 64"
    have m: "map (\<lambda>i'. inp ! i' XOR ?T i ! i') [0..<?todo] = map2 (XOR) (take ?todo inp) (take ?todo (?T i))"
      by (rule nth_equalityI) auto
    have c: "counter + word_of_nat i + 1 = counter + word_of_nat (Suc i)" by simp
    have loop: "chacha_20_loop (chacha20_state key (counter + word_of_nat i) nonce) inp =
        map2 (XOR) (take ?todo inp) (take ?todo (?T i)) @ chacha_20_loop (chacha20_state key (counter + word_of_nat (Suc i)) nonce) (drop ?todo inp)"
      using False by (subst chacha_20_loop.simps) (simp only: Let_def chacha_core_eq next_counter m c length_greater_0_conv length_0_conv if_True simp_thms split: if_split)
    have step: "take_blocks 64 ?T i (length inp) =
        (if length inp \<le> 64 then take (length inp) (?T i) else ?T i @ take_blocks 64 ?T (Suc i) (length inp - 64))"
      using False by (intro take_blocks_step) simp_all
    show ?thesis
    proof (cases "length inp \<le> 64")
      case True
      then show ?thesis
        unfolding loop step by (cases "length inp = 64") (simp_all add: chacha_20_loop.simps)
    next
      case big: False
      then have "chacha_20_loop (chacha20_state key (counter + word_of_nat (Suc i)) nonce) (drop 64 inp) =
          map2 (XOR) (drop 64 inp) (take_blocks 64 ?T (Suc i) (length inp - 64))"
        using 1 [rule_format, of "drop 64 inp" "Suc i"] by simp
      moreover have "map2 (XOR) inp (?T i @ take_blocks 64 ?T (Suc i) (length inp - 64)) =
          map2 (XOR) (take 64 inp) (?T i) @ map2 (XOR) (drop 64 inp) (take_blocks 64 ?T (Suc i) (length inp - 64))"
        by (simp add: zip_append2)
      ultimately show ?thesis unfolding loop step using big by simp
    qed
  qed
qed

lemma CRYPTO_chacha_20_eq: "CRYPTO_chacha_20 inp key nonce counter = chacha20_encrypt key nonce counter inp"
  using chacha_20_loop_eq [of key counter 0 nonce inp]
  by (simp add: CRYPTO_chacha_20_def chacha20_encrypt_def chacha20_keystream_def sigma_words chacha20_state_def)

lemma length_chacha20_encrypt [simp]: "length (chacha20_encrypt key nonce counter text) = length text"
  by (simp add: chacha20_encrypt_def)

lemma map2_xor_twice: "length xs = length ks \<Longrightarrow> map2 (XOR) (map2 (XOR) xs ks) ks = (xs :: bytes)"
  by (induction xs ks rule: list_induct2) (simp_all add: xor.assoc)

lemma chacha20_encrypt_involution: "chacha20_encrypt key nonce counter (chacha20_encrypt key nonce counter text) = text"
  by (simp add: chacha20_encrypt_def map2_xor_twice)

text \<open>C15: \<open>CRYPTO_chacha_20\<close> is the encryption of RFC 8439: the input is combined with the key stream of the blocks that
  begin at the counter, which wraps around modulo \<open>2 ^ 32\<close>; and \<open>CRYPTO_hchacha20\<close> is the first and the last row of the
  permutation without the final addition.\<close>

theorem chacha20_is_RFC8439:
  "CRYPTO_chacha_20 inp key nonce counter = chacha20_encrypt key nonce counter inp \<and>
   CRYPTO_hchacha20 key nonce16 =
     (let x = chacha20_rounds ([0x61707865, 0x3320646e, 0x79622d32, 0x6b206574] @ le_words key 8 @ le_words nonce16 4)
      in words_le (take 4 x @ drop 12 x))"
proof -
  let ?s = "[0x61707865, 0x3320646e, 0x79622d32, 0x6b206574] @ le_words key 8 @ le_words nonce16 4"
  have r: "hchacha_loop 0 ?s = chacha20_rounds ?s"
    using hchacha_loop_eq [of ?s 10 0] by (simp add: chacha20_rounds_def)
  have l: "length (chacha20_rounds ?s) = 16"
    unfolding chacha20_rounds_def by (rule length_rounds) simp
  have "CRYPTO_hchacha20 key nonce16 = words_le (take 4 (chacha20_rounds ?s) @ drop 12 (chacha20_rounds ?s))"
    using l by (simp only: CRYPTO_hchacha20_def Let_def sigma_words r) (simp add: words_le_def)
  then show ?thesis by (simp add: CRYPTO_chacha_20_eq Let_def)
qed

end
