(* ===== verification/Poly1305.thy ===== *)
theory Poly1305
  imports Internal Mem
begin

text \<open>
  \<open>crypto/poly1305/poly1305.c\<close>, the implementation with 26-bit limbs that is built for the 64-bit ARM processors of the
  application without assembly. A state keeps the clamped multiplier \<open>r\<close>, its multiples \<open>s = 5 * r\<close>, the accumulator
  \<open>h\<close>, a buffer for an incomplete block and the second half of the key.
\<close>

section \<open>The code\<close>

record poly1305_st =
  ps_r0 :: u32
  ps_r1 :: u32
  ps_r2 :: u32
  ps_r3 :: u32
  ps_r4 :: u32
  ps_s1 :: u32
  ps_s2 :: u32
  ps_s3 :: u32
  ps_s4 :: u32
  ps_h0 :: u32
  ps_h1 :: u32
  ps_h2 :: u32
  ps_h3 :: u32
  ps_h4 :: u32
  ps_buf :: bytes
  ps_buf_used :: nat
  ps_key :: bytes

definition U8TO32_LE :: "bytes \<Rightarrow> u32" where
  "U8TO32_LE m = word_of_nat (le_val (take 4 m))"

definition U32TO8_LE :: "u32 \<Rightarrow> bytes" where
  "U32TO8_LE v = le_bytes 4 (unat v)"

definition mul32x32_64 :: "u32 \<Rightarrow> u32 \<Rightarrow> u64" where
  "mul32x32_64 a b = ucast a * ucast b"

text \<open>A block of 16 bytes is added to the accumulator; \<open>hi\<close> is \<open>1 << 24\<close>, or 0 for the padded last block.\<close>

definition poly1305_add :: "poly1305_st \<Rightarrow> bytes \<Rightarrow> u32 \<Rightarrow> poly1305_st" where
  "poly1305_add st m hi =
     (let t0 = U8TO32_LE m; t1 = U8TO32_LE (drop 4 m); t2 = U8TO32_LE (drop 8 m); t3 = U8TO32_LE (drop 12 m)
      in st\<lparr>ps_h0 := ps_h0 st + (t0 AND 0x3ffffff),
            ps_h1 := ps_h1 st + ucast (drop_bit 26 (push_bit 32 (ucast t1) OR ucast t0 :: u64) AND 0x3ffffff),
            ps_h2 := ps_h2 st + ucast (drop_bit 20 (push_bit 32 (ucast t2) OR ucast t1 :: u64) AND 0x3ffffff),
            ps_h3 := ps_h3 st + ucast (drop_bit 14 (push_bit 32 (ucast t3) OR ucast t2 :: u64) AND 0x3ffffff),
            ps_h4 := ps_h4 st + (drop_bit 8 t3 OR hi)\<rparr>)"

text \<open>From the label \<open>poly1305_donna_mul\<close> on.\<close>

definition poly1305_mul :: "poly1305_st \<Rightarrow> poly1305_st" where
  "poly1305_mul st =
     (let t0 = mul32x32_64 (ps_h0 st) (ps_r0 st) + mul32x32_64 (ps_h1 st) (ps_s4 st) + mul32x32_64 (ps_h2 st) (ps_s3 st) +
               mul32x32_64 (ps_h3 st) (ps_s2 st) + mul32x32_64 (ps_h4 st) (ps_s1 st);
          t1 = mul32x32_64 (ps_h0 st) (ps_r1 st) + mul32x32_64 (ps_h1 st) (ps_r0 st) + mul32x32_64 (ps_h2 st) (ps_s4 st) +
               mul32x32_64 (ps_h3 st) (ps_s3 st) + mul32x32_64 (ps_h4 st) (ps_s2 st);
          t2 = mul32x32_64 (ps_h0 st) (ps_r2 st) + mul32x32_64 (ps_h1 st) (ps_r1 st) + mul32x32_64 (ps_h2 st) (ps_r0 st) +
               mul32x32_64 (ps_h3 st) (ps_s4 st) + mul32x32_64 (ps_h4 st) (ps_s3 st);
          t3 = mul32x32_64 (ps_h0 st) (ps_r3 st) + mul32x32_64 (ps_h1 st) (ps_r2 st) + mul32x32_64 (ps_h2 st) (ps_r1 st) +
               mul32x32_64 (ps_h3 st) (ps_r0 st) + mul32x32_64 (ps_h4 st) (ps_s4 st);
          t4 = mul32x32_64 (ps_h0 st) (ps_r4 st) + mul32x32_64 (ps_h1 st) (ps_r3 st) + mul32x32_64 (ps_h2 st) (ps_r2 st) +
               mul32x32_64 (ps_h3 st) (ps_r1 st) + mul32x32_64 (ps_h4 st) (ps_r0 st);
          h0 = ucast t0 AND 0x3ffffff; c = drop_bit 26 t0;
          t1 = t1 + c; h1 = ucast t1 AND 0x3ffffff; b = (ucast (drop_bit 26 t1) :: u32);
          t2 = t2 + ucast b; h2 = ucast t2 AND 0x3ffffff; b = (ucast (drop_bit 26 t2) :: u32);
          t3 = t3 + ucast b; h3 = ucast t3 AND 0x3ffffff; b = (ucast (drop_bit 26 t3) :: u32);
          t4 = t4 + ucast b; h4 = ucast t4 AND 0x3ffffff; b = (ucast (drop_bit 26 t4) :: u32);
          h0 = h0 + b * 5
      in st\<lparr>ps_h0 := h0, ps_h1 := h1, ps_h2 := h2, ps_h3 := h3, ps_h4 := h4\<rparr>)"

function poly1305_update :: "poly1305_st \<Rightarrow> bytes \<Rightarrow> poly1305_st" where
  "poly1305_update st inp =
     (if length inp \<ge> 16 then
        poly1305_update (poly1305_mul (poly1305_add st (take 16 inp) (push_bit 24 1))) (drop 16 inp)
      else if length inp = 0 then st
      else
        let mp = inp @ [1] @ replicate (15 - length inp) 0
        in poly1305_mul (poly1305_add st mp 0))"
  by pat_completeness auto
termination by (relation "measure (\<lambda>(st, inp). length inp)") auto

declare poly1305_update.simps [simp del]

text \<open>The buffer is not read before it is written.\<close>

definition CRYPTO_poly1305_init :: "bytes \<Rightarrow> poly1305_st" where
  "CRYPTO_poly1305_init key =
     (let t0 = U8TO32_LE key; t1 = U8TO32_LE (drop 4 key); t2 = U8TO32_LE (drop 8 key); t3 = U8TO32_LE (drop 12 key);
          r0 = t0 AND 0x3ffffff; t0 = drop_bit 26 t0; t0 = t0 OR push_bit 6 t1;
          r1 = t0 AND 0x3ffff03; t1 = drop_bit 20 t1; t1 = t1 OR push_bit 12 t2;
          r2 = t1 AND 0x3ffc0ff; t2 = drop_bit 14 t2; t2 = t2 OR push_bit 18 t3;
          r3 = t2 AND 0x3f03fff; t3 = drop_bit 8 t3;
          r4 = t3 AND 0x00fffff
      in \<lparr>ps_r0 = r0, ps_r1 = r1, ps_r2 = r2, ps_r3 = r3, ps_r4 = r4, ps_s1 = r1 * 5, ps_s2 = r2 * 5, ps_s3 = r3 * 5,
          ps_s4 = r4 * 5, ps_h0 = 0, ps_h1 = 0, ps_h2 = 0, ps_h3 = 0, ps_h4 = 0, ps_buf = replicate 16 0, ps_buf_used = 0,
          ps_key = take 16 (drop 16 key)\<rparr>)"

definition CRYPTO_poly1305_update :: "poly1305_st \<Rightarrow> bytes \<Rightarrow> poly1305_st" where
  "CRYPTO_poly1305_update st inp =
     (let (st, inp) =
            (if ps_buf_used st \<noteq> 0 then
               let todo = 16 - ps_buf_used st;
                   todo = (if todo > length inp then length inp else todo);
                   st = st\<lparr>ps_buf := mem_copy (ps_buf st) (ps_buf_used st) (take todo inp), ps_buf_used := ps_buf_used st + todo\<rparr>;
                   inp = drop todo inp
               in (if ps_buf_used st = 16 then ((poly1305_update st (ps_buf st))\<lparr>ps_buf_used := 0\<rparr>, inp) else (st, inp))
             else (st, inp));
          (st, inp) =
            (if length inp \<ge> 16 then
               let todo = length inp div 16 * 16 in (poly1305_update st (take todo inp), drop todo inp)
             else (st, inp))
      in if length inp \<noteq> 0 then st\<lparr>ps_buf := mem_copy (ps_buf st) 0 inp, ps_buf_used := length inp\<rparr> else st)"

definition CRYPTO_poly1305_finish :: "poly1305_st \<Rightarrow> bytes" where
  "CRYPTO_poly1305_finish st =
     (let st = (if ps_buf_used st \<noteq> 0 then poly1305_update st (take (ps_buf_used st) (ps_buf st)) else st);
          b = drop_bit 26 (ps_h0 st); h0 = ps_h0 st AND 0x3ffffff; h1 = ps_h1 st + b;
          b = drop_bit 26 h1; h1 = h1 AND 0x3ffffff; h2 = ps_h2 st + b;
          b = drop_bit 26 h2; h2 = h2 AND 0x3ffffff; h3 = ps_h3 st + b;
          b = drop_bit 26 h3; h3 = h3 AND 0x3ffffff; h4 = ps_h4 st + b;
          b = drop_bit 26 h4; h4 = h4 AND 0x3ffffff; h0 = h0 + b * 5;
          g0 = h0 + 5; b = drop_bit 26 g0; g0 = g0 AND 0x3ffffff;
          g1 = h1 + b; b = drop_bit 26 g1; g1 = g1 AND 0x3ffffff;
          g2 = h2 + b; b = drop_bit 26 g2; g2 = g2 AND 0x3ffffff;
          g3 = h3 + b; b = drop_bit 26 g3; g3 = g3 AND 0x3ffffff;
          g4 = h4 + b - push_bit 26 1;
          b = drop_bit 31 g4 - 1; nb = NOT b;
          h0 = (h0 AND nb) OR (g0 AND b); h1 = (h1 AND nb) OR (g1 AND b); h2 = (h2 AND nb) OR (g2 AND b);
          h3 = (h3 AND nb) OR (g3 AND b); h4 = (h4 AND nb) OR (g4 AND b);
          f0 = (ucast (h0 OR push_bit 26 h1) :: u64) + ucast (U8TO32_LE (ps_key st));
          f1 = (ucast (drop_bit 6 h1 OR push_bit 20 h2) :: u64) + ucast (U8TO32_LE (drop 4 (ps_key st)));
          f2 = (ucast (drop_bit 12 h2 OR push_bit 14 h3) :: u64) + ucast (U8TO32_LE (drop 8 (ps_key st)));
          f3 = (ucast (drop_bit 18 h3 OR push_bit 8 h4) :: u64) + ucast (U8TO32_LE (drop 12 (ps_key st)));
          f1 = f1 + drop_bit 32 f0; f2 = f2 + drop_bit 32 f1; f3 = f3 + drop_bit 32 f2
      in U32TO8_LE (ucast f0) @ U32TO8_LE (ucast f1) @ U32TO8_LE (ucast f2) @ U32TO8_LE (ucast f3))"

section \<open>RFC 8439\<close>

definition poly1305_p :: nat where "poly1305_p = 2 ^ 130 - 5"

definition poly1305_r :: "bytes \<Rightarrow> nat" where
  "poly1305_r key = le_val (take 16 key) AND 0x0ffffffc0ffffffc0ffffffc0fffffff"

text \<open>The accumulator after a message; a last block may be short.\<close>

function poly1305_acc :: "nat \<Rightarrow> nat \<Rightarrow> bytes \<Rightarrow> nat" where
  "poly1305_acc r a msg =
     (if msg = [] then a else poly1305_acc r ((a + le_val (take 16 msg @ [1])) * r mod poly1305_p) (drop 16 msg))"
  by pat_completeness auto
termination by (relation "measure (\<lambda>(r, a, msg). length msg)") auto

declare poly1305_acc.simps [simp del]

definition poly1305_mac :: "bytes \<Rightarrow> bytes \<Rightarrow> bytes" where
  "poly1305_mac key msg =
     le_bytes 16 (poly1305_acc (poly1305_r key) 0 msg + le_val (take 16 (drop 16 key)))"

section \<open>Limbs\<close>

lemma unat_mask26: "unat ((x :: 'a::len word) AND 0x3ffffff) = unat x mod 2 ^ 26"
proof -
  have "x AND 0x3ffffff = take_bit 26 x" by (simp add: take_bit_eq_mask mask_eq_exp_minus_1)
  then show ?thesis unfolding \<open>_ = take_bit 26 x\<close> unsigned_take_bit_eq by (simp add: take_bit_eq_mod)
qed

lemma unat_add_small: "unat (a :: 'a::len word) + unat b < 2 ^ LENGTH('a) \<Longrightarrow> unat (a + b) = unat a + unat b"
  by (simp add: unat_word_ariths)

lemma unat_mul32: "unat (mul32x32_64 a b) = unat a * unat b"
proof -
  have "unat a * unat b < 2 ^ 32 * 2 ^ 32"
    using unat_u32_less [of a] unat_u32_less [of b] by (intro mult_strict_mono) auto
  then show ?thesis by (simp add: mul32x32_64_def unat_word_ariths unat_ucast_up)
qed

lemma U8TO32_LE_val: "4 \<le> length m \<Longrightarrow> unat (U8TO32_LE m) = le_val (take 4 m)"
proof -
  assume "4 \<le> length m"
  then have "le_val (take 4 m) < 2 ^ 32" using le_val_less [of "take 4 m"] by simp
  then show ?thesis by (simp add: U8TO32_LE_def unat_of_nat)
qed

lemma le_val_16:
  assumes "length m = 16"
  shows "le_val m = unat (U8TO32_LE m) + 2 ^ 32 * (unat (U8TO32_LE (drop 4 m)) + 2 ^ 32 * (unat (U8TO32_LE (drop 8 m)) + 2 ^ 32 * unat (U8TO32_LE (drop 12 m))))"
proof -
  have s: "le_val (drop k m) = unat (U8TO32_LE (drop k m)) + 2 ^ 32 * le_val (drop (k + 4) m)" if "k + 4 \<le> 16" for k
  proof -
    have "drop k m = take 4 (drop k m) @ drop (k + 4) m" by (metis append_take_drop_id drop_drop add.commute)
    moreover have "length (take 4 (drop k m)) = 4" using that assms by simp
    ultimately have "le_val (drop k m) = le_val (take 4 (drop k m)) + 256 ^ 4 * le_val (drop (k + 4) m)"
      by (metis le_val_append)
    then show ?thesis using that assms by (simp add: U8TO32_LE_val)
  qed
  have "le_val m = le_val (drop 0 m)" "le_val (drop 16 m) = 0" using assms by simp_all
  then show ?thesis using s [of 0] s [of 4] s [of 8] s [of 12] by simp
qed

text \<open>The five limbs of a number, and those of a block.\<close>

definition limbs :: "nat \<Rightarrow> nat \<Rightarrow> nat \<Rightarrow> nat \<Rightarrow> nat \<Rightarrow> nat" where
  "limbs x0 x1 x2 x3 x4 = x0 + 2 ^ 26 * (x1 + 2 ^ 26 * (x2 + 2 ^ 26 * (x3 + 2 ^ 26 * x4)))"

lemma limbs_digits: "limbs (n mod 2 ^ 26) (n div 2 ^ 26 mod 2 ^ 26) (n div 2 ^ 52 mod 2 ^ 26) (n div 2 ^ 78 mod 2 ^ 26) (n div 2 ^ 104) = n"
proof -
  have d: "(m :: nat) mod 2 ^ 26 + 2 ^ 26 * (m div 2 ^ 26) = m" for m by simp
  have e: "n div 2 ^ 52 = n div 2 ^ 26 div 2 ^ 26" "n div 2 ^ 78 = n div 2 ^ 26 div 2 ^ 26 div 2 ^ 26"
    "n div 2 ^ 104 = n div 2 ^ 26 div 2 ^ 26 div 2 ^ 26 div 2 ^ 26"
    by (simp_all flip: div_mult2_eq)
  show ?thesis unfolding limbs_def e d ..
qed

lemma digit_of_word_pair:
  assumes "k + 26 + j = 64"
  shows "unat (ucast (drop_bit k (push_bit 32 (ucast (b :: u32)) OR ucast (a :: u32) :: u64) AND 0x3ffffff) :: u32) =
    (unat a + 2 ^ 32 * (unat b + 2 ^ 32 * x)) div 2 ^ k mod 2 ^ 26"
proof -
  have a: "unat (ucast a :: u64) < 2 ^ 32" using unat_u32_less [of a] by (simp add: unat_ucast_up)
  have lt: "unat b * 2 ^ 32 + unat a < 2 ^ 64" using unat_u32_less [of a] unat_u32_less [of b] by simp
  have p: "unat (push_bit 32 (ucast b) OR ucast a :: u64) = unat a + 2 ^ 32 * unat b"
    using unat_push_bit_or [OF a, of "ucast b"] lt by (simp add: unat_ucast_up)
  have "(unat a + 2 ^ 32 * (unat b + 2 ^ 32 * x)) div 2 ^ k mod 2 ^ 26 = (unat a + 2 ^ 32 * unat b) div 2 ^ k mod 2 ^ 26"
  proof -
    have "k + (26 + j) = 64" using assms by simp
    then have "(2 :: nat) ^ 64 = 2 ^ k * (2 ^ 26 * 2 ^ j)" by (simp only: power_add [symmetric])
    then have "unat a + 2 ^ 32 * (unat b + 2 ^ 32 * x) = (unat a + 2 ^ 32 * unat b) + 2 ^ k * (2 ^ 26 * 2 ^ j * x)"
      by (simp add: algebra_simps)
    also have "\<dots> div 2 ^ k = 2 ^ 26 * (2 ^ j * x) + (unat a + 2 ^ 32 * unat b) div 2 ^ k"
      unfolding mult.assoc by (rule div_mult_self2) simp
    finally show ?thesis by simp
  qed
  moreover have "unat (drop_bit k (push_bit 32 (ucast b) OR ucast a :: u64) AND 0x3ffffff) = (unat a + 2 ^ 32 * unat b) div 2 ^ k mod 2 ^ 26"
    unfolding unat_mask26 unat_drop_bit p ..
  moreover have "m mod 2 ^ 26 < (2 :: nat) ^ 32" for m by (rule less_trans [of _ "2 ^ 26"]) simp_all
  ultimately show ?thesis by (simp add: unat_ucast_down)
qed

lemma block_limbs:
  assumes "length m = 16"
  shows "unat (U8TO32_LE m AND 0x3ffffff) = le_val m mod 2 ^ 26"
    "unat (ucast (drop_bit 26 (push_bit 32 (ucast (U8TO32_LE (drop 4 m))) OR ucast (U8TO32_LE m) :: u64) AND 0x3ffffff) :: u32) = le_val m div 2 ^ 26 mod 2 ^ 26"
    "unat (ucast (drop_bit 20 (push_bit 32 (ucast (U8TO32_LE (drop 8 m))) OR ucast (U8TO32_LE (drop 4 m)) :: u64) AND 0x3ffffff) :: u32) = le_val m div 2 ^ 52 mod 2 ^ 26"
    "unat (ucast (drop_bit 14 (push_bit 32 (ucast (U8TO32_LE (drop 12 m))) OR ucast (U8TO32_LE (drop 8 m)) :: u64) AND 0x3ffffff) :: u32) = le_val m div 2 ^ 78 mod 2 ^ 26"
    "unat (drop_bit 8 (U8TO32_LE (drop 12 m))) = le_val m div 2 ^ 104"
proof -
  let ?t = "\<lambda>k. unat (U8TO32_LE (drop k m))"
  have v: "le_val m = ?t 0 + 2 ^ 32 * (?t 4 + 2 ^ 32 * (?t 8 + 2 ^ 32 * ?t 12))" using le_val_16 [OF assms] by simp
  have t: "?t k < 2 ^ 32" for k using unat_u32_less by simp
  have s: "(?t k + 2 ^ 32 * x) div 2 ^ 32 = x" for k x using t [of k] by simp
  have 1: "le_val m div 2 ^ 32 = ?t 4 + 2 ^ 32 * (?t 8 + 2 ^ 32 * ?t 12)" unfolding v s ..
  have 2: "le_val m div 2 ^ 64 = ?t 8 + 2 ^ 32 * ?t 12"
  proof -
    have "le_val m div 2 ^ 64 = le_val m div 2 ^ 32 div 2 ^ 32" by (simp flip: div_mult2_eq)
    then show ?thesis unfolding 1 s .
  qed
  have 3: "le_val m div 2 ^ 96 = ?t 12"
  proof -
    have "le_val m div 2 ^ 96 = le_val m div 2 ^ 64 div 2 ^ 32" by (simp flip: div_mult2_eq)
    then show ?thesis unfolding 2 s .
  qed
  show "unat (U8TO32_LE m AND 0x3ffffff) = le_val m mod 2 ^ 26"
  proof -
    have "le_val m = ?t 0 + 2 ^ 26 * (2 ^ 6 * (?t 4 + 2 ^ 32 * (?t 8 + 2 ^ 32 * ?t 12)))" unfolding v by simp
    also have "\<dots> mod 2 ^ 26 = ?t 0 mod 2 ^ 26" by (rule mod_mult_self2)
    finally show ?thesis unfolding unat_mask26 by simp
  qed
  show "unat (ucast (drop_bit 26 (push_bit 32 (ucast (U8TO32_LE (drop 4 m))) OR ucast (U8TO32_LE m) :: u64) AND 0x3ffffff) :: u32) = le_val m div 2 ^ 26 mod 2 ^ 26"
    using digit_of_word_pair [of 26 12 "U8TO32_LE (drop 4 m)" "U8TO32_LE m" "?t 8 + 2 ^ 32 * ?t 12"] v by simp
  show "unat (ucast (drop_bit 20 (push_bit 32 (ucast (U8TO32_LE (drop 8 m))) OR ucast (U8TO32_LE (drop 4 m)) :: u64) AND 0x3ffffff) :: u32) = le_val m div 2 ^ 52 mod 2 ^ 26"
  proof -
    have "le_val m div 2 ^ 52 = le_val m div 2 ^ 32 div 2 ^ 20" by (simp flip: div_mult2_eq)
    then show ?thesis using digit_of_word_pair [of 20 18 "U8TO32_LE (drop 8 m)" "U8TO32_LE (drop 4 m)" "?t 12"] unfolding 1 by simp
  qed
  show "unat (ucast (drop_bit 14 (push_bit 32 (ucast (U8TO32_LE (drop 12 m))) OR ucast (U8TO32_LE (drop 8 m)) :: u64) AND 0x3ffffff) :: u32) = le_val m div 2 ^ 78 mod 2 ^ 26"
  proof -
    have "le_val m div 2 ^ 78 = le_val m div 2 ^ 64 div 2 ^ 14" by (simp flip: div_mult2_eq)
    then show ?thesis using digit_of_word_pair [of 14 24 "U8TO32_LE (drop 12 m)" "U8TO32_LE (drop 8 m)" 0] unfolding 2 by simp
  qed
  show "unat (drop_bit 8 (U8TO32_LE (drop 12 m))) = le_val m div 2 ^ 104"
  proof -
    have "le_val m div 2 ^ 104 = le_val m div 2 ^ 96 div 2 ^ 8" by (simp flip: div_mult2_eq)
    then show ?thesis unfolding 3 unat_drop_bit by simp
  qed
qed

section \<open>The multiplication\<close>

text \<open>The multiplier as clamping leaves it, the accumulator between two blocks, and with the next block added.\<close>

definition r_ok :: "poly1305_st \<Rightarrow> bool" where
  "r_ok st \<longleftrightarrow> unat (ps_r0 st) \<le> 67108863 \<and> unat (ps_r1 st) \<le> 67108611 \<and> unat (ps_r2 st) \<le> 67092735 \<and>
     unat (ps_r3 st) \<le> 66076671 \<and> unat (ps_r4 st) \<le> 1048575 \<and>
     unat (ps_s1 st) = 5 * unat (ps_r1 st) \<and> unat (ps_s2 st) = 5 * unat (ps_r2 st) \<and>
     unat (ps_s3 st) = 5 * unat (ps_r3 st) \<and> unat (ps_s4 st) = 5 * unat (ps_r4 st)"

definition h_ok :: "poly1305_st \<Rightarrow> bool" where
  "h_ok st \<longleftrightarrow> unat (ps_h0 st) \<le> 2800000000 \<and> unat (ps_h1 st) < 2 ^ 26 \<and> unat (ps_h2 st) < 2 ^ 26 \<and>
     unat (ps_h3 st) < 2 ^ 26 \<and> unat (ps_h4 st) < 2 ^ 26"

definition h_added :: "poly1305_st \<Rightarrow> bool" where
  "h_added st \<longleftrightarrow> unat (ps_h0 st) \<le> 2867108863 \<and> unat (ps_h1 st) \<le> 134217726 \<and> unat (ps_h2 st) \<le> 134217726 \<and>
     unat (ps_h3 st) \<le> 134217726 \<and> unat (ps_h4 st) \<le> 100663294"

definition h_val :: "poly1305_st \<Rightarrow> nat" where
  "h_val st = limbs (unat (ps_h0 st)) (unat (ps_h1 st)) (unat (ps_h2 st)) (unat (ps_h3 st)) (unat (ps_h4 st))"

definition r_val :: "poly1305_st \<Rightarrow> nat" where
  "r_val st = limbs (unat (ps_r0 st)) (unat (ps_r1 st)) (unat (ps_r2 st)) (unat (ps_r3 st)) (unat (ps_r4 st))"

lemma unat_sum5:
  fixes a b c d e :: u64
  assumes "unat a + unat b + unat c + unat d + unat e < 2 ^ 64"
  shows "unat (a + b + c + d + e) = unat a + unat b + unat c + unat d + unat e"
proof -
  have "unat (a + b) = unat a + unat b" using assms by (intro unat_add_small) simp
  moreover from this have "unat (a + b + c) = unat a + unat b + unat c" using assms by (subst unat_add_small) simp_all
  moreover from this have "unat (a + b + c + d) = unat a + unat b + unat c + unat d" using assms by (subst unat_add_small) simp_all
  ultimately show ?thesis using assms by (subst unat_add_small) simp_all
qed

lemma unat_column:
  assumes "unat a0 * unat b0 + unat a1 * unat b1 + unat a2 * unat b2 + unat a3 * unat b3 + unat a4 * unat b4 < 2 ^ 64"
  shows "unat (mul32x32_64 a0 b0 + mul32x32_64 a1 b1 + mul32x32_64 a2 b2 + mul32x32_64 a3 b3 + mul32x32_64 a4 b4) =
    unat a0 * unat b0 + unat a1 * unat b1 + unat a2 * unat b2 + unat a3 * unat b3 + unat a4 * unat b4"
  using assms by (subst unat_sum5) (simp_all only: unat_mul32)

text \<open>The columns of the product, \<open>2 ^ 130\<close> being 5; none is too long for a word, and only the first carry needs more than
  32 bits.\<close>

lemma column_bounds:
  fixes H0 H1 H2 H3 H4 R0 R1 R2 R3 R4 :: nat
  assumes "H0 \<le> 2867108863" "H1 \<le> 134217726" "H2 \<le> 134217726" "H3 \<le> 134217726" "H4 \<le> 100663294"
    "R0 \<le> 67108863" "R1 \<le> 67108611" "R2 \<le> 67092735" "R3 \<le> 66076671" "R4 \<le> 1048575"
  shows "H0 * R0 + H1 * (5 * R4) + H2 * (5 * R3) + H3 * (5 * R2) + H4 * (5 * R1) \<le> 316257446078931969"
    "H0 * R1 + H1 * R0 + H2 * (5 * R4) + H3 * (5 * R3) + H4 * (5 * R2) \<le> 280230760287423261"
    "H0 * R2 + H1 * R1 + H2 * R0 + H3 * (5 * R4) + H4 * (5 * R3) \<le> 244337702868428049"
    "H0 * R3 + H1 * R2 + H2 * R1 + H3 * R0 + H4 * (5 * R4) \<le> 216996172601730057"
    "H0 * R4 + H1 * R3 + H2 * R2 + H3 * R1 + H4 * R0 \<le> 36642637891724289"
proof -
  have p00: "H0 * R0 \<le> 192408415893152769" using mult_le_mono [OF assms(1) assms(6)] by simp
  have p01: "H0 * R1 \<le> 192407693381719293" using mult_le_mono [OF assms(1) assms(7)] by simp
  have p02: "H0 * R2 \<le> 192362175161410305" using mult_le_mono [OF assms(1) assms(8)] by simp
  have p03: "H0 * R3 \<le> 189449009061635073" using mult_le_mono [OF assms(1) assms(9)] by simp
  have p04: "H0 * R4 \<le> 3006378676020225" using mult_le_mono [OF assms(1) assms(10)] by simp
  have p10: "H1 * R0 \<le> 9007198986305538" using mult_le_mono [OF assms(2) assms(6)] by simp
  have p11: "H1 * R1 \<le> 9007165163438586" using mult_le_mono [OF assms(2) assms(7)] by simp
  have p12: "H1 * R2 \<le> 9005034322820610" using mult_le_mono [OF assms(2) assms(8)] by simp
  have p13: "H1 * R3 \<le> 8868660523270146" using mult_le_mono [OF assms(2) assms(9)] by simp
  have p14: "H1 * R4 \<le> 140737352040450" using mult_le_mono [OF assms(2) assms(10)] by simp
  have p20: "H2 * R0 \<le> 9007198986305538" using mult_le_mono [OF assms(3) assms(6)] by simp
  have p21: "H2 * R1 \<le> 9007165163438586" using mult_le_mono [OF assms(3) assms(7)] by simp
  have p22: "H2 * R2 \<le> 9005034322820610" using mult_le_mono [OF assms(3) assms(8)] by simp
  have p23: "H2 * R3 \<le> 8868660523270146" using mult_le_mono [OF assms(3) assms(9)] by simp
  have p24: "H2 * R4 \<le> 140737352040450" using mult_le_mono [OF assms(3) assms(10)] by simp
  have p30: "H3 * R0 \<le> 9007198986305538" using mult_le_mono [OF assms(4) assms(6)] by simp
  have p31: "H3 * R1 \<le> 9007165163438586" using mult_le_mono [OF assms(4) assms(7)] by simp
  have p32: "H3 * R2 \<le> 9005034322820610" using mult_le_mono [OF assms(4) assms(8)] by simp
  have p33: "H3 * R3 \<le> 8868660523270146" using mult_le_mono [OF assms(4) assms(9)] by simp
  have p34: "H3 * R4 \<le> 140737352040450" using mult_le_mono [OF assms(4) assms(10)] by simp
  have p40: "H4 * R0 \<le> 6755399206174722" using mult_le_mono [OF assms(5) assms(6)] by simp
  have p41: "H4 * R1 \<le> 6755373839024634" using mult_le_mono [OF assms(5) assms(7)] by simp
  have p42: "H4 * R2 \<le> 6753775708569090" using mult_le_mono [OF assms(5) assms(8)] by simp
  have p43: "H4 * R3 \<le> 6651495359414274" using mult_le_mono [OF assms(5) assms(9)] by simp
  have p44: "H4 * R4 \<le> 105553013506050" using mult_le_mono [OF assms(5) assms(10)] by simp
  show "H0 * R0 + H1 * (5 * R4) + H2 * (5 * R3) + H3 * (5 * R2) + H4 * (5 * R1) \<le> 316257446078931969" using p00 p14 p23 p32 p41 by linarith
  show "H0 * R1 + H1 * R0 + H2 * (5 * R4) + H3 * (5 * R3) + H4 * (5 * R2) \<le> 280230760287423261" using p01 p10 p24 p33 p42 by linarith
  show "H0 * R2 + H1 * R1 + H2 * R0 + H3 * (5 * R4) + H4 * (5 * R3) \<le> 244337702868428049" using p02 p11 p20 p34 p43 by linarith
  show "H0 * R3 + H1 * R2 + H2 * R1 + H3 * R0 + H4 * (5 * R4) \<le> 216996172601730057" using p03 p12 p21 p30 p44 by linarith
  show "H0 * R4 + H1 * R3 + H2 * R2 + H3 * R1 + H4 * R0 \<le> 36642637891724289" using p04 p13 p22 p31 p40 by linarith
qed

lemma product_columns:
  "limbs H0 H1 H2 H3 H4 * limbs R0 R1 R2 R3 R4 =
    limbs (H0 * R0 + H1 * (5 * R4) + H2 * (5 * R3) + H3 * (5 * R2) + H4 * (5 * R1))
      (H0 * R1 + H1 * R0 + H2 * (5 * R4) + H3 * (5 * R3) + H4 * (5 * R2))
      (H0 * R2 + H1 * R1 + H2 * R0 + H3 * (5 * R4) + H4 * (5 * R3))
      (H0 * R3 + H1 * R2 + H2 * R1 + H3 * R0 + H4 * (5 * R4))
      (H0 * R4 + H1 * R3 + H2 * R2 + H3 * R1 + H4 * R0) +
    poly1305_p * (H1 * R4 + H2 * R3 + H3 * R2 + H4 * R1 + 2 ^ 26 * (H2 * R4 + H3 * R3 + H4 * R2) + 2 ^ 52 * (H3 * R4 + H4 * R3) + 2 ^ 78 * (H4 * R4))"
  by (simp add: limbs_def poly1305_p_def algebra_simps)

lemma carry_columns:
  fixes T0 T1 T2 T3 T4 :: nat
  defines "U1 \<equiv> T1 + T0 div 2 ^ 26"
  defines "U2 \<equiv> T2 + U1 div 2 ^ 26"
  defines "U3 \<equiv> T3 + U2 div 2 ^ 26"
  defines "U4 \<equiv> T4 + U3 div 2 ^ 26"
  shows "limbs T0 T1 T2 T3 T4 =
    limbs (T0 mod 2 ^ 26 + 5 * (U4 div 2 ^ 26)) (U1 mod 2 ^ 26) (U2 mod 2 ^ 26) (U3 mod 2 ^ 26) (U4 mod 2 ^ 26) +
    poly1305_p * (U4 div 2 ^ 26)"
proof -
  have d: "m = m mod 2 ^ 26 + 2 ^ 26 * (m div 2 ^ 26)" for m :: nat by simp
  have "limbs T0 T1 T2 T3 T4 = limbs (T0 mod 2 ^ 26) U1 T2 T3 T4"
    unfolding limbs_def U1_def by (subst d [of T0]) (simp add: algebra_simps)
  also have "\<dots> = limbs (T0 mod 2 ^ 26) (U1 mod 2 ^ 26) U2 T3 T4"
    unfolding limbs_def U2_def by (subst d [of U1]) (simp add: algebra_simps)
  also have "\<dots> = limbs (T0 mod 2 ^ 26) (U1 mod 2 ^ 26) (U2 mod 2 ^ 26) U3 T4"
    unfolding limbs_def U3_def by (subst d [of U2]) (simp add: algebra_simps)
  also have "\<dots> = limbs (T0 mod 2 ^ 26) (U1 mod 2 ^ 26) (U2 mod 2 ^ 26) (U3 mod 2 ^ 26) U4"
    unfolding limbs_def U4_def by (subst d [of U3]) (simp add: algebra_simps)
  also have "\<dots> = limbs (T0 mod 2 ^ 26 + 5 * (U4 div 2 ^ 26)) (U1 mod 2 ^ 26) (U2 mod 2 ^ 26) (U3 mod 2 ^ 26) (U4 mod 2 ^ 26) +
      poly1305_p * (U4 div 2 ^ 26)"
  proof -
    have "limbs a b c x (r + 2 ^ 26 * q) = limbs (a + 5 * q) b c x r + poly1305_p * q" for a b c x r q
      by (simp add: limbs_def poly1305_p_def algebra_simps)
    from this [of _ _ _ _ "U4 mod 2 ^ 26" "U4 div 2 ^ 26"] show ?thesis by (simp only: d [symmetric])
  qed
  finally show ?thesis .
qed

lemma unat_carry_add:
  fixes t :: u64
  assumes "unat t + unat u div 2 ^ 26 < 2 ^ 64" "unat u < 2 ^ 58"
  shows "unat (t + ucast (ucast (drop_bit 26 u) :: u32)) = unat t + unat u div 2 ^ 26"
proof -
  have "unat u div 2 ^ 26 < 2 ^ 32" using assms(2) by (simp add: less_mult_imp_div_less)
  then have "unat (ucast (ucast (drop_bit 26 u) :: u32) :: u64) = unat u div 2 ^ 26"
    by (simp add: unat_ucast_up unat_ucast_down unat_drop_bit)
  then show ?thesis using assms(1) by (subst unat_add_small) simp_all
qed

lemma unat_low_limb: "unat ((ucast (t :: u64) :: u32) AND 0x3ffffff) = unat t mod 2 ^ 26"
proof -
  have "unat t mod 2 ^ 32 mod 2 ^ 26 = unat t mod 2 ^ 26" by (rule mod_mod_cancel) (simp add: le_imp_power_dvd)
  then show ?thesis unfolding unat_mask26 by (simp add: unat_ucast_down)
qed

lemma poly1305_mul_val:
  assumes r: "r_ok st" and h: "h_added st"
  shows "h_ok (poly1305_mul st)" "h_val (poly1305_mul st) mod poly1305_p = h_val st * r_val st mod poly1305_p"
proof -
  define H0 R0 where "H0 = unat (ps_h0 st)" and "R0 = unat (ps_r0 st)"
  define H1 R1 where "H1 = unat (ps_h1 st)" and "R1 = unat (ps_r1 st)"
  define H2 R2 where "H2 = unat (ps_h2 st)" and "R2 = unat (ps_r2 st)"
  define H3 R3 where "H3 = unat (ps_h3 st)" and "R3 = unat (ps_r3 st)"
  define H4 R4 where "H4 = unat (ps_h4 st)" and "R4 = unat (ps_r4 st)"
  note HR = H0_def R0_def H1_def R1_def H2_def R2_def H3_def R3_def H4_def R4_def
  define t0 where "t0 = mul32x32_64 (ps_h0 st) (ps_r0 st) + mul32x32_64 (ps_h1 st) (ps_s4 st) + mul32x32_64 (ps_h2 st) (ps_s3 st) + mul32x32_64 (ps_h3 st) (ps_s2 st) + mul32x32_64 (ps_h4 st) (ps_s1 st)"
  define t1 where "t1 = mul32x32_64 (ps_h0 st) (ps_r1 st) + mul32x32_64 (ps_h1 st) (ps_r0 st) + mul32x32_64 (ps_h2 st) (ps_s4 st) + mul32x32_64 (ps_h3 st) (ps_s3 st) + mul32x32_64 (ps_h4 st) (ps_s2 st)"
  define t2 where "t2 = mul32x32_64 (ps_h0 st) (ps_r2 st) + mul32x32_64 (ps_h1 st) (ps_r1 st) + mul32x32_64 (ps_h2 st) (ps_r0 st) + mul32x32_64 (ps_h3 st) (ps_s4 st) + mul32x32_64 (ps_h4 st) (ps_s3 st)"
  define t3 where "t3 = mul32x32_64 (ps_h0 st) (ps_r3 st) + mul32x32_64 (ps_h1 st) (ps_r2 st) + mul32x32_64 (ps_h2 st) (ps_r1 st) + mul32x32_64 (ps_h3 st) (ps_r0 st) + mul32x32_64 (ps_h4 st) (ps_s4 st)"
  define t4 where "t4 = mul32x32_64 (ps_h0 st) (ps_r4 st) + mul32x32_64 (ps_h1 st) (ps_r3 st) + mul32x32_64 (ps_h2 st) (ps_r2 st) + mul32x32_64 (ps_h3 st) (ps_r1 st) + mul32x32_64 (ps_h4 st) (ps_r0 st)"
  have bh: "H0 \<le> 2867108863" "H1 \<le> 134217726" "H2 \<le> 134217726" "H3 \<le> 134217726" "H4 \<le> 100663294"
    using h unfolding h_added_def HR by simp_all
  have br: "R0 \<le> 67108863" "R1 \<le> 67108611" "R2 \<le> 67092735" "R3 \<le> 66076671" "R4 \<le> 1048575"
    using r unfolding r_ok_def HR by simp_all
  note T = column_bounds [OF bh br]
  have u0: "unat t0 = H0 * R0 + H1 * (5 * R4) + H2 * (5 * R3) + H3 * (5 * R2) + H4 * (5 * R1)"
    unfolding t0_def using T(1) r unfolding HR r_ok_def by (subst unat_column) simp_all
  have u1: "unat t1 = H0 * R1 + H1 * R0 + H2 * (5 * R4) + H3 * (5 * R3) + H4 * (5 * R2)"
    unfolding t1_def using T(2) r unfolding HR r_ok_def by (subst unat_column) simp_all
  have u2: "unat t2 = H0 * R2 + H1 * R1 + H2 * R0 + H3 * (5 * R4) + H4 * (5 * R3)"
    unfolding t2_def using T(3) r unfolding HR r_ok_def by (subst unat_column) simp_all
  have u3: "unat t3 = H0 * R3 + H1 * R2 + H2 * R1 + H3 * R0 + H4 * (5 * R4)"
    unfolding t3_def using T(4) r unfolding HR r_ok_def by (subst unat_column) simp_all
  have u4: "unat t4 = H0 * R4 + H1 * R3 + H2 * R2 + H3 * R1 + H4 * R0"
    unfolding t4_def using T(5) r unfolding HR r_ok_def by (subst unat_column) simp_all
  note T = T [folded u0 u1 u2 u3 u4]
  define U1 where "U1 = t1 + drop_bit 26 t0"
  define U2 where "U2 = t2 + ucast (ucast (drop_bit 26 U1) :: u32)"
  define U3 where "U3 = t3 + ucast (ucast (drop_bit 26 U2) :: u32)"
  define U4 where "U4 = t4 + ucast (ucast (drop_bit 26 U3) :: u32)"
  have dl: "m < 2 ^ 58 \<Longrightarrow> m div 2 ^ 26 < 4294967296" for m :: nat by (simp add: less_mult_imp_div_less)
  have d0: "unat t0 div 2 ^ 26 \<le> 4712607950" using div_le_mono [OF T(1), of "2 ^ 26"] by simp
  have c0: "unat U1 = unat t1 + unat t0 div 2 ^ 26"
    unfolding U1_def using T by (subst unat_add_small) (simp_all add: unat_drop_bit)
  then have l1: "unat U1 < 2 ^ 58" using T d0 by simp
  have c1: "unat U2 = unat t2 + unat U1 div 2 ^ 26" unfolding U2_def using T l1 dl [OF l1] by (intro unat_carry_add) simp_all
  then have l2: "unat U2 < 2 ^ 58" using T dl [OF l1] by simp
  have c2: "unat U3 = unat t3 + unat U2 div 2 ^ 26" unfolding U3_def using T l2 dl [OF l2] by (intro unat_carry_add) simp_all
  then have l3: "unat U3 < 2 ^ 58" using T dl [OF l2] by simp
  have c3: "unat U4 = unat t4 + unat U3 div 2 ^ 26" unfolding U4_def using T l3 dl [OF l3] by (intro unat_carry_add) simp_all
  then have l4: "unat U4 \<le> 36642637891724289 + 4294967296" using T dl [OF l3] by simp
  have b4: "unat U4 div 2 ^ 26 \<le> 546017917" using div_le_mono [OF l4, of "2 ^ 26"] by simp
  define B where "B = (ucast (drop_bit 26 U4) :: u32)"
  have uB: "unat B = unat U4 div 2 ^ 26"
    unfolding B_def using b4 by (simp add: unat_ucast_down unat_drop_bit)
  have low: "unat t0 mod 2 ^ 26 < 2 ^ 26" by simp
  have u5: "unat (B * 5) = 5 * (unat U4 div 2 ^ 26)" using b4 uB by (simp add: unat_word_ariths)
  have uh0: "unat ((ucast t0 AND 0x3ffffff) + B * 5) = unat t0 mod 2 ^ 26 + 5 * (unat U4 div 2 ^ 26)"
    using u5 b4 low by (subst unat_add_small) (simp_all only: unat_low_limb, simp)
  have eq: "poly1305_mul st = st\<lparr>ps_h0 := (ucast t0 AND 0x3ffffff) + B * 5, ps_h1 := ucast U1 AND 0x3ffffff,
      ps_h2 := ucast U2 AND 0x3ffffff, ps_h3 := ucast U3 AND 0x3ffffff, ps_h4 := ucast U4 AND 0x3ffffff\<rparr>"
    unfolding poly1305_mul_def Let_def t0_def [symmetric] t1_def [symmetric] t2_def [symmetric] t3_def [symmetric] t4_def [symmetric]
      U1_def [symmetric] U2_def [symmetric] U3_def [symmetric] U4_def [symmetric] B_def [symmetric] ..
  show "h_ok (poly1305_mul st)"
    unfolding eq h_ok_def using low b4 by (simp add: uh0 unat_low_limb)
  have hv: "h_val (poly1305_mul st) = limbs (unat t0 mod 2 ^ 26 + 5 * (unat U4 div 2 ^ 26)) (unat U1 mod 2 ^ 26) (unat U2 mod 2 ^ 26)
      (unat U3 mod 2 ^ 26) (unat U4 mod 2 ^ 26)"
    unfolding eq h_val_def by (simp add: uh0 unat_low_limb)
  have "h_val st * r_val st = limbs (unat t0) (unat t1) (unat t2) (unat t3) (unat t4) +
      poly1305_p * (H1 * R4 + H2 * R3 + H3 * R2 + H4 * R1 + 2 ^ 26 * (H2 * R4 + H3 * R3 + H4 * R2) + 2 ^ 52 * (H3 * R4 + H4 * R3) + 2 ^ 78 * (H4 * R4))"
    unfolding h_val_def r_val_def HR [symmetric] product_columns u0 u1 u2 u3 u4 ..
  also have "limbs (unat t0) (unat t1) (unat t2) (unat t3) (unat t4) = h_val (poly1305_mul st) + poly1305_p * (unat U4 div 2 ^ 26)"
    using carry_columns [of "unat t0" "unat t1" "unat t2" "unat t3" "unat t4"]
    unfolding c0 [symmetric] c1 [symmetric] c2 [symmetric] c3 [symmetric] hv .
  finally show "h_val (poly1305_mul st) mod poly1305_p = h_val st * r_val st mod poly1305_p" by simp
qed

lemma poly1305_mul_keeps [simp]:
  "r_ok (poly1305_mul st) = r_ok st" "r_val (poly1305_mul st) = r_val st" "ps_buf (poly1305_mul st) = ps_buf st"
  "ps_buf_used (poly1305_mul st) = ps_buf_used st" "ps_key (poly1305_mul st) = ps_key st"
  by (simp_all add: poly1305_mul_def Let_def r_ok_def r_val_def)

lemma poly1305_add_keeps [simp]:
  "r_ok (poly1305_add st m hi) = r_ok st" "r_val (poly1305_add st m hi) = r_val st" "ps_buf (poly1305_add st m hi) = ps_buf st"
  "ps_buf_used (poly1305_add st m hi) = ps_buf_used st" "ps_key (poly1305_add st m hi) = ps_key st"
  by (simp_all add: poly1305_add_def Let_def r_ok_def r_val_def)

lemma poly1305_add_fields:
  "ps_h0 (poly1305_add st m hi) = ps_h0 st + (U8TO32_LE m AND 0x3ffffff)"
  "ps_h1 (poly1305_add st m hi) = ps_h1 st + ucast (drop_bit 26 (push_bit 32 (ucast (U8TO32_LE (drop 4 m))) OR ucast (U8TO32_LE m) :: u64) AND 0x3ffffff)"
  "ps_h2 (poly1305_add st m hi) = ps_h2 st + ucast (drop_bit 20 (push_bit 32 (ucast (U8TO32_LE (drop 8 m))) OR ucast (U8TO32_LE (drop 4 m)) :: u64) AND 0x3ffffff)"
  "ps_h3 (poly1305_add st m hi) = ps_h3 st + ucast (drop_bit 14 (push_bit 32 (ucast (U8TO32_LE (drop 12 m))) OR ucast (U8TO32_LE (drop 8 m)) :: u64) AND 0x3ffffff)"
  "ps_h4 (poly1305_add st m hi) = ps_h4 st + (drop_bit 8 (U8TO32_LE (drop 12 m)) OR hi)"
  by (simp_all add: poly1305_add_def Let_def)

lemma unat_add_limb: "unat b = k \<Longrightarrow> unat a \<le> 2800000000 \<Longrightarrow> k < 2 ^ 26 \<Longrightarrow> unat (a + b :: u32) = unat a + k"
  by (subst unat_add_small) simp_all

lemma poly1305_add_val:
  assumes h: "h_ok st" and m: "length m = 16" and hi: "hi = 0 \<or> hi = push_bit 24 1"
  shows "h_added (poly1305_add st m hi)" "h_val (poly1305_add st m hi) = h_val st + le_val m + unat hi * 2 ^ 104"
proof -
  let ?n = "le_val m"
  have "?n < 2 ^ 128" using le_val_less [of m] m by simp
  then have top: "?n div 2 ^ 104 < 2 ^ 24" by (simp add: less_mult_imp_div_less)
  have t: "unat (drop_bit 8 (U8TO32_LE (drop 12 m))) < 2 ^ 24" unfolding block_limbs(5) [OF m] by (rule top)
  have o: "unat (drop_bit 8 (U8TO32_LE (drop 12 m)) OR hi) = ?n div 2 ^ 104 + unat hi"
    using hi unat_push_bit_or [OF t, of 1] block_limbs(5) [OF m] top by (auto simp: or.commute)
  have b: "?n mod 2 ^ 26 < 2 ^ 26" "?n div 2 ^ 26 mod 2 ^ 26 < 2 ^ 26" "?n div 2 ^ 52 mod 2 ^ 26 < 2 ^ 26" "?n div 2 ^ 78 mod 2 ^ 26 < 2 ^ 26"
    by simp_all
  have "unat hi \<le> 2 ^ 24" using hi by auto
  then have v4: "unat (ps_h4 st + (drop_bit 8 (U8TO32_LE (drop 12 m)) OR hi)) = unat (ps_h4 st) + (?n div 2 ^ 104 + unat hi)"
    using h top unfolding h_ok_def by (intro unat_add_limb [OF o]) simp_all
  have v: "unat (ps_h0 (poly1305_add st m hi)) = unat (ps_h0 st) + ?n mod 2 ^ 26"
    "unat (ps_h1 (poly1305_add st m hi)) = unat (ps_h1 st) + ?n div 2 ^ 26 mod 2 ^ 26"
    "unat (ps_h2 (poly1305_add st m hi)) = unat (ps_h2 st) + ?n div 2 ^ 52 mod 2 ^ 26"
    "unat (ps_h3 (poly1305_add st m hi)) = unat (ps_h3 st) + ?n div 2 ^ 78 mod 2 ^ 26"
    "unat (ps_h4 (poly1305_add st m hi)) = unat (ps_h4 st) + (?n div 2 ^ 104 + unat hi)"
    using h b unfolding poly1305_add_fields h_ok_def
    by (simp_all add: unat_add_limb [OF block_limbs(1) [OF m]] unat_add_limb [OF block_limbs(2) [OF m]]
        unat_add_limb [OF block_limbs(3) [OF m]] unat_add_limb [OF block_limbs(4) [OF m]] v4 del: drop_bit_or)
  show "h_added (poly1305_add st m hi)"
  proof -
    obtain d0 d1 d2 d3 where d: "?n mod 2 ^ 26 = d0" "?n div 2 ^ 26 mod 2 ^ 26 = d1" "?n div 2 ^ 52 mod 2 ^ 26 = d2" "?n div 2 ^ 78 mod 2 ^ 26 = d3"
      by blast
    show ?thesis unfolding h_added_def v d using h b [unfolded d] top \<open>unat hi \<le> 2 ^ 24\<close> by (simp add: h_ok_def)
  qed
  have "limbs (a + x) (b + y) (c + z) (d + w) (e + (u + f)) = limbs a b c d e + limbs x y z w u + f * 2 ^ 104" for a b c d e f x y z w u
    by (simp add: limbs_def algebra_simps)
  then show "h_val (poly1305_add st m hi) = h_val st + ?n + unat hi * 2 ^ 104"
    unfolding h_val_def v by (simp only: limbs_digits)
qed

section \<open>Blocks\<close>

lemma poly1305_acc_Nil [simp]: "poly1305_acc r a [] = a"
  by (simp add: poly1305_acc.simps)

lemma poly1305_acc_block:
  "length m = 16 \<Longrightarrow> poly1305_acc r a (m @ msg) = poly1305_acc r ((a + (le_val m + 2 ^ 128)) * r mod poly1305_p) msg"
  by (subst poly1305_acc.simps) (auto simp: le_val_append)

lemma poly1305_acc_append: "16 dvd length x \<Longrightarrow> poly1305_acc r a (x @ y) = poly1305_acc r (poly1305_acc r a x) y"
proof (induction r a x rule: poly1305_acc.induct)
  case (1 r a x)
  show ?case
  proof (cases "x = []")
    case False
    then have n: "16 \<le> length x" using 1(2) by (auto dest: dvd_imp_le)
    then have "poly1305_acc r a (x @ y) = poly1305_acc r ((a + le_val (take 16 x @ [1])) * r mod poly1305_p) (drop 16 x @ y)"
      using False by (subst poly1305_acc.simps) simp
    also have "\<dots> = poly1305_acc r (poly1305_acc r ((a + le_val (take 16 x @ [1])) * r mod poly1305_p) (drop 16 x)) y"
      using 1 False n by (intro 1(1)) (auto simp: dvd_diff_nat)
    also have "poly1305_acc r ((a + le_val (take 16 x @ [1])) * r mod poly1305_p) (drop 16 x) = poly1305_acc r a x"
      using False by (subst (2) poly1305_acc.simps) simp
    finally show ?thesis .
  qed simp
qed

lemma poly1305_acc_short:
  "0 < length x \<Longrightarrow> length x \<le> 16 \<Longrightarrow> poly1305_acc r a x = (a + le_val (x @ [1])) * r mod poly1305_p"
  by (subst poly1305_acc.simps) auto

lemma poly1305_block_val:
  assumes "r_ok st" "h_ok st" "length m = 16" "hi = 0 \<or> hi = push_bit 24 1"
  shows "h_ok (poly1305_mul (poly1305_add st m hi))"
    "h_val (poly1305_mul (poly1305_add st m hi)) mod poly1305_p =
      (h_val st mod poly1305_p + (le_val m + unat hi * 2 ^ 104)) * r_val st mod poly1305_p"
proof -
  have "(x + y) * z mod q = (x mod q + y) * z mod q" for x y z q :: nat by (metis mod_add_left_eq mod_mult_left_eq)
  then show "h_val (poly1305_mul (poly1305_add st m hi)) mod poly1305_p =
      (h_val st mod poly1305_p + (le_val m + unat hi * 2 ^ 104)) * r_val st mod poly1305_p"
    using poly1305_add_val [OF assms(2-4)] poly1305_mul_val [of "poly1305_add st m hi"] assms(1) by (simp add: add.assoc)
qed (use poly1305_add_val [OF assms(2-4)] poly1305_mul_val assms(1) in simp)

lemma poly1305_update_val:
  "r_ok st \<Longrightarrow> h_ok st \<Longrightarrow>
    h_ok (poly1305_update st inp) \<and> r_ok (poly1305_update st inp) \<and> r_val (poly1305_update st inp) = r_val st \<and>
    ps_buf (poly1305_update st inp) = ps_buf st \<and> ps_buf_used (poly1305_update st inp) = ps_buf_used st \<and>
    ps_key (poly1305_update st inp) = ps_key st \<and>
    h_val (poly1305_update st inp) mod poly1305_p = poly1305_acc (r_val st) (h_val st mod poly1305_p) inp"
proof (induction st inp rule: poly1305_update.induct)
  case (1 st inp)
  consider "16 \<le> length inp" | "inp = []" | "0 < length inp" "length inp < 16" by fastforce
  then show ?case
  proof cases
    case 1
    let ?st = "poly1305_mul (poly1305_add st (take 16 inp) (push_bit 24 1))"
    have m: "length (take 16 inp) = 16" using 1 by simp
    have u: "poly1305_update st inp = poly1305_update ?st (drop 16 inp)" using 1 by (subst poly1305_update.simps) simp
    have v: "h_ok ?st" "h_val ?st mod poly1305_p = (h_val st mod poly1305_p + (le_val (take 16 inp) + 2 ^ 128)) * r_val st mod poly1305_p"
      using poly1305_block_val [OF "1.prems" m, of "push_bit 24 1"] by simp_all
    have a: "poly1305_acc (r_val st) (h_val st mod poly1305_p) inp = poly1305_acc (r_val st) (h_val ?st mod poly1305_p) (drop 16 inp)"
      using poly1305_acc_block [OF m, of "r_val st" "h_val st mod poly1305_p" "drop 16 inp"] unfolding v(2) by simp
    show ?thesis unfolding u a using "1.IH" [OF 1] "1.prems" v(1) by simp
  next
    case 3
    let ?mp = "inp @ [1] @ replicate (15 - length inp) 0"
    have m: "length ?mp = 16" using 3 by simp
    have u: "poly1305_update st inp = poly1305_mul (poly1305_add st ?mp 0)" using 3 by (subst poly1305_update.simps) simp
    have l: "le_val ?mp = le_val (inp @ [1])" by (simp add: le_val_append)
    show ?thesis using poly1305_block_val [OF "1.prems" m, of 0] "1.prems" 3 unfolding u l by (simp add: poly1305_acc_short)
  qed (use 1 in \<open>simp add: poly1305_update.simps\<close>)
qed

section \<open>The key\<close>

lemma and_limb: "(n :: nat) AND c = (n mod 2 ^ 26 AND c mod 2 ^ 26) + 2 ^ 26 * (n div 2 ^ 26 AND c div 2 ^ 26)"
proof -
  have "push_bit 26 (drop_bit 26 (n AND c)) + take_bit 26 (n AND c) = n AND c" by (rule bits_ident)
  then show ?thesis unfolding drop_bit_and take_bit_and push_bit_eq_mult by (simp add: drop_bit_eq_div take_bit_eq_mod)
qed

lemma shift_pair_limb:
  assumes "k + j = 32" "k \<le> 26"
  shows "(drop_bit k a OR push_bit j b) AND 0x3ffffff =
    (ucast (drop_bit k (push_bit 32 (ucast b) OR ucast a :: u64) AND 0x3ffffff) :: u32)"
proof -
  have m: "0x3ffffff = (mask 26 :: 'a::len word)" by (simp add: mask_eq_exp_minus_1)
  have "n - j = k + n - 32" if "j \<le> n" for n using assms(1) that by simp
  then show ?thesis unfolding m using assms by (intro bit_word_eqI) (auto simp: bit_simps)
qed

lemma unat_and: "unat (a AND b :: 'a::len word) = unat a AND unat b"
  by (rule unsigned_and_eq)

lemma word_and_le: "unat (a AND b :: 'a::len word) \<le> unat b"
  using word_and_le1 [of a b] by (simp add: word_le_nat_alt)

lemma CRYPTO_poly1305_init_r:
  assumes k: "length key = 32"
  shows "r_ok (CRYPTO_poly1305_init key)" "r_val (CRYPTO_poly1305_init key) = poly1305_r key"
proof -
  let ?st = "CRYPTO_poly1305_init key" and ?n = "le_val (take 16 key)"
  have m: "length (take 16 key) = 16" using k by simp
  have t: "U8TO32_LE (take 16 key) = U8TO32_LE key" "U8TO32_LE (drop 4 (take 16 key)) = U8TO32_LE (drop 4 key)"
    "U8TO32_LE (drop 8 (take 16 key)) = U8TO32_LE (drop 8 key)" "U8TO32_LE (drop 12 (take 16 key)) = U8TO32_LE (drop 12 key)"
    by (simp_all add: U8TO32_LE_def drop_take)
  note L = block_limbs [OF m, unfolded t]
  have a: "x AND c = (x AND 0x3ffffff) AND c" if "0x3ffffff AND c = c" for x c :: u32
    by (simp add: and.assoc that)
  have 0: "ps_r0 ?st = U8TO32_LE key AND 0x3ffffff" by (simp add: CRYPTO_poly1305_init_def Let_def)
  have 1: "ps_r1 ?st = ((drop_bit 26 (U8TO32_LE key) OR push_bit 6 (U8TO32_LE (drop 4 key))) AND 0x3ffffff) AND 0x3ffff03"
    by (simp add: CRYPTO_poly1305_init_def Let_def and.assoc)
  have 2: "ps_r2 ?st = ((drop_bit 20 (U8TO32_LE (drop 4 key)) OR push_bit 12 (U8TO32_LE (drop 8 key))) AND 0x3ffffff) AND 0x3ffc0ff"
    by (simp add: CRYPTO_poly1305_init_def Let_def and.assoc)
  have 3: "ps_r3 ?st = ((drop_bit 14 (U8TO32_LE (drop 8 key)) OR push_bit 18 (U8TO32_LE (drop 12 key))) AND 0x3ffffff) AND 0x3f03fff"
    by (simp add: CRYPTO_poly1305_init_def Let_def and.assoc)
  have 4: "ps_r4 ?st = drop_bit 8 (U8TO32_LE (drop 12 key)) AND 0xfffff" by (simp add: CRYPTO_poly1305_init_def Let_def)
  have r: "unat (ps_r0 ?st) = ?n mod 2 ^ 26" "unat (ps_r1 ?st) = ?n div 2 ^ 26 mod 2 ^ 26 AND 0x3ffff03"
    "unat (ps_r2 ?st) = ?n div 2 ^ 52 mod 2 ^ 26 AND 0x3ffc0ff" "unat (ps_r3 ?st) = ?n div 2 ^ 78 mod 2 ^ 26 AND 0x3f03fff"
    "unat (ps_r4 ?st) = ?n div 2 ^ 104 AND 0xfffff"
    unfolding 0 1 2 3 4 L(1) by (simp_all add: shift_pair_limb unat_and L del: unsigned_and_eq drop_bit_or)
  have b: "unat (ps_r0 ?st) \<le> 67108863" "unat (ps_r1 ?st) \<le> 67108611" "unat (ps_r2 ?st) \<le> 67092735" "unat (ps_r3 ?st) \<le> 66076671"
    "unat (ps_r4 ?st) \<le> 1048575"
    unfolding 0 1 2 3 4 by (rule le_trans [OF word_and_le], simp)+
  have s: "ps_s1 ?st = ps_r1 ?st * 5" "ps_s2 ?st = ps_r2 ?st * 5" "ps_s3 ?st = ps_r3 ?st * 5" "ps_s4 ?st = ps_r4 ?st * 5"
    by (simp_all add: CRYPTO_poly1305_init_def Let_def)
  show "r_ok ?st" unfolding r_ok_def s using b by (simp add: unat_word_ariths)
  have mk: "x mod 67108864 AND 67108863 = x mod (67108864 :: nat)" for x
    using take_bit_eq_mask [of 26 "x mod 67108864"] by (simp add: mask_eq_exp_minus_1 take_bit_eq_mod)
  show "r_val ?st = poly1305_r key"
    unfolding r_val_def r poly1305_r_def limbs_def
    by (simp add: mk and_limb [of _ "0x0ffffffc0ffffffc0ffffffc0fffffff"] and_limb [of _ "0x3ffffff03ffffff03ffffff03"]
        and_limb [of _ "0xffffffc0ffffffc0ff"] and_limb [of _ "0x3ffffff03fff"] flip: div_mult2_eq)
qed

section \<open>Streaming\<close>

text \<open>A block update neither reads nor writes the buffer.\<close>

definition poly1305_core :: "poly1305_st \<Rightarrow> poly1305_st" where
  "poly1305_core st = st\<lparr>ps_buf := [], ps_buf_used := 0\<rparr>"

lemma poly1305_core_set [simp]:
  "poly1305_core (st\<lparr>ps_buf := b\<rparr>) = poly1305_core st" "poly1305_core (st\<lparr>ps_buf_used := u\<rparr>) = poly1305_core st"
  by (simp_all add: poly1305_core_def)

lemma poly1305_mul_add_core: "poly1305_mul (poly1305_add (poly1305_core st) m hi) = poly1305_core (poly1305_mul (poly1305_add st m hi))"
  by (simp add: poly1305_core_def poly1305_mul_def poly1305_add_def Let_def)

lemma poly1305_update_step:
  "16 \<le> length x \<Longrightarrow> poly1305_update st x = poly1305_update (poly1305_mul (poly1305_add st (take 16 x) (push_bit 24 1))) (drop 16 x)"
  by (subst poly1305_update.simps) (simp only: if_True)

lemma poly1305_update_core: "poly1305_core (poly1305_update st x) = poly1305_update (poly1305_core st) x"
proof (induction st x rule: poly1305_update.induct)
  case (1 st x)
  show ?case
  proof (cases "16 \<le> length x")
    case True
    then show ?thesis using 1 by (simp only: poly1305_update_step [OF True] poly1305_mul_add_core)
  next
    case False
    then show ?thesis by (subst (1 2) poly1305_update.simps) (simp add: poly1305_mul_add_core Let_def)
  qed
qed

lemma poly1305_update_append: "16 dvd length x \<Longrightarrow> poly1305_update st (x @ y) = poly1305_update (poly1305_update st x) y"
proof (induction st x rule: poly1305_update.induct)
  case (1 st x)
  show ?case
  proof (cases "x = []")
    case False
    then have n: "16 \<le> length x" using 1(2) by (auto dest: dvd_imp_le)
    then have t: "take 16 (x @ y) = take 16 x" "drop 16 (x @ y) = drop 16 x @ y" "16 dvd length (drop 16 x)" "16 \<le> length (x @ y)"
      using 1(2) by (simp_all add: dvd_diff_nat)
    show ?thesis unfolding poly1305_update_step [OF n] poly1305_update_step [OF t(4)] t(1,2) by (rule 1(1) [OF n t(3)])
  qed (simp add: poly1305_update.simps [of st "[]"])
qed

text \<open>What a state says of the bytes it has been given: the whole blocks are in the accumulator, the rest in the buffer.\<close>

definition poly1305_absorbed :: "bytes \<Rightarrow> bytes \<Rightarrow> poly1305_st \<Rightarrow> bool" where
  "poly1305_absorbed key msg st \<longleftrightarrow>
     r_ok st \<and> h_ok st \<and> r_val st = poly1305_r key \<and> ps_key st = take 16 (drop 16 key) \<and>
     length (ps_buf st) = 16 \<and> ps_buf_used st < 16 \<and>
     (\<exists>pre. 16 dvd length pre \<and> msg = pre @ take (ps_buf_used st) (ps_buf st) \<and>
        poly1305_core st = poly1305_update (poly1305_core (CRYPTO_poly1305_init key)) pre \<and> h_val st mod poly1305_p = poly1305_acc (poly1305_r key) 0 pre)"

lemma poly1305_absorbed_init: "length key = 32 \<Longrightarrow> poly1305_absorbed key [] (CRYPTO_poly1305_init key)"
  using CRYPTO_poly1305_init_r [of key]
  by (auto simp: poly1305_absorbed_def h_ok_def h_val_def limbs_def CRYPTO_poly1305_init_def Let_def poly1305_update.simps [of _ "[]"])

lemma poly1305_absorbed_blocks:
  assumes "poly1305_absorbed key msg st" "ps_buf_used st = 0" "16 dvd length x"
  shows "poly1305_absorbed key (msg @ x) (poly1305_update st x)"
  using assms poly1305_update_val [of st x] by (auto simp: poly1305_absorbed_def poly1305_acc_append poly1305_update_core poly1305_update_append)

lemma poly1305_absorbed_rest:
  assumes "poly1305_absorbed key msg st" "ps_buf_used st = 0" "length x < 16"
  shows "poly1305_absorbed key (msg @ x) (st\<lparr>ps_buf := mem_copy (ps_buf st) 0 x, ps_buf_used := length x\<rparr>)"
  using assms by (auto simp: poly1305_absorbed_def r_ok_def h_ok_def r_val_def h_val_def mem_copy_def)

lemma poly1305_absorbed_more:
  assumes "poly1305_absorbed key msg st" "ps_buf_used st + length x < 16"
  shows "poly1305_absorbed key (msg @ x)
    (st\<lparr>ps_buf := mem_copy (ps_buf st) (ps_buf_used st) x, ps_buf_used := ps_buf_used st + length x\<rparr>)"
  using assms by (auto simp: poly1305_absorbed_def r_ok_def h_ok_def r_val_def h_val_def mem_copy_def)

lemma poly1305_absorbed_fill:
  assumes "poly1305_absorbed key msg st" "ps_buf_used st + length x = 16"
  shows "poly1305_absorbed key (msg @ x)
    ((poly1305_update (st\<lparr>ps_buf := mem_copy (ps_buf st) (ps_buf_used st) x, ps_buf_used := 16\<rparr>)
        (mem_copy (ps_buf st) (ps_buf_used st) x))\<lparr>ps_buf_used := 0\<rparr>)"
proof -
  let ?b = "mem_copy (ps_buf st) (ps_buf_used st) x"
  let ?st = "st\<lparr>ps_buf := ?b, ps_buf_used := 16\<rparr>"
  obtain pre where p: "16 dvd length pre" "msg = pre @ take (ps_buf_used st) (ps_buf st)"
    "h_val st mod poly1305_p = poly1305_acc (poly1305_r key) 0 pre"
    "poly1305_core st = poly1305_update (poly1305_core (CRYPTO_poly1305_init key)) pre"
    using assms(1) by (auto simp: poly1305_absorbed_def)
  have b: "?b = take (ps_buf_used st) (ps_buf st) @ x" "length ?b = 16"
    using assms by (simp_all add: mem_copy_def poly1305_absorbed_def)
  have "r_ok ?st" "h_ok ?st" "r_val ?st = poly1305_r key" "h_val ?st = h_val st"
    using assms(1) by (simp_all add: poly1305_absorbed_def r_ok_def h_ok_def r_val_def h_val_def)
  note u = poly1305_update_val [OF this(1,2), of ?b, unfolded this(3,4) p(3)]
  have "msg @ x = pre @ ?b" using p(2) b(1) by simp
  moreover have "poly1305_acc (poly1305_r key) (poly1305_acc (poly1305_r key) 0 pre) ?b = poly1305_acc (poly1305_r key) 0 (pre @ ?b)"
    using poly1305_acc_append [OF p(1)] by simp
  moreover have "16 dvd length (pre @ ?b)" using p(1) b(2) by simp
  moreover have "poly1305_core (poly1305_update ?st ?b) = poly1305_update (poly1305_core (CRYPTO_poly1305_init key)) (pre @ ?b)"
    using p(1,4) by (simp add: poly1305_update_core poly1305_update_append)
  ultimately show ?thesis
    using assms(1) u b(2) by (auto simp: poly1305_absorbed_def r_ok_def h_ok_def r_val_def h_val_def)
qed

lemma CRYPTO_poly1305_update_absorbs:
  assumes a: "poly1305_absorbed key msg st"
  shows "poly1305_absorbed key (msg @ inp) (CRYPTO_poly1305_update st inp)"
proof -
  have main: "poly1305_absorbed key (m @ x)
      (let (s, x) = (if length x \<ge> 16 then let todo = length x div 16 * 16 in (poly1305_update s (take todo x), drop todo x) else (s, x))
       in if length x \<noteq> 0 then s\<lparr>ps_buf := mem_copy (ps_buf s) 0 x, ps_buf_used := length x\<rparr> else s)"
    if m: "poly1305_absorbed key m s" "ps_buf_used s = 0" for m s x
  proof -
    define n where "n = length x div 16 * 16"
    have "n + length x mod 16 = length x" unfolding n_def by (rule div_mult_mod_eq)
    then have l: "n \<le> length x" "length x - n = length x mod 16" by arith+
    have n: "16 dvd length (take n x)" "length (drop n x) < 16" "length x < 16 \<Longrightarrow> n = 0"
      using l by (simp_all add: min.absorb2) (simp_all add: n_def)
    define s' where "s' = (if length x \<ge> 16 then poly1305_update s (take n x) else s)"
    have s': "poly1305_absorbed key (m @ take n x) s'" "ps_buf_used s' = 0"
      using poly1305_absorbed_blocks [OF m n(1)] m n(3) poly1305_update_val [of s "take n x"]
      by (auto simp: s'_def poly1305_absorbed_def)
    show ?thesis using poly1305_absorbed_rest [OF s' n(2)] s'(1) n(3) by (auto simp: Let_def s'_def n_def)
  qed
  show ?thesis
  proof (cases "ps_buf_used st = 0")
    case True
    then show ?thesis using main [OF a True, of inp] by (simp add: CRYPTO_poly1305_update_def)
  next
    case False
    define todo where "todo = (if 16 - ps_buf_used st > length inp then length inp else 16 - ps_buf_used st)"
    have u: "ps_buf_used st < 16" using a by (simp add: poly1305_absorbed_def)
    show ?thesis
    proof (cases "ps_buf_used st + todo = 16")
      case full: True
      then have l: "ps_buf_used st + length (take todo inp) = 16" using u by (auto simp: todo_def split: if_splits)
      show ?thesis
        using main [OF poly1305_absorbed_fill [OF a l], of "drop todo inp"] False full
        by (simp add: CRYPTO_poly1305_update_def todo_def [symmetric] Let_def)
    next
      case False': False
      then have t: "todo = length inp" "ps_buf_used st + length inp < 16" using u by (auto simp: todo_def split: if_splits)
      show ?thesis
        using poly1305_absorbed_more [OF a t(2)] False False' t
        by (simp add: CRYPTO_poly1305_update_def todo_def [symmetric] Let_def)
    qed
  qed
qed

lemma CRYPTO_poly1305_updates_absorb:
  "poly1305_absorbed key msg st \<Longrightarrow> poly1305_absorbed key (msg @ concat pieces) (foldl CRYPTO_poly1305_update st pieces)"
proof (induction pieces arbitrary: msg st)
  case (Cons p pieces)
  show ?case using Cons.IH [OF CRYPTO_poly1305_update_absorbs [OF Cons.prems]] by simp
qed simp

section \<open>The tag\<close>

text \<open>Two pieces of a number packed into a word, the upper one cut off.\<close>

lemma unat_pack:
  assumes "unat a < 2 ^ k" "k + j = 32"
  shows "unat (a OR push_bit k b :: u32) = unat a + 2 ^ k * (unat b mod 2 ^ j)"
proof -
  have p: "(2 :: nat) ^ 32 = 2 ^ k * 2 ^ j" by (simp only: assms(2) power_add [symmetric])
  have "unat (a OR push_bit k b) = (unat b * 2 ^ k + unat a) mod 2 ^ 32"
    using unat_push_bit_or [OF assms(1), of b] by (simp add: or.commute)
  also have "\<dots> = (2 ^ k * unat b + unat a) mod (2 ^ k * 2 ^ j)" unfolding p by (simp only: mult.commute)
  also have "\<dots> = 2 ^ k * (unat b mod 2 ^ j) + unat a" using assms(1) by (simp add: mod_mult2_eq)
  finally show ?thesis by simp
qed

text \<open>The four words of an accumulator whose limbs do not overlap.\<close>

lemma pack_limbs:
  assumes "unat h0 < 2 ^ 26" "unat h1 < 2 ^ 26" "unat h2 < 2 ^ 26" "unat h3 < 2 ^ 26"
  shows "limbs (unat h0) (unat h1) (unat h2) (unat h3) (unat h4) =
    unat (h0 OR push_bit 26 h1 :: u32) + 2 ^ 32 * (unat (drop_bit 6 h1 OR push_bit 20 h2 :: u32) +
      2 ^ 32 * (unat (drop_bit 12 h2 OR push_bit 14 h3 :: u32) + 2 ^ 32 * unat (drop_bit 18 h3 OR push_bit 8 h4 :: u32))) +
    2 ^ 128 * (unat h4 div 2 ^ 24)"
proof -
  have d: "unat (drop_bit k h) < 2 ^ (26 - k)" if "unat h < 2 ^ 26" "k \<le> 26" for k and h :: u32
    unfolding unat_drop_bit by (rule less_mult_imp_div_less) (use that in \<open>simp flip: power_add\<close>)
  have w: "unat (h0 OR push_bit 26 h1) = unat h0 + 2 ^ 26 * (unat h1 mod 2 ^ 6)"
    "unat (drop_bit 6 h1 OR push_bit 20 h2) = unat h1 div 2 ^ 6 + 2 ^ 20 * (unat h2 mod 2 ^ 12)"
    "unat (drop_bit 12 h2 OR push_bit 14 h3) = unat h2 div 2 ^ 12 + 2 ^ 14 * (unat h3 mod 2 ^ 18)"
    "unat (drop_bit 18 h3 OR push_bit 8 h4) = unat h3 div 2 ^ 18 + 2 ^ 8 * (unat h4 mod 2 ^ 24)"
    using unat_pack [of h0 26 6 h1] unat_pack [of "drop_bit 6 h1" 20 12 h2] unat_pack [of "drop_bit 12 h2" 14 18 h3]
      unat_pack [of "drop_bit 18 h3" 8 24 h4] d [of h1 6] d [of h2 12] d [of h3 18] assms(1-4)
    by (simp_all only: unat_drop_bit) simp_all
  obtain a1 b1 a2 b2 a3 b3 a4 b4 where ab: "unat h1 div 2 ^ 6 = a1" "unat h1 mod 2 ^ 6 = b1" "unat h2 div 2 ^ 12 = a2" "unat h2 mod 2 ^ 12 = b2"
    "unat h3 div 2 ^ 18 = a3" "unat h3 mod 2 ^ 18 = b3" "unat h4 div 2 ^ 24 = a4" "unat h4 mod 2 ^ 24 = b4" by blast
  have s: "unat h1 = b1 + 2 ^ 6 * a1" "unat h2 = b2 + 2 ^ 12 * a2" "unat h3 = b3 + 2 ^ 18 * a3" "unat h4 = b4 + 2 ^ 24 * a4"
    unfolding ab [symmetric] by simp_all
  show ?thesis unfolding w ab unfolding s by (simp add: limbs_def algebra_simps)
qed

text \<open>The addition of the second half of the key, with a carry through four words.\<close>

definition poly1305_tag :: "u32 \<Rightarrow> u32 \<Rightarrow> u32 \<Rightarrow> u32 \<Rightarrow> bytes \<Rightarrow> bytes" where
  "poly1305_tag w0 w1 w2 w3 k =
     (let f0 = (ucast w0 :: u64) + ucast (U8TO32_LE k); f1 = (ucast w1 :: u64) + ucast (U8TO32_LE (drop 4 k));
          f2 = (ucast w2 :: u64) + ucast (U8TO32_LE (drop 8 k)); f3 = (ucast w3 :: u64) + ucast (U8TO32_LE (drop 12 k));
          f1 = f1 + drop_bit 32 f0; f2 = f2 + drop_bit 32 f1; f3 = f3 + drop_bit 32 f2
      in U32TO8_LE (ucast f0) @ U32TO8_LE (ucast f1) @ U32TO8_LE (ucast f2) @ U32TO8_LE (ucast f3))"

lemma poly1305_tag_val:
  assumes k: "length k = 16"
  shows "poly1305_tag w0 w1 w2 w3 k =
    le_bytes 16 (unat w0 + 2 ^ 32 * (unat w1 + 2 ^ 32 * (unat w2 + 2 ^ 32 * unat w3)) + le_val k)"
proof -
  let ?K = "\<lambda>i. unat (U8TO32_LE (drop i k))"
  have B: "unat (w :: u32) < 2 ^ 32" for w using unat_u32_less [of w] by simp
  define F0 where "F0 = unat w0 + ?K 0"
  define F1 where "F1 = unat w1 + ?K 4 + F0 div 2 ^ 32"
  define F2 where "F2 = unat w2 + ?K 8 + F1 div 2 ^ 32"
  define F3 where "F3 = unat w3 + ?K 12 + F2 div 2 ^ 32"
  have st: "unat (ucast w + ucast v + drop_bit 32 f :: u64) = unat w + unat v + unat f div 2 ^ 32" if "unat f < 2 ^ 34" for w v :: u32 and f :: u64
  proof -
    have "unat f div 2 ^ 32 < 2 ^ 2" by (rule less_mult_imp_div_less) (use that in simp)
    then show ?thesis using B [of w] B [of v] by (subst unat_add_small; subst unat_add_small) (simp_all add: unat_ucast_up unat_drop_bit)
  qed
  have st0: "unat (ucast w + ucast v :: u64) = unat w + unat v" for w v :: u32
    using B [of w] B [of v] by (subst unat_add_small) (simp_all add: unat_ucast_up)
  have q: "n div 2 ^ 32 < 4" if "n < 2 ^ 34" for n :: nat by (rule less_mult_imp_div_less) (use that in simp)
  have b0: "F0 < 2 ^ 34" using B [of w0] B [of "U8TO32_LE (drop 0 k)"] by (simp add: F0_def)
  have b1: "F1 < 2 ^ 34" using B [of w1] B [of "U8TO32_LE (drop 4 k)"] q [OF b0] by (simp add: F1_def)
  have b2: "F2 < 2 ^ 34" using B [of w2] B [of "U8TO32_LE (drop 8 k)"] q [OF b1] by (simp add: F2_def)
  define f0 where "f0 = (ucast w0 :: u64) + ucast (U8TO32_LE k)"
  define f1 where "f1 = (ucast w1 :: u64) + ucast (U8TO32_LE (drop 4 k)) + drop_bit 32 f0"
  define f2 where "f2 = (ucast w2 :: u64) + ucast (U8TO32_LE (drop 8 k)) + drop_bit 32 f1"
  define f3 where "f3 = (ucast w3 :: u64) + ucast (U8TO32_LE (drop 12 k)) + drop_bit 32 f2"
  have u0: "unat f0 = F0" by (simp add: f0_def F0_def st0)
  have u1: "unat f1 = F1" using b0 unfolding f1_def F1_def by (subst st) (simp_all add: u0)
  have u2: "unat f2 = F2" using b1 unfolding f2_def F2_def by (subst st) (simp_all add: u1)
  have u3: "unat f3 = F3" using b2 unfolding f3_def F3_def by (subst st) (simp_all add: u2)
  have v: "le_val (U32TO8_LE (ucast f)) = unat f mod 2 ^ 32" for f :: u64
    by (simp add: U32TO8_LE_def le_val_le_bytes unat_ucast_down)
  have "le_val (poly1305_tag w0 w1 w2 w3 k) = F0 mod 2 ^ 32 + 2 ^ 32 * (F1 mod 2 ^ 32 + 2 ^ 32 * (F2 mod 2 ^ 32 + 2 ^ 32 * (F3 mod 2 ^ 32)))"
    unfolding poly1305_tag_def Let_def f0_def [symmetric] f1_def [symmetric] f2_def [symmetric] f3_def [symmetric]
    by (simp add: le_val_append v u0 u1 u2 u3 U32TO8_LE_def [THEN arg_cong [where f = length]])
  also have "\<dots> = (unat w0 + 2 ^ 32 * (unat w1 + 2 ^ 32 * (unat w2 + 2 ^ 32 * unat w3)) + le_val k) mod 2 ^ 128"
  proof -
    let ?r = "F0 mod 2 ^ 32 + 2 ^ 32 * (F1 mod 2 ^ 32 + 2 ^ 32 * (F2 mod 2 ^ 32 + 2 ^ 32 * (F3 mod 2 ^ 32)))"
    obtain q0 q1 q2 q3 r0 r1 r2 r3 where qr: "F0 div 2 ^ 32 = q0" "F1 div 2 ^ 32 = q1" "F2 div 2 ^ 32 = q2" "F3 div 2 ^ 32 = q3"
      "F0 mod 2 ^ 32 = r0" "F1 mod 2 ^ 32 = r1" "F2 mod 2 ^ 32 = r2" "F3 mod 2 ^ 32 = r3" by blast
    have d: "unat w0 + ?K 0 = r0 + 2 ^ 32 * q0" "unat w1 + ?K 4 + q0 = r1 + 2 ^ 32 * q1" "unat w2 + ?K 8 + q1 = r2 + 2 ^ 32 * q2"
      "unat w3 + ?K 12 + q2 = r3 + 2 ^ 32 * q3"
      using F0_def F1_def F2_def F3_def unfolding qr [symmetric] by simp_all
    have "?r < 2 ^ 128"
      using mod_less_divisor [of "2 ^ 32" F0] mod_less_divisor [of "2 ^ 32" F1] mod_less_divisor [of "2 ^ 32" F2] mod_less_divisor [of "2 ^ 32" F3]
      unfolding qr by simp
    moreover have "unat w0 + 2 ^ 32 * (unat w1 + 2 ^ 32 * (unat w2 + 2 ^ 32 * unat w3)) + le_val k = ?r + 2 ^ 128 * q3"
      unfolding le_val_16 [OF k] qr using d by simp
    ultimately show ?thesis by simp
  qed
  finally have "le_val (poly1305_tag w0 w1 w2 w3 k) = le_val (le_bytes 16 (unat w0 + 2 ^ 32 * (unat w1 + 2 ^ 32 * (unat w2 + 2 ^ 32 * unat w3)) + le_val k))"
    by (simp add: le_val_le_bytes)
  then show ?thesis by (rule le_val_inject [rotated]) (simp add: poly1305_tag_def U32TO8_LE_def Let_def)
qed

text \<open>The two steps of \<open>CRYPTO_poly1305_finish\<close> before the addition: one pass of carries, from the first limb back to the
  first, and the choice between the accumulator and the accumulator minus \<open>2 ^ 130 - 5\<close>.\<close>

definition finish_carry :: "poly1305_st \<Rightarrow> u32 \<times> u32 \<times> u32 \<times> u32 \<times> u32" where
  "finish_carry st =
     (let a1 = ps_h1 st + drop_bit 26 (ps_h0 st); a2 = ps_h2 st + drop_bit 26 a1; a3 = ps_h3 st + drop_bit 26 a2;
          a4 = ps_h4 st + drop_bit 26 a3
      in ((ps_h0 st AND 0x3ffffff) + drop_bit 26 a4 * 5, a1 AND 0x3ffffff, a2 AND 0x3ffffff, a3 AND 0x3ffffff, a4 AND 0x3ffffff))"

definition finish_select :: "u32 \<times> u32 \<times> u32 \<times> u32 \<times> u32 \<Rightarrow> u32 \<times> u32 \<times> u32 \<times> u32 \<times> u32" where
  "finish_select = (\<lambda>(h0, h1, h2, h3, h4).
     (let g0 = h0 + 5; g1 = h1 + drop_bit 26 g0; g2 = h2 + drop_bit 26 g1; g3 = h3 + drop_bit 26 g2;
          g4 = h4 + drop_bit 26 g3 - push_bit 26 1; b = drop_bit 31 g4 - 1; nb = NOT b
      in ((h0 AND nb) OR ((g0 AND 0x3ffffff) AND b), (h1 AND nb) OR ((g1 AND 0x3ffffff) AND b), (h2 AND nb) OR ((g2 AND 0x3ffffff) AND b),
          (h3 AND nb) OR ((g3 AND 0x3ffffff) AND b), (h4 AND nb) OR (g4 AND b))))"

lemma CRYPTO_poly1305_finish_eq:
  "CRYPTO_poly1305_finish st =
     (let st = (if ps_buf_used st \<noteq> 0 then poly1305_update st (take (ps_buf_used st) (ps_buf st)) else st)
      in case finish_select (finish_carry st) of (h0, h1, h2, h3, h4) \<Rightarrow>
        poly1305_tag (h0 OR push_bit 26 h1) (drop_bit 6 h1 OR push_bit 20 h2) (drop_bit 12 h2 OR push_bit 14 h3)
          (drop_bit 18 h3 OR push_bit 8 h4) (ps_key st))"
  unfolding CRYPTO_poly1305_finish_def finish_carry_def finish_select_def poly1305_tag_def Let_def prod.case ..

lemma CRYPTO_poly1305_finish_core:
  "CRYPTO_poly1305_finish st = CRYPTO_poly1305_finish (poly1305_update (poly1305_core st) (take (ps_buf_used st) (ps_buf st)))"
proof -
  have c: "ps_buf_used (poly1305_core s) = 0" "finish_carry (poly1305_core s) = finish_carry s" "ps_key (poly1305_core s) = ps_key s" for s
    by (simp_all add: poly1305_core_def finish_carry_def)
  show ?thesis
    unfolding poly1305_update_core [symmetric] CRYPTO_poly1305_finish_eq c Let_def by (simp add: c poly1305_update.simps [of st "[]"])
qed

text \<open>How a message is cut into pieces does not matter.\<close>

lemma poly1305_pieces:
  assumes "length key = 32" "concat xs = concat ys"
  shows "CRYPTO_poly1305_finish (foldl CRYPTO_poly1305_update (CRYPTO_poly1305_init key) xs) =
    CRYPTO_poly1305_finish (foldl CRYPTO_poly1305_update (CRYPTO_poly1305_init key) ys)"
proof -
  have *: "CRYPTO_poly1305_finish (foldl CRYPTO_poly1305_update (CRYPTO_poly1305_init key) zs) =
      CRYPTO_poly1305_finish (poly1305_update (poly1305_core (CRYPTO_poly1305_init key)) (concat zs))" for zs
  proof -
    let ?st = "foldl CRYPTO_poly1305_update (CRYPTO_poly1305_init key) zs"
    obtain pre where "16 dvd length pre" "concat zs = pre @ take (ps_buf_used ?st) (ps_buf ?st)"
      "poly1305_core ?st = poly1305_update (poly1305_core (CRYPTO_poly1305_init key)) pre"
      using CRYPTO_poly1305_updates_absorb [OF poly1305_absorbed_init [OF assms(1)], of zs] by (auto simp: poly1305_absorbed_def)
    then show ?thesis using CRYPTO_poly1305_finish_core [of ?st] by (simp add: poly1305_update_append)
  qed
  show ?thesis unfolding * assms(2) ..
qed

lemma length_CRYPTO_poly1305_finish [simp]: "length (CRYPTO_poly1305_finish st) = 16"
proof -
  have "length (poly1305_tag w0 w1 w2 w3 k) = 16" for w0 w1 w2 w3 k by (simp add: poly1305_tag_def Let_def U32TO8_LE_def)
  then show ?thesis unfolding CRYPTO_poly1305_finish_eq Let_def by (simp split: prod.split)
qed

lemma unat_carry32: "unat a < 2 ^ 27 \<Longrightarrow> unat (a + drop_bit 26 b :: u32) = unat a + unat b div 2 ^ 26"
proof -
  assume "unat a < 2 ^ 27"
  moreover have "unat b div 2 ^ 26 < 2 ^ 6" by (rule less_mult_imp_div_less) (use unat_u32_less [of b] in simp)
  ultimately show ?thesis by (subst unat_add_small) (simp_all add: unat_drop_bit)
qed

lemma finish_carry_val:
  assumes h: "h_ok st" and c: "finish_carry st = (k0, k1, k2, k3, k4)"
  shows "unat k1 < 2 ^ 26 \<and> unat k2 < 2 ^ 26 \<and> unat k3 < 2 ^ 26 \<and> unat k4 < 2 ^ 26"
    "limbs (unat k0) (unat k1) (unat k2) (unat k3) (unat k4) mod poly1305_p = h_val st mod poly1305_p"
    "unat k0 < 2 ^ 26 \<or> unat k0 < 2 ^ 26 + 5 \<and> unat k1 \<le> 40 \<and> k2 = 0 \<and> k3 = 0 \<and> k4 = 0"
proof -
  define a1 where "a1 = ps_h1 st + drop_bit 26 (ps_h0 st)"
  define a2 where "a2 = ps_h2 st + drop_bit 26 a1"
  define a3 where "a3 = ps_h3 st + drop_bit 26 a2"
  define a4 where "a4 = ps_h4 st + drop_bit 26 a3"
  have k: "k0 = (ps_h0 st AND 0x3ffffff) + drop_bit 26 a4 * 5" "k1 = a1 AND 0x3ffffff" "k2 = a2 AND 0x3ffffff" "k3 = a3 AND 0x3ffffff" "k4 = a4 AND 0x3ffffff"
    using c unfolding finish_carry_def Let_def a1_def [symmetric] a2_def [symmetric] a3_def [symmetric] a4_def [symmetric] by simp_all
  have u1: "unat a1 = unat (ps_h1 st) + unat (ps_h0 st) div 2 ^ 26" unfolding a1_def using h by (intro unat_carry32) (simp add: h_ok_def)
  have u2: "unat a2 = unat (ps_h2 st) + unat a1 div 2 ^ 26" unfolding a2_def using h by (intro unat_carry32) (simp add: h_ok_def)
  have u3: "unat a3 = unat (ps_h3 st) + unat a2 div 2 ^ 26" unfolding a3_def using h by (intro unat_carry32) (simp add: h_ok_def)
  have u4: "unat a4 = unat (ps_h4 st) + unat a3 div 2 ^ 26" unfolding a4_def using h by (intro unat_carry32) (simp add: h_ok_def)
  define q where "q = unat a4 div 2 ^ 26"
  have q6: "q < 2 ^ 6" unfolding q_def by (rule less_mult_imp_div_less) (use unat_u32_less [of a4] in simp)
  have l: "n mod 2 ^ 26 < 2 ^ 26" for n :: nat by simp
  have q5: "unat (drop_bit 26 a4 * 5) = 5 * q" using q6 by (simp add: unat_word_ariths unat_drop_bit q_def)
  have n0: "unat k0 = unat (ps_h0 st) mod 2 ^ 26 + 5 * q"
    unfolding k(1) using q6 q5 by (subst unat_add_limb [OF q5]) (simp_all add: unat_mask26 l less_imp_le)
  have n: "unat k1 = unat a1 mod 2 ^ 26" "unat k2 = unat a2 mod 2 ^ 26" "unat k3 = unat a3 mod 2 ^ 26" "unat k4 = unat a4 mod 2 ^ 26"
    unfolding k by (rule unat_mask26)+
  have v: "h_val st = limbs (unat k0) (unat k1) (unat k2) (unat k3) (unat k4) + poly1305_p * q"
    using carry_columns [of "unat (ps_h0 st)" "unat (ps_h1 st)" "unat (ps_h2 st)" "unat (ps_h3 st)" "unat (ps_h4 st)"]
    unfolding u1 [symmetric] u2 [symmetric] u3 [symmetric] u4 [symmetric] n0 n q_def [symmetric] h_val_def .
  show "limbs (unat k0) (unat k1) (unat k2) (unat k3) (unat k4) mod poly1305_p = h_val st mod poly1305_p" unfolding v by simp
  show ks: "unat k1 < 2 ^ 26 \<and> unat k2 < 2 ^ 26 \<and> unat k3 < 2 ^ 26 \<and> unat k4 < 2 ^ 26" unfolding n by simp
  obtain r0 where r0: "unat (ps_h0 st) mod 2 ^ 26 = r0" "r0 < 2 ^ 26" by simp
  have hb: "h_val st \<le> 2 ^ 130 + 2732891136" using h unfolding h_val_def h_ok_def limbs_def by simp
  have hv: "h_val st = limbs r0 (unat k1) (unat k2) (unat k3) (unat k4) + 2 ^ 130 * q"
    unfolding v n0 r0 by (simp add: limbs_def poly1305_p_def)
  consider "q = 0" | "q = 1" | "2 \<le> q" by linarith
  then show "unat k0 < 2 ^ 26 \<or> unat k0 < 2 ^ 26 + 5 \<and> unat k1 \<le> 40 \<and> k2 = 0 \<and> k3 = 0 \<and> k4 = 0"
  proof cases
    case 2
    then have "limbs r0 (unat k1) (unat k2) (unat k3) (unat k4) \<le> 2732891136" using hb hv by simp
    then have "unat k1 \<le> 40 \<and> unat k2 = 0 \<and> unat k3 = 0 \<and> unat k4 = 0" unfolding limbs_def by auto
    then show ?thesis using n0 r0 2 by (simp add: unat_eq_0)
  next
    case 3
    then show ?thesis using hb hv by simp
  qed (use n0 r0 in simp)
qed

lemma finish_select_val:
  assumes k: "unat k0 < 2 ^ 26 + 5" "unat k1 < 2 ^ 26" "unat k2 < 2 ^ 26" "unat k3 < 2 ^ 26" "unat k4 < 2 ^ 26"
    and s: "finish_select (k0, k1, k2, k3, k4) = (s0, s1, s2, s3, s4)"
  defines "v \<equiv> limbs (unat k0) (unat k1) (unat k2) (unat k3) (unat k4)"
  shows "v < poly1305_p \<Longrightarrow> s0 = k0 \<and> s1 = k1 \<and> s2 = k2 \<and> s3 = k3 \<and> s4 = k4"
    "poly1305_p \<le> v \<Longrightarrow> limbs (unat s0) (unat s1) (unat s2) (unat s3) (unat s4) + poly1305_p = v \<and>
      unat s0 < 2 ^ 26 \<and> unat s1 < 2 ^ 26 \<and> unat s2 < 2 ^ 26 \<and> unat s3 < 2 ^ 26"
proof -
  define g0 where "g0 = k0 + 5"
  define g1 where "g1 = k1 + drop_bit 26 g0"
  define g2 where "g2 = k2 + drop_bit 26 g1"
  define g3 where "g3 = k3 + drop_bit 26 g2"
  define e4 where "e4 = k4 + drop_bit 26 g3"
  have u0: "unat g0 = unat k0 + 5" unfolding g0_def using k by (subst unat_add_small) simp_all
  have u1: "unat g1 = unat k1 + unat g0 div 2 ^ 26" unfolding g1_def using k by (intro unat_carry32) simp
  have u2: "unat g2 = unat k2 + unat g1 div 2 ^ 26" unfolding g2_def using k by (intro unat_carry32) simp
  have u3: "unat g3 = unat k3 + unat g2 div 2 ^ 26" unfolding g3_def using k by (intro unat_carry32) simp
  have u4: "unat e4 = unat k4 + unat g3 div 2 ^ 26" unfolding e4_def using k by (intro unat_carry32) simp
  have c: "n < 2 * 2 ^ 26 \<Longrightarrow> n div 2 ^ 26 \<le> 1" for n :: nat using less_mult_imp_div_less [of n 2 "2 ^ 26"] by simp
  have e4: "unat e4 \<le> 2 ^ 26"
  proof -
    have "unat g0 div 2 ^ 26 \<le> 1" by (rule c) (use k u0 in simp)
    then have "unat g1 div 2 ^ 26 \<le> 1" by (intro c) (use k u1 in simp)
    then have "unat g2 div 2 ^ 26 \<le> 1" by (intro c) (use k u2 in simp)
    then have "unat g3 div 2 ^ 26 \<le> 1" by (intro c) (use k u3 in simp)
    then show ?thesis using k u4 by simp
  qed
  have g: "v + 5 = limbs (unat g0 mod 2 ^ 26) (unat g1 mod 2 ^ 26) (unat g2 mod 2 ^ 26) (unat g3 mod 2 ^ 26) (unat e4)"
  proof -
    have "v + 5 = limbs (unat g0) (unat k1) (unat k2) (unat k3) (unat k4)" by (simp add: v_def u0 limbs_def)
    also have "\<dots> = limbs (unat g0 mod 2 ^ 26) (unat g1) (unat k2) (unat k3) (unat k4)" by (simp add: u1 limbs_def)
    also have "\<dots> = limbs (unat g0 mod 2 ^ 26) (unat g1 mod 2 ^ 26) (unat g2) (unat k3) (unat k4)" by (simp add: u2 limbs_def)
    also have "\<dots> = limbs (unat g0 mod 2 ^ 26) (unat g1 mod 2 ^ 26) (unat g2 mod 2 ^ 26) (unat g3) (unat k4)" by (simp add: u3 limbs_def)
    also have "\<dots> = limbs (unat g0 mod 2 ^ 26) (unat g1 mod 2 ^ 26) (unat g2 mod 2 ^ 26) (unat g3 mod 2 ^ 26) (unat e4)" by (simp add: u4 limbs_def)
    finally show ?thesis .
  qed
  obtain d0 d1 d2 d3 where d: "unat g0 mod 2 ^ 26 = d0" "unat g1 mod 2 ^ 26 = d1" "unat g2 mod 2 ^ 26 = d2" "unat g3 mod 2 ^ 26 = d3"
    "d0 < 2 ^ 26" "d1 < 2 ^ 26" "d2 < 2 ^ 26" "d3 < 2 ^ 26" by simp
  define b where "b = drop_bit 31 (e4 - push_bit 26 1) - 1"
  have S: "s0 = (k0 AND NOT b) OR ((g0 AND 0x3ffffff) AND b)" "s1 = (k1 AND NOT b) OR ((g1 AND 0x3ffffff) AND b)"
    "s2 = (k2 AND NOT b) OR ((g2 AND 0x3ffffff) AND b)" "s3 = (k3 AND NOT b) OR ((g3 AND 0x3ffffff) AND b)"
    "s4 = (k4 AND NOT b) OR ((e4 - push_bit 26 1) AND b)"
    using s unfolding finish_select_def prod.case Let_def g0_def [symmetric] g1_def [symmetric] g2_def [symmetric] g3_def [symmetric]
      e4_def [symmetric] b_def [symmetric] by simp_all
  show "s0 = k0 \<and> s1 = k1 \<and> s2 = k2 \<and> s3 = k3 \<and> s4 = k4" if "v < poly1305_p"
  proof -
    have "unat e4 < 2 ^ 26" using that g unfolding limbs_def poly1305_p_def d by simp
    then have "unat (e4 - push_bit 26 1) = 2 ^ 32 + unat e4 - 2 ^ 26" by (subst unat_sub_if') (simp add: word_le_nat_alt)
    then have "unat (drop_bit 31 (e4 - push_bit 26 1)) = 1"
      using \<open>unat e4 < 2 ^ 26\<close> unfolding unat_drop_bit by (simp add: div_nat_eqI)
    then have "drop_bit 31 (e4 - push_bit 26 1) = 1" unfolding word_unat_eq_iff by simp
    then have "b = 0" by (simp add: b_def)
    then show ?thesis unfolding S by simp
  qed
  show "limbs (unat s0) (unat s1) (unat s2) (unat s3) (unat s4) + poly1305_p = v \<and>
      unat s0 < 2 ^ 26 \<and> unat s1 < 2 ^ 26 \<and> unat s2 < 2 ^ 26 \<and> unat s3 < 2 ^ 26" if "poly1305_p \<le> v"
  proof -
    have e: "unat e4 = 2 ^ 26" using that g d(5-8) e4 unfolding limbs_def poly1305_p_def d by simp
    then have "e4 = push_bit 26 1" unfolding word_unat_eq_iff by simp
    then have "e4 - push_bit 26 1 = 0" by simp
    then have b: "b = - 1" by (simp add: b_def)
    have "s0 = g0 AND 0x3ffffff" "s1 = g1 AND 0x3ffffff" "s2 = g2 AND 0x3ffffff" "s3 = g3 AND 0x3ffffff" "s4 = 0"
      unfolding S b \<open>e4 - push_bit 26 1 = 0\<close> by simp_all
    then have "unat s0 = d0" "unat s1 = d1" "unat s2 = d2" "unat s3 = d3" "unat s4 = 0" unfolding d(1-4) [symmetric]
      by (simp_all only: unat_mask26 unsigned_0)
    then show ?thesis using g d(5-8) unfolding d e by (simp add: limbs_def poly1305_p_def)
  qed
qed

lemma le_bytes_cong: "v mod 256 ^ n = w mod 256 ^ n \<Longrightarrow> le_bytes n v = le_bytes n w"
  by (rule le_val_inject) (simp_all add: le_val_le_bytes)

lemma poly1305_tag_of_limbs:
  assumes s: "unat s0 < 2 ^ 26" "unat s1 < 2 ^ 26" "unat s2 < 2 ^ 26" "unat s3 < 2 ^ 26" and k: "length k = 16"
  shows "poly1305_tag (s0 OR push_bit 26 s1) (drop_bit 6 s1 OR push_bit 20 s2) (drop_bit 12 s2 OR push_bit 14 s3)
      (drop_bit 18 s3 OR push_bit 8 s4) k = le_bytes 16 (limbs (unat s0) (unat s1) (unat s2) (unat s3) (unat s4) + le_val k)"
proof -
  have "(w + n) mod 256 ^ 16 = (w + 2 ^ 128 * q + n) mod 256 ^ 16" for w q n :: nat
  proof -
    have "w + 2 ^ 128 * q + n = w + n + 256 ^ 16 * q" by simp
    then show ?thesis by (simp only: mod_mult_self2)
  qed
  then show ?thesis unfolding poly1305_tag_val [OF k] pack_limbs [OF s, of s4] by (rule le_bytes_cong)
qed

text \<open>When the carry out of the last limb makes the first one longer than 26 bits, the two halves of the first word still do not
  overlap if the second limb is even.\<close>

lemma poly1305_tag_long_limb:
  assumes s: "unat s0 < 2 ^ 27" "even (unat s1)" "unat s1 \<le> 40" and k: "length k = 16"
  shows "poly1305_tag (s0 OR push_bit 26 s1) (drop_bit 6 s1 OR push_bit 20 0) (drop_bit 12 0 OR push_bit 14 0)
      (drop_bit 18 0 OR push_bit 8 0) k = le_bytes 16 (limbs (unat s0) (unat s1) 0 0 0 + le_val k)"
proof -
  have "push_bit 26 s1 = push_bit 27 (drop_bit 1 s1)"
    unfolding word_unat_eq_iff using s(2,3) by (auto simp: push_bit_eq_mult unat_word_ariths unat_drop_bit elim!: evenE)
  then have "unat (s0 OR push_bit 26 s1) = unat s0 + 2 ^ 26 * unat s1"
    using unat_pack [of s0 27 5 "drop_bit 1 s1"] s by (auto simp: unat_drop_bit elim!: evenE)
  moreover have "drop_bit 6 s1 = 0" unfolding word_unat_eq_iff unat_drop_bit using s(3) by simp
  ultimately show ?thesis unfolding poly1305_tag_val [OF k] by (simp add: limbs_def)
qed

text \<open>The accumulators for which the carry into the second limb may be lost.\<close>

definition poly1305_exceptional :: "nat \<Rightarrow> bool" where
  "poly1305_exceptional a \<longleftrightarrow> a mod 2 ^ 26 < 5 \<and> even (a div 2 ^ 26) \<and> 2 \<le> a div 2 ^ 26 \<and> a div 2 ^ 26 \<le> 40"

lemma poly1305_tag_finish:
  assumes h: "h_ok st" and a: "h_val st mod poly1305_p = a" and x: "\<not> poly1305_exceptional a" and k: "length k = 16"
  shows "(case finish_select (finish_carry st) of (h0, h1, h2, h3, h4) \<Rightarrow>
      poly1305_tag (h0 OR push_bit 26 h1) (drop_bit 6 h1 OR push_bit 20 h2) (drop_bit 12 h2 OR push_bit 14 h3)
        (drop_bit 18 h3 OR push_bit 8 h4) k) = le_bytes 16 (a + le_val k)"
proof -
  obtain k0 k1 k2 k3 k4 where c: "finish_carry st = (k0, k1, k2, k3, k4)" by (metis prod_cases5)
  obtain s0 s1 s2 s3 s4 where s: "finish_select (k0, k1, k2, k3, k4) = (s0, s1, s2, s3, s4)" by (metis prod_cases5)
  define v where "v = limbs (unat k0) (unat k1) (unat k2) (unat k3) (unat k4)"
  note C = finish_carry_val [OF h c, folded v_def]
  have k0: "unat k0 < 2 ^ 26 + 5" using C(3) by auto
  note S = finish_select_val [OF k0 _ _ _ _ s, folded v_def]
  have a: "v mod poly1305_p = a" using C(2) a by simp
  show ?thesis
  proof (cases "unat k0 < 2 ^ 26")
    case True
    have "v < 2 ^ 130" using C(1) True unfolding v_def limbs_def by simp
    then have "limbs (unat s0) (unat s1) (unat s2) (unat s3) (unat s4) = a \<and> unat s0 < 2 ^ 26 \<and> unat s1 < 2 ^ 26 \<and> unat s2 < 2 ^ 26 \<and> unat s3 < 2 ^ 26"
      using S C(1) a True by (cases "v < poly1305_p") (auto simp: v_def mod_if poly1305_p_def)
    then show ?thesis using k by (simp add: c s poly1305_tag_of_limbs)
  next
    case False
    then have l: "unat k1 \<le> 40" "k2 = 0" "k3 = 0" "k4 = 0" using C(3) by auto
    then have v: "v = unat k0 - 2 ^ 26 + 2 ^ 26 * (unat k1 + 1)" using False by (simp add: v_def limbs_def)
    then have "v < poly1305_p" using k0 l(1) by (simp add: poly1305_p_def)
    then have av: "a = v" and ss: "s0 = k0" "s1 = k1" "s2 = 0" "s3 = 0" "s4 = 0" using S(1) C(1) a l by auto
    obtain e where "unat k0 - 2 ^ 26 = e" "e < 5" using k0 by simp
    then have m: "v mod 2 ^ 26 < 5" "v div 2 ^ 26 = unat k1 + 1" unfolding v by (simp_all only: mod_mult_self2 div_mult_self2) simp_all
    have "even (unat k1)"
    proof (rule ccontr)
      assume "odd (unat k1)"
      moreover from this have "unat k1 + 1 \<le> 40" "2 \<le> unat k1 + 1" using l(1) by (auto simp: le_less elim: oddE)
      ultimately show False using x m unfolding av poly1305_exceptional_def by simp
    qed
    then show ?thesis using poly1305_tag_long_limb [of k0 k1 k] k0 l(1) k by (simp add: c s [unfolded l(2-4)] ss av v_def l(2-4))
  qed
qed

lemma poly1305_streams:
  assumes "length key = 32" "\<not> poly1305_exceptional (poly1305_acc (poly1305_r key) 0 (concat pieces))"
  shows "CRYPTO_poly1305_finish (foldl CRYPTO_poly1305_update (CRYPTO_poly1305_init key) pieces) = poly1305_mac key (concat pieces)"
proof -
  define st where "st = foldl CRYPTO_poly1305_update (CRYPTO_poly1305_init key) pieces"
  define st' where "st' = (if ps_buf_used st \<noteq> 0 then poly1305_update st (take (ps_buf_used st) (ps_buf st)) else st)"
  have ab: "poly1305_absorbed key (concat pieces) st"
    using CRYPTO_poly1305_updates_absorb [OF poly1305_absorbed_init [OF assms(1)], of pieces] by (simp add: st_def)
  then obtain pre where p: "16 dvd length pre" "concat pieces = pre @ take (ps_buf_used st) (ps_buf st)"
    "h_val st mod poly1305_p = poly1305_acc (poly1305_r key) 0 pre" and i: "r_ok st" "h_ok st" "r_val st = poly1305_r key" "ps_key st = take 16 (drop 16 key)"
    by (auto simp: poly1305_absorbed_def)
  have f: "h_ok st'" "ps_key st' = take 16 (drop 16 key)" "h_val st' mod poly1305_p = poly1305_acc (poly1305_r key) 0 (concat pieces)"
    using poly1305_update_val [OF i(1,2), of "take (ps_buf_used st) (ps_buf st)"] i p
    by (auto simp: st'_def poly1305_acc_append)
  show ?thesis
    unfolding CRYPTO_poly1305_finish_eq st_def [symmetric] st'_def [symmetric] Let_def poly1305_mac_def f(2)
    using assms by (intro poly1305_tag_finish f) simp_all
qed

text \<open>C14: Poly1305 computes the tag of RFC 8439, whatever the pieces in which the message is given, if the accumulator at the end is
  not one of a hundred numbers below \<open>41 * 2 ^ 26\<close>.
\<close>

theorem poly1305_is_RFC8439:
  assumes "length key = 32" "\<not> poly1305_exceptional (poly1305_acc (poly1305_r key) 0 (concat pieces))"
  shows "CRYPTO_poly1305_finish (foldl CRYPTO_poly1305_update (CRYPTO_poly1305_init key) pieces) = poly1305_mac key (concat pieces)"
  using assms by (rule poly1305_streams)

section \<open>Concrete tags\<close>

lemma le_bytes_4: "le_bytes 4 v = [word_of_nat v, word_of_nat (v div 256), word_of_nat (v div 65536), word_of_nat (v div 16777216)]"
proof -
  have "4 = Suc (Suc (Suc (Suc 0)))" by simp
  then show ?thesis by (simp only: le_bytes.simps div_mult2_eq [symmetric]) simp
qed

lemma le_bytes_add: "le_bytes (m + n) v = le_bytes m v @ le_bytes n (v div 256 ^ m)"
  by (induction m arbitrary: v) (simp_all add: div_mult2_eq)

lemma le_bytes_16: "le_bytes 16 v = le_bytes 4 v @ le_bytes 4 (v div 2 ^ 32) @ le_bytes 4 (v div 2 ^ 64) @ le_bytes 4 (v div 2 ^ 96)"
  using le_bytes_add [of 4 12 v] le_bytes_add [of 4 8 "v div 2 ^ 32"] le_bytes_add [of 4 4 "v div 2 ^ 64"] by (simp flip: div_mult2_eq)

lemma replicate_16: "replicate 16 x = [x, x, x, x, x, x, x, x, x, x, x, x, x, x, x, x]"
  by (simp add: eval_nat_numeral)

lemma U8TO32_LE_4: "U8TO32_LE (a # b # c # d # m) = word_of_nat (unat a + 256 * (unat b + 256 * (unat c + 256 * unat d)))"
  by (simp add: U8TO32_LE_def)

lemma poly1305_update_block: "length m = 16 \<Longrightarrow> poly1305_update st m = poly1305_mul (poly1305_add st m (push_bit 24 1))"
  by (subst poly1305_update.simps) (simp add: poly1305_update.simps [of _ "[]"])

text \<open>The example of section 2.5.2 of RFC 8439.\<close>

lemma poly1305_mac_RFC8439_example:
  "poly1305_mac
     [0x85, 0xd6, 0xbe, 0x78, 0x57, 0x55, 0x6d, 0x33, 0x7f, 0x44, 0x52, 0xfe, 0x42, 0xd5, 0x06, 0xa8, 0x01, 0x03, 0x80, 0x8a, 0xfb, 0x0d, 0xb2, 0xfd, 0x4a, 0xbf, 0xf6, 0xaf, 0x41, 0x49, 0xf5, 0x1b]
     [0x43, 0x72, 0x79, 0x70, 0x74, 0x6f, 0x67, 0x72, 0x61, 0x70, 0x68, 0x69, 0x63, 0x20, 0x46, 0x6f, 0x72, 0x75, 0x6d, 0x20, 0x52, 0x65, 0x73, 0x65, 0x61, 0x72, 0x63, 0x68, 0x20, 0x47, 0x72, 0x6f, 0x75, 0x70] =
   [0xa8, 0x06, 0x1d, 0xc1, 0x30, 0x51, 0x36, 0xc6, 0xc2, 0x2b, 0x8b, 0xaf, 0x0c, 0x01, 0x27, 0xa9]"
  by (simp add: poly1305_mac_def poly1305_acc.simps poly1305_r_def poly1305_p_def le_bytes_16 le_bytes_4)

lemma poly1305_is_RFC8439_witness:
  "CRYPTO_poly1305_finish (foldl CRYPTO_poly1305_update (CRYPTO_poly1305_init ([0x85, 0xd6, 0xbe, 0x78, 0x57, 0x55, 0x6d, 0x33, 0x7f, 0x44, 0x52, 0xfe, 0x42, 0xd5, 0x06, 0xa8, 0x01, 0x03, 0x80, 0x8a, 0xfb, 0x0d, 0xb2, 0xfd, 0x4a, 0xbf, 0xf6, 0xaf, 0x41, 0x49, 0xf5, 0x1b])) [[1, 2], [], [3]]) =
    poly1305_mac ([0x85, 0xd6, 0xbe, 0x78, 0x57, 0x55, 0x6d, 0x33, 0x7f, 0x44, 0x52, 0xfe, 0x42, 0xd5, 0x06, 0xa8, 0x01, 0x03, 0x80, 0x8a, 0xfb, 0x0d, 0xb2, 0xfd, 0x4a, 0xbf, 0xf6, 0xaf, 0x41, 0x49, 0xf5, 0x1b]) [1, 2, 3]"
  using poly1305_is_RFC8439 [of "[0x85, 0xd6, 0xbe, 0x78, 0x57, 0x55, 0x6d, 0x33, 0x7f, 0x44, 0x52, 0xfe, 0x42, 0xd5, 0x06, 0xa8, 0x01, 0x03, 0x80, 0x8a, 0xfb, 0x0d, 0xb2, 0xfd, 0x4a, 0xbf, 0xf6, 0xaf, 0x41, 0x49, 0xf5, 0x1b]" "[[1, 2], [], [3]]"]
  by (simp add: poly1305_exceptional_def poly1305_acc.simps poly1305_r_def poly1305_p_def)

text \<open>
  The other accumulators do occur, and the tag is then wrong: here the limbs after the carries are \<open>2 ^ 26\<close> and 5, the bit
  26 of the first is lost in \<open>h0 | (h1 << 26)\<close>, and a byte of the tag is 0x14 instead of 0x18.
\<close>

lemma poly1305_wrong_tag:
  "CRYPTO_poly1305_finish (CRYPTO_poly1305_update (CRYPTO_poly1305_init
      ([0xd1, 0x5c, 0xfe, 0x0c, 0x50, 0x3a, 0x9f, 0x05, 0x0c, 0xdc, 0x47, 0x0e, 0xa8, 0x13, 0x6b, 0x0c] @ replicate 16 0))
      [0x1c, 0x2c, 0xaf, 0x66, 0x9f, 0xd6, 0x59, 0xe8, 0x95, 0x5f, 0x80, 0x23, 0x87, 0x2a, 0xca, 0xbe]) =
    [0, 0, 0, 0x14, 0, 0, 0, 0, 0, 0, 0, 0, 0, 0, 0, 0] \<and>
   poly1305_mac ([0xd1, 0x5c, 0xfe, 0x0c, 0x50, 0x3a, 0x9f, 0x05, 0x0c, 0xdc, 0x47, 0x0e, 0xa8, 0x13, 0x6b, 0x0c] @ replicate 16 0)
      [0x1c, 0x2c, 0xaf, 0x66, 0x9f, 0xd6, 0x59, 0xe8, 0x95, 0x5f, 0x80, 0x23, 0x87, 0x2a, 0xca, 0xbe] =
    [0, 0, 0, 0x18, 0, 0, 0, 0, 0, 0, 0, 0, 0, 0, 0, 0]"
proof
  let ?key = "[0xd1, 0x5c, 0xfe, 0x0c, 0x50, 0x3a, 0x9f, 0x05, 0x0c, 0xdc, 0x47, 0x0e, 0xa8, 0x13, 0x6b, 0x0c] @ replicate 16 0" and ?msg = "[0x1c, 0x2c, 0xaf, 0x66, 0x9f, 0xd6, 0x59, 0xe8, 0x95, 0x5f, 0x80, 0x23, 0x87, 0x2a, 0xca, 0xbe]"
  define st where "st = CRYPTO_poly1305_init ?key"
  have st: "st = \<lparr>ps_r0 = 16669905, ps_r1 = 63869955, ps_r2 = 29409369, ps_r3 = 44054815,
        ps_r4 = 813843, ps_s1 = 319349775, ps_s2 = 147046845, ps_s3 = 220274075, ps_s4 = 4069215, ps_h0 = 0, ps_h1 = 0, ps_h2 = 0,
        ps_h3 = 0, ps_h4 = 0, ps_buf = replicate 16 0, ps_buf_used = 0, ps_key = replicate 16 0\<rparr>"
    unfolding st_def by (simp add: CRYPTO_poly1305_init_def U8TO32_LE_4 Let_def)
  have "CRYPTO_poly1305_update st ?msg = poly1305_mul (poly1305_add st ?msg (push_bit 24 1))"
    unfolding st by (simp add: CRYPTO_poly1305_update_def poly1305_update_block)
  then have up: "CRYPTO_poly1305_update st ?msg = st\<lparr>ps_h0 := 469762043, ps_h1 := 67108863, ps_h2 := 67108863, ps_h3 := 67108863, ps_h4 := 67108863\<rparr>"
    unfolding st by (simp add: poly1305_add_def U8TO32_LE_4 Let_def poly1305_mul_def mul32x32_64_def)
  let ?st = "st\<lparr>ps_h0 := 469762043, ps_h1 := 67108863, ps_h2 := 67108863, ps_h3 := 67108863, ps_h4 := 67108863\<rparr>"
  have c: "finish_carry ?st = (67108864, 5, 0, 0, 0)" by (simp add: finish_carry_def Let_def)
  have s: "finish_select (67108864, 5, 0, 0, 0) = (67108864, 5, 0, 0, 0)" by (simp add: finish_select_def Let_def)
  have k: "ps_buf_used ?st = 0" "ps_key ?st = [0, 0, 0, 0, 0, 0, 0, 0, 0, 0, 0, 0, 0, 0, 0, 0]" by (simp_all add: st replicate_16)
  show "CRYPTO_poly1305_finish (CRYPTO_poly1305_update (CRYPTO_poly1305_init ?key) ?msg) = [0, 0, 0, 0x14, 0, 0, 0, 0, 0, 0, 0, 0, 0, 0, 0, 0]"
    unfolding st_def [symmetric] up CRYPTO_poly1305_finish_eq k Let_def
    by (simp add: c s k poly1305_tag_def U8TO32_LE_4 U32TO8_LE_def le_bytes_4)
  show "poly1305_mac ?key ?msg = [0, 0, 0, 0x18, 0, 0, 0, 0, 0, 0, 0, 0, 0, 0, 0, 0]"
    by (simp add: poly1305_mac_def poly1305_acc.simps poly1305_r_def poly1305_p_def le_bytes_16 le_bytes_4)
qed

end
