(* ===== verification/Aead.thy ===== *)
theory Aead
  imports Internal Mem
begin

text \<open>
  \<open>crypto/fipsmodule/cipher/aead.c\<close>: authenticated encryption behind a table of methods. The buffers of a caller may overlap,
  and the functions look at their addresses, so they work on one flat memory here. A method that is NULL is \<open>None\<close>. The
  locale states what the default \<open>open\<close> relies on, and its lemmas hold for every AEAD that keeps those laws.
\<close>

section \<open>Memory\<close>

type_synonym mem = "nat \<Rightarrow> byte"

definition load_bytes :: "mem \<Rightarrow> nat \<Rightarrow> nat \<Rightarrow> bytes" where
  "load_bytes m a n = map (\<lambda>i. m (a + i)) [0..<n]"

definition store_bytes :: "mem \<Rightarrow> nat \<Rightarrow> bytes \<Rightarrow> mem" where
  "store_bytes m a bs = (\<lambda>x. if a \<le> x \<and> x < a + length bs then bs ! (x - a) else m x)"

text \<open>\<open>buffers_alias\<close> of \<open>crypto/internal.h\<close>; the sums are of type \<open>uintptr_t\<close>.\<close>

definition buffers_alias :: "nat \<Rightarrow> nat \<Rightarrow> nat \<Rightarrow> nat \<Rightarrow> bool" where
  "buffers_alias a a_len b b_len \<longleftrightarrow> (a + a_len) mod 2 ^ 64 > b \<and> (b + b_len) mod 2 ^ 64 > a"

section \<open>The code\<close>

text \<open>\<open>CIPHER_internal\<close> stands for a return of 0 without an entry in the error queue.\<close>

datatype cipher_error =
    CIPHER_R_TOO_LARGE
  | CIPHER_R_BUFFER_TOO_SMALL
  | CIPHER_R_UNSUPPORTED_NONCE_SIZE
  | CIPHER_R_UNSUPPORTED_KEY_SIZE
  | CIPHER_R_BAD_DECRYPT
  | CIPHER_R_OUTPUT_ALIASES_INPUT
  | CIPHER_R_INVALID_OPERATION
  | CIPHER_R_CTRL_NOT_IMPLEMENTED
  | CIPHER_R_NO_DIRECTION_SET
  | CIPHER_internal
  | ERR_R_OVERFLOW

datatype evp_aead_direction_t = evp_aead_open | evp_aead_seal

text \<open>
  \<open>struct evp_aead_st\<close>. The methods take the state of the context and its \<open>tag_len\<close>; \<open>init\<close> returns both. The arguments that
  follow the memory are in the order of the C functions: an address and a length for every buffer.
\<close>

record 's evp_aead =
  ea_key_len :: nat
  ea_nonce_len :: nat
  ea_overhead :: nat
  ea_max_tag_len :: nat
  ea_seal_scatter_supports_extra_in :: bool
  ea_init :: "(bytes \<Rightarrow> nat \<Rightarrow> cipher_error + 's \<times> nat) option"
  ea_init_with_direction :: "(bytes \<Rightarrow> nat \<Rightarrow> evp_aead_direction_t \<Rightarrow> cipher_error + 's \<times> nat) option"
  ea_cleanup :: "'s \<Rightarrow> 's"
  ea_open :: "('s \<Rightarrow> nat \<Rightarrow> mem \<Rightarrow> nat \<Rightarrow> nat \<Rightarrow> nat \<Rightarrow> nat \<Rightarrow> nat \<Rightarrow> nat \<Rightarrow> nat \<Rightarrow> nat \<Rightarrow> (cipher_error + nat) \<times> mem) option"
  ea_seal_scatter :: "'s \<Rightarrow> nat \<Rightarrow> mem \<Rightarrow> nat \<Rightarrow> nat \<Rightarrow> nat \<Rightarrow> nat \<Rightarrow> nat \<Rightarrow> nat \<Rightarrow> nat \<Rightarrow> nat \<Rightarrow> nat \<Rightarrow> nat \<Rightarrow> nat \<Rightarrow> (cipher_error + nat) \<times> mem"
  ea_open_gather :: "('s \<Rightarrow> nat \<Rightarrow> mem \<Rightarrow> nat \<Rightarrow> nat \<Rightarrow> nat \<Rightarrow> nat \<Rightarrow> nat \<Rightarrow> nat \<Rightarrow> nat \<Rightarrow> nat \<Rightarrow> nat \<Rightarrow> (cipher_error + unit) \<times> mem) option"
  ea_get_iv :: "('s \<Rightarrow> cipher_error + bytes) option"
  ea_tag_len :: "('s \<Rightarrow> nat \<Rightarrow> nat \<Rightarrow> nat) option"

record 's evp_aead_ctx =
  cx_aead :: "'s evp_aead option"
  cx_state :: 's
  cx_tag_len :: nat

definition EVP_AEAD_key_length :: "'s evp_aead \<Rightarrow> nat" where "EVP_AEAD_key_length aead = ea_key_len aead"
definition EVP_AEAD_nonce_length :: "'s evp_aead \<Rightarrow> nat" where "EVP_AEAD_nonce_length aead = ea_nonce_len aead"
definition EVP_AEAD_max_overhead :: "'s evp_aead \<Rightarrow> nat" where "EVP_AEAD_max_overhead aead = ea_overhead aead"
definition EVP_AEAD_max_tag_len :: "'s evp_aead \<Rightarrow> nat" where "EVP_AEAD_max_tag_len aead = ea_max_tag_len aead"

text \<open>\<open>zero\<close> is the state whose bytes are all zero.\<close>

definition EVP_AEAD_CTX_zero :: "'s \<Rightarrow> 's evp_aead_ctx" where
  "EVP_AEAD_CTX_zero zero = \<lparr>cx_aead = None, cx_state = zero, cx_tag_len = 0\<rparr>"

definition EVP_AEAD_CTX_init_with_direction ::
  "'s evp_aead_ctx \<Rightarrow> 's evp_aead \<Rightarrow> bytes \<Rightarrow> nat \<Rightarrow> evp_aead_direction_t \<Rightarrow> (cipher_error + unit) \<times> 's evp_aead_ctx" where
  "EVP_AEAD_CTX_init_with_direction ctx aead key tag_len dir =
     (if length key \<noteq> ea_key_len aead then (Inl CIPHER_R_UNSUPPORTED_KEY_SIZE, ctx\<lparr>cx_aead := None\<rparr>)
      else
        let ctx = ctx\<lparr>cx_aead := Some aead\<rparr>;
            ok = (case ea_init aead of
                    Some init \<Rightarrow> init key tag_len
                  | None \<Rightarrow> (case ea_init_with_direction aead of Some init \<Rightarrow> init key tag_len dir | None \<Rightarrow> Inl CIPHER_internal))
        in (case ok of
              Inl e \<Rightarrow> (Inl e, ctx\<lparr>cx_aead := None\<rparr>)
            | Inr (st, tagl) \<Rightarrow> (Inr (), ctx\<lparr>cx_state := st, cx_tag_len := tagl\<rparr>)))"

definition EVP_AEAD_CTX_init ::
  "'s evp_aead_ctx \<Rightarrow> 's evp_aead \<Rightarrow> bytes \<Rightarrow> nat \<Rightarrow> (cipher_error + unit) \<times> 's evp_aead_ctx" where
  "EVP_AEAD_CTX_init ctx aead key tag_len =
     (if ea_init aead = None then (Inl CIPHER_R_NO_DIRECTION_SET, ctx\<lparr>cx_aead := None\<rparr>)
      else EVP_AEAD_CTX_init_with_direction ctx aead key tag_len evp_aead_open)"

definition EVP_AEAD_CTX_cleanup :: "'s evp_aead_ctx \<Rightarrow> 's evp_aead_ctx" where
  "EVP_AEAD_CTX_cleanup ctx =
     (case cx_aead ctx of
        None \<Rightarrow> ctx
      | Some aead \<Rightarrow> ctx\<lparr>cx_state := ea_cleanup aead (cx_state ctx), cx_aead := None\<rparr>)"

text \<open>\<open>None\<close> is the undefined behaviour of \<open>memset\<close> on a NULL pointer: the result of the allocation, of \<open>ctx_size\<close> bytes, is not
  tested. \<open>Some None\<close> is a NULL result.\<close>

definition EVP_AEAD_CTX_new ::
  "(nat \<Rightarrow> bool) \<Rightarrow> nat \<Rightarrow> 's \<Rightarrow> 's evp_aead \<Rightarrow> bytes \<Rightarrow> nat \<Rightarrow> 's evp_aead_ctx option option" where
  "EVP_AEAD_CTX_new libc ctx_size zero aead key tag_len =
     (if \<not> OPENSSL_malloc libc ctx_size then None
      else
        let ctx = EVP_AEAD_CTX_zero zero
        in (case EVP_AEAD_CTX_init ctx aead key tag_len of (Inr _, ctx) \<Rightarrow> Some (Some ctx) | (Inl _, ctx) \<Rightarrow> Some None))"

definition check_alias :: "nat \<Rightarrow> nat \<Rightarrow> nat \<Rightarrow> nat \<Rightarrow> bool" where
  "check_alias inp in_len out out_len \<longleftrightarrow> (if \<not> buffers_alias inp in_len out out_len then True else inp = out)"

text \<open>The context has been initialised; \<open>in_len + overhead\<close> is of type \<open>size_t\<close>.\<close>

definition EVP_AEAD_CTX_seal ::
  "'s evp_aead_ctx \<Rightarrow> mem \<Rightarrow> nat \<Rightarrow> nat \<Rightarrow> nat \<Rightarrow> nat \<Rightarrow> nat \<Rightarrow> nat \<Rightarrow> nat \<Rightarrow> nat \<Rightarrow> (cipher_error + nat) \<times> mem" where
  "EVP_AEAD_CTX_seal ctx m out max_out_len nonce nonce_len inp in_len ad ad_len =
     (let aead = the (cx_aead ctx);
          error = (\<lambda>e m. (Inl e, store_bytes m out (replicate max_out_len 0)))
      in if (in_len + ea_overhead aead) mod 2 ^ 64 < in_len then error CIPHER_R_TOO_LARGE m
         else if max_out_len < in_len then error CIPHER_R_BUFFER_TOO_SMALL m
         else if \<not> check_alias inp in_len out max_out_len then error CIPHER_R_OUTPUT_ALIASES_INPUT m
         else
           (case ea_seal_scatter aead (cx_state ctx) (cx_tag_len ctx) m out (out + in_len) (max_out_len - in_len) nonce nonce_len
                   inp in_len 0 0 ad ad_len of
              (Inr out_tag_len, m) \<Rightarrow> (Inr (in_len + out_tag_len), m)
            | (Inl e, m) \<Rightarrow> error e m))"

definition EVP_AEAD_CTX_seal_scatter ::
  "'s evp_aead_ctx \<Rightarrow> mem \<Rightarrow> nat \<Rightarrow> nat \<Rightarrow> nat \<Rightarrow> nat \<Rightarrow> nat \<Rightarrow> nat \<Rightarrow> nat \<Rightarrow> nat \<Rightarrow> nat \<Rightarrow> nat \<Rightarrow> nat \<Rightarrow> (cipher_error + nat) \<times> mem" where
  "EVP_AEAD_CTX_seal_scatter ctx m out out_tag max_out_tag_len nonce nonce_len inp in_len extra_in extra_in_len ad ad_len =
     (let aead = the (cx_aead ctx);
          error = (\<lambda>e m. (Inl e, store_bytes (store_bytes m out (replicate in_len 0)) out_tag (replicate max_out_tag_len 0)))
      in if \<not> check_alias inp in_len out in_len \<or> buffers_alias out in_len out_tag max_out_tag_len \<or>
           buffers_alias inp in_len out_tag max_out_tag_len then error CIPHER_R_OUTPUT_ALIASES_INPUT m
         else if \<not> ea_seal_scatter_supports_extra_in aead \<and> extra_in_len \<noteq> 0 then error CIPHER_R_INVALID_OPERATION m
         else
           (case ea_seal_scatter aead (cx_state ctx) (cx_tag_len ctx) m out out_tag max_out_tag_len nonce nonce_len
                   inp in_len extra_in extra_in_len ad ad_len of
              (Inr out_tag_len, m) \<Rightarrow> (Inr out_tag_len, m)
            | (Inl e, m) \<Rightarrow> error e m))"

definition EVP_AEAD_CTX_open_gather ::
  "'s evp_aead_ctx \<Rightarrow> mem \<Rightarrow> nat \<Rightarrow> nat \<Rightarrow> nat \<Rightarrow> nat \<Rightarrow> nat \<Rightarrow> nat \<Rightarrow> nat \<Rightarrow> nat \<Rightarrow> nat \<Rightarrow> (cipher_error + unit) \<times> mem" where
  "EVP_AEAD_CTX_open_gather ctx m out nonce nonce_len inp in_len in_tag in_tag_len ad ad_len =
     (let aead = the (cx_aead ctx);
          error = (\<lambda>e m. (Inl e, store_bytes m out (replicate in_len 0)))
      in if \<not> check_alias inp in_len out in_len then error CIPHER_R_OUTPUT_ALIASES_INPUT m
         else
           (case ea_open_gather aead of
              None \<Rightarrow> error CIPHER_R_CTRL_NOT_IMPLEMENTED m
            | Some open_gather \<Rightarrow>
                (case open_gather (cx_state ctx) (cx_tag_len ctx) m out nonce nonce_len inp in_len in_tag in_tag_len ad ad_len of
                   (Inr _, m) \<Rightarrow> (Inr (), m)
                 | (Inl e, m) \<Rightarrow> error e m)))"

text \<open>The branch for methods with a separate tag also asserts that the tag length of the context is not zero: such
  a method has to set it when the context is initialised, as \<open>aead_chacha20_poly1305_init\<close> does.\<close>

definition EVP_AEAD_CTX_open ::
  "'s evp_aead_ctx \<Rightarrow> mem \<Rightarrow> nat \<Rightarrow> nat \<Rightarrow> nat \<Rightarrow> nat \<Rightarrow> nat \<Rightarrow> nat \<Rightarrow> nat \<Rightarrow> nat \<Rightarrow> (cipher_error + nat) \<times> mem" where
  "EVP_AEAD_CTX_open ctx m out max_out_len nonce nonce_len inp in_len ad ad_len =
     (let aead = the (cx_aead ctx);
          error = (\<lambda>e m. (Inl e, store_bytes m out (replicate max_out_len 0)))
      in if \<not> check_alias inp in_len out max_out_len then error CIPHER_R_OUTPUT_ALIASES_INPUT m
         else
           (case ea_open aead of
              Some opn \<Rightarrow>
                (case opn (cx_state ctx) (cx_tag_len ctx) m out max_out_len nonce nonce_len inp in_len ad ad_len of
                   (Inr out_len, m) \<Rightarrow> (Inr out_len, m)
                 | (Inl e, m) \<Rightarrow> error e m)
            | None \<Rightarrow>
                if in_len < cx_tag_len ctx then error CIPHER_R_BAD_DECRYPT m
                else
                  let plaintext_len = in_len - cx_tag_len ctx
                  in if max_out_len < plaintext_len then error CIPHER_R_BUFFER_TOO_SMALL m
                     else
                       (case EVP_AEAD_CTX_open_gather ctx m out nonce nonce_len inp plaintext_len (inp + plaintext_len)
                               (cx_tag_len ctx) ad ad_len of
                          (Inr _, m) \<Rightarrow> (Inr plaintext_len, m)
                        | (Inl e, m) \<Rightarrow> error e m)))"

definition EVP_AEAD_CTX_aead :: "'s evp_aead_ctx \<Rightarrow> 's evp_aead option" where "EVP_AEAD_CTX_aead ctx = cx_aead ctx"

definition EVP_AEAD_CTX_get_iv :: "'s evp_aead_ctx \<Rightarrow> cipher_error + bytes" where
  "EVP_AEAD_CTX_get_iv ctx =
     (case ea_get_iv (the (cx_aead ctx)) of None \<Rightarrow> Inl CIPHER_internal | Some get_iv \<Rightarrow> get_iv (cx_state ctx))"

definition EVP_AEAD_CTX_tag_len :: "'s evp_aead_ctx \<Rightarrow> nat \<Rightarrow> nat \<Rightarrow> cipher_error + nat" where
  "EVP_AEAD_CTX_tag_len ctx in_len extra_in_len =
     (case ea_tag_len (the (cx_aead ctx)) of
        Some tag_len \<Rightarrow> Inr (tag_len (cx_state ctx) in_len extra_in_len)
      | None \<Rightarrow>
          if (extra_in_len + cx_tag_len ctx) mod 2 ^ 64 < extra_in_len then Inl ERR_R_OVERFLOW
          else Inr (extra_in_len + cx_tag_len ctx))"

section \<open>Memory, continued\<close>

definition apart :: "nat \<Rightarrow> nat \<Rightarrow> nat \<Rightarrow> nat \<Rightarrow> bool" where
  "apart a n b k \<longleftrightarrow> a + n \<le> b \<or> b + k \<le> a"

lemma apart_sym: "apart a n b k \<longleftrightarrow> apart b k a n"
  by (auto simp: apart_def)

lemma apart_part: "apart a n b k \<Longrightarrow> i + j \<le> n \<Longrightarrow> apart (a + i) j b k"
  by (auto simp: apart_def)

lemma length_load_bytes [simp]: "length (load_bytes m a n) = n"
  by (simp add: load_bytes_def)

lemma nth_load_bytes [simp]: "i < n \<Longrightarrow> load_bytes m a n ! i = m (a + i)"
  by (simp add: load_bytes_def)

lemma load_bytes_0 [simp]: "load_bytes m a 0 = []"
  by (simp add: load_bytes_def)

lemma load_bytes_cong: "(\<And>i. i < n \<Longrightarrow> m (a + i) = m' (b + i)) \<Longrightarrow> load_bytes m a n = load_bytes m' b n"
  by (simp add: load_bytes_def)

lemma load_bytes_add: "load_bytes m a (n + k) = load_bytes m a n @ load_bytes m (a + n) k"
  by (rule nth_equalityI) (auto simp: nth_append)

lemma take_load_bytes: "k \<le> n \<Longrightarrow> take k (load_bytes m a n) = load_bytes m a k"
  by (rule nth_equalityI) auto

lemma drop_load_bytes: "drop k (load_bytes m a n) = load_bytes m (a + k) (n - k)"
  by (rule nth_equalityI) (auto simp: add.assoc)

lemma store_bytes_Nil [simp]: "store_bytes m a [] = m"
  by (rule ext) (auto simp: store_bytes_def)

lemma load_store_same [simp]: "n = length bs \<Longrightarrow> load_bytes (store_bytes m a bs) a n = bs"
  by (rule nth_equalityI) (auto simp: store_bytes_def)

lemma load_store_apart: "apart b n a (length bs) \<Longrightarrow> load_bytes (store_bytes m a bs) b n = load_bytes m b n"
  by (rule load_bytes_cong) (auto simp: store_bytes_def apart_def)

lemma store_bytes_append: "store_bytes (store_bytes m a xs) (a + length xs) ys = store_bytes m a (xs @ ys)"
  by (rule ext) (auto simp: store_bytes_def nth_append)

lemma store_bytes_append': "b = a + length xs \<Longrightarrow> store_bytes (store_bytes m a xs) b ys = store_bytes m a (xs @ ys)"
  by (simp add: store_bytes_append)

lemma store_bytes_over: "length xs \<le> length ys \<Longrightarrow> store_bytes (store_bytes m a xs) a ys = store_bytes m a ys"
  by (rule ext) (auto simp: store_bytes_def)

lemma store_bytes_single: "store_bytes m a [b] = m(a := b)"
  by (rule ext) (auto simp: store_bytes_def)

lemma store_bytes_swap:
  "apart a (length xs) b (length ys) \<Longrightarrow> store_bytes (store_bytes m a xs) b ys = store_bytes (store_bytes m b ys) a xs"
  by (rule ext) (auto simp: store_bytes_def apart_def)

lemma buffers_alias_iff: "a + n < 2 ^ 64 \<Longrightarrow> b + k < 2 ^ 64 \<Longrightarrow> buffers_alias a n b k \<longleftrightarrow> \<not> apart a n b k"
  unfolding buffers_alias_def apart_def by (simp only: mod_less) auto

lemma check_alias_iff: "a + n < 2 ^ 64 \<Longrightarrow> b + k < 2 ^ 64 \<Longrightarrow> check_alias a n b k \<longleftrightarrow> a = b \<or> apart a n b k"
  by (simp only: check_alias_def buffers_alias_iff) auto

section \<open>The contract of a table of methods\<close>

text \<open>What has to be apart when a message is sealed: the input may be the output, everything that is read later is not written
  before.\<close>

definition seal_placed :: "nat \<Rightarrow> nat \<Rightarrow> nat \<Rightarrow> nat \<Rightarrow> nat \<Rightarrow> nat \<Rightarrow> nat \<Rightarrow> nat \<Rightarrow> nat \<Rightarrow> nat \<Rightarrow> nat \<Rightarrow> bool" where
  "seal_placed out len out_tag tag_room nonce nonce_len inp x x_len ad ad_len \<longleftrightarrow>
     (inp = out \<or> apart inp len out len) \<and> apart out len out_tag tag_room \<and> apart inp len out_tag tag_room \<and>
     apart nonce nonce_len out len \<and> apart nonce nonce_len out_tag tag_room \<and>
     apart ad ad_len out len \<and> apart ad ad_len out_tag tag_room \<and> apart x x_len out_tag tag_room"

definition open_placed :: "nat \<Rightarrow> nat \<Rightarrow> nat \<Rightarrow> nat \<Rightarrow> nat \<Rightarrow> bool" where
  "open_placed out len inp in_tag tag_len \<longleftrightarrow> (inp = out \<or> apart inp len out len) \<and> apart in_tag tag_len out len"

text \<open>
  A cipher that is its own inverse and a tag over the associated data and the ciphertext, for nonces of \<open>N\<close> bytes and inputs of
  less than \<open>L\<close> bytes; \<open>T\<close> is the length of the whole tag.
\<close>

locale aead_method =
  fixes aead :: "'s evp_aead" and gather and N L T :: nat
    and enc :: "'s \<Rightarrow> bytes \<Rightarrow> bytes \<Rightarrow> bytes" and tag :: "'s \<Rightarrow> bytes \<Rightarrow> bytes \<Rightarrow> bytes \<Rightarrow> bytes"
  assumes default_open: "ea_open aead = None"
    and has_gather: "ea_open_gather aead = Some gather"
    and extra_in: "ea_seal_scatter_supports_extra_in aead"
    and length_enc: "length (enc s n p) = length p"
    and enc_enc: "enc s n (enc s n p) = p"
    and length_tag: "length (tag s n a c) = T"
    and overhead: "ea_overhead aead = T" "T < 2 ^ 63" "L \<le> 2 ^ 63"
    and seal_rejects: "\<not> (n_len = N \<and> len < L \<and> t + x_len \<le> max_len) \<Longrightarrow> t + x_len < 2 ^ 64 \<Longrightarrow>
      \<exists>e. ea_seal_scatter aead s t m out out_tag max_len nonce n_len inp len x x_len ad ad_len = (Inl e, m)"
    and seal_law: "len < L \<Longrightarrow> t \<le> T \<Longrightarrow> t + x_len \<le> max_len \<Longrightarrow> max_len < 2 ^ 64 \<Longrightarrow>
      seal_placed out len out_tag (x_len + t) nonce N inp x x_len ad ad_len \<Longrightarrow>
      c = enc s (load_bytes m nonce N) (load_bytes m inp len @ load_bytes m x x_len) \<Longrightarrow>
      ea_seal_scatter aead s t m out out_tag max_len nonce N inp len x x_len ad ad_len =
        (Inr (x_len + t), store_bytes (store_bytes m out (take len c)) out_tag
           (drop len c @ take t (tag s (load_bytes m nonce N) (load_bytes m ad ad_len) c)))"
    and gather_rejects: "\<not> (n_len = N \<and> len < L \<and> t_len = t) \<Longrightarrow>
      \<exists>e. gather s t m out nonce n_len inp len in_tag t_len ad ad_len = (Inl e, m)"
    and gather_law: "len < L \<Longrightarrow> t \<le> T \<Longrightarrow> open_placed out len inp in_tag t \<Longrightarrow>
      gather s t m out nonce N inp len in_tag t ad ad_len =
        (if load_bytes m in_tag t = take t (tag s (load_bytes m nonce N) (load_bytes m ad ad_len) (load_bytes m inp len)) then Inr ()
         else Inl CIPHER_R_BAD_DECRYPT,
         store_bytes m out (enc s (load_bytes m nonce N) (load_bytes m inp len)))"
begin

text \<open>The bytes of a sealed message.\<close>

definition sealed :: "'s \<Rightarrow> nat \<Rightarrow> bytes \<Rightarrow> bytes \<Rightarrow> bytes \<Rightarrow> bytes" where
  "sealed s t n a p = enc s n p @ take t (tag s n a (enc s n p))"

lemma length_sealed: "t \<le> T \<Longrightarrow> length (sealed s t n a p) = length p + t"
  by (simp add: sealed_def length_enc length_tag)

lemma seal_out:
  assumes ctx: "cx_aead ctx = Some aead" "cx_tag_len ctx \<le> T" and mem: "inp + in_len < 2 ^ 64" "out + max_out_len < 2 ^ 64"
    and pl: "apart nonce n_len out max_out_len" "apart ad ad_len out max_out_len"
    and r: "EVP_AEAD_CTX_seal ctx m out max_out_len nonce n_len inp in_len ad ad_len = (Inr out_len, m')"
  shows "n_len = N" "in_len < L" "out_len = in_len + cx_tag_len ctx" "out_len \<le> max_out_len"
    "m' = store_bytes m out (sealed (cx_state ctx) (cx_tag_len ctx) (load_bytes m nonce N) (load_bytes m ad ad_len) (load_bytes m inp in_len))"
proof -
  let ?t = "cx_tag_len ctx" and ?s = "cx_state ctx"
  have al: "in_len \<le> max_out_len" "check_alias inp in_len out max_out_len"
    using r by (auto simp: EVP_AEAD_CTX_seal_def Let_def split: if_splits)
  then have ap: "inp = out \<or> apart inp in_len out max_out_len" using check_alias_iff [OF mem] by blast
  have sc: "\<exists>k. ea_seal_scatter aead ?s ?t m out (out + in_len) (max_out_len - in_len) nonce n_len inp in_len 0 0 ad ad_len = (Inr k, m') \<and> out_len = in_len + k"
    using r ctx by (auto simp: EVP_AEAD_CTX_seal_def Let_def split: if_splits prod.splits sum.splits)
  have ok: "n_len = N \<and> in_len < L \<and> ?t + 0 \<le> max_out_len - in_len"
  proof (rule ccontr)
    assume "\<not> ?thesis"
    moreover have "?t + 0 < 2 ^ 64" using ctx(2) overhead by simp
    ultimately show False using seal_rejects [of n_len in_len ?t 0 "max_out_len - in_len" ?s m out "out + in_len" nonce inp 0 ad ad_len] sc by auto
  qed
  have "seal_placed out in_len (out + in_len) (0 + ?t) nonce N inp 0 0 ad ad_len"
    using ap pl ok al(1) by (auto simp: seal_placed_def apart_def)
  note S = seal_law [OF _ ctx(2) _ _ this refl, of "max_out_len - in_len" ?s m]
  let ?c = "enc ?s (load_bytes m nonce N) (load_bytes m inp in_len)"
  have "ea_seal_scatter aead ?s ?t m out (out + in_len) (max_out_len - in_len) nonce N inp in_len 0 0 ad ad_len =
      (Inr ?t, store_bytes (store_bytes m out ?c) (out + in_len) (take ?t (tag ?s (load_bytes m nonce N) (load_bytes m ad ad_len) ?c)))"
    using S ok mem(2) by (simp add: length_enc)
  then have "out_len = in_len + ?t" "m' = store_bytes (store_bytes m out ?c) (out + in_len) (take ?t (tag ?s (load_bytes m nonce N) (load_bytes m ad ad_len) ?c))"
    using sc ok by auto
  then show "n_len = N" "in_len < L" "out_len = in_len + ?t" "out_len \<le> max_out_len"
    "m' = store_bytes m out (sealed ?s ?t (load_bytes m nonce N) (load_bytes m ad ad_len) (load_bytes m inp in_len))"
    using ok al(1) by (auto simp: sealed_def store_bytes_append' length_enc)
qed

lemma seal_accepts:
  assumes ctx: "cx_aead ctx = Some aead" "cx_tag_len ctx \<le> T" and mem: "inp + in_len < 2 ^ 64" "out + max_out_len < 2 ^ 64"
    and pl: "apart nonce N out max_out_len" "apart ad ad_len out max_out_len" "inp = out \<or> apart inp in_len out max_out_len"
    and len: "in_len < L" "in_len + cx_tag_len ctx \<le> max_out_len"
  shows "\<exists>m'. EVP_AEAD_CTX_seal ctx m out max_out_len nonce N inp in_len ad ad_len = (Inr (in_len + cx_tag_len ctx), m')"
proof -
  have "check_alias inp in_len out max_out_len" using pl(3) check_alias_iff [OF mem] by blast
  moreover have "seal_placed out in_len (out + in_len) (0 + cx_tag_len ctx) nonce N inp 0 0 ad ad_len"
    using pl len(2) by (auto simp: seal_placed_def apart_def)
  from seal_law [OF len(1) ctx(2) _ _ this refl, of "max_out_len - in_len" "cx_state ctx" m]
  have "\<exists>m'. ea_seal_scatter aead (cx_state ctx) (cx_tag_len ctx) m out (out + in_len) (max_out_len - in_len) nonce N inp in_len 0 0 ad ad_len = (Inr (cx_tag_len ctx), m')"
    using len mem by auto
  ultimately show ?thesis
    using ctx len mem overhead by (auto simp: EVP_AEAD_CTX_seal_def Let_def)
qed

lemma open_cases:
  fixes m :: mem and nonce :: nat
  assumes ctx: "cx_aead ctx = Some aead" "cx_tag_len ctx \<le> T" and mem: "inp + in_len < 2 ^ 64" "out + max_out_len < 2 ^ 64"
  defines "k \<equiv> in_len - cx_tag_len ctx"
  defines "p \<equiv> enc (cx_state ctx) (load_bytes m nonce N) (load_bytes m inp k)"
  shows "if n_len = N \<and> k < L \<and> k \<le> max_out_len \<and> (inp = out \<or> \<not> buffers_alias inp in_len out max_out_len) \<and> cx_tag_len ctx \<le> in_len \<and>
      load_bytes m inp in_len = sealed (cx_state ctx) (cx_tag_len ctx) (load_bytes m nonce N) (load_bytes m ad ad_len) p
    then EVP_AEAD_CTX_open ctx m out max_out_len nonce n_len inp in_len ad ad_len = (Inr k, store_bytes m out p)
    else \<exists>e. EVP_AEAD_CTX_open ctx m out max_out_len nonce n_len inp in_len ad ad_len = (Inl e, store_bytes m out (replicate max_out_len 0))"
proof -
  let ?t = "cx_tag_len ctx" and ?s = "cx_state ctx"
  have ca: "check_alias inp in_len out max_out_len \<longleftrightarrow> inp = out \<or> \<not> buffers_alias inp in_len out max_out_len" by (auto simp: check_alias_def)
  show ?thesis
  proof (cases "check_alias inp in_len out max_out_len \<and> ?t \<le> in_len \<and> k \<le> max_out_len")
    case False
    then show ?thesis using ctx default_open by (auto simp: EVP_AEAD_CTX_open_def Let_def ca k_def)
  next
    case True
    then have ap: "inp = out \<or> apart inp in_len out max_out_len" using check_alias_iff [OF mem] by blast
    have "k \<le> in_len" "k \<le> max_out_len" using True by (simp_all add: k_def)
    then have "inp + k < 2 ^ 64" "out + k < 2 ^ 64" using mem by linarith+
    moreover have "inp = out \<or> apart inp k out k" using ap True by (auto simp: apart_def k_def)
    ultimately have ca': "check_alias inp k out k" using check_alias_iff by blast
    have pl: "open_placed out k inp (inp + k) ?t" using ap True by (auto simp: open_placed_def apart_def k_def)
    have opn: "EVP_AEAD_CTX_open ctx m out max_out_len nonce n_len inp in_len ad ad_len =
        (case EVP_AEAD_CTX_open_gather ctx m out nonce n_len inp k (inp + k) ?t ad ad_len of
           (Inr _, m) \<Rightarrow> (Inr k, m) | (Inl e, m) \<Rightarrow> (Inl e, store_bytes m out (replicate max_out_len 0)))"
      using True ctx default_open by (simp add: EVP_AEAD_CTX_open_def Let_def k_def [symmetric] not_less)
    have gat: "EVP_AEAD_CTX_open_gather ctx m out nonce n_len inp k (inp + k) ?t ad ad_len =
        (case gather ?s ?t m out nonce n_len inp k (inp + k) ?t ad ad_len of
           (Inr _, m) \<Rightarrow> (Inr (), m) | (Inl e, m) \<Rightarrow> (Inl e, store_bytes m out (replicate k 0)))"
      using ca' ctx has_gather by (simp add: EVP_AEAD_CTX_open_gather_def Let_def)
    have wipe: "store_bytes (store_bytes m out (replicate k 0)) out (replicate max_out_len 0) = store_bytes m out (replicate max_out_len 0)"
      "store_bytes (store_bytes (store_bytes m out p) out (replicate k 0)) out (replicate max_out_len 0) = store_bytes m out (replicate max_out_len 0)"
      using True by (simp_all add: store_bytes_over p_def length_enc)
    show ?thesis
    proof (cases "n_len = N \<and> k < L")
      case False
      then obtain e where "gather ?s ?t m out nonce n_len inp k (inp + k) ?t ad ad_len = (Inl e, m)" using gather_rejects by blast
      then show ?thesis using False by (auto simp: opn gat wipe)
    next
      case N: True
      have split: "load_bytes m inp in_len = load_bytes m inp k @ load_bytes m (inp + k) ?t" using True load_bytes_add [of m inp k ?t] by (simp add: k_def)
      have g: "gather ?s ?t m out nonce n_len inp k (inp + k) ?t ad ad_len =
          (if load_bytes m (inp + k) ?t = take ?t (tag ?s (load_bytes m nonce N) (load_bytes m ad ad_len) (load_bytes m inp k)) then Inr ()
           else Inl CIPHER_R_BAD_DECRYPT, store_bytes m out p)"
        using N gather_law [OF _ ctx(2) pl] by (simp add: p_def)
      have "load_bytes m inp in_len = sealed ?s ?t (load_bytes m nonce N) (load_bytes m ad ad_len) p \<longleftrightarrow>
          load_bytes m (inp + k) ?t = take ?t (tag ?s (load_bytes m nonce N) (load_bytes m ad ad_len) (load_bytes m inp k))"
        by (simp add: split sealed_def p_def enc_enc)
      then show ?thesis using N True g by (simp add: opn [unfolded conjunct1 [OF N]] gat [unfolded conjunct1 [OF N]] wipe ca)
    qed
  qed
qed

lemma open_error_wipes:
  assumes "cx_aead ctx = Some aead" "cx_tag_len ctx \<le> T" "inp + in_len < 2 ^ 64" "out + max_out_len < 2 ^ 64"
    and "EVP_AEAD_CTX_open ctx m out max_out_len nonce n_len inp in_len ad ad_len = (Inl e, m')"
  shows "m' = store_bytes m out (replicate max_out_len 0)"
  using open_cases [OF assms(1-4), where m = m and nonce = nonce and n_len = n_len and ad = ad and ad_len = ad_len] assms(5) by (auto split: if_splits)

lemma seal_open:
  assumes ctx: "cx_aead ctx = Some aead" "cx_tag_len ctx \<le> T" and mem: "inp + in_len < 2 ^ 64" "out + max_out_len < 2 ^ 64"
    and pl: "apart nonce n_len out max_out_len" "apart ad ad_len out max_out_len"
    and r: "EVP_AEAD_CTX_seal ctx m out max_out_len nonce n_len inp in_len ad ad_len = (Inr out_len, m')"
    and same: "load_bytes m2 inp2 out_len = load_bytes m' out out_len" "load_bytes m2 nonce2 n_len = load_bytes m nonce n_len"
      "load_bytes m2 ad2 ad_len = load_bytes m ad ad_len"
    and mem2: "inp2 + out_len < 2 ^ 64" "out2 + max2 < 2 ^ 64" "in_len \<le> max2" "inp2 = out2 \<or> apart inp2 out_len out2 max2"
  shows "EVP_AEAD_CTX_open ctx m2 out2 max2 nonce2 n_len inp2 out_len ad2 ad_len = (Inr in_len, store_bytes m2 out2 (load_bytes m inp in_len))"
proof -
  let ?t = "cx_tag_len ctx" and ?s = "cx_state ctx"
  note S = seal_out [OF ctx mem pl r]
  have k: "out_len - ?t = in_len" using S(3) by simp
  have sd: "load_bytes m2 inp2 out_len = sealed ?s ?t (load_bytes m nonce N) (load_bytes m ad ad_len) (load_bytes m inp in_len)"
    unfolding same(1) S(5) using S(3) ctx(2) by (simp add: length_sealed)
  then have "take in_len (load_bytes m2 inp2 out_len) = enc ?s (load_bytes m nonce N) (load_bytes m inp in_len)" by (simp add: sealed_def length_enc)
  then have c: "load_bytes m2 inp2 in_len = enc ?s (load_bytes m nonce N) (load_bytes m inp in_len)" using S(3) by (simp add: take_load_bytes)
  have "inp2 = out2 \<or> \<not> buffers_alias inp2 out_len out2 max2" using mem2(4) buffers_alias_iff [OF mem2(1,2)] by blast
  then show ?thesis
    using open_cases [OF ctx mem2(1,2), where m = m2 and nonce = nonce2 and n_len = n_len and ad = ad2 and ad_len = ad_len] S mem2(3) same sd
    unfolding k by (simp add: c enc_enc)
qed

end

end
