(* ===== verification/Aead_Chacha.thy ===== *)
theory Aead_Chacha
  imports Chacha Poly1305 Aead
begin

text \<open>
  \<open>crypto/cipher_extra/e_chacha20poly1305.c\<close>: the AEADs of ChaCha20 and XChaCha20 with Poly1305, without assembly
  (\<open>chacha20_poly1305_asm_capable\<close> is 0). They are the two interpretations of the locale of \<open>Aead\<close>, which gives what holds of
  them through the generic interface; the bytes they produce are those of RFC 8439.
\<close>

section \<open>The code\<close>

text \<open>\<open>CRYPTO_chacha_20\<close> on memory, for inputs that may be the output.\<close>

definition xor_bytes :: "mem \<Rightarrow> nat \<Rightarrow> nat \<Rightarrow> bytes \<Rightarrow> nat \<Rightarrow> mem" where
  "xor_bytes m out inp buf todo = fold (\<lambda>i m. m(out + i := m (inp + i) XOR buf ! i)) [0..<todo] m"

function chacha_20_mem_loop :: "u32 list \<Rightarrow> mem \<Rightarrow> nat \<Rightarrow> nat \<Rightarrow> nat \<Rightarrow> mem" where
  "chacha_20_mem_loop input m out inp in_len =
     (if in_len > 0 then
        let todo = (if in_len < 64 then in_len else 64);
            buf = chacha_core input;
            m = xor_bytes m out inp buf todo
        in chacha_20_mem_loop (input[12 := input ! 12 + 1]) m (out + todo) (inp + todo) (in_len - todo)
      else m)"
  by pat_completeness auto
termination by (relation "measure (\<lambda>(input, m, out, inp, in_len). in_len)") (auto split: if_splits)

declare chacha_20_mem_loop.simps [simp del]

definition CRYPTO_chacha_20_mem :: "mem \<Rightarrow> nat \<Rightarrow> nat \<Rightarrow> nat \<Rightarrow> bytes \<Rightarrow> bytes \<Rightarrow> u32 \<Rightarrow> mem" where
  "CRYPTO_chacha_20_mem m out inp in_len key nonce counter =
     chacha_20_mem_loop (le_words sigma 4 @ le_words key 8 @ [counter] @ le_words nonce 3) m out inp in_len"

definition POLY1305_TAG_LEN :: nat where "POLY1305_TAG_LEN = 16"

text \<open>The state of a context is the key.\<close>

definition aead_chacha20_poly1305_init :: "bytes \<Rightarrow> nat \<Rightarrow> cipher_error + bytes \<times> nat" where
  "aead_chacha20_poly1305_init key tag_len =
     (let tag_len = (if tag_len = 0 then POLY1305_TAG_LEN else tag_len)
      in if tag_len > POLY1305_TAG_LEN then Inl CIPHER_R_TOO_LARGE
         else if length key \<noteq> 32 then Inl CIPHER_internal
         else Inr (key, tag_len))"

definition aead_chacha20_poly1305_cleanup :: "bytes \<Rightarrow> bytes" where
  "aead_chacha20_poly1305_cleanup st = st"

text \<open>The loop stores the lowest byte and shifts, eight times.\<close>

definition poly1305_update_length :: "poly1305_st \<Rightarrow> nat \<Rightarrow> poly1305_st" where
  "poly1305_update_length poly1305 data_len = CRYPTO_poly1305_update poly1305 (le_bytes 8 data_len)"

definition calc_tag :: "bytes \<Rightarrow> bytes \<Rightarrow> bytes \<Rightarrow> bytes \<Rightarrow> bytes \<Rightarrow> bytes" where
  "calc_tag key nonce ad ciphertext ciphertext_extra =
     (let poly1305_key = CRYPTO_chacha_20 (replicate 32 0) key nonce 0;
          ctx = CRYPTO_poly1305_init poly1305_key;
          ctx = CRYPTO_poly1305_update ctx ad;
          ctx = (if length ad mod 16 \<noteq> 0 then CRYPTO_poly1305_update ctx (replicate (16 - length ad mod 16) 0) else ctx);
          ctx = CRYPTO_poly1305_update ctx ciphertext;
          ctx = CRYPTO_poly1305_update ctx ciphertext_extra;
          ciphertext_total = length ciphertext + length ciphertext_extra;
          ctx = (if ciphertext_total mod 16 \<noteq> 0 then CRYPTO_poly1305_update ctx (replicate (16 - ciphertext_total mod 16) 0) else ctx);
          ctx = poly1305_update_length ctx (length ad);
          ctx = poly1305_update_length ctx ciphertext_total
      in CRYPTO_poly1305_finish ctx)"

text \<open>The inner and the outer loop that encrypt the extra input; \<open>dn\<close> is \<open>done\<close>. The nonce is read through \<open>nonce\<close>, from the
  memory of the caller or from a local variable.\<close>

function extra_block :: "mem \<Rightarrow> nat \<Rightarrow> nat \<Rightarrow> nat \<Rightarrow> bytes \<Rightarrow> nat \<Rightarrow> nat \<Rightarrow> mem \<times> nat" where
  "extra_block m out_tag extra_in extra_in_len block i dn =
     (if i < 64 \<and> dn < extra_in_len then
        extra_block (m(out_tag + dn := m (extra_in + dn) XOR block ! i)) out_tag extra_in extra_in_len block (i + 1) (dn + 1)
      else (m, dn))"
  by pat_completeness auto
termination by (relation "measure (\<lambda>(m, out_tag, extra_in, extra_in_len, block, i, dn). 64 - i)") auto

declare extra_block.simps [simp del]

lemma extra_block_done:
  "dn \<le> extra_in_len \<Longrightarrow> snd (extra_block m out_tag extra_in extra_in_len block i dn) = dn + min (64 - i) (extra_in_len - dn)"
  by (induction m out_tag extra_in extra_in_len block i dn rule: extra_block.induct) (subst extra_block.simps, auto)

function extra_loop :: "mem \<Rightarrow> nat \<Rightarrow> nat \<Rightarrow> nat \<Rightarrow> bytes \<Rightarrow> (mem \<Rightarrow> bytes) \<Rightarrow> u32 \<Rightarrow> nat \<Rightarrow> nat \<Rightarrow> mem" where
  "extra_loop m out_tag extra_in extra_in_len key nonce block_counter offset dn =
     (if dn < extra_in_len then
        let block = CRYPTO_chacha_20 (replicate 64 0) key (nonce m) block_counter;
            r = extra_block m out_tag extra_in extra_in_len block offset dn
        in extra_loop (fst r) out_tag extra_in extra_in_len key nonce (block_counter + 1) 0 (snd r)
      else m)"
  by pat_completeness auto
termination
  by (relation "measures [\<lambda>(m, out_tag, extra_in, extra_in_len, key, nonce, block_counter, offset, dn). extra_in_len - dn,
      \<lambda>(m, out_tag, extra_in, extra_in_len, key, nonce, block_counter, offset, dn). offset]") (auto simp: extra_block_done)

declare extra_loop.simps [simp del]

definition chacha20_poly1305_seal_scatter ::
  "bytes \<Rightarrow> mem \<Rightarrow> nat \<Rightarrow> nat \<Rightarrow> nat \<Rightarrow> (mem \<Rightarrow> bytes) \<Rightarrow> nat \<Rightarrow> nat \<Rightarrow> nat \<Rightarrow> nat \<Rightarrow> nat \<Rightarrow> nat \<Rightarrow> nat \<Rightarrow> nat \<Rightarrow> (cipher_error + nat) \<times> mem" where
  "chacha20_poly1305_seal_scatter key m out out_tag max_out_tag_len nonce nonce_len inp in_len extra_in extra_in_len ad ad_len tag_len =
     (if (extra_in_len + tag_len) mod 2 ^ 64 < tag_len then (Inl CIPHER_R_TOO_LARGE, m)
      else if max_out_tag_len < (tag_len + extra_in_len) mod 2 ^ 64 then (Inl CIPHER_R_BUFFER_TOO_SMALL, m)
      else if nonce_len \<noteq> 12 then (Inl CIPHER_R_UNSUPPORTED_NONCE_SIZE, m)
      else if in_len \<ge> 2 ^ 32 * 64 - 64 then (Inl CIPHER_R_TOO_LARGE, m)
      else if max_out_tag_len < tag_len then (Inl CIPHER_R_BUFFER_TOO_SMALL, m)
      else
        let m = (if extra_in_len \<noteq> 0 then
                   let block_counter = word_of_nat (1 + in_len div 64); offset = in_len mod 64
                   in extra_loop m out_tag extra_in extra_in_len key nonce block_counter offset 0
                 else m);
            m = CRYPTO_chacha_20_mem m out inp in_len key (nonce m) 1;
            tag = calc_tag key (nonce m) (load_bytes m ad ad_len) (load_bytes m out in_len) (load_bytes m out_tag extra_in_len);
            m = store_bytes m (out_tag + extra_in_len) (take tag_len tag)
        in (Inr (extra_in_len + tag_len), m))"

definition aead_chacha20_poly1305_seal_scatter ::
  "bytes \<Rightarrow> nat \<Rightarrow> mem \<Rightarrow> nat \<Rightarrow> nat \<Rightarrow> nat \<Rightarrow> nat \<Rightarrow> nat \<Rightarrow> nat \<Rightarrow> nat \<Rightarrow> nat \<Rightarrow> nat \<Rightarrow> nat \<Rightarrow> nat \<Rightarrow> (cipher_error + nat) \<times> mem" where
  "aead_chacha20_poly1305_seal_scatter key tag_len m out out_tag max_out_tag_len nonce nonce_len inp in_len extra_in extra_in_len ad ad_len =
     chacha20_poly1305_seal_scatter key m out out_tag max_out_tag_len (\<lambda>m. load_bytes m nonce 12) nonce_len inp in_len extra_in extra_in_len
       ad ad_len tag_len"

definition xchacha_key :: "bytes \<Rightarrow> bytes \<Rightarrow> bytes" where
  "xchacha_key key nonce = CRYPTO_hchacha20 key nonce"

definition xchacha_nonce :: "bytes \<Rightarrow> bytes" where
  "xchacha_nonce nonce = replicate 4 0 @ take 8 (drop 16 nonce)"

definition aead_xchacha20_poly1305_seal_scatter ::
  "bytes \<Rightarrow> nat \<Rightarrow> mem \<Rightarrow> nat \<Rightarrow> nat \<Rightarrow> nat \<Rightarrow> nat \<Rightarrow> nat \<Rightarrow> nat \<Rightarrow> nat \<Rightarrow> nat \<Rightarrow> nat \<Rightarrow> nat \<Rightarrow> nat \<Rightarrow> (cipher_error + nat) \<times> mem" where
  "aead_xchacha20_poly1305_seal_scatter key tag_len m out out_tag max_out_tag_len nonce nonce_len inp in_len extra_in extra_in_len ad ad_len =
     (if nonce_len \<noteq> 24 then (Inl CIPHER_R_UNSUPPORTED_NONCE_SIZE, m)
      else
        let derived_key = xchacha_key key (load_bytes m nonce 24); derived_nonce = xchacha_nonce (load_bytes m nonce 24)
        in chacha20_poly1305_seal_scatter derived_key m out out_tag max_out_tag_len (\<lambda>_. derived_nonce) 12 inp in_len extra_in extra_in_len
             ad ad_len tag_len)"

definition chacha20_poly1305_open_gather ::
  "bytes \<Rightarrow> mem \<Rightarrow> nat \<Rightarrow> bytes \<Rightarrow> nat \<Rightarrow> nat \<Rightarrow> nat \<Rightarrow> nat \<Rightarrow> nat \<Rightarrow> nat \<Rightarrow> nat \<Rightarrow> nat \<Rightarrow> (cipher_error + unit) \<times> mem" where
  "chacha20_poly1305_open_gather key m out nonce nonce_len inp in_len in_tag in_tag_len ad ad_len tag_len =
     (if nonce_len \<noteq> 12 then (Inl CIPHER_R_UNSUPPORTED_NONCE_SIZE, m)
      else if in_tag_len \<noteq> tag_len then (Inl CIPHER_R_BAD_DECRYPT, m)
      else if in_len \<ge> 2 ^ 32 * 64 - 64 then (Inl CIPHER_R_TOO_LARGE, m)
      else
        let tag = calc_tag key nonce (load_bytes m ad ad_len) (load_bytes m inp in_len) [];
            m = CRYPTO_chacha_20_mem m out inp in_len key nonce 1
        in if CRYPTO_memcmp (take tag_len tag) (load_bytes m in_tag tag_len) \<noteq> 0 then (Inl CIPHER_R_BAD_DECRYPT, m)
           else (Inr (), m))"

definition aead_chacha20_poly1305_open_gather ::
  "bytes \<Rightarrow> nat \<Rightarrow> mem \<Rightarrow> nat \<Rightarrow> nat \<Rightarrow> nat \<Rightarrow> nat \<Rightarrow> nat \<Rightarrow> nat \<Rightarrow> nat \<Rightarrow> nat \<Rightarrow> nat \<Rightarrow> (cipher_error + unit) \<times> mem" where
  "aead_chacha20_poly1305_open_gather key tag_len m out nonce nonce_len inp in_len in_tag in_tag_len ad ad_len =
     chacha20_poly1305_open_gather key m out (load_bytes m nonce 12) nonce_len inp in_len in_tag in_tag_len ad ad_len tag_len"

definition aead_xchacha20_poly1305_open_gather ::
  "bytes \<Rightarrow> nat \<Rightarrow> mem \<Rightarrow> nat \<Rightarrow> nat \<Rightarrow> nat \<Rightarrow> nat \<Rightarrow> nat \<Rightarrow> nat \<Rightarrow> nat \<Rightarrow> nat \<Rightarrow> nat \<Rightarrow> (cipher_error + unit) \<times> mem" where
  "aead_xchacha20_poly1305_open_gather key tag_len m out nonce nonce_len inp in_len in_tag in_tag_len ad ad_len =
     (if nonce_len \<noteq> 24 then (Inl CIPHER_R_UNSUPPORTED_NONCE_SIZE, m)
      else
        let derived_key = xchacha_key key (load_bytes m nonce 24); derived_nonce = xchacha_nonce (load_bytes m nonce 24)
        in chacha20_poly1305_open_gather derived_key m out derived_nonce 12 inp in_len in_tag in_tag_len ad ad_len tag_len)"

definition EVP_aead_chacha20_poly1305 :: "bytes evp_aead" where
  "EVP_aead_chacha20_poly1305 =
     \<lparr>ea_key_len = 32, ea_nonce_len = 12, ea_overhead = POLY1305_TAG_LEN, ea_max_tag_len = POLY1305_TAG_LEN,
      ea_seal_scatter_supports_extra_in = True, ea_init = Some aead_chacha20_poly1305_init, ea_init_with_direction = None,
      ea_cleanup = aead_chacha20_poly1305_cleanup, ea_open = None, ea_seal_scatter = aead_chacha20_poly1305_seal_scatter,
      ea_open_gather = Some aead_chacha20_poly1305_open_gather, ea_get_iv = None, ea_tag_len = None\<rparr>"

definition EVP_aead_xchacha20_poly1305 :: "bytes evp_aead" where
  "EVP_aead_xchacha20_poly1305 =
     \<lparr>ea_key_len = 32, ea_nonce_len = 24, ea_overhead = POLY1305_TAG_LEN, ea_max_tag_len = POLY1305_TAG_LEN,
      ea_seal_scatter_supports_extra_in = True, ea_init = Some aead_chacha20_poly1305_init, ea_init_with_direction = None,
      ea_cleanup = aead_chacha20_poly1305_cleanup, ea_open = None, ea_seal_scatter = aead_xchacha20_poly1305_seal_scatter,
      ea_open_gather = Some aead_xchacha20_poly1305_open_gather, ea_get_iv = None, ea_tag_len = None\<rparr>"

section \<open>RFC 8439\<close>

definition poly1305_otk :: "bytes \<Rightarrow> bytes \<Rightarrow> bytes" where
  "poly1305_otk key nonce = take 32 (chacha20_block key 0 nonce)"

definition pad16 :: "bytes \<Rightarrow> bytes" where
  "pad16 x = replicate ((16 - length x mod 16) mod 16) 0"

definition aead_mac_data :: "bytes \<Rightarrow> bytes \<Rightarrow> bytes" where
  "aead_mac_data ad c = ad @ pad16 ad @ c @ pad16 c @ le_bytes 8 (length ad) @ le_bytes 8 (length c)"

definition chacha20_aead_encrypt :: "bytes \<Rightarrow> bytes \<Rightarrow> bytes \<Rightarrow> bytes \<Rightarrow> bytes \<times> bytes" where
  "chacha20_aead_encrypt aad key nonce plaintext =
     (let ciphertext = chacha20_encrypt key nonce 1 plaintext
      in (ciphertext, poly1305_mac (poly1305_otk key nonce) (aead_mac_data aad ciphertext)))"

section \<open>The loops\<close>

lemma xor_bytes_eq:
  "inp = out \<or> apart inp n out n \<Longrightarrow>
    xor_bytes m out inp buf n = store_bytes m out (map (\<lambda>i. m (inp + i) XOR buf ! i) [0..<n])"
proof (induction n)
  case (Suc n)
  let ?xs = "map (\<lambda>i. m (inp + i) XOR buf ! i) [0..<n]"
  have "inp = out \<or> apart inp n out n" using Suc.prems by (auto simp: apart_def)
  then have "xor_bytes m out inp buf (Suc n) = (store_bytes m out ?xs)(out + n := store_bytes m out ?xs (inp + n) XOR buf ! n)"
    using Suc.IH by (simp add: xor_bytes_def)
  also have "store_bytes m out ?xs (inp + n) = m (inp + n)" using Suc.prems by (auto simp: store_bytes_def apart_def)
  also have "(store_bytes m out ?xs)(out + n := m (inp + n) XOR buf ! n) = store_bytes m out (?xs @ [m (inp + n) XOR buf ! n])"
    by (simp add: store_bytes_append' flip: store_bytes_single)
  finally show ?case by simp
qed (simp add: xor_bytes_def)

lemma chacha_20_mem_loop_eq:
  "inp = out \<or> apart inp n out n \<Longrightarrow>
    chacha_20_mem_loop input m out inp n = store_bytes m out (chacha_20_loop input (load_bytes m inp n))"
proof (induction n arbitrary: input m out inp rule: less_induct)
  case (less n)
  show ?case
  proof (cases "n = 0")
    case False
    define k where "k = (if n < 64 then n else 64)"
    have k: "0 < k" "k \<le> n" using False by (auto simp: k_def)
    define xs where "xs = map (\<lambda>i. m (inp + i) XOR chacha_core input ! i) [0..<k]"
    have x: "xor_bytes m out inp (chacha_core input) k = store_bytes m out xs"
      unfolding xs_def using less.prems k by (intro xor_bytes_eq) (auto simp: apart_def)
    have l: "load_bytes (store_bytes m out xs) (inp + k) (n - k) = load_bytes m (inp + k) (n - k)"
      using less.prems k by (intro load_store_apart) (auto simp: apart_def xs_def)
    have "chacha_20_mem_loop input m out inp n =
        chacha_20_mem_loop (input[12 := input ! 12 + 1]) (store_bytes m out xs) (out + k) (inp + k) (n - k)"
      using False x by (subst chacha_20_mem_loop.simps) (simp add: k_def Let_def)
    also have "\<dots> = store_bytes (store_bytes m out xs) (out + k) (chacha_20_loop (input[12 := input ! 12 + 1]) (load_bytes m (inp + k) (n - k)))"
      using less.prems k by (subst less.IH) (auto simp: apart_def l)
    also have "\<dots> = store_bytes m out (chacha_20_loop input (load_bytes m inp n))"
    proof -
      have "xs = map (\<lambda>i. load_bytes m inp n ! i XOR chacha_core input ! i) [0..<k]" using k by (auto simp: xs_def)
      then have "chacha_20_loop input (load_bytes m inp n) = xs @ chacha_20_loop (input[12 := input ! 12 + 1]) (load_bytes m (inp + k) (n - k))"
        using False by (subst chacha_20_loop.simps) (simp add: k_def Let_def drop_load_bytes)
      then show ?thesis by (simp add: store_bytes_append' xs_def)
    qed
    finally show ?thesis .
  qed (simp add: chacha_20_mem_loop.simps chacha_20_loop.simps)
qed

lemma CRYPTO_chacha_20_mem_eq:
  "inp = out \<or> apart inp n out n \<Longrightarrow>
    CRYPTO_chacha_20_mem m out inp n key nonce counter = store_bytes m out (chacha20_encrypt key nonce counter (load_bytes m inp n))"
  by (simp add: CRYPTO_chacha_20_mem_def chacha_20_mem_loop_eq CRYPTO_chacha_20_def flip: CRYPTO_chacha_20_eq)

text \<open>A byte of the key stream that begins at counter 1.\<close>

definition stream_byte :: "bytes \<Rightarrow> bytes \<Rightarrow> nat \<Rightarrow> byte" where
  "stream_byte key nonce i = chacha20_block key (1 + word_of_nat (i div 64)) nonce ! (i mod 64)"

lemma nth_concat_blocks:
  "(\<And>i. length (T i) = bl) \<Longrightarrow> i < k * bl \<Longrightarrow> concat (map T [0..<k]) ! i = T (i div bl) ! (i mod bl)"
proof (induction k)
  case (Suc k)
  have l: "length (concat (map T [0..<j])) = j * bl" for j by (induction j) (simp_all add: Suc.prems(1))
  show ?case
  proof (cases "i < k * bl")
    case True
    then show ?thesis using Suc l by (simp add: nth_append)
  next
    case False
    then have "bl * k \<le> i" "i < bl * Suc k" using Suc.prems(2) by (simp_all add: mult.commute)
    then have "i div bl = k" by (rule div_nat_eqI)
    moreover from this have "i mod bl = i - k * bl" using minus_div_mult_eq_mod [of i bl] by simp
    ultimately show ?thesis using False l by (simp add: nth_append)
  qed
qed simp

lemma nth_take_blocks:
  assumes "\<And>i. length (T i) = bl" "i < n" "0 < bl"
  shows "take_blocks bl T 0 n ! i = T (i div bl) ! (i mod bl)"
proof -
  have "n \<le> (n + bl - 1) div bl * bl"
    using div_mult_mod_eq [of "n + bl - 1" bl] mod_less_divisor [OF assms(3), of "n + bl - 1"] by linarith
  then show ?thesis using assms by (simp add: take_blocks_def nth_concat_blocks)
qed

lemma chacha20_encrypt_nth:
  "i < length p \<Longrightarrow> chacha20_encrypt key nonce 1 p ! i = p ! i XOR stream_byte key nonce i"
  unfolding chacha20_encrypt_def chacha20_keystream_def stream_byte_def
  by (simp add: length_take_blocks) (simp add: nth_take_blocks)

lemma zero_block: "CRYPTO_chacha_20 (replicate 64 0) key nonce counter = chacha20_block key counter nonce"
proof -
  have "take_blocks 64 (\<lambda>i. chacha20_block key (counter + word_of_nat i) nonce) 0 64 = chacha20_block key counter nonce"
    by (subst take_blocks_step) simp_all
  then have "CRYPTO_chacha_20 (replicate 64 0) key nonce counter = map2 (XOR) (replicate 64 0) (chacha20_block key counter nonce)"
    by (simp add: CRYPTO_chacha_20_eq chacha20_encrypt_def chacha20_keystream_def)
  then show ?thesis by (simp add: list_eq_iff_nth_eq)
qed

lemma extra_block_eq:
  "dn \<le> n \<Longrightarrow> apart x n out_tag n \<Longrightarrow>
    extra_block m out_tag x n block i dn =
      (store_bytes m (out_tag + dn) (map (\<lambda>j. m (x + dn + j) XOR block ! (i + j)) [0..<min (64 - i) (n - dn)]), dn + min (64 - i) (n - dn))"
proof (induction m out_tag x n block i dn rule: extra_block.induct)
  case (1 m out_tag x n block i dn)
  show ?case
  proof (cases "i < 64 \<and> dn < n")
    case True
    let ?b = "m (x + dn) XOR block ! i"
    let ?m = "m(out_tag + dn := ?b)"
    have s: "min (64 - i) (n - dn) = Suc (min (64 - (i + 1)) (n - (dn + 1)))" using True by auto
    have r: "?m (x + (dn + 1) + j) = m (x + dn + Suc j)" if "j < n - (dn + 1)" for j using 1(3) that by (auto simp: apart_def)
    have "extra_block m out_tag x n block i dn = extra_block ?m out_tag x n block (i + 1) (dn + 1)"
      using True by (subst extra_block.simps) simp
    also have "\<dots> = (store_bytes ?m (out_tag + (dn + 1)) (map (\<lambda>j. ?m (x + (dn + 1) + j) XOR block ! (i + 1 + j)) [0..<min (64 - (i + 1)) (n - (dn + 1))]),
        dn + 1 + min (64 - (i + 1)) (n - (dn + 1)))"
      by (rule 1(1) [OF True _ 1(3)]) (use True in simp)
    also have "map (\<lambda>j. ?m (x + (dn + 1) + j) XOR block ! (i + 1 + j)) [0..<min (64 - (i + 1)) (n - (dn + 1))] =
        map (\<lambda>j. m (x + dn + Suc j) XOR block ! (i + Suc j)) [0..<min (64 - (i + 1)) (n - (dn + 1))]"
      using r by (intro map_cong) (simp_all del: fun_upd_apply)
    also have "store_bytes ?m (out_tag + (dn + 1)) \<dots> = store_bytes m (out_tag + dn) (?b # \<dots>)"
      using store_bytes_append' [of "out_tag + (dn + 1)" "out_tag + dn" "[?b]" m] by (simp add: store_bytes_single)
    also have "?b # map (\<lambda>j. m (x + dn + Suc j) XOR block ! (i + Suc j)) [0..<min (64 - (i + 1)) (n - (dn + 1))] =
        map (\<lambda>j. m (x + dn + j) XOR block ! (i + j)) [0..<min (64 - i) (n - dn)]"
      unfolding s by (simp only: map_upt_Suc) simp
    finally show ?thesis unfolding s by simp
  next
    case False
    then have "min (64 - i) (n - dn) = 0" using 1(2) by auto
    then show ?thesis using False by (subst extra_block.simps) auto
  qed
qed

lemma map_shift_upt: "map (\<lambda>j. f (d + j)) [0..<k] = map f [d..<d + k]"
  by (rule nth_equalityI) auto

lemma stream_byte_block:
  assumes "p mod 64 + j < 64"
  shows "stream_byte key nonce (p + j) = chacha20_block key (1 + word_of_nat (p div 64)) nonce ! (p mod 64 + j)"
proof -
  have p: "p + j = (p mod 64 + j) + 64 * (p div 64)" by simp
  have "(p + j) div 64 = p div 64" "(p + j) mod 64 = p mod 64 + j"
    unfolding p using assms by (simp_all only: div_mult_self2 mod_mult_self2) simp_all
  then show ?thesis by (simp add: stream_byte_def)
qed

lemma extra_loop_eq:
  assumes ap: "apart x n out_tag n"
    and dn: "dn \<le> n" and c: "counter = 1 + word_of_nat ((len + dn) div 64)" "offset = (len + dn) mod 64"
    and nonce: "\<And>m m'. (\<And>a. a < out_tag \<or> out_tag + n \<le> a \<Longrightarrow> m' a = m a) \<Longrightarrow> nonce m' = nonce m"
  shows "extra_loop m out_tag x n key nonce counter offset dn =
      store_bytes m (out_tag + dn) (map (\<lambda>j. m (x + j) XOR stream_byte key (nonce m) (len + j)) [dn..<n])"
  using dn c
proof (induction "n - dn" arbitrary: m counter offset dn rule: less_induct)
  case less
  let ?f = "\<lambda>j. m (x + j) XOR stream_byte key (nonce m) (len + j)"
  show ?case
  proof (cases "dn < n")
    case True
    define k where "k = min (64 - offset) (n - dn)"
    have o: "offset < 64" using less.prems(3) by simp
    then have k: "0 < k" "k \<le> n - dn" "k \<le> 64 - offset" using True by (auto simp: k_def)
    define m1 where "m1 = store_bytes m (out_tag + dn) (map ?f [dn..<dn + k])"
    have "map (\<lambda>j. m (x + dn + j) XOR chacha20_block key counter (nonce m) ! (offset + j)) [0..<k] = map (\<lambda>j. ?f (dn + j)) [0..<k]"
      using stream_byte_block [of "len + dn" _ key "nonce m"] k(3) o less.prems(2,3) by (intro map_cong) (simp_all add: add.assoc)
    also note map_shift_upt [of ?f]
    finally have b: "extra_block m out_tag x n (chacha20_block key counter (nonce m)) offset dn = (m1, dn + k)"
      using True ap by (simp add: extra_block_eq m1_def k_def)
    have l: "extra_loop m out_tag x n key nonce counter offset dn = extra_loop m1 out_tag x n key nonce (counter + 1) 0 (dn + k)"
      using True by (subst extra_loop.simps) (simp add: zero_block b)
    have n1: "nonce m1 = nonce m" using k by (intro nonce) (auto simp: m1_def store_bytes_def)
    show ?thesis
    proof (cases "dn + k = n")
      case True
      then show ?thesis unfolding l by (subst extra_loop.simps) (simp add: m1_def)
    next
      case False
      then have k64: "k = 64 - offset" using k by (auto simp: k_def)
      have p: "len + dn + k = 64 * Suc ((len + dn) div 64)"
      proof -
        obtain Q where Q: "(len + dn) div 64 = Q" by simp
        have "len + dn = 64 * ((len + dn) div 64) + offset" unfolding less.prems(3) by simp
        then show ?thesis using o unfolding k64 Q by arith
      qed
      then have q: "(len + (dn + k)) div 64 = Suc ((len + dn) div 64)" "(len + (dn + k)) mod 64 = 0" by (simp_all add: add.assoc)
      have "m1 (x + j) = m (x + j)" if "j < n" for j using ap that k by (auto simp: m1_def store_bytes_def apart_def)
      then have M: "map (\<lambda>j. m1 (x + j) XOR stream_byte key (nonce m1) (len + j)) [dn + k..<n] = map ?f [dn + k..<n]" by (simp add: n1)
      have L: "extra_loop m1 out_tag x n key nonce (counter + 1) 0 (dn + k) = store_bytes m1 (out_tag + (dn + k)) (map ?f [dn + k..<n])"
        unfolding M [symmetric] using k True q less.prems(2) by (intro less.hyps) simp_all
      have "[dn..<n] = [dn..<dn + k] @ [dn + k..<n]" using k upt_add_eq_append [of dn "dn + k" "n - (dn + k)"] by simp
      then have "store_bytes m1 (out_tag + (dn + k)) (map ?f [dn + k..<n]) = store_bytes m (out_tag + dn) (map ?f [dn..<n])"
        unfolding m1_def by (simp only: map_append) (rule store_bytes_append', simp)
      then show ?thesis unfolding l L .
    qed
  next
    case False
    then show ?thesis by (subst extra_loop.simps) simp
  qed
qed

section \<open>The tag\<close>

lemma otk_eq: "CRYPTO_chacha_20 (replicate 32 0) key nonce 0 = poly1305_otk key nonce" and length_otk [simp]: "length (poly1305_otk key nonce) = 32"
proof -
  have "take_blocks 64 (\<lambda>i. chacha20_block key (word_of_nat i) nonce) 0 32 = poly1305_otk key nonce"
    by (subst take_blocks_step) (simp_all add: poly1305_otk_def)
  then have "CRYPTO_chacha_20 (replicate 32 0) key nonce 0 = map2 (XOR) (replicate 32 0) (poly1305_otk key nonce)"
    by (simp add: CRYPTO_chacha_20_eq chacha20_encrypt_def chacha20_keystream_def)
  then show "CRYPTO_chacha_20 (replicate 32 0) key nonce 0 = poly1305_otk key nonce" by (simp add: list_eq_iff_nth_eq poly1305_otk_def)
qed (simp add: poly1305_otk_def)

lemma calc_tag_pieces:
  "calc_tag key nonce ad c1 c2 =
    CRYPTO_poly1305_finish (foldl CRYPTO_poly1305_update (CRYPTO_poly1305_init (poly1305_otk key nonce)) [aead_mac_data ad (c1 @ c2)])"
proof -
  have p: "pad16 y = (if n mod 16 \<noteq> 0 then replicate (16 - n mod 16) 0 else [])" if "length y = n" for y n
    using that by (auto simp: pad16_def)
  have "calc_tag key nonce ad c1 c2 = CRYPTO_poly1305_finish (foldl CRYPTO_poly1305_update (CRYPTO_poly1305_init (poly1305_otk key nonce))
      ([ad] @ (if length ad mod 16 \<noteq> 0 then [pad16 ad] else []) @ [c1, c2] @ (if length (c1 @ c2) mod 16 \<noteq> 0 then [pad16 (c1 @ c2)] else []) @
       [le_bytes 8 (length ad), le_bytes 8 (length (c1 @ c2))]))"
    by (simp add: calc_tag_def Let_def otk_eq poly1305_update_length_def p)
  also have "\<dots> = CRYPTO_poly1305_finish (foldl CRYPTO_poly1305_update (CRYPTO_poly1305_init (poly1305_otk key nonce)) [aead_mac_data ad (c1 @ c2)])"
    by (rule poly1305_pieces) (simp_all add: aead_mac_data_def p)
  finally show ?thesis .
qed

lemma calc_tag_split: "calc_tag key nonce ad c1 c2 = calc_tag key nonce ad (c1 @ c2) []"
  by (simp add: calc_tag_pieces)

lemma length_calc_tag [simp]: "length (calc_tag key nonce ad c1 c2) = 16"
  by (simp add: calc_tag_def Let_def)

lemma calc_tag_RFC8439:
  assumes "\<not> poly1305_exceptional (poly1305_acc (poly1305_r (poly1305_otk key nonce)) 0 (aead_mac_data ad (chacha20_encrypt key nonce 1 p)))"
  shows "(chacha20_encrypt key nonce 1 p, calc_tag key nonce ad (chacha20_encrypt key nonce 1 p) []) = chacha20_aead_encrypt ad key nonce p"
  using assms poly1305_streams [of "poly1305_otk key nonce" "[aead_mac_data ad (chacha20_encrypt key nonce 1 p)]"]
  by (simp add: chacha20_aead_encrypt_def calc_tag_pieces Let_def)

section \<open>The laws\<close>

lemma seal_scatter_rejects:
  assumes "\<not> (n_len = 12 \<and> len < 2 ^ 38 - 64 \<and> t + x_len \<le> max_len)" "t + x_len < 2 ^ 64"
  shows "\<exists>e. chacha20_poly1305_seal_scatter key m out out_tag max_len nonce n_len inp len x x_len ad ad_len t = (Inl e, m)"
proof -
  have "(x_len + t) mod 2 ^ 64 = x_len + t" "(t + x_len) mod 2 ^ 64 = t + x_len" using assms(2) by (auto simp: add.commute)
  then show ?thesis using assms(1) unfolding chacha20_poly1305_seal_scatter_def by auto
qed

lemma seal_scatter_law:
  assumes len: "len < 2 ^ 38 - 64" "t \<le> 16" "t + x_len \<le> max_len" "max_len < 2 ^ 64"
    and pl: "inp = out \<or> apart inp len out len" "apart out len out_tag (x_len + t)" "apart inp len out_tag (x_len + t)"
      "apart ad ad_len out len" "apart ad ad_len out_tag (x_len + t)" "apart x x_len out_tag (x_len + t)"
    and nonce: "\<And>m m'. (\<And>a. a < out_tag \<or> out_tag + (x_len + t) \<le> a \<Longrightarrow> a < out \<or> out + len \<le> a \<Longrightarrow> m' a = m a) \<Longrightarrow> nonce m' = nonce m"
    and c: "c = chacha20_encrypt key (nonce m) 1 (load_bytes m inp len @ load_bytes m x x_len)"
  shows "chacha20_poly1305_seal_scatter key m out out_tag max_len nonce 12 inp len x x_len ad ad_len t =
    (Inr (x_len + t), store_bytes (store_bytes m out (take len c)) out_tag (drop len c @ take t (calc_tag key (nonce m) (load_bytes m ad ad_len) c [])))"
proof -
  let ?n = "nonce m"
  let ?c2 = "map (\<lambda>j. m (x + j) XOR stream_byte key ?n (len + j)) [0..<x_len]"
  define m1 where "m1 = store_bytes m out_tag ?c2"
  have d: "drop len c = ?c2" unfolding c by (rule nth_equalityI) (auto simp: chacha20_encrypt_nth nth_append)
  have tk: "take len c = chacha20_encrypt key ?n 1 (load_bytes m inp len)"
    unfolding c by (rule nth_equalityI) (auto simp: chacha20_encrypt_nth nth_append)
  have lc: "length c = len + x_len" by (simp add: c)
  have x: "(if x_len \<noteq> 0 then let block_counter = word_of_nat (1 + len div 64); offset = len mod 64
      in extra_loop m out_tag x x_len key nonce block_counter offset 0 else m) = m1"
  proof (cases "x_len = 0")
    case False
    have "extra_loop m out_tag x x_len key nonce (word_of_nat (1 + len div 64)) (len mod 64) 0 = store_bytes m (out_tag + 0) ?c2"
    proof (rule extra_loop_eq)
      show "nonce m' = nonce m" if "\<And>a. a < out_tag \<or> out_tag + x_len \<le> a \<Longrightarrow> m' a = m a" for m m' using that by (intro nonce) auto
    qed (use pl(6) in \<open>auto simp: apart_def\<close>)
    then show ?thesis using False by (simp add: m1_def Let_def)
  qed (simp add: m1_def)
  have n1: "nonce m1 = ?n" by (intro nonce) (auto simp: m1_def store_bytes_def)
  have i1: "load_bytes m1 inp len = load_bytes m inp len" unfolding m1_def using pl(3) by (intro load_store_apart) (auto simp: apart_def)
  define m2 where "m2 = store_bytes m1 out (take len c)"
  have m2: "CRYPTO_chacha_20_mem m1 out inp len key (nonce m1) 1 = m2" using CRYPTO_chacha_20_mem_eq [OF pl(1)] by (simp add: m2_def n1 i1 tk)
  have m2': "m2 = store_bytes (store_bytes m out (take len c)) out_tag (drop len c)"
    unfolding m2_def m1_def d using pl(2) lc by (intro store_bytes_swap) (auto simp: apart_def)
  have n2: "nonce m2 = ?n" using lc by (intro nonce) (auto simp: m2_def m1_def store_bytes_def)
  have l2: "load_bytes m2 out len = take len c" "load_bytes m2 out_tag x_len = drop len c" "load_bytes m2 ad ad_len = load_bytes m ad ad_len"
  proof -
    show "load_bytes m2 out len = take len c" by (simp add: m2_def lc)
    show "load_bytes m2 out_tag x_len = drop len c" by (simp add: m2' lc)
    show "load_bytes m2 ad ad_len = load_bytes m ad ad_len"
      unfolding m2_def m1_def using pl(4,5) lc by (subst load_store_apart, simp, subst load_store_apart) (auto simp: apart_def)
  qed
  have sz: "(x_len + t) mod 2 ^ 64 = x_len + t" "(t + x_len) mod 2 ^ 64 = t + x_len" using len(3,4) by (auto simp: add.commute)
  have g: "\<not> x_len + t < t" "\<not> max_len < t + x_len" "\<not> len \<ge> 2 ^ 32 * 64 - 64" "\<not> max_len < t" using len by auto
  show ?thesis
    unfolding chacha20_poly1305_seal_scatter_def sz x unfolding Let_def m2 using g
    by (simp add: n2 l2 calc_tag_split [of _ _ _ "take len c" "drop len c"])
      (simp add: m2' lc store_bytes_append')
qed

lemma open_gather_law:
  assumes "len < 2 ^ 38 - 64" "t \<le> 16" "open_placed out len inp in_tag t"
  shows "chacha20_poly1305_open_gather key m out n 12 inp len in_tag t ad ad_len t =
    (if load_bytes m in_tag t = take t (calc_tag key n (load_bytes m ad ad_len) (load_bytes m inp len) []) then Inr ()
     else Inl CIPHER_R_BAD_DECRYPT, store_bytes m out (chacha20_encrypt key n 1 (load_bytes m inp len)))"
proof -
  have "inp = out \<or> apart inp len out len" "apart in_tag t out len" using assms(3) by (auto simp: open_placed_def)
  then have "CRYPTO_chacha_20_mem m out inp len key n 1 = store_bytes m out (chacha20_encrypt key n 1 (load_bytes m inp len))"
    and "load_bytes (store_bytes m out (chacha20_encrypt key n 1 (load_bytes m inp len))) in_tag t = load_bytes m in_tag t"
    by (simp_all add: CRYPTO_chacha_20_mem_eq load_store_apart)
  moreover have "\<not> len \<ge> 2 ^ 32 * 64 - 64" using assms(1) by simp
  ultimately show ?thesis
    using assms(2) unfolding chacha20_poly1305_open_gather_def Let_def by (auto simp: CRYPTO_memcmp_eq_0)
qed

lemma open_gather_rejects:
  "\<not> (n_len = 12 \<and> len < 2 ^ 38 - 64 \<and> t_len = t) \<Longrightarrow>
    \<exists>e. chacha20_poly1305_open_gather key m out n n_len inp len in_tag t_len ad ad_len t = (Inl e, m)"
  by (auto simp: chacha20_poly1305_open_gather_def)

section \<open>The two interpretations\<close>

definition chacha_enc :: "bytes \<Rightarrow> bytes \<Rightarrow> bytes \<Rightarrow> bytes" where
  "chacha_enc key nonce p = chacha20_encrypt key nonce 1 p"

definition chacha_tag :: "bytes \<Rightarrow> bytes \<Rightarrow> bytes \<Rightarrow> bytes \<Rightarrow> bytes" where
  "chacha_tag key nonce ad c = calc_tag key nonce ad c []"

definition xchacha_enc :: "bytes \<Rightarrow> bytes \<Rightarrow> bytes \<Rightarrow> bytes" where
  "xchacha_enc key nonce = chacha_enc (xchacha_key key nonce) (xchacha_nonce nonce)"

definition xchacha_tag :: "bytes \<Rightarrow> bytes \<Rightarrow> bytes \<Rightarrow> bytes \<Rightarrow> bytes" where
  "xchacha_tag key nonce = chacha_tag (xchacha_key key nonce) (xchacha_nonce nonce)"

lemma aead_seal_methods:
  "ea_seal_scatter EVP_aead_chacha20_poly1305 = aead_chacha20_poly1305_seal_scatter"
  "ea_seal_scatter EVP_aead_xchacha20_poly1305 = aead_xchacha20_poly1305_seal_scatter"
  by (simp_all add: EVP_aead_chacha20_poly1305_def EVP_aead_xchacha20_poly1305_def)

lemmas aead_methods =
  EVP_aead_chacha20_poly1305_def EVP_aead_xchacha20_poly1305_def aead_chacha20_poly1305_seal_scatter_def aead_xchacha20_poly1305_seal_scatter_def
  aead_chacha20_poly1305_open_gather_def aead_xchacha20_poly1305_open_gather_def chacha_enc_def chacha_tag_def xchacha_enc_def xchacha_tag_def
  POLY1305_TAG_LEN_def

interpretation chacha: aead_method EVP_aead_chacha20_poly1305 aead_chacha20_poly1305_open_gather 12 "2 ^ 38 - 64" 16 chacha_enc chacha_tag
proof (unfold_locales)
  fix len t x_len max_len :: nat and m :: mem and out out_tag nonce inp x ad ad_len :: nat and s c :: bytes
  assume h: "len < 2 ^ 38 - 64" "t \<le> 16" "t + x_len \<le> max_len" "max_len < 2 ^ 64"
    "seal_placed out len out_tag (x_len + t) nonce 12 inp x x_len ad ad_len"
    "c = chacha_enc s (load_bytes m nonce 12) (load_bytes m inp len @ load_bytes m x x_len)"
  have np: "apart nonce 12 out len" "apart nonce 12 out_tag (x_len + t)" using h(5) by (simp_all add: seal_placed_def)
  show "ea_seal_scatter EVP_aead_chacha20_poly1305 s t m out out_tag max_len nonce 12 inp len x x_len ad ad_len =
      (Inr (x_len + t), store_bytes (store_bytes m out (take len c)) out_tag
         (drop len c @ take t (chacha_tag s (load_bytes m nonce 12) (load_bytes m ad ad_len) c)))"
    unfolding aead_seal_methods aead_chacha20_poly1305_seal_scatter_def chacha_tag_def
  proof (rule seal_scatter_law [OF h(1-4)])
    show "load_bytes m' nonce 12 = load_bytes m nonce 12"
      if "\<And>a. a < out_tag \<or> out_tag + (x_len + t) \<le> a \<Longrightarrow> a < out \<or> out + len \<le> a \<Longrightarrow> m' a = m a" for m m'
      using np by (intro load_bytes_cong that) (auto simp: apart_def)
  qed (use h(5) in \<open>simp_all add: seal_placed_def h(6) chacha_enc_def\<close>)
qed (simp_all add: aead_methods chacha20_encrypt_involution seal_scatter_rejects open_gather_rejects open_gather_law)

interpretation xchacha: aead_method EVP_aead_xchacha20_poly1305 aead_xchacha20_poly1305_open_gather 24 "2 ^ 38 - 64" 16 xchacha_enc xchacha_tag
proof (unfold_locales)
  fix len t x_len max_len :: nat and m :: mem and out out_tag nonce inp x ad ad_len :: nat and s c :: bytes
  assume h: "len < 2 ^ 38 - 64" "t \<le> 16" "t + x_len \<le> max_len" "max_len < 2 ^ 64"
    "seal_placed out len out_tag (x_len + t) nonce 24 inp x x_len ad ad_len"
    "c = xchacha_enc s (load_bytes m nonce 24) (load_bytes m inp len @ load_bytes m x x_len)"
  show "ea_seal_scatter EVP_aead_xchacha20_poly1305 s t m out out_tag max_len nonce 24 inp len x x_len ad ad_len =
      (Inr (x_len + t), store_bytes (store_bytes m out (take len c)) out_tag
         (drop len c @ take t (xchacha_tag s (load_bytes m nonce 24) (load_bytes m ad ad_len) c)))"
    unfolding aead_seal_methods aead_xchacha20_poly1305_seal_scatter_def chacha_tag_def xchacha_tag_def Let_def simp_thms if_False
    by (rule seal_scatter_law [OF h(1-4)]) (use h(5) in \<open>simp_all add: seal_placed_def h(6) chacha_enc_def xchacha_enc_def\<close>)
next
  fix n_len len t x_len max_len :: nat and m :: mem and out out_tag nonce inp x ad ad_len :: nat and s :: bytes
  assume "\<not> (n_len = 24 \<and> len < 2 ^ 38 - 64 \<and> t + x_len \<le> max_len)" "t + x_len < 2 ^ 64"
  then show "\<exists>e. ea_seal_scatter EVP_aead_xchacha20_poly1305 s t m out out_tag max_len nonce n_len inp len x x_len ad ad_len = (Inl e, m)"
    using seal_scatter_rejects [of 12 len t x_len max_len] by (cases "n_len = 24") (simp_all add: aead_methods Let_def)
next
  fix n_len len t t_len :: nat and m :: mem and out nonce inp in_tag ad ad_len :: nat and s :: bytes
  assume "\<not> (n_len = 24 \<and> len < 2 ^ 38 - 64 \<and> t_len = t)"
  then show "\<exists>e. aead_xchacha20_poly1305_open_gather s t m out nonce n_len inp len in_tag t_len ad ad_len = (Inl e, m)"
    using open_gather_rejects [of 12 len t_len t] by (cases "n_len = 24") (simp_all add: aead_methods Let_def)
qed (simp_all add: aead_methods chacha20_encrypt_involution open_gather_law Let_def)

section \<open>What the interface guarantees\<close>

lemma init_context:
  assumes "EVP_AEAD_CTX_init ctx0 aead key tag_len = (Inr (), ctx)"
    "aead = EVP_aead_chacha20_poly1305 \<or> aead = EVP_aead_xchacha20_poly1305"
  shows "cx_aead ctx = Some aead" "cx_state ctx = key" "cx_tag_len ctx \<le> 16"
    "cx_tag_len ctx = (if tag_len = 0 then 16 else tag_len)"
proof -
  have "ea_init aead = Some aead_chacha20_poly1305_init" using assms(2) by (auto simp: aead_methods)
  then show "cx_aead ctx = Some aead" "cx_state ctx = key" "cx_tag_len ctx \<le> 16" "cx_tag_len ctx = (if tag_len = 0 then 16 else tag_len)"
    using assms(1)
    by (auto simp: EVP_AEAD_CTX_init_def EVP_AEAD_CTX_init_with_direction_def aead_chacha20_poly1305_init_def POLY1305_TAG_LEN_def Let_def
        split: if_splits)
qed

text \<open>C13: for ChaCha20-Poly1305 and XChaCha20-Poly1305, in place or not and with a tag of any length, a message that
  \<open>EVP_AEAD_CTX_seal\<close> has sealed is what \<open>EVP_AEAD_CTX_open\<close> writes, and nothing else is written, when it is given the same nonce,
  associated data and key and a buffer with room for the message.
\<close>

theorem aead_seal_open:
  assumes init: "EVP_AEAD_CTX_init ctx0 aead key tag_len = (Inr (), ctx)"
    and aead: "aead = EVP_aead_chacha20_poly1305 \<or> aead = EVP_aead_xchacha20_poly1305"
    and mem: "inp + in_len < 2 ^ 64" "out + max_out_len < 2 ^ 64"
    and placed: "apart nonce nonce_len out max_out_len" "apart ad ad_len out max_out_len"
    and sealed: "EVP_AEAD_CTX_seal ctx m out max_out_len nonce nonce_len inp in_len ad ad_len = (Inr out_len, m')"
    and same: "load_bytes m2 inp2 out_len = load_bytes m' out out_len" "load_bytes m2 nonce2 nonce_len = load_bytes m nonce nonce_len"
      "load_bytes m2 ad2 ad_len = load_bytes m ad ad_len"
    and mem2: "inp2 + out_len < 2 ^ 64" "out2 + max_out_len2 < 2 ^ 64" "in_len \<le> max_out_len2"
      "inp2 = out2 \<or> apart inp2 out_len out2 max_out_len2"
  shows "EVP_AEAD_CTX_open ctx m2 out2 max_out_len2 nonce2 nonce_len inp2 out_len ad2 ad_len =
    (Inr in_len, store_bytes m2 out2 (load_bytes m inp in_len))"
  using aead init_context [OF init aead] chacha.seal_open [OF _ _ mem placed sealed same mem2] xchacha.seal_open [OF _ _ mem placed sealed same mem2]
  by metis

text \<open>A message of four bytes sealed in a larger buffer and opened in place.\<close>

lemma aead_seal_open_witness:
  "let ctx = snd (EVP_AEAD_CTX_init (EVP_AEAD_CTX_zero []) EVP_aead_chacha20_poly1305 (replicate 32 7) 0);
       r = EVP_AEAD_CTX_seal ctx (\<lambda>_. 5) 100 30 200 12 300 4 400 2
   in fst r = Inr 20 \<and> EVP_AEAD_CTX_open ctx (snd r) 100 30 200 12 100 20 400 2 =
     (Inr 4, store_bytes (snd r) 100 [5, 5, 5, 5])"
proof -
  define ctx where "ctx = snd (EVP_AEAD_CTX_init (EVP_AEAD_CTX_zero []) EVP_aead_chacha20_poly1305 (replicate 32 7) 0)"
  have i: "EVP_AEAD_CTX_init (EVP_AEAD_CTX_zero []) EVP_aead_chacha20_poly1305 (replicate 32 7) 0 = (Inr (), ctx)"
    by (simp add: ctx_def EVP_AEAD_CTX_init_def EVP_AEAD_CTX_init_with_direction_def aead_methods aead_chacha20_poly1305_init_def)
  note C = init_context [OF i, simplified]
  define m :: mem where "m = (\<lambda>_. 5)"
  obtain m' where s: "EVP_AEAD_CTX_seal ctx m 100 30 200 12 300 4 400 2 = (Inr 20, m')"
    using chacha.seal_accepts [of ctx 300 4 100 30 200 400 2 m] C by (auto simp: apart_def)
  have w: "m' = store_bytes m 100 (chacha.sealed key t n a p)" if "key = cx_state ctx" "t = cx_tag_len ctx" "n = load_bytes m 200 12"
    "a = load_bytes m 400 2" "p = load_bytes m 300 4" for key t n a p
    using chacha.seal_out(5) [OF _ _ _ _ _ _ s] C that by (simp add: apart_def)
  have same: "load_bytes m' 200 12 = load_bytes m 200 12" "load_bytes m' 400 2 = load_bytes m 400 2"
    unfolding w [OF refl refl refl refl refl] using C by (simp_all add: load_store_apart apart_def chacha.length_sealed)
  have "EVP_AEAD_CTX_open ctx m' 100 30 200 12 100 20 400 2 = (Inr 4, store_bytes m' 100 (load_bytes m 300 4))"
    by (rule aead_seal_open [OF i _ _ _ _ _ s _ same]) (simp_all add: apart_def)
  moreover have "load_bytes m 300 4 = [5, 5, 5, 5]" by (simp add: load_bytes_def m_def upt_rec)
  ultimately show ?thesis by (simp add: s ctx_def [symmetric] m_def [symmetric])
qed

definition chacha20_poly1305_sealed :: "bytes \<Rightarrow> nat \<Rightarrow> bytes \<Rightarrow> bytes \<Rightarrow> bytes \<Rightarrow> bytes" where
  "chacha20_poly1305_sealed key tag_len nonce ad p =
     (let c = chacha20_encrypt key nonce 1 p in c @ take tag_len (calc_tag key nonce ad c []))"

lemma chacha_sealed: "chacha.sealed = chacha20_poly1305_sealed"
  by (intro ext) (simp add: chacha.sealed_def chacha20_poly1305_sealed_def chacha_enc_def chacha_tag_def Let_def)

text \<open>C12: \<open>EVP_AEAD_CTX_open\<close> of ChaCha20-Poly1305 accepts nothing but sealed messages of the nonce and the associated data, and every
  one of them that fits the buffer; then the message is all it writes. Otherwise the output buffer holds zeros in its whole
  length and the rest of the memory is as it was.
\<close>

theorem aead_open_exact:
  assumes init: "EVP_AEAD_CTX_init ctx0 EVP_aead_chacha20_poly1305 key tag_len = (Inr (), ctx)"
    and mem: "inp + in_len < 2 ^ 64" "out + max_out_len < 2 ^ 64" "inp = out \<or> apart inp in_len out max_out_len"
  shows "case EVP_AEAD_CTX_open ctx m out max_out_len nonce nonce_len inp in_len ad ad_len of
      (Inr k, m') \<Rightarrow> \<exists>p. length p = k \<and> m' = store_bytes m out p \<and>
        load_bytes m inp in_len = chacha20_poly1305_sealed key (if tag_len = 0 then 16 else tag_len) (load_bytes m nonce 12) (load_bytes m ad ad_len) p
    | (Inl e, m') \<Rightarrow> m' = store_bytes m out (replicate max_out_len 0) \<and>
        (\<nexists>p. nonce_len = 12 \<and> length p < 2 ^ 38 - 64 \<and> length p \<le> max_out_len \<and>
          load_bytes m inp in_len = chacha20_poly1305_sealed key (if tag_len = 0 then 16 else tag_len) (load_bytes m nonce 12) (load_bytes m ad ad_len) p)"
proof -
  note C = init_context [OF init, simplified]
  let ?t = "if tag_len = 0 then 16 else tag_len" and ?n = "load_bytes m nonce 12" and ?a = "load_bytes m ad ad_len"
  define k where "k = in_len - ?t"
  define p where "p = chacha_enc key ?n (load_bytes m inp k)"
  have ali: "inp = out \<or> \<not> buffers_alias inp in_len out max_out_len" using mem(3) buffers_alias_iff [OF mem(1,2)] by blast
  have cases: "if nonce_len = 12 \<and> k < 2 ^ 38 - 64 \<and> k \<le> max_out_len \<and> ?t \<le> in_len \<and> load_bytes m inp in_len = chacha20_poly1305_sealed key ?t ?n ?a p
    then EVP_AEAD_CTX_open ctx m out max_out_len nonce nonce_len inp in_len ad ad_len = (Inr k, store_bytes m out p)
    else \<exists>e. EVP_AEAD_CTX_open ctx m out max_out_len nonce nonce_len inp in_len ad ad_len = (Inl e, store_bytes m out (replicate max_out_len 0))"
    using chacha.open_cases [OF C(1,3) mem(1,2), where m = m and nonce = nonce and n_len = nonce_len and ad = ad and ad_len = ad_len,
        unfolded C(2,4) chacha_sealed, folded k_def, folded p_def]
    by (simp only: ali simp_thms)
  have only: "?t \<le> in_len \<and> length q = k \<and> q = p" if q: "load_bytes m inp in_len = chacha20_poly1305_sealed key ?t ?n ?a q" for q
  proof -
    have "in_len = length q + ?t" using arg_cong [OF q, of length] C(3,4) by (simp add: chacha20_poly1305_sealed_def Let_def)
    moreover have "chacha_enc key ?n q = load_bytes m inp (length q)"
      using arg_cong [OF q, of "take (length q)"] \<open>in_len = length q + ?t\<close> by (simp add: chacha20_poly1305_sealed_def Let_def take_load_bytes chacha_enc_def)
    ultimately show ?thesis using chacha.enc_enc [of key ?n q] by (simp add: p_def k_def)
  qed
  have "length p = k" by (simp add: p_def chacha_enc_def)
  then show ?thesis using cases only by (auto split: if_splits)
qed

lemma aead_open_exact_witness:
  "let ctx = snd (EVP_AEAD_CTX_init (EVP_AEAD_CTX_zero []) EVP_aead_chacha20_poly1305 (replicate 32 7) 8)
   in case EVP_AEAD_CTX_open ctx (\<lambda>_. 5) 100 30 200 12 100 6 400 2 of
        (Inr k, m') \<Rightarrow> False | (Inl e, m') \<Rightarrow> m' = store_bytes (\<lambda>_. 5) 100 (replicate 30 0)"
proof -
  define ctx where "ctx = snd (EVP_AEAD_CTX_init (EVP_AEAD_CTX_zero []) EVP_aead_chacha20_poly1305 (replicate 32 7) 8)"
  have i: "EVP_AEAD_CTX_init (EVP_AEAD_CTX_zero []) EVP_aead_chacha20_poly1305 (replicate 32 7) 8 = (Inr (), ctx)"
    by (simp add: ctx_def EVP_AEAD_CTX_init_def EVP_AEAD_CTX_init_with_direction_def aead_methods aead_chacha20_poly1305_init_def)
  have "length (chacha20_poly1305_sealed (replicate 32 7) 8 n a p) \<noteq> 6" for n a p by (simp add: chacha20_poly1305_sealed_def Let_def)
  then have "load_bytes m x 6 \<noteq> chacha20_poly1305_sealed (replicate 32 7) 8 n a p" for m x n a p by (metis length_load_bytes)
  then show ?thesis
    using aead_open_exact [OF i, where inp = 100 and in_len = 6 and out = 100 and max_out_len = 30 and m = "\<lambda>_. 5" and nonce = 200 and nonce_len = 12 and ad = 400 and ad_len = 2] unfolding ctx_def [symmetric] Let_def
    by (auto split: prod.splits sum.splits)
qed

text \<open>
  The limit on the length of the input does not count the extra input: after the longest input of which the last block has
  one byte left, the second byte of the extra input meets the block of counter 0, which is the key of Poly1305.
\<close>

lemma extra_in_uses_poly1305_key: "stream_byte key nonce (2 ^ 38 - 65 + 1) = poly1305_otk key nonce ! 0"
proof -
  have "(2 ^ 38 - 65 + 1) div 64 = (2 ^ 32 - 1 :: nat)" "(2 ^ 38 - 65 + 1) mod 64 = (0 :: nat)" by simp_all
  moreover have "1 + word_of_nat (2 ^ 32 - 1) = (0 :: u32)" by simp
  ultimately show ?thesis unfolding stream_byte_def poly1305_otk_def by (simp only: nth_take)
qed

end
