(* ===== verification/Unicode.thy ===== *)
theory Unicode
  imports Cbb_Roundtrip
begin

text \<open>
  The readers and writers of characters (\<open>crypto/bytestring/unicode.c\<close>): UTF-8, Latin-1, UCS-2 and UTF-32.

  The first part are the functions of the source. A reader is a function on the input, \<open>None\<close> where it
  returns 0; a writer works on a \<open>CBB\<close> of depth \<open>k\<close> like the operations of \<open>Cbb\<close>. The second part
  states what Unicode asks: \<open>unicode_char\<close> are the code points that are neither surrogates nor
  noncharacters, \<open>utf8\<close> is the encoding of RFC 3629. Each reader accepts exactly one encoding of each of its
  characters, so each is an instance of \<open>item_codec\<close>, and each writer implements appending that encoding.
\<close>

section \<open>The functions of the source\<close>

definition is_valid_code_point :: "u32 \<Rightarrow> bool" where
  "is_valid_code_point v \<longleftrightarrow>
     \<not> (v > 0x10ffff \<or> v AND 0xfffe = 0xfffe \<or> v \<ge> 0xfdd0 \<and> v \<le> 0xfdef \<or> v \<ge> 0xd800 \<and> v \<le> 0xdfff)"

definition BOTTOM_BITS :: "nat \<Rightarrow> byte" where
  "BOTTOM_BITS n = ucast ((push_bit n 1 :: u32) - 1)"

definition TOP_BITS :: "nat \<Rightarrow> byte" where
  "TOP_BITS n = NOT (BOTTOM_BITS (8 - n))"

fun get_utf8_loop :: "nat \<Rightarrow> u32 \<Rightarrow> cbs \<Rightarrow> (u32 \<times> cbs) option" where
  "get_utf8_loop 0 v cbs = Some (v, cbs)"
| "get_utf8_loop (Suc n) v cbs =
     (case CBS_get_u8 cbs of
        None \<Rightarrow> None
      | Some (c, cbs) \<Rightarrow>
          if c AND TOP_BITS 2 \<noteq> TOP_BITS 1 then None
          else get_utf8_loop n (push_bit 6 v OR ucast (c AND BOTTOM_BITS 6)) cbs)"

definition utf8_lead :: "byte \<Rightarrow> (u32 \<times> nat \<times> u32) option" where
  \<comment> \<open>the first bits of the value, \<open>len\<close> and \<open>lower_bound\<close>\<close>
  "utf8_lead c =
     (if c AND TOP_BITS 3 = TOP_BITS 2 then Some (ucast (c AND BOTTOM_BITS 5), 1, 0x80)
      else if c AND TOP_BITS 4 = TOP_BITS 3 then Some (ucast (c AND BOTTOM_BITS 4), 2, 0x800)
      else if c AND TOP_BITS 5 = TOP_BITS 4 then Some (ucast (c AND BOTTOM_BITS 3), 3, 0x10000)
      else None)"

definition cbs_get_utf8 :: "cbs \<Rightarrow> (u32 \<times> cbs) option" where
  "cbs_get_utf8 cbs =
     (case CBS_get_u8 cbs of
        None \<Rightarrow> None
      | Some (c, cbs) \<Rightarrow>
          if c \<le> 0x7f then Some (ucast c, cbs)
          else case utf8_lead c of
            None \<Rightarrow> None
          | Some (v, len, lower_bound) \<Rightarrow>
              (case get_utf8_loop len v cbs of
                 None \<Rightarrow> None
               | Some (v, cbs) \<Rightarrow>
                   if \<not> is_valid_code_point v \<or> v < lower_bound then None else Some (v, cbs)))"

definition cbs_get_latin1 :: "cbs \<Rightarrow> (u32 \<times> cbs) option" where
  "cbs_get_latin1 cbs = (case CBS_get_u8 cbs of None \<Rightarrow> None | Some (c, cbs) \<Rightarrow> Some (ucast c, cbs))"

definition cbs_get_ucs2_be :: "cbs \<Rightarrow> (u32 \<times> cbs) option" where
  "cbs_get_ucs2_be cbs =
     (case CBS_get_u16 cbs of
        None \<Rightarrow> None
      | Some (c, cbs) \<Rightarrow> if \<not> is_valid_code_point (ucast c) then None else Some (ucast c, cbs))"

definition cbs_get_utf32_be :: "cbs \<Rightarrow> (u32 \<times> cbs) option" where
  "cbs_get_utf32_be cbs =
     (case CBS_get_u32 cbs of
        None \<Rightarrow> None
      | Some (c, cbs) \<Rightarrow> if is_valid_code_point c then Some (c, cbs) else None)"

definition cbb_get_utf8_len :: "u32 \<Rightarrow> nat" where
  "cbb_get_utf8_len u = (if u \<le> 0x7f then 1 else if u \<le> 0x7ff then 2 else if u \<le> 0xffff then 3 else 4)"

text \<open>The argument of \<open>CBB_add_u8\<close> is cut to a byte: \<open>utf8_byte t u\<close> is \<open>TOP_BITS(t) | u\<close> there.\<close>

definition utf8_byte :: "nat \<Rightarrow> u32 \<Rightarrow> byte" where
  "utf8_byte t u = ucast (ucast (TOP_BITS t) OR u)"

definition cbb_add_utf8 :: "(nat \<Rightarrow> bool) \<Rightarrow> nat \<Rightarrow> u32 \<Rightarrow> cbb \<Rightarrow> bool \<times> cbb" where
  "cbb_add_utf8 libc k u s =
     (let low = \<lambda>w. w AND ucast (BOTTOM_BITS 6)
      in if \<not> is_valid_code_point u then (False, s)
         else if u \<le> 0x7f then CBB_add_u8 libc k (ucast u) s
         else if u \<le> 0x7ff then
           cbb_then (CBB_add_u8 libc k (utf8_byte 2 (drop_bit 6 u)) s)
             (CBB_add_u8 libc k (utf8_byte 1 (low u)))
         else if u \<le> 0xffff then
           cbb_then (CBB_add_u8 libc k (utf8_byte 3 (drop_bit 12 u)) s) (\<lambda>s.
             cbb_then (CBB_add_u8 libc k (utf8_byte 1 (low (drop_bit 6 u))) s)
               (CBB_add_u8 libc k (utf8_byte 1 (low u))))
         else if u \<le> 0x10ffff then
           cbb_then (CBB_add_u8 libc k (utf8_byte 4 (drop_bit 18 u)) s) (\<lambda>s.
             cbb_then (CBB_add_u8 libc k (utf8_byte 1 (low (drop_bit 12 u))) s) (\<lambda>s.
               cbb_then (CBB_add_u8 libc k (utf8_byte 1 (low (drop_bit 6 u))) s)
                 (CBB_add_u8 libc k (utf8_byte 1 (low u)))))
         else (False, s))"

definition cbb_add_latin1 :: "(nat \<Rightarrow> bool) \<Rightarrow> nat \<Rightarrow> u32 \<Rightarrow> cbb \<Rightarrow> bool \<times> cbb" where
  "cbb_add_latin1 libc k u s = (if u \<le> 0xff then CBB_add_u8 libc k (ucast u) s else (False, s))"

definition cbb_add_ucs2_be :: "(nat \<Rightarrow> bool) \<Rightarrow> nat \<Rightarrow> u32 \<Rightarrow> cbb \<Rightarrow> bool \<times> cbb" where
  "cbb_add_ucs2_be libc k u s =
     (if u \<le> 0xffff \<and> is_valid_code_point u then CBB_add_u16 libc k (ucast u) s else (False, s))"

definition cbb_add_utf32_be :: "(nat \<Rightarrow> bool) \<Rightarrow> nat \<Rightarrow> u32 \<Rightarrow> cbb \<Rightarrow> bool \<times> cbb" where
  "cbb_add_utf32_be libc k u s =
     (if is_valid_code_point u then CBB_add_u32 libc k u s else (False, s))"

section \<open>Characters and their encodings\<close>

text \<open>Unicode 9.0: D9 the code space, D14 the noncharacters, C1 the surrogates.\<close>

definition noncharacter :: "nat \<Rightarrow> bool" where
  "noncharacter n \<longleftrightarrow> n mod 0x10000 \<in> {0xfffe, 0xffff} \<or> n \<in> {0xfdd0..0xfdef}"

definition unicode_char :: "nat \<Rightarrow> bool" where
  "unicode_char n \<longleftrightarrow> n \<le> 0x10ffff \<and> n \<notin> {0xd800..0xdfff} \<and> \<not> noncharacter n"

text \<open>The last \<open>n\<close> bytes of an encoding carry 6 bits each, the high bits first.\<close>

fun utf8_tail :: "nat \<Rightarrow> nat \<Rightarrow> bytes" where
  "utf8_tail 0 c = []"
| "utf8_tail (Suc n) c = word_of_nat (0x80 + c div 64 ^ n mod 64) # utf8_tail n c"

definition utf8 :: "nat \<Rightarrow> bytes" where
  "utf8 c =
     (if c < 0x80 then [word_of_nat c]
      else if c < 0x800 then word_of_nat (0xc0 + c div 64) # utf8_tail 1 c
      else if c < 0x10000 then word_of_nat (0xe0 + c div 64 ^ 2) # utf8_tail 2 c
      else word_of_nat (0xf0 + c div 64 ^ 3) # utf8_tail 3 c)"

lemma length_utf8_tail [simp]: "length (utf8_tail n c) = n"
  by (induction n) simp_all

lemma length_utf8: "length (utf8 (unat u)) = cbb_get_utf8_len u"
  by (simp add: utf8_def cbb_get_utf8_len_def word_le_nat_alt)

lemma utf8_not_Nil: "utf8 c \<noteq> []"
  by (simp add: utf8_def)

section \<open>Bytes of an encoding\<close>

lemma bits_values:
  "BOTTOM_BITS 6 = 0x3f" "BOTTOM_BITS 5 = 0x1f" "BOTTOM_BITS 4 = 0xf" "BOTTOM_BITS 3 = 0x7"
  "TOP_BITS 1 = 0x80" "TOP_BITS 2 = 0xc0" "TOP_BITS 3 = 0xe0" "TOP_BITS 4 = 0xf0" "TOP_BITS 5 = 0xf8"
  by (simp_all add: BOTTOM_BITS_def TOP_BITS_def)

lemma unat_and_not_mask: "unat (w AND NOT (mask k) :: 'a::len word) = unat w div 2 ^ k * 2 ^ k"
proof -
  have "w AND NOT (mask k) = w - take_bit k w"
  proof -
    have "(w AND NOT (mask k)) + (w AND mask k) = (w AND NOT (mask k)) OR (w AND mask k)"
      by (rule disjunctive_add) (simp add: bit_simps)
    also have "\<dots> = w" by (rule bit_word_eqI) (auto simp: bit_simps)
    finally show ?thesis by (simp add: take_bit_eq_mask eq_diff_eq)
  qed
  moreover have "unat (take_bit k w) = unat w mod 2 ^ k" by (metis unsigned_take_bit_eq take_bit_eq_mod)
  ultimately have "unat (w AND NOT (mask k)) = unat w - unat w mod 2 ^ k"
    by (simp only: unat_sub_if_size) simp
  then show ?thesis by (simp add: minus_mod_eq_div_mult)
qed

lemma not_mask_numerals: "0xc0 = NOT (mask 6 :: byte)" "0xe0 = NOT (mask 5 :: byte)" "0xf0 = NOT (mask 4 :: byte)"
  "0xf8 = NOT (mask 3 :: byte)" "0xfffe = (mask 16 AND NOT (mask 1) :: u32)"
  by (simp_all add: mask_eq_exp_minus_1)

lemma byte_class:
  "(c :: byte) AND 0xc0 = 0x80 \<longleftrightarrow> unat c div 64 = 2"
  "(c :: byte) AND 0xe0 = 0xc0 \<longleftrightarrow> unat c div 32 = 6"
  "(c :: byte) AND 0xf0 = 0xe0 \<longleftrightarrow> unat c div 16 = 14"
  "(c :: byte) AND 0xf8 = 0xf0 \<longleftrightarrow> unat c div 8 = 30"
  unfolding word_unat_eq_iff 
  subgoal by (subst not_mask_numerals(1), subst unat_and_not_mask) auto
  subgoal by (subst (1) not_mask_numerals(2), subst unat_and_not_mask) auto
  subgoal by (subst (1) not_mask_numerals(3), subst unat_and_not_mask) auto
  subgoal by (subst (1) not_mask_numerals(4), subst unat_and_not_mask) auto
  done

lemma mask_bytes: "0x3f = (mask 6 :: byte)" "0x1f = (mask 5 :: byte)" "0xf = (mask 4 :: byte)" "0x7 = (mask 3 :: byte)"
  by (simp_all add: mask_eq_exp_minus_1)

lemma byte_low:
  "unat ((c :: byte) AND 0x3f) = unat c mod 64" "unat (c AND 0x1f) = unat c mod 32"
  "unat (c AND 0xf) = unat c mod 16" "unat (c AND 0x7) = unat c mod 8"
  by (simp_all only: mask_bytes unat_and_mask) simp_all

lemma and_fffe: "(v::u32) AND 0xfffe = 0xfffe \<longleftrightarrow> unat v mod 65536 \<ge> 65534"
proof -
  have "unat (v AND 0xfffe) = unat v mod 2 ^ 16 div 2 ^ 1 * 2 ^ 1"
    unfolding not_mask_numerals(5) and.assoc [symmetric] unat_and_not_mask unat_and_mask ..
  then show ?thesis unfolding word_unat_eq_iff by auto
qed

lemma is_valid_code_point_iff: "is_valid_code_point v \<longleftrightarrow> unicode_char (unat v)"
proof -
  have m: "n mod 65536 \<ge> 65534 \<longleftrightarrow> n mod 65536 = 65534 \<or> n mod 65536 = 65535" for n :: nat
    using mod_less_divisor [of 65536 n] by linarith
  have "is_valid_code_point v \<longleftrightarrow>
      \<not> (unat v > 0x10ffff \<or> (unat v mod 65536 = 65534 \<or> unat v mod 65536 = 65535) \<or>
         unat v \<ge> 0xfdd0 \<and> unat v \<le> 0xfdef \<or> unat v \<ge> 0xd800 \<and> unat v \<le> 0xdfff)"
    unfolding is_valid_code_point_def and_fffe m [symmetric] word_le_nat_alt word_less_nat_alt by simp
  also have "\<dots> \<longleftrightarrow> unicode_char (unat v)"
    unfolding unicode_char_def noncharacter_def by (simp add: not_less) blast
  finally show ?thesis .
qed

section \<open>Reading\<close>

text \<open>A byte that continues a character is \<open>128\<close> plus its six bits.\<close>

lemma div_mod_iff:
  fixes n :: nat
  assumes "0 < k"
  shows "n div k = a \<and> m = n mod k \<longleftrightarrow> n = a * k + m \<and> m < k"
  using assms by auto

lemma byte_eq_iff: "n < 256 \<Longrightarrow> (c :: byte) = word_of_nat n \<longleftrightarrow> unat c = n"
  by (simp add: word_unat_eq_iff unat_of_nat)

lemma utf8_tail_byte:
  "c = word_of_nat (0x80 + x mod 64) \<longleftrightarrow> unat (c :: byte) div 64 = 2 \<and> unat c mod 64 = x mod 64"
proof -
  have "0x80 + x mod 64 < 256" using mod_less_divisor [of 64 x] by linarith
  then have "c = word_of_nat (0x80 + x mod 64) \<longleftrightarrow> unat c = 2 * 64 + x mod 64"
    by (subst byte_eq_iff) simp_all
  also have "\<dots> \<longleftrightarrow> unat c div 64 = 2 \<and> unat c mod 64 = x mod 64"
    using div_mod_iff [of 64 "unat c" 2 "x mod 64"] mod_less_divisor [of 64 x]
    by (metis zero_less_numeral)
  finally show ?thesis .
qed

lemma get_utf8_loop_iff:
  "(unat v + 1) * 64 ^ n \<le> 2 ^ 32 \<Longrightarrow>
     get_utf8_loop n v cbs = Some (w, r) \<longleftrightarrow>
       unat w div 64 ^ n = unat v \<and> cbs = utf8_tail n (unat w) @ r"
proof (induction n arbitrary: v cbs)
  case 0
  then show ?case by (auto simp: word_unat_eq_iff)
next
  case (Suc n)
  show ?case
  proof (cases cbs)
    case Nil
    then show ?thesis by simp
  next
    case (Cons c cs)
    let ?v = "push_bit 6 v OR ucast (c AND BOTTOM_BITS 6)"
    have "(unat v + 1) * 64 \<le> (unat v + 1) * 64 ^ Suc n" by (intro mult_left_mono) simp_all
    with Suc.prems have small: "(unat v + 1) * 64 \<le> 2 ^ 32" by linarith
    have v: "unat ?v = unat v * 64 + unat c mod 64"
      using small unat_push_bit_or [of "ucast (c AND BOTTOM_BITS 6) :: u32" 6 v]
      by (simp add: bits_values unat_ucast_up byte_low)
    have "(unat ?v + 1) * 64 ^ n \<le> (unat v + 1) * 64 * 64 ^ n"
      unfolding v by (intro mult_right_mono) auto
    with Suc.prems have "(unat ?v + 1) * 64 ^ n \<le> 2 ^ 32" by (simp add: algebra_simps)
    note IH = Suc.IH [OF this, of cs]
    have "unat w div 64 ^ n = unat v * 64 + unat c mod 64 \<longleftrightarrow>
        unat w div 64 ^ Suc n = unat v \<and> unat c mod 64 = unat w div 64 ^ n mod 64"
      using div_mult_mod_eq [of "unat w div 64 ^ n" 64]
      by (auto simp: div_mult2_eq [symmetric] mult.commute)
    moreover have "get_utf8_loop (Suc n) v (c # cs) =
        (if unat c div 64 \<noteq> 2 then None else get_utf8_loop n ?v cs)"
      by (simp only: get_utf8_loop.simps CBS_get_u8_simps option.case prod.case bits_values byte_class)
    ultimately show ?thesis
      using IH unfolding v Cons utf8_tail.simps append_Cons list.inject utf8_tail_byte
      by (cases "unat c div 64 = 2") (simp_all only: if_True if_False simp_thms not_Some_eq, blast+)
  qed
qed

lemma utf8_lead_eq:
  "utf8_lead c =
     (if unat c div 32 = 6 then Some (word_of_nat (unat c mod 32), 1, 0x80)
      else if unat c div 16 = 14 then Some (word_of_nat (unat c mod 16), 2, 0x800)
      else if unat c div 8 = 30 then Some (word_of_nat (unat c mod 8), 3, 0x10000)
      else None)"
  unfolding utf8_lead_def bits_values byte_class byte_low [symmetric] by simp

lemma lead_arith:
  fixes n x :: nat
  assumes "x < 0x110000"
  shows "n div 32 = 6 \<and> x div 64 = n mod 32 \<and> 0x80 \<le> x \<longleftrightarrow> n = 0xc0 + x div 64 \<and> 0x80 \<le> x \<and> x < 0x800"
    and "n div 16 = 14 \<and> x div 4096 = n mod 16 \<and> 0x800 \<le> x \<longleftrightarrow> n = 0xe0 + x div 4096 \<and> 0x800 \<le> x \<and> x < 0x10000"
    and "n div 8 = 30 \<and> x div 262144 = n mod 8 \<and> 0x10000 \<le> x \<longleftrightarrow> n = 0xf0 + x div 262144 \<and> 0x10000 \<le> x"
  using assms div_mod_iff [of 32 n 6 "x div 64"] div_mod_iff [of 16 n 14 "x div 4096"] div_mod_iff [of 8 n 30 "x div 262144"]
    div_less_iff_less_mult [of 64 x 32] div_less_iff_less_mult [of 4096 x 16] div_less_iff_less_mult [of 262144 x 8]
  by auto

lemma utf8_Cons:
  assumes "x < 0x110000"
  shows "c # cs = utf8 x @ r \<longleftrightarrow>
    unat c < 0x80 \<and> unat c = x \<and> cs = r \<or>
    unat c = 0xc0 + x div 64 \<and> 0x80 \<le> x \<and> x < 0x800 \<and> cs = utf8_tail 1 x @ r \<or>
    unat c = 0xe0 + x div 4096 \<and> 0x800 \<le> x \<and> x < 0x10000 \<and> cs = utf8_tail 2 x @ r \<or>
    unat c = 0xf0 + x div 262144 \<and> 0x10000 \<le> x \<and> cs = utf8_tail 3 x @ r"
proof -
  have "x < 0x800 \<Longrightarrow> x div 64 < 32" "x < 0x10000 \<Longrightarrow> x div 4096 < 16" "x div 262144 < 8"
    using assms by (simp_all add: div_less_iff_less_mult)
  then show ?thesis unfolding utf8_def by (auto simp: byte_eq_iff simp del: of_nat_add utf8_tail.simps One_nat_def)
qed

lemma cbs_get_utf8_iff:
  "cbs_get_utf8 cbs = Some (v, r) \<longleftrightarrow> unicode_char (unat v) \<and> cbs = utf8 (unat v) @ r"
proof (cases cbs)
  case Nil
  then show ?thesis using utf8_not_Nil by (auto simp: cbs_get_utf8_def)
next
  case (Cons c cs)
  let ?x = "unat v" and ?n = "unat c"
  have low: "?n < 0x80 \<Longrightarrow> unicode_char ?n" by (auto simp: unicode_char_def noncharacter_def)
  have loop: "get_utf8_loop len (word_of_nat m) cs = Some (v, r) \<longleftrightarrow> ?x div 64 ^ len = m \<and> cs = utf8_tail len ?x @ r"
    if "m < 32" "len \<le> 3" for m len
  proof -
    have "unat (word_of_nat m :: u32) = m" using that(1) by (simp add: unat_of_nat)
    moreover have "(m + 1) * 64 ^ len \<le> 32 * 64 ^ 3"
      using that by (intro mult_mono power_increasing) auto
    ultimately show ?thesis by (subst get_utf8_loop_iff) simp_all
  qed
  have rd: "(case get_utf8_loop len (word_of_nat m) cs of None \<Rightarrow> None
      | Some (v, cbs) \<Rightarrow> if \<not> is_valid_code_point v \<or> v < lo then None else Some (v, cbs)) = Some (v, r) \<longleftrightarrow>
      unicode_char ?x \<and> unat lo \<le> ?x \<and> ?x div 64 ^ len = m \<and> cs = utf8_tail len ?x @ r"
    if "m < 32" "len \<le> 3" for m len lo
    using loop [OF that]
    by (auto simp: is_valid_code_point_iff word_less_nat_alt not_less split: option.splits)
  have m: "?n mod 32 < 32" "?n mod 16 < 32" "?n mod 8 < 32"
    using mod_less_divisor [of 32 ?n] mod_less_divisor [of 16 ?n] mod_less_divisor [of 8 ?n] by linarith+
  have read: "cbs_get_utf8 cbs = Some (v, r) \<longleftrightarrow>
      (if ?n < 0x80 then ?n = ?x \<and> cs = r
       else unicode_char ?x \<and>
         (if ?n div 32 = 6 then 0x80 \<le> ?x \<and> ?x div 64 = ?n mod 32 \<and> cs = utf8_tail 1 ?x @ r
          else if ?n div 16 = 14 then 0x800 \<le> ?x \<and> ?x div 4096 = ?n mod 16 \<and> cs = utf8_tail 2 ?x @ r
          else ?n div 8 = 30 \<and> 0x10000 \<le> ?x \<and> ?x div 262144 = ?n mod 8 \<and> cs = utf8_tail 3 ?x @ r))"
  proof (cases "?n < 0x80")
    case True
    then show ?thesis
      by (auto simp: cbs_get_utf8_def Cons word_le_nat_alt word_unat_eq_iff unat_ucast_up)
  next
    case False
    then have "cbs_get_utf8 cbs = (case utf8_lead c of None \<Rightarrow> None | Some (v, len, lo) \<Rightarrow>
        (case get_utf8_loop len v cs of None \<Rightarrow> None
         | Some (v, cbs) \<Rightarrow> if \<not> is_valid_code_point v \<or> v < lo then None else Some (v, cbs)))"
      by (simp add: cbs_get_utf8_def Cons word_le_nat_alt)
    then show ?thesis
      unfolding utf8_lead_eq using False rd [OF m(1), of 1 "0x80"] rd [OF m(2), of 2 "0x800"] rd [OF m(3), of 3 "0x10000"]
      by (cases "?n div 32 = 6"; cases "?n div 16 = 14"; cases "?n div 8 = 30")
        (simp_all del: get_utf8_loop.simps utf8_tail.simps One_nat_def)
  qed
  have excl: "?n div 16 = 14 \<Longrightarrow> ?n div 32 \<noteq> 6" "?n div 8 = 30 \<Longrightarrow> ?n div 32 \<noteq> 6 \<and> ?n div 16 \<noteq> 14"
      "?n < 0x80 \<Longrightarrow> ?n div 32 \<noteq> 6 \<and> ?n div 16 \<noteq> 14 \<and> ?n div 8 \<noteq> 30"
    using div_mult2_eq [of ?n 16 2] div_mult2_eq [of ?n 8 2] div_less_iff_less_mult [of 32 ?n 4]
      div_less_iff_less_mult [of 16 ?n 8] div_less_iff_less_mult [of 8 ?n 16] by auto
  show ?thesis
  proof (cases "unicode_char ?x")
    case True
    then have x: "?x < 0x110000" by (simp add: unicode_char_def)
    have "c # cs = utf8 ?x @ r \<longleftrightarrow> ?n < 0x80 \<and> ?n = ?x \<and> cs = r \<or>
        (?n div 32 = 6 \<and> ?x div 64 = ?n mod 32 \<and> 0x80 \<le> ?x) \<and> cs = utf8_tail 1 ?x @ r \<or>
        (?n div 16 = 14 \<and> ?x div 4096 = ?n mod 16 \<and> 0x800 \<le> ?x) \<and> cs = utf8_tail 2 ?x @ r \<or>
        (?n div 8 = 30 \<and> ?x div 262144 = ?n mod 8 \<and> 0x10000 \<le> ?x) \<and> cs = utf8_tail 3 ?x @ r"
      unfolding utf8_Cons [OF x] lead_arith [OF x] by blast
    then show ?thesis
      unfolding read using True excl Cons
      by (cases "?n < 0x80"; cases "?n div 32 = 6"; cases "?n div 16 = 14") (simp_all only: if_True if_False simp_thms, blast+)
  next
    case False
    then show ?thesis unfolding read using low by metis
  qed
qed

lemma cbs_get_latin1_iff:
  "cbs_get_latin1 cbs = Some (v, r) \<longleftrightarrow> unat v < 256 \<and> cbs = word_of_nat (unat v) # r"
proof (cases cbs)
  case (Cons c cs)
  have "ucast c = v \<longleftrightarrow> unat v < 256 \<and> c = word_of_nat (unat v)"
  proof -
    have "ucast c = v \<longleftrightarrow> unat c = unat v" by (simp add: word_unat_eq_iff unat_ucast_up)
    then show ?thesis using byte_eq_iff [of "unat v" c] unat_byte_less [of c] by metis
  qed
  then show ?thesis by (auto simp: cbs_get_latin1_def Cons)
qed (simp add: cbs_get_latin1_def)

lemma cbs_get_u_be_iff:
  "n \<le> 8 \<Longrightarrow> cbs_get_u cbs n = Some (v, r) \<longleftrightarrow> unat v < 256 ^ n \<and> cbs = be_bytes n (unat v) @ r"
proof -
  assume n: "n \<le> 8"
  have "v = cbs_u_fold d \<longleftrightarrow> unat v < 256 ^ n \<and> d = be_bytes n (unat v)" if "length d = n" for d
    using that n unat_cbs_u_fold [of d] be_bytes_be_val [of d] be_val_less [of d] cbs_u_fold_be_bytes [of n "unat v"]
    by (auto simp: word_unat_eq_iff)
  then show ?thesis by (auto simp: cbs_get_u_iff)
qed

lemma cbs_get_u_narrow:
  assumes "LENGTH('a::len) = 8 * n" "n \<le> 8"
  shows "(\<exists>w. cbs_get_u cbs n = Some (w, r) \<and> (ucast w :: 'a word) = v) \<longleftrightarrow> cbs = be_bytes n (unat v) @ r"
proof -
  have size: "(2 :: nat) ^ LENGTH('a) = 256 ^ n" by (simp add: assms(1) power_mult)
  have narrow: "ucast w = v \<longleftrightarrow> unat w = unat v" if "unat w < 256 ^ n" for w :: u64
    using that by (simp only: word_unat_eq_iff unat_ucast_down size mod_less)
  have up: "unat (ucast v :: u64) = unat v" using assms by (intro unat_ucast_up) simp
  have v: "unat v < 256 ^ n" using unsigned_less [of v] size by metis
  show ?thesis
  proof
    assume "\<exists>w. cbs_get_u cbs n = Some (w, r) \<and> (ucast w :: 'a word) = v"
    then show "cbs = be_bytes n (unat v) @ r"
      unfolding cbs_get_u_be_iff [OF assms(2)] using narrow by metis
  next
    assume "cbs = be_bytes n (unat v) @ r"
    then have "cbs_get_u cbs n = Some (ucast v, r)" by (simp add: cbs_get_u_be_iff [OF assms(2)] up v)
    then show "\<exists>w. cbs_get_u cbs n = Some (w, r) \<and> (ucast w :: 'a word) = v"
      using narrow up v by metis
  qed
qed

lemma CBS_get_u16_iff: "CBS_get_u16 cbs = Some (v, r) \<longleftrightarrow> cbs = be_bytes 2 (unat v) @ r"
proof -
  have "CBS_get_u16 cbs = Some (v, r) \<longleftrightarrow> (\<exists>w. cbs_get_u cbs 2 = Some (w, r) \<and> ucast w = v)"
    by (auto simp: CBS_get_u16_def split: option.splits)
  then show ?thesis using cbs_get_u_narrow [of 2 cbs r v] by simp
qed

lemma CBS_get_u32_iff: "CBS_get_u32 cbs = Some (v, r) \<longleftrightarrow> cbs = be_bytes 4 (unat v) @ r"
proof -
  have "CBS_get_u32 cbs = Some (v, r) \<longleftrightarrow> (\<exists>w. cbs_get_u cbs 4 = Some (w, r) \<and> ucast w = v)"
    by (auto simp: CBS_get_u32_def split: option.splits)
  then show ?thesis using cbs_get_u_narrow [of 4 cbs r v] by simp
qed

lemma cbs_get_ucs2_be_iff:
  "cbs_get_ucs2_be cbs = Some (v, r) \<longleftrightarrow>
     (unat v < 65536 \<and> unicode_char (unat v)) \<and> cbs = be_bytes 2 (unat v) @ r"
proof -
  have "cbs_get_ucs2_be cbs = Some (v, r) \<longleftrightarrow>
      (\<exists>c :: u16. CBS_get_u16 cbs = Some (c, r) \<and> unicode_char (unat c) \<and> v = ucast c)"
    by (auto simp: cbs_get_ucs2_be_def is_valid_code_point_iff unat_ucast_up split: option.splits if_splits)
  also have "\<dots> \<longleftrightarrow> (unat v < 65536 \<and> unicode_char (unat v)) \<and> cbs = be_bytes 2 (unat v) @ r"
    using unat_u16_less
    by (auto simp: CBS_get_u16_iff unat_ucast_up)
       (rule exI [of _ "ucast v"]; simp add: unat_ucast_down word_unat_eq_iff unat_ucast_up)
  finally show ?thesis .
qed

lemma cbs_get_utf32_be_iff:
  "cbs_get_utf32_be cbs = Some (v, r) \<longleftrightarrow> unicode_char (unat v) \<and> cbs = be_bytes 4 (unat v) @ r"
  by (auto simp: cbs_get_utf32_be_def CBS_get_u32_iff [symmetric] is_valid_code_point_iff split: option.splits)

interpretation utf8_codec: item_codec cbs_get_utf8 "\<lambda>v. utf8 (unat v)" "\<lambda>v. unicode_char (unat v)"
  by unfold_locales (simp_all add: cbs_get_utf8_iff utf8_not_Nil)

interpretation latin1_codec: item_codec cbs_get_latin1 "\<lambda>v. [word_of_nat (unat v)]" "\<lambda>v. unat v < 256"
  by unfold_locales (simp_all add: cbs_get_latin1_iff)

interpretation ucs2_codec: item_codec cbs_get_ucs2_be "\<lambda>v. be_bytes 2 (unat v)"
  "\<lambda>v. unat v < 65536 \<and> unicode_char (unat v)"
  by unfold_locales (simp_all add: cbs_get_ucs2_be_iff flip: length_0_conv)

interpretation utf32_codec: item_codec cbs_get_utf32_be "\<lambda>v. be_bytes 4 (unat v)" "\<lambda>v. unicode_char (unat v)"
  by unfold_locales (simp_all add: cbs_get_utf32_be_iff flip: length_0_conv)

section \<open>Writing\<close>

text \<open>A writer of characters: it appends the encoding of its character or fails.\<close>

definition doc_char :: "nat \<Rightarrow> bytes option \<Rightarrow> cbb_doc \<Rightarrow> cbb_doc option" where
  "doc_char k e doc = Option.bind e (\<lambda>x. doc_add k x doc)"

lemma cbb_sim_fail: "cbb_sim libc (\<lambda>s. (False, s)) (doc_char k None)"
  by (simp add: cbb_sim_def doc_char_def)

lemma doc_char_Some: "doc_char k (Some x) = doc_add k x"
  by (simp add: doc_char_def fun_eq_iff)

lemma cbb_add_latin1_sim:
  "cbb_sim libc (cbb_add_latin1 libc k u)
     (doc_char k (if unat u < 256 then Some [word_of_nat (unat u)] else None))"
proof (cases "unat u < 256")
  case True
  then have "cbb_add_latin1 libc k u = CBB_add_u8 libc k (word_of_nat (unat u))"
    by (simp add: cbb_add_latin1_def fun_eq_iff word_le_nat_alt word_unat_eq_iff unat_ucast_down unat_of_nat)
  then show ?thesis using True CBB_add_u8_sim by (simp add: doc_char_Some)
next
  case False
  then have "cbb_add_latin1 libc k u = (\<lambda>s. (False, s))"
    by (simp add: cbb_add_latin1_def fun_eq_iff word_le_nat_alt)
  then show ?thesis using False cbb_sim_fail by simp
qed

lemma cbb_add_ucs2_be_sim:
  "cbb_sim libc (cbb_add_ucs2_be libc k u)
     (doc_char k (if unat u < 65536 \<and> unicode_char (unat u) then Some (be_bytes 2 (unat u)) else None))"
proof (cases "unat u < 65536 \<and> unicode_char (unat u)")
  case True
  have "cbb_add_ucs2_be libc k u = cbb_add_u libc k (ucast u) 2"
  proof -
    have "unat (ucast (ucast u :: u16) :: u64) = unat (ucast u :: u64)"
      using True by (simp only: unat_ucast_up unat_ucast_down) (simp add: unat_ucast_up unat_ucast_down)
    then have "(ucast (ucast u :: u16) :: u64) = ucast u" by (simp only: word_unat_eq_iff)
    then show ?thesis
      using True by (simp add: cbb_add_ucs2_be_def CBB_add_u16_def fun_eq_iff word_le_nat_alt is_valid_code_point_iff)
  qed
  then show ?thesis using True cbb_add_u_sim [of 2 "ucast u" libc k] by (simp add: doc_char_Some unat_ucast_up)
next
  case False
  then have "cbb_add_ucs2_be libc k u = (\<lambda>s. (False, s))"
    by (auto simp: cbb_add_ucs2_be_def fun_eq_iff word_le_nat_alt is_valid_code_point_iff)
  then show ?thesis using False cbb_sim_fail by auto
qed

lemma cbb_add_utf32_be_sim:
  "cbb_sim libc (cbb_add_utf32_be libc k u)
     (doc_char k (if unicode_char (unat u) then Some (be_bytes 4 (unat u)) else None))"
proof (cases "unicode_char (unat u)")
  case True
  then have "cbb_add_utf32_be libc k u = cbb_add_u libc k (ucast u) 4"
    by (simp add: cbb_add_utf32_be_def CBB_add_u32_def fun_eq_iff is_valid_code_point_iff)
  then show ?thesis
    using True cbb_add_u_sim [of 4 "ucast u" libc k] unat_u32_less [of u] by (simp add: doc_char_Some unat_ucast_up)
next
  case False
  then have "cbb_add_utf32_be libc k u = (\<lambda>s. (False, s))"
    by (auto simp: cbb_add_utf32_be_def fun_eq_iff is_valid_code_point_iff)
  then show ?thesis using False cbb_sim_fail by auto
qed

lemma top_words:
  "ucast (TOP_BITS 1) = (push_bit 7 1 :: u32)" "ucast (TOP_BITS 2) = (push_bit 6 3 :: u32)"
  "ucast (TOP_BITS 3) = (push_bit 5 7 :: u32)" "ucast (TOP_BITS 4) = (push_bit 4 15 :: u32)"
  unfolding bits_values by simp_all

lemma byte_push_or:
  assumes "unat (w :: u32) < 2 ^ k" "unat t * 2 ^ k + unat w < 256"
  shows "ucast (push_bit k t OR w) = (word_of_nat (unat t * 2 ^ k + unat w) :: byte)"
  using assms by (simp add: byte_eq_iff unat_ucast_down unat_push_bit_or del: of_nat_add)

lemma utf8_byte_eq:
  "unat w < 128 \<Longrightarrow> utf8_byte 1 w = word_of_nat (0x80 + unat w)"
  "unat w < 64 \<Longrightarrow> utf8_byte 2 w = word_of_nat (0xc0 + unat w)"
  "unat w < 32 \<Longrightarrow> utf8_byte 3 w = word_of_nat (0xe0 + unat w)"
  "unat w < 16 \<Longrightarrow> utf8_byte 4 w = word_of_nat (0xf0 + unat w)"
  unfolding utf8_byte_def top_words
  using byte_push_or [of w 7 1] byte_push_or [of w 6 3] byte_push_or [of w 5 7] byte_push_or [of w 4 15]
  by (simp_all del: of_nat_add)

lemma low_bits: "unat ((w :: u32) AND ucast (BOTTOM_BITS 6)) = unat w mod 64"
proof -
  have "ucast (BOTTOM_BITS 6) = (mask 6 :: u32)" by (simp add: bits_values mask_eq_exp_minus_1)
  then show ?thesis by (simp only: unat_and_mask) simp
qed

lemma tail_byte: "utf8_byte 1 (w AND ucast (BOTTOM_BITS 6)) = word_of_nat (0x80 + unat w mod 64)"
  using mod_less_divisor [of 64 "unat w"] utf8_byte_eq(1) [of "w AND ucast (BOTTOM_BITS 6)"]
  unfolding low_bits by linarith

lemma cbb_sim_add_then:
  "cbb_sim libc g (doc_add k y) \<Longrightarrow> cbb_sim libc (\<lambda>s. cbb_then (CBB_add_u8 libc k b s) g) (doc_add k (b # y))"
  using cbb_sim_then [OF CBB_add_u8_sim, of libc g "doc_add k y" k b] by (simp add: doc_add_add)

lemma utf8_tails:
  "utf8_tail 1 c = [word_of_nat (0x80 + c mod 64)]"
  "utf8_tail 2 c = [word_of_nat (0x80 + c div 64 mod 64), word_of_nat (0x80 + c mod 64)]"
  "utf8_tail 3 c = [word_of_nat (0x80 + c div 4096 mod 64), word_of_nat (0x80 + c div 64 mod 64),
     word_of_nat (0x80 + c mod 64)]"
  by (simp_all add: numeral_2_eq_2 numeral_3_eq_3 power2_eq_square)

lemma cbb_add_utf8_sim:
  "cbb_sim libc (cbb_add_utf8 libc k u)
     (doc_char k (if unicode_char (unat u) then Some (utf8 (unat u)) else None))"
proof (cases "unicode_char (unat u)")
  case True
  then have x: "unat u < 0x110000" by (simp add: unicode_char_def)
  have d: "unat (drop_bit 6 u) = unat u div 64" "unat (drop_bit 12 u) = unat u div 4096"
    "unat (drop_bit 18 u) = unat u div 262144" by (simp_all only: unat_drop_bit) simp_all
  have f: "unat u < 0x800 \<Longrightarrow> unat u div 64 < 64" "unat u < 0x10000 \<Longrightarrow> unat u div 4096 < 32"
    "unat u div 262144 < 16" using x by (simp_all add: div_less_iff_less_mult)
  have lead: "unat u < 0x800 \<Longrightarrow> utf8_byte 2 (drop_bit 6 u) = word_of_nat (0xc0 + unat u div 64)"
    "unat u < 0x10000 \<Longrightarrow> utf8_byte 3 (drop_bit 12 u) = word_of_nat (0xe0 + unat u div 4096)"
    "utf8_byte 4 (drop_bit 18 u) = word_of_nat (0xf0 + unat u div 262144)"
    using f utf8_byte_eq(2-4) by (metis d)+
  have conds: "u \<le> 0x7f \<longleftrightarrow> unat u < 0x80" "u \<le> 0x7ff \<longleftrightarrow> unat u < 0x800" "u \<le> 0xffff \<longleftrightarrow> unat u < 0x10000"
    "u \<le> 0x10ffff \<longleftrightarrow> unat u < 0x110000" "ucast u = (word_of_nat (unat u) :: byte)"
    by (auto simp: word_le_nat_alt)
  have "cbb_add_utf8 libc k u =
      (if unat u < 0x80 then CBB_add_u8 libc k (word_of_nat (unat u))
       else if unat u < 0x800 then \<lambda>s. cbb_then (CBB_add_u8 libc k (word_of_nat (0xc0 + unat u div 64)) s)
         (CBB_add_u8 libc k (word_of_nat (0x80 + unat u mod 64)))
       else if unat u < 0x10000 then \<lambda>s. cbb_then (CBB_add_u8 libc k (word_of_nat (0xe0 + unat u div 4096)) s) (\<lambda>s.
         cbb_then (CBB_add_u8 libc k (word_of_nat (0x80 + unat u div 64 mod 64)) s)
           (CBB_add_u8 libc k (word_of_nat (0x80 + unat u mod 64))))
       else (\<lambda>s. cbb_then (CBB_add_u8 libc k (word_of_nat (0xf0 + unat u div 262144)) s) (\<lambda>s.
         cbb_then (CBB_add_u8 libc k (word_of_nat (0x80 + unat u div 4096 mod 64)) s) (\<lambda>s.
           cbb_then (CBB_add_u8 libc k (word_of_nat (0x80 + unat u div 64 mod 64)) s)
             (CBB_add_u8 libc k (word_of_nat (0x80 + unat u mod 64)))))))"
    unfolding cbb_add_utf8_def Let_def tail_byte d conds is_valid_code_point_iff
    using lead by (cases "unat u < 0x80"; cases "unat u < 0x800"; cases "unat u < 0x10000")
      (simp_all only: True x fun_eq_iff if_True if_False simp_thms)
  moreover have "utf8 (unat u) = (if unat u < 0x80 then [word_of_nat (unat u)]
     else if unat u < 0x800 then [word_of_nat (0xc0 + unat u div 64), word_of_nat (0x80 + unat u mod 64)]
     else if unat u < 0x10000 then [word_of_nat (0xe0 + unat u div 4096), word_of_nat (0x80 + unat u div 64 mod 64),
       word_of_nat (0x80 + unat u mod 64)]
     else [word_of_nat (0xf0 + unat u div 262144), word_of_nat (0x80 + unat u div 4096 mod 64),
       word_of_nat (0x80 + unat u div 64 mod 64), word_of_nat (0x80 + unat u mod 64)])"
    unfolding utf8_def utf8_tails by simp
  ultimately show ?thesis
    using True by (simp add: doc_char_Some CBB_add_u8_sim cbb_sim_add_then)
next
  case False
  then have "cbb_add_utf8 libc k u = (\<lambda>s. (False, s))"
    by (auto simp: cbb_add_utf8_def fun_eq_iff is_valid_code_point_iff)
  then show ?thesis using False cbb_sim_fail by auto
qed

section \<open>Properties\<close>

text \<open>C18: the loop that reads a UTF-8 text to its end accepts exactly the concatenations of the encodings of RFC
  3629 of characters, so no surrogate, no noncharacter, no code point above 0x10ffff and no encoding that is
  longer than it need be; and it gives these characters.\<close>

theorem cbs_get_utf8_texts:
  "get_all cbs_get_utf8 bs = Some us \<longleftrightarrow>
     list_all (\<lambda>u. unicode_char (unat u)) us \<and> bs = concat (map (\<lambda>u. utf8 (unat u)) us)"
  by (rule utf8_codec.get_all_iff)

end
