(* ===== verification/Asn1_String.thy ===== *)
theory Asn1_String
  imports Mem
begin

text \<open>
  The string type of \<open>crypto/asn1\<close> (\<open>asn1_lib.c\<close>, \<open>asn1.h\<close>, and \<open>asn1_bit_string_length\<close> of \<open>a_bitstr.c\<close>),
  which stands for every primitive ASN.1 value but BOOLEAN and OBJECT IDENTIFIER. \<open>as_data\<close> is the block
  behind the pointer, \<open>None\<close> for NULL; it may be longer than \<open>as_length\<close>, and its bytes that nobody has
  written are left out, as in \<open>Mem\<close>. \<open>long\<close> is the 64-bit word, and the sizes that the code keeps in an
  \<open>int\<close> are taken to be less than \<open>2 ^ 31 - 1\<close>: \<open>ASN1_STRING_set\<close> adds one to them.

  \<open>as_bytes\<close> is the value of a string, and \<open>asn1_ok\<close> says that its block has all of it.
\<close>

record asn1_string =
  as_length :: nat
  as_type :: int
  as_data :: "bytes option"
  as_flags :: u64

definition V_ASN1_INTEGER :: int where "V_ASN1_INTEGER = 2"
definition V_ASN1_BIT_STRING :: int where "V_ASN1_BIT_STRING = 3"
definition V_ASN1_OCTET_STRING :: int where "V_ASN1_OCTET_STRING = 4"
definition V_ASN1_NEG :: int where "V_ASN1_NEG = 0x100"
definition V_ASN1_NEG_INTEGER :: int where "V_ASN1_NEG_INTEGER = V_ASN1_INTEGER OR V_ASN1_NEG"
definition ASN1_STRING_FLAG_BITS_LEFT :: u64 where "ASN1_STRING_FLAG_BITS_LEFT = 0x08"

section \<open>The functions of the source\<close>

text \<open>\<open>data\<close> is \<open>None\<close> for NULL and does not point into the block of \<open>str\<close>. A negative \<open>len\<close> means that it
  is a C string.\<close>

definition ASN1_STRING_set ::
    "(nat \<Rightarrow> bool) \<Rightarrow> asn1_string \<Rightarrow> bytes option \<Rightarrow> int \<Rightarrow> bool \<times> asn1_string" where
  "ASN1_STRING_set libc str data len =
     (case (if len < 0 then map_option cstrlen data else Some (nat len)) of
        None \<Rightarrow> (False, str)
      | Some n \<Rightarrow>
          (case (if as_length str \<le> n \<or> as_data str = None
                 then OPENSSL_realloc libc (as_data str) (n + 1) else as_data str) of
             None \<Rightarrow> (False, str)
           | Some block \<Rightarrow>
               (True, str\<lparr>as_length := n,
                  as_data := Some (case data of None \<Rightarrow> block | Some d \<Rightarrow> mem_copy block 0 (take n d @ [0]))\<rparr>)))"

definition ASN1_STRING_set0 :: "asn1_string \<Rightarrow> bytes option \<Rightarrow> nat \<Rightarrow> asn1_string" where
  "ASN1_STRING_set0 str data len = str\<lparr>as_data := data, as_length := len\<rparr>"

definition ASN1_STRING_type_new :: "(nat \<Rightarrow> bool) \<Rightarrow> int \<Rightarrow> asn1_string option" where
  "ASN1_STRING_type_new libc typ =
     (if \<not> OPENSSL_malloc libc 24 then None
      else Some \<lparr>as_length = 0, as_type = typ, as_data = None, as_flags = 0\<rparr>)"

definition ASN1_STRING_new :: "(nat \<Rightarrow> bool) \<Rightarrow> asn1_string option" where
  "ASN1_STRING_new libc = ASN1_STRING_type_new libc V_ASN1_OCTET_STRING"

definition ASN1_STRING_copy ::
    "(nat \<Rightarrow> bool) \<Rightarrow> asn1_string \<Rightarrow> asn1_string option \<Rightarrow> bool \<times> asn1_string" where
  "ASN1_STRING_copy libc dst str =
     (case str of
        None \<Rightarrow> (False, dst)
      | Some str \<Rightarrow>
          (case ASN1_STRING_set libc dst (as_data str) (int (as_length str)) of
             (False, dst) \<Rightarrow> (False, dst)
           | (True, dst) \<Rightarrow> (True, dst\<lparr>as_type := as_type str, as_flags := as_flags str\<rparr>)))"

definition ASN1_STRING_dup :: "(nat \<Rightarrow> bool) \<Rightarrow> asn1_string option \<Rightarrow> asn1_string option" where
  "ASN1_STRING_dup libc str =
     (case str of
        None \<Rightarrow> None
      | Some str \<Rightarrow>
          (case ASN1_STRING_new libc of
             None \<Rightarrow> None
           | Some ret \<Rightarrow>
               (case ASN1_STRING_copy libc ret (Some str) of
                  (False, _) \<Rightarrow> None
                | (True, ret) \<Rightarrow> Some ret)))"

text \<open>\<open>while (len > 0 && str->data[len - 1] == 0) len--;\<close>\<close>

fun strip_zeros :: "bytes \<Rightarrow> nat \<Rightarrow> nat" where
  "strip_zeros d 0 = 0"
| "strip_zeros d (Suc len) = (if d ! len = 0 then strip_zeros d len else Suc len)"

function padding_loop :: "byte \<Rightarrow> nat \<Rightarrow> nat" where
  "padding_loop lst padding_bits =
     (if padding_bits < 7 \<and> lst AND push_bit padding_bits 1 = 0 then padding_loop lst (padding_bits + 1)
      else padding_bits)"
  by pat_completeness auto
termination by (relation "measure (\<lambda>(_, p). 7 - p)") auto

declare padding_loop.simps [simp del]

definition asn1_bit_string_length :: "asn1_string \<Rightarrow> nat \<times> byte" where
  "asn1_bit_string_length str =
     (let len = as_length str
      in if as_flags str AND ASN1_STRING_FLAG_BITS_LEFT \<noteq> 0 then
           (len, if len = 0 then 0 else ucast (as_flags str AND 0x07))
         else
           (let d = (case as_data str of None \<Rightarrow> [] | Some d \<Rightarrow> d);
                len = strip_zeros d len
            in (len, if len > 0 then word_of_nat (padding_loop (d ! (len - 1)) 0) else 0)))"

definition ASN1_STRING_cmp :: "asn1_string \<Rightarrow> asn1_string \<Rightarrow> int" where
  "ASN1_STRING_cmp a b =
     (let block = \<lambda>s. (case as_data s of None \<Rightarrow> [] | Some d \<Rightarrow> d);
          (a_length, a_padding) =
            (if as_type a = V_ASN1_BIT_STRING then asn1_bit_string_length a else (as_length a, 0));
          (b_length, b_padding) =
            (if as_type b = V_ASN1_BIT_STRING then asn1_bit_string_length b else (as_length b, 0))
      in if a_length < b_length then - 1
         else if a_length > b_length then 1
         else if a_padding > b_padding then - 1
         else if a_padding < b_padding then 1
         else
           (let ret = mem_cmp (take a_length (block a)) (take a_length (block b))
            in if ret \<noteq> 0 then ret
               else if as_type a < as_type b then - 1
               else if as_type a > as_type b then 1
               else 0))"

section \<open>The value of a string\<close>

definition as_bytes :: "asn1_string \<Rightarrow> bytes" where
  "as_bytes str = (case as_data str of None \<Rightarrow> [] | Some d \<Rightarrow> take (as_length str) d)"

definition asn1_ok :: "asn1_string \<Rightarrow> bool" where
  "asn1_ok str \<longleftrightarrow> as_length str = length (as_bytes str)"

lemma asn1_ok_alt: "asn1_ok str \<longleftrightarrow> (case as_data str of None \<Rightarrow> as_length str = 0 | Some d \<Rightarrow> as_length str \<le> length d)"
  by (auto simp: asn1_ok_def as_bytes_def split: option.splits)

text \<open>Storing a value: it becomes the value of the string, a NUL behind it, and nothing else changes.\<close>

lemma ASN1_STRING_set_value:
  assumes "ASN1_STRING_set libc str (Some d) (int (length d)) = (True, str')"
  shows "as_bytes str' = d" "asn1_ok str'" "as_type str' = as_type str" "as_flags str' = as_flags str"
    and "\<exists>rest. as_data str' = Some (d @ 0 # rest)"
  using assms by (auto simp: ASN1_STRING_set_def as_bytes_def asn1_ok_def mem_copy_def split: option.splits)

lemma ASN1_STRING_set_fresh:
  assumes "as_data str = None" "\<forall>m. libc m" "length d < 2 ^ 32"
  shows "ASN1_STRING_set libc str (Some d) (int (length d)) =
    (True, str\<lparr>as_length := length d, as_data := Some (d @ [0])\<rparr>)"
  using assms by (simp add: ASN1_STRING_set_def OPENSSL_realloc_def OPENSSL_malloc_def OPENSSL_MALLOC_PREFIX_def
      mem_copy_def)

lemma ASN1_STRING_set_fail: "ASN1_STRING_set libc str data len = (False, str') \<Longrightarrow> str' = str"
  by (auto simp: ASN1_STRING_set_def split: option.splits if_splits)

lemma ASN1_STRING_copy_value:
  assumes "ASN1_STRING_copy libc dst (Some str) = (True, dst')" "asn1_ok str"
  shows "as_bytes dst' = as_bytes str" "as_type dst' = as_type str" "as_flags dst' = as_flags str"
proof -
  obtain d1 where d1: "ASN1_STRING_set libc dst (as_data str) (int (as_length str)) = (True, d1)"
    and d: "dst' = d1\<lparr>as_type := as_type str, as_flags := as_flags str\<rparr>"
    using assms(1) by (auto simp: ASN1_STRING_copy_def split: prod.splits bool.splits)
  have "as_bytes d1 = as_bytes str"
    using d1 assms(2)
    by (auto simp: ASN1_STRING_set_def as_bytes_def asn1_ok_def mem_copy_def split: option.splits)
  then show "as_bytes dst' = as_bytes str" "as_type dst' = as_type str" "as_flags dst' = as_flags str"
    by (simp_all add: d as_bytes_def split: option.splits)
qed

end
