(* ===== verification/Mbstring.thy ===== *)
theory Mbstring
  imports Unicode Asn1_String
begin

text \<open>
  \<open>ASN1_mbstring_ncopy\<close> (\<open>crypto/asn1/a_mbstr.c\<close>): a text in one of four encodings is stored in the first ASN.1
  string type of the mask that can hold its characters. The switch on the format of the input gives
  \<open>decode_func\<close>; the chain of conditions on the mask that remains gives the type, \<open>encode_func\<close> and the
  estimate of the size. The caller's pointer is NULL (\<open>No_Out\<close>), points to NULL (\<open>Out_Null\<close>) or to a
  string; after an error it can point to a string that has been freed (\<open>Out_Freed\<close>).

  \<open>mb_spec\<close> is what the function is for, without the two passes and the bit mask. The code computes it,
  and what it stores is read back as the text it was given.
\<close>

section \<open>The function of the source\<close>

definition B_ASN1_PRINTABLESTRING :: u64 where "B_ASN1_PRINTABLESTRING = 0x0002"
definition B_ASN1_T61STRING :: u64 where "B_ASN1_T61STRING = 0x0004"
definition B_ASN1_IA5STRING :: u64 where "B_ASN1_IA5STRING = 0x0010"
definition B_ASN1_UNIVERSALSTRING :: u64 where "B_ASN1_UNIVERSALSTRING = 0x0100"
definition B_ASN1_BMPSTRING :: u64 where "B_ASN1_BMPSTRING = 0x0800"
definition B_ASN1_UTF8STRING :: u64 where "B_ASN1_UTF8STRING = 0x2000"

definition V_ASN1_UTF8STRING :: int where "V_ASN1_UTF8STRING = 12"
definition V_ASN1_PRINTABLESTRING :: int where "V_ASN1_PRINTABLESTRING = 19"
definition V_ASN1_T61STRING :: int where "V_ASN1_T61STRING = 20"
definition V_ASN1_IA5STRING :: int where "V_ASN1_IA5STRING = 22"
definition V_ASN1_UNIVERSALSTRING :: int where "V_ASN1_UNIVERSALSTRING = 28"
definition V_ASN1_BMPSTRING :: int where "V_ASN1_BMPSTRING = 30"

definition DIRSTRING_TYPE :: u64 where
  "DIRSTRING_TYPE = B_ASN1_PRINTABLESTRING OR B_ASN1_T61STRING OR B_ASN1_BMPSTRING OR B_ASN1_UTF8STRING"

datatype mbstring = MBSTRING_UTF8 | MBSTRING_ASC | MBSTRING_BMP | MBSTRING_UNIV

text \<open>\<open>MBSTRING_FLAG\<close> and the four constants, read backwards: the switch on \<open>inform\<close>.\<close>

definition mbstring_of :: "int \<Rightarrow> mbstring option" where
  "mbstring_of inform =
     (if inform = 0x1002 then Some MBSTRING_BMP
      else if inform = 0x1004 then Some MBSTRING_UNIV
      else if inform = 0x1000 then Some MBSTRING_UTF8
      else if inform = 0x1001 then Some MBSTRING_ASC
      else None)"

datatype mb_error =
    UNKNOWN_FORMAT | INVALID_BMPSTRING | INVALID_UNIVERSALSTRING | INVALID_UTF8STRING | INTERNAL_ERROR
  | ILLEGAL_CHARACTERS | STRING_TOO_SHORT | STRING_TOO_LONG | MALLOC_FAILURE

fun decode_func :: "mbstring \<Rightarrow> cbs \<Rightarrow> (u32 \<times> cbs) option" where
  "decode_func MBSTRING_BMP = cbs_get_ucs2_be"
| "decode_func MBSTRING_UNIV = cbs_get_utf32_be"
| "decode_func MBSTRING_UTF8 = cbs_get_utf8"
| "decode_func MBSTRING_ASC = cbs_get_latin1"

fun decode_error :: "mbstring \<Rightarrow> mb_error" where
  "decode_error MBSTRING_BMP = INVALID_BMPSTRING"
| "decode_error MBSTRING_UNIV = INVALID_UNIVERSALSTRING"
| "decode_error MBSTRING_UTF8 = INVALID_UTF8STRING"
| "decode_error MBSTRING_ASC = INTERNAL_ERROR"

fun encode_func :: "mbstring \<Rightarrow> (nat \<Rightarrow> bool) \<Rightarrow> nat \<Rightarrow> u32 \<Rightarrow> cbb \<Rightarrow> bool \<times> cbb" where
  "encode_func MBSTRING_BMP = cbb_add_ucs2_be"
| "encode_func MBSTRING_UNIV = cbb_add_utf32_be"
| "encode_func MBSTRING_UTF8 = cbb_add_utf8"
| "encode_func MBSTRING_ASC = cbb_add_latin1"

definition asn1_is_printable :: "u32 \<Rightarrow> bool" where
  "asn1_is_printable c \<longleftrightarrow>
     \<not> c > 0x7f \<and>
     (0x61 \<le> c \<and> c \<le> 0x7a \<or> 0x41 \<le> c \<and> c \<le> 0x5a \<or> 0x30 \<le> c \<and> c \<le> 0x39 \<or>
      c = 0x20 \<or> c = 0x27 \<or> c = 0x28 \<or> c = 0x29 \<or> c = 0x2b \<or> c = 0x2c \<or> c = 0x2d \<or> c = 0x2e \<or>
      c = 0x2f \<or> c = 0x3a \<or> c = 0x3d \<or> c = 0x3f)"

text \<open>\<open>if ((mask & bit) && bad) mask &= ~bit;\<close>\<close>

definition drop_type :: "u64 \<Rightarrow> bool \<Rightarrow> u64 \<Rightarrow> u64" where
  "drop_type b bad m = (if m AND b \<noteq> 0 \<and> bad then m AND NOT b else m)"

definition narrow_mask :: "u32 \<Rightarrow> u64 \<Rightarrow> u64" where
  "narrow_mask c m =
     drop_type B_ASN1_BMPSTRING (c > 0xffff)
       (drop_type B_ASN1_T61STRING (c > 0xff)
         (drop_type B_ASN1_IA5STRING (c > 127)
           (drop_type B_ASN1_PRINTABLESTRING (\<not> asn1_is_printable c) m)))"

lemma decode_func_shorter: "decode_func f cbs = Some (c, r) \<Longrightarrow> length r < length cbs"
  by (cases f) (auto dest: utf8_codec.get_shorter latin1_codec.get_shorter ucs2_codec.get_shorter utf32_codec.get_shorter)

text \<open>The first loop: the mask of the types that are left, the number of characters and \<open>utf8_len\<close>.\<close>

function mb_scan :: "mbstring \<Rightarrow> cbs \<Rightarrow> u64 \<Rightarrow> nat \<Rightarrow> nat \<Rightarrow> mb_error + u64 \<times> nat \<times> nat" where
  "mb_scan f cbs m nchar utf8_len =
     (if CBS_len cbs = 0 then Inr (m, nchar, utf8_len)
      else case decode_func f cbs of
        None \<Rightarrow> Inl (decode_error f)
      | Some (c, cbs') \<Rightarrow>
          if nchar = 0 \<and> (f = MBSTRING_BMP \<or> f = MBSTRING_UNIV) \<and> c = 0xfeff then Inl ILLEGAL_CHARACTERS
          else
            (let m = narrow_mask c m
             in if m = 0 then Inl ILLEGAL_CHARACTERS
                else mb_scan f cbs' m (nchar + 1) (utf8_len + cbb_get_utf8_len c)))"
  by pat_completeness auto
termination by (relation "measure (\<lambda>(f, cbs, _). length cbs)") (auto dest: decode_func_shorter)

declare mb_scan.simps [simp del]

text \<open>\<open>str_type\<close>, \<open>outform\<close> (which decides \<open>encode_func\<close>) and \<open>size_estimate\<close>.\<close>

definition mb_output :: "u64 \<Rightarrow> nat \<Rightarrow> nat \<Rightarrow> (int \<times> mbstring \<times> nat) option" where
  "mb_output m nchar utf8_len =
     (if m AND B_ASN1_PRINTABLESTRING \<noteq> 0 then Some (V_ASN1_PRINTABLESTRING, MBSTRING_ASC, nchar)
      else if m AND B_ASN1_IA5STRING \<noteq> 0 then Some (V_ASN1_IA5STRING, MBSTRING_ASC, nchar)
      else if m AND B_ASN1_T61STRING \<noteq> 0 then Some (V_ASN1_T61STRING, MBSTRING_ASC, nchar)
      else if m AND B_ASN1_BMPSTRING \<noteq> 0 then Some (V_ASN1_BMPSTRING, MBSTRING_BMP, 2 * nchar)
      else if m AND B_ASN1_UNIVERSALSTRING \<noteq> 0 then Some (V_ASN1_UNIVERSALSTRING, MBSTRING_UNIV, 4 * nchar)
      else if m AND B_ASN1_UTF8STRING \<noteq> 0 then Some (V_ASN1_UTF8STRING, MBSTRING_UTF8, utf8_len)
      else None)"

text \<open>The second loop.\<close>

function mb_convert :: "(nat \<Rightarrow> bool) \<Rightarrow> mbstring \<Rightarrow> mbstring \<Rightarrow> cbs \<Rightarrow> cbb \<Rightarrow> bool \<times> cbb" where
  "mb_convert libc f g cbs s =
     (if CBS_len cbs = 0 then (True, s)
      else case decode_func f cbs of
        None \<Rightarrow> (False, s)
      | Some (c, cbs') \<Rightarrow> cbb_then (encode_func g libc 0 c s) (mb_convert libc f g cbs'))"
  by pat_completeness auto
termination by (relation "measure (\<lambda>(libc, f, g, cbs, s). length cbs)") (auto dest: decode_func_shorter)

declare mb_convert.simps [simp del]

datatype mb_out = No_Out | Out_Null | Out asn1_string | Out_Freed

text \<open>\<open>*out\<close> before the conversion: the string to store into, and whether to free it on an error.\<close>

definition mb_dest :: "(nat \<Rightarrow> bool) \<Rightarrow> mb_out \<Rightarrow> int \<Rightarrow> (asn1_string \<times> bool) option" where
  "mb_dest libc out str_type =
     (case out of
        Out dest \<Rightarrow>
          Some ((if as_data dest \<noteq> None then dest\<lparr>as_length := 0, as_data := None\<rparr> else dest)\<lparr>as_type := str_type\<rparr>, False)
      | _ \<Rightarrow> map_option (\<lambda>dest. (dest, True)) (ASN1_STRING_type_new libc str_type))"

definition mb_store ::
    "(nat \<Rightarrow> bool) \<Rightarrow> mb_out \<Rightarrow> bytes \<Rightarrow> int \<Rightarrow> mbstring \<Rightarrow> int \<Rightarrow> mbstring \<Rightarrow> nat \<Rightarrow> (mb_error + int) \<times> mb_out" where
  "mb_store libc out input len f str_type outform size_estimate =
     (case mb_dest libc out str_type of
        None \<Rightarrow> (Inl MALLOC_FAILURE, out)
      | Some (dest, free_out) \<Rightarrow>
          if f = outform then
            (case ASN1_STRING_set libc dest (Some input) len of
               (False, dest) \<Rightarrow> (Inl MALLOC_FAILURE, Out dest)
             | (True, dest) \<Rightarrow> (Inr str_type, Out dest))
          else
            (let err = (if free_out then Out_Freed else Out dest)
             in case CBB_init libc (size_estimate + 1) of
               None \<Rightarrow> (Inl MALLOC_FAILURE, err)
             | Some cbb \<Rightarrow>
                 (case mb_convert libc f outform (CBS_init input (nat len)) cbb of
                    (False, _) \<Rightarrow> (Inl INTERNAL_ERROR, err)
                  | (True, cbb) \<Rightarrow>
                      (case CBB_add_u8 libc 0 0 cbb of
                         (False, _) \<Rightarrow> (Inl INTERNAL_ERROR, err)
                       | (True, cbb) \<Rightarrow>
                           (case fst (CBB_finish libc True True 0 cbb) of
                              None \<Rightarrow> (Inl INTERNAL_ERROR, err)
                            | Some data \<Rightarrow>
                                if length data < 1 \<or> length data > 2 ^ 31 - 1 then (Inl INTERNAL_ERROR, err)
                                else (Inr str_type, Out (dest\<lparr>as_length := length data - 1, as_data := Some data\<rparr>)))))))"

text \<open>\<open>if (!mask) mask = DIRSTRING_TYPE;\<close>\<close>

definition mb_mask :: "u64 \<Rightarrow> u64" where
  "mb_mask m = (if m = 0 then DIRSTRING_TYPE else m)"

text \<open>What follows the first loop.\<close>

definition mb_finish ::
    "(nat \<Rightarrow> bool) \<Rightarrow> mb_out \<Rightarrow> bytes \<Rightarrow> int \<Rightarrow> mbstring \<Rightarrow> int \<Rightarrow> int \<Rightarrow> u64 \<Rightarrow> nat \<Rightarrow> nat \<Rightarrow>
       (mb_error + int) \<times> mb_out" where
  "mb_finish libc out input len f minsize maxsize m nchar utf8_len =
     (if minsize > 0 \<and> nchar < nat minsize then (Inl STRING_TOO_SHORT, out)
      else if maxsize > 0 \<and> nchar > nat maxsize then (Inl STRING_TOO_LONG, out)
      else case mb_output m nchar utf8_len of
        None \<Rightarrow> (Inl ILLEGAL_CHARACTERS, out)
      | Some (str_type, outform, size_estimate) \<Rightarrow>
          if out = No_Out then (Inr str_type, out)
          else mb_store libc out input len f str_type outform size_estimate)"

text \<open>\<open>len\<close> is \<open>- 1\<close> for a C string, and otherwise the length of the input. \<open>out\<close> is not \<open>Out_Freed\<close>.\<close>

definition ASN1_mbstring_ncopy ::
    "(nat \<Rightarrow> bool) \<Rightarrow> mb_out \<Rightarrow> bytes \<Rightarrow> int \<Rightarrow> int \<Rightarrow> u64 \<Rightarrow> int \<Rightarrow> int \<Rightarrow> (mb_error + int) \<times> mb_out" where
  "ASN1_mbstring_ncopy libc out input len inform m minsize maxsize =
     (let len = (if len = - 1 then int (cstrlen input) else len)
      in case mbstring_of inform of
           None \<Rightarrow> (Inl UNKNOWN_FORMAT, out)
         | Some f \<Rightarrow>
             (case mb_scan f (CBS_init input (nat len)) (mb_mask m) 0 0 of
                Inl e \<Rightarrow> (Inl e, out)
              | Inr (m, nchar, utf8_len) \<Rightarrow> mb_finish libc out input len f minsize maxsize m nchar utf8_len))"

definition ASN1_mbstring_copy ::
    "(nat \<Rightarrow> bool) \<Rightarrow> mb_out \<Rightarrow> bytes \<Rightarrow> int \<Rightarrow> int \<Rightarrow> u64 \<Rightarrow> (mb_error + int) \<times> mb_out" where
  "ASN1_mbstring_copy libc out input len inform m = ASN1_mbstring_ncopy libc out input len inform m 0 0"

text \<open>\<open>tag2nbyte\<close> and \<open>ASN1_STRING_to_UTF8\<close> of \<open>a_strex.c\<close>: the result, and \<open>*out\<close> if it is set.\<close>

definition tag2nbyte :: "int list" where
  "tag2nbyte =
     [-1, -1, -1, -1, -1,
      -1, -1, -1, -1, -1,
      -1, -1, 0, -1,
      -1, -1, -1, -1,
      1, 1, 1,
      -1, 1, 1, 1,
      -1, 1, -1,
      4, -1, 2]"

definition ASN1_STRING_to_UTF8 :: "(nat \<Rightarrow> bool) \<Rightarrow> asn1_string option \<Rightarrow> int \<times> bytes option" where
  "ASN1_STRING_to_UTF8 libc str =
     (case str of
        None \<Rightarrow> (- 1, None)
      | Some str \<Rightarrow>
          if as_type str < 0 \<or> as_type str > 30 then (- 1, None)
          else
            (let mbflag = tag2nbyte ! nat (as_type str)
             in if mbflag = - 1 then (- 1, None)
                else
                  (let stmp = \<lparr>as_length = 0, as_type = 0, as_data = None, as_flags = 0\<rparr>
                   in case ASN1_mbstring_copy libc (Out stmp) (case as_data str of None \<Rightarrow> [] | Some d \<Rightarrow> d)
                             (int (as_length str)) (mbflag OR 0x1000) B_ASN1_UTF8STRING of
                        (Inr _, Out stmp) \<Rightarrow> (int (as_length stmp), as_data stmp)
                      | _ \<Rightarrow> (- 1, None))))"

section \<open>What the function is for\<close>

text \<open>PrintableString of X.680, and the string types in the order of preference: the bit of the mask, the
  type, the encoding and the characters it can hold.\<close>

definition printable_char :: "nat \<Rightarrow> bool" where
  "printable_char n \<longleftrightarrow>
     n \<in> {0x41..0x5a} \<union> {0x61..0x7a} \<union> {0x30..0x39} \<union> of_char ` set '' '()+,-./:=?''"

definition mb_types :: "(nat \<times> int \<times> mbstring \<times> (nat \<Rightarrow> bool)) list" where
  "mb_types =
     [(1, V_ASN1_PRINTABLESTRING, MBSTRING_ASC, printable_char),
      (4, V_ASN1_IA5STRING, MBSTRING_ASC, \<lambda>n. n < 128),
      (2, V_ASN1_T61STRING, MBSTRING_ASC, \<lambda>n. n < 256),
      (11, V_ASN1_BMPSTRING, MBSTRING_BMP, \<lambda>n. n < 65536),
      (8, V_ASN1_UNIVERSALSTRING, MBSTRING_UNIV, \<lambda>n. True),
      (13, V_ASN1_UTF8STRING, MBSTRING_UTF8, \<lambda>n. True)]"

fun mb_enc :: "mbstring \<Rightarrow> u32 \<Rightarrow> bytes" where
  "mb_enc MBSTRING_UTF8 c = utf8 (unat c)"
| "mb_enc MBSTRING_ASC c = [word_of_nat (unat c)]"
| "mb_enc MBSTRING_BMP c = be_bytes 2 (unat c)"
| "mb_enc MBSTRING_UNIV c = be_bytes 4 (unat c)"

fun mb_ok :: "mbstring \<Rightarrow> u32 \<Rightarrow> bool" where
  "mb_ok MBSTRING_UTF8 c = unicode_char (unat c)"
| "mb_ok MBSTRING_ASC c = (unat c < 256)"
| "mb_ok MBSTRING_BMP c = (unat c < 65536 \<and> unicode_char (unat c))"
| "mb_ok MBSTRING_UNIV c = unicode_char (unat c)"

definition byte_order_mark :: "mbstring \<Rightarrow> u32 list \<Rightarrow> bool" where
  "byte_order_mark f cs \<longleftrightarrow> (f = MBSTRING_BMP \<or> f = MBSTRING_UNIV) \<and> cs \<noteq> [] \<and> hd cs = 0xfeff"

definition mb_choose :: "u64 \<Rightarrow> u32 list \<Rightarrow> (int \<times> mbstring) option" where
  "mb_choose m cs =
     map_option (\<lambda>(k, t, g, P). (t, g))
       (find (\<lambda>(k, t, g, P). bit m k \<and> list_all (\<lambda>c. P (unat c)) cs) mb_types)"

definition mb_wrong_size :: "int \<Rightarrow> int \<Rightarrow> nat \<Rightarrow> bool" where
  "mb_wrong_size minsize maxsize n \<longleftrightarrow> minsize > 0 \<and> int n < minsize \<or> maxsize > 0 \<and> int n > maxsize"

definition mb_spec :: "mbstring \<Rightarrow> bytes \<Rightarrow> u64 \<Rightarrow> int \<Rightarrow> int \<Rightarrow> (int \<times> mbstring \<times> u32 list) option" where
  "mb_spec f bs m minsize maxsize =
     (case get_all (decode_func f) bs of
        None \<Rightarrow> None
      | Some cs \<Rightarrow>
          if byte_order_mark f cs \<or> mb_wrong_size minsize maxsize (length cs) then None
          else map_option (\<lambda>(t, g). (t, g, cs)) (mb_choose (mb_mask m) cs))"

lemma decode_func_iff: "decode_func f bs = Some (x, r) \<longleftrightarrow> mb_ok f x \<and> bs = mb_enc f x @ r"
  by (cases f) (simp_all add: cbs_get_utf8_iff cbs_get_latin1_iff cbs_get_ucs2_be_iff cbs_get_utf32_be_iff)

lemma mb_enc_not_Nil: "mb_enc f x \<noteq> []"
  by (cases f) (simp_all add: utf8_not_Nil, (metis length_be_bytes list.size(3) zero_neq_numeral)+)

interpretation mb_codec: item_codec "decode_func f" "mb_enc f" "mb_ok f" for f
  by unfold_locales (simp_all only: decode_func_iff mb_enc_not_Nil not_False_eq_True)

lemma mb_ok_unicode: "mb_ok f c \<Longrightarrow> unicode_char (unat c)"
  by (cases f) (auto simp: unicode_char_def noncharacter_def)

section \<open>The mask\<close>

lemma asn1_is_printable_iff: "asn1_is_printable c \<longleftrightarrow> printable_char (unat c)"
  unfolding asn1_is_printable_def printable_char_def word_less_nat_alt word_le_nat_alt word_unat_eq_iff
  by (auto simp: not_less)

lemma and_push_bit_1: "m AND push_bit k 1 \<noteq> 0 \<longleftrightarrow> bit (m :: 'a::len word) k"
  by (metis and_exp_eq_0_iff_not_bit push_bit_of_1)

lemma mask_bits:
  "B_ASN1_PRINTABLESTRING = push_bit 1 1" "B_ASN1_IA5STRING = push_bit 4 1" "B_ASN1_T61STRING = push_bit 2 1"
  "B_ASN1_BMPSTRING = push_bit 11 1" "B_ASN1_UNIVERSALSTRING = push_bit 8 1" "B_ASN1_UTF8STRING = push_bit 13 1"
  by (simp_all add: B_ASN1_PRINTABLESTRING_def B_ASN1_IA5STRING_def B_ASN1_T61STRING_def B_ASN1_BMPSTRING_def
      B_ASN1_UNIVERSALSTRING_def B_ASN1_UTF8STRING_def)

lemma bit_drop_type: "bit (drop_type (push_bit k 1) bad m) j \<longleftrightarrow> bit m j \<and> \<not> (j = k \<and> bad)"
  unfolding drop_type_def and_push_bit_1 using bit_imp_le_length [of m j]
  by (auto simp: bit_simps)

lemma bit_narrow_mask:
  "bit (narrow_mask c m) j \<longleftrightarrow>
     bit m j \<and> (j = 1 \<longrightarrow> printable_char (unat c)) \<and> (j = 4 \<longrightarrow> unat c < 128) \<and> (j = 2 \<longrightarrow> unat c < 256) \<and>
     (j = 11 \<longrightarrow> unat c < 65536)"
  unfolding narrow_mask_def mask_bits bit_drop_type asn1_is_printable_iff
  by (auto simp: word_less_nat_alt not_less)

lemma bit_fold_narrow:
  "bit (fold narrow_mask cs m) j \<longleftrightarrow>
     bit m j \<and> (j = 1 \<longrightarrow> list_all (\<lambda>c. printable_char (unat c)) cs) \<and> (j = 4 \<longrightarrow> list_all (\<lambda>c. unat c < 128) cs) \<and>
     (j = 2 \<longrightarrow> list_all (\<lambda>c. unat c < 256) cs) \<and> (j = 11 \<longrightarrow> list_all (\<lambda>c. unat c < 65536) cs)"
  by (induction cs arbitrary: m) (auto simp: bit_narrow_mask)

lemma fold_narrow_0: "fold narrow_mask cs 0 = 0"
  by (rule bit_word_eqI) (simp add: bit_fold_narrow)

lemma mb_output_choose:
  "map_option (\<lambda>(t, g, _). (t, g)) (mb_output (fold narrow_mask cs m) n u) = mb_choose m cs"
  unfolding mb_output_def mask_bits and_push_bit_1 bit_fold_narrow
  by (simp add: mb_choose_def mb_types_def list_all_iff)

lemma mb_choose_0: "mb_choose 0 cs = None"
  by (simp add: mb_choose_def mb_types_def)

lemma mb_choose_narrow: "fold narrow_mask cs m = 0 \<Longrightarrow> mb_choose m cs = None"
  using mb_output_choose [of cs m 0 0] mb_output_choose [of "[]" 0 0 0] by (simp add: mb_choose_0)

section \<open>The first loop\<close>

lemma mb_scan_eq:
  "m \<noteq> 0 \<Longrightarrow>
   (case get_all (decode_func f) cbs of
     None \<Rightarrow> \<exists>e. mb_scan f cbs m n u = Inl e
   | Some cs \<Rightarrow>
       mb_scan f cbs m n u =
         (if n = 0 \<and> byte_order_mark f cs then Inl ILLEGAL_CHARACTERS
          else if fold narrow_mask cs m = 0 then Inl ILLEGAL_CHARACTERS
          else Inr (fold narrow_mask cs m, n + length cs, u + sum_list (map cbb_get_utf8_len cs))))"
proof (induction f cbs m n u rule: mb_scan.induct)
  case (1 f cbs m n u)
  show ?case
  proof (cases "cbs = []")
    case True
    then show ?thesis using "1.prems" by (subst mb_scan.simps) (simp add: CBS_len_def byte_order_mark_def)
  next
    case False
    show ?thesis
    proof (cases "decode_func f cbs")
      case None
      then show ?thesis
        using False by (subst mb_scan.simps) (simp add: get_all.simps [of _ cbs] CBS_len_def)
    next
      case (Some cr)
      obtain c r where cr: "cr = (c, r)" by fastforce
      have ga: "get_all (decode_func f) cbs = map_option (Cons c) (get_all (decode_func f) r)"
        using False Some [unfolded cr] decode_func_shorter [OF Some [unfolded cr]] by (rule get_all_step)
      let ?bom = "n = 0 \<and> (f = MBSTRING_BMP \<or> f = MBSTRING_UNIV) \<and> c = 0xfeff"
      have step: "mb_scan f cbs m n u =
          (if ?bom then Inl ILLEGAL_CHARACTERS
           else if narrow_mask c m = 0 then Inl ILLEGAL_CHARACTERS
           else mb_scan f r (narrow_mask c m) (n + 1) (u + cbb_get_utf8_len c))"
        using False by (subst mb_scan.simps) (simp add: Some cr CBS_len_def Let_def)
      consider "?bom" | "\<not> ?bom" "narrow_mask c m = 0" | "\<not> ?bom" "narrow_mask c m \<noteq> 0" by blast
      then show ?thesis
      proof cases
        case 1
        have "mb_scan f cbs m n u = Inl ILLEGAL_CHARACTERS" unfolding step if_P [OF 1] ..
        with 1 show ?thesis
          unfolding ga by (cases "get_all (decode_func f) r") (simp_all add: byte_order_mark_def)
      next
        case 2
        have "mb_scan f cbs m n u = Inl ILLEGAL_CHARACTERS" unfolding step if_not_P [OF 2(1)] if_P [OF 2(2)] ..
        with 2 show ?thesis
          unfolding ga by (cases "get_all (decode_func f) r") (simp_all add: fold_narrow_0)
      next
        case 3
        then have "CBS_len cbs \<noteq> 0" using False by (simp add: CBS_len_def)
        note IH = "1.IH" [OF this Some cr [symmetric] 3(1) refl 3(2) 3(2)]
        have bom: "n = 0 \<and> byte_order_mark f (c # cs) \<longleftrightarrow> False" for cs using 3(1) by (auto simp: byte_order_mark_def)
        from IH show ?thesis
          unfolding step ga using 3 bom by (auto split: option.splits)
      qed
    qed
  qed
qed

section \<open>The second loop\<close>

lemma encode_func_sim:
  "cbb_sim libc (encode_func g libc k c) (doc_char k (if mb_ok g c then Some (mb_enc g c) else None))"
  using cbb_add_utf8_sim [of libc k c] cbb_add_latin1_sim [of libc k c] cbb_add_ucs2_be_sim [of libc k c]
    cbb_add_utf32_be_sim [of libc k c]
  by (cases g) (simp_all only: encode_func.simps mb_ok.simps mb_enc.simps)

lemma mb_convert_sim:
  "list_all (mb_ok f) cs \<Longrightarrow> list_all (mb_ok g) cs \<Longrightarrow>
     cbb_sim libc (\<lambda>s. cbb_then (mb_convert libc f g (concat (map (mb_enc f) cs)) s) (CBB_add_u8 libc 0 0))
       (doc_add 0 (concat (map (mb_enc g) cs) @ [0]))"
proof (induction cs)
  case Nil
  have "mb_convert libc f g [] s = (True, s)" for s by (simp add: mb_convert.simps CBS_len_def)
  then show ?case using CBB_add_u8_sim [of libc 0 0] by (simp add: cbb_then_def)
next
  case (Cons c cs)
  let ?bs = "concat (map (mb_enc f) cs)"
  have "decode_func f (mb_enc f c @ ?bs) = Some (c, ?bs)"
    using Cons.prems(1) by (simp add: decode_func_iff)
  then have "mb_convert libc f g (mb_enc f c @ ?bs) s = cbb_then (encode_func g libc 0 c s) (mb_convert libc f g ?bs)" for s
    using mb_enc_not_Nil [of f c] by (subst mb_convert.simps) (simp add: CBS_len_def)
  moreover have "cbb_sim libc (encode_func g libc 0 c) (doc_add 0 (mb_enc g c))"
    using encode_func_sim [of libc g 0 c] Cons.prems(2) by (simp add: doc_char_Some)
  ultimately show ?case
    using cbb_sim_then [OF _ Cons.IH, of "encode_func g libc 0 c" "doc_add 0 (mb_enc g c)"] Cons.prems
    by (simp add: cbb_then_assoc doc_add_add)
qed

text \<open>The conversion is the usual frame around the loop and the final NUL.\<close>

lemma mb_convert_message:
  "(case CBB_init libc cap of
      None \<Rightarrow> (Inl MALLOC_FAILURE, err)
    | Some cbb \<Rightarrow>
        (case mb_convert libc f g bs cbb of
           (False, _) \<Rightarrow> (Inl INTERNAL_ERROR, err)
         | (True, cbb) \<Rightarrow>
             (case CBB_add_u8 libc 0 0 cbb of
                (False, _) \<Rightarrow> (Inl INTERNAL_ERROR, err)
              | (True, cbb) \<Rightarrow>
                  (case fst (CBB_finish libc True True 0 cbb) of
                     None \<Rightarrow> (Inl INTERNAL_ERROR, err)
                   | Some data \<Rightarrow> ok data)))) =
   (case cbb_message libc cap (\<lambda>s. cbb_then (mb_convert libc f g bs s) (CBB_add_u8 libc 0 0)) of
      None \<Rightarrow> (Inl (if CBB_init libc cap = None then MALLOC_FAILURE else INTERNAL_ERROR), err)
    | Some data \<Rightarrow> ok data)"
  by (auto simp: cbb_message_def cbb_then_def split: option.splits prod.splits bool.splits)

section \<open>The function computes its specification\<close>

lemma mb_output_size:
  "mb_output m n u = Some (t, g, est) \<Longrightarrow> u \<le> 4 * n \<Longrightarrow> est \<le> 4 * n"
  by (auto simp: mb_output_def split: if_splits)

lemma utf8_len_bound: "sum_list (map cbb_get_utf8_len cs) \<le> 4 * length cs"
  by (induction cs) (auto simp: cbb_get_utf8_len_def)

lemma length_mb_enc: "length (mb_enc f c) \<le> 4" "0 < length (mb_enc f c)"
  using mb_enc_not_Nil [of f c] by (cases f; simp add: length_utf8 cbb_get_utf8_len_def)+

lemma length_enc_bounds:
  "length (concat (map (mb_enc f) cs)) \<le> 4 * length cs \<and> length cs \<le> length (concat (map (mb_enc f) cs))"
proof (induction cs)
  case (Cons c cs)
  then show ?case using length_mb_enc [of f c] by (simp del: length_greater_0_conv)
qed simp

text \<open>A type that is chosen can hold every character.\<close>

lemma mb_choose_ok:
  assumes "mb_choose m cs = Some (t, g)" "list_all (mb_ok f) cs"
  shows "list_all (mb_ok g) cs"
proof -
  have u: "list_all (\<lambda>c. unicode_char (unat c)) cs"
    using assms(2) by (rule list.pred_mono_strong) (rule mb_ok_unicode)
  have p: "printable_char n \<Longrightarrow> n < 256" for n by (auto simp: printable_char_def)
  from assms(1) u show ?thesis
    by (auto simp: mb_choose_def mb_types_def list_all_iff split: if_splits dest: p)
qed

text \<open>\<open>mb_stored out out' t x\<close>: the value \<open>x\<close> of type \<open>t\<close> has been stored, with a NUL behind it.\<close>

definition mb_stored :: "mb_out \<Rightarrow> mb_out \<Rightarrow> int \<Rightarrow> bytes \<Rightarrow> bool" where
  "mb_stored out out' t x \<longleftrightarrow>
     (if out = No_Out then out' = No_Out
      else \<exists>s. out' = Out s \<and> as_type s = t \<and> as_length s = length x \<and> as_data s = Some (x @ [0]))"

lemma mb_dest_Some:
  assumes "\<forall>m. libc m"
  shows "\<exists>dest free_out. mb_dest libc out t = Some (dest, free_out) \<and> as_data dest = None \<and> as_type dest = t"
  using assms
  by (cases out) (auto simp: mb_dest_def ASN1_STRING_type_new_def OPENSSL_malloc_def OPENSSL_MALLOC_PREFIX_def)

lemma mb_store_ok:
  assumes libc: "\<forall>m. libc m" and f: "list_all (mb_ok f) cs" and g: "list_all (mb_ok g) cs"
    and input: "input = concat (map (mb_enc f) cs)" and len: "length cs < 2 ^ 28" "est \<le> 4 * length cs"
    and out: "out \<noteq> No_Out"
  shows "\<exists>out'. mb_store libc out input (int (length input)) f t g est = (Inr t, out') \<and>
    mb_stored out out' t (concat (map (mb_enc g) cs))"
proof -
  obtain dest free_out where dest: "mb_dest libc out t = Some (dest, free_out)" "as_data dest = None" "as_type dest = t"
    using mb_dest_Some [OF libc] by blast
  show ?thesis
  proof (cases "f = g")
    case True
    have "length input < 2 ^ 32" using length_enc_bounds [of f cs] len(1) by (simp add: input)
    from ASN1_STRING_set_fresh [OF dest(2) libc this] show ?thesis
      using True out by (simp add: mb_store_def dest mb_stored_def input)
  next
    case False
    let ?x = "concat (map (mb_enc g) cs) @ [0]"
    have l: "length ?x \<le> 4 * length cs + 1" using length_enc_bounds [of g cs] by simp
    have "cbb_message libc (est + 1) (\<lambda>s. cbb_then (mb_convert libc f g input s) (CBB_add_u8 libc 0 0)) = Some ?x"
      unfolding input using l len by (intro cbb_message_item(2) [OF mb_convert_sim [OF f g] libc]) simp_all
    then show ?thesis
      using False out l len(1) by (simp add: mb_store_def dest mb_convert_message Let_def CBS_init_def mb_stored_def)
  qed
qed

lemma mb_finish_size:
  "\<not> mb_wrong_size minsize maxsize n \<Longrightarrow> mb_finish libc out input len f minsize maxsize m n u =
     (case mb_output m n u of
        None \<Rightarrow> (Inl ILLEGAL_CHARACTERS, out)
      | Some (str_type, outform, size_estimate) \<Rightarrow>
          if out = No_Out then (Inr str_type, out)
          else mb_store libc out input len f str_type outform size_estimate)"
  "mb_wrong_size minsize maxsize n \<Longrightarrow> \<exists>e. mb_finish libc out input len f minsize maxsize m n u = (Inl e, out)"
  by (auto simp: mb_finish_def mb_wrong_size_def)

lemma mb_finish_spec:
  assumes f: "list_all (mb_ok f) cs" and input: "input = concat (map (mb_enc f) cs)"
    and libc: "\<forall>m. libc m" and len: "length input < 2 ^ 28" and n: "\<not> mb_wrong_size minsize maxsize (length cs)"
  shows "case mb_choose m cs of
      None \<Rightarrow> \<exists>e. mb_finish libc out input (int (length input)) f minsize maxsize
        (fold narrow_mask cs m) (length cs) (sum_list (map cbb_get_utf8_len cs)) = (Inl e, out)
    | Some (t, g) \<Rightarrow>
        \<exists>out'. mb_finish libc out input (int (length input)) f minsize maxsize
          (fold narrow_mask cs m) (length cs) (sum_list (map cbb_get_utf8_len cs)) = (Inr t, out') \<and>
          mb_stored out out' t (concat (map (mb_enc g) cs))"
proof -
  let ?u = "sum_list (map cbb_get_utf8_len cs)"
  show ?thesis
  proof (cases "mb_output (fold narrow_mask cs m) (length cs) ?u")
    case None
    then have "mb_choose m cs = None" using mb_output_choose [of cs m "length cs" ?u] by simp
    then show ?thesis by (simp add: mb_finish_size(1) [OF n] None)
  next
    case (Some o3)
    obtain t g est where o3: "o3 = (t, g, est)" by (cases o3)
    have choose: "mb_choose m cs = Some (t, g)"
      using mb_output_choose [of cs m "length cs" ?u] by (simp add: Some o3)
    have l: "length cs < 2 ^ 28" using length_enc_bounds [of f cs] input len by simp
    have est: "est \<le> 4 * length cs"
      using mb_output_size [OF Some [unfolded o3]] utf8_len_bound [of cs] by simp
    have "out \<noteq> No_Out \<Longrightarrow> \<exists>out'. mb_store libc out input (int (length input)) f t g est = (Inr t, out') \<and>
        mb_stored out out' t (concat (map (mb_enc g) cs))"
      by (rule mb_store_ok [OF libc f mb_choose_ok [OF choose f] input l est])
    then show ?thesis by (simp add: mb_finish_size(1) [OF n] Some o3 choose mb_stored_def)
  qed
qed

lemma ASN1_mbstring_ncopy_eq:
  assumes "mbstring_of inform = Some f"
  shows "ASN1_mbstring_ncopy libc out input (int (length input)) inform m minsize maxsize =
    (case mb_scan f input (mb_mask m) 0 0 of
       Inl e \<Rightarrow> (Inl e, out)
     | Inr (m, nchar, utf8_len) \<Rightarrow>
         mb_finish libc out input (int (length input)) f minsize maxsize m nchar utf8_len)"
  by (simp add: ASN1_mbstring_ncopy_def assms(1) CBS_init_def)

lemma mb_mask_not_0: "mb_mask m \<noteq> 0"
  by (simp add: mb_mask_def DIRSTRING_TYPE_def B_ASN1_PRINTABLESTRING_def B_ASN1_T61STRING_def B_ASN1_BMPSTRING_def
      B_ASN1_UTF8STRING_def)

lemma mb_ncopy_run:
  assumes inform: "mbstring_of inform = Some f" and libc: "\<forall>m. libc m" and len: "length input < 2 ^ 28"
  shows "case mb_spec f input m minsize maxsize of
      None \<Rightarrow> \<exists>e. ASN1_mbstring_ncopy libc out input (int (length input)) inform m minsize maxsize = (Inl e, out)
    | Some (t, g, cs) \<Rightarrow>
        \<exists>out'. ASN1_mbstring_ncopy libc out input (int (length input)) inform m minsize maxsize = (Inr t, out') \<and>
          mb_stored out out' t (concat (map (mb_enc g) cs))"
proof -
  note run = ASN1_mbstring_ncopy_eq [OF inform, of libc out input m minsize maxsize]
  note scan = mb_scan_eq [OF mb_mask_not_0, of f input m 0 0]
  show ?thesis
  proof (cases "get_all (decode_func f) input")
    case None
    then show ?thesis using scan by (auto simp: run mb_spec_def)
  next
    case (Some cs)
    have cs: "list_all (mb_ok f) cs" "input = concat (map (mb_enc f) cs)"
      using mb_codec.get_all_sound [OF Some] by auto
    let ?m = "fold narrow_mask cs (mb_mask m)" and ?u = "sum_list (map cbb_get_utf8_len cs)"
    consider "byte_order_mark f cs" | "\<not> byte_order_mark f cs" "?m = 0"
      | "\<not> byte_order_mark f cs" "?m \<noteq> 0" by blast
    then show ?thesis
    proof cases
      case 1
      then show ?thesis using scan by (simp add: run mb_spec_def Some)
    next
      case 2
      then show ?thesis using scan mb_choose_narrow [OF 2(2)] by (simp add: run mb_spec_def Some)
    next
      case 3
      then have s: "mb_scan f input (mb_mask m) 0 0 = Inr (?m, length cs, ?u)" using scan by (simp add: Some)
      show ?thesis
      proof (cases "mb_wrong_size minsize maxsize (length cs)")
        case True
        then show ?thesis using mb_finish_size(2) [OF True] by (simp add: run mb_spec_def Some s)
      next
        case False
        show ?thesis
          using mb_finish_spec [OF cs libc len False, where m = "mb_mask m" and out = out] 3(1) False
          by (cases "mb_choose (mb_mask m) cs") (auto simp: run mb_spec_def Some s)
      qed
    qed
  qed
qed

section \<open>Back to UTF-8\<close>

lemma ASN1_mbstring_ncopy_take:
  assumes "n \<le> length block"
  shows "ASN1_mbstring_ncopy libc out block (int n) inform m minsize maxsize =
    ASN1_mbstring_ncopy libc out (take n block) (int n) inform m minsize maxsize"
proof -
  have "mb_store libc out block (int n) f t g est = mb_store libc out (take n block) (int n) f t g est" for f t g est
    by (simp add: mb_store_def ASN1_STRING_set_def CBS_init_def split: option.splits)
  then have fin: "mb_finish libc out block (int n) = mb_finish libc out (take n block) (int n)"
    by (auto simp: fun_eq_iff mb_finish_def split: option.split)
  have n: "(if int n = - 1 then k else int n) = int n" for k by simp
  have cbs: "CBS_init block (nat (int n)) = CBS_init (take n block) (nat (int n))" by (simp add: CBS_init_def)
  show ?thesis unfolding ASN1_mbstring_ncopy_def Let_def n fin cbs ..
qed

text \<open>The encoding that a string type has, as \<open>tag2nbyte\<close> gives it.\<close>

lemma tag2nbyte_choose:
  assumes "mb_choose m cs = Some (t, g)"
  shows "0 \<le> t \<and> t \<le> 30 \<and> tag2nbyte ! nat t \<noteq> - 1 \<and> mbstring_of (tag2nbyte ! nat t OR 0x1000) = Some g"
proof -
  have "(t, g) \<in> (\<lambda>(k, t, g, P). (t, g)) ` set mb_types"
    using assms by (auto simp: mb_choose_def find_Some_iff image_iff Bex_def in_set_conv_nth) blast+
  then show ?thesis
    by (auto simp: mb_types_def V_ASN1_PRINTABLESTRING_def V_ASN1_IA5STRING_def V_ASN1_T61STRING_def
        V_ASN1_BMPSTRING_def V_ASN1_UNIVERSALSTRING_def V_ASN1_UTF8STRING_def tag2nbyte_def mbstring_of_def)
qed

lemma mb_choose_utf8: "mb_choose (mb_mask B_ASN1_UTF8STRING) cs = Some (V_ASN1_UTF8STRING, MBSTRING_UTF8)"
proof -
  have "mb_mask B_ASN1_UTF8STRING = push_bit 13 1" by (simp add: mb_mask_def B_ASN1_UTF8STRING_def)
  then have "bit (mb_mask B_ASN1_UTF8STRING) k \<longleftrightarrow> k = 13" for k
    unfolding \<open>mb_mask B_ASN1_UTF8STRING = push_bit 13 1\<close> bit_push_bit_iff by (auto simp: bit_1_iff possible_bit_def)
  then show ?thesis by (simp add: mb_choose_def mb_types_def list_all_iff)
qed

lemma ASN1_STRING_to_UTF8_value:
  assumes choose: "mb_choose m cs = Some (t, g)" and ok: "list_all (mb_ok g) cs" and bom: "\<not> byte_order_mark g cs"
    and str: "as_type str = t" "as_data str = Some (concat (map (mb_enc g) cs) @ rest)"
      "as_length str = length (concat (map (mb_enc g) cs))"
    and libc: "\<forall>m. libc m" and len: "length cs < 2 ^ 26"
  shows "ASN1_STRING_to_UTF8 libc (Some str) =
    (int (length (concat (map (mb_enc MBSTRING_UTF8) cs))), Some (concat (map (mb_enc MBSTRING_UTF8) cs) @ [0]))"
proof -
  let ?x = "concat (map (mb_enc g) cs)" and ?s = "\<lparr>as_length = 0, as_type = 0, as_data = None, as_flags = 0\<rparr>"
  let ?inform = "tag2nbyte ! nat t OR 0x1000"
  note t = tag2nbyte_choose [OF choose]
  have "length ?x < 2 ^ 28" using length_enc_bounds [of g cs] len by simp
  moreover have "mb_spec g ?x B_ASN1_UTF8STRING 0 0 = Some (V_ASN1_UTF8STRING, MBSTRING_UTF8, cs)"
    using bom by (simp add: mb_spec_def mb_codec.get_all_complete [OF ok] mb_wrong_size_def mb_choose_utf8)
  ultimately obtain out' where
    run: "ASN1_mbstring_copy libc (Out ?s) ?x (int (length ?x)) ?inform B_ASN1_UTF8STRING = (Inr V_ASN1_UTF8STRING, out')"
    and out': "mb_stored (Out ?s) out' V_ASN1_UTF8STRING (concat (map (mb_enc MBSTRING_UTF8) cs))"
    using mb_ncopy_run [of ?inform g libc ?x, where m = B_ASN1_UTF8STRING and minsize = 0 and maxsize = 0 and out = "Out ?s"] t libc
    by (auto simp: ASN1_mbstring_copy_def)
  have "ASN1_mbstring_copy libc (Out ?s) (?x @ rest) (int (length ?x)) ?inform B_ASN1_UTF8STRING =
      (Inr V_ASN1_UTF8STRING, out')"
    using run ASN1_mbstring_ncopy_take [of "length ?x" "?x @ rest"] by (simp add: ASN1_mbstring_copy_def)
  then show ?thesis
    using out' t unfolding str ASN1_STRING_to_UTF8_def
    by (auto simp: str mb_stored_def Let_def)
qed

lemma utf8_bom: "utf8 0xfeff = [0xef, 0xbb, 0xbf]"
  unfolding utf8_def utf8_tails by simp

text \<open>The letter e with an acute accent, from UTF-8.\<close>

lemma mb_spec_e_acute: "mb_spec MBSTRING_UTF8 [0xc3, 0xa9] 0 0 0 = Some (V_ASN1_T61STRING, MBSTRING_ASC, [0xe9])"
proof -
  have "utf8 0xe9 = [0xc3, 0xa9]" unfolding utf8_def utf8_tails by simp
  then have "get_all (decode_func MBSTRING_UTF8) [0xc3, 0xa9] = Some [0xe9]"
    using mb_codec.get_all_complete [of MBSTRING_UTF8 "[0xe9]"] by (simp add: unicode_char_def noncharacter_def)
  then show ?thesis
    by (simp add: mb_spec_def byte_order_mark_def mb_wrong_size_def mb_choose_def mb_types_def mb_mask_def printable_char_def
        DIRSTRING_TYPE_def B_ASN1_PRINTABLESTRING_def B_ASN1_T61STRING_def B_ASN1_BMPSTRING_def B_ASN1_UTF8STRING_def)
qed

lemma mb_copy_e_acute:
  "\<exists>s. ASN1_mbstring_copy (\<lambda>_. True) Out_Null [0xc3, 0xa9] (int (length [0xc3 :: byte, 0xa9])) 0x1000 0 =
    (Inr V_ASN1_T61STRING, Out s)"
  using mb_ncopy_run [where inform = "0x1000" and f = MBSTRING_UTF8 and libc = "\<lambda>_. True" and input = "[0xc3, 0xa9]"
        and m = 0 and minsize = 0 and maxsize = 0 and out = Out_Null]
  by (auto simp: mb_spec_e_acute mbstring_of_def ASN1_mbstring_copy_def mb_stored_def)

text \<open>The restriction on U+FEFF is needed: a text that is this character alone is stored as a BMPString, from
  which no text is given back. And if there is memory for the string but not for the conversion, the
  caller is left with a pointer to a string that has been freed.\<close>

lemma ASN1_mbstring_copy_bom:
  "\<exists>s. ASN1_mbstring_copy (\<lambda>_. True) Out_Null [0xef, 0xbb, 0xbf] 3 0x1000 B_ASN1_BMPSTRING = (Inr V_ASN1_BMPSTRING, Out s) \<and>
     ASN1_STRING_to_UTF8 (\<lambda>_. True) (Some s) = (- 1, None)"
proof -
  let ?s = "\<lparr>as_length = 0, as_type = 0, as_data = None, as_flags = 0\<rparr>"
  have cs: "list_all (mb_ok f) [0xfeff]" if "f \<noteq> MBSTRING_ASC" for f
    using that by (cases f) (simp_all add: unicode_char_def noncharacter_def)
  have "be_bytes (Suc (Suc 0)) 0xfeff = [0xfe, 0xff]" unfolding be_bytes_Suc be_bytes_0 by simp
  then have bmp: "be_bytes 2 0xfeff = [0xfe, 0xff]" by (simp only: numeral_2_eq_2)
  have "mb_spec MBSTRING_UTF8 [0xef, 0xbb, 0xbf] B_ASN1_BMPSTRING 0 0 = Some (V_ASN1_BMPSTRING, MBSTRING_BMP, [0xfeff])"
    using mb_codec.get_all_complete [OF cs, of MBSTRING_UTF8]
    by (simp add: mb_spec_def byte_order_mark_def mb_wrong_size_def mb_choose_def mb_types_def mb_mask_def
        B_ASN1_BMPSTRING_def utf8_bom)
  then obtain s where s: "ASN1_mbstring_copy (\<lambda>_. True) Out_Null [0xef, 0xbb, 0xbf] 3 0x1000 B_ASN1_BMPSTRING =
      (Inr V_ASN1_BMPSTRING, Out s)" "as_type s = V_ASN1_BMPSTRING" "as_length s = 2" "as_data s = Some [0xfe, 0xff, 0]"
    using mb_ncopy_run [where inform = "0x1000" and f = MBSTRING_UTF8 and libc = "\<lambda>_. True" and input = "[0xef, 0xbb, 0xbf]"
        and m = B_ASN1_BMPSTRING and minsize = 0 and maxsize = 0 and out = Out_Null]
    by (auto simp: mbstring_of_def ASN1_mbstring_copy_def mb_stored_def bmp)
  have "mb_spec MBSTRING_BMP [0xfe, 0xff] B_ASN1_UTF8STRING 0 0 = None"
    using mb_codec.get_all_complete [OF cs, of MBSTRING_BMP]
    by (simp add: mb_spec_def byte_order_mark_def bmp)
  then have "\<exists>e. ASN1_mbstring_copy (\<lambda>_. True) (Out ?s) [0xfe, 0xff, 0] 2 0x1002 B_ASN1_UTF8STRING = (Inl e, Out ?s)"
    using mb_ncopy_run [where inform = "0x1002" and f = MBSTRING_BMP and libc = "\<lambda>_. True" and input = "[0xfe, 0xff]"
        and m = B_ASN1_UTF8STRING and minsize = 0 and maxsize = 0 and out = "Out ?s"]
      ASN1_mbstring_ncopy_take [of 2 "[0xfe, 0xff, 0]"]
    by (auto simp: mbstring_of_def ASN1_mbstring_copy_def)
  then have "ASN1_STRING_to_UTF8 (\<lambda>_. True) (Some s) = (- 1, None)"
    by (auto simp: ASN1_STRING_to_UTF8_def s V_ASN1_BMPSTRING_def tag2nbyte_def Let_def)
  with s(1) show ?thesis by blast
qed

lemma ASN1_mbstring_copy_dangling:
  "ASN1_mbstring_copy (\<lambda>n. n = 32) Out_Null [0xc3, 0xa9] 2 0x1000 0 = (Inl MALLOC_FAILURE, Out_Freed)"
proof -
  let ?m = "fold narrow_mask [0xe9] (mb_mask 0)"
  have f: "mbstring_of 0x1000 = Some MBSTRING_UTF8" by (simp add: mbstring_of_def)
  have all: "get_all (decode_func MBSTRING_UTF8) [0xc3, 0xa9] = Some [0xe9]"
    and choose: "mb_choose (mb_mask 0) [0xe9] = Some (V_ASN1_T61STRING, MBSTRING_ASC)"
    using mb_spec_e_acute by (auto simp: mb_spec_def split: option.splits if_splits)
  have "?m \<noteq> 0" using mb_choose_narrow [of "[0xe9]" "mb_mask 0"] choose by auto
  then have scan: "mb_scan MBSTRING_UTF8 [0xc3, 0xa9] (mb_mask 0) 0 0 = Inr (?m, 1, 2)"
    using mb_scan_eq [OF mb_mask_not_0, of MBSTRING_UTF8 "[0xc3, 0xa9]" 0 0 0]
    unfolding all option.case by (simp add: byte_order_mark_def cbb_get_utf8_len_def)
  obtain est where "mb_output ?m 1 2 = Some (V_ASN1_T61STRING, MBSTRING_ASC, est)" "est \<le> 4"
    using mb_output_choose [of "[0xe9]" "mb_mask 0" 1 2] mb_output_size [of ?m 1 2] by (auto simp: choose)
  then show ?thesis
    using ASN1_mbstring_ncopy_eq [OF f, of "\<lambda>n. n = 32" Out_Null "[0xc3, 0xa9]"]
    by (simp add: ASN1_mbstring_copy_def scan mb_finish_def mb_store_def mb_dest_def ASN1_STRING_type_new_def
        OPENSSL_malloc_def OPENSSL_MALLOC_PREFIX_def CBB_init_def Let_def)
qed

section \<open>Properties\<close>

text \<open>C16: \<open>ASN1_mbstring_ncopy\<close> accepts exactly the valid texts of a permitted length, without a byte-order mark,
  for which the mask has a type that can hold every character; it stores the same characters in the
  encoding of the first such type, with a NUL behind them, and otherwise leaves the caller's string as it
  was.\<close>

theorem ASN1_mbstring_ncopy_spec:
  assumes "mbstring_of inform = Some f" "\<forall>m. libc m" "length input < 2 ^ 28"
  shows "case mb_spec f input m minsize maxsize of
      None \<Rightarrow> \<exists>e. ASN1_mbstring_ncopy libc out input (int (length input)) inform m minsize maxsize = (Inl e, out)
    | Some (t, g, cs) \<Rightarrow>
        \<exists>out'. ASN1_mbstring_ncopy libc out input (int (length input)) inform m minsize maxsize = (Inr t, out') \<and>
          mb_stored out out' t (concat (map (mb_enc g) cs))"
  using assms by (rule mb_ncopy_run)

theorem ASN1_mbstring_ncopy_spec_witness:
  "\<exists>out'. ASN1_mbstring_ncopy (\<lambda>_. True) Out_Null [0xc3, 0xa9] (int (length [0xc3 :: byte, 0xa9])) 0x1000 0 0 0 =
      (Inr V_ASN1_T61STRING, out') \<and> mb_stored Out_Null out' V_ASN1_T61STRING [0xe9]"
  using ASN1_mbstring_ncopy_spec [where inform = "0x1000" and f = MBSTRING_UTF8 and libc = "\<lambda>_. True" and input = "[0xc3, 0xa9]"
      and m = 0 and minsize = 0 and maxsize = 0 and out = Out_Null]
  by (simp add: mb_spec_e_acute mbstring_of_def)

text \<open>C17: a UTF-8 text that has been stored in an ASN.1 string, of whatever type the mask led to, is given back
  byte by byte by \<open>ASN1_STRING_to_UTF8\<close>, unless it begins with U+FEFF.\<close>

theorem ASN1_STRING_to_UTF8_roundtrip:
  assumes "ASN1_mbstring_copy libc out input (int (length input)) 0x1000 m = (Inr t, Out s)"
    and "out \<noteq> No_Out" "\<forall>m. libc m" "length input < 2 ^ 26" "take 3 input \<noteq> [0xef, 0xbb, 0xbf]"
  shows "ASN1_STRING_to_UTF8 libc (Some s) = (int (length input), Some (input @ [0]))"
proof -
  have f: "mbstring_of 0x1000 = Some MBSTRING_UTF8" by (simp add: mbstring_of_def)
  have run: "ASN1_mbstring_ncopy libc out input (int (length input)) 0x1000 m 0 0 = (Inr t, Out s)"
    using assms(1) by (simp add: ASN1_mbstring_copy_def)
  obtain g cs where spec: "mb_spec MBSTRING_UTF8 input m 0 0 = Some (t, g, cs)"
    and s: "mb_stored out (Out s) t (concat (map (mb_enc g) cs))"
    using mb_ncopy_run [OF f assms(3), where input = input and m = m and minsize = 0 and maxsize = 0 and out = out] assms(4) unfolding run by (auto split: option.splits)
  have all: "get_all (decode_func MBSTRING_UTF8) input = Some cs" and choose: "mb_choose (mb_mask m) cs = Some (t, g)"
    using spec by (auto simp: mb_spec_def split: option.splits if_splits)
  have cs: "list_all (mb_ok MBSTRING_UTF8) cs" "input = concat (map (mb_enc MBSTRING_UTF8) cs)"
    using mb_codec.get_all_sound [OF all] by auto
  have "\<not> byte_order_mark g cs"
  proof
    assume "byte_order_mark g cs"
    then obtain cs' where "cs = 0xfeff # cs'" by (cases cs) (auto simp: byte_order_mark_def)
    then show False using assms(5) cs(2) by (simp add: utf8_bom)
  qed
  moreover have "length cs < 2 ^ 26" using length_enc_bounds [of MBSTRING_UTF8 cs] assms(4) cs(2) by simp
  moreover have "as_type s = t" "as_data s = Some (concat (map (mb_enc g) cs) @ [0])"
      "as_length s = length (concat (map (mb_enc g) cs))"
    using s assms(2) by (auto simp: mb_stored_def)
  ultimately show ?thesis
    using ASN1_STRING_to_UTF8_value [OF choose mb_choose_ok [OF choose cs(1)]] assms(3) cs(2) by simp
qed

theorem ASN1_STRING_to_UTF8_roundtrip_witness:
  "\<exists>s. ASN1_mbstring_copy (\<lambda>_. True) Out_Null [0xc3, 0xa9] (int (length [0xc3 :: byte, 0xa9])) 0x1000 0 =
      (Inr V_ASN1_T61STRING, Out s) \<and>
    ASN1_STRING_to_UTF8 (\<lambda>_. True) (Some s) = (2, Some [0xc3, 0xa9, 0])"
proof -
  obtain s where s: "ASN1_mbstring_copy (\<lambda>_. True) Out_Null [0xc3, 0xa9] (int (length [0xc3 :: byte, 0xa9])) 0x1000 0 =
      (Inr V_ASN1_T61STRING, Out s)" using mb_copy_e_acute by blast
  from ASN1_STRING_to_UTF8_roundtrip [OF this] s show ?thesis by simp
qed

end
