(* ===== verification/Spec2Isabelle.thy ===== *)
theory Spec2Isabelle
  imports Cbb_Set Base64 Pbkdf Stack Pool Bn_Bytes Bio_Transfer Pb_Read Aead_Chacha Mbstring
begin

text \<open>
  A model of the C code of the repository and the theorems that make it correct.

  The repository is an iOS application. Its own code is Swift; its C code is that of the libraries it builds as pods, and
  the development models the ones that carry the logic its data goes through: BoringSSL
  (\<open>BingePodcast/Pods/BoringSSL-GRPC/src/crypto\<close>, written \<open>crypto/\<close> below, built for 64-bit little-endian processors with
  \<open>OPENSSL_NO_ASM\<close>), which gRPC uses for its connections, and nanopb (\<open>BingePodcast/Pods/nanopb\<close>), which Firestore uses for its
  messages. A part is translated function by function, each definition having the name of the C function; the paths and lines
  are in the manifest beside these theories.

  \<^bold>\<open>How the code is translated.\<close> A fixed-width integer is a \<open>word\<close> of its width, a \<open>size_t\<close> is a \<open>nat\<close> with the wrap-around
  written out where the code can overflow. A buffer is a list of bytes; where buffers may overlap or be reached through several
  pointers there is a memory or a heap of objects. A struct is a record. A function that can fail returns an option, a sum, or
  the code's own 0 and 1 with the state it leaves behind; \<open>malloc\<close> is a parameter that may refuse any request, so every
  out-of-memory branch is in the model. A loop is a recursive function with a termination proof; the loops over the ring buffer of
  a BIO pair and those that read from a BIO until its end are functions into \<open>option\<close>, and the theorems say that they return.
  A function pointer is an argument or a field of a table of methods. Callbacks of the application and \<open>qsort\<close>
  are parameters with their documented behaviour as a hypothesis, and every property with such a hypothesis has an instance where
  it holds.

  \<^bold>\<open>The parts, from the bottom up.\<close>

  \<^item> \<open>Prelude\<close> names the machine types and holds the lemmas on byte strings as numbers, on shifts and on streams of blocks.
    \<open>Internal\<close> is \<open>crypto/internal.h\<close>: byte order, rotations, and the constant-time masks with the comparisons they compute. \<open>Mem\<close> is
    \<open>crypto/mem.c\<close>.
  \<^item> \<open>Codec\<close> states as locales what it is to read exactly the encodings of something. \<open>Cbs\<close> is \<open>crypto/bytestring/cbs.c\<close>; \<open>Der\<close> and
    \<open>Der_Integer\<close> specify the distinguished encoding rules and prove the reader exact, and interpret the locales for tags,
    elements and integers.
  \<^item> \<open>Cbb\<close> is \<open>crypto/bytestring/cbb.c\<close>, the writer. \<open>Cbb_Spec\<close> is the abstract writer of nested documents and the simulation;
    \<open>Cbb_Roundtrip\<close> turns it into statements on finished messages and reads them back with \<open>Cbs\<close>; \<open>Qsort\<close> and \<open>Cbb_Set\<close> are the
    sorting of a SET OF.
  \<^item> \<open>Unicode\<close> is \<open>crypto/bytestring/unicode.c\<close>, four encodings of characters, each an instance of \<open>Codec\<close> and of the simulation of \<open>Cbb\<close>.
    \<open>Asn1_String\<close> is the string type of \<open>crypto/asn1\<close>, and \<open>Mbstring\<close> the choice of a string type for a text (\<open>a_mbstr.c\<close>) and the way
    back to UTF-8.
  \<^item> \<open>Base64\<close> is \<open>crypto/base64/base64.c\<close>, in constant time and as a stream.
  \<^item> \<open>Block_Hash\<close> is what the hashes share, as a locale over a block function; \<open>Md32\<close> is the collector of
    \<open>md32_common.h\<close> in it, \<open>Schedule\<close> the argument for circular message schedules. \<open>Sha1\<close>, \<open>Sha256\<close>, \<open>Md4\<close> and \<open>Md5\<close> interpret \<open>Md32\<close>,
    \<open>Sha512\<close> interprets \<open>Block_Hash\<close>; each is proved equal to its standard for any division of the message into pieces.
  \<^item> \<open>Digest\<close> is the table of digests of \<open>digest.c\<close> and \<open>digests.c\<close> and the locale \<open>digest_contract\<close>, interpreted for all nine. \<open>Hmac\<close> is proved
    from the contract alone, and \<open>Hkdf\<close>, \<open>Tls_Prf\<close> and \<open>Pbkdf\<close> from \<open>Hmac\<close>.
  \<^item> \<open>Chacha\<close> and \<open>Poly1305\<close> are the cipher and the authenticator of RFC 8439; \<open>Aead\<close> is the interface of authenticated
    encryption on a memory with aliasing, with the locale \<open>aead_method\<close> for its methods, and \<open>Aead_Chacha\<close> interprets it for
    ChaCha20-Poly1305 and XChaCha20-Poly1305.
  \<^item> \<open>Stack\<close>, \<open>Lhash\<close> and \<open>Pool\<close> are the containers: a growable array with binary search, a hash table that resizes, and the pool of
    shared buffers with its reference counts, as a step relation over threads that interleave. The pool uses the hash table
    through the locale \<open>lhash_functions\<close>.
  \<^item> \<open>Bn_Words\<close>, \<open>Bn\<close>, \<open>Bn_Add\<close> and \<open>Bn_Bytes\<close> are the integers of \<open>crypto/fipsmodule/bn\<close>: word loops, comparisons, signed addition and
    conversion from and to bytes.
  \<^item> \<open>Bio\<close> is \<open>bio.c\<close> with memory BIOs and BIO pairs on a heap of objects, where an access outside a buffer, like one to a freed
    object, has no result. \<open>Bio_Pair\<close> and \<open>Bio_Mem\<close> refine them to queues, \<open>Bio_Ops\<close> proves any sequence of
    operations safe, \<open>Bio_Stream\<close> and \<open>Bio_Transfer\<close> prove the functions that read until a count, until the end, or one ASN.1
    object, from a locale of byte sources and one of byte sinks, each interpreted for both kinds of BIO.
  \<^item> \<open>Pb\<close> and \<open>Pb_Decode\<close> are the streams and single values of nanopb, \<open>Pb_Wire\<close> the wire format, \<open>Pb_Message\<close> the walk over a C structure by its
    field descriptors, on a byte-addressed memory. \<open>Pb_Emit\<close> and \<open>Pb_Exact\<close> prove, from the locale \<open>pb_sink\<close> of output callbacks, that the encoder writes the
    message that a structure holds; \<open>Pb_Roundtrip\<close> interprets the locale for buffers, and \<open>Pb_Read\<close> reads tags, values and packed arrays back and cuts out submessages.

  \<^bold>\<open>What is shown.\<close> Readers accept exactly one encoding of each value and leave the rest; writers refine an abstract
  document; containers refine a list, a map and a queue; hashes, key derivation, cipher and authenticator equal their
  standards; integers are those of mathematics, every carry kept; constant-time code computes what its reference does; no
  sequence of operations on BIOs, and no interleaving of threads on a pool, follows a dangling pointer, and none on BIOs
  leaves a buffer; opening what was not sealed
  leaves nothing in the output. The findings of the manifest are the places where the code does not do this, most of
  them with a lemma that shows it: the lost carry at the end of Poly1305, the counter that wraps around under extra input,
  the varints of nanopb that overflow silently or are accepted without being numbers of 32 bits, the sign that
  \<open>BN_le2bn\<close> keeps, and others.

  \<^bold>\<open>Bounds.\<close> The recursion of \<open>tls1_P_hash\<close> and of PBKDF2 is bounded by the length of the output, since every round writes at least one
  byte. Encoding a nested message is bounded by a depth, and the theorem holds for every depth at which the structure in memory is a
  finite tree. The loops of ChaCha20, Poly1305, the texts and the stream functions end because the rest of the input gets
  shorter. Lengths are below \<open>2 ^ 64\<close> where the code relies on it, as in a process they are.

  \<^bold>\<open>Not modelled.\<close> The Swift application; the Objective-C and C++ pods (Firebase, gRPC, leveldb, abseil); upb, whose decoder works on
  tagged pointers and generated tables; TLS, X.509 and the templates of ASN.1; public-key cryptography and the modular arithmetic under it; AES and the
  other block ciphers; the functions that only call the operating system. Of nanopb the decoder of whole messages is
  left out: single values, packed arrays and the substreams of submessages are in. Addresses of heap objects, timing and the contents of freed memory
  are abstracted from; the error queue is the error value of the function.
\<close>

end
